(* ===== verification/Prelude.thy ===== *)
theory Prelude
  imports Main "HOL-Library.Word" "HOL-Library.Char_ord" "HOL-Library.List_Lexorder"
    "HOL-Library.Product_Lexorder"
begin

unbundle bit_operations_syntax

text \<open>
  Shared ground of the development: the machine types of the library under \<open>src/\<close>, the
  byte-string view of integers that every reader and writer uses, conversions between
  bytes and characters, and the generic facts on words and lists that the component
  theories rest on.
\<close>

section \<open>Machine types\<close>

type_synonym u8 = "8 word"
type_synonym u16 = "16 word"
type_synonym u32 = "32 word"
type_synonym u64 = "64 word"
type_synonym bytes = "u8 list"

text \<open>
  Signed integers are kept as their two's complement bit pattern (the source moves them
  with \<open>memcpy\<close> and \<open>static_cast\<close>); where the source compares or converts them as signed
  numbers the model reads them with \<open>sint\<close>.
\<close>

type_synonym i32 = "32 word"
type_synonym i64 = "64 word"

named_theorems byte_simps \<open>integers as byte strings\<close>
named_theorems len_simps \<open>lengths of encoded byte strings\<close>

section \<open>Words\<close>

lemma unat_plus_bounded:
  "unat (a :: 'a::len word) + unat b < 2 ^ LENGTH('a) \<Longrightarrow> unat (a + b) = unat a + unat b"
  by (simp add: unat_word_ariths)

lemma unat_minus_bounded: "(b :: 'a::len word) \<le> a \<Longrightarrow> unat (a - b) = unat a - unat b"
  by (simp add: unat_sub)

lemma unat_u64_bound: "unat (a :: u64) < 18446744073709551616"
  using unsigned_less [of a] by simp

lemma unat_u32_bound: "unat (a :: u32) < 4294967296"
  using unsigned_less [of a] by simp

lemma unat_u8_bound: "unat (a :: u8) < 256"
  using unsigned_less [of a] by simp

lemma unat_of_nat_u64: "n < 18446744073709551616 \<Longrightarrow> unat (of_nat n :: u64) = n"
  by (simp add: unat_of_nat take_bit_nat_eq_self)

lemma unat_of_nat_u32: "n < 4294967296 \<Longrightarrow> unat (of_nat n :: u32) = n"
  by (simp add: unat_of_nat take_bit_nat_eq_self)

lemma unat_of_nat_u8: "n < 256 \<Longrightarrow> unat (of_nat n :: u8) = n"
  by (simp add: unat_of_nat take_bit_nat_eq_self)

lemma unat_ucast_u32_u64 [simp]: "unat (ucast (a :: u32) :: u64) = unat a"
  by (simp add: unsigned_ucast_eq unsigned_take_bit_eq take_bit_nat_eq_self less_le_trans [OF unsigned_less])

lemma unat_ucast_u8_u64 [simp]: "unat (ucast (a :: u8) :: u64) = unat a"
  by (simp add: unsigned_ucast_eq unsigned_take_bit_eq take_bit_nat_eq_self less_le_trans [OF unsigned_less])

lemma unat_ucast_u16_u64 [simp]: "unat (ucast (a :: u16) :: u64) = unat a"
  by (simp add: unsigned_ucast_eq unsigned_take_bit_eq take_bit_nat_eq_self less_le_trans [OF unsigned_less])

lemma ucast_of_nat_u32_u64:
  "n < 4294967296 \<Longrightarrow> (ucast (of_nat n :: u32) :: u64) = of_nat n"
  by (simp add: word_unat_eq_iff unat_of_nat_u32 unat_of_nat_u64)

lemma of_nat_u64_eq_iff:
  "m < 18446744073709551616 \<Longrightarrow> n < 18446744073709551616 \<Longrightarrow>
   ((of_nat m :: u64) = of_nat n) = (m = n)"
  by (metis unat_of_nat_u64)

lemma unat_power2:
  assumes "k < LENGTH('a::len)"
  shows "unat (2 ^ k :: 'a word) = 2 ^ k"
proof -
  have "(2 ^ k :: nat) < 2 ^ LENGTH('a)" using assms by (rule power_strict_increasing) simp
  then have "unat (of_nat (2 ^ k) :: 'a word) = 2 ^ k" by (simp only: unat_of_nat mod_less)
  then show ?thesis by (simp only: of_nat_power of_nat_numeral)
qed

lemma xor_left_cancel [simp]: "(a :: 'a::len word) XOR x = a XOR y \<longleftrightarrow> x = y"
proof
  assume h: "a XOR x = a XOR y"
  have "a XOR (a XOR x) = a XOR (a XOR y)" by (simp only: h)
  then show "x = y" by (simp add: xor.assoc [symmetric])
qed simp

lemma xor_right_cancel [simp]: "x XOR (a :: 'a::len word) = y XOR a \<longleftrightarrow> x = y"
  by (metis xor.commute xor_left_cancel)

lemma unat_push_bit_bounded:
  "unat (w :: 'a::len word) * 2 ^ s < 2 ^ LENGTH('a) \<Longrightarrow> unat (push_bit s w) = unat w * 2 ^ s"
  by (metis push_bit_eq_mult take_bit_nat_eq_self unsigned_push_bit_eq)

text \<open>A power of two, as the source tests it: \<open>a & (a - 1)\<close> is zero.\<close>

lemma and_mask_below:
  fixes v :: "'a::len word"
  assumes "k < LENGTH('a)"
  shows "v AND NOT (2 ^ k - 1) = push_bit k (drop_bit k v)"
proof (rule bit_word_eqI)
  fix n assume "n < LENGTH('a)"
  then show "bit (v AND NOT (2 ^ k - 1)) n = bit (push_bit k (drop_bit k v)) n"
    by (auto simp: bit_simps bit_mask_iff simp flip: mask_eq_exp_minus_1)
qed

lemma unat_and_mask_below:
  fixes v :: "'a::len word"
  assumes "k < LENGTH('a)"
  shows "unat (v AND NOT (2 ^ k - 1)) = unat v div 2 ^ k * 2 ^ k"
proof -
  have "unat (push_bit k (drop_bit k v)) = unat v div 2 ^ k * 2 ^ k"
  proof -
    have "unat (drop_bit k v) = unat v div 2 ^ k"
      by (metis unat_drop_bit_eq drop_bit_eq_div)
    moreover have "unat v div 2 ^ k * 2 ^ k < 2 ^ LENGTH('a)"
      by (rule le_less_trans [OF div_times_less_eq_dividend unsigned_less])
    ultimately show ?thesis
      by (metis push_bit_eq_mult take_bit_nat_eq_self unsigned_push_bit_eq)
  qed
  then show ?thesis by (simp add: and_mask_below [OF assms])
qed

lemma power_of_two_exists:
  fixes a :: "'a::len word"
  assumes "a \<noteq> 0" "a AND (a - 1) = 0"
  shows "\<exists>k < LENGTH('a). a = 2 ^ k"
proof -
  from assms(1) obtain n where "bit a n" by (auto simp: bit_eq_iff)
  define k where "k = (LEAST n. bit a n)"
  have bk: "bit a k" unfolding k_def by (rule LeastI) fact
  have low: "\<not> bit a i" if "i < k" for i
    using that not_less_Least unfolding k_def by blast
  have kl: "k < LENGTH('a)" using bk by (rule bit_imp_le_length)
  show ?thesis
  proof (cases "drop_bit (Suc k) a = 0")
    case True
    have "a = 2 ^ k"
    proof (rule bit_word_eqI)
      fix i assume "i < LENGTH('a)"
      have "bit a i = (i = k)"
      proof (cases "i > k")
        case True
        then have "bit a i = bit (drop_bit (Suc k) a) (i - Suc k)" by (simp add: bit_simps)
        then show ?thesis using True \<open>drop_bit (Suc k) a = 0\<close> by simp
      next
        case False
        then show ?thesis using bk low by (cases "i = k") auto
      qed
      then show "bit a i = bit (2 ^ k :: 'a word) i" using kl by (auto simp: bit_simps)
    qed
    with kl show ?thesis by blast
  next
    case False
    then obtain j where j: "bit a (Suc k + j)" by (auto simp: bit_eq_iff bit_simps)
    define i where "i = Suc k + j"
    have bi: "bit a i" using j by (simp add: i_def)
    have "bit (a - 1) i"
    proof -
      have ki: "k < i" by (simp add: i_def)
      have "a - 1 = push_bit (Suc k) (drop_bit (Suc k) a) OR mask k"
      proof -
        have a: "a = push_bit (Suc k) (drop_bit (Suc k) a) OR 2 ^ k"
        proof (rule bit_word_eqI)
          fix m assume "m < LENGTH('a)"
          then show "bit a m = bit (push_bit (Suc k) (drop_bit (Suc k) a) OR 2 ^ k) m"
            using bk low kl by (cases m k rule: linorder_cases) (auto simp: bit_simps simp del: push_bit_Suc)
        qed
        have "push_bit (Suc k) (drop_bit (Suc k) a) OR 2 ^ k =
              push_bit (Suc k) (drop_bit (Suc k) a) + 2 ^ k"
          by (rule disjunctive_add_eq_or [symmetric]) (rule bit_word_eqI, auto simp: bit_simps simp del: push_bit_Suc)
        moreover have "push_bit (Suc k) (drop_bit (Suc k) a) OR mask k =
              push_bit (Suc k) (drop_bit (Suc k) a) + mask k"
          by (rule disjunctive_add_eq_or [symmetric]) (rule bit_word_eqI, auto simp: bit_simps simp del: push_bit_Suc)
        ultimately show ?thesis using a by (simp add: mask_eq_exp_minus_1)
      qed
      moreover have "i < LENGTH('a)" using bi by (rule bit_imp_le_length)
      ultimately show ?thesis using bi ki by (simp add: bit_simps del: push_bit_Suc)
    qed
    with bi have "bit (a AND (a - 1)) i" by (simp add: bit_simps)
    with assms(2) show ?thesis by simp
  qed
qed

section \<open>Integers as byte strings\<close>

text \<open>
  \<open>be_value\<close> is the loop \<open>value = (value << 8) | p[i]\<close> over the bytes in order,
  \<open>le_value\<close> the same loop with \<open>i\<close> counting down; \<open>le_bytes n v\<close> is the loop
  \<open>for (shift = 0; ...; shift += 8) push_back(value >> shift)\<close> of every writer.
\<close>

definition be_value :: "bytes \<Rightarrow> 'a::len word" where
  "be_value bs = foldl (\<lambda>v b. push_bit 8 v OR ucast b) 0 bs"

definition le_value :: "bytes \<Rightarrow> 'a::len word" where
  "le_value bs = be_value (rev bs)"

definition le_bytes :: "nat \<Rightarrow> 'a::len word \<Rightarrow> bytes" where
  "le_bytes n v = map (\<lambda>i. ucast (drop_bit (8 * i) v)) [0..<n]"

definition be_bytes :: "nat \<Rightarrow> 'a::len word \<Rightarrow> bytes" where
  "be_bytes n v = rev (le_bytes n v)"

lemma length_le_bytes [simp, len_simps]: "length (le_bytes n v) = n"
  by (simp add: le_bytes_def)

lemma length_be_bytes [simp, len_simps]: "length (be_bytes n v) = n"
  by (simp add: be_bytes_def)

lemma be_value_Nil [simp]: "be_value [] = 0"
  by (simp add: be_value_def)

lemma be_value_snoc: "be_value (bs @ [b]) = push_bit 8 (be_value bs) OR ucast b"
  by (simp add: be_value_def)

lemma bit_be_value:
  "bit (be_value bs :: 'a::len word) k \<longleftrightarrow>
     k < LENGTH('a) \<and> k div 8 < length bs \<and> bit (rev bs ! (k div 8)) (k mod 8)"
proof (induction bs arbitrary: k rule: rev_induct)
  case Nil
  then show ?case by simp
next
  case (snoc b bs)
  show ?case
  proof (cases "k < 8")
    case True
    then show ?thesis by (auto simp: be_value_snoc bit_simps)
  next
    case False
    then obtain m where k: "k = m + 8" by (metis add.commute le_Suc_ex not_less)
    have "\<not> bit b k" using False bit_imp_le_length [of b k] by auto
    moreover have "(m + 8) div 8 = Suc (m div 8)" "(m + 8) mod 8 = m mod 8" by simp_all
    ultimately show ?thesis
      unfolding be_value_snoc by (simp add: bit_simps snoc.IH k) linarith
  qed
qed

lemma bit_le_value:
  "bit (le_value bs :: 'a::len word) k \<longleftrightarrow>
     k < LENGTH('a) \<and> k div 8 < length bs \<and> bit (bs ! (k div 8)) (k mod 8)"
  by (simp add: le_value_def bit_be_value)

lemma bit_le_bytes_nth:
  "i < n \<Longrightarrow> bit (le_bytes n (v :: 'a::len word) ! i) k \<longleftrightarrow> k < 8 \<and> bit v (8 * i + k)"
  by (auto simp: le_bytes_def bit_simps dest: bit_imp_le_length)

lemma le_value_le_bytes [simp, byte_simps]:
  assumes "LENGTH('a::len) \<le> 8 * n"
  shows "le_value (le_bytes n v) = (v :: 'a word)"
proof (rule bit_word_eqI)
  fix k assume k: "k < LENGTH('a)"
  then have "k div 8 < n" using assms by (simp add: less_mult_imp_div_less mult.commute)
  with k show "bit (le_value (le_bytes n v) :: 'a word) k = bit v k"
    by (simp add: bit_le_value bit_le_bytes_nth)
qed

lemma le_bytes_le_value [simp, byte_simps]:
  assumes "8 * length bs \<le> LENGTH('a::len)"
  shows "le_bytes (length bs) (le_value bs :: 'a word) = bs"
proof (rule nth_equalityI)
  fix i assume "i < length (le_bytes (length bs) (le_value bs :: 'a word))"
  then have i: "i < length bs" by simp
  show "le_bytes (length bs) (le_value bs :: 'a word) ! i = bs ! i"
  proof (rule bit_word_eqI)
    fix k assume "k < LENGTH(8)"
    with i assms show "bit (le_bytes (length bs) (le_value bs :: 'a word) ! i) k = bit (bs ! i) k"
      by (auto simp: bit_le_bytes_nth bit_le_value)
  qed
qed simp

lemma le_value_inject:
  assumes "length xs = length ys" "8 * length ys \<le> LENGTH('a::len)"
    and "(le_value xs :: 'a word) = le_value ys"
  shows "xs = ys"
proof -
  have "xs = le_bytes (length xs) (le_value xs :: 'a word)"
    using assms by (intro le_bytes_le_value [symmetric]) simp
  also have "\<dots> = le_bytes (length ys) (le_value ys :: 'a word)"
    by (simp only: assms)
  also have "\<dots> = ys" using assms(2) by (rule le_bytes_le_value)
  finally show ?thesis .
qed

lemma be_value_be_bytes [simp, byte_simps]:
  "LENGTH('a::len) \<le> 8 * n \<Longrightarrow> be_value (be_bytes n v) = (v :: 'a word)"
  using le_value_le_bytes [of n v] by (simp add: le_value_def be_bytes_def)

text \<open>
  Values narrower than the word they are read into (\<open>read_integer\<close> assembles one, two, four or
  eight bytes in a 64-bit accumulator).
\<close>

lemma le_value_le_bytes_narrow:
  "(le_value (le_bytes n v) :: 'a word) = take_bit (8 * n) (v :: 'a::len word)"
proof (rule bit_word_eqI)
  fix k assume k: "k < LENGTH('a)"
  have "k div 8 < n \<longleftrightarrow> k < 8 * n"
    by (metis div_less_iff_less_mult mult.commute zero_less_numeral)
  with k show "bit (le_value (le_bytes n v) :: 'a word) k = bit (take_bit (8 * n) v) k"
    by (auto simp: bit_le_value bit_le_bytes_nth bit_simps)
qed

section \<open>Characters and bytes\<close>

text \<open>A \<open>std::string\<close> is a sequence of 8-bit \<open>char\<close>s, as HOL's \<open>string\<close> is.\<close>

definition char_of_byte :: "u8 \<Rightarrow> char" where
  "char_of_byte b = char_of (unat b)"

definition byte_of_char :: "char \<Rightarrow> u8" where
  "byte_of_char c = of_nat (of_char c)"

abbreviation string_of_bytes :: "bytes \<Rightarrow> string" where
  "string_of_bytes \<equiv> map char_of_byte"

abbreviation bytes_of_string :: "string \<Rightarrow> bytes" where
  "bytes_of_string \<equiv> map byte_of_char"

lemma byte_of_char_of_byte [simp, byte_simps]: "byte_of_char (char_of_byte b) = b"
  by (simp add: byte_of_char_def char_of_byte_def of_char_of unat_u8_bound)

lemma char_of_byte_of_char [simp, byte_simps]: "char_of_byte (byte_of_char c) = c"
  by (simp add: byte_of_char_def char_of_byte_def unat_of_nat_u8)

lemma byte_char_comp [simp, byte_simps]:
  "byte_of_char \<circ> char_of_byte = id" "char_of_byte \<circ> byte_of_char = id"
  by (simp_all add: fun_eq_iff)

lemma string_bytes_inverse [simp, byte_simps]: "bytes_of_string (string_of_bytes bs) = bs"
  by (induction bs) auto

lemma bytes_string_inverse [simp, byte_simps]: "string_of_bytes (bytes_of_string s) = s"
  by (induction s) auto

text \<open>\<open>std::to_string\<close> on an unsigned value: its decimal digits.\<close>

fun to_string :: "nat \<Rightarrow> string" where
  "to_string n = (if n < 10 then [char_of (48 + n)]
                  else to_string (n div 10) @ [char_of (48 + n mod 10)])"

declare to_string.simps [simp del]

section \<open>Lists\<close>

text \<open>Overwrite the elements from position \<open>i\<close> on: \<open>memcpy(dst + i, src, n)\<close>.\<close>

definition splice :: "nat \<Rightarrow> 'a list \<Rightarrow> 'a list \<Rightarrow> 'a list" where
  "splice i src dst = take i dst @ src @ drop (i + length src) dst"

lemma length_splice [simp]: "i + length src \<le> length dst \<Longrightarrow> length (splice i src dst) = length dst"
  by (simp add: splice_def)

lemma nth_splice:
  "i + length src \<le> length dst \<Longrightarrow> k < length dst \<Longrightarrow>
   splice i src dst ! k = (if i \<le> k \<and> k < i + length src then src ! (k - i) else dst ! k)"
  by (auto simp: splice_def nth_append min_def)

lemma take_drop_splice [simp]:
  "i + length src \<le> length dst \<Longrightarrow> take (length src) (drop i (splice i src dst)) = src"
  by (simp add: splice_def)

lemma splice_restore:
  assumes "i + length src \<le> length dst" "old = take (length src) (drop i dst)"
  shows "splice i old (splice i src dst) = dst"
proof -
  from assms have len: "length old = length src" by simp
  have "splice i old (splice i src dst) = take i dst @ old @ drop (i + length src) dst"
    using assms(1) len by (simp add: splice_def)
  also have "\<dots> = dst"
    using assms by (metis add.commute append_take_drop_id drop_drop)
  finally show ?thesis .
qed

lemma splice_Nil [simp]: "splice i [] dst = dst"
  by (simp add: splice_def)

end
