(* ===== verification/Base.thy ===== *)
theory Base
  imports Prelude
begin

unbundle bit_operations_syntax

text \<open>
  The vocabulary of \<open>include/binforge/binforge.h\<close> and the arithmetic of \<open>src/base.cc\<close>:
  error values, limits, the enumerations and structures of the normalized image, the checked
  64-bit arithmetic, \<open>range_inside\<close> and \<open>crc32\<close>. A C++ scoped enumeration can hold any value
  of its underlying type after a \<open>static_cast\<close>; the enumerations that the manifest decoder
  casts without a range check have a last constructor \<open>..._other\<close> for those values.
\<close>

section \<open>Errors and limits\<close>

datatype ErrorCode =
    none | truncated | bad_magic | unsupported_format | unsupported_class | unsupported_endian
  | invalid_header | invalid_offset | invalid_count | invalid_alignment | invalid_string
  | invalid_section | invalid_segment | invalid_symbol | invalid_relocation | invalid_debug_info
  | address_overflow | file_range_overflow | mapping_overlap | mapping_missing
  | permission_denied | unresolved_import | duplicate_export | resource_limit | internal_error

record Error =
  err_code :: ErrorCode
  err_offset :: u64
  err_message :: string

abbreviation mk_error :: "ErrorCode \<Rightarrow> u64 \<Rightarrow> string \<Rightarrow> Error" where
  "mk_error c off msg \<equiv> \<lparr>err_code = c, err_offset = off, err_message = msg\<rparr>"

text \<open>\<open>Error::clear\<close>, and the state of an \<open>Error\<close> that nothing has set.\<close>

definition no_error :: Error where
  "no_error = mk_error none 0 []"

definition error_clear :: "Error \<Rightarrow> Error" where
  "error_clear e = e\<lparr>err_code := none, err_offset := 0, err_message := []\<rparr>"

definition error_set :: "Error \<Rightarrow> bool" where
  "error_set e \<longleftrightarrow> err_code e \<noteq> none"

fun error_code_name :: "ErrorCode \<Rightarrow> string" where
  "error_code_name none = ''none''"
| "error_code_name truncated = ''truncated''"
| "error_code_name bad_magic = ''bad_magic''"
| "error_code_name unsupported_format = ''unsupported_format''"
| "error_code_name unsupported_class = ''unsupported_class''"
| "error_code_name unsupported_endian = ''unsupported_endian''"
| "error_code_name invalid_header = ''invalid_header''"
| "error_code_name invalid_offset = ''invalid_offset''"
| "error_code_name invalid_count = ''invalid_count''"
| "error_code_name invalid_alignment = ''invalid_alignment''"
| "error_code_name invalid_string = ''invalid_string''"
| "error_code_name invalid_section = ''invalid_section''"
| "error_code_name invalid_segment = ''invalid_segment''"
| "error_code_name invalid_symbol = ''invalid_symbol''"
| "error_code_name invalid_relocation = ''invalid_relocation''"
| "error_code_name invalid_debug_info = ''invalid_debug_info''"
| "error_code_name address_overflow = ''address_overflow''"
| "error_code_name file_range_overflow = ''file_range_overflow''"
| "error_code_name mapping_overlap = ''mapping_overlap''"
| "error_code_name mapping_missing = ''mapping_missing''"
| "error_code_name permission_denied = ''permission_denied''"
| "error_code_name unresolved_import = ''unresolved_import''"
| "error_code_name duplicate_export = ''duplicate_export''"
| "error_code_name resource_limit = ''resource_limit''"
| "error_code_name internal_error = ''internal_error''"

record Limits =
  max_file_size :: u64
  max_mapped_bytes :: u64
  max_section_bytes :: u64
  max_debug_bytes :: u64
  max_string_bytes :: u64
  max_sections :: u32
  max_segments :: u32
  max_symbols :: u32
  max_relocations :: u32
  max_imports :: u32
  max_exports :: u32
  max_debug_units :: u32
  max_debug_depth :: u32
  max_line_rows :: u32
  max_disassembly_instructions :: u32
  page_size :: u32

definition default_limits :: Limits where
  "default_limits = \<lparr>
     max_file_size = 256 * 1024 * 1024,
     max_mapped_bytes = 512 * 1024 * 1024,
     max_section_bytes = 128 * 1024 * 1024,
     max_debug_bytes = 64 * 1024 * 1024,
     max_string_bytes = 1 * 1024 * 1024,
     max_sections = 65536,
     max_segments = 65536,
     max_symbols = 1000000,
     max_relocations = 2000000,
     max_imports = 250000,
     max_exports = 250000,
     max_debug_units = 65536,
     max_debug_depth = 128,
     max_line_rows = 2000000,
     max_disassembly_instructions = 1000000,
     page_size = 4096\<rparr>"

text \<open>Small limits, for the witnesses.\<close>

definition demo_limits :: Limits where
  "demo_limits = default_limits\<lparr>max_file_size := 64, max_mapped_bytes := 64, max_sections := 8,
     max_segments := 8, max_symbols := 8, max_relocations := 8, max_debug_bytes := 256,
     max_debug_units := 8, max_debug_depth := 4, max_line_rows := 16,
     max_disassembly_instructions := 16, page_size := 16\<rparr>"

section \<open>Enumerations\<close>

datatype ByteOrder = little | big
datatype BinaryFormat = format_unknown | elf_like | pe_like | macho_like
datatype WordSize = bits32 | bits64
datatype BinaryKind =
  kind_unknown | relocatable | executable | shared_library | core | kind_other u8
datatype Architecture =
  arch_unknown | x86 | x86_64 | arm | arm64 | riscv32 | riscv64 | arch_other u8
datatype SectionKind =
    section_unknown | program_bits | no_bits | string_table | symbol_table | dynamic_symbols
  | relocations | relocation_addends | debug | import_section | export_section | resources
  | unwind | note_section | section_other u8
datatype SymbolBinding =
  local_binding | global | weak | import_symbol | export_symbol | binding_other u8
datatype SymbolKind =
    symbol_unknown | object | function_symbol | section_symbol | file_symbol | common | tls_object
  | symbol_other u8
datatype RelocationKind =
    reloc_none | absolute32 | absolute64 | relative32 | relative64 | pc_relative32
  | got_relative | plt_relative | high16 | low16 | reloc_other u8

text \<open>\<open>enum Permission : uint8_t\<close>; permission sets are \<open>uint8_t\<close> masks.\<close>

definition permission_none :: u8 where "permission_none = 0"
definition permission_read :: u8 where "permission_read = 1"
definition permission_write :: u8 where "permission_write = 2"
definition permission_execute :: u8 where "permission_execute = 4"

lemmas permission_defs =
  permission_none_def permission_read_def permission_write_def permission_execute_def

definition word_size_bytes :: "WordSize \<Rightarrow> u8" where
  \<comment> \<open>\<open>static_cast<uint8_t>\<close> of \<open>enum class WordSize { bits32 = 4, bits64 = 8 }\<close>\<close>
  "word_size_bytes w = (case w of bits32 \<Rightarrow> 4 | bits64 \<Rightarrow> 8)"

text \<open>An integer assembled from the bytes of a buffer in the given order.\<close>

definition ordered_value :: "ByteOrder \<Rightarrow> bytes \<Rightarrow> 'a::len word" where
  "ordered_value order bs = (case order of little \<Rightarrow> le_value bs | big \<Rightarrow> be_value bs)"

lemma ordered_little [simp]: "ordered_value little bs = le_value bs"
  by (simp add: ordered_value_def)

section \<open>The normalized image\<close>

record FileHeader =
  hdr_format :: BinaryFormat
  hdr_word_size :: WordSize
  hdr_byte_order :: ByteOrder
  hdr_kind :: BinaryKind
  hdr_architecture :: Architecture
  hdr_entry_point :: u64
  hdr_image_base :: u64
  hdr_section_table_offset :: u64
  hdr_segment_table_offset :: u64
  hdr_section_count :: u32
  hdr_segment_count :: u32
  hdr_flags :: u32

record Section =
  sec_index :: u32
  sec_name :: string
  sec_kind :: SectionKind
  sec_file_offset :: u64
  sec_file_size :: u64
  sec_virtual_address :: u64
  sec_memory_size :: u64
  sec_alignment :: u64
  sec_entry_size :: u64
  sec_link :: u32
  sec_info :: u32
  sec_permissions :: u8

record Segment =
  seg_index :: u32
  seg_file_offset :: u64
  seg_file_size :: u64
  seg_virtual_address :: u64
  seg_memory_size :: u64
  seg_alignment :: u64
  seg_permissions :: u8
  seg_sections :: "u32 list"

record Symbol =
  sym_index :: u32
  sym_name :: string
  sym_binding :: SymbolBinding
  sym_kind :: SymbolKind
  sym_section_index :: u32
  sym_value :: u64
  sym_size :: u64
  sym_visibility :: u8
  sym_library :: string

record Relocation =
  rel_index :: u32
  rel_kind :: RelocationKind
  rel_target_section :: u32
  rel_symbol_index :: u32
  rel_offset :: u64
  rel_addend :: i64
  rel_width :: u8

record DebugLineRow =
  row_address :: u64
  row_file :: u32
  row_line :: u32
  row_column :: u32
  row_statement :: bool
  row_end_sequence :: bool

datatype DebugValue = value_u64 u64 | value_i64 i64 | value_string string | value_bytes bytes

record DebugAttribute =
  attr_name :: u32
  attr_form :: u32
  attr_value :: DebugValue

datatype DebugEntry = DebugEntry
  (ent_offset: u64) (ent_tag: u32) (ent_has_children: bool)
  (ent_attributes: "DebugAttribute list") (ent_children: "DebugEntry list")

record DebugUnit =
  unit_offset :: u64
  unit_length :: u64
  unit_version :: u16
  unit_address_size :: u8
  unit_files :: "string list"
  unit_lines :: "DebugLineRow list"
  unit_entries :: "DebugEntry list"

record Import =
  imp_library :: string
  imp_name :: string
  imp_ordinal :: u64
  imp_slot_address :: u64
  imp_weak :: bool

record Export =
  exp_name :: string
  exp_address :: u64
  exp_ordinal :: u64
  exp_forwarded :: bool
  exp_forward_target :: string

text \<open>The shared, immutable backing bytes are \<open>None\<close> when the pointer is null.\<close>

record BinaryImage =
  img_header :: FileHeader
  img_sections :: "Section list"
  img_segments :: "Segment list"
  img_symbols :: "Symbol list"
  img_relocations :: "Relocation list"
  img_imports :: "Import list"
  img_exports :: "Export list"
  img_debug_units :: "DebugUnit list"
  img_warnings :: "string list"
  img_file_data :: "bytes option"

definition image_section :: "BinaryImage \<Rightarrow> u32 \<Rightarrow> Section option" where
  "image_section i index =
     (if unat index < length (img_sections i) then Some (img_sections i ! unat index) else None)"

definition image_symbol :: "BinaryImage \<Rightarrow> u32 \<Rightarrow> Symbol option" where
  "image_symbol i index =
     (if unat index < length (img_symbols i) then Some (img_symbols i ! unat index) else None)"

definition image_section_named :: "BinaryImage \<Rightarrow> string \<Rightarrow> Section option" where
  "image_section_named i name = find (\<lambda>s. sec_name s = name) (img_sections i)"

definition empty_header :: FileHeader where
  "empty_header = \<lparr>hdr_format = format_unknown, hdr_word_size = bits32, hdr_byte_order = little,
     hdr_kind = kind_unknown, hdr_architecture = arch_unknown, hdr_entry_point = 0,
     hdr_image_base = 0, hdr_section_table_offset = 0, hdr_segment_table_offset = 0,
     hdr_section_count = 0, hdr_segment_count = 0, hdr_flags = 0\<rparr>"

definition empty_image :: BinaryImage where
  "empty_image = \<lparr>img_header = empty_header, img_sections = [], img_segments = [],
     img_symbols = [], img_relocations = [], img_imports = [], img_exports = [],
     img_debug_units = [], img_warnings = [], img_file_data = None\<rparr>"

section \<open>Checked 64-bit arithmetic\<close>

text \<open>\<open>std::numeric_limits<uint64_t>::max()\<close>\<close>

abbreviation UINT64_MAX :: u64 where
  "UINT64_MAX \<equiv> 18446744073709551615"

definition checked_add :: "u64 \<Rightarrow> u64 \<Rightarrow> u64 option" where
  "checked_add left right = (if right > UINT64_MAX - left then None else Some (left + right))"

definition checked_multiply :: "u64 \<Rightarrow> u64 \<Rightarrow> u64 option" where
  "checked_multiply left right =
     (if left \<noteq> 0 \<and> right > UINT64_MAX div left then None else Some (left * right))"

definition checked_align_up :: "u64 \<Rightarrow> u64 \<Rightarrow> u64 option" where
  "checked_align_up value alignment =
     (if alignment = 0 \<or> alignment AND (alignment - 1) \<noteq> 0 then None
      else let mask = alignment - 1 in
        (case checked_add value mask of
           None \<Rightarrow> None
         | Some expanded \<Rightarrow> Some (expanded AND NOT mask)))"

definition range_inside :: "u64 \<Rightarrow> u64 \<Rightarrow> u64 \<Rightarrow> bool" where
  "range_inside offset len container_size \<longleftrightarrow>
     offset \<le> container_size \<and> len \<le> container_size - offset"

text \<open>
  What the callers of a checked operation rely on: it yields exactly the mathematical result
  when that fits in 64 bits and refuses otherwise.
\<close>

locale checked_op =
  fixes op :: "u64 \<Rightarrow> u64 \<Rightarrow> u64 option"
    and spec :: "nat \<Rightarrow> nat \<Rightarrow> nat"
  assumes op_exact:
    "op a b = (if spec (unat a) (unat b) < 2 ^ 64 then Some (of_nat (spec (unat a) (unat b))) else None)"
begin

lemma SomeD: "op a b = Some c \<Longrightarrow> unat c = spec (unat a) (unat b)"
proof -
  assume "op a b = Some c"
  then have "spec (unat a) (unat b) < 18446744073709551616" "c = of_nat (spec (unat a) (unat b))"
    by (simp_all add: op_exact split: if_split_asm)
  then show ?thesis by (simp only: unat_of_nat_u64)
qed

lemma Some_iff: "op a b = Some c \<longleftrightarrow> unat c = spec (unat a) (unat b)"
proof
  assume h: "unat c = spec (unat a) (unat b)"
  then have "spec (unat a) (unat b) < 2 ^ 64" using unat_u64_bound [of c] by simp
  then show "op a b = Some c" by (simp only: op_exact h [symmetric] if_True) simp
qed (rule SomeD)

lemma None_iff: "op a b = None \<longleftrightarrow> \<not> spec (unat a) (unat b) < 2 ^ 64"
  by (simp only: op_exact split: if_split) simp

lemma SomeI:
  assumes "spec (unat a) (unat b) < 2 ^ 64"
  obtains c where "op a b = Some c" "unat c = spec (unat a) (unat b)"
  using assms None_iff SomeD by (cases "op a b") auto

end

lemma u64_max_ge [simp]: "a \<le> UINT64_MAX"
  using unat_u64_bound [of a] by (simp add: word_le_nat_alt)

lemma unat_max_minus: "unat (UINT64_MAX - a) = 18446744073709551615 - unat a"
  by (simp add: unat_minus_bounded)

interpretation add_op: checked_op checked_add "(+)"
proof unfold_locales
  fix a b :: u64
  have "b > UINT64_MAX - a \<longleftrightarrow> \<not> unat a + unat b < 2 ^ 64"
    using unat_u64_bound [of a] by (auto simp: word_less_nat_alt unat_max_minus)
  then show "checked_add a b =
    (if unat a + unat b < 2 ^ 64 then Some (of_nat (unat a + unat b)) else None)"
    by (simp add: checked_add_def)
qed

interpretation mul_op: checked_op checked_multiply "(*)"
proof unfold_locales
  fix a b :: u64
  have "(a \<noteq> 0 \<and> b > UINT64_MAX div a) \<longleftrightarrow> \<not> unat a * unat b < 2 ^ 64"
  proof (cases "a = 0")
    case False
    then have a: "0 < unat a" by (simp add: unat_gt_0)
    have "b > UINT64_MAX div a \<longleftrightarrow> 18446744073709551615 div unat a < unat b"
      by (simp add: word_less_nat_alt unat_div_distrib)
    also have "\<dots> \<longleftrightarrow> 18446744073709551615 < unat b * unat a"
      using a by (simp add: div_less_iff_less_mult)
    finally show ?thesis using False by (auto simp: mult.commute)
  qed simp
  then show "checked_multiply a b =
    (if unat a * unat b < 2 ^ 64 then Some (of_nat (unat a * unat b)) else None)"
    by (simp add: checked_multiply_def)
qed

lemma range_inside_iff:
  "range_inside off len limit \<longleftrightarrow> unat off + unat len \<le> unat limit"
  by (auto simp: range_inside_def word_le_nat_alt unat_minus_bounded)

text \<open>The alignment test of the source accepts exactly the powers of two.\<close>

definition power_of_two :: "u64 \<Rightarrow> bool" where
  "power_of_two a \<longleftrightarrow> a \<noteq> 0 \<and> a AND (a - 1) = 0"

lemma power_of_two_iff: "power_of_two a \<longleftrightarrow> (\<exists>k < 64. unat a = 2 ^ k)"
proof
  assume "power_of_two a"
  then obtain k where "k < 64" "a = 2 ^ k"
    using power_of_two_exists [of a] by (auto simp: power_of_two_def)
  then show "\<exists>k < 64. unat a = 2 ^ k" by (auto simp: unat_power2)
next
  assume "\<exists>k < 64. unat a = 2 ^ k"
  then obtain k where k: "k < 64" "unat a = 2 ^ k" by blast
  then have a: "a = 2 ^ k" by (simp add: word_unat_eq_iff unat_power2)
  have "(2 ^ k :: u64) AND mask k = 0"
    by (rule bit_word_eqI) (auto simp: bit_simps)
  moreover have "a \<noteq> 0" using k by auto
  ultimately show "power_of_two a" by (simp add: power_of_two_def a mask_eq_exp_minus_1)
qed


text \<open>
  \<open>checked_align_up\<close> rounds up to the next multiple of a power of two: the result is the least
  multiple of the alignment that is not below the value. It refuses exactly when the alignment
  is not a power of two or \<open>value + (alignment - 1)\<close> leaves 64 bits.
\<close>

lemma checked_align_up_Some_iff:
  "checked_align_up v a = Some r \<longleftrightarrow>
     power_of_two a \<and> unat v + (unat a - 1) < 2 ^ 64 \<and>
     unat r = (unat v + (unat a - 1)) div unat a * unat a"
proof (cases "power_of_two a")
  case False
  then show ?thesis by (auto simp: checked_align_up_def power_of_two_def)
next
  case True
  then obtain k where k: "k < 64" "unat a = 2 ^ k" by (auto simp: power_of_two_iff)
  then have a: "a = 2 ^ k" by (simp add: word_unat_eq_iff unat_power2)
  have nz: "a \<noteq> 0" "a AND (a - 1) = 0" using True by (auto simp: power_of_two_def)
  have m: "unat (a - 1) = unat a - 1" using nz by (simp add: unat_minus_one)
  have *: "unat (e AND NOT (a - 1)) = unat e div unat a * unat a" for e
    using unat_and_mask_below [of k e] k by (simp add: a unat_power2)
  show ?thesis
  proof (cases "checked_add v (a - 1)")
    case None
    moreover from this have "\<not> unat v + (unat a - 1) < 2 ^ 64" by (simp add: add_op.None_iff m)
    ultimately show ?thesis using nz by (simp add: checked_align_up_def)
  next
    case (Some e)
    then have e: "unat e = unat v + (unat a - 1)" by (simp add: add_op.Some_iff m)
    then have "unat v + (unat a - 1) < 2 ^ 64" using unat_u64_bound [of e] by simp
    then show ?thesis
      using True nz Some e by (auto simp: checked_align_up_def Let_def word_unat_eq_iff *)
  qed
qed

lemma round_up_bounds:
  fixes v a :: nat
  assumes "0 < a"
  defines "r \<equiv> (v + (a - 1)) div a * a"
  shows "v \<le> r" "r < v + a" "a dvd r"
    and "\<And>m. a dvd m \<Longrightarrow> v \<le> m \<Longrightarrow> r \<le> m"
proof -
  let ?q = "(v + (a - 1)) div a"
  have split: "v + (a - 1) = ?q * a + (v + (a - 1)) mod a" by simp
  have rem: "(v + (a - 1)) mod a < a" using assms(1) by simp
  show "v \<le> r" unfolding r_def using split rem by linarith
  show lt: "r < v + a" unfolding r_def using split assms(1) by linarith
  show "a dvd r" by (simp add: r_def)
  fix m assume "a dvd m" "v \<le> m"
  then obtain q where m: "m = q * a" by (metis dvd_def mult.commute)
  have "?q * a < (q + 1) * a" using lt \<open>v \<le> m\<close> by (simp add: r_def m)
  then have "?q < q + 1" by (simp only: mult_less_cancel2)
  then have "?q \<le> q" by simp
  then show "r \<le> m" unfolding r_def m by (rule mult_le_mono1)
qed

section \<open>CRC-32\<close>

definition crc_bit :: "u32 \<Rightarrow> u32" where
  "crc_bit v = drop_bit 1 v XOR (0xedb88320 AND (0 - (v AND 1)))"

definition crc_byte :: "u32 \<Rightarrow> u8 \<Rightarrow> u32" where
  "crc_byte v b = (crc_bit ^^ 8) (v XOR ucast b)"

definition crc32 :: "bytes \<Rightarrow> u32" where
  "crc32 bs = NOT (foldl crc_byte 0xffffffff bs)"

lemma crc_bit_cases:
  "crc_bit v = (if bit v 0 then drop_bit 1 v XOR 0xedb88320 else drop_bit 1 v)"
proof -
  have "v AND 1 = of_bool (bit v 0)" by (simp add: and_one_eq bit_0 mod_2_eq_odd)
  then show ?thesis by (simp add: crc_bit_def)
qed

lemma bit_31_crc_bit: "bit (crc_bit v) 31 = bit v 0"
proof -
  have "bit (drop_bit 1 v) 31 = False" using bit_imp_le_length [of v 32] by (auto simp: bit_simps)
  moreover have "bit (0xedb88320 :: u32) 31" by simp
  ultimately show ?thesis by (simp add: crc_bit_cases bit_xor_iff)
qed

lemma crc_bit_inject:
  assumes h: "crc_bit v = crc_bit w"
  shows "v = w"
proof -
  have b0: "bit v 0 = bit w 0" by (simp only: bit_31_crc_bit [symmetric] h)
  have shifted: "drop_bit 1 v = drop_bit 1 w"
    using h unfolding crc_bit_cases b0 by (cases "bit w 0") simp_all
  show "v = w"
  proof (rule bit_word_eqI)
    fix n
    show "bit v n = bit w n"
    proof (cases n)
      case (Suc m)
      have "bit v n = bit (drop_bit 1 v) m" by (simp add: Suc bit_drop_bit_eq del: drop_bit_Suc)
      also have "\<dots> = bit (drop_bit 1 w) m" by (simp only: shifted)
      also have "\<dots> = bit w n" by (simp add: Suc bit_drop_bit_eq del: drop_bit_Suc)
      finally show ?thesis .
    qed (use b0 in simp)
  qed
qed

lemma crc_byte_inject:
  "crc_byte v b = crc_byte w c \<longleftrightarrow> v XOR ucast b = w XOR ucast c"
proof -
  have "inj crc_bit" by (rule injI) (rule crc_bit_inject)
  then have "inj (crc_bit ^^ 8)" by (rule inj_fn)
  then show ?thesis unfolding crc_byte_def by (rule inj_eq)
qed

lemma ucast_u8_u32_inject: "(ucast (b :: u8) :: u32) = ucast c \<longleftrightarrow> b = c"
proof
  assume "(ucast b :: u32) = ucast c"
  then have eq: "bit (ucast b :: u32) n = bit (ucast c :: u32) n" for n by simp
  show "b = c"
  proof (rule bit_word_eqI)
    fix n assume "n < LENGTH(8)"
    then show "bit b n = bit c n" using eq [of n] by (simp add: bit_simps)
  qed
qed simp

lemma crc_byte_same_value [simp]: "crc_byte v b = crc_byte v c \<longleftrightarrow> b = c"
  by (simp add: crc_byte_inject ucast_u8_u32_inject)

lemma crc_byte_same_byte [simp]: "crc_byte v b = crc_byte w b \<longleftrightarrow> v = w"
  by (simp add: crc_byte_inject)

lemma foldl_crc_inject: "foldl crc_byte v bs = foldl crc_byte w bs \<longleftrightarrow> v = w"
  by (induction bs arbitrary: v w) auto

text \<open>A change of one byte always changes the checksum.\<close>

lemma crc32_single_byte:
  assumes "i < length bs" "crc32 (bs[i := b]) = crc32 bs"
  shows "b = bs ! i"
proof -
  have eq: "foldl crc_byte v (bs[i := b]) =
      foldl crc_byte (crc_byte (foldl crc_byte v (take i bs)) b) (drop (Suc i) bs)" for v
    using assms(1) by (simp add: upd_conv_take_nth_drop)
  have eq': "foldl crc_byte v bs =
      foldl crc_byte (crc_byte (foldl crc_byte v (take i bs)) (bs ! i)) (drop (Suc i) bs)" for v
    using assms(1) by (metis foldl_Cons foldl_append id_take_nth_drop)
  have "foldl crc_byte 0xffffffff (bs[i := b]) = foldl crc_byte 0xffffffff bs"
    using assms(2) unfolding crc32_def by (metis bit.double_compl)
  then show ?thesis unfolding eq eq' by (simp add: foldl_crc_inject)
qed

end
