(* ===== verification/Byte_Reader.thy ===== *)
theory Byte_Reader
  imports Base
begin

unbundle bit_operations_syntax

text \<open>
  \<open>ByteReader\<close> of \<open>src/reader.cc\<close>: a cursor over a byte buffer with bounded seeks, fixed-width
  integers in either byte order, LEB128 values, byte runs and strings. An operation that can
  fail returns \<open>Inl ()\<close> with the reader as the source leaves it (a fixed-width read does not
  move, a LEB128 read has consumed the bytes it looked at). The second half relates the cursor
  to the bytes it has still to deliver: \<open>moves r bs r'\<close> says that \<open>r'\<close> is \<open>r\<close> after exactly the
  bytes \<open>bs\<close>, and the locale \<open>codec\<close> states what a decoder and its encoder owe each other.
\<close>

section \<open>The reader\<close>

text \<open>\<open>rd_data\<close> is \<open>None\<close> for a null pointer.\<close>

record ByteReader =
  rd_data :: "bytes option"
  rd_size :: u64
  rd_position :: u64
  rd_order :: ByteOrder

type_synonym ('e, 'a) parse = "ByteReader \<Rightarrow> ('e + 'a) \<times> ByteReader"
type_synonym 'a read = "(unit, 'a) parse"

definition make_reader :: "bytes option \<Rightarrow> u64 \<Rightarrow> ByteOrder \<Rightarrow> ByteReader" where
  "make_reader data len order =
     \<lparr>rd_data = data, rd_size = len, rd_position = 0, rd_order = order\<rparr>"

definition reader_of :: "bytes \<Rightarrow> ByteOrder \<Rightarrow> ByteReader" where
  "reader_of bs order = make_reader (Some bs) (of_nat (length bs)) order"

definition rd_remaining :: "ByteReader \<Rightarrow> u64" where
  "rd_remaining r =
     (if rd_position r \<le> rd_size r then rd_size r - rd_position r else 0)"

definition rd_pointer :: "ByteReader \<Rightarrow> u64 \<Rightarrow> u64 \<Rightarrow> bytes option" where
  \<comment> \<open>the bytes from the returned pointer on\<close>
  "rd_pointer r offset count =
     (case rd_data r of
        None \<Rightarrow> None
      | Some data \<Rightarrow>
          if range_inside offset count (rd_size r) then Some (drop (unat offset) data) else None)"

definition rd_advance :: "nat \<Rightarrow> ByteReader \<Rightarrow> ByteReader" where
  "rd_advance n r = r\<lparr>rd_position := rd_position r + of_nat n\<rparr>"

definition rd_seek :: "u64 \<Rightarrow> unit read" where
  "rd_seek position r =
     (if position > rd_size r then (Inl (), r) else (Inr (), r\<lparr>rd_position := position\<rparr>))"

definition rd_skip :: "u64 \<Rightarrow> unit read" where
  "rd_skip amount r =
     (case checked_add (rd_position r) amount of
        None \<Rightarrow> (Inl (), r)
      | Some next_position \<Rightarrow> rd_seek next_position r)"

definition read_u8 :: "u8 read" where
  \<comment> \<open>with a null pointer the source would read through it: outside \<open>reader_ok\<close>\<close>
  "read_u8 r =
     (if rd_remaining r = 0 then (Inl (), r)
      else case rd_data r of
        None \<Rightarrow> (Inl (), r)
      | Some data \<Rightarrow> (Inr (data ! unat (rd_position r)), rd_advance 1 r))"

definition read_u16 :: "u16 read" where
  "read_u16 r =
     (case rd_pointer r (rd_position r) 2 of
        None \<Rightarrow> (Inl (), r)
      | Some p \<Rightarrow>
          (Inr (case rd_order r of
                  little \<Rightarrow> ucast (p ! 0) OR push_bit 8 (ucast (p ! 1))
                | big \<Rightarrow> push_bit 8 (ucast (p ! 0)) OR ucast (p ! 1)),
           rd_advance 2 r))"

definition read_u32 :: "u32 read" where
  "read_u32 r =
     (case rd_pointer r (rd_position r) 4 of
        None \<Rightarrow> (Inl (), r)
      | Some p \<Rightarrow> (Inr (ordered_value (rd_order r) (take 4 p)), rd_advance 4 r))"

definition read_u64 :: "u64 read" where
  "read_u64 r =
     (case rd_pointer r (rd_position r) 8 of
        None \<Rightarrow> (Inl (), r)
      | Some p \<Rightarrow> (Inr (ordered_value (rd_order r) (take 8 p)), rd_advance 8 r))"

definition read_i32 :: "i32 read" where
  "read_i32 = read_u32"

definition read_i64 :: "i64 read" where
  "read_i64 = read_u64"

function uleb_loop :: "nat \<Rightarrow> u64 \<Rightarrow> u64 read" where
  "uleb_loop shift value r =
     (if shift \<ge> 64 then (Inl (), r)
      else case read_u8 r of
        (Inl _, r') \<Rightarrow> (Inl (), r')
      | (Inr byte, r') \<Rightarrow>
          let payload = ucast (byte AND 0x7f) in
          if shift = 63 \<and> payload > (1 :: u64) then (Inl (), r')
          else let value' = value OR push_bit shift payload in
            if byte AND 0x80 = 0 then (Inr value', r') else uleb_loop (shift + 7) value' r')"
  by pat_completeness auto
termination by (relation "measure (\<lambda>(shift, value, r). 64 - shift)") auto

declare uleb_loop.simps [simp del]

definition read_uleb128 :: "u64 read" where
  "read_uleb128 r = uleb_loop 0 0 r"

function sleb_loop :: "nat \<Rightarrow> u64 \<Rightarrow> i64 read" where
  "sleb_loop shift raw r =
     (if shift \<ge> 64 then (Inl (), r)
      else case read_u8 r of
        (Inl _, r') \<Rightarrow> (Inl (), r')
      | (Inr byte, r') \<Rightarrow>
          let raw' = raw OR push_bit shift (ucast (byte AND 0x7f)); shift' = shift + 7 in
          if byte AND 0x80 \<noteq> 0 then sleb_loop shift' raw' r'
          else (Inr (if shift' < 64 \<and> byte AND 0x40 \<noteq> 0
                     then raw' OR push_bit shift' (NOT 0) else raw'), r'))"
  by pat_completeness auto
termination by (relation "measure (\<lambda>(shift, raw, r). 64 - shift)") auto

declare sleb_loop.simps [simp del]

definition read_sleb128 :: "i64 read" where
  "read_sleb128 r = sleb_loop 0 0 r"

definition read_bytes :: "u64 \<Rightarrow> bytes read" where
  "read_bytes count r =
     (case rd_pointer r (rd_position r) count of
        None \<Rightarrow> (Inl (), r)
      | Some p \<Rightarrow> (Inr (take (unat count) p), rd_advance (unat count) r))"

definition read_fixed_string :: "u64 \<Rightarrow> string read" where
  "read_fixed_string count r =
     (case rd_pointer r (rd_position r) count of
        None \<Rightarrow> (Inl (), r)
      | Some p \<Rightarrow>
          (Inr (string_of_bytes (takeWhile (\<lambda>b. b \<noteq> 0) (take (unat count) p))),
           rd_advance (unat count) r))"

definition read_c_string :: "ByteReader \<Rightarrow> u64 \<Rightarrow> u64 \<Rightarrow> string option" where
  "read_c_string r offset limit =
     (if offset > rd_size r \<or> limit > rd_size r - offset then None
      else case rd_data r of
        None \<Rightarrow> None
      | Some data \<Rightarrow>
          let start = take (unat limit) (drop (unat offset) data) in
          if 0 \<in> set start then Some (string_of_bytes (takeWhile (\<lambda>b. b \<noteq> 0) start))
          else None)"

section \<open>Sequencing reads\<close>

text \<open>
  \<open>pbind p f\<close> is \<open>p\<close> then \<open>f\<close> in a chain \<open>!r.read_a(x) || !r.read_b(y) || ...\<close>: the first
  failure ends it. \<open>pcheck\<close> is a condition in such a chain, \<open>on_fail\<close> the error a failed
  chain raises, computed from the reader as the failure left it.
\<close>

definition pbind :: "('e, 'a) parse \<Rightarrow> ('a \<Rightarrow> ('e, 'b) parse) \<Rightarrow> ('e, 'b) parse" where
  "pbind p f r = (case p r of (Inl e, r') \<Rightarrow> (Inl e, r') | (Inr x, r') \<Rightarrow> f x r')"

definition preturn :: "'a \<Rightarrow> ('e, 'a) parse" where
  "preturn x r = (Inr x, r)"

definition pfail :: "'e \<Rightarrow> ('e, 'a) parse" where
  "pfail e r = (Inl e, r)"

definition pcheck :: "(ByteReader \<Rightarrow> bool) \<Rightarrow> unit read" where
  "pcheck P r = (if P r then (Inr (), r) else (Inl (), r))"

definition on_fail :: "'a read \<Rightarrow> (ByteReader \<Rightarrow> 'e) \<Rightarrow> ('e, 'a) parse" where
  "on_fail p e r = (case p r of (Inl _, r') \<Rightarrow> (Inl (e r'), r') | (Inr x, r') \<Rightarrow> (Inr x, r'))"

definition pguard :: "(ByteReader \<Rightarrow> bool) \<Rightarrow> (ByteReader \<Rightarrow> 'e) \<Rightarrow> ('e, unit) parse" where
  "pguard P e r = (if P r then (Inr (), r) else (Inl (e r), r))"

primrec prepeat :: "nat \<Rightarrow> ('e, 'a) parse \<Rightarrow> ('e, 'a list) parse" where
  "prepeat 0 p = preturn []"
| "prepeat (Suc n) p = pbind p (\<lambda>x. pbind (prepeat n p) (\<lambda>xs. preturn (x # xs)))"

text \<open>\<open>pfor i n f\<close> is a counting loop of \<open>n\<close> turns from \<open>i\<close>; \<open>plift\<close> a step that does not read.\<close>

primrec pfor :: "nat \<Rightarrow> nat \<Rightarrow> (nat \<Rightarrow> ('e, 'a) parse) \<Rightarrow> ('e, 'a list) parse" where
  "pfor i 0 f = preturn []"
| "pfor i (Suc n) f = pbind (f i) (\<lambda>x. pbind (pfor (Suc i) n f) (\<lambda>xs. preturn (x # xs)))"

definition plift :: "'e + 'a \<Rightarrow> ('e, 'a) parse" where
  "plift x r = (x, r)"

text \<open>A seek whose result the source ignores.\<close>

definition rd_try_seek :: "u64 \<Rightarrow> ('e, unit) parse" where
  "rd_try_seek position r = (Inr (), snd (rd_seek position r))"

lemma plift_Inr [simp]: "plift x r = (Inr y, r') \<longleftrightarrow> x = Inr y \<and> r' = r"
  by (auto simp: plift_def)

lemma preturn_Inr [simp]: "preturn x r = (Inr y, r') \<longleftrightarrow> x = y \<and> r = r'"
  by (simp add: preturn_def)

lemma pfail_Inr [simp]: "pfail e r = (Inr y, r') \<longleftrightarrow> False"
  by (simp add: pfail_def)

lemma pbind_Inr: "pbind p f r = (Inr y, r'') \<longleftrightarrow> (\<exists>x r'. p r = (Inr x, r') \<and> f x r' = (Inr y, r''))"
  by (auto simp: pbind_def split: prod.splits sum.splits)

lemma pbind_step [simp]: "p r = (Inr x, r') \<Longrightarrow> pbind p f r = f x r'"
  by (simp add: pbind_def)

lemma pcheck_Inr [simp]: "pcheck P r = (Inr u, r') \<longleftrightarrow> P r \<and> r' = r"
  by (auto simp: pcheck_def)

lemma pguard_Inr [simp]: "pguard P e r = (Inr u, r') \<longleftrightarrow> P r \<and> r' = r"
  by (auto simp: pguard_def)

lemma on_fail_Inr [simp]: "on_fail p e r = (Inr x, r') \<longleftrightarrow> p r = (Inr x, r')"
  by (auto simp: on_fail_def split: prod.splits sum.splits)


section \<open>What the reader has still to deliver\<close>

definition reader_ok :: "ByteReader \<Rightarrow> bool" where
  "reader_ok r \<longleftrightarrow>
     rd_position r \<le> rd_size r \<and>
     (case rd_data r of None \<Rightarrow> False | Some bs \<Rightarrow> length bs = unat (rd_size r))"

definition rd_rest :: "ByteReader \<Rightarrow> bytes" where
  "rd_rest r = (case rd_data r of None \<Rightarrow> [] | Some bs \<Rightarrow> drop (unat (rd_position r)) bs)"

text \<open>\<open>moves r bs r'\<close>: the reader \<open>r'\<close> is \<open>r\<close> moved past the bytes \<open>bs\<close>, which come next.\<close>

definition moves :: "ByteReader \<Rightarrow> bytes \<Rightarrow> ByteReader \<Rightarrow> bool" where
  "moves r bs r' \<longleftrightarrow>
     reader_ok r \<and> length bs \<le> length (rd_rest r) \<and> take (length bs) (rd_rest r) = bs \<and>
     r' = rd_advance (length bs) r"

lemma rd_advance_simps [simp]:
  "rd_data (rd_advance n r) = rd_data r"
  "rd_size (rd_advance n r) = rd_size r"
  "rd_order (rd_advance n r) = rd_order r"
  by (simp_all add: rd_advance_def)

lemma rd_advance_0 [simp]: "rd_advance 0 r = r"
  by (simp add: rd_advance_def)

lemma rd_advance_advance [simp]: "rd_advance m (rd_advance n r) = rd_advance (n + m) r"
  by (simp add: rd_advance_def add.assoc)

lemma reader_ok_position: "reader_ok r \<Longrightarrow> unat (rd_position r) \<le> unat (rd_size r)"
  by (simp add: reader_ok_def word_le_nat_alt)

lemma length_rd_rest: "reader_ok r \<Longrightarrow> length (rd_rest r) = unat (rd_size r) - unat (rd_position r)"
  by (auto simp: reader_ok_def rd_rest_def split: option.splits)

lemma length_rd_rest_bound: "reader_ok r \<Longrightarrow> length (rd_rest r) < 2 ^ 64"
  using unat_u64_bound [of "rd_size r"] by (simp add: length_rd_rest)

lemma unat_rd_remaining: "reader_ok r \<Longrightarrow> unat (rd_remaining r) = length (rd_rest r)"
  by (simp add: rd_remaining_def length_rd_rest unat_minus_bounded reader_ok_def)

lemma rd_remaining_0_iff: "reader_ok r \<Longrightarrow> rd_remaining r = 0 \<longleftrightarrow> rd_rest r = []"
  using unat_rd_remaining [of r] by (metis length_0_conv unat_0 unat_eq_zero)

lemma unat_position_advance:
  assumes "reader_ok r" "n \<le> length (rd_rest r)"
  shows "unat (rd_position (rd_advance n r)) = unat (rd_position r) + n"
proof -
  have b: "unat (rd_position r) + n \<le> unat (rd_size r)"
    using assms reader_ok_position [of r] by (simp add: length_rd_rest)
  have "n < 18446744073709551616" using b unat_u64_bound [of "rd_size r"] by linarith
  then have n: "unat (of_nat n :: u64) = n" by (rule unat_of_nat_u64)
  show ?thesis
    unfolding rd_advance_def using b unat_u64_bound [of "rd_size r"] n
    by (simp add: unat_plus_bounded)
qed

lemma reader_ok_advance:
  assumes "reader_ok r" "n \<le> length (rd_rest r)"
  shows "reader_ok (rd_advance n r)"
proof -
  have "unat (rd_position r) + n \<le> unat (rd_size r)"
    using assms reader_ok_position [of r] by (simp add: length_rd_rest)
  then show ?thesis
    using assms by (auto simp: reader_ok_def word_le_nat_alt unat_position_advance split: option.splits)
qed

lemma rd_rest_advance:
  assumes "reader_ok r" "n \<le> length (rd_rest r)"
  shows "rd_rest (rd_advance n r) = drop n (rd_rest r)"
  using assms
  by (auto simp: rd_rest_def unat_position_advance add.commute split: option.splits)

lemma moves_advance:
  "reader_ok r \<Longrightarrow> n \<le> length (rd_rest r) \<Longrightarrow> moves r (take n (rd_rest r)) (rd_advance n r)"
  by (simp add: moves_def min_absorb2)

lemma moves_okD: "moves r bs r' \<Longrightarrow> reader_ok r \<and> reader_ok r'"
  by (auto simp: moves_def reader_ok_advance)

lemma moves_rest: "moves r bs r' \<Longrightarrow> rd_rest r = bs @ rd_rest r'"
  by (metis append_take_drop_id moves_def rd_rest_advance)

lemma moves_order [simp]: "moves r bs r' \<Longrightarrow> rd_order r' = rd_order r"
  by (auto simp: moves_def)

lemma moves_size: "moves r bs r' \<Longrightarrow> rd_size r' = rd_size r"
  by (auto simp: moves_def)

lemma moves_position: "moves r bs r' \<Longrightarrow> unat (rd_position r') = unat (rd_position r) + length bs"
  by (auto simp: moves_def unat_position_advance)

lemma moves_Nil [simp]: "moves r [] r' \<longleftrightarrow> reader_ok r \<and> r' = r"
  by (auto simp: moves_def)

lemma movesI: "reader_ok r \<Longrightarrow> rd_rest r = bs @ t \<Longrightarrow> moves r bs (rd_advance (length bs) r)"
  by (simp add: moves_def)

lemma moves_append:
  "moves r (as @ bs) r'' \<longleftrightarrow> (\<exists>r'. moves r as r' \<and> moves r' bs r'')"
proof
  assume m: "moves r (as @ bs) r''"
  then have ok: "reader_ok r" and rest: "rd_rest r = as @ bs @ rd_rest r''"
    by (auto simp: moves_okD dest: moves_rest)
  have m1: "moves r as (rd_advance (length as) r)" by (rule movesI [OF ok rest])
  have "rd_rest (rd_advance (length as) r) = bs @ rd_rest r''"
    using moves_rest [OF m1] rest by simp
  then have "moves (rd_advance (length as) r) bs (rd_advance (length bs) (rd_advance (length as) r))"
    using m1 by (intro movesI) (simp_all add: moves_okD)
  then show "\<exists>r'. moves r as r' \<and> moves r' bs r''" using m m1 by (auto simp: moves_def)
next
  assume "\<exists>r'. moves r as r' \<and> moves r' bs r''"
  then obtain r' where m: "moves r as r'" "moves r' bs r''" by blast
  have "rd_rest r = (as @ bs) @ rd_rest r''" using m by (simp add: moves_rest)
  then have "moves r (as @ bs) (rd_advance (length (as @ bs)) r)"
    using m(1) by (intro movesI) (simp_all add: moves_okD)
  then show "moves r (as @ bs) r''" using m by (simp add: moves_def)
qed

lemma moves_unique: "moves r bs r1 \<Longrightarrow> moves r bs r2 \<Longrightarrow> r1 = r2"
  by (simp add: moves_def)

lemma reader_of_simps [simp]:
  "rd_data (reader_of bs ord) = Some bs" "rd_position (reader_of bs ord) = 0"
  "rd_order (reader_of bs ord) = ord" "rd_size (reader_of bs ord) = of_nat (length bs)"
  "rd_rest (reader_of bs ord) = bs"
  by (simp_all add: reader_of_def make_reader_def rd_rest_def)

lemma reader_ok_reader_of: "length bs < 2 ^ 64 \<Longrightarrow> reader_ok (reader_of bs ord)"
  by (simp add: reader_ok_def unat_of_nat_u64 del: unsigned_of_nat)

text \<open>Every fixed-width read: what it yields and where it leaves the reader.\<close>

lemma rd_pointer_eq:
  assumes "reader_ok r"
  shows "rd_pointer r (rd_position r) n =
    (if unat n \<le> length (rd_rest r) then Some (rd_rest r) else None)"
proof -
  from assms obtain data where d: "rd_data r = Some data" and l: "length data = unat (rd_size r)"
    and p: "unat (rd_position r) \<le> unat (rd_size r)"
    by (auto simp: reader_ok_def word_le_nat_alt split: option.splits)
  have "range_inside (rd_position r) n (rd_size r) \<longleftrightarrow> unat n \<le> length (rd_rest r)"
    using p assms by (auto simp: range_inside_iff length_rd_rest)
  then show ?thesis by (simp add: rd_pointer_def d) (simp add: rd_rest_def d)
qed

lemma read_u8_eq:
  "reader_ok r \<Longrightarrow> read_u8 r =
     (case rd_rest r of [] \<Rightarrow> (Inl (), r) | b # _ \<Rightarrow> (Inr b, rd_advance 1 r))"
proof -
  assume ok: "reader_ok r"
  then obtain data where d: "rd_data r = Some data" and l: "length data = unat (rd_size r)"
    by (auto simp: reader_ok_def split: option.splits)
  show ?thesis
  proof (cases "rd_rest r")
    case Nil
    then show ?thesis using ok by (simp add: read_u8_def rd_remaining_0_iff)
  next
    case (Cons b t)
    then have "data ! unat (rd_position r) = b"
      by (simp add: rd_rest_def d) (metis drop_eq_Nil hd_drop_conv_nth list.distinct(1) list.sel(1) not_le)
    then show ?thesis using ok Cons by (simp add: read_u8_def rd_remaining_0_iff d)
  qed
qed

lemma read_u16_eq:
  assumes "reader_ok r"
  shows "read_u16 r = (if length (rd_rest r) < 2 then (Inl (), r)
    else (Inr (ordered_value (rd_order r) (take 2 (rd_rest r))), rd_advance 2 r))"
proof (cases "length (rd_rest r) < 2")
  case True
  then show ?thesis using assms by (simp add: read_u16_def rd_pointer_eq)
next
  case False
  then obtain a b t where rest: "rd_rest r = a # b # t"
    by (metis One_nat_def Suc_1 lessI less_2_cases_iff list.exhaust list.size(3) length_Cons)
  have 1: "ucast a OR push_bit 8 (ucast b) = (le_value [a, b] :: u16)"
    by (simp add: le_value_def be_value_def or.commute)
  have 2: "push_bit 8 (ucast a) OR ucast b = (be_value [a, b] :: u16)"
    by (simp add: be_value_def)
  show ?thesis
    using assms False by (simp add: read_u16_def rd_pointer_eq rest ordered_value_def 1 2
        split: ByteOrder.splits)
qed

lemma read_u32_eq:
  "reader_ok r \<Longrightarrow> read_u32 r = (if length (rd_rest r) < 4 then (Inl (), r)
    else (Inr (ordered_value (rd_order r) (take 4 (rd_rest r))), rd_advance 4 r))"
  by (simp add: read_u32_def rd_pointer_eq)

lemma read_u64_eq:
  "reader_ok r \<Longrightarrow> read_u64 r = (if length (rd_rest r) < 8 then (Inl (), r)
    else (Inr (ordered_value (rd_order r) (take 8 (rd_rest r))), rd_advance 8 r))"
  by (simp add: read_u64_def rd_pointer_eq)

lemma read_bytes_eq:
  "reader_ok r \<Longrightarrow> read_bytes n r = (if length (rd_rest r) < unat n then (Inl (), r)
    else (Inr (take (unat n) (rd_rest r)), rd_advance (unat n) r))"
  by (simp add: read_bytes_def rd_pointer_eq)

lemmas read_eqs = read_u8_eq read_u16_eq read_u32_eq read_u64_eq read_bytes_eq


section \<open>Codecs\<close>

text \<open>
  The contracts between an encoder and a decoder over little-endian containers, from the weakest
  to the strongest. \<open>ok\<close> is the set of values the container can hold. A \<open>decoder\<close> reads back what
  the encoder wrote, wherever it stands in the buffer. A \<open>lossy_codec\<close> yields only such values, and
  each in as many bytes as its encoding has, though several byte strings may stand for one value.
  A \<open>codec\<close> that succeeds has consumed exactly the encoding of its result: there is one encoding
  per value.
\<close>

locale decoder =
  fixes enc :: "'a \<Rightarrow> bytes"
    and dec :: "('e, 'a) parse"
    and ok :: "'a \<Rightarrow> bool"
  assumes decode: "ok x \<Longrightarrow> rd_order r = little \<Longrightarrow> moves r (enc x) r' \<Longrightarrow> dec r = (Inr x, r')"
begin

text \<open>A loop that decodes \<open>n\<close> items in a row undoes a loop that writes \<open>n\<close> items in a row.\<close>

lemma decode_list:
  "list_all ok xs \<Longrightarrow> rd_order r = little \<Longrightarrow> moves r (concat (map enc xs)) r' \<Longrightarrow>
   prepeat (length xs) dec r = (Inr xs, r')"
proof (induction xs arbitrary: r)
  case (Cons x xs)
  from Cons.prems(3) obtain r1 where m: "moves r (enc x) r1" "moves r1 (concat (map enc xs)) r'"
    by (auto simp: moves_append)
  have "dec r = (Inr x, r1)" using Cons.prems m by (intro decode) auto
  moreover have "prepeat (length xs) dec r1 = (Inr xs, r')"
    using Cons.prems m by (intro Cons.IH) auto
  ultimately show ?case by (simp add: preturn_def)
qed (simp add: preturn_def)

text \<open>Two values whose encodings start the same buffer are the same value.\<close>

lemma enc_prefix_free:
  assumes "ok x" "ok y" "enc x @ s = enc y @ t" "length (enc x @ s) < 2 ^ 64"
  shows "x = y"
proof -
  let ?r = "reader_of (enc x @ s) little"
  have ok: "reader_ok ?r" using assms(4) by (rule reader_ok_reader_of)
  have "moves ?r (enc x) (rd_advance (length (enc x)) ?r)" by (rule movesI [OF ok]) simp
  then have x: "dec ?r = (Inr x, rd_advance (length (enc x)) ?r)"
    by (intro decode [OF assms(1)]) simp_all
  have "moves ?r (enc y) (rd_advance (length (enc y)) ?r)"
    by (rule movesI [OF ok, of _ t]) (simp add: assms(3))
  then have y: "dec ?r = (Inr y, rd_advance (length (enc y)) ?r)"
    by (intro decode [OF assms(2)]) simp_all
  from x y show ?thesis by simp
qed

end

locale lossy_codec = decoder +
  assumes sound: "reader_ok r \<Longrightarrow> rd_order r = little \<Longrightarrow> dec r = (Inr x, r') \<Longrightarrow>
    ok x \<and> (\<exists>bs. moves r bs r' \<and> length bs = length (enc x))"
begin

lemma sound_list:
  "reader_ok r \<Longrightarrow> rd_order r = little \<Longrightarrow> prepeat n dec r = (Inr xs, r') \<Longrightarrow>
   length xs = n \<and> list_all ok xs \<and> (\<exists>bs. moves r bs r' \<and> length bs = length (concat (map enc xs)))"
proof (induction n arbitrary: r xs)
  case 0
  then show ?case by (auto intro: exI [of _ "[]"])
next
  case (Suc n)
  then obtain x r1 ys where d: "dec r = (Inr x, r1)" and l: "prepeat n dec r1 = (Inr ys, r')"
    and xs: "xs = x # ys"
    by (auto simp: pbind_Inr)
  from sound [OF Suc.prems(1,2) d] obtain as where x: "ok x" "moves r as r1" "length as = length (enc x)"
    by blast
  with Suc.IH [OF _ _ l] Suc.prems(2) obtain bs where
    "length ys = n" "list_all ok ys" "moves r1 bs r'" "length bs = length (concat (map enc ys))"
    by (auto dest: moves_okD)
  with x xs show ?case by (auto simp: moves_append intro!: exI [of _ "as @ bs"])
qed

end

locale codec = decoder +
  assumes encode: "reader_ok r \<Longrightarrow> rd_order r = little \<Longrightarrow> dec r = (Inr x, r') \<Longrightarrow>
      ok x \<and> moves r (enc x) r'"
begin

lemma encode_ok: "reader_ok r \<Longrightarrow> rd_order r = little \<Longrightarrow> dec r = (Inr x, r') \<Longrightarrow> ok x"
  and encode_moves:
    "reader_ok r \<Longrightarrow> rd_order r = little \<Longrightarrow> dec r = (Inr x, r') \<Longrightarrow> moves r (enc x) r'"
  by (simp_all add: encode)

lemma encode_list:
  "reader_ok r \<Longrightarrow> rd_order r = little \<Longrightarrow> prepeat n dec r = (Inr xs, r') \<Longrightarrow>
   length xs = n \<and> list_all ok xs \<and> moves r (concat (map enc xs)) r'"
proof (induction n arbitrary: r xs)
  case (Suc n)
  then obtain x r1 ys where d: "dec r = (Inr x, r1)" and l: "prepeat n dec r1 = (Inr ys, r')"
    and xs: "xs = x # ys"
    by (auto simp: pbind_Inr)
  from encode [OF Suc.prems(1,2) d] have x: "ok x" "moves r (enc x) r1" by auto
  with Suc.IH [OF _ _ l] Suc.prems(2)
  have "length ys = n \<and> list_all ok ys \<and> moves r1 (concat (map enc ys)) r'"
    by (auto dest: moves_okD)
  with x xs show ?case by (auto simp: moves_append)
qed auto

end

sublocale codec < lossy_codec
  by unfold_locales (use encode in blast)

lemma moves_u8: "moves r [b] r' \<Longrightarrow> read_u8 r = (Inr b, r')"
  using moves_rest [of r "[b]" r'] by (simp add: moves_okD read_u8_eq) (simp add: moves_def)

lemma take_moves: "moves r bs r' \<Longrightarrow> take (length bs) (rd_rest r) = bs"
  by (simp add: moves_def)

interpretation u8_codec: codec "\<lambda>v. [v]" read_u8 "\<lambda>_. True"
proof unfold_locales
  fix r x r' assume "reader_ok r" "rd_order r = little" "read_u8 r = (Inr x, r')"
  then show "True \<and> moves r [x] r'"
    by (auto simp: read_u8_eq moves_def split: list.splits)
qed (rule moves_u8)

lemma fixed_read_decode:
  assumes eq: "\<And>r. reader_ok r \<Longrightarrow> rd r = (if length (rd_rest r) < n then (Inl (), r)
      else (Inr (ordered_value (rd_order r) (take n (rd_rest r)) :: 'a::len word), rd_advance n r))"
    and w: "LENGTH('a) \<le> 8 * n"
    and r: "rd_order r = little" "moves r (le_bytes n v) r'"
  shows "rd r = (Inr v, r')"
proof -
  have "take n (rd_rest r) = le_bytes n v" "n \<le> length (rd_rest r)" "reader_ok r" "r' = rd_advance n r"
    using r(2) by (auto simp: moves_def)
  then show ?thesis using w r(1) by (simp add: eq)
qed

lemma fixed_read_encode:
  assumes eq: "\<And>r. reader_ok r \<Longrightarrow> rd r = (if length (rd_rest r) < n then (Inl (), r)
      else (Inr (ordered_value (rd_order r) (take n (rd_rest r)) :: 'a::len word), rd_advance n r))"
    and w: "8 * n \<le> LENGTH('a)"
    and r: "reader_ok r" "rd_order r = little" "rd r = (Inr v, r')"
  shows "moves r (le_bytes n v) r'"
proof -
  have len: "n \<le> length (rd_rest r)" and v: "v = le_value (take n (rd_rest r))"
    and r': "r' = rd_advance n r"
    using r by (auto simp: eq split: if_splits)
  have "le_bytes n v = take n (rd_rest r)"
    using le_bytes_le_value [of "take n (rd_rest r)", where 'a = 'a] len w v by (simp add: min_absorb2)
  then show ?thesis using r(1) len r' by (simp add: moves_def)
qed

interpretation u16_codec: codec "le_bytes 2" read_u16 "\<lambda>_. True"
  by unfold_locales (auto intro: fixed_read_decode fixed_read_encode simp: read_u16_eq)

interpretation u32_codec: codec "le_bytes 4" read_u32 "\<lambda>_. True"
  by unfold_locales (auto intro: fixed_read_decode fixed_read_encode simp: read_u32_eq)

interpretation u64_codec: codec "le_bytes 8" read_u64 "\<lambda>_. True"
  by unfold_locales (auto intro: fixed_read_decode fixed_read_encode simp: read_u64_eq)

lemma read_bytes_decode: "moves r bs r' \<Longrightarrow> unat n = length bs \<Longrightarrow> read_bytes n r = (Inr bs, r')"
  by (auto simp: read_bytes_eq moves_okD) (auto simp: moves_def)

lemma read_bytes_encode:
  "reader_ok r \<Longrightarrow> read_bytes n r = (Inr bs, r') \<Longrightarrow> length bs = unat n \<and> moves r bs r'"
  by (auto simp: read_bytes_eq moves_advance split: if_splits)

section \<open>Fields at offsets\<close>

text \<open>
  What a chain of fixed-width reads has yielded, in either byte order, by the offsets of the fields
  from where the chain began. \<open>past r0 n r\<close>: the reader \<open>r\<close> is \<open>r0\<close> moved past \<open>n\<close> bytes.
\<close>

definition field :: "ByteOrder \<Rightarrow> nat \<Rightarrow> nat \<Rightarrow> bytes \<Rightarrow> 'a::len word" where
  "field order n k bs = ordered_value order (take k (drop n bs))"

definition past :: "ByteReader \<Rightarrow> nat \<Rightarrow> ByteReader \<Rightarrow> bool" where
  "past r0 n r \<longleftrightarrow> reader_ok r0 \<and> n \<le> length (rd_rest r0) \<and> r = rd_advance n r0"

lemma past_0: "reader_ok r \<Longrightarrow> past r 0 r"
  by (simp add: past_def)

lemma past_ok: "past r0 n r \<Longrightarrow> reader_ok r"
  by (auto simp: past_def reader_ok_advance)

lemma past_step:
  assumes "past r0 n r" "k \<le> length (rd_rest r)"
  shows "past r0 (n + k) (rd_advance k r)" "take k (rd_rest r) = take k (drop n (rd_rest r0))"
  using assms by (auto simp: past_def rd_rest_advance)

lemma past_u8:
  assumes "pbind read_u8 f r = (Inr x, r')" "past r0 n r"
    "\<And>r1. f (rd_rest r0 ! n) r1 = (Inr x, r') \<Longrightarrow> past r0 (n + 1) r1 \<Longrightarrow> Q"
  shows Q
proof -
  obtain b t where "rd_rest r = b # t"
    using assms(1) past_ok [OF assms(2)] by (cases "rd_rest r") (auto simp: pbind_Inr read_u8_eq)
  moreover from this have "n < length (rd_rest r0)" "b = rd_rest r0 ! n"
    using assms(2) by (auto simp: past_def rd_rest_advance)
      (metis drop_all not_le list.distinct(1), metis drop_all hd_drop_conv_nth list.distinct(1) list.sel(1) not_le)
  ultimately show Q
    using assms(1,3) past_step(1) [OF assms(2), of 1] past_ok [OF assms(2)] by (simp add: pbind_def read_u8_eq)
qed

lemma past_fixed:
  assumes eq: "\<And>r. reader_ok r \<Longrightarrow> rd r = (if length (rd_rest r) < k then (Inl (), r)
      else (Inr (ordered_value (rd_order r) (take k (rd_rest r)) :: 'a::len word), rd_advance k r))"
    and h: "pbind rd f r = (Inr x, r')" "past r0 n r"
    and Q: "\<And>r1. f (field (rd_order r0) n k (rd_rest r0)) r1 = (Inr x, r') \<Longrightarrow> past r0 (n + k) r1 \<Longrightarrow> Q"
  shows Q
proof -
  have len: "k \<le> length (rd_rest r)"
    using h(1) eq [OF past_ok [OF h(2)]] by (auto simp: pbind_Inr split: if_splits)
  have "rd_order r = rd_order r0" using h(2) by (simp add: past_def)
  then have "f (field (rd_order r0) n k (rd_rest r0)) (rd_advance k r) = (Inr x, r')"
    using h(1) eq [OF past_ok [OF h(2)]] len past_step(2) [OF h(2) len] by (simp add: pbind_def field_def)
  then show Q using past_step(1) [OF h(2) len] by (rule Q)
qed

lemma past_u16:
  assumes "pbind read_u16 f r = (Inr x, r')" "past r0 n r"
    "\<And>r1. f (field (rd_order r0) n 2 (rd_rest r0)) r1 = (Inr x, r') \<Longrightarrow> past r0 (n + 2) r1 \<Longrightarrow> Q"
  shows Q
  by (rule past_fixed [OF read_u16_eq assms])

lemma past_u32:
  assumes "pbind read_u32 f r = (Inr x, r')" "past r0 n r"
    "\<And>r1. f (field (rd_order r0) n 4 (rd_rest r0)) r1 = (Inr x, r') \<Longrightarrow> past r0 (n + 4) r1 \<Longrightarrow> Q"
  shows Q
  by (rule past_fixed [OF read_u32_eq assms])

lemma past_u64:
  assumes "pbind read_u64 f r = (Inr x, r')" "past r0 n r"
    "\<And>r1. f (field (rd_order r0) n 8 (rd_rest r0)) r1 = (Inr x, r') \<Longrightarrow> past r0 (n + 8) r1 \<Longrightarrow> Q"
  shows Q
  by (rule past_fixed [OF read_u64_eq assms])

lemma past_check:
  assumes "pbind (pcheck P) f r = (Inr x, r')" "past r0 n r" "P r \<Longrightarrow> f () r = (Inr x, r') \<Longrightarrow> Q"
  shows Q
  using assms(1,3) by (auto simp: pbind_Inr)

lemma past_return:
  assumes "preturn y r = (Inr x, r')" "past r0 n r" "x = y \<Longrightarrow> past r0 n r' \<Longrightarrow> Q"
  shows Q
  using assms by simp

lemmas past_reads = past_u8 past_u16 past_u32 past_u64 past_check past_return

section \<open>Counting loops\<close>

lemma pfor_Inr:
  assumes "\<And>k r x r'. k < i + n \<Longrightarrow> I r \<Longrightarrow> f k r = (Inr x, r') \<Longrightarrow> I r' \<and> P x \<and> x = g k"
  shows "pfor i n f r = (Inr xs, r') \<Longrightarrow> I r \<Longrightarrow> I r' \<and> list_all P xs \<and> xs = map g [i..<i + n]"
  using assms
proof (induction n arbitrary: i r xs)
  case (Suc n)
  obtain x r1 ys where d: "f i r = (Inr x, r1)" "pfor (Suc i) n f r1 = (Inr ys, r')" "xs = x # ys"
    using Suc.prems(1) by (auto simp: pbind_Inr)
  have "I r1 \<and> P x \<and> x = g i" by (rule Suc.prems(3) [OF _ Suc.prems(2) d(1)]) simp
  then have x: "I r1" "P x" "x = g i" by blast+
  have "I r' \<and> list_all P ys \<and> ys = map g [Suc i..<Suc i + n]"
    by (rule Suc.IH [OF d(2) x(1)]) (use Suc.prems(3) in auto)
  then have ih: "I r'" "list_all P ys" "ys = map g [Suc i..<Suc i + n]" by blast+
  have "list_all P xs" using d(3) x(2) ih(2) by simp
  moreover have "xs = map g [i..<i + Suc n]"
    unfolding d(3) ih(3) x(3) by (simp add: upt_conv_Cons del: upt_Suc)
  ultimately show ?case using ih(1) by blast
qed simp

end
