(* ===== verification/Leb128.thy ===== *)
theory Leb128
  imports Byte_Reader
begin

unbundle bit_operations_syntax

text \<open>
  The LEB128 loops of \<open>ByteReader\<close> against the mathematical meaning of a LEB128 byte string:
  seven payload bits per byte, least significant group first, the top bit of every byte but the
  last set.
\<close>

fun uleb_value :: "bytes \<Rightarrow> nat" where
  "uleb_value [] = 0"
| "uleb_value (b # bs) = unat (b AND 0x7f) + 128 * uleb_value bs"

fun leb_framed :: "bytes \<Rightarrow> bool" where
  "leb_framed [] = False"
| "leb_framed (b # bs) = (if b AND 0x80 = 0 then bs = [] else leb_framed bs)"

lemma unat_and_0x7f: "unat ((b :: u8) AND 0x7f) < 128"
proof -
  have "b AND 0x7f \<le> 0x7f" by (rule word_and_le1)
  then show ?thesis by (simp add: word_le_nat_alt)
qed

lemma or_push_bit_disjoint:
  fixes v p :: u64
  assumes v: "unat v < 2 ^ s"
  shows "v OR push_bit s p = v + push_bit s p"
proof -
  have vb: "\<not> bit v n" if "s \<le> n" for n
  proof -
    have "take_bit s (unat v) = unat v" using v by (rule take_bit_nat_eq_self)
    then have "\<not> bit (unat v) n" using that by (metis bit_take_bit_iff not_less)
    then show ?thesis by (auto simp: bit_unsigned_iff dest: bit_imp_le_length)
  qed
  then have "v AND push_bit s p = 0"
    by (intro bit_word_eqI) (auto simp: bit_simps)
  then show ?thesis by (simp add: disjunctive_add_eq_or)
qed

lemma unat_or_push_bit:
  fixes v p :: u64
  assumes v: "unat v < 2 ^ s" and p: "unat p * 2 ^ s < 2 ^ 64"
  shows "unat (v OR push_bit s p) = unat v + unat p * 2 ^ s"
proof -
  have pb: "unat (push_bit s p) = unat p * 2 ^ s"
    using p by (simp add: unat_push_bit_bounded)
  have eq: "v OR push_bit s p = v + push_bit s p" by (rule or_push_bit_disjoint [OF v])
  have "unat v + unat p * 2 ^ s < 2 ^ 64"
  proof (cases "unat p = 0")
    case True
    then show ?thesis using unat_u64_bound [of v] by simp
  next
    case False
    then have "1 * 2 ^ s \<le> unat p * 2 ^ s" by (intro mult_le_mono1) simp
    with p have "(2::nat) ^ s < 2 ^ 64" by linarith
    then have s64: "s < 64" by (rule power_less_imp_less_exp [rotated]) simp
    have dvd: "(2::nat) ^ s dvd 2 ^ 64" using s64 by (intro le_imp_power_dvd) simp
    then obtain q where q: "(2::nat) ^ 64 = q * 2 ^ s" by (metis dvd_def mult.commute)
    with p have "unat p * 2 ^ s < q * 2 ^ s" by (simp only:)
    then have "unat p < q" by (simp only: mult_less_cancel2)
    then have "(unat p + 1) * 2 ^ s \<le> q * 2 ^ s" by (intro mult_le_mono1) simp
    with q v show ?thesis by simp
  qed
  then show ?thesis by (simp add: eq unat_plus_bounded pb)
qed

text \<open>The continuation and payload tests of one byte, at bit level.\<close>

lemma ucast_payload [simp]: "unat (ucast ((b :: u8) AND 0x7f) :: u64) = unat (b AND 0x7f)"
  by (rule unat_ucast_u8_u64)

lemma uleb_loop_sound:
  "reader_ok r \<Longrightarrow> unat v < 2 ^ shift \<Longrightarrow> shift = 7 * k \<Longrightarrow> uleb_loop shift v r = (Inr x, r') \<Longrightarrow>
   \<exists>bs. moves r bs r' \<and> leb_framed bs \<and> k + length bs \<le> 10 \<and>
        unat x = unat v + 2 ^ shift * uleb_value bs"
proof (induction shift v r arbitrary: k rule: uleb_loop.induct)
  case (1 shift v r)
  have lt: "\<not> shift \<ge> 64" using "1.prems"(4) by (auto simp: uleb_loop.simps)
  obtain b t where rest: "rd_rest r = b # t"
    using "1.prems"(1,4) lt by (cases "rd_rest r") (auto simp: uleb_loop.simps read_u8_eq)
  let ?r = "rd_advance 1 r"
  let ?p = "ucast (b AND 0x7f) :: u64"
  let ?v = "v OR push_bit shift ?p"
  have rd: "read_u8 r = (Inr b, ?r)" using "1.prems"(1) rest by (simp add: read_u8_eq)
  have mv: "moves r [b] ?r" using "1.prems"(1) rest by (simp add: moves_def)
  have unf: "uleb_loop shift v r =
      (if shift = 63 \<and> ?p > 1 then (Inl (), ?r)
       else if b AND 0x80 = 0 then (Inr ?v, ?r) else uleb_loop (shift + 7) ?v ?r)"
    using lt by (subst uleb_loop.simps) (simp add: rd Let_def)
  have ok63: "\<not> (shift = 63 \<and> ?p > 1)" using "1.prems"(4) unf by auto
  have pb: "unat ?p * 2 ^ shift < 2 ^ 64"
  proof (cases "shift = 63")
    case True
    then have "unat ?p \<le> 1" using ok63 by (simp add: word_less_nat_alt)
    then have "unat ?p * 2 ^ shift \<le> 1 * 2 ^ 63" using True by (intro mult_le_mono) simp_all
    then show ?thesis by simp
  next
    case False
    then have "shift \<le> 56" using lt "1.prems"(3) by presburger
    then have "(2::nat) ^ shift \<le> 2 ^ 56" by (intro power_increasing) simp_all
    then have "unat ?p * 2 ^ shift \<le> 127 * 2 ^ 56"
      using unat_and_0x7f [of b] by (intro mult_le_mono) simp_all
    then show ?thesis by simp
  qed
  have val: "unat ?v = unat v + unat (b AND 0x7f) * 2 ^ shift"
    using unat_or_push_bit [OF "1.prems"(2) pb] by simp
  show ?case
  proof (cases "b AND 0x80 = 0")
    case True
    with "1.prems"(4) unf ok63 have "x = ?v" "r' = ?r" by auto
    with mv val True lt "1.prems"(3) show ?thesis
      by (intro exI [of _ "[b]"]) (simp add: mult.commute)
  next
    case False
    have vb: "unat ?v < 2 ^ (shift + 7)"
    proof -
      have "unat v + unat (b AND 0x7f) * 2 ^ shift < 2 ^ shift + 127 * 2 ^ shift"
        using "1.prems"(2) unat_and_0x7f [of b] by (intro add_less_le_mono mult_le_mono1) simp_all
      then show ?thesis by (simp add: val power_add)
    qed
    have lp: "uleb_loop (shift + 7) ?v ?r = (Inr x, r')" using "1.prems"(4) unf ok63 False by auto
    obtain bs where bs: "moves ?r bs r'" "leb_framed bs" "Suc k + length bs \<le> 10"
      "unat x = unat ?v + 2 ^ (shift + 7) * uleb_value bs"
      using "1.IH" [OF lt rd [symmetric] refl refl ok63 refl False _ vb _ lp, of "Suc k"] mv
        "1.prems"(3) moves_okD
      by auto
    have "moves r (b # bs) r'" using mv bs(1) moves_append [of r "[b]" bs r'] by auto
    with bs False val show ?thesis
      by (intro exI [of _ "b # bs"]) (simp add: power_add algebra_simps)
  qed
qed


lemma uleb_loop_complete:
  "moves r bs r' \<Longrightarrow> leb_framed bs \<Longrightarrow> unat v < 2 ^ shift \<Longrightarrow> shift = 7 * k \<Longrightarrow>
   k + length bs \<le> 10 \<Longrightarrow> unat v + 2 ^ shift * uleb_value bs < 2 ^ 64 \<Longrightarrow>
   \<exists>x. uleb_loop shift v r = (Inr x, r')"
proof (induction bs arbitrary: r v shift k)
  case (Cons b bs)
  have lt: "\<not> shift \<ge> 64" using Cons.prems(4,5) by simp
  from Cons.prems(1) obtain r1 where mv: "moves r [b] r1" and rest: "moves r1 bs r'"
    using moves_append [of r "[b]" bs r'] by auto
  let ?p = "ucast (b AND 0x7f) :: u64"
  let ?v = "v OR push_bit shift ?p"
  have total: "unat v + unat (b AND 0x7f) * 2 ^ shift + 2 ^ (shift + 7) * uleb_value bs < 2 ^ 64"
    using Cons.prems(6) by (simp add: power_add algebra_simps)
  then have pb: "unat ?p * 2 ^ shift < 2 ^ 64" by simp
  have val: "unat ?v = unat v + unat (b AND 0x7f) * 2 ^ shift"
    using unat_or_push_bit [OF Cons.prems(3) pb] by simp
  have ok63: "\<not> (shift = 63 \<and> ?p > 1)"
  proof
    assume h: "shift = 63 \<and> ?p > 1"
    then have "2 \<le> unat ?p" by (simp add: word_less_nat_alt)
    then have "2 * 2 ^ 63 \<le> unat ?p * 2 ^ shift" using h by (intro mult_le_mono) simp_all
    with pb show False by simp
  qed
  have unf: "uleb_loop shift v r =
      (if b AND 0x80 = 0 then (Inr ?v, r1) else uleb_loop (shift + 7) ?v r1)"
    using lt by (subst uleb_loop.simps)
      (simp only: moves_u8 [OF mv] prod.case sum.case Let_def ok63 if_False)
  show ?case
  proof (cases "b AND 0x80 = 0")
    case True
    then have "r' = r1" using Cons.prems(2) rest by simp
    then show ?thesis using True unf by simp
  next
    case False
    have "unat v + unat (b AND 0x7f) * 2 ^ shift < 2 ^ shift + 127 * 2 ^ shift"
      using Cons.prems(3) unat_and_0x7f [of b] by (intro add_less_le_mono mult_le_mono1) simp_all
    then have "unat ?v < 2 ^ (shift + 7)" by (simp add: val power_add)
    moreover have "leb_framed bs" using Cons.prems(2) False by simp
    moreover have "unat ?v + 2 ^ (shift + 7) * uleb_value bs < 2 ^ 64"
      using total val by simp
    ultimately have "\<exists>x. uleb_loop (shift + 7) ?v r1 = (Inr x, r')"
      using Cons.prems(4,5) by (intro Cons.IH [OF rest, of _ _ "Suc k"]) auto
    then show ?thesis using unf False by simp
  qed
qed simp

text \<open>
  \<open>read_uleb128\<close> succeeds exactly on the framed byte strings of at most ten bytes whose value
  fits in 64 bits, and yields that value: no accepted encoding is truncated or wrapped.
\<close>

lemma read_uleb128_sound:
  "reader_ok r \<Longrightarrow> read_uleb128 r = (Inr x, r') \<Longrightarrow>
   \<exists>bs. moves r bs r' \<and> leb_framed bs \<and> length bs \<le> 10 \<and> unat x = uleb_value bs"
  using uleb_loop_sound [of r 0 0 0 x r'] by (simp add: read_uleb128_def)

lemma read_uleb128_complete:
  assumes "moves r bs r'" "leb_framed bs" "length bs \<le> 10" "uleb_value bs < 2 ^ 64"
  shows "read_uleb128 r = (Inr (of_nat (uleb_value bs)), r')"
proof -
  obtain x where x: "read_uleb128 r = (Inr x, r')"
    using uleb_loop_complete [of r bs r' 0 0 0] assms by (auto simp: read_uleb128_def)
  then obtain cs where cs: "moves r cs r'" "unat x = uleb_value cs"
    using read_uleb128_sound assms(1) moves_okD by blast
  have "length cs = length bs" using moves_position [OF cs(1)] moves_position [OF assms(1)] by simp
  then have "cs = bs" using cs(1) assms(1) by (metis take_moves)
  with cs x show ?thesis by (metis of_nat_unat ucast_id)
qed

text \<open>The standard encoder, as a reference.\<close>

fun uleb_encode :: "nat \<Rightarrow> bytes" where
  "uleb_encode n = (if n < 128 then [of_nat n] else of_nat (128 + n mod 128) # uleb_encode (n div 128))"

declare uleb_encode.simps [simp del]

lemma unat_low7: "n < 256 \<Longrightarrow> unat ((of_nat n :: u8) AND 0x7f) = n mod 128"
proof -
  assume "n < 256"
  have "(0x7f :: u8) = mask 7" by (simp add: mask_eq_exp_minus_1)
  then have "unat ((of_nat n :: u8) AND 0x7f) = take_bit 7 (unat (of_nat n :: u8))"
    by (simp only: unsigned_take_bit_eq flip: take_bit_eq_mask)
  then show ?thesis using \<open>n < 256\<close> by (simp only: unat_of_nat_u8 take_bit_eq_mod) simp
qed

lemma bit7_and_0x80: "(b :: u8) AND 0x80 = 0 \<longleftrightarrow> \<not> bit b 7"
  using and_exp_eq_0_iff_not_bit [of b 7] by simp

lemma bit7_of_nat:
  assumes n: "n < 256"
  shows "bit (of_nat n :: u8) 7 \<longleftrightarrow> 128 \<le> n"
proof -
  have "bit (of_nat n :: u8) 7 \<longleftrightarrow> bit (unat (of_nat n :: u8)) 7"
    by (simp only: bit_unsigned_iff) simp
  also have "\<dots> \<longleftrightarrow> odd (n div 128)"
    by (simp only: unat_of_nat_u8 [OF n] bit_iff_odd) simp
  also have "n div 128 = (if 128 \<le> n then 1 else 0)"
    using n by (simp add: div_nat_eqI)
  finally show ?thesis by (auto split: if_splits)
qed

lemma uleb_encode_value: "uleb_value (uleb_encode n) = n"
proof (induction n rule: uleb_encode.induct)
  case (1 n)
  have "(128 + n mod 128) mod 128 = n mod 128" by simp
  then show ?case using 1
    by (subst uleb_encode.simps) (auto simp: unat_low7 simp del: of_nat_add)
qed

lemma uleb_encode_framed: "leb_framed (uleb_encode n)"
proof (induction n rule: uleb_encode.induct)
  case (1 n)
  then show ?case
    by (subst uleb_encode.simps) (auto simp: bit7_and_0x80 bit7_of_nat simp del: of_nat_add)
qed

lemma uleb_encode_length: "n < 128 ^ k \<Longrightarrow> 0 < k \<Longrightarrow> length (uleb_encode n) \<le> k"
proof (induction k arbitrary: n)
  case (Suc k)
  show ?case
  proof (cases "n < 128")
    case False
    then have "0 < k" using Suc.prems by (cases k) auto
    moreover have "n div 128 < 128 ^ k" using Suc.prems by (simp add: less_mult_imp_div_less)
    ultimately show ?thesis using Suc.IH False by (subst uleb_encode.simps) simp
  qed (subst uleb_encode.simps, simp)
qed simp


section \<open>Signed LEB128\<close>

text \<open>The last group carries the sign in its bit 6.\<close>

fun sleb_value :: "bytes \<Rightarrow> int" where
  "sleb_value [] = 0"
| "sleb_value (b # bs) =
     (if b AND 0x80 = 0 then int (unat (b AND 0x7f)) - (if b AND 0x40 \<noteq> 0 then 128 else 0)
      else int (unat (b AND 0x7f)) + 128 * sleb_value bs)"

lemma push_bit_payload:
  "push_bit s (ucast ((b :: u8) AND 0x7f)) = (of_int (2 ^ s * int (unat (b AND 0x7f))) :: u64)"
proof -
  have "(ucast (b AND 0x7f) :: u64) = of_nat (unat (b AND 0x7f))"
    by (metis of_nat_unat)
  then show ?thesis by (simp add: push_bit_eq_mult mult.commute)
qed

lemma sleb_accumulator_bound:
  assumes "unat (v :: u64) < 2 ^ s" "s = 7 * k" "\<not> s \<ge> 64"
  shows "unat (v OR push_bit s (ucast ((b :: u8) AND 0x7f))) < 2 ^ (s + 7)"
proof (cases "s = 63")
  case True
  have "unat (v OR push_bit s (ucast (b AND 0x7f))) < 2 ^ 64"
    using unat_u64_bound [of "v OR push_bit s (ucast (b AND 0x7f))"] by simp
  then show ?thesis using True by simp
next
  case False
  then have "s \<le> 56" using assms by presburger
  then have "(2::nat) ^ s \<le> 2 ^ 56" by (intro power_increasing) simp_all
  then have "unat (b AND 0x7f) * 2 ^ s \<le> 127 * 2 ^ 56"
    using unat_and_0x7f [of b] by (intro mult_le_mono) simp_all
  then have "unat (v OR push_bit s (ucast (b AND 0x7f))) = unat v + unat (b AND 0x7f) * 2 ^ s"
    using unat_or_push_bit [OF assms(1), of "ucast (b AND 0x7f)"] by simp
  moreover have "unat v + unat (b AND 0x7f) * 2 ^ s < 2 ^ s + 127 * 2 ^ s"
    using assms(1) unat_and_0x7f [of b] by (intro add_less_le_mono mult_le_mono1) simp_all
  ultimately show ?thesis by (simp add: power_add)
qed

lemma sleb_sign_extend:
  assumes "unat (v :: u64) < 2 ^ s"
  shows "(if s < 64 \<and> neg then v OR push_bit s (NOT 0) else v) =
    v + of_int (if neg then - (2 ^ s) else 0)"
proof (cases "s < 64")
  case True
  have "v OR push_bit s (NOT 0) = v + push_bit s (NOT 0)" by (rule or_push_bit_disjoint [OF assms])
  then show ?thesis using True by (simp add: push_bit_eq_mult)
next
  case False
  then have "(2 :: u64) ^ s = 0"
    by (intro bit_word_eqI) (auto simp: bit_exp_iff)
  then show ?thesis using False by simp
qed

lemma sleb_loop_sound:
  "reader_ok r \<Longrightarrow> unat v < 2 ^ shift \<Longrightarrow> shift = 7 * k \<Longrightarrow> sleb_loop shift v r = (Inr x, r') \<Longrightarrow>
   \<exists>bs. moves r bs r' \<and> leb_framed bs \<and> k + length bs \<le> 10 \<and>
        x = v + of_int (2 ^ shift * sleb_value bs)"
proof (induction shift v r arbitrary: k rule: sleb_loop.induct)
  case (1 shift v r)
  have lt: "\<not> shift \<ge> 64" using "1.prems"(4) by (auto simp: sleb_loop.simps)
  obtain b t where rest: "rd_rest r = b # t"
    using "1.prems"(1,4) lt by (cases "rd_rest r") (auto simp: sleb_loop.simps read_u8_eq)
  let ?r = "rd_advance 1 r"
  let ?v = "v OR push_bit shift (ucast (b AND 0x7f))"
  have rd: "read_u8 r = (Inr b, ?r)" using "1.prems"(1) rest by (simp add: read_u8_eq)
  have mv: "moves r [b] ?r" using "1.prems"(1) rest by (simp add: moves_def)
  have unf: "sleb_loop shift v r =
      (if b AND 0x80 \<noteq> 0 then sleb_loop (shift + 7) ?v ?r
       else (Inr (if shift + 7 < 64 \<and> b AND 0x40 \<noteq> 0 then ?v OR push_bit (shift + 7) (NOT 0)
                  else ?v), ?r))"
    using lt by (subst sleb_loop.simps) (simp only: rd prod.case sum.case Let_def if_False)
  have val: "?v = v + of_int (2 ^ shift * int (unat (b AND 0x7f)))"
    by (subst or_push_bit_disjoint [OF "1.prems"(2)]) (simp only: push_bit_payload)
  have bound: "unat ?v < 2 ^ (shift + 7)"
    using sleb_accumulator_bound "1.prems"(2,3) lt by blast
  show ?case
  proof (cases "b AND 0x80 = 0")
    case True
    then have "r' = ?r" and "x = ?v + of_int (if b AND 0x40 \<noteq> 0 then - (2 ^ (shift + 7)) else 0)"
      using "1.prems"(4) unf sleb_sign_extend [OF bound] by simp_all
    then have "x = v + of_int (2 ^ shift * sleb_value [b])"
      using True by (simp add: val power_add algebra_simps)
    with mv True lt "1.prems"(3) \<open>r' = ?r\<close> show ?thesis by (intro exI [of _ "[b]"]) simp
  next
    case False
    have lp: "sleb_loop (shift + 7) ?v ?r = (Inr x, r')" using "1.prems"(4) unf False by auto
    obtain bs where bs: "moves ?r bs r'" "leb_framed bs" "Suc k + length bs \<le> 10"
      "x = ?v + of_int (2 ^ (shift + 7) * sleb_value bs)"
      using "1.IH" [OF lt rd [symmetric] refl refl refl False _ bound _ lp, of "Suc k"] mv
        "1.prems"(3) moves_okD
      by auto
    have "moves r (b # bs) r'" using mv bs(1) moves_append [of r "[b]" bs r'] by auto
    moreover have "x = v + of_int (2 ^ shift * sleb_value (b # bs))"
      using False by (simp add: bs(4) val power_add algebra_simps)
    ultimately show ?thesis using bs False by (intro exI [of _ "b # bs"]) simp
  qed
qed

lemma sleb_loop_complete:
  "moves r bs r' \<Longrightarrow> leb_framed bs \<Longrightarrow> shift = 7 * k \<Longrightarrow> k + length bs \<le> 10 \<Longrightarrow>
   \<exists>x. sleb_loop shift v r = (Inr x, r')"
proof (induction bs arbitrary: r v shift k)
  case (Cons b bs)
  have lt: "\<not> shift \<ge> 64" using Cons.prems(3,4) by simp
  from Cons.prems(1) obtain r1 where mv: "moves r [b] r1" and rest: "moves r1 bs r'"
    using moves_append [of r "[b]" bs r'] by auto
  note unf = sleb_loop.simps [of shift v r]
  show ?case
  proof (cases "b AND 0x80 = 0")
    case True
    then have "r' = r1" using Cons.prems(2) rest by simp
    then show ?thesis using lt True by (simp add: unf moves_u8 [OF mv] Let_def)
  next
    case False
    then have "\<exists>x. sleb_loop (shift + 7) (v OR push_bit shift (ucast (b AND 0x7f))) r1 = (Inr x, r')"
      using Cons.prems(2,3,4) by (intro Cons.IH [OF rest, of _ "Suc k"]) auto
    then show ?thesis using lt False by (simp add: unf moves_u8 [OF mv] Let_def)
  qed
qed simp

lemma read_sleb128_sound:
  "reader_ok r \<Longrightarrow> read_sleb128 r = (Inr x, r') \<Longrightarrow>
   \<exists>bs. moves r bs r' \<and> leb_framed bs \<and> length bs \<le> 10 \<and> x = of_int (sleb_value bs)"
  using sleb_loop_sound [of r 0 0 0 x r'] by (simp add: read_sleb128_def)

lemma read_sleb128_complete:
  assumes "moves r bs r'" "leb_framed bs" "length bs \<le> 10"
  shows "read_sleb128 r = (Inr (of_int (sleb_value bs)), r')"
proof -
  obtain x where x: "read_sleb128 r = (Inr x, r')"
    using sleb_loop_complete [of r bs r' 0 0 0] assms by (auto simp: read_sleb128_def)
  then obtain cs where cs: "moves r cs r'" "x = of_int (sleb_value cs)"
    using read_sleb128_sound assms(1) moves_okD by blast
  have "length cs = length bs" using moves_position [OF cs(1)] moves_position [OF assms(1)] by simp
  then have "cs = bs" using cs(1) assms(1) by (metis take_moves)
  with cs x show ?thesis by simp
qed


section \<open>Properties\<close>

text \<open>
  \<open>read_uleb128\<close> decodes exactly the unsigned LEB128 strings that fit: it succeeds on a
  reader if and only if the next bytes are a framed LEB128 string of at most ten bytes whose
  mathematical value is below 2^64, and then the result is that value, unwrapped, and the
  reader has moved past exactly those bytes.
\<close>

theorem uleb128_exact:
  assumes "reader_ok r"
  shows "read_uleb128 r = (Inr x, r') \<longleftrightarrow>
    (\<exists>bs. moves r bs r' \<and> leb_framed bs \<and> length bs \<le> 10 \<and> uleb_value bs = unat x)"
proof
  assume "\<exists>bs. moves r bs r' \<and> leb_framed bs \<and> length bs \<le> 10 \<and> uleb_value bs = unat x"
  then obtain bs where bs: "moves r bs r'" "leb_framed bs" "length bs \<le> 10" "uleb_value bs = unat x"
    by blast
  have "uleb_value bs < 2 ^ 64" using unat_u64_bound [of x] bs(4) by simp
  from read_uleb128_complete [OF bs(1-3) this] show "read_uleb128 r = (Inr x, r')"
    by (simp add: bs(4))
qed (use read_uleb128_sound [OF assms] in metis)

text \<open>A three-byte value, and a tenth byte that would leave 64 bits.\<close>

theorem uleb128_exact_witness:
  "read_uleb128 (reader_of [0xe5, 0x8e, 0x26] little)
     = (Inr 624485, rd_advance 3 (reader_of [0xe5, 0x8e, 0x26] little))"
proof -
  let ?r = "reader_of [0xe5, 0x8e, 0x26] little"
  have ok: "reader_ok ?r" by (rule reader_ok_reader_of) simp
  have "moves ?r [0xe5, 0x8e, 0x26] (rd_advance 3 ?r)" using ok by (simp add: moves_def numeral_3_eq_3)
  then have "\<exists>bs. moves ?r bs (rd_advance 3 ?r) \<and> leb_framed bs \<and> length bs \<le> 10 \<and>
      uleb_value bs = unat (624485 :: u64)"
    by (intro exI [of _ "[0xe5, 0x8e, 0x26]"]) simp
  then show ?thesis using uleb128_exact [OF ok] by blast
qed

text \<open>
  Round trip with the standard encoder: wherever the reader stands, the ULEB128 encoding of
  a 64-bit value (at most ten bytes) is read back as that value.
\<close>

theorem uleb128_roundtrip:
  assumes "moves r (uleb_encode (unat v)) r'"
  shows "read_uleb128 r = (Inr v, r')"
proof -
  have "unat v < 128 ^ 10" using unat_u64_bound [of v] by simp
  then have "length (uleb_encode (unat v)) \<le> 10" by (rule uleb_encode_length) simp
  moreover have "uleb_value (uleb_encode (unat v)) < 2 ^ 64"
    using unat_u64_bound [of v] by (simp add: uleb_encode_value)
  ultimately show ?thesis
    using read_uleb128_complete [OF assms uleb_encode_framed] by (simp add: uleb_encode_value)
qed

theorem uleb128_roundtrip_witness:
  "read_uleb128 (reader_of (uleb_encode 129 @ [7]) little)
     = (Inr 129, rd_advance 2 (reader_of (uleb_encode 129 @ [7]) little))"
proof -
  let ?r = "reader_of (uleb_encode 129 @ [7]) little"
  have enc: "uleb_encode 129 = [129, 1]" by (simp add: uleb_encode.simps)
  have u: "unat (129 :: u64) = 129" by simp
  have ok: "reader_ok ?r" by (rule reader_ok_reader_of) (simp add: enc)
  have "moves ?r (uleb_encode (unat (129 :: u64))) (rd_advance 2 ?r)"
    unfolding u enc using ok by (simp add: moves_def enc numeral_2_eq_2)
  then show ?thesis by (rule uleb128_roundtrip)
qed

text \<open>
  \<open>read_sleb128\<close> decodes the framed signed LEB128 strings of at most ten bytes to their
  mathematical value modulo 2^64, sign extension included: unlike \<open>read_uleb128\<close> it does not
  refuse a tenth byte whose bits do not fit.
\<close>

theorem sleb128_modulo:
  assumes "reader_ok r"
  shows "read_sleb128 r = (Inr x, r') \<longleftrightarrow>
    (\<exists>bs. moves r bs r' \<and> leb_framed bs \<and> length bs \<le> 10 \<and> x = of_int (sleb_value bs))"
  using read_sleb128_sound [OF assms] read_sleb128_complete by metis

text \<open>Ten bytes that denote 2^64 are accepted, as the value 0.\<close>

theorem sleb128_modulo_witness:
  "sleb_value (replicate 9 0x80 @ [2]) = 2 ^ 64 \<and>
   fst (read_sleb128 (reader_of (replicate 9 0x80 @ [2]) little)) = Inr 0"
proof -
  let ?bs = "replicate 9 0x80 @ [2] :: bytes"
  let ?r = "reader_of ?bs little"
  have ok: "reader_ok ?r" by (rule reader_ok_reader_of) simp
  have bs: "?bs = [0x80, 0x80, 0x80, 0x80, 0x80, 0x80, 0x80, 0x80, 0x80, 2]"
    by (simp add: numeral_eq_Suc)
  have v: "sleb_value ?bs = 2 ^ 64" by (simp add: bs)
  have "moves ?r ?bs (rd_advance 10 ?r)" using ok by (simp add: moves_def)
  moreover have "leb_framed ?bs" by (simp add: bs)
  moreover have "(0 :: i64) = of_int (sleb_value ?bs)" unfolding v by simp
  ultimately have "read_sleb128 ?r = (Inr 0, rd_advance 10 ?r)"
    using sleb128_modulo [OF ok, of 0 "rd_advance 10 ?r"] by (auto intro!: exI [of _ ?bs])
  with v show ?thesis by simp
qed

end
