(* ===== verification/Validator.thy ===== *)
theory Validator
  imports Base
begin

unbundle bit_operations_syntax

text \<open>
  \<open>BinaryValidator::validate\<close> of \<open>src/validator.cc\<close>: the structural checks the loader relies
  on, as the list of errors in the order the source reports them, and the two running byte
  counts. The lemmas turn an empty error list into the facts about sections, segments, symbols
  and relocations that later stages use.
\<close>

section \<open>The report\<close>

record ValidationReport =
  rep_valid :: bool
  rep_errors :: "Error list"
  rep_file_bytes :: u64
  rep_virtual_bytes :: u64

definition empty_report :: ValidationReport where
  "empty_report = \<lparr>rep_valid = False, rep_errors = [], rep_file_bytes = 0, rep_virtual_bytes = 0\<rparr>"

definition report_if :: "bool \<Rightarrow> Error \<Rightarrow> Error list" where
  "report_if bad e = (if bad then [e] else [])"

text \<open>\<open>checked_add(counter, amount, counter)\<close> with its result ignored: it leaves the counter on overflow.\<close>

definition add_or_keep :: "u64 \<Rightarrow> u64 \<Rightarrow> u64" where
  "add_or_keep counter amount = (case checked_add counter amount of None \<Rightarrow> counter | Some v \<Rightarrow> v)"

definition section_errors :: "u64 \<Rightarrow> nat \<Rightarrow> Section \<Rightarrow> Error list" where
  "section_errors file_size n s =
     report_if (unat (sec_index s) \<noteq> n) (mk_error invalid_section (of_nat n) ''section index mismatch'') @
     report_if (sec_kind s \<noteq> no_bits \<and> \<not> range_inside (sec_file_offset s) (sec_file_size s) file_size)
       (mk_error file_range_overflow (sec_file_offset s) ''section file range invalid'') @
     report_if (sec_alignment s = 0 \<or> sec_alignment s AND (sec_alignment s - 1) \<noteq> 0)
       (mk_error invalid_alignment (sec_file_offset s) ''section alignment invalid'')"

definition segment_errors :: "u64 \<Rightarrow> Segment \<Rightarrow> Error list" where
  "segment_errors file_size s =
     report_if (seg_file_size s > seg_memory_size s \<or>
                \<not> range_inside (seg_file_offset s) (seg_file_size s) file_size)
       (mk_error invalid_segment (seg_file_offset s) ''segment range invalid'') @
     report_if (checked_add (seg_virtual_address s) (seg_memory_size s) = None)
       (mk_error address_overflow (seg_virtual_address s) ''segment virtual range overflow'')"

definition symbol_errors :: "nat \<Rightarrow> Symbol \<Rightarrow> Error list" where
  "symbol_errors n s =
     report_if (unat (sym_index s) \<noteq> n) (mk_error invalid_symbol (of_nat n) ''symbol index mismatch'')"

definition relocation_errors :: "nat \<Rightarrow> Relocation \<Rightarrow> Error list" where
  "relocation_errors symbol_count rel =
     report_if (unat (rel_symbol_index rel) \<ge> symbol_count \<and> rel_symbol_index rel \<noteq> 0)
       (mk_error invalid_symbol (rel_offset rel) ''relocation symbol out of range'')"

definition count_errors :: "Limits \<Rightarrow> bytes \<Rightarrow> BinaryImage \<Rightarrow> Error list" where
  "count_errors limits file i =
     report_if (length file > unat (max_file_size limits)) (mk_error resource_limit 0 ''file size limit'') @
     report_if (length (img_sections i) > unat (max_sections limits))
       (mk_error resource_limit 0 ''section count limit'') @
     report_if (length (img_segments i) > unat (max_segments limits))
       (mk_error resource_limit 0 ''segment count limit'') @
     report_if (length (img_symbols i) > unat (max_symbols limits))
       (mk_error resource_limit 0 ''symbol count limit'') @
     report_if (length (img_relocations i) > unat (max_relocations limits))
       (mk_error resource_limit 0 ''relocation count limit'')"

definition validate :: "Limits \<Rightarrow> BinaryImage \<Rightarrow> ValidationReport" where
  "validate limits i =
    (case img_file_data i of
       None \<Rightarrow> empty_report\<lparr>rep_errors := [mk_error invalid_header 0 ''image does not retain file bytes'']\<rparr>
     | Some file \<Rightarrow>
         let file_size = of_nat (length file);
             errors =
               count_errors limits file i @
               concat (map (\<lambda>(n, s). section_errors file_size n s) (enumerate 0 (img_sections i))) @
               concat (map (segment_errors file_size) (img_segments i)) @
               concat (map (\<lambda>(n, s). symbol_errors n s) (enumerate 0 (img_symbols i))) @
               concat (map (relocation_errors (length (img_symbols i))) (img_relocations i)) in
         \<lparr>rep_valid = (errors = []), rep_errors = errors,
          rep_file_bytes = foldl (\<lambda>c s. add_or_keep c (sec_file_size s)) 0 (img_sections i),
          rep_virtual_bytes = foldl (\<lambda>c s. add_or_keep c (sec_memory_size s)) 0 (img_sections i)\<rparr>)"

section \<open>What a valid report guarantees\<close>

lemma report_if_Nil [simp]: "report_if b e = [] \<longleftrightarrow> \<not> b"
  by (simp add: report_if_def)

lemma concat_enumerate_Nil:
  "concat (map (\<lambda>(n, s). f n s) (enumerate 0 xs)) = [] \<longleftrightarrow> (\<forall>n < length xs. f n (xs ! n) = [])"
  by (auto simp: set_conv_nth nth_enumerate_eq split: prod.splits)

definition segment_valid :: "nat \<Rightarrow> Segment \<Rightarrow> bool" where
  "segment_valid file_size s \<longleftrightarrow>
     unat (seg_file_size s) \<le> unat (seg_memory_size s) \<and>
     unat (seg_file_offset s) + unat (seg_file_size s) \<le> file_size \<and>
     unat (seg_virtual_address s) + unat (seg_memory_size s) < 2 ^ 64"

definition section_valid :: "nat \<Rightarrow> nat \<Rightarrow> Section \<Rightarrow> bool" where
  "section_valid file_size n s \<longleftrightarrow>
     unat (sec_index s) = n \<and> power_of_two (sec_alignment s) \<and>
     (sec_kind s \<noteq> no_bits \<longrightarrow> unat (sec_file_offset s) + unat (sec_file_size s) \<le> file_size)"

definition image_valid :: "Limits \<Rightarrow> bytes \<Rightarrow> BinaryImage \<Rightarrow> bool" where
  "image_valid limits file i \<longleftrightarrow>
     length file \<le> unat (max_file_size limits) \<and>
     length (img_sections i) \<le> unat (max_sections limits) \<and>
     length (img_segments i) \<le> unat (max_segments limits) \<and>
     length (img_symbols i) \<le> unat (max_symbols limits) \<and>
     length (img_relocations i) \<le> unat (max_relocations limits) \<and>
     (\<forall>n < length (img_sections i). section_valid (length file) n (img_sections i ! n)) \<and>
     (\<forall>s \<in> set (img_segments i). segment_valid (length file) s) \<and>
     (\<forall>n < length (img_symbols i). unat (sym_index (img_symbols i ! n)) = n) \<and>
     (\<forall>rel \<in> set (img_relocations i). rel_symbol_index rel = 0 \<or> image_symbol i (rel_symbol_index rel) \<noteq> None)"

lemma section_errors_Nil:
  "n < 2 ^ 64 \<Longrightarrow> section_errors (of_nat n) k s = [] \<longleftrightarrow> section_valid n k s"
  by (auto simp: section_errors_def section_valid_def range_inside_iff power_of_two_def
      unat_of_nat_u64 simp del: unsigned_of_nat)

lemma segment_errors_Nil:
  "n < 2 ^ 64 \<Longrightarrow> segment_errors (of_nat n) s = [] \<longleftrightarrow> segment_valid n s"
  by (auto simp: segment_errors_def segment_valid_def range_inside_iff add_op.None_iff
      unat_of_nat_u64 word_less_nat_alt simp del: unsigned_of_nat)

lemma validate_iff:
  assumes "\<And>bs. img_file_data i = Some bs \<Longrightarrow> length bs < 2 ^ 64"
  shows "(rep_valid (validate limits i) \<longleftrightarrow>
      (\<exists>bs. img_file_data i = Some bs \<and> image_valid limits bs i)) \<and>
    (rep_valid (validate limits i) \<longleftrightarrow> rep_errors (validate limits i) = [])"
proof (cases "img_file_data i")
  case None
  then show ?thesis by (simp add: validate_def empty_report_def)
next
  case (Some bs)
  then have n: "length bs < 2 ^ 64" using assms by simp
  have errs: "rep_valid (validate limits i) \<longleftrightarrow> rep_errors (validate limits i) = []"
    by (simp add: validate_def Some Let_def)
  have "rep_errors (validate limits i) = [] \<longleftrightarrow> image_valid limits bs i"
    unfolding validate_def Some Let_def option.case ValidationReport.simps append_is_Nil_conv
      concat_enumerate_Nil
    using n by (auto simp: image_valid_def count_errors_def section_errors_Nil segment_errors_Nil
        symbol_errors_def relocation_errors_def image_symbol_def)
  then show ?thesis using errs Some by simp
qed

section \<open>Properties\<close>

text \<open>
  C9. The validator accepts an image exactly when it keeps its file bytes, every table is within
  its limit, every section has its own index, a power-of-two alignment and a file range inside
  the file, every segment has no more file bytes than memory, a file range inside the file and a
  virtual range below 2^64, every symbol has its own index, and every relocation with a symbol
  names one of the table; and it reports an error exactly when it does not accept.
\<close>

theorem validate_exact:
  assumes "\<And>bs. img_file_data i = Some bs \<Longrightarrow> length bs < 2 ^ 64"
  shows "(rep_valid (validate limits i) \<longleftrightarrow>
      (\<exists>bs. img_file_data i = Some bs \<and> image_valid limits bs i)) \<and>
    (rep_valid (validate limits i) \<longleftrightarrow> rep_errors (validate limits i) = [])"
  by (rule validate_iff [OF assms])

definition demo_image :: BinaryImage where
  "demo_image = empty_image\<lparr>img_file_data := Some [1, 2, 3, 4, 5, 6, 7, 8],
     img_segments := [\<lparr>seg_index = 0, seg_file_offset = 4, seg_file_size = 4,
       seg_virtual_address = 0x400010, seg_memory_size = 8, seg_alignment = 0x1000,
       seg_permissions = 5, seg_sections = []\<rparr>]\<rparr>"

theorem validate_exact_witness: "rep_errors (validate default_limits demo_image) = []"
proof -
  have d: "\<And>bs. img_file_data demo_image = Some bs \<Longrightarrow> length bs < 2 ^ 64"
    by (auto simp: demo_image_def)
  have "\<exists>bs. img_file_data demo_image = Some bs \<and> image_valid default_limits bs demo_image"
    by (simp add: demo_image_def image_valid_def segment_valid_def default_limits_def empty_image_def)
  then show ?thesis using validate_exact [OF d] by blast
qed

end
