(* ===== verification/Ordered_Map.thy ===== *)
theory Ordered_Map
  imports Prelude
begin

text \<open>
  \<open>std::map\<close> as the library uses it: the elements in the order of their keys, with \<open>find\<close>,
  \<open>emplace\<close>, \<open>erase\<close>, in-place update of a value, and the iterators \<open>lower_bound\<close>,
  \<open>upper_bound\<close> and \<open>prev\<close>. An iterator is the split of the sequence at the element it points
  to: the elements before it and the elements from it on. The locales state the contract the
  components rely on; the interpretation at the end provides it.
\<close>

type_synonym ('k, 'v) omap = "('k \<times> 'v) list"

section \<open>Operations\<close>

definition om_find :: "('k, 'v) omap \<Rightarrow> 'k \<Rightarrow> 'v option" where
  "om_find m k = map_of m k"

definition om_lower_bound :: "('k::linorder, 'v) omap \<Rightarrow> 'k \<Rightarrow> ('k, 'v) omap \<times> ('k, 'v) omap" where
  "om_lower_bound m k = (takeWhile (\<lambda>e. fst e < k) m, dropWhile (\<lambda>e. fst e < k) m)"

definition om_upper_bound :: "('k::linorder, 'v) omap \<Rightarrow> 'k \<Rightarrow> ('k, 'v) omap \<times> ('k, 'v) omap" where
  "om_upper_bound m k = (takeWhile (\<lambda>e. fst e \<le> k) m, dropWhile (\<lambda>e. fst e \<le> k) m)"

text \<open>\<open>std::map::emplace\<close> keeps an element that is already there.\<close>

definition om_emplace :: "'k::linorder \<Rightarrow> 'v \<Rightarrow> ('k, 'v) omap \<Rightarrow> ('k, 'v) omap" where
  "om_emplace k v m =
     (case om_find m k of
        Some _ \<Rightarrow> m
      | None \<Rightarrow> (case om_lower_bound m k of (prior, from_here) \<Rightarrow> prior @ (k, v) # from_here))"

definition om_erase :: "'k \<Rightarrow> ('k, 'v) omap \<Rightarrow> ('k, 'v) omap" where
  "om_erase k m = filter (\<lambda>e. fst e \<noteq> k) m"

definition om_modify :: "'k \<Rightarrow> ('v \<Rightarrow> 'v) \<Rightarrow> ('k, 'v) omap \<Rightarrow> ('k, 'v) omap" where
  "om_modify k f m = map (\<lambda>(k', v). (k', if k' = k then f v else v)) m"

text \<open>The greatest element whose key is at most \<open>k\<close>: \<open>prev(upper_bound(k))\<close>, if any.\<close>

definition om_floor :: "('k::linorder, 'v) omap \<Rightarrow> 'k \<Rightarrow> ('k \<times> 'v) option" where
  "om_floor m k =
     (case om_upper_bound m k of (prior, _) \<Rightarrow> if prior = [] then None else Some (last prior))"

definition om_ok :: "('k::linorder, 'v) omap \<Rightarrow> bool" where
  "om_ok m \<longleftrightarrow> sorted_wrt (\<lambda>a b. fst a < fst b) m"

section \<open>The contract\<close>

locale key_map =
  fixes ok :: "'m \<Rightarrow> bool"
    and find :: "'m \<Rightarrow> 'k \<Rightarrow> 'v option"
    and emplace :: "'k \<Rightarrow> 'v \<Rightarrow> 'm \<Rightarrow> 'm"
    and erase :: "'k \<Rightarrow> 'm \<Rightarrow> 'm"
    and modify :: "'k \<Rightarrow> ('v \<Rightarrow> 'v) \<Rightarrow> 'm \<Rightarrow> 'm"
  assumes ok_emplace: "ok m \<Longrightarrow> ok (emplace k v m)"
    and ok_erase: "ok m \<Longrightarrow> ok (erase k m)"
    and ok_modify: "ok m \<Longrightarrow> ok (modify k f m)"
    and find_emplace: "ok m \<Longrightarrow>
      find (emplace k v m) j = (if j = k \<and> find m k = None then Some v else find m j)"
    and find_erase: "ok m \<Longrightarrow> find (erase k m) j = (if j = k then None else find m j)"
    and find_modify: "ok m \<Longrightarrow>
      find (modify k f m) j = (if j = k then map_option f (find m k) else find m j)"
begin

lemma find_emplace_new [simp]: "ok m \<Longrightarrow> find m k = None \<Longrightarrow> find (emplace k v m) k = Some v"
  by (simp add: find_emplace)

lemma find_emplace_other: "ok m \<Longrightarrow> j \<noteq> k \<Longrightarrow> find (emplace k v m) j = find m j"
  by (simp add: find_emplace)

lemma find_emplace_mono: "ok m \<Longrightarrow> find m j = Some w \<Longrightarrow> find (emplace k v m) j = Some w"
  by (auto simp: find_emplace)

text \<open>Filling a map from a list: the first binding of a key wins.\<close>

lemma fill_ok_find:
  "ok m \<Longrightarrow> ok (fold (\<lambda>(k, v). emplace k v) kvs m) \<and>
   find (fold (\<lambda>(k, v). emplace k v) kvs m) j =
     (case find m j of Some v \<Rightarrow> Some v | None \<Rightarrow> map_of kvs j)"
proof (induction kvs arbitrary: m)
  case (Cons kv kvs)
  obtain k v where kv: "kv = (k, v)" by (cases kv)
  show ?case
    using Cons.IH [OF ok_emplace [OF Cons.prems, of k v]] Cons.prems
    by (auto simp: kv find_emplace split: option.splits)
qed (auto split: option.splits)

end

locale ordered_key_map = key_map ok find emplace erase modify
  for ok :: "'m \<Rightarrow> bool"
    and find :: "'m \<Rightarrow> 'k::linorder \<Rightarrow> 'v option"
    and emplace erase modify +
  fixes floor :: "'m \<Rightarrow> 'k \<Rightarrow> ('k \<times> 'v) option"
  assumes floor_iff: "ok m \<Longrightarrow> floor m k = Some (b, v) \<longleftrightarrow>
      find m b = Some v \<and> b \<le> k \<and> (\<forall>j. find m j \<noteq> None \<longrightarrow> j \<le> k \<longrightarrow> j \<le> b)"
    and floor_None_iff: "ok m \<Longrightarrow> floor m k = None \<longleftrightarrow> (\<forall>j. j \<le> k \<longrightarrow> find m j = None)"
begin

lemma floor_find: "ok m \<Longrightarrow> floor m k = Some (b, v) \<Longrightarrow> find m b = Some v \<and> b \<le> k"
  by (simp add: floor_iff)

lemma floor_unique:
  assumes "ok m" "find m b = Some v" "b \<le> k" "\<And>j. find m j \<noteq> None \<Longrightarrow> j \<le> k \<Longrightarrow> j \<le> b"
  shows "floor m k = Some (b, v)"
  using assms by (simp add: floor_iff)

text \<open>Changing values in place does not move the neighbours.\<close>

lemma floor_modify:
  assumes "ok m"
  shows "floor (modify k f m) j =
    map_option (\<lambda>(b, v). (b, if b = k then f v else v)) (floor m j)"
proof (cases "floor m j")
  case None
  then have "floor (modify k f m) j = None"
    using assms by (auto simp: floor_None_iff ok_modify find_modify)
  with None show ?thesis by simp
next
  case (Some e)
  obtain b v where e: "e = (b, v)" by (cases e)
  have "floor (modify k f m) j = Some (b, if b = k then f v else v)"
    using assms Some unfolding e
    by (simp add: floor_iff ok_modify find_modify split: if_splits) metis
  then show ?thesis using Some e by simp
qed

end

section \<open>The implementation keeps the contract\<close>

lemma om_ok_Nil [simp]: "om_ok []" and om_find_Nil [simp]: "om_find [] k = None"
  by (simp_all add: om_ok_def om_find_def)

lemma om_ok_distinct: "om_ok m \<Longrightarrow> distinct (map fst m)"
  by (induction m) (auto simp: om_ok_def)

lemma om_find_Some_iff: "om_ok m \<Longrightarrow> om_find m k = Some v \<longleftrightarrow> (k, v) \<in> set m"
  by (simp add: om_find_def om_ok_distinct)

lemma om_find_None_iff: "om_find m k = None \<longleftrightarrow> k \<notin> fst ` set m"
  by (simp add: om_find_def map_of_eq_None_iff)

lemma takeWhile_none: "\<forall>x \<in> set m. \<not> P x \<Longrightarrow> takeWhile P m = [] \<and> dropWhile P m = m"
  by (cases m) auto

lemma om_ok_split:
  "om_ok m \<Longrightarrow> filter (\<lambda>e. fst e < k) m = takeWhile (\<lambda>e. fst e < k) m \<and>
     filter (\<lambda>e. \<not> fst e < k) m = dropWhile (\<lambda>e. fst e < k) m"
proof (induction m)
  case (Cons e m)
  show ?case
  proof (cases "fst e < k")
    case True
    then show ?thesis using Cons by (simp add: om_ok_def)
  next
    case False
    then have "\<forall>x \<in> set m. \<not> fst x < k" using Cons.prems by (force simp: om_ok_def)
    then show ?thesis using False by (simp add: takeWhile_none filter_empty_conv filter_id_conv)
  qed
qed simp

lemma om_ok_split_le:
  "om_ok m \<Longrightarrow> filter (\<lambda>e. fst e \<le> k) m = takeWhile (\<lambda>e. fst e \<le> k) m"
proof (induction m)
  case (Cons e m)
  show ?case
  proof (cases "fst e \<le> k")
    case True
    then show ?thesis using Cons by (simp add: om_ok_def)
  next
    case False
    then have "\<forall>x \<in> set m. \<not> fst x \<le> k" using Cons.prems by (force simp: om_ok_def)
    then show ?thesis using False by (simp add: takeWhile_none filter_empty_conv)
  qed
qed simp

lemma sorted_last_greatest:
  "sorted_wrt (\<lambda>a b. fst a < fst b) t \<Longrightarrow> e \<in> set t \<Longrightarrow> fst e \<le> (fst (last t) :: 'k::linorder)"
  by (induction t rule: rev_induct) (auto simp: sorted_wrt_append intro: less_imp_le)

lemma set_om_emplace:
  "om_find m k = None \<Longrightarrow> set (om_emplace k v m) = insert (k, v) (set m)"
proof -
  have "set m = set (takeWhile (\<lambda>e. fst e < k) m) \<union> set (dropWhile (\<lambda>e. fst e < k) m)"
    by (metis set_append takeWhile_dropWhile_id)
  moreover assume "om_find m k = None"
  ultimately show ?thesis by (simp add: om_emplace_def om_lower_bound_def)
qed

lemma om_ok_emplace:
  assumes "om_ok m"
  shows "om_ok (om_emplace k v m)"
proof (cases "om_find m k")
  case None
  let ?l = "filter (\<lambda>e. fst e < k) m" and ?g = "filter (\<lambda>e. \<not> fst e < k) m"
  have "om_emplace k v m = ?l @ (k, v) # ?g"
    using None om_ok_split [OF assms, of k] by (simp add: om_emplace_def om_lower_bound_def)
  moreover have "sorted_wrt (\<lambda>a b. fst a < fst b) ?l" "sorted_wrt (\<lambda>a b. fst a < fst b) ?g"
    using assms by (simp_all add: om_ok_def sorted_wrt_filter)
  moreover have "\<forall>e \<in> set ?g. k < fst e"
    using None by (force simp: om_find_None_iff)
  ultimately show ?thesis by (auto simp: om_ok_def sorted_wrt_append)
qed (use assms in \<open>simp add: om_emplace_def\<close>)

interpretation om: ordered_key_map om_ok om_find om_emplace om_erase om_modify om_floor
proof unfold_locales
  fix m :: "('k::linorder, 'v) omap" and k j b :: 'k and v :: 'v and f
  assume m: "om_ok m"
  show ok: "om_ok (om_emplace k v m)" using m by (rule om_ok_emplace)
  show "om_ok (om_erase k m)" using m by (simp add: om_ok_def om_erase_def sorted_wrt_filter)
  have keys: "map fst (om_modify k f m) = map fst m"
    by (simp add: om_modify_def comp_def case_prod_beta)
  show "om_ok (om_modify k f m)"
    using m keys by (metis om_ok_def sorted_wrt_map)
  show "om_find (om_emplace k v m) j =
      (if j = k \<and> om_find m k = None then Some v else om_find m j)"
  proof (cases "om_find m k")
    case None
    have "om_find (om_emplace k v m) j = Some w \<longleftrightarrow> (if j = k then Some v else om_find m j) = Some w" for w
      using None ok m by (auto simp: om_find_Some_iff set_om_emplace om_find_None_iff image_iff)
    then show ?thesis using None by (metis not_None_eq)
  qed (simp add: om_emplace_def)
  show "om_find (om_erase k m) j = (if j = k then None else om_find m j)"
    by (simp add: om_find_def om_erase_def) (induction m, auto)
  show "om_find (om_modify k f m) j = (if j = k then map_option f (om_find m k) else om_find m j)"
    by (simp add: om_find_def om_modify_def) (induction m, auto)
  let ?t = "filter (\<lambda>e. fst e \<le> k) m"
  have t: "om_floor m k = (if ?t = [] then None else Some (last ?t))"
    using om_ok_split_le [OF m] by (simp add: om_floor_def om_upper_bound_def)
  have last: "\<forall>e \<in> set ?t. fst e \<le> fst (last ?t)"
  proof -
    have "sorted_wrt (\<lambda>a b. fst a < fst b) ?t" using m by (simp add: om_ok_def sorted_wrt_filter)
    then show ?thesis by (blast intro: sorted_last_greatest)
  qed
  show "om_floor m k = None \<longleftrightarrow> (\<forall>j. j \<le> k \<longrightarrow> om_find m j = None)"
    by (auto simp: t filter_empty_conv om_find_None_iff)
  show "om_floor m k = Some (b, v) \<longleftrightarrow>
      om_find m b = Some v \<and> b \<le> k \<and> (\<forall>j. om_find m j \<noteq> None \<longrightarrow> j \<le> k \<longrightarrow> j \<le> b)"
  proof
    assume "om_floor m k = Some (b, v)"
    then have "?t \<noteq> []" and l: "last ?t = (b, v)" by (auto simp: t split: if_splits)
    then have "(b, v) \<in> set ?t" by (metis last_in_set)
    then show "om_find m b = Some v \<and> b \<le> k \<and> (\<forall>j. om_find m j \<noteq> None \<longrightarrow> j \<le> k \<longrightarrow> j \<le> b)"
      using last m unfolding l by (auto simp: om_find_Some_iff)
  next
    assume h: "om_find m b = Some v \<and> b \<le> k \<and> (\<forall>j. om_find m j \<noteq> None \<longrightarrow> j \<le> k \<longrightarrow> j \<le> b)"
    then have mem: "(b, v) \<in> set ?t" using m by (simp add: om_find_Some_iff)
    then have ne: "?t \<noteq> []" by (metis list.distinct(1) list.set_cases)
    then have lt: "last ?t \<in> set ?t" by (rule last_in_set)
    obtain c w where cw: "last ?t = (c, w)" by (cases "last ?t")
    then have cw': "(c, w) \<in> set m" "c \<le> k" using lt by auto
    then have "c \<le> b" using h m by (auto simp: om_find_Some_iff)
    moreover have "b \<le> c" using last mem cw by force
    ultimately have "c = b" by simp
    then have "w = v" using h cw' m by (metis om_find_Some_iff option.inject)
    then show "om_floor m k = Some (b, v)" using ne cw \<open>c = b\<close> by (simp add: t)
  qed
qed

end
