(* ===== verification/Address_Space.thy ===== *)
theory Address_Space
  imports Base Ordered_Map
begin

unbundle bit_operations_syntax

text \<open>
  \<open>AddressSpace\<close> and \<open>MemoryRegion\<close> of \<open>src/address_space.cc\<close>: an ordered map from base
  addresses to regions with their bytes and permissions. The invariant \<open>as_ok\<close> (regions are
  non-empty, do not wrap, do not overlap, hold exactly their bytes, and their sizes add up to
  the byte count) is established by the constructor and kept by every operation. \<open>as_byte\<close> is
  the abstract memory, a partial function from addresses to bytes; the lemmas describe every
  operation by its effect on it.
\<close>

section \<open>State and operations\<close>

record MemoryRegion =
  reg_base :: u64
  reg_size :: u64
  reg_permissions :: u8
  reg_name :: string
  reg_bytes :: bytes

definition region_contains :: "MemoryRegion \<Rightarrow> u64 \<Rightarrow> u64 \<Rightarrow> bool" where
  "region_contains r address len =
     (if address < reg_base r then False else range_inside (address - reg_base r) len (reg_size r))"

record AddressSpace =
  as_limits :: Limits
  as_regions :: "(u64, MemoryRegion) omap"
  as_mapped_bytes :: u64

definition new_address_space :: "Limits \<Rightarrow> AddressSpace" where
  "new_address_space limits = \<lparr>as_limits = limits, as_regions = [], as_mapped_bytes = 0\<rparr>"

definition as_map :: "u64 \<Rightarrow> u64 \<Rightarrow> u8 \<Rightarrow> string \<Rightarrow> AddressSpace \<Rightarrow> Error + AddressSpace" where
  "as_map base len perms name s =
    (if len = 0 then Inl (mk_error invalid_segment base ''cannot map an empty region'')
     else case checked_add base len of
       None \<Rightarrow> Inl (mk_error address_overflow base ''mapping address overflows'')
     | Some end_address \<Rightarrow>
    (case (case checked_add (as_mapped_bytes s) len of
             None \<Rightarrow> None
           | Some total_bytes \<Rightarrow>
               if total_bytes > max_mapped_bytes (as_limits s) then None else Some total_bytes) of
       None \<Rightarrow> Inl (mk_error resource_limit base ''mapped byte limit exceeded'')
     | Some total_bytes \<Rightarrow>
    (case om_lower_bound (as_regions s) base of (prior, from_here) \<Rightarrow>
     if (case from_here of [] \<Rightarrow> False | (_, next_region) # _ \<Rightarrow> end_address > reg_base next_region)
     then Inl (mk_error mapping_overlap base ''mapping overlaps next region'')
     else if prior \<noteq> [] \<and>
       (let previous = snd (last prior) in
        case checked_add (reg_base previous) (reg_size previous) of
          None \<Rightarrow> True
        | Some previous_end \<Rightarrow> previous_end > base)
     then Inl (mk_error mapping_overlap base ''mapping overlaps previous region'')
     else
       let region = \<lparr>reg_base = base, reg_size = len, reg_permissions = perms, reg_name = name,
                     reg_bytes = replicate (unat len) 0\<rparr> in
       Inr (s\<lparr>as_regions := om_emplace base region (as_regions s),
              as_mapped_bytes := total_bytes\<rparr>))))"

definition as_unmap :: "u64 \<Rightarrow> AddressSpace \<Rightarrow> Error + AddressSpace" where
  "as_unmap base s =
    (case om_find (as_regions s) base of
       None \<Rightarrow> Inl (mk_error mapping_missing base ''mapping does not exist'')
     | Some found \<Rightarrow>
         Inr (s\<lparr>as_mapped_bytes := as_mapped_bytes s - reg_size found,
                as_regions := om_erase base (as_regions s)\<rparr>))"

definition as_region_at :: "AddressSpace \<Rightarrow> u64 \<Rightarrow> MemoryRegion option" where
  "as_region_at s address =
    (case om_floor (as_regions s) address of
       None \<Rightarrow> None
     | Some (_, candidate) \<Rightarrow> if region_contains candidate address 1 then Some candidate else None)"

definition as_protect :: "u64 \<Rightarrow> u64 \<Rightarrow> u8 \<Rightarrow> AddressSpace \<Rightarrow> Error + AddressSpace" where
  "as_protect base len perms s =
    (let failure = mk_error mapping_missing base ''protection range must match a complete mapping'' in
     case as_region_at s base of
       None \<Rightarrow> Inl failure
     | Some region \<Rightarrow>
         if reg_base region \<noteq> base \<or> reg_size region \<noteq> len then Inl failure
         else Inr (s\<lparr>as_regions :=
           om_modify (reg_base region) (\<lambda>r. r\<lparr>reg_permissions := perms\<rparr>) (as_regions s)\<rparr>))"

definition as_read :: "AddressSpace \<Rightarrow> u64 \<Rightarrow> u64 \<Rightarrow> Error + bytes" where
  "as_read s address len =
    (if len = 0 then Inr []
     else
       let unmapped = mk_error mapping_missing address ''read crosses an unmapped boundary'' in
       case as_region_at s address of
         None \<Rightarrow> Inl unmapped
       | Some region \<Rightarrow>
           if \<not> region_contains region address len then Inl unmapped
           else if reg_permissions region AND permission_read = 0
           then Inl (mk_error permission_denied address ''mapping is not readable'')
           else Inr (take (unat len) (drop (unat (address - reg_base region)) (reg_bytes region))))"

definition as_write :: "u64 \<Rightarrow> bytes \<Rightarrow> bool \<Rightarrow> AddressSpace \<Rightarrow> Error + AddressSpace" where
  "as_write address input ignore_permissions s =
    (if input = [] then Inr s
     else
       let unmapped = mk_error mapping_missing address ''write crosses an unmapped boundary'' in
       case as_region_at s address of
         None \<Rightarrow> Inl unmapped
       | Some region \<Rightarrow>
           if \<not> region_contains region address (of_nat (length input)) then Inl unmapped
           else if \<not> ignore_permissions \<and> reg_permissions region AND permission_write = 0
           then Inl (mk_error permission_denied address ''mapping is not writable'')
           else Inr (s\<lparr>as_regions :=
             om_modify (reg_base region)
               (\<lambda>r. r\<lparr>reg_bytes := splice (unat (address - reg_base r)) input (reg_bytes r)\<rparr>)
               (as_regions s)\<rparr>))"

definition integer_width :: "u8 \<Rightarrow> bool" where
  "integer_width width \<longleftrightarrow> width = 1 \<or> width = 2 \<or> width = 4 \<or> width = 8"

definition as_read_integer :: "AddressSpace \<Rightarrow> u64 \<Rightarrow> u8 \<Rightarrow> ByteOrder \<Rightarrow> Error + u64" where
  "as_read_integer s address width order =
    (if \<not> integer_width width
     then Inl (mk_error invalid_relocation address ''integer width is unsupported'')
     else case as_read s address (ucast width) of
       Inl e \<Rightarrow> Inl e
     | Inr bs \<Rightarrow> Inr (ordered_value order bs))"

definition integer_bytes :: "u8 \<Rightarrow> ByteOrder \<Rightarrow> u64 \<Rightarrow> bytes" where
  "integer_bytes width order v =
     (case order of little \<Rightarrow> le_bytes (unat width) v | big \<Rightarrow> be_bytes (unat width) v)"

definition as_write_integer ::
    "u64 \<Rightarrow> u8 \<Rightarrow> ByteOrder \<Rightarrow> u64 \<Rightarrow> bool \<Rightarrow> AddressSpace \<Rightarrow> Error + AddressSpace" where
  "as_write_integer address width order v ignore_permissions s =
    (if \<not> integer_width width
     then Inl (mk_error invalid_relocation address ''integer width is unsupported'')
     else as_write address (integer_bytes width order v) ignore_permissions s)"

definition as_clear :: "AddressSpace \<Rightarrow> AddressSpace" where
  "as_clear s = s\<lparr>as_regions := [], as_mapped_bytes := 0\<rparr>"

section \<open>The invariant\<close>

definition region_end :: "MemoryRegion \<Rightarrow> nat" where
  "region_end r = unat (reg_base r) + unat (reg_size r)"

definition region_ok :: "u64 \<times> MemoryRegion \<Rightarrow> bool" where
  "region_ok e \<longleftrightarrow>
     fst e = reg_base (snd e) \<and> reg_size (snd e) \<noteq> 0 \<and> region_end (snd e) < 2 ^ 64 \<and>
     length (reg_bytes (snd e)) = unat (reg_size (snd e))"

definition regions_ok :: "(u64, MemoryRegion) omap \<Rightarrow> bool" where
  "regions_ok m \<longleftrightarrow>
     list_all region_ok m \<and> sorted_wrt (\<lambda>a b. region_end (snd a) \<le> unat (fst b)) m"

definition regions_total :: "(u64, MemoryRegion) omap \<Rightarrow> nat" where
  "regions_total m = sum_list (map (\<lambda>e. unat (reg_size (snd e))) m)"

definition as_ok :: "AddressSpace \<Rightarrow> bool" where
  "as_ok s \<longleftrightarrow>
     regions_ok (as_regions s) \<and>
     unat (as_mapped_bytes s) = regions_total (as_regions s) \<and>
     as_mapped_bytes s \<le> max_mapped_bytes (as_limits s)"

text \<open>The abstract memory.\<close>

definition as_byte :: "AddressSpace \<Rightarrow> u64 \<Rightarrow> u8 option" where
  "as_byte s address =
     map_option (\<lambda>r. reg_bytes r ! unat (address - reg_base r)) (as_region_at s address)"

definition region_holds :: "MemoryRegion \<Rightarrow> u64 \<Rightarrow> bool" where
  "region_holds r a \<longleftrightarrow> unat (reg_base r) \<le> unat a \<and> unat a < region_end r"

lemma region_contains_iff:
  "region_contains r a n \<longleftrightarrow> unat (reg_base r) \<le> unat a \<and> unat a + unat n \<le> region_end r"
  by (auto simp: region_contains_def range_inside_iff region_end_def word_le_nat_alt
      word_less_nat_alt unat_minus_bounded)

lemma regions_ok_om_ok: "regions_ok m \<Longrightarrow> om_ok m"
proof -
  assume m: "regions_ok m"
  have "fst a < fst b" if "region_ok a" "region_end (snd a) \<le> unat (fst b)" for a b
    using that unat_gt_0 [of "reg_size (snd a)"]
    by (simp add: region_ok_def region_end_def word_less_nat_alt)
  then show ?thesis using m
    unfolding om_ok_def regions_ok_def by (induction m) auto
qed

lemma regions_ok_member:
  "regions_ok m \<Longrightarrow> (b, r) \<in> set m \<Longrightarrow> b = reg_base r \<and> reg_size r \<noteq> 0 \<and> region_end r < 2 ^ 64 \<and>
     length (reg_bytes r) = unat (reg_size r)"
  by (auto simp: regions_ok_def list_all_iff region_ok_def)

lemma regions_ok_ordered:
  assumes "regions_ok m" "(b, r) \<in> set m" "(b', r') \<in> set m" "b < b'"
  shows "region_end r \<le> unat b'"
proof -
  have "sorted_wrt (\<lambda>a b. region_end (snd a) \<le> unat (fst b)) m" using assms(1) by (simp add: regions_ok_def)
  moreover have "om_ok m" using assms(1) by (rule regions_ok_om_ok)
  ultimately show ?thesis using assms(2-4)
  proof (induction m)
    case (Cons e m)
    then show ?case by (auto simp: om_ok_def)
  qed simp
qed

text \<open>\<open>region_at\<close> finds the region that holds an address.\<close>

lemma region_at_iff:
  assumes ok: "regions_ok (as_regions s)"
  shows "as_region_at s a = Some r \<longleftrightarrow> (reg_base r, r) \<in> set (as_regions s) \<and> region_holds r a"
proof -
  let ?m = "as_regions s"
  have om: "om_ok ?m" using ok by (rule regions_ok_om_ok)
  show ?thesis
  proof
    assume "as_region_at s a = Some r"
    then obtain b where b: "om_floor ?m a = Some (b, r)" and c: "region_contains r a 1"
      by (auto simp: as_region_at_def split: option.splits if_splits)
    have "(b, r) \<in> set ?m" using om.floor_find [OF om b] om by (simp add: om_find_Some_iff)
    then show "(reg_base r, r) \<in> set ?m \<and> region_holds r a"
      using regions_ok_member [OF ok] c by (auto simp: region_contains_iff region_holds_def)
  next
    assume h: "(reg_base r, r) \<in> set ?m \<and> region_holds r a"
    have "om_floor ?m a = Some (reg_base r, r)"
    proof (rule om.floor_unique [OF om])
      show "om_find ?m (reg_base r) = Some r" using h om by (simp add: om_find_Some_iff)
      show "reg_base r \<le> a" using h by (simp add: region_holds_def word_le_nat_alt)
      fix j assume "om_find ?m j \<noteq> None" "j \<le> a"
      then obtain r' where "(j, r') \<in> set ?m" using om by (auto simp: om_find_Some_iff)
      show "j \<le> reg_base r"
      proof (rule ccontr)
        assume "\<not> j \<le> reg_base r"
        then have "region_end r \<le> unat j"
          using regions_ok_ordered [OF ok] h \<open>(j, r') \<in> set ?m\<close> by auto
        then show False using h \<open>j \<le> a\<close> by (simp add: region_holds_def word_le_nat_alt)
      qed
    qed
    then show "as_region_at s a = Some r"
      using h by (simp add: as_region_at_def region_contains_iff region_holds_def)
  qed
qed

lemma region_at_None_iff:
  assumes "regions_ok (as_regions s)"
  shows "as_region_at s a = None \<longleftrightarrow> (\<forall>e \<in> set (as_regions s). \<not> region_holds (snd e) a)"
proof -
  have base: "fst e = reg_base (snd e)" if "e \<in> set (as_regions s)" for e
    using that regions_ok_member [OF assms, of "fst e" "snd e"] by simp
  show ?thesis
  proof
    assume none: "as_region_at s a = None"
    show "\<forall>e \<in> set (as_regions s). \<not> region_holds (snd e) a"
    proof
      fix e assume e: "e \<in> set (as_regions s)"
      then have "(reg_base (snd e), snd e) \<in> set (as_regions s)" by (simp flip: base)
      then show "\<not> region_holds (snd e) a" using region_at_iff [OF assms, of a "snd e"] none by simp
    qed
  next
    assume h: "\<forall>e \<in> set (as_regions s). \<not> region_holds (snd e) a"
    show "as_region_at s a = None"
    proof (cases "as_region_at s a")
      case (Some r)
      then have "(reg_base r, r) \<in> set (as_regions s)" "region_holds r a"
        by (simp_all add: region_at_iff [OF assms])
      then show ?thesis using h by force
    qed
  qed
qed

lemma region_at_member:
  "regions_ok (as_regions s) \<Longrightarrow> as_region_at s a = Some r \<Longrightarrow>
   (reg_base r, r) \<in> set (as_regions s) \<and> region_holds r a \<and> region_end r < 2 ^ 64 \<and>
   length (reg_bytes r) = unat (reg_size r)"
  using region_at_iff [of s a r] regions_ok_member [of "as_regions s" "reg_base r" r] by blast

lemma region_at_other:
  assumes "regions_ok (as_regions s)" "as_region_at s a = Some r" "region_holds r b"
  shows "as_region_at s b = Some r"
  using assms by (simp add: region_at_iff)

lemma region_at_same_base:
  assumes "regions_ok (as_regions s)" "as_region_at s a = Some r" "as_region_at s b = Some r'"
    and "reg_base r = reg_base r'"
  shows "r = r'"
proof -
  have "om_ok (as_regions s)" using assms(1) by (rule regions_ok_om_ok)
  then have "distinct (map fst (as_regions s))" by (rule om_ok_distinct)
  then show ?thesis
    using assms region_at_iff [OF assms(1)] by (metis eq_key_imp_eq_value)
qed

text \<open>Addresses \<open>a + i\<close> of a range inside a region.\<close>

lemma range_address:
  assumes "region_contains r a n" "region_end r < 2 ^ 64" "i < unat n"
  shows "unat (a + of_nat i) = unat a + i" "region_holds r (a + of_nat i)"
    "unat (a + of_nat i - reg_base r) = unat (a - reg_base r) + i"
    "unat (a - reg_base r) + i < unat (reg_size r)"
proof -
  have c: "unat (reg_base r) \<le> unat a" "unat a + unat n \<le> region_end r"
    using assms(1) by (simp_all add: region_contains_iff)
  have i: "unat (of_nat i :: u64) = i"
    using assms(3) unat_u64_bound [of n] by (intro unat_of_nat_u64) linarith
  show 1: "unat (a + of_nat i) = unat a + i"
    using c assms i by (subst unat_plus_bounded) simp_all
  show "region_holds r (a + of_nat i)"
    using c assms(3) by (simp add: region_holds_def 1)
  have le: "reg_base r \<le> a" "reg_base r \<le> a + of_nat i"
    using c by (simp_all add: word_le_nat_alt 1)
  show "unat (a + of_nat i - reg_base r) = unat (a - reg_base r) + i"
    using c by (simp only: unat_minus_bounded le 1)
  show "unat (a - reg_base r) + i < unat (reg_size r)"
    using c assms(3) by (simp only: unat_minus_bounded le) (simp add: region_end_def)
qed

lemma byte_in_region:
  assumes "regions_ok (as_regions s)" "as_region_at s a = Some r" "region_contains r a n" "i < unat n"
  shows "as_byte s (a + of_nat i) = Some (reg_bytes r ! (unat (a - reg_base r) + i))"
proof -
  have e: "region_end r < 2 ^ 64" using region_at_member [OF assms(1,2)] by simp
  note ra = range_address [OF assms(3) e assms(4)]
  have "as_region_at s (a + of_nat i) = Some r" by (rule region_at_other [OF assms(1,2) ra(2)])
  then show ?thesis by (simp only: as_byte_def option.map ra(3))
qed

section \<open>Changing a region in place\<close>

lemma modify_regions_ok:
  assumes "regions_ok m" "\<And>v. (k, v) \<in> set m \<Longrightarrow> reg_base (f v) = reg_base v \<and> reg_size (f v) = reg_size v \<and>
      length (reg_bytes (f v)) = length (reg_bytes v)"
  shows "regions_ok (om_modify k f m) \<and> regions_total (om_modify k f m) = regions_total m"
proof -
  have "regions_ok (om_modify k f m) \<and> regions_total (om_modify k f m) = regions_total m \<and>
      map (\<lambda>e. (fst e, region_end (snd e))) (om_modify k f m) = map (\<lambda>e. (fst e, region_end (snd e))) m"
    using assms
  proof (induction m)
    case Nil
    then show ?case by (simp add: om_modify_def)
  next
    case (Cons e m)
    obtain b r where e: "e = (b, r)" by (cases e)
    let ?r = "if b = k then f r else r"
    have r: "reg_base ?r = reg_base r" "reg_size ?r = reg_size r" "length (reg_bytes ?r) = length (reg_bytes r)"
      using Cons.prems(2) by (simp_all add: e)
    then have fin: "region_end ?r = region_end r" by (simp add: region_end_def)
    have tl: "regions_ok m" using Cons.prems(1) by (simp add: regions_ok_def)
    have IH: "regions_ok (om_modify k f m)" "regions_total (om_modify k f m) = regions_total m"
      "map (\<lambda>e. (fst e, region_end (snd e))) (om_modify k f m) = map (\<lambda>e. (fst e, region_end (snd e))) m"
      using Cons.IH [OF tl] Cons.prems(2) by auto
    have m: "om_modify k f (e # m) = (b, ?r) # om_modify k f m" by (simp add: om_modify_def e)
    have keys: "fst ` set (om_modify k f m) = fst ` set m" by (force simp: om_modify_def)
    have "\<forall>x \<in> fst ` set m. region_end r \<le> unat x" using Cons.prems(1) by (simp add: regions_ok_def e)
    then have "\<forall>x \<in> set (om_modify k f m). region_end ?r \<le> unat (fst x)"
      unfolding fin keys [symmetric] by blast
    moreover have "region_ok (b, ?r)"
      using Cons.prems(1) r fin by (simp add: regions_ok_def e region_ok_def)
    ultimately have "regions_ok ((b, ?r) # om_modify k f m)"
      using IH(1) by (simp add: regions_ok_def)
    moreover have "regions_total ((b, ?r) # om_modify k f m) = regions_total (e # m)"
      using IH(2) r(2) by (simp add: regions_total_def e)
    ultimately show ?case using IH(3) fin by (simp add: m [unfolded e] e)
  qed
  then show ?thesis by simp
qed

text \<open>\<open>modify_region a f s\<close> is the effect \<open>protect\<close> and \<open>write\<close> share.\<close>

definition modify_region :: "u64 \<Rightarrow> (MemoryRegion \<Rightarrow> MemoryRegion) \<Rightarrow> AddressSpace \<Rightarrow> AddressSpace" where
  "modify_region k f s = s\<lparr>as_regions := om_modify k f (as_regions s)\<rparr>"

lemma modify_region_ok:
  assumes ok: "as_ok s" and r: "as_region_at s a = Some r"
    and shape: "reg_base (f r) = reg_base r" "reg_size (f r) = reg_size r"
      "length (reg_bytes (f r)) = length (reg_bytes r)"
  shows "as_ok (modify_region (reg_base r) f s)"
    and "as_region_at (modify_region (reg_base r) f s) x =
      map_option (\<lambda>q. if q = r then f r else q) (as_region_at s x)"
proof -
  let ?m = "as_regions s" and ?s = "modify_region (reg_base r) f s"
  have ro: "regions_ok ?m" using ok by (simp add: as_ok_def)
  then have om: "om_ok ?m" by (rule regions_ok_om_ok)
  have only: "v = r" if "(reg_base r, v) \<in> set ?m" for v
    using that region_at_member [OF ro r] om by (metis om_find_Some_iff option.inject)
  have "regions_ok (om_modify (reg_base r) f ?m) \<and>
      regions_total (om_modify (reg_base r) f ?m) = regions_total ?m"
    by (rule modify_regions_ok [OF ro]) (use only shape in auto)
  then show "as_ok ?s" using ok by (simp add: as_ok_def modify_region_def)
  have fl: "om_floor (as_regions ?s) x =
      map_option (\<lambda>(b, v). (b, if b = reg_base r then f v else v)) (om_floor ?m x)"
    by (simp add: modify_region_def om.floor_modify [OF om])
  show "as_region_at ?s x = map_option (\<lambda>q. if q = r then f r else q) (as_region_at s x)"
  proof (cases "om_floor ?m x")
    case None
    then show ?thesis by (simp add: as_region_at_def fl)
  next
    case (Some e)
    obtain b v where e: "e = (b, v)" by (cases e)
    have "(b, v) \<in> set ?m" using om.floor_find [OF om Some [unfolded e]] om by (simp add: om_find_Some_iff)
    then have bv: "b = reg_base v" "b = reg_base r \<longleftrightarrow> v = r"
      using regions_ok_member [OF ro] only by auto
    have "region_contains (f r) x 1 = region_contains r x 1"
      by (simp add: region_contains_def shape)
    then show ?thesis using bv by (simp add: as_region_at_def fl Some e)
  qed
qed

section \<open>Reads and writes\<close>

lemma read_Inr_iff:
  "as_read s a n = Inr bs \<longleftrightarrow>
     (n = 0 \<and> bs = []) \<or>
     (n \<noteq> 0 \<and> (\<exists>r. as_region_at s a = Some r \<and> region_contains r a n \<and>
        reg_permissions r AND permission_read \<noteq> 0 \<and>
        bs = take (unat n) (drop (unat (a - reg_base r)) (reg_bytes r))))"
  by (auto simp: as_read_def Let_def split: option.splits if_splits)

lemma write_Inr_iff:
  "as_write a input ign s = Inr s' \<longleftrightarrow>
     (input = [] \<and> s' = s) \<or>
     (input \<noteq> [] \<and> (\<exists>r. as_region_at s a = Some r \<and> region_contains r a (of_nat (length input)) \<and>
        (ign \<or> reg_permissions r AND permission_write \<noteq> 0) \<and>
        s' = modify_region (reg_base r)
          (\<lambda>q. q\<lparr>reg_bytes := splice (unat (a - reg_base q)) input (reg_bytes q)\<rparr>) s))"
  by (auto simp: as_write_def modify_region_def Let_def split: option.splits if_splits)

text \<open>A whole range of one region.\<close>

lemma region_range_length:
  assumes "region_contains r a n" "length (reg_bytes r) = unat (reg_size r)"
  shows "unat (a - reg_base r) + unat n \<le> length (reg_bytes r)"
proof -
  have c: "unat (reg_base r) \<le> unat a" "unat a + unat n \<le> region_end r"
    using assms(1) by (simp_all add: region_contains_iff)
  then have "unat (a - reg_base r) = unat a - unat (reg_base r)"
    by (simp add: unat_minus_bounded word_le_nat_alt)
  with c assms(2) show ?thesis by (simp add: region_end_def)
qed

lemma read_bytes_at:
  assumes "as_ok s" "as_read s a n = Inr bs"
  shows "length bs = unat n" "i < unat n \<Longrightarrow> as_byte s (a + of_nat i) = Some (bs ! i)"
proof -
  have ro: "regions_ok (as_regions s)" using assms(1) by (simp add: as_ok_def)
  have *: "length bs = unat n \<and> (\<forall>i < unat n. as_byte s (a + of_nat i) = Some (bs ! i))"
  proof (cases "n = 0")
    case True
    then show ?thesis using assms(2) by (simp add: read_Inr_iff)
  next
    case False
    then obtain r where r: "as_region_at s a = Some r" "region_contains r a n"
      "bs = take (unat n) (drop (unat (a - reg_base r)) (reg_bytes r))"
      using assms(2) by (auto simp: read_Inr_iff)
    have "unat (a - reg_base r) + unat n \<le> length (reg_bytes r)"
      using region_range_length [OF r(2)] region_at_member [OF ro r(1)] by simp
    then show ?thesis by (auto simp: byte_in_region [OF ro r(1,2)] r(3))
  qed
  then show "length bs = unat n" "i < unat n \<Longrightarrow> as_byte s (a + of_nat i) = Some (bs ! i)" by auto
qed

text \<open>A write replaces the bytes of its range and nothing else.\<close>

definition in_range :: "u64 \<Rightarrow> nat \<Rightarrow> u64 \<Rightarrow> bool" where
  "in_range a n x \<longleftrightarrow> unat a \<le> unat x \<and> unat x < unat a + n"

lemma write_effect:
  assumes ok: "as_ok s" and w: "as_write a input ign s = Inr s'" and len: "length input < 2 ^ 64"
  shows "as_ok s'"
    and "as_byte s' x = (if in_range a (length input) x then Some (input ! (unat x - unat a)) else as_byte s x)"
proof -
  have ro: "regions_ok (as_regions s)" using ok by (simp add: as_ok_def)
  have "as_ok s' \<and> as_byte s' x =
      (if in_range a (length input) x then Some (input ! (unat x - unat a)) else as_byte s x)"
  proof (cases "input = []")
    case True
    then show ?thesis using ok w by (auto simp: write_Inr_iff in_range_def)
  next
    case False
    let ?f = "\<lambda>q. q\<lparr>reg_bytes := splice (unat (a - reg_base q)) input (reg_bytes q)\<rparr>"
    obtain r where r: "as_region_at s a = Some r" and c: "region_contains r a (of_nat (length input))"
      and s': "s' = modify_region (reg_base r) ?f s"
      using w False by (auto simp: write_Inr_iff)
    have n: "unat (of_nat (length input) :: u64) = length input"
      by (rule unat_of_nat_u64) (use len in simp)
    have mem: "region_end r < 2 ^ 64" "length (reg_bytes r) = unat (reg_size r)"
      using region_at_member [OF ro r] by simp_all
    let ?o = "unat (a - reg_base r)"
    have fit: "?o + length input \<le> length (reg_bytes r)"
      using region_range_length [OF c mem(2)] by (simp only: n)
    then have shape: "reg_base (?f r) = reg_base r" "reg_size (?f r) = reg_size r"
      "length (reg_bytes (?f r)) = length (reg_bytes r)" by simp_all
    note mr = modify_region_ok [where f = ?f, OF ok r shape, folded s']
    have "as_byte s' x =
      (if in_range a (length input) x then Some (input ! (unat x - unat a)) else as_byte s x)"
    proof (cases "region_holds r x")
      case True
      then have sx: "as_region_at s x = Some r" by (rule region_at_other [OF ro r])
      have "reg_base r \<le> x" "reg_base r \<le> a" using True c
        by (simp_all add: region_holds_def region_contains_iff word_le_nat_alt)
      then have o: "unat (x - reg_base r) = unat x - unat (reg_base r)" "?o = unat a - unat (reg_base r)"
        "unat (reg_base r) \<le> unat x" "unat (reg_base r) \<le> unat a"
        by (simp_all add: unat_minus_bounded word_le_nat_alt)
      have "unat (x - reg_base r) < length (reg_bytes r)"
        using True o(3) unfolding o(1) mem(2) region_holds_def region_end_def by linarith
      then have "splice ?o input (reg_bytes r) ! unat (x - reg_base r) =
          (if in_range a (length input) x then input ! (unat x - unat a)
           else reg_bytes r ! unat (x - reg_base r))"
      proof -
        have "?o \<le> unat (x - reg_base r) \<longleftrightarrow> unat a \<le> unat x"
          "unat (x - reg_base r) < ?o + length input \<longleftrightarrow> unat x < unat a + length input"
          "unat (x - reg_base r) - ?o = unat x - unat a"
          using o(3,4) unfolding o(1,2) by linarith+
        then show ?thesis
          using \<open>unat (x - reg_base r) < length (reg_bytes r)\<close>
          by (simp add: nth_splice [OF fit] in_range_def)
      qed
      then show ?thesis by (simp add: as_byte_def mr(2) sx)
    next
      case False
      have "\<not> in_range a (length input) x"
        using False c by (auto simp: in_range_def region_holds_def region_contains_iff n)
      moreover have "as_region_at s x \<noteq> Some r" using region_at_iff [OF ro] False by simp
      ultimately show ?thesis
        by (cases "as_region_at s x") (auto simp: as_byte_def mr(2))
    qed
    with mr(1) show ?thesis by simp
  qed
  then show "as_ok s'" "as_byte s' x =
      (if in_range a (length input) x then Some (input ! (unat x - unat a)) else as_byte s x)" by auto
qed

text \<open>A write is undone by writing back what a read of its range returned before it.\<close>

lemma om_modify_modify:
  "(\<And>v. (k, v) \<in> set m \<Longrightarrow> g (f v) = v) \<Longrightarrow> om_modify k g (om_modify k f m) = m"
  by (induction m) (auto simp: om_modify_def)

lemma write_undo:
  assumes ok: "as_ok s" and rd: "as_read s a n = Inr old" and n: "unat n = length input"
    and w: "as_write a input ign s = Inr s'"
  shows "as_write a old True s' = Inr s"
proof (cases "input = []")
  case True
  then have "n = 0" using n by (simp add: unat_eq_zero)
  then show ?thesis using rd w True by (simp add: read_Inr_iff write_Inr_iff)
next
  case False
  have ro: "regions_ok (as_regions s)" using ok by (simp add: as_ok_def)
  then have om: "om_ok (as_regions s)" by (rule regions_ok_om_ok)
  let ?f = "\<lambda>i q. q\<lparr>reg_bytes := splice (unat (a - reg_base q)) i (reg_bytes q)\<rparr>"
  have nn: "of_nat (length input) = n" by (metis n of_nat_unat ucast_id)
  obtain r where r: "as_region_at s a = Some r" and c: "region_contains r a n"
    and s': "s' = modify_region (reg_base r) (?f input) s"
    using w False by (auto simp: write_Inr_iff nn)
  have n0: "n \<noteq> 0" using False n by (auto simp: unat_eq_zero)
  then have old: "old = take (unat n) (drop (unat (a - reg_base r)) (reg_bytes r))"
    using rd r by (auto simp: read_Inr_iff)
  have mem: "length (reg_bytes r) = unat (reg_size r)" using region_at_member [OF ro r] by simp
  have fit: "unat (a - reg_base r) + length input \<le> length (reg_bytes r)"
    using region_range_length [OF c mem] by (simp only: n)
  have lo: "length old = length input" using fit by (simp add: old n)
  have shape: "reg_base (?f input r) = reg_base r" "reg_size (?f input r) = reg_size r"
    "length (reg_bytes (?f input r)) = length (reg_bytes r)" using fit by simp_all
  note mr = modify_region_ok [where f = "?f input", OF ok r shape, folded s']
  have at: "as_region_at s' a = Some (?f input r)" using mr(2) [of a] r by simp
  have "as_write a old True s' = Inr (modify_region (reg_base r) (?f old) s')"
  proof -
    have "old \<noteq> []" using lo False by auto
    moreover have "region_contains (?f input r) a n" using c by (simp add: region_contains_def split: if_splits)
    ultimately show ?thesis by (simp add: write_Inr_iff at lo nn)
  qed
  also have "modify_region (reg_base r) (?f old) s' = s"
  proof -
    have "?f old (?f input v) = v" if "(reg_base r, v) \<in> set (as_regions s)" for v
    proof -
      have "v = r" using that region_at_member [OF ro r] om by (metis om_find_Some_iff option.inject)
      moreover have "old = take (length input) (drop (unat (a - reg_base r)) (reg_bytes r))"
        by (simp only: old n)
      ultimately show ?thesis using splice_restore [OF fit] by simp
    qed
    then have "om_modify (reg_base r) (?f old) (om_modify (reg_base r) (?f input) (as_regions s)) = as_regions s"
      by (rule om_modify_modify)
    then show ?thesis by (simp add: s' modify_region_def)
  qed
  finally show ?thesis .
qed

lemma written_byte:
  assumes ok: "as_ok s" and w: "as_write a input ign s = Inr s'" and len: "length input < 2 ^ 64"
    and i: "i < length input"
  shows "as_byte s' (a + of_nat i) = Some (input ! i)"
proof -
  let ?n = "of_nat (length input) :: u64"
  have n: "unat ?n = length input" by (rule unat_of_nat_u64) (use len in simp)
  obtain r where r: "as_region_at s a = Some r" and c: "region_contains r a ?n"
    using w i by (auto simp: write_Inr_iff)
  have "regions_ok (as_regions s)" using ok by (simp add: as_ok_def)
  then have e: "region_end r < 2 ^ 64" using region_at_member [OF _ r] by blast
  have "i < unat ?n" using i by (simp only: n)
  then have "unat (a + of_nat i) = unat a + i" by (rule range_address(1) [OF c e])
  then show ?thesis using i by (simp add: write_effect(2) [OF ok w len] in_range_def)
qed

lemma om_modify_id: "(\<And>v. (k, v) \<in> set m \<Longrightarrow> f v = v) \<Longrightarrow> om_modify k f m = m"
  by (induction m) (auto simp: om_modify_def)

text \<open>Writing back what a read has just returned changes nothing.\<close>

lemma write_same:
  assumes ok: "as_ok s" and rd: "as_read s a n = Inr old"
  shows "as_write a old True s = Inr s"
proof (cases "n = 0")
  case True
  then show ?thesis using rd by (simp add: read_Inr_iff write_Inr_iff)
next
  case False
  have ro: "regions_ok (as_regions s)" using ok by (simp add: as_ok_def)
  then have om: "om_ok (as_regions s)" by (rule regions_ok_om_ok)
  obtain r where r: "as_region_at s a = Some r" "region_contains r a n"
    "old = take (unat n) (drop (unat (a - reg_base r)) (reg_bytes r))"
    using rd False by (auto simp: read_Inr_iff)
  have mem: "length (reg_bytes r) = unat (reg_size r)" using region_at_member [OF ro r(1)] by simp
  have l: "length old = unat n" by (rule read_bytes_at(1) [OF ok rd])
  then have n: "of_nat (length old) = n" by (simp add: word_unat_eq_iff)
  have fit: "unat (a - reg_base r) + length old \<le> length (reg_bytes r)"
    using region_range_length [OF r(2) mem] by (simp only: l)
  let ?f = "\<lambda>q. q\<lparr>reg_bytes := splice (unat (a - reg_base q)) old (reg_bytes q)\<rparr>"
  have "?f v = v" if "(reg_base r, v) \<in> set (as_regions s)" for v
  proof -
    have v: "v = r" using that region_at_member [OF ro r(1)] om by (metis om_find_Some_iff option.inject)
    have "splice (unat (a - reg_base r)) old (reg_bytes r) = reg_bytes r"
      using splice_restore [of "unat (a - reg_base r)" "[]" "reg_bytes r"]
      by (simp add: splice_def l) (metis append_take_drop_id drop_drop add.commute r(3))
    then show ?thesis by (simp add: v)
  qed
  then have "modify_region (reg_base r) ?f s = s" by (simp add: modify_region_def om_modify_id)
  moreover have "old \<noteq> []" using l False by (auto simp: unat_eq_zero)
  ultimately show ?thesis using r n by (simp add: write_Inr_iff)
qed

text \<open>
  The layout of an address (base, size and permissions of its region) and its permissions alone;
  writing changes neither.
\<close>

definition as_layout :: "AddressSpace \<Rightarrow> u64 \<Rightarrow> (u64 \<times> u64 \<times> u8) option" where
  "as_layout s address =
     map_option (\<lambda>r. (reg_base r, reg_size r, reg_permissions r)) (as_region_at s address)"

definition as_perm :: "AddressSpace \<Rightarrow> u64 \<Rightarrow> u8 option" where
  "as_perm s address = map_option reg_permissions (as_region_at s address)"

lemma perm_layout: "as_perm s x = map_option (snd \<circ> snd) (as_layout s x)"
  by (simp add: as_perm_def as_layout_def option.map_comp comp_def)

lemma write_layout:
  assumes ok: "as_ok s" and w: "as_write a input ign s = Inr s'" and len: "length input < 2 ^ 64"
  shows "as_layout s' x = as_layout s x"
proof (cases "input = []")
  case True
  then show ?thesis using w by (simp add: write_Inr_iff)
next
  case False
  let ?f = "\<lambda>q. q\<lparr>reg_bytes := splice (unat (a - reg_base q)) input (reg_bytes q)\<rparr>"
  obtain r where r: "as_region_at s a = Some r" and c: "region_contains r a (of_nat (length input))"
    and s': "s' = modify_region (reg_base r) ?f s"
    using w False by (auto simp: write_Inr_iff)
  have "unat (of_nat (length input) :: u64) = length input" by (rule unat_of_nat_u64) (use len in simp)
  moreover have "length (reg_bytes r) = unat (reg_size r)"
    using ok region_at_member [OF _ r] by (simp add: as_ok_def)
  ultimately have fit: "unat (a - reg_base r) + length input \<le> length (reg_bytes r)"
    using region_range_length [OF c] by simp
  have "as_region_at s' x = map_option (\<lambda>q. if q = r then ?f r else q) (as_region_at s x)"
    unfolding s' by (rule modify_region_ok(2) [where f = ?f, OF ok r]) (use fit in simp_all)
  then show ?thesis by (cases "as_region_at s x") (auto simp: as_layout_def)
qed

lemma write_perm:
  "as_ok s \<Longrightarrow> as_write a input ign s = Inr s' \<Longrightarrow> length input < 2 ^ 64 \<Longrightarrow> as_perm s' x = as_perm s x"
  by (simp add: perm_layout write_layout)

text \<open>The layout decides whether a read or a privileged write succeeds.\<close>

definition range_allowed :: "(u64 \<times> u64 \<times> u8) option \<Rightarrow> u64 \<Rightarrow> u64 \<Rightarrow> u8 \<Rightarrow> bool" where
  "range_allowed layout a n needed =
    (case layout of
       None \<Rightarrow> False
     | Some (base, len, perms) \<Rightarrow>
         unat base \<le> unat a \<and> unat a + unat n \<le> unat base + unat len \<and> (needed = 0 \<or> perms AND needed \<noteq> 0))"

lemma read_succeeds_iff:
  "(\<exists>bs. as_read s a n = Inr bs) \<longleftrightarrow> n = 0 \<or> range_allowed (as_layout s a) a n permission_read"
  by (cases "as_region_at s a")
    (auto simp: read_Inr_iff range_allowed_def as_layout_def region_contains_iff region_end_def
      permission_read_def)

lemma write_succeeds_iff:
  assumes "length input < 2 ^ 64"
  shows "(\<exists>s'. as_write a input True s = Inr s') \<longleftrightarrow>
    input = [] \<or> range_allowed (as_layout s a) a (of_nat (length input)) 0"
  by (cases "as_region_at s a")
    (auto simp: write_Inr_iff range_allowed_def as_layout_def region_contains_iff region_end_def)

lemma range_mapped_layout:
  "as_region_at s a = Some r \<Longrightarrow> region_contains r a n \<Longrightarrow> range_allowed (as_layout s a) a n 0"
  by (simp add: range_allowed_def as_layout_def region_contains_iff region_end_def)

lemma perm_byte_defined: "as_perm s x = None \<longleftrightarrow> as_byte s x = None"
  by (simp add: as_perm_def as_byte_def)

section \<open>Mapping and unmapping\<close>

definition new_region :: "u64 \<Rightarrow> u64 \<Rightarrow> u8 \<Rightarrow> string \<Rightarrow> MemoryRegion" where
  "new_region base len perms name = \<lparr>reg_base = base, reg_size = len, reg_permissions = perms,
     reg_name = name, reg_bytes = replicate (unat len) 0\<rparr>"

definition disjoint_range :: "nat \<Rightarrow> nat \<Rightarrow> MemoryRegion \<Rightarrow> bool" where
  "disjoint_range b e r \<longleftrightarrow> e \<le> unat (reg_base r) \<or> region_end r \<le> b"

text \<open>The two neighbours of the new range decide whether it overlaps any region.\<close>

lemma neighbours_decide:
  assumes ok: "regions_ok m" and split: "om_lower_bound m b = (prior, from_here)"
    and e: "unat b < e"
  shows "(\<forall>x \<in> set m. disjoint_range (unat b) e (snd x)) \<longleftrightarrow>
    (from_here = [] \<or> e \<le> unat (reg_base (snd (hd from_here)))) \<and>
    (prior = [] \<or> region_end (snd (last prior)) \<le> unat b)"
proof -
  have m: "m = prior @ from_here"
    using split by (auto simp: om_lower_bound_def)
  have om: "om_ok m" using ok by (rule regions_ok_om_ok)
  have key: "fst x = reg_base (snd x)" "reg_size (snd x) \<noteq> 0" if "x \<in> set m" for x
    using regions_ok_member [OF ok, of "fst x" "snd x"] that by simp_all
  have lo: "fst x < b" if "x \<in> set prior" for x
    using that split by (auto simp: om_lower_bound_def dest: set_takeWhileD)
  have hi: "b \<le> fst x" if "x \<in> set from_here" for x
  proof -
    have "from_here = filter (\<lambda>e. \<not> fst e < b) m"
      using split om_ok_split [OF om, of b] by (simp add: om_lower_bound_def)
    then show ?thesis using that by auto
  qed
  have A: "(\<forall>x \<in> set from_here. disjoint_range (unat b) e (snd x)) \<longleftrightarrow>
      (from_here = [] \<or> e \<le> unat (reg_base (snd (hd from_here))))"
  proof (cases from_here)
    case (Cons y ys)
    have D: "disjoint_range (unat b) e (snd x) \<longleftrightarrow> e \<le> unat (reg_base (snd x))"
      if "x \<in> set from_here" for x
    proof -
      have "0 < unat (reg_size (snd x))" "unat b \<le> unat (reg_base (snd x))"
        using hi [OF that] key [of x] that by (simp_all add: m word_le_nat_alt unat_gt_0)
      then show ?thesis by (auto simp: disjoint_range_def region_end_def)
    qed
    have "unat (reg_base (snd y)) \<le> unat (reg_base (snd x))" if "x \<in> set from_here" for x
    proof -
      have "fst y \<le> fst x"
        using om that by (auto simp: om_ok_def m Cons sorted_wrt_append)
      moreover have "fst y = reg_base (snd y)" "fst x = reg_base (snd x)"
        using key(1) [of y] key(1) [of x] that Cons m by auto
      ultimately show ?thesis by (simp add: word_le_nat_alt)
    qed
    moreover have "y \<in> set from_here" using Cons by simp
    ultimately have "(\<forall>x \<in> set from_here. e \<le> unat (reg_base (snd x))) \<longleftrightarrow> e \<le> unat (reg_base (snd y))"
      using le_trans by blast
    then show ?thesis using D by (simp add: Cons)
  qed simp
  have B: "(\<forall>x \<in> set prior. disjoint_range (unat b) e (snd x)) \<longleftrightarrow>
      (prior = [] \<or> region_end (snd (last prior)) \<le> unat b)"
  proof -
    have D: "disjoint_range (unat b) e (snd x) \<longleftrightarrow> region_end (snd x) \<le> unat b" if "x \<in> set prior" for x
    proof -
      have "unat (reg_base (snd x)) < unat b"
        using lo [OF that] key(1) [of x] that by (simp add: m word_less_nat_alt)
      then show ?thesis using e by (auto simp: disjoint_range_def)
    qed
    have L: "region_end (snd x) \<le> region_end (snd (last prior))" if "x \<in> set prior" for x
    proof -
      have "prior \<noteq> []" using that by auto
      then obtain ys y where y: "prior = ys @ [y]" by (metis append_butlast_last_id)
      have 1: "region_end (snd z) \<le> unat (fst y)" if "z \<in> set ys" for z
        using ok that by (auto simp: regions_ok_def m y sorted_wrt_append)
      have "fst y = reg_base (snd y)" by (rule key(1)) (simp add: m y)
      then have 2: "unat (fst y) \<le> region_end (snd y)" by (simp add: region_end_def)
      show ?thesis
      proof (cases "x \<in> set ys")
        case True
        then show ?thesis using 1 [OF True] 2 by (simp add: y)
      next
        case False
        then show ?thesis using that by (simp add: y)
      qed
    qed
    show ?thesis
    proof (cases "prior = []")
      case False
      then have "last prior \<in> set prior" by (rule last_in_set)
      moreover have "\<forall>x \<in> set prior. region_end (snd x) \<le> unat b"
        if "region_end (snd (last prior)) \<le> unat b"
        using L that le_trans by blast
      ultimately show ?thesis using D False by blast
    qed simp
  qed
  show ?thesis unfolding A [symmetric] B [symmetric] by (simp only: m set_append ball_Un conj_commute)
qed

lemma map_Inr_iff:
  assumes ok: "as_ok s"
  shows "as_map base len perms name s = Inr s' \<longleftrightarrow>
    len \<noteq> 0 \<and> unat base + unat len < 2 ^ 64 \<and>
    unat (as_mapped_bytes s) + unat len \<le> unat (max_mapped_bytes (as_limits s)) \<and>
    (\<forall>x \<in> set (as_regions s). disjoint_range (unat base) (unat base + unat len) (snd x)) \<and>
    s' = s\<lparr>as_regions := om_emplace base (new_region base len perms name) (as_regions s),
           as_mapped_bytes := as_mapped_bytes s + len\<rparr>"
proof (cases "len = 0 \<or> \<not> unat base + unat len < 2 ^ 64 \<or>
    \<not> unat (as_mapped_bytes s) + unat len \<le> unat (max_mapped_bytes (as_limits s))")
  case True
  have "as_map base len perms name s \<noteq> Inr s'"
  proof (cases "len = 0")
    case False
    show ?thesis
    proof (cases "checked_add base len")
      case (Some e)
      then have "unat e = unat base + unat len" by (rule add_op.SomeD)
      then have "unat base + unat len < 2 ^ 64" using unat_u64_bound [of e] by simp
      then have big: "\<not> unat (as_mapped_bytes s) + unat len \<le> unat (max_mapped_bytes (as_limits s))"
        using True False by simp
      have "(case checked_add (as_mapped_bytes s) len of None \<Rightarrow> None
          | Some t \<Rightarrow> if t > max_mapped_bytes (as_limits s) then None else Some t) = None"
        using big by (auto simp: word_less_nat_alt dest: add_op.SomeD split: option.splits)
      then show ?thesis using False Some by (simp add: as_map_def)
    qed (simp add: as_map_def)
  qed (simp add: as_map_def)
  then show ?thesis using True by auto
next
  case False
  then have l: "len \<noteq> 0" and be: "unat base + unat len < 2 ^ 64"
    and tot: "unat (as_mapped_bytes s) + unat len \<le> unat (max_mapped_bytes (as_limits s))" by auto
  obtain e where e: "checked_add base len = Some e" "unat e = unat base + unat len"
    using add_op.SomeI [OF be] .
  have "unat (as_mapped_bytes s) + unat len < 2 ^ 64"
    using tot unat_u64_bound [of "max_mapped_bytes (as_limits s)"] by simp
  then obtain t where t: "checked_add (as_mapped_bytes s) len = Some t"
    "unat t = unat (as_mapped_bytes s) + unat len" by (rule add_op.SomeI)
  have t': "t = as_mapped_bytes s + len"
    using t(1) by (simp add: checked_add_def split: if_splits)
  obtain prior from_here where split: "om_lower_bound (as_regions s) base = (prior, from_here)"
    by (cases "om_lower_bound (as_regions s) base")
  have ro: "regions_ok (as_regions s)" using ok by (simp add: as_ok_def)
  have bs: "set prior \<subseteq> set (as_regions s)"
    using split by (auto simp: om_lower_bound_def dest: set_takeWhileD)
  have prev: "(case checked_add (reg_base r) (reg_size r) of None \<Rightarrow> True | Some p \<Rightarrow> p > base) \<longleftrightarrow>
      \<not> region_end r \<le> unat base" for r
    by (auto simp: add_op.None_iff region_end_def word_less_nat_alt dest: add_op.SomeD
        intro: le_less_trans [OF _ unat_u64_bound] split: option.splits)
  have nd: "(\<forall>x \<in> set (as_regions s). disjoint_range (unat base) (unat base + unat len) (snd x)) \<longleftrightarrow>
    (from_here = [] \<or> unat base + unat len \<le> unat (reg_base (snd (hd from_here)))) \<and>
    (prior = [] \<or> region_end (snd (last prior)) \<le> unat base)"
    by (rule neighbours_decide [OF ro split]) (use l in \<open>simp add: unat_gt_0\<close>)
  have nxt: "(case from_here of [] \<Rightarrow> False | (_, q) # _ \<Rightarrow> e > reg_base q) \<longleftrightarrow>
      \<not> (from_here = [] \<or> unat base + unat len \<le> unat (reg_base (snd (hd from_here))))"
    by (cases from_here) (auto simp: e(2) word_less_nat_alt)
  show ?thesis
    unfolding nd using l e(1) t tot be t'
    by (simp add: as_map_def split nxt prev Let_def new_region_def word_less_nat_alt) auto
qed

lemma emplace_regions_ok:
  assumes ok: "regions_ok m" and new: "region_ok (b, r)"
    and disj: "\<forall>x \<in> set m. disjoint_range (unat b) (region_end r) (snd x)"
  shows "regions_ok (om_emplace b r m)"
    and "regions_total (om_emplace b r m) = regions_total m + unat (reg_size r)"
    and "set (om_emplace b r m) = insert (b, r) (set m)"
proof -
  obtain prior from_here where split: "om_lower_bound m b = (prior, from_here)"
    by (cases "om_lower_bound m b")
  have m: "m = prior @ from_here" using split by (auto simp: om_lower_bound_def)
  have om: "om_ok m" using ok by (rule regions_ok_om_ok)
  have key: "fst x = reg_base (snd x)" "reg_size (snd x) \<noteq> 0" if "x \<in> set m" for x
    using regions_ok_member [OF ok, of "fst x" "snd x"] that by simp_all
  have r: "b = reg_base r" "unat b < region_end r"
    using new unat_gt_0 [of "reg_size r"] by (simp_all add: region_ok_def region_end_def)
  have no: "om_find m b = None"
  proof -
    have False if "(b, q) \<in> set m" for q
    proof -
      have "disjoint_range (unat b) (region_end r) q" "reg_base q = b" "0 < unat (reg_size q)"
        using disj key [OF that] that by (auto simp: unat_gt_0)
      then show False using r by (auto simp: disjoint_range_def region_end_def)
    qed
    then show ?thesis by (force simp: om_find_None_iff)
  qed
  have e: "om_emplace b r m = prior @ (b, r) # from_here"
    by (simp add: om_emplace_def no split)
  show "set (om_emplace b r m) = insert (b, r) (set m)" unfolding e by (simp add: m)
  show "regions_total (om_emplace b r m) = regions_total m + unat (reg_size r)"
    unfolding e by (simp add: m regions_total_def)
  have lo: "region_end (snd x) \<le> unat b" if "x \<in> set prior" for x
  proof -
    have "fst x < b" using that split by (auto simp: om_lower_bound_def dest: set_takeWhileD)
    then have "unat (reg_base (snd x)) < unat b"
      using key(1) [of x] that by (simp add: m word_less_nat_alt)
    moreover have "disjoint_range (unat b) (region_end r) (snd x)" using disj that by (simp add: m)
    ultimately show ?thesis using r by (auto simp: disjoint_range_def)
  qed
  have hi: "region_end r \<le> unat (fst x)" if "x \<in> set from_here" for x
  proof -
    have "from_here = filter (\<lambda>e. \<not> fst e < b) m"
      using split om_ok_split [OF om, of b] by (simp add: om_lower_bound_def)
    then have "x \<in> set m" "\<not> fst x < b" using that by auto
    then have "unat b \<le> unat (reg_base (snd x))" "fst x = reg_base (snd x)" "0 < unat (reg_size (snd x))"
      using key [of x] by (auto simp: word_less_nat_alt unat_gt_0)
    moreover have "disjoint_range (unat b) (region_end r) (snd x)" using disj \<open>x \<in> set m\<close> by blast
    ultimately show ?thesis by (auto simp: disjoint_range_def region_end_def)
  qed
  show "regions_ok (om_emplace b r m)"
    using ok new lo hi unfolding e by (auto simp: regions_ok_def m sorted_wrt_append)
qed

lemma map_effect:
  assumes ok: "as_ok s" and mp: "as_map base len perms name s = Inr s'"
  shows "as_ok s'"
    and "as_region_at s' x =
      (if in_range base (unat len) x then Some (new_region base len perms name) else as_region_at s x)"
    and "unat (as_mapped_bytes s') = unat (as_mapped_bytes s) + unat len"
proof -
  let ?m = "as_regions s" and ?r = "new_region base len perms name"
  have ro: "regions_ok ?m" using ok by (simp add: as_ok_def)
  note h = mp [unfolded map_Inr_iff [OF ok]]
  then have s': "s' = s\<lparr>as_regions := om_emplace base ?r ?m, as_mapped_bytes := as_mapped_bytes s + len\<rparr>"
    by blast
  have fin: "region_end ?r = unat base + unat len" by (simp add: region_end_def new_region_def)
  have new: "region_ok (base, ?r)" using h fin by (simp add: region_ok_def) (simp add: new_region_def)
  note em = emplace_regions_ok [OF ro new, unfolded fin]
  have ro': "regions_ok (as_regions s')" "regions_total (as_regions s') = regions_total ?m + unat len"
    "set (as_regions s') = insert (base, ?r) (set ?m)"
    using em h by (auto simp: s' new_region_def)
  have "unat (as_mapped_bytes s) + unat len < 2 ^ 64"
    using h unat_u64_bound [of "max_mapped_bytes (as_limits s)"] by simp
  then have "unat (as_mapped_bytes s + len) = unat (as_mapped_bytes s) + unat len"
    by (intro unat_plus_bounded) simp
  then show t: "unat (as_mapped_bytes s') = unat (as_mapped_bytes s) + unat len" by (simp add: s')
  have lim: "as_limits s' = as_limits s" by (simp add: s')
  have "regions_total ?m = unat (as_mapped_bytes s)" using ok by (simp add: as_ok_def)
  then show ok': "as_ok s'"
    unfolding as_ok_def word_le_nat_alt lim t using ro'(1,2) h by simp
  have holds: "region_holds ?r x \<longleftrightarrow> in_range base (unat len) x"
    by (simp add: region_holds_def in_range_def fin) (simp add: new_region_def)
  show "as_region_at s' x = (if in_range base (unat len) x then Some ?r else as_region_at s x)"
  proof (cases "in_range base (unat len) x")
    case True
    then show ?thesis by (simp add: region_at_iff [OF ro'(1)] ro'(3) holds) (simp add: new_region_def)
  next
    case False
    have "as_region_at s' x = Some q \<longleftrightarrow> as_region_at s x = Some q" for q
      using False holds by (auto simp: region_at_iff [OF ro'(1)] region_at_iff [OF ro] ro'(3))
    then show ?thesis using False by (metis not_None_eq)
  qed
qed

lemma erase_total:
  "om_ok m \<Longrightarrow> om_find m k = Some r \<Longrightarrow>
   regions_total m = regions_total (om_erase k m) + unat (reg_size r)"
proof (induction m)
  case (Cons e m)
  show ?case
  proof (cases "fst e = k")
    case True
    then have "k \<notin> fst ` set m" using Cons.prems(1) by (force simp: om_ok_def)
    then have "om_erase k m = m" by (force simp: om_erase_def filter_id_conv)
    then show ?thesis using True Cons.prems
      by (cases e) (simp add: regions_total_def om_erase_def om_find_def)
  next
    case False
    then show ?thesis using Cons
      by (cases e) (simp add: regions_total_def om_erase_def om_find_def om_ok_def)
  qed
qed simp

lemma unmap_effect:
  assumes ok: "as_ok s" and um: "as_unmap base s = Inr s'"
  shows "as_ok s'"
    and "\<exists>r. (base, r) \<in> set (as_regions s) \<and>
      as_region_at s' x = (if region_holds r x then None else as_region_at s x) \<and>
      unat (as_mapped_bytes s) = unat (as_mapped_bytes s') + unat (reg_size r)"
proof -
  let ?m = "as_regions s"
  have ro: "regions_ok ?m" using ok by (simp add: as_ok_def)
  then have om: "om_ok ?m" by (rule regions_ok_om_ok)
  obtain r where r: "om_find ?m base = Some r"
    and s': "s' = s\<lparr>as_mapped_bytes := as_mapped_bytes s - reg_size r, as_regions := om_erase base ?m\<rparr>"
    using um by (auto simp: as_unmap_def split: option.splits)
  have mem: "(base, r) \<in> set ?m" using r om by (simp add: om_find_Some_iff)
  then have base: "base = reg_base r" using regions_ok_member [OF ro] by blast
  have tot: "unat (as_mapped_bytes s) = regions_total (om_erase base ?m) + unat (reg_size r)"
    using ok erase_total [OF om r] by (simp add: as_ok_def)
  then have le: "reg_size r \<le> as_mapped_bytes s" by (simp add: word_le_nat_alt)
  then have t: "unat (as_mapped_bytes s') = regions_total (om_erase base ?m)"
    using tot by (simp add: s' unat_minus_bounded)
  have ro': "regions_ok (om_erase base ?m)"
    using ro by (auto simp: regions_ok_def om_erase_def sorted_wrt_filter list_all_iff)
  have "unat (as_mapped_bytes s') \<le> unat (as_mapped_bytes s)" using t tot by simp
  moreover have "as_limits s' = as_limits s" "as_regions s' = om_erase base ?m" by (simp_all add: s')
  ultimately show "as_ok s'" using ro' t ok by (simp add: as_ok_def word_le_nat_alt)
  have "as_region_at s' x = (if region_holds r x then None else as_region_at s x)"
  proof -
    have at': "as_region_at s' x = Some q \<longleftrightarrow> as_region_at s x = Some q \<and> reg_base q \<noteq> base" for q
      using ro ro' by (auto simp: region_at_iff s' om_erase_def)
    show ?thesis
    proof (cases "region_holds r x")
      case True
      then have "as_region_at s x = Some r" using mem base by (simp add: region_at_iff [OF ro])
      then have "as_region_at s' x \<noteq> Some q" for q using at' base by auto
      then show ?thesis using True by auto
    next
      case False
      have "reg_base q \<noteq> base" if "as_region_at s x = Some q" for q
      proof
        assume "reg_base q = base"
        then have "q = r" using region_at_member [OF ro that] r om by (simp add: om_find_Some_iff [symmetric])
        then show False using region_at_member [OF ro that] False by simp
      qed
      then have "as_region_at s' x = Some q \<longleftrightarrow> as_region_at s x = Some q" for q using at' by auto
      then show ?thesis using False by (metis not_None_eq)
    qed
  qed
  then show "\<exists>r. (base, r) \<in> set (as_regions s) \<and>
      as_region_at s' x = (if region_holds r x then None else as_region_at s x) \<and>
      unat (as_mapped_bytes s) = unat (as_mapped_bytes s') + unat (reg_size r)"
    using mem tot t by auto
qed

lemma protect_effect:
  assumes ok: "as_ok s" and pr: "as_protect base len perms s = Inr s'"
  shows "as_ok s'" "as_byte s' x = as_byte s x"
proof -
  let ?f = "\<lambda>r. r\<lparr>reg_permissions := perms\<rparr>"
  obtain r where r: "as_region_at s base = Some r" and s': "s' = modify_region (reg_base r) ?f s"
    using pr by (auto simp: as_protect_def modify_region_def Let_def split: option.splits if_splits)
  note mr = modify_region_ok [where f = ?f, OF ok r, folded s']
  show "as_ok s'" by (rule mr) simp_all
  have "as_region_at s' x = map_option (\<lambda>q. if q = r then ?f r else q) (as_region_at s x)"
    by (rule mr) simp_all
  then show "as_byte s' x = as_byte s x" by (cases "as_region_at s x") (auto simp: as_byte_def)
qed

lemma new_address_space_ok [simp]: "as_ok (new_address_space limits)"
  by (simp add: as_ok_def new_address_space_def regions_ok_def regions_total_def)

lemma clear_ok [simp]: "as_ok (as_clear s)"
  by (simp add: as_ok_def as_clear_def regions_ok_def regions_total_def)

lemma length_integer_bytes [simp, len_simps]: "length (integer_bytes width order v) = unat width"
  by (simp add: integer_bytes_def split: ByteOrder.splits)

lemma unat_width_bound: "unat (w :: u8) < 2 ^ 64"
  using unat_u8_bound [of w] by simp

lemma write_integer_effect:
  assumes ok: "as_ok s" and w: "as_write_integer a width order v ign s = Inr s'"
  shows "integer_width width" "as_ok s'" "as_perm s' x = as_perm s x"
    and "as_byte s' x = (if in_range a (unat width) x
      then Some (integer_bytes width order v ! (unat x - unat a)) else as_byte s x)"
proof -
  have w': "as_write a (integer_bytes width order v) ign s = Inr s'"
    using w by (simp add: as_write_integer_def split: if_splits)
  have len: "length (integer_bytes width order v) < 2 ^ 64"
    by (simp only: length_integer_bytes unat_width_bound)
  show "integer_width width" using w by (simp add: as_write_integer_def split: if_splits)
  show "as_ok s'" by (rule write_effect(1) [OF ok w' len])
  show "as_perm s' x = as_perm s x" by (rule write_perm [OF ok w' len])
  show "as_byte s' x = (if in_range a (unat width) x
      then Some (integer_bytes width order v ! (unat x - unat a)) else as_byte s x)"
    using write_effect(2) [OF ok w' len] by simp
qed

lemma write_integer_bytes_at:
  assumes ok: "as_ok s" and w: "as_write_integer a width order v ign s = Inr s'"
  shows "map (\<lambda>i. the (as_byte s' (a + of_nat i))) [0..<unat width] = integer_bytes width order v"
proof -
  have w': "as_write a (integer_bytes width order v) ign s = Inr s'"
    using w by (simp add: as_write_integer_def split: if_splits)
  have len: "length (integer_bytes width order v) < 2 ^ 64"
    by (simp only: length_integer_bytes unat_width_bound)
  show ?thesis
    by (rule nth_equalityI) (simp_all add: written_byte [OF ok w' len])
qed

section \<open>Reachable address spaces\<close>

text \<open>
  Every call a client can make on an address space. A failing call leaves the object as it
  was, so only the successful ones are steps.
\<close>

inductive as_step :: "AddressSpace \<Rightarrow> AddressSpace \<Rightarrow> bool" where
  step_map: "as_map base len perms name s = Inr s' \<Longrightarrow> as_step s s'"
| step_unmap: "as_unmap base s = Inr s' \<Longrightarrow> as_step s s'"
| step_protect: "as_protect base len perms s = Inr s' \<Longrightarrow> as_step s s'"
| step_write: "length input < 2 ^ 64 \<Longrightarrow> as_write a input ign s = Inr s' \<Longrightarrow> as_step s s'"
| step_write_integer: "as_write_integer a width order v ign s = Inr s' \<Longrightarrow> as_step s s'"
| step_clear: "as_step s (as_clear s)"

inductive as_reachable :: "Limits \<Rightarrow> AddressSpace \<Rightarrow> bool" for limits where
  reach_new: "as_reachable limits (new_address_space limits)"
| reach_step: "as_reachable limits s \<Longrightarrow> as_step s s' \<Longrightarrow> as_reachable limits s'"

inductive_cases as_stepE: "as_step s s'"

lemma as_step_ok: "as_step s s' \<Longrightarrow> as_ok s \<Longrightarrow> as_ok s'"
proof (induction rule: as_step.induct)
  case (step_write_integer a width order v ign s s')
  then show ?case by (auto intro: write_integer_effect(2))
qed (auto intro: map_effect(1) unmap_effect(1) protect_effect(1) write_effect(1))

lemma as_step_limits: "as_step s s' \<Longrightarrow> as_limits s' = as_limits s"
  by (induction rule: as_step.induct)
    (auto simp: as_map_def as_unmap_def as_protect_def as_write_def as_write_integer_def as_clear_def
      Let_def split: if_splits option.splits prod.splits)

section \<open>Properties\<close>

text \<open>
  C4. Every address space a client can build by any sequence of \<open>map\<close>, \<open>unmap\<close>, \<open>protect\<close>,
  \<open>write\<close>, \<open>write_integer\<close> and \<open>clear\<close> calls satisfies the invariant: regions are non-empty,
  hold exactly their bytes, neither wrap nor overlap, are keyed by their base in increasing
  order, and \<open>mapped_bytes\<close> is the sum of their sizes and within the configured limit.
\<close>

theorem reachable_ok:
  assumes "as_reachable limits s"
  shows "as_ok s \<and> as_limits s = limits"
  using assms
  by (induction rule: as_reachable.induct)
    (simp_all add: as_step_ok as_step_limits, simp add: new_address_space_def)

text \<open>A small space, for the witnesses.\<close>

definition demo_space :: AddressSpace where
  "demo_space = \<lparr>as_limits = default_limits,
     as_regions = [(0x1000, \<lparr>reg_base = 0x1000, reg_size = 4, reg_permissions = 3,
       reg_name = ''a'', reg_bytes = [0, 0, 0, 0]\<rparr>)], as_mapped_bytes = 4\<rparr>"

lemma demo_space_map: "as_map 0x1000 4 3 ''a'' (new_address_space default_limits) = Inr demo_space"
  by code_simp

theorem reachable_ok_witness: "as_ok demo_space \<and> as_limits demo_space = default_limits"
  by (rule reachable_ok)
    (rule as_reachable.reach_step [OF as_reachable.reach_new as_step.step_map [OF demo_space_map]])

text \<open>
  \<open>map\<close> succeeds exactly when the range is non-empty, does not reach past 2^64, fits the
  byte limit and is disjoint from every mapped region, although the code compares it with its
  two neighbours only; and a successful \<open>map\<close> makes exactly that range readable as zeros and
  leaves every other address as it was.
\<close>

theorem map_exact:
  assumes "as_ok s"
  shows "((\<exists>s'. as_map base len perms name s = Inr s') \<longleftrightarrow>
      len \<noteq> 0 \<and> unat base + unat len < 2 ^ 64 \<and>
      unat (as_mapped_bytes s) + unat len \<le> unat (max_mapped_bytes (as_limits s)) \<and>
      (\<forall>e \<in> set (as_regions s). \<forall>x. in_range base (unat len) x \<longrightarrow> \<not> region_holds (snd e) x)) \<and>
    (\<forall>s'. as_map base len perms name s = Inr s' \<longrightarrow>
      as_byte s' = (\<lambda>x. if in_range base (unat len) x then Some 0 else as_byte s x))"
proof -
  have disj: "disjoint_range (unat base) (unat base + unat len) (snd e) \<longleftrightarrow>
      (\<forall>x. in_range base (unat len) x \<longrightarrow> \<not> region_holds (snd e) x)"
    if l: "len \<noteq> 0" and e: "e \<in> set (as_regions s)" for e
  proof
    assume h: "\<forall>x. in_range base (unat len) x \<longrightarrow> \<not> region_holds (snd e) x"
    have "reg_size (snd e) \<noteq> 0"
      using regions_ok_member [of "as_regions s" "fst e" "snd e"] assms e by (simp add: as_ok_def)
    then have pos: "0 < unat (reg_size (snd e))" "0 < unat len" using l by (simp_all add: unat_gt_0)
    show "disjoint_range (unat base) (unat base + unat len) (snd e)"
    proof (cases "unat (reg_base (snd e)) \<le> unat base")
      case True
      then show ?thesis using h [rule_format, of base] pos
        by (simp add: in_range_def region_holds_def disjoint_range_def)
    next
      case False
      then show ?thesis using h [rule_format, of "reg_base (snd e)"] pos
        by (simp add: in_range_def region_holds_def disjoint_range_def region_end_def) (rule leI, blast)
    qed
  qed (auto simp: in_range_def region_holds_def disjoint_range_def)
  have "unat (x - base) < unat len" if "in_range base (unat len) x" for x
    using that by (auto simp: in_range_def unat_minus_bounded word_le_nat_alt)
  then have "as_byte s' = (\<lambda>x. if in_range base (unat len) x then Some 0 else as_byte s x)"
    if "as_map base len perms name s = Inr s'" for s'
    by (intro ext) (simp add: as_byte_def map_effect(2) [OF assms that], simp add: new_region_def)
  then show ?thesis using disj by (auto simp: map_Inr_iff [OF assms])
qed

lemma demo_space_ok: "as_ok demo_space"
  by (rule map_effect(1) [OF new_address_space_ok demo_space_map])

text \<open>A range that touches the mapped one only at its end can be mapped; one that reaches into it cannot.\<close>

theorem map_exact_witness:
  "(\<exists>s'. as_map 0xff0 16 1 [] demo_space = Inr s') \<and> \<not> (\<exists>s'. as_map 0xff0 17 1 [] demo_space = Inr s')"
proof -
  have fit: "unat (as_mapped_bytes demo_space) + n \<le> unat (max_mapped_bytes (as_limits demo_space))"
    if "n \<le> 17" for n
  proof -
    have "unat (as_mapped_bytes demo_space) = 4"
      "unat (max_mapped_bytes (as_limits demo_space)) = 536870912"
      by (simp_all add: demo_space_def default_limits_def)
    then show ?thesis using that by simp
  qed
  have u: "unat (0xff0 :: u64) = 4080" "unat (16 :: u64) = 16" "unat (17 :: u64) = 17"
    "unat (0x1000 :: u64) = 4096" by simp_all
  have e: "as_regions demo_space = [(0x1000, \<lparr>reg_base = 0x1000, reg_size = 4, reg_permissions = 3,
      reg_name = ''a'', reg_bytes = [0, 0, 0, 0]\<rparr>)]" by (simp add: demo_space_def)
  have "\<exists>s'. as_map 0xff0 16 1 [] demo_space = Inr s'"
    unfolding conjunct1 [OF map_exact [OF demo_space_ok]] u e
    using fit [of 16] by (auto simp: in_range_def region_holds_def u)
  moreover have "in_range 0xff0 17 0x1000"
    "region_holds \<lparr>reg_base = 0x1000, reg_size = 4, reg_permissions = 3,
      reg_name = ''a'', reg_bytes = [0, 0, 0, 0]\<rparr> 0x1000"
    by (simp_all add: in_range_def region_holds_def region_end_def)
  then have "\<not> (\<exists>s'. as_map 0xff0 17 1 [] demo_space = Inr s')"
    unfolding conjunct1 [OF map_exact [OF demo_space_ok]] u e by auto
  ultimately show ?thesis ..
qed

text \<open>
  C10. Memory semantics of \<open>write\<close> and \<open>read\<close>: a successful write changes exactly the bytes of its
  range, to the bytes written, and a successful read returns exactly the bytes of its range. In
  particular a read after a write sees the written bytes wherever the ranges overlap and the old
  bytes elsewhere.
\<close>

theorem read_after_write:
  assumes "as_ok s" "length input < 2 ^ 64" "as_write a input ign s = Inr s'"
    and "as_read s' b n = Inr bs"
  shows "length bs = unat n \<and>
    (\<forall>i < unat n. let x = b + of_nat i in
       if in_range a (length input) x then bs ! i = input ! (unat x - unat a)
       else as_byte s x = Some (bs ! i))"
proof -
  note w = write_effect [OF assms(1,3,2)]
  note r = read_bytes_at [OF w(1) assms(4)]
  have "let x = b + of_nat i in
       if in_range a (length input) x then bs ! i = input ! (unat x - unat a)
       else as_byte s x = Some (bs ! i)" if "i < unat n" for i
    using r(2) [OF that] by (simp add: Let_def w(2) split: if_splits)
  then show ?thesis using r(1) by blast
qed

theorem read_after_write_witness:
  "\<exists>s'. as_write 0x1001 [7, 8] False demo_space = Inr s' \<and> as_read s' 0x1000 4 = Inr [0, 7, 8, 0] \<and>
     (let x = 0x1000 + of_nat 1 in [0, 7, 8, 0 :: u8] ! 1 = [7, 8] ! (unat (x :: u64) - unat (0x1001 :: u64)))"
proof -
  let ?s = "modify_region 0x1000 (\<lambda>q. q\<lparr>reg_bytes := [0, 7, 8, 0]\<rparr>) demo_space"
  have w: "as_write 0x1001 [7, 8] False demo_space = Inr ?s" by code_simp
  have r: "as_read ?s 0x1000 4 = Inr [0, 7, 8, 0]" by code_simp
  have "\<forall>i < unat (4 :: u64). let x = 0x1000 + of_nat i in
       if in_range 0x1001 (length [7, 8 :: u8]) x then [0, 7, 8, 0 :: u8] ! i = [7, 8] ! (unat (x :: u64) - unat (0x1001 :: u64))
       else as_byte demo_space x = Some ([0, 7, 8, 0] ! i)"
    using read_after_write [OF demo_space_ok _ w r] by simp
  then have "[0, 7, 8, 0 :: u8] ! 1 = [7, 8] ! (unat (0x1000 + of_nat 1 :: u64) - unat (0x1001 :: u64))"
    by (elim allE [of _ 1]) (simp add: in_range_def)
  then show ?thesis using w r by (auto simp: Let_def)
qed

text \<open>
  Integers of the four supported widths round-trip through memory in either byte order: the
  value read back is the value written, reduced to the width; every other width is refused by
  both directions.
\<close>

lemma ordered_value_integer_bytes:
  "ordered_value order (integer_bytes width order v) = (take_bit (8 * unat width) v :: u64)"
  by (simp add: ordered_value_def integer_bytes_def be_bytes_def le_value_le_bytes_narrow
      flip: le_value_def split: ByteOrder.splits)

lemma write_then_read:
  assumes ok: "as_ok s" and n: "unat n = length input"
    and w: "as_write a input ign s = Inr s'" and rd: "as_read s' a n = Inr bs"
  shows "bs = input"
proof -
  have len: "length input < 2 ^ 64" using unat_u64_bound [of n] by (simp flip: n(1))
  note r = read_bytes_at [OF write_effect(1) [OF ok w len] rd]
  show ?thesis
  proof (rule nth_equalityI)
    show l: "length bs = length input" using r(1) n by simp
    fix i assume "i < length bs"
    then have i: "i < unat n" "i < length input" using l n by simp_all
    have "as_byte s' (a + of_nat i) = Some (bs ! i)" by (rule r(2) [OF i(1)])
    then show "bs ! i = input ! i" using written_byte [OF ok w len i(2)] by simp
  qed
qed

theorem integer_roundtrip:
  assumes "as_ok s" "as_write_integer a width order v ign s = Inr s'"
    and "as_read_integer s' a width order = Inr u"
  shows "integer_width width \<and> u = take_bit (8 * unat width) v"
proof -
  have w: "integer_width width" "as_write a (integer_bytes width order v) ign s = Inr s'"
    using assms(2) by (auto simp: as_write_integer_def split: if_splits)
  obtain bs where r: "as_read s' a (ucast width) = Inr bs" "u = ordered_value order bs"
    using assms(3) by (auto simp: as_read_integer_def split: if_splits sum.splits)
  have "unat (ucast width :: u64) = length (integer_bytes width order v)" by simp
  from write_then_read [OF assms(1) this w(2) r(1)]
  show ?thesis using w(1) r(2) by (simp add: ordered_value_integer_bytes)
qed

theorem integer_roundtrip_witness:
  "\<exists>s' u. as_write_integer 0x1002 2 big 0x12345 False demo_space = Inr s' \<and>
     as_read_integer s' 0x1002 2 big = Inr u \<and> u = take_bit 16 0x12345"
proof -
  let ?s = "modify_region 0x1000 (\<lambda>q. q\<lparr>reg_bytes := [0, 0, 0x23, 0x45]\<rparr>) demo_space"
  have w: "as_write_integer 0x1002 2 big 0x12345 False demo_space = Inr ?s" by code_simp
  have r: "as_read_integer ?s 0x1002 2 big = Inr 0x2345" by code_simp
  have "(0x2345 :: u64) = take_bit (8 * unat (2 :: u8)) 0x12345"
    using integer_roundtrip [OF demo_space_ok w r] by simp
  then show ?thesis using w r by (intro exI conjI) simp_all
qed

end
