(* ===== verification/Symbol_Resolver.thy ===== *)
theory Symbol_Resolver
  imports Base Ordered_Map
begin

text \<open>
  \<open>SymbolResolver\<close> of \<open>src/address_space.cc\<close>: exported addresses keyed by (library, name) and
  by (library, ordinal). The lemmas refine it to the list of exports added so far.
\<close>

section \<open>State and operations\<close>

record SymbolResolver =
  res_named :: "(string \<times> string, u64) omap"
  res_ordinal :: "(string \<times> u64, u64) omap"

definition new_resolver :: SymbolResolver where
  "new_resolver = \<lparr>res_named = [], res_ordinal = []\<rparr>"

definition add_export :: "string \<Rightarrow> Export \<Rightarrow> SymbolResolver \<Rightarrow> Error + SymbolResolver" where
  "add_export library symbol s =
    (let name_key = (library, exp_name symbol); ordinal_key = (library, exp_ordinal symbol) in
     if (exp_name symbol \<noteq> [] \<and> om_find (res_named s) name_key \<noteq> None)
        \<or> om_find (res_ordinal s) ordinal_key \<noteq> None
     then Inl (mk_error duplicate_export 0 ''duplicate exported symbol'')
     else
       let s1 = (if exp_name symbol \<noteq> []
                 then s\<lparr>res_named := om_emplace name_key (exp_address symbol) (res_named s)\<rparr>
                 else s) in
       Inr (s1\<lparr>res_ordinal := om_emplace ordinal_key (exp_address symbol) (res_ordinal s1)\<rparr>))"

definition resolve :: "SymbolResolver \<Rightarrow> string \<Rightarrow> string \<Rightarrow> u64 \<Rightarrow> u64 option" where
  "resolve s library name ordinal =
    (case (if name \<noteq> [] then om_find (res_named s) (library, name) else None) of
       Some address \<Rightarrow> Some address
     | None \<Rightarrow> om_find (res_ordinal s) (library, ordinal))"

definition resolver_clear :: "SymbolResolver \<Rightarrow> SymbolResolver" where
  "resolver_clear s = \<lparr>res_named = [], res_ordinal = []\<rparr>"

section \<open>Refinement to the list of exports\<close>

definition resolver_ok :: "SymbolResolver \<Rightarrow> bool" where
  "resolver_ok s \<longleftrightarrow> om_ok (res_named s) \<and> om_ok (res_ordinal s)"

text \<open>Adding exports one after the other, as a client that registers a library does.\<close>

fun add_exports :: "(string \<times> Export) list \<Rightarrow> SymbolResolver \<Rightarrow> Error + SymbolResolver" where
  "add_exports [] s = Inr s"
| "add_exports ((library, symbol) # rest) s =
     (case add_export library symbol s of Inl e \<Rightarrow> Inl e | Inr s' \<Rightarrow> add_exports rest s')"

text \<open>What a lookup should yield, over the exports in the order they were added.\<close>

definition export_by_name :: "(string \<times> Export) list \<Rightarrow> string \<Rightarrow> string \<Rightarrow> u64 option" where
  "export_by_name added library name =
     (if name = [] then None
      else map_option (\<lambda>(l, e). exp_address e)
        (find (\<lambda>(l, e). l = library \<and> exp_name e = name) added))"

definition export_by_ordinal :: "(string \<times> Export) list \<Rightarrow> string \<Rightarrow> u64 \<Rightarrow> u64 option" where
  "export_by_ordinal added library ordinal =
     map_option (\<lambda>(l, e). exp_address e)
       (find (\<lambda>(l, e). l = library \<and> exp_ordinal e = ordinal) added)"

definition resolver_abs :: "(string \<times> Export) list \<Rightarrow> SymbolResolver \<Rightarrow> bool" where
  "resolver_abs added s \<longleftrightarrow> resolver_ok s \<and>
     (\<forall>l n. n \<noteq> [] \<longrightarrow> om_find (res_named s) (l, n) = export_by_name added l n) \<and>
     (\<forall>l ord. om_find (res_ordinal s) (l, ord) = export_by_ordinal added l ord)"

lemma resolver_abs_new: "resolver_abs [] new_resolver"
  by (simp add: resolver_abs_def resolver_ok_def new_resolver_def export_by_name_def export_by_ordinal_def)

lemma find_append:
  "find P (xs @ ys) = (case find P xs of Some x \<Rightarrow> Some x | None \<Rightarrow> find P ys)"
  by (induction xs) auto

lemma by_name_snoc:
  "export_by_name (added @ [(l', e)]) l n = (case export_by_name added l n of Some a \<Rightarrow> Some a
     | None \<Rightarrow> if n \<noteq> [] \<and> l' = l \<and> exp_name e = n then Some (exp_address e) else None)"
  by (auto simp: export_by_name_def find_append split: option.splits)

lemma by_ordinal_snoc:
  "export_by_ordinal (added @ [(l', e)]) l ord = (case export_by_ordinal added l ord of Some a \<Rightarrow> Some a
     | None \<Rightarrow> if l' = l \<and> exp_ordinal e = ord then Some (exp_address e) else None)"
  by (auto simp: export_by_ordinal_def find_append split: option.splits)

lemma add_export_abs:
  assumes abs: "resolver_abs added s" and add: "add_export l' e s = Inr s'"
  shows "resolver_abs (added @ [(l', e)]) s'"
proof -
  have ok: "om_ok (res_named s)" "om_ok (res_ordinal s)"
    using abs by (simp_all add: resolver_abs_def resolver_ok_def)
  have fresh: "exp_name e \<noteq> [] \<Longrightarrow> om_find (res_named s) (l', exp_name e) = None"
    "om_find (res_ordinal s) (l', exp_ordinal e) = None"
    using add by (auto simp: add_export_def Let_def split: if_splits)
  have named: "res_named s' = (if exp_name e \<noteq> []
      then om_emplace (l', exp_name e) (exp_address e) (res_named s) else res_named s)"
    and ordinal: "res_ordinal s' = om_emplace (l', exp_ordinal e) (exp_address e) (res_ordinal s)"
    using add by (auto simp: add_export_def Let_def split: if_splits)
  have "resolver_ok s'"
    using ok by (simp add: resolver_ok_def named ordinal om.ok_emplace)
  moreover have "om_find (res_named s') (l, n) = export_by_name (added @ [(l', e)]) l n" if "n \<noteq> []" for l n
    using abs fresh(1) that
    by (auto simp: resolver_abs_def named by_name_snoc om.find_emplace [OF ok(1)] split: option.splits)
  moreover have "om_find (res_ordinal s') (l, ord) = export_by_ordinal (added @ [(l', e)]) l ord" for l ord
    using abs fresh(2)
    by (auto simp: resolver_abs_def ordinal by_ordinal_snoc om.find_emplace [OF ok(2)] split: option.splits)
  ultimately show ?thesis by (simp add: resolver_abs_def)
qed

lemma add_exports_abs:
  "resolver_abs added s \<Longrightarrow> add_exports exps s = Inr s' \<Longrightarrow> resolver_abs (added @ exps) s'"
proof (induction exps arbitrary: added s)
  case (Cons x exps)
  obtain l e where x: "x = (l, e)" by (cases x)
  obtain s1 where s1: "add_export l e s = Inr s1" "add_exports exps s1 = Inr s'"
    using Cons.prems(2) by (auto simp: x split: sum.splits)
  show ?case using Cons.IH [OF add_export_abs [OF Cons.prems(1) s1(1)] s1(2)] by (simp add: x)
qed simp

section \<open>Properties\<close>

text \<open>
  C13. A resolver filled by any sequence of \<open>add_export\<close> calls answers a lookup with the export
  of that library and name, and falls back to the export of that library and ordinal when no
  such name was added; the order of additions does not matter to the maps, because a second
  export of a name or of an ordinal is refused.
\<close>

theorem resolve_refines:
  assumes "add_exports exps new_resolver = Inr s"
  shows "resolve s library name ordinal =
    (case export_by_name exps library name of Some a \<Rightarrow> Some a | None \<Rightarrow> export_by_ordinal exps library ordinal)"
proof -
  have "resolver_abs exps s"
    using add_exports_abs [OF resolver_abs_new assms] by simp
  then show ?thesis
    by (cases "name = []") (auto simp: resolver_abs_def resolve_def export_by_name_def split: option.splits)
qed

definition demo_export :: "string \<Rightarrow> u64 \<Rightarrow> u64 \<Rightarrow> Export" where
  "demo_export name address ordinal = \<lparr>exp_name = name, exp_address = address,
     exp_ordinal = ordinal, exp_forwarded = False, exp_forward_target = []\<rparr>"

theorem resolve_refines_witness:
  "\<exists>s. add_exports [(''c'', demo_export ''puts'' 16 1), (''c'', demo_export [] 32 2)] new_resolver = Inr s \<and>
     resolve s ''c'' ''puts'' 2 = Some 16 \<and> resolve s ''c'' ''gets'' 2 = Some 32"
proof -
  let ?x = "[(''c'', demo_export ''puts'' 16 1), (''c'', demo_export [] 32 2)]"
  obtain s where s: "add_exports ?x new_resolver = Inr s"
  proof (cases "add_exports ?x new_resolver")
    case (Inl e)
    have "\<not> isl (add_exports ?x new_resolver)" by code_simp
    then show ?thesis using Inl by simp
  qed
  have "resolve s ''c'' ''puts'' 2 = Some 16"
    unfolding resolve_refines [OF s] by (simp add: export_by_name_def demo_export_def)
  moreover have "resolve s ''c'' ''gets'' 2 = Some 32"
    unfolding resolve_refines [OF s] by (simp add: export_by_name_def export_by_ordinal_def demo_export_def)
  ultimately show ?thesis using s by blast
qed

text \<open>
  \<open>add_export\<close> refuses a second export of a library that leaves the ordinal at its default 0
  whatever its name, and the export with ordinal 0 then answers every name that the library does
  not export when the caller passes no ordinal.
\<close>

theorem default_ordinal_collides:
  assumes "resolver_ok s" "add_export library e s = Inr s'" "exp_ordinal e = 0" "exp_ordinal e2 = 0"
    and "om_find (res_named s') (library, missing) = None"
  shows "add_export library e2 s' = Inl (mk_error duplicate_export 0 ''duplicate exported symbol'') \<and>
    resolve s' library missing 0 = Some (exp_address e)"
proof -
  have ok: "om_ok (res_ordinal s)" using assms(1) by (simp add: resolver_ok_def)
  have "om_find (res_ordinal s) (library, 0) = None"
    "res_ordinal s' = om_emplace (library, 0) (exp_address e) (res_ordinal s)"
    using assms(2,3) by (auto simp: add_export_def Let_def split: if_splits)
  then have "om_find (res_ordinal s') (library, 0) = Some (exp_address e)"
    using ok by (simp add: om.find_emplace)
  then show ?thesis using assms(4,5) by (simp add: add_export_def resolve_def Let_def)
qed

theorem default_ordinal_collides_witness:
  "\<exists>s. add_export ''m'' (demo_export ''sin'' 16 0) new_resolver = Inr s \<and>
     add_export ''m'' (demo_export ''cos'' 32 0) s = Inl (mk_error duplicate_export 0 ''duplicate exported symbol'') \<and>
     resolve s ''m'' ''tan'' 0 = Some 16"
proof -
  let ?s = "\<lparr>res_named = [((''m'', ''sin''), 16)], res_ordinal = [((''m'', 0), 16)]\<rparr>"
  have s: "add_export ''m'' (demo_export ''sin'' 16 0) new_resolver = Inr ?s" by code_simp
  have "resolver_ok new_resolver" by (simp add: resolver_ok_def new_resolver_def)
  from default_ordinal_collides [OF this s, of "demo_export ''cos'' 32 0" "''tan''"] s
  show ?thesis by (simp add: demo_export_def om_find_def)
qed

end
