(* ===== verification/Loader.thy ===== *)
theory Loader
  imports Validator Address_Space Symbol_Resolver
begin

unbundle bit_operations_syntax

text \<open>
  \<open>BinaryLoader\<close> and \<open>RelocationProcessor\<close> of \<open>src/loader.cc\<close>. Loading mutates the address
  space as it goes and leaves what it has done when it fails, so every stage returns its result
  together with the memory it left; \<open>error\<close> is the caller's error object, which the one failing
  path that sets nothing leaves as it was.
\<close>

section \<open>Relocations\<close>

definition relocation_width :: "Relocation \<Rightarrow> u8" where
  "relocation_width rel =
     (if rel_width rel \<noteq> 0 then rel_width rel
      else if rel_kind rel = absolute64 \<or> rel_kind rel = relative64 then 8 else 4)"

definition relocation_symbol ::
    "Relocation \<Rightarrow> BinaryImage \<Rightarrow> u64 \<Rightarrow> SymbolResolver option \<Rightarrow> u64 \<Rightarrow> Error + u64" where
  "relocation_symbol rel img bias resolver target =
    (if rel_symbol_index rel = 0 then Inr 0
     else case image_symbol img (rel_symbol_index rel) of
       None \<Rightarrow> Inl (mk_error invalid_symbol target ''relocation symbol index invalid'')
     | Some symbol \<Rightarrow>
         (case (sym_binding symbol, resolver) of
            (import_symbol, Some r) \<Rightarrow>
              (case resolve r (sym_library symbol) (sym_name symbol) 0 of
                 None \<Rightarrow> Inl (mk_error unresolved_import target ''relocation import unresolved'')
               | Some v \<Rightarrow> Inr v)
          | _ \<Rightarrow>
              (case checked_add (sym_value symbol) bias of
                 None \<Rightarrow> Inl (mk_error address_overflow target ''symbol address overflow'')
               | Some v \<Rightarrow> Inr v)))"

text \<open>The \<open>switch\<close>: the value and width to store, or nothing to do, or an unsupported kind.\<close>

datatype relocation_action = store_value u64 u8 | no_action | unsupported_kind

definition relocation_value :: "Relocation \<Rightarrow> u64 \<Rightarrow> u64 \<Rightarrow> u64 \<Rightarrow> u8 \<Rightarrow> relocation_action" where
  "relocation_value rel bias symbol_value target width =
    (case rel_kind rel of
       relative32 \<Rightarrow> store_value (bias + rel_addend rel) width
     | relative64 \<Rightarrow> store_value (bias + rel_addend rel) width
     | pc_relative32 \<Rightarrow> store_value (symbol_value + rel_addend rel - target) width
     | absolute32 \<Rightarrow> store_value (symbol_value + rel_addend rel) width
     | absolute64 \<Rightarrow> store_value (symbol_value + rel_addend rel) width
     | high16 \<Rightarrow> store_value (drop_bit 16 (symbol_value + rel_addend rel)) 2
     | low16 \<Rightarrow> store_value ((symbol_value + rel_addend rel) AND 0xffff) 2
     | reloc_none \<Rightarrow> no_action
     | _ \<Rightarrow> unsupported_kind)"

definition apply_one ::
    "Relocation \<Rightarrow> BinaryImage \<Rightarrow> u64 \<Rightarrow> SymbolResolver option \<Rightarrow> AddressSpace \<Rightarrow> Error + AddressSpace" where
  "apply_one rel img bias resolver m =
    (case checked_add (rel_offset rel) bias of
       None \<Rightarrow> Inl (mk_error address_overflow (rel_offset rel) ''relocation target overflow'')
     | Some target \<Rightarrow>
    (case relocation_symbol rel img bias resolver target of
       Inl e \<Rightarrow> Inl e
     | Inr symbol_value \<Rightarrow>
    (case relocation_value rel bias symbol_value target (relocation_width rel) of
       no_action \<Rightarrow> Inr m
     | unsupported_kind \<Rightarrow> Inl (mk_error invalid_relocation target ''unsupported relocation kind'')
     | store_value v width \<Rightarrow>
         if width < 8 \<and> v \<ge> push_bit (unat width * 8) 1
         then Inl (mk_error address_overflow target ''relocation result does not fit'')
         else as_write_integer target width (hdr_byte_order (img_header img)) v True m)))"

text \<open>\<open>applied\<close> counts the relocations done, also when a later one fails.\<close>

fun apply_relocations_loop ::
    "Relocation list \<Rightarrow> BinaryImage \<Rightarrow> u64 \<Rightarrow> SymbolResolver option \<Rightarrow> u32 \<Rightarrow> AddressSpace \<Rightarrow>
     (Error + unit) \<times> u32 \<times> AddressSpace" where
  "apply_relocations_loop [] img bias resolver applied m = (Inr (), applied, m)"
| "apply_relocations_loop (rel # rels) img bias resolver applied m =
    (case apply_one rel img bias resolver m of
       Inl e \<Rightarrow> (Inl e, applied, m)
     | Inr m' \<Rightarrow> apply_relocations_loop rels img bias resolver (applied + 1) m')"

definition apply_relocations ::
    "Limits \<Rightarrow> BinaryImage \<Rightarrow> u64 \<Rightarrow> SymbolResolver option \<Rightarrow> AddressSpace \<Rightarrow>
     (Error + unit) \<times> u32 \<times> AddressSpace" where
  "apply_relocations limits img bias resolver m =
    (if length (img_relocations img) > unat (max_relocations limits)
     then (Inl (mk_error resource_limit 0 ''relocation count limit''), 0, m)
     else apply_relocations_loop (img_relocations img) img bias resolver 0 m)"

section \<open>Loading\<close>

record LoadOptions =
  opt_preferred_base :: u64
  opt_apply_relocations :: bool
  opt_resolve_imports :: bool
  opt_enforce_wx :: bool
  opt_allow_overlapping_sections :: bool

definition default_load_options :: LoadOptions where
  "default_load_options = \<lparr>opt_preferred_base = 0, opt_apply_relocations = True,
     opt_resolve_imports = True, opt_enforce_wx = True, opt_allow_overlapping_sections = False\<rparr>"

record LoadResult =
  load_base :: u64
  load_entry_point :: u64
  load_mapped_bytes :: u64
  load_relocations_applied :: u32
  load_imports_resolved :: u32

definition initial_permissions :: "bool \<Rightarrow> u8 \<Rightarrow> u8" where
  "initial_permissions enforce_wx perms =
    (let initial = perms OR permission_write in
     if enforce_wx \<and> initial AND permission_write \<noteq> 0 \<and> initial AND permission_execute \<noteq> 0
     then initial AND NOT permission_execute else initial)"

definition load_segment ::
    "Limits \<Rightarrow> bytes option \<Rightarrow> u64 \<Rightarrow> bool \<Rightarrow> Segment \<Rightarrow> AddressSpace \<Rightarrow> (Error + u64) \<times> AddressSpace" where
  \<comment> \<open>one iteration of the segment loop; yields the bytes it mapped\<close>
  "load_segment limits data bias enforce_wx segment m =
    (if seg_memory_size segment = 0 then (Inr 0, m)
     else case checked_add (seg_virtual_address segment) bias of
       None \<Rightarrow> (Inl (mk_error address_overflow (seg_virtual_address segment)
                 ''segment load address overflow''), m)
     | Some address \<Rightarrow>
    (let aligned_base = address AND NOT (ucast (page_size limits - 1));
         prefix_bytes = address - aligned_base in
     case (case checked_add prefix_bytes (seg_memory_size segment) of
             None \<Rightarrow> None
           | Some covered \<Rightarrow> checked_align_up covered (ucast (page_size limits))) of
       None \<Rightarrow> (Inl (mk_error address_overflow address ''aligned segment size overflow''), m)
     | Some aligned_size \<Rightarrow>
    (case as_map aligned_base aligned_size
            (initial_permissions enforce_wx (seg_permissions segment))
            (''segment.'' @ to_string (unat (seg_index segment))) m of
       Inl e \<Rightarrow> (Inl e, m)
     | Inr m1 \<Rightarrow>
         if seg_file_size segment = 0 then (Inr aligned_size, m1)
         else
           let unavailable =
             mk_error file_range_overflow (seg_file_offset segment) ''segment data unavailable'' in
           case data of
             None \<Rightarrow> (Inl unavailable, m1)
           | Some bs \<Rightarrow>
               if \<not> range_inside (seg_file_offset segment) (seg_file_size segment) (of_nat (length bs))
               then (Inl unavailable, m1)
               else case as_write address
                     (take (unat (seg_file_size segment)) (drop (unat (seg_file_offset segment)) bs))
                     True m1 of
                 Inl e \<Rightarrow> (Inl e, m1)
               | Inr m2 \<Rightarrow> (Inr aligned_size, m2))))"

fun load_segments ::
    "Limits \<Rightarrow> bytes option \<Rightarrow> u64 \<Rightarrow> bool \<Rightarrow> Segment list \<Rightarrow> u64 \<Rightarrow> AddressSpace \<Rightarrow>
     (Error + u64) \<times> AddressSpace" where
  "load_segments limits data bias enforce_wx [] mapped m = (Inr mapped, m)"
| "load_segments limits data bias enforce_wx (segment # rest) mapped m =
    (case load_segment limits data bias enforce_wx segment m of
       (Inl e, m') \<Rightarrow> (Inl e, m')
     | (Inr aligned_size, m') \<Rightarrow>
         load_segments limits data bias enforce_wx rest (mapped + aligned_size) m')"

fun load_imports ::
    "BinaryImage \<Rightarrow> u64 \<Rightarrow> SymbolResolver option \<Rightarrow> Error \<Rightarrow> Import list \<Rightarrow> u32 \<Rightarrow> AddressSpace \<Rightarrow>
     (Error + u32) \<times> AddressSpace" where
  "load_imports img bias resolver error [] resolved m = (Inr resolved, m)"
| "load_imports img bias resolver error (imp # rest) resolved m =
    (case resolver of
       None \<Rightarrow>
         if imp_weak imp then load_imports img bias resolver error rest resolved m
         else (Inl (mk_error unresolved_import (imp_slot_address imp) ''no import resolver''), m)
     | Some r \<Rightarrow>
    (case resolve r (imp_library imp) (imp_name imp) (imp_ordinal imp) of
       None \<Rightarrow>
         if imp_weak imp then load_imports img bias resolver error rest resolved m
         else (Inl (mk_error unresolved_import (imp_slot_address imp)
                 (''unresolved import: '' @ imp_name imp)), m)
     | Some target \<Rightarrow>
    (case checked_add (imp_slot_address imp) bias of
       None \<Rightarrow> (Inl error, m)
     | Some slot \<Rightarrow>
    (case as_write_integer slot (word_size_bytes (hdr_word_size (img_header img)))
            (hdr_byte_order (img_header img)) target True m of
       Inl e \<Rightarrow> (Inl e, m)
     | Inr m' \<Rightarrow> load_imports img bias resolver error rest (resolved + 1) m'))))"

text \<open>\<open>std::min_element\<close> by virtual address, and the base the image was linked for.\<close>

fun lowest_segment :: "Segment list \<Rightarrow> u64" where
  "lowest_segment [] = 0"
| "lowest_segment (s # rest) =
     foldl (\<lambda>low t. if seg_virtual_address t < low then seg_virtual_address t else low)
       (seg_virtual_address s) rest"

definition original_base :: "BinaryImage \<Rightarrow> u64" where
  "original_base img =
    (if hdr_image_base (img_header img) = 0 \<and> img_segments img \<noteq> []
     then lowest_segment (img_segments img)
     else hdr_image_base (img_header img))"

definition target_base :: "LoadOptions \<Rightarrow> BinaryImage \<Rightarrow> u64" where
  "target_base options img =
    (if opt_preferred_base options \<noteq> 0 then opt_preferred_base options else original_base img)"

definition load_bias :: "LoadOptions \<Rightarrow> BinaryImage \<Rightarrow> u64" where
  "load_bias options img = target_base options img - original_base img"

definition load_entry :: "BinaryImage \<Rightarrow> u64 \<Rightarrow> Error + u64" where
  "load_entry img bias =
    (let entry = hdr_entry_point (img_header img) in
     if entry \<noteq> 0 \<and> original_base img \<noteq> 0 \<and> entry \<ge> original_base img
     then (case checked_add entry bias of
             None \<Rightarrow> Inl (mk_error address_overflow entry ''entry point overflow'')
           | Some e \<Rightarrow> Inr e)
     else Inr entry)"

definition load ::
    "Limits \<Rightarrow> BinaryImage \<Rightarrow> LoadOptions \<Rightarrow> SymbolResolver option \<Rightarrow> Error \<Rightarrow> AddressSpace \<Rightarrow>
     (Error + LoadResult) \<times> AddressSpace" where
  "load limits img options resolver error m =
    (let report = validate limits img; bias = load_bias options img in
     if \<not> rep_valid report then (Inl (hd (rep_errors report)), m)
     else case load_segments limits (img_file_data img) bias (opt_enforce_wx options)
                 (img_segments img) 0 m of
       (Inl e, m1) \<Rightarrow> (Inl e, m1)
     | (Inr mapped, m1) \<Rightarrow>
    (case (if opt_apply_relocations options then apply_relocations limits img bias resolver m1
           else (Inr (), 0, m1)) of
       (Inl e, _, m2) \<Rightarrow> (Inl e, m2)
     | (Inr _, applied, m2) \<Rightarrow>
    (case (if opt_resolve_imports options
           then load_imports img bias resolver error (img_imports img) 0 m2
           else (Inr 0, m2)) of
       (Inl e, m3) \<Rightarrow> (Inl e, m3)
     | (Inr resolved, m3) \<Rightarrow>
    (case load_entry img bias of
       Inl e \<Rightarrow> (Inl e, m3)
     | Inr entry \<Rightarrow>
         (Inr \<lparr>load_base = target_base options img, load_entry_point = entry,
               load_mapped_bytes = mapped, load_relocations_applied = applied,
               load_imports_resolved = resolved\<rparr>, m3)))))"

section \<open>Segments in memory\<close>

lemma map_fresh:
  assumes ok: "as_ok m" and mp: "as_map base len perms name m = Inr m'"
    and at: "as_region_at m x = Some r"
  shows "\<not> in_range base (unat len) x"
proof -
  have ro: "regions_ok (as_regions m)" using ok by (simp add: as_ok_def)
  have "(reg_base r, r) \<in> set (as_regions m)" "region_holds r x"
    using region_at_member [OF ro at] by simp_all
  moreover have "\<forall>e \<in> set (as_regions m). disjoint_range (unat base) (unat base + unat len) (snd e)"
    using mp by (simp add: map_Inr_iff [OF ok])
  ultimately show ?thesis
    by (auto simp: disjoint_range_def region_holds_def in_range_def)
qed

text \<open>Loading never touches bytes that were mapped before.\<close>

definition extends_memory :: "AddressSpace \<Rightarrow> AddressSpace \<Rightarrow> bool" where
  "extends_memory m m' \<longleftrightarrow> as_ok m' \<and>
     (\<forall>x r. as_region_at m x = Some r \<longrightarrow> as_region_at m' x = Some r)"

lemma extends_refl [simp]: "as_ok m \<Longrightarrow> extends_memory m m"
  by (simp add: extends_memory_def)

lemma extends_trans: "extends_memory m m1 \<Longrightarrow> extends_memory m1 m2 \<Longrightarrow> extends_memory m m2"
  by (simp add: extends_memory_def)

lemma extends_byte: "extends_memory m m' \<Longrightarrow> as_byte m x = Some v \<Longrightarrow> as_byte m' x = Some v"
  by (auto simp: extends_memory_def as_byte_def)

lemma extends_perm: "extends_memory m m' \<Longrightarrow> as_perm m x = Some v \<Longrightarrow> as_perm m' x = Some v"
  by (auto simp: extends_memory_def as_perm_def)

text \<open>A write into memory that was not mapped before extends it still.\<close>

lemma extends_map: "as_ok m \<Longrightarrow> as_map base len perms name m = Inr m' \<Longrightarrow> extends_memory m m'"
  using map_fresh map_effect unfolding extends_memory_def by (metis)

lemma extends_write_new:
  assumes ok: "as_ok m" and mp: "as_map base len perms name m = Inr m1"
    and a: "in_range base (unat len) a"
    and w: "as_write a input True m1 = Inr m2" and l: "length input < 2 ^ 64"
  shows "extends_memory m m2"
proof (cases "input = []")
  case True
  then show ?thesis using extends_map [OF ok mp] w by (simp add: write_Inr_iff)
next
  case False
  have ok1: "as_ok m1" by (rule map_effect(1) [OF ok mp])
  let ?n = "new_region base len perms name"
  let ?f = "\<lambda>q. q\<lparr>reg_bytes := splice (unat (a - reg_base q)) input (reg_bytes q)\<rparr>"
  have at: "as_region_at m1 a = Some ?n" using map_effect(2) [OF ok mp] a by simp
  have c: "region_contains ?n a (of_nat (length input))" and m2: "m2 = modify_region (reg_base ?n) ?f m1"
    using w False at by (auto simp: write_Inr_iff)
  have "unat (of_nat (length input) :: u64) = length input" by (rule unat_of_nat_u64) (use l in simp)
  then have fit: "unat (a - reg_base ?n) + length input \<le> length (reg_bytes ?n)"
    using region_range_length [OF c] by (simp add: new_region_def)
  have shape: "reg_base (?f ?n) = reg_base ?n" "reg_size (?f ?n) = reg_size ?n"
    "length (reg_bytes (?f ?n)) = length (reg_bytes ?n)" using fit by simp_all
  note mr = modify_region_ok [where f = ?f, OF ok1 at shape, folded m2]
  have "as_region_at m2 x = Some r" if r: "as_region_at m x = Some r" for x r
  proof -
    have r1: "as_region_at m1 x = Some r"
      using map_effect(2) [OF ok mp] map_fresh [OF ok mp r] r by simp
    have "r \<noteq> ?n"
    proof
      assume "r = ?n"
      have "regions_ok (as_regions m)" using ok by (simp add: as_ok_def)
      then have "as_region_at m base = Some r"
        using region_at_other [OF _ r, of base] region_at_member [OF _ r] \<open>r = ?n\<close> a
        by (auto simp: region_holds_def new_region_def region_end_def in_range_def)
      from map_fresh [OF ok mp this] show False using a by (auto simp: in_range_def)
    qed
    then show ?thesis using mr(2) r1 by simp
  qed
  then show ?thesis using mr(1) by (simp add: extends_memory_def)
qed

text \<open>The bytes of a segment as they should be in memory: its file bytes, then zeros.\<close>

definition segment_byte :: "bytes \<Rightarrow> Segment \<Rightarrow> nat \<Rightarrow> u8" where
  "segment_byte bs s i = (if i < unat (seg_file_size s) then bs ! (unat (seg_file_offset s) + i) else 0)"

definition segment_loaded :: "bytes \<Rightarrow> u64 \<Rightarrow> bool \<Rightarrow> Segment \<Rightarrow> AddressSpace \<Rightarrow> bool" where
  "segment_loaded bs bias wx s m \<longleftrightarrow>
     (\<forall>i < unat (seg_memory_size s).
        let x = seg_virtual_address s + bias + of_nat i in
        as_byte m x = Some (segment_byte bs s i) \<and>
        as_perm m x = Some (initial_permissions wx (seg_permissions s)))"

lemma segment_loaded_extends:
  "segment_loaded bs bias wx s m \<Longrightarrow> extends_memory m m' \<Longrightarrow> segment_loaded bs bias wx s m'"
  by (auto simp: segment_loaded_def Let_def intro: extends_byte extends_perm)

text \<open>The page-aligned range that a segment is given covers the segment.\<close>

lemma aligned_range:
  fixes address mask :: u64
  defines "aligned \<equiv> address AND NOT mask"
  assumes "checked_add (address - aligned) mem = Some covered"
    and "checked_align_up covered page = Some len"
  shows "unat aligned \<le> unat address" "unat address + unat mem \<le> unat aligned + unat len"
proof -
  have le: "aligned \<le> address" unfolding aligned_def by (rule word_and_le2)
  then show "unat aligned \<le> unat address" by (simp add: word_le_nat_alt)
  have c: "unat covered = unat address - unat aligned + unat mem"
    using add_op.SomeD [OF assms(2)] le by (simp add: unat_minus_bounded)
  have p: "power_of_two page" "unat len = (unat covered + (unat page - 1)) div unat page * unat page"
    using assms(3) by (simp_all add: checked_align_up_Some_iff)
  then have "0 < unat page" by (simp add: power_of_two_def unat_gt_0)
  then have "unat covered \<le> unat len" unfolding p(2) by (rule round_up_bounds)
  then show "unat address + unat mem \<le> unat aligned + unat len"
    using c le by (simp add: word_le_nat_alt)
qed

text \<open>The successful runs of one iteration of the loop.\<close>

lemma load_segment_cases:
  assumes "load_segment limits data bias wx s m = (res, m')"
  obtains (skip) "seg_memory_size s = 0" "res = Inr 0" "m' = m"
  | (refused) e where "res = Inl e" "m' = m"
  | (mapped) address aligned covered len m1 where
      "seg_memory_size s \<noteq> 0"
      "checked_add (seg_virtual_address s) bias = Some address"
      "aligned = address AND NOT (ucast (page_size limits - 1))"
      "checked_add (address - aligned) (seg_memory_size s) = Some covered"
      "checked_align_up covered (ucast (page_size limits)) = Some len"
      "as_map aligned len (initial_permissions wx (seg_permissions s))
         (''segment.'' @ to_string (unat (seg_index s))) m = Inr m1"
      "(\<exists>e. res = Inl e) \<and> m' = m1 \<or>
       res = Inr len \<and> seg_file_size s = 0 \<and> m' = m1 \<or>
       res = Inr len \<and> seg_file_size s \<noteq> 0 \<and> (\<exists>bs. data = Some bs \<and>
         range_inside (seg_file_offset s) (seg_file_size s) (of_nat (length bs)) \<and>
         as_write address (take (unat (seg_file_size s)) (drop (unat (seg_file_offset s)) bs)) True m1 = Inr m')"
proof (cases "seg_memory_size s = 0")
  case True
  then show thesis using assms skip by (simp add: load_segment_def)
next
  case nz: False
  show thesis
  proof (cases "checked_add (seg_virtual_address s) bias")
    case None
    then show thesis using assms nz refused by (auto simp: load_segment_def)
  next
    case (Some address)
    define aligned where "aligned = address AND NOT (ucast (page_size limits - 1))"
    note unf = assms [unfolded load_segment_def, simplified nz Some if_False option.case Let_def, folded aligned_def]
    show thesis
    proof (cases "case checked_add (address - aligned) (seg_memory_size s) of
        None \<Rightarrow> None | Some covered \<Rightarrow> checked_align_up covered (ucast (page_size limits))")
      case None
      then show thesis using unf refused by auto
    next
      case (Some len)
      then obtain covered where cov: "checked_add (address - aligned) (seg_memory_size s) = Some covered"
        "checked_align_up covered (ucast (page_size limits)) = Some len"
        by (auto split: option.splits)
      show thesis
      proof (cases "as_map aligned len (initial_permissions wx (seg_permissions s))
         (''segment.'' @ to_string (unat (seg_index s))) m")
        case (Inl e)
        then show thesis using unf Some refused by auto
      next
        case (Inr m1)
        have "(\<exists>e. res = Inl e) \<and> m' = m1 \<or>
          res = Inr len \<and> seg_file_size s = 0 \<and> m' = m1 \<or>
          res = Inr len \<and> seg_file_size s \<noteq> 0 \<and> (\<exists>bs. data = Some bs \<and>
            range_inside (seg_file_offset s) (seg_file_size s) (of_nat (length bs)) \<and>
            as_write address (take (unat (seg_file_size s)) (drop (unat (seg_file_offset s)) bs)) True m1 = Inr m')"
          using unf Some Inr by (auto split: if_splits option.splits sum.splits)
        then show thesis
          using mapped [OF nz \<open>checked_add (seg_virtual_address s) bias = Some address\<close> aligned_def cov Inr]
          by blast
      qed
    qed
  qed
qed

lemma load_segment_effect:
  assumes ok: "as_ok m" and v: "segment_valid (length bs) s" and d: "length bs < 2 ^ 64"
    and ld: "load_segment limits (Some bs) bias wx s m = (res, m')"
  shows "extends_memory m m' \<and> (\<forall>n. res = Inr n \<longrightarrow> segment_loaded bs bias wx s m')"
  using ld
proof (cases rule: load_segment_cases)
  case skip
  then show ?thesis using ok by (simp add: segment_loaded_def)
next
  case (refused e)
  then show ?thesis using ok by simp
next
  case (mapped address aligned covered len m1)
  have addr: "unat address = unat (seg_virtual_address s) + unat bias" "address = seg_virtual_address s + bias"
    using mapped(2) by (simp_all add: add_op.SomeD) (simp add: checked_add_def split: if_splits)
  note al = aligned_range [OF mapped(4) [unfolded mapped(3)] mapped(5), folded mapped(3)]
  have pos: "0 < unat (seg_memory_size s)" using mapped(1) by (simp add: unat_gt_0)
  have fits: "unat address + unat (seg_memory_size s) \<le> unat aligned + unat len" "unat aligned \<le> unat address"
    using al by simp_all
  have ar: "in_range aligned (unat len) address" using fits pos by (simp add: in_range_def)
  have ext1: "extends_memory m m1" by (rule extends_map [OF ok mapped(6)])
  have ok1: "as_ok m1" by (rule map_effect(1) [OF ok mapped(6)])
  have fsz: "unat (seg_file_size s) \<le> unat (seg_memory_size s)" using v by (simp add: segment_valid_def)
  have be: "unat aligned + unat len < 2 ^ 64" using mapped(6) by (simp add: map_Inr_iff [OF ok])
  have step: "unat (address + of_nat i) = unat address + i" if "i < unat (seg_memory_size s)" for i
  proof -
    have "unat address + i < 18446744073709551616" using that fits be by simp
    moreover from this have "unat (of_nat i :: u64) = i" by (intro unat_of_nat_u64) simp
    ultimately show ?thesis by (subst unat_plus_bounded) simp_all
  qed
  have zeros: "as_byte m1 (address + of_nat i) = Some 0" if "i < unat (seg_memory_size s)" for i
  proof -
    have r: "in_range aligned (unat len) (address + of_nat i)"
      using that fits by (simp add: in_range_def step)
    then have "unat (address + of_nat i - aligned) < unat len"
      by (auto simp: in_range_def unat_minus_bounded word_le_nat_alt)
    then show ?thesis using r
      by (simp add: as_byte_def map_effect(2) [OF ok mapped(6)]) (simp add: new_region_def)
  qed
  have perms: "as_perm m1 (address + of_nat i) = Some (initial_permissions wx (seg_permissions s))"
    if "i < unat (seg_memory_size s)" for i
    using that fits by (simp add: as_perm_def map_effect(2) [OF ok mapped(6)] in_range_def step)
      (simp add: new_region_def)
  let ?src = "take (unat (seg_file_size s)) (drop (unat (seg_file_offset s)) bs)"
  have "unat (seg_file_size s) \<le> length bs - unat (seg_file_offset s)"
    using v unfolding segment_valid_def by linarith
  then have lsrc: "length ?src = unat (seg_file_size s)" by simp
  then have lsrc': "length ?src < 2 ^ 64" using unat_u64_bound [of "seg_file_size s"] by simp
  from mapped(7) consider (err) e where "res = Inl e" "m' = m1"
    | (bss) "res = Inr len" "seg_file_size s = 0" "m' = m1"
    | (data) "res = Inr len" "as_write address ?src True m1 = Inr m'" by auto
  then show ?thesis
  proof cases
    case err
    then show ?thesis using ext1 by simp
  next
    case bss
    then show ?thesis using ext1 zeros perms by (simp add: segment_loaded_def segment_byte_def Let_def flip: addr(2))
  next
    case data
    have ext: "extends_memory m m'" by (rule extends_write_new [OF ok mapped(6) ar data(2) lsrc'])
    have "as_byte m' (address + of_nat i) = Some (segment_byte bs s i)"
      if i: "i < unat (seg_memory_size s)" for i
    proof -
      have "in_range address (length ?src) (address + of_nat i) \<longleftrightarrow> i < unat (seg_file_size s)"
        unfolding lsrc by (simp add: in_range_def step [OF i])
      then show ?thesis
        using v by (simp add: write_effect(2) [OF ok1 data(2) lsrc'] zeros [OF i] step [OF i]
            segment_byte_def segment_valid_def)
    qed
    moreover have "as_perm m' (address + of_nat i) = Some (initial_permissions wx (seg_permissions s))"
      if "i < unat (seg_memory_size s)" for i
      using perms [OF that] write_perm [OF ok1 data(2) lsrc'] by simp
    ultimately show ?thesis using ext by (simp add: segment_loaded_def Let_def flip: addr(2))
  qed
qed

lemma load_segments_effect:
  assumes "length bs < 2 ^ 64"
  shows "as_ok m \<Longrightarrow> \<forall>s \<in> set segs. segment_valid (length bs) s \<Longrightarrow>
    load_segments limits (Some bs) bias wx segs n m = (res, m') \<Longrightarrow>
    extends_memory m m' \<and> ((\<exists>k. res = Inr k) \<longrightarrow> (\<forall>s \<in> set segs. segment_loaded bs bias wx s m'))"
proof (induction segs arbitrary: n m)
  case (Cons s segs)
  obtain r1 m1 where l1: "load_segment limits (Some bs) bias wx s m = (r1, m1)"
    by (cases "load_segment limits (Some bs) bias wx s m")
  have e1: "extends_memory m m1 \<and> (\<forall>k. r1 = Inr k \<longrightarrow> segment_loaded bs bias wx s m1)"
    using Cons.prems by (intro load_segment_effect [OF _ _ assms l1]) auto
  then have ok1: "as_ok m1" by (simp add: extends_memory_def)
  show ?case
  proof (cases r1)
    case (Inl e)
    then show ?thesis using Cons.prems(3) e1 l1 by auto
  next
    case (Inr k)
    then have rest: "load_segments limits (Some bs) bias wx segs (n + k) m1 = (res, m')"
      using Cons.prems(3) l1 by simp
    have "extends_memory m1 m' \<and> ((\<exists>k. res = Inr k) \<longrightarrow> (\<forall>s \<in> set segs. segment_loaded bs bias wx s m'))"
      using Cons.prems(2) by (intro Cons.IH [OF ok1 _ rest]) simp
    then show ?thesis using e1 Inr extends_trans segment_loaded_extends by auto
  qed
qed auto

section \<open>Relocations and imports in memory\<close>

text \<open>The addresses that relocations and import slots may change.\<close>

definition relocation_span :: "Relocation \<Rightarrow> nat" where
  "relocation_span rel =
     (if rel_kind rel = high16 \<or> rel_kind rel = low16 then 2 else unat (relocation_width rel))"

definition relocated :: "BinaryImage \<Rightarrow> u64 \<Rightarrow> u64 \<Rightarrow> bool" where
  "relocated img bias x \<longleftrightarrow>
     (\<exists>rel \<in> set (img_relocations img). in_range (rel_offset rel + bias) (relocation_span rel) x)"

definition import_slot :: "BinaryImage \<Rightarrow> u64 \<Rightarrow> u64 \<Rightarrow> bool" where
  "import_slot img bias x \<longleftrightarrow>
     (\<exists>imp \<in> set (img_imports img). in_range (imp_slot_address imp + bias)
        (unat (word_size_bytes (hdr_word_size (img_header img)))) x)"

text \<open>\<open>changes_only P m m'\<close>: same mapped addresses and permissions, same bytes outside \<open>P\<close>.\<close>

definition changes_only :: "(u64 \<Rightarrow> bool) \<Rightarrow> AddressSpace \<Rightarrow> AddressSpace \<Rightarrow> bool" where
  "changes_only P m m' \<longleftrightarrow> as_ok m' \<and> (\<forall>x. as_perm m' x = as_perm m x) \<and>
     (\<forall>x. \<not> P x \<longrightarrow> as_byte m' x = as_byte m x)"

lemma changes_refl [simp]: "as_ok m \<Longrightarrow> changes_only P m m"
  by (simp add: changes_only_def)

lemma changes_trans: "changes_only P m m1 \<Longrightarrow> changes_only P m1 m2 \<Longrightarrow> changes_only P m m2"
  by (simp add: changes_only_def)

lemma changes_mono: "changes_only P m m' \<Longrightarrow> (\<And>x. P x \<Longrightarrow> Q x) \<Longrightarrow> changes_only Q m m'"
  by (auto simp: changes_only_def)

lemma changes_ok: "changes_only P m m' \<Longrightarrow> as_ok m'"
  by (simp add: changes_only_def)

lemma changes_write_integer:
  "as_ok m \<Longrightarrow> as_write_integer a width order v ign m = Inr m' \<Longrightarrow>
   changes_only (in_range a (unat width)) m m'"
  by (simp add: changes_only_def write_integer_effect)

lemma checked_add_plus: "checked_add a b = Some c \<Longrightarrow> c = a + b"
  by (simp add: checked_add_def split: if_splits)

lemma relocation_value_span:
  "relocation_value rel bias sv target (relocation_width rel) = store_value v w \<Longrightarrow>
   unat w = relocation_span rel"
  by (auto simp: relocation_value_def relocation_span_def split: RelocationKind.splits)

lemma apply_one_cases:
  assumes "apply_one rel img bias resolver m = Inr m'"
  obtains (nothing) "m' = m"
  | (stored) target sv v w where
      "checked_add (rel_offset rel) bias = Some target"
      "relocation_symbol rel img bias resolver target = Inr sv"
      "relocation_value rel bias sv target (relocation_width rel) = store_value v w"
      "\<not> (w < 8 \<and> v \<ge> push_bit (unat w * 8) 1)"
      "as_write_integer target w (hdr_byte_order (img_header img)) v True m = Inr m'"
  using assms
  by (auto simp: apply_one_def split: option.splits sum.splits relocation_action.splits if_splits)

lemma apply_one_changes:
  assumes ok: "as_ok m" and ap: "apply_one rel img bias resolver m = Inr m'"
  shows "changes_only (in_range (rel_offset rel + bias) (relocation_span rel)) m m'"
  using ap
proof (cases rule: apply_one_cases)
  case (stored target sv v w)
  then show ?thesis
    using changes_write_integer [OF ok stored(5)] relocation_value_span [OF stored(3)]
      checked_add_plus [OF stored(1)] by simp
qed (use ok in simp)

lemma apply_loop_changes:
  "as_ok m \<Longrightarrow> set rels \<subseteq> set (img_relocations img) \<Longrightarrow>
   apply_relocations_loop rels img bias resolver n m = (res, k, m') \<Longrightarrow>
   changes_only (relocated img bias) m m'"
proof (induction rels arbitrary: n m)
  case (Cons rel rels)
  show ?case
  proof (cases "apply_one rel img bias resolver m")
    case (Inl e)
    then show ?thesis using Cons.prems by simp
  next
    case (Inr m1)
    have "changes_only (relocated img bias) m m1"
      by (rule changes_mono [OF apply_one_changes [OF Cons.prems(1) Inr]])
        (use Cons.prems(2) in \<open>auto simp: relocated_def\<close>)
    moreover from this have "changes_only (relocated img bias) m1 m'"
      using Cons.prems Inr by (intro Cons.IH) (auto dest: changes_ok)
    ultimately show ?thesis by (rule changes_trans)
  qed
qed simp

lemma apply_relocations_changes:
  "as_ok m \<Longrightarrow> apply_relocations limits img bias resolver m = (res, k, m') \<Longrightarrow>
   changes_only (relocated img bias) m m'"
  by (auto simp: apply_relocations_def split: if_splits intro: apply_loop_changes)

lemma load_imports_changes:
  "as_ok m \<Longrightarrow> set imps \<subseteq> set (img_imports img) \<Longrightarrow>
   load_imports img bias resolver e imps n m = (res, m') \<Longrightarrow>
   changes_only (import_slot img bias) m m'"
proof (induction imps arbitrary: n m)
  case (Cons imp imps)
  from Cons.prems(3) consider "m' = m" | k where "load_imports img bias resolver e imps k m = (res, m')"
    | k slot target m1 where "checked_add (imp_slot_address imp) bias = Some slot"
        "as_write_integer slot (word_size_bytes (hdr_word_size (img_header img)))
            (hdr_byte_order (img_header img)) target True m = Inr m1"
        "load_imports img bias resolver e imps k m1 = (res, m')"
    by (auto split: option.splits if_splits sum.splits)
  then show ?case
  proof cases
    case 3
    have "changes_only (import_slot img bias) m m1"
      by (rule changes_mono [OF changes_write_integer [OF Cons.prems(1) 3(2)]])
        (use Cons.prems(2) checked_add_plus [OF 3(1)] in \<open>auto simp: import_slot_def\<close>)
    moreover from this have "changes_only (import_slot img bias) m1 m'"
      using Cons.prems(2) 3(3) by (intro Cons.IH) (auto dest: changes_ok)
    ultimately show ?thesis by (rule changes_trans)
  qed (use Cons in auto)
qed simp

section \<open>The whole load\<close>

definition load_touches :: "BinaryImage \<Rightarrow> u64 \<Rightarrow> u64 \<Rightarrow> bool" where
  "load_touches img bias x \<longleftrightarrow> relocated img bias x \<or> import_slot img bias x"

lemma load_stages:
  assumes ok: "as_ok m" and d: "img_file_data img = Some bs" "length bs < 2 ^ 64"
    and ld: "load limits img options resolver e m = (res, m')"
  defines "bias \<equiv> load_bias options img"
  obtains m1 where "extends_memory m m1" "changes_only (load_touches img bias) m1 m'"
    "\<And>r s. res = Inr r \<Longrightarrow> s \<in> set (img_segments img) \<Longrightarrow>
       segment_loaded bs bias (opt_enforce_wx options) s m1"
proof (cases "rep_valid (validate limits img)")
  case False
  then have "m' = m" "\<nexists>r. res = Inr r" using ld by (auto simp: load_def Let_def)
  then show thesis using that [of m] ok by auto
next
  case True
  then have valid: "\<forall>s \<in> set (img_segments img). segment_valid (length bs) s"
    using validate_iff [of img limits] d by (auto simp: image_valid_def)
  obtain r1 m1 where l1: "load_segments limits (Some bs) bias (opt_enforce_wx options)
      (img_segments img) 0 m = (r1, m1)"
    by (cases "load_segments limits (Some bs) bias (opt_enforce_wx options) (img_segments img) 0 m")
  have e1: "extends_memory m m1 \<and> ((\<exists>k. r1 = Inr k) \<longrightarrow>
      (\<forall>s \<in> set (img_segments img). segment_loaded bs bias (opt_enforce_wx options) s m1))"
    by (rule load_segments_effect [OF d(2) ok valid l1])
  then have ok1: "as_ok m1" by (simp add: extends_memory_def)
  note unf = ld [unfolded load_def Let_def, folded bias_def, simplified True d(1) l1 not_True_eq_False if_False]
  show thesis
  proof (cases r1)
    case (Inl e)
    then have "m' = m1" "\<nexists>r. res = Inr r" using unf by auto
    then show thesis using that [of m1] e1 ok1 by auto
  next
    case (Inr k)
    define rel where "rel = (if opt_apply_relocations options
      then apply_relocations limits img bias resolver m1 else (Inr (), 0, m1))"
    obtain r2 k2 m2 where r2: "rel = (r2, k2, m2)" by (cases rel)
    have c2: "changes_only (load_touches img bias) m1 m2"
    proof (cases "opt_apply_relocations options")
      case True
      then have "apply_relocations limits img bias resolver m1 = (r2, k2, m2)" using r2 rel_def by simp
      from apply_relocations_changes [OF ok1 this] show ?thesis
        by (rule changes_mono) (simp add: load_touches_def)
    qed (use r2 rel_def ok1 in simp)
    then have ok2: "as_ok m2" by (rule changes_ok)
    define imp where "imp = (if opt_resolve_imports options
      then load_imports img bias resolver e (img_imports img) 0 m2 else (Inr 0, m2))"
    obtain r3 m3 where r3: "imp = (r3, m3)" by (cases imp)
    have "changes_only (load_touches img bias) m2 m3"
    proof (cases "opt_resolve_imports options")
      case True
      then have "load_imports img bias resolver e (img_imports img) 0 m2 = (r3, m3)" using r3 imp_def by simp
      from load_imports_changes [OF ok2 subset_refl this] show ?thesis
        by (rule changes_mono) (simp add: load_touches_def)
    qed (use r3 imp_def ok2 in simp)
    then have c3: "changes_only (load_touches img bias) m1 m3" using c2 changes_trans by blast
    have "m' = m2 \<or> m' = m3"
      using unf unfolding Inr
      by (auto simp: rel_def [symmetric] r2 imp_def [symmetric] r3 split: sum.splits)
    then show thesis using that [of m1] e1 Inr c2 c3 by auto
  qed
qed

section \<open>Properties\<close>

text \<open>A small image loaded beside an existing mapping, for the witnesses.\<close>

lemma demo_load:
  obtains result m' where
    "load demo_limits demo_image default_load_options None no_error demo_space = (Inr result, m')"
proof -
  have "\<not> isl (fst (load demo_limits demo_image default_load_options None no_error demo_space))"
    by code_simp
  then show thesis using that
    by (cases "load demo_limits demo_image default_load_options None no_error demo_space")
      (auto simp: isl_def split: sum.splits intro: sum.exhaust)
qed

lemma demo_image_facts:
  "img_file_data demo_image = Some [1, 2, 3, 4, 5, 6, 7, 8]"
  "length [1, 2, 3, 4, 5, 6, 7, 8 :: u8] < 2 ^ 64"
  "load_bias default_load_options demo_image = 0" "\<not> load_touches demo_image b x"
  by (simp_all add: demo_image_def load_bias_def target_base_def default_load_options_def
      load_touches_def relocated_def import_slot_def empty_image_def)

text \<open>
  C1. Loading puts every segment in memory: after a successful \<open>load\<close>, the \<open>i\<close>-th byte of a
  segment at its virtual address plus the bias is the \<open>i\<close>-th byte of its file range, or zero past
  the end of that range, unless a relocation or an import slot covers the address; and every
  byte that was mapped before is still there, unless a relocation or an import slot covers it.
\<close>

theorem load_contents:
  assumes "as_ok m" "img_file_data img = Some bs" "length bs < 2 ^ 64"
    and "load limits img options resolver e m = (Inr result, m')"
  shows "\<forall>x. \<not> load_touches img (load_bias options img) x \<longrightarrow>
    (\<forall>s \<in> set (img_segments img). \<forall>i < unat (seg_memory_size s).
       x = seg_virtual_address s + load_bias options img + of_nat i \<longrightarrow>
       as_byte m' x = Some (segment_byte bs s i)) \<and>
    (\<forall>v. as_byte m x = Some v \<longrightarrow> as_byte m' x = Some v)"
proof -
  obtain m1 where m1: "extends_memory m m1" "changes_only (load_touches img (load_bias options img)) m1 m'"
    "\<And>s. s \<in> set (img_segments img) \<Longrightarrow>
       segment_loaded bs (load_bias options img) (opt_enforce_wx options) s m1"
    using load_stages [OF assms] by metis
  have seg: "as_byte m1 (seg_virtual_address s + load_bias options img + of_nat i) =
      Some (segment_byte bs s i)"
    if "s \<in> set (img_segments img)" "i < unat (seg_memory_size s)" for s i
    using m1(3) [OF that(1)] that(2) by (simp add: segment_loaded_def Let_def)
  show ?thesis using m1(1,2) seg extends_byte by (auto simp: changes_only_def)
qed

theorem load_contents_witness:
  "\<exists>result m'. load demo_limits demo_image default_load_options None no_error demo_space = (Inr result, m') \<and>
     as_byte m' 0x400012 = Some 7 \<and> as_byte m' 0x400016 = Some 0 \<and> as_byte m' 0x1000 = Some 0"
proof -
  obtain result m' where ld:
    "load demo_limits demo_image default_load_options None no_error demo_space = (Inr result, m')"
    by (rule demo_load)
  note lc = load_contents [OF demo_space_ok demo_image_facts(1,2) ld, rule_format,
      OF demo_image_facts(4), unfolded demo_image_facts(3)]
  let ?s = "hd (img_segments demo_image)"
  have s: "?s \<in> set (img_segments demo_image)" "unat (seg_memory_size ?s) = 8"
    "seg_virtual_address ?s = 0x400010" "seg_file_size ?s = 4" "seg_file_offset ?s = 4"
    by (simp_all add: demo_image_def)
  have at: "as_byte m' (0x400010 + of_nat i) = Some (segment_byte [1, 2, 3, 4, 5, 6, 7, 8] ?s i)"
    if "i < 8" for i
    using conjunct1 [OF lc] s(1-3) that by fastforce
  have "as_byte demo_space 0x1000 = Some 0" by code_simp
  then have "as_byte m' 0x1000 = Some 0" using conjunct2 [OF lc] by blast
  moreover have "as_byte m' 0x400012 = Some 7" "as_byte m' 0x400016 = Some 0"
    using at [of 2] at [of 6] by (simp_all add: segment_byte_def s)
  ultimately show ?thesis using ld by blast
qed

text \<open>
  Loading is safe for the memory it is given: whatever its outcome, the address space stays
  well formed, and no address that was mapped before loses its mapping, its permissions or, outside
  relocation targets and import slots, its byte.
\<close>

theorem load_frame:
  assumes "as_ok m" "img_file_data img = Some bs" "length bs < 2 ^ 64"
    and "load limits img options resolver e m = (res, m')"
  shows "as_ok m' \<and>
    (\<forall>x p. as_perm m x = Some p \<longrightarrow> as_perm m' x = Some p) \<and>
    (\<forall>x v. \<not> load_touches img (load_bias options img) x \<longrightarrow> as_byte m x = Some v \<longrightarrow> as_byte m' x = Some v)"
proof -
  obtain m1 where m1: "extends_memory m m1" "changes_only (load_touches img (load_bias options img)) m1 m'"
    using load_stages [OF assms] by metis
  then show ?thesis
    using extends_byte [OF m1(1)] extends_perm [OF m1(1)] by (auto simp: changes_only_def)
qed

theorem load_frame_witness:
  "\<exists>res m'. load demo_limits demo_image default_load_options None no_error demo_space = (res, m') \<and>
     as_ok m' \<and> as_perm m' 0x1003 = Some 3"
proof -
  obtain res m' where ld:
    "load demo_limits demo_image default_load_options None no_error demo_space = (res, m')"
    by (cases "load demo_limits demo_image default_load_options None no_error demo_space")
  have "as_perm demo_space 0x1003 = Some 3" by code_simp
  then show ?thesis using load_frame [OF demo_space_ok demo_image_facts(1,2) ld] ld by blast
qed

text \<open>
  C11. Write-xor-execute holds after a load that enforces it, but at the cost of execution: every
  address of every segment is writable and none is executable, also those of a segment that asks
  for read and execute only, because the write permission the loader adds for its own writes is
  never taken away again.
\<close>

lemma permission_bits:
  "(p :: u8) AND permission_write = 0 \<longleftrightarrow> \<not> bit p 1" "p AND permission_execute = 0 \<longleftrightarrow> \<not> bit p 2"
  using and_exp_eq_0_iff_not_bit [of p 1] and_exp_eq_0_iff_not_bit [of p 2]
  by (simp_all add: permission_defs)

lemma initial_permissions_wx:
  "initial_permissions True perms AND permission_write \<noteq> 0 \<and>
   initial_permissions True perms AND permission_execute = 0"
proof -
  have b: "bit permission_write n \<longleftrightarrow> n = 1" "bit permission_execute n \<longleftrightarrow> n = 2" for n
    using bit_exp_iff [of 1 n, where 'a = u8] bit_exp_iff [of 2 n, where 'a = u8]
    by (auto simp: permission_defs)
  show ?thesis
    by (simp add: initial_permissions_def Let_def permission_bits bit_or_iff bit_and_iff bit_not_iff b)
qed

theorem load_wx:
  assumes "as_ok m" "img_file_data img = Some bs" "length bs < 2 ^ 64" "opt_enforce_wx options"
    and "load limits img options resolver e m = (Inr result, m')"
    and "s \<in> set (img_segments img)" "i < unat (seg_memory_size s)"
  shows "\<exists>p. as_perm m' (seg_virtual_address s + load_bias options img + of_nat i) = Some p \<and>
    p AND permission_write \<noteq> 0 \<and> p AND permission_execute = 0"
proof -
  obtain m1 where m1: "changes_only (load_touches img (load_bias options img)) m1 m'"
    "segment_loaded bs (load_bias options img) True s m1"
    using load_stages [OF assms(1-3,5)] assms(4,6) by metis
  have "as_perm m' (seg_virtual_address s + load_bias options img + of_nat i) =
      Some (initial_permissions True (seg_permissions s))"
    using m1 assms(7) by (simp add: changes_only_def segment_loaded_def Let_def)
  then show ?thesis using initial_permissions_wx by blast
qed

theorem load_wx_witness:
  "\<exists>result m' p. load demo_limits demo_image default_load_options None no_error demo_space = (Inr result, m') \<and>
     as_perm m' 0x400010 = Some p \<and> p AND permission_execute = 0"
proof -
  obtain result m' where ld:
    "load demo_limits demo_image default_load_options None no_error demo_space = (Inr result, m')"
    by (rule demo_load)
  have wx: "opt_enforce_wx default_load_options" by (simp add: default_load_options_def)
  have "hd (img_segments demo_image) \<in> set (img_segments demo_image)" by (simp add: demo_image_def)
  note this' = this
  have s: "unat (seg_memory_size (hd (img_segments demo_image))) = 8"
    "seg_virtual_address (hd (img_segments demo_image)) = 0x400010" by (simp_all add: demo_image_def)
  show ?thesis
    using load_wx [OF demo_space_ok demo_image_facts(1,2) wx ld this', of 0] ld
    by (simp add: s demo_image_facts(3)) blast
qed

text \<open>
  Moving an image below the address it was linked for never works: if the preferred base is
  lower than the original base and the image has a segment with memory at or above the original
  base, the load fails, because the modular bias is added with the overflow-checking addition.
\<close>

lemma load_segments_refused:
  assumes "seg \<in> set segs" "\<And>m. \<exists>e. load_segment limits data bias wx seg m = (Inl e, m)"
  shows "\<exists>e m'. load_segments limits data bias wx segs n m = (Inl e, m')"
  using assms
proof (induction segs arbitrary: n m)
  case (Cons s segs)
  show ?case
  proof (cases "seg = s")
    case True
    then show ?thesis using Cons.prems(2) [of m] by auto
  next
    case False
    then show ?thesis
      using Cons.IH [OF _ Cons.prems(2)] Cons.prems(1)
      by (auto split: prod.split sum.split)
  qed
qed simp

theorem no_rebase_below:
  assumes "opt_preferred_base options \<noteq> 0" "opt_preferred_base options < original_base img"
    and "seg \<in> set (img_segments img)" "seg_memory_size seg \<noteq> 0"
    and "original_base img \<le> seg_virtual_address seg"
  shows "\<exists>err m'. load limits img options resolver e m = (Inl err, m')"
proof -
  let ?b = "load_bias options img"
  have "\<not> unat (seg_virtual_address seg) + unat ?b < 2 ^ 64"
  proof -
    have "?b = opt_preferred_base options - original_base img"
      using assms(1) by (simp add: load_bias_def target_base_def)
    moreover have "unat (opt_preferred_base options - original_base img) =
        18446744073709551616 + unat (opt_preferred_base options) - unat (original_base img)"
      using assms(2) by (simp add: unat_sub_if_size word_size word_less_nat_alt word_le_nat_alt)
    ultimately show ?thesis
      using assms(5) unat_u64_bound [of "original_base img"] by (simp add: word_le_nat_alt)
  qed
  then have "checked_add (seg_virtual_address seg) ?b = None" by (simp add: add_op.None_iff)
  then have "\<exists>e. load_segment limits (img_file_data img) ?b (opt_enforce_wx options) seg m = (Inl e, m)" for m
    using assms(4) by (simp add: load_segment_def)
  from load_segments_refused [OF assms(3) this, of 0 m]
  obtain err m' where "load_segments limits (img_file_data img) ?b (opt_enforce_wx options)
      (img_segments img) 0 m = (Inl err, m')" by blast
  then show ?thesis by (auto simp: load_def Let_def)
qed

theorem no_rebase_below_witness:
  "\<exists>err m'. load demo_limits demo_image (default_load_options\<lparr>opt_preferred_base := 0x400000\<rparr>) None
     no_error demo_space = (Inl err, m')"
  by (rule no_rebase_below [of _ _ "hd (img_segments demo_image)"])
    (simp_all add: demo_image_def default_load_options_def original_base_def empty_image_def empty_header_def)

text \<open>
  C12. A relocation that is applied stores its full value: the bytes at the target are the
  integer bytes of the computed value in the byte order of the image, nothing of the value is
  cut off, and no other byte changes.
\<close>

lemma value_fits:
  assumes "integer_width w" "\<not> (w < 8 \<and> v \<ge> push_bit (unat w * 8) (1 :: u64))"
  shows "take_bit (8 * unat w) v = v"
proof (cases "w = 8")
  case True
  then show ?thesis by (intro bit_word_eqI) (simp add: bit_take_bit_iff)
next
  case False
  then have w: "w = 1 \<or> w = 2 \<or> w = 4" using assms(1) by (simp add: integer_width_def)
  then have lt: "v < push_bit (unat w * 8) 1" using assms(2) by auto
  have "unat w * 8 < 64" using w by auto
  then have "unat (push_bit (unat w * 8) (1 :: u64)) = 2 ^ (unat w * 8)"
    by (simp only: push_bit_of_1) (rule unat_power2, simp)
  then have "unat v < 2 ^ (8 * unat w)" using lt by (simp add: word_less_nat_alt mult.commute)
  then have "take_bit (8 * unat w) (unat v) = unat v" by (rule take_bit_nat_eq_self)
  then show ?thesis by (simp add: word_unat_eq_iff unsigned_take_bit_eq)
qed

theorem relocation_stores_value:
  assumes "as_ok m" "checked_add (rel_offset rel) bias = Some target"
    and "relocation_symbol rel img bias resolver target = Inr sv"
    and "relocation_value rel bias sv target (relocation_width rel) = store_value v w"
    and "apply_one rel img bias resolver m = Inr m'"
  shows "ordered_value (hdr_byte_order (img_header img))
      (map (\<lambda>i. the (as_byte m' (target + of_nat i))) [0..<unat w]) = v \<and>
    changes_only (in_range target (unat w)) m m'"
proof -
  let ?o = "hdr_byte_order (img_header img)"
  have fit: "\<not> (w < 8 \<and> v \<ge> push_bit (unat w * 8) 1)"
    and wr: "as_write_integer target w ?o v True m = Inr m'"
    using assms(2-5) by (auto simp: apply_one_def split: if_splits)
  note eff = write_integer_effect [OF assms(1) wr]
  have "map (\<lambda>i. the (as_byte m' (target + of_nat i))) [0..<unat w] = integer_bytes w ?o v"
    by (rule write_integer_bytes_at [OF assms(1) wr])
  then have "ordered_value ?o (map (\<lambda>i. the (as_byte m' (target + of_nat i))) [0..<unat w]) = v"
    using value_fits [OF eff(1) fit] by (simp add: ordered_value_integer_bytes)
  then show ?thesis using changes_write_integer [OF assms(1) wr] by simp
qed

definition demo_relocation :: "RelocationKind \<Rightarrow> Relocation" where
  "demo_relocation kind = \<lparr>rel_index = 0, rel_kind = kind, rel_target_section = 0,
     rel_symbol_index = 0, rel_offset = 0x1000, rel_addend = 0x01020304, rel_width = 0\<rparr>"

theorem relocation_stores_value_witness:
  "\<exists>m'. apply_one (demo_relocation absolute32) empty_image 0 None demo_space = Inr m' \<and>
     ordered_value little (map (\<lambda>i. the (as_byte m' (0x1000 + of_nat i))) [0..<4]) = (0x01020304 :: u64)"
proof -
  let ?r = "demo_relocation absolute32"
  have "\<not> isl (apply_one ?r empty_image 0 None demo_space)" by code_simp
  then obtain m' where ap: "apply_one ?r empty_image 0 None demo_space = Inr m'"
    by (cases "apply_one ?r empty_image 0 None demo_space") auto
  have 1: "checked_add (rel_offset ?r) 0 = Some 0x1000" by code_simp
  have 2: "relocation_symbol ?r empty_image 0 None 0x1000 = Inr 0" by code_simp
  have 3: "relocation_value ?r 0 0 0x1000 (relocation_width ?r) = store_value 0x01020304 4" by code_simp
  show ?thesis
    using relocation_stores_value [OF demo_space_ok 1 2 3 ap] ap
    by (simp add: empty_image_def empty_header_def)
qed

text \<open>
  A 32-bit PC-relative relocation works forwards only: if the symbol plus the addend lies
  below the target, the displacement is negative and every such relocation is refused, although
  its two's complement would fit the field.
\<close>

theorem pc_relative_backward_refused:
  assumes "rel_kind rel = pc_relative32" "rel_width rel = 0 \<or> rel_width rel = 4"
    and "checked_add (rel_offset rel) bias = Some target"
    and "relocation_symbol rel img bias resolver target = Inr sv"
    and "sv + rel_addend rel < target" "unat target - unat (sv + rel_addend rel) \<le> 2 ^ 31"
  shows "apply_one rel img bias resolver m =
    Inl (mk_error address_overflow target ''relocation result does not fit'')"
proof -
  let ?d = "sv + rel_addend rel"
  have w: "relocation_width rel = 4" using assms(1,2) by (auto simp: relocation_width_def)
  have "unat (?d - target) = 18446744073709551616 + unat ?d - unat target"
    using assms(5) by (simp add: unat_sub_if_size word_size word_less_nat_alt)
  then have "4294967296 \<le> unat (?d - target)"
    using assms(5,6) by (simp add: word_less_nat_alt)
  then have "?d - target \<ge> push_bit (unat (4 :: u8) * 8) 1" by (simp add: word_le_nat_alt)
  moreover have "relocation_value rel bias sv target 4 = store_value (?d - target) 4"
    using assms(1) by (simp add: relocation_value_def)
  ultimately show ?thesis using assms(3,4) w by (simp add: apply_one_def)
qed

theorem pc_relative_backward_refused_witness:
  "apply_one ((demo_relocation pc_relative32)\<lparr>rel_addend := 4\<rparr>) demo_image 0x1000 None demo_space =
     Inl (mk_error address_overflow 0x2000 ''relocation result does not fit'')"
proof -
  let ?r = "(demo_relocation pc_relative32)\<lparr>rel_addend := 4\<rparr>"
  have 1: "checked_add (rel_offset ?r) 0x1000 = Some 0x2000" by code_simp
  have 2: "relocation_symbol ?r demo_image 0x1000 None 0x2000 = Inr 0" by code_simp
  show ?thesis
    by (rule pc_relative_backward_refused [OF _ _ 1 2]) (simp_all add: demo_relocation_def)
qed

end
