(* ===== verification/Patch_Engine.thy ===== *)
theory Patch_Engine
  imports Address_Space
begin

unbundle bit_operations_syntax

text \<open>
  \<open>PatchEngine\<close> of \<open>src/patch_engine.cc\<close>: plans of memory edits, their validation against an
  address space, their transactional application with an undo log.
\<close>

section \<open>Plans\<close>

datatype PatchOperationKind =
  write_bytes | fill_bytes | write_integer | copy_bytes | assert_bytes

record PatchOperation =
  pop_kind :: PatchOperationKind
  pop_address :: u64
  pop_source :: u64
  pop_length :: u64
  pop_integer :: u64
  pop_width :: u8
  pop_fill :: u8
  pop_order :: ByteOrder
  pop_bytes :: bytes

record PatchPlan =
  plan_name :: string
  plan_expected_checksum :: u32
  plan_operations :: "PatchOperation list"
  plan_bytes_written :: u64

record PatchResult =
  pres_operations_applied :: u32
  pres_bytes_written :: u64
  pres_checksum :: u32

text \<open>\<open>operation_size\<close>: whether the size is acceptable, and the size it computed either way.\<close>

definition operation_size :: "PatchOperation \<Rightarrow> bool \<times> u64" where
  "operation_size op =
    (case pop_kind op of
       write_bytes \<Rightarrow> let n = of_nat (length (pop_bytes op)) in (pop_length op = 0 \<or> pop_length op = n, n)
     | assert_bytes \<Rightarrow> let n = of_nat (length (pop_bytes op)) in (pop_length op = 0 \<or> pop_length op = n, n)
     | fill_bytes \<Rightarrow> (True, pop_length op)
     | copy_bytes \<Rightarrow> (True, pop_length op)
     | write_integer \<Rightarrow>
         let n = ucast (pop_width op) in (n = 1 \<or> n = 2 \<or> n = 4 \<or> n = 8, n))"

definition memory_checksum :: "AddressSpace \<Rightarrow> u32" where
  "memory_checksum m =
     foldl (\<lambda>combined item.
        combined XOR (crc32 (reg_bytes (snd item)) + 0x9e3779b9 + push_bit 6 combined + drop_bit 2 combined))
      0 (as_regions m)"

section \<open>Validation\<close>

definition range_mapped :: "AddressSpace \<Rightarrow> u64 \<Rightarrow> u64 \<Rightarrow> bool" where
  "range_mapped m address len =
     (case as_region_at m address of None \<Rightarrow> False | Some region \<Rightarrow> region_contains region address len)"

definition validate_operation :: "Limits \<Rightarrow> AddressSpace \<Rightarrow> nat \<Rightarrow> u64 \<Rightarrow> PatchOperation \<Rightarrow> Error + u64" where
  \<comment> \<open>one iteration of the loop; yields the new count of written bytes\<close>
  "validate_operation limits m index total_written op =
    (let (ok, len) = operation_size op in
     if \<not> ok \<or> len = 0
     then Inl (mk_error invalid_relocation (of_nat index) ''patch operation has an invalid size'')
     else if checked_add (pop_address op) len = None
     then Inl (mk_error address_overflow (pop_address op) ''patch destination range overflows'')
     else if \<not> range_mapped m (pop_address op) len
     then Inl (mk_error mapping_missing (pop_address op) ''patch destination is not fully mapped'')
     else if pop_kind op = copy_bytes \<and> checked_add (pop_source op) len = None
     then Inl (mk_error address_overflow (pop_source op) ''patch source range overflows'')
     else if pop_kind op = copy_bytes \<and> \<not> range_mapped m (pop_source op) len
     then Inl (mk_error mapping_missing (pop_source op) ''patch source is not fully mapped'')
     else if pop_kind op \<noteq> assert_bytes
     then (case checked_add total_written len of
             None \<Rightarrow> Inl (mk_error resource_limit (pop_address op) ''patch write-byte limit exceeded'')
           | Some next_total \<Rightarrow>
               if next_total > max_mapped_bytes limits
               then Inl (mk_error resource_limit (pop_address op) ''patch write-byte limit exceeded'')
               else Inr next_total)
     else Inr total_written)"

fun validate_operations ::
    "Limits \<Rightarrow> AddressSpace \<Rightarrow> nat \<Rightarrow> u64 \<Rightarrow> PatchOperation list \<Rightarrow> Error + u64" where
  "validate_operations limits m index total_written [] = Inr total_written"
| "validate_operations limits m index total_written (op # rest) =
    (case validate_operation limits m index total_written op of
       Inl e \<Rightarrow> Inl e
     | Inr next_total \<Rightarrow> validate_operations limits m (index + 1) next_total rest)"

definition patch_validate :: "Limits \<Rightarrow> PatchPlan \<Rightarrow> AddressSpace \<Rightarrow> Error + unit" where
  "patch_validate limits plan m =
    (if length (plan_operations plan) > unat (max_relocations limits)
     then Inl (mk_error resource_limit 0 ''patch operation limit exceeded'')
     else case validate_operations limits m 0 0 (plan_operations plan) of
       Inl e \<Rightarrow> Inl e
     | Inr total_written \<Rightarrow>
         if plan_bytes_written plan \<noteq> 0 \<and> plan_bytes_written plan \<noteq> total_written
         then Inl (mk_error invalid_relocation 0 ''patch declared write count does not match operations'')
         else Inr ())"

section \<open>Application\<close>

text \<open>The undo log, most recent entry first: the order \<open>rbegin\<close> to \<open>rend\<close> walks it.\<close>

type_synonym undo_log = "(u64 \<times> bytes) list"

fun roll_back :: "undo_log \<Rightarrow> AddressSpace \<Rightarrow> AddressSpace" where
  "roll_back [] m = m"
| "roll_back ((address, bs) # rest) m =
     roll_back rest (case as_write address bs True m of Inl _ \<Rightarrow> m | Inr m' \<Rightarrow> m')"

definition perform :: "PatchOperation \<Rightarrow> u64 \<Rightarrow> AddressSpace \<Rightarrow> Error + AddressSpace" where
  \<comment> \<open>the \<open>switch\<close> that edits the memory; an assertion never gets there\<close>
  "perform op len m =
    (case pop_kind op of
       write_bytes \<Rightarrow> as_write (pop_address op) (pop_bytes op) True m
     | fill_bytes \<Rightarrow> as_write (pop_address op) (replicate (unat len) (pop_fill op)) True m
     | write_integer \<Rightarrow>
         as_write_integer (pop_address op) (pop_width op) (pop_order op) (pop_integer op) True m
     | copy_bytes \<Rightarrow>
         (case as_read m (pop_source op) len of
            Inl e \<Rightarrow> Inl e
          | Inr copied \<Rightarrow> as_write (pop_address op) copied True m)
     | assert_bytes \<Rightarrow> Inl no_error)"

fun apply_operations ::
    "PatchOperation list \<Rightarrow> undo_log \<Rightarrow> PatchResult \<Rightarrow> AddressSpace \<Rightarrow>
     (Error + PatchResult) \<times> AddressSpace" where
  "apply_operations [] undo result m = (Inr result, m)"
| "apply_operations (op # rest) undo result m =
    (let len = snd (operation_size op) in
     case as_read m (pop_address op) len of
       Inl e \<Rightarrow> (Inl e, roll_back undo m)
     | Inr prior \<Rightarrow>
         if pop_kind op = assert_bytes
         then if prior \<noteq> pop_bytes op
           then (Inl (mk_error invalid_header (pop_address op) ''patch byte assertion failed''),
                 roll_back undo m)
           else apply_operations rest undo
                  (result\<lparr>pres_operations_applied := pres_operations_applied result + 1\<rparr>) m
         else
           let undo' = (pop_address op, prior) # undo in
           case perform op len m of
             Inl e \<Rightarrow> (Inl e, roll_back undo' m)
           | Inr m' \<Rightarrow>
               apply_operations rest undo'
                 (result\<lparr>pres_operations_applied := pres_operations_applied result + 1,
                         pres_bytes_written := pres_bytes_written result + len\<rparr>) m')"

definition empty_result :: PatchResult where
  "empty_result = \<lparr>pres_operations_applied = 0, pres_bytes_written = 0, pres_checksum = 0\<rparr>"

definition patch_apply :: "Limits \<Rightarrow> PatchPlan \<Rightarrow> AddressSpace \<Rightarrow> (Error + PatchResult) \<times> AddressSpace" where
  "patch_apply limits plan m =
    (case patch_validate limits plan m of
       Inl e \<Rightarrow> (Inl e, m)
     | Inr _ \<Rightarrow>
         if plan_expected_checksum plan \<noteq> 0 \<and> memory_checksum m \<noteq> plan_expected_checksum plan
         then (Inl (mk_error invalid_header 0 ''patch precondition checksum does not match''), m)
         else case apply_operations (plan_operations plan) [] empty_result m of
           (Inl e, m') \<Rightarrow> (Inl e, m')
         | (Inr result, m') \<Rightarrow> (Inr (result\<lparr>pres_checksum := memory_checksum m'\<rparr>), m'))"

section \<open>Application is a transaction\<close>

text \<open>A C++ vector is shorter than 2^64.\<close>

definition plan_sized :: "PatchPlan \<Rightarrow> bool" where
  "plan_sized plan \<longleftrightarrow> (\<forall>op \<in> set (plan_operations plan). length (pop_bytes op) < 2 ^ 64)"

text \<open>Every edit is one write of as many bytes as the undo log has saved.\<close>

definition op_input :: "PatchOperation \<Rightarrow> (u64 \<Rightarrow> u8 option) \<Rightarrow> bytes" where
  "op_input op f =
    (case pop_kind op of
       write_bytes \<Rightarrow> pop_bytes op
     | fill_bytes \<Rightarrow> replicate (unat (pop_length op)) (pop_fill op)
     | write_integer \<Rightarrow> integer_bytes (pop_width op) (pop_order op) (pop_integer op)
     | copy_bytes \<Rightarrow> map (\<lambda>i. the (f (pop_source op + of_nat i))) [0..<unat (pop_length op)]
     | assert_bytes \<Rightarrow> [])"

lemma op_input_length:
  "length (pop_bytes op) < 2 ^ 64 \<Longrightarrow> pop_kind op \<noteq> assert_bytes \<Longrightarrow>
   length (op_input op f) = unat (snd (operation_size op))"
  by (cases "pop_kind op")
    (simp_all add: op_input_def operation_size_def Let_def unat_of_nat_u64 del: unsigned_of_nat)

lemma read_is_bytes:
  assumes "as_ok m" "as_read m a n = Inr bs"
  shows "bs = map (\<lambda>i. the (as_byte m (a + of_nat i))) [0..<unat n]"
  by (rule nth_equalityI) (simp_all add: read_bytes_at [OF assms])

lemma perform_write:
  assumes ok: "as_ok m" and kind: "pop_kind op \<noteq> assert_bytes"
    and p: "perform op (snd (operation_size op)) m = Inr m'"
  shows "as_write (pop_address op) (op_input op (as_byte m)) True m = Inr m'"
proof (cases "pop_kind op")
  case copy_bytes
  then obtain bs where "as_read m (pop_source op) (pop_length op) = Inr bs"
    "as_write (pop_address op) bs True m = Inr m'"
    using p by (auto simp: perform_def operation_size_def split: sum.splits)
  then show ?thesis using read_is_bytes [OF ok] copy_bytes by (auto simp: op_input_def)
qed (use p kind in \<open>auto simp: perform_def op_input_def operation_size_def as_write_integer_def
      split: if_splits\<close>)

lemma apply_operations_fails:
  "as_ok m \<Longrightarrow> \<forall>op \<in> set ops. length (pop_bytes op) < 2 ^ 64 \<Longrightarrow> roll_back undo m = m0 \<Longrightarrow>
   apply_operations ops undo result m = (Inl e, m') \<Longrightarrow> m' = m0"
proof (induction ops arbitrary: undo result m)
  case (Cons op ops)
  let ?len = "snd (operation_size op)"
  show ?case
  proof (cases "as_read m (pop_address op) ?len")
    case (Inl e)
    then show ?thesis using Cons.prems by (simp add: Let_def)
  next
    case (Inr old)
    show ?thesis
    proof (cases "pop_kind op = assert_bytes")
      case True
      then show ?thesis
        using Cons.prems(2,4) Inr Cons.IH [OF Cons.prems(1) _ Cons.prems(3)]
        by (auto simp: Let_def Cons.prems(3) split: if_splits)
    next
      case False
      have same: "roll_back ((pop_address op, old) # undo) m = m0"
        using write_same [OF Cons.prems(1) Inr] Cons.prems(3) by simp
      show ?thesis
      proof (cases "perform op ?len m")
        case (Inl e)
        then show ?thesis using Cons.prems(4) False same \<open>as_read m _ _ = Inr old\<close>
          by (simp add: Let_def del: roll_back.simps)
      next
        case perf: (Inr m1)
        note w = perform_write [OF Cons.prems(1) False perf]
        have len: "length (op_input op (as_byte m)) = unat ?len"
          using Cons.prems(2) False by (intro op_input_length) auto
        then have ok1: "as_ok m1"
          by (intro write_effect(1) [OF Cons.prems(1) w]) (simp add: unat_u64_bound)
        have "as_write (pop_address op) old True m1 = Inr m"
          by (rule write_undo [OF Cons.prems(1) Inr len [symmetric] w])
        then have rb: "roll_back ((pop_address op, old) # undo) m1 = m0"
          using Cons.prems(3) by simp
        have "apply_operations ops ((pop_address op, old) # undo)
            (result\<lparr>pres_operations_applied := pres_operations_applied result + 1,
                    pres_bytes_written := pres_bytes_written result + ?len\<rparr>) m1 = (Inl e, m')"
          using Cons.prems(4) False Inr perf by (simp add: Let_def)
        from Cons.IH [OF ok1 _ rb this] Cons.prems(2) show ?thesis by simp
      qed
    qed
  qed
qed simp

section \<open>The effect of a plan on memory\<close>

definition write_fn :: "u64 \<Rightarrow> bytes \<Rightarrow> (u64 \<Rightarrow> u8 option) \<Rightarrow> u64 \<Rightarrow> u8 option" where
  "write_fn a bs f = (\<lambda>x. if in_range a (length bs) x then Some (bs ! (unat x - unat a)) else f x)"

definition op_effect :: "PatchOperation \<Rightarrow> (u64 \<Rightarrow> u8 option) \<Rightarrow> u64 \<Rightarrow> u8 option" where
  "op_effect op f = write_fn (pop_address op) (op_input op f) f"

definition op_holds :: "PatchOperation \<Rightarrow> (u64 \<Rightarrow> u8 option) \<Rightarrow> bool" where
  "op_holds op f \<longleftrightarrow> pop_kind op = assert_bytes \<longrightarrow>
     (\<forall>i < length (pop_bytes op). f (pop_address op + of_nat i) = Some (pop_bytes op ! i))"

fun plan_effect :: "PatchOperation list \<Rightarrow> (u64 \<Rightarrow> u8 option) \<Rightarrow> u64 \<Rightarrow> u8 option" where
  "plan_effect [] f = f"
| "plan_effect (op # ops) f = plan_effect ops (op_effect op f)"

fun plan_holds :: "PatchOperation list \<Rightarrow> (u64 \<Rightarrow> u8 option) \<Rightarrow> bool" where
  "plan_holds [] f = True"
| "plan_holds (op # ops) f = (op_holds op f \<and> plan_holds ops (op_effect op f))"

lemma write_fn_Nil [simp]: "write_fn a [] f = f"
  by (rule ext) (auto simp: write_fn_def in_range_def)

lemma write_is_write_fn:
  "as_ok m \<Longrightarrow> as_write a bs ign m = Inr m' \<Longrightarrow> length bs < 2 ^ 64 \<Longrightarrow>
   as_byte m' = write_fn a bs (as_byte m)"
  by (intro ext) (simp add: write_fn_def write_effect(2))

lemma apply_operations_effect:
  "as_ok m \<Longrightarrow> \<forall>op \<in> set ops. length (pop_bytes op) < 2 ^ 64 \<Longrightarrow>
   apply_operations ops undo result m = (Inr result', m') \<Longrightarrow>
   as_ok m' \<and> (\<forall>x. as_layout m' x = as_layout m x) \<and>
   as_byte m' = plan_effect ops (as_byte m) \<and> plan_holds ops (as_byte m) \<and>
   pres_operations_applied result' = pres_operations_applied result + of_nat (length ops)"
proof (induction ops arbitrary: undo result m)
  case (Cons op ops)
  let ?len = "snd (operation_size op)"
  obtain old where old: "as_read m (pop_address op) ?len = Inr old"
    using Cons.prems(3) by (cases "as_read m (pop_address op) ?len") (simp_all add: Let_def)
  show ?case
  proof (cases "pop_kind op = assert_bytes")
    case True
    then have eq: "old = pop_bytes op"
      and rest: "apply_operations ops undo
        (result\<lparr>pres_operations_applied := pres_operations_applied result + 1\<rparr>) m = (Inr result', m')"
      using Cons.prems(3) old by (auto simp: Let_def split: if_splits)
    have "op_holds op (as_byte m)"
      using read_bytes_at [OF Cons.prems(1) old] by (simp add: op_holds_def eq)
    moreover have "op_effect op (as_byte m) = as_byte m"
      using True by (simp add: op_effect_def op_input_def)
    ultimately show ?thesis using Cons.IH [OF Cons.prems(1) _ rest] Cons.prems(2) by simp
  next
    case False
    then obtain m1 where perf: "perform op ?len m = Inr m1"
      using Cons.prems(3) old by (cases "perform op ?len m") (auto simp: Let_def)
    note w = perform_write [OF Cons.prems(1) False perf]
    have len: "length (op_input op (as_byte m)) < 2 ^ 64"
      using op_input_length [of op "as_byte m"] Cons.prems(2) False unat_u64_bound [of ?len] by simp
    have ok1: "as_ok m1" by (rule write_effect(1) [OF Cons.prems(1) w len])
    have eff: "as_byte m1 = op_effect op (as_byte m)"
      by (simp add: op_effect_def write_is_write_fn [OF Cons.prems(1) w len])
    have rest: "apply_operations ops ((pop_address op, old) # undo)
            (result\<lparr>pres_operations_applied := pres_operations_applied result + 1,
                    pres_bytes_written := pres_bytes_written result + ?len\<rparr>) m1 = (Inr result', m')"
      using Cons.prems(3) False old perf by (simp add: Let_def)
    show ?thesis
      using Cons.IH [OF ok1 _ rest] Cons.prems(2) False
      by (simp add: eff write_layout [OF Cons.prems(1) w len] op_holds_def)
  qed
qed simp

section \<open>When a plan applies\<close>

definition op_ready :: "(u64 \<Rightarrow> (u64 \<times> u64 \<times> u8) option) \<Rightarrow> PatchOperation \<Rightarrow> bool" where
  "op_ready layout op \<longleftrightarrow>
    (let (ok, len) = operation_size op in
     ok \<and> len \<noteq> 0 \<and> range_allowed (layout (pop_address op)) (pop_address op) len 0 \<and>
     (pop_kind op = copy_bytes \<longrightarrow> range_allowed (layout (pop_source op)) (pop_source op) len 0))"

lemma validate_operation_ready:
  "validate_operation limits m index t op = Inr t' \<Longrightarrow> op_ready (as_layout m) op"
  by (auto simp: validate_operation_def op_ready_def Let_def range_mapped_def range_mapped_layout
      split: prod.splits if_splits option.splits)

lemma validate_operations_ready:
  "validate_operations limits m index t ops = Inr t' \<Longrightarrow> \<forall>op \<in> set ops. op_ready (as_layout m) op"
  by (induction ops arbitrary: index t)
    (auto split: sum.splits dest: validate_operation_ready)

definition readable :: "(u64 \<Rightarrow> (u64 \<times> u64 \<times> u8) option) \<Rightarrow> bool" where
  "readable layout \<longleftrightarrow> (\<forall>x b n p. layout x = Some (b, n, p) \<longrightarrow> p AND permission_read \<noteq> 0)"

lemma readable_allowed:
  "readable layout \<Longrightarrow> range_allowed (layout a) a n 0 \<Longrightarrow> range_allowed (layout a) a n permission_read"
  by (auto simp: readable_def range_allowed_def split: option.splits)

lemma ready_width:
  assumes "op_ready layout op" "pop_kind op = write_integer"
  shows "integer_width (pop_width op)"
proof -
  have "(ucast (pop_width op) :: u64) = 1 \<or> (ucast (pop_width op) :: u64) = 2 \<or>
      (ucast (pop_width op) :: u64) = 4 \<or> (ucast (pop_width op) :: u64) = 8"
    using assms by (simp add: op_ready_def operation_size_def Let_def)
  moreover have inj: "pop_width op = v" if "(ucast (pop_width op) :: u64) = ucast (v :: u8)" for v
  proof -
    have "unat (ucast (pop_width op) :: u64) = unat (ucast v :: u64)" by (simp only: that)
    then show ?thesis by (simp only: unat_ucast_u8_u64 word_unat_eq_iff)
  qed
  have "(1 :: u64) = ucast (1 :: u8)" "(2 :: u64) = ucast (2 :: u8)"
    "(4 :: u64) = ucast (4 :: u8)" "(8 :: u64) = ucast (8 :: u8)" by simp_all
  ultimately show ?thesis
    using inj [of 1] inj [of 2] inj [of 4] inj [of 8] unfolding integer_width_def by argo
qed

lemma perform_succeeds:
  assumes ok: "as_ok m" and r: "op_ready (as_layout m) op" "readable (as_layout m)"
    and kind: "pop_kind op \<noteq> assert_bytes" and sized: "length (pop_bytes op) < 2 ^ 64"
  shows "\<exists>m'. perform op (snd (operation_size op)) m = Inr m'"
proof -
  let ?len = "snd (operation_size op)"
  have dest: "range_allowed (as_layout m (pop_address op)) (pop_address op) ?len 0"
    using r(1) by (simp add: op_ready_def case_prod_beta Let_def)
  have w: "\<exists>m'. as_write (pop_address op) input True m = Inr m'" if "length input = unat ?len" for input
  proof -
    have "of_nat (length input) = ?len" using that by (simp add: word_unat_eq_iff)
    moreover have "length input < 2 ^ 64" using that unat_u64_bound [of ?len] by simp
    ultimately show ?thesis using dest write_succeeds_iff [of input "pop_address op" m] by auto
  qed
  have input: "\<exists>m'. as_write (pop_address op) (op_input op f) True m = Inr m'" for f
    by (rule w) (rule op_input_length [OF sized kind])
  show ?thesis
  proof (cases "pop_kind op")
    case copy_bytes
    then have "range_allowed (as_layout m (pop_source op)) (pop_source op) ?len permission_read"
      using r by (intro readable_allowed) (simp_all add: op_ready_def case_prod_beta Let_def)
    then obtain bs where bs: "as_read m (pop_source op) ?len = Inr bs"
      using read_succeeds_iff by blast
    then have "length bs = unat ?len" by (rule read_bytes_at(1) [OF ok])
    then show ?thesis using w bs copy_bytes by (simp add: perform_def)
  next
    case write_integer
    then show ?thesis using input ready_width [OF r(1)]
      by (simp add: perform_def op_input_def as_write_integer_def)
  qed (use input kind in \<open>simp_all add: perform_def op_input_def operation_size_def\<close>)
qed

lemma apply_operations_succeeds:
  "as_ok m \<Longrightarrow> \<forall>op \<in> set ops. length (pop_bytes op) < 2 ^ 64 \<and> op_ready (as_layout m) op \<Longrightarrow>
   readable (as_layout m) \<Longrightarrow> plan_holds ops (as_byte m) \<Longrightarrow>
   \<exists>r m'. apply_operations ops undo result m = (Inr r, m')"
proof (induction ops arbitrary: undo result m)
  case (Cons op ops)
  let ?len = "snd (operation_size op)"
  have ready: "op_ready (as_layout m) op" and sized: "length (pop_bytes op) < 2 ^ 64"
    using Cons.prems(2) by auto
  have "range_allowed (as_layout m (pop_address op)) (pop_address op) ?len permission_read"
    using ready Cons.prems(3) by (intro readable_allowed) (simp_all add: op_ready_def case_prod_beta Let_def)
  then obtain old where old: "as_read m (pop_address op) ?len = Inr old"
    using read_succeeds_iff by blast
  show ?case
  proof (cases "pop_kind op = assert_bytes")
    case True
    have len: "unat ?len = length (pop_bytes op)"
      using True sized
      by (simp add: operation_size_def Let_def unat_of_nat_u64 del: unsigned_of_nat)
    have "old = pop_bytes op"
      using read_bytes_at [OF Cons.prems(1) old] Cons.prems(4) True len
      by (intro nth_equalityI) (auto simp: op_holds_def)
    moreover have "op_effect op (as_byte m) = as_byte m"
      using True by (simp add: op_effect_def op_input_def)
    ultimately show ?thesis
      using True old Cons.IH [OF Cons.prems(1) _ Cons.prems(3)] Cons.prems(2,4) by (simp add: Let_def)
  next
    case False
    obtain m1 where perf: "perform op ?len m = Inr m1"
      using perform_succeeds [OF Cons.prems(1) ready Cons.prems(3) False sized] by blast
    note w = perform_write [OF Cons.prems(1) False perf]
    have len: "length (op_input op (as_byte m)) < 2 ^ 64"
      using op_input_length [of op "as_byte m"] sized False unat_u64_bound [of ?len] by simp
    have ok1: "as_ok m1" by (rule write_effect(1) [OF Cons.prems(1) w len])
    have lay: "as_layout m1 = as_layout m"
      by (rule ext) (rule write_layout [OF Cons.prems(1) w len])
    have "as_byte m1 = op_effect op (as_byte m)"
      by (simp add: op_effect_def write_is_write_fn [OF Cons.prems(1) w len])
    then have "\<exists>r m'. apply_operations ops u res m1 = (Inr r, m')" for u res
      using Cons.prems(2-4) lay by (intro Cons.IH [OF ok1]) auto
    then show ?thesis using old perf False by (simp add: Let_def)
  qed
qed simp

section \<open>Properties of application\<close>

text \<open>
  C5. A patch is a transaction: when \<open>apply\<close> fails, for whatever reason and at whatever operation,
  the address space is exactly what it was before the call.
\<close>

theorem failed_patch_changes_nothing:
  assumes "as_ok m" "plan_sized plan" "patch_apply limits plan m = (Inl e, m')"
  shows "m' = m"
proof -
  have "m' = m" if "apply_operations (plan_operations plan) [] empty_result m = (Inl e, m')"
    using apply_operations_fails [OF assms(1) _ roll_back.simps(1) that] assms(2) by (simp add: plan_sized_def)
  then show ?thesis
    using assms(3) by (auto simp: patch_apply_def split: sum.splits if_splits prod.splits)
qed

definition demo_op :: "PatchOperationKind \<Rightarrow> u64 \<Rightarrow> bytes \<Rightarrow> PatchOperation" where
  "demo_op kind address bs = \<lparr>pop_kind = kind, pop_address = address, pop_source = 0x1000,
     pop_length = of_nat (length bs), pop_integer = 0, pop_width = 0, pop_fill = 0,
     pop_order = little, pop_bytes = bs\<rparr>"

definition demo_plan :: "PatchOperation list \<Rightarrow> PatchPlan" where
  "demo_plan ops = \<lparr>plan_name = ''p'', plan_expected_checksum = 0, plan_operations = ops,
     plan_bytes_written = 0\<rparr>"

text \<open>The first write is done before the assertion fails, and undone.\<close>

theorem failed_patch_changes_nothing_witness:
  "patch_apply demo_limits (demo_plan [demo_op write_bytes 0x1001 [7, 8], demo_op assert_bytes 0x1000 [1]])
     demo_space = (Inl (mk_error invalid_header 0x1000 ''patch byte assertion failed''), demo_space)"
proof -
  let ?p = "demo_plan [demo_op write_bytes 0x1001 [7, 8], demo_op assert_bytes 0x1000 [1]]"
  have "fst (patch_apply demo_limits ?p demo_space) =
      Inl (mk_error invalid_header 0x1000 ''patch byte assertion failed'')"
    by code_simp
  then obtain m' where ap: "patch_apply demo_limits ?p demo_space =
      (Inl (mk_error invalid_header 0x1000 ''patch byte assertion failed''), m')"
    by (metis prod.collapse)
  have "plan_sized ?p" by (simp add: plan_sized_def demo_plan_def demo_op_def)
  then have "m' = demo_space" using ap by (rule failed_patch_changes_nothing [OF demo_space_ok])
  with ap show ?thesis by simp
qed

text \<open>
  A patch that is applied has the effect of its operations in order on the memory: each write,
  fill, integer store or copy replaces the bytes of its destination range and nothing else, a copy
  takes its bytes from the memory the earlier operations left, every assertion held when it was
  reached, no mapping or permission changes, and every operation is counted.
\<close>

theorem patch_effect:
  assumes "as_ok m" "plan_sized plan" "patch_apply limits plan m = (Inr result, m')"
  shows "as_ok m' \<and> (\<forall>x. as_layout m' x = as_layout m x) \<and>
    as_byte m' = plan_effect (plan_operations plan) (as_byte m) \<and>
    plan_holds (plan_operations plan) (as_byte m) \<and>
    unat (pres_operations_applied result) = length (plan_operations plan)"
proof -
  obtain res where ap: "apply_operations (plan_operations plan) [] empty_result m = (Inr res, m')"
    and res: "result = res\<lparr>pres_checksum := memory_checksum m'\<rparr>"
    and n: "length (plan_operations plan) \<le> unat (max_relocations limits)"
    using assms(3) by (auto simp: patch_apply_def patch_validate_def split: sum.splits if_splits prod.splits)
  have "length (plan_operations plan) < 4294967296"
    using n unat_u32_bound [of "max_relocations limits"] by simp
  then have "unat (of_nat (length (plan_operations plan)) :: u32) = length (plan_operations plan)"
    by (rule unat_of_nat_u32)
  then show ?thesis
    using apply_operations_effect [OF assms(1) _ ap] assms(2)
    by (simp add: plan_sized_def res empty_result_def)
qed

theorem patch_effect_witness:
  "\<exists>result m'. patch_apply demo_limits
     (demo_plan [demo_op write_bytes 0x1001 [7, 8], demo_op copy_bytes 0x1002 [0, 0]]) demo_space = (Inr result, m') \<and>
     as_byte m' 0x1003 = Some 7"
proof -
  let ?p = "demo_plan [demo_op write_bytes 0x1001 [7, 8], demo_op copy_bytes 0x1002 [0, 0]]"
  have v: "patch_validate demo_limits ?p demo_space = Inr ()" by code_simp
  have "\<not> isl (fst (apply_operations (plan_operations ?p) [] empty_result demo_space))" by code_simp
  then obtain res m' where "apply_operations (plan_operations ?p) [] empty_result demo_space = (Inr res, m')"
    by (metis prod.collapse sum.collapse(2))
  then obtain result where ap: "patch_apply demo_limits ?p demo_space = (Inr result, m')"
    using v by (simp add: patch_apply_def) (simp add: demo_plan_def)
  have "plan_sized ?p" by (simp add: plan_sized_def demo_plan_def demo_op_def)
  then have "as_byte m' = plan_effect (plan_operations ?p) (as_byte demo_space)"
    using patch_effect [OF demo_space_ok _ ap] by blast
  moreover have "plan_effect (plan_operations ?p) (as_byte demo_space) 0x1003 = Some 7"
    by (simp add: demo_plan_def demo_op_def op_effect_def op_input_def write_fn_def in_range_def)
  ultimately show ?thesis using ap by metis
qed

text \<open>
  Validation is enough: on memory whose regions are all readable, a plan that \<open>validate\<close>
  accepts and whose precondition checksum is absent or right is applied exactly when its
  assertions hold, each at the point of the plan where it stands; no other failure is possible.
\<close>

theorem valid_patch_applies:
  assumes "as_ok m" "plan_sized plan" "patch_validate limits plan m = Inr ()"
    and "plan_expected_checksum plan = 0 \<or> memory_checksum m = plan_expected_checksum plan"
    and "readable (as_layout m)"
  shows "(\<exists>result m'. patch_apply limits plan m = (Inr result, m')) \<longleftrightarrow>
    plan_holds (plan_operations plan) (as_byte m)"
proof
  assume "\<exists>result m'. patch_apply limits plan m = (Inr result, m')"
  then obtain result m' where "patch_apply limits plan m = (Inr result, m')" by blast
  then obtain res where "apply_operations (plan_operations plan) [] empty_result m = (Inr res, m')"
    by (auto simp: patch_apply_def split: sum.splits if_splits prod.splits)
  then show "plan_holds (plan_operations plan) (as_byte m)"
    using apply_operations_effect [OF assms(1)] assms(2) unfolding plan_sized_def by blast
next
  assume holds: "plan_holds (plan_operations plan) (as_byte m)"
  obtain t where "validate_operations limits m 0 0 (plan_operations plan) = Inr t"
    using assms(3) by (auto simp: patch_validate_def split: if_splits sum.splits)
  from validate_operations_ready [OF this]
  have "\<exists>r m'. apply_operations (plan_operations plan) [] empty_result m = (Inr r, m')"
    using assms(2) holds by (intro apply_operations_succeeds [OF assms(1) _ assms(5)]) (simp_all add: plan_sized_def)
  then show "\<exists>result m'. patch_apply limits plan m = (Inr result, m')"
    using assms(3,4) by (auto simp: patch_apply_def)
qed

theorem valid_patch_applies_witness:
  "\<exists>result m'. patch_apply demo_limits
     (demo_plan [demo_op assert_bytes 0x1000 [0], demo_op fill_bytes 0x1000 [0, 0]]) demo_space = (Inr result, m')"
proof -
  let ?p = "demo_plan [demo_op assert_bytes 0x1000 [0], demo_op fill_bytes 0x1000 [0, 0]]"
  have v: "patch_validate demo_limits ?p demo_space = Inr ()" by code_simp
  have b: "as_byte demo_space 0x1000 = Some 0" by code_simp
  have r: "readable (as_layout demo_space)"
    by (auto simp: readable_def as_layout_def as_region_at_def om_floor_def om_upper_bound_def
        demo_space_def permission_read_def split: if_splits)
  have "plan_holds (plan_operations ?p) (as_byte demo_space)"
    using b by (simp add: demo_plan_def demo_op_def op_holds_def)
  moreover have "plan_sized ?p" by (simp add: plan_sized_def demo_plan_def demo_op_def)
  moreover have "plan_expected_checksum ?p = 0" by (simp add: demo_plan_def)
  ultimately show ?thesis using valid_patch_applies [OF demo_space_ok _ v _ r] by blast
qed

end
