(* ===== verification/Container.thy ===== *)
theory Container
  imports Byte_Reader
begin

text \<open>
  What the binary containers of the library (patch plans, memory snapshots) share: a four-byte
  magic, a body, and the CRC-32 of everything before it as the last four bytes. The locale
  \<open>sealed\<close> states what a decoder owes to that trailer; its lemma, that no single changed byte
  goes unnoticed, then holds for every such decoder.
\<close>

definition seal :: "bytes \<Rightarrow> bytes" where
  "seal body = body @ le_bytes 4 (crc32 body)"

text \<open>\<open>data[size - 4] | data[size - 3] << 8 | data[size - 2] << 16 | data[size - 1] << 24\<close>\<close>

definition stored_checksum :: "bytes \<Rightarrow> u32" where
  "stored_checksum data = le_value (drop (length data - 4) data)"

definition sealed_body :: "bytes \<Rightarrow> bytes" where
  "sealed_body data = take (length data - 4) data"

lemma seal_parts [simp]:
  "stored_checksum (seal body) = crc32 body" "sealed_body (seal body) = body"
  "length (seal body) = length body + 4"
  by (simp_all add: stored_checksum_def sealed_body_def seal_def)

lemma seal_sealed_body:
  assumes "4 \<le> length data" "stored_checksum data = crc32 (sealed_body data)"
  shows "seal (sealed_body data) = data"
proof -
  have "le_bytes (length (drop (length data - 4) data)) (stored_checksum data) = drop (length data - 4) data"
    unfolding stored_checksum_def by (rule le_bytes_le_value) (use assms(1) in simp)
  then have "le_bytes 4 (stored_checksum data) = drop (length data - 4) data"
    using assms(1) by simp
  then show ?thesis using assms(2) by (simp add: seal_def sealed_body_def)
qed

lemma seal_inject: "seal a = seal b \<longleftrightarrow> a = b"
  by (metis seal_parts(2))

locale sealed =
  fixes decode :: "bytes \<Rightarrow> 'e + 'a"
  assumes checked: "decode data = Inr x \<Longrightarrow>
    4 \<le> length data \<and> stored_checksum data = crc32 (sealed_body data)"
begin

lemma is_seal: "decode data = Inr x \<Longrightarrow> \<exists>body. data = seal body"
  using checked seal_sealed_body by metis

lemma corrupted_byte:
  assumes dec: "decode data = Inr x" and i: "i < length data" and b: "b \<noteq> data ! i"
  shows "\<exists>e. decode (data[i := b]) = Inl e"
proof (rule ccontr)
  let ?d = "data[i := b]" and ?n = "length data - 4"
  assume "\<nexists>e. decode ?d = Inl e"
  then obtain y where "decode ?d = Inr y" by (cases "decode ?d") auto
  then have new: "stored_checksum ?d = crc32 (sealed_body ?d)" by (simp add: checked)
  have old: "4 \<le> length data" "stored_checksum data = crc32 (sealed_body data)"
    using checked [OF dec] by auto
  show False
  proof (cases "i < ?n")
    case True
    have "stored_checksum ?d = stored_checksum data"
      using True by (simp add: stored_checksum_def)
    moreover have body: "sealed_body ?d = (sealed_body data)[i := b]"
      by (simp add: sealed_body_def take_update_swap)
    ultimately have "crc32 ((sealed_body data)[i := b]) = crc32 (sealed_body data)"
      using old new by simp
    then have "b = sealed_body data ! i"
      by (intro crc32_single_byte) (use True in \<open>simp_all add: sealed_body_def\<close>)
    then show False using b True by (simp add: sealed_body_def)
  next
    case False
    have "sealed_body ?d = sealed_body data" using False by (simp add: sealed_body_def)
    then have "(le_value (drop ?n ?d) :: u32) = le_value (drop ?n data)"
      using old new by (simp add: stored_checksum_def)
    then have "drop ?n ?d = drop ?n data"
      by (rule le_value_inject [rotated 2]) (use old in simp_all)
    moreover have "drop ?n ys ! (i - ?n) = ys ! i" if "length ys = length data" for ys :: bytes
      using False that by (subst nth_drop) simp_all
    ultimately have "?d ! i = data ! i" by (metis length_list_update)
    then show False using b i by simp
  qed
qed

end

section \<open>Reading step by step\<close>

text \<open>The bundles that carry the proofs about field-by-field encoders and decoders.\<close>

lemma moves_trans: "moves r as r1 \<Longrightarrow> moves r1 bs r2 \<Longrightarrow> moves r (as @ bs) r2"
  using moves_append by blast

lemma moves_Cons_trans: "moves r [b] r1 \<Longrightarrow> moves r1 bs r2 \<Longrightarrow> moves r (b # bs) r2"
  using moves_trans [of r "[b]"] by simp

lemma read_u32_moves:
  "moves r (le_bytes 4 v) r' \<Longrightarrow> rd_order r = little \<Longrightarrow> read_u32 r = (Inr v, r')"
  using u32_codec.decode by blast

lemma read_u64_moves:
  "moves r (le_bytes 8 v) r' \<Longrightarrow> rd_order r = little \<Longrightarrow> read_u64 r = (Inr v, r')"
  using u64_codec.decode by blast

lemma moves_remaining: "moves r bs r' \<Longrightarrow> length bs \<le> unat (rd_remaining r)"
  by (simp add: unat_rd_remaining moves_okD) (simp add: moves_def)

text \<open>
  A reader inside a little-endian container. Successful reads keep it one, and a chain of them
  has passed over the concatenation of what they read.
\<close>

definition lit :: "ByteReader \<Rightarrow> bool" where
  "lit r \<longleftrightarrow> reader_ok r \<and> rd_order r = little"

lemma lit_moves: "lit r \<Longrightarrow> moves r bs r' \<Longrightarrow> lit r'"
  by (simp add: lit_def moves_okD)

lemma u8_read: "lit r \<Longrightarrow> read_u8 r = (Inr v, r') \<Longrightarrow> moves r [v] r'"
  by (simp add: lit_def u8_codec.encode_moves)

lemma u16_read: "lit r \<Longrightarrow> read_u16 r = (Inr v, r') \<Longrightarrow> moves r (le_bytes 2 v) r'"
  by (simp add: lit_def u16_codec.encode_moves)

lemma u32_read: "lit r \<Longrightarrow> read_u32 r = (Inr v, r') \<Longrightarrow> moves r (le_bytes 4 v) r'"
  by (simp add: lit_def u32_codec.encode_moves)

lemma u64_read: "lit r \<Longrightarrow> read_u64 r = (Inr v, r') \<Longrightarrow> moves r (le_bytes 8 v) r'"
  by (simp add: lit_def u64_codec.encode_moves)

lemma bytes_read: "lit r \<Longrightarrow> read_bytes n r = (Inr bs, r') \<Longrightarrow> moves r bs r'"
  using read_bytes_encode [of r n bs r'] by (simp add: lit_def)

lemma bytes_read_length: "lit r \<Longrightarrow> read_bytes n r = (Inr bs, r') \<Longrightarrow> length bs = unat n"
  using read_bytes_encode [of r n bs r'] by (simp add: lit_def)

lemma u8_lit: "lit r \<Longrightarrow> read_u8 r = (Inr v, r') \<Longrightarrow> lit r'"
  using lit_moves u8_read by blast

lemma u16_lit: "lit r \<Longrightarrow> read_u16 r = (Inr v, r') \<Longrightarrow> lit r'"
  using lit_moves u16_read by blast

lemma u32_lit: "lit r \<Longrightarrow> read_u32 r = (Inr v, r') \<Longrightarrow> lit r'"
  using lit_moves u32_read by blast

lemma u64_lit: "lit r \<Longrightarrow> read_u64 r = (Inr v, r') \<Longrightarrow> lit r'"
  using lit_moves u64_read by blast

lemma bytes_lit: "lit r \<Longrightarrow> read_bytes n r = (Inr bs, r') \<Longrightarrow> lit r'"
  using lit_moves bytes_read by blast

lemma u8_via: "lit r \<Longrightarrow> read_u8 r = (Inr v, r1) \<Longrightarrow> (lit r1 \<Longrightarrow> moves r1 bs r') \<Longrightarrow> moves r ([v] @ bs) r'"
  by (rule moves_trans [OF u8_read]) (auto intro: u8_lit)

lemma u16_via: "lit r \<Longrightarrow> read_u16 r = (Inr v, r1) \<Longrightarrow> (lit r1 \<Longrightarrow> moves r1 bs r') \<Longrightarrow>
    moves r (le_bytes 2 v @ bs) r'"
  by (rule moves_trans [OF u16_read]) (auto intro: u16_lit)

lemma u32_via: "lit r \<Longrightarrow> read_u32 r = (Inr v, r1) \<Longrightarrow> (lit r1 \<Longrightarrow> moves r1 bs r') \<Longrightarrow>
    moves r (le_bytes 4 v @ bs) r'"
  by (rule moves_trans [OF u32_read]) (auto intro: u32_lit)

lemma u64_via: "lit r \<Longrightarrow> read_u64 r = (Inr v, r1) \<Longrightarrow> (lit r1 \<Longrightarrow> moves r1 bs r') \<Longrightarrow>
    moves r (le_bytes 8 v @ bs) r'"
  by (rule moves_trans [OF u64_read]) (auto intro: u64_lit)

lemma bytes_via: "lit r \<Longrightarrow> read_bytes n r = (Inr cs, r1) \<Longrightarrow> (lit r1 \<Longrightarrow> moves r1 bs r') \<Longrightarrow>
    moves r (cs @ bs) r'"
  by (rule moves_trans [OF bytes_read]) (auto intro: bytes_lit)

lemmas reads_via = u8_via u16_via u32_via u64_via bytes_via

section \<open>Running a chain of reads over an encoding\<close>

text \<open>
  One rule per read: on a reader that stands before the encoding of a field, the read yields the
  field and the rest of the chain runs on the rest of the encoding.
\<close>

lemma u8_then:
  assumes "lit r" "moves r ([v] @ bs) r'" "\<And>r1. lit r1 \<Longrightarrow> moves r1 bs r' \<Longrightarrow> f v r1 = res"
  shows "pbind read_u8 f r = res"
proof -
  obtain r1 where m: "moves r [v] r1" "moves r1 bs r'"
    using assms(2) unfolding moves_append by blast
  then show ?thesis using assms(3) [OF lit_moves [OF assms(1) m(1)] m(2)] moves_u8 [OF m(1)] by simp
qed

lemma u32_then:
  assumes "lit r" "moves r (le_bytes 4 v @ bs) r'" "\<And>r1. lit r1 \<Longrightarrow> moves r1 bs r' \<Longrightarrow> f v r1 = res"
  shows "pbind read_u32 f r = res"
proof -
  obtain r1 where m: "moves r (le_bytes 4 v) r1" "moves r1 bs r'"
    using assms(2) by (auto simp: moves_append)
  have "read_u32 r = (Inr v, r1)" using assms(1) by (intro read_u32_moves [OF m(1)]) (simp add: lit_def)
  then show ?thesis using assms(3) [OF lit_moves [OF assms(1) m(1)] m(2)] by simp
qed

lemma u64_then:
  assumes "lit r" "moves r (le_bytes 8 v @ bs) r'" "\<And>r1. lit r1 \<Longrightarrow> moves r1 bs r' \<Longrightarrow> f v r1 = res"
  shows "pbind read_u64 f r = res"
proof -
  obtain r1 where m: "moves r (le_bytes 8 v) r1" "moves r1 bs r'"
    using assms(2) by (auto simp: moves_append)
  have "read_u64 r = (Inr v, r1)" using assms(1) by (intro read_u64_moves [OF m(1)]) (simp add: lit_def)
  then show ?thesis using assms(3) [OF lit_moves [OF assms(1) m(1)] m(2)] by simp
qed

lemma bytes_then:
  assumes "lit r" "moves r (v @ bs) r'" "unat n = length v"
    "\<And>r1. lit r1 \<Longrightarrow> moves r1 bs r' \<Longrightarrow> f v r1 = res"
  shows "pbind (read_bytes n) f r = res"
proof -
  obtain r1 where m: "moves r v r1" "moves r1 bs r'"
    using assms(2) by (auto simp: moves_append)
  then show ?thesis
    using assms(4) [OF lit_moves [OF assms(1) m(1)] m(2)] read_bytes_decode [OF m(1) assms(3)] by simp
qed

lemma check_then: "P r \<Longrightarrow> f () r = res \<Longrightarrow> pbind (pcheck P) f r = res"
  by (simp add: pbind_def pcheck_def)

lemma guard_then: "P r \<Longrightarrow> f () r = res \<Longrightarrow> pbind (pguard P e) f r = res"
  by (simp add: pbind_def pguard_def)

lemma on_fail_then: "p r = (Inr x, r1) \<Longrightarrow> f x r1 = res \<Longrightarrow> pbind (on_fail p e) f r = res"
  by (simp add: pbind_def on_fail_def)

lemma return_then: "moves r [] r' \<Longrightarrow> x = y \<Longrightarrow> preturn x r = (Inr y, r')"
  by simp

text \<open>
  And the other way: a chain that succeeds has run over some bytes. \<open>eats r0 n r\<close>: the reader got
  from \<open>r0\<close> to \<open>r\<close> over \<open>n\<close> bytes.
\<close>

definition eats :: "ByteReader \<Rightarrow> nat \<Rightarrow> ByteReader \<Rightarrow> bool" where
  "eats r n r' \<longleftrightarrow> (\<exists>bs. moves r bs r' \<and> length bs = n)"

lemma eats_0: "lit r \<Longrightarrow> eats r 0 r"
  by (simp add: eats_def lit_def)

lemma eats_moves: "eats r0 n r \<Longrightarrow> moves r bs r' \<Longrightarrow> eats r0 (n + length bs) r'"
  unfolding eats_def using moves_trans by fastforce

lemma eats_trans: "eats r0 n r \<Longrightarrow> eats r m r' \<Longrightarrow> eats r0 (n + m) r'"
  using eats_moves by (auto simp: eats_def [of r])

lemma u8_eats:
  assumes "pbind read_u8 f r = (Inr x, r')" "lit r" "eats r0 n r"
    "\<And>v r1. f v r1 = (Inr x, r') \<Longrightarrow> lit r1 \<Longrightarrow> eats r0 (n + 1) r1 \<Longrightarrow> Q"
  shows Q
proof -
  obtain v r1 where d: "read_u8 r = (Inr v, r1)" "f v r1 = (Inr x, r')"
    using assms(1) by (auto simp: pbind_Inr)
  show Q using assms(4) [OF d(2) u8_lit [OF assms(2) d(1)]] eats_moves [OF assms(3) u8_read [OF assms(2) d(1)]]
    by simp
qed

lemma u32_eats:
  assumes "pbind read_u32 f r = (Inr x, r')" "lit r" "eats r0 n r"
    "\<And>v r1. f v r1 = (Inr x, r') \<Longrightarrow> lit r1 \<Longrightarrow> eats r0 (n + 4) r1 \<Longrightarrow> Q"
  shows Q
proof -
  obtain v r1 where d: "read_u32 r = (Inr v, r1)" "f v r1 = (Inr x, r')"
    using assms(1) by (auto simp: pbind_Inr)
  show Q using assms(4) [OF d(2) u32_lit [OF assms(2) d(1)]] eats_moves [OF assms(3) u32_read [OF assms(2) d(1)]]
    by simp
qed

lemma u64_eats:
  assumes "pbind read_u64 f r = (Inr x, r')" "lit r" "eats r0 n r"
    "\<And>v r1. f v r1 = (Inr x, r') \<Longrightarrow> lit r1 \<Longrightarrow> eats r0 (n + 8) r1 \<Longrightarrow> Q"
  shows Q
proof -
  obtain v r1 where d: "read_u64 r = (Inr v, r1)" "f v r1 = (Inr x, r')"
    using assms(1) by (auto simp: pbind_Inr)
  show Q using assms(4) [OF d(2) u64_lit [OF assms(2) d(1)]] eats_moves [OF assms(3) u64_read [OF assms(2) d(1)]]
    by simp
qed

lemma bytes_eats:
  assumes "pbind (read_bytes k) f r = (Inr x, r')" "lit r" "eats r0 n r"
    "\<And>v r1. f v r1 = (Inr x, r') \<Longrightarrow> lit r1 \<Longrightarrow> eats r0 (n + length v) r1 \<Longrightarrow> length v = unat k \<Longrightarrow> Q"
  shows Q
proof -
  obtain v r1 where d: "read_bytes k r = (Inr v, r1)" "f v r1 = (Inr x, r')"
    using assms(1) by (auto simp: pbind_Inr)
  show Q using assms(4) [OF d(2) bytes_lit [OF assms(2) d(1)]] eats_moves [OF assms(3) bytes_read [OF assms(2) d(1)]]
      bytes_read_length [OF assms(2) d(1)]
    by simp
qed

lemma check_eats:
  assumes "pbind (pcheck P) f r = (Inr x, r')" "lit r" "eats r0 n r"
    "P r \<Longrightarrow> f () r = (Inr x, r') \<Longrightarrow> Q"
  shows Q
  using assms(1,4) by (auto simp: pbind_Inr)

lemma return_eats:
  assumes "preturn y r = (Inr x, r')" "lit r" "eats r0 n r"
    "x = y \<Longrightarrow> r' = r \<Longrightarrow> Q"
  shows Q
  using assms(1,4) by simp

lemmas reads_then = u8_then u32_then u64_then
lemmas reads_eat = u8_eats u32_eats u64_eats check_eats return_eats

end
