(* ===== verification/Patch_Container.thy ===== *)
theory Patch_Container
  imports Patch_Engine Container
begin

text \<open>
  The container of patch plans: \<open>PatchEngine::encode\<close> and \<open>PatchEngine::decode\<close> of
  \<open>src/patch_engine.cc\<close>. The decoder inverts the encoder in both directions: it reads back every
  plan it can represent, and it accepts nothing but what the encoder writes.
\<close>

section \<open>The container\<close>

definition magic_bfpt :: bytes where
  "magic_bfpt = bytes_of_string ''BFPT''"

fun patch_kind_byte :: "PatchOperationKind \<Rightarrow> u8" where
  "patch_kind_byte write_bytes = 0" | "patch_kind_byte fill_bytes = 1"
| "patch_kind_byte write_integer = 2" | "patch_kind_byte copy_bytes = 3"
| "patch_kind_byte assert_bytes = 4"

definition patch_kind_of :: "u8 \<Rightarrow> PatchOperationKind" where
  "patch_kind_of b = (if b = 0 then write_bytes else if b = 1 then fill_bytes
     else if b = 2 then write_integer else if b = 3 then copy_bytes else assert_bytes)"

fun order_byte :: "ByteOrder \<Rightarrow> u8" where
  "order_byte little = 0" | "order_byte big = 1"

definition order_of :: "u8 \<Rightarrow> ByteOrder" where
  "order_of b = (if b = 0 then little else big)"

definition encode_operation :: "PatchOperation \<Rightarrow> bytes" where
  "encode_operation op =
     [patch_kind_byte (pop_kind op)] @ le_bytes 8 (pop_address op) @ le_bytes 8 (pop_source op) @
     le_bytes 8 (pop_length op) @ le_bytes 8 (pop_integer op) @ [pop_width op] @ [pop_fill op] @
     [order_byte (pop_order op)] @ le_bytes 4 (of_nat (length (pop_bytes op)) :: u32) @ pop_bytes op"

fun encode_operations :: "Limits \<Rightarrow> PatchOperation list \<Rightarrow> bytes \<Rightarrow> Error + bytes" where
  "encode_operations limits [] output = Inr output"
| "encode_operations limits (op # rest) output =
    (let output' = output @ encode_operation op in
     if length output' > unat (max_file_size limits)
     then Inl (mk_error resource_limit (of_nat (length output')) ''encoded patch exceeds size limit'')
     else encode_operations limits rest output')"

definition encode_plan_header :: "PatchPlan \<Rightarrow> bytes" where
  "encode_plan_header plan =
     le_bytes 4 (1 :: u32) @ le_bytes 4 (of_nat (length (plan_name plan)) :: u32) @
     bytes_of_string (plan_name plan) @ le_bytes 4 (plan_expected_checksum plan) @
     le_bytes 8 (plan_bytes_written plan) @ le_bytes 4 (of_nat (length (plan_operations plan)) :: u32)"

definition patch_encode :: "Limits \<Rightarrow> PatchPlan \<Rightarrow> Error + bytes" where
  "patch_encode limits plan =
    (if length (plan_name plan) > unat (max_string_bytes limits) \<or>
        length (plan_operations plan) > unat (max_relocations limits)
     then Inl (mk_error resource_limit 0 ''patch plan exceeds encode limits'')
     else case encode_operations limits (plan_operations plan) (magic_bfpt @ encode_plan_header plan) of
       Inl e \<Rightarrow> Inl e
     | Inr output \<Rightarrow> Inr (output @ le_bytes 4 (crc32 output)))"

definition decode_operation :: "Limits \<Rightarrow> (Error, PatchOperation) parse" where
  "decode_operation limits =
     pbind (on_fail
       (pbind read_u8 (\<lambda>kind. pbind read_u64 (\<lambda>address. pbind read_u64 (\<lambda>source.
        pbind read_u64 (\<lambda>len. pbind read_u64 (\<lambda>integer. pbind read_u8 (\<lambda>width.
        pbind read_u8 (\<lambda>fill. pbind read_u8 (\<lambda>order. pbind read_u32 (\<lambda>byte_count.
        pbind (pcheck (\<lambda>r. \<not> ucast byte_count > max_section_bytes limits \<and>
                             \<not> ucast byte_count > rd_remaining r)) (\<lambda>_.
        preturn (kind, address, source, len, integer, width, fill, order, byte_count))))))))))))
       (\<lambda>r. mk_error truncated (rd_position r) ''patch operation is truncated''))
     (\<lambda>(kind, address, source, len, integer, width, fill, order, byte_count).
     pbind (pguard (\<lambda>_. \<not> (kind > 4 \<or> order > 1))
       (\<lambda>r. mk_error invalid_header (rd_position r) ''patch operation enum is invalid'')) (\<lambda>_.
     pbind (on_fail (read_bytes (ucast byte_count)) (\<lambda>_. no_error)) (\<lambda>bs.
     preturn \<lparr>pop_kind = patch_kind_of kind, pop_address = address, pop_source = source,
              pop_length = len, pop_integer = integer, pop_width = width, pop_fill = fill,
              pop_order = order_of order, pop_bytes = bs\<rparr>)))"

definition decode_plan :: "Limits \<Rightarrow> (Error, PatchPlan) parse" where
  "decode_plan limits =
     pbind (on_fail
       (pbind read_u32 (\<lambda>version. pbind (pcheck (\<lambda>_. version = 1)) (\<lambda>_.
        pbind read_u32 (\<lambda>name_size.
        pbind (pcheck (\<lambda>r. \<not> ucast name_size > max_string_bytes limits \<and>
                             \<not> ucast name_size > rd_remaining r)) (\<lambda>_.
        preturn name_size)))))
       (\<lambda>_. mk_error invalid_header 4 ''patch header is invalid''))
     (\<lambda>name_size.
     pbind (on_fail (read_bytes (ucast name_size)) (\<lambda>_. no_error)) (\<lambda>name.
     pbind (on_fail
       (pbind read_u32 (\<lambda>checksum. pbind read_u64 (\<lambda>written. pbind read_u32 (\<lambda>count.
        pbind (pcheck (\<lambda>_. \<not> count > max_relocations limits)) (\<lambda>_.
        preturn (checksum, written, count))))))
       (\<lambda>r. mk_error resource_limit (rd_position r) ''patch operation count is invalid''))
     (\<lambda>(checksum, written, count).
     pbind (prepeat (unat count) (decode_operation limits)) (\<lambda>ops.
     pbind (pguard (\<lambda>r. rd_remaining r = 0)
       (\<lambda>r. mk_error invalid_header (rd_position r) ''patch container contains trailing data'')) (\<lambda>_.
     preturn \<lparr>plan_name = string_of_bytes name, plan_expected_checksum = checksum,
              plan_operations = ops, plan_bytes_written = written\<rparr>)))))"

definition patch_decode :: "Limits \<Rightarrow> bytes option \<Rightarrow> Error + PatchPlan" where
  "patch_decode limits input =
    (case input of
       None \<Rightarrow> Inl (mk_error bad_magic 0 ''patch container is invalid'')
     | Some data \<Rightarrow>
         if length data < 28 \<or> length data > unat (max_file_size limits) \<or> take 4 data \<noteq> magic_bfpt
         then Inl (mk_error bad_magic 0 ''patch container is invalid'')
         else if stored_checksum data \<noteq> crc32 (sealed_body data)
         then Inl (mk_error invalid_header (of_nat (length data - 4)) ''patch checksum does not match'')
         else fst (decode_plan limits (reader_of (drop 4 (sealed_body data)) little)))"

section \<open>One operation\<close>

definition operation_storable :: "Limits \<Rightarrow> PatchOperation \<Rightarrow> bool" where
  "operation_storable limits op \<longleftrightarrow>
     length (pop_bytes op) < 2 ^ 32 \<and> length (pop_bytes op) \<le> unat (max_section_bytes limits)"

lemma patch_kind_roundtrip [simp]:
  "patch_kind_of (patch_kind_byte k) = k" "patch_kind_byte k \<le> 4" "\<not> patch_kind_byte k > 4"
  by (cases k; simp add: patch_kind_of_def)+

lemma u8_le_4: "(b :: u8) \<le> 4 \<Longrightarrow> b = 0 \<or> b = 1 \<or> b = 2 \<or> b = 3 \<or> b = 4"
proof -
  assume "b \<le> 4"
  then have "unat b \<le> 4" by (simp add: word_le_nat_alt)
  then have "unat b = 0 \<or> unat b = 1 \<or> unat b = 2 \<or> unat b = 3 \<or> unat b = 4" by linarith
  then show ?thesis unfolding word_unat_eq_iff by simp
qed

lemma patch_kind_byte_of [simp]: "\<not> b > 4 \<Longrightarrow> patch_kind_byte (patch_kind_of b) = b"
  using u8_le_4 [of b] by (auto simp: patch_kind_of_def not_less)

lemma order_roundtrip [simp]:
  "order_of (order_byte k) = k" "\<not> order_byte k > 1"
  by (cases k; simp add: order_of_def)+

lemma order_byte_of [simp]: "\<not> b > 1 \<Longrightarrow> order_byte (order_of b) = b"
proof -
  assume "\<not> b > 1"
  then have "unat b \<le> 1" by (simp add: word_less_nat_alt)
  then have "unat b = 0 \<or> unat b = 1" by linarith
  then have "b = 0 \<or> b = 1" unfolding word_unat_eq_iff by simp
  then show ?thesis by (auto simp: order_of_def)
qed

lemma length_encode_operation [len_simps]:
  "length (encode_operation op) = 40 + length (pop_bytes op)"
  by (simp add: encode_operation_def)

lemma decode_operation_encoded:
  assumes st: "operation_storable limits op" and o: "rd_order r = little"
    and m: "moves r (encode_operation op) r'"
  shows "decode_operation limits r = (Inr op, r')"
proof -
  let ?n = "of_nat (length (pop_bytes op)) :: u32"
  obtain r1 r2 r3 r4 r5 r6 r7 r8 r9 where m:
    "moves r [patch_kind_byte (pop_kind op)] r1" "moves r1 (le_bytes 8 (pop_address op)) r2"
    "moves r2 (le_bytes 8 (pop_source op)) r3" "moves r3 (le_bytes 8 (pop_length op)) r4"
    "moves r4 (le_bytes 8 (pop_integer op)) r5" "moves r5 [pop_width op] r6" "moves r6 [pop_fill op] r7"
    "moves r7 [order_byte (pop_order op)] r8" "moves r8 (le_bytes 4 ?n) r9" "moves r9 (pop_bytes op) r'"
    using m unfolding encode_operation_def moves_append by blast
  have n: "unat ?n = length (pop_bytes op)"
    using st by (intro unat_of_nat_u32) (simp add: operation_storable_def)
  have ord: "rd_order r1 = little" "rd_order r2 = little" "rd_order r3 = little" "rd_order r4 = little"
    "rd_order r7 = little" "rd_order r8 = little"
    using o m moves_order by metis+
  have small: "\<not> ucast ?n > max_section_bytes limits" "\<not> ucast ?n > rd_remaining r9"
    using st moves_remaining [OF m(10)] by (simp_all add: word_less_nat_alt n operation_storable_def)
  have bs: "read_bytes (ucast ?n) r9 = (Inr (pop_bytes op), r')"
    by (rule read_bytes_decode [OF m(10)]) (simp add: n)
  note steps = moves_u8 [OF m(1)] read_u64_moves [OF m(2) ord(1)] read_u64_moves [OF m(3) ord(2)]
    read_u64_moves [OF m(4) ord(3)] read_u64_moves [OF m(5) ord(4)] moves_u8 [OF m(6)] moves_u8 [OF m(7)]
    moves_u8 [OF m(8)] read_u32_moves [OF m(9) ord(6)]
  show ?thesis
    by (simp add: decode_operation_def pbind_def on_fail_def pcheck_def pguard_def preturn_def steps small bs)
qed

lemma decode_operation_exact:
  assumes ok: "reader_ok r" and o: "rd_order r = little" and d: "decode_operation limits r = (Inr op, r')"
  shows "operation_storable limits op \<and> moves r (encode_operation op) r'"
proof -
  obtain r1 r2 r3 r4 r5 r6 r7 r8 r9 kind address source len integer width fill ord n bs where
    d: "read_u8 r = (Inr kind, r1)" "read_u64 r1 = (Inr address, r2)" "read_u64 r2 = (Inr source, r3)"
    "read_u64 r3 = (Inr len, r4)" "read_u64 r4 = (Inr integer, r5)" "read_u8 r5 = (Inr width, r6)"
    "read_u8 r6 = (Inr fill, r7)" "read_u8 r7 = (Inr ord, r8)" "read_u32 r8 = (Inr n, r9)"
    "read_bytes (ucast n) r9 = (Inr bs, r')"
    and c: "\<not> ucast n > max_section_bytes limits" "\<not> kind > 4" "\<not> ord > 1"
    and op: "op = \<lparr>pop_kind = patch_kind_of kind, pop_address = address, pop_source = source,
              pop_length = len, pop_integer = integer, pop_width = width, pop_fill = fill,
              pop_order = order_of ord, pop_bytes = bs\<rparr>"
    using d by (auto simp: decode_operation_def pbind_Inr)
  have l: "lit r" using ok o by (simp add: lit_def)
  have l9: "lit r9"
    by (rule u32_lit [OF u8_lit [OF u8_lit [OF u8_lit [OF u64_lit [OF u64_lit [OF u64_lit [OF u64_lit
      [OF u8_lit [OF l d(1)] d(2)] d(3)] d(4)] d(5)] d(6)] d(7)] d(8)] d(9)])
  have len: "length bs = unat n" using bytes_read_length [OF l9 d(10)] by simp
  have "operation_storable limits op"
    using c(1) len unat_u32_bound [of n] by (simp add: op operation_storable_def word_less_nat_alt)
  moreover have n: "of_nat (length bs) = n" by (simp add: len)
  have "moves r ([kind] @ le_bytes 8 address @ le_bytes 8 source @ le_bytes 8 len @ le_bytes 8 integer @
      [width] @ [fill] @ [ord] @ le_bytes 4 n @ bs) r'"
    by (rule u8_via [OF l d(1)], rule u64_via [OF _ d(2)], assumption, rule u64_via [OF _ d(3)], assumption,
      rule u64_via [OF _ d(4)], assumption, rule u64_via [OF _ d(5)], assumption,
      rule u8_via [OF _ d(6)], assumption, rule u8_via [OF _ d(7)], assumption,
      rule u8_via [OF _ d(8)], assumption, rule u32_via [OF _ d(9)], assumption,
      rule bytes_read [OF _ d(10)])
  then have "moves r (encode_operation op) r'"
    using c(2,3) n by (simp add: op encode_operation_def)
  ultimately show ?thesis ..
qed

interpretation operation_codec:
  codec encode_operation "decode_operation limits" "operation_storable limits" for limits
  by unfold_locales (rule decode_operation_encoded decode_operation_exact; assumption)+

section \<open>The plan\<close>

definition plan_storable :: "Limits \<Rightarrow> PatchPlan \<Rightarrow> bool" where
  "plan_storable limits plan \<longleftrightarrow>
     length (plan_name plan) < 2 ^ 32 \<and> length (plan_name plan) \<le> unat (max_string_bytes limits) \<and>
     length (plan_operations plan) \<le> unat (max_relocations limits) \<and>
     list_all (operation_storable limits) (plan_operations plan)"

definition encode_plan_body :: "PatchPlan \<Rightarrow> bytes" where
  "encode_plan_body plan = encode_plan_header plan @ concat (map encode_operation (plan_operations plan))"

lemma decode_plan_encoded:
  assumes st: "plan_storable limits plan" and l: "lit r"
    and m: "moves r (encode_plan_body plan) r'" and e: "rd_rest r' = []"
  shows "decode_plan limits r = (Inr plan, r')"
proof -
  let ?n = "of_nat (length (plan_name plan)) :: u32" and ?k = "of_nat (length (plan_operations plan)) :: u32"
  obtain r1 r2 r3 r4 r5 r6 where m:
    "moves r (le_bytes 4 (1 :: u32)) r1" "moves r1 (le_bytes 4 ?n) r2"
    "moves r2 (bytes_of_string (plan_name plan)) r3" "moves r3 (le_bytes 4 (plan_expected_checksum plan)) r4"
    "moves r4 (le_bytes 8 (plan_bytes_written plan)) r5" "moves r5 (le_bytes 4 ?k) r6"
    "moves r6 (concat (map encode_operation (plan_operations plan))) r'"
    using m unfolding encode_plan_body_def encode_plan_header_def moves_append by blast
  have n: "unat ?n = length (plan_name plan)"
    using st by (intro unat_of_nat_u32) (simp add: plan_storable_def)
  have k: "unat ?k = length (plan_operations plan)"
    using st unat_u32_bound [of "max_relocations limits"] by (intro unat_of_nat_u32) (simp add: plan_storable_def)
  have "rd_order r = little" using l by (simp add: lit_def)
  then have ord: "rd_order r = little" "rd_order r1 = little" "rd_order r3 = little" "rd_order r4 = little"
    "rd_order r5 = little" "rd_order r6 = little"
    using m moves_order by metis+
  have small: "\<not> ucast ?n > max_string_bytes limits" "\<not> ucast ?n > rd_remaining r2"
    "\<not> ?k > max_relocations limits"
    using st moves_remaining [OF m(3)] by (simp_all add: word_less_nat_alt n k plan_storable_def)
  have bs: "read_bytes (ucast ?n) r2 = (Inr (bytes_of_string (plan_name plan)), r3)"
    by (rule read_bytes_decode [OF m(3)]) (simp add: n)
  have ops: "prepeat (unat ?k) (decode_operation limits) r6 = (Inr (plan_operations plan), r')"
    unfolding k using st by (intro operation_codec.decode_list [OF _ ord(6) m(7)]) (simp add: plan_storable_def)
  have fin: "rd_remaining r' = 0"
    using e m(7) by (simp add: rd_remaining_0_iff moves_okD)
  note steps = read_u32_moves [OF m(1) ord(1)] read_u32_moves [OF m(2) ord(2)]
    read_u32_moves [OF m(4) ord(3)] read_u64_moves [OF m(5) ord(4)] read_u32_moves [OF m(6) ord(5)]
  show ?thesis
    by (simp add: decode_plan_def pbind_def on_fail_def pcheck_def pguard_def preturn_def steps small bs ops fin)
qed

lemma decode_plan_exact:
  assumes l: "lit r" and d: "decode_plan limits r = (Inr plan, r')"
  shows "plan_storable limits plan \<and> moves r (encode_plan_body plan) r' \<and> rd_rest r' = []"
proof -
  obtain r1 r2 r3 r4 r5 r6 n name checksum written k ops where
    d: "read_u32 r = (Inr 1, r1)" "read_u32 r1 = (Inr n, r2)" "read_bytes (ucast n) r2 = (Inr name, r3)"
    "read_u32 r3 = (Inr checksum, r4)" "read_u64 r4 = (Inr written, r5)" "read_u32 r5 = (Inr k, r6)"
    "prepeat (unat k) (decode_operation limits) r6 = (Inr ops, r')"
    and c: "\<not> ucast n > max_string_bytes limits" "\<not> k > max_relocations limits" "rd_remaining r' = 0"
    and plan: "plan = \<lparr>plan_name = string_of_bytes name, plan_expected_checksum = checksum,
              plan_operations = ops, plan_bytes_written = written\<rparr>"
    using d by (auto simp: decode_plan_def pbind_Inr)
  have l2: "lit r2" by (rule u32_lit [OF u32_lit [OF l d(1)] d(2)])
  have l6: "lit r6" by (rule u32_lit [OF u64_lit [OF u32_lit [OF bytes_lit [OF l2 d(3)] d(4)] d(5)] d(6)])
  have len: "length name = unat n" using bytes_read_length [OF l2 d(3)] by simp
  have ops: "length ops = unat k" "list_all (operation_storable limits) ops"
    "moves r6 (concat (map encode_operation ops)) r'"
    using operation_codec.encode_list [OF _ _ d(7)] l6 by (simp_all add: lit_def)
  have "plan_storable limits plan"
    using c(1,2) len ops unat_u32_bound [of n]
    by (simp add: plan plan_storable_def word_less_nat_alt)
  moreover have n: "of_nat (length name) = n" "of_nat (length ops) = k" by (simp_all add: len ops)
  have "moves r (le_bytes 4 (1 :: u32) @ le_bytes 4 n @ name @ le_bytes 4 checksum @ le_bytes 8 written @
      le_bytes 4 k @ concat (map encode_operation ops)) r'"
    by (rule u32_via [OF l d(1)], rule u32_via [OF _ d(2)], assumption, rule bytes_via [OF _ d(3)], assumption,
      rule u32_via [OF _ d(4)], assumption, rule u64_via [OF _ d(5)], assumption,
      rule u32_via [OF _ d(6)], assumption, rule ops(3))
  then have "moves r (encode_plan_body plan) r'"
    using n by (simp add: plan encode_plan_body_def encode_plan_header_def)
  moreover from this have "rd_rest r' = []" using c(3) by (simp add: rd_remaining_0_iff moves_okD)
  ultimately show ?thesis by simp
qed

lemma encode_operations_Inr_iff:
  "encode_operations limits ops start = Inr output \<longleftrightarrow>
     output = start @ concat (map encode_operation ops) \<and>
     (ops = [] \<or> length output \<le> unat (max_file_size limits))"
proof (induction ops arbitrary: start)
  case (Cons op ops)
  show ?case
  proof (cases "ops = []")
    case True
    then show ?thesis by (auto simp: Let_def)
  next
    case False
    then show ?thesis using Cons.IH [of "start @ encode_operation op"] by (auto simp: Let_def)
  qed
qed auto

lemma patch_decode_sound:
  assumes d: "patch_decode limits (Some bs) = Inr plan"
  shows "patch_encode limits plan = Inr bs \<and> length bs \<le> unat (max_file_size limits) \<and>
     plan_storable limits plan"
proof -
  from d have len: "\<not> length bs < 28" "length bs \<le> unat (max_file_size limits)" "take 4 bs = magic_bfpt"
    and crc: "stored_checksum bs = crc32 (sealed_body bs)"
    and dp: "fst (decode_plan limits (reader_of (drop 4 (sealed_body bs)) little)) = Inr plan"
    by (simp_all add: patch_decode_def split: if_splits)
  let ?r = "reader_of (drop 4 (sealed_body bs)) little"
  have small: "length (drop 4 (sealed_body bs)) < 2 ^ 64"
    using len(2) unat_u64_bound [of "max_file_size limits"] by (simp add: sealed_body_def)
  have l: "lit ?r" using reader_ok_reader_of [OF small] by (simp add: lit_def)
  obtain r' where "decode_plan limits ?r = (Inr plan, r')" using dp by (metis prod.collapse)
  from decode_plan_exact [OF l this] have st: "plan_storable limits plan"
    and body: "drop 4 (sealed_body bs) = encode_plan_body plan"
    using moves_rest by fastforce+
  have "bs = seal (sealed_body bs)" using seal_sealed_body crc len(1) by simp
  moreover have "sealed_body bs = magic_bfpt @ encode_plan_body plan"
    using append_take_drop_id [of 4 "sealed_body bs"] len(1,3) body
    by (simp add: sealed_body_def)
  ultimately have bs: "bs = seal (magic_bfpt @ encode_plan_body plan)" by simp
  have "encode_operations limits (plan_operations plan) (magic_bfpt @ encode_plan_header plan) =
      Inr (magic_bfpt @ encode_plan_body plan)"
    using len(2) bs by (simp add: encode_operations_Inr_iff encode_plan_body_def)
  then have "patch_encode limits plan = Inr bs"
    using st by (simp add: patch_encode_def plan_storable_def bs seal_def)
  then show "patch_encode limits plan = Inr bs \<and> length bs \<le> unat (max_file_size limits) \<and>
     plan_storable limits plan" using len(2) st by simp
qed

lemma patch_decode_complete:
  assumes h: "patch_encode limits plan = Inr bs \<and> length bs \<le> unat (max_file_size limits) \<and>
     plan_storable limits plan"
  shows "patch_decode limits (Some bs) = Inr plan"
proof -
  from h have bs: "bs = seal (magic_bfpt @ encode_plan_body plan)"
    by (auto simp: patch_encode_def encode_operations_Inr_iff encode_plan_body_def seal_def
        split: if_splits sum.splits)
  let ?body = "encode_plan_body plan"
  let ?r = "reader_of ?body little"
  have small: "length ?body < 2 ^ 64"
    using h bs unat_u64_bound [of "max_file_size limits"] by simp
  then have ok: "reader_ok ?r" by (rule reader_ok_reader_of)
  then have l: "lit ?r" by (simp add: lit_def)
  have m: "moves ?r ?body (rd_advance (length ?body) ?r)" by (rule movesI [OF ok, of _ "[]"]) simp
  have e: "rd_rest (rd_advance (length ?body) ?r) = []" using ok by (simp add: rd_rest_advance)
  have "decode_plan limits ?r = (Inr plan, rd_advance (length ?body) ?r)"
    by (rule decode_plan_encoded [OF _ l m e]) (use h in simp)
  moreover have "28 \<le> length bs"
    by (simp add: bs encode_plan_body_def encode_plan_header_def magic_bfpt_def)
  moreover have "take 4 bs = magic_bfpt" by (simp add: bs seal_def magic_bfpt_def)
  moreover have "drop 4 (sealed_body bs) = encode_plan_body plan" by (simp add: bs magic_bfpt_def)
  moreover have "stored_checksum bs = crc32 (sealed_body bs)" by (simp add: bs)
  ultimately show "patch_decode limits (Some bs) = Inr plan"
    using h by (simp add: patch_decode_def)
qed

section \<open>Properties\<close>

text \<open>
  C14. \<open>decode\<close> is the exact inverse of \<open>encode\<close>: it accepts a container if and only if the
  container is the encoding of the plan it returns and respects the limits; so every storable plan
  round-trips, and no other byte string is accepted.
\<close>

theorem patch_decode_iff_encode:
  "patch_decode limits (Some bs) = Inr plan \<longleftrightarrow>
     patch_encode limits plan = Inr bs \<and> length bs \<le> unat (max_file_size limits) \<and>
     plan_storable limits plan"
  using patch_decode_sound patch_decode_complete by blast

interpretation patch_seal: sealed "\<lambda>bs. patch_decode limits (Some bs)" for limits
  by unfold_locales (simp add: patch_decode_def split: if_splits)

text \<open>
  A patch container with one byte changed, anywhere in it, is refused.
\<close>

theorem corrupted_patch_refused:
  assumes "patch_decode limits (Some bs) = Inr plan" "i < length bs" "b \<noteq> bs ! i"
  shows "\<exists>e. patch_decode limits (Some (bs[i := b])) = Inl e"
  using assms by (rule patch_seal.corrupted_byte)

theorem corrupted_patch_refused_witness:
  "\<exists>bs e. patch_decode demo_limits (Some bs) = Inr (demo_plan []) \<and>
     patch_decode demo_limits (Some (bs[9 := bs ! 9 + 1])) = Inl e"
proof -
  let ?bs = "seal (magic_bfpt @ encode_plan_body (demo_plan []))"
  have len: "length ?bs = 33"
    by (simp add: encode_plan_body_def encode_plan_header_def magic_bfpt_def demo_plan_def)
  have "patch_encode demo_limits (demo_plan []) = Inr ?bs"
    by (simp add: patch_encode_def demo_plan_def encode_plan_body_def seal_def demo_limits_def default_limits_def)
  moreover have "length ?bs \<le> unat (max_file_size demo_limits)"
    unfolding len by (simp add: demo_limits_def)
  moreover have "plan_storable demo_limits (demo_plan [])"
    by (simp add: plan_storable_def demo_plan_def demo_limits_def default_limits_def)
  ultimately have d: "patch_decode demo_limits (Some ?bs) = Inr (demo_plan [])"
    by (intro patch_decode_complete) simp
  have "?bs ! 9 + 1 \<noteq> ?bs ! 9" by simp
  with corrupted_patch_refused [OF d, of 9] d show ?thesis unfolding len by auto
qed

end
