(* ===== verification/Snapshot.thy ===== *)
theory Snapshot
  imports Address_Space Container "HOL-Library.Multiset"
begin

text \<open>
  \<open>MemorySnapshotCodec\<close> of \<open>src/snapshot.cc\<close>: capturing an address space, restoring it through a
  staged copy, and the container snapshots are stored in.
\<close>

section \<open>Snapshots\<close>

record SnapshotRegion =
  snr_base :: u64
  snr_size :: u64
  snr_permissions :: u8
  snr_name :: string
  snr_checksum :: u32
  snr_bytes :: bytes

record MemorySnapshot =
  snap_version :: u32
  snap_mapped_bytes :: u64
  snap_regions :: "SnapshotRegion list"

definition capture_region :: "bool \<Rightarrow> MemoryRegion \<Rightarrow> SnapshotRegion" where
  "capture_region include_bytes source =
     \<lparr>snr_base = reg_base source, snr_size = reg_size source,
      snr_permissions = reg_permissions source, snr_name = reg_name source,
      snr_checksum = crc32 (reg_bytes source),
      snr_bytes = (if include_bytes then reg_bytes source else [])\<rparr>"

text \<open>\<open>capture\<close> returns a snapshot in every case, and sets the error beside it.\<close>

definition capture :: "Limits \<Rightarrow> AddressSpace \<Rightarrow> bool \<Rightarrow> Error \<times> MemorySnapshot" where
  "capture limits m include_bytes =
    (if as_mapped_bytes m > max_mapped_bytes limits \<or>
        length (as_regions m) > unat (max_segments limits)
     then (mk_error resource_limit 0 ''address space exceeds snapshot limits'',
           \<lparr>snap_version = 1, snap_mapped_bytes = as_mapped_bytes m, snap_regions = []\<rparr>)
     else (no_error,
           \<lparr>snap_version = 1, snap_mapped_bytes = as_mapped_bytes m,
            snap_regions = map (\<lambda>item. capture_region include_bytes (snd item)) (as_regions m)\<rparr>))"

definition restore_region ::
    "Limits \<Rightarrow> SnapshotRegion \<Rightarrow> u64 \<Rightarrow> AddressSpace \<Rightarrow> Error + u64 \<times> AddressSpace" where
  "restore_region limits source total_bytes staged =
    (if snr_size source = 0 \<or> snr_size source > max_mapped_bytes limits \<or>
        length (snr_name source) > unat (max_string_bytes limits) \<or>
        (snr_bytes source \<noteq> [] \<and> length (snr_bytes source) \<noteq> unat (snr_size source))
     then Inl (mk_error invalid_segment (snr_base source) ''snapshot region is invalid'')
     else case (case checked_add total_bytes (snr_size source) of
                  None \<Rightarrow> None
                | Some next_total \<Rightarrow>
                    if next_total > max_mapped_bytes limits then None else Some next_total) of
       None \<Rightarrow> Inl (mk_error resource_limit (snr_base source) ''snapshot mapped-byte total exceeds limit'')
     | Some next_total \<Rightarrow>
    (case as_map (snr_base source) (snr_size source) (snr_permissions source) (snr_name source) staged of
       Inl e \<Rightarrow> Inl e
     | Inr mapped \<Rightarrow>
         if snr_bytes source = [] then Inr (next_total, mapped)
         else if crc32 (snr_bytes source) \<noteq> snr_checksum source
         then Inl (mk_error invalid_header (snr_base source) ''snapshot region checksum does not match'')
         else (case as_write (snr_base source) (snr_bytes source) True mapped of
                 Inl e \<Rightarrow> Inl e
               | Inr written \<Rightarrow> Inr (next_total, written))))"

fun restore_regions ::
    "Limits \<Rightarrow> SnapshotRegion list \<Rightarrow> u64 \<Rightarrow> AddressSpace \<Rightarrow> Error + u64 \<times> AddressSpace" where
  "restore_regions limits [] total_bytes staged = Inr (total_bytes, staged)"
| "restore_regions limits (source # rest) total_bytes staged =
    (case restore_region limits source total_bytes staged of
       Inl e \<Rightarrow> Inl e
     | Inr (next_total, staged') \<Rightarrow> restore_regions limits rest next_total staged')"

text \<open>\<open>restore\<close> replaces the memory it is given by the staged one, when nothing failed.\<close>

definition restore :: "Limits \<Rightarrow> MemorySnapshot \<Rightarrow> AddressSpace \<Rightarrow> (Error + unit) \<times> AddressSpace" where
  "restore limits snapshot memory =
    (if snap_version snapshot \<noteq> 1 \<or> snap_mapped_bytes snapshot > max_mapped_bytes limits \<or>
        length (snap_regions snapshot) > unat (max_segments limits)
     then (Inl (mk_error resource_limit 0 ''memory snapshot metadata is invalid''), memory)
     else case restore_regions limits (snap_regions snapshot) 0 (new_address_space limits) of
       Inl e \<Rightarrow> (Inl e, memory)
     | Inr (total_bytes, staged) \<Rightarrow>
         if snap_mapped_bytes snapshot \<noteq> total_bytes
         then (Inl (mk_error invalid_header 0 ''snapshot mapped-byte total does not match regions''), memory)
         else (Inr (), staged))"

section \<open>The container\<close>

definition magic_bfsn :: bytes where
  "magic_bfsn = bytes_of_string ''BFSN''"

definition encode_region :: "SnapshotRegion \<Rightarrow> bytes" where
  "encode_region region =
     le_bytes 8 (snr_base region) @ le_bytes 8 (snr_size region) @ [snr_permissions region] @
     le_bytes 4 (of_nat (length (snr_name region)) :: u32) @ bytes_of_string (snr_name region) @
     le_bytes 4 (snr_checksum region) @ le_bytes 8 (of_nat (length (snr_bytes region)) :: u64) @
     snr_bytes region"

fun encode_regions :: "Limits \<Rightarrow> SnapshotRegion list \<Rightarrow> bytes \<Rightarrow> Error + bytes" where
  "encode_regions limits [] output = Inr output"
| "encode_regions limits (region # rest) output =
    (if length (snr_name region) > unat (max_string_bytes limits) \<or>
        length (snr_bytes region) > unat (max_mapped_bytes limits)
     then Inl (mk_error resource_limit (snr_base region) ''snapshot region exceeds encoding limits'')
     else encode_regions limits rest (output @ encode_region region))"

definition encode_snapshot_header :: "MemorySnapshot \<Rightarrow> bytes" where
  "encode_snapshot_header snapshot =
     le_bytes 4 (snap_version snapshot) @ le_bytes 8 (snap_mapped_bytes snapshot) @
     le_bytes 4 (of_nat (length (snap_regions snapshot)) :: u32)"

definition snapshot_encode :: "Limits \<Rightarrow> MemorySnapshot \<Rightarrow> Error + bytes" where
  "snapshot_encode limits snapshot =
    (if length (snap_regions snapshot) > unat (max_segments limits) \<or>
        snap_mapped_bytes snapshot > max_mapped_bytes limits
     then Inl (mk_error resource_limit 0 ''snapshot exceeds encoding limits'')
     else case encode_regions limits (snap_regions snapshot)
                 (magic_bfsn @ encode_snapshot_header snapshot) of
       Inl e \<Rightarrow> Inl e
     | Inr output \<Rightarrow> Inr (output @ le_bytes 4 (crc32 output)))"

definition decode_region :: "Limits \<Rightarrow> (Error, SnapshotRegion) parse" where
  "decode_region limits =
     pbind (on_fail
       (pbind read_u64 (\<lambda>base. pbind read_u64 (\<lambda>len. pbind read_u8 (\<lambda>perms.
        pbind read_u32 (\<lambda>name_size.
        pbind (pcheck (\<lambda>r. \<not> ucast name_size > max_string_bytes limits \<and>
                             \<not> ucast name_size > rd_remaining r)) (\<lambda>_.
        preturn (base, len, perms, name_size)))))))
       (\<lambda>r. mk_error truncated (rd_position r) ''snapshot region header is truncated''))
     (\<lambda>(base, len, perms, name_size).
     pbind (on_fail
       (pbind (read_bytes (ucast name_size)) (\<lambda>name. pbind read_u32 (\<lambda>checksum.
        pbind read_u64 (\<lambda>byte_size.
        pbind (pcheck (\<lambda>r. \<not> byte_size > max_mapped_bytes limits \<and>
                             \<not> byte_size > rd_remaining r)) (\<lambda>_.
        preturn (name, checksum, byte_size))))))
       (\<lambda>r. mk_error truncated (rd_position r) ''snapshot region data is truncated''))
     (\<lambda>(name, checksum, byte_size).
     pbind (on_fail (read_bytes byte_size) (\<lambda>_. no_error)) (\<lambda>bs.
     preturn \<lparr>snr_base = base, snr_size = len, snr_permissions = perms,
              snr_name = string_of_bytes name, snr_checksum = checksum, snr_bytes = bs\<rparr>)))"

definition decode_snapshot :: "Limits \<Rightarrow> (Error, MemorySnapshot) parse" where
  "decode_snapshot limits =
     pbind (on_fail
       (pbind read_u32 (\<lambda>version. pbind read_u64 (\<lambda>mapped. pbind read_u32 (\<lambda>count.
        pbind (pcheck (\<lambda>_. \<not> (version \<noteq> 1 \<or> count > max_segments limits \<or>
                              mapped > max_mapped_bytes limits))) (\<lambda>_.
        preturn (version, mapped, count))))))
       (\<lambda>_. mk_error invalid_header 4 ''snapshot container header is invalid''))
     (\<lambda>(version, mapped, count).
     pbind (prepeat (unat count) (decode_region limits)) (\<lambda>regions.
     pbind (pguard (\<lambda>r. rd_remaining r = 0)
       (\<lambda>r. mk_error invalid_header (rd_position r) ''snapshot container contains trailing bytes'')) (\<lambda>_.
     preturn \<lparr>snap_version = version, snap_mapped_bytes = mapped, snap_regions = regions\<rparr>)))"

definition snapshot_decode :: "Limits \<Rightarrow> bytes option \<Rightarrow> Error + MemorySnapshot" where
  "snapshot_decode limits input =
    (case input of
       None \<Rightarrow> Inl (mk_error bad_magic 0 ''snapshot container is invalid'')
     | Some data \<Rightarrow>
         if length data < 24 \<or> take 4 data \<noteq> magic_bfsn \<or>
            length data > unat (max_mapped_bytes limits + max_file_size limits)
         then Inl (mk_error bad_magic 0 ''snapshot container is invalid'')
         else if stored_checksum data \<noteq> crc32 (sealed_body data)
         then Inl (mk_error invalid_header (of_nat (length data - 4)) ''snapshot container checksum does not match'')
         else fst (decode_snapshot limits (reader_of (drop 4 (sealed_body data)) little)))"

section \<open>One region\<close>

definition region_storable :: "Limits \<Rightarrow> SnapshotRegion \<Rightarrow> bool" where
  "region_storable limits region \<longleftrightarrow>
     length (snr_name region) < 2 ^ 32 \<and> length (snr_name region) \<le> unat (max_string_bytes limits) \<and>
     length (snr_bytes region) \<le> unat (max_mapped_bytes limits)"

lemma decode_region_encoded:
  assumes st: "region_storable limits region" and o: "rd_order r = little"
    and m: "moves r (encode_region region) r'"
  shows "decode_region limits r = (Inr region, r')"
proof -
  let ?n = "of_nat (length (snr_name region)) :: u32" and ?k = "of_nat (length (snr_bytes region)) :: u64"
  obtain r1 r2 r3 r4 r5 r6 r7 where m:
    "moves r (le_bytes 8 (snr_base region)) r1" "moves r1 (le_bytes 8 (snr_size region)) r2"
    "moves r2 [snr_permissions region] r3" "moves r3 (le_bytes 4 ?n) r4"
    "moves r4 (bytes_of_string (snr_name region)) r5" "moves r5 (le_bytes 4 (snr_checksum region)) r6"
    "moves r6 (le_bytes 8 ?k) r7" "moves r7 (snr_bytes region) r'"
    using m unfolding encode_region_def moves_append by blast
  have n: "unat ?n = length (snr_name region)"
    using st by (intro unat_of_nat_u32) (simp add: region_storable_def)
  have k: "unat ?k = length (snr_bytes region)"
    using st unat_u64_bound [of "max_mapped_bytes limits"]
    by (intro unat_of_nat_u64) (simp add: region_storable_def)
  have ord: "rd_order r1 = little" "rd_order r3 = little" "rd_order r5 = little" "rd_order r6 = little"
    using o m moves_order by metis+
  have small: "\<not> ucast ?n > max_string_bytes limits" "\<not> ucast ?n > rd_remaining r4"
    "\<not> ?k > max_mapped_bytes limits" "\<not> ?k > rd_remaining r7"
    using st moves_remaining [OF m(5)] moves_remaining [OF m(8)]
    by (simp_all add: word_less_nat_alt n k region_storable_def)
  have name: "read_bytes (ucast ?n) r4 = (Inr (bytes_of_string (snr_name region)), r5)"
    by (rule read_bytes_decode [OF m(5)]) (simp add: n)
  have bs: "read_bytes ?k r7 = (Inr (snr_bytes region), r')"
    by (rule read_bytes_decode [OF m(8) k])
  note steps = read_u64_moves [OF m(1) o] read_u64_moves [OF m(2) ord(1)] moves_u8 [OF m(3)]
    read_u32_moves [OF m(4) ord(2)] read_u32_moves [OF m(6) ord(3)] read_u64_moves [OF m(7) ord(4)]
  show ?thesis
    by (simp add: decode_region_def pbind_def on_fail_def pcheck_def preturn_def steps small name bs)
qed

lemma decode_region_exact:
  assumes ok: "reader_ok r" and o: "rd_order r = little" and d: "decode_region limits r = (Inr region, r')"
  shows "region_storable limits region \<and> moves r (encode_region region) r'"
proof -
  obtain r1 r2 r3 r4 r5 r6 r7 base len perms n name checksum k bs where
    d: "read_u64 r = (Inr base, r1)" "read_u64 r1 = (Inr len, r2)" "read_u8 r2 = (Inr perms, r3)"
    "read_u32 r3 = (Inr n, r4)" "read_bytes (ucast n) r4 = (Inr name, r5)"
    "read_u32 r5 = (Inr checksum, r6)" "read_u64 r6 = (Inr k, r7)" "read_bytes k r7 = (Inr bs, r')"
    and c: "\<not> ucast n > max_string_bytes limits" "\<not> k > max_mapped_bytes limits"
    and region: "region = \<lparr>snr_base = base, snr_size = len, snr_permissions = perms,
              snr_name = string_of_bytes name, snr_checksum = checksum, snr_bytes = bs\<rparr>"
    using d by (auto simp: decode_region_def pbind_Inr)
  have l: "lit r" using ok o by (simp add: lit_def)
  have l4: "lit r4" by (rule u32_lit [OF u8_lit [OF u64_lit [OF u64_lit [OF l d(1)] d(2)] d(3)] d(4)])
  have l7: "lit r7" by (rule u64_lit [OF u32_lit [OF bytes_lit [OF l4 d(5)] d(6)] d(7)])
  have len: "length name = unat n" "length bs = unat k"
    using bytes_read_length [OF l4 d(5)] bytes_read_length [OF l7 d(8)] by simp_all
  have "region_storable limits region"
    using c len unat_u32_bound [of n] by (simp add: region region_storable_def word_less_nat_alt)
  moreover have n: "of_nat (length name) = n" "of_nat (length bs) = k" by (simp_all add: len)
  have "moves r (le_bytes 8 base @ le_bytes 8 len @ [perms] @ le_bytes 4 n @ name @
      le_bytes 4 checksum @ le_bytes 8 k @ bs) r'"
    by (rule u64_via [OF l d(1)], rule u64_via [OF _ d(2)], assumption, rule u8_via [OF _ d(3)], assumption,
      rule u32_via [OF _ d(4)], assumption, rule bytes_via [OF _ d(5)], assumption,
      rule u32_via [OF _ d(6)], assumption, rule u64_via [OF _ d(7)], assumption,
      rule bytes_read [OF _ d(8)])
  then have "moves r (encode_region region) r'"
    using n by (simp add: region encode_region_def)
  ultimately show ?thesis ..
qed

interpretation region_codec: codec encode_region "decode_region limits" "region_storable limits" for limits
  by unfold_locales (rule decode_region_encoded decode_region_exact; assumption)+

section \<open>The snapshot\<close>

definition snapshot_storable :: "Limits \<Rightarrow> MemorySnapshot \<Rightarrow> bool" where
  "snapshot_storable limits snapshot \<longleftrightarrow>
     snap_version snapshot = 1 \<and> snap_mapped_bytes snapshot \<le> max_mapped_bytes limits \<and>
     length (snap_regions snapshot) \<le> unat (max_segments limits) \<and>
     list_all (region_storable limits) (snap_regions snapshot)"

definition encode_snapshot_body :: "MemorySnapshot \<Rightarrow> bytes" where
  "encode_snapshot_body snapshot =
     encode_snapshot_header snapshot @ concat (map encode_region (snap_regions snapshot))"

lemma decode_snapshot_encoded:
  assumes st: "snapshot_storable limits snapshot" and l: "lit r"
    and m: "moves r (encode_snapshot_body snapshot) r'" and e: "rd_rest r' = []"
  shows "decode_snapshot limits r = (Inr snapshot, r')"
proof -
  let ?k = "of_nat (length (snap_regions snapshot)) :: u32"
  obtain r1 r2 r3 where m:
    "moves r (le_bytes 4 (snap_version snapshot)) r1" "moves r1 (le_bytes 8 (snap_mapped_bytes snapshot)) r2"
    "moves r2 (le_bytes 4 ?k) r3" "moves r3 (concat (map encode_region (snap_regions snapshot))) r'"
    using m unfolding encode_snapshot_body_def encode_snapshot_header_def moves_append by blast
  have k: "unat ?k = length (snap_regions snapshot)"
    using st unat_u32_bound [of "max_segments limits"] by (intro unat_of_nat_u32) (simp add: snapshot_storable_def)
  have "rd_order r = little" using l by (simp add: lit_def)
  then have ord: "rd_order r = little" "rd_order r1 = little" "rd_order r2 = little" "rd_order r3 = little"
    using m moves_order by metis+
  have small: "snap_version snapshot = 1" "\<not> ?k > max_segments limits"
    "\<not> snap_mapped_bytes snapshot > max_mapped_bytes limits"
    using st by (simp_all add: word_less_nat_alt word_le_nat_alt k snapshot_storable_def)
  have regions: "prepeat (unat ?k) (decode_region limits) r3 = (Inr (snap_regions snapshot), r')"
    unfolding k using st by (intro region_codec.decode_list [OF _ ord(4) m(4)]) (simp add: snapshot_storable_def)
  have fin: "rd_remaining r' = 0" using e m(4) by (simp add: rd_remaining_0_iff moves_okD)
  note steps = read_u32_moves [OF m(1) ord(1)] read_u64_moves [OF m(2) ord(2)] read_u32_moves [OF m(3) ord(3)]
  show ?thesis
    using small by (simp add: decode_snapshot_def pbind_def on_fail_def pcheck_def pguard_def preturn_def
        steps regions fin)
qed

lemma decode_snapshot_exact:
  assumes l: "lit r" and d: "decode_snapshot limits r = (Inr snapshot, r')"
  shows "snapshot_storable limits snapshot \<and> moves r (encode_snapshot_body snapshot) r' \<and> rd_rest r' = []"
proof -
  obtain r1 r2 r3 mapped k regions where
    d: "read_u32 r = (Inr 1, r1)" "read_u64 r1 = (Inr mapped, r2)" "read_u32 r2 = (Inr k, r3)"
    "prepeat (unat k) (decode_region limits) r3 = (Inr regions, r')"
    and c: "\<not> k > max_segments limits" "\<not> mapped > max_mapped_bytes limits" "rd_remaining r' = 0"
    and snapshot: "snapshot = \<lparr>snap_version = 1, snap_mapped_bytes = mapped, snap_regions = regions\<rparr>"
    using d by (auto simp: decode_snapshot_def pbind_Inr)
  have l3: "lit r3" by (rule u32_lit [OF u64_lit [OF u32_lit [OF l d(1)] d(2)] d(3)])
  have regions: "length regions = unat k" "list_all (region_storable limits) regions"
    "moves r3 (concat (map encode_region regions)) r'"
    using region_codec.encode_list [OF _ _ d(4)] l3 by (simp_all add: lit_def)
  have "snapshot_storable limits snapshot"
    using c(1,2) regions by (simp add: snapshot snapshot_storable_def word_less_nat_alt word_le_nat_alt)
  moreover have n: "of_nat (length regions) = k" by (simp add: regions)
  have "moves r (le_bytes 4 (1 :: u32) @ le_bytes 8 mapped @ le_bytes 4 k @ concat (map encode_region regions)) r'"
    by (rule u32_via [OF l d(1)], rule u64_via [OF _ d(2)], assumption, rule u32_via [OF _ d(3)], assumption,
      rule regions(3))
  then have "moves r (encode_snapshot_body snapshot) r'"
    using n by (simp add: snapshot encode_snapshot_body_def encode_snapshot_header_def)
  moreover from this have "rd_rest r' = []" using c(3) by (simp add: rd_remaining_0_iff moves_okD)
  ultimately show ?thesis by simp
qed

lemma encode_regions_Inr_iff:
  "encode_regions limits regions start = Inr output \<longleftrightarrow>
     output = start @ concat (map encode_region regions) \<and>
     (\<forall>region \<in> set regions. length (snr_name region) \<le> unat (max_string_bytes limits) \<and>
        length (snr_bytes region) \<le> unat (max_mapped_bytes limits))"
proof (induction regions arbitrary: start)
  case (Cons region regions)
  show ?case using Cons.IH [of "start @ encode_region region"] by auto
qed auto

lemma snapshot_decode_sound:
  assumes d: "snapshot_decode limits (Some bs) = Inr snapshot"
  shows "snapshot_encode limits snapshot = Inr bs \<and> snapshot_storable limits snapshot \<and>
    length bs \<le> unat (max_mapped_bytes limits + max_file_size limits)"
proof -
  from d have len: "\<not> length bs < 24" "length bs \<le> unat (max_mapped_bytes limits + max_file_size limits)"
      "take 4 bs = magic_bfsn"
    and crc: "stored_checksum bs = crc32 (sealed_body bs)"
    and ds: "fst (decode_snapshot limits (reader_of (drop 4 (sealed_body bs)) little)) = Inr snapshot"
    by (simp_all add: snapshot_decode_def split: if_splits)
  let ?r = "reader_of (drop 4 (sealed_body bs)) little"
  have small: "length (drop 4 (sealed_body bs)) < 2 ^ 64"
    using len(2) unat_u64_bound [of "max_mapped_bytes limits + max_file_size limits"] by (simp add: sealed_body_def)
  have l: "lit ?r" using reader_ok_reader_of [OF small] by (simp add: lit_def)
  obtain r' where "decode_snapshot limits ?r = (Inr snapshot, r')" using ds by (metis prod.collapse)
  from decode_snapshot_exact [OF l this] have st: "snapshot_storable limits snapshot"
    and body: "drop 4 (sealed_body bs) = encode_snapshot_body snapshot"
    using moves_rest by fastforce+
  have "bs = seal (sealed_body bs)" using seal_sealed_body crc len(1) by simp
  moreover have "sealed_body bs = magic_bfsn @ encode_snapshot_body snapshot"
    using append_take_drop_id [of 4 "sealed_body bs"] len(1,3) body
    by (simp add: sealed_body_def)
  ultimately have bs: "bs = seal (magic_bfsn @ encode_snapshot_body snapshot)" by simp
  have "encode_regions limits (snap_regions snapshot) (magic_bfsn @ encode_snapshot_header snapshot) =
      Inr (magic_bfsn @ encode_snapshot_body snapshot)"
    using st by (simp add: encode_regions_Inr_iff encode_snapshot_body_def snapshot_storable_def
        region_storable_def list_all_iff)
  then have "snapshot_encode limits snapshot = Inr bs"
    using st by (simp add: snapshot_encode_def snapshot_storable_def bs seal_def not_less)
  then show ?thesis using len(2) st by simp
qed

lemma snapshot_decode_complete:
  assumes h: "snapshot_encode limits snapshot = Inr bs" "snapshot_storable limits snapshot"
    "length bs \<le> unat (max_mapped_bytes limits + max_file_size limits)"
  shows "snapshot_decode limits (Some bs) = Inr snapshot"
proof -
  let ?body = "encode_snapshot_body snapshot"
  let ?r = "reader_of ?body little"
  from h have bs: "bs = seal (magic_bfsn @ ?body)"
    by (auto simp: snapshot_encode_def encode_regions_Inr_iff encode_snapshot_body_def seal_def
        split: if_splits sum.splits)
  have small: "length ?body < 2 ^ 64"
    using h(3) bs unat_u64_bound [of "max_mapped_bytes limits + max_file_size limits"] by simp
  then have ok: "reader_ok ?r" by (rule reader_ok_reader_of)
  then have l: "lit ?r" by (simp add: lit_def)
  have m: "moves ?r ?body (rd_advance (length ?body) ?r)" by (rule movesI [OF ok, of _ "[]"]) simp
  have e: "rd_rest (rd_advance (length ?body) ?r) = []" using ok by (simp add: rd_rest_advance)
  have "decode_snapshot limits ?r = (Inr snapshot, rd_advance (length ?body) ?r)"
    by (rule decode_snapshot_encoded [OF h(2) l m e])
  moreover have "24 \<le> length bs"
    by (simp add: bs encode_snapshot_body_def encode_snapshot_header_def magic_bfsn_def)
  moreover have "take 4 bs = magic_bfsn" by (simp add: bs seal_def magic_bfsn_def)
  moreover have "drop 4 (sealed_body bs) = ?body" by (simp add: bs magic_bfsn_def)
  moreover have "stored_checksum bs = crc32 (sealed_body bs)" by (simp add: bs)
  ultimately show ?thesis using h(3) by (simp add: snapshot_decode_def)
qed

interpretation snapshot_seal: sealed "\<lambda>bs. snapshot_decode limits (Some bs)" for limits
  by unfold_locales (simp add: snapshot_decode_def split: if_splits)

section \<open>Restoring what was captured\<close>

definition staged_space :: "Limits \<Rightarrow> (u64, MemoryRegion) omap \<Rightarrow> AddressSpace" where
  "staged_space limits m = \<lparr>as_limits = limits, as_regions = m, as_mapped_bytes = of_nat (regions_total m)\<rparr>"

lemma regions_ok_append:
  "regions_ok (xs @ ys) \<longleftrightarrow> regions_ok xs \<and> regions_ok ys \<and>
     (\<forall>x \<in> set xs. \<forall>y \<in> set ys. region_end (snd x) \<le> unat (fst y))"
  by (auto simp: regions_ok_def sorted_wrt_append)

lemma staged_space_ok:
  "regions_ok m \<Longrightarrow> regions_total m \<le> unat (max_mapped_bytes limits) \<Longrightarrow> as_ok (staged_space limits m)"
  using unat_u64_bound [of "max_mapped_bytes limits"]
  by (simp add: as_ok_def staged_space_def unat_of_nat_u64 word_le_nat_alt del: unsigned_of_nat)

text \<open>Mapping and filling one region behind the regions already there.\<close>

lemma stage_region:
  assumes ok: "regions_ok (m @ [(b, r)])"
    and tot: "regions_total (m @ [(b, r)]) \<le> unat (max_mapped_bytes limits)"
  obtains s1 where
    "as_map b (reg_size r) (reg_permissions r) (reg_name r) (staged_space limits m) = Inr s1"
    "as_write b (reg_bytes r) True s1 = Inr (staged_space limits (m @ [(b, r)]))"
proof -
  let ?s = "staged_space limits m" and ?new = "new_region b (reg_size r) (reg_permissions r) (reg_name r)"
  have rok: "region_ok (b, r)" and okm: "regions_ok m"
    and before: "\<forall>x \<in> set m. region_end (snd x) \<le> unat b"
    using ok by (auto simp: regions_ok_append) (simp_all add: regions_ok_def)
  have r: "b = reg_base r" "reg_size r \<noteq> 0" "unat b + unat (reg_size r) < 2 ^ 64"
    "length (reg_bytes r) = unat (reg_size r)"
    using rok by (auto simp: region_ok_def region_end_def)
  have tm: "regions_total m + unat (reg_size r) \<le> unat (max_mapped_bytes limits)"
    using tot by (simp add: regions_total_def)
  have sok: "as_ok ?s" using okm tm by (intro staged_space_ok) simp_all
  have um: "unat (as_mapped_bytes ?s) = regions_total m"
    using tm unat_u64_bound [of "max_mapped_bytes limits"]
    by (simp add: staged_space_def unat_of_nat_u64 del: unsigned_of_nat)
  let ?s1 = "?s\<lparr>as_regions := om_emplace b ?new m, as_mapped_bytes := as_mapped_bytes ?s + reg_size r\<rparr>"
  have mp: "as_map b (reg_size r) (reg_permissions r) (reg_name r) ?s = Inr ?s1"
  proof -
    have "\<forall>x \<in> set m. disjoint_range (unat b) (unat b + unat (reg_size r)) (snd x)"
      using before by (simp add: disjoint_range_def)
    moreover have "as_regions ?s = m" "as_limits ?s = limits" by (simp_all add: staged_space_def)
    ultimately show ?thesis unfolding map_Inr_iff [OF sok] using r(2,3) tm um by simp
  qed
  have emplace: "om_emplace b ?new m = m @ [(b, ?new)]"
  proof -
    have lt: "fst x < b" if "x \<in> set m" for x
    proof -
      have "fst x = reg_base (snd x)" "reg_size (snd x) \<noteq> 0"
        using regions_ok_member [OF okm, of "fst x" "snd x"] that by simp_all
      then have "unat (fst x) < region_end (snd x)" by (simp add: region_end_def unat_gt_0)
      then show ?thesis using before that by (auto simp: word_less_nat_alt intro: less_le_trans)
    qed
    then have "om_find m b = None" by (force simp: om_find_None_iff)
    moreover have "takeWhile (\<lambda>e. fst e < b) m = m" "dropWhile (\<lambda>e. fst e < b) m = []"
      using lt by (simp_all add: takeWhile_eq_all_conv)
    ultimately show ?thesis by (simp add: om_emplace_def om_lower_bound_def)
  qed
  let ?f = "\<lambda>q. q\<lparr>reg_bytes := splice (unat (b - reg_base q)) (reg_bytes r) (reg_bytes q)\<rparr>"
  have filled: "?f ?new = r"
    using r by (simp add: new_region_def splice_def)
  have at: "as_region_at ?s1 b = Some ?new"
    using map_effect(2) [OF sok mp] r(2) by (simp add: in_range_def unat_gt_0)
  have n: "of_nat (length (reg_bytes r)) = reg_size r" by (simp add: r(4))
  have ne: "reg_bytes r \<noteq> []" using r(2,4) by (auto simp: unat_eq_zero)
  have "as_write b (reg_bytes r) True ?s1 = Inr (modify_region b ?f ?s1)"
  proof -
    have "region_contains ?new b (reg_size r)"
      by (simp add: region_contains_iff region_end_def) (simp add: new_region_def)
    moreover have "reg_base ?new = b" by (simp add: new_region_def)
    ultimately show ?thesis using ne at by (simp add: write_Inr_iff n)
  qed
  also have "modify_region b ?f ?s1 = staged_space limits (m @ [(b, r)])"
  proof -
    have "om_modify b ?f (m @ [(b, ?new)]) = m @ [(b, r)]"
    proof -
      have "om_modify b ?f m = m"
      proof (rule om_modify_id)
        fix v assume "(b, v) \<in> set m"
        then have "region_end v \<le> unat b" "b = reg_base v" "reg_size v \<noteq> 0"
          using before regions_ok_member [OF okm] by auto
        then show "?f v = v" by (simp add: region_end_def unat_eq_zero)
      qed
      then show ?thesis using filled by (simp add: om_modify_def)
    qed
    moreover have "as_mapped_bytes ?s + reg_size r = of_nat (regions_total (m @ [(b, r)]))"
      by (simp add: staged_space_def regions_total_def)
    ultimately show ?thesis by (simp add: modify_region_def emplace) (simp add: staged_space_def)
  qed
  finally show thesis using that mp by blast
qed

lemma restore_captured:
  assumes "regions_ok (pre @ todo)"
    and "regions_total (pre @ todo) \<le> unat (max_mapped_bytes limits)"
    and "\<forall>e \<in> set todo. length (reg_name (snd e)) \<le> unat (max_string_bytes limits)"
  shows "restore_regions limits (map (\<lambda>e. capture_region True (snd e)) todo)
      (of_nat (regions_total pre)) (staged_space limits pre) =
    Inr (of_nat (regions_total (pre @ todo)), staged_space limits (pre @ todo))"
  using assms
proof (induction todo arbitrary: pre)
  case (Cons e todo)
  obtain b r where e: "e = (b, r)" by (cases e)
  have ok1: "regions_ok (pre @ [(b, r)])"
    using Cons.prems(1) unfolding e regions_ok_append by (simp add: regions_ok_def)
  have tot1: "regions_total (pre @ [(b, r)]) \<le> unat (max_mapped_bytes limits)"
    using Cons.prems(2) by (simp add: regions_total_def e)
  have r: "b = reg_base r" "reg_size r \<noteq> 0" "length (reg_bytes r) = unat (reg_size r)"
    using regions_ok_member [OF ok1, of b r] by auto
  obtain s1 where s1: "as_map b (reg_size r) (reg_permissions r) (reg_name r) (staged_space limits pre) = Inr s1"
    "as_write b (reg_bytes r) True s1 = Inr (staged_space limits (pre @ [(b, r)]))"
    by (rule stage_region [OF ok1 tot1])
  have sum: "regions_total (pre @ [(b, r)]) = regions_total pre + unat (reg_size r)"
    by (simp add: regions_total_def)
  have small: "regions_total pre + unat (reg_size r) < 18446744073709551616"
    using tot1 unat_u64_bound [of "max_mapped_bytes limits"] by (simp add: sum)
  have ud: "unat (of_nat (regions_total pre) :: u64) = regions_total pre"
    using small by (intro unat_of_nat_u64) simp
  obtain next_total where nt: "checked_add (of_nat (regions_total pre)) (reg_size r) = Some next_total"
    "unat next_total = unat (of_nat (regions_total pre) :: u64) + unat (reg_size r)"
    using add_op.SomeI [of "of_nat (regions_total pre)" "reg_size r"] small unfolding ud by auto
  have nt': "next_total = of_nat (regions_total (pre @ [(b, r)]))"
    using nt(2) small by (simp add: word_unat_eq_iff sum ud unat_of_nat_u64 del: unsigned_of_nat of_nat_add)
  have ne: "reg_bytes r \<noteq> []" using r(2,3) by (auto simp: unat_eq_zero)
  have "\<not> next_total > max_mapped_bytes limits" "\<not> reg_size r > max_mapped_bytes limits"
    using nt(2) ud tot1 sum by (simp_all add: word_less_nat_alt)
  then have "restore_region limits (capture_region True r) (of_nat (regions_total pre)) (staged_space limits pre) =
      Inr (next_total, staged_space limits (pre @ [(b, r)]))"
    using r s1 nt(1) Cons.prems(3) ne by (auto simp: restore_region_def capture_region_def e)
  then show ?case
    using Cons.IH [of "pre @ [(b, r)]"] Cons.prems by (simp add: e nt')
qed simp

lemma restore_region_ok:
  assumes ok: "as_ok staged" and lim: "as_limits staged = limits"
    and rs: "restore_region limits source t staged = Inr (t', staged')"
    and t: "t = as_mapped_bytes staged"
  shows "as_ok staged' \<and> as_limits staged' = limits \<and> t' = as_mapped_bytes staged'"
proof -
  obtain mapped where nt: "checked_add t (snr_size source) = Some t'"
    and mp: "as_map (snr_base source) (snr_size source) (snr_permissions source) (snr_name source) staged = Inr mapped"
    and w: "staged' = mapped \<or> length (snr_bytes source) = unat (snr_size source) \<and>
      as_write (snr_base source) (snr_bytes source) True mapped = Inr staged'"
    using rs by (auto simp: restore_region_def split: if_splits option.splits sum.splits)
  have ok1: "as_ok mapped" by (rule map_effect(1) [OF ok mp])
  have "as_step staged mapped" using mp by (rule step_map)
  then have l1: "as_limits mapped = limits" using as_step_limits lim by simp
  have m1: "as_mapped_bytes mapped = t'"
    using map_effect(3) [OF ok mp] add_op.SomeD [OF nt] t by (simp add: word_unat_eq_iff)
  from w show ?thesis
  proof
    assume w: "length (snr_bytes source) = unat (snr_size source) \<and>
      as_write (snr_base source) (snr_bytes source) True mapped = Inr staged'"
    then have len: "length (snr_bytes source) < 2 ^ 64" using unat_u64_bound [of "snr_size source"] by simp
    have st: "as_step mapped staged'" using step_write [OF len] w by blast
    have "as_mapped_bytes staged' = as_mapped_bytes mapped"
      using w by (auto simp: write_Inr_iff modify_region_def)
    then show ?thesis using as_step_ok [OF st ok1] as_step_limits [OF st] l1 m1 by simp
  qed (use ok1 l1 m1 in simp)
qed

lemma restore_regions_ok:
  "as_ok staged \<Longrightarrow> as_limits staged = limits \<Longrightarrow> t = as_mapped_bytes staged \<Longrightarrow>
   restore_regions limits sources t staged = Inr (t', staged') \<Longrightarrow>
   as_ok staged' \<and> as_limits staged' = limits \<and> t' = as_mapped_bytes staged'"
proof (induction sources arbitrary: t staged)
  case (Cons source sources)
  then obtain t1 s1 where rs: "restore_region limits source t staged = Inr (t1, s1)"
    and rest: "restore_regions limits sources t1 s1 = Inr (t', staged')"
    by (auto split: sum.splits)
  from restore_region_ok [OF Cons.prems(1,2) rs Cons.prems(3)] Cons.IH [OF _ _ _ rest]
  show ?case by blast
qed auto

text \<open>The region a snapshot region stands for: its bytes, or zeros when the snapshot carries none.\<close>

definition region_of :: "SnapshotRegion \<Rightarrow> u64 \<times> MemoryRegion" where
  "region_of source = (snr_base source,
     \<lparr>reg_base = snr_base source, reg_size = snr_size source, reg_permissions = snr_permissions source,
      reg_name = snr_name source,
      reg_bytes = (if snr_bytes source = [] then replicate (unat (snr_size source)) 0 else snr_bytes source)\<rparr>)"

lemma emplace_modify:
  assumes "om_find m k = None"
  shows "mset (om_emplace k v m) = add_mset (k, v) (mset m)"
    "mset (om_modify k f (om_emplace k v m)) = add_mset (k, f v) (mset m)"
proof -
  let ?l = "takeWhile (\<lambda>e. fst e < k) m" and ?g = "dropWhile (\<lambda>e. fst e < k) m"
  have e: "om_emplace k v m = ?l @ (k, v) # ?g"
    using assms by (simp add: om_emplace_def om_lower_bound_def)
  have other: "om_modify k f xs = xs" if "set xs \<subseteq> set m" for xs
  proof -
    have "k \<notin> fst ` set xs" using that assms by (auto simp: om_find_None_iff)
    then show ?thesis unfolding om_modify_def by (auto intro!: map_idI simp: image_iff)
  qed
  have "om_modify k f ?l = ?l" "om_modify k f ?g = ?g"
    by (rule other; use set_append [of ?l ?g] in \<open>auto simp del: set_append dest: set_takeWhileD\<close>)+
  then have "om_modify k f (om_emplace k v m) = ?l @ (k, f v) # ?g"
    by (simp add: e om_modify_def)
  moreover have "mset m = mset ?l + mset ?g" by (simp flip: mset_append)
  ultimately show "mset (om_emplace k v m) = add_mset (k, v) (mset m)"
    "mset (om_modify k f (om_emplace k v m)) = add_mset (k, f v) (mset m)"
    by (simp_all add: e)
qed

lemma restore_region_adds:
  assumes ok: "as_ok staged" and rs: "restore_region limits source t staged = Inr (t', staged')"
  shows "mset (as_regions staged') = add_mset (region_of source) (mset (as_regions staged))"
proof -
  let ?b = "snr_base source" and ?bs = "snr_bytes source"
  let ?new = "new_region ?b (snr_size source) (snr_permissions source) (snr_name source)"
  obtain mapped where mp: "as_map ?b (snr_size source) (snr_permissions source) (snr_name source) staged = Inr mapped"
    and w: "if ?bs = [] then staged' = mapped else length ?bs = unat (snr_size source) \<and>
      as_write ?b ?bs True mapped = Inr staged'"
    using rs by (auto simp: restore_region_def split: if_splits option.splits sum.splits)
  have m: "snr_size source \<noteq> 0"
      "\<forall>x \<in> set (as_regions staged). disjoint_range (unat ?b) (unat ?b + unat (snr_size source)) (snd x)"
    and mapped: "mapped = staged\<lparr>as_regions := om_emplace ?b ?new (as_regions staged),
      as_mapped_bytes := as_mapped_bytes staged + snr_size source\<rparr>"
    using iffD1 [OF map_Inr_iff [OF ok] mp] by blast+
  have fresh: "om_find (as_regions staged) ?b = None"
  proof -
    have "fst x \<noteq> ?b" if "x \<in> set (as_regions staged)" for x
    proof
      assume b: "fst x = ?b"
      have "fst x = reg_base (snd x)" "reg_size (snd x) \<noteq> 0"
        using regions_ok_member [of "as_regions staged" "fst x" "snd x"] that ok by (simp_all add: as_ok_def)
      then show False
        using m that b by (auto simp: disjoint_range_def region_end_def unat_eq_zero)
    qed
    then show ?thesis by (force simp: om_find_None_iff)
  qed
  note em = emplace_modify [OF fresh]
  show ?thesis
  proof (cases "?bs = []")
    case True
    then show ?thesis using w by (simp add: mapped em region_of_def new_region_def)
  next
    case False
    let ?f = "\<lambda>q. q\<lparr>reg_bytes := splice (unat (?b - reg_base q)) ?bs (reg_bytes q)\<rparr>"
    have at: "as_region_at mapped ?b = Some ?new"
      using map_effect(2) [OF ok mp] m(1) by (simp add: in_range_def unat_gt_0)
    have "reg_base ?new = ?b" by (simp add: new_region_def)
    then have "staged' = modify_region ?b ?f mapped" using w False at by (simp add: write_Inr_iff)
    then have "mset (as_regions staged') = add_mset (?b, ?f ?new) (mset (as_regions staged))"
      by (simp add: modify_region_def mapped em)
    moreover have "(?b, ?f ?new) = region_of source"
      using w False by (simp add: region_of_def new_region_def splice_def)
    ultimately show ?thesis by simp
  qed
qed

lemma restore_regions_adds:
  "as_ok staged \<Longrightarrow> as_limits staged = limits \<Longrightarrow> t = as_mapped_bytes staged \<Longrightarrow>
   restore_regions limits sources t staged = Inr (t', staged') \<Longrightarrow>
   mset (as_regions staged') = mset (map region_of sources) + mset (as_regions staged)"
proof (induction sources arbitrary: t staged)
  case (Cons source sources)
  then obtain t1 s1 where rs: "restore_region limits source t staged = Inr (t1, s1)"
    and rest: "restore_regions limits sources t1 s1 = Inr (t', staged')"
    by (auto split: sum.splits)
  from restore_region_ok [OF Cons.prems(1,2) rs Cons.prems(3)] Cons.IH [OF _ _ _ rest]
    restore_region_adds [OF Cons.prems(1) rs]
  show ?case by simp
qed auto

text \<open>The regions of a well-formed space are in the order of their addresses.\<close>

lemma regions_sorted:
  assumes "regions_ok m" "mset m = mset xs"
  shows "m = sort_key fst xs"
proof -
  have before: "unat (fst x) < region_end (snd x)" if "x \<in> set m" for x
    using regions_ok_member [OF assms(1), of "fst x" "snd x"] that by (simp add: region_end_def unat_gt_0)
  have "fst x < fst y" if "x \<in> set m" "region_end (snd x) \<le> unat (fst y)" for x y :: "u64 \<times> MemoryRegion"
    using before [OF that(1)] that(2) by (simp add: word_less_nat_alt)
  then have "sorted_wrt (\<lambda>a b. fst a < fst b) m"
    by (rule sorted_wrt_mono_rel [OF _ conjunct2 [OF assms(1) [unfolded regions_ok_def]]])
  then have "om_ok m" by (simp add: om_ok_def)
  then have "distinct (map fst m)" by (rule om_ok_distinct)
  then have "inj_on fst (set xs)" using assms(2) by (metis distinct_map mset_eq_setD)
  moreover have "sorted (map fst m)"
    using \<open>om_ok m\<close> unfolding om_ok_def by (simp add: sorted_wrt_map sorted_wrt_mono_rel [OF order_less_imp_le])
  ultimately show ?thesis using sort_key_inj_key_eq [of xs m fst] assms(2) by simp
qed

section \<open>Properties\<close>

text \<open>
  C15. Capturing an address space with its bytes and restoring the snapshot, over whatever memory,
  gives back the same regions, bytes, permissions and byte count; only the limits of the restored
  space are those of the codec.
\<close>

theorem capture_restore:
  assumes "as_ok m" "capture limits m True = (no_error, snapshot)"
    and "\<forall>e \<in> set (as_regions m). length (reg_name (snd e)) \<le> unat (max_string_bytes limits)"
  shows "restore limits snapshot memory = (Inr (), m\<lparr>as_limits := limits\<rparr>)"
proof -
  have ro: "regions_ok (as_regions m)" and tot: "unat (as_mapped_bytes m) = regions_total (as_regions m)"
    using assms(1) by (simp_all add: as_ok_def)
  have c: "\<not> as_mapped_bytes m > max_mapped_bytes limits"
    "\<not> length (as_regions m) > unat (max_segments limits)"
    "snapshot = \<lparr>snap_version = 1, snap_mapped_bytes = as_mapped_bytes m,
            snap_regions = map (\<lambda>e. capture_region True (snd e)) (as_regions m)\<rparr>"
    using assms(2) by (auto simp: capture_def no_error_def split: if_splits)
  have lim: "regions_total (as_regions m) \<le> unat (max_mapped_bytes limits)"
    using c(1) tot by (simp add: word_less_nat_alt)
  have bk: "of_nat (regions_total (as_regions m)) = as_mapped_bytes m"
    by (simp flip: tot)
  have "new_address_space limits = staged_space limits []"
    by (simp add: new_address_space_def staged_space_def regions_total_def)
  then have "restore_regions limits (snap_regions snapshot) 0 (new_address_space limits) =
      Inr (as_mapped_bytes m, staged_space limits (as_regions m))"
    using restore_captured [of "[]" "as_regions m" limits] ro lim assms(3)
    by (simp add: c(3) bk) (simp add: regions_total_def)
  moreover have "staged_space limits (as_regions m) = m\<lparr>as_limits := limits\<rparr>"
    by (simp add: staged_space_def bk)
  ultimately show ?thesis using c(1,2) by (simp add: restore_def c(3))
qed

theorem capture_restore_witness:
  "\<exists>snapshot. capture demo_limits demo_space True = (no_error, snapshot) \<and>
     restore demo_limits snapshot (new_address_space default_limits) = (Inr (), demo_space\<lparr>as_limits := demo_limits\<rparr>)"
proof -
  have "fst (capture demo_limits demo_space True) = no_error"
    by (simp add: capture_def demo_space_def demo_limits_def)
  then obtain snapshot where c: "capture demo_limits demo_space True = (no_error, snapshot)"
    by (metis prod.collapse)
  have "\<forall>e \<in> set (as_regions demo_space). length (reg_name (snd e)) \<le> unat (max_string_bytes demo_limits)"
    by (simp add: demo_space_def demo_limits_def default_limits_def)
  from capture_restore [OF demo_space_ok c this] c show ?thesis by blast
qed

text \<open>
  C8. \<open>restore\<close> is all or nothing: it either leaves the memory alone and reports an error, or replaces
  it by the snapshot, under the codec's limits. The regions are then exactly those of the snapshot, in the
  order of their addresses, each with its base, size, permissions, name and bytes (zeros when the snapshot
  carries no bytes); the space is well-formed and its count of mapped bytes is the one the snapshot declares.
\<close>

theorem restore_atomic:
  assumes "restore limits snapshot memory = (res, memory')"
  shows "(\<exists>e. res = Inl e) \<and> memory' = memory \<or>
    res = Inr () \<and> as_ok memory' \<and>
    memory' = \<lparr>as_limits = limits, as_regions = sort_key fst (map region_of (snap_regions snapshot)),
      as_mapped_bytes = snap_mapped_bytes snapshot\<rparr>"
proof (cases "restore_regions limits (snap_regions snapshot) 0 (new_address_space limits)")
  case (Inl e)
  then show ?thesis using assms by (auto simp: restore_def split: if_splits)
next
  case (Inr ts)
  obtain t staged where ts: "ts = (t, staged)" by (cases ts)
  have empty: "as_limits (new_address_space limits) = limits" "0 = as_mapped_bytes (new_address_space limits)"
    by (simp_all add: new_address_space_def)
  have ok: "as_ok staged \<and> as_limits staged = limits \<and> t = as_mapped_bytes staged"
    by (rule restore_regions_ok [OF new_address_space_ok empty Inr [unfolded ts]])
  have "mset (as_regions staged) = mset (map region_of (snap_regions snapshot))"
    using restore_regions_adds [OF new_address_space_ok empty Inr [unfolded ts]] by (simp add: new_address_space_def)
  then have "as_regions staged = sort_key fst (map region_of (snap_regions snapshot))"
    using ok by (intro regions_sorted) (simp_all add: as_ok_def)
  then have "staged = \<lparr>as_limits = limits, as_regions = sort_key fst (map region_of (snap_regions snapshot)),
      as_mapped_bytes = t\<rparr>"
    using ok by (simp add: AddressSpace.equality)
  then show ?thesis using assms Inr ok by (auto simp: restore_def ts split: if_splits)
qed

text \<open>Two regions, the higher one first and without its bytes, the lower one with one byte.\<close>

definition demo_snapshot :: MemorySnapshot where
  "demo_snapshot = \<lparr>snap_version = 1, snap_mapped_bytes = 3, snap_regions =
     [\<lparr>snr_base = 32, snr_size = 2, snr_permissions = 3, snr_name = ''b'', snr_checksum = 0, snr_bytes = []\<rparr>,
      \<lparr>snr_base = 16, snr_size = 1, snr_permissions = 1, snr_name = ''a'', snr_checksum = crc32 [7],
       snr_bytes = [7]\<rparr>]\<rparr>"

definition demo_staged :: "(u64, MemoryRegion) omap \<Rightarrow> u64 \<Rightarrow> AddressSpace" where
  "demo_staged regions n = \<lparr>as_limits = demo_limits, as_regions = regions, as_mapped_bytes = n\<rparr>"

lemma demo_snapshot_restored: "\<not> isl (fst (restore demo_limits demo_snapshot demo_space))"
proof -
  let ?b = "(32, \<lparr>reg_base = 32, reg_size = 2, reg_permissions = 3, reg_name = ''b'', reg_bytes = [0, 0]\<rparr>)"
  let ?a = "\<lambda>b. (16, \<lparr>reg_base = 16, reg_size = 1, reg_permissions = 1, reg_name = ''a'', reg_bytes = [b]\<rparr>)"
  have "as_map 32 2 3 ''b'' (new_address_space demo_limits) = Inr (demo_staged [?b] 2)" by code_simp
  moreover have "as_map 16 1 1 ''a'' (demo_staged [?b] 2) = Inr (demo_staged [?a 0, ?b] 3)" by code_simp
  moreover have "as_write 16 [7] True (demo_staged [?a 0, ?b] 3) = Inr (demo_staged [?a 7, ?b] 3)" by code_simp
  moreover have "checked_add 0 2 = Some 2" "checked_add 2 1 = Some 3" by code_simp+
  moreover have "max_mapped_bytes demo_limits = 64" "max_segments demo_limits = 8"
    "1 \<le> unat (max_string_bytes demo_limits)" by (simp_all add: demo_limits_def default_limits_def)
  ultimately show ?thesis by (simp add: restore_def demo_snapshot_def restore_region_def Suc_le_eq not_less)
qed

theorem restore_atomic_witness:
  "\<exists>e memory'. restore demo_limits \<lparr>snap_version = 2, snap_mapped_bytes = 0, snap_regions = []\<rparr> demo_space =
     (Inl e, demo_space) \<and>
     restore demo_limits demo_snapshot demo_space = (Inr (), memory') \<and>
     map (\<lambda>r. (fst r, reg_bytes (snd r))) (as_regions memory') = [(16, [7]), (32, [0, 0])]"
proof -
  let ?s = "\<lparr>snap_version = 2, snap_mapped_bytes = 0, snap_regions = []\<rparr>"
  obtain res m' where r: "restore demo_limits ?s demo_space = (res, m')" by (cases "restore demo_limits ?s demo_space")
  have "isl (fst (restore demo_limits ?s demo_space))" by (simp add: restore_def)
  then obtain e where e: "restore demo_limits ?s demo_space = (Inl e, demo_space)"
    using restore_atomic [OF r] r by auto
  obtain res' m2 where r2: "restore demo_limits demo_snapshot demo_space = (res', m2)"
    by (cases "restore demo_limits demo_snapshot demo_space")
  have m2: "res' = Inr ()" "as_regions m2 = sort_key fst (map region_of (snap_regions demo_snapshot))"
    using restore_atomic [OF r2] demo_snapshot_restored r2 by auto
  have "replicate 2 (0 :: u8) = [0, 0]" by (simp add: numeral_2_eq_2)
  then have "map (\<lambda>r. (fst r, reg_bytes (snd r))) (sort_key fst (map region_of (snap_regions demo_snapshot))) =
      [(16, [7]), (32, [0, 0])]"
    by (simp add: demo_snapshot_def region_of_def)
  then show ?thesis using e r2 m2 by auto
qed

text \<open>
  \<open>decode\<close> is the exact inverse of \<open>encode\<close> on snapshots: it accepts a container if and only if
  the container is the encoding of the snapshot it returns and both respect the limits.
\<close>

theorem snapshot_decode_iff_encode:
  "snapshot_decode limits (Some bs) = Inr snapshot \<longleftrightarrow>
     snapshot_encode limits snapshot = Inr bs \<and> snapshot_storable limits snapshot \<and>
     length bs \<le> unat (max_mapped_bytes limits + max_file_size limits)"
  using snapshot_decode_sound snapshot_decode_complete by blast

text \<open>
  A snapshot container with one byte changed, anywhere in it, is refused.
\<close>

theorem corrupted_snapshot_refused:
  assumes "snapshot_decode limits (Some bs) = Inr snapshot" "i < length bs" "b \<noteq> bs ! i"
  shows "\<exists>e. snapshot_decode limits (Some (bs[i := b])) = Inl e"
  using assms by (rule snapshot_seal.corrupted_byte)

theorem corrupted_snapshot_refused_witness:
  "\<exists>bs e. snapshot_decode demo_limits (Some bs) =
       Inr \<lparr>snap_version = 1, snap_mapped_bytes = 0, snap_regions = []\<rparr> \<and>
     snapshot_decode demo_limits (Some (bs[22 := bs ! 22 + 1])) = Inl e"
proof -
  let ?s = "\<lparr>snap_version = 1, snap_mapped_bytes = 0, snap_regions = []\<rparr>"
  let ?bs = "seal (magic_bfsn @ encode_snapshot_body ?s)"
  have len: "length ?bs = 24"
    by (simp add: encode_snapshot_body_def encode_snapshot_header_def magic_bfsn_def)
  have "snapshot_encode demo_limits ?s = Inr ?bs"
    by (simp add: snapshot_encode_def encode_snapshot_body_def seal_def)
  moreover have "snapshot_storable demo_limits ?s" by (simp add: snapshot_storable_def)
  moreover have "length ?bs \<le> unat (max_mapped_bytes demo_limits + max_file_size demo_limits)"
    unfolding len by (simp add: demo_limits_def)
  ultimately have d: "snapshot_decode demo_limits (Some ?bs) = Inr ?s"
    by (rule snapshot_decode_complete)
  have "?bs ! 22 + 1 \<noteq> ?bs ! 22" by simp
  with corrupted_snapshot_refused [OF d, of 22] d show ?thesis unfolding len by auto
qed

end
