(* ===== verification/Layout.thy ===== *)
theory Layout
  imports Validator "HOL-Library.Multiset"
begin

unbundle bit_operations_syntax

text \<open>
  \<open>LayoutPlanner::plan\<close> of \<open>src/layout.cc\<close>: where the segments of a valid image go for a requested
  base, with the overlap check, the optional merging of adjacent regions and the totals. The
  lemmas show that a plan is a sorted, non-overlapping list of regions that covers exactly the
  segments' target ranges, merged or not.
\<close>

section \<open>Plans\<close>

record LayoutRegion =
  lay_source_offset :: u64
  lay_source_size :: u64
  lay_target_address :: u64
  lay_target_size :: u64
  lay_alignment :: u64
  lay_permissions :: u8
  lay_name :: string

record LayoutPlan =
  lplan_image_begin :: u64
  lplan_image_end :: u64
  lplan_mapped_bytes :: u64
  lplan_file_bytes :: u64
  lplan_regions :: "LayoutRegion list"
  lplan_warnings :: "string list"

definition empty_plan :: LayoutPlan where
  "empty_plan = \<lparr>lplan_image_begin = 0, lplan_image_end = 0, lplan_mapped_bytes = 0,
     lplan_file_bytes = 0, lplan_regions = [], lplan_warnings = []\<rparr>"

definition lowest_address :: "Segment list \<Rightarrow> u64" where
  "lowest_address segments = foldl (\<lambda>low s. min low (seg_virtual_address s)) UINT64_MAX segments"

definition place_segment :: "Limits \<Rightarrow> u64 \<Rightarrow> u64 \<Rightarrow> Segment \<Rightarrow> Error + LayoutRegion" where
  "place_segment limits base_address lowest segment =
    (case checked_add base_address (seg_virtual_address segment - lowest) of
       None \<Rightarrow> Inl (mk_error address_overflow (seg_virtual_address segment)
                ''planned segment address overflows'')
     | Some address \<Rightarrow>
         let alignment = max (ucast (page_size limits))
               (if seg_alignment segment \<noteq> 0 then seg_alignment segment else 1) in
         if alignment AND (alignment - 1) \<noteq> 0
         then Inl (mk_error invalid_alignment (seg_virtual_address segment)
                ''planned segment alignment is not a power of two'')
         else if checked_add address (seg_memory_size segment) = None
         then Inl (mk_error address_overflow address ''planned segment range overflows'')
         else Inr \<lparr>lay_source_offset = seg_file_offset segment, lay_source_size = seg_file_size segment,
                   lay_target_address = address, lay_target_size = seg_memory_size segment,
                   lay_alignment = alignment, lay_permissions = seg_permissions segment,
                   lay_name = ''segment.'' @ to_string (unat (seg_index segment))\<rparr>)"

fun place_segments :: "Limits \<Rightarrow> u64 \<Rightarrow> u64 \<Rightarrow> Segment list \<Rightarrow> Error + LayoutRegion list" where
  "place_segments limits base_address lowest [] = Inr []"
| "place_segments limits base_address lowest (segment # rest) =
    (if seg_memory_size segment = 0 then place_segments limits base_address lowest rest
     else case place_segment limits base_address lowest segment of
       Inl e \<Rightarrow> Inl e
     | Inr region \<Rightarrow>
         (case place_segments limits base_address lowest rest of
            Inl e \<Rightarrow> Inl e
          | Inr regions \<Rightarrow> Inr (region # regions)))"

text \<open>
  \<open>std::sort\<close> by target address, then target size. Regions that agree in both overlap, so the
  order it leaves them in never reaches a plan.
\<close>

definition sort_regions :: "LayoutRegion list \<Rightarrow> LayoutRegion list" where
  "sort_regions regions = sort_key (\<lambda>r. (lay_target_address r, lay_target_size r)) regions"

fun check_overlap :: "LayoutRegion list \<Rightarrow> Error + unit" where
  "check_overlap (previous # current # rest) =
    (case checked_add (lay_target_address previous) (lay_target_size previous) of
       None \<Rightarrow> Inl (mk_error address_overflow (lay_target_address previous) ''planned region end overflows'')
     | Some previous_end \<Rightarrow>
         if previous_end > lay_target_address current
         then Inl (mk_error mapping_overlap (lay_target_address current)
                (lay_name previous @ '' overlaps '' @ lay_name current))
         else check_overlap (current # rest))"
| "check_overlap regions = Inr ()"

definition contiguous :: "LayoutRegion \<Rightarrow> LayoutRegion \<Rightarrow> bool" where
  "contiguous previous region \<longleftrightarrow>
     checked_add (lay_target_address previous) (lay_target_size previous) = Some (lay_target_address region) \<and>
     checked_add (lay_source_offset previous) (lay_source_size previous) = Some (lay_source_offset region) \<and>
     lay_permissions previous = lay_permissions region"

text \<open>The merging loop; the first argument is \<open>merged.back()\<close>.\<close>

fun merge_regions :: "LayoutRegion \<Rightarrow> LayoutRegion list \<Rightarrow> Error + LayoutRegion list" where
  "merge_regions previous [] = Inr [previous]"
| "merge_regions previous (region # rest) =
    (if contiguous previous region
     then (case (checked_add (lay_target_size previous) (lay_target_size region),
                 checked_add (lay_source_size previous) (lay_source_size region)) of
             (Some combined_target, Some combined_source) \<Rightarrow>
               merge_regions (previous\<lparr>lay_target_size := combined_target,
                   lay_source_size := combined_source,
                   lay_name := lay_name previous @ ''+'' @ lay_name region\<rparr>) rest
           | _ \<Rightarrow> Inl (mk_error address_overflow (lay_target_address region)
                     ''merged layout size overflows''))
     else (case merge_regions region rest of
             Inl e \<Rightarrow> Inl e
           | Inr merged \<Rightarrow> Inr (previous # merged)))"

definition merge_if :: "bool \<Rightarrow> LayoutRegion list \<Rightarrow> Error + LayoutRegion list" where
  "merge_if merge_adjacent regions =
    (case regions of
       first # second # rest \<Rightarrow> if merge_adjacent then merge_regions first (second # rest) else Inr regions
     | _ \<Rightarrow> Inr regions)"

fun total_regions :: "LayoutRegion list \<Rightarrow> LayoutPlan \<Rightarrow> Error + LayoutPlan" where
  "total_regions [] plan = Inr plan"
| "total_regions (region # rest) plan =
    (case checked_add (lplan_mapped_bytes plan) (lay_target_size region) of
       None \<Rightarrow> Inl (mk_error address_overflow (lay_target_address region)
                ''layout mapped-byte total overflows'')
     | Some mapped \<Rightarrow>
    (case checked_add (lplan_file_bytes plan) (lay_source_size region) of
       None \<Rightarrow> Inl (mk_error address_overflow (lay_source_offset region)
                ''layout file-byte total overflows'')
     | Some in_file \<Rightarrow>
         total_regions rest (plan\<lparr>lplan_mapped_bytes := mapped, lplan_file_bytes := in_file,
           lplan_warnings := lplan_warnings plan @
             (if lay_permissions region AND permission_write \<noteq> 0 \<and>
                 lay_permissions region AND permission_execute \<noteq> 0
              then [lay_name region @ '' is writable and executable''] else [])\<rparr>)))"

definition finish_plan :: "Limits \<Rightarrow> LayoutRegion list \<Rightarrow> Error + LayoutPlan" where
  "finish_plan limits regions =
    (case (if regions = [] then Inr empty_plan
           else let final = last regions in
             (case checked_add (lay_target_address final) (lay_target_size final) of
                None \<Rightarrow> Inl (mk_error address_overflow (lay_target_address final)
                         ''layout image end overflows'')
              | Some image_end \<Rightarrow>
                  Inr (empty_plan\<lparr>lplan_image_begin := lay_target_address (hd regions),
                                  lplan_image_end := image_end\<rparr>))) of
       Inl e \<Rightarrow> Inl e
     | Inr plan \<Rightarrow>
    (case total_regions regions (plan\<lparr>lplan_regions := regions\<rparr>) of
       Inl e \<Rightarrow> Inl e
     | Inr plan' \<Rightarrow>
         if lplan_mapped_bytes plan' > max_mapped_bytes limits
         then Inl (mk_error resource_limit (lplan_image_begin plan') ''planned image exceeds mapped-byte limit'')
         else Inr plan'))"

definition plan_layout :: "Limits \<Rightarrow> BinaryImage \<Rightarrow> u64 \<Rightarrow> bool \<Rightarrow> Error + LayoutPlan" where
  "plan_layout limits img requested_base merge_adjacent =
    (let validation = validate limits img in
     if \<not> rep_valid validation then Inl (hd (rep_errors validation))
     else if img_segments img = []
     then Inr (empty_plan\<lparr>lplan_image_begin := requested_base, lplan_image_end := requested_base\<rparr>)
     else
       let lowest = lowest_address (img_segments img);
           base_address = (if requested_base \<noteq> 0 then requested_base else lowest) in
       case place_segments limits base_address lowest (img_segments img) of
         Inl e \<Rightarrow> Inl e
       | Inr placed \<Rightarrow>
      (let regions = sort_regions placed in
       case check_overlap regions of
         Inl e \<Rightarrow> Inl e
       | Inr _ \<Rightarrow>
      (case merge_if merge_adjacent regions of
         Inl e \<Rightarrow> Inl e
       | Inr merged \<Rightarrow> finish_plan limits merged)))"

section \<open>Regions as intervals\<close>

definition lay_start :: "LayoutRegion \<Rightarrow> nat" where
  "lay_start r = unat (lay_target_address r)"

definition lay_end :: "LayoutRegion \<Rightarrow> nat" where
  "lay_end r = unat (lay_target_address r) + unat (lay_target_size r)"

definition apart :: "LayoutRegion list \<Rightarrow> bool" where
  "apart regions \<longleftrightarrow> sorted_wrt (\<lambda>a b. lay_end a \<le> lay_start b) regions"

definition lay_total :: "LayoutRegion list \<Rightarrow> nat" where
  "lay_total regions = sum_list (map (\<lambda>r. unat (lay_target_size r)) regions)"

definition lay_source_total :: "LayoutRegion list \<Rightarrow> nat" where
  "lay_source_total regions = sum_list (map (\<lambda>r. unat (lay_source_size r)) regions)"

definition source_start :: "LayoutRegion \<Rightarrow> nat" where
  "source_start r = unat (lay_source_offset r)"

definition source_end :: "LayoutRegion \<Rightarrow> nat" where
  "source_end r = unat (lay_source_offset r) + unat (lay_source_size r)"

text \<open>
  \<open>holds r s\<close>: the region \<open>r\<close> contains \<open>s\<close>, its target and its source, with its permissions. With
  \<open>in_step r s\<close>, the source of \<open>s\<close> is as far into that of \<open>r\<close> as its target; merging keeps that for
  regions without zero fill.
\<close>

definition holds :: "LayoutRegion \<Rightarrow> LayoutRegion \<Rightarrow> bool" where
  "holds r s \<longleftrightarrow> lay_start r \<le> lay_start s \<and> lay_end s \<le> lay_end r \<and> lay_permissions r = lay_permissions s \<and>
     source_start r \<le> source_start s \<and> source_end s \<le> source_end r"

definition in_step :: "LayoutRegion \<Rightarrow> LayoutRegion \<Rightarrow> bool" where
  "in_step r s \<longleftrightarrow> source_start s = source_start r + (lay_start s - lay_start r)"

definition unpadded :: "LayoutRegion \<Rightarrow> bool" where
  "unpadded r \<longleftrightarrow> lay_source_size r = lay_target_size r"

lemma start_le_end [simp]: "lay_start r \<le> lay_end r"
  by (simp add: lay_start_def lay_end_def)

lemma check_overlap_apart: "check_overlap regions = Inr () \<Longrightarrow> apart regions"
proof (induction regions rule: check_overlap.induct)
  case (1 previous current rest)
  then obtain e where e: "checked_add (lay_target_address previous) (lay_target_size previous) = Some e"
    "e \<le> lay_target_address current" and rest: "apart (current # rest)"
    by (auto split: option.splits if_splits)
  have "lay_end previous \<le> lay_start current"
    using e by (simp add: lay_end_def lay_start_def word_le_nat_alt add_op.Some_iff)
  then show ?case
    using rest unfolding apart_def by (auto intro: order_trans [OF _ order_trans [OF start_le_end]])
qed (simp_all add: apart_def)

lemma merge_regions_sound:
  "merge_regions previous rest = Inr out \<Longrightarrow> apart (previous # rest) \<Longrightarrow>
   apart out \<and> lay_total out = lay_total (previous # rest) \<and>
   lay_source_total out = lay_source_total (previous # rest) \<and>
   (\<forall>r \<in> set out. lay_start previous \<le> lay_start r) \<and>
   (\<forall>s \<in> set (previous # rest). \<exists>r \<in> set out. holds r s \<and>
      (list_all unpadded (previous # rest) \<longrightarrow> in_step r s)) \<and>
   (\<forall>x. (\<exists>r \<in> set out. lay_start r \<le> x \<and> x < lay_end r) \<longleftrightarrow>
        (\<exists>s \<in> set (previous # rest). lay_start s \<le> x \<and> x < lay_end s))"
proof (induction previous rest arbitrary: out rule: merge_regions.induct)
  case (1 previous)
  then show ?case by (auto simp: apart_def holds_def in_step_def)
next
  case (2 previous region rest)
  show ?case
  proof (cases "contiguous previous region")
    case True
    obtain t s where t: "checked_add (lay_target_size previous) (lay_target_size region) = Some t"
      and s: "checked_add (lay_source_size previous) (lay_source_size region) = Some s"
      using "2.prems"(1) True by (auto split: option.splits)
    let ?c = "previous\<lparr>lay_target_size := t, lay_source_size := s,
                   lay_name := lay_name previous @ ''+'' @ lay_name region\<rparr>"
    have m: "merge_regions ?c rest = Inr out" using "2.prems"(1) True t s by simp
    have adj: "lay_end previous = lay_start region"
      using True by (simp add: contiguous_def lay_end_def lay_start_def add_op.Some_iff)
    have tn: "unat t = unat (lay_target_size previous) + unat (lay_target_size region)"
      using t by (simp add: add_op.Some_iff)
    have c: "lay_start ?c = lay_start previous" "lay_end ?c = lay_end region"
      "lay_permissions ?c = lay_permissions previous"
      using adj tn by (simp_all add: lay_start_def lay_end_def)
    have perms: "lay_permissions previous = lay_permissions region" using True by (simp add: contiguous_def)
    have ap: "apart (?c # rest)" using "2.prems"(2) c by (simp add: apart_def)
    note ih = "2.IH"(1) [OF True refl t s m ap]
    have tot: "lay_total (?c # rest) = lay_total (previous # region # rest)"
      using tn by (simp add: lay_total_def)
    have src: "source_end previous = source_start region"
      using True by (simp add: contiguous_def source_end_def source_start_def add_op.Some_iff)
    have sn: "unat s = unat (lay_source_size previous) + unat (lay_source_size region)"
      using s by (simp add: add_op.Some_iff)
    have sc: "source_start ?c = source_start previous" "source_end ?c = source_end region"
      using src sn by (simp_all add: source_start_def source_end_def)
    have stot: "lay_source_total (?c # rest) = lay_source_total (previous # region # rest)"
      using sn by (simp add: lay_source_total_def)
    have le: "source_start previous \<le> source_end previous" "source_start region \<le> source_end region"
      by (simp_all add: source_start_def source_end_def)
    have hold: "holds ?c previous" "holds ?c region"
      using c adj perms start_le_end [of previous] start_le_end [of region] sc src le
      by (auto simp: holds_def simp del: start_le_end)
    have trans: "holds r x" if "holds r ?c" "holds ?c x" for r x
      using that by (auto simp: holds_def)
    have unp: "list_all unpadded (?c # rest)" if "list_all unpadded (previous # region # rest)"
      using that tn sn by (simp add: unpadded_def word_unat_eq_iff)
    have step: "in_step ?c previous" "unpadded previous \<Longrightarrow> in_step ?c region"
      using c sc adj src by (auto simp: in_step_def unpadded_def source_end_def lay_end_def source_start_def lay_start_def)
    have step_trans: "in_step r x" if "holds r ?c" "in_step r ?c" "holds ?c x" "in_step ?c x" for r x
      using that by (simp add: in_step_def holds_def)
    have cover: "(\<exists>s \<in> set (?c # rest). lay_start s \<le> x \<and> x < lay_end s) \<longleftrightarrow>
        (\<exists>s \<in> set (previous # region # rest). lay_start s \<le> x \<and> x < lay_end s)" for x
    proof -
      have "lay_start ?c \<le> x \<and> x < lay_end ?c \<longleftrightarrow>
        (lay_start previous \<le> x \<and> x < lay_end previous) \<or> (lay_start region \<le> x \<and> x < lay_end region)"
        using c adj start_le_end [of previous] start_le_end [of region]
        by (auto simp del: start_le_end)
      then show ?thesis by simp
    qed
    have "\<exists>r \<in> set out. holds r x \<and> (list_all unpadded (previous # region # rest) \<longrightarrow> in_step r x)"
      if x: "x \<in> set (previous # region # rest)" for x
    proof (cases "x \<in> set rest")
      case True
      then show ?thesis using ih unp by auto
    next
      case False
      obtain r where r: "r \<in> set out" "holds r ?c" "list_all unpadded (?c # rest) \<longrightarrow> in_step r ?c" using ih by auto
      have "holds ?c x" "list_all unpadded (previous # region # rest) \<longrightarrow> in_step ?c x"
        using False x hold step by auto
      then show ?thesis using r trans step_trans unp by blast
    qed
    then show ?thesis using ih tot stot cover c(1) by simp
  next
    case False
    then obtain m where m: "merge_regions region rest = Inr m" and out: "out = previous # m"
      using "2.prems"(1) by (auto split: sum.splits)
    have ap: "apart (region # rest)" "lay_end previous \<le> lay_start region"
      using "2.prems"(2) by (simp_all add: apart_def)
    note ih = "2.IH"(2) [OF False m ap(1)]
    have "apart out"
      using ih ap(2) unfolding out apart_def by (auto intro: order_trans)
    moreover have "lay_total out = lay_total (previous # region # rest)"
      using ih by (simp add: out lay_total_def)
    moreover have "lay_source_total out = lay_source_total (previous # region # rest)"
      using ih by (simp add: out lay_source_total_def)
    moreover have "\<forall>r \<in> set out. lay_start previous \<le> lay_start r"
      using ih order_trans [OF start_le_end ap(2)] by (auto simp: out intro: order_trans)
    moreover have "\<forall>s \<in> set (previous # region # rest). \<exists>r \<in> set out. holds r s \<and>
        (list_all unpadded (previous # region # rest) \<longrightarrow> in_step r s)"
    proof
      fix x assume x: "x \<in> set (previous # region # rest)"
      show "\<exists>r \<in> set out. holds r x \<and> (list_all unpadded (previous # region # rest) \<longrightarrow> in_step r x)"
      proof (cases "x \<in> set (region # rest)")
        case True
        then show ?thesis using ih by (auto simp: out)
      next
        case False
        then show ?thesis using x by (simp add: out holds_def in_step_def)
      qed
    qed
    moreover have "(\<exists>r \<in> set out. lay_start r \<le> x \<and> x < lay_end r) \<longleftrightarrow>
        (\<exists>s \<in> set (previous # region # rest). lay_start s \<le> x \<and> x < lay_end s)" for x
      using ih by (simp add: out)
    ultimately show ?thesis by blast
  qed
qed

section \<open>The pieces of a plan\<close>

text \<open>The target range of a segment for a load base.\<close>

definition target_region :: "u64 \<Rightarrow> u64 \<Rightarrow> Segment \<Rightarrow> LayoutRegion \<Rightarrow> bool" where
  "target_region base_address lowest s r \<longleftrightarrow>
     lay_start r = unat base_address + unat (seg_virtual_address s - lowest) \<and>
     lay_target_size r = seg_memory_size s \<and> lay_permissions r = seg_permissions s \<and>
     lay_source_offset r = seg_file_offset s \<and> lay_source_size r = seg_file_size s"

lemma place_segment_target:
  "place_segment limits b lowest s = Inr r \<Longrightarrow> target_region b lowest s r \<and> lay_end r < 2 ^ 64"
proof -
  assume h: "place_segment limits b lowest s = Inr r"
  then obtain a where a: "checked_add b (seg_virtual_address s - lowest) = Some a"
    and ne: "checked_add a (seg_memory_size s) \<noteq> None"
    and r: "lay_target_address r = a" "lay_target_size r = seg_memory_size s" "lay_permissions r = seg_permissions s"
      "lay_source_offset r = seg_file_offset s" "lay_source_size r = seg_file_size s"
    by (auto simp: place_segment_def Let_def split: option.splits if_splits)
  have "unat a + unat (seg_memory_size s) < 2 ^ 64"
    using ne by (simp add: add_op.None_iff)
  then show ?thesis
    using a r by (simp add: target_region_def lay_start_def lay_end_def add_op.Some_iff)
qed

lemma place_segments_target:
  "place_segments limits b lowest segs = Inr regions \<Longrightarrow>
   list_all2 (target_region b lowest) (filter (\<lambda>s. seg_memory_size s \<noteq> 0) segs) regions \<and>
   (\<forall>r \<in> set regions. lay_end r < 2 ^ 64)"
proof (induction segs arbitrary: regions)
  case (Cons s segs)
  then show ?case
    using place_segment_target by (auto split: if_splits sum.splits)
qed simp

lemma targets_total:
  "list_all2 (target_region b lowest) segs regions \<Longrightarrow>
   lay_total regions = sum_list (map (\<lambda>s. unat (seg_memory_size s)) segs) \<and>
   lay_source_total regions = sum_list (map (\<lambda>s. unat (seg_file_size s)) segs)"
  by (induction rule: list_all2_induct) (simp_all add: lay_total_def lay_source_total_def target_region_def)

lemma sum_sort: "sum_list (map f (sort_regions regions)) = (sum_list (map f regions) :: nat)"
proof -
  have "mset (map f (sort_regions regions)) = mset (map f regions)"
    by (simp only: sort_regions_def mset_map mset_sort)
  then show ?thesis by (metis sum_mset_sum_list)
qed

lemma totals_sort:
  "lay_total (sort_regions regions) = lay_total regions"
  "lay_source_total (sort_regions regions) = lay_source_total regions"
  by (simp_all add: lay_total_def lay_source_total_def sum_sort)

lemma set_sort_regions [simp]: "set (sort_regions regions) = set regions"
  by (simp add: sort_regions_def)

lemma merge_if_sound:
  assumes "merge_if merge regions = Inr out" "apart regions"
  shows "apart out \<and> lay_total out = lay_total regions \<and> lay_source_total out = lay_source_total regions \<and>
    (\<forall>s \<in> set regions. \<exists>r \<in> set out. holds r s \<and> (list_all unpadded regions \<or> \<not> merge \<longrightarrow> in_step r s)) \<and>
    (\<forall>x. (\<exists>r \<in> set out. lay_start r \<le> x \<and> x < lay_end r) \<longleftrightarrow>
         (\<exists>s \<in> set regions. lay_start s \<le> x \<and> x < lay_end s))"
proof (cases "\<exists>a b rest. regions = a # b # rest \<and> merge")
  case True
  then obtain a b rest where r: "regions = a # b # rest" "merge" by blast
  then have "merge_regions a (b # rest) = Inr out" using assms(1) by (simp add: merge_if_def)
  from merge_regions_sound [OF this] assms(2) r show ?thesis by simp
next
  case False
  then have "out = regions" using assms(1) by (auto simp: merge_if_def split: list.splits if_splits)
  then show ?thesis using assms(2) by (auto simp: holds_def in_step_def)
qed

lemma total_regions_sound:
  "total_regions regions plan = Inr plan' \<Longrightarrow>
   unat (lplan_mapped_bytes plan') = unat (lplan_mapped_bytes plan) + lay_total regions \<and>
   unat (lplan_file_bytes plan') = unat (lplan_file_bytes plan) + lay_source_total regions \<and>
   lplan_regions plan' = lplan_regions plan \<and> lplan_image_begin plan' = lplan_image_begin plan \<and>
   lplan_image_end plan' = lplan_image_end plan"
proof (induction regions arbitrary: plan)
  case (Cons r regions)
  then obtain mapped in_file plan1 where m: "checked_add (lplan_mapped_bytes plan) (lay_target_size r) = Some mapped"
    and f: "checked_add (lplan_file_bytes plan) (lay_source_size r) = Some in_file"
    and rest: "total_regions regions plan1 = Inr plan'"
    and p1: "lplan_mapped_bytes plan1 = mapped" "lplan_file_bytes plan1 = in_file" "lplan_regions plan1 = lplan_regions plan"
      "lplan_image_begin plan1 = lplan_image_begin plan" "lplan_image_end plan1 = lplan_image_end plan"
    by (force split: option.splits)
  then show ?case using Cons.IH [OF rest] add_op.SomeD [OF m] add_op.SomeD [OF f]
    by (simp add: lay_total_def lay_source_total_def)
qed (simp add: lay_total_def lay_source_total_def)

lemma finish_plan_sound:
  assumes "finish_plan limits regions = Inr plan" "apart regions"
  shows "lplan_regions plan = regions \<and> unat (lplan_mapped_bytes plan) = lay_total regions \<and>
    unat (lplan_file_bytes plan) = lay_source_total regions \<and> lplan_mapped_bytes plan \<le> max_mapped_bytes limits \<and>
    (\<forall>r \<in> set regions. unat (lplan_image_begin plan) \<le> lay_start r \<and> lay_end r \<le> unat (lplan_image_end plan))"
proof -
  obtain start where st: "(if regions = [] then Inr empty_plan
      else let final = last regions in
        (case checked_add (lay_target_address final) (lay_target_size final) of
           None \<Rightarrow> Inl (mk_error address_overflow (lay_target_address final) ''layout image end overflows'')
         | Some image_end \<Rightarrow> Inr (empty_plan\<lparr>lplan_image_begin := lay_target_address (hd regions),
                  lplan_image_end := image_end\<rparr>))) = Inr start"
    and tot: "total_regions regions (start\<lparr>lplan_regions := regions\<rparr>) = Inr plan"
    and lim: "\<not> lplan_mapped_bytes plan > max_mapped_bytes limits"
    using assms(1) unfolding finish_plan_def by (auto split: sum.splits if_splits)
  have z: "lplan_mapped_bytes start = 0" "lplan_file_bytes start = 0"
    using st by (auto simp: empty_plan_def Let_def split: if_splits option.splits)
  note ts = total_regions_sound [OF tot]
  have "unat (lplan_image_begin plan) \<le> lay_start r \<and> lay_end r \<le> unat (lplan_image_end plan)"
    if r: "r \<in> set regions" for r
  proof -
    have ne: "regions \<noteq> []" using r by auto
    then have b: "unat (lplan_image_begin plan) = lay_start (hd regions)"
      "unat (lplan_image_end plan) = lay_end (last regions)"
      using st ts by (auto simp: Let_def lay_start_def lay_end_def add_op.SomeD split: option.splits)
    have "lay_start (hd regions) \<le> lay_start r"
      using assms(2) r ne unfolding apart_def
      by (cases regions) (auto intro: order_trans [OF start_le_end])
    moreover have "lay_end r \<le> lay_end (last regions)"
      using assms(2) r ne unfolding apart_def
      by (cases regions rule: rev_cases) (auto simp: sorted_wrt_append intro: order_trans [OF _ start_le_end])
    ultimately show ?thesis using b by simp
  qed
  then show ?thesis using ts z lim by (simp add: not_less)
qed

lemma list_all2_partner:
  "list_all2 P xs ys \<Longrightarrow> (\<forall>x \<in> set xs. \<exists>y \<in> set ys. P x y) \<and> (\<forall>y \<in> set ys. \<exists>x \<in> set xs. P x y)"
  by (induction rule: list_all2_induct) auto

lemma lowest_address_le: "s \<in> set segs \<Longrightarrow> lowest_address segs \<le> seg_virtual_address s"
proof -
  have gen: "foldl (\<lambda>low s. min low (seg_virtual_address s)) a segs \<le> a \<and>
      (\<forall>s \<in> set segs. foldl (\<lambda>low s. min low (seg_virtual_address s)) a segs \<le> seg_virtual_address s)" for a
  proof (induction segs arbitrary: a)
    case (Cons t segs)
    show ?case using Cons.IH [of "min a (seg_virtual_address t)"] by simp
  qed simp
  show "s \<in> set segs \<Longrightarrow> lowest_address segs \<le> seg_virtual_address s"
    using gen unfolding lowest_address_def by blast
qed

section \<open>Properties\<close>

text \<open>The address a segment moves to: its distance from the lowest segment, from the chosen base.\<close>

definition segment_target :: "u64 \<Rightarrow> BinaryImage \<Rightarrow> Segment \<Rightarrow> nat" where
  "segment_target requested_base img s =
     (let lowest = lowest_address (img_segments img) in
      unat (if requested_base \<noteq> 0 then requested_base else lowest) +
      (unat (seg_virtual_address s) - unat lowest))"

text \<open>
  C16. A layout plan is sound, merged or not: its regions are in order and do not overlap, they lie between
  \<open>image_begin\<close> and \<open>image_end\<close>, and they cover exactly the addresses the segments move to. Every segment
  with memory lies in one region of its own permissions, whose source range contains the segment's range
  in the file; the segment is as far into the source as into the target, unless adjacent regions were
  merged and some segment has zero fill. \<open>mapped_bytes\<close> is the total memory of the segments and within
  the limit, \<open>file_bytes\<close> their total size in the file.
\<close>

theorem plan_layout_sound:
  assumes "plan_layout limits img base merge = Inr plan" "img_segments img \<noteq> []"
  defines "segments \<equiv> filter (\<lambda>s. seg_memory_size s \<noteq> 0) (img_segments img)"
  shows "apart (lplan_regions plan) \<and>
    (\<forall>r \<in> set (lplan_regions plan).
       unat (lplan_image_begin plan) \<le> lay_start r \<and> lay_end r \<le> unat (lplan_image_end plan)) \<and>
    (\<forall>x. (\<exists>r \<in> set (lplan_regions plan). lay_start r \<le> x \<and> x < lay_end r) \<longleftrightarrow>
       (\<exists>s \<in> set (img_segments img). segment_target base img s \<le> x \<and>
          x < segment_target base img s + unat (seg_memory_size s))) \<and>
    (\<forall>s \<in> set segments.
       (\<exists>r \<in> set (lplan_regions plan). lay_start r \<le> segment_target base img s \<and>
          segment_target base img s + unat (seg_memory_size s) \<le> lay_end r \<and>
          lay_permissions r = seg_permissions s \<and> source_start r \<le> unat (seg_file_offset s) \<and>
          unat (seg_file_offset s) + unat (seg_file_size s) \<le> source_end r \<and>
          (\<not> merge \<or> (\<forall>t \<in> set segments. seg_file_size t = seg_memory_size t) \<longrightarrow>
            unat (seg_file_offset s) = source_start r + (segment_target base img s - lay_start r)))) \<and>
    unat (lplan_mapped_bytes plan) = sum_list (map (\<lambda>s. unat (seg_memory_size s)) (img_segments img)) \<and>
    unat (lplan_file_bytes plan) = sum_list (map (\<lambda>s. unat (seg_file_size s)) segments) \<and>
    lplan_mapped_bytes plan \<le> max_mapped_bytes limits"
proof -
  let ?segs = "img_segments img"
  define lowest where "lowest = lowest_address ?segs"
  define b where "b = (if base \<noteq> 0 then base else lowest)"
  obtain placed where placed: "place_segments limits b lowest ?segs = Inr placed"
    and over: "check_overlap (sort_regions placed) = Inr ()"
    and merged: "\<exists>out. merge_if merge (sort_regions placed) = Inr out \<and> finish_plan limits out = Inr plan"
    using assms(1,2) by (auto simp: plan_layout_def Let_def b_def lowest_def split: if_splits sum.splits)
  obtain out where out: "merge_if merge (sort_regions placed) = Inr out" "finish_plan limits out = Inr plan"
    using merged by blast
  have tg: "list_all2 (target_region b lowest) segments placed"
    using place_segments_target [OF placed] by (simp add: segments_def)
  have unpadded: "list_all unpadded (sort_regions placed) \<longleftrightarrow> (\<forall>t \<in> set segments. seg_file_size t = seg_memory_size t)"
    using list_all2_partner [OF tg] by (auto simp: list_all_iff unpadded_def target_region_def)
  have mi: "apart out" "lay_total out = lay_total placed" "lay_source_total out = lay_source_total placed"
    "\<forall>s \<in> set placed. \<exists>r \<in> set out. holds r s \<and>
       (\<not> merge \<or> (\<forall>t \<in> set segments. seg_file_size t = seg_memory_size t) \<longrightarrow> in_step r s)"
    "\<And>x. (\<exists>r \<in> set out. lay_start r \<le> x \<and> x < lay_end r) \<longleftrightarrow>
         (\<exists>s \<in> set placed. lay_start s \<le> x \<and> x < lay_end s)"
    using merge_if_sound [OF out(1) check_overlap_apart [OF over]] unfolding unpadded by (auto simp: totals_sort)
  note fin = finish_plan_sound [OF out(2) mi(1)]
  have seg: "segment_target base img s = lay_start r \<and>
      segment_target base img s + unat (seg_memory_size s) = lay_end r \<and> lay_permissions r = seg_permissions s \<and>
      source_start r = unat (seg_file_offset s) \<and> source_end r = unat (seg_file_offset s) + unat (seg_file_size s)"
    if "target_region b lowest s r" "s \<in> set ?segs" for s r
    using that lowest_address_le [OF that(2)]
    by (simp add: target_region_def segment_target_def Let_def lowest_def [symmetric] b_def [symmetric]
        lay_end_def lay_start_def source_start_def source_end_def unat_minus_bounded)
  have to: "\<exists>r \<in> set placed. target_region b lowest s r" if "s \<in> set segments" for s
    using that list_all2_partner [OF tg] by simp
  have from_seg: "\<exists>s \<in> set ?segs. target_region b lowest s r" if "r \<in> set placed" for r
    using that list_all2_partner [OF tg] by (fastforce simp: segments_def)
  have cover: "(\<exists>r \<in> set out. lay_start r \<le> x \<and> x < lay_end r) \<longleftrightarrow>
      (\<exists>s \<in> set ?segs. segment_target base img s \<le> x \<and> x < segment_target base img s + unat (seg_memory_size s))"
    for x
  proof
    assume "\<exists>r \<in> set out. lay_start r \<le> x \<and> x < lay_end r"
    then obtain r where r: "r \<in> set placed" "lay_start r \<le> x" "x < lay_end r" using mi(5) by blast
    obtain s where s: "s \<in> set ?segs" "target_region b lowest s r" using from_seg [OF r(1)] by blast
    show "\<exists>s \<in> set ?segs. segment_target base img s \<le> x \<and> x < segment_target base img s + unat (seg_memory_size s)"
      using seg [OF s(2,1)] s(1) r(2,3) by metis
  next
    assume "\<exists>s \<in> set ?segs. segment_target base img s \<le> x \<and> x < segment_target base img s + unat (seg_memory_size s)"
    then obtain s where s: "s \<in> set ?segs" "segment_target base img s \<le> x"
      "x < segment_target base img s + unat (seg_memory_size s)" by blast
    then have "s \<in> set segments" by (auto simp: segments_def)
    then obtain r where r: "r \<in> set placed" "target_region b lowest s r" using to by blast
    then show "\<exists>r \<in> set out. lay_start r \<le> x \<and> x < lay_end r"
      using seg [OF r(2) s(1)] s(2,3) mi(5) by metis
  qed
  have inside: "\<exists>r \<in> set out. lay_start r \<le> segment_target base img s \<and>
      segment_target base img s + unat (seg_memory_size s) \<le> lay_end r \<and> lay_permissions r = seg_permissions s \<and>
      source_start r \<le> unat (seg_file_offset s) \<and> unat (seg_file_offset s) + unat (seg_file_size s) \<le> source_end r \<and>
      (\<not> merge \<or> (\<forall>t \<in> set segments. seg_file_size t = seg_memory_size t) \<longrightarrow>
        unat (seg_file_offset s) = source_start r + (segment_target base img s - lay_start r))"
    if s: "s \<in> set segments" for s
  proof -
    obtain q where q: "q \<in> set placed" "target_region b lowest s q" using to s by blast
    then obtain r where "r \<in> set out" "holds r q"
      "\<not> merge \<or> (\<forall>t \<in> set segments. seg_file_size t = seg_memory_size t) \<longrightarrow> in_step r q"
      using mi(4) by blast
    then show ?thesis
      using seg [OF q(2)] s by (intro bexI [of _ r]) (auto simp: holds_def in_step_def segments_def)
  qed
  have "sum_list (map (\<lambda>s. unat (seg_memory_size s)) (filter (\<lambda>s. seg_memory_size s \<noteq> 0) segs)) =
      sum_list (map (\<lambda>s. unat (seg_memory_size s)) segs)" for segs
    by (induction segs) auto
  then have total: "unat (lplan_mapped_bytes plan) = sum_list (map (\<lambda>s. unat (seg_memory_size s)) ?segs)"
    "unat (lplan_file_bytes plan) = sum_list (map (\<lambda>s. unat (seg_file_size s)) segments)"
    using fin mi(2,3) targets_total [OF tg] by (simp_all add: segments_def)
  show ?thesis using fin mi(1) cover inside total by simp
qed

text \<open>Two segments of the demonstration kind, the higher one first, merged for a new base.\<close>

definition layout_demo :: BinaryImage where
  "layout_demo = empty_image\<lparr>img_file_data := Some [1, 2, 3, 4, 5, 6, 7, 8],
     img_segments := map (\<lambda>(n, off). \<lparr>seg_index = n, seg_file_offset = off, seg_file_size = 4,
       seg_virtual_address = 0x100 + off, seg_memory_size = 4, seg_alignment = 0,
       seg_permissions = 5, seg_sections = []\<rparr>) [(0, 4), (1, 0)]\<rparr>"

theorem plan_layout_sound_witness:
  "\<exists>plan. plan_layout demo_limits layout_demo 0x400 True = Inr plan \<and>
     unat (lplan_mapped_bytes plan) = 8 \<and> unat (lplan_file_bytes plan) = 8 \<and>
     (\<exists>r \<in> set (lplan_regions plan). lay_start r \<le> 0x402 \<and> 0x402 < lay_end r)"
proof -
  have "\<not> isl (plan_layout demo_limits layout_demo 0x400 True)" by code_simp
  then obtain plan where p: "plan_layout demo_limits layout_demo 0x400 True = Inr plan"
    by (cases "plan_layout demo_limits layout_demo 0x400 True") auto
  have ne: "img_segments layout_demo \<noteq> []" by (simp add: layout_demo_def)
  note s = plan_layout_sound [OF p ne]
  have "\<exists>s \<in> set (img_segments layout_demo). segment_target 0x400 layout_demo s \<le> 0x402 \<and>
          0x402 < segment_target 0x400 layout_demo s + unat (seg_memory_size s)"
    by (simp add: layout_demo_def segment_target_def lowest_address_def)
  moreover have "sum_list (map (\<lambda>s. unat (seg_memory_size s)) (img_segments layout_demo)) = 8"
    "sum_list (map (\<lambda>s. unat (seg_file_size s)) (filter (\<lambda>s. seg_memory_size s \<noteq> 0) (img_segments layout_demo))) = 8"
    by (simp_all add: layout_demo_def)
  ultimately show ?thesis using s p by auto
qed

text \<open>
  Merging goes wrong after zero fill: the second segment's bytes are 4 into the source of the merged region,
  but the segment is 8 into its target.
\<close>

lemma merge_drops_zero_fill:
  "let img = empty_image\<lparr>img_file_data := Some [1, 2, 3, 4, 5, 6, 7, 8],
     img_segments := map (\<lambda>(n, off, va, mem). \<lparr>seg_index = n, seg_file_offset = off, seg_file_size = 4,
       seg_virtual_address = va, seg_memory_size = mem, seg_alignment = 0,
       seg_permissions = 5, seg_sections = []\<rparr>) [(0, 0, 0x100, 8), (1, 4, 0x108, 4)]\<rparr>;
     plan = plan_layout demo_limits img 0 True in
   map_sum id (map (\<lambda>r. (lay_source_offset r, lay_source_size r, lay_target_address r, lay_target_size r)) \<circ> lplan_regions) plan =
     Inr [(0, 8, 0x100, 12)]"
  by code_simp

end
