(* ===== verification/Symbol_Index.thy ===== *)
theory Symbol_Index
  imports Validator Ordered_Map
begin

text \<open>
  \<open>AddressTranslator\<close> and \<open>SymbolIndex\<close> of \<open>src/symbol_index.cc\<close>. The index keeps pointers into
  the symbol table; nothing compares them, so the model keeps the symbols they point to. The
  lemmas describe the three ordered maps of a built index by the symbol table it was built from.
\<close>

section \<open>Address translation\<close>

record FileAddress =
  fa_offset :: u64
  fa_available :: u64
  fa_section :: u32

text \<open>A scan stops at the first element that decides it: with an address, or with nothing.\<close>

datatype 'a scan = skip | stop "'a option"

fun scan_first :: "('a \<Rightarrow> 'b scan) \<Rightarrow> 'a list \<Rightarrow> 'b scan" where
  "scan_first f [] = skip"
| "scan_first f (x # xs) = (case f x of skip \<Rightarrow> scan_first f xs | stop r \<Rightarrow> stop r)"

definition scan_sections_then_segments ::
    "BinaryImage \<Rightarrow> (Section \<Rightarrow> 'b scan) \<Rightarrow> (Segment \<Rightarrow> 'b scan) \<Rightarrow> 'b option" where
  "scan_sections_then_segments img on_section on_segment =
    (case scan_first on_section (img_sections img) of
       stop r \<Rightarrow> r
     | skip \<Rightarrow> (case scan_first on_segment (img_segments img) of stop r \<Rightarrow> r | skip \<Rightarrow> None))"

definition section_to_file :: "u64 \<Rightarrow> u64 \<Rightarrow> Section \<Rightarrow> FileAddress scan" where
  "section_to_file address len s =
    (if address < sec_virtual_address s then skip
     else let displacement = address - sec_virtual_address s in
       if \<not> range_inside displacement len (sec_memory_size s) then skip
       else if \<not> range_inside displacement len (sec_file_size s) then stop None
       else case checked_add (sec_file_offset s) displacement of
         None \<Rightarrow> stop None
       | Some offset \<Rightarrow> stop (Some \<lparr>fa_offset = offset,
           fa_available = sec_file_size s - displacement, fa_section = sec_index s\<rparr>))"

definition segment_to_file :: "u64 \<Rightarrow> u64 \<Rightarrow> Segment \<Rightarrow> FileAddress scan" where
  "segment_to_file address len s =
    (if address < seg_virtual_address s then skip
     else let displacement = address - seg_virtual_address s in
       if \<not> range_inside displacement len (seg_file_size s) then skip
       else case checked_add (seg_file_offset s) displacement of
         None \<Rightarrow> stop None
       | Some offset \<Rightarrow> stop (Some \<lparr>fa_offset = offset,
           fa_available = seg_file_size s - displacement, fa_section = 0xffffffff\<rparr>))"

definition virtual_to_file :: "BinaryImage \<Rightarrow> u64 \<Rightarrow> u64 \<Rightarrow> FileAddress option" where
  "virtual_to_file img address len =
     scan_sections_then_segments img (section_to_file address len) (segment_to_file address len)"

definition section_to_virtual :: "u64 \<Rightarrow> u64 \<Rightarrow> Section \<Rightarrow> u64 scan" where
  "section_to_virtual offset len s =
    (if offset < sec_file_offset s then skip
     else let displacement = offset - sec_file_offset s in
       if \<not> range_inside displacement len (sec_file_size s) then skip
       else stop (checked_add (sec_virtual_address s) displacement))"

definition segment_to_virtual :: "u64 \<Rightarrow> u64 \<Rightarrow> Segment \<Rightarrow> u64 scan" where
  "segment_to_virtual offset len s =
    (if offset < seg_file_offset s then skip
     else let displacement = offset - seg_file_offset s in
       if \<not> range_inside displacement len (seg_file_size s) then skip
       else stop (checked_add (seg_virtual_address s) displacement))"

definition file_to_virtual :: "BinaryImage \<Rightarrow> u64 \<Rightarrow> u64 \<Rightarrow> u64 option" where
  "file_to_virtual img offset len =
     scan_sections_then_segments img (section_to_virtual offset len) (segment_to_virtual offset len)"

definition section_rva :: "u64 \<Rightarrow> u64 \<Rightarrow> Section \<Rightarrow> FileAddress scan" where
  "section_rva rva len s =
    (if rva < sec_virtual_address s then skip
     else let displacement = rva - sec_virtual_address s in
       if \<not> range_inside displacement len (sec_file_size s) then skip
       else case checked_add (sec_file_offset s) displacement of
         None \<Rightarrow> stop None
       | Some offset \<Rightarrow> stop (Some \<lparr>fa_offset = offset,
           fa_available = sec_file_size s - displacement, fa_section = sec_index s\<rparr>))"

definition rva_to_file :: "BinaryImage \<Rightarrow> u64 \<Rightarrow> u64 \<Rightarrow> FileAddress option" where
  "rva_to_file img rva len =
    (let image_base = hdr_image_base (img_header img);
         by_section = (case scan_first (section_rva rva len) (img_sections img) of
           stop r \<Rightarrow> r | skip \<Rightarrow> None) in
     if image_base = 0 then by_section
     else case checked_add image_base rva of
       None \<Rightarrow> None
     | Some address \<Rightarrow>
         (case virtual_to_file img address len of
            Some translated \<Rightarrow> Some translated
          | None \<Rightarrow> by_section))"

section \<open>The symbol index\<close>

record SymbolIndex =
  si_limits :: Limits
  si_names :: "(string, Symbol) omap"
  si_qualified :: "(string \<times> string, Symbol) omap"
  si_addresses :: "(u64, Symbol) omap"

definition new_symbol_index :: "Limits \<Rightarrow> SymbolIndex" where
  "new_symbol_index limits =
     \<lparr>si_limits = limits, si_names = [], si_qualified = [], si_addresses = []\<rparr>"

definition si_clear :: "SymbolIndex \<Rightarrow> SymbolIndex" where
  "si_clear s = s\<lparr>si_names := [], si_qualified := [], si_addresses := []\<rparr>"

text \<open>
  \<open>emplace\<close>, and when the key was there already, the replacement of its value on a condition on
  the existing one.
\<close>

definition emplace_or_replace ::
    "('v \<Rightarrow> bool) \<Rightarrow> 'k::linorder \<Rightarrow> 'v \<Rightarrow> ('k, 'v) omap \<Rightarrow> ('k, 'v) omap" where
  "emplace_or_replace replaces k v m =
    (case om_find m k of
       None \<Rightarrow> om_emplace k v m
     | Some existing \<Rightarrow> if replaces existing then om_modify k (\<lambda>_. v) m else m)"

definition add_name :: "Symbol \<Rightarrow> (string, Symbol) omap \<Rightarrow> (string, Symbol) omap" where
  "add_name symbol names =
    (if sym_name symbol = [] then names
     else emplace_or_replace
       (\<lambda>existing. sym_binding existing = local_binding \<and> sym_binding symbol \<noteq> local_binding)
       (sym_name symbol) symbol names)"

definition addressable :: "Symbol \<Rightarrow> bool" where
  "addressable symbol \<longleftrightarrow>
     sym_value symbol \<noteq> 0 \<and> sym_kind symbol \<noteq> file_symbol \<and> sym_kind symbol \<noteq> section_symbol"

definition add_address :: "Symbol \<Rightarrow> (u64, Symbol) omap \<Rightarrow> (u64, Symbol) omap" where
  "add_address symbol addresses =
    (if \<not> addressable symbol then addresses
     else emplace_or_replace (\<lambda>existing. sym_size existing = 0 \<and> sym_size symbol \<noteq> 0)
       (sym_value symbol) symbol addresses)"

definition index_symbol :: "Symbol \<Rightarrow> SymbolIndex \<Rightarrow> SymbolIndex" where
  "index_symbol symbol s =
     s\<lparr>si_names := add_name symbol (si_names s),
       si_qualified := (if sym_name symbol = [] then si_qualified s
         else om_emplace (sym_library symbol, sym_name symbol) symbol (si_qualified s)),
       si_addresses := add_address symbol (si_addresses s)\<rparr>"

text \<open>\<open>build\<close> clears the index first, also when it then fails.\<close>

definition si_build :: "BinaryImage \<Rightarrow> SymbolIndex \<Rightarrow> (Error + unit) \<times> SymbolIndex" where
  "si_build img s =
    (if length (img_symbols img) > unat (max_symbols (si_limits s))
     then (Inl (mk_error resource_limit 0 ''symbol index limit exceeded''), si_clear s)
     else (Inr (), fold index_symbol (img_symbols img) (si_clear s)))"

definition by_name :: "SymbolIndex \<Rightarrow> string \<Rightarrow> Symbol option" where
  "by_name s name = om_find (si_names s) name"

definition by_qualified_name :: "SymbolIndex \<Rightarrow> string \<Rightarrow> string \<Rightarrow> Symbol option" where
  "by_qualified_name s library name = om_find (si_qualified s) (library, name)"

record SymbolLookupResult =
  look_symbol :: "Symbol option"
  look_displacement :: u64
  look_exact :: bool

definition nearest :: "SymbolIndex \<Rightarrow> u64 \<Rightarrow> SymbolLookupResult" where
  "nearest s address =
    (case om_floor (si_addresses s) address of
       None \<Rightarrow> \<lparr>look_symbol = None, look_displacement = 0, look_exact = False\<rparr>
     | Some (base, symbol) \<Rightarrow>
         let displacement = address - base in
         \<lparr>look_symbol = (if sym_size symbol \<noteq> 0 \<and> displacement \<ge> sym_size symbol then None else Some symbol),
          look_displacement = displacement, look_exact = (displacement = 0)\<rparr>)"

definition by_prefix :: "SymbolIndex \<Rightarrow> string \<Rightarrow> nat \<Rightarrow> Symbol list" where
  "by_prefix s prefix_value maximum =
    (if maximum = 0 then []
     else map snd (take maximum (takeWhile (\<lambda>e. take (length prefix_value) (fst e) = prefix_value)
            (snd (om_lower_bound (si_names s) prefix_value)))))"

section \<open>A built index\<close>

lemma emplace_or_replace_find:
  "om_ok m \<Longrightarrow> om_ok (emplace_or_replace p k v m) \<and>
   om_find (emplace_or_replace p k v m) j =
     (if j = k then (case om_find m k of None \<Rightarrow> Some v | Some x \<Rightarrow> if p x then Some v else Some x)
      else om_find m j)"
  by (auto simp: emplace_or_replace_def om.ok_emplace om.ok_modify om.find_emplace om.find_modify
      split: option.splits)

text \<open>What an index should hold, by the symbol table.\<close>

definition first_preferring :: "('a \<Rightarrow> bool) \<Rightarrow> ('a \<Rightarrow> bool) \<Rightarrow> 'a list \<Rightarrow> 'a option" where
  "first_preferring better P xs =
     (case find (\<lambda>x. P x \<and> better x) xs of Some x \<Rightarrow> Some x | None \<Rightarrow> find P xs)"

lemma find_snoc: "find P (xs @ [x]) = (case find P xs of Some y \<Rightarrow> Some y | None \<Rightarrow> if P x then Some x else None)"
  by (induction xs) auto

lemma first_preferring_snoc:
  "first_preferring better P (xs @ [x]) =
     (if \<not> P x then first_preferring better P xs
      else case first_preferring better P xs of
        None \<Rightarrow> Some x
      | Some y \<Rightarrow> if \<not> better y \<and> better x then Some x else Some y)"
proof (cases "find (\<lambda>x. P x \<and> better x) xs")
  case (Some y)
  then have "better y" by (auto simp: find_Some_iff)
  then show ?thesis by (simp add: first_preferring_def find_snoc Some)
next
  case best: None
  show ?thesis
  proof (cases "find P xs")
    case None
    then show ?thesis using best by (simp add: first_preferring_def find_snoc)
  next
    case (Some y)
    then obtain i where "i < length xs" "P (xs ! i)" "y = xs ! i" by (auto simp: find_Some_iff)
    then have "y \<in> set xs" "P y" by auto
    then have "\<not> better y" using best by (auto simp: find_None_iff)
    then show ?thesis using best Some by (simp add: first_preferring_def find_snoc)
  qed
qed

lemma first_preferring_None:
  "first_preferring better P xs = None \<longleftrightarrow> (\<forall>x \<in> set xs. \<not> P x)"
proof (cases "find (\<lambda>x. P x \<and> better x) xs")
  case None
  then have "first_preferring better P xs = find P xs"
    by (simp only: first_preferring_def option.case)
  moreover have "find P xs = None \<longleftrightarrow> (\<forall>x \<in> set xs. \<not> P x)"
    unfolding find_None_iff by blast
  ultimately show ?thesis by simp
next
  case (Some y)
  then have "first_preferring better P xs = Some y" by (simp add: first_preferring_def)
  moreover have "y \<in> set xs" "P y" using Some by (auto simp: find_Some_iff)
  ultimately show ?thesis by auto
qed

definition index_of :: "Symbol list \<Rightarrow> SymbolIndex \<Rightarrow> bool" where
  "index_of symbols s \<longleftrightarrow>
     om_ok (si_names s) \<and> om_ok (si_qualified s) \<and> om_ok (si_addresses s) \<and>
     (\<forall>n. om_find (si_names s) n = (if n = [] then None else
        first_preferring (\<lambda>x. sym_binding x \<noteq> local_binding) (\<lambda>x. sym_name x = n) symbols)) \<and>
     (\<forall>l n. om_find (si_qualified s) (l, n) = (if n = [] then None else
        find (\<lambda>x. sym_library x = l \<and> sym_name x = n) symbols)) \<and>
     (\<forall>a. om_find (si_addresses s) a =
        first_preferring (\<lambda>x. sym_size x \<noteq> 0) (\<lambda>x. addressable x \<and> sym_value x = a) symbols)"

lemma index_of_Nil: "index_of [] (si_clear s)"
  by (simp add: index_of_def si_clear_def first_preferring_def)

lemma index_symbol_snoc:
  assumes "index_of symbols s"
  shows "index_of (symbols @ [x]) (index_symbol x s)"
proof -
  have ok: "om_ok (si_names s)" "om_ok (si_qualified s)" "om_ok (si_addresses s)"
    using assms by (simp_all add: index_of_def)
  have old: "om_find (si_names s) n = (if n = [] then None else
        first_preferring (\<lambda>x. sym_binding x \<noteq> local_binding) (\<lambda>x. sym_name x = n) symbols)"
    "om_find (si_qualified s) (l, n) = (if n = [] then None else
        find (\<lambda>x. sym_library x = l \<and> sym_name x = n) symbols)"
    "om_find (si_addresses s) a =
        first_preferring (\<lambda>x. sym_size x \<noteq> 0) (\<lambda>x. addressable x \<and> sym_value x = a) symbols" for n l a
    using assms by (simp_all add: index_of_def)
  have names: "om_find (add_name x (si_names s)) n = (if n = [] then None else
        first_preferring (\<lambda>x. sym_binding x \<noteq> local_binding) (\<lambda>x. sym_name x = n) (symbols @ [x]))" for n
  proof (cases "sym_name x = []")
    case True
    then show ?thesis by (auto simp: add_name_def old(1) first_preferring_snoc)
  next
    case False
    then show ?thesis
      unfolding add_name_def first_preferring_snoc conjunct2 [OF emplace_or_replace_find [OF ok(1)]]
      by (auto simp add: old(1) False False [symmetric] conjunct2 [OF emplace_or_replace_find [OF ok(1)]] split: option.split)
  qed
  have nok: "om_ok (add_name x (si_names s))"
    by (simp add: add_name_def ok emplace_or_replace_find)
  have quals: "om_find (if sym_name x = [] then si_qualified s
         else om_emplace (sym_library x, sym_name x) x (si_qualified s)) (l, n) =
      (if n = [] then None else find (\<lambda>x. sym_library x = l \<and> sym_name x = n) (symbols @ [x]))" for l n
  proof (cases "sym_name x = []")
    case True
    then show ?thesis by (simp add: old(2) find_snoc split: option.split)
  next
    case False
    then show ?thesis
      by (simp add: om.find_emplace [OF ok(2)] old(2) find_snoc split: option.split) 
  qed
  have addrs: "om_find (add_address x (si_addresses s)) a =
      first_preferring (\<lambda>x. sym_size x \<noteq> 0) (\<lambda>x. addressable x \<and> sym_value x = a) (symbols @ [x])" for a
  proof (cases "addressable x")
    case True
    then show ?thesis
      unfolding add_address_def first_preferring_snoc conjunct2 [OF emplace_or_replace_find [OF ok(3)]]
      by (simp add: old(3) conjunct2 [OF emplace_or_replace_find [OF ok(3)]] split: option.split)
  next
    case False
    then show ?thesis by (simp add: add_address_def old(3) first_preferring_snoc)
  qed
  have aok: "om_ok (add_address x (si_addresses s))"
    by (simp add: add_address_def ok emplace_or_replace_find)
  show ?thesis
    using names nok quals addrs aok ok by (simp add: index_of_def index_symbol_def om.ok_emplace)
qed

lemma fold_index: "index_of pre s \<Longrightarrow> index_of (pre @ symbols) (fold index_symbol symbols s)"
proof (induction symbols arbitrary: pre s)
  case (Cons x symbols)
  show ?case using Cons.IH [OF index_symbol_snoc [OF Cons.prems]] by simp
qed simp

lemma built_index: "si_build img s = (Inr (), s') \<Longrightarrow> index_of (img_symbols img) s'"
  using fold_index [OF index_of_Nil] by (auto simp: si_build_def split: if_splits)

section \<open>Names by prefix\<close>

lemma prefix_le: "take (length p) n = p \<Longrightarrow> p \<le> (n :: string)"
proof -
  assume "take (length p) n = p"
  then have "n = p @ drop (length p) n" by (metis append_take_drop_id)
  moreover have "p \<le> p @ q" for q :: string by (induction p) auto
  ultimately show "p \<le> n" by metis
qed

text \<open>Between two names that begin with \<open>p\<close> every name does: the matches are one block.\<close>

lemma prefix_block:
  "p \<le> m \<Longrightarrow> m < n \<Longrightarrow> take (length p) n = p \<Longrightarrow> take (length p) m = (p :: string)"
proof (induction p arbitrary: m n)
  case (Cons c p)
  obtain d m' where m: "m = d # m'" using Cons.prems(1) by (cases m) auto
  obtain e n' where n: "n = e # n'" using Cons.prems(3) by (cases n) auto
  have e: "e = c" "take (length p) n' = p" using Cons.prems(3) by (simp_all add: n)
  have "c \<le> d" using Cons.prems(1) by (auto simp: m)
  moreover have "d \<le> e" using Cons.prems(2) by (auto simp: m n)
  ultimately have d: "d = c" using e by simp
  then have "p \<le> m'" "m' < n'" using Cons.prems(1,2) e by (simp_all add: m n)
  then show ?case using Cons.IH [OF _ _ e(2)] d by (simp add: m)
qed simp

lemma takeWhile_filter:
  assumes "sorted_wrt (\<lambda>a b. fst a < fst b) m"
    and "\<And>a b. a \<in> set m \<Longrightarrow> b \<in> set m \<Longrightarrow> fst a < fst b \<Longrightarrow> P b \<Longrightarrow> P a"
  shows "takeWhile P m = filter P m"
  using assms
proof (induction m)
  case (Cons e m)
  show ?case
  proof (cases "P e")
    case True
    have "takeWhile P m = filter P m"
      by (rule Cons.IH) (use Cons.prems in \<open>auto intro: Cons.prems(2)\<close>)
    then show ?thesis using True by simp
  next
    case False
    have "\<not> P b" if "b \<in> set m" for b
      using False Cons.prems(1) Cons.prems(2) [of e b] that by auto
    then show ?thesis using False by (simp add: filter_empty_conv)
  qed
qed simp

lemma by_prefix_filter:
  assumes "om_ok (si_names s)"
  shows "by_prefix s p k = map snd (take k (filter (\<lambda>e. take (length p) (fst e) = p) (si_names s)))"
proof -
  let ?m = "si_names s"
  have "snd (om_lower_bound ?m p) = filter (\<lambda>e. \<not> fst e < p) ?m"
    using om_ok_split [OF assms, of p] by (simp add: om_lower_bound_def)
  moreover have "takeWhile (\<lambda>e. take (length p) (fst e) = p) (filter (\<lambda>e. \<not> fst e < p) ?m) =
      filter (\<lambda>e. take (length p) (fst e) = p) (filter (\<lambda>e. \<not> fst e < p) ?m)"
    using assms by (intro takeWhile_filter) (auto simp: om_ok_def sorted_wrt_filter not_less intro: prefix_block)
  moreover have "filter (\<lambda>e. take (length p) (fst e) = p) (filter (\<lambda>e. \<not> fst e < p) ?m) =
      filter (\<lambda>e. take (length p) (fst e) = p) ?m"
    using prefix_le by (auto simp: not_less intro!: filter_cong)
  ultimately show ?thesis by (simp add: by_prefix_def)
qed

section \<open>Properties\<close>

text \<open>
  A built index answers name look-ups by the symbol table: \<open>by_name\<close> yields the first symbol of
  that name that is not local, and the first one of that name when all are local;
  \<open>by_qualified_name\<close> yields the first symbol of that library and name.
\<close>

theorem by_name_exact:
  assumes "si_build img s = (Inr (), s')" "name \<noteq> []"
  shows "by_name s' name =
      first_preferring (\<lambda>x. sym_binding x \<noteq> local_binding) (\<lambda>x. sym_name x = name) (img_symbols img) \<and>
    by_qualified_name s' library name =
      find (\<lambda>x. sym_library x = library \<and> sym_name x = name) (img_symbols img)"
  using built_index [OF assms(1)] assms(2)
  by (simp add: index_of_def by_name_def by_qualified_name_def)

definition demo_symbol :: "string \<Rightarrow> SymbolBinding \<Rightarrow> u64 \<Rightarrow> u64 \<Rightarrow> Symbol" where
  "demo_symbol name binding val len = \<lparr>sym_index = 0, sym_name = name, sym_binding = binding,
     sym_kind = function_symbol, sym_section_index = 0, sym_value = val, sym_size = len,
     sym_visibility = 0, sym_library = []\<rparr>"

definition demo_symbols :: BinaryImage where
  "demo_symbols = empty_image\<lparr>img_symbols := [demo_symbol ''go'' local_binding 16 0,
     demo_symbol ''gone'' global 32 8, demo_symbol ''go'' global 48 4]\<rparr>"

lemma demo_symbols_built:
  obtains s' where "si_build demo_symbols (new_symbol_index demo_limits) = (Inr (), s')"
proof -
  have "fst (si_build demo_symbols (new_symbol_index demo_limits)) = Inr ()"
    by (simp add: si_build_def demo_symbols_def new_symbol_index_def demo_limits_def)
  then show thesis using that by (metis prod.collapse)
qed

theorem by_name_exact_witness:
  "\<exists>s'. si_build demo_symbols (new_symbol_index demo_limits) = (Inr (), s') \<and>
     by_name s' ''go'' = Some (demo_symbol ''go'' global 48 4)"
proof -
  obtain s' where s': "si_build demo_symbols (new_symbol_index demo_limits) = (Inr (), s')"
    by (rule demo_symbols_built)
  have "''go'' \<noteq> []" by simp
  note by_name_exact [OF s' this, of "[]"]
  then have "by_name s' ''go'' = Some (demo_symbol ''go'' global 48 4)"
    by (simp add: first_preferring_def demo_symbols_def demo_symbol_def)
  then show ?thesis using s' by blast
qed

text \<open>
  \<open>nearest\<close> finds the addressable symbols with the greatest value that is not above the
  address: it reports the displacement from that value, and yields the symbol unless the symbol
  has a size and ends before the address.
\<close>

theorem nearest_exact:
  assumes "si_build img s = (Inr (), s')" "x \<in> set (img_symbols img)" "addressable x"
    and "sym_value x \<le> address"
    and "\<forall>y \<in> set (img_symbols img). addressable y \<longrightarrow> sym_value y \<le> address \<longrightarrow> sym_value y \<le> sym_value x"
  shows "\<exists>y. first_preferring (\<lambda>y. sym_size y \<noteq> 0) (\<lambda>y. addressable y \<and> sym_value y = sym_value x)
        (img_symbols img) = Some y \<and>
    nearest s' address = \<lparr>look_symbol =
        (if sym_size y \<noteq> 0 \<and> address - sym_value x \<ge> sym_size y then None else Some y),
      look_displacement = address - sym_value x, look_exact = (address = sym_value x)\<rparr>"
proof -
  let ?at = "\<lambda>a. first_preferring (\<lambda>y. sym_size y \<noteq> 0) (\<lambda>y. addressable y \<and> sym_value y = a) (img_symbols img)"
  have ix: "index_of (img_symbols img) s'" by (rule built_index [OF assms(1)])
  then have ok: "om_ok (si_addresses s')" and at: "om_find (si_addresses s') a = ?at a" for a
    by (simp_all add: index_of_def)
  have none: "?at a = None \<longleftrightarrow> (\<forall>y \<in> set (img_symbols img). \<not> (addressable y \<and> sym_value y = a))" for a
    by (simp add: first_preferring_None)
  have "?at (sym_value x) \<noteq> None" using none assms(2,3) by blast
  then obtain y where y: "?at (sym_value x) = Some y" by blast
  have "om_floor (si_addresses s') address = Some (sym_value x, y)"
  proof (rule om.floor_unique [OF ok])
    show "om_find (si_addresses s') (sym_value x) = Some y" using at y by simp
    show "sym_value x \<le> address" by fact
    fix j assume "om_find (si_addresses s') j \<noteq> None" "j \<le> address"
    then obtain z where "z \<in> set (img_symbols img)" "addressable z" "sym_value z = j"
      using none [of j] at by auto
    then show "j \<le> sym_value x" using assms(5) \<open>j \<le> address\<close> by blast
  qed
  then show ?thesis using y by (auto simp: nearest_def Let_def)
qed

theorem nearest_exact_witness:
  "\<exists>s'. si_build demo_symbols (new_symbol_index demo_limits) = (Inr (), s') \<and>
     look_symbol (nearest s' 40) = None \<and> look_displacement (nearest s' 40) = 8"
proof -
  obtain s' where s': "si_build demo_symbols (new_symbol_index demo_limits) = (Inr (), s')"
    by (rule demo_symbols_built)
  let ?x = "demo_symbol ''gone'' global 32 8"
  have 1: "?x \<in> set (img_symbols demo_symbols)" by (simp add: demo_symbols_def)
  have 2: "addressable ?x" "sym_value ?x \<le> 40" by (simp_all add: addressable_def demo_symbol_def)
  have 3: "\<forall>y \<in> set (img_symbols demo_symbols). addressable y \<longrightarrow> sym_value y \<le> 40 \<longrightarrow> sym_value y \<le> sym_value ?x"
    by (simp add: demo_symbols_def demo_symbol_def)
  from nearest_exact [OF s' 1 2 3] have "look_symbol (nearest s' 40) = None \<and> look_displacement (nearest s' 40) = 8"
    by (auto simp: first_preferring_def demo_symbols_def demo_symbol_def addressable_def)
  then show ?thesis using s' by blast
qed

text \<open>
  \<open>prefix\<close> yields, in alphabetical order and up to the maximum, exactly the indexed symbols
  whose names begin with the prefix, although it scans from \<open>lower_bound\<close> and stops at the first
  name that does not match.
\<close>

theorem by_prefix_exact:
  assumes "si_build img s = (Inr (), s')"
  shows "\<exists>names. sorted_wrt (<) names \<and>
    set names = {n. n \<noteq> [] \<and> take (length p) n = p \<and> n \<in> sym_name ` set (img_symbols img)} \<and>
    by_prefix s' p k = map (\<lambda>n. the (by_name s' n)) (take k names)"
proof -
  have ix: "index_of (img_symbols img) s'" by (rule built_index [OF assms])
  then have ok: "om_ok (si_names s')" by (simp add: index_of_def)
  let ?f = "filter (\<lambda>e. take (length p) (fst e) = p) (si_names s')"
  have srt: "sorted_wrt (<) (map fst ?f)"
    using ok by (simp add: om_ok_def sorted_wrt_map sorted_wrt_filter)
  have key: "n \<in> fst ` set (si_names s') \<longleftrightarrow> n \<noteq> [] \<and> n \<in> sym_name ` set (img_symbols img)" for n
  proof -
    have "n \<in> fst ` set (si_names s') \<longleftrightarrow> om_find (si_names s') n \<noteq> None" by (simp add: om_find_None_iff)
    also have "\<dots> \<longleftrightarrow> n \<noteq> [] \<and> first_preferring (\<lambda>x. sym_binding x \<noteq> local_binding)
        (\<lambda>x. sym_name x = n) (img_symbols img) \<noteq> None"
      using ix by (simp add: index_of_def)
    finally show ?thesis by (auto simp: first_preferring_None)
  qed
  have "set (map fst ?f) = {n. n \<in> fst ` set (si_names s') \<and> take (length p) n = p}" by force
  also have "\<dots> = {n. n \<noteq> [] \<and> take (length p) n = p \<and> n \<in> sym_name ` set (img_symbols img)}"
    unfolding key by blast
  finally have "set (map fst ?f) =
      {n. n \<noteq> [] \<and> take (length p) n = p \<and> n \<in> sym_name ` set (img_symbols img)}" .
  moreover have "snd e = the (by_name s' (fst e))" if "e \<in> set (si_names s')" for e
    using that ok om_find_Some_iff [OF ok, of "fst e" "snd e"] by (simp add: by_name_def)
  then have "map snd (take k ?f) = map (\<lambda>n. the (by_name s' n)) (take k (map fst ?f))"
    by (auto simp: take_map dest!: in_set_takeD)
  ultimately show ?thesis using srt by_prefix_filter [OF ok] by (intro exI [of _ "map fst ?f"]) simp
qed

theorem by_prefix_exact_witness:
  "\<exists>s' names. si_build demo_symbols (new_symbol_index demo_limits) = (Inr (), s') \<and>
     set names = {''go'', ''gone''} \<and> by_prefix s' ''go'' 5 = map (\<lambda>n. the (by_name s' n)) (take 5 names)"
proof -
  obtain s' where s': "si_build demo_symbols (new_symbol_index demo_limits) = (Inr (), s')"
    by (rule demo_symbols_built)
  have "{n. n \<noteq> [] \<and> take (length ''go'') n = ''go'' \<and> n \<in> sym_name ` set (img_symbols demo_symbols)} =
      {''go'', ''gone''}"
    by (auto simp: demo_symbols_def demo_symbol_def)
  then show ?thesis using by_prefix_exact [OF s', of "''go''" 5] s' by metis
qed

end
