(* ===== verification/Manifest.thy ===== *)
theory Manifest
  imports Container Validator
begin

text \<open>
  \<open>ImageManifestCodec\<close> of \<open>src/manifest.cc\<close>: a whole image, its file bytes included, as one
  container. The encoder leaves out the tables its options exclude and writes debug units as
  summaries only; the decoder ignores the flags, checks section checksums and validates the
  result. Where the source gives up without setting the error it has cleared, the model returns
  \<open>no_error\<close> as the error. The lemmas show what an image becomes on the way through the container
  and that the decoder yields only images that are valid and can be written again.
\<close>

section \<open>Enumerations as bytes\<close>

text \<open>
  The decoder casts unchecked bytes to scoped enumerations; bytes past the last enumerator become
  the \<open>..._other\<close> values.
\<close>

definition enum_of :: "'a list \<Rightarrow> (u8 \<Rightarrow> 'a) \<Rightarrow> u8 \<Rightarrow> 'a" where
  "enum_of names other b = (if unat b < length names then names ! unat b else other b)"

fun format_byte :: "BinaryFormat \<Rightarrow> u8" where
  "format_byte format_unknown = 0" | "format_byte elf_like = 1" | "format_byte pe_like = 2"
| "format_byte macho_like = 3"

definition format_of :: "u8 \<Rightarrow> BinaryFormat" where
  "format_of = enum_of [format_unknown, elf_like, pe_like, macho_like] (\<lambda>_. format_unknown)"

definition word_of :: "u8 \<Rightarrow> WordSize" where
  "word_of b = (if b = 4 then bits32 else bits64)"

fun order_code :: "ByteOrder \<Rightarrow> u8" where
  "order_code little = 0" | "order_code big = 1"

definition order_from :: "u8 \<Rightarrow> ByteOrder" where
  "order_from b = (if b = 0 then little else big)"

fun binary_kind_byte :: "BinaryKind \<Rightarrow> u8" where
  "binary_kind_byte kind_unknown = 0" | "binary_kind_byte relocatable = 1"
| "binary_kind_byte executable = 2" | "binary_kind_byte shared_library = 3"
| "binary_kind_byte core = 4" | "binary_kind_byte (kind_other b) = b"

definition binary_kind_of :: "u8 \<Rightarrow> BinaryKind" where
  "binary_kind_of = enum_of [kind_unknown, relocatable, executable, shared_library, core] kind_other"

fun architecture_byte :: "Architecture \<Rightarrow> u8" where
  "architecture_byte arch_unknown = 0" | "architecture_byte x86 = 1" | "architecture_byte x86_64 = 2"
| "architecture_byte arm = 3" | "architecture_byte arm64 = 4" | "architecture_byte riscv32 = 5"
| "architecture_byte riscv64 = 6" | "architecture_byte (arch_other b) = b"

definition architecture_of :: "u8 \<Rightarrow> Architecture" where
  "architecture_of = enum_of [arch_unknown, x86, x86_64, arm, arm64, riscv32, riscv64] arch_other"

fun section_kind_byte :: "SectionKind \<Rightarrow> u8" where
  "section_kind_byte section_unknown = 0" | "section_kind_byte program_bits = 1"
| "section_kind_byte no_bits = 2" | "section_kind_byte string_table = 3"
| "section_kind_byte symbol_table = 4" | "section_kind_byte dynamic_symbols = 5"
| "section_kind_byte relocations = 6" | "section_kind_byte relocation_addends = 7"
| "section_kind_byte debug = 8" | "section_kind_byte import_section = 9"
| "section_kind_byte export_section = 10" | "section_kind_byte resources = 11"
| "section_kind_byte unwind = 12" | "section_kind_byte note_section = 13"
| "section_kind_byte (section_other b) = b"

definition section_kind_of :: "u8 \<Rightarrow> SectionKind" where
  "section_kind_of = enum_of [section_unknown, program_bits, no_bits, string_table, symbol_table,
     dynamic_symbols, relocations, relocation_addends, debug, import_section, export_section,
     resources, unwind, note_section] section_other"

fun binding_byte :: "SymbolBinding \<Rightarrow> u8" where
  "binding_byte local_binding = 0" | "binding_byte global = 1" | "binding_byte weak = 2"
| "binding_byte import_symbol = 3" | "binding_byte export_symbol = 4"
| "binding_byte (binding_other b) = b"

definition binding_of :: "u8 \<Rightarrow> SymbolBinding" where
  "binding_of = enum_of [local_binding, global, weak, import_symbol, export_symbol] binding_other"

fun symbol_kind_byte :: "SymbolKind \<Rightarrow> u8" where
  "symbol_kind_byte symbol_unknown = 0" | "symbol_kind_byte object = 1"
| "symbol_kind_byte function_symbol = 2" | "symbol_kind_byte section_symbol = 3"
| "symbol_kind_byte file_symbol = 4" | "symbol_kind_byte common = 5"
| "symbol_kind_byte tls_object = 6" | "symbol_kind_byte (symbol_other b) = b"

definition symbol_kind_of :: "u8 \<Rightarrow> SymbolKind" where
  "symbol_kind_of = enum_of [symbol_unknown, object, function_symbol, section_symbol, file_symbol,
     common, tls_object] symbol_other"

fun relocation_kind_byte :: "RelocationKind \<Rightarrow> u8" where
  "relocation_kind_byte reloc_none = 0" | "relocation_kind_byte absolute32 = 1"
| "relocation_kind_byte absolute64 = 2" | "relocation_kind_byte relative32 = 3"
| "relocation_kind_byte relative64 = 4" | "relocation_kind_byte pc_relative32 = 5"
| "relocation_kind_byte got_relative = 6" | "relocation_kind_byte plt_relative = 7"
| "relocation_kind_byte high16 = 8" | "relocation_kind_byte low16 = 9"
| "relocation_kind_byte (reloc_other b) = b"

definition relocation_kind_of :: "u8 \<Rightarrow> RelocationKind" where
  "relocation_kind_of = enum_of [reloc_none, absolute32, absolute64, relative32, relative64,
     pc_relative32, got_relative, plt_relative, high16, low16] reloc_other"

fun bool_byte :: "bool \<Rightarrow> u8" where
  "bool_byte True = 1" | "bool_byte False = 0"

section \<open>The encoder\<close>

record ManifestOptions =
  mo_symbols :: bool
  mo_relocations :: bool
  mo_imports :: bool
  mo_exports :: bool
  mo_debug_summary :: bool
  mo_checksums :: bool

definition all_options :: ManifestOptions where
  "all_options = \<lparr>mo_symbols = True, mo_relocations = True, mo_imports = True, mo_exports = True,
     mo_debug_summary = True, mo_checksums = True\<rparr>"

text \<open>\<open>ManifestWriter\<close> appends to a byte vector; the model concatenates what it appends.\<close>

definition text_bytes :: "string \<Rightarrow> bytes" where
  "text_bytes value = le_bytes 4 (of_nat (length value) :: u32) @ bytes_of_string value"

definition option_flags :: "ManifestOptions \<Rightarrow> u32" where
  "option_flags opts =
     (if mo_symbols opts then 1 else 0) OR (if mo_relocations opts then 2 else 0) OR
     (if mo_imports opts then 4 else 0) OR (if mo_exports opts then 8 else 0) OR
     (if mo_debug_summary opts then 16 else 0) OR (if mo_checksums opts then 32 else 0)"

definition encode_header :: "FileHeader \<Rightarrow> bytes" where
  "encode_header h =
     [format_byte (hdr_format h)] @ [word_size_bytes (hdr_word_size h)] @ [order_code (hdr_byte_order h)] @
     [binary_kind_byte (hdr_kind h)] @ [architecture_byte (hdr_architecture h)] @
     le_bytes 8 (hdr_entry_point h) @ le_bytes 8 (hdr_image_base h) @
     le_bytes 8 (hdr_section_table_offset h) @ le_bytes 8 (hdr_segment_table_offset h) @
     le_bytes 4 (hdr_section_count h) @ le_bytes 4 (hdr_segment_count h) @ le_bytes 4 (hdr_flags h)"

definition section_checksum :: "bytes \<Rightarrow> Section \<Rightarrow> u32" where
  "section_checksum file s = crc32 (take (unat (sec_file_size s)) (drop (unat (sec_file_offset s)) file))"

definition checksummed :: "bytes \<Rightarrow> Section \<Rightarrow> bool" where
  "checksummed file s \<longleftrightarrow>
     sec_file_size s \<noteq> 0 \<and> range_inside (sec_file_offset s) (sec_file_size s) (of_nat (length file))"

definition encode_section :: "ManifestOptions \<Rightarrow> bytes \<Rightarrow> Section \<Rightarrow> bytes" where
  "encode_section opts file s =
     le_bytes 4 (sec_index s) @ text_bytes (sec_name s) @ [section_kind_byte (sec_kind s)] @
     le_bytes 8 (sec_file_offset s) @ le_bytes 8 (sec_file_size s) @
     le_bytes 8 (sec_virtual_address s) @ le_bytes 8 (sec_memory_size s) @
     le_bytes 8 (sec_alignment s) @ le_bytes 8 (sec_entry_size s) @ le_bytes 4 (sec_link s) @
     le_bytes 4 (sec_info s) @ [sec_permissions s] @
     le_bytes 4 (if mo_checksums opts \<and> checksummed file s then section_checksum file s else 0)"

definition encode_segment :: "Segment \<Rightarrow> bytes" where
  "encode_segment s =
     le_bytes 4 (seg_index s) @ le_bytes 8 (seg_file_offset s) @ le_bytes 8 (seg_file_size s) @
     le_bytes 8 (seg_virtual_address s) @ le_bytes 8 (seg_memory_size s) @
     le_bytes 8 (seg_alignment s) @ [seg_permissions s] @
     le_bytes 4 (of_nat (length (seg_sections s)) :: u32) @ concat (map (le_bytes 4) (seg_sections s))"

definition encode_symbol :: "Symbol \<Rightarrow> bytes" where
  "encode_symbol s =
     le_bytes 4 (sym_index s) @ text_bytes (sym_name s) @ [binding_byte (sym_binding s)] @
     [symbol_kind_byte (sym_kind s)] @ le_bytes 4 (sym_section_index s) @ le_bytes 8 (sym_value s) @
     le_bytes 8 (sym_size s) @ [sym_visibility s] @ text_bytes (sym_library s)"

definition encode_relocation :: "Relocation \<Rightarrow> bytes" where
  "encode_relocation rel =
     le_bytes 4 (rel_index rel) @ [relocation_kind_byte (rel_kind rel)] @
     le_bytes 4 (rel_target_section rel) @ le_bytes 4 (rel_symbol_index rel) @
     le_bytes 8 (rel_offset rel) @ le_bytes 8 (rel_addend rel) @ [rel_width rel]"

definition encode_import :: "Import \<Rightarrow> bytes" where
  "encode_import i =
     text_bytes (imp_library i) @ text_bytes (imp_name i) @ le_bytes 8 (imp_ordinal i) @
     le_bytes 8 (imp_slot_address i) @ [bool_byte (imp_weak i)]"

definition encode_export :: "Export \<Rightarrow> bytes" where
  "encode_export e =
     text_bytes (exp_name e) @ le_bytes 8 (exp_address e) @ le_bytes 8 (exp_ordinal e) @
     [bool_byte (exp_forwarded e)] @ text_bytes (exp_forward_target e)"

definition encode_unit :: "DebugUnit \<Rightarrow> bytes" where
  "encode_unit u =
     le_bytes 8 (unit_offset u) @ le_bytes 8 (unit_length u) @ le_bytes 4 (ucast (unit_version u) :: u32) @
     [unit_address_size u] @ le_bytes 4 (of_nat (length (unit_files u)) :: u32) @
     le_bytes 4 (of_nat (length (unit_lines u)) :: u32) @
     le_bytes 4 (of_nat (length (unit_entries u)) :: u32)"

text \<open>
  A table: its count, zero when it is left out, and as many of its items. The count is the size
  cast to 32 bits.
\<close>

definition table_count :: "bool \<Rightarrow> 'a list \<Rightarrow> u32" where
  "table_count included items = (if included then of_nat (length items) else 0)"

definition encode_table :: "('a \<Rightarrow> bytes) \<Rightarrow> bool \<Rightarrow> 'a list \<Rightarrow> bytes" where
  "encode_table enc included items =
     le_bytes 4 (table_count included items) @
     concat (map enc (take (unat (table_count included items)) items))"

definition magic_bfmf :: bytes where
  "magic_bfmf = bytes_of_string ''BFMF''"

definition encode_image :: "ManifestOptions \<Rightarrow> bytes \<Rightarrow> BinaryImage \<Rightarrow> bytes" where
  "encode_image opts file img =
     le_bytes 4 (1 :: u32) @ le_bytes 4 (option_flags opts) @ encode_header (img_header img) @
     le_bytes 8 (of_nat (length file) :: u64) @ file @
     encode_table (encode_section opts file) True (img_sections img) @
     encode_table encode_segment True (img_segments img) @
     encode_table encode_symbol (mo_symbols opts) (img_symbols img) @
     encode_table encode_relocation (mo_relocations opts) (img_relocations img) @
     encode_table encode_import (mo_imports opts) (img_imports img) @
     encode_table encode_export (mo_exports opts) (img_exports img) @
     encode_table encode_unit (mo_debug_summary opts) (img_debug_units img)"

definition manifest_encode :: "Limits \<Rightarrow> BinaryImage \<Rightarrow> ManifestOptions \<Rightarrow> Error + bytes" where
  "manifest_encode limits img opts =
    (case img_file_data img of
       None \<Rightarrow> Inl (mk_error resource_limit 0 ''image exceeds manifest encoding limits'')
     | Some file \<Rightarrow>
         if length file > unat (max_file_size limits) \<or>
            length (img_sections img) > unat (max_sections limits) \<or>
            length (img_segments img) > unat (max_segments limits) \<or>
            length (img_symbols img) > unat (max_symbols limits) \<or>
            length (img_relocations img) > unat (max_relocations limits)
         then Inl (mk_error resource_limit 0 ''image exceeds manifest encoding limits'')
         else Inr (seal (magic_bfmf @ encode_image opts file img)))"

section \<open>The decoder\<close>

definition read_text :: "u64 \<Rightarrow> string read" where
  "read_text maximum =
     pbind read_u32 (\<lambda>len.
     pbind (pcheck (\<lambda>r. \<not> ucast len > maximum \<and> \<not> ucast len > rd_remaining r)) (\<lambda>_.
     pbind (read_bytes (ucast len)) (\<lambda>bs. preturn (string_of_bytes bs))))"

definition decode_header :: "FileHeader read" where
  "decode_header =
     pbind read_u8 (\<lambda>format. pbind read_u8 (\<lambda>word. pbind read_u8 (\<lambda>order.
     pbind read_u8 (\<lambda>kind. pbind read_u8 (\<lambda>architecture.
     pbind read_u64 (\<lambda>entry_point. pbind read_u64 (\<lambda>image_base.
     pbind read_u64 (\<lambda>section_table. pbind read_u64 (\<lambda>segment_table.
     pbind read_u32 (\<lambda>section_count. pbind read_u32 (\<lambda>segment_count. pbind read_u32 (\<lambda>flags.
     pbind (pcheck (\<lambda>_. format \<le> 3 \<and> (word = 4 \<or> word = 8) \<and> order \<le> 1)) (\<lambda>_.
     preturn \<lparr>hdr_format = format_of format, hdr_word_size = word_of word,
       hdr_byte_order = order_from order, hdr_kind = binary_kind_of kind,
       hdr_architecture = architecture_of architecture, hdr_entry_point = entry_point,
       hdr_image_base = image_base, hdr_section_table_offset = section_table,
       hdr_segment_table_offset = segment_table, hdr_section_count = section_count,
       hdr_segment_count = segment_count, hdr_flags = flags\<rparr>)))))))))))))"

definition decode_section :: "Limits \<Rightarrow> bytes \<Rightarrow> (Error, Section) parse" where
  "decode_section limits file =
     pbind (on_fail
       (pbind read_u32 (\<lambda>index. pbind (read_text (max_string_bytes limits)) (\<lambda>name.
        pbind read_u8 (\<lambda>kind. pbind read_u64 (\<lambda>file_offset. pbind read_u64 (\<lambda>file_size.
        pbind read_u64 (\<lambda>address. pbind read_u64 (\<lambda>memory_size. pbind read_u64 (\<lambda>alignment.
        pbind read_u64 (\<lambda>entry_size. pbind read_u32 (\<lambda>link. pbind read_u32 (\<lambda>info.
        pbind read_u8 (\<lambda>permissions. pbind read_u32 (\<lambda>checksum.
        preturn (\<lparr>sec_index = index, sec_name = name, sec_kind = section_kind_of kind,
          sec_file_offset = file_offset, sec_file_size = file_size, sec_virtual_address = address,
          sec_memory_size = memory_size, sec_alignment = alignment, sec_entry_size = entry_size,
          sec_link = link, sec_info = info, sec_permissions = permissions\<rparr>, checksum)))))))))))))))
       (\<lambda>r. mk_error truncated (rd_position r) ''manifest section is truncated''))
     (\<lambda>(s, checksum).
     pbind (pguard (\<lambda>_. \<not> (checksum \<noteq> 0 \<and> checksummed file s \<and> section_checksum file s \<noteq> checksum))
       (\<lambda>_. mk_error invalid_section (sec_file_offset s) ''manifest section checksum does not match'')) (\<lambda>_.
     preturn s))"

definition decode_segment :: "Limits \<Rightarrow> nat \<Rightarrow> (Error, Segment) parse" where
  "decode_segment limits section_total =
     on_fail
       (pbind read_u32 (\<lambda>index. pbind read_u64 (\<lambda>file_offset. pbind read_u64 (\<lambda>file_size.
        pbind read_u64 (\<lambda>address. pbind read_u64 (\<lambda>memory_size. pbind read_u64 (\<lambda>alignment.
        pbind read_u8 (\<lambda>permissions. pbind read_u32 (\<lambda>count.
        pbind (pcheck (\<lambda>_. \<not> count > max_sections limits)) (\<lambda>_.
        pbind (prepeat (unat count)
          (pbind read_u32 (\<lambda>value. pbind (pcheck (\<lambda>_. \<not> unat value \<ge> section_total)) (\<lambda>_. preturn value)))) (\<lambda>sections.
        preturn \<lparr>seg_index = index, seg_file_offset = file_offset, seg_file_size = file_size,
          seg_virtual_address = address, seg_memory_size = memory_size, seg_alignment = alignment,
          seg_permissions = permissions, seg_sections = sections\<rparr>)))))))))))
       (\<lambda>_. no_error)"

definition decode_symbol :: "Limits \<Rightarrow> (Error, Symbol) parse" where
  "decode_symbol limits =
     on_fail
       (pbind read_u32 (\<lambda>index. pbind (read_text (max_string_bytes limits)) (\<lambda>name.
        pbind read_u8 (\<lambda>binding. pbind read_u8 (\<lambda>kind. pbind read_u32 (\<lambda>section_index.
        pbind read_u64 (\<lambda>value. pbind read_u64 (\<lambda>len. pbind read_u8 (\<lambda>visibility.
        pbind (read_text (max_string_bytes limits)) (\<lambda>library.
        preturn \<lparr>sym_index = index, sym_name = name, sym_binding = binding_of binding,
          sym_kind = symbol_kind_of kind, sym_section_index = section_index, sym_value = value,
          sym_size = len, sym_visibility = visibility, sym_library = library\<rparr>))))))))))
       (\<lambda>_. no_error)"

definition decode_relocation :: "(Error, Relocation) parse" where
  "decode_relocation =
     on_fail
       (pbind read_u32 (\<lambda>index. pbind read_u8 (\<lambda>kind. pbind read_u32 (\<lambda>target.
        pbind read_u32 (\<lambda>symbol. pbind read_u64 (\<lambda>offset. pbind read_i64 (\<lambda>addend.
        pbind read_u8 (\<lambda>width.
        preturn \<lparr>rel_index = index, rel_kind = relocation_kind_of kind, rel_target_section = target,
          rel_symbol_index = symbol, rel_offset = offset, rel_addend = addend, rel_width = width\<rparr>))))))))
       (\<lambda>_. no_error)"

definition decode_import :: "Limits \<Rightarrow> (Error, Import) parse" where
  "decode_import limits =
     on_fail
       (pbind (read_text (max_string_bytes limits)) (\<lambda>library.
        pbind (read_text (max_string_bytes limits)) (\<lambda>name.
        pbind read_u64 (\<lambda>ordinal. pbind read_u64 (\<lambda>slot. pbind read_u8 (\<lambda>is_weak.
        preturn \<lparr>imp_library = library, imp_name = name, imp_ordinal = ordinal,
          imp_slot_address = slot, imp_weak = (is_weak \<noteq> 0)\<rparr>))))))
       (\<lambda>_. no_error)"

definition decode_export :: "Limits \<Rightarrow> (Error, Export) parse" where
  "decode_export limits =
     on_fail
       (pbind (read_text (max_string_bytes limits)) (\<lambda>name.
        pbind read_u64 (\<lambda>address. pbind read_u64 (\<lambda>ordinal. pbind read_u8 (\<lambda>forwarded.
        pbind (read_text (max_string_bytes limits)) (\<lambda>target.
        preturn \<lparr>exp_name = name, exp_address = address, exp_ordinal = ordinal,
          exp_forwarded = (forwarded \<noteq> 0), exp_forward_target = target\<rparr>))))))
       (\<lambda>_. no_error)"

definition decode_unit :: "(Error, DebugUnit) parse" where
  "decode_unit =
     on_fail
       (pbind read_u64 (\<lambda>offset. pbind read_u64 (\<lambda>len. pbind read_u32 (\<lambda>version.
        pbind read_u8 (\<lambda>address_size. pbind read_u32 (\<lambda>files. pbind read_u32 (\<lambda>rows.
        pbind read_u32 (\<lambda>entries.
        preturn \<lparr>unit_offset = offset, unit_length = len, unit_version = ucast version,
          unit_address_size = address_size, unit_files = [], unit_lines = [], unit_entries = []\<rparr>))))))))
       (\<lambda>_. no_error)"

definition decode_table :: "u32 \<Rightarrow> (Error, 'a) parse \<Rightarrow> (Error, 'a list) parse" where
  "decode_table maximum item =
     pbind (on_fail
       (pbind read_u32 (\<lambda>count. pbind (pcheck (\<lambda>_. \<not> count > maximum)) (\<lambda>_. preturn count)))
       (\<lambda>_. no_error))
     (\<lambda>count. prepeat (unat count) item)"

definition decode_image :: "Limits \<Rightarrow> (Error, BinaryImage) parse" where
  "decode_image limits =
     pbind (on_fail
       (pbind read_u32 (\<lambda>version. pbind (pcheck (\<lambda>_. version = 1)) (\<lambda>_.
        pbind read_u32 (\<lambda>flags. decode_header))))
       (\<lambda>_. mk_error invalid_header 4 ''manifest header is invalid'')) (\<lambda>header.
     pbind (on_fail
       (pbind read_u64 (\<lambda>file_size.
        pbind (pcheck (\<lambda>r. \<not> file_size > max_file_size limits \<and> \<not> file_size > rd_remaining r)) (\<lambda>_.
        preturn file_size)))
       (\<lambda>r. mk_error resource_limit (rd_position r) ''manifest backing-file size is invalid'')) (\<lambda>file_size.
     pbind (on_fail (read_bytes file_size) (\<lambda>_. no_error)) (\<lambda>file.
     pbind (decode_table (max_sections limits) (decode_section limits file)) (\<lambda>sections.
     pbind (decode_table (max_segments limits) (decode_segment limits (length sections))) (\<lambda>segments.
     pbind (decode_table (max_symbols limits) (decode_symbol limits)) (\<lambda>symbols.
     pbind (decode_table (max_relocations limits) decode_relocation) (\<lambda>relocs.
     pbind (decode_table (max_imports limits) (decode_import limits)) (\<lambda>imports.
     pbind (decode_table (max_exports limits) (decode_export limits)) (\<lambda>exports.
     pbind (decode_table (max_debug_units limits) decode_unit) (\<lambda>units.
     pbind (pguard (\<lambda>r. rd_remaining r = 0)
       (\<lambda>r. mk_error invalid_header (rd_position r) ''manifest contains trailing model data'')) (\<lambda>_.
     preturn \<lparr>img_header = header, img_sections = sections, img_segments = segments,
       img_symbols = symbols, img_relocations = relocs, img_imports = imports, img_exports = exports,
       img_debug_units = units, img_warnings = [], img_file_data = Some file\<rparr>)))))))))))"

definition manifest_decode :: "Limits \<Rightarrow> bytes option \<Rightarrow> Error + BinaryImage" where
  "manifest_decode limits input =
    (case input of
       None \<Rightarrow> Inl (mk_error truncated 0 ''manifest input size is invalid'')
     | Some data \<Rightarrow>
         if length data < 16 \<or> length data > unat (max_file_size limits * 2)
         then Inl (mk_error truncated 0 ''manifest input size is invalid'')
         else if take 4 data \<noteq> magic_bfmf
         then Inl (mk_error bad_magic 0 ''manifest signature is invalid'')
         else if crc32 (sealed_body data) \<noteq> stored_checksum data
         then Inl (mk_error invalid_header (of_nat (length data - 4)) ''manifest checksum does not match'')
         else case fst (decode_image limits (reader_of (drop 4 (sealed_body data)) little)) of
           Inl e \<Rightarrow> Inl e
         | Inr img \<Rightarrow>
             let report = validate limits img in
             if rep_valid report then Inr img else Inl (hd (rep_errors report)))"

section \<open>What a container can hold\<close>

text \<open>A value of an enumeration is canonical when its byte is read back as the value.\<close>

lemma enum_of_canonical:
  assumes "list_all (\<lambda>k. enum_of names other (code k) = k) names" "\<And>b. code (other b) = b"
  shows "enum_of names other (code (enum_of names other b)) = enum_of names other b"
proof (cases "unat b < length names")
  case True
  then have "enum_of names other b \<in> set names" by (simp add: enum_of_def)
  then show ?thesis using assms(1) by (simp add: list_all_iff)
next
  case False
  then show ?thesis using assms(2) by (simp add: enum_of_def)
qed

lemma kinds_canonical [simp]:
  "binary_kind_of (binary_kind_byte (binary_kind_of b)) = binary_kind_of b"
  "architecture_of (architecture_byte (architecture_of b)) = architecture_of b"
  "section_kind_of (section_kind_byte (section_kind_of b)) = section_kind_of b"
  "binding_of (binding_byte (binding_of b)) = binding_of b"
  "symbol_kind_of (symbol_kind_byte (symbol_kind_of b)) = symbol_kind_of b"
  "relocation_kind_of (relocation_kind_byte (relocation_kind_of b)) = relocation_kind_of b"
  unfolding binary_kind_of_def architecture_of_def section_kind_of_def binding_of_def
    symbol_kind_of_def relocation_kind_of_def
  by (rule enum_of_canonical; simp add: enum_of_def)+

lemma header_codes [simp]:
  "format_of (format_byte f) = f" "format_byte f \<le> 3"
  "word_of (word_size_bytes w) = w" "word_size_bytes w = 4 \<or> word_size_bytes w = 8"
  "order_from (order_code o') = o'" "order_code o' \<le> 1"
  by (cases f; simp add: format_of_def enum_of_def)+
    ((cases w; simp add: word_of_def word_size_bytes_def)+, (cases o'; simp add: order_from_def)+)

lemma bool_codes [simp]: "(bool_byte b \<noteq> 0) = b"
  by (cases b) simp_all

definition text_ok :: "u64 \<Rightarrow> string \<Rightarrow> bool" where
  "text_ok maximum s \<longleftrightarrow> length s < 2 ^ 32 \<and> length s \<le> unat maximum"

lemma length_text [simp]: "length (text_bytes s) = 4 + length s"
  by (simp add: text_bytes_def)

lemma text_then:
  assumes "lit r" "moves r (text_bytes s @ bs) r'" "text_ok maximum s"
    "\<And>r1. lit r1 \<Longrightarrow> moves r1 bs r' \<Longrightarrow> f s r1 = res"
  shows "pbind (read_text maximum) f r = res"
proof -
  let ?n = "of_nat (length s) :: u32"
  have n: "unat ?n = length s"
    using assms(3) by (intro unat_of_nat_u32) (simp add: text_ok_def)
  obtain r1 r2 where m: "moves r (le_bytes 4 ?n) r1" "moves r1 (bytes_of_string s) r2" "moves r2 bs r'"
    using assms(2) unfolding text_bytes_def moves_append by blast
  have l1: "lit r1" and l2: "lit r2" using assms(1) m lit_moves by blast+
  have small: "\<not> ucast ?n > maximum" "\<not> ucast ?n > rd_remaining r1"
    using assms(3) moves_remaining [OF m(2)] by (simp_all add: word_less_nat_alt n text_ok_def)
  have "read_u32 r = (Inr ?n, r1)" using assms(1) by (intro read_u32_moves [OF m(1)]) (simp add: lit_def)
  moreover have "read_bytes (ucast ?n) r1 = (Inr (bytes_of_string s), r2)"
    by (rule read_bytes_decode [OF m(2)]) (simp add: n)
  ultimately have "read_text maximum r = (Inr s, r2)"
    using small by (simp add: read_text_def pbind_def pcheck_def preturn_def)
  then show ?thesis using assms(4) [OF l2 m(3)] by simp
qed

lemma text_eats:
  assumes "pbind (read_text maximum) f r = (Inr x, r')" "lit r" "eats r0 n r"
    "\<And>s r1. f s r1 = (Inr x, r') \<Longrightarrow> lit r1 \<Longrightarrow> eats r0 (n + (4 + length s)) r1 \<Longrightarrow> text_ok maximum s \<Longrightarrow> Q"
  shows Q
proof -
  obtain s r1 where d: "read_text maximum r = (Inr s, r1)" "f s r1 = (Inr x, r')"
    using assms(1) by (auto simp: pbind_Inr)
  obtain k ra bs where t: "read_u32 r = (Inr k, ra)" "read_bytes (ucast k) ra = (Inr bs, r1)"
      "\<not> ucast k > maximum" "s = string_of_bytes bs"
    using d(1) by (auto simp: read_text_def pbind_Inr)
  have la: "lit ra" by (rule u32_lit [OF assms(2) t(1)])
  have len: "length bs = unat k" using bytes_read_length [OF la t(2)] by simp
  have "eats r0 (n + 4 + length bs) r1"
    using eats_moves [OF eats_moves [OF assms(3) u32_read [OF assms(2) t(1)]] bytes_read [OF la t(2)]] by simp
  moreover have "text_ok maximum s"
    using t(3,4) len unat_u32_bound [of k] by (simp add: text_ok_def word_less_nat_alt)
  ultimately show Q using assms(4) [OF d(2) bytes_lit [OF la t(2)]] t(4) by (simp add: add.assoc)
qed

definition header_ok :: "FileHeader \<Rightarrow> bool" where
  "header_ok h \<longleftrightarrow> binary_kind_of (binary_kind_byte (hdr_kind h)) = hdr_kind h \<and>
     architecture_of (architecture_byte (hdr_architecture h)) = hdr_architecture h"

definition section_ok :: "Limits \<Rightarrow> Section \<Rightarrow> bool" where
  "section_ok limits s \<longleftrightarrow> text_ok (max_string_bytes limits) (sec_name s) \<and>
     section_kind_of (section_kind_byte (sec_kind s)) = sec_kind s"

definition segment_ok :: "Limits \<Rightarrow> nat \<Rightarrow> Segment \<Rightarrow> bool" where
  "segment_ok limits section_total s \<longleftrightarrow> length (seg_sections s) \<le> unat (max_sections limits) \<and>
     list_all (\<lambda>v. unat v < section_total) (seg_sections s)"

definition symbol_ok :: "Limits \<Rightarrow> Symbol \<Rightarrow> bool" where
  "symbol_ok limits s \<longleftrightarrow> text_ok (max_string_bytes limits) (sym_name s) \<and>
     text_ok (max_string_bytes limits) (sym_library s) \<and>
     binding_of (binding_byte (sym_binding s)) = sym_binding s \<and>
     symbol_kind_of (symbol_kind_byte (sym_kind s)) = sym_kind s"

definition relocation_ok :: "Relocation \<Rightarrow> bool" where
  "relocation_ok rel \<longleftrightarrow> relocation_kind_of (relocation_kind_byte (rel_kind rel)) = rel_kind rel"

definition import_ok :: "Limits \<Rightarrow> Import \<Rightarrow> bool" where
  "import_ok limits i \<longleftrightarrow> text_ok (max_string_bytes limits) (imp_library i) \<and>
     text_ok (max_string_bytes limits) (imp_name i)"

definition export_ok :: "Limits \<Rightarrow> Export \<Rightarrow> bool" where
  "export_ok limits e \<longleftrightarrow> text_ok (max_string_bytes limits) (exp_name e) \<and>
     text_ok (max_string_bytes limits) (exp_forward_target e)"

text \<open>A debug unit as the container keeps it.\<close>

definition unit_summary :: "DebugUnit \<Rightarrow> DebugUnit" where
  "unit_summary u = u\<lparr>unit_files := [], unit_lines := [], unit_entries := []\<rparr>"

definition unit_ok :: "DebugUnit \<Rightarrow> bool" where
  "unit_ok u \<longleftrightarrow> unit_summary u = u"

section \<open>The codecs of the tables\<close>

lemmas record_encodings = encode_section_def encode_segment_def encode_symbol_def
  encode_relocation_def encode_import_def encode_export_def encode_unit_def

lemma moves_Nil_end: "moves r bs r' \<Longrightarrow> moves r (bs @ []) r'"
  by simp

lemma decode_section_encoded:
  assumes ok: "section_ok limits s" and o: "rd_order r = little"
    and m: "moves r (encode_section opts file s) r'"
  shows "decode_section limits file r = (Inr s, r')"
proof -
  have l: "lit r" using o m by (simp add: lit_def moves_okD)
  have t: "text_ok (max_string_bytes limits) (sec_name s)"
    and k: "section_kind_of (section_kind_byte (sec_kind s)) = sec_kind s"
    using ok by (simp_all add: section_ok_def)
  show ?thesis
    using l moves_Nil_end [OF m] unfolding encode_section_def append_assoc decode_section_def
    apply -
    apply (rule on_fail_then)
     apply (rule u32_then, assumption, assumption)
     apply (rule text_then, assumption, assumption, rule t)
     apply (rule reads_then, assumption, assumption)+
     apply (rule return_then, assumption, rule refl)
    apply (simp add: pbind_def pguard_def preturn_def k checksummed_def section_checksum_def)
    done
qed


lemma word_list_encoded:
  "\<forall>v \<in> set vs. unat v < limit \<Longrightarrow> lit r \<Longrightarrow> moves r (concat (map (le_bytes 4) vs)) r' \<Longrightarrow>
   prepeat (length vs) (pbind read_u32 (\<lambda>value.
     pbind (pcheck (\<lambda>_. \<not> unat value \<ge> limit)) (\<lambda>_. preturn value))) r = (Inr vs, r')"
proof (induction vs arbitrary: r)
  case (Cons v vs)
  obtain r1 where m: "moves r (le_bytes 4 v) r1" "moves r1 (concat (map (le_bytes 4) vs)) r'"
    using Cons.prems(3) by (auto simp: moves_append)
  have "read_u32 r = (Inr v, r1)"
    using Cons.prems(2) by (intro read_u32_moves [OF m(1)]) (simp add: lit_def)
  then show ?case
    using Cons.prems(1) Cons.IH [OF _ lit_moves [OF Cons.prems(2) m(1)] m(2)]
    by (simp add: pbind_def pcheck_def preturn_def)
qed (simp add: preturn_def lit_def)

lemma decode_segment_encoded:
  assumes ok: "segment_ok limits n s" and o: "rd_order r = little" and m: "moves r (encode_segment s) r'"
  shows "decode_segment limits n r = (Inr s, r')"
proof -
  have l: "lit r" using o m by (simp add: lit_def moves_okD)
  let ?k = "of_nat (length (seg_sections s)) :: u32"
  have k: "unat ?k = length (seg_sections s)"
    using ok unat_u32_bound [of "max_sections limits"]
    by (intro unat_of_nat_u32) (simp add: segment_ok_def)
  have fits: "\<not> ?k > max_sections limits" using ok by (simp add: word_less_nat_alt k segment_ok_def)
  have vs: "\<forall>v \<in> set (seg_sections s). unat v < n" using ok by (simp add: segment_ok_def list_all_iff)
  show ?thesis
    using l m unfolding encode_segment_def append_assoc decode_segment_def on_fail_Inr
    apply -
    apply (rule reads_then, assumption, assumption)+
    apply (rule check_then, rule fits)
    apply (simp only: k)
    apply (rule pbind_step [THEN trans], rule word_list_encoded [OF vs], assumption, assumption)
    apply (simp add: preturn_def)
    done
qed

lemma decode_symbol_encoded:
  assumes ok: "symbol_ok limits s" and o: "rd_order r = little"
    and m: "moves r (encode_symbol s) r'"
  shows "decode_symbol limits r = (Inr s, r')"
proof -
  have l: "lit r" using o m by (simp add: lit_def moves_okD)
  have t: "text_ok (max_string_bytes limits) (sym_name s)" "text_ok (max_string_bytes limits) (sym_library s)"
    and k: "binding_of (binding_byte (sym_binding s)) = sym_binding s"
      "symbol_kind_of (symbol_kind_byte (sym_kind s)) = sym_kind s"
    using ok by (simp_all add: symbol_ok_def)
  show ?thesis
    using l moves_Nil_end [OF m] unfolding encode_symbol_def append_assoc decode_symbol_def on_fail_Inr
    apply -
    apply (rule reads_then, assumption, assumption)
    apply (rule text_then, assumption, assumption, rule t(1))
    apply (rule reads_then, assumption, assumption)+
    apply (rule text_then, assumption, assumption, rule t(2))
    apply (rule return_then, assumption)
    apply (simp add: k)
    done
qed

lemma decode_relocation_encoded:
  assumes ok: "relocation_ok s" and o: "rd_order r = little"
    and m: "moves r (encode_relocation s) r'"
  shows "decode_relocation r = (Inr s, r')"
proof -
  have l: "lit r" using o m by (simp add: lit_def moves_okD)
  have k: "relocation_kind_of (relocation_kind_byte (rel_kind s)) = rel_kind s"
    using ok by (simp add: relocation_ok_def)
  show ?thesis
    using l moves_Nil_end [OF m] unfolding encode_relocation_def append_assoc decode_relocation_def on_fail_Inr read_i64_def
    apply -
    apply (rule reads_then, assumption, assumption)+
    apply (rule return_then, assumption)
    apply (simp add: k)
    done
qed

lemma decode_import_encoded:
  assumes ok: "import_ok limits s" and o: "rd_order r = little"
    and m: "moves r (encode_import s) r'"
  shows "decode_import limits r = (Inr s, r')"
proof -
  have l: "lit r" using o m by (simp add: lit_def moves_okD)
  have t: "text_ok (max_string_bytes limits) (imp_library s)" "text_ok (max_string_bytes limits) (imp_name s)"
    using ok by (simp_all add: import_ok_def)
  show ?thesis
    using l moves_Nil_end [OF m] unfolding encode_import_def append_assoc decode_import_def on_fail_Inr
    apply -
    apply (rule text_then, assumption, assumption, rule t(1))
    apply (rule text_then, assumption, assumption, rule t(2))
    apply (rule reads_then, assumption, assumption)+
    apply (rule return_then, assumption)
    apply simp
    done
qed

lemma decode_export_encoded:
  assumes ok: "export_ok limits s" and o: "rd_order r = little"
    and m: "moves r (encode_export s) r'"
  shows "decode_export limits r = (Inr s, r')"
proof -
  have l: "lit r" using o m by (simp add: lit_def moves_okD)
  have t: "text_ok (max_string_bytes limits) (exp_name s)" "text_ok (max_string_bytes limits) (exp_forward_target s)"
    using ok by (simp_all add: export_ok_def)
  show ?thesis
    using l moves_Nil_end [OF m] unfolding encode_export_def append_assoc decode_export_def on_fail_Inr
    apply -
    apply (rule text_then, assumption, assumption, rule t(1))
    apply (rule reads_then, assumption, assumption)+
    apply (rule text_then, assumption, assumption, rule t(2))
    apply (rule return_then, assumption)
    apply simp
    done
qed

lemma ucast_u16_back [simp]: "(ucast (ucast (v :: u16) :: u32) :: u16) = v"
  by (rule bit_word_eqI) (auto simp: bit_simps)

lemma decode_unit_encoded:
  assumes o: "rd_order r = little" and m: "moves r (encode_unit u) r'"
  shows "decode_unit r = (Inr (unit_summary u), r')"
proof -
  have l: "lit r" using o m by (simp add: lit_def moves_okD)
  show ?thesis
    using l moves_Nil_end [OF m] unfolding encode_unit_def append_assoc decode_unit_def on_fail_Inr
    apply -
    apply (rule reads_then, assumption, assumption)+
    apply (rule return_then, assumption)
    apply (cases u; simp add: unit_summary_def)
    done
qed

lemma length_section: "length (encode_section opts file s) = 70 + length (sec_name s)"
  by (simp add: encode_section_def)

lemma decode_section_sound:
  assumes "reader_ok r" "rd_order r = little" "decode_section limits file r = (Inr s, r')"
  shows "section_ok limits s \<and> (\<exists>bs. moves r bs r' \<and> length bs = length (encode_section opts file s))"
proof -
  have l: "lit r" using assms by (simp add: lit_def)
  show ?thesis
    using assms(3) l eats_0 [OF l] unfolding decode_section_def eats_def [symmetric] length_section
    apply (clarsimp simp: pbind_Inr [where p = "on_fail _ _"] pbind_Inr [where p = "pguard _ _"])
    apply (erule (2) u32_eats)
    apply (erule (2) text_eats)
    apply (erule (2) reads_eat)+
    apply (simp add: section_ok_def)
    done
qed

lemma length_encodings:
  "length (encode_segment s) = 49 + 4 * length (seg_sections s)"
  "length (encode_symbol y) = 35 + length (sym_name y) + length (sym_library y)"
  "length (encode_relocation rel) = 30"
  "length (encode_import i) = 25 + length (imp_library i) + length (imp_name i)"
  "length (encode_export e) = 25 + length (exp_name e) + length (exp_forward_target e)"
  "length (encode_unit u) = 33"
proof -
  have "length (concat (map (le_bytes 4) (vs :: u32 list))) = 4 * length vs" for vs
    by (induction vs) simp_all
  then show "length (encode_segment s) = 49 + 4 * length (seg_sections s)"
    by (simp add: encode_segment_def)
qed (simp_all add: encode_symbol_def encode_relocation_def encode_import_def encode_export_def encode_unit_def)

lemma eats_cong: "eats r n r' \<Longrightarrow> n = m \<Longrightarrow> eats r m r'"
  by simp

lemma word_list_eats:
  "prepeat k (pbind read_u32 (\<lambda>value. pbind (pcheck (\<lambda>_. \<not> unat value \<ge> limit)) (\<lambda>_. preturn value))) r =
     (Inr vs, r') \<Longrightarrow> lit r \<Longrightarrow>
   lit r' \<and> eats r (4 * k) r' \<and> length vs = k \<and> list_all (\<lambda>v. unat v < limit) vs"
proof (induction k arbitrary: r vs)
  case (Suc k)
  then obtain v r1 ws where d: "read_u32 r = (Inr v, r1)" "unat v < limit" "vs = v # ws"
    "prepeat k (pbind read_u32 (\<lambda>value. pbind (pcheck (\<lambda>_. \<not> unat value \<ge> limit)) (\<lambda>_. preturn value))) r1 = (Inr ws, r')"
    by (auto simp: pbind_Inr)
  have l: "lit r1" by (rule u32_lit [OF Suc.prems(2) d(1)])
  have "eats r 4 r1" using u32_read [OF Suc.prems(2) d(1)] by (auto simp: eats_def)
  then show ?case using Suc.IH [OF d(4) l] d(2,3) eats_trans [of r 4 r1] by auto
qed (simp add: eats_0)

lemma decode_segment_sound:
  assumes "reader_ok r" "rd_order r = little" "decode_segment limits n r = (Inr s, r')"
  shows "segment_ok limits n s \<and> (\<exists>bs. moves r bs r' \<and> length bs = length (encode_segment s))"
proof -
  have l: "lit r" using assms by (simp add: lit_def)
  show ?thesis
    using assms(3) l eats_0 [OF l]
    unfolding decode_segment_def eats_def [symmetric] length_encodings on_fail_Inr
    apply -
    apply (erule (2) reads_eat)+
    apply (clarsimp simp: pbind_Inr)
    apply (drule (1) word_list_eats)
    apply (auto simp: segment_ok_def word_less_nat_alt dest: eats_trans)
    done
qed

lemma decode_symbol_sound:
  assumes "reader_ok r" "rd_order r = little" "decode_symbol limits r = (Inr s, r')"
  shows "symbol_ok limits s \<and> (\<exists>bs. moves r bs r' \<and> length bs = length (encode_symbol s))"
proof -
  have l: "lit r" using assms by (simp add: lit_def)
  show ?thesis
    using assms(3) l eats_0 [OF l] unfolding decode_symbol_def eats_def [symmetric] length_encodings on_fail_Inr
    apply -
    apply (erule (2) reads_eat)
    apply (erule (2) text_eats)
    apply (erule (2) reads_eat)+
    apply (erule (2) text_eats)
    apply (erule (2) reads_eat)+
    apply (simp add: symbol_ok_def add.assoc)
    done
qed

lemma decode_relocation_sound:
  assumes "reader_ok r" "rd_order r = little" "decode_relocation r = (Inr s, r')"
  shows "relocation_ok s \<and> (\<exists>bs. moves r bs r' \<and> length bs = length (encode_relocation s))"
proof -
  have l: "lit r" using assms by (simp add: lit_def)
  show ?thesis
    using assms(3) l eats_0 [OF l] unfolding decode_relocation_def eats_def [symmetric] length_encodings read_i64_def on_fail_Inr
    apply -
    apply (erule (2) reads_eat)+
    apply (simp add: relocation_ok_def)
    done
qed

lemma decode_import_sound:
  assumes "reader_ok r" "rd_order r = little" "decode_import limits r = (Inr s, r')"
  shows "import_ok limits s \<and> (\<exists>bs. moves r bs r' \<and> length bs = length (encode_import s))"
proof -
  have l: "lit r" using assms by (simp add: lit_def)
  show ?thesis
    using assms(3) l eats_0 [OF l] unfolding decode_import_def eats_def [symmetric] length_encodings on_fail_Inr
    apply -
    apply (erule (2) text_eats)
    apply (erule (2) text_eats)
    apply (erule (2) reads_eat)+
    apply (auto simp: import_ok_def elim: eats_cong)
    done
qed

lemma decode_export_sound:
  assumes "reader_ok r" "rd_order r = little" "decode_export limits r = (Inr s, r')"
  shows "export_ok limits s \<and> (\<exists>bs. moves r bs r' \<and> length bs = length (encode_export s))"
proof -
  have l: "lit r" using assms by (simp add: lit_def)
  show ?thesis
    using assms(3) l eats_0 [OF l] unfolding decode_export_def eats_def [symmetric] length_encodings on_fail_Inr
    apply -
    apply (erule (2) text_eats)
    apply (erule (2) reads_eat)+
    apply (erule (2) text_eats)
    apply (erule (2) reads_eat)+
    apply (auto simp: export_ok_def elim: eats_cong)
    done
qed

lemma decode_unit_sound:
  assumes "reader_ok r" "rd_order r = little" "decode_unit r = (Inr s, r')"
  shows "unit_ok s \<and> (\<exists>bs. moves r bs r' \<and> length bs = length (encode_unit s))"
proof -
  have l: "lit r" using assms by (simp add: lit_def)
  show ?thesis
    using assms(3) l eats_0 [OF l] unfolding decode_unit_def eats_def [symmetric] length_encodings on_fail_Inr
    apply -
    apply (erule (2) reads_eat)+
    apply (simp add: unit_ok_def unit_summary_def)
    done
qed

section \<open>Tables\<close>

lemma table_then:
  assumes "lit r" "moves r (encode_table enc included xs @ bs) r'"
    and small: "included \<Longrightarrow> length xs \<le> unat maximum"
    and item: "\<And>x r r'. included \<Longrightarrow> x \<in> set xs \<Longrightarrow> rd_order r = little \<Longrightarrow> moves r (enc x) r' \<Longrightarrow>
      dec r = (Inr (view x), r')"
    and rest: "\<And>r1. lit r1 \<Longrightarrow> moves r1 bs r' \<Longrightarrow> f (if included then map view xs else []) r1 = res"
  shows "pbind (decode_table maximum dec) f r = res"
proof -
  define ys where "ys = (if included then xs else [])"
  let ?k = "of_nat (length ys) :: u32"
  have k: "unat ?k = length ys" "\<not> ?k > maximum"
  proof -
    have "length ys \<le> unat maximum" using small by (simp add: ys_def)
    then show u: "unat ?k = length ys" using unat_u32_bound [of maximum] by (intro unat_of_nat_u32) simp
    show "\<not> ?k > maximum" using \<open>length ys \<le> unat maximum\<close> by (simp add: word_less_nat_alt u)
  qed
  have enc: "encode_table enc included xs = le_bytes 4 ?k @ concat (map enc ys)"
    using k(1) by (cases included) (simp_all add: encode_table_def table_count_def ys_def)
  obtain r1 r2 where m: "moves r (le_bytes 4 ?k) r1" "moves r1 (concat (map enc ys)) r2" "moves r2 bs r'"
    using assms(2) unfolding enc moves_append by blast
  have "prepeat (length zs) dec q = (Inr (map view zs), q')"
    if "set zs \<subseteq> set ys" "rd_order q = little" "moves q (concat (map enc zs)) q'" for zs q q'
    using that
  proof (induction zs arbitrary: q)
    case (Cons z zs)
    obtain q1 where q1: "moves q (enc z) q1" "moves q1 (concat (map enc zs)) q'"
      using Cons.prems(3) by (auto simp: moves_append)
    have "dec q = (Inr (view z), q1)"
      using Cons.prems(1,2) q1(1) item by (auto simp: ys_def split: if_splits)
    then show ?case using Cons.IH [OF _ _ q1(2)] Cons.prems q1(1) by (simp add: preturn_def)
  qed (simp add: preturn_def)
  then have items: "prepeat (length ys) dec r1 = (Inr (map view ys), r2)"
    using m assms(1) by (simp add: lit_def)
  have "read_u32 r = (Inr ?k, r1)" using assms(1) by (intro read_u32_moves [OF m(1)]) (simp add: lit_def)
  then have "decode_table maximum dec r = (Inr (map view ys), r2)"
    using k items by (simp add: decode_table_def pbind_def on_fail_def pcheck_def preturn_def)
  moreover have "f (map view ys) r2 = res"
    using rest [OF lit_moves [OF lit_moves [OF assms(1) m(1)] m(2)] m(3)] by (cases included) (simp_all add: ys_def)
  ultimately show ?thesis by simp
qed

text \<open>What a table of items owes to their codec.\<close>

locale table_codec = lossy_codec enc dec ok
  for enc :: "'a \<Rightarrow> bytes" and dec :: "(Error, 'a) parse" and ok :: "'a \<Rightarrow> bool"
begin

lemma table_decoded:
  assumes "lit r" "moves r (encode_table enc included xs @ bs) r'"
    and "included \<Longrightarrow> length xs \<le> unat maximum" and "included \<Longrightarrow> list_all ok xs"
    and "\<And>r1. lit r1 \<Longrightarrow> moves r1 bs r' \<Longrightarrow> f (if included then xs else []) r1 = res"
  shows "pbind (decode_table maximum dec) f r = res"
  using assms(1-3) by (rule table_then [where view = "\<lambda>x. x"])
    (use assms(4,5) decode in \<open>auto simp: list_all_iff\<close>)

lemma table_eats:
  assumes "pbind (decode_table maximum dec) f r = (Inr x, r')" "lit r" "eats r0 n r"
    "\<And>xs r1. f xs r1 = (Inr x, r') \<Longrightarrow> lit r1 \<Longrightarrow>
      eats r0 (n + length (encode_table enc True xs)) r1 \<Longrightarrow> list_all ok xs \<Longrightarrow>
      length xs \<le> unat maximum \<Longrightarrow> Q"
  shows Q
proof -
  obtain xs r1 where d: "decode_table maximum dec r = (Inr xs, r1)" "f xs r1 = (Inr x, r')"
    using assms(1) by (auto simp: pbind_Inr)
  obtain k ra where k: "read_u32 r = (Inr k, ra)" "\<not> k > maximum" "prepeat (unat k) dec ra = (Inr xs, r1)"
    using d(1) by (auto simp: decode_table_def pbind_Inr)
  have la: "lit ra" by (rule u32_lit [OF assms(2) k(1)])
  then obtain bs where xs: "length xs = unat k" "list_all ok xs" "moves ra bs r1"
      "length bs = length (concat (map enc xs))"
    using sound_list [OF _ _ k(3)] by (auto simp: lit_def)
  have kk: "(of_nat (length xs) :: u32) = k" by (simp add: xs(1))
  have "length (encode_table enc True xs) = 4 + length bs"
    by (simp add: encode_table_def table_count_def kk xs(1,4))
  then have "eats r0 (n + length (encode_table enc True xs)) r1"
    using eats_moves [OF eats_moves [OF assms(3) u32_read [OF assms(2) k(1)]] xs(3)] by (simp add: add.assoc)
  then show Q
    using assms(4) [OF d(2) lit_moves [OF la xs(3)]] xs(1,2) k(2) by (simp add: word_less_nat_alt)
qed

end

interpretation section_codec:
  table_codec "encode_section opts data" "decode_section limits data" "section_ok limits" for opts data limits
  by unfold_locales (rule decode_section_encoded decode_section_sound; assumption)+

interpretation segment_codec:
  table_codec encode_segment "decode_segment limits n" "segment_ok limits n" for limits n
  by unfold_locales (rule decode_segment_encoded decode_segment_sound; assumption)+

interpretation symbol_codec:
  table_codec encode_symbol "decode_symbol limits" "symbol_ok limits" for limits
  by unfold_locales (rule decode_symbol_encoded decode_symbol_sound; assumption)+

interpretation relocation_codec: table_codec encode_relocation decode_relocation relocation_ok
  by unfold_locales (rule decode_relocation_encoded decode_relocation_sound; assumption)+

interpretation import_codec:
  table_codec encode_import "decode_import limits" "import_ok limits" for limits
  by unfold_locales (rule decode_import_encoded decode_import_sound; assumption)+

interpretation export_codec:
  table_codec encode_export "decode_export limits" "export_ok limits" for limits
  by unfold_locales (rule decode_export_encoded decode_export_sound; assumption)+

lemma decode_unit_summary:
  "unit_ok u \<Longrightarrow> rd_order r = little \<Longrightarrow> moves r (encode_unit u) r' \<Longrightarrow> decode_unit r = (Inr u, r')"
  using decode_unit_encoded [of r u r'] by (simp add: unit_ok_def)

interpretation unit_codec: table_codec encode_unit decode_unit unit_ok
  by unfold_locales (rule decode_unit_summary decode_unit_sound; assumption)+


section \<open>The whole image\<close>

text \<open>The image that comes out of the container an image is written to.\<close>

definition manifest_view :: "ManifestOptions \<Rightarrow> BinaryImage \<Rightarrow> BinaryImage" where
  "manifest_view opts img = img\<lparr>
     img_symbols := (if mo_symbols opts then img_symbols img else []),
     img_relocations := (if mo_relocations opts then img_relocations img else []),
     img_imports := (if mo_imports opts then img_imports img else []),
     img_exports := (if mo_exports opts then img_exports img else []),
     img_debug_units := (if mo_debug_summary opts then map unit_summary (img_debug_units img) else []),
     img_warnings := []\<rparr>"

definition manifest_ok :: "Limits \<Rightarrow> bytes \<Rightarrow> BinaryImage \<Rightarrow> bool" where
  "manifest_ok limits data img \<longleftrightarrow>
     img_file_data img = Some data \<and> length data \<le> unat (max_file_size limits) \<and>
     img_warnings img = [] \<and> header_ok (img_header img) \<and>
     list_all (section_ok limits) (img_sections img) \<and>
     length (img_sections img) \<le> unat (max_sections limits) \<and>
     list_all (segment_ok limits (length (img_sections img))) (img_segments img) \<and>
     length (img_segments img) \<le> unat (max_segments limits) \<and>
     list_all (symbol_ok limits) (img_symbols img) \<and>
     length (img_symbols img) \<le> unat (max_symbols limits) \<and>
     list_all relocation_ok (img_relocations img) \<and>
     length (img_relocations img) \<le> unat (max_relocations limits) \<and>
     list_all (import_ok limits) (img_imports img) \<and>
     length (img_imports img) \<le> unat (max_imports limits) \<and>
     list_all (export_ok limits) (img_exports img) \<and>
     length (img_exports img) \<le> unat (max_exports limits) \<and>
     list_all unit_ok (img_debug_units img) \<and>
     length (img_debug_units img) \<le> unat (max_debug_units limits)"

lemma decode_header_then:
  assumes "lit r" "moves r (encode_header h @ bs) r'" "header_ok h"
    "\<And>r1. lit r1 \<Longrightarrow> moves r1 bs r' \<Longrightarrow> q = (h, r1)"
  shows "decode_header r = (Inr (fst q), snd q)"
proof -
  have k: "binary_kind_of (binary_kind_byte (hdr_kind h)) = hdr_kind h"
      "architecture_of (architecture_byte (hdr_architecture h)) = hdr_architecture h"
    using assms(3) by (simp_all add: header_ok_def)
  show ?thesis
    using assms(1,2) unfolding encode_header_def append_assoc decode_header_def
    apply -
    apply (rule reads_then, assumption, assumption)+
    apply (rule check_then, simp)
    apply (simp add: assms(4) preturn_def k)
    done
qed

lemma decode_header_sound:
  assumes "decode_header r = (Inr h, r')" "lit r"
  shows "header_ok h \<and> lit r' \<and> eats r 49 r'"
  using assms eats_0 [OF assms(2)] unfolding decode_header_def
  apply -
  apply (erule (2) reads_eat)+
  apply (simp add: header_ok_def)
  done

lemma length_header: "length (encode_header h) = 49"
  by (simp add: encode_header_def)

lemma view_simps [simp]:
  "img_header (manifest_view opts img) = img_header img"
  "img_sections (manifest_view opts img) = img_sections img"
  "img_segments (manifest_view opts img) = img_segments img"
  "img_file_data (manifest_view opts img) = img_file_data img"
  by (simp_all add: manifest_view_def)

lemma decode_image_encoded:
  assumes ok: "manifest_ok limits data (manifest_view opts img)" and l: "lit r"
    and m: "moves r (encode_image opts data img) r'" and e: "rd_rest r' = []"
  shows "decode_image limits r = (Inr (manifest_view opts img), r')"
proof -
  have h: "header_ok (img_header img)" using ok by (simp add: manifest_ok_def)
  obtain r1 r2 r3 where r1: "moves r (le_bytes 4 (1 :: u32) @ le_bytes 4 (option_flags opts) @ encode_header (img_header img)) r1"
    and r2: "moves r1 (le_bytes 8 (of_nat (length data) :: u64)) r2" and r3: "moves r2 data r3"
    and m3: "moves r3 (encode_table (encode_section opts data) True (img_sections img) @
     encode_table encode_segment True (img_segments img) @
     encode_table encode_symbol (mo_symbols opts) (img_symbols img) @
     encode_table encode_relocation (mo_relocations opts) (img_relocations img) @
     encode_table encode_import (mo_imports opts) (img_imports img) @
     encode_table encode_export (mo_exports opts) (img_exports img) @
     encode_table encode_unit (mo_debug_summary opts) (img_debug_units img) @ []) r'"
    using m unfolding encode_image_def append_Nil2 moves_append by blast
  have l1: "lit r1" by (rule lit_moves [OF l r1])
  have l2: "lit r2" by (rule lit_moves [OF l1 r2])
  have l3: "lit r3" by (rule lit_moves [OF l2 r3])
  have head: "pbind read_u32 (\<lambda>version. pbind (pcheck (\<lambda>_. version = 1)) (\<lambda>_.
        pbind read_u32 (\<lambda>flags. decode_header))) r = (Inr (img_header img), r1)"
    using l moves_Nil_end [OF r1] unfolding append_assoc
    apply -
    apply (rule u32_then, assumption, assumption)
    apply (rule check_then, rule refl)
    apply (rule u32_then, assumption, assumption)
    apply (rule decode_header_then [OF _ _ h, where q = "(img_header img, r1)", simplified], assumption, assumption)
    apply simp
    done
  have data: "length data < 2 ^ 64" "length data \<le> unat (max_file_size limits)"
    using ok unat_u64_bound [of "max_file_size limits"] by (simp_all add: manifest_ok_def)
  have n: "unat (of_nat (length data) :: u64) = length data"
    using data(1) by (intro unat_of_nat_u64) simp
  have size: "pbind read_u64 (\<lambda>file_size.
        pbind (pcheck (\<lambda>r. \<not> file_size > max_file_size limits \<and> \<not> file_size > rd_remaining r)) (\<lambda>_.
        preturn file_size)) r1 = (Inr (of_nat (length data)), r2)"
    using read_u64_moves [OF r2] l1 data(2) n moves_remaining [OF r3]
    by (simp add: lit_def pbind_def pcheck_def preturn_def word_less_nat_alt not_less del: unsigned_of_nat)
  have raw: "read_bytes (of_nat (length data)) r2 = (Inr data, r3)"
    by (rule read_bytes_decode [OF r3]) (rule n)
  have t: "list_all (section_ok limits) (img_sections img)"
    "length (img_sections img) \<le> unat (max_sections limits)"
    "list_all (segment_ok limits (length (img_sections img))) (img_segments img)"
    "length (img_segments img) \<le> unat (max_segments limits)"
    "mo_symbols opts \<Longrightarrow> list_all (symbol_ok limits) (img_symbols img)"
    "mo_symbols opts \<Longrightarrow> length (img_symbols img) \<le> unat (max_symbols limits)"
    "mo_relocations opts \<Longrightarrow> list_all relocation_ok (img_relocations img)"
    "mo_relocations opts \<Longrightarrow> length (img_relocations img) \<le> unat (max_relocations limits)"
    "mo_imports opts \<Longrightarrow> list_all (import_ok limits) (img_imports img)"
    "mo_imports opts \<Longrightarrow> length (img_imports img) \<le> unat (max_imports limits)"
    "mo_exports opts \<Longrightarrow> list_all (export_ok limits) (img_exports img)"
    "mo_exports opts \<Longrightarrow> length (img_exports img) \<le> unat (max_exports limits)"
    "mo_debug_summary opts \<Longrightarrow> length (img_debug_units img) \<le> unat (max_debug_units limits)"
    and d: "img_file_data img = Some data"
    using ok by (simp_all add: manifest_ok_def manifest_view_def)
  show ?thesis
    using l3 m3 unfolding decode_image_def
    apply -
    apply (rule on_fail_then, rule head)
    apply (rule on_fail_then, rule size)
    apply (rule on_fail_then, rule raw)
    apply (rule section_codec.table_decoded, assumption, assumption, rule t(2), rule t(1))
    apply (simp only: if_True)
    apply (rule segment_codec.table_decoded, assumption, assumption, rule t(4), rule t(3))
    apply (simp only: if_True)
    apply (rule symbol_codec.table_decoded, assumption, assumption, erule t(6), erule t(5))
    apply (rule relocation_codec.table_decoded, assumption, assumption, erule t(8), erule t(7))
    apply (rule import_codec.table_decoded, assumption, assumption, erule t(10), erule t(9))
    apply (rule export_codec.table_decoded, assumption, assumption, erule t(12), erule t(11))
    apply (rule table_then [where view = unit_summary], assumption, assumption, erule t(13),
        rule decode_unit_encoded, assumption, assumption)
    apply (rule guard_then)
     apply (use e in \<open>simp add: rd_remaining_0_iff lit_def\<close>)
    apply (rule return_then, assumption)
    apply (cases img; simp add: manifest_view_def d [symmetric])
    done
qed


lemma pbind_on_failE:
  assumes "pbind (on_fail p e) f r = (Inr x, r')" "\<And>y r1. p r = (Inr y, r1) \<Longrightarrow> f y r1 = (Inr x, r') \<Longrightarrow> Q"
  shows Q
  using assms by (auto simp: pbind_Inr)

lemma pbind_guardE:
  assumes "pbind (pguard P e) f r = (Inr x, r')" "P r \<Longrightarrow> f () r = (Inr x, r') \<Longrightarrow> Q"
  shows Q
  using assms by (auto simp: pbind_Inr)

lemma decode_image_sound:
  assumes "decode_image limits r = (Inr img, r')" "lit r"
  shows "\<exists>data. manifest_ok limits data img \<and> rd_rest r' = [] \<and>
    eats r (length (encode_image all_options data img)) r'"
proof -
  obtain header r1 size r2 data r3 where
    head: "pbind read_u32 (\<lambda>version. pbind (pcheck (\<lambda>_. version = 1)) (\<lambda>_.
        pbind read_u32 (\<lambda>flags. decode_header))) r = (Inr header, r1)"
    and size: "read_u64 r1 = (Inr size, r2)" "\<not> size > max_file_size limits"
    and raw: "read_bytes size r2 = (Inr data, r3)"
    and rest: "pbind (decode_table (max_sections limits) (decode_section limits data)) (\<lambda>sections.
     pbind (decode_table (max_segments limits) (decode_segment limits (length sections))) (\<lambda>segments.
     pbind (decode_table (max_symbols limits) (decode_symbol limits)) (\<lambda>symbols.
     pbind (decode_table (max_relocations limits) decode_relocation) (\<lambda>relocs.
     pbind (decode_table (max_imports limits) (decode_import limits)) (\<lambda>imports.
     pbind (decode_table (max_exports limits) (decode_export limits)) (\<lambda>exports.
     pbind (decode_table (max_debug_units limits) decode_unit) (\<lambda>units.
     pbind (pguard (\<lambda>r. rd_remaining r = 0)
       (\<lambda>r. mk_error invalid_header (rd_position r) ''manifest contains trailing model data'')) (\<lambda>_.
     preturn \<lparr>img_header = header, img_sections = sections, img_segments = segments,
       img_symbols = symbols, img_relocations = relocs, img_imports = imports, img_exports = exports,
       img_debug_units = units, img_warnings = [], img_file_data = Some data\<rparr>)))))))) r3 = (Inr img, r')"
    using assms(1) unfolding decode_image_def
    by (elim pbind_on_failE) (auto simp: pbind_Inr [where p = read_u64] pbind_Inr [where p = "pcheck _"])
  obtain version rb flags where v: "read_u32 r = (Inr version, rb)"
    and h: "\<exists>rc. read_u32 rb = (Inr flags, rc) \<and> decode_header rc = (Inr header, r1)"
    using head by (auto simp: pbind_Inr)
  then obtain rc where f: "read_u32 rb = (Inr flags, rc)" "decode_header rc = (Inr header, r1)" by blast
  have lb: "lit rb" by (rule u32_lit [OF assms(2) v])
  have lc: "lit rc" by (rule u32_lit [OF lb f(1)])
  have hd: "header_ok header" "lit r1" "eats rc 49 r1" using decode_header_sound [OF f(2) lc] by simp_all
  have l2: "lit r2" by (rule u64_lit [OF hd(2) size(1)])
  have l3: "lit r3" by (rule bytes_lit [OF l2 raw])
  have len: "length data = unat size" by (rule bytes_read_length [OF l2 raw])
  have "eats r 8 rc"
    using eats_moves [OF eats_moves [OF eats_0 [OF assms(2)] u32_read [OF assms(2) v]] u32_read [OF lb f(1)]] by simp
  then have "eats r 57 r1" using eats_trans [OF _ hd(3)] by fastforce
  then have e3: "eats r (65 + length data) r3"
    using eats_moves [OF eats_moves [OF _ u64_read [OF hd(2) size(1)]] bytes_read [OF l2 raw]] by fastforce
  have small: "length data \<le> unat (max_file_size limits)"
    using size(2) len by (simp add: word_less_nat_alt)
  show ?thesis
    using rest l3 e3
    apply -
    apply (erule (2) section_codec.table_eats [where opts = all_options])
    apply (erule (2) segment_codec.table_eats)
    apply (erule (2) symbol_codec.table_eats)
    apply (erule (2) relocation_codec.table_eats)
    apply (erule (2) import_codec.table_eats)
    apply (erule (2) export_codec.table_eats)
    apply (erule (2) unit_codec.table_eats)
    apply (erule pbind_guardE)
    apply (erule (2) return_eats)
    apply (rule exI [of _ data])
    apply (simp add: manifest_ok_def hd(1) small rd_remaining_0_iff lit_def encode_image_def
        length_header all_options_def)
    apply (erule eats_cong, simp)
    done
qed


lemma manifest_decode_eq:
  assumes "length body < 2 ^ 64" "12 \<le> length body" "4 + length body + 4 \<le> unat (max_file_size limits * 2)"
  shows "manifest_decode limits (Some (seal (magic_bfmf @ body))) =
    (case fst (decode_image limits (reader_of body little)) of
       Inl e \<Rightarrow> Inl e
     | Inr img \<Rightarrow>
         if rep_valid (validate limits img) then Inr img else Inl (hd (rep_errors (validate limits img))))"
proof -
  have m: "length magic_bfmf = 4" by (simp add: magic_bfmf_def)
  have "take 4 (seal (magic_bfmf @ body)) = magic_bfmf" by (simp add: seal_def m)
  moreover have "drop 4 (sealed_body (seal (magic_bfmf @ body))) = body" by (simp add: m)
  ultimately show ?thesis
    using assms(2,3) by (simp add: manifest_decode_def m Let_def split: sum.split)
qed

lemma encode_length: "12 \<le> length (encode_image opts data img)"
  by (simp add: encode_image_def)

lemma manifest_decode_encoded:
  assumes ok: "manifest_ok limits data (manifest_view opts img)"
    and enc: "manifest_encode limits img opts = Inr bs"
    and len: "length bs \<le> unat (max_file_size limits * 2)"
    and valid: "rep_valid (validate limits (manifest_view opts img))"
  shows "manifest_decode limits (Some bs) = Inr (manifest_view opts img)"
proof -
  let ?body = "encode_image opts data img"
  have "img_file_data img = Some data" using ok by (simp add: manifest_ok_def)
  then have bs: "bs = seal (magic_bfmf @ ?body)"
    using enc by (simp add: manifest_encode_def split: if_splits)
  have l: "length bs = 4 + length ?body + 4" by (simp add: bs magic_bfmf_def)
  have small: "length ?body < 2 ^ 64"
    using l len unat_u64_bound [of "max_file_size limits * 2"] by simp
  let ?r = "reader_of ?body little"
  have ok': "reader_ok ?r" using small by (rule reader_ok_reader_of)
  have "decode_image limits ?r = (Inr (manifest_view opts img), rd_advance (length ?body) ?r)"
  proof (rule decode_image_encoded [OF ok])
    show "lit ?r" using ok' by (simp add: lit_def)
    show "moves ?r ?body (rd_advance (length ?body) ?r)" by (rule movesI [OF ok', of _ "[]"]) simp
    show "rd_rest (rd_advance (length ?body) ?r) = []" using ok' by (simp add: rd_rest_advance)
  qed
  then show ?thesis
    using manifest_decode_eq [OF small encode_length] l len valid by (simp add: bs)
qed

lemma manifest_decode_sound:
  assumes "manifest_decode limits (Some bs) = Inr img"
  shows "rep_valid (validate limits img) \<and> length bs \<le> unat (max_file_size limits * 2) \<and>
    (\<exists>data. manifest_ok limits data img \<and> length bs = 4 + length (encode_image all_options data img) + 4)"
proof -
  from assms have len: "\<not> length bs < 16" "length bs \<le> unat (max_file_size limits * 2)"
    and valid: "rep_valid (validate limits img)"
    and di: "fst (decode_image limits (reader_of (drop 4 (sealed_body bs)) little)) = Inr img"
    by (auto simp: manifest_decode_def Let_def split: if_splits sum.splits)
  let ?r = "reader_of (drop 4 (sealed_body bs)) little"
  have "length (drop 4 (sealed_body bs)) < 2 ^ 64"
    using len unat_u64_bound [of "max_file_size limits * 2"] by (simp add: sealed_body_def)
  then have l: "lit ?r" using reader_ok_reader_of by (simp add: lit_def)
  obtain r' where "decode_image limits ?r = (Inr img, r')" using di by (metis prod.collapse)
  from decode_image_sound [OF this l] obtain data where d: "manifest_ok limits data img" "rd_rest r' = []"
      "eats ?r (length (encode_image all_options data img)) r'" by blast
  then have "length (drop 4 (sealed_body bs)) = length (encode_image all_options data img)"
    by (auto simp: eats_def dest!: moves_rest)
  then have "length bs = 4 + length (encode_image all_options data img) + 4"
    using len(1) by (simp add: sealed_body_def)
  then show ?thesis using d(1) len(2) valid by blast
qed

lemma view_all: "manifest_ok limits data img \<Longrightarrow> manifest_view all_options img = img"
  by (cases img) (auto simp: manifest_ok_def manifest_view_def all_options_def unit_ok_def list_all_iff
      intro: map_idI)

definition demo_manifest :: BinaryImage where
  "demo_manifest = empty_image\<lparr>img_file_data := Some [1, 2, 3, 4]\<rparr>"

abbreviation demo_container :: bytes where
  "demo_container \<equiv> seal (magic_bfmf @ encode_image all_options [1, 2, 3, 4] demo_manifest)"

lemma demo_manifest_facts:
  "manifest_view all_options demo_manifest = demo_manifest"
  "manifest_ok demo_limits [1, 2, 3, 4] demo_manifest"
  "manifest_encode demo_limits demo_manifest all_options = Inr demo_container"
  "length demo_container = 105" "unat (max_file_size demo_limits * 2) = 128"
  "rep_valid (validate demo_limits demo_manifest)"
  by (simp_all add: manifest_view_def demo_manifest_def empty_image_def all_options_def manifest_ok_def
      header_ok_def empty_header_def binary_kind_of_def architecture_of_def enum_of_def demo_limits_def
      manifest_encode_def magic_bfmf_def encode_image_def encode_header_def encode_table_def
      table_count_def validate_def count_errors_def Let_def)

section \<open>Properties\<close>

text \<open>
  C6. What \<open>encode\<close> writes of an image comes back from \<open>decode\<close>, as the view its options select, under
  three conditions that \<open>encode\<close> does not check: the view fits the manifest format and the limits
  (\<open>manifest_ok\<close>: counts, names and values as \<open>decode\<close> takes them), the container is at most twice the
  file limit, and the view passes the validator. In the view the header, the file bytes, the sections, the
  segments and the included tables are those of the image, the excluded tables are empty, debug units are
  reduced to their summaries even when they are included, and the warnings are dropped.
\<close>

theorem manifest_roundtrip:
  assumes "manifest_ok limits data (manifest_view opts img)"
    and "manifest_encode limits img opts = Inr bs" "length bs \<le> unat (max_file_size limits * 2)"
    and "rep_valid (validate limits (manifest_view opts img))"
  shows "manifest_decode limits (Some bs) = Inr (manifest_view opts img)"
  using assms by (rule manifest_decode_encoded)

theorem manifest_roundtrip_witness:
  "manifest_encode demo_limits demo_manifest all_options = Inr demo_container \<and>
   manifest_decode demo_limits (Some demo_container) = Inr demo_manifest"
  using manifest_roundtrip [of demo_limits "[1, 2, 3, 4]" all_options demo_manifest demo_container]
    demo_manifest_facts by simp

text \<open>
  Whatever \<open>decode\<close> accepts is an image the validator accepts, is within every limit, and is
  stable: \<open>encode\<close> with all options writes it into a container of the same length, from which
  \<open>decode\<close> yields the same image, although the container may differ (flags, the value of a true
  boolean, section checksums of zero, the sizes in debug summaries).
\<close>

theorem manifest_decode_stable:
  assumes "manifest_decode limits (Some bs) = Inr img"
  shows "rep_valid (validate limits img) \<and> (\<exists>data. manifest_ok limits data img) \<and>
    (\<exists>bs'. manifest_encode limits img all_options = Inr bs' \<and> length bs' = length bs \<and>
      manifest_decode limits (Some bs') = Inr img)"
proof -
  obtain data where d: "manifest_ok limits data img"
      "length bs = 4 + length (encode_image all_options data img) + 4"
    and len: "length bs \<le> unat (max_file_size limits * 2)" and valid: "rep_valid (validate limits img)"
    using manifest_decode_sound [OF assms] by blast
  let ?bs = "seal (magic_bfmf @ encode_image all_options data img)"
  have enc: "manifest_encode limits img all_options = Inr ?bs"
    using d(1) by (simp add: manifest_encode_def manifest_ok_def)
  have l: "length ?bs = length bs" by (simp add: d(2) magic_bfmf_def)
  have v: "manifest_view all_options img = img" by (rule view_all [OF d(1)])
  have "manifest_decode limits (Some ?bs) = Inr (manifest_view all_options img)"
    by (rule manifest_decode_encoded [OF _ enc]) (use d(1) l len valid in \<open>simp_all add: v\<close>)
  then show ?thesis using d(1) enc l valid by (auto simp: v)
qed

theorem manifest_decode_stable_witness:
  "\<exists>bs'. manifest_encode demo_limits demo_manifest all_options = Inr bs' \<and> length bs' = 105 \<and>
     manifest_decode demo_limits (Some bs') = Inr demo_manifest"
proof -
  have "manifest_decode demo_limits (Some demo_container) = Inr demo_manifest"
    using manifest_decode_encoded [of demo_limits "[1, 2, 3, 4]" all_options demo_manifest demo_container]
      demo_manifest_facts by simp
  from manifest_decode_stable [OF this] show ?thesis using demo_manifest_facts(4) by simp
qed

interpretation manifest_seal: sealed "\<lambda>bs. manifest_decode limits (Some bs)" for limits
  by unfold_locales (auto simp: manifest_decode_def split: if_splits)

text \<open>
  C18. A manifest with one byte changed, anywhere in it, is refused.
\<close>

theorem corrupted_manifest_refused:
  assumes "manifest_decode limits (Some bs) = Inr img" "i < length bs" "b \<noteq> bs ! i"
  shows "\<exists>e. manifest_decode limits (Some (bs[i := b])) = Inl e"
  using assms by (rule manifest_seal.corrupted_byte)


theorem corrupted_manifest_refused_witness:
  "manifest_decode demo_limits (Some demo_container) = Inr demo_manifest \<and>
   (\<exists>e. manifest_decode demo_limits (Some (demo_container[9 := demo_container ! 9 + 1])) = Inl e)"
proof -
  have d: "manifest_decode demo_limits (Some demo_container) = Inr demo_manifest"
    using manifest_decode_encoded [of demo_limits "[1, 2, 3, 4]" all_options demo_manifest demo_container]
      demo_manifest_facts by simp
  have "9 < length demo_container" "demo_container ! 9 + 1 \<noteq> demo_container ! 9"
    by (simp only: demo_manifest_facts) simp_all
  then have "\<exists>e. manifest_decode demo_limits (Some (demo_container[9 := demo_container ! 9 + 1])) = Inl e"
    by (rule corrupted_manifest_refused [OF d])
  with d show ?thesis ..
qed

end
