(* ===== verification/Relocation_Decoder.thy ===== *)
theory Relocation_Decoder
  imports Container
begin

unbundle bit_operations_syntax

text \<open>
  \<open>RelocationTableDecoder\<close> of \<open>src/relocation_decoder.cc\<close>: ELF tables with and without addends,
  PE base relocation blocks and Mach-O records. The decoders append to the caller's list, and
  what they appended before an error stays there, so an operation returns its outcome with the
  list. The lemmas describe what is appended by the bytes of the table alone.
\<close>

section \<open>Kinds\<close>

definition elf_kind :: "Architecture \<Rightarrow> u32 \<Rightarrow> RelocationKind" where
  "elf_kind architecture type =
    (case architecture of
       x86 \<Rightarrow>
         (if type = 1 then absolute32 else if type = 2 then pc_relative32
          else if type = 8 then relative32 else reloc_none)
     | x86_64 \<Rightarrow>
         (if type = 1 then absolute64 else if type = 2 then pc_relative32
          else if type = 8 then relative64 else if type = 9 then got_relative else reloc_none)
     | arm \<Rightarrow>
         (if type = 2 then absolute32 else if type = 3 then pc_relative32
          else if type = 23 then relative32 else reloc_none)
     | arm64 \<Rightarrow>
         (if type = 257 then absolute64 else if type = 260 then pc_relative32
          else if type = 1027 then relative64 else reloc_none)
     | riscv32 \<Rightarrow>
         (if type = 1 then absolute32 else if type = 2 then absolute64
          else if type = 3 then relative64 else reloc_none)
     | riscv64 \<Rightarrow>
         (if type = 1 then absolute32 else if type = 2 then absolute64
          else if type = 3 then relative64 else reloc_none)
     | _ \<Rightarrow> reloc_none)"

definition macho_kind :: "u8 \<Rightarrow> bool \<Rightarrow> bool \<Rightarrow> u8 \<Rightarrow> RelocationKind" where
  "macho_kind type external pc_relative width =
    (if pc_relative then pc_relative32
     else if type = 0 then (if width = 8 then absolute64 else absolute32)
     else if type = 1 \<and> \<not> external then (if width = 8 then relative64 else relative32)
     else if type = 3 then got_relative
     else if type = 4 then plt_relative
     else reloc_none)"

section \<open>The decoders\<close>

record RelocationDecodeOptions =
  dec_architecture :: Architecture
  dec_word_size :: WordSize
  dec_byte_order :: ByteOrder
  dec_target_section :: u32
  dec_base_address :: u64
  dec_entry_size :: u64
  dec_explicit_addends :: bool

definition append_relocation :: "Limits \<Rightarrow> Relocation \<Rightarrow> Relocation list \<Rightarrow> (Error + unit) \<times> Relocation list" where
  "append_relocation limits relocation out =
    (if length out \<ge> unat (max_relocations limits)
     then (Inl (mk_error resource_limit (rel_offset relocation) ''relocation output limit exceeded''), out)
     else (Inr (), out @ [relocation]))"

definition wide :: "RelocationDecodeOptions \<Rightarrow> bool" where
  "wide opts \<longleftrightarrow> dec_word_size opts = bits64"

definition minimum_entry :: "RelocationDecodeOptions \<Rightarrow> u64" where
  "minimum_entry opts =
    (if dec_explicit_addends opts then (if wide opts then 24 else 12)
     else (if wide opts then 16 else 8))"

definition elf_entry_size :: "RelocationDecodeOptions \<Rightarrow> u64" where
  "elf_entry_size opts = (if dec_entry_size opts \<noteq> 0 then dec_entry_size opts else minimum_entry opts)"

text \<open>The fields of an entry: offset, information and addend.\<close>

definition read_elf_entry :: "RelocationDecodeOptions \<Rightarrow> (Error, u64 \<times> u64 \<times> i64) parse" where
  "read_elf_entry opts =
    (if wide opts then
       on_fail
         (pbind read_u64 (\<lambda>offset. pbind read_u64 (\<lambda>information.
          pbind (if dec_explicit_addends opts then read_i64 else preturn 0) (\<lambda>addend.
          preturn (offset, information, addend)))))
         (\<lambda>r. mk_error truncated (rd_position r) ''ELF64 relocation entry is truncated'')
     else
       on_fail
         (pbind read_u32 (\<lambda>offset. pbind read_u32 (\<lambda>information.
          pbind (if dec_explicit_addends opts then read_i32 else preturn 0) (\<lambda>addend.
          preturn (ucast offset, ucast information, scast addend)))))
         (\<lambda>r. mk_error truncated (rd_position r) ''ELF32 relocation entry is truncated''))"

definition elf_relocation ::
    "RelocationDecodeOptions \<Rightarrow> nat \<Rightarrow> u64 \<Rightarrow> u64 \<Rightarrow> u64 \<Rightarrow> i64 \<Rightarrow> Relocation" where
  "elf_relocation opts index symbol target information addend =
    (let type = (if wide opts then ucast information else ucast (ucast information :: u8));
         kind = elf_kind (dec_architecture opts) type in
     \<lparr>rel_index = of_nat index, rel_kind = kind, rel_target_section = dec_target_section opts,
      rel_symbol_index = ucast symbol, rel_offset = target, rel_addend = addend,
      rel_width = (if kind = absolute64 \<or> kind = relative64 then 8 else 4)\<rparr>)"

definition elf_symbol :: "RelocationDecodeOptions \<Rightarrow> u64 \<Rightarrow> u64" where
  "elf_symbol opts information = (if wide opts then drop_bit 32 information else drop_bit 8 information)"

text \<open>One turn of the loop, at the given offset in the table.\<close>

definition decode_elf_entry ::
    "Limits \<Rightarrow> RelocationDecodeOptions \<Rightarrow> u64 \<Rightarrow> ByteReader \<Rightarrow> Relocation list \<Rightarrow>
     (Error + ByteReader) \<times> Relocation list" where
  "decode_elf_entry limits opts at r out =
    (case rd_seek at r of
       (Inl _, _) \<Rightarrow> (Inl (mk_error truncated at ''ELF relocation entry is truncated''), out)
     | (Inr _, r1) \<Rightarrow>
     (case read_elf_entry opts r1 of
       (Inl e, _) \<Rightarrow> (Inl e, out)
     | (Inr (offset, information, addend), r2) \<Rightarrow>
     let symbol = elf_symbol opts information in
     if symbol > 4294967295
     then (Inl (mk_error invalid_symbol at ''ELF relocation symbol index does not fit''), out)
     else case checked_add (dec_base_address opts) offset of
       None \<Rightarrow> (Inl (mk_error address_overflow at ''ELF relocation target overflows''), out)
     | Some target \<Rightarrow>
     (case append_relocation limits
         (elf_relocation opts (length out) symbol target information addend) out of
       (Inl e, out') \<Rightarrow> (Inl e, out')
     | (Inr _, out') \<Rightarrow> (Inr r2, out'))))"

fun decode_elf_entries ::
    "Limits \<Rightarrow> RelocationDecodeOptions \<Rightarrow> nat \<Rightarrow> nat \<Rightarrow> ByteReader \<Rightarrow> Relocation list \<Rightarrow>
     (Error + unit) \<times> Relocation list" where
  \<comment> \<open>the entries from \<open>index\<close> on, \<open>left\<close> of them\<close>
  "decode_elf_entries limits opts index 0 r out = (Inr (), out)"
| "decode_elf_entries limits opts index (Suc left) r out =
    (case decode_elf_entry limits opts (of_nat index * elf_entry_size opts) r out of
       (Inl e, out') \<Rightarrow> (Inl e, out')
     | (Inr r', out') \<Rightarrow> decode_elf_entries limits opts (Suc index) left r' out')"

text \<open>
  \<open>limits_.max_relocations - output.size()\<close> is unsigned, so it wraps for a list that is over the
  limit already.
\<close>

definition output_room :: "Limits \<Rightarrow> Relocation list \<Rightarrow> u64" where
  "output_room limits out = ucast (max_relocations limits) - of_nat (length out)"

definition decode_elf ::
    "Limits \<Rightarrow> bytes option \<Rightarrow> u64 \<Rightarrow> RelocationDecodeOptions \<Rightarrow> Relocation list \<Rightarrow>
     (Error + unit) \<times> Relocation list" where
  "decode_elf limits data len opts out =
    (if data = None \<and> len \<noteq> 0
     then (Inl (mk_error invalid_relocation 0 ''ELF relocation input is null''), out)
     else let entry_size = elf_entry_size opts in
       if entry_size < minimum_entry opts \<or> entry_size > len \<or> len mod entry_size \<noteq> 0
       then (Inl (mk_error invalid_relocation 0 ''ELF relocation entry size is invalid''), out)
       else let count = len div entry_size in
         if count > output_room limits out
         then (Inl (mk_error resource_limit 0 ''ELF relocation table exceeds record limit''), out)
         else decode_elf_entries limits opts 0 (unat count)
                (make_reader data len (dec_byte_order opts)) out)"

definition pe_relocation :: "nat \<Rightarrow> u64 \<Rightarrow> u8 \<Rightarrow> Relocation" where
  "pe_relocation index target type =
    (let (kind, width) = (if type = 3 then (relative32, 4) else if type = 10 then (relative64, 8)
        else if type = 1 then (high16, 2) else if type = 2 then (low16, 2) else (reloc_none, 0)) in
     \<lparr>rel_index = of_nat index, rel_kind = kind, rel_target_section = 0, rel_symbol_index = 0,
      rel_offset = target, rel_addend = 0, rel_width = width\<rparr>)"

definition pe_target :: "u64 \<Rightarrow> u32 \<Rightarrow> u16 \<Rightarrow> u64 option" where
  "pe_target image_base page_rva offset =
    (case checked_add image_base (ucast page_rva) of
       None \<Rightarrow> None | Some page \<Rightarrow> checked_add page (ucast offset))"

definition decode_pe_record ::
    "Limits \<Rightarrow> u64 \<Rightarrow> u32 \<Rightarrow> u64 \<Rightarrow> ByteReader \<Rightarrow> Relocation list \<Rightarrow>
     (Error + ByteReader) \<times> Relocation list" where
  "decode_pe_record limits image_base page_rva block_offset r out =
    (case read_u16 r of
       (Inl _, r1) \<Rightarrow> (Inl (mk_error truncated (rd_position r1) ''PE relocation record is truncated''), out)
     | (Inr encoded, r1) \<Rightarrow>
     let type = ucast (drop_bit 12 encoded); offset = encoded AND 0xfff in
     if type = (0 :: u8) then (Inr r1, out)
     else case pe_target image_base page_rva offset of
       None \<Rightarrow> (Inl (mk_error address_overflow block_offset ''PE relocation target overflows''), out)
     | Some target \<Rightarrow>
     (case append_relocation limits (pe_relocation (length out) target type) out of
       (Inl e, out') \<Rightarrow> (Inl e, out')
     | (Inr _, out') \<Rightarrow> (Inr r1, out')))"

fun decode_pe_records ::
    "Limits \<Rightarrow> u64 \<Rightarrow> u32 \<Rightarrow> u64 \<Rightarrow> nat \<Rightarrow> ByteReader \<Rightarrow> Relocation list \<Rightarrow>
     (Error + ByteReader) \<times> Relocation list" where
  "decode_pe_records limits image_base page_rva block_offset 0 r out = (Inr r, out)"
| "decode_pe_records limits image_base page_rva block_offset (Suc left) r out =
    (case decode_pe_record limits image_base page_rva block_offset r out of
       (Inl e, out') \<Rightarrow> (Inl e, out')
     | (Inr r', out') \<Rightarrow> decode_pe_records limits image_base page_rva block_offset left r' out')"

text \<open>The header of a block: its page and its size, checked against the rest of the input.\<close>

definition read_pe_block :: "(Error, u32 \<times> u32) parse" where
  "read_pe_block r =
    pbind (on_fail (pbind read_u32 (\<lambda>page_rva. pbind read_u32 (\<lambda>block_size. preturn (page_rva, block_size))))
             (\<lambda>_. mk_error truncated (rd_position r) ''PE relocation block header is truncated''))
      (\<lambda>(page_rva, block_size).
       pbind (pguard (\<lambda>_. \<not> (block_size < 8 \<or> ucast block_size > rd_size r - rd_position r \<or>
                (block_size - 8) mod 2 \<noteq> 0))
             (\<lambda>_. mk_error invalid_relocation (rd_position r) ''PE relocation block size is invalid''))
      (\<lambda>_. preturn (page_rva, block_size))) r"

definition decode_pe_block ::
    "Limits \<Rightarrow> u64 \<Rightarrow> ByteReader \<Rightarrow> Relocation list \<Rightarrow> (Error + ByteReader) \<times> Relocation list" where
  "decode_pe_block limits image_base r out =
    (let block_offset = rd_position r in
     case read_pe_block r of
       (Inl e, _) \<Rightarrow> (Inl e, out)
     | (Inr (page_rva, block_size), r1) \<Rightarrow>
     (case decode_pe_records limits image_base page_rva block_offset (unat ((block_size - 8) div 2)) r1 out of
       (Inl e, out') \<Rightarrow> (Inl e, out')
     | (Inr r2, out') \<Rightarrow>
     (case rd_seek (block_offset + ucast block_size) r2 of
       (Inl _, _) \<Rightarrow> (Inl (mk_error truncated block_offset ''PE relocation block extends beyond input''), out')
     | (Inr _, r3) \<Rightarrow> (Inr r3, out'))))"

text \<open>A block that decodes leaves less of the input: the loop over blocks ends.\<close>

lemma read_u16_size: "read_u16 r = (x, r') \<Longrightarrow> rd_size r' = rd_size r"
  by (auto simp: read_u16_def split: option.splits)

lemma read_u32_size: "read_u32 r = (x, r') \<Longrightarrow> rd_size r' = rd_size r"
  by (auto simp: read_u32_def split: option.splits)

lemma decode_pe_records_size:
  "decode_pe_records limits image_base page_rva block_offset n r out = (Inr r', out') \<Longrightarrow>
   rd_size r' = rd_size r"
proof (induction n arbitrary: r out)
  case (Suc n)
  then obtain r1 out1 where r1: "decode_pe_record limits image_base page_rva block_offset r out = (Inr r1, out1)"
    and rest: "decode_pe_records limits image_base page_rva block_offset n r1 out1 = (Inr r', out')"
    by (auto split: prod.splits sum.splits)
  have "rd_size r1 = rd_size r"
    using r1 by (auto simp: decode_pe_record_def Let_def dest: read_u16_size
        split: prod.splits sum.splits if_splits option.splits)
  then show ?case using Suc.IH [OF rest] by simp
qed simp

lemma read_pe_block_size:
  "read_pe_block r = (Inr (page, len), r') \<Longrightarrow>
   rd_size r' = rd_size r \<and> 8 \<le> len \<and> ucast len \<le> rd_size r - rd_position r"
  by (auto simp: read_pe_block_def pbind_Inr not_less dest!: read_u32_size split: if_splits)

lemma decode_pe_block_less:
  assumes "decode_pe_block limits image_base r out = (Inr r', out')" "rd_remaining r \<noteq> 0"
  shows "unat (rd_remaining r') < unat (rd_remaining r)"
proof -
  obtain page len r1 r2 where b: "read_pe_block r = (Inr (page, len), r1)"
    and rs: "decode_pe_records limits image_base page (rd_position r) (unat ((len - 8) div 2)) r1 out = (Inr r2, out')"
    and sk: "rd_seek (rd_position r + ucast len) r2 = (Inr (), r')"
    using assms(1) by (auto simp: decode_pe_block_def Let_def split: prod.splits sum.splits)
  have s: "rd_size r2 = rd_size r" "8 \<le> len" "ucast len \<le> rd_size r - rd_position r"
    using read_pe_block_size [OF b] decode_pe_records_size [OF rs] by simp_all
  have le: "rd_position r \<le> rd_size r" and rem: "rd_remaining r = rd_size r - rd_position r"
    using assms(2) by (auto simp: rd_remaining_def split: if_splits)
  have n: "unat (rd_size r - rd_position r) = unat (rd_size r) - unat (rd_position r)"
    by (rule unat_minus_bounded [OF le])
  have len: "8 \<le> unat len" "unat len \<le> unat (rd_size r) - unat (rd_position r)"
    using s(2,3) n by (simp_all add: word_le_nat_alt)
  have p: "unat (rd_position r + ucast len) = unat (rd_position r) + unat len"
    using len le unat_u64_bound [of "rd_size r"]
    by (subst unat_plus_bounded) (simp_all add: word_le_nat_alt)
  have "rd_position r + ucast len \<le> rd_size r"
    using len le by (simp add: word_le_nat_alt p)
  moreover have "rd_size r' = rd_size r" "rd_position r' = rd_position r + ucast len"
    using sk s(1) by (auto simp: rd_seek_def split: if_splits)
  ultimately have "unat (rd_remaining r') = unat (rd_size r) - (unat (rd_position r) + unat len)"
    by (simp add: rd_remaining_def unat_minus_bounded p)
  then show ?thesis using len le by (simp add: rem n word_le_nat_alt)
qed

function decode_pe_blocks ::
    "Limits \<Rightarrow> u64 \<Rightarrow> ByteReader \<Rightarrow> Relocation list \<Rightarrow> (Error + unit) \<times> Relocation list" where
  "decode_pe_blocks limits image_base r out =
    (if rd_remaining r = 0 then (Inr (), out)
     else case decode_pe_block limits image_base r out of
       (Inl e, out') \<Rightarrow> (Inl e, out')
     | (Inr r', out') \<Rightarrow> decode_pe_blocks limits image_base r' out')"
  by pat_completeness auto
termination
  by (relation "measure (\<lambda>(limits, image_base, r, out). unat (rd_remaining r))")
    (auto dest!: sym [of _ "decode_pe_block _ _ _ _"] intro: decode_pe_block_less)

declare decode_pe_blocks.simps [simp del]

definition decode_pe_base ::
    "Limits \<Rightarrow> bytes option \<Rightarrow> u64 \<Rightarrow> u64 \<Rightarrow> Relocation list \<Rightarrow> (Error + unit) \<times> Relocation list" where
  "decode_pe_base limits data len image_base out =
     decode_pe_blocks limits image_base (make_reader data len little) out"

definition macho_relocation :: "RelocationDecodeOptions \<Rightarrow> nat \<Rightarrow> u32 \<Rightarrow> u64 \<Rightarrow> Relocation" where
  "macho_relocation opts index information target =
    (let symbol = information AND 0x00ffffff;
         pc_relative = (drop_bit 24 information AND 1 \<noteq> 0);
         encoded_length = drop_bit 25 information AND 3;
         external = (drop_bit 27 information AND 1 \<noteq> 0);
         type = ucast (drop_bit 28 information);
         width = push_bit (unat encoded_length) 1 in
     \<lparr>rel_index = of_nat index, rel_kind = macho_kind type external pc_relative width,
      rel_target_section = dec_target_section opts, rel_symbol_index = (if external then symbol else 0),
      rel_offset = target, rel_addend = 0, rel_width = width\<rparr>)"

fun decode_macho_records ::
    "Limits \<Rightarrow> RelocationDecodeOptions \<Rightarrow> nat \<Rightarrow> nat \<Rightarrow> ByteReader \<Rightarrow> Relocation list \<Rightarrow>
     (Error + unit) \<times> Relocation list" where
  "decode_macho_records limits opts index 0 r out = (Inr (), out)"
| "decode_macho_records limits opts index (Suc left) r out =
    (case pbind read_i32 (\<lambda>address. pbind read_u32 (\<lambda>information. preturn (address, information))) r of
       (Inl _, _) \<Rightarrow> (Inl (mk_error truncated (of_nat index * 8) ''Mach-O relocation entry is truncated''), out)
     | (Inr (address, information), r1) \<Rightarrow>
     if sint address < 0
     then (Inl (mk_error invalid_relocation (of_nat index * 8) ''scattered Mach-O relocation is unsupported''), out)
     else case checked_add (dec_base_address opts) (ucast address) of
       None \<Rightarrow> (Inl (mk_error address_overflow (of_nat index * 8) ''Mach-O relocation target overflows''), out)
     | Some target \<Rightarrow>
     (case append_relocation limits (macho_relocation opts (length out) information target) out of
       (Inl e, out') \<Rightarrow> (Inl e, out')
     | (Inr _, out') \<Rightarrow> decode_macho_records limits opts (Suc index) left r1 out'))"

definition decode_macho ::
    "Limits \<Rightarrow> bytes option \<Rightarrow> u64 \<Rightarrow> RelocationDecodeOptions \<Rightarrow> Relocation list \<Rightarrow>
     (Error + unit) \<times> Relocation list" where
  "decode_macho limits data len opts out =
    (if len mod 8 \<noteq> 0
     then (Inl (mk_error invalid_relocation 0 ''Mach-O relocation table is not record aligned''), out)
     else if len div 8 > output_room limits out
     then (Inl (mk_error resource_limit 0 ''Mach-O relocation table exceeds record limit''), out)
     else decode_macho_records limits opts 0 (unat (len div 8))
            (make_reader data len (dec_byte_order opts)) out)"

section \<open>What is appended\<close>

text \<open>
  The reference: the entries of a table in order, each a relocation once its index is known or
  nothing when the source refuses it.
\<close>

fun append_all :: "Limits \<Rightarrow> (nat \<Rightarrow> Relocation option) list \<Rightarrow> Relocation list \<Rightarrow> Relocation list option" where
  "append_all limits [] out = Some out"
| "append_all limits (f # fs) out =
    (case f (length out) of
       None \<Rightarrow> None
     | Some relocation \<Rightarrow>
         if length out \<ge> unat (max_relocations limits) then None
         else append_all limits fs (out @ [relocation]))"

lemma append_relocation_Inr:
  "append_relocation limits relocation out = (Inr (), out') \<longleftrightarrow>
   length out < unat (max_relocations limits) \<and> out' = out @ [relocation]"
  by (auto simp: append_relocation_def)

lemma append_all_append:
  "append_all limits (fs @ gs) out =
   (case append_all limits fs out of None \<Rightarrow> None | Some out1 \<Rightarrow> append_all limits gs out1)"
  by (induction fs arbitrary: out) (auto split: option.split)

lemma append_all_iff:
  "append_all limits fs out = Some out' \<longleftrightarrow>
   (\<exists>rels. out' = out @ rels \<and>
      map Some rels = map (\<lambda>i. (fs ! i) (length out + i)) [0..<length fs] \<and>
      (fs = [] \<or> length out + length fs \<le> unat (max_relocations limits)))"
proof (induction fs arbitrary: out)
  case (Cons f fs)
  have split: "map Some rels = map (\<lambda>i. ((f # fs) ! i) (length out + i)) [0..<length (f # fs)] \<longleftrightarrow>
      (\<exists>x xs. rels = x # xs \<and> f (length out) = Some x \<and>
         map Some xs = map (\<lambda>i. (fs ! i) (length (out @ [x]) + i)) [0..<length fs])" for rels
    by (cases rels) (auto simp: map_upt_Suc simp del: upt_Suc)
  show ?case
  proof (cases "f (length out)")
    case None
    then show ?thesis unfolding split by auto
  next
    case (Some x)
    show ?thesis
    proof (cases "length out < unat (max_relocations limits)")
      case True
      then show ?thesis unfolding split using Some by (auto simp: Cons.IH)
    next
      case False
      then show ?thesis using Some by auto
    qed
  qed
qed auto

section \<open>ELF tables\<close>

definition elf_fields :: "RelocationDecodeOptions \<Rightarrow> bytes \<Rightarrow> u64 \<times> u64 \<times> i64" where
  "elf_fields opts bs = (let order = dec_byte_order opts in
    if wide opts then
      (ordered_value order (take 8 bs), ordered_value order (take 8 (drop 8 bs)),
       if dec_explicit_addends opts then ordered_value order (take 8 (drop 16 bs)) else 0)
    else
      (ucast (ordered_value order (take 4 bs) :: u32), ucast (ordered_value order (take 4 (drop 4 bs)) :: u32),
       if dec_explicit_addends opts then scast (ordered_value order (take 4 (drop 8 bs)) :: u32) else 0))"

definition elf_entry :: "RelocationDecodeOptions \<Rightarrow> bytes \<Rightarrow> nat \<Rightarrow> Relocation option" where
  "elf_entry opts bs index = (case elf_fields opts bs of (offset, information, addend) \<Rightarrow>
     map_option (\<lambda>target. elf_relocation opts index (elf_symbol opts information) target information addend)
       (checked_add (dec_base_address opts) offset))"

lemma read_elf_entry_fields:
  assumes "reader_ok r" "rd_order r = dec_byte_order opts" "unat (minimum_entry opts) \<le> length (rd_rest r)"
  shows "read_elf_entry opts r =
    (Inr (elf_fields opts (rd_rest r)), rd_advance (unat (minimum_entry opts)) r)"
  using assms
  by (cases "wide opts"; cases "dec_explicit_addends opts")
    (simp_all add: not_less le_diff_conv2 read_elf_entry_def elf_fields_def minimum_entry_def on_fail_def pbind_def preturn_def
      read_u64_eq read_u32_eq read_i64_def read_i32_def rd_rest_advance reader_ok_advance Let_def)

lemma elf_symbol_fits: "elf_symbol opts (fst (snd (elf_fields opts bs))) \<le> 4294967295"
proof (cases "wide opts")
  case True
  have "drop_bit 32 v \<le> 4294967295" for v :: u64
    using unat_u64_bound [of v] by (simp add: word_le_nat_alt unat_drop_bit_eq drop_bit_nat_def)
  then show ?thesis by (simp add: True elf_symbol_def)
next
  case False
  have "drop_bit 8 (ucast v :: u64) \<le> 4294967295" for v :: u32
  proof -
    have "unat v div 256 \<le> 4294967295" using unat_u32_bound [of v] by linarith
    then show ?thesis by (simp add: word_le_nat_alt unat_drop_bit_eq drop_bit_nat_def)
  qed
  then show ?thesis by (simp add: False elf_symbol_def elf_fields_def Let_def)
qed

text \<open>A reader over the bytes of a table.\<close>

definition table_reader :: "bytes \<Rightarrow> ByteOrder \<Rightarrow> ByteReader \<Rightarrow> bool" where
  "table_reader bs order r \<longleftrightarrow> rd_data r = Some bs \<and> unat (rd_size r) = length bs \<and>
     rd_order r = order \<and> reader_ok r"

lemma table_reader_make:
  "length bs = unat len \<Longrightarrow> table_reader bs order (make_reader (Some bs) len order)"
  by (simp add: table_reader_def make_reader_def reader_ok_def)

lemma table_reader_seek:
  assumes "table_reader bs order r" "unat at \<le> length bs"
  shows "rd_seek at r = (Inr (), r\<lparr>rd_position := at\<rparr>) \<and> table_reader bs order (r\<lparr>rd_position := at\<rparr>) \<and>
    rd_rest (r\<lparr>rd_position := at\<rparr>) = drop (unat at) bs"
  using assms by (simp add: table_reader_def rd_seek_def word_less_nat_alt reader_ok_def rd_rest_def word_le_nat_alt)

lemma table_reader_advance:
  "table_reader bs order r \<Longrightarrow> n \<le> length (rd_rest r) \<Longrightarrow> table_reader bs order (rd_advance n r)"
  by (simp add: table_reader_def reader_ok_advance)

lemma decode_elf_entry_Inr:
  assumes r: "table_reader bs (dec_byte_order opts) r"
    and at: "unat at + unat (minimum_entry opts) \<le> length bs"
  shows "decode_elf_entry limits opts at r out = (Inr r', out') \<longleftrightarrow>
    append_all limits [elf_entry opts (drop (unat at) bs)] out = Some out' \<and>
    r' = rd_advance (unat (minimum_entry opts)) (r\<lparr>rd_position := at\<rparr>)"
proof -
  let ?r = "r\<lparr>rd_position := at\<rparr>"
  have "unat at \<le> length bs" using at by simp
  note sk = table_reader_seek [OF r this]
  have rd: "read_elf_entry opts ?r = (Inr (elf_fields opts (drop (unat at) bs)), rd_advance (unat (minimum_entry opts)) ?r)"
    using read_elf_entry_fields [of ?r opts] sk at by (simp add: table_reader_def)
  obtain offset information addend where f: "elf_fields opts (drop (unat at) bs) = (offset, information, addend)"
    by (cases "elf_fields opts (drop (unat at) bs)")
  have "\<not> elf_symbol opts information > 4294967295"
    using elf_symbol_fits [of opts "drop (unat at) bs"] by (simp add: f)
  then show ?thesis
    by (auto simp: decode_elf_entry_def sk rd f elf_entry_def Let_def append_relocation_def
        split: option.split)
qed

lemma decode_elf_entries_Inr:
  assumes es: "unat (minimum_entry opts) \<le> unat (elf_entry_size opts)"
  shows "table_reader bs (dec_byte_order opts) r \<Longrightarrow>
    (index + left) * unat (elf_entry_size opts) \<le> length bs \<Longrightarrow>
    decode_elf_entries limits opts index left r out = (Inr (), out') \<longleftrightarrow>
    append_all limits (map (\<lambda>i. elf_entry opts (drop (i * unat (elf_entry_size opts)) bs))
      [index..<index + left]) out = Some out'"
proof (induction left arbitrary: index r out)
  case (Suc left)
  let ?es = "unat (elf_entry_size opts)" and ?at = "of_nat index * elf_entry_size opts"
  let ?r = "rd_advance (unat (minimum_entry opts)) (r\<lparr>rd_position := ?at\<rparr>)"
  have len: "length bs < 2 ^ 64"
    using Suc.prems(1) unat_u64_bound [of "rd_size r"] by (simp add: table_reader_def)
  have fits: "index * ?es + ?es \<le> length bs" using Suc.prems(2) by (simp add: algebra_simps)
  have "index * ?es < 2 ^ 64" using fits len by linarith
  then have "index * ?es < 18446744073709551616" by simp
  moreover have "?at = of_nat (index * ?es)" by simp
  ultimately have at: "unat ?at = index * ?es" by (simp only: unat_of_nat_u64)
  have room: "unat ?at + unat (minimum_entry opts) \<le> length bs" using fits es at by simp
  have tr: "table_reader bs (dec_byte_order opts) ?r"
    using table_reader_seek [OF Suc.prems(1), of ?at] room by (intro table_reader_advance) auto
  have step: "decode_elf_entry limits opts ?at r out = (Inr r', o1) \<longleftrightarrow>
      append_all limits [elf_entry opts (drop (index * ?es) bs)] out = Some o1 \<and> r' = ?r" for r' o1
    by (rule decode_elf_entry_Inr [OF Suc.prems(1) room, of limits out, unfolded at])
  have up: "map f [index..<index + Suc left] = [f index] @ map f [Suc index..<Suc index + left]"
    for f :: "nat \<Rightarrow> nat \<Rightarrow> Relocation option"
    by (simp add: upt_conv_Cons del: upt_Suc)
  obtain res o1 where d: "decode_elf_entry limits opts ?at r out = (res, o1)" by fastforce
  show ?case
  proof (cases res)
    case (Inl e)
    then have "append_all limits [elf_entry opts (drop (index * ?es) bs)] out = None"
      using step [of ?r] d by (cases "append_all limits [elf_entry opts (drop (index * ?es) bs)] out") simp_all
    then show ?thesis
      unfolding up append_all_append decode_elf_entries.simps d Inl by simp
  next
    case (Inr r1)
    have "append_all limits [elf_entry opts (drop (index * ?es) bs)] out = Some o1 \<and> r1 = ?r"
      by (rule iffD1 [OF step]) (simp only: d Inr)
    then have a: "append_all limits [elf_entry opts (drop (index * ?es) bs)] out = Some o1" and r1: "r1 = ?r"
      by blast+
    have "decode_elf_entries limits opts (Suc index) left ?r o1 = (Inr (), out') \<longleftrightarrow>
        append_all limits (map (\<lambda>i. elf_entry opts (drop (i * ?es) bs)) [Suc index..<Suc index + left]) o1 = Some out'"
      using Suc.prems(2) by (intro Suc.IH [OF tr]) simp
    then show ?thesis
      unfolding up append_all_append decode_elf_entries.simps d Inr a r1 by simp
  qed
qed simp

lemma output_room_le:
  assumes "length out \<le> unat (max_relocations limits)"
  shows "count \<le> output_room limits out \<longleftrightarrow> length out + unat count \<le> unat (max_relocations limits)"
proof -
  have "unat (of_nat (length out) :: u64) = length out"
    using assms unat_u32_bound [of "max_relocations limits"] by (intro unat_of_nat_u64) linarith
  then have "unat (output_room limits out) = unat (max_relocations limits) - length out"
    using assms by (simp add: output_room_def unat_minus_bounded word_le_nat_alt)
  then show ?thesis using assms by (simp add: word_le_nat_alt) linarith
qed

text \<open>A list over the limit makes the room wrap; the appends then refuse what it lets through.\<close>

lemma output_room_guard:
  assumes "count \<noteq> 0" "append_all limits fs out = Some out'" "length fs = unat count"
  shows "count \<le> output_room limits out"
proof -
  have "fs \<noteq> []" using assms(1,3) by (metis list.size(3) unat_eq_zero)
  then have "length out + unat count \<le> unat (max_relocations limits)"
    using assms(2,3) by (auto simp: append_all_iff)
  then show ?thesis by (subst output_room_le) simp_all
qed

lemma count_bounds:
  fixes len es :: u64
  assumes "es \<noteq> 0" "es \<le> len"
  shows "unat (len div es) = unat len div unat es" "unat (len div es) * unat es \<le> unat len" "len div es \<noteq> 0"
proof -
  show d: "unat (len div es) = unat len div unat es" by (rule unat_div)
  show "unat (len div es) * unat es \<le> unat len" by (simp add: d)
  have "0 < unat es" "unat es \<le> unat len"
    using assms by (simp_all add: word_le_nat_alt unat_gt_0)
  then have "0 < unat (len div es)" by (simp add: d div_greater_zero_iff)
  then show "len div es \<noteq> 0" by auto
qed

section \<open>PE base relocation blocks\<close>

type_synonym pe_block = "u32 \<times> u16 list"

definition pe_block_size :: "pe_block \<Rightarrow> nat" where
  "pe_block_size b = 8 + 2 * length (snd b)"

definition pe_block_bytes :: "pe_block \<Rightarrow> bytes" where
  "pe_block_bytes b = le_bytes 4 (fst b) @ le_bytes 4 (of_nat (pe_block_size b) :: u32) @
     concat (map (le_bytes 2) (snd b))"

definition pe_entry :: "u64 \<Rightarrow> u32 \<Rightarrow> u16 \<Rightarrow> nat \<Rightarrow> Relocation option" where
  "pe_entry image_base page_rva encoded index =
     map_option (\<lambda>target. pe_relocation index target (ucast (drop_bit 12 encoded)))
       (pe_target image_base page_rva (encoded AND 0xfff))"

text \<open>Records of type 0 only pad a block.\<close>

definition pe_entries :: "u64 \<Rightarrow> pe_block \<Rightarrow> (nat \<Rightarrow> Relocation option) list" where
  "pe_entries image_base b =
     map (pe_entry image_base (fst b)) (filter (\<lambda>e. ucast (drop_bit 12 e) \<noteq> (0 :: u8)) (snd b))"

lemma decode_pe_record_Inr:
  assumes "lit r"
  shows "decode_pe_record limits image_base page at r out = (Inr r', out') \<longleftrightarrow>
    (\<exists>e. moves r (le_bytes 2 e) r' \<and> append_all limits (pe_entries image_base (page, [e])) out = Some out')"
proof -
  have rd: "moves r (le_bytes 2 e) r1 \<longleftrightarrow> read_u16 r = (Inr e, r1)" for e r1
    using u16_read [OF assms] u16_codec.decode [OF TrueI] assms unfolding lit_def by blast
  obtain res r1 where d: "read_u16 r = (res, r1)" by fastforce
  show ?thesis
  proof (cases res)
    case (Inl u)
    then show ?thesis by (simp add: decode_pe_record_def rd d)
  next
    case (Inr e)
    have "(\<exists>e. moves r (le_bytes 2 e) r' \<and> append_all limits (pe_entries image_base (page, [e])) out = Some out') \<longleftrightarrow>
        r' = r1 \<and> append_all limits (pe_entries image_base (page, [e])) out = Some out'"
      unfolding rd d Inr by auto
    then show ?thesis
      by (cases "ucast (drop_bit 12 e) = (0 :: u8)"; cases "pe_target image_base page (e AND 0xfff)")
        (auto simp: decode_pe_record_def d Inr Let_def pe_entries_def pe_entry_def append_relocation_def
          simp del: ucast_drop_bit_eq of_nat_eq_0_iff)
  qed
qed

lemma ex_length_Suc: "(\<exists>xs. length xs = Suc n \<and> Q xs) \<longleftrightarrow> (\<exists>y ys. length ys = n \<and> Q (y # ys))"
  by (metis length_Suc_conv)

lemma decode_pe_records_Inr:
  "lit r \<Longrightarrow> decode_pe_records limits image_base page at n r out = (Inr r', out') \<longleftrightarrow>
    (\<exists>recs. length recs = n \<and> moves r (concat (map (le_bytes 2) recs)) r' \<and>
       append_all limits (pe_entries image_base (page, recs)) out = Some out')"
proof (induction n arbitrary: r out)
  case 0
  then show ?case by (auto simp: pe_entries_def lit_def)
next
  case (Suc n)
  have split: "append_all limits (pe_entries image_base (page, e # es)) out = Some out' \<longleftrightarrow>
      (\<exists>o1. append_all limits (pe_entries image_base (page, [e])) out = Some o1 \<and>
         append_all limits (pe_entries image_base (page, es)) o1 = Some out')" for e es
  proof -
    have "pe_entries image_base (page, e # es) =
        pe_entries image_base (page, [e]) @ pe_entries image_base (page, es)"
      by (simp add: pe_entries_def)
    then show ?thesis by (simp only: append_all_append) (auto split: option.splits)
  qed
  have "decode_pe_records limits image_base page at (Suc n) r out = (Inr r', out') \<longleftrightarrow>
      (\<exists>r1 o1. decode_pe_record limits image_base page at r out = (Inr r1, o1) \<and>
         decode_pe_records limits image_base page at n r1 o1 = (Inr r', out'))"
    by (auto split: prod.splits sum.splits)
  also have "\<dots> \<longleftrightarrow> (\<exists>r1 o1 e es. moves r (le_bytes 2 e) r1 \<and> length es = n \<and>
       moves r1 (concat (map (le_bytes 2) es)) r' \<and>
       append_all limits (pe_entries image_base (page, [e])) out = Some o1 \<and>
       append_all limits (pe_entries image_base (page, es)) o1 = Some out')"
  proof -
    have "decode_pe_records limits image_base page at n r1 o1 = (Inr r', out') \<longleftrightarrow>
      (\<exists>es. length es = n \<and> moves r1 (concat (map (le_bytes 2) es)) r' \<and>
         append_all limits (pe_entries image_base (page, es)) o1 = Some out')"
      if "moves r (le_bytes 2 e) r1" for e r1 o1
      by (rule Suc.IH [OF lit_moves [OF Suc.prems that]])
    then show ?thesis unfolding decode_pe_record_Inr [OF Suc.prems] by blast
  qed
  also have "\<dots> \<longleftrightarrow> (\<exists>e es. length es = n \<and> moves r (concat (map (le_bytes 2) (e # es))) r' \<and>
       append_all limits (pe_entries image_base (page, e # es)) out = Some out')"
    unfolding split list.map concat.simps moves_append by blast
  also have "\<dots> \<longleftrightarrow> (\<exists>recs. length recs = Suc n \<and> moves r (concat (map (le_bytes 2) recs)) r' \<and>
       append_all limits (pe_entries image_base (page, recs)) out = Some out')"
    by (rule ex_length_Suc [symmetric])
  finally show ?case .
qed

text \<open>Reading a block header and running over its records leaves the reader at the block's end.\<close>

lemma read_pe_block_Inr:
  assumes "lit r"
  shows "read_pe_block r = (Inr (page, len), r') \<longleftrightarrow>
    moves r (le_bytes 4 page @ le_bytes 4 len) r' \<and>
    8 \<le> len \<and> unat len \<le> length (rd_rest r) \<and> (len - 8) mod 2 = 0"
proof -
  have ok: "reader_ok r" "rd_order r = little" using assms by (simp_all add: lit_def)
  have rd: "read_u32 q = (Inr v, q') \<longleftrightarrow> moves q (le_bytes 4 v) q'" if "lit q" for q v q'
    using that u32_read [OF that] u32_codec.decode [OF TrueI] unfolding lit_def by blast
  have "(\<exists>r1. read_u32 r = (Inr page, r1) \<and> read_u32 r1 = (Inr len, r')) \<longleftrightarrow>
      moves r (le_bytes 4 page @ le_bytes 4 len) r'"
    unfolding moves_append rd [OF assms] using rd lit_moves [OF assms] by blast
  moreover have "ucast len \<le> rd_size r - rd_position r \<longleftrightarrow> unat len \<le> length (rd_rest r)"
    using ok by (simp add: word_le_nat_alt unat_minus_bounded reader_ok_def length_rd_rest)
  ultimately show ?thesis
    by (simp add: read_pe_block_def pbind_Inr case_prod_beta not_less)
qed

lemma block_length:
  fixes len :: u32
  assumes "8 \<le> len" "(len - 8) mod 2 = 0"
  shows "unat len = 8 + 2 * unat ((len - 8) div 2)"
proof -
  have "unat (len - 8) = unat len - 8" "8 \<le> unat len"
    using assms(1) by (simp_all add: unat_minus_bounded word_le_nat_alt)
  moreover have "unat ((len - 8) mod 2) = unat (len - 8) mod 2" by (simp add: unat_mod)
  moreover have "unat ((len - 8) div 2) = unat (len - 8) div 2" by (simp add: unat_div)
  ultimately show ?thesis using assms(2) by simp presburger
qed

lemma length_concat_u16: "length (concat (map (le_bytes 2) (recs :: u16 list))) = 2 * length recs"
  by (induction recs) simp_all

lemma length_pe_block: "length (pe_block_bytes b) = pe_block_size b"
  by (simp add: pe_block_bytes_def pe_block_size_def length_concat_u16)

lemma decode_pe_block_Inr:
  assumes "lit r"
  shows "decode_pe_block limits image_base r out = (Inr r', out') \<longleftrightarrow>
    (\<exists>b. pe_block_size b < 2 ^ 32 \<and> moves r (pe_block_bytes b) r' \<and>
       append_all limits (pe_entries image_base b) out = Some out')" (is "?lhs \<longleftrightarrow> ?rhs")
proof
  assume ?lhs
  then obtain page len r1 r2 where b: "read_pe_block r = (Inr (page, len), r1)"
    and rs: "decode_pe_records limits image_base page (rd_position r) (unat ((len - 8) div 2)) r1 out = (Inr r2, out')"
    and sk: "rd_seek (rd_position r + ucast len) r2 = (Inr (), r')"
    by (auto simp: decode_pe_block_def Let_def split: prod.splits sum.splits)
  have h: "moves r (le_bytes 4 page @ le_bytes 4 len) r1" "8 \<le> len" "(len - 8) mod 2 = 0"
    using b by (simp_all add: read_pe_block_Inr [OF assms])
  obtain recs where recs: "length recs = unat ((len - 8) div 2)"
      "moves r1 (concat (map (le_bytes 2) recs)) r2"
      "append_all limits (pe_entries image_base (page, recs)) out = Some out'"
    using rs by (auto simp: decode_pe_records_Inr [OF lit_moves [OF assms h(1)]])
  have len: "unat len = pe_block_size (page, recs)"
    using block_length [OF h(2,3)] recs(1) by (simp add: pe_block_size_def)
  then have "len = of_nat (pe_block_size (page, recs))" by (metis of_nat_unat ucast_id)
  then have m: "moves r (pe_block_bytes (page, recs)) r2"
    using moves_trans [OF h(1) recs(2)] by (simp add: pe_block_bytes_def)
  have "rd_position r2 = rd_position r + ucast len"
    using m by (simp add: moves_def length_pe_block rd_advance_def flip: len)
  then have "r' = r2" using sk by (auto simp: rd_seek_def split: if_splits)
  moreover have "pe_block_size (page, recs) < 2 ^ 32"
    unfolding len [symmetric] using unat_u32_bound [of len] by simp
  ultimately show ?rhs using m recs(3) by blast
next
  assume ?rhs
  then obtain page recs where b: "pe_block_size (page, recs) < 2 ^ 32"
      "moves r (pe_block_bytes (page, recs)) r'" "append_all limits (pe_entries image_base (page, recs)) out = Some out'"
    by auto
  define len :: u32 where "len = of_nat (pe_block_size (page, recs))"
  have len: "unat len = 8 + 2 * length recs"
    unfolding len_def using unat_of_nat_u32 [of "pe_block_size (page, recs)"] b(1) by (simp add: pe_block_size_def)
  then have l8: "8 \<le> len" by (simp add: word_le_nat_alt)
  then have l: "unat (len - 8) = 2 * length recs" by (simp add: unat_minus_bounded len)
  have "unat ((len - 8) mod 2) = 0" by (simp add: unat_mod l)
  then have even: "(len - 8) mod 2 = 0" by (simp add: unat_eq_0)
  have half: "unat ((len - 8) div 2) = length recs" by (simp add: unat_div l)
  obtain r1 where r1: "moves r (le_bytes 4 page @ le_bytes 4 len) r1"
      "moves r1 (concat (map (le_bytes 2) recs)) r'"
    using b(2) by (auto simp: pe_block_bytes_def moves_append len_def)
  have "unat len \<le> length (rd_rest r)"
    using b(2) length_pe_block [of "(page, recs)"] len by (simp add: moves_def pe_block_size_def)
  then have hd: "read_pe_block r = (Inr (page, len), r1)"
    using r1(1) l8 even by (simp add: read_pe_block_Inr [OF assms])
  have rs: "decode_pe_records limits image_base page (rd_position r) (unat ((len - 8) div 2)) r1 out = (Inr r', out')"
    using r1(2) b(3) half by (auto simp: decode_pe_records_Inr [OF lit_moves [OF assms r1(1)]])
  have "(ucast len :: u64) = of_nat (pe_block_size (page, recs))"
    unfolding len_def using b(1) by (intro ucast_of_nat_u32_u64) simp
  then have "rd_position r' = rd_position r + ucast len"
    using b(2) by (simp only: moves_def length_pe_block rd_advance_def ByteReader.simps ByteReader.surjective) simp
  moreover have "rd_position r' \<le> rd_size r'"
    using b(2) by (auto dest!: moves_okD simp: reader_ok_def)
  ultimately have "rd_seek (rd_position r + ucast len) r' = (Inr (), r')"
    by (simp add: rd_seek_def not_less [symmetric])
  then show ?lhs by (simp add: decode_pe_block_def Let_def hd rs)
qed

lemma decode_pe_blocks_sound:
  "lit r \<Longrightarrow> decode_pe_blocks limits image_base r out = (Inr (), out') \<Longrightarrow>
    \<exists>blocks. rd_rest r = concat (map pe_block_bytes blocks) \<and>
      (\<forall>b \<in> set blocks. pe_block_size b < 2 ^ 32) \<and>
      append_all limits (concat (map (pe_entries image_base) blocks)) out = Some out'"
proof (induction limits image_base r out rule: decode_pe_blocks.induct)
  case (1 limits image_base r out)
  show ?case
  proof (cases "rd_remaining r = 0")
    case True
    then have "rd_rest r = []" "out' = out"
      using 1(2,3) by (simp_all add: rd_remaining_0_iff lit_def decode_pe_blocks.simps)
    then show ?thesis by (intro exI [of _ "[]"]) simp
  next
    case False
    then obtain r1 o1 where b: "decode_pe_block limits image_base r out = (Inr r1, o1)"
      and rest: "decode_pe_blocks limits image_base r1 o1 = (Inr (), out')"
      using 1(3) by (auto simp: decode_pe_blocks.simps [of limits image_base r] split: prod.splits sum.splits)
    from b obtain bl where bl: "pe_block_size bl < 2 ^ 32" "moves r (pe_block_bytes bl) r1"
        "append_all limits (pe_entries image_base bl) out = Some o1"
      by (auto simp: decode_pe_block_Inr [OF 1(2)])
    from 1(1) [OF False b [symmetric] refl lit_moves [OF 1(2) bl(2)] rest] obtain blocks where
      bs: "rd_rest r1 = concat (map pe_block_bytes blocks)" "\<forall>b \<in> set blocks. pe_block_size b < 2 ^ 32"
        "append_all limits (concat (map (pe_entries image_base) blocks)) o1 = Some out'"
      by blast
    show ?thesis
      using bl bs moves_rest [OF bl(2)] by (intro exI [of _ "bl # blocks"]) (simp add: append_all_append)
  qed
qed

lemma decode_pe_blocks_complete:
  "lit r \<Longrightarrow> rd_rest r = concat (map pe_block_bytes blocks) \<Longrightarrow>
    \<forall>b \<in> set blocks. pe_block_size b < 2 ^ 32 \<Longrightarrow>
    append_all limits (concat (map (pe_entries image_base) blocks)) out = Some out' \<Longrightarrow>
    decode_pe_blocks limits image_base r out = (Inr (), out')"
proof (induction blocks arbitrary: r out)
  case Nil
  then show ?case by (simp add: rd_remaining_0_iff lit_def decode_pe_blocks.simps)
next
  case (Cons b blocks)
  obtain o1 where o1: "append_all limits (pe_entries image_base b) out = Some o1"
      "append_all limits (concat (map (pe_entries image_base) blocks)) o1 = Some out'"
    using Cons.prems(4) by (auto simp: append_all_append split: option.splits)
  have m: "moves r (pe_block_bytes b) (rd_advance (length (pe_block_bytes b)) r)"
    using Cons.prems(1,2) by (intro movesI) (auto simp: lit_def)
  then have d: "decode_pe_block limits image_base r out = (Inr (rd_advance (length (pe_block_bytes b)) r), o1)"
    unfolding decode_pe_block_Inr [OF Cons.prems(1)] using Cons.prems(3) o1(1) by (intro exI [of _ b]) simp
  have "rd_rest r \<noteq> []" using Cons.prems(2) length_pe_block [of b] by (auto simp: pe_block_size_def)
  then have "rd_remaining r \<noteq> 0" using Cons.prems(1) by (simp add: rd_remaining_0_iff lit_def)
  moreover have "decode_pe_blocks limits image_base (rd_advance (length (pe_block_bytes b)) r) o1 = (Inr (), out')"
    using lit_moves [OF Cons.prems(1) m] moves_rest [OF m] Cons.prems(2,3) o1(2)
    by (intro Cons.IH) auto
  ultimately show ?case by (subst decode_pe_blocks.simps) (simp add: d)
qed

section \<open>Mach-O records\<close>

definition macho_entry :: "RelocationDecodeOptions \<Rightarrow> bytes \<Rightarrow> nat \<Rightarrow> Relocation option" where
  "macho_entry opts bs index =
    (let address = ordered_value (dec_byte_order opts) (take 4 bs) :: i32;
         information = ordered_value (dec_byte_order opts) (take 4 (drop 4 bs)) :: u32 in
     if sint address < 0 then None
     else map_option (macho_relocation opts index information)
            (checked_add (dec_base_address opts) (ucast address)))"

lemma decode_macho_records_Inr:
  "reader_ok r \<Longrightarrow> rd_order r = dec_byte_order opts \<Longrightarrow> 8 * left \<le> length (rd_rest r) \<Longrightarrow>
    decode_macho_records limits opts index left r out = (Inr (), out') \<longleftrightarrow>
    append_all limits (map (\<lambda>i. macho_entry opts (drop (i * 8) (rd_rest r))) [0..<left]) out = Some out'"
proof (induction left arbitrary: index r out)
  case (Suc left)
  let ?r = "rd_advance 8 r"
  have len: "8 \<le> length (rd_rest r)" using Suc.prems(3) by simp
  define address where "address = (ordered_value (dec_byte_order opts) (take 4 (rd_rest r)) :: i32)"
  define information where "information = (ordered_value (dec_byte_order opts) (take 4 (drop 4 (rd_rest r))) :: u32)"
  have rd: "pbind read_i32 (\<lambda>address. pbind read_u32 (\<lambda>information. preturn (address, information))) r =
      (Inr (address, information), ?r)"
    using Suc.prems(1,2) len
    by (simp add: pbind_def preturn_def read_i32_def read_u32_eq reader_ok_advance rd_rest_advance
        address_def information_def le_diff_conv2 not_less)
  have me: "macho_entry opts (rd_rest r) k = (if sint address < 0 then None else
      map_option (macho_relocation opts k information) (checked_add (dec_base_address opts) (ucast address)))" for k
    by (simp add: macho_entry_def address_def information_def)
  have up: "map (\<lambda>i. macho_entry opts (drop (i * 8) (rd_rest r))) [0..<Suc left] =
      macho_entry opts (rd_rest r) # map (\<lambda>i. macho_entry opts (drop (i * 8) (rd_rest ?r))) [0..<left]"
    using Suc.prems(1) len by (simp add: map_upt_Suc rd_rest_advance add.commute del: upt_Suc)
  have IH: "decode_macho_records limits opts (Suc index) left ?r o1 = (Inr (), out') \<longleftrightarrow>
      append_all limits (map (\<lambda>i. macho_entry opts (drop (i * 8) (rd_rest ?r))) [0..<left]) o1 = Some out'" for o1
    using Suc.prems len by (intro Suc.IH) (simp_all add: reader_ok_advance rd_rest_advance)
  show ?case
    unfolding up append_all.simps me decode_macho_records.simps rd
    by (simp add: append_relocation_def IH split: option.split)
qed simp

section \<open>Every outcome grows the list\<close>

definition grows :: "Limits \<Rightarrow> Relocation list \<Rightarrow> Relocation list \<Rightarrow> bool" where
  "grows limits out out' \<longleftrightarrow>
     length out' \<le> max (length out) (unat (max_relocations limits)) \<and>
     (\<exists>rels. out' = out @ rels \<and> (\<forall>i < length rels. rel_index (rels ! i) = of_nat (length out + i)))"

lemma grows_refl [simp]: "grows limits out out"
  by (simp add: grows_def)

lemma grows_trans: "grows limits a b \<Longrightarrow> grows limits b c \<Longrightarrow> grows limits a c"
proof -
  assume "grows limits a b" "grows limits b c"
  then obtain rs ss where b: "b = a @ rs" and c: "c = (a @ rs) @ ss"
    and i: "\<forall>i < length rs. rel_index (rs ! i) = of_nat (length a + i)"
           "\<forall>i < length ss. rel_index (ss ! i) = of_nat (length (a @ rs) + i)"
    and len: "length b \<le> max (length a) (unat (max_relocations limits))"
             "length c \<le> max (length b) (unat (max_relocations limits))"
    unfolding grows_def by metis
  have "rel_index ((rs @ ss) ! k) = of_nat (length a + k)" if "k < length (rs @ ss)" for k
  proof (cases "k < length rs")
    case True
    then show ?thesis using i(1) by (simp add: nth_append)
  next
    case False
    then have "rel_index (ss ! (k - length rs)) = of_nat (length (a @ rs) + (k - length rs))"
      using that by (intro i(2) [rule_format]) simp
    moreover have "length (a @ rs) + (k - length rs) = length a + k" using False by simp
    ultimately show ?thesis using False by (simp only: nth_append if_False)
  qed
  then show ?thesis using len unfolding grows_def by (intro conjI exI [of _ "rs @ ss"]) (auto simp: c)
qed

lemma grows_append:
  "append_relocation limits relocation out = (res, out') \<Longrightarrow>
   rel_index relocation = of_nat (length out) \<Longrightarrow> grows limits out out'"
  by (auto simp: append_relocation_def grows_def split: if_splits)

lemma entry_index [simp]:
  "rel_index (elf_relocation opts n symbol target information addend) = of_nat n"
  "rel_index (pe_relocation n target type) = of_nat n"
  "rel_index (macho_relocation opts n word target) = of_nat n"
  by (simp_all add: elf_relocation_def pe_relocation_def macho_relocation_def Let_def split: prod.split)

lemma grows_elf: "decode_elf_entries limits opts index left r out = (res, out') \<Longrightarrow> grows limits out out'"
proof (induction left arbitrary: index r out)
  case (Suc left)
  obtain res1 o1 where e: "decode_elf_entry limits opts (of_nat index * elf_entry_size opts) r out = (res1, o1)"
    by fastforce
  then have "grows limits out o1"
    by (auto simp: decode_elf_entry_def Let_def intro: grows_append
        split: prod.splits sum.splits option.splits if_splits)
  moreover have "grows limits o1 out'"
    using Suc.prems Suc.IH by (auto simp: e split: sum.splits)
  ultimately show ?case by (rule grows_trans)
qed simp

lemma grows_pe_records:
  "decode_pe_records limits image_base page at n r out = (res, out') \<Longrightarrow> grows limits out out'"
proof (induction n arbitrary: r out)
  case (Suc n)
  obtain res1 o1 where e: "decode_pe_record limits image_base page at r out = (res1, o1)" by fastforce
  then have "grows limits out o1"
    by (auto simp: decode_pe_record_def Let_def intro: grows_append
        split: prod.splits sum.splits option.splits if_splits)
  moreover have "grows limits o1 out'"
    using Suc.prems Suc.IH by (auto simp: e split: sum.splits)
  ultimately show ?case by (rule grows_trans)
qed simp

lemma grows_pe_block:
  "decode_pe_block limits image_base r out = (res, out') \<Longrightarrow> grows limits out out'"
  by (auto simp: decode_pe_block_def Let_def dest: grows_pe_records split: prod.splits sum.splits)

lemma grows_pe_blocks:
  "decode_pe_blocks limits image_base r out = (res, out') \<Longrightarrow> grows limits out out'"
proof (induction limits image_base r out rule: decode_pe_blocks.induct)
  case (1 limits image_base r out)
  obtain res1 o1 where b: "decode_pe_block limits image_base r out = (res1, o1)" by fastforce
  have "grows limits out o1" by (rule grows_pe_block [OF b])
  moreover have "grows limits o1 out'" if "rd_remaining r \<noteq> 0"
    using 1(2) 1(1) [OF that b [symmetric]] that
    by (simp add: decode_pe_blocks.simps [of limits image_base r] b split: sum.splits)
  ultimately show ?case
    using 1(2) grows_trans by (auto simp: decode_pe_blocks.simps [of limits image_base r] split: if_splits)
qed

lemma grows_macho:
  "decode_macho_records limits opts index left r out = (res, out') \<Longrightarrow> grows limits out out'"
proof (induction left arbitrary: index r out)
  case (Suc left)
  then show ?case
    by (auto intro: grows_append grows_trans [OF grows_append [OF _ entry_index(3)]]
        split: prod.splits sum.splits option.splits if_splits)
qed simp

lemma decode_elf_grows: "grows limits out (snd (decode_elf limits data len opts out))"
  using grows_elf [OF surjective_pairing] by (simp add: decode_elf_def Let_def)

section \<open>Properties\<close>

text \<open>
  C17. An ELF relocation table decodes exactly when its entry size is usable, its entries fit in the
  room the limit leaves and no target overflows; then the relocations appended are those of the
  entries at the multiples of the entry size, in order and numbered on from the list.
\<close>

theorem decode_elf_exact:
  assumes "length bs < 2 ^ 64"
  shows "decode_elf limits (Some bs) (of_nat (length bs)) opts out = (Inr (), out') \<longleftrightarrow>
    unat (minimum_entry opts) \<le> unat (elf_entry_size opts) \<and> unat (elf_entry_size opts) \<le> length bs \<and>
    length bs mod unat (elf_entry_size opts) = 0 \<and>
    length out + length bs div unat (elf_entry_size opts) \<le> unat (max_relocations limits) \<and>
    (\<exists>rels. out' = out @ rels \<and>
      map Some rels = map (\<lambda>i. elf_entry opts (drop (i * unat (elf_entry_size opts)) bs) (length out + i))
        [0..<length bs div unat (elf_entry_size opts)])"
proof -
  let ?len = "of_nat (length bs) :: u64" and ?es = "elf_entry_size opts"
  have len: "unat ?len = length bs" using assms by (intro unat_of_nat_u64) simp
  have min: "0 < unat (minimum_entry opts)" by (simp add: minimum_entry_def)
  define n where "n = unat (?len div ?es)"
  define fs where "fs = map (\<lambda>i. elf_entry opts (drop (i * unat ?es) bs)) [0..<n]"
  have lfs: "length fs = n" by (simp add: fs_def)
  have all: "append_all limits fs out = Some out' \<longleftrightarrow>
      (\<exists>rels. out' = out @ rels \<and> map Some rels = map (\<lambda>i. elf_entry opts (drop (i * unat ?es) bs) (length out + i)) [0..<n]) \<and>
      (n = 0 \<or> length out + n \<le> unat (max_relocations limits))"
  proof -
    have "map (\<lambda>i. (fs ! i) (length out + i)) [0..<n] =
        map (\<lambda>i. elf_entry opts (drop (i * unat ?es) bs) (length out + i)) [0..<n]"
      by (rule map_cong) (simp_all add: fs_def)
    moreover have "fs = [] \<longleftrightarrow> n = 0" using lfs by auto
    ultimately show ?thesis unfolding append_all_iff lfs by auto
  qed
  show ?thesis
  proof (cases "minimum_entry opts \<le> ?es \<and> ?es \<le> ?len \<and> ?len mod ?es = 0")
    case True
    then have es: "unat (minimum_entry opts) \<le> unat ?es" "?es \<le> ?len" "?es \<noteq> 0"
      using min by (auto simp: word_le_nat_alt)
    note cb = count_bounds [OF es(3,2)]
    have "n \<noteq> 0" unfolding n_def using cb(3) by (metis unat_eq_zero)
    then have n: "n = length bs div unat ?es" "n * unat ?es \<le> length bs" "n \<noteq> 0"
      using cb(1,2) by (simp_all add: n_def len)
    have run: "decode_elf_entries limits opts 0 n (make_reader (Some bs) ?len (dec_byte_order opts)) out = (Inr (), out') \<longleftrightarrow>
        append_all limits fs out = Some out'"
      using decode_elf_entries_Inr [OF es(1) table_reader_make, of bs ?len 0 n limits out out'] n(2) len
      by (simp add: fs_def)
    have "?len div ?es \<le> output_room limits out" if "append_all limits fs out = Some out'"
      by (rule output_room_guard [OF cb(3) that]) (simp add: lfs n_def)
    then have "decode_elf limits (Some bs) ?len opts out = (Inr (), out') \<longleftrightarrow> append_all limits fs out = Some out'"
      using True run by (auto simp: decode_elf_def Let_def n_def not_le)
    moreover have "length bs mod unat ?es = 0"
    proof -
      have "unat (?len mod ?es) = 0" using True by simp
      then show ?thesis by (simp add: unat_mod len)
    qed
    ultimately show ?thesis
      using True n(3) unfolding all by (auto simp: word_le_nat_alt len n(1) [symmetric])
  next
    case False
    have "?len mod ?es = 0 \<longleftrightarrow> length bs mod unat ?es = 0"
      using unat_mod [of ?len ?es] len by (metis unat_eq_zero)
    then have "\<not> (unat (minimum_entry opts) \<le> unat ?es \<and> unat ?es \<le> length bs \<and> length bs mod unat ?es = 0)"
      using False by (auto simp: word_le_nat_alt len)
    then show ?thesis using False by (auto simp: decode_elf_def Let_def not_le)
  qed
qed

definition demo_options :: RelocationDecodeOptions where
  "demo_options = \<lparr>dec_architecture = x86, dec_word_size = bits32, dec_byte_order = little,
     dec_target_section = 3, dec_base_address = 0x1000, dec_entry_size = 0, dec_explicit_addends = False\<rparr>"

theorem decode_elf_exact_witness:
  "decode_elf demo_limits (Some [4, 0, 0, 0, 2, 7, 0, 0]) 8 demo_options [] =
    (Inr (), [\<lparr>rel_index = 0, rel_kind = pc_relative32, rel_target_section = 3, rel_symbol_index = 7,
       rel_offset = 0x1004, rel_addend = 0, rel_width = 4\<rparr>])"
proof -
  let ?bs = "[4, 0, 0, 0, 2, 7, 0, 0] :: bytes"
  have "length ?bs < 2 ^ 64" by simp
  note ex = decode_elf_exact [OF this, of demo_limits demo_options "[]"]
  have es: "elf_entry_size demo_options = 8" "minimum_entry demo_options = 8"
    by (simp_all add: elf_entry_size_def minimum_entry_def demo_options_def wide_def)
  have f: "elf_fields demo_options ?bs = (4, 0x702, 0)" by code_simp
  have "elf_entry demo_options ?bs 0 = Some \<lparr>rel_index = 0, rel_kind = pc_relative32, rel_target_section = 3,
      rel_symbol_index = 7, rel_offset = 0x1004, rel_addend = 0, rel_width = 4\<rparr>"
    unfolding elf_entry_def f
    by (simp add: elf_relocation_def elf_kind_def elf_symbol_def demo_options_def wide_def checked_add_def)
  then show ?thesis using ex by (simp add: es demo_limits_def)
qed

text \<open>
  A PE base relocation table decodes exactly when it is a sequence of whole blocks, each a page,
  its own size and 16-bit records with nothing between or after them, no target overflows and the
  limit is kept; the relocations appended are those of the records that are not padding, in order.
\<close>

theorem decode_pe_base_exact:
  assumes "length bs < 2 ^ 64"
  shows "decode_pe_base limits (Some bs) (of_nat (length bs)) image_base out = (Inr (), out') \<longleftrightarrow>
    (\<exists>blocks rels. bs = concat (map pe_block_bytes blocks) \<and>
      (\<forall>b \<in> set blocks. pe_block_size b < 2 ^ 32) \<and> out' = out @ rels \<and>
      (let entries = concat (map (pe_entries image_base) blocks) in
        map Some rels = map (\<lambda>i. (entries ! i) (length out + i)) [0..<length entries] \<and>
        (entries = [] \<or> length out + length entries \<le> unat (max_relocations limits))))"
proof -
  let ?r = "make_reader (Some bs) (of_nat (length bs)) little"
  have lit: "lit ?r"
    using reader_ok_reader_of [OF assms, of little] by (simp add: lit_def reader_of_def make_reader_def)
  have rest: "rd_rest ?r = bs" by (simp add: rd_rest_def make_reader_def)
  have "decode_pe_blocks limits image_base ?r out = (Inr (), out') \<longleftrightarrow>
    (\<exists>blocks. bs = concat (map pe_block_bytes blocks) \<and> (\<forall>b \<in> set blocks. pe_block_size b < 2 ^ 32) \<and>
      append_all limits (concat (map (pe_entries image_base) blocks)) out = Some out')"
    using decode_pe_blocks_sound [OF lit] decode_pe_blocks_complete [OF lit] unfolding rest by metis
  then show ?thesis unfolding decode_pe_base_def append_all_iff Let_def by blast
qed

theorem decode_pe_base_exact_witness:
  "\<exists>out'. decode_pe_base demo_limits (Some (pe_block_bytes (0x2000, [0x3008, 0]))) 12 0x400000 [] = (Inr (), out') \<and>
     map rel_offset out' = [0x402008]"
proof -
  let ?b = "(0x2000, [0x3008, 0]) :: pe_block"
  let ?bs = "pe_block_bytes ?b"
  have len: "length ?bs = 12" by (simp add: length_pe_block pe_block_size_def)
  have e: "concat (map (pe_entries 0x400000) [?b]) = [pe_entry 0x400000 0x2000 0x3008]"
    by (simp add: pe_entries_def)
  have t: "pe_entry 0x400000 0x2000 0x3008 0 = Some (pe_relocation 0 0x402008 3)"
    by (simp add: pe_entry_def pe_target_def checked_add_def)
  have "decode_pe_base demo_limits (Some ?bs) (of_nat (length ?bs)) 0x400000 [] = (Inr (), [pe_relocation 0 0x402008 3])"
    by (subst decode_pe_base_exact, simp add: len, rule exI [of _ "[?b]"],
        rule exI [of _ "[pe_relocation 0 0x402008 3]"], unfold e)
      (simp add: t pe_block_size_def demo_limits_def)
  moreover have "rel_offset (pe_relocation 0 0x402008 3) = 0x402008"
    by (simp add: pe_relocation_def)
  ultimately show ?thesis unfolding len by simp
qed

text \<open>
  A Mach-O relocation table decodes exactly when it consists of whole records within the limit,
  none of them scattered and no target overflowing; then the relocations appended are those of
  the records, in order and numbered on from the list.
\<close>

theorem decode_macho_exact:
  assumes "length bs < 2 ^ 64"
  shows "decode_macho limits (Some bs) (of_nat (length bs)) opts out = (Inr (), out') \<longleftrightarrow>
    length bs mod 8 = 0 \<and> of_nat (length bs div 8) \<le> output_room limits out \<and>
    (length bs < 8 \<or> length out + length bs div 8 \<le> unat (max_relocations limits)) \<and>
    (\<exists>rels. out' = out @ rels \<and>
      map Some rels = map (\<lambda>i. macho_entry opts (drop (i * 8) bs) (length out + i)) [0..<length bs div 8])"
proof -
  let ?len = "of_nat (length bs) :: u64" and ?r = "make_reader (Some bs) (of_nat (length bs)) (dec_byte_order opts)"
  have len: "unat ?len = length bs" using assms by (intro unat_of_nat_u64) simp
  have r: "reader_ok ?r" "rd_order ?r = dec_byte_order opts" "rd_rest ?r = bs"
    using reader_ok_reader_of [OF assms, of "dec_byte_order opts"]
    by (simp_all add: reader_of_def make_reader_def rd_rest_def)
  have u: "unat (8 :: u64) = 8" by simp
  have m: "?len mod 8 = 0 \<longleftrightarrow> length bs mod 8 = 0"
    using unat_mod [of ?len 8] len u by (metis unat_eq_zero)
  have d: "unat (?len div 8) = length bs div 8" using unat_div [of ?len 8] len u by metis
  then have d': "?len div 8 = of_nat (length bs div 8)" by (metis of_nat_unat ucast_id)
  define fs where "fs = map (\<lambda>i. macho_entry opts (drop (i * 8) bs)) [0..<length bs div 8]"
  have lfs: "length fs = length bs div 8" by (simp add: fs_def)
  have "map (\<lambda>i. (fs ! i) (length out + i)) [0..<length bs div 8] =
      map (\<lambda>i. macho_entry opts (drop (i * 8) bs) (length out + i)) [0..<length bs div 8]"
    by (rule map_cong) (simp_all add: fs_def)
  moreover have "fs = [] \<longleftrightarrow> length bs < 8" using lfs by auto
  moreover have "decode_macho_records limits opts 0 (length bs div 8) ?r out = (Inr (), out') \<longleftrightarrow>
      append_all limits fs out = Some out'"
    using decode_macho_records_Inr [OF r(1,2), of "length bs div 8" limits 0 out out'] by (simp add: r(3) fs_def)
  ultimately show ?thesis
    unfolding decode_macho_def m d unfolding d' append_all_iff lfs by (auto simp: not_le)
qed

theorem decode_macho_exact_witness:
  "decode_macho demo_limits (Some [16, 0, 0, 0, 2, 0, 0, 0x0c]) 8 demo_options [] =
    (Inr (), [\<lparr>rel_index = 0, rel_kind = absolute32, rel_target_section = 3, rel_symbol_index = 2,
       rel_offset = 0x1010, rel_addend = 0, rel_width = 4\<rparr>])"
proof -
  let ?bs = "[16, 0, 0, 0, 2, 0, 0, 0x0c] :: bytes"
  have "length ?bs < 2 ^ 64" by simp
  note ex = decode_macho_exact [OF this, of demo_limits demo_options "[]"]
  have "(le_value [16, 0, 0, 0] :: u32) = 16" "(le_value [2, 0, 0, 0x0c] :: u32) = 0x0c000002"
    by code_simp+
  then have "macho_entry demo_options ?bs 0 = Some \<lparr>rel_index = 0, rel_kind = absolute32,
      rel_target_section = 3, rel_symbol_index = 2, rel_offset = 0x1010, rel_addend = 0, rel_width = 4\<rparr>"
    by (simp add: macho_entry_def demo_options_def macho_relocation_def macho_kind_def checked_add_def)
  then show ?thesis using ex by (simp add: demo_limits_def output_room_def)
qed

text \<open>
  Whatever the input and the outcome, a decoder only grows the list of relocations, never past
  the limit, and numbers what it appends by position; what was appended before an error remains.
\<close>

theorem decoders_extend:
  "grows limits out (snd (decode_elf limits data len opts out)) \<and>
   grows limits out (snd (decode_pe_base limits data len image_base out)) \<and>
   grows limits out (snd (decode_macho limits data len opts out))"
proof (intro conjI)
  show "grows limits out (snd (decode_elf limits data len opts out))"
    by (rule decode_elf_grows)
  show "grows limits out (snd (decode_pe_base limits data len image_base out))"
    unfolding decode_pe_base_def by (rule grows_pe_blocks [OF surjective_pairing])
  show "grows limits out (snd (decode_macho limits data len opts out))"
    using grows_macho [OF surjective_pairing] by (simp add: decode_macho_def)
qed

end
