(* ===== verification/Elf_Parser.thy ===== *)
theory Elf_Parser
  imports Relocation_Decoder Validator
begin

unbundle bit_operations_syntax

text \<open>
  \<open>ElfParser\<close> of \<open>src/elf_parser.cc\<close>: identification, header, section table, program table,
  symbol tables and relocation tables, in the order the source reads them and with its error at
  every step. What a successful parse returns is the subject of \<open>Elf_Image\<close>.
\<close>

section \<open>Vocabulary of the format\<close>

definition elf_arch :: "u16 \<Rightarrow> Architecture" where
  "elf_arch machine =
    (if machine = 3 then x86 else if machine = 62 then x86_64 else if machine = 40 then arm
     else if machine = 183 then arm64 else if machine = 243 then riscv64 else arch_unknown)"

definition elf_binary_kind :: "u16 \<Rightarrow> BinaryKind" where
  "elf_binary_kind type =
    (if type = 1 then relocatable else if type = 2 then executable
     else if type = 3 then shared_library else if type = 4 then core else kind_unknown)"

definition debug_name :: "string \<Rightarrow> bool" where
  "debug_name name \<longleftrightarrow> take 6 name = ''.debug''"

definition elf_section_kind :: "u32 \<Rightarrow> string \<Rightarrow> SectionKind" where
  "elf_section_kind type name =
    (if type = 1 then (if debug_name name then debug else program_bits)
     else if type = 2 then symbol_table else if type = 3 then string_table
     else if type = 4 then relocation_addends else if type = 7 then note_section
     else if type = 8 then no_bits else if type = 9 then relocations
     else if type = 11 then dynamic_symbols
     else if debug_name name then debug else section_unknown)"

definition elf_symbol_kind :: "u8 \<Rightarrow> SymbolKind" where
  "elf_symbol_kind info =
    (let type = info AND 0xf in
     if type = 1 then object else if type = 2 then function_symbol else if type = 3 then section_symbol
     else if type = 4 then file_symbol else if type = 5 then common else if type = 6 then tls_object
     else symbol_unknown)"

definition elf_binding :: "u8 \<Rightarrow> u16 \<Rightarrow> SymbolBinding" where
  "elf_binding info section =
    (if section = 0 then import_symbol
     else if drop_bit 4 info = 1 then global else if drop_bit 4 info = 2 then weak else local_binding)"

section \<open>Section headers and strings\<close>

record RawSection =
  raw_name :: u32
  raw_type :: u32
  raw_flags :: u64
  raw_address :: u64
  raw_offset :: u64
  raw_size :: u64
  raw_link :: u32
  raw_info :: u32
  raw_alignment :: u64
  raw_entry_size :: u64

definition read_section :: "bool \<Rightarrow> RawSection read" where
  "read_section is_wide =
    pbind read_u32 (\<lambda>name. pbind read_u32 (\<lambda>type.
    if is_wide then
      pbind read_u64 (\<lambda>flags. pbind read_u64 (\<lambda>address. pbind read_u64 (\<lambda>offset.
      pbind read_u64 (\<lambda>len. pbind read_u32 (\<lambda>link. pbind read_u32 (\<lambda>info.
      pbind read_u64 (\<lambda>alignment. pbind read_u64 (\<lambda>entry_size.
      preturn \<lparr>raw_name = name, raw_type = type, raw_flags = flags, raw_address = address,
        raw_offset = offset, raw_size = len, raw_link = link, raw_info = info,
        raw_alignment = alignment, raw_entry_size = entry_size\<rparr>))))))))
    else
      pbind read_u32 (\<lambda>flags. pbind read_u32 (\<lambda>address. pbind read_u32 (\<lambda>offset.
      pbind read_u32 (\<lambda>len. pbind read_u32 (\<lambda>link. pbind read_u32 (\<lambda>info.
      pbind read_u32 (\<lambda>alignment. pbind read_u32 (\<lambda>entry_size.
      preturn \<lparr>raw_name = name, raw_type = type, raw_flags = ucast flags, raw_address = ucast address,
        raw_offset = ucast offset, raw_size = ucast len, raw_link = link, raw_info = info,
        raw_alignment = ucast alignment, raw_entry_size = ucast entry_size\<rparr>))))))))))"

text \<open>A string that cannot be read leaves the name as it was, empty.\<close>

definition table_string :: "bytes \<Rightarrow> RawSection \<Rightarrow> u32 \<Rightarrow> u64 \<Rightarrow> string option" where
  "table_string data table offset maximum =
    (if ucast offset \<ge> raw_size table \<or> raw_size table > maximum then None
     else read_c_string (reader_of data little) (raw_offset table + ucast offset)
            (raw_size table - ucast offset))"

definition name_in :: "bytes \<Rightarrow> RawSection \<Rightarrow> u32 \<Rightarrow> u64 \<Rightarrow> string" where
  "name_in data table offset maximum =
    (case table_string data table offset maximum of None \<Rightarrow> [] | Some name \<Rightarrow> name)"

section \<open>The parser\<close>

record ElfHeader =
  eh_type :: u16
  eh_machine :: u16
  eh_entry :: u64
  eh_program_offset :: u64
  eh_section_offset :: u64
  eh_flags :: u32
  eh_program_entry_size :: u16
  eh_program_count :: u16
  eh_section_entry_size :: u16
  eh_section_count :: u16
  eh_names_index :: u16

definition or_truncated :: "'a read \<Rightarrow> (Error, 'a) parse" where
  "or_truncated p = on_fail p (\<lambda>r. mk_error truncated (rd_position r) ''ELF structure is truncated'')"

definition read_address :: "bool \<Rightarrow> u64 read" where
  "read_address is_wide = (if is_wide then read_u64 else pbind read_u32 (\<lambda>v. preturn (ucast v)))"

definition read_elf_header :: "bool \<Rightarrow> (Error, ElfHeader) parse" where
  "read_elf_header is_wide =
    pbind (on_fail (rd_seek 16) (\<lambda>_. no_error)) (\<lambda>_.
    pbind (on_fail
      (pbind read_u16 (\<lambda>type. pbind read_u16 (\<lambda>machine. pbind read_u32 (\<lambda>version.
       pbind (pcheck (\<lambda>_. version = 1)) (\<lambda>_. preturn (type, machine))))))
      (\<lambda>_. mk_error invalid_header 16 ''invalid ELF common header'')) (\<lambda>(type, machine).
    or_truncated
      (pbind (read_address is_wide) (\<lambda>entry. pbind (read_address is_wide) (\<lambda>program_offset.
       pbind (read_address is_wide) (\<lambda>section_offset.
       pbind read_u32 (\<lambda>flags. pbind read_u16 (\<lambda>header_size.
       pbind read_u16 (\<lambda>program_entry_size. pbind read_u16 (\<lambda>program_count.
       pbind read_u16 (\<lambda>section_entry_size. pbind read_u16 (\<lambda>section_count.
       pbind read_u16 (\<lambda>names_index.
       preturn \<lparr>eh_type = type, eh_machine = machine, eh_entry = entry,
         eh_program_offset = program_offset, eh_section_offset = section_offset, eh_flags = flags,
         eh_program_entry_size = program_entry_size, eh_program_count = program_count,
         eh_section_entry_size = section_entry_size, eh_section_count = section_count,
         eh_names_index = names_index\<rparr>)))))))))))))"

text \<open>\<open>checked_multiply\<close>, \<open>range_inside\<close> and the smallest entry size, as both tables are checked.\<close>

definition table_fits :: "u16 \<Rightarrow> u16 \<Rightarrow> u64 \<Rightarrow> u64 \<Rightarrow> u16 \<Rightarrow> bool" where
  "table_fits entry_size count offset file_size minimum \<longleftrightarrow>
    (case checked_multiply (ucast entry_size) (ucast count) of
       None \<Rightarrow> False
     | Some table_bytes \<Rightarrow>
         range_inside offset table_bytes file_size \<and> \<not> (count \<noteq> 0 \<and> entry_size < minimum))"

definition read_raw_section :: "u64 \<Rightarrow> bool \<Rightarrow> u64 \<Rightarrow> (Error, RawSection) parse" where
  "read_raw_section file_size is_wide at =
    pbind (or_truncated (pbind (rd_seek at) (\<lambda>_. read_section is_wide))) (\<lambda>s.
    pbind (pguard (\<lambda>_. \<not> (raw_type s \<noteq> 8 \<and> \<not> range_inside (raw_offset s) (raw_size s) file_size))
      (\<lambda>_. mk_error file_range_overflow (raw_offset s) ''ELF section data is outside file'')) (\<lambda>_.
    preturn s))"

definition elf_header_of :: "bool \<Rightarrow> ByteOrder \<Rightarrow> ElfHeader \<Rightarrow> FileHeader" where
  "elf_header_of is_wide order h =
    \<lparr>hdr_format = elf_like, hdr_word_size = (if is_wide then bits64 else bits32),
     hdr_byte_order = order, hdr_kind = elf_binary_kind (eh_type h),
     hdr_architecture = elf_arch (eh_machine h), hdr_entry_point = eh_entry h, hdr_image_base = 0,
     hdr_section_table_offset = eh_section_offset h, hdr_segment_table_offset = eh_program_offset h,
     hdr_section_count = ucast (eh_section_count h), hdr_segment_count = ucast (eh_program_count h),
     hdr_flags = eh_flags h\<rparr>"

definition elf_section :: "Limits \<Rightarrow> bytes \<Rightarrow> u16 \<Rightarrow> RawSection list \<Rightarrow> nat \<Rightarrow> Section" where
  "elf_section limits data names_index raws i =
    (let s = raws ! i;
         name = (if unat names_index < length raws
                 then name_in data (raws ! unat names_index) (raw_name s) (max_string_bytes limits) else []) in
     \<lparr>sec_index = of_nat i, sec_name = name, sec_kind = elf_section_kind (raw_type s) name,
      sec_file_offset = raw_offset s, sec_file_size = raw_size s, sec_virtual_address = raw_address s,
      sec_memory_size = raw_size s,
      sec_alignment = (if raw_alignment s \<noteq> 0 then raw_alignment s else 1),
      sec_entry_size = raw_entry_size s, sec_link = raw_link s, sec_info = raw_info s,
      sec_permissions = permission_read OR (if raw_flags s AND 1 \<noteq> 0 then permission_write else 0)
        OR (if raw_flags s AND 4 \<noteq> 0 then permission_execute else 0)\<rparr>)"

text \<open>The fields of a program header: type, flags, offset, address, file size, memory size, alignment.\<close>

definition read_program_header ::
    "bool \<Rightarrow> (u32 \<times> u32 \<times> u64 \<times> u64 \<times> u64 \<times> u64 \<times> u64) read" where
  "read_program_header is_wide =
    pbind read_u32 (\<lambda>kind.
    if is_wide then
      pbind read_u32 (\<lambda>pflags. pbind read_u64 (\<lambda>offset. pbind read_u64 (\<lambda>address.
      pbind read_u64 (\<lambda>physical. pbind read_u64 (\<lambda>file_size. pbind read_u64 (\<lambda>memory_size.
      pbind read_u64 (\<lambda>alignment.
      preturn (kind, pflags, offset, address, file_size, memory_size, alignment))))))))
    else
      pbind read_u32 (\<lambda>offset. pbind read_u32 (\<lambda>address. pbind read_u32 (\<lambda>physical.
      pbind read_u32 (\<lambda>file_size. pbind read_u32 (\<lambda>memory_size. pbind read_u32 (\<lambda>pflags.
      pbind read_u32 (\<lambda>alignment.
      preturn (kind, pflags, ucast offset, ucast address, ucast file_size, ucast memory_size,
        ucast alignment)))))))))"

definition segment_permissions :: "u32 \<Rightarrow> u8" where
  "segment_permissions pflags =
    (if pflags AND 4 \<noteq> 0 then permission_read else 0) OR
    (if pflags AND 2 \<noteq> 0 then permission_write else 0) OR
    (if pflags AND 1 \<noteq> 0 then permission_execute else 0)"

text \<open>Only load segments are kept, under the index of their program header.\<close>

definition read_segment :: "u64 \<Rightarrow> bool \<Rightarrow> u64 \<Rightarrow> nat \<Rightarrow> (Error, Segment list) parse" where
  "read_segment data_size is_wide at i =
    pbind (rd_try_seek at) (\<lambda>_.
    pbind (or_truncated (read_program_header is_wide))
      (\<lambda>(kind, pflags, offset, address, file_size, memory_size, alignment).
    if kind \<noteq> 1 then preturn []
    else pbind (pguard (\<lambda>_. \<not> (file_size > memory_size \<or> \<not> range_inside offset file_size data_size))
      (\<lambda>_. mk_error invalid_segment offset ''ELF load segment range is invalid'')) (\<lambda>_.
    preturn [\<lparr>seg_index = of_nat i, seg_file_offset = offset, seg_file_size = file_size,
      seg_virtual_address = address, seg_memory_size = memory_size, seg_alignment = alignment,
      seg_permissions = segment_permissions pflags, seg_sections = []\<rparr>])))"

text \<open>The fields of a symbol: name, info, other, section, value, size.\<close>

definition read_symbol :: "bool \<Rightarrow> (u32 \<times> u8 \<times> u8 \<times> u16 \<times> u64 \<times> u64) read" where
  "read_symbol is_wide =
    pbind read_u32 (\<lambda>name.
    if is_wide then
      pbind read_u8 (\<lambda>info. pbind read_u8 (\<lambda>other. pbind read_u16 (\<lambda>shndx.
      pbind read_u64 (\<lambda>value. pbind read_u64 (\<lambda>len.
      preturn (name, info, other, shndx, value, len))))))
    else
      pbind read_u32 (\<lambda>value. pbind read_u32 (\<lambda>len. pbind read_u8 (\<lambda>info.
      pbind read_u8 (\<lambda>other. pbind read_u16 (\<lambda>shndx.
      preturn (name, info, other, shndx, ucast value, ucast len)))))))"

definition read_elf_symbol ::
    "Limits \<Rightarrow> bytes \<Rightarrow> bool \<Rightarrow> RawSection \<Rightarrow> u64 \<Rightarrow> nat \<Rightarrow> (Error, Symbol) parse" where
  "read_elf_symbol limits data is_wide strings at index =
    pbind (rd_try_seek at) (\<lambda>_.
    pbind (or_truncated (read_symbol is_wide)) (\<lambda>(name, info, other, shndx, value, len).
    preturn \<lparr>sym_index = of_nat index, sym_name = name_in data strings name (max_string_bytes limits),
      sym_binding = elf_binding info shndx, sym_kind = elf_symbol_kind info,
      sym_section_index = ucast shndx, sym_value = value, sym_size = len,
      sym_visibility = other AND 3, sym_library = []\<rparr>))"

text \<open>The symbol tables among the sections from \<open>raws'\<close> on; \<open>symbols\<close> are those read before.\<close>

fun read_symbol_tables ::
    "Limits \<Rightarrow> bytes \<Rightarrow> bool \<Rightarrow> RawSection list \<Rightarrow> RawSection list \<Rightarrow> Symbol list \<Rightarrow>
     (Error, Symbol list) parse" where
  "read_symbol_tables limits data is_wide raws [] symbols = preturn symbols"
| "read_symbol_tables limits data is_wide raws (s # rest) symbols =
    (if raw_type s \<noteq> 2 \<and> raw_type s \<noteq> 11 \<or> raw_entry_size s = 0 \<or> unat (raw_link s) \<ge> length raws
     then read_symbol_tables limits data is_wide raws rest symbols
     else let count = raw_size s div raw_entry_size s in
       pbind (pguard (\<lambda>_. \<not> count > ucast (max_symbols limits))
         (\<lambda>_. mk_error resource_limit (raw_offset s) ''ELF symbol limit'')) (\<lambda>_.
       pbind (pfor 0 (unat count) (\<lambda>j. read_elf_symbol limits data is_wide (raws ! unat (raw_link s))
           (raw_offset s + of_nat j * raw_entry_size s) (length symbols + j))) (\<lambda>more.
       read_symbol_tables limits data is_wide raws rest (symbols @ more))))"

definition relocation_options :: "FileHeader \<Rightarrow> Section list \<Rightarrow> RawSection \<Rightarrow> RelocationDecodeOptions" where
  "relocation_options h sections s =
    \<lparr>dec_architecture = hdr_architecture h, dec_word_size = hdr_word_size h,
     dec_byte_order = hdr_byte_order h, dec_target_section = raw_info s,
     dec_base_address = (if hdr_kind h = relocatable \<and> unat (raw_info s) < length sections
       then sec_virtual_address (sections ! unat (raw_info s)) else 0),
     dec_entry_size = raw_entry_size s, dec_explicit_addends = (raw_type s = 4)\<rparr>"

fun read_relocation_tables ::
    "Limits \<Rightarrow> bytes \<Rightarrow> FileHeader \<Rightarrow> Section list \<Rightarrow> RawSection list \<Rightarrow> Relocation list \<Rightarrow>
     Error + Relocation list" where
  "read_relocation_tables limits data h sections [] relocs = Inr relocs"
| "read_relocation_tables limits data h sections (s # rest) relocs =
    (if raw_type s \<noteq> 4 \<and> raw_type s \<noteq> 9 \<or> raw_size s = 0
     then read_relocation_tables limits data h sections rest relocs
     else case decode_elf limits (Some (take (unat (raw_size s)) (drop (unat (raw_offset s)) data)))
         (raw_size s) (relocation_options h sections s) relocs of
       (Inl e, _) \<Rightarrow> Inl e
     | (Inr _, relocs') \<Rightarrow> read_relocation_tables limits data h sections rest relocs')"

definition elf_body :: "Limits \<Rightarrow> bytes \<Rightarrow> bool \<Rightarrow> ByteOrder \<Rightarrow> (Error, BinaryImage) parse" where
  "elf_body limits data is_wide order =
    (let file_size = of_nat (length data) in
    pbind (read_elf_header is_wide) (\<lambda>h.
    pbind (pguard (\<lambda>_. \<not> (ucast (eh_section_count h) > max_sections limits \<or>
        ucast (eh_program_count h) > max_segments limits))
      (\<lambda>_. mk_error resource_limit 0 ''ELF table count exceeds limits'')) (\<lambda>_.
    pbind (pguard (\<lambda>_. table_fits (eh_section_entry_size h) (eh_section_count h) (eh_section_offset h)
        file_size (if is_wide then 64 else 40))
      (\<lambda>_. mk_error invalid_section (eh_section_offset h) ''ELF section table is invalid'')) (\<lambda>_.
    pbind (pfor 0 (unat (eh_section_count h)) (\<lambda>i. read_raw_section file_size is_wide
      (eh_section_offset h + of_nat i * ucast (eh_section_entry_size h)))) (\<lambda>raws.
    let header = elf_header_of is_wide order h;
        sections = map (elf_section limits data (eh_names_index h) raws) [0..<length raws] in
    pbind (pguard (\<lambda>_. table_fits (eh_program_entry_size h) (eh_program_count h) (eh_program_offset h)
        file_size (if is_wide then 56 else 32))
      (\<lambda>_. mk_error invalid_segment (eh_program_offset h) ''ELF program table is invalid'')) (\<lambda>_.
    pbind (pfor 0 (unat (eh_program_count h)) (\<lambda>i. read_segment file_size is_wide
      (eh_program_offset h + of_nat i * ucast (eh_program_entry_size h)) i)) (\<lambda>segments.
    pbind (read_symbol_tables limits data is_wide raws raws []) (\<lambda>symbols.
    pbind (plift (read_relocation_tables limits data header sections raws [])) (\<lambda>relocs.
    preturn (empty_image\<lparr>img_header := header, img_sections := sections,
      img_segments := concat segments, img_symbols := symbols, img_relocations := relocs,
      img_file_data := Some data\<rparr>))))))))))"

definition elf_parse :: "Limits \<Rightarrow> bytes option \<Rightarrow> Error + BinaryImage" where
  "elf_parse limits input =
    (case input of
       None \<Rightarrow> Inl (mk_error truncated 0 ''ELF identification is truncated'')
     | Some data \<Rightarrow>
         if length data < 52 \<or> data ! 4 < 1 \<or> data ! 4 > 2
         then Inl (mk_error truncated 0 ''ELF identification is truncated'')
         else let is_wide = (data ! 4 = 2) in
           if data ! 5 = 1 then fst (elf_body limits data is_wide little (reader_of data little))
           else if data ! 5 = 2 then fst (elf_body limits data is_wide big (reader_of data big))
           else Inl (mk_error unsupported_endian 5 ''invalid ELF encoding''))"

end
