(* ===== verification/Pe_Parser.thy ===== *)
theory Pe_Parser
  imports Elf_Parser Symbol_Index
begin

unbundle bit_operations_syntax

text \<open>
  \<open>PeParser\<close> of \<open>src/pe_parser.cc\<close>: the DOS stub, the file and optional headers, the section table with
  one segment per section, the COFF symbol table and the base relocations, with every error of the source
  in its order. Where the source returns no image and leaves the error alone, the error is \<open>no_error\<close>, as
  its caller has cleared it.
\<close>

section \<open>Vocabulary of the format\<close>

definition pe_arch :: "u16 \<Rightarrow> Architecture" where
  "pe_arch machine =
    (if machine = 0x14c then x86 else if machine = 0x8664 then x86_64
     else if machine = 0x1c0 \<or> machine = 0x1c4 then arm else if machine = 0xaa64 then arm64
     else if machine = 0x5032 then riscv32 else if machine = 0x5064 then riscv64 else arch_unknown)"

definition pe_permissions :: "u32 \<Rightarrow> u8" where
  "pe_permissions flags =
    (if flags AND 0x40000000 \<noteq> 0 then permission_read else 0) OR
    (if flags AND 0x80000000 \<noteq> 0 then permission_write else 0) OR
    (if flags AND 0x20000000 \<noteq> 0 then permission_execute else 0)"

definition pe_section_kind :: "string \<Rightarrow> u32 \<Rightarrow> SectionKind" where
  "pe_section_kind name flags =
    (if debug_name name then debug
     else if name = ''.idata'' then import_section else if name = ''.edata'' then export_section
     else if name = ''.reloc'' then relocations else if name = ''.rsrc'' then resources
     else if flags AND 0x80 \<noteq> 0 then no_bits else program_bits)"

section \<open>Headers\<close>

record PeHeader =
  ph_machine :: u16
  ph_sections :: u16
  ph_symbol_offset :: u32
  ph_symbol_count :: u32
  ph_optional_size :: u16
  ph_characteristics :: u16

record PeOptional =
  po_wide :: bool
  po_entry :: u32
  po_image_base :: u64
  po_section_alignment :: u32

text \<open>A read or seek that ends the parse without an error of its own.\<close>

definition without_error :: "'a read \<Rightarrow> (Error, 'a) parse" where
  "without_error p = on_fail p (\<lambda>_. no_error)"

definition pe_pointer :: "u64 \<Rightarrow> (Error, u32) parse" where
  "pe_pointer file_size =
    pbind (on_fail (rd_seek 0x3c) (\<lambda>_. mk_error truncated 0x3c ''missing PE pointer'')) (\<lambda>_.
    on_fail (pbind read_u32 (\<lambda>peoff. pbind (pcheck (\<lambda>_. range_inside (ucast peoff) 24 file_size)) (\<lambda>_. preturn peoff)))
      (\<lambda>_. mk_error invalid_offset 0x3c ''PE header offset outside file''))"

definition read_pe_header :: "Limits \<Rightarrow> u32 \<Rightarrow> (Error, PeHeader) parse" where
  "read_pe_header limits peoff =
    pbind (rd_try_seek (ucast peoff)) (\<lambda>_.
    pbind (on_fail
      (pbind read_u32 (\<lambda>signature. pbind (pcheck (\<lambda>_. signature = 0x00004550)) (\<lambda>_.
       pbind read_u16 (\<lambda>machine. pbind read_u16 (\<lambda>sections. pbind read_u32 (\<lambda>timestamp.
       pbind read_u32 (\<lambda>symbol_offset. pbind read_u32 (\<lambda>symbol_count.
       pbind read_u16 (\<lambda>optional_size. pbind read_u16 (\<lambda>characteristics.
       preturn \<lparr>ph_machine = machine, ph_sections = sections, ph_symbol_offset = symbol_offset,
         ph_symbol_count = symbol_count, ph_optional_size = optional_size,
         ph_characteristics = characteristics\<rparr>))))))))))
      (\<lambda>_. mk_error invalid_header (ucast peoff) ''truncated PE file header'')) (\<lambda>h.
    pbind (pguard (\<lambda>_. \<not> ucast (ph_sections h) > max_sections limits)
      (\<lambda>_. mk_error resource_limit (ucast peoff) ''PE section count limit'')) (\<lambda>_. preturn h)))"

definition read_image_base :: "bool \<Rightarrow> u64 read" where
  "read_image_base is_wide =
    (if is_wide then read_u64
     else pbind read_u32 (\<lambda>data_base. pbind read_u32 (\<lambda>base. preturn (ucast base))))"

text \<open>\<open>peoff + 24\<close> is 32-bit arithmetic in the source.\<close>

definition optional_offset :: "u32 \<Rightarrow> u64" where
  "optional_offset peoff = ucast (peoff + 24)"

definition read_pe_optional :: "u64 \<Rightarrow> u64 \<Rightarrow> u16 \<Rightarrow> (Error, PeOptional) parse" where
  "read_pe_optional file_size optional optional_size =
    pbind (pguard (\<lambda>_. range_inside optional (ucast optional_size) file_size)
      (\<lambda>_. mk_error truncated optional ''PE optional header truncated'')) (\<lambda>_.
    pbind (rd_try_seek optional) (\<lambda>_.
    pbind (on_fail (pbind read_u16 (\<lambda>magic. pbind (pcheck (\<lambda>_. magic = 0x10b \<or> magic = 0x20b)) (\<lambda>_. preturn magic)))
      (\<lambda>_. mk_error unsupported_class optional ''unknown PE optional header'')) (\<lambda>magic.
    pbind (on_fail
      (pbind read_u8 (\<lambda>linker_major. pbind read_u8 (\<lambda>linker_minor. pbind read_u32 (\<lambda>code_size.
       pbind read_u32 (\<lambda>initialized. pbind read_u32 (\<lambda>uninitialized. pbind read_u32 (\<lambda>entry.
       pbind read_u32 (\<lambda>code_base. preturn entry))))))))
      (\<lambda>r. mk_error truncated (rd_position r) ''PE optional header fields truncated'')) (\<lambda>entry.
    pbind (without_error (read_image_base (magic = 0x20b))) (\<lambda>image_base.
    pbind (on_fail
      (pbind read_u32 (\<lambda>section_alignment. pbind read_u32 (\<lambda>file_alignment.
       pbind (pcheck (\<lambda>_. section_alignment \<noteq> 0 \<and> file_alignment \<noteq> 0)) (\<lambda>_. preturn section_alignment))))
      (\<lambda>r. mk_error invalid_alignment (rd_position r) ''invalid PE alignment'')) (\<lambda>section_alignment.
    preturn \<lparr>po_wide = (magic = 0x20b), po_entry = entry, po_image_base = image_base,
      po_section_alignment = section_alignment\<rparr>))))))"

definition pe_table_fits :: "u64 \<Rightarrow> u64 \<Rightarrow> u16 \<Rightarrow> bool" where
  "pe_table_fits file_size section_table sections \<longleftrightarrow>
    (case checked_multiply (ucast sections) 40 of
       None \<Rightarrow> False | Some table_bytes \<Rightarrow> range_inside section_table table_bytes file_size)"

definition pe_header_of :: "PeHeader \<Rightarrow> PeOptional \<Rightarrow> u64 \<Rightarrow> FileHeader" where
  "pe_header_of h opt section_table =
    \<lparr>hdr_format = pe_like, hdr_word_size = (if po_wide opt then bits64 else bits32), hdr_byte_order = little,
     hdr_kind = (if ph_characteristics h AND 0x2000 \<noteq> 0 then shared_library else executable),
     hdr_architecture = pe_arch (ph_machine h), hdr_entry_point = po_image_base opt + ucast (po_entry opt),
     hdr_image_base = po_image_base opt, hdr_section_table_offset = section_table,
     hdr_segment_table_offset = 0, hdr_section_count = ucast (ph_sections h), hdr_segment_count = 0,
     hdr_flags = ucast (ph_characteristics h)\<rparr>"

section \<open>Sections\<close>

text \<open>Virtual size, address, raw size, raw offset and flags; the two counts are read as 32-bit values.\<close>

definition pe_section_fields :: "(u32 \<times> u32 \<times> u32 \<times> u32 \<times> u32) read" where
  "pe_section_fields =
    pbind read_u32 (\<lambda>virtual_size. pbind read_u32 (\<lambda>rva. pbind read_u32 (\<lambda>raw_len. pbind read_u32 (\<lambda>raw_at.
    pbind read_u32 (\<lambda>reloc. pbind read_u32 (\<lambda>line. pbind read_u32 (\<lambda>reloc_count. pbind read_u32 (\<lambda>line_count.
    pbind read_u32 (\<lambda>flags. preturn (virtual_size, rva, raw_len, raw_at, flags))))))))))"

definition read_pe_section :: "u64 \<Rightarrow> u64 \<Rightarrow> u32 \<Rightarrow> nat \<Rightarrow> (Error, Section) parse" where
  "read_pe_section file_size section_table alignment i =
    pbind (rd_try_seek (section_table + of_nat i * 40)) (\<lambda>_.
    pbind (without_error (read_fixed_string 8)) (\<lambda>name.
    pbind (on_fail pe_section_fields (\<lambda>r. mk_error truncated (rd_position r) ''PE section header truncated''))
      (\<lambda>(virtual_size, rva, raw_len, raw_at, flags).
    pbind (pguard (\<lambda>_. \<not> (raw_len \<noteq> 0 \<and> \<not> range_inside (ucast raw_at) (ucast raw_len) file_size))
      (\<lambda>_. mk_error file_range_overflow (ucast raw_at) ''PE section outside file'')) (\<lambda>_.
    preturn \<lparr>sec_index = of_nat i, sec_name = name, sec_kind = pe_section_kind name flags,
      sec_file_offset = ucast raw_at, sec_file_size = ucast raw_len, sec_virtual_address = ucast rva,
      sec_memory_size = max (ucast virtual_size) (ucast raw_len), sec_alignment = ucast alignment,
      sec_entry_size = 0, sec_link = 0, sec_info = 0, sec_permissions = pe_permissions flags\<rparr>))))"

definition section_segment :: "Section \<Rightarrow> Segment" where
  "section_segment s =
    \<lparr>seg_index = sec_index s, seg_file_offset = sec_file_offset s, seg_file_size = sec_file_size s,
     seg_virtual_address = sec_virtual_address s, seg_memory_size = sec_memory_size s,
     seg_alignment = sec_alignment s, seg_permissions = sec_permissions s, seg_sections = [sec_index s]\<rparr>"

section \<open>Symbols\<close>

text \<open>
  A read whose result the source ignores. The range of the symbol table is checked before, so none of
  them fails; \<open>d\<close> stands for the variable as it was.
\<close>

definition read_or :: "'a \<Rightarrow> 'a read \<Rightarrow> ('e, 'a) parse" where
  "read_or d p r = (case p r of (Inl _, r') \<Rightarrow> (Inr d, r') | (Inr v, r') \<Rightarrow> (Inr v, r'))"

definition u32_at :: "u64 \<Rightarrow> (Error, u32) parse" where
  "u32_at at = pbind (rd_try_seek at) (\<lambda>_. read_or 0 read_u32)"

definition pe_symbol_name :: "bytes \<Rightarrow> u64 \<Rightarrow> u32 \<Rightarrow> u64 \<Rightarrow> (Error, string) parse" where
  "pe_symbol_name data string_base string_size at =
    pbind (rd_try_seek at) (\<lambda>_. pbind (read_or 0 read_u32) (\<lambda>zero. pbind (read_or 0 read_u32) (\<lambda>name_offset.
    if zero = 0 \<and> name_offset < string_size then
      preturn (case read_c_string (reader_of data little) (string_base + ucast name_offset)
                 (ucast (string_size - name_offset)) of None \<Rightarrow> [] | Some name \<Rightarrow> name)
    else pbind (rd_try_seek at) (\<lambda>_. read_or [] (read_fixed_string 8)))))"

definition read_pe_symbol :: "bytes \<Rightarrow> u64 \<Rightarrow> u32 \<Rightarrow> u64 \<Rightarrow> nat \<Rightarrow> (Error, Symbol \<times> u8) parse" where
  "read_pe_symbol data string_base string_size at index =
    pbind (pe_symbol_name data string_base string_size at) (\<lambda>name.
    pbind (read_or 0 read_u32) (\<lambda>v. pbind (read_or 0 read_u16) (\<lambda>section_index.
    pbind (read_or 0 read_u16) (\<lambda>type. pbind (read_or 0 read_u8) (\<lambda>storage. pbind (read_or 0 read_u8) (\<lambda>aux.
    preturn (\<lparr>sym_index = of_nat index, sym_name = name,
      sym_binding = (if storage = 2 then global else local_binding),
      sym_kind = (if type AND 0x20 \<noteq> 0 then function_symbol else symbol_unknown),
      sym_section_index = ucast section_index, sym_value = ucast v, sym_size = 0, sym_visibility = 0,
      sym_library = []\<rparr>, aux)))))))"

text \<open>Auxiliary records are skipped; a symbol that claims more of them than are left ends the table.\<close>

function read_pe_symbols ::
    "bytes \<Rightarrow> u64 \<Rightarrow> u64 \<Rightarrow> u32 \<Rightarrow> nat \<Rightarrow> nat \<Rightarrow> Symbol list \<Rightarrow> (Error, Symbol list) parse" where
  "read_pe_symbols data symbol_offset string_base string_size count i symbols r =
    (if i < count then
       case read_pe_symbol data string_base string_size (symbol_offset + of_nat i * 18) (length symbols) r of
         (Inl e, r') \<Rightarrow> (Inl e, r')
       | (Inr (symbol, aux), r') \<Rightarrow>
         let step = unat aux + 1 in
         if step > count - i then (Inr (symbols @ [symbol]), r')
         else read_pe_symbols data symbol_offset string_base string_size count (i + step) (symbols @ [symbol]) r'
     else (Inr symbols, r))"
  by pat_completeness auto
termination
  by (relation "measure (\<lambda>(data, symbol_offset, string_base, string_size, count, i, symbols, r). count - i)") auto

declare read_pe_symbols.simps [simp del]

definition pe_symbols :: "Limits \<Rightarrow> bytes \<Rightarrow> PeHeader \<Rightarrow> (Error, Symbol list) parse" where
  "pe_symbols limits data h =
    (let file_size = of_nat (length data); count = ph_symbol_count h; offset = ucast (ph_symbol_offset h);
         table = ucast count * 18; string_base = offset + table in
     if count \<noteq> 0 \<and> count \<le> max_symbols limits \<and> range_inside offset table file_size then
       pbind (if range_inside string_base 4 file_size
              then u32_at string_base else preturn 0) (\<lambda>string_size.
       read_pe_symbols data offset string_base string_size (unat count) 0 [])
     else preturn [])"

section \<open>Base relocations\<close>

text \<open>The address and size in entry 5 of the directory table at \<open>table_at\<close>, or zeros when it has none.\<close>

definition directory_has :: "u32 \<Rightarrow> u64 \<Rightarrow> u64 \<Rightarrow> bool" where
  "directory_has raw_count table_at table_end =
    (let directory_count = min raw_count 16 in
     directory_count > 5 \<and> range_inside table_at (ucast directory_count * 8) table_end)"

definition read_directory :: "u64 \<Rightarrow> u64 \<Rightarrow> u64 \<Rightarrow> (Error, u32 \<times> u32) parse" where
  "read_directory count_at table_at table_end =
    pbind (u32_at count_at) (\<lambda>raw_count.
    if directory_has raw_count table_at table_end then
      pbind (u32_at (table_at + 5 * 8)) (\<lambda>rva. pbind (read_or 0 read_u32) (\<lambda>len. preturn (rva, len)))
    else preturn (0, 0))"

definition relocation_directory :: "bytes \<Rightarrow> u64 \<Rightarrow> u16 \<Rightarrow> bool \<Rightarrow> (Error, u32 \<times> u32) parse" where
  "relocation_directory data optional optional_size is_wide =
    (let count_at = optional + (if is_wide then 108 else 92); table_at = optional + (if is_wide then 112 else 96) in
     if range_inside count_at 4 (of_nat (length data))
     then read_directory count_at table_at (optional + ucast optional_size) else preturn (0, 0))"

definition pe_relocations :: "Limits \<Rightarrow> bytes \<Rightarrow> BinaryImage \<Rightarrow> u32 \<Rightarrow> u32 \<Rightarrow> Error + Relocation list" where
  "pe_relocations limits data img rva len =
    (if len = 0 then Inr []
     else case rva_to_file img (ucast rva) (ucast len) of
       None \<Rightarrow> Inl (mk_error invalid_relocation (ucast rva) ''PE base-relocation directory is outside file data'')
     | Some at \<Rightarrow>
       if \<not> range_inside (fa_offset at) (ucast len) (of_nat (length data))
       then Inl (mk_error invalid_relocation (ucast rva) ''PE base-relocation directory is outside file data'')
       else case decode_pe_base limits (Some (take (unat len) (drop (unat (fa_offset at)) data))) (ucast len)
           (hdr_image_base (img_header img)) [] of
         (Inl e, _) \<Rightarrow> Inl e | (Inr _, relocs) \<Rightarrow> Inr relocs)"

section \<open>The parser\<close>

definition pe_body :: "Limits \<Rightarrow> bytes \<Rightarrow> (Error, BinaryImage) parse" where
  "pe_body limits data =
    (let file_size = of_nat (length data) in
    pbind (pe_pointer file_size) (\<lambda>peoff.
    pbind (read_pe_header limits peoff) (\<lambda>h.
    let optional = optional_offset peoff in
    pbind (read_pe_optional file_size optional (ph_optional_size h)) (\<lambda>opt.
    let section_table = optional + ucast (ph_optional_size h) in
    pbind (pguard (\<lambda>_. pe_table_fits file_size section_table (ph_sections h))
      (\<lambda>_. mk_error invalid_section section_table ''PE section table outside file'')) (\<lambda>_.
    pbind (pfor 0 (unat (ph_sections h)) (read_pe_section file_size section_table (po_section_alignment opt)))
      (\<lambda>sections.
    pbind (pe_symbols limits data h) (\<lambda>symbols.
    pbind (relocation_directory data optional (ph_optional_size h) (po_wide opt)) (\<lambda>(rva, len).
    let img = empty_image\<lparr>img_header := pe_header_of h opt section_table, img_sections := sections,
          img_segments := map section_segment sections, img_symbols := symbols, img_file_data := Some data\<rparr> in
    pbind (plift (pe_relocations limits data img rva len)) (\<lambda>relocs.
    preturn (img\<lparr>img_relocations := relocs\<rparr>))))))))))"

definition pe_parse :: "Limits \<Rightarrow> bytes option \<Rightarrow> Error + BinaryImage" where
  "pe_parse limits input =
    (case (case input of None \<Rightarrow> None
           | Some data \<Rightarrow> if length data < 64 \<or> data ! 0 \<noteq> 0x4d \<or> data ! 1 \<noteq> 0x5a then None else Some data) of
       None \<Rightarrow> Inl (mk_error bad_magic 0 ''invalid DOS signature'')
     | Some data \<Rightarrow> fst (pe_body limits data (reader_of data little)))"

end
