(* ===== verification/Macho_Parser.thy ===== *)
theory Macho_Parser
  imports Pe_Parser
begin

unbundle bit_operations_syntax

text \<open>
  \<open>MachOParser\<close> of \<open>src/macho_parser.cc\<close>: the header, the load commands, and of the segment commands
  (32 and 64 bit) the segment, its sections and their relocation tables. A command of another kind is
  passed over by its size. As in the other parsers an early return that sets no error is \<open>no_error\<close>.
\<close>

section \<open>Vocabulary of the format\<close>

definition macho_arch :: "u32 \<Rightarrow> Architecture" where
  "macho_arch cpu =
    (if cpu = 7 then x86 else if cpu = 0x01000007 then x86_64 else if cpu = 12 then arm
     else if cpu = 0x0100000c then arm64 else arch_unknown)"

definition macho_binary_kind :: "u32 \<Rightarrow> BinaryKind" where
  "macho_binary_kind k =
    (if k = 1 then relocatable else if k = 2 then executable else if k = 4 then core
     else if k = 6 \<or> k = 8 then shared_library else kind_unknown)"

definition macho_protection :: "u32 \<Rightarrow> u8" where
  "macho_protection p =
    (if p AND 1 \<noteq> 0 then permission_read else 0) OR
    (if p AND 2 \<noteq> 0 then permission_write else 0) OR
    (if p AND 4 \<noteq> 0 then permission_execute else 0)"

section \<open>The header\<close>

record MachHeader =
  mh_cpu :: u32
  mh_file_type :: u32
  mh_command_count :: u32
  mh_command_bytes :: u32
  mh_flags :: u32

definition mach_magic :: "bytes \<Rightarrow> u32" where
  "mach_magic data = ucast (data ! 0) OR push_bit 8 (ucast (data ! 1)) OR push_bit 16 (ucast (data ! 2))
     OR push_bit 24 (ucast (data ! 3))"

definition mach_wide :: "u32 \<Rightarrow> bool" where
  "mach_wide raw \<longleftrightarrow> raw = 0xfeedfacf \<or> raw = 0xcffaedfe"

definition mach_order :: "u32 \<Rightarrow> ByteOrder" where
  "mach_order raw = (if raw = 0xcefaedfe \<or> raw = 0xcffaedfe then big else little)"

definition mach_known :: "u32 \<Rightarrow> bool" where
  "mach_known raw \<longleftrightarrow> raw = 0xfeedface \<or> raw = 0xfeedfacf \<or> raw = 0xcefaedfe \<or> raw = 0xcffaedfe"

definition commands_offset :: "bool \<Rightarrow> u64" where
  "commands_offset is_wide = (if is_wide then 32 else 28)"

definition read_mach_header :: "bool \<Rightarrow> (Error, MachHeader) parse" where
  "read_mach_header is_wide = on_fail
    (pbind read_u32 (\<lambda>magic. pbind read_u32 (\<lambda>cpu. pbind read_u32 (\<lambda>subcpu. pbind read_u32 (\<lambda>file_type.
     pbind read_u32 (\<lambda>command_count. pbind read_u32 (\<lambda>command_bytes. pbind read_u32 (\<lambda>flags.
     pbind (if is_wide then read_u32 else preturn 0) (\<lambda>reserved.
     preturn \<lparr>mh_cpu = cpu, mh_file_type = file_type, mh_command_count = command_count,
       mh_command_bytes = command_bytes, mh_flags = flags\<rparr>)))))))))
    (\<lambda>_. mk_error truncated 0 ''Mach-O header truncated'')"

definition mach_header_of :: "bool \<Rightarrow> ByteOrder \<Rightarrow> MachHeader \<Rightarrow> FileHeader" where
  "mach_header_of is_wide order h =
    \<lparr>hdr_format = macho_like, hdr_word_size = (if is_wide then bits64 else bits32), hdr_byte_order = order,
     hdr_kind = macho_binary_kind (mh_file_type h), hdr_architecture = macho_arch (mh_cpu h),
     hdr_entry_point = 0, hdr_image_base = 0, hdr_section_table_offset = 0,
     hdr_segment_table_offset = commands_offset is_wide, hdr_section_count = 0,
     hdr_segment_count = mh_command_count h, hdr_flags = mh_flags h\<rparr>"

section \<open>Sections\<close>

text \<open>What the load commands have added to the image so far.\<close>

record MachImage =
  mi_sections :: "Section list"
  mi_segments :: "Segment list"
  mi_relocations :: "Relocation list"

record MachSection =
  ms_name :: string
  ms_address :: u64
  ms_size :: u64
  ms_offset :: u32
  ms_align :: u32
  ms_reloff :: u32
  ms_nreloc :: u32
  ms_flags :: u32

definition read_mach_section :: "bool \<Rightarrow> MachSection read" where
  "read_mach_section segment64 =
    pbind (read_fixed_string 16) (\<lambda>name. pbind (read_fixed_string 16) (\<lambda>parent.
    pbind (read_address segment64) (\<lambda>addr. pbind (read_address segment64) (\<lambda>sz.
    pbind read_u32 (\<lambda>offset. pbind read_u32 (\<lambda>align. pbind read_u32 (\<lambda>reloff. pbind read_u32 (\<lambda>nreloc.
    pbind read_u32 (\<lambda>sflags. pbind read_u32 (\<lambda>res1. pbind read_u32 (\<lambda>res2.
    pbind (if segment64 then read_u32 else preturn 0) (\<lambda>res3.
    preturn \<lparr>ms_name = name, ms_address = addr, ms_size = sz, ms_offset = offset, ms_align = align,
      ms_reloff = reloff, ms_nreloc = nreloc, ms_flags = sflags\<rparr>))))))))))))"

definition zero_fill :: "MachSection \<Rightarrow> bool" where
  "zero_fill m \<longleftrightarrow> ms_flags m AND 0xff = 1"

definition mach_section_of :: "nat \<Rightarrow> u8 \<Rightarrow> MachSection \<Rightarrow> Section" where
  "mach_section_of index perms m =
    \<lparr>sec_index = of_nat index, sec_name = ms_name m,
     sec_kind = (if take 7 (ms_name m) = ''__debug'' then debug else if zero_fill m then no_bits else program_bits),
     sec_file_offset = ucast (ms_offset m), sec_file_size = (if zero_fill m then 0 else ms_size m),
     sec_virtual_address = ms_address m, sec_memory_size = ms_size m,
     sec_alignment = (if ms_align m < 63 then push_bit (unat (ms_align m)) 1 else 1),
     sec_entry_size = 0, sec_link = 0, sec_info = 0, sec_permissions = perms\<rparr>"

definition mach_options :: "FileHeader \<Rightarrow> Section \<Rightarrow> RelocationDecodeOptions" where
  "mach_options h s =
    \<lparr>dec_architecture = hdr_architecture h, dec_word_size = hdr_word_size h,
     dec_byte_order = hdr_byte_order h, dec_target_section = sec_index s,
     dec_base_address = sec_virtual_address s, dec_entry_size = 0, dec_explicit_addends = False\<rparr>"

text \<open>The relocation table of a section, appended to the relocations before it.\<close>

definition mach_relocations ::
    "Limits \<Rightarrow> bytes \<Rightarrow> FileHeader \<Rightarrow> Section \<Rightarrow> MachSection \<Rightarrow> Relocation list \<Rightarrow> Error + Relocation list" where
  "mach_relocations limits data h s m relocs =
    (let outside = Inl (mk_error invalid_relocation (ucast (ms_reloff m))
           ''Mach-O relocation table is outside file or too large'') in
     case checked_multiply (ucast (ms_nreloc m)) 8 of
       None \<Rightarrow> outside
     | Some relocation_bytes \<Rightarrow>
       if \<not> range_inside (ucast (ms_reloff m)) relocation_bytes (of_nat (length data)) \<or>
          ucast (ms_nreloc m) > output_room limits relocs then outside
       else if relocation_bytes = 0 then Inr relocs
       else case decode_macho limits (Some (take (unat relocation_bytes) (drop (unat (ms_reloff m)) data)))
           relocation_bytes (mach_options h s) relocs of
         (Inl e, _) \<Rightarrow> Inl e | (Inr _, relocs') \<Rightarrow> Inr relocs')"

definition mach_section ::
    "Limits \<Rightarrow> bytes \<Rightarrow> FileHeader \<Rightarrow> bool \<Rightarrow> u8 \<Rightarrow> Section list \<times> Relocation list \<Rightarrow>
     (Error, Section list \<times> Relocation list) parse" where
  "mach_section limits data h segment64 perms = (\<lambda>(sections, relocs).
    pbind (without_error (read_mach_section segment64)) (\<lambda>m.
    pbind (pguard (\<lambda>_. \<not> (\<not> zero_fill m \<and>
        \<not> range_inside (ucast (ms_offset m)) (ms_size m) (of_nat (length data))))
      (\<lambda>_. mk_error invalid_section (ucast (ms_offset m)) ''Mach-O section outside file'')) (\<lambda>_.
    let s = mach_section_of (length sections) perms m in
    pbind (plift (mach_relocations limits data h s m relocs)) (\<lambda>relocs'.
    preturn (sections @ [s], relocs')))))"

primrec mach_sections ::
    "Limits \<Rightarrow> bytes \<Rightarrow> FileHeader \<Rightarrow> bool \<Rightarrow> u8 \<Rightarrow> nat \<Rightarrow> Section list \<times> Relocation list \<Rightarrow>
     (Error, Section list \<times> Relocation list) parse" where
  "mach_sections limits data h segment64 perms 0 acc = preturn acc"
| "mach_sections limits data h segment64 perms (Suc n) acc =
    pbind (mach_section limits data h segment64 perms acc) (mach_sections limits data h segment64 perms n)"

section \<open>Load commands\<close>

text \<open>Address, memory size, file offset, file size.\<close>

definition mach_ranges :: "bool \<Rightarrow> (u64 \<times> u64 \<times> u64 \<times> u64) read" where
  "mach_ranges segment64 =
    pbind (read_address segment64) (\<lambda>vmaddr. pbind (read_address segment64) (\<lambda>vmsize.
    pbind (read_address segment64) (\<lambda>fileoff. pbind (read_address segment64) (\<lambda>filesize.
    preturn (vmaddr, vmsize, fileoff, filesize)))))"

text \<open>Initial protection and number of sections.\<close>

definition mach_counts :: "(u32 \<times> u32) read" where
  "mach_counts =
    pbind read_u32 (\<lambda>maxprot. pbind read_u32 (\<lambda>initprot. pbind read_u32 (\<lambda>nsects. pbind read_u32 (\<lambda>segflags.
    preturn (initprot, nsects)))))"

definition mach_segment ::
    "Limits \<Rightarrow> bytes \<Rightarrow> FileHeader \<Rightarrow> u64 \<Rightarrow> bool \<Rightarrow> MachImage \<Rightarrow> (Error, MachImage) parse" where
  "mach_segment limits data h cursor segment64 img =
    pbind (without_error (read_fixed_string 16)) (\<lambda>segname.
    pbind (without_error (mach_ranges segment64)) (\<lambda>(vmaddr, vmsize, fileoff, filesize).
    pbind (on_fail mach_counts (\<lambda>r. mk_error truncated (rd_position r) ''Mach-O segment truncated''))
      (\<lambda>(initprot, nsects).
    pbind (pguard (\<lambda>_. \<not> (ucast nsects > (ucast (max_sections limits) - of_nat (length (mi_sections img)) :: u64) \<or>
        filesize > vmsize \<or> \<not> range_inside fileoff filesize (of_nat (length data))))
      (\<lambda>_. mk_error invalid_segment cursor ''Mach-O segment ranges invalid'')) (\<lambda>_.
    pbind (mach_sections limits data h segment64 (macho_protection initprot) (unat nsects)
        (mi_sections img, mi_relocations img)) (\<lambda>(sections, relocs).
    preturn \<lparr>mi_sections = sections,
      mi_segments = mi_segments img @ [\<lparr>seg_index = of_nat (length (mi_segments img)),
        seg_file_offset = fileoff, seg_file_size = filesize, seg_virtual_address = vmaddr,
        seg_memory_size = vmsize, seg_alignment = ucast (page_size limits),
        seg_permissions = macho_protection initprot,
        seg_sections = map sec_index (drop (length (mi_sections img)) sections)\<rparr>],
      mi_relocations = relocs\<rparr>)))))"

definition mach_command :: "bytes \<Rightarrow> u64 \<Rightarrow> (Error, u32 \<times> u32) parse" where
  "mach_command data cursor =
    pbind (rd_try_seek cursor) (\<lambda>_.
    on_fail (pbind read_u32 (\<lambda>command. pbind read_u32 (\<lambda>len.
      pbind (pcheck (\<lambda>_. \<not> len < 8 \<and> range_inside cursor (ucast len) (of_nat (length data)))) (\<lambda>_.
      preturn (command, len)))))
      (\<lambda>_. mk_error invalid_segment cursor ''Mach-O command invalid''))"

primrec mach_commands ::
    "Limits \<Rightarrow> bytes \<Rightarrow> FileHeader \<Rightarrow> nat \<Rightarrow> u64 \<Rightarrow> MachImage \<Rightarrow> (Error, MachImage) parse" where
  "mach_commands limits data h 0 cursor img = preturn img"
| "mach_commands limits data h (Suc n) cursor img =
    pbind (mach_command data cursor) (\<lambda>(command, len).
    pbind (if command = 1 \<or> command = 0x19
           then mach_segment limits data h cursor (command = 0x19) img else preturn img)
      (mach_commands limits data h n (cursor + ucast len)))"

section \<open>The parser\<close>

definition mach_body :: "Limits \<Rightarrow> bytes \<Rightarrow> bool \<Rightarrow> ByteOrder \<Rightarrow> (Error, BinaryImage) parse" where
  "mach_body limits data is_wide order =
    pbind (read_mach_header is_wide) (\<lambda>h.
    pbind (pguard (\<lambda>_. \<not> (mh_command_count h > max_sections limits \<or>
        \<not> range_inside (commands_offset is_wide) (ucast (mh_command_bytes h)) (of_nat (length data))))
      (\<lambda>_. mk_error invalid_count (commands_offset is_wide) ''Mach-O load commands invalid'')) (\<lambda>_.
    let header = mach_header_of is_wide order h in
    pbind (mach_commands limits data header (unat (mh_command_count h)) (commands_offset is_wide)
        \<lparr>mi_sections = [], mi_segments = [], mi_relocations = []\<rparr>) (\<lambda>img.
    preturn (empty_image\<lparr>img_header := header\<lparr>hdr_section_count := of_nat (length (mi_sections img))\<rparr>,
      img_sections := mi_sections img, img_segments := mi_segments img,
      img_relocations := mi_relocations img, img_file_data := Some data\<rparr>))))"

definition mach_parse :: "Limits \<Rightarrow> bytes option \<Rightarrow> Error + BinaryImage" where
  "mach_parse limits input =
    (case (case input of None \<Rightarrow> None | Some data \<Rightarrow> if length data < 28 then None else Some data) of
       None \<Rightarrow> Inl (mk_error truncated 0 ''Mach-O header truncated'')
     | Some data \<Rightarrow>
       if \<not> mach_known (mach_magic data) then Inl (mk_error bad_magic 0 ''invalid Mach-O magic'')
       else fst (mach_body limits data (mach_wide (mach_magic data)) (mach_order (mach_magic data))
              (reader_of data (mach_order (mach_magic data)))))"

end
