(* ===== verification/Elf_Image.thy ===== *)
theory Elf_Image
  imports Elf_Parser
begin

text \<open>
  What \<open>ElfParser::parse\<close> reads, against the layout of the file: every structure of the ELF format as
  the fields at their offsets, for both word sizes and byte orders. The last part says what of the
  validator's demands the parser has established already.
\<close>

section \<open>The format\<close>

definition raw_fields :: "bool \<Rightarrow> ByteOrder \<Rightarrow> bytes \<Rightarrow> RawSection" where
  "raw_fields is_wide order bs = (let half = \<lambda>n. field order n 4 bs :: u32; full = \<lambda>n. field order n 8 bs :: u64 in
    if is_wide then
      \<lparr>raw_name = half 0, raw_type = half 4, raw_flags = full 8, raw_address = full 16,
       raw_offset = full 24, raw_size = full 32, raw_link = half 40, raw_info = half 44,
       raw_alignment = full 48, raw_entry_size = full 56\<rparr>
    else
      \<lparr>raw_name = half 0, raw_type = half 4, raw_flags = ucast (half 8), raw_address = ucast (half 12),
       raw_offset = ucast (half 16), raw_size = ucast (half 20), raw_link = half 24, raw_info = half 28,
       raw_alignment = ucast (half 32), raw_entry_size = ucast (half 36)\<rparr>)"

definition address_field :: "bool \<Rightarrow> ByteOrder \<Rightarrow> nat \<Rightarrow> nat \<Rightarrow> bytes \<Rightarrow> u64" where
  "address_field is_wide order narrow_at wide_at bs =
    (if is_wide then field order wide_at 8 bs else ucast (field order narrow_at 4 bs :: u32))"

definition header_fields :: "bool \<Rightarrow> ByteOrder \<Rightarrow> bytes \<Rightarrow> ElfHeader" where
  "header_fields is_wide order bs = (let base = (if is_wide then 48 else 36) in
    \<lparr>eh_type = field order 16 2 bs, eh_machine = field order 18 2 bs,
     eh_entry = address_field is_wide order 24 24 bs,
     eh_program_offset = address_field is_wide order 28 32 bs,
     eh_section_offset = address_field is_wide order 32 40 bs,
     eh_flags = field order base 4 bs,
     eh_program_entry_size = field order (base + 6) 2 bs, eh_program_count = field order (base + 8) 2 bs,
     eh_section_entry_size = field order (base + 10) 2 bs, eh_section_count = field order (base + 12) 2 bs,
     eh_names_index = field order (base + 14) 2 bs\<rparr>)"

definition segment_fields :: "bool \<Rightarrow> ByteOrder \<Rightarrow> bytes \<Rightarrow> nat \<Rightarrow> Segment list" where
  "segment_fields is_wide order bs i =
    (if (field order 0 4 bs :: u32) \<noteq> 1 then []
     else [\<lparr>seg_index = of_nat i, seg_file_offset = address_field is_wide order 4 8 bs,
       seg_file_size = address_field is_wide order 16 32 bs,
       seg_virtual_address = address_field is_wide order 8 16 bs,
       seg_memory_size = address_field is_wide order 20 40 bs,
       seg_alignment = address_field is_wide order 28 48 bs,
       seg_permissions = segment_permissions (field order (if is_wide then 4 else 24) 4 bs),
       seg_sections = []\<rparr>])"

definition symbol_fields :: "Limits \<Rightarrow> bytes \<Rightarrow> bool \<Rightarrow> ByteOrder \<Rightarrow> RawSection \<Rightarrow> bytes \<Rightarrow> nat \<Rightarrow> Symbol" where
  "symbol_fields limits data is_wide order strings bs index =
    (let info = bs ! (if is_wide then 4 else 12); other = bs ! (if is_wide then 5 else 13);
         shndx = field order (if is_wide then 6 else 14) 2 bs :: u16 in
     \<lparr>sym_index = of_nat index,
      sym_name = name_in data strings (field order 0 4 bs) (max_string_bytes limits),
      sym_binding = elf_binding info shndx, sym_kind = elf_symbol_kind info,
      sym_section_index = ucast shndx, sym_value = address_field is_wide order 4 8 bs,
      sym_size = address_field is_wide order 8 16 bs, sym_visibility = other AND 3, sym_library = []\<rparr>)"

text \<open>The symbols of one section, each still to be numbered.\<close>

definition table_symbols ::
    "Limits \<Rightarrow> bytes \<Rightarrow> bool \<Rightarrow> ByteOrder \<Rightarrow> RawSection list \<Rightarrow> RawSection \<Rightarrow> (nat \<Rightarrow> Symbol) list" where
  "table_symbols limits data is_wide order raws s =
    (if raw_type s \<noteq> 2 \<and> raw_type s \<noteq> 11 \<or> raw_entry_size s = 0 \<or> unat (raw_link s) \<ge> length raws then []
     else map (\<lambda>j. symbol_fields limits data is_wide order (raws ! unat (raw_link s))
            (drop (unat (raw_offset s) + j * unat (raw_entry_size s)) data))
       [0..<unat (raw_size s) div unat (raw_entry_size s)])"

definition numbered :: "nat \<Rightarrow> (nat \<Rightarrow> 'a) list \<Rightarrow> 'a list" where
  "numbered n fs = map (\<lambda>(i, f). f i) (enumerate n fs)"

definition raw_sections :: "bool \<Rightarrow> ByteOrder \<Rightarrow> bytes \<Rightarrow> RawSection list" where
  "raw_sections is_wide order data = (let h = header_fields is_wide order data in
    map (\<lambda>i. raw_fields is_wide order
      (drop (unat (eh_section_offset h) + i * unat (eh_section_entry_size h)) data)) [0..<unat (eh_section_count h)])"

definition program_segments :: "bool \<Rightarrow> ByteOrder \<Rightarrow> bytes \<Rightarrow> Segment list" where
  "program_segments is_wide order data = (let h = header_fields is_wide order data in
    concat (map (\<lambda>i. segment_fields is_wide order
      (drop (unat (eh_program_offset h) + i * unat (eh_program_entry_size h)) data) i)
      [0..<unat (eh_program_count h)]))"

section \<open>Each read by its offsets\<close>

lemma read_section_fields:
  assumes "read_section is_wide r = (Inr s, r')" "reader_ok r"
  shows "s = raw_fields is_wide (rd_order r) (rd_rest r) \<and> past r (if is_wide then 64 else 40) r'"
proof (cases is_wide)
  case True
  show ?thesis
    using assms(1) past_0 [OF assms(2)] unfolding read_section_def if_P [OF True]
    apply -
    apply (erule (1) past_reads)+
    apply (simp add: raw_fields_def Let_def True)
    done
next
  case False
  show ?thesis
    using assms(1) past_0 [OF assms(2)] unfolding read_section_def if_not_P [OF False]
    apply -
    apply (erule (1) past_reads)+
    apply (simp add: raw_fields_def Let_def False)
    done
qed

lemma past_address:
  assumes "pbind (read_address is_wide) f r = (Inr x, r')" "past r0 n r"
    "\<And>r1. f (address_field is_wide (rd_order r0) n n (rd_rest r0)) r1 = (Inr x, r') \<Longrightarrow>
      past r0 (n + (if is_wide then 8 else 4)) r1 \<Longrightarrow> Q"
  shows Q
proof (cases is_wide)
  case True
  show ?thesis
    using assms(1) unfolding read_address_def if_P [OF True]
    apply (rule past_u64 [OF _ assms(2)])
    apply (rule assms(3); simp add: address_field_def True)
    done
next
  case False
  obtain v r1 where v: "read_u32 r = (Inr v, r1)" "f (ucast v) r1 = (Inr x, r')"
    using assms(1) unfolding read_address_def if_not_P [OF False] by (auto simp: pbind_Inr)
  have "pbind read_u32 (\<lambda>v. f (ucast v)) r = (Inr x, r')" using v by simp
  then show ?thesis
    apply (rule past_u32 [OF _ assms(2)])
    apply (rule assms(3); simp add: address_field_def False)
    done
qed

lemma field_shift: "field order n k (drop m bs) = field order (m + n) k bs"
  by (simp add: field_def add.commute)

lemma read_elf_header_fields:
  assumes "read_elf_header is_wide r = (Inr h, r')" "table_reader data order r"
  shows "h = header_fields is_wide order data \<and> table_reader data order r'"
proof -
  obtain r1 t m r2 where sk: "rd_seek 16 r = (Inr (), r1)"
    and common: "pbind read_u16 (\<lambda>type. pbind read_u16 (\<lambda>machine. pbind read_u32 (\<lambda>version.
       pbind (pcheck (\<lambda>_. version = 1)) (\<lambda>_. preturn (type, machine))))) r1 = (Inr (t, m), r2)"
    and rest: "pbind (read_address is_wide) (\<lambda>entry. pbind (read_address is_wide) (\<lambda>program_offset.
       pbind (read_address is_wide) (\<lambda>section_offset.
       pbind read_u32 (\<lambda>flags. pbind read_u16 (\<lambda>header_size.
       pbind read_u16 (\<lambda>program_entry_size. pbind read_u16 (\<lambda>program_count.
       pbind read_u16 (\<lambda>section_entry_size. pbind read_u16 (\<lambda>section_count.
       pbind read_u16 (\<lambda>names_index.
       preturn \<lparr>eh_type = t, eh_machine = m, eh_entry = entry,
         eh_program_offset = program_offset, eh_section_offset = section_offset, eh_flags = flags,
         eh_program_entry_size = program_entry_size, eh_program_count = program_count,
         eh_section_entry_size = section_entry_size, eh_section_count = section_count,
         eh_names_index = names_index\<rparr>)))))))))) r2 = (Inr h, r')"
    using assms(1) unfolding read_elf_header_def or_truncated_def
    by (auto simp: pbind_Inr [where p = "on_fail _ _"])
  have "unat (16 :: u64) \<le> length data"
    using sk assms(2) by (auto simp: rd_seek_def table_reader_def word_less_nat_alt split: if_splits)
  note tr = table_reader_seek [OF assms(2) this]
  then have r1: "table_reader data order r1" "rd_rest r1 = drop 16 data" using sk by simp_all
  then have ok: "reader_ok r1" "rd_order r1 = order" by (simp_all add: table_reader_def)
  have c: "t = field order 0 2 (rd_rest r1) \<and> m = field order 2 2 (rd_rest r1) \<and> past r1 8 r2"
    using common past_0 [OF ok(1)] ok(2)
    apply -
    apply (erule (1) past_reads)+
    apply (simp del: add_2_eq_Suc add_2_eq_Suc')
    done
  then have p: "past r1 8 r2" by simp
  have "h = header_fields is_wide order data \<and> past r1 (if is_wide then 48 else 36) r'"
    using rest p
    apply -
    apply (erule (1) past_address)+
    apply (erule (1) past_reads)+
    apply (cases is_wide; simp add: header_fields_def address_field_def Let_def c r1(2) field_shift ok(2) del: add_2_eq_Suc add_2_eq_Suc')
    done
  then show ?thesis
    using r1(1) by (auto simp: past_def intro: table_reader_advance)
qed

lemma table_reader_past: "table_reader data order r \<Longrightarrow> past r n r' \<Longrightarrow> table_reader data order r'"
  by (auto simp: past_def intro: table_reader_advance)

lemma table_reader_reader: "table_reader data order r \<Longrightarrow> reader_ok r \<and> rd_order r = order"
  by (simp add: table_reader_def)

lemma read_raw_section_fields:
  assumes "read_raw_section file_size is_wide at r = (Inr s, r')" "table_reader data order r"
  shows "table_reader data order r' \<and> s = raw_fields is_wide order (drop (unat at) data) \<and>
    (raw_type s = 8 \<or> range_inside (raw_offset s) (raw_size s) file_size)"
proof -
  obtain r1 where sk: "rd_seek at r = (Inr (), r1)" and rs: "read_section is_wide r1 = (Inr s, r')"
    and c: "raw_type s = 8 \<or> range_inside (raw_offset s) (raw_size s) file_size"
    using assms(1) by (auto simp: read_raw_section_def or_truncated_def pbind_Inr)
  have "unat at \<le> length data"
    using sk assms(2) by (auto simp: rd_seek_def table_reader_def word_less_nat_alt split: if_splits)
  note tr = table_reader_seek [OF assms(2) this]
  then have r1: "table_reader data order r1" "rd_rest r1 = drop (unat at) data" using sk by simp_all
  from read_section_fields [OF rs] r1 c show ?thesis
    using table_reader_past table_reader_reader by fastforce
qed

lemma try_seek_then:
  assumes "pbind (rd_try_seek at) f r = (Inr x, r')" "table_reader data order r" "unat at \<le> length data"
  obtains r1 where "table_reader data order r1" "rd_rest r1 = drop (unat at) data" "f () r1 = (Inr x, r')"
  using assms(1) table_reader_seek [OF assms(2,3)] that
  by (auto simp: pbind_def rd_try_seek_def)

lemma read_program_header_fields:
  assumes "read_program_header is_wide r = (Inr x, r')" "reader_ok r"
  shows "x = (field (rd_order r) 0 4 (rd_rest r), field (rd_order r) (if is_wide then 4 else 24) 4 (rd_rest r),
      address_field is_wide (rd_order r) 4 8 (rd_rest r), address_field is_wide (rd_order r) 8 16 (rd_rest r),
      address_field is_wide (rd_order r) 16 32 (rd_rest r), address_field is_wide (rd_order r) 20 40 (rd_rest r),
      address_field is_wide (rd_order r) 28 48 (rd_rest r)) \<and> (\<exists>n. past r n r')"
proof (cases is_wide)
  case True
  show ?thesis
    using assms(1) past_0 [OF assms(2)] unfolding read_program_header_def if_P [OF True]
    apply -
    apply (erule (1) past_reads)+
    apply (auto simp: address_field_def True)
    done
next
  case False
  show ?thesis
    using assms(1) past_0 [OF assms(2)] unfolding read_program_header_def if_not_P [OF False]
    apply -
    apply (erule (1) past_reads)+
    apply (auto simp: address_field_def False)
    done
qed

lemma read_segment_fields:
  assumes "read_segment file_size is_wide at i r = (Inr ss, r')" "table_reader data order r"
    "unat at \<le> length data"
  shows "table_reader data order r' \<and> ss = segment_fields is_wide order (drop (unat at) data) i \<and>
    (\<forall>s \<in> set ss. seg_file_size s \<le> seg_memory_size s \<and>
       range_inside (seg_file_offset s) (seg_file_size s) file_size)"
proof -
  obtain r1 where r1: "table_reader data order r1" "rd_rest r1 = drop (unat at) data"
    and p: "pbind (or_truncated (read_program_header is_wide))
      (\<lambda>(kind, pflags, offset, address, file_sz, memory_size, alignment).
    if kind \<noteq> 1 then preturn []
    else pbind (pguard (\<lambda>_. \<not> (file_sz > memory_size \<or> \<not> range_inside offset file_sz file_size))
      (\<lambda>_. mk_error invalid_segment offset ''ELF load segment range is invalid'')) (\<lambda>_.
    preturn [\<lparr>seg_index = of_nat i, seg_file_offset = offset, seg_file_size = file_sz,
      seg_virtual_address = address, seg_memory_size = memory_size, seg_alignment = alignment,
      seg_permissions = segment_permissions pflags, seg_sections = []\<rparr>])) r1 = (Inr ss, r')"
    using assms(1) unfolding read_segment_def by (rule try_seek_then [OF _ assms(2,3)])
  obtain x r2 where h: "read_program_header is_wide r1 = (Inr x, r2)"
    using p by (auto simp: pbind_Inr or_truncated_def)
  note f = read_program_header_fields [OF h conjunct1 [OF table_reader_reader [OF r1(1)]]]
  have "table_reader data order r2" using f table_reader_past [OF r1(1)] by blast
  then show ?thesis
    using p h f table_reader_reader [OF r1(1)] unfolding or_truncated_def
    by (auto simp: pbind_Inr r1(2) segment_fields_def not_less split: if_splits)
qed

section \<open>Symbol tables\<close>

lemma read_symbol_fields:
  assumes "read_symbol is_wide r = (Inr x, r')" "reader_ok r"
  shows "x = (field (rd_order r) 0 4 (rd_rest r), rd_rest r ! (if is_wide then 4 else 12),
      rd_rest r ! (if is_wide then 5 else 13), field (rd_order r) (if is_wide then 6 else 14) 2 (rd_rest r),
      address_field is_wide (rd_order r) 4 8 (rd_rest r), address_field is_wide (rd_order r) 8 16 (rd_rest r)) \<and>
    (\<exists>n. past r n r')"
proof (cases is_wide)
  case True
  show ?thesis
    using assms(1) past_0 [OF assms(2)] unfolding read_symbol_def if_P [OF True]
    apply -
    apply (erule (1) past_reads)+
    apply (auto simp: address_field_def True)
    done
next
  case False
  show ?thesis
    using assms(1) past_0 [OF assms(2)] unfolding read_symbol_def if_not_P [OF False]
    apply -
    apply (erule (1) past_reads)+
    apply (auto simp: address_field_def False)
    done
qed

lemma read_elf_symbol_fields:
  assumes "read_elf_symbol limits data is_wide strings at index r = (Inr s, r')"
    "table_reader data order r" "unat at \<le> length data"
  shows "table_reader data order r' \<and>
    s = symbol_fields limits data is_wide order strings (drop (unat at) data) index"
proof -
  obtain r1 where r1: "table_reader data order r1" "rd_rest r1 = drop (unat at) data"
    and p: "pbind (or_truncated (read_symbol is_wide)) (\<lambda>(name, info, other, shndx, value, len).
    preturn \<lparr>sym_index = of_nat index, sym_name = name_in data strings name (max_string_bytes limits),
      sym_binding = elf_binding info shndx, sym_kind = elf_symbol_kind info,
      sym_section_index = ucast shndx, sym_value = value, sym_size = len,
      sym_visibility = other AND 3, sym_library = []\<rparr>) r1 = (Inr s, r')"
    using assms(1) unfolding read_elf_symbol_def by (rule try_seek_then [OF _ assms(2,3)])
  obtain x where h: "read_symbol is_wide r1 = (Inr x, r')"
    using p by (auto simp: pbind_Inr or_truncated_def)
  note f = read_symbol_fields [OF h conjunct1 [OF table_reader_reader [OF r1(1)]]]
  have "table_reader data order r'" using f table_reader_past [OF r1(1)] by blast
  then show ?thesis
    using p h f table_reader_reader [OF r1(1)] unfolding or_truncated_def
    by (auto simp: pbind_Inr r1(2) symbol_fields_def Let_def)
qed

text \<open>Positions of the entries of a table that lies in the file.\<close>

lemma index_at:
  fixes off es :: u64
  assumes "unat off + n * unat es \<le> len" "len < 2 ^ 64" "i \<le> n"
  shows "unat (off + of_nat i * es) = unat off + i * unat es" "unat off + i * unat es \<le> len"
proof -
  have le: "i * unat es \<le> n * unat es" using assms(3) by simp
  then show "unat off + i * unat es \<le> len" using assms(1) by linarith
  then have "i * unat es < 2 ^ 64" using assms(2) by linarith
  moreover have "of_nat i * es = of_nat (i * unat es)" by simp
  ultimately have "unat (of_nat i * es) = i * unat es"
    using unat_of_nat_u64 [of "i * unat es"] by simp
  then show "unat (off + of_nat i * es) = unat off + i * unat es"
    using \<open>unat off + i * unat es \<le> len\<close> assms(2) by (subst unat_plus_bounded) simp_all
qed

lemma table_at:
  assumes "table_fits es count off (of_nat (length data)) m" "length data < 2 ^ 64" "i < unat count"
  shows "unat (off + of_nat i * ucast es) = unat off + i * unat es" "unat off + i * unat es \<le> length data"
proof -
  obtain t where t: "checked_multiply (ucast es) (ucast count) = Some t" "range_inside off t (of_nat (length data))"
    using assms(1) by (auto simp: table_fits_def split: option.splits)
  have "unat t = unat es * unat count" using mul_op.SomeD [OF t(1)] by simp
  then have "unat off + unat count * unat es \<le> length data"
    using t(2) assms(2) by (simp add: range_inside_iff unat_of_nat_u64 mult.commute del: unsigned_of_nat)
  then show "unat (off + of_nat i * ucast es) = unat off + i * unat es" "unat off + i * unat es \<le> length data"
    using index_at [of off "unat count" "ucast es" "length data" i] assms(2,3) by simp_all
qed

lemma numbered_append: "numbered n (fs @ gs) = numbered n fs @ numbered (n + length fs) gs"
  by (simp add: numbered_def enumerate_append_eq)

lemma numbered_map: "numbered n (map f [0..<k]) = map (\<lambda>j. f j (n + j)) [0..<k]"
  by (rule nth_equalityI) (simp_all add: numbered_def nth_enumerate_eq)

definition raw_in_file :: "bytes \<Rightarrow> RawSection \<Rightarrow> bool" where
  "raw_in_file data s \<longleftrightarrow> raw_type s = 8 \<or> unat (raw_offset s) + unat (raw_size s) \<le> length data"

lemma read_symbol_tables_fields:
  assumes len: "length data < 2 ^ 64"
  shows "read_symbol_tables limits data is_wide raws todo symbols r = (Inr out, r') \<Longrightarrow>
    table_reader data order r \<Longrightarrow> list_all (raw_in_file data) todo \<Longrightarrow>
    table_reader data order r' \<and>
    out = symbols @ numbered (length symbols) (concat (map (table_symbols limits data is_wide order raws) todo))"
proof (induction todo arbitrary: symbols r)
  case Nil
  then show ?case by (simp add: numbered_def)
next
  case (Cons s todo)
  show ?case
  proof (cases "raw_type s \<noteq> 2 \<and> raw_type s \<noteq> 11 \<or> raw_entry_size s = 0 \<or> unat (raw_link s) \<ge> length raws")
    case True
    then show ?thesis using Cons by (simp add: table_symbols_def)
  next
    case False
    let ?strings = "raws ! unat (raw_link s)" and ?n = "unat (raw_size s) div unat (raw_entry_size s)"
    let ?g = "\<lambda>j. symbol_fields limits data is_wide order ?strings
      (drop (unat (raw_offset s) + j * unat (raw_entry_size s)) data) (length symbols + j)"
    obtain more r1 where loop: "pfor 0 ?n (\<lambda>j. read_elf_symbol limits data is_wide ?strings
           (raw_offset s + of_nat j * raw_entry_size s) (length symbols + j)) r = (Inr more, r1)"
      and rest: "read_symbol_tables limits data is_wide raws todo (symbols @ more) r1 = (Inr out, r')"
      using Cons.prems(1) False by (auto simp: Let_def pbind_Inr unat_div)
    have "raw_type s \<noteq> 8" using False by auto
    then have "unat (raw_offset s) + unat (raw_size s) \<le> length data"
      using Cons.prems(3) by (simp add: raw_in_file_def)
    moreover have "?n * unat (raw_entry_size s) \<le> unat (raw_size s)" by simp
    ultimately have fit: "unat (raw_offset s) + ?n * unat (raw_entry_size s) \<le> length data" by linarith
    have "table_reader data order r1 \<and> list_all (\<lambda>_. True) more \<and> more = map ?g [0..<0 + ?n]"
    proof (rule pfor_Inr [where I = "table_reader data order", OF _ loop Cons.prems(2)])
      fix k ra x rb
      assume k: "k < 0 + ?n" "table_reader data order ra"
        and d: "read_elf_symbol limits data is_wide ?strings (raw_offset s + of_nat k * raw_entry_size s)
          (length symbols + k) ra = (Inr x, rb)"
      show "table_reader data order rb \<and> True \<and> x = ?g k"
        using read_elf_symbol_fields [OF d k(2)] index_at [OF fit len, of k] k(1) by simp
    qed
    then have m: "table_reader data order r1" "more = map ?g [0..<?n]" by simp_all
    have ts: "table_symbols limits data is_wide order raws s = map (\<lambda>j. symbol_fields limits data is_wide order ?strings
      (drop (unat (raw_offset s) + j * unat (raw_entry_size s)) data)) [0..<?n]"
      unfolding table_symbols_def by (rule if_not_P [OF False])
    have num: "numbered (length symbols) (table_symbols limits data is_wide order raws s) = more"
      unfolding ts m(2) by (rule numbered_map)
    have "length (table_symbols limits data is_wide order raws s) = length more"
      by (simp add: ts m(2))
    then show ?thesis
      using Cons.IH [OF rest m(1)] Cons.prems(3) by (simp add: numbered_append num)
  qed
qed

section \<open>The whole file\<close>

lemma unat_ucast_u16_u32 [simp]: "unat (ucast (a :: u16) :: u32) = unat a"
  by (simp add: unsigned_ucast_eq unsigned_take_bit_eq take_bit_nat_eq_self less_le_trans [OF unsigned_less])

lemma table_reader_of: "length data < 2 ^ 64 \<Longrightarrow> table_reader data order (reader_of data order)"
  by (simp add: table_reader_def reader_ok_reader_of unat_of_nat_u64 del: unsigned_of_nat)

definition elf_sections :: "Limits \<Rightarrow> bool \<Rightarrow> ByteOrder \<Rightarrow> bytes \<Rightarrow> Section list" where
  "elf_sections limits is_wide order data = (let raws = raw_sections is_wide order data in
     map (elf_section limits data (eh_names_index (header_fields is_wide order data)) raws) [0..<length raws])"

lemma elf_body_fields:
  assumes b: "elf_body limits data is_wide order (reader_of data order) = (Inr img, r')"
    and len: "length data < 2 ^ 64"
  shows "let h = header_fields is_wide order data; raws = raw_sections is_wide order data in
    img_header img = elf_header_of is_wide order h \<and>
    img_sections img = elf_sections limits is_wide order data \<and>
    img_segments img = program_segments is_wide order data \<and>
    img_symbols img = numbered 0 (concat (map (table_symbols limits data is_wide order raws) raws)) \<and>
    read_relocation_tables limits data (img_header img) (img_sections img) raws [] = Inr (img_relocations img) \<and>
    img_file_data img = Some data \<and> img_imports img = [] \<and> img_exports img = [] \<and>
    img_debug_units img = [] \<and> img_warnings img = [] \<and>
    unat (eh_section_count h) \<le> unat (max_sections limits) \<and>
    unat (eh_program_count h) \<le> unat (max_segments limits) \<and>
    list_all (raw_in_file data) raws \<and>
    (\<forall>s \<in> set (img_segments img). seg_file_size s \<le> seg_memory_size s \<and>
       range_inside (seg_file_offset s) (seg_file_size s) (of_nat (length data)))"
proof -
  let ?tr = "table_reader data order" and ?size = "of_nat (length data) :: u64"
  obtain h r1 raws r2 segments r3 symbols relocs where
    h: "read_elf_header is_wide (reader_of data order) = (Inr h, r1)"
    and c: "\<not> (ucast (eh_section_count h) > max_sections limits \<or> ucast (eh_program_count h) > max_segments limits)"
    and fs: "table_fits (eh_section_entry_size h) (eh_section_count h) (eh_section_offset h) ?size
        (if is_wide then 64 else 40)"
    and raws: "pfor 0 (unat (eh_section_count h)) (\<lambda>i. read_raw_section ?size is_wide
      (eh_section_offset h + of_nat i * ucast (eh_section_entry_size h))) r1 = (Inr raws, r2)"
    and fp: "table_fits (eh_program_entry_size h) (eh_program_count h) (eh_program_offset h) ?size
        (if is_wide then 56 else 32)"
    and segs: "pfor 0 (unat (eh_program_count h)) (\<lambda>i. read_segment ?size is_wide
      (eh_program_offset h + of_nat i * ucast (eh_program_entry_size h)) i) r2 = (Inr segments, r3)"
    and syms: "read_symbol_tables limits data is_wide raws raws [] r3 = (Inr symbols, r')"
    and relocs: "read_relocation_tables limits data (elf_header_of is_wide order h)
      (map (elf_section limits data (eh_names_index h) raws) [0..<length raws]) raws [] = Inr relocs"
    and img: "img = empty_image\<lparr>img_header := elf_header_of is_wide order h,
      img_sections := map (elf_section limits data (eh_names_index h) raws) [0..<length raws],
      img_segments := concat segments, img_symbols := symbols, img_relocations := relocs,
      img_file_data := Some data\<rparr>"
    using b unfolding elf_body_def Let_def pbind_Inr pguard_Inr plift_Inr preturn_Inr by blast
  have hf: "h = header_fields is_wide order data" "?tr r1"
    using read_elf_header_fields [OF h table_reader_of [OF len]] by simp_all
  let ?f = "\<lambda>i. raw_fields is_wide order
      (drop (unat (eh_section_offset h) + i * unat (eh_section_entry_size h)) data)"
  have "?tr r2 \<and> list_all (raw_in_file data) raws \<and> raws = map ?f [0..<0 + unat (eh_section_count h)]"
  proof (rule pfor_Inr [where I = ?tr, OF _ raws hf(2)])
    fix k ra x rb
    assume k: "k < 0 + unat (eh_section_count h)" "?tr ra"
      and d: "read_raw_section ?size is_wide
        (eh_section_offset h + of_nat k * ucast (eh_section_entry_size h)) ra = (Inr x, rb)"
    have "unat ?size = length data" using len by (simp add: unat_of_nat_u64 del: unsigned_of_nat)
    then show "?tr rb \<and> raw_in_file data x \<and> x = ?f k"
      using read_raw_section_fields [OF d k(2)] table_at [OF fs len, of k] k(1)
      by (auto simp: raw_in_file_def range_inside_iff)
  qed
  then have rf: "?tr r2" "list_all (raw_in_file data) raws" "raws = raw_sections is_wide order data"
    unfolding raw_sections_def hf(1) [symmetric] Let_def add_0 by blast+
  let ?g = "\<lambda>i. segment_fields is_wide order
      (drop (unat (eh_program_offset h) + i * unat (eh_program_entry_size h)) data) i"
  let ?ok = "\<lambda>s. seg_file_size s \<le> seg_memory_size s \<and> range_inside (seg_file_offset s) (seg_file_size s) ?size"
  have "?tr r3 \<and> list_all (\<lambda>ss. \<forall>s \<in> set ss. ?ok s) segments \<and>
      segments = map ?g [0..<0 + unat (eh_program_count h)]"
  proof (rule pfor_Inr [where I = ?tr, OF _ segs rf(1)])
    fix k ra x rb
    assume k: "k < 0 + unat (eh_program_count h)" "?tr ra"
      and d: "read_segment ?size is_wide
        (eh_program_offset h + of_nat k * ucast (eh_program_entry_size h)) k ra = (Inr x, rb)"
    have at: "unat (eh_program_offset h + of_nat k * ucast (eh_program_entry_size h)) =
        unat (eh_program_offset h) + k * unat (eh_program_entry_size h)"
      "unat (eh_program_offset h) + k * unat (eh_program_entry_size h) \<le> length data"
      using table_at [OF fp len, of k] k(1) by simp_all
    show "?tr rb \<and> (\<forall>s \<in> set x. ?ok s) \<and> x = ?g k"
      using read_segment_fields [OF d k(2)] at by simp
  qed
  then have sg: "?tr r3" "list_all (\<lambda>ss. \<forall>s \<in> set ss. ?ok s) segments"
      "segments = map ?g [0..<0 + unat (eh_program_count h)]"
    by blast+
  then have sf: "?tr r3" "\<forall>s \<in> set (concat segments). ?ok s"
    by (simp_all only: list_all_iff set_concat) blast
  have cs: "concat segments = program_segments is_wide order data"
    unfolding program_segments_def hf(1) [symmetric] Let_def sg(3) add_0 ..
  have "symbols = numbered 0 (concat (map (table_symbols limits data is_wide order raws) raws))"
    using read_symbol_tables_fields [OF len syms sf(1) rf(2)] by simp
  moreover have "unat (eh_section_count h) \<le> unat (max_sections limits)"
    "unat (eh_program_count h) \<le> unat (max_segments limits)"
    using c by (simp_all add: word_less_nat_alt not_less)
  ultimately show ?thesis
    using rf(2) sf(2) cs relocs
    by (simp add: img empty_image_def elf_sections_def Let_def flip: rf(3) hf(1))
qed

definition elf_word :: "bytes \<Rightarrow> bool" where
  "elf_word data \<longleftrightarrow> data ! 4 = 2"

definition elf_order :: "bytes \<Rightarrow> ByteOrder" where
  "elf_order data = (if data ! 5 = 1 then little else big)"

lemma elf_parse_body:
  assumes "elf_parse limits (Some data) = Inr img"
  shows "\<exists>r'. elf_body limits data (elf_word data) (elf_order data) (reader_of data (elf_order data)) = (Inr img, r')"
  using assms by (auto simp: elf_parse_def elf_word_def elf_order_def Let_def intro!: prod_eqI split: if_splits)

lemma read_relocation_tables_limit:
  "read_relocation_tables limits data h sections todo relocs = Inr out \<Longrightarrow>
   length relocs \<le> unat (max_relocations limits) \<Longrightarrow> length out \<le> unat (max_relocations limits)"
proof (induction todo arbitrary: relocs)
  case (Cons s todo)
  let ?d = "decode_elf limits (Some (take (unat (raw_size s)) (drop (unat (raw_offset s)) data)))
         (raw_size s) (relocation_options h sections s) relocs"
  have "length (snd ?d) \<le> max (length relocs) (unat (max_relocations limits))"
    using decode_elf_grows by (simp add: grows_def)
  then show ?case using Cons by (cases ?d) (auto split: if_splits sum.splits)
qed simp

text \<open>What of the validator's conditions the parser leaves open.\<close>

definition elf_residual :: "Limits \<Rightarrow> bytes \<Rightarrow> BinaryImage \<Rightarrow> bool" where
  "elf_residual limits data img \<longleftrightarrow>
     length data \<le> unat (max_file_size limits) \<and>
     length (img_symbols img) \<le> unat (max_symbols limits) \<and>
     (\<forall>s \<in> set (img_sections img). power_of_two (sec_alignment s)) \<and>
     (\<forall>s \<in> set (img_segments img). unat (seg_virtual_address s) + unat (seg_memory_size s) < 2 ^ 64) \<and>
     (\<forall>rel \<in> set (img_relocations img). rel_symbol_index rel = 0 \<or> image_symbol img (rel_symbol_index rel) \<noteq> None)"

lemma no_bits_kind: "elf_section_kind t name = no_bits \<longleftrightarrow> t = 8"
  by (simp add: elf_section_kind_def)

lemma numbered_index:
  assumes "i < length fs" "\<And>f k. f \<in> set fs \<Longrightarrow> sym_index (f k) = of_nat k"
  shows "sym_index (numbered 0 fs ! i) = of_nat i"
  using assms by (simp add: numbered_def nth_enumerate_eq)

lemma table_symbols_index:
  "f \<in> set (table_symbols limits data is_wide order raws s) \<Longrightarrow> sym_index (f k) = of_nat k"
  by (auto simp: table_symbols_def symbol_fields_def Let_def split: if_splits)

lemma elf_image_valid:
  assumes "elf_parse limits (Some data) = Inr img" and len: "length data < 2 ^ 64"
  shows "image_valid limits data img \<longleftrightarrow> elf_residual limits data img"
proof -
  let ?w = "elf_word data" and ?o = "elf_order data"
  let ?raws = "raw_sections ?w ?o data"
  obtain r' where "elf_body limits data ?w ?o (reader_of data ?o) = (Inr img, r')"
    using elf_parse_body [OF assms(1)] by blast
  note f = elf_body_fields [OF this len, unfolded Let_def]
  have size: "unat (of_nat (length data) :: u64) = length data"
    using len by (simp add: unat_of_nat_u64 del: unsigned_of_nat)
  have ns: "length (img_sections img) = unat (eh_section_count (header_fields ?w ?o data))"
    using f by (simp add: elf_sections_def raw_sections_def Let_def)
  then have c1: "length (img_sections img) \<le> unat (max_sections limits)" using f by simp
  have "length (program_segments ?w ?o data) \<le> unat (eh_program_count (header_fields ?w ?o data))"
  proof -
    have "length (concat (map (\<lambda>i. segment_fields ?w ?o (g i) i) [0..<n])) \<le> n" for g n
      by (induction n) (auto simp: segment_fields_def)
    then show ?thesis by (simp add: program_segments_def Let_def)
  qed
  then have c2: "length (img_segments img) \<le> unat (max_segments limits)" using f by simp
  have c3: "length (img_relocations img) \<le> unat (max_relocations limits)"
    using f read_relocation_tables_limit by fastforce
  have secs: "section_valid (length data) n (img_sections img ! n) \<longleftrightarrow> power_of_two (sec_alignment (img_sections img ! n))"
    if n: "n < length (img_sections img)" for n
  proof -
    have nr: "n < length ?raws" using n f by (simp add: elf_sections_def Let_def)
    have "img_sections img ! n = elf_section limits data (eh_names_index (header_fields ?w ?o data)) ?raws n"
      using f n by (simp add: elf_sections_def Let_def)
    moreover have "raw_in_file data (?raws ! n)" using f nr by (simp add: list_all_length)
    moreover have "unat (of_nat n :: u32) = n"
      using n c1 unat_u32_bound [of "max_sections limits"] by (intro unat_of_nat_u32) simp
    ultimately show ?thesis
      by (auto simp: section_valid_def elf_section_def Let_def no_bits_kind raw_in_file_def simp del: unsigned_of_nat)
  qed
  have segs: "segment_valid (length data) s \<longleftrightarrow> unat (seg_virtual_address s) + unat (seg_memory_size s) < 2 ^ 64"
    if "s \<in> set (img_segments img)" for s
    using f that by (simp add: segment_valid_def range_inside_iff size word_le_nat_alt)
  have syms: "unat (sym_index (img_symbols img ! n)) = n"
    if "n < length (img_symbols img)" "length (img_symbols img) \<le> unat (max_symbols limits)" for n
  proof -
    let ?fs = "concat (map (table_symbols limits data ?w ?o ?raws) ?raws)"
    have sy: "img_symbols img = numbered 0 ?fs" using f by blast
    have "n < length ?fs" using that(1) by (simp add: sy numbered_def)
    then have "sym_index (img_symbols img ! n) = of_nat n"
      unfolding sy by (rule numbered_index) (auto dest: table_symbols_index)
    moreover have "unat (of_nat n :: u32) = n"
      using that unat_u32_bound [of "max_symbols limits"] by (intro unat_of_nat_u32) simp
    ultimately show ?thesis by simp
  qed
  show ?thesis
    unfolding image_valid_def elf_residual_def
    using c1 c2 c3 secs segs syms by (auto simp: all_set_conv_all_nth)
qed

text \<open>A 32-bit little-endian executable with one load segment of four bytes, at the end of the file.\<close>

definition demo_elf :: bytes where
  "demo_elf = [0x7f, 0x45, 0x4c, 0x46, 1, 1, 1, 0, 0, 0, 0, 0, 0, 0, 0, 0,
     2, 0, 3, 0, 1, 0, 0, 0, 16, 0, 1, 0, 52, 0, 0, 0, 0, 0, 0, 0, 0, 0, 0, 0,
     52, 0, 32, 0, 1, 0, 40, 0, 0, 0, 0, 0,
     1, 0, 0, 0, 80, 0, 0, 0, 0, 0, 1, 0, 0, 0, 0, 0, 4, 0, 0, 0, 8, 0, 0, 0, 5, 0, 0, 0, 0, 16, 0, 0]"

lemma demo_elf_parses: "\<not> isl (elf_parse demo_limits (Some demo_elf))"
  by code_simp

lemma demo_elf_image: "\<exists>img. elf_parse demo_limits (Some demo_elf) = Inr img"
  by (metis demo_elf_parses sum.collapse(2))

lemma demo_length: "length demo_elf = 84"
  by (simp add: demo_elf_def)

lemma demo_short: "length demo_elf < 2 ^ 64"
  unfolding demo_length by simp

section \<open>Properties\<close>

text \<open>
  Of what the validator demands of an image the ELF parser has established all but five things:
  a validated parse is one whose file is within the size limit, whose symbols are within the limit
  over all tables together, whose section alignments are powers of two, whose segments do not wrap
  around, and whose relocations name symbols that exist.
\<close>

theorem elf_parse_then_validate:
  assumes "elf_parse limits (Some data) = Inr img" "length data < 2 ^ 64"
  shows "rep_valid (validate limits img) \<longleftrightarrow> elf_residual limits data img"
proof -
  have d: "img_file_data img = Some data"
    using elf_parse_body [OF assms(1)] elf_body_fields [OF _ assms(2)] unfolding Let_def by blast
  have "rep_valid (validate limits img) \<longleftrightarrow> (\<exists>bs. img_file_data img = Some bs \<and> image_valid limits bs img)"
    using validate_iff [of img limits] d assms(2) by simp
  then show ?thesis using elf_image_valid [OF assms] d by simp
qed

theorem elf_parse_then_validate_witness:
  "\<exists>img. elf_parse demo_limits (Some demo_elf) = Inr img \<and> \<not> rep_valid (validate demo_limits img)"
proof -
  obtain img where p: "elf_parse demo_limits (Some demo_elf) = Inr img"
    using demo_elf_image by blast
  have "\<not> length demo_elf \<le> unat (max_file_size demo_limits)"
    unfolding demo_length by (simp add: demo_limits_def)
  then have "\<not> elf_residual demo_limits demo_elf img" by (simp only: elf_residual_def simp_thms)
  then have "\<not> rep_valid (validate demo_limits img)"
    unfolding elf_parse_then_validate [OF p demo_short] .
  then show ?thesis using p by blast
qed

end
