(* ===== verification/Pe_Image.thy ===== *)
theory Pe_Image
  imports Pe_Parser Elf_Image
begin

unbundle bit_operations_syntax

text \<open>
  What \<open>PeParser::parse\<close> returns, against the layout of the file: the headers, sections, symbols and
  the relocation directory as the fields at their offsets.
\<close>

section \<open>The format\<close>

definition pe_base :: "bytes \<Rightarrow> u32" where
  "pe_base data = field little 60 4 data"

definition pe_header_fields :: "bytes \<Rightarrow> PeHeader" where
  "pe_header_fields data = (let bs = drop (unat (pe_base data)) data in
    \<lparr>ph_machine = field little 4 2 bs, ph_sections = field little 6 2 bs,
     ph_symbol_offset = field little 12 4 bs, ph_symbol_count = field little 16 4 bs,
     ph_optional_size = field little 20 2 bs, ph_characteristics = field little 22 2 bs\<rparr>)"

definition pe_optional_fields :: "bytes \<Rightarrow> PeOptional" where
  "pe_optional_fields data =
    (let bs = drop (unat (optional_offset (pe_base data))) data; magic = field little 0 2 bs :: u16 in
    \<lparr>po_wide = (magic = 0x20b), po_entry = field little 16 4 bs,
     po_image_base = (if magic = 0x20b then field little 24 8 bs else ucast (field little 28 4 bs :: u32)),
     po_section_alignment = field little 32 4 bs\<rparr>)"

definition pe_table_offset :: "bytes \<Rightarrow> u64" where
  "pe_table_offset data = optional_offset (pe_base data) + ucast (ph_optional_size (pe_header_fields data))"

text \<open>The nth section header is 40 bytes, but its flags are taken from the four bytes after it.\<close>

definition pe_section_at :: "bytes \<Rightarrow> nat \<Rightarrow> Section" where
  "pe_section_at data i =
    (let bs = drop (unat (pe_table_offset data) + i * 40) data;
         name = string_of_bytes (takeWhile (\<lambda>b. b \<noteq> 0) (take 8 bs));
         virtual_size = field little 8 4 bs :: u32; raw_len = field little 16 4 bs :: u32;
         flags = field little 40 4 bs :: u32 in
     \<lparr>sec_index = of_nat i, sec_name = name, sec_kind = pe_section_kind name flags,
      sec_file_offset = ucast (field little 20 4 bs :: u32), sec_file_size = ucast raw_len,
      sec_virtual_address = ucast (field little 12 4 bs :: u32),
      sec_memory_size = max (ucast virtual_size) (ucast raw_len),
      sec_alignment = ucast (po_section_alignment (pe_optional_fields data)), sec_entry_size = 0,
      sec_link = 0, sec_info = 0, sec_permissions = pe_permissions flags\<rparr>)"

definition pe_sections :: "bytes \<Rightarrow> Section list" where
  "pe_sections data = map (pe_section_at data) [0..<unat (ph_sections (pe_header_fields data))]"

definition section_in_file :: "nat \<Rightarrow> Section \<Rightarrow> bool" where
  "section_in_file len s \<longleftrightarrow> sec_file_size s = 0 \<or> unat (sec_file_offset s) + unat (sec_file_size s) \<le> len"

section \<open>Each read by its offsets\<close>

lemma read_fixed_string_eq:
  "reader_ok r \<Longrightarrow> read_fixed_string n r = (if unat n \<le> length (rd_rest r)
    then (Inr (string_of_bytes (takeWhile (\<lambda>b. b \<noteq> 0) (take (unat n) (rd_rest r)))), rd_advance (unat n) r)
    else (Inl (), r))"
  by (simp add: read_fixed_string_def rd_pointer_eq)

lemma past_string:
  assumes "pbind (read_fixed_string k) f r = (Inr x, r')" "past r0 n r"
    "\<And>r1. f (string_of_bytes (takeWhile (\<lambda>b. b \<noteq> 0) (take (unat k) (drop n (rd_rest r0))))) r1 = (Inr x, r') \<Longrightarrow>
      past r0 (n + unat k) r1 \<Longrightarrow> Q"
  shows Q
proof -
  have len: "unat k \<le> length (rd_rest r)"
    using assms(1) read_fixed_string_eq [OF past_ok [OF assms(2)]] by (auto simp: pbind_Inr split: if_splits)
  show Q
    using assms(1,3) len past_step [OF assms(2) len] read_fixed_string_eq [OF past_ok [OF assms(2)], of k]
    by (simp add: pbind_def)
qed

lemma without_error_Inr [simp]: "without_error p r = (Inr x, r') \<longleftrightarrow> p r = (Inr x, r')"
  by (simp add: without_error_def)

lemma pe_section_fields_at:
  assumes "pbind (read_fixed_string 8) (\<lambda>name. pbind pe_section_fields (\<lambda>x. preturn (name, x))) r = (Inr y, r')"
    "reader_ok r"
  shows "\<exists>n. past r n r' \<and> y = (string_of_bytes (takeWhile (\<lambda>b. b \<noteq> 0) (take 8 (rd_rest r))),
    field (rd_order r) 8 4 (rd_rest r), field (rd_order r) 12 4 (rd_rest r), field (rd_order r) 16 4 (rd_rest r),
    field (rd_order r) 20 4 (rd_rest r), field (rd_order r) 40 4 (rd_rest r))"
proof -
  obtain name x r1 r2 where "read_fixed_string 8 r = (Inr name, r1)" "pe_section_fields r1 = (Inr x, r2)"
    "y = (name, x)" "r2 = r'"
    using assms(1) by (auto simp: pbind_Inr)
  then have "pbind (read_fixed_string 8) (\<lambda>name. pbind read_u32 (\<lambda>virtual_size. pbind read_u32 (\<lambda>rva.
    pbind read_u32 (\<lambda>raw_len. pbind read_u32 (\<lambda>raw_at.
    pbind read_u32 (\<lambda>reloc. pbind read_u32 (\<lambda>line. pbind read_u32 (\<lambda>reloc_count. pbind read_u32 (\<lambda>line_count.
    pbind read_u32 (\<lambda>flags. preturn (name, virtual_size, rva, raw_len, raw_at, flags))))))))))) r = (Inr y, r')"
    by (auto simp: pe_section_fields_def pbind_Inr)
  then show ?thesis
    using past_0 [OF assms(2)]
    apply -
    apply (erule (1) past_string)
    apply (erule (1) past_reads)+
    apply auto
    done
qed

lemma read_pe_section_fields:
  assumes "read_pe_section (of_nat (length data)) table alignment i r = (Inr s, r')" "table_reader data little r"
    "unat (table + of_nat i * 40) = unat (pe_table_offset data) + i * 40"
    "unat (pe_table_offset data) + i * 40 \<le> length data"
    "alignment = po_section_alignment (pe_optional_fields data)" "length data < 2 ^ 64"
  shows "table_reader data little r' \<and>
    (section_in_file (length data) s \<and> unat (sec_file_size s) \<le> unat (sec_memory_size s)) \<and> s = pe_section_at data i"
proof -
  let ?size = "of_nat (length data) :: u64"
  have len: "unat ?size = length data" using assms(6) by (simp add: unat_of_nat_u64 del: unsigned_of_nat)
  obtain r1 where r1: "table_reader data little r1" "rd_rest r1 = drop (unat (pe_table_offset data) + i * 40) data"
    and p: "pbind (without_error (read_fixed_string 8)) (\<lambda>name.
    pbind (on_fail pe_section_fields (\<lambda>r. mk_error truncated (rd_position r) ''PE section header truncated''))
      (\<lambda>(virtual_size, rva, raw_len, raw_at, flags).
    pbind (pguard (\<lambda>_. \<not> (raw_len \<noteq> 0 \<and> \<not> range_inside (ucast raw_at) (ucast raw_len) ?size))
      (\<lambda>_. mk_error file_range_overflow (ucast raw_at) ''PE section outside file'')) (\<lambda>_.
    preturn \<lparr>sec_index = of_nat i, sec_name = name, sec_kind = pe_section_kind name flags,
      sec_file_offset = ucast raw_at, sec_file_size = ucast raw_len, sec_virtual_address = ucast rva,
      sec_memory_size = max (ucast virtual_size) (ucast raw_len), sec_alignment = ucast alignment,
      sec_entry_size = 0, sec_link = 0, sec_info = 0, sec_permissions = pe_permissions flags\<rparr>))) r1 = (Inr s, r')"
    using assms(1) unfolding read_pe_section_def
    by (rule try_seek_then [OF _ assms(2)]) (simp_all add: assms(3,4))
  obtain name vs rva raw_len raw_at flags where
    h: "pbind (read_fixed_string 8) (\<lambda>name. pbind pe_section_fields (\<lambda>x. preturn (name, x))) r1 =
      (Inr (name, vs, rva, raw_len, raw_at, flags), r')"
    and c: "raw_len = 0 \<or> range_inside (ucast raw_at) (ucast raw_len) ?size"
    and s: "s = \<lparr>sec_index = of_nat i, sec_name = name, sec_kind = pe_section_kind name flags,
      sec_file_offset = ucast raw_at, sec_file_size = ucast raw_len, sec_virtual_address = ucast rva,
      sec_memory_size = max (ucast vs) (ucast raw_len), sec_alignment = ucast alignment,
      sec_entry_size = 0, sec_link = 0, sec_info = 0, sec_permissions = pe_permissions flags\<rparr>"
    using p by (auto simp: pbind_Inr)
  note f = pe_section_fields_at [OF h conjunct1 [OF table_reader_reader [OF r1(1)]]]
  have "table_reader data little r'" using f table_reader_past [OF r1(1)] by blast
  moreover have "s = pe_section_at data i"
    using f table_reader_reader [OF r1(1)] by (auto simp: s pe_section_at_def Let_def r1(2) assms(5))
  moreover have "section_in_file (length data) s" "unat (sec_file_size s) \<le> unat (sec_memory_size s)"
    using c len by (auto simp: s section_in_file_def range_inside_iff max_def word_le_nat_alt simp del: unsigned_of_nat)
  ultimately show ?thesis by blast
qed

text \<open>The pointer and the two headers.\<close>

lemma pe_pointer_fields:
  assumes "pe_pointer (of_nat (length data)) r = (Inr peoff, r')" "table_reader data little r"
    "64 \<le> length data" "length data < 2 ^ 64"
  shows "table_reader data little r' \<and> peoff = pe_base data \<and> unat peoff + 24 \<le> length data"
proof -
  obtain r1 where sk: "rd_seek 60 r = (Inr (), r1)"
    and p: "pbind read_u32 (\<lambda>peoff. pbind (pcheck (\<lambda>_. range_inside (ucast peoff) 24 (of_nat (length data)))) (\<lambda>_.
      preturn peoff)) r1 = (Inr peoff, r')"
    using assms(1) by (auto simp: pe_pointer_def pbind_Inr)
  have "unat (60 :: u64) \<le> length data" using assms(3) by simp
  note tr = table_reader_seek [OF assms(2) this]
  then have r1: "table_reader data little r1" "rd_rest r1 = drop 60 data" using sk by simp_all
  note ok = table_reader_reader [OF r1(1)]
  have c: "range_inside (ucast peoff) 24 (of_nat (length data))" using p by (auto simp: pbind_Inr)
  have "unat (of_nat (length data) :: u64) = length data"
    using assms(4) by (simp add: unat_of_nat_u64 del: unsigned_of_nat)
  then have "unat peoff + 24 \<le> length data" using c by (simp add: range_inside_iff)
  moreover have "peoff = field little 0 4 (rd_rest r1) \<and> past r1 4 r'"
    using p past_0 [OF conjunct1 [OF ok]] ok
    apply -
    apply (erule (1) past_reads)+
    apply simp
    done
  ultimately show ?thesis
    using table_reader_past [OF r1(1), of 4 r'] by (simp add: pe_base_def field_def r1(2))
qed

lemma read_pe_header_fields:
  assumes "read_pe_header limits peoff r = (Inr h, r')" "table_reader data little r"
    "peoff = pe_base data" "unat peoff \<le> length data"
  shows "table_reader data little r' \<and> h = pe_header_fields data \<and> unat (ph_sections h) \<le> unat (max_sections limits)"
proof -
  obtain r1 where r1: "table_reader data little r1" "rd_rest r1 = drop (unat peoff) data"
    and p: "pbind read_u32 (\<lambda>signature. pbind (pcheck (\<lambda>_. signature = 0x00004550)) (\<lambda>_.
       pbind read_u16 (\<lambda>machine. pbind read_u16 (\<lambda>sections. pbind read_u32 (\<lambda>timestamp.
       pbind read_u32 (\<lambda>symbol_offset. pbind read_u32 (\<lambda>symbol_count.
       pbind read_u16 (\<lambda>optional_size. pbind read_u16 (\<lambda>characteristics.
       preturn \<lparr>ph_machine = machine, ph_sections = sections, ph_symbol_offset = symbol_offset,
         ph_symbol_count = symbol_count, ph_optional_size = optional_size,
         ph_characteristics = characteristics\<rparr>))))))))) r1 = (Inr h, r')"
    and c: "\<not> ucast (ph_sections h) > max_sections limits"
    using assms(1) unfolding read_pe_header_def
    apply (rule try_seek_then [OF _ assms(2)])
    apply (simp_all add: assms(4))
    apply (auto simp: pbind_Inr)
    done
  note ok = table_reader_reader [OF r1(1)]
  have "past r1 24 r' \<and> h = pe_header_fields data"
    using p past_0 [OF conjunct1 [OF ok]] ok
    apply -
    apply (erule (1) past_reads)+
    apply (simp add: pe_header_fields_def Let_def r1(2) assms(3) del: add_2_eq_Suc add_2_eq_Suc')
    done
  then show ?thesis
    using table_reader_past [OF r1(1)] c by (auto simp: word_less_nat_alt not_less)
qed

lemma past_image_base:
  assumes "pbind (read_image_base w) f r = (Inr x, r')" "past r0 n r"
    "\<And>r1. f (if w then field (rd_order r0) n 8 (rd_rest r0) else ucast (field (rd_order r0) (n + 4) 4 (rd_rest r0) :: u32)) r1
       = (Inr x, r') \<Longrightarrow> past r0 (n + 8) r1 \<Longrightarrow> Q"
  shows Q
proof (cases w)
  case True
  show ?thesis
    using assms(1) unfolding read_image_base_def if_P [OF True]
    by (rule past_u64 [OF _ assms(2)]) (rule assms(3); simp add: True)
next
  case False
  have "pbind read_u32 (\<lambda>data_base. pbind read_u32 (\<lambda>base. f (ucast base))) r = (Inr x, r')"
    using assms(1) unfolding read_image_base_def if_not_P [OF False] by (auto simp: pbind_Inr)
  then show ?thesis
    using assms(2)
    apply -
    apply (erule (1) past_u32)+
    apply (rule assms(3); simp add: False add.commute)
    done
qed

lemma read_pe_optional_fields:
  assumes "read_pe_optional (of_nat (length data)) optional optional_size r = (Inr opt, r')"
    "table_reader data little r" "optional = optional_offset (pe_base data)" "length data < 2 ^ 64"
  shows "table_reader data little r' \<and> opt = pe_optional_fields data \<and>
    unat optional + unat optional_size \<le> length data"
proof -
  have "range_inside optional (ucast optional_size) (of_nat (length data))"
    using assms(1) by (auto simp: read_pe_optional_def pbind_Inr)
  then have inside: "unat optional + unat optional_size \<le> length data"
    using assms(4) by (simp add: range_inside_iff unat_of_nat_u64 del: unsigned_of_nat)
  then have at: "unat optional \<le> length data" by simp
  let ?r1 = "r\<lparr>rd_position := optional\<rparr>"
  have seek: "pbind (rd_try_seek optional) f r = f () ?r1" for f :: "unit \<Rightarrow> (Error, PeOptional) parse"
    using table_reader_seek [OF assms(2) at] by (simp add: pbind_def rd_try_seek_def)
  obtain magic ra entry rb base rc sa where
    m: "pbind read_u16 (\<lambda>magic. pbind (pcheck (\<lambda>_. magic = 0x10b \<or> magic = 0x20b)) (\<lambda>_. preturn magic)) ?r1 = (Inr magic, ra)"
    and e: "pbind read_u8 (\<lambda>linker_major. pbind read_u8 (\<lambda>linker_minor. pbind read_u32 (\<lambda>code_size.
       pbind read_u32 (\<lambda>initialized. pbind read_u32 (\<lambda>uninitialized. pbind read_u32 (\<lambda>entry.
       pbind read_u32 (\<lambda>code_base. preturn entry))))))) ra = (Inr entry, rb)"
    and b: "read_image_base (magic = 0x20b) rb = (Inr base, rc)"
    and s: "pbind read_u32 (\<lambda>section_alignment. pbind read_u32 (\<lambda>file_alignment.
       pbind (pcheck (\<lambda>_. section_alignment \<noteq> 0 \<and> file_alignment \<noteq> 0)) (\<lambda>_. preturn section_alignment))) rc = (Inr sa, r')"
    and opt: "opt = \<lparr>po_wide = (magic = 0x20b), po_entry = entry, po_image_base = base, po_section_alignment = sa\<rparr>"
    using assms(1) unfolding read_pe_optional_def
    by (auto simp: seek pbind_Inr [where p = "on_fail _ _"] pbind_Inr [where p = "without_error _"]
        pbind_Inr [where p = "pguard _ _"])
  have r1: "table_reader data little ?r1" "rd_rest ?r1 = drop (unat optional) data"
    using table_reader_seek [OF assms(2) at] by simp_all
  note ok = table_reader_reader [OF r1(1)]
  have pm: "magic = field little 0 2 (rd_rest ?r1) \<and> past ?r1 2 ra"
    using m past_0 [OF conjunct1 [OF ok]] ok
    apply -
    apply (erule (1) past_reads)+
    apply (simp del: add_2_eq_Suc add_2_eq_Suc')
    done
  have pe: "entry = field little 16 4 (rd_rest ?r1) \<and> past ?r1 24 rb"
    using e conjunct2 [OF pm] ok
    apply -
    apply (erule (1) past_reads)+
    apply (simp del: add_2_eq_Suc add_2_eq_Suc')
    done
  have "pbind (read_image_base (magic = 0x20b)) (\<lambda>base. preturn base) rb = (Inr base, rc)" using b by simp
  then have pb: "base = (if magic = 0x20b then field little 24 8 (rd_rest ?r1)
      else ucast (field little 28 4 (rd_rest ?r1) :: u32)) \<and> past ?r1 32 rc"
    using conjunct2 [OF pe] ok
    apply -
    apply (erule (1) past_image_base)
    apply (erule (1) past_return)
    apply (simp del: add_2_eq_Suc add_2_eq_Suc')
    done
  have ps: "sa = field little 32 4 (rd_rest ?r1) \<and> past ?r1 40 r'"
    using s conjunct2 [OF pb] ok
    apply -
    apply (erule (1) past_reads)+
    apply (simp del: add_2_eq_Suc add_2_eq_Suc')
    done
  have "opt = pe_optional_fields data"
    unfolding opt pe_optional_fields_def Let_def assms(3) [symmetric] r1(2) [symmetric]
    using pm pe pb ps by simp
  then show ?thesis
    using table_reader_past [OF r1(1), of 40 r'] inside ps by blast
qed

section \<open>The symbol table\<close>

text \<open>The name of a symbol record: in the string table when its first four bytes are zero, else in place.\<close>

definition pe_symbol_text :: "bytes \<Rightarrow> u64 \<Rightarrow> u32 \<Rightarrow> bytes \<Rightarrow> string" where
  "pe_symbol_text data string_base string_size bs =
    (let name_offset = field little 4 4 bs :: u32 in
     if field little 0 4 bs = (0 :: u32) \<and> name_offset < string_size then
       (case read_c_string (reader_of data little) (string_base + ucast name_offset)
          (ucast (string_size - name_offset)) of None \<Rightarrow> [] | Some name \<Rightarrow> name)
     else string_of_bytes (takeWhile (\<lambda>b. b \<noteq> 0) (take 8 bs)))"

definition pe_symbol_at :: "bytes \<Rightarrow> u64 \<Rightarrow> u32 \<Rightarrow> bytes \<Rightarrow> nat \<Rightarrow> Symbol" where
  "pe_symbol_at data string_base string_size bs index =
    \<lparr>sym_index = of_nat index, sym_name = pe_symbol_text data string_base string_size bs,
     sym_binding = (if bs ! 16 = 2 then global else local_binding),
     sym_kind = (if field little 14 2 bs AND 0x20 \<noteq> (0 :: u16) then function_symbol else symbol_unknown),
     sym_section_index = ucast (field little 12 2 bs :: u16), sym_value = ucast (field little 8 4 bs :: u32),
     sym_size = 0, sym_visibility = 0, sym_library = []\<rparr>"

text \<open>The records that start a symbol: \<open>aux i\<close> is the number of auxiliary records after record \<open>i\<close>.\<close>

function symbol_slots :: "(nat \<Rightarrow> nat) \<Rightarrow> nat \<Rightarrow> nat \<Rightarrow> nat list" where
  "symbol_slots aux count i = (if i < count then i # symbol_slots aux count (i + aux i + 1) else [])"
  by pat_completeness auto
termination by (relation "measure (\<lambda>(aux, count, i). count - i)") auto

declare symbol_slots.simps [simp del]

definition pe_symbol_list :: "bytes \<Rightarrow> u64 \<Rightarrow> u64 \<Rightarrow> u32 \<Rightarrow> nat \<Rightarrow> Symbol list" where
  "pe_symbol_list data symbol_offset string_base string_size count =
    (let bs = \<lambda>i. drop (unat symbol_offset + i * 18) data in
     map (\<lambda>(k, i). pe_symbol_at data string_base string_size (bs i) k)
       (enumerate 0 (symbol_slots (\<lambda>i. unat (data ! (unat symbol_offset + i * 18 + 17))) count 0)))"

lemma read_or_at:
  assumes "reader_ok r"
  shows "n + 4 \<le> length (rd_rest r) \<Longrightarrow> read_or d4 read_u32 (rd_advance n r) =
      (Inr (field (rd_order r) n 4 (rd_rest r)), rd_advance (n + 4) r)"
    "n + 2 \<le> length (rd_rest r) \<Longrightarrow> read_or d2 read_u16 (rd_advance n r) =
      (Inr (field (rd_order r) n 2 (rd_rest r)), rd_advance (n + 2) r)"
    "n + 1 \<le> length (rd_rest r) \<Longrightarrow> read_or d1 read_u8 (rd_advance n r) =
      (Inr (rd_rest r ! n), rd_advance (n + 1) r)"
    "8 \<le> length (rd_rest r) \<Longrightarrow> read_or ds (read_fixed_string 8) r =
      (Inr (string_of_bytes (takeWhile (\<lambda>b. b \<noteq> 0) (take 8 (rd_rest r)))), rd_advance 8 r)"
proof -
  have ok: "reader_ok (rd_advance n r)" "rd_rest (rd_advance n r) = drop n (rd_rest r)"
    if "n + k \<le> length (rd_rest r)" for k
    using assms that by (simp_all add: reader_ok_advance rd_rest_advance)
  show "read_or d4 read_u32 (rd_advance n r) = (Inr (field (rd_order r) n 4 (rd_rest r)), rd_advance (n + 4) r)"
    if l: "n + 4 \<le> length (rd_rest r)"
  proof -
    have "\<not> length (drop n (rd_rest r)) < 4" using l by simp
    from read_u32_eq [OF ok(1) [OF l], unfolded ok(2) [OF l] if_not_P [OF this]] show ?thesis
      by (simp only: read_or_def prod.case sum.case field_def rd_advance_simps rd_advance_advance)
  qed
  show "read_or d2 read_u16 (rd_advance n r) = (Inr (field (rd_order r) n 2 (rd_rest r)), rd_advance (n + 2) r)"
    if l: "n + 2 \<le> length (rd_rest r)"
  proof -
    have "\<not> length (drop n (rd_rest r)) < 2" using l by simp
    from read_u16_eq [OF ok(1) [OF l], unfolded ok(2) [OF l] if_not_P [OF this]] show ?thesis
      by (simp only: read_or_def prod.case sum.case field_def rd_advance_simps rd_advance_advance)
  qed
  show "read_or d1 read_u8 (rd_advance n r) = (Inr (rd_rest r ! n), rd_advance (n + 1) r)"
    if l: "n + 1 \<le> length (rd_rest r)"
  proof -
    have "drop n (rd_rest r) = rd_rest r ! n # drop (Suc n) (rd_rest r)"
      using l by (simp add: Cons_nth_drop_Suc)
    then show ?thesis unfolding read_or_def by (subst read_u8_eq; use l in \<open>simp add: ok [of 1]\<close>)
  qed
  show "8 \<le> length (rd_rest r) \<Longrightarrow> read_or ds (read_fixed_string 8) r =
      (Inr (string_of_bytes (takeWhile (\<lambda>b. b \<noteq> 0) (take 8 (rd_rest r)))), rd_advance 8 r)"
    unfolding read_or_def by (subst read_fixed_string_eq; simp add: assms)
qed

lemma pbind_at: "p r = (Inr x, r') \<Longrightarrow> pbind p f r = f x r'"
  by simp

lemma pe_symbol_name_at:
  assumes "table_reader data little r" "unat at + 18 \<le> length data"
  shows "pe_symbol_name data string_base string_size at r =
    (Inr (pe_symbol_text data string_base string_size (drop (unat at) data)), rd_advance 8 (r\<lparr>rd_position := at\<rparr>))"
proof -
  let ?r1 = "r\<lparr>rd_position := at\<rparr>"
  have at: "unat at \<le> length data" using assms(2) by simp
  note tr = table_reader_seek [OF assms(1) at]
  then have r1: "table_reader data little ?r1" "rd_rest ?r1 = drop (unat at) data" by simp_all
  then have ok: "reader_ok ?r1" "rd_order ?r1 = little" by (simp_all only: table_reader_reader)
  have len: "18 \<le> length (rd_rest ?r1)" using assms(2) r1(2) by simp
  have seek: "rd_try_seek at r = (Inr (), ?r1)" using tr by (simp add: rd_try_seek_def)
  have "8 \<le> length (rd_rest ?r1)" using len by simp
  then have tr8: "table_reader data little (rd_advance 8 ?r1)" by (rule table_reader_advance [OF r1(1)])
  have "(rd_advance 8 ?r1)\<lparr>rd_position := at\<rparr> = ?r1" by (simp add: rd_advance_def)
  then have again: "rd_try_seek at (rd_advance 8 ?r1) = (Inr (), ?r1)"
    using table_reader_seek [OF tr8 at] by (simp add: rd_try_seek_def)
  have a0: "read_or 0 read_u32 ?r1 = (Inr (field little 0 4 (rd_rest ?r1)), rd_advance 4 ?r1)"
    using read_or_at(1) [OF ok(1), of 0 0] len ok(2) by simp
  have a4: "read_or 0 read_u32 (rd_advance 4 ?r1) = (Inr (field little 4 4 (rd_rest ?r1)), rd_advance 8 ?r1)"
    using read_or_at(1) [OF ok(1), of 4 0] len ok(2) by simp
  have as: "read_or [] (read_fixed_string 8) ?r1 =
      (Inr (string_of_bytes (takeWhile (\<lambda>b. b \<noteq> 0) (take 8 (rd_rest ?r1)))), rd_advance 8 ?r1)"
    using read_or_at(4) [OF ok(1)] len by simp
  show ?thesis
    unfolding pe_symbol_name_def pe_symbol_text_def Let_def pbind_at [where p = "rd_try_seek at", OF seek]
      pbind_at [where p = "read_or 0 read_u32", OF a0] pbind_at [where p = "read_or 0 read_u32", OF a4]
    by (simp add: r1(2) preturn_def pbind_def again as)
qed

lemma read_pe_symbol_at:
  assumes "table_reader data little r" "unat at + 18 \<le> length data"
  shows "\<exists>r'. read_pe_symbol data string_base string_size at index r =
    (Inr (pe_symbol_at data string_base string_size (drop (unat at) data) index, data ! (unat at + 17)), r') \<and>
    table_reader data little r'"
proof -
  let ?r1 = "r\<lparr>rd_position := at\<rparr>"
  have at: "unat at \<le> length data" using assms(2) by simp
  have r1: "table_reader data little ?r1" "rd_rest ?r1 = drop (unat at) data"
    using table_reader_seek [OF assms(1) at] by simp_all
  then have ok: "reader_ok ?r1" "rd_order ?r1 = little" by (simp_all only: table_reader_reader)
  have len: "18 \<le> length (rd_rest ?r1)" using assms(2) r1(2) by simp
  have a: "read_or 0 read_u32 (rd_advance 8 ?r1) = (Inr (field little 8 4 (rd_rest ?r1)), rd_advance 12 ?r1)"
    "read_or 0 read_u16 (rd_advance 12 ?r1) = (Inr (field little 12 2 (rd_rest ?r1)), rd_advance 14 ?r1)"
    "read_or 0 read_u16 (rd_advance 14 ?r1) = (Inr (field little 14 2 (rd_rest ?r1)), rd_advance 16 ?r1)"
    "read_or 0 read_u8 (rd_advance 16 ?r1) = (Inr (rd_rest ?r1 ! 16), rd_advance 17 ?r1)"
    "read_or 0 read_u8 (rd_advance 17 ?r1) = (Inr (rd_rest ?r1 ! 17), rd_advance 18 ?r1)"
    using read_or_at(1) [OF ok(1), of 8 0] read_or_at(2) [OF ok(1), of 12 0] read_or_at(2) [OF ok(1), of 14 0]
      read_or_at(3) [OF ok(1), of 16 0] read_or_at(3) [OF ok(1), of 17 0] len ok(2) by simp_all
  show ?thesis
    unfolding read_pe_symbol_def pbind_at [where p = "pe_symbol_name data string_base string_size at", OF pe_symbol_name_at [OF assms]]
      pbind_at [where p = "read_or 0 read_u32", OF a(1)] pbind_at [where p = "read_or 0 read_u16", OF a(2)]
      pbind_at [where p = "read_or 0 read_u16", OF a(3)] pbind_at [where p = "read_or 0 read_u8", OF a(4)]
      pbind_at [where p = "read_or 0 read_u8", OF a(5)]
    using table_reader_advance [OF r1(1) len] assms(2)
    by (simp add: preturn_def pe_symbol_at_def r1(2))
qed

lemma symbol_slots_stop: "\<not> i < count \<Longrightarrow> symbol_slots aux count i = []"
  by (simp add: symbol_slots.simps)

lemma read_pe_symbols_list:
  "read_pe_symbols data symbol_offset string_base string_size count i symbols r = (Inr out, r') \<Longrightarrow>
   table_reader data little r \<Longrightarrow> unat symbol_offset + count * 18 \<le> length data \<Longrightarrow> length data < 2 ^ 64 \<Longrightarrow>
   table_reader data little r' \<and>
   out = symbols @ map (\<lambda>(k, i). pe_symbol_at data string_base string_size (drop (unat symbol_offset + i * 18) data) k)
     (enumerate (length symbols) (symbol_slots (\<lambda>i. unat (data ! (unat symbol_offset + i * 18 + 17))) count i))"
proof (induction data symbol_offset string_base string_size count i symbols r rule: read_pe_symbols.induct)
  case (1 data symbol_offset string_base string_size count i symbols r)
  let ?aux = "\<lambda>i. unat (data ! (unat symbol_offset + i * 18 + 17))"
  show ?case
  proof (cases "i < count")
    case False
    then show ?thesis
      using 1 (2,3) by (subst (asm) read_pe_symbols.simps) (simp add: symbol_slots_stop)
  next
    case True
    let ?at = "symbol_offset + of_nat i * 18"
    have at: "unat ?at = unat symbol_offset + i * 18"
      using index_at [of symbol_offset count 18 "length data" i] 1 (4,5) True by simp
    then have fits: "unat ?at + 18 \<le> length data" using 1 (4) True by simp
    let ?s = "pe_symbol_at data string_base string_size (drop (unat ?at) data) (length symbols)"
    obtain r1 where rd: "read_pe_symbol data string_base string_size ?at (length symbols) r =
        (Inr (?s, data ! (unat ?at + 17)), r1)" and r1: "table_reader data little r1"
      using read_pe_symbol_at [OF 1 (3) fits] by blast
    have s: "?s = pe_symbol_at data string_base string_size (drop (unat symbol_offset + i * 18) data) (length symbols)"
      and aux: "unat (data ! (unat ?at + 17)) = ?aux i" by (simp_all add: at)
    have slots: "symbol_slots ?aux count i = i # symbol_slots ?aux count (i + (?aux i + 1))"
      using True by (subst symbol_slots.simps) simp
    have step: "read_pe_symbols data symbol_offset string_base string_size count i symbols r =
        (if ?aux i + 1 > count - i then (Inr (symbols @ [?s]), r1)
         else read_pe_symbols data symbol_offset string_base string_size count (i + (?aux i + 1)) (symbols @ [?s]) r1)"
      using True by (subst read_pe_symbols.simps) (simp add: rd aux Let_def)
    show ?thesis
    proof (cases "?aux i + 1 > count - i")
      case True
      then have "out = symbols @ [?s]" "r' = r1" using 1 (2) step by simp_all
      moreover have "\<not> i + (?aux i + 1) < count" using True by simp
      ultimately show ?thesis using r1 unfolding slots by (simp add: symbol_slots_stop s)
    next
      case False
      then have rest: "read_pe_symbols data symbol_offset string_base string_size count (i + (?aux i + 1)) (symbols @ [?s]) r1 = (Inr out, r')"
        using 1 (2) step by simp
      have "table_reader data little r' \<and> out = (symbols @ [?s]) @
          map (\<lambda>(k, i). pe_symbol_at data string_base string_size (drop (unat symbol_offset + i * 18) data) k)
            (enumerate (length (symbols @ [?s])) (symbol_slots ?aux count (i + (?aux i + 1))))"
        using 1 (1) [OF True rd [symmetric] refl refl] rest r1 1 (4,5) False aux
        by simp
      then show ?thesis unfolding slots by (simp add: s)
    qed
  qed
qed

definition pe_symbol_table :: "Limits \<Rightarrow> bytes \<Rightarrow> Symbol list" where
  "pe_symbol_table limits data =
    (let h = pe_header_fields data; file_size = of_nat (length data); count = ph_symbol_count h;
         offset = ucast (ph_symbol_offset h); table = ucast count * 18; string_base = offset + table in
     if count \<noteq> 0 \<and> count \<le> max_symbols limits \<and> range_inside offset table file_size then
       pe_symbol_list data offset string_base
         (if range_inside string_base 4 file_size then field little (unat string_base) 4 data else 0) (unat count)
     else [])"

text \<open>A field read at an offset, by a reader over the file.\<close>

lemma seek_read_at:
  assumes "table_reader data little r" "unat at + 4 \<le> length data"
  shows "u32_at at r =
      (Inr (field little (unat at) 4 data), rd_advance 4 (r\<lparr>rd_position := at\<rparr>))"
    "table_reader data little (rd_advance 4 (r\<lparr>rd_position := at\<rparr>))"
proof -
  let ?r1 = "r\<lparr>rd_position := at\<rparr>"
  have at: "unat at \<le> length data" using assms(2) by simp
  note tr = table_reader_seek [OF assms(1) at]
  have ok: "reader_ok ?r1" "rd_order ?r1 = little"
    using tr table_reader_reader [of data little ?r1] by blast+
  have len: "4 \<le> length (rd_rest ?r1)" using tr assms(2) by simp
  show "table_reader data little (rd_advance 4 ?r1)"
    using tr len table_reader_advance [of data little ?r1 4] by blast
  have "read_or 0 read_u32 ?r1 = (Inr (field little 0 4 (rd_rest ?r1)), rd_advance 4 ?r1)"
    using read_or_at(1) [OF ok(1), of 0 0] len ok(2) by simp
  then show "u32_at at r =
      (Inr (field little (unat at) 4 data), rd_advance 4 ?r1)"
    using tr by (simp add: u32_at_def pbind_def rd_try_seek_def field_def)
qed

lemma pe_symbols_fields:
  assumes "pe_symbols limits data (pe_header_fields data) r = (Inr symbols, r')" "table_reader data little r"
    "length data < 2 ^ 64"
  shows "table_reader data little r' \<and> symbols = pe_symbol_table limits data"
proof -
  let ?h = "pe_header_fields data" and ?size = "of_nat (length data) :: u64"
  let ?offset = "ucast (ph_symbol_offset ?h) :: u64" and ?table = "ucast (ph_symbol_count ?h) * 18 :: u64"
  let ?in = "ph_symbol_count ?h \<noteq> 0 \<and> ph_symbol_count ?h \<le> max_symbols limits \<and> range_inside ?offset ?table ?size"
  have size: "unat ?size = length data" using assms(3) by (simp add: unat_of_nat_u64 del: unsigned_of_nat)
  show ?thesis
  proof (cases ?in)
    case False
    then show ?thesis using assms(1,2) by (auto simp: pe_symbols_def pe_symbol_table_def Let_def)
  next
    case True
    have "unat ?table = unat (ph_symbol_count ?h) * 18"
      using unat_u32_bound [of "ph_symbol_count ?h"] by (subst unat_mult_lem [THEN iffD1]) simp_all
    then have fits: "unat ?offset + unat (ph_symbol_count ?h) * 18 \<le> length data"
      using True by (simp add: range_inside_iff size)
    let ?base = "?offset + ?table"
    let ?sz = "if range_inside ?base 4 ?size then field little (unat ?base) 4 data else 0 :: u32"
    obtain r1 where r1: "table_reader data little r1"
      and loop: "read_pe_symbols data ?offset ?base ?sz (unat (ph_symbol_count ?h)) 0 [] r1 = (Inr symbols, r')"
    proof (cases "range_inside ?base 4 ?size")
      case inside: True
      then have "unat ?base + 4 \<le> length data" by (simp add: range_inside_iff size)
      note rd = seek_read_at [OF assms(2) this]
      show thesis
        using assms(1) True inside rd that [OF rd(2)] by (simp add: pe_symbols_def Let_def)
    next
      case False
      then show thesis
        using assms(1,2) True that [of r] by (simp add: pe_symbols_def Let_def pbind_def preturn_def)
    qed
    from read_pe_symbols_list [OF loop r1 fits assms(3)] True show ?thesis
      by (simp add: pe_symbol_table_def pe_symbol_list_def Let_def)
  qed
qed

section \<open>The relocation directory\<close>

text \<open>Address and size of the base relocations, zero when the directory is not there.\<close>

definition directory_fields :: "bytes \<Rightarrow> u64 \<Rightarrow> u64 \<Rightarrow> u64 \<Rightarrow> u32 \<times> u32" where
  "directory_fields data count_at table_at table_end =
    (if range_inside count_at 4 (of_nat (length data)) \<and>
        directory_has (field little (unat count_at) 4 data) table_at table_end
     then (field little (unat (table_at + 40)) 4 data, field little (unat (table_at + 40) + 4) 4 data)
     else (0, 0))"

definition pe_directory :: "bytes \<Rightarrow> u32 \<times> u32" where
  "pe_directory data =
    (let optional = optional_offset (pe_base data); is_wide = po_wide (pe_optional_fields data) in
     directory_fields data (optional + (if is_wide then 108 else 92)) (optional + (if is_wide then 112 else 96))
       (pe_table_offset data))"

lemma directory_has_room:
  assumes "directory_has n table_at table_end" "unat table_end < 2 ^ 64"
  shows "unat (table_at + 40) + 8 \<le> unat table_end"
proof -
  have n: "5 < min n 16" "range_inside table_at (ucast (min n 16) * 8) table_end"
    using assms(1) by (simp_all add: directory_has_def Let_def)
  have k: "6 \<le> unat (min n 16)" "unat (min n 16) \<le> 16"
    using n(1) by (simp_all add: word_less_nat_alt word_le_nat_alt min_def split: if_splits)
  then have "unat (ucast (min n 16) * 8 :: u64) = unat (min n 16) * 8"
    by (subst unat_mult_lem [THEN iffD1]) simp_all
  then have le: "unat table_at + 48 \<le> unat table_end" using n(2) k by (simp add: range_inside_iff)
  then show ?thesis using unat_u64_bound [of table_end] by (subst unat_plus_bounded) simp_all
qed

lemma read_directory_fields:
  assumes "read_directory count_at table_at table_end r = (Inr x, r')" "table_reader data little r"
    "range_inside count_at 4 (of_nat (length data))" "length data < 2 ^ 64" "unat table_end \<le> length data"
  shows "x = directory_fields data count_at table_at table_end"
proof -
  have "unat count_at + 4 \<le> length data"
    using assms(3,4) by (simp add: range_inside_iff unat_of_nat_u64 del: unsigned_of_nat)
  note c = seek_read_at [OF assms(2) this]
  let ?n = "field little (unat count_at) 4 data" and ?r1 = "rd_advance 4 (r\<lparr>rd_position := count_at\<rparr>)"
  let ?at = "table_at + 40"
  have step: "(if directory_has ?n table_at table_end then
      pbind (u32_at (table_at + 5 * 8)) (\<lambda>rva. pbind (read_or 0 read_u32) (\<lambda>len. preturn (rva, len)))
    else preturn (0, 0)) ?r1 = (Inr x, r')"
    using assms(1) unfolding read_directory_def pbind_at [where p = "u32_at count_at", OF c(1)] .
  show ?thesis
  proof (cases "directory_has ?n table_at table_end")
    case False
    then show ?thesis using step by (simp add: directory_fields_def)
  next
    case True
    have at: "unat ?at + 8 \<le> length data"
      using directory_has_room [OF True] assms(4,5) by simp
    then have "unat ?at + 4 \<le> length data" by simp
    note t = seek_read_at [OF c(2) this]
    let ?r2 = "?r1\<lparr>rd_position := ?at\<rparr>"
    have tr: "table_reader data little ?r2" "rd_rest ?r2 = drop (unat ?at) data"
      using table_reader_seek [OF c(2), of ?at] at by simp_all
    have ok: "reader_ok ?r2" "rd_order ?r2 = little" using table_reader_reader [OF tr(1)] by simp_all
    have f: "read_or 0 read_u32 (rd_advance 4 ?r2) = (Inr (field little (unat ?at + 4) 4 data), rd_advance (4 + 4) ?r2)"
    proof -
      have "4 + 4 \<le> length (rd_rest ?r2)" using tr(2) at by simp
      from read_or_at(1) [OF ok(1) this] show ?thesis
        unfolding ok(2) tr(2) field_shift .
    qed
    have "pbind (u32_at ?at) (\<lambda>rva. pbind (read_or 0 read_u32) (\<lambda>len. preturn (rva, len))) ?r1 = (Inr x, r')"
      using step True by simp
    then have "x = (field little (unat ?at) 4 data, field little (unat ?at + 4) 4 data)"
      unfolding pbind_at [where p = "u32_at ?at", OF t(1)] by (simp add: pbind_def f preturn_def)
    then show ?thesis using True assms(3) by (simp add: directory_fields_def)
  qed
qed

lemma relocation_directory_fields:
  assumes "relocation_directory data (optional_offset (pe_base data)) (ph_optional_size (pe_header_fields data))
      (po_wide (pe_optional_fields data)) r = (Inr x, r')"
    "table_reader data little r" "length data < 2 ^ 64" "unat (pe_table_offset data) \<le> length data"
  shows "x = pe_directory data"
proof -
  let ?o = "optional_offset (pe_base data)" and ?w = "po_wide (pe_optional_fields data)"
  let ?count_at = "?o + (if ?w then 108 else 92)" and ?table_at = "?o + (if ?w then 112 else 96)"
  have d: "(if range_inside ?count_at 4 (of_nat (length data))
     then read_directory ?count_at ?table_at (pe_table_offset data) else preturn (0, 0)) r = (Inr x, r')"
    using assms(1) unfolding relocation_directory_def Let_def pe_table_offset_def .
  show ?thesis
  proof (cases "range_inside ?count_at 4 (of_nat (length data))")
    case True
    with d have "read_directory ?count_at ?table_at (pe_table_offset data) r = (Inr x, r')" by (simp only: if_P)
    from read_directory_fields [OF this assms(2) True assms(3,4)] show ?thesis
      unfolding pe_directory_def Let_def .
  next
    case False
    with d have "x = (0, 0)" by (simp only: if_not_P) simp
    then show ?thesis
      unfolding pe_directory_def Let_def directory_fields_def using False by (simp only: simp_thms if_False)
  qed
qed

section \<open>The whole file\<close>

definition pe_image_but_relocations :: "Limits \<Rightarrow> bytes \<Rightarrow> BinaryImage" where
  "pe_image_but_relocations limits data =
    empty_image\<lparr>img_header := pe_header_of (pe_header_fields data) (pe_optional_fields data) (pe_table_offset data),
      img_sections := pe_sections data, img_segments := map section_segment (pe_sections data),
      img_symbols := pe_symbol_table limits data, img_file_data := Some data\<rparr>"

lemma pe_body_fields:
  assumes b: "pe_body limits data (reader_of data little) = (Inr img, r')"
    and len: "length data < 2 ^ 64" "64 \<le> length data"
  shows "\<exists>relocs. img = (pe_image_but_relocations limits data)\<lparr>img_relocations := relocs\<rparr> \<and>
    pe_relocations limits data (pe_image_but_relocations limits data) (fst (pe_directory data)) (snd (pe_directory data))
      = Inr relocs \<and>
    unat (ph_sections (pe_header_fields data)) \<le> unat (max_sections limits) \<and>
    (\<forall>s \<in> set (pe_sections data). section_in_file (length data) s \<and> unat (sec_file_size s) \<le> unat (sec_memory_size s))"
proof -
  let ?tr = "table_reader data little" and ?size = "of_nat (length data) :: u64"
  have size: "unat ?size = length data" using len by (simp add: unat_of_nat_u64 del: unsigned_of_nat)
  obtain peoff r1 h r2 opt r3 sections r4 symbols r5 rva dlen r6 relocs where
    p: "pe_pointer ?size (reader_of data little) = (Inr peoff, r1)"
    and h: "read_pe_header limits peoff r1 = (Inr h, r2)"
    and opt: "read_pe_optional ?size (optional_offset peoff) (ph_optional_size h) r2 = (Inr opt, r3)"
    and fits: "pe_table_fits ?size (optional_offset peoff + ucast (ph_optional_size h)) (ph_sections h)"
    and secs: "pfor 0 (unat (ph_sections h)) (read_pe_section ?size (optional_offset peoff + ucast (ph_optional_size h))
        (po_section_alignment opt)) r3 = (Inr sections, r4)"
    and syms: "pe_symbols limits data h r4 = (Inr symbols, r5)"
    and dir: "relocation_directory data (optional_offset peoff) (ph_optional_size h) (po_wide opt) r5 = (Inr (rva, dlen), r6)"
    and rel: "pe_relocations limits data (empty_image\<lparr>img_header := pe_header_of h opt
          (optional_offset peoff + ucast (ph_optional_size h)), img_sections := sections,
          img_segments := map section_segment sections, img_symbols := symbols, img_file_data := Some data\<rparr>) rva dlen = Inr relocs"
    and img: "img = (empty_image\<lparr>img_header := pe_header_of h opt
          (optional_offset peoff + ucast (ph_optional_size h)), img_sections := sections,
          img_segments := map section_segment sections, img_symbols := symbols, img_file_data := Some data\<rparr>)
        \<lparr>img_relocations := relocs\<rparr>"
    using b unfolding pe_body_def Let_def pbind_Inr pguard_Inr plift_Inr preturn_Inr
    by (elim exE conjE) (simp only: prod.case_eq_if pbind_Inr plift_Inr preturn_Inr, metis prod.collapse)
  have pf: "?tr r1" "peoff = pe_base data" "unat peoff + 24 \<le> length data"
    using pe_pointer_fields [OF p table_reader_of [OF len(1)] len(2,1)] by blast+
  then have "unat peoff \<le> length data" by simp
  note hf = read_pe_header_fields [OF h pf(1,2) this]
  then have h': "?tr r2" "h = pe_header_fields data" "unat (ph_sections h) \<le> unat (max_sections limits)" by blast+
  have of: "?tr r3" "opt = pe_optional_fields data"
      "unat (optional_offset peoff) + unat (ph_optional_size h) \<le> length data"
    using read_pe_optional_fields [OF opt h'(1) arg_cong [OF pf(2)] len(1)] by blast+
  have t: "optional_offset peoff + ucast (ph_optional_size h) = pe_table_offset data"
    by (simp add: pe_table_offset_def pf(2) h'(2))
  have table: "unat (pe_table_offset data) \<le> length data"
    using of(3) len(1) unfolding t [symmetric] by (subst unat_plus_bounded) simp_all
  let ?n = "unat (ph_sections h)"
  have room: "unat (pe_table_offset data) + ?n * 40 \<le> length data"
  proof -
    obtain tb where tb: "checked_multiply (ucast (ph_sections h)) 40 = Some tb" "range_inside (pe_table_offset data) tb ?size"
      using fits unfolding t by (auto simp: pe_table_fits_def split: option.splits)
    have "unat tb = ?n * 40" using mul_op.SomeD [OF tb(1)] by simp
    then show ?thesis using tb(2) by (simp add: range_inside_iff size)
  qed
  let ?ok = "\<lambda>s. section_in_file (length data) s \<and> unat (sec_file_size s) \<le> unat (sec_memory_size s)"
  have "?tr r4 \<and> list_all ?ok sections \<and> sections = map (pe_section_at data) [0..<0 + ?n]"
  proof (rule pfor_Inr [where I = ?tr, OF _ secs of(1)])
    fix k ra x rb
    assume k: "k < 0 + ?n" "?tr ra"
      and d: "read_pe_section ?size (optional_offset peoff + ucast (ph_optional_size h)) (po_section_alignment opt) k ra = (Inr x, rb)"
    have "unat (pe_table_offset data + of_nat k * 40) = unat (pe_table_offset data) + k * 40"
      "unat (pe_table_offset data) + k * 40 \<le> length data"
      using index_at [of "pe_table_offset data" ?n 40 "length data" k] room len(1) k(1) by simp_all
    then show "?tr rb \<and> ?ok x \<and> x = pe_section_at data k"
      using read_pe_section_fields [OF d [unfolded t] k(2)] of(2) len(1) by blast
  qed
  then have sf: "?tr r4" "list_all ?ok sections" "sections = pe_sections data"
    unfolding pe_sections_def h'(2) [symmetric] add_0 by blast+
  have yf: "?tr r5" "symbols = pe_symbol_table limits data"
    using pe_symbols_fields [OF syms [unfolded h'(2)] sf(1) len(1)] by blast+
  have df: "(rva, dlen) = pe_directory data"
    using relocation_directory_fields [OF dir [unfolded pf(2) h'(2) of(2)] yf(1) len(1) table] .
  have shape: "empty_image\<lparr>img_header := pe_header_of h opt
          (optional_offset peoff + ucast (ph_optional_size h)), img_sections := sections,
          img_segments := map section_segment sections, img_symbols := symbols, img_file_data := Some data\<rparr> =
      pe_image_but_relocations limits data"
    unfolding pe_image_but_relocations_def t
    unfolding h'(2) of(2) sf(3) yf(2) ..
  have "fst (pe_directory data) = rva" "snd (pe_directory data) = dlen" using df by (metis fst_conv, metis snd_conv)
  then show ?thesis
    using rel img h'(3) sf(2) unfolding shape sf(3) [symmetric] h'(2) [symmetric] list_all_iff by blast
qed

lemma pe_parse_body:
  assumes "pe_parse limits (Some data) = Inr img"
  shows "64 \<le> length data \<and> data ! 0 = 0x4d \<and> data ! 1 = 0x5a \<and>
    (\<exists>r'. pe_body limits data (reader_of data little) = (Inr img, r'))"
  using assms by (auto simp: pe_parse_def intro!: prod_eqI split: if_splits)

text \<open>A file with one section, whose four bytes are the four after the section table.\<close>

definition demo_pe :: bytes where
  "demo_pe = [0x4d, 0x5a] @ replicate 58 0 @ [64, 0, 0, 0] @
     [0x50, 0x45, 0, 0, 0x4c, 1, 1, 0, 0, 0, 0, 0, 0, 0, 0, 0, 0, 0, 0, 0, 40, 0, 0, 0] @
     [0x0b, 1, 0, 0] @ replicate 12 0 @ [0, 16, 0, 0] @ replicate 8 0 @ [0, 0, 64, 0, 0, 16, 0, 0, 0, 2, 0, 0] @
     [0x2e, 0x74, 0x65, 0x78, 0x74, 0, 0, 0] @ [8, 0, 0, 0, 0, 16, 0, 0, 4, 0, 0, 0, 168, 0, 0, 0] @
     replicate 12 0 @ [0, 0, 0, 0] @ [0, 0, 0, 0x20]"

lemma demo_pe_parses: "map_sum id img_sections (pe_parse demo_limits (Some demo_pe)) =
    Inr [\<lparr>sec_index = 0, sec_name = ''.text'', sec_kind = program_bits, sec_file_offset = 168, sec_file_size = 4,
      sec_virtual_address = 0x1000, sec_memory_size = 8, sec_alignment = 0x1000, sec_entry_size = 0, sec_link = 0,
      sec_info = 0, sec_permissions = permission_execute\<rparr>]"
  by code_simp

text \<open>
  The characteristics in the section header of the demo, its last four bytes, are zero; the permissions
  come from the bytes after it.
\<close>

lemma section_flags_misplaced:
  "take 4 (drop (128 + 36) demo_pe) = [0, 0, 0, 0]"
  "map_sum id (map sec_permissions \<circ> img_sections) (pe_parse demo_limits (Some demo_pe)) = Inr [permission_execute]"
  by code_simp+

text \<open>The entry point is an address, the sections and segments are at offsets from the image base.\<close>

lemma pe_entry_outside_sections:
  "map_sum id (hdr_entry_point \<circ> img_header) (pe_parse demo_limits (Some demo_pe)) = Inr 0x401000"
  "map_sum id (map (\<lambda>s. (seg_virtual_address s, seg_memory_size s)) \<circ> img_segments) (pe_parse demo_limits (Some demo_pe)) =
    Inr [(0x1000, 8)]"
  by code_simp+

text \<open>An optional header cut before the image base ends the parse without an error.\<close>

lemma pe_fails_silently:
  "pe_parse demo_limits (Some (take 84 demo_pe @ [24, 0, 0, 0] @ take 24 (drop 88 demo_pe))) = Inl no_error"
  by code_simp

end
