(* ===== verification/Binary_Parser.thy ===== *)
theory Binary_Parser
  imports Macho_Parser Pe_Image
begin

unbundle bit_operations_syntax

text \<open>
  \<open>BinaryParser\<close> of \<open>src/parser.cc\<close>: the format is told by the first bytes and its parser run. The
  second half shows what all three parsers establish of the image they return.
\<close>

section \<open>Dispatch\<close>

definition detect :: "bytes option \<Rightarrow> BinaryFormat" where
  "detect input =
    (case input of None \<Rightarrow> format_unknown
     | Some data \<Rightarrow>
       if length data < 4 then format_unknown
       else if data ! 0 = 0x7f \<and> data ! 1 = 0x45 \<and> data ! 2 = 0x4c \<and> data ! 3 = 0x46 then elf_like
       else if data ! 0 = 0x4d \<and> data ! 1 = 0x5a then pe_like
       else if mach_known (mach_magic data) then macho_like
       else format_unknown)"

definition parse_binary :: "Limits \<Rightarrow> bytes option \<Rightarrow> Error + BinaryImage" where
  "parse_binary limits input =
    (case (case input of None \<Rightarrow> None | Some data \<Rightarrow> if length data < 4 then None else Some data) of
       None \<Rightarrow> Inl (mk_error truncated 0 ''binary header is truncated'')
     | Some data \<Rightarrow>
       if of_nat (length data) > max_file_size limits
       then Inl (mk_error resource_limit 0 ''binary exceeds file limit'')
       else case detect input of
         elf_like \<Rightarrow> elf_parse limits (Some data)
       | pe_like \<Rightarrow> pe_parse limits (Some data)
       | macho_like \<Rightarrow> mach_parse limits (Some data)
       | format_unknown \<Rightarrow> Inl (mk_error bad_magic 0 ''unknown executable signature''))"

section \<open>What every parser establishes\<close>

definition segment_in_file :: "nat \<Rightarrow> Segment \<Rightarrow> bool" where
  "segment_in_file len s \<longleftrightarrow> seg_file_size s = 0 \<or> unat (seg_file_offset s) + unat (seg_file_size s) \<le> len"

text \<open>The sections from index \<open>n\<close> on, numbered by position, each with its file data in the file.\<close>

definition sections_ok :: "nat \<Rightarrow> nat \<Rightarrow> Section list \<Rightarrow> bool" where
  "sections_ok len n ss \<longleftrightarrow> (\<forall>i < length ss. sec_index (ss ! i) = of_nat (n + i) \<and>
     (sec_kind (ss ! i) = no_bits \<or> section_in_file len (ss ! i)))"

definition segments_ok :: "nat \<Rightarrow> Segment list \<Rightarrow> bool" where
  "segments_ok len ss \<longleftrightarrow> (\<forall>s \<in> set ss. segment_in_file len s \<and> seg_file_size s \<le> seg_memory_size s)"

definition parsed_ok :: "Limits \<Rightarrow> bytes \<Rightarrow> BinaryImage \<Rightarrow> bool" where
  "parsed_ok limits data img \<longleftrightarrow>
     img_file_data img = Some data \<and> hdr_format (img_header img) = detect (Some data) \<and>
     sections_ok (length data) 0 (img_sections img) \<and> segments_ok (length data) (img_segments img) \<and>
     length (img_sections img) \<le> unat (max_sections limits) \<and>
     (if detect (Some data) = elf_like then length (img_segments img) \<le> unat (max_segments limits)
      else length (img_segments img) \<le> unat (max_sections limits) \<and>
        length (img_symbols img) \<le> unat (max_symbols limits)) \<and>
     length (img_relocations img) \<le> unat (max_relocations limits)"

lemma sections_ok_Nil [simp]: "sections_ok len n []"
  by (simp add: sections_ok_def)

lemma sections_ok_snoc:
  "sections_ok len n (ss @ [s]) \<longleftrightarrow> sections_ok len n ss \<and> sec_index s = of_nat (n + length ss) \<and>
     (sec_kind s = no_bits \<or> section_in_file len s)"
  by (auto simp: sections_ok_def nth_append less_Suc_eq)

lemma segments_ok_append [simp]:
  "segments_ok len (xs @ ys) \<longleftrightarrow> segments_ok len xs \<and> segments_ok len ys"
  by (auto simp: segments_ok_def)

subsection \<open>Mach-O\<close>

lemma mach_relocations_limit:
  assumes "mach_relocations limits data h s m relocs = Inr out" "length relocs \<le> unat (max_relocations limits)"
  shows "length out \<le> unat (max_relocations limits)"
proof -
  have "grows limits relocs (snd (decode_macho limits d n opts relocs))" for d n opts
    using grows_macho [OF surjective_pairing] by (simp add: decode_macho_def)
  then have "length (snd (decode_macho limits d n opts relocs)) \<le> max (length relocs) (unat (max_relocations limits))" for d n opts
    by (simp add: grows_def)
  then show ?thesis
    using assms unfolding mach_relocations_def Let_def
    by (auto split: option.splits if_splits prod.splits sum.splits) (metis max.absorb2 snd_conv)
qed

text \<open>The sections and relocations read so far are within the limits and the file.\<close>

definition mach_ok :: "Limits \<Rightarrow> nat \<Rightarrow> Section list \<times> Relocation list \<Rightarrow> bool" where
  "mach_ok limits len acc \<longleftrightarrow> sections_ok len 0 (fst acc) \<and> length (snd acc) \<le> unat (max_relocations limits)"

lemma mach_section_ok:
  assumes "mach_section limits data h w perms acc r = (Inr acc', r')" "mach_ok limits (length data) acc"
    "length data < 2 ^ 64"
  shows "mach_ok limits (length data) acc' \<and> length (fst acc') = Suc (length (fst acc))"
proof -
  obtain sections relocs where acc: "acc = (sections, relocs)" by force
  obtain m relocs' where m: "zero_fill m \<or> range_inside (ucast (ms_offset m)) (ms_size m) (of_nat (length data))"
    and r: "mach_relocations limits data h (mach_section_of (length sections) perms m) m relocs = Inr relocs'"
    and out: "acc' = (sections @ [mach_section_of (length sections) perms m], relocs')"
    using assms(1) by (auto simp: mach_section_def acc pbind_Inr Let_def)
  let ?s = "mach_section_of (length sections) perms m"
  have "section_in_file (length data) ?s"
    using m assms(3)
    by (auto simp: mach_section_of_def section_in_file_def range_inside_iff unat_of_nat_u64 simp del: unsigned_of_nat)
  moreover have "sec_index ?s = of_nat (0 + length sections)" by (simp add: mach_section_of_def)
  ultimately show ?thesis
    using assms(2) mach_relocations_limit [OF r] by (simp add: mach_ok_def out acc sections_ok_snoc)
qed

lemma mach_sections_ok:
  "mach_sections limits data h w perms n acc r = (Inr acc', r') \<Longrightarrow> mach_ok limits (length data) acc \<Longrightarrow>
   length data < 2 ^ 64 \<Longrightarrow> mach_ok limits (length data) acc' \<and> length (fst acc') = length (fst acc) + n"
proof (induction n arbitrary: acc r)
  case (Suc n)
  from Suc.prems(1) obtain acc1 r1 where d: "mach_section limits data h w perms acc r = (Inr acc1, r1)"
    "mach_sections limits data h w perms n acc1 r1 = (Inr acc', r')" by (auto simp: pbind_Inr)
  from mach_section_ok [OF d(1) Suc.prems(2,3)] Suc.IH [OF d(2) _ Suc.prems(3)] show ?case by simp
qed simp

definition mach_image_ok :: "Limits \<Rightarrow> nat \<Rightarrow> MachImage \<Rightarrow> bool" where
  "mach_image_ok limits len img \<longleftrightarrow> mach_ok limits len (mi_sections img, mi_relocations img) \<and>
     segments_ok len (mi_segments img) \<and> length (mi_sections img) \<le> unat (max_sections limits)"

lemma mach_segment_ok:
  assumes "mach_segment limits data h cursor w img r = (Inr img', r')" "mach_image_ok limits (length data) img"
    "length data < 2 ^ 64"
  shows "mach_image_ok limits (length data) img' \<and> length (mi_segments img') = Suc (length (mi_segments img))"
proof -
  have size: "unat (of_nat (length data) :: u64) = length data"
    using assms(3) by (simp add: unat_of_nat_u64 del: unsigned_of_nat)
  obtain vmaddr vmsize fileoff filesize and initprot nsects :: u32 and r1 sections relocs where
    g: "\<not> (ucast nsects > (ucast (max_sections limits) - of_nat (length (mi_sections img)) :: u64) \<or>
        filesize > vmsize \<or> \<not> range_inside fileoff filesize (of_nat (length data)))"
    and s: "mach_sections limits data h w (macho_protection initprot) (unat nsects)
        (mi_sections img, mi_relocations img) r1 = (Inr (sections, relocs), r')"
    and out: "img' = \<lparr>mi_sections = sections,
      mi_segments = mi_segments img @ [\<lparr>seg_index = of_nat (length (mi_segments img)),
        seg_file_offset = fileoff, seg_file_size = filesize, seg_virtual_address = vmaddr,
        seg_memory_size = vmsize, seg_alignment = ucast (page_size limits),
        seg_permissions = macho_protection initprot,
        seg_sections = map sec_index (drop (length (mi_sections img)) sections)\<rparr>],
      mi_relocations = relocs\<rparr>"
    using assms(1) by (auto simp: mach_segment_def pbind_Inr)
  have n: "length (mi_sections img) \<le> unat (max_sections limits)"
    using assms(2) by (simp add: mach_image_ok_def)
  have "unat (of_nat (length (mi_sections img)) :: u64) = length (mi_sections img)"
    using n unat_u32_bound [of "max_sections limits"] by (intro unat_of_nat_u64) simp
  moreover from this have "unat (ucast (max_sections limits) - of_nat (length (mi_sections img)) :: u64) =
      unat (max_sections limits) - length (mi_sections img)"
    using n by (subst unat_sub) (simp_all add: word_le_nat_alt del: unsigned_of_nat)
  ultimately have "unat nsects \<le> unat (max_sections limits) - length (mi_sections img)"
    using g by (simp add: word_less_nat_alt not_less del: unsigned_of_nat)
  moreover have "mach_ok limits (length data) (sections, relocs) \<and> length sections = length (mi_sections img) + unat nsects"
    using mach_sections_ok [OF s _ assms(3)] assms(2) by (simp add: mach_image_ok_def)
  ultimately show ?thesis
    using assms(2) g n
    by (auto simp: mach_image_ok_def out segments_ok_def segment_in_file_def range_inside_iff size)
qed

lemma mach_commands_ok:
  "mach_commands limits data h n cursor img r = (Inr img', r') \<Longrightarrow> mach_image_ok limits (length data) img \<Longrightarrow>
   length data < 2 ^ 64 \<Longrightarrow> mach_image_ok limits (length data) img' \<and>
   length (mi_segments img') \<le> length (mi_segments img) + n"
proof (induction n arbitrary: cursor img r)
  case (Suc n)
  from Suc.prems(1) obtain command :: u32 and len :: u32 and r1 img1 r2 where
    s: "(if command = 1 \<or> command = 0x19 then mach_segment limits data h cursor (command = 0x19) img else preturn img) r1
      = (Inr img1, r2)"
    and rest: "mach_commands limits data h n (cursor + ucast len) img1 r2 = (Inr img', r')"
    by (auto simp: pbind_Inr)
  have "mach_image_ok limits (length data) img1 \<and> length (mi_segments img1) \<le> Suc (length (mi_segments img))"
    using s mach_segment_ok [of limits data h cursor "command = 0x19" img r1 img1 r2] Suc.prems(2,3)
    by (auto split: if_splits)
  with Suc.IH [OF rest _ Suc.prems(3)] show ?case by auto
qed simp

lemma mach_parse_ok:
  assumes "mach_parse limits (Some data) = Inr img" "length data < 2 ^ 64" "detect (Some data) = macho_like"
  shows "parsed_ok limits data img"
proof -
  let ?raw = "mach_magic data"
  have "fst (mach_body limits data (mach_wide ?raw) (mach_order ?raw) (reader_of data (mach_order ?raw))) = Inr img"
    using assms(1) by (auto simp: mach_parse_def split: if_splits)
  then obtain r' where b: "mach_body limits data (mach_wide ?raw) (mach_order ?raw) (reader_of data (mach_order ?raw)) = (Inr img, r')"
    by (metis prod.collapse)
  let ?empty = "\<lparr>mi_sections = [], mi_segments = [], mi_relocations = []\<rparr>"
  obtain h r1 mi where n: "\<not> mh_command_count h > max_sections limits"
    and c: "mach_commands limits data (mach_header_of (mach_wide ?raw) (mach_order ?raw) h) (unat (mh_command_count h))
      (commands_offset (mach_wide ?raw)) ?empty r1 = (Inr mi, r')"
    and img: "img = empty_image\<lparr>img_header := (mach_header_of (mach_wide ?raw) (mach_order ?raw) h)
        \<lparr>hdr_section_count := of_nat (length (mi_sections mi))\<rparr>,
      img_sections := mi_sections mi, img_segments := mi_segments mi,
      img_relocations := mi_relocations mi, img_file_data := Some data\<rparr>"
    using b by (auto simp: mach_body_def pbind_Inr Let_def)
  have "mach_image_ok limits (length data) ?empty" by (simp add: mach_image_ok_def mach_ok_def segments_ok_def)
  from mach_commands_ok [OF c this assms(2)] n show ?thesis
    by (simp add: parsed_ok_def img mach_image_ok_def mach_ok_def assms(3) mach_header_of_def word_less_nat_alt not_less
      empty_image_def)
qed

subsection \<open>PE and ELF\<close>

lemma pe_relocations_limit:
  "pe_relocations limits data img rva len = Inr out \<Longrightarrow> length out \<le> unat (max_relocations limits)"
proof -
  have "grows limits [] (snd (decode_pe_base limits d n base []))" for d n base
    unfolding decode_pe_base_def by (rule grows_pe_blocks [OF surjective_pairing])
  then have g: "length (snd (decode_pe_base limits d n base [])) \<le> unat (max_relocations limits)" for d n base
    by (simp add: grows_def)
  show "pe_relocations limits data img rva len = Inr out \<Longrightarrow> length out \<le> unat (max_relocations limits)"
    using g unfolding pe_relocations_def
    by (auto split: option.splits if_splits prod.splits sum.splits) (metis snd_conv)
qed

lemma symbol_slots_count: "length (symbol_slots aux count i) \<le> count - i"
proof (induction aux count i rule: symbol_slots.induct)
  case (1 aux count i)
  then show ?case by (cases "i < count") (subst symbol_slots.simps, force)+
qed

lemma pe_symbols_limit: "length (pe_symbol_table limits data) \<le> unat (max_symbols limits)"
proof -
  have "n \<le> m \<Longrightarrow> length (pe_symbol_list data a b c n) \<le> m" for a b c n m
    using symbol_slots_count [of _ n 0] order_trans by (simp add: pe_symbol_list_def Let_def) blast
  then show ?thesis
    by (auto simp: pe_symbol_table_def Let_def word_le_nat_alt)
qed

lemma pe_parse_ok:
  assumes "pe_parse limits (Some data) = Inr img" "length data < 2 ^ 64" "detect (Some data) = pe_like"
  shows "parsed_ok limits data img"
proof -
  obtain r' where b: "pe_body limits data (reader_of data little) = (Inr img, r')" and l: "64 \<le> length data"
    using pe_parse_body [OF assms(1)] by blast
  obtain relocs where img: "img = (pe_image_but_relocations limits data)\<lparr>img_relocations := relocs\<rparr>"
    and r: "length relocs \<le> unat (max_relocations limits)"
    and n: "unat (ph_sections (pe_header_fields data)) \<le> unat (max_sections limits)"
    and s: "\<forall>s \<in> set (pe_sections data). section_in_file (length data) s \<and> unat (sec_file_size s) \<le> unat (sec_memory_size s)"
    using pe_body_fields [OF b assms(2) l] pe_relocations_limit by blast
  have "sections_ok (length data) 0 (pe_sections data)"
    using s by (auto simp: sections_ok_def pe_sections_def pe_section_at_def Let_def)
  moreover have "segments_ok (length data) (map section_segment (pe_sections data))"
    using s by (auto simp: segments_ok_def segment_in_file_def section_in_file_def section_segment_def word_le_nat_alt)
  moreover have "length (pe_sections data) \<le> unat (max_sections limits)" using n by (simp add: pe_sections_def)
  ultimately show ?thesis
    using r pe_symbols_limit by (simp add: parsed_ok_def img pe_image_but_relocations_def assms(3) pe_header_of_def)
qed

lemma elf_parse_ok:
  assumes "elf_parse limits (Some data) = Inr img" "length data < 2 ^ 64" "detect (Some data) = elf_like"
  shows "parsed_ok limits data img"
proof -
  let ?w = "elf_word data" and ?o = "elf_order data"
  let ?raws = "raw_sections ?w ?o data" and ?h = "header_fields ?w ?o data"
  obtain r' where "elf_body limits data ?w ?o (reader_of data ?o) = (Inr img, r')"
    using elf_parse_body [OF assms(1)] by blast
  note f = elf_body_fields [OF this assms(2), unfolded Let_def]
  have secs: "img_sections img = map (elf_section limits data (eh_names_index ?h) ?raws) [0..<length ?raws]"
    using f by (simp add: elf_sections_def Let_def)
  have nr: "length ?raws = unat (eh_section_count ?h)" by (simp add: raw_sections_def Let_def)
  have "list_all (raw_in_file data) ?raws" using f by blast
  then have "sections_ok (length data) 0 (img_sections img)"
    by (auto simp: secs sections_ok_def elf_section_def Let_def no_bits_kind section_in_file_def
        list_all_length raw_in_file_def)
  moreover have "segments_ok (length data) (img_segments img)"
    using f assms(2)
    by (auto simp: segments_ok_def segment_in_file_def range_inside_iff unat_of_nat_u64 simp del: unsigned_of_nat)
  moreover have "length (img_segments img) \<le> unat (max_segments limits)"
  proof -
    have "length (concat (map (\<lambda>i. segment_fields ?w ?o (g i) i) [0..<n])) \<le> n" for g n
      by (induction n) (auto simp: segment_fields_def)
    then have "length (img_segments img) \<le> unat (eh_program_count ?h)" using f by (simp add: program_segments_def Let_def)
    then show ?thesis using f by linarith
  qed
  moreover have "length (img_relocations img) \<le> unat (max_relocations limits)"
    using f read_relocation_tables_limit by fastforce
  moreover have "hdr_format (img_header img) = elf_like" "img_file_data img = Some data"
    "length (img_sections img) \<le> unat (max_sections limits)"
  proof -
    have "img_header img = elf_header_of ?w ?o ?h" using f by blast
    then show "hdr_format (img_header img) = elf_like" by (simp add: elf_header_of_def)
    show "img_file_data img = Some data" using f by blast
    show "length (img_sections img) \<le> unat (max_sections limits)" unfolding secs using f nr by simp
  qed
  ultimately show ?thesis by (simp add: parsed_ok_def assms(3))
qed

section \<open>Properties\<close>

text \<open>
  C25. A file that parses, in whatever format, is at least four bytes and within the size limit, starts
  with the signature of its format, and gives an image that keeps the file; every section is numbered by
  its position and has its data in the file unless it has none, every segment has its data in the file and
  no more of it than memory. Sections and relocations are within their limits. The segments of an ELF
  image are within the segment limit, those of a PE or Mach-O image only within the section limit, which
  is what their parsers check. The symbols of a PE or Mach-O image are within the symbol limit; of an ELF
  image nothing is claimed, since the parser checks that limit for each symbol table by itself.
\<close>

theorem parse_binary_sound:
  assumes "parse_binary limits input = Inr img" "\<forall>data. input = Some data \<longrightarrow> length data < 2 ^ 64"
  shows "\<exists>data. input = Some data \<and> 4 \<le> length data \<and> length data \<le> unat (max_file_size limits) \<and>
    detect input \<noteq> format_unknown \<and> parsed_ok limits data img"
proof -
  obtain data where d: "input = Some data" using assms(1) by (cases input) (auto simp: parse_binary_def)
  then have len: "length data < 2 ^ 64" using assms(2) by blast
  have p: "4 \<le> length data" "length data \<le> unat (max_file_size limits)"
    using assms(1) len
    by (auto simp: parse_binary_def d word_less_nat_alt not_less unat_of_nat_u64 simp del: unsigned_of_nat split: if_splits)
  have "detect (Some data) \<noteq> format_unknown \<and> parsed_ok limits data img"
    using assms(1) elf_parse_ok [OF _ len] pe_parse_ok [OF _ len] mach_parse_ok [OF _ len]
    by (auto simp: parse_binary_def d split: if_splits BinaryFormat.splits)
  with p show ?thesis by (simp add: d)
qed

text \<open>A 32-bit file with a segment command of one section, whose four bytes end the file.\<close>

definition demo_macho :: bytes where
  "demo_macho = [0xce, 0xfa, 0xed, 0xfe, 7, 0, 0, 0, 3, 0, 0, 0, 2, 0, 0, 0, 1, 0, 0, 0, 124, 0, 0, 0, 0, 0, 0, 0] @
     [1, 0, 0, 0, 124, 0, 0, 0] @ replicate 16 0 @
     [0, 16, 0, 0, 8, 0, 0, 0, 152, 0, 0, 0, 4, 0, 0, 0, 7, 0, 0, 0, 5, 0, 0, 0, 1, 0, 0, 0, 0, 0, 0, 0] @
     [0x5f, 0x74] @ replicate 14 0 @ replicate 16 0 @
     [0, 16, 0, 0, 4, 0, 0, 0, 152, 0, 0, 0, 2, 0, 0, 0, 0, 0, 0, 0, 0, 0, 0, 0, 0, 0, 0, 0, 0, 0, 0, 0, 0, 0, 0, 0] @
     [1, 2, 3, 4]"

lemma demo_macho_parses:
  "map_sum id (\<lambda>img. (map sec_file_offset (img_sections img), map seg_sections (img_segments img)))
     (parse_binary (demo_limits\<lparr>max_file_size := 256\<rparr>) (Some demo_macho)) = Inr ([152], [[0]])"
  by code_simp

theorem parse_binary_sound_witness:
  "\<exists>img. parse_binary (demo_limits\<lparr>max_file_size := 256\<rparr>) (Some demo_macho) = Inr img \<and>
    length (img_sections img) = 1 \<and> sections_ok 156 0 (img_sections img)"
proof -
  obtain img where p: "parse_binary (demo_limits\<lparr>max_file_size := 256\<rparr>) (Some demo_macho) = Inr img"
    and s: "length (img_sections img) = 1"
    using demo_macho_parses
    by (cases "parse_binary (demo_limits\<lparr>max_file_size := 256\<rparr>) (Some demo_macho)") auto
  have l: "length demo_macho = 156" by (simp add: demo_macho_def)
  then have "\<forall>data. Some demo_macho = Some data \<longrightarrow> length data < 2 ^ 64" by simp
  from parse_binary_sound [OF p this] have "sections_ok 156 0 (img_sections img)"
    by (auto simp: parsed_ok_def l)
  then show ?thesis using p s by blast
qed

end
