(* ===== verification/Builder.thy ===== *)
theory Builder
  imports Loader
begin

unbundle bit_operations_syntax

text \<open>
  \<open>BinaryImageBuilder\<close> of \<open>src/builder.cc\<close>: collecting sections, symbols, imports, exports and
  relocations under the limits, and laying the sections out in a file and in memory. A failing
  operation leaves the builder as it was, so it returns only the error. The lemmas describe the
  layout of a built image by the sections that were added.
\<close>

section \<open>Collecting the parts\<close>

record BuilderSection =
  bs_name :: string
  bs_kind :: SectionKind
  bs_permissions :: u8
  bs_alignment :: u64
  bs_data :: bytes
  bs_zero_fill :: u64

record BuilderOptions =
  bo_format :: BinaryFormat
  bo_kind :: BinaryKind
  bo_architecture :: Architecture
  bo_word_size :: WordSize
  bo_byte_order :: ByteOrder
  bo_image_base :: u64
  bo_file_alignment :: u64
  bo_memory_alignment :: u64
  bo_separate_permissions :: bool

definition default_builder_options :: BuilderOptions where
  "default_builder_options = \<lparr>bo_format = elf_like, bo_kind = executable, bo_architecture = x86_64,
     bo_word_size = bits64, bo_byte_order = little, bo_image_base = 0x400000,
     bo_file_alignment = 16, bo_memory_alignment = 4096, bo_separate_permissions = True\<rparr>"

record ImageBuilder =
  ib_limits :: Limits
  ib_sections :: "BuilderSection list"
  ib_symbols :: "Symbol list"
  ib_imports :: "Import list"
  ib_exports :: "Export list"
  ib_relocations :: "Relocation list"

definition new_builder :: "Limits \<Rightarrow> ImageBuilder" where
  "new_builder limits = \<lparr>ib_limits = limits, ib_sections = [], ib_symbols = [], ib_imports = [],
     ib_exports = [], ib_relocations = []\<rparr>"

definition builder_clear :: "ImageBuilder \<Rightarrow> ImageBuilder" where
  "builder_clear b = b\<lparr>ib_sections := [], ib_symbols := [], ib_imports := [], ib_exports := [],
     ib_relocations := []\<rparr>"

definition too_long :: "Limits \<Rightarrow> string \<Rightarrow> bool" where
  "too_long limits s \<longleftrightarrow> length s > unat (max_string_bytes limits)"

definition bad_alignment :: "u64 \<Rightarrow> bool" where
  "bad_alignment a \<longleftrightarrow> a = 0 \<or> a AND (a - 1) \<noteq> 0"

definition add_section :: "BuilderSection \<Rightarrow> ImageBuilder \<Rightarrow> Error + ImageBuilder" where
  "add_section new b =
    (let limits = ib_limits b; count = length (ib_sections b) in
     if count \<ge> unat (max_sections limits) \<or> too_long limits (bs_name new) \<or>
        length (bs_data new) > unat (max_section_bytes limits) \<or> bad_alignment (bs_alignment new)
     then Inl (mk_error resource_limit (of_nat count)
            ''builder section exceeds limits or has invalid alignment'')
     else if \<exists>existing \<in> set (ib_sections b). bs_name existing = bs_name new
     then Inl (mk_error invalid_section (of_nat count) ''builder section name is duplicated'')
     else Inr (b\<lparr>ib_sections := ib_sections b @ [new]\<rparr>))"

definition add_symbol :: "Symbol \<Rightarrow> ImageBuilder \<Rightarrow> Error + ImageBuilder" where
  "add_symbol new b =
    (let limits = ib_limits b; count = length (ib_symbols b) in
     if count \<ge> unat (max_symbols limits) \<or> too_long limits (sym_name new) \<or> too_long limits (sym_library new)
     then Inl (mk_error resource_limit (of_nat count) ''builder symbol exceeds limits'')
     else Inr (b\<lparr>ib_symbols := ib_symbols b @ [new\<lparr>sym_index := of_nat count\<rparr>]\<rparr>))"

definition add_import :: "Import \<Rightarrow> ImageBuilder \<Rightarrow> Error + ImageBuilder" where
  "add_import new b =
    (let limits = ib_limits b; count = length (ib_imports b) in
     if count \<ge> unat (max_imports limits) \<or> too_long limits (imp_name new) \<or> too_long limits (imp_library new)
     then Inl (mk_error resource_limit (of_nat count) ''builder import exceeds limits'')
     else Inr (b\<lparr>ib_imports := ib_imports b @ [new]\<rparr>))"

definition builder_add_export :: "Export \<Rightarrow> ImageBuilder \<Rightarrow> Error + ImageBuilder" where
  "builder_add_export new b =
    (let limits = ib_limits b; count = length (ib_exports b) in
     if count \<ge> unat (max_exports limits) \<or> too_long limits (exp_name new) \<or>
        too_long limits (exp_forward_target new)
     then Inl (mk_error resource_limit (of_nat count) ''builder export exceeds limits'')
     else Inr (b\<lparr>ib_exports := ib_exports b @ [new]\<rparr>))"

definition builder_add_relocation :: "Relocation \<Rightarrow> ImageBuilder \<Rightarrow> Error + ImageBuilder" where
  "builder_add_relocation new b =
    (let count = length (ib_relocations b) in
     if count \<ge> unat (max_relocations (ib_limits b))
     then Inl (mk_error resource_limit (of_nat count) ''builder relocation limit exceeded'')
     else Inr (b\<lparr>ib_relocations := ib_relocations b @ [new\<lparr>rel_index := of_nat count\<rparr>]\<rparr>))"

section \<open>Building\<close>

text \<open>The loop variables of \<open>build\<close>: the file so far, the two cursors, the sections and segments so far.\<close>

record BuildState =
  bd_storage :: bytes
  bd_file_cursor :: u64
  bd_memory_cursor :: u64
  bd_sections :: "Section list"
  bd_segments :: "Segment list"

text \<open>\<open>std::vector::resize(n, 0)\<close>\<close>

definition vector_resize :: "nat \<Rightarrow> bytes \<Rightarrow> bytes" where
  "vector_resize n xs = take n xs @ replicate (n - length xs) 0"

definition built_section :: "nat \<Rightarrow> BuilderSection \<Rightarrow> u64 \<Rightarrow> u64 \<Rightarrow> u64 \<Rightarrow> Section" where
  "built_section index source file_offset virtual_address memory_size =
    \<lparr>sec_index = of_nat index, sec_name = bs_name source, sec_kind = bs_kind source,
     sec_file_offset = file_offset, sec_file_size = of_nat (length (bs_data source)),
     sec_virtual_address = virtual_address, sec_memory_size = memory_size,
     sec_alignment = bs_alignment source, sec_entry_size = 0, sec_link = 0, sec_info = 0,
     sec_permissions = bs_permissions source\<rparr>"

definition start_segment :: "nat \<Rightarrow> u64 \<Rightarrow> Section \<Rightarrow> Segment" where
  "start_segment index memory_alignment s =
    \<lparr>seg_index = of_nat index, seg_file_offset = sec_file_offset s, seg_file_size = sec_file_size s,
     seg_virtual_address = sec_virtual_address s, seg_memory_size = sec_memory_size s,
     seg_alignment = memory_alignment, seg_permissions = sec_permissions s,
     seg_sections = [sec_index s]\<rparr>"

definition extend_segment :: "Section \<Rightarrow> Segment \<Rightarrow> Segment option" where
  "extend_segment s segment =
    (case (checked_add (sec_file_offset s) (sec_file_size s),
           checked_add (sec_virtual_address s) (sec_memory_size s)) of
       (Some file_end, Some memory_end) \<Rightarrow>
         Some (segment\<lparr>seg_file_size := file_end - seg_file_offset segment,
                       seg_memory_size := memory_end - seg_virtual_address segment,
                       seg_sections := seg_sections segment @ [sec_index s]\<rparr>)
     | _ \<Rightarrow> None)"

definition add_to_segments :: "bool \<Rightarrow> u64 \<Rightarrow> Section \<Rightarrow> Segment list \<Rightarrow> Segment list option" where
  "add_to_segments separate memory_alignment s segments =
    (if segments = [] \<or> (separate \<and> seg_permissions (last segments) \<noteq> sec_permissions s)
     then Some (segments @ [start_segment (length segments) memory_alignment s])
     else case extend_segment s (last segments) of
       None \<Rightarrow> None
     | Some segment \<Rightarrow> Some (butlast segments @ [segment]))"

definition place_section ::
    "Limits \<Rightarrow> BuilderOptions \<Rightarrow> nat \<Rightarrow> BuilderSection \<Rightarrow> BuildState \<Rightarrow> Error + BuildState" where
  "place_section limits options index source st =
    (let memory_alignment = max (bo_memory_alignment options) (bs_alignment source);
         data_size = of_nat (length (bs_data source)) in
     case (checked_align_up (bd_file_cursor st) (max (bo_file_alignment options) (bs_alignment source)),
           checked_align_up (bd_memory_cursor st) memory_alignment) of
       (Some file_offset, Some virtual_address) \<Rightarrow>
         if file_offset > max_file_size limits \<or>
            length (bs_data source) > unat (max_file_size limits - file_offset)
         then Inl (mk_error resource_limit (of_nat index) ''builder file-size limit exceeded'')
         else (case checked_add data_size (bs_zero_fill source) of
           None \<Rightarrow> Inl (mk_error address_overflow (of_nat index) ''builder section memory size overflows'')
         | Some memory_size \<Rightarrow>
             let s = built_section index source file_offset virtual_address memory_size in
             (case add_to_segments (bo_separate_permissions options) memory_alignment s (bd_segments st) of
               None \<Rightarrow> Inl (mk_error address_overflow (of_nat index) ''builder combined segment overflows'')
             | Some segments \<Rightarrow>
                 (case (checked_add file_offset data_size, checked_add virtual_address memory_size) of
                   (Some file_cursor, Some memory_cursor) \<Rightarrow>
                     Inr \<lparr>bd_storage = vector_resize (unat file_offset) (bd_storage st) @ bs_data source,
                          bd_file_cursor = file_cursor, bd_memory_cursor = memory_cursor,
                          bd_sections = bd_sections st @ [s], bd_segments = segments\<rparr>
                 | _ \<Rightarrow> Inl (mk_error address_overflow (of_nat index) ''builder cursor update overflows''))))
     | _ \<Rightarrow> Inl (mk_error address_overflow (of_nat index) ''builder section placement overflows''))"

fun place_sections ::
    "Limits \<Rightarrow> BuilderOptions \<Rightarrow> nat \<Rightarrow> BuilderSection list \<Rightarrow> BuildState \<Rightarrow> Error + BuildState" where
  "place_sections limits options index [] st = Inr st"
| "place_sections limits options index (source # rest) st =
    (case place_section limits options index source st of
       Inl e \<Rightarrow> Inl e
     | Inr st' \<Rightarrow> place_sections limits options (Suc index) rest st')"

definition first_executable :: "Section list \<Rightarrow> u64" where
  "first_executable sections =
    (case List.find (\<lambda>s. sec_permissions s AND permission_execute \<noteq> 0) sections of
       None \<Rightarrow> 0 | Some s \<Rightarrow> sec_virtual_address s)"

definition built_image :: "BuilderOptions \<Rightarrow> ImageBuilder \<Rightarrow> BuildState \<Rightarrow> BinaryImage" where
  "built_image options b st = empty_image\<lparr>
     img_header := empty_header\<lparr>hdr_format := bo_format options, hdr_kind := bo_kind options,
       hdr_architecture := bo_architecture options, hdr_word_size := bo_word_size options,
       hdr_byte_order := bo_byte_order options, hdr_image_base := bo_image_base options,
       hdr_section_count := of_nat (length (bd_sections st)),
       hdr_segment_count := of_nat (length (bd_segments st)),
       hdr_entry_point := first_executable (bd_sections st)\<rparr>,
     img_sections := bd_sections st, img_segments := bd_segments st,
     img_symbols := ib_symbols b, img_relocations := ib_relocations b,
     img_imports := ib_imports b, img_exports := ib_exports b,
     img_file_data := Some (bd_storage st)\<rparr>"

definition initial_build :: "BuilderOptions \<Rightarrow> BuildState" where
  "initial_build options = \<lparr>bd_storage = [], bd_file_cursor = 0,
     bd_memory_cursor = bo_image_base options, bd_sections = [], bd_segments = []\<rparr>"

definition build :: "BuilderOptions \<Rightarrow> ImageBuilder \<Rightarrow> Error + BinaryImage" where
  "build options b =
    (let limits = ib_limits b in
     if bad_alignment (bo_file_alignment options) \<or> bad_alignment (bo_memory_alignment options) \<or>
        bo_file_alignment options > max_section_bytes limits \<or>
        bo_memory_alignment options > max_mapped_bytes limits
     then Inl (mk_error invalid_alignment 0 ''builder output alignments are invalid'')
     else case place_sections limits options 0 (ib_sections b) (initial_build options) of
       Inl e \<Rightarrow> Inl e
     | Inr st \<Rightarrow>
         let img = built_image options b st; report = validate limits img in
         if rep_valid report then Inr img else Inl (hd (rep_errors report)))"

section \<open>The layout of a build\<close>

abbreviation file_end :: "Section \<Rightarrow> nat" where
  "file_end s \<equiv> unat (sec_file_offset s) + unat (sec_file_size s)"

abbreviation memory_end :: "Section \<Rightarrow> nat" where
  "memory_end s \<equiv> unat (sec_virtual_address s) + unat (sec_memory_size s)"

definition section_placed :: "BuilderOptions \<Rightarrow> bytes \<Rightarrow> nat \<Rightarrow> BuilderSection \<Rightarrow> Section \<Rightarrow> bool" where
  "section_placed options file index source s \<longleftrightarrow>
     s = built_section index source (sec_file_offset s) (sec_virtual_address s) (sec_memory_size s) \<and>
     unat (sec_file_size s) = length (bs_data source) \<and>
     unat (sec_memory_size s) = length (bs_data source) + unat (bs_zero_fill source) \<and>
     unat (max (bo_file_alignment options) (bs_alignment source)) dvd unat (sec_file_offset s) \<and>
     unat (max (bo_memory_alignment options) (bs_alignment source)) dvd unat (sec_virtual_address s) \<and>
     bo_image_base options \<le> sec_virtual_address s \<and>
     file_end s \<le> length file \<and>
     take (length (bs_data source)) (drop (unat (sec_file_offset s)) file) = bs_data source"

definition sections_apart :: "Section \<Rightarrow> Section \<Rightarrow> bool" where
  "sections_apart s s' \<longleftrightarrow> file_end s \<le> unat (sec_file_offset s') \<and> memory_end s \<le> unat (sec_virtual_address s')"

definition padding_zero :: "bytes \<Rightarrow> Section list \<Rightarrow> bool" where
  "padding_zero file sections \<longleftrightarrow> (\<forall>x < length file.
     (\<forall>s \<in> set sections. \<not> (unat (sec_file_offset s) \<le> x \<and> x < file_end s)) \<longrightarrow> file ! x = 0)"

text \<open>A segment is a run of sections: from the start of the first to the end of the last.\<close>

definition segment_of :: "bool \<Rightarrow> Section list \<Rightarrow> Segment \<Rightarrow> bool" where
  "segment_of separate run g \<longleftrightarrow>
     run \<noteq> [] \<and> seg_sections g = map sec_index run \<and>
     seg_file_offset g = sec_file_offset (hd run) \<and>
     seg_virtual_address g = sec_virtual_address (hd run) \<and>
     unat (seg_file_offset g) + unat (seg_file_size g) = file_end (last run) \<and>
     unat (seg_virtual_address g) + unat (seg_memory_size g) = memory_end (last run) \<and>
     seg_permissions g = sec_permissions (hd run) \<and>
     (separate \<longrightarrow> (\<forall>s \<in> set run. sec_permissions s = seg_permissions g))"

definition segments_of :: "bool \<Rightarrow> Section list \<Rightarrow> Segment list \<Rightarrow> bool" where
  "segments_of separate sections segments \<longleftrightarrow>
     (\<exists>runs. concat runs = sections \<and> list_all2 (segment_of separate) runs segments) \<and>
     (if separate then successively (\<lambda>g g'. seg_permissions g \<noteq> seg_permissions g') segments
      else length segments \<le> 1)"

definition build_ok :: "BuilderOptions \<Rightarrow> BuilderSection list \<Rightarrow> BuildState \<Rightarrow> bool" where
  "build_ok options sources st \<longleftrightarrow>
     length (bd_sections st) = length sources \<and>
     length (bd_storage st) = unat (bd_file_cursor st) \<and>
     bo_image_base options \<le> bd_memory_cursor st \<and>
     (\<forall>i < length sources. section_placed options (bd_storage st) i (sources ! i) (bd_sections st ! i)) \<and>
     (\<forall>s \<in> set (bd_sections st). memory_end s \<le> unat (bd_memory_cursor st)) \<and>
     sorted_wrt sections_apart (bd_sections st) \<and>
     padding_zero (bd_storage st) (bd_sections st) \<and>
     segments_of (bo_separate_permissions options) (bd_sections st) (bd_segments st)"

lemma align_up_nat:
  assumes "checked_align_up v a = Some r"
  shows "unat v \<le> unat r" "unat a dvd unat r"
proof -
  have a: "power_of_two a" and r: "unat r = (unat v + (unat a - 1)) div unat a * unat a"
    using assms by (simp_all add: checked_align_up_Some_iff)
  have "0 < unat a" using a by (auto simp: power_of_two_iff)
  note b = round_up_bounds [OF this, of "unat v"]
  show "unat v \<le> unat r" unfolding r by (rule b(1))
  show "unat a dvd unat r" unfolding r by (rule b(3))
qed

lemma place_sectionE:
  assumes "place_section limits options index source st = Inr st'"
  obtains fo va ms segments fc mc where
    "checked_align_up (bd_file_cursor st) (max (bo_file_alignment options) (bs_alignment source)) = Some fo"
    "checked_align_up (bd_memory_cursor st) (max (bo_memory_alignment options) (bs_alignment source)) = Some va"
    "length (bs_data source) \<le> unat (max_file_size limits - fo)"
    "checked_add (of_nat (length (bs_data source))) (bs_zero_fill source) = Some ms"
    "add_to_segments (bo_separate_permissions options) (max (bo_memory_alignment options) (bs_alignment source))
       (built_section index source fo va ms) (bd_segments st) = Some segments"
    "checked_add fo (of_nat (length (bs_data source))) = Some fc" "checked_add va ms = Some mc"
    "st' = \<lparr>bd_storage = vector_resize (unat fo) (bd_storage st) @ bs_data source,
       bd_file_cursor = fc, bd_memory_cursor = mc,
       bd_sections = bd_sections st @ [built_section index source fo va ms], bd_segments = segments\<rparr>"
  using assms unfolding place_section_def Let_def
  by (auto split: option.splits if_splits)

lemma vector_resize_up: "length xs \<le> n \<Longrightarrow> vector_resize n xs = xs @ replicate (n - length xs) 0"
  by (simp add: vector_resize_def)

lemma segment_of_start: "segment_of separate [s] (start_segment n a s)"
  by (simp add: segment_of_def start_segment_def)

lemma extend_segmentE:
  assumes "extend_segment s g = Some g'"
  obtains fe me where "unat fe = file_end s" "unat me = memory_end s"
    "g' = g\<lparr>seg_file_size := fe - seg_file_offset g, seg_memory_size := me - seg_virtual_address g,
       seg_sections := seg_sections g @ [sec_index s]\<rparr>"
  using assms unfolding extend_segment_def by (auto simp: add_op.Some_iff split: option.splits)

lemma segment_of_extend:
  assumes g: "segment_of separate run g" and e: "extend_segment s g = Some g'"
    and apart: "sections_apart (last run) s" and p: "separate \<Longrightarrow> seg_permissions g = sec_permissions s"
  shows "segment_of separate (run @ [s]) g'" "seg_permissions g' = seg_permissions g"
proof -
  obtain fe me where n: "unat fe = file_end s" "unat me = memory_end s"
    and g': "g' = g\<lparr>seg_file_size := fe - seg_file_offset g, seg_memory_size := me - seg_virtual_address g,
       seg_sections := seg_sections g @ [sec_index s]\<rparr>"
    by (rule extend_segmentE [OF e])
  have le: "unat (seg_file_offset g) \<le> unat fe" "unat (seg_virtual_address g) \<le> unat me"
    using g apart by (auto simp: segment_of_def sections_apart_def n)
  then have "unat (fe - seg_file_offset g) = unat fe - unat (seg_file_offset g)"
    "unat (me - seg_virtual_address g) = unat me - unat (seg_virtual_address g)"
    by (auto simp: unat_sub word_le_nat_alt)
  then show "segment_of separate (run @ [s]) g'"
    using g le n p by (auto simp: segment_of_def g')
  show "seg_permissions g' = seg_permissions g" by (simp add: g')
qed

lemma segments_of_add:
  assumes ok: "segments_of separate sections segments"
    and add: "add_to_segments separate a s segments = Some segments'"
    and apart: "\<forall>t \<in> set sections. sections_apart t s"
  shows "segments_of separate (sections @ [s]) segments'"
proof -
  obtain runs where r: "concat runs = sections" "list_all2 (segment_of separate) runs segments"
    using ok by (auto simp: segments_of_def)
  have len: "if separate then successively (\<lambda>g g'. seg_permissions g \<noteq> seg_permissions g') segments
      else length segments \<le> 1"
    using ok by (auto simp: segments_of_def)
  show ?thesis
  proof (cases "segments = [] \<or> (separate \<and> seg_permissions (last segments) \<noteq> sec_permissions s)")
    case True
    then have s': "segments' = segments @ [start_segment (length segments) a s]"
      using add by (simp add: add_to_segments_def)
    have "list_all2 (segment_of separate) (runs @ [[s]]) segments'"
      unfolding s' using r(2) segment_of_start by (simp add: list_all2_appendI)
    moreover have "concat (runs @ [[s]]) = sections @ [s]" using r(1) by simp
    moreover have "if separate then successively (\<lambda>g g'. seg_permissions g \<noteq> seg_permissions g') segments'
        else length segments' \<le> 1"
      unfolding s' using len True
      by (auto simp: successively_append_iff start_segment_def split: if_splits)
    ultimately show ?thesis unfolding segments_of_def by blast
  next
    case False
    then have ne: "segments \<noteq> []" and p: "separate \<Longrightarrow> seg_permissions (last segments) = sec_permissions s"
      by auto
    obtain g' where g': "extend_segment s (last segments) = Some g'" and s': "segments' = butlast segments @ [g']"
      using add False by (auto simp: add_to_segments_def split: option.splits)
    have rne: "runs \<noteq> []" using r(2) ne by auto
    have bl: "list_all2 (segment_of separate) (butlast runs @ [last runs]) (butlast segments @ [last segments])"
      using r(2) ne rne by simp
    then have init: "list_all2 (segment_of separate) (butlast runs) (butlast segments)"
      and lst: "segment_of separate (last runs) (last segments)"
      using list_all2_lengthD [OF r(2)] by (simp_all add: list_all2_append)
    have "last (last runs) \<in> set sections"
      using r(1) rne lst by (auto simp: segment_of_def intro!: bexI [of _ "last runs"])
    then have "sections_apart (last (last runs)) s" using apart by blast
    note ext = segment_of_extend [OF lst g' this p]
    have "list_all2 (segment_of separate) (butlast runs @ [last runs @ [s]]) segments'"
      unfolding s' using init ext(1) by (simp add: list_all2_appendI)
    moreover have "concat (butlast runs @ [last runs @ [s]]) = sections @ [s]"
    proof -
      have "concat (butlast runs @ [last runs]) = sections" using r(1) rne by simp
      then show ?thesis by simp
    qed
    moreover have "if separate then successively (\<lambda>g g'. seg_permissions g \<noteq> seg_permissions g') segments'
        else length segments' \<le> 1"
    proof -
      have split: "segments = butlast segments @ [last segments]" using ne by simp
      show ?thesis unfolding s' using len ext(2)
        by (subst (asm) split, subst (asm) (2) split) (auto simp: successively_append_iff split: if_splits)
    qed
    ultimately show ?thesis unfolding segments_of_def by blast
  qed
qed

lemma section_placed_more_file:
  assumes "section_placed options file i source s"
  shows "section_placed options (file @ rest) i source s"
  using assms by (auto simp: section_placed_def)

lemma build_ok_apart:
  assumes "build_ok options sources st" "t \<in> set (bd_sections st)"
  shows "file_end t \<le> length (bd_storage st)" "memory_end t \<le> unat (bd_memory_cursor st)"
proof -
  obtain i where "i < length sources" "t = bd_sections st ! i"
    using assms by (auto simp: build_ok_def in_set_conv_nth)
  then show "file_end t \<le> length (bd_storage st)"
    using assms(1) by (auto simp: build_ok_def section_placed_def)
  show "memory_end t \<le> unat (bd_memory_cursor st)" using assms by (simp add: build_ok_def)
qed

lemma build_ok_step:
  assumes ok: "build_ok options sources st"
    and st': "place_section limits options (length sources) source st = Inr st'"
  shows "build_ok options (sources @ [source]) st'"
proof -
  let ?fa = "max (bo_file_alignment options) (bs_alignment source)"
  let ?ma = "max (bo_memory_alignment options) (bs_alignment source)"
  let ?d = "bs_data source"
  obtain fo va ms segments fc mc where
    fo: "checked_align_up (bd_file_cursor st) ?fa = Some fo"
    and va: "checked_align_up (bd_memory_cursor st) ?ma = Some va"
    and room: "length ?d \<le> unat (max_file_size limits - fo)"
    and ms: "checked_add (of_nat (length ?d)) (bs_zero_fill source) = Some ms"
    and seg: "add_to_segments (bo_separate_permissions options) ?ma
       (built_section (length sources) source fo va ms) (bd_segments st) = Some segments"
    and fc: "checked_add fo (of_nat (length ?d)) = Some fc" and mc: "checked_add va ms = Some mc"
    and st'_def: "st' = \<lparr>bd_storage = vector_resize (unat fo) (bd_storage st) @ ?d,
       bd_file_cursor = fc, bd_memory_cursor = mc,
       bd_sections = bd_sections st @ [built_section (length sources) source fo va ms],
       bd_segments = segments\<rparr>"
    by (rule place_sectionE [OF st'])
  define s where "s = built_section (length sources) source fo va ms"
  have s: "sec_file_offset s = fo" "sec_virtual_address s = va" "sec_memory_size s = ms"
    "sec_file_size s = of_nat (length ?d)"
    by (simp_all add: s_def built_section_def)
  have len: "unat (of_nat (length ?d) :: u64) = length ?d"
    using room unat_u64_bound [of "max_file_size limits - fo"] by (intro unat_of_nat_u64) simp
  have fon: "length (bd_storage st) \<le> unat fo" "unat ?fa dvd unat fo"
    using align_up_nat [OF fo] ok by (simp_all add: build_ok_def)
  have van: "unat (bd_memory_cursor st) \<le> unat va" "unat ?ma dvd unat va"
    using align_up_nat [OF va] by simp_all
  have msn: "unat ms = length ?d + unat (bs_zero_fill source)" using ms by (simp add: add_op.Some_iff len)
  have fcn: "unat fc = unat fo + length ?d" using fc by (simp add: add_op.Some_iff len)
  have mcn: "unat mc = unat va + unat ms" using mc by (simp add: add_op.Some_iff)
  have raw: "bd_storage st' = bd_storage st @ replicate (unat fo - length (bd_storage st)) 0 @ ?d"
    using fon by (simp add: st'_def vector_resize_up)
  have secs: "bd_sections st' = bd_sections st @ [s]" by (simp add: st'_def s_def)
  have n: "length (bd_sections st) = length sources" using ok by (simp add: build_ok_def)
  have apart: "\<forall>t \<in> set (bd_sections st). sections_apart t s"
    using build_ok_apart [OF ok] fon van by (fastforce simp: sections_apart_def s)
  have base: "bo_image_base options \<le> bd_memory_cursor st" using ok by (simp add: build_ok_def)
  then have base': "bo_image_base options \<le> va" using van(1) by (simp add: word_le_nat_alt)
  have new: "section_placed options (bd_storage st') (length sources) source s"
    unfolding section_placed_def s len raw
    using fon van msn base' by (simp add: s_def built_section_def len)
  have "section_placed options (bd_storage st') i ((sources @ [source]) ! i) (bd_sections st' ! i)"
    if "i < length (sources @ [source])" for i
  proof (cases "i < length sources")
    case True
    then have "section_placed options (bd_storage st) i (sources ! i) (bd_sections st ! i)"
      using ok by (simp add: build_ok_def)
    then show ?thesis unfolding raw secs using True n by (simp add: nth_append section_placed_more_file)
  next
    case False
    then have "i = length sources" using that by simp
    then show ?thesis using new n by (simp add: secs nth_append)
  qed
  moreover have "\<forall>t \<in> set (bd_sections st'). memory_end t \<le> unat (bd_memory_cursor st')"
  proof
    fix t assume "t \<in> set (bd_sections st')"
    moreover have "memory_end t \<le> unat mc" if "t \<in> set (bd_sections st)"
      using build_ok_apart(2) [OF ok that] van(1) mcn by linarith
    moreover have "memory_end s \<le> unat mc" by (simp add: s mcn)
    moreover have "bd_memory_cursor st' = mc" by (simp add: st'_def)
    ultimately show "memory_end t \<le> unat (bd_memory_cursor st')" by (auto simp: secs)
  qed
  moreover have "sorted_wrt sections_apart (bd_sections st')"
    using ok apart by (simp add: secs sorted_wrt_append build_ok_def)
  moreover have "padding_zero (bd_storage st') (bd_sections st')"
    unfolding padding_zero_def
  proof (intro allI impI)
    fix x assume x: "x < length (bd_storage st')"
      and out: "\<forall>t \<in> set (bd_sections st'). \<not> (unat (sec_file_offset t) \<le> x \<and> x < file_end t)"
    have "\<not> (unat fo \<le> x \<and> x < unat fo + length ?d)"
      using out by (simp add: secs s len)
    then have "x < unat fo" using x fon by (simp add: raw)
    moreover have "bd_storage st ! x = 0" if "x < length (bd_storage st)"
      using ok out that by (simp add: build_ok_def padding_zero_def secs)
    ultimately show "bd_storage st' ! x = 0" by (auto simp: raw nth_append)
  qed
  moreover have "segments_of (bo_separate_permissions options) (bd_sections st') (bd_segments st')"
    using segments_of_add [OF _ seg] ok apart by (simp add: secs st'_def s_def build_ok_def)
  moreover have "bo_image_base options \<le> bd_memory_cursor st'"
    using base' mcn by (simp add: st'_def word_le_nat_alt)
  moreover have "length (bd_storage st') = unat (bd_file_cursor st')"
    using fcn fon by (simp add: raw) (simp add: st'_def)
  ultimately show ?thesis unfolding build_ok_def using n by (simp add: secs)
qed

lemma place_sections_ok:
  assumes "build_ok options before st" "place_sections limits options (length before) sources st = Inr st'"
  shows "build_ok options (before @ sources) st'"
  using assms
proof (induction sources arbitrary: before st)
  case Nil
  then show ?case by simp
next
  case (Cons source rest)
  then obtain st1 where st1: "place_section limits options (length before) source st = Inr st1"
    and rest: "place_sections limits options (Suc (length before)) rest st1 = Inr st'"
    by (auto split: sum.splits)
  from Cons.IH [OF build_ok_step [OF Cons.prems(1) st1]] rest show ?case by simp
qed

lemma build_ok_initial: "build_ok options [] (initial_build options)"
  by (simp add: build_ok_def initial_build_def padding_zero_def segments_of_def)

lemma buildE:
  assumes "build options b = Inr img"
  obtains st where "build_ok options (ib_sections b) st" "img = built_image options b st"
    "rep_valid (validate (ib_limits b) img)"
  using assms place_sections_ok [OF build_ok_initial, of "ib_limits b" options "ib_sections b"]
  by (auto simp: build_def Let_def split: if_splits sum.splits)

section \<open>Builders that arise\<close>

inductive builder_reachable :: "Limits \<Rightarrow> ImageBuilder \<Rightarrow> bool" for limits where
  builder_new: "builder_reachable limits (new_builder limits)"
| builder_section: "builder_reachable limits b \<Longrightarrow> add_section s b = Inr b' \<Longrightarrow> builder_reachable limits b'"
| builder_symbol: "builder_reachable limits b \<Longrightarrow> add_symbol y b = Inr b' \<Longrightarrow> builder_reachable limits b'"
| builder_import: "builder_reachable limits b \<Longrightarrow> add_import i b = Inr b' \<Longrightarrow> builder_reachable limits b'"
| builder_export: "builder_reachable limits b \<Longrightarrow> builder_add_export e b = Inr b' \<Longrightarrow> builder_reachable limits b'"
| builder_relocation:
    "builder_reachable limits b \<Longrightarrow> builder_add_relocation r b = Inr b' \<Longrightarrow> builder_reachable limits b'"
| builder_cleared: "builder_reachable limits b \<Longrightarrow> builder_reachable limits (builder_clear b)"

definition builder_ok :: "Limits \<Rightarrow> ImageBuilder \<Rightarrow> bool" where
  "builder_ok limits b \<longleftrightarrow> ib_limits b = limits \<and>
     length (ib_sections b) \<le> unat (max_sections limits) \<and>
     length (ib_symbols b) \<le> unat (max_symbols limits) \<and>
     length (ib_imports b) \<le> unat (max_imports limits) \<and>
     length (ib_exports b) \<le> unat (max_exports limits) \<and>
     length (ib_relocations b) \<le> unat (max_relocations limits) \<and>
     distinct (map bs_name (ib_sections b)) \<and>
     (\<forall>s \<in> set (ib_sections b). power_of_two (bs_alignment s) \<and> \<not> too_long limits (bs_name s) \<and>
        length (bs_data s) \<le> unat (max_section_bytes limits)) \<and>
     (\<forall>n < length (ib_symbols b). unat (sym_index (ib_symbols b ! n)) = n) \<and>
     (\<forall>n < length (ib_relocations b). unat (rel_index (ib_relocations b ! n)) = n)"

lemma builder_ok_section:
  assumes "builder_ok limits b" "add_section s b = Inr b'"
  shows "builder_ok limits b'"
  using assms unfolding builder_ok_def add_section_def Let_def bad_alignment_def power_of_two_def
  by (auto split: if_splits) metis

lemma index_snoc:
  fixes limit :: u32
  assumes "\<forall>n < length xs. unat (idx (xs ! n) :: u32) = n" "idx x = of_nat (length xs)" "length xs < unat limit"
  shows "\<forall>n < length (xs @ [x]). unat (idx ((xs @ [x]) ! n)) = n"
proof (intro allI impI)
  fix n assume "n < length (xs @ [x])"
  moreover have "unat (of_nat (length xs) :: u32) = length xs"
    using assms(3) unat_u32_bound [of limit] by (intro unat_of_nat_u32) simp
  ultimately show "unat (idx ((xs @ [x]) ! n)) = n" using assms(1,2) by (cases "n < length xs") (auto simp: nth_append)
qed

lemma builder_ok_symbol:
  assumes "builder_ok limits b" "add_symbol s b = Inr b'"
  shows "builder_ok limits b'"
proof -
  let ?s = "s\<lparr>sym_index := of_nat (length (ib_symbols b))\<rparr>"
  have "length (ib_symbols b) < unat (max_symbols limits)" and b': "b' = b\<lparr>ib_symbols := ib_symbols b @ [?s]\<rparr>"
    using assms by (auto simp: builder_ok_def add_symbol_def Let_def split: if_splits)
  moreover from this have "\<forall>n < length (ib_symbols b @ [?s]). unat (sym_index ((ib_symbols b @ [?s]) ! n)) = n"
    using assms(1) by (intro index_snoc) (auto simp: builder_ok_def)
  ultimately show ?thesis using assms(1) by (simp add: builder_ok_def)
qed

lemma builder_ok_relocation:
  assumes "builder_ok limits b" "builder_add_relocation s b = Inr b'"
  shows "builder_ok limits b'"
proof -
  let ?s = "s\<lparr>rel_index := of_nat (length (ib_relocations b))\<rparr>"
  have "length (ib_relocations b) < unat (max_relocations limits)"
    and b': "b' = b\<lparr>ib_relocations := ib_relocations b @ [?s]\<rparr>"
    using assms by (auto simp: builder_ok_def builder_add_relocation_def Let_def split: if_splits)
  moreover from this have
    "\<forall>n < length (ib_relocations b @ [?s]). unat (rel_index ((ib_relocations b @ [?s]) ! n)) = n"
    using assms(1) by (intro index_snoc) (auto simp: builder_ok_def)
  ultimately show ?thesis using assms(1) by (simp add: builder_ok_def)
qed

lemma reachable_builder_ok: "builder_reachable limits b \<Longrightarrow> builder_ok limits b"
proof (induction rule: builder_reachable.induct)
  case (builder_section b s b')
  then show ?case using builder_ok_section by blast
next
  case (builder_symbol b y b')
  then show ?case using builder_ok_symbol by blast
next
  case (builder_relocation b r b')
  then show ?case using builder_ok_relocation by blast
qed (auto simp: builder_ok_def new_builder_def builder_clear_def add_import_def builder_add_export_def
       Let_def split: if_splits)

lemma find_distinct:
  assumes "distinct (map f xs)" "i < length xs"
  shows "List.find (\<lambda>x. f x = f (xs ! i)) xs = Some (xs ! i)"
  unfolding find_Some_iff using assms by (intro exI [of _ i]) (auto simp: distinct_conv_nth)

lemma build_facts:
  assumes "build options b = Inr img"
  obtains bs where "img_file_data img = Some bs" "length bs < 2 ^ 64"
    "image_valid (ib_limits b) bs img" "length (img_sections img) = length (ib_sections b)"
    "\<And>i. i < length (ib_sections b) \<Longrightarrow>
       section_placed options bs i (ib_sections b ! i) (img_sections img ! i)"
    "sorted_wrt sections_apart (img_sections img)" "padding_zero bs (img_sections img)"
    "segments_of (bo_separate_permissions options) (img_sections img) (img_segments img)"
    "img_symbols img = ib_symbols b" "img_relocations img = ib_relocations b"
proof -
  obtain st where st: "build_ok options (ib_sections b) st" and img: "img = built_image options b st"
    and valid: "rep_valid (validate (ib_limits b) img)"
    by (rule buildE [OF assms])
  have fields: "img_file_data img = Some (bd_storage st)" "img_sections img = bd_sections st"
    "img_segments img = bd_segments st" "img_symbols img = ib_symbols b" "img_relocations img = ib_relocations b"
    by (simp_all add: img built_image_def)
  have len: "length (bd_storage st) < 2 ^ 64"
    using st unat_u64_bound [of "bd_file_cursor st"] by (simp add: build_ok_def)
  then have "image_valid (ib_limits b) (bd_storage st) img"
    using validate_iff [of img "ib_limits b"] valid fields(1) by auto
  with st len show thesis
    unfolding build_ok_def by (intro that [of "bd_storage st"]) (simp_all only: fields)
qed

lemma run_member:
  assumes seg: "segments_of separate sections segments" and apart: "sorted_wrt sections_apart sections"
    and g: "g \<in> set segments" and s: "sec_index s \<in> set (seg_sections g)" "s \<in> set sections"
    and inj: "inj_on sec_index (set sections)"
  obtains run where "segment_of separate run g" "s \<in> set run" "sorted_wrt sections_apart run"
    "set run \<subseteq> set sections"
proof -
  obtain runs where r: "concat runs = sections" "list_all2 (segment_of separate) runs segments"
    using seg by (auto simp: segments_of_def)
  obtain run where run: "run \<in> set runs" "segment_of separate run g"
    using r(2) g by (metis list_all2_conv_all_nth in_set_conv_nth)
  have sub: "set run \<subseteq> set sections" using r(1) run(1) by auto
  obtain t where "t \<in> set run" "sec_index t = sec_index s"
    using run(2) s(1) by (auto simp: segment_of_def)
  then have "s \<in> set run" using inj s(2) sub by (metis inj_onD subsetD)
  moreover have "sorted_wrt sections_apart run"
    using apart run(1) unfolding r(1) [symmetric]
    by (metis in_set_conv_decomp concat.simps(2) concat_append sorted_wrt_append)
  ultimately show thesis using that run(2) sub by blast
qed

lemma sorted_run_ends:
  assumes "sorted_wrt sections_apart run" "s \<in> set run"
  shows "sec_file_offset (hd run) \<le> sec_file_offset s" "sec_virtual_address (hd run) \<le> sec_virtual_address s"
    "file_end s \<le> file_end (last run)" "memory_end s \<le> memory_end (last run)"
proof -
  have "sec_file_offset (hd run) \<le> sec_file_offset s \<and> sec_virtual_address (hd run) \<le> sec_virtual_address s"
    using assms by (cases run) (auto simp: sections_apart_def word_le_nat_alt)
  moreover have "file_end s \<le> file_end (last run) \<and> memory_end s \<le> memory_end (last run)"
    using assms
  proof (cases run rule: rev_cases)
    case (snoc init l)
    then show ?thesis using assms by (auto simp: sections_apart_def sorted_wrt_append dest!: bspec)
  qed simp
  ultimately show "sec_file_offset (hd run) \<le> sec_file_offset s"
    "sec_virtual_address (hd run) \<le> sec_virtual_address s"
    "file_end s \<le> file_end (last run)" "memory_end s \<le> memory_end (last run)" by simp_all
qed

lemma segment_section_bytes:
  assumes g: "segment_of separate run g" "sorted_wrt sections_apart run" "s \<in> set run"
    and placed: "section_placed options file i source s"
    and shift: "sec_file_offset s - seg_file_offset g = sec_virtual_address s - seg_virtual_address g"
    and k: "k < unat (sec_memory_size s)"
  defines "j \<equiv> unat (sec_virtual_address s - seg_virtual_address g) + k"
  shows "j < unat (seg_memory_size g)"
    and "k < length (bs_data source) \<Longrightarrow> segment_byte file g j = bs_data source ! k"
    and "length (bs_data source) \<le> k \<Longrightarrow> s = last run \<Longrightarrow> segment_byte file g j = 0"
proof -
  note ends = sorted_run_ends [OF g(2,3)]
  have heads: "seg_file_offset g = sec_file_offset (hd run)" "seg_virtual_address g = sec_virtual_address (hd run)"
    "unat (seg_file_offset g) + unat (seg_file_size g) = file_end (last run)"
    "unat (seg_virtual_address g) + unat (seg_memory_size g) = memory_end (last run)"
    using g(1) unfolding segment_of_def by blast+
  have va: "unat (sec_virtual_address s - seg_virtual_address g) =
      unat (sec_virtual_address s) - unat (seg_virtual_address g)"
    "unat (seg_virtual_address g) \<le> unat (sec_virtual_address s)"
    using ends(2) by (simp_all add: heads unat_sub word_le_nat_alt)
  have fo: "unat (sec_virtual_address s - seg_virtual_address g) =
      unat (sec_file_offset s) - unat (seg_file_offset g)"
    "unat (seg_file_offset g) \<le> unat (sec_file_offset s)"
    using ends(1) unfolding shift [symmetric] by (simp_all add: heads unat_sub word_le_nat_alt)
  have d: "unat (sec_file_size s) = length (bs_data source)"
    "take (length (bs_data source)) (drop (unat (sec_file_offset s)) file) = bs_data source"
    using placed unfolding section_placed_def by blast+
  have fit: "file_end s \<le> length file" using placed unfolding section_placed_def by blast
  show "j < unat (seg_memory_size g)" using va ends(4) heads(4) k unfolding j_def by linarith
  show "segment_byte file g j = bs_data source ! k" if "k < length (bs_data source)"
  proof -
    have "j < unat (seg_file_size g)" using fo ends(3) heads(3) that d(1) unfolding j_def by linarith
    then have "segment_byte file g j = file ! (unat (sec_file_offset s) + k)"
      using fo unfolding segment_byte_def j_def by (simp add: add.assoc)
    also have "\<dots> = take (length (bs_data source)) (drop (unat (sec_file_offset s)) file) ! k"
      using fit d(1) that by simp
    also have "\<dots> = bs_data source ! k" using d(2) by simp
    finally show ?thesis .
  qed
  show "segment_byte file g j = 0" if "length (bs_data source) \<le> k" "s = last run"
    using that fo heads(3) d(1) unfolding segment_byte_def j_def by auto
qed

section \<open>Properties\<close>

text \<open>
  A build lays the sections out in the order they were added: each has its data at its file
  offset and, like it, its virtual address is a multiple of both its own alignment and the one of
  the options; file ranges and memory ranges follow each other without overlap from the image base
  on, the file is zero between them, and each segment is a run of sections from the start of the
  first to the end of the last, with the permissions of all of them if permissions are separated.
  The image is valid.
\<close>

theorem build_layout:
  assumes "build options b = Inr img"
  shows "\<exists>file. img_file_data img = Some file \<and> image_valid (ib_limits b) file img \<and>
    length (img_sections img) = length (ib_sections b) \<and>
    (\<forall>i < length (ib_sections b). section_placed options file i (ib_sections b ! i) (img_sections img ! i)) \<and>
    sorted_wrt sections_apart (img_sections img) \<and> padding_zero file (img_sections img) \<and>
    segments_of (bo_separate_permissions options) (img_sections img) (img_segments img)"
  using build_facts [OF assms] by metis

text \<open>Two sections of the same permissions and one of others, aligned to sixteen bytes in memory.\<close>

definition demo_section :: "string \<Rightarrow> u8 \<Rightarrow> bytes \<Rightarrow> BuilderSection" where
  "demo_section name perms data = \<lparr>bs_name = name, bs_kind = program_bits, bs_permissions = perms,
     bs_alignment = 1, bs_data = data, bs_zero_fill = 0\<rparr>"

definition demo_builder :: ImageBuilder where
  "demo_builder = (new_builder demo_limits)\<lparr>ib_sections := [demo_section ''a'' 3 [7],
     demo_section ''b'' 3 [9], demo_section ''c'' 5 [11]]\<rparr>"

definition demo_build_options :: BuilderOptions where
  "demo_build_options = default_builder_options\<lparr>bo_image_base := 0x400000, bo_file_alignment := 2,
     bo_memory_alignment := 16\<rparr>"

lemma demo_builds: "\<not> isl (build demo_build_options demo_builder)"
  by code_simp

lemma demo_build_image: "\<exists>img. build demo_build_options demo_builder = Inr img"
  by (metis demo_builds sum.collapse(2))

theorem build_layout_witness:
  "\<exists>img file. build demo_build_options demo_builder = Inr img \<and> img_file_data img = Some file \<and>
     section_placed demo_build_options file 1 (demo_section ''b'' 3 [9]) (img_sections img ! 1)"
proof -
  obtain img where img: "build demo_build_options demo_builder = Inr img"
    using demo_build_image by blast
  have "1 < length (ib_sections demo_builder)" "ib_sections demo_builder ! 1 = demo_section ''b'' 3 [9]"
    by (simp_all add: demo_builder_def)
  then show ?thesis using build_layout [OF img] img by metis
qed

lemma demo_built: "case build demo_build_options demo_builder of Inl _ \<Rightarrow> False | Inr img \<Rightarrow>
    map seg_sections (img_segments img) = [[0, 1], [2]] \<and>
    map seg_file_offset (img_segments img) = [0, 4] \<and>
    map seg_virtual_address (img_segments img) = [0x400000, 0x400020] \<and>
    map sec_index (img_sections img) = [0, 1, 2] \<and> map sec_file_offset (img_sections img) = [0, 2, 4] \<and>
    map sec_virtual_address (img_sections img) = [0x400000, 0x400010, 0x400020] \<and>
    img_relocations img = [] \<and> img_imports img = [] \<and> hdr_image_base (img_header img) = 0x400000"
  by code_simp

lemma demo_built_loads: "case build demo_build_options demo_builder of Inl _ \<Rightarrow> False | Inr img \<Rightarrow>
   (case load demo_limits img default_load_options None no_error (new_address_space demo_limits) of
      (Inl _, _) \<Rightarrow> False
    | (Inr _, m') \<Rightarrow> as_byte m' 0x400002 = Some 9 \<and> as_byte m' 0x400010 = Some 0)"
  by code_simp

lemma demo_build_load:
  obtains img result m' where "build demo_build_options demo_builder = Inr img"
    "load demo_limits img default_load_options None no_error (new_address_space demo_limits) = (Inr result, m')"
    "as_byte m' 0x400002 = Some 9" "as_byte m' 0x400010 = Some 0"
proof -
  obtain img where b: "build demo_build_options demo_builder = Inr img" using demo_build_image by blast
  note loads = demo_built_loads [unfolded b sum.case]
  obtain r m' where l: "load demo_limits img default_load_options None no_error (new_address_space demo_limits) = (r, m')"
    by fastforce
  then show thesis using loads b that by (cases r) auto
qed

text \<open>
  C7. Building and loading agree. When a built image loads, a section that is as far into the memory
  of its segment as it is into the segment's file range has its data at its virtual address plus
  the bias, and, if it is the last of its segment, zeros up to its memory size, except where a
  relocation or an import slot is written.
\<close>

theorem build_then_load:
  assumes "as_ok m" "build options b = Inr img"
    and "load limits img load_options resolver e m = (Inr result, m')"
    and "i < length (ib_sections b)" "s = img_sections img ! i" "source = ib_sections b ! i"
    and "g \<in> set (img_segments img)" "sec_index s \<in> set (seg_sections g)"
    and "sec_file_offset s - seg_file_offset g = sec_virtual_address s - seg_virtual_address g"
    and "k < length (bs_data source) \<or> last (seg_sections g) = sec_index s \<and> k < unat (sec_memory_size s)"
    and "\<not> load_touches img (load_bias load_options img)
      (sec_virtual_address s + load_bias load_options img + of_nat k)"
  shows "as_byte m' (sec_virtual_address s + load_bias load_options img + of_nat k) =
    Some (if k < length (bs_data source) then bs_data source ! k else 0)"
proof -
  obtain bs where bs: "img_file_data img = Some bs" "length bs < 2 ^ 64" "image_valid (ib_limits b) bs img"
    and n: "length (img_sections img) = length (ib_sections b)"
    and placed: "\<And>i. i < length (ib_sections b) \<Longrightarrow>
       section_placed options bs i (ib_sections b ! i) (img_sections img ! i)"
    and apart: "sorted_wrt sections_apart (img_sections img)"
    and segs: "segments_of (bo_separate_permissions options) (img_sections img) (img_segments img)"
    using build_facts [OF assms(2)] by blast
  have p: "section_placed options bs i source s" using placed assms(4-6) by simp
  have s: "s \<in> set (img_sections img)" using assms(4,5) n by simp
  have inj: "inj_on sec_index (set (img_sections img))"
    using bs(3) by (auto simp: image_valid_def section_valid_def in_set_conv_nth inj_on_def) metis
  obtain run where run: "segment_of (bo_separate_permissions options) run g" "s \<in> set run"
    "sorted_wrt sections_apart run" "set run \<subseteq> set (img_sections img)"
    by (rule run_member [OF segs apart assms(7,8) s inj])
  have lst: "s = last run" if "last (seg_sections g) = sec_index s"
    using that run s inj by (auto simp: segment_of_def last_map dest!: inj_onD)
  have k: "k < unat (sec_memory_size s)" using assms(10) p by (auto simp: section_placed_def)
  let ?j = "unat (sec_virtual_address s - seg_virtual_address g) + k"
  note at = segment_section_bytes [OF run(1,3,2) p assms(9) k]
  have addr: "seg_virtual_address g + load_bias load_options img + of_nat ?j =
      sec_virtual_address s + load_bias load_options img + of_nat k"
    by simp
  have "segment_byte bs g ?j = (if k < length (bs_data source) then bs_data source ! k else 0)"
    using at(2,3) lst assms(10) by auto
  moreover obtain m1 where "changes_only (load_touches img (load_bias load_options img)) m1 m'"
    and loaded: "segment_loaded bs (load_bias load_options img) (opt_enforce_wx load_options) g m1"
    using load_stages [OF assms(1) bs(1,2) assms(3)] assms(7) by metis
  then have "as_byte m' (sec_virtual_address s + load_bias load_options img + of_nat k) =
      as_byte m1 (sec_virtual_address s + load_bias load_options img + of_nat k)"
    using assms(11) by (simp add: changes_only_def)
  moreover have "as_byte m1 (sec_virtual_address s + load_bias load_options img + of_nat k) =
      Some (segment_byte bs g ?j)"
    using loaded at(1) unfolding segment_loaded_def Let_def by (subst addr [symmetric]) blast
  ultimately show ?thesis by simp
qed

theorem build_then_load_witness:
  "\<exists>img result m'. build demo_build_options demo_builder = Inr img \<and>
     load demo_limits img default_load_options None no_error (new_address_space demo_limits) = (Inr result, m') \<and>
     as_byte m' (0x400020 + load_bias default_load_options img) = Some 11"
proof -
  obtain img result m' where b: "build demo_build_options demo_builder = Inr img"
    and l: "load demo_limits img default_load_options None no_error (new_address_space demo_limits) = (Inr result, m')"
    by (rule demo_build_load)
  let ?s = "img_sections img ! 2" and ?g = "img_segments img ! 1"
  note built = demo_built [unfolded b sum.case]
  have len: "length (img_segments img) = 2" "length (img_sections img) = 3"
    using built by (auto dest!: arg_cong [where f = length])
  have g: "?g \<in> set (img_segments img)" "seg_sections ?g = [2]" "seg_file_offset ?g = 4"
    "seg_virtual_address ?g = 0x400020"
    using built len nth_map [of 1 "img_segments img" seg_sections] nth_map [of 1 "img_segments img" seg_file_offset]
      nth_map [of 1 "img_segments img" seg_virtual_address] by simp_all
  have s: "sec_index ?s = 2" "sec_file_offset ?s = 4" "sec_virtual_address ?s = 0x400020"
    using built len nth_map [of 2 "img_sections img" sec_index] nth_map [of 2 "img_sections img" sec_file_offset]
      nth_map [of 2 "img_sections img" sec_virtual_address] by simp_all
  have quiet: "\<not> load_touches img x y" for x y
    using built by (simp add: load_touches_def relocated_def import_slot_def)
  have src: "ib_sections demo_builder ! 2 = demo_section ''c'' 5 [11]" "2 < length (ib_sections demo_builder)"
    by (simp_all add: demo_builder_def)
  have "as_byte m' (sec_virtual_address ?s + load_bias default_load_options img + of_nat 0) =
      Some (if 0 < length (bs_data (ib_sections demo_builder ! 2)) then bs_data (ib_sections demo_builder ! 2) ! 0 else 0)"
    by (rule build_then_load [OF new_address_space_ok b l src(2) refl refl g(1)])
      (simp_all add: g s src(1) quiet demo_section_def del: One_nat_def)
  then have "as_byte m' (0x400020 + load_bias default_load_options img) = Some 11"
    by (simp add: s src(1) demo_section_def)
  with b l show ?thesis by blast
qed

text \<open>
  In an image built by a builder that only its own operations have filled, every section is found
  by its name and every symbol by its index.
\<close>

theorem built_names:
  assumes "builder_reachable limits b" "build options b = Inr img"
  shows "(\<forall>i < length (ib_sections b).
       image_section_named img (bs_name (ib_sections b ! i)) = Some (img_sections img ! i) \<and>
       sec_name (img_sections img ! i) = bs_name (ib_sections b ! i)) \<and>
     (\<forall>i < length (ib_symbols b). image_symbol img (sym_index (ib_symbols b ! i)) = Some (ib_symbols b ! i))"
proof -
  have ok: "builder_ok limits b" by (rule reachable_builder_ok [OF assms(1)])
  obtain bs where n: "length (img_sections img) = length (ib_sections b)"
    and placed: "\<And>i. i < length (ib_sections b) \<Longrightarrow>
       section_placed options bs i (ib_sections b ! i) (img_sections img ! i)"
    and syms: "img_symbols img = ib_symbols b"
    using build_facts [OF assms(2)] by blast
  have name: "sec_name (img_sections img ! i) = bs_name (ib_sections b ! i)" if "i < length (ib_sections b)" for i
    using placed [OF that] by (simp add: section_placed_def built_section_def) (metis Section.select_convs(2))
  then have "map sec_name (img_sections img) = map bs_name (ib_sections b)"
    using n by (simp add: list_eq_iff_nth_eq)
  then have "distinct (map sec_name (img_sections img))" using ok by (simp add: builder_ok_def)
  then show ?thesis
    using name n ok find_distinct [of sec_name "img_sections img"]
    by (auto simp: image_section_named_def image_symbol_def syms builder_ok_def)
qed

theorem built_names_witness:
  "\<exists>b img. builder_reachable demo_limits b \<and> build demo_build_options b = Inr img \<and>
     image_section_named img ''b'' = Some (img_sections img ! 1)"
proof -
  let ?b = "(new_builder demo_limits)\<lparr>ib_sections := [demo_section ''a'' 3 [7]]\<rparr>"
  have "add_section (demo_section ''a'' 3 [7]) (new_builder demo_limits) = Inr ?b"
    by (simp add: add_section_def demo_section_def new_builder_def demo_limits_def default_limits_def
        too_long_def bad_alignment_def)
  then have r1: "builder_reachable demo_limits ?b" by (rule builder_section [OF builder_new])
  let ?b2 = "?b\<lparr>ib_sections := [demo_section ''a'' 3 [7], demo_section ''b'' 3 [9]]\<rparr>"
  have "add_section (demo_section ''b'' 3 [9]) ?b = Inr ?b2"
    by (simp add: add_section_def demo_section_def new_builder_def demo_limits_def default_limits_def
        too_long_def bad_alignment_def)
  then have "builder_reachable demo_limits ?b2" by (rule builder_section [OF r1])
  moreover have "add_section (demo_section ''c'' 5 [11]) ?b2 = Inr demo_builder"
    by (simp add: add_section_def demo_section_def new_builder_def demo_limits_def default_limits_def
        too_long_def bad_alignment_def demo_builder_def)
  ultimately have r: "builder_reachable demo_limits demo_builder" by (rule builder_section)
  obtain img where b: "build demo_build_options demo_builder = Inr img" using demo_build_image by blast
  have "1 < length (ib_sections demo_builder)" "bs_name (ib_sections demo_builder ! 1) = ''b''"
    by (simp_all add: demo_builder_def demo_section_def)
  then have "image_section_named img ''b'' = Some (img_sections img ! 1)"
    using conjunct1 [OF built_names [OF r b]] by metis
  with r b show ?thesis by blast
qed

text \<open>
  Sections that share a segment are not always as far into its memory as into its file range. Section
  \<open>b\<close> of the example has the byte 9 and the address 0x400010; the loader puts that byte at 0x400002
  and leaves zero at 0x400010.
\<close>

theorem combined_section_misplaced:
  "\<exists>img result m'. build demo_build_options demo_builder = Inr img \<and>
     load demo_limits img default_load_options None no_error (new_address_space demo_limits) = (Inr result, m') \<and>
     sec_virtual_address (img_sections img ! 1) = 0x400010 \<and> bs_data (ib_sections demo_builder ! 1) = [9] \<and>
     as_byte m' 0x400002 = Some 9 \<and> as_byte m' 0x400010 = Some 0"
proof -
  obtain img result m' where b: "build demo_build_options demo_builder = Inr img"
    and l: "load demo_limits img default_load_options None no_error (new_address_space demo_limits) = (Inr result, m')"
    and at: "as_byte m' 0x400002 = Some 9" "as_byte m' 0x400010 = Some 0"
    by (rule demo_build_load)
  note built = demo_built [unfolded b sum.case]
  have "length (img_sections img) = 3" using built by (auto dest!: arg_cong [where f = length])
  then have "sec_virtual_address (img_sections img ! 1) = 0x400010"
    using built nth_map [of 1 "img_sections img" sec_virtual_address] by simp
  moreover have "bs_data (ib_sections demo_builder ! 1) = [9]"
    by (simp add: demo_builder_def demo_section_def)
  ultimately show ?thesis using b l at by blast
qed

end
