(* ===== verification/Section_Graph.thy ===== *)
theory Section_Graph
  imports Base Ordered_Map "HOL-Library.Sublist"
begin

text \<open>
  \<open>SectionGraphAnalyzer\<close> of \<open>src/section_graph.cc\<close>: the relations between sections, with how often
  and why each occurs, the sections nothing refers to, and the strongly connected components by
  Tarjan's algorithm. Section indices, which the source keeps in 32 bits, are naturals here: they are
  below the number of sections, which is within a 32-bit limit. A vector used as a stack is a list
  with its top first. The loop over the targets of a node is the function \<open>visit\<close>; its call of
  \<open>strong_connect\<close> on an unvisited target is unfolded, so that the recursion terminates by the number
  of unvisited nodes.
\<close>

section \<open>Relations\<close>

record SectionRelation =
  rln_source :: nat
  rln_target :: nat
  rln_reason :: string
  rln_references :: u64

record SectionGraph =
  sg_components :: "nat list list"
  sg_relations :: "SectionRelation list"
  sg_roots :: "nat list"
  sg_orphans :: "nat list"
  sg_cyclic :: bool

type_synonym relation_call = "nat \<times> nat \<times> string"

definition count_reference :: "string \<Rightarrow> SectionRelation \<Rightarrow> SectionRelation" where
  "count_reference reason rln = rln\<lparr>rln_references := rln_references rln + 1,
     rln_reason := (if sublist reason (rln_reason rln) then rln_reason rln
                    else rln_reason rln @ '','' @ reason)\<rparr>"

definition add_relation ::
    "nat \<Rightarrow> relation_call \<Rightarrow> SectionRelation list \<times> (nat \<times> nat, nat) omap \<Rightarrow>
     SectionRelation list \<times> (nat \<times> nat, nat) omap" where
  "add_relation n call st =
    (case call of (source, target, reason) \<Rightarrow> case st of (relations, relation_at) \<Rightarrow>
     if source \<ge> n \<or> target \<ge> n then (relations, relation_at)
     else case om_find relation_at (source, target) of
       Some k \<Rightarrow> (relations[k := count_reference reason (relations ! k)], relation_at)
     | None \<Rightarrow> (relations @ [\<lparr>rln_source = source, rln_target = target, rln_reason = reason,
                                rln_references = 1\<rparr>],
                om_emplace (source, target) (length relations) relation_at))"

text \<open>The calls of \<open>add_relation\<close> that the three loops of \<open>analyze\<close> make, in their order.\<close>

definition section_calls :: "nat \<Rightarrow> Section \<Rightarrow> relation_call list" where
  "section_calls n s =
     (if sec_link s \<noteq> 0 \<and> unat (sec_link s) < n
      then [(unat (sec_index s), unat (sec_link s), ''link'')] else []) @
     (if (sec_kind s = relocations \<or> sec_kind s = relocation_addends) \<and> unat (sec_info s) < n
      then [(unat (sec_index s), unat (sec_info s), ''relocation-target'')] else [])"

definition segment_calls :: "Segment \<Rightarrow> relation_call list" where
  "segment_calls g = map (\<lambda>k. (unat (seg_sections g ! (k - 1)), unat (seg_sections g ! k), ''segment-order''))
     [1..<length (seg_sections g)]"

definition relocation_calls :: "nat \<Rightarrow> BinaryImage \<Rightarrow> Relocation \<Rightarrow> relation_call list" where
  "relocation_calls n img rel =
     (if unat (rel_target_section rel) \<ge> n then []
      else case image_symbol img (rel_symbol_index rel) of
        None \<Rightarrow> []
      | Some y \<Rightarrow> if unat (sym_section_index y) < n
          then [(unat (rel_target_section rel), unat (sym_section_index y), ''symbol-reference'')] else [])"

definition relation_calls :: "BinaryImage \<Rightarrow> relation_call list" where
  "relation_calls img = (let n = length (img_sections img) in
     concat (map (section_calls n) (img_sections img)) @
     concat (map segment_calls (img_segments img)) @
     concat (map (relocation_calls n img) (img_relocations img)))"

definition collect_relations :: "nat \<Rightarrow> relation_call list \<Rightarrow> SectionRelation list" where
  "collect_relations n calls = fst (fold (add_relation n) calls ([], []))"

section \<open>Neighbours\<close>

definition add_edge :: "SectionRelation \<Rightarrow> nat list list \<times> nat list \<Rightarrow> nat list list \<times> nat list" where
  "add_edge rln st = (case st of (adjacency, indegree) \<Rightarrow>
     (adjacency[rln_source rln := adjacency ! rln_source rln @ [rln_target rln]],
      indegree[rln_target rln := Suc (indegree ! rln_target rln)]))"

definition neighbours :: "nat \<Rightarrow> SectionRelation list \<Rightarrow> nat list list \<times> nat list" where
  "neighbours n rlns = fold add_edge rlns (replicate n [], replicate n 0)"

section \<open>Tarjan's algorithm\<close>

record Tarjan =
  tj_index :: "int list"
  tj_low :: "int list"
  tj_stack :: "nat list"
  tj_on_stack :: "bool list"
  tj_next :: nat
  tj_components :: "nat list list"
  tj_cyclic :: bool

definition tarjan_start :: "nat \<Rightarrow> Tarjan" where
  "tarjan_start n = \<lparr>tj_index = replicate n (-1), tj_low = replicate n (-1), tj_stack = [],
     tj_on_stack = replicate n False, tj_next = 0, tj_components = [], tj_cyclic = False\<rparr>"

text \<open>Every node met is below the number of nodes, where the source reads the vector unchecked.\<close>

definition unvisited :: "Tarjan \<Rightarrow> nat \<Rightarrow> bool" where
  "unvisited s v \<longleftrightarrow> v < length (tj_index s) \<and> tj_index s ! v < 0"

definition enter_node :: "nat \<Rightarrow> Tarjan \<Rightarrow> Tarjan" where
  "enter_node v s = s\<lparr>tj_index := (tj_index s)[v := int (tj_next s)],
     tj_low := (tj_low s)[v := int (tj_next s)],
     tj_next := tj_next s + 1, tj_stack := v # tj_stack s, tj_on_stack := (tj_on_stack s)[v := True]\<rparr>"

definition lower_link :: "nat \<Rightarrow> int \<Rightarrow> Tarjan \<Rightarrow> Tarjan" where
  "lower_link v k s = s\<lparr>tj_low := (tj_low s)[v := min (tj_low s ! v) k]\<rparr>"

text \<open>The popping loop: the component so far, the stack and the marks.\<close>

fun pop_component :: "nat \<Rightarrow> nat list \<Rightarrow> nat list \<Rightarrow> bool list \<Rightarrow> nat list \<times> nat list \<times> bool list" where
  "pop_component v popped [] marks = (popped, [], marks)"
| "pop_component v popped (w # stack) marks =
    (if w = v then (popped @ [w], stack, marks[w := False])
     else pop_component v (popped @ [w]) stack (marks[w := False]))"

definition finish_node :: "nat list list \<Rightarrow> nat \<Rightarrow> Tarjan \<Rightarrow> Tarjan" where
  "finish_node adj v s =
    (if tj_low s ! v \<noteq> tj_index s ! v then s
     else case pop_component v [] (tj_stack s) (tj_on_stack s) of (members, stack, marks) \<Rightarrow>
       s\<lparr>tj_stack := stack, tj_on_stack := marks,
         tj_cyclic := tj_cyclic s \<or> length members > 1 \<or> v \<in> set (adj ! v),
         tj_components := tj_components s @ [sort members]\<rparr>)"

function visit :: "nat list list \<Rightarrow> nat \<Rightarrow> nat list \<Rightarrow> Tarjan \<Rightarrow> Tarjan" where
  "visit adj v [] s = s"
| "visit adj v (w # ws) s =
    visit adj v ws
      (if unvisited s w then
         let s' = finish_node adj w (visit adj w (adj ! w) (enter_node w s)) in
         lower_link v (tj_low s' ! w) s'
       else if tj_on_stack s ! w then lower_link v (tj_index s ! w) s
       else s)"
  by pat_completeness auto

definition unvisited_count :: "Tarjan \<Rightarrow> nat" where
  "unvisited_count s = card {v. unvisited s v}"

lemma finite_unvisited: "finite {v. unvisited s v}"
  by (rule finite_subset [of _ "{..<length (tj_index s)}"]) (auto simp: unvisited_def)

text \<open>\<open>keeps s s'\<close>: \<open>s'\<close> has the same number of nodes and no more of them unvisited.\<close>

definition keeps :: "Tarjan \<Rightarrow> Tarjan \<Rightarrow> bool" where
  "keeps s s' \<longleftrightarrow> length (tj_index s') = length (tj_index s) \<and> (\<forall>v. unvisited s' v \<longrightarrow> unvisited s v)"

lemma keeps_refl [simp]: "keeps s s"
  by (simp add: keeps_def)

lemma keeps_trans: "keeps s t \<Longrightarrow> keeps t u \<Longrightarrow> keeps s u"
  by (simp add: keeps_def)

lemma nth_update: "xs[v := x] ! j = (if v = j \<and> j < length xs then x else xs ! j)"
  by (cases "v = j") (auto simp: list_update_beyond not_less)

lemma keeps_enter: "keeps s (enter_node v s)"
  by (auto simp: keeps_def unvisited_def enter_node_def nth_update split: if_splits)

lemma keeps_enter_trans: "keeps (enter_node v s) s' \<Longrightarrow> keeps s s'"
  by (rule keeps_trans [OF keeps_enter])

lemma keeps_lower [simp]: "keeps s (lower_link v k s') \<longleftrightarrow> keeps s s'"
  by (simp add: keeps_def unvisited_def lower_link_def)

lemma keeps_finish [simp]: "keeps s (finish_node adj v s') \<longleftrightarrow> keeps s s'"
  by (simp add: keeps_def unvisited_def finish_node_def split: prod.splits)

lemma keeps_target:
  assumes "unvisited s w \<Longrightarrow> keeps (enter_node w s) (visit adj w (adj ! w) (enter_node w s))"
  shows "keeps s (if unvisited s w then
       let s' = finish_node adj w (visit adj w (adj ! w) (enter_node w s)) in lower_link v (tj_low s' ! w) s'
     else if tj_on_stack s ! w then lower_link v (tj_index s ! w) s else s)"
  using assms by (auto simp: Let_def intro: keeps_enter_trans)

lemma visit_keeps_dom: "visit_dom (adj, v, ws, s) \<Longrightarrow> keeps s (visit adj v ws s)"
proof (induction rule: visit.pinduct)
  case (1 adj v s)
  then show ?case by (simp add: visit.psimps)
next
  case (2 adj v w ws s)
  then show ?case
    using keeps_trans [OF keeps_target [OF 2(2)] 2(3)] by (simp only: visit.psimps(2) [OF 2(1)])
qed

lemma unvisited_count_mono: "keeps s s' \<Longrightarrow> unvisited_count s' \<le> unvisited_count s"
  unfolding unvisited_count_def by (rule card_mono [OF finite_unvisited]) (auto simp: keeps_def)

lemma unvisited_enter: "unvisited (enter_node v s) w \<longleftrightarrow> unvisited s w \<and> w \<noteq> v"
  by (auto simp: unvisited_def enter_node_def nth_update)

lemma unvisited_count_enter: "unvisited s v \<Longrightarrow> unvisited_count (enter_node v s) < unvisited_count s"
  unfolding unvisited_count_def unvisited_enter
  by (rule psubset_card_mono [OF finite_unvisited]) blast

termination visit
proof (relation "measures [\<lambda>(adj, v, ws, s). unvisited_count s, \<lambda>(adj, v, ws, s). length ws]")
  show "wf (measures [\<lambda>(adj, v, ws, s). unvisited_count s, \<lambda>(adj, v, ws :: nat list, s). length ws])"
    by simp
next
  fix adj v w ws s assume "unvisited s w"
  then show "((adj, w, adj ! w, enter_node w s), adj, v, w # ws, s)
      \<in> measures [\<lambda>(adj, v, ws, s). unvisited_count s, \<lambda>(adj, v, ws, s). length ws]"
    by (simp add: unvisited_count_enter)
next
  fix adj v w ws s
  assume d: "unvisited s w \<Longrightarrow> visit_dom (adj, w, adj ! w, enter_node w s)"
  let ?s = "if unvisited s w then
       let s' = finish_node adj w (visit adj w (adj ! w) (enter_node w s)) in lower_link v (tj_low s' ! w) s'
     else if tj_on_stack s ! w then lower_link v (tj_index s ! w) s else s"
  have "unvisited_count ?s \<le> unvisited_count s"
    by (rule unvisited_count_mono [OF keeps_target [OF visit_keeps_dom [OF d]]])
  then show "((adj, v, ws, ?s), adj, v, w # ws, s)
      \<in> measures [\<lambda>(adj, v, ws, s). unvisited_count s, \<lambda>(adj, v, ws, s). length ws]"
    by auto
qed

lemma visit_keeps: "keeps s (visit adj v ws s)"
proof (induction adj v ws s rule: visit.induct)
  case (2 adj v w ws s)
  then show ?case
    using keeps_trans [OF keeps_target [OF 2(1)] 2(2)] by (simp only: visit.simps(2))
qed simp

definition strong_connect :: "nat list list \<Rightarrow> nat \<Rightarrow> Tarjan \<Rightarrow> Tarjan" where
  "strong_connect adj v s = finish_node adj v (visit adj v (adj ! v) (enter_node v s))"

text \<open>What the loop over the targets of \<open>v\<close> does with \<open>w\<close>.\<close>

definition visit_target :: "nat list list \<Rightarrow> nat \<Rightarrow> nat \<Rightarrow> Tarjan \<Rightarrow> Tarjan" where
  "visit_target adj v w s =
     (if unvisited s w then
        let s' = strong_connect adj w s in lower_link v (tj_low s' ! w) s'
      else if tj_on_stack s ! w then lower_link v (tj_index s ! w) s
      else s)"

lemma visit_Cons: "visit adj v (w # ws) s = visit adj v ws (visit_target adj v w s)"
  by (simp add: visit_target_def strong_connect_def)

lemma visit_induct [case_names Nil Cons]:
  assumes "\<And>v s. P v [] s"
    and "\<And>v w ws s. (unvisited s w \<Longrightarrow> P w (adj ! w) (enter_node w s)) \<Longrightarrow>
      P v ws (visit_target adj v w s) \<Longrightarrow> P v (w # ws) s"
  shows "P v ws s"
proof -
  have "adj' = adj \<longrightarrow> P v ws s" for adj'
  proof (induction adj' v ws s rule: visit.induct)
    case (1 adj' v s)
    show ?case using assms(1) by simp
  next
    case (2 adj' v w ws s)
    show ?case
    proof
      assume eq: "adj' = adj"
      have "P v ws (visit_target adj v w s)"
        using 2(2) unfolding eq visit_target_def strong_connect_def by simp
      then show "P v (w # ws) s" using 2(1) unfolding eq by (intro assms(2)) simp_all
    qed
  qed
  then show ?thesis by blast
qed

definition tarjan_step :: "nat list list \<Rightarrow> nat \<Rightarrow> Tarjan \<Rightarrow> Tarjan" where
  "tarjan_step adj v s = (if unvisited s v then strong_connect adj v s else s)"

definition tarjan :: "nat \<Rightarrow> nat list list \<Rightarrow> Tarjan" where
  "tarjan n adj = fold (tarjan_step adj) [0..<n] (tarjan_start n)"

section \<open>The analysis\<close>

definition analyze :: "Limits \<Rightarrow> BinaryImage \<Rightarrow> Error + SectionGraph" where
  "analyze limits img =
    (let n = length (img_sections img) in
     if n > unat (max_sections limits)
     then Inl (mk_error resource_limit 0 ''section graph exceeds section limit'')
     else
       let rlns = collect_relations n (relation_calls img);
           (adjacency, indegree) = neighbours n rlns;
           result = tarjan n adjacency in
       Inr \<lparr>sg_components = sort_key hd (tj_components result), sg_relations = rlns,
            sg_roots = filter (\<lambda>v. indegree ! v = 0) [0..<n],
            sg_orphans = filter (\<lambda>v. adjacency ! v = [] \<and> indegree ! v = 0) [0..<n],
            sg_cyclic = tj_cyclic result\<rparr>)"

end
