(* ===== verification/Section_Components.thy ===== *)
theory Section_Components
  imports Section_Graph
begin

text \<open>
  The section graph against its meaning. The locale \<open>section_graph\<close> fixes the nodes and their
  targets; inside it Tarjan's algorithm is shown to produce the strongly connected components. The
  proof follows the call path: \<open>search_ok G s\<close> holds between two steps of the search when \<open>G\<close> is the set
  of nodes whose targets are being looked at, \<open>in_loop\<close> within the loop over the targets of one node,
  and \<open>frame\<close> says what a step leaves alone.
\<close>

section \<open>Popping a component\<close>

lemma pop_component_split:
  "v \<notin> set hi \<Longrightarrow> pop_component v acc (hi @ v # B) marks =
    (acc @ hi @ [v], B, fold (\<lambda>w m. m[w := False]) (hi @ [v]) marks)"
  by (induction hi arbitrary: acc marks) auto

lemma nth_unmark:
  "u < length marks \<Longrightarrow> fold (\<lambda>w m. m[w := False]) ws marks ! u = (if u \<in> set ws then False else marks ! u)"
  by (induction ws arbitrary: marks) (auto simp: nth_update)

lemma length_unmark [simp]: "length (fold (\<lambda>w m. m[w := False]) ws marks) = length marks"
  by (induction ws arbitrary: marks) auto

section \<open>Graphs and search states\<close>

locale section_graph =
  fixes n :: nat and adj :: "nat list list"
  assumes targets_below: "v < n \<Longrightarrow> w \<in> set (adj ! v) \<Longrightarrow> w < n"
begin

definition edges :: "(nat \<times> nat) set" where
  "edges = {(v, w). v < n \<and> w \<in> set (adj ! v)}"

definition scc_of :: "nat \<Rightarrow> nat set" where
  "scc_of v = {w. (v, w) \<in> edges\<^sup>* \<and> (w, v) \<in> edges\<^sup>*}"

definition visited :: "Tarjan \<Rightarrow> nat set" where
  "visited s = {v. v < n \<and> 0 \<le> tj_index s ! v}"

definition finished :: "Tarjan \<Rightarrow> nat set" where
  "finished s = visited s - set (tj_stack s)"

abbreviation idx :: "Tarjan \<Rightarrow> nat \<Rightarrow> int" where
  "idx s v \<equiv> tj_index s ! v"

definition well_formed :: "Tarjan \<Rightarrow> bool" where
  "well_formed s \<longleftrightarrow>
     length (tj_index s) = n \<and> length (tj_low s) = n \<and> length (tj_on_stack s) = n \<and>
     set (tj_stack s) \<subseteq> visited s \<and> (\<forall>v < n. tj_on_stack s ! v \<longleftrightarrow> v \<in> set (tj_stack s)) \<and>
     (\<forall>v \<in> visited s. idx s v < int (tj_next s)) \<and>
     sorted_wrt (\<lambda>x y. idx s x > idx s y) (tj_stack s)"

definition components_ok :: "Tarjan \<Rightarrow> bool" where
  "components_ok s \<longleftrightarrow>
     distinct (concat (tj_components s)) \<and> set (concat (tj_components s)) = finished s \<and>
     (\<forall>c \<in> set (tj_components s). sorted c \<and> (\<exists>v < n. set c = scc_of v)) \<and>
     (tj_cyclic s \<longleftrightarrow> (\<exists>c \<in> set (tj_components s). length c > 1 \<or> (\<exists>v \<in> set c. v \<in> set (adj ! v)))) \<and>
     (\<forall>x \<in> finished s. \<forall>y. (x, y) \<in> edges \<longrightarrow> y \<in> finished s)"

definition search_ok :: "nat set \<Rightarrow> Tarjan \<Rightarrow> bool" where
  "search_ok G s \<longleftrightarrow> well_formed s \<and> components_ok s \<and> G \<subseteq> set (tj_stack s) \<and>
     (\<forall>x \<in> set (tj_stack s). \<exists>g \<in> G. idx s g \<le> idx s x \<and> (x, g) \<in> edges\<^sup>*) \<and>
     (\<forall>g \<in> G. \<forall>y \<in> set (tj_stack s). idx s g \<le> idx s y \<longrightarrow> (g, y) \<in> edges\<^sup>*) \<and>
     (\<forall>x \<in> visited s - G. \<forall>y. (x, y) \<in> edges \<longrightarrow> y \<in> visited s)"

definition frame :: "nat set \<Rightarrow> Tarjan \<Rightarrow> Tarjan \<Rightarrow> bool" where
  "frame U s s' \<longleftrightarrow> visited s \<subseteq> visited s' \<and> tj_next s \<le> tj_next s' \<and>
     (\<forall>v \<in> visited s. idx s' v = idx s v) \<and> (\<forall>v \<in> visited s - U. tj_low s' ! v = tj_low s ! v) \<and>
     (\<exists>fresh. tj_stack s' = fresh @ tj_stack s \<and> set fresh \<inter> visited s = {})"

text \<open>In the loop of \<open>v\<close>, above the stack \<open>B\<close>, after the targets \<open>P\<close>.\<close>

definition in_loop :: "nat set \<Rightarrow> nat set \<Rightarrow> nat \<Rightarrow> nat list \<Rightarrow> Tarjan \<Rightarrow> bool" where
  "in_loop G P v B s \<longleftrightarrow> search_ok (insert v G) s \<and> G \<subseteq> set B \<and> v < n \<and>
     (\<exists>top. tj_stack s = top @ v # B \<and>
        (\<forall>x \<in> set top. \<forall>y \<in> set B. (x, y) \<in> edges \<longrightarrow> tj_low s ! v \<le> idx s y)) \<and>
     P \<subseteq> visited s \<and> tj_low s ! v \<le> idx s v \<and>
     (\<exists>y \<in> set (v # B). tj_low s ! v = idx s y \<and> (v, y) \<in> edges\<^sup>*) \<and>
     (\<forall>y \<in> P \<inter> set B. tj_low s ! v \<le> idx s y)"

text \<open>What \<open>strong_connect\<close> of \<open>w\<close> makes of \<open>s\<close>.\<close>

definition connected :: "nat set \<Rightarrow> nat \<Rightarrow> Tarjan \<Rightarrow> Tarjan \<Rightarrow> bool" where
  "connected G w s s' \<longleftrightarrow> search_ok G s' \<and> frame {} s s' \<and> w \<in> visited s' \<and> int (tj_next s) \<le> idx s' w \<and>
     (if w \<in> set (tj_stack s')
      then \<exists>y \<in> set (tj_stack s). tj_low s' ! w = idx s y \<and> (w, y) \<in> edges\<^sup>*
      else tj_stack s' = tj_stack s \<and> tj_low s' ! w = idx s' w) \<and>
     (\<forall>x \<in> set (tj_stack s') - set (tj_stack s). \<forall>y \<in> set (tj_stack s).
        (x, y) \<in> edges \<longrightarrow> tj_low s' ! w \<le> idx s y)"

lemma frame_refl [simp]: "frame U s s"
  by (simp add: frame_def)

lemma frame_trans:
  assumes "frame U s t" "frame U t u"
  shows "frame U s u"
proof -
  obtain f g where "tj_stack t = f @ tj_stack s" "set f \<inter> visited s = {}"
    "tj_stack u = g @ tj_stack t" "set g \<inter> visited t = {}"
    using assms by (auto simp: frame_def)
  then have "tj_stack u = (g @ f) @ tj_stack s \<and> set (g @ f) \<inter> visited s = {}"
    using assms by (auto simp: frame_def)
  then show ?thesis using assms unfolding frame_def by (intro conjI exI [of _ "g @ f"]) auto
qed

lemma frame_mono: "frame U s t \<Longrightarrow> U \<subseteq> V \<Longrightarrow> frame V s t"
  by (auto simp: frame_def)

lemma edge_in: "v < n \<Longrightarrow> w \<in> set (adj ! v) \<Longrightarrow> (v, w) \<in> edges"
  by (simp add: edges_def)

lemma falling_distinct: "sorted_wrt (\<lambda>x y. (f x :: int) > f y) xs \<Longrightarrow> distinct (map f xs)"
  by (induction xs) auto

lemma well_formed_stack:
  assumes "well_formed s"
  shows "distinct (tj_stack s)" "inj_on (idx s) (set (tj_stack s))"
proof -
  have "distinct (map (idx s) (tj_stack s))"
    using assms by (simp add: well_formed_def falling_distinct)
  then show "distinct (tj_stack s)" "inj_on (idx s) (set (tj_stack s))" by (simp_all add: distinct_map)
qed

lemma visited_enter:
  "w < n \<Longrightarrow> length (tj_index s) = n \<Longrightarrow> visited (enter_node w s) = insert w (visited s)"
  by (auto simp: visited_def enter_node_def nth_update)

lemma lower_link_simps [simp]:
  "tj_index (lower_link v k s) = tj_index s" "tj_stack (lower_link v k s) = tj_stack s"
  "tj_on_stack (lower_link v k s) = tj_on_stack s" "tj_next (lower_link v k s) = tj_next s"
  "tj_components (lower_link v k s) = tj_components s" "tj_cyclic (lower_link v k s) = tj_cyclic s"
  by (simp_all add: lower_link_def)

lemma lower_link_same [simp]:
  "visited (lower_link v k s) = visited s" "finished (lower_link v k s) = finished s"
  "well_formed (lower_link v k s) = well_formed s" "components_ok (lower_link v k s) = components_ok s"
  "search_ok G (lower_link v k s) = search_ok G s"
  by (simp_all add: visited_def finished_def well_formed_def components_ok_def search_ok_def lower_link_def)

lemma tj_low_lower_link:
  "tj_low (lower_link v k s) ! u =
    (if u = v \<and> v < length (tj_low s) then min (tj_low s ! v) k else tj_low s ! u)"
  by (auto simp: lower_link_def nth_update)

lemma frame_lower_link: "frame {v} s s' \<Longrightarrow> frame {v} s (lower_link v k s')"
  by (auto simp: frame_def tj_low_lower_link)

text \<open>Entering an unvisited node that all open nodes reach.\<close>

lemma enter_in_loop:
  assumes ok: "search_ok G s" and new: "unvisited s w" and reach: "\<And>g. g \<in> G \<Longrightarrow> (g, w) \<in> edges\<^sup>*"
  shows "in_loop G {} w (tj_stack s) (enter_node w s)" "frame {} s (enter_node w s)"
    "idx (enter_node w s) w = int (tj_next s)"
proof -
  have wf: "well_formed s" and len: "length (tj_index s) = n" "length (tj_low s) = n" "length (tj_on_stack s) = n"
    using ok by (auto simp: search_ok_def well_formed_def)
  have w: "w < n" "w \<notin> visited s" using new len by (auto simp: unvisited_def visited_def)
  then have w_out: "w \<notin> set (tj_stack s)" using wf by (auto simp: well_formed_def)
  let ?s = "enter_node w s"
  have e: "tj_stack ?s = w # tj_stack s" "tj_next ?s = Suc (tj_next s)"
    "tj_components ?s = tj_components s" "tj_cyclic ?s = tj_cyclic s"
    "idx ?s w = int (tj_next s)" "tj_low ?s ! w = int (tj_next s)"
    "length (tj_index ?s) = n" "length (tj_low ?s) = n" "length (tj_on_stack ?s) = n"
    using w(1) len by (simp_all add: enter_node_def)
  have same: "idx ?s v = idx s v" "tj_low ?s ! v = tj_low s ! v" "tj_on_stack ?s ! v = tj_on_stack s ! v"
    if "v \<noteq> w" for v
    using that by (simp_all add: enter_node_def)
  have vis: "visited ?s = insert w (visited s)" by (rule visited_enter [OF w(1) len(1)])
  have below: "idx s v < int (tj_next s)" if "v \<in> visited s" for v
    using wf that by (simp add: well_formed_def)
  have stack: "v \<noteq> w" "v \<in> visited s" if "v \<in> set (tj_stack s)" for v
    using that w_out wf by (auto simp: well_formed_def)
  have falling: "sorted_wrt (\<lambda>x y. idx s x > idx s y) (tj_stack s)"
    using wf by (simp add: well_formed_def)
  have sorted: "sorted_wrt (\<lambda>x y. idx ?s x > idx ?s y) (tj_stack s)"
    by (rule sorted_wrt_mono_rel [OF _ falling]) (simp add: same stack(1))
  have marks: "tj_on_stack ?s ! v \<longleftrightarrow> v \<in> set (tj_stack ?s)" if "v < n" for v
    using wf that w(1) len(3) by (cases "v = w") (auto simp: well_formed_def enter_node_def)
  have bound: "idx ?s v < int (tj_next ?s)" if "v \<in> visited ?s" for v
    using below [of v] that by (cases "v = w") (auto simp: vis e same)
  have top: "idx ?s x < idx ?s w" if "x \<in> set (tj_stack s)" for x
    using stack [OF that] below [of x] by (simp add: e same)
  have wf': "well_formed ?s"
    unfolding well_formed_def using marks bound e(7-9) stack(2) sorted top by (auto simp: e(1) vis)
  have fin: "finished ?s = finished s"
    using vis w w_out by (auto simp: finished_def e)
  have comp: "components_ok ?s" using ok by (simp add: components_ok_def search_ok_def e fin)
  have G: "G \<subseteq> set (tj_stack s)" using ok by (simp add: search_ok_def)
  have up: "\<exists>g \<in> insert w G. idx ?s g \<le> idx ?s x \<and> (x, g) \<in> edges\<^sup>*" if "x \<in> set (tj_stack ?s)" for x
  proof (cases "x = w")
    case False
    then have x: "x \<in> set (tj_stack s)" using that by (simp add: e)
    then obtain g where "g \<in> G" "idx s g \<le> idx s x" "(x, g) \<in> edges\<^sup>*"
      using ok unfolding search_ok_def by blast
    moreover have "g \<noteq> w" using \<open>g \<in> G\<close> G stack(1) by blast
    ultimately show ?thesis using False by (intro bexI [of _ g]) (simp_all add: same)
  qed auto
  have down: "(g, y) \<in> edges\<^sup>*" if "g \<in> insert w G" "y \<in> set (tj_stack ?s)" "idx ?s g \<le> idx ?s y" for g y
  proof (cases "y = w")
    case True
    then show ?thesis using that(1) reach by auto
  next
    case False
    then have y: "y \<in> set (tj_stack s)" using that(2) by (simp add: e)
    then have "g \<noteq> w" using top [OF y] that(3) by auto
    then have "g \<in> G" "idx s g \<le> idx s y" using that False by (simp_all add: same)
    then show ?thesis using ok y unfolding search_ok_def by blast
  qed
  have black: "y \<in> visited ?s" if "x \<in> visited ?s - insert w G" "(x, y) \<in> edges" for x y
    using ok that vis unfolding search_ok_def by blast
  have "search_ok (insert w G) ?s"
    unfolding search_ok_def using wf' comp G up down black by (auto simp: e(1))
  then show "in_loop G {} w (tj_stack s) ?s"
    using G w(1) by (simp add: in_loop_def e)
  show "frame {} s ?s"
    unfolding frame_def using w(2) same by (auto simp: vis e) metis+
  show "idx ?s w = int (tj_next s)" by (simp add: e)
qed

lemma stack_split:
  assumes "well_formed s" "tj_stack s = hi @ v # B"
  shows "x \<in> set hi \<Longrightarrow> idx s v < idx s x" "y \<in> set B \<Longrightarrow> idx s y < idx s v"
    "v \<notin> set hi" "v \<notin> set B" "set hi \<inter> set B = {}"
proof -
  have "sorted_wrt (\<lambda>x y. idx s x > idx s y) (hi @ v # B)" using assms by (simp add: well_formed_def)
  then show "x \<in> set hi \<Longrightarrow> idx s v < idx s x" "y \<in> set B \<Longrightarrow> idx s y < idx s v"
    by (auto simp: sorted_wrt_append)
  have "distinct (hi @ v # B)" using well_formed_stack(1) [OF assms(1)] assms(2) by simp
  then show "v \<notin> set hi" "v \<notin> set B" "set hi \<inter> set B = {}" by auto
qed

lemma in_loopE:
  assumes "in_loop G P v B s"
  obtains hi y where "search_ok (insert v G) s" "well_formed s" "G \<subseteq> set B" "v < n"
    "tj_stack s = hi @ v # B" "P \<subseteq> visited s" "tj_low s ! v \<le> idx s v"
    "y \<in> set (v # B)" "tj_low s ! v = idx s y" "(v, y) \<in> edges\<^sup>*"
    "\<And>y. y \<in> P \<Longrightarrow> y \<in> set B \<Longrightarrow> tj_low s ! v \<le> idx s y"
    "\<And>x y. x \<in> set hi \<Longrightarrow> y \<in> set B \<Longrightarrow> (x, y) \<in> edges \<Longrightarrow> tj_low s ! v \<le> idx s y"
proof -
  obtain hi where hi: "tj_stack s = hi @ v # B"
    "\<forall>x \<in> set hi. \<forall>y \<in> set B. (x, y) \<in> edges \<longrightarrow> tj_low s ! v \<le> idx s y"
    using assms unfolding in_loop_def by blast
  obtain y where y: "y \<in> set (v # B)" "tj_low s ! v = idx s y" "(v, y) \<in> edges\<^sup>*"
    using assms unfolding in_loop_def by blast
  have rest: "search_ok (insert v G) s" "G \<subseteq> set B" "v < n" "P \<subseteq> visited s" "tj_low s ! v \<le> idx s v"
    "\<forall>y \<in> P \<inter> set B. tj_low s ! v \<le> idx s y"
    using assms unfolding in_loop_def by blast+
  then have "well_formed s" by (simp add: search_ok_def)
  with rest hi y show thesis by (intro that [of hi y]) auto
qed

lemma below_in_stack:
  assumes "well_formed s" "tj_stack s = hi @ v # B" "y \<in> set (tj_stack s)" "idx s y < idx s v"
  shows "y \<in> set B"
  using stack_split(1) [OF assms(1,2), of y] assms(2-4) by auto

lemma child_in_loop:
  assumes loop: "in_loop G P v B s" and child: "connected (insert v G) w s s'" and edge: "(v, w) \<in> edges"
  shows "in_loop G (insert w P) v B (lower_link v (tj_low s' ! w) s')"
    "frame {v} s (lower_link v (tj_low s' ! w) s')"
proof -
  let ?m = "tj_low s' ! w"
  obtain hi y0 where ok: "search_ok (insert v G) s" and wf: "well_formed s" and G: "G \<subseteq> set B" and v: "v < n"
    and st: "tj_stack s = hi @ v # B" and P: "P \<subseteq> visited s" and le: "tj_low s ! v \<le> idx s v"
    and y0: "y0 \<in> set (v # B)" "tj_low s ! v = idx s y0" "(v, y0) \<in> edges\<^sup>*"
    and lowP: "\<And>y. y \<in> P \<Longrightarrow> y \<in> set B \<Longrightarrow> tj_low s ! v \<le> idx s y"
    and low_hi: "\<And>x y. x \<in> set hi \<Longrightarrow> y \<in> set B \<Longrightarrow> (x, y) \<in> edges \<Longrightarrow> tj_low s ! v \<le> idx s y"
    by (rule in_loopE [OF loop]) blast
  have stv: "set (tj_stack s) \<subseteq> visited s" using wf by (simp add: well_formed_def)
  have ok': "search_ok (insert v G) s'" and fr: "frame {} s s'" and wv: "w \<in> visited s'"
    and new: "int (tj_next s) \<le> idx s' w"
    using child by (simp_all add: connected_def)
  then obtain fresh where fresh: "tj_stack s' = fresh @ tj_stack s" "set fresh \<inter> visited s = {}"
    and vis: "visited s \<subseteq> visited s'" and idx: "\<And>u. u \<in> visited s \<Longrightarrow> idx s' u = idx s u"
    and low: "\<And>u. u \<in> visited s \<Longrightarrow> tj_low s' ! u = tj_low s ! u"
    unfolding frame_def by blast
  have len: "length (tj_low s') = n" using ok' by (simp add: search_ok_def well_formed_def)
  have vv: "v \<in> visited s" using st stv by auto
  have B: "u \<in> visited s" "idx s' u = idx s u" if "u \<in> set B" for u using that st stv idx by auto
  let ?s = "lower_link v ?m s'"
  have lowv: "tj_low ?s ! v = min (tj_low s ! v) ?m"
    using v len by (simp add: tj_low_lower_link low [OF vv])
  have next_v: "idx s v < int (tj_next s)" using wf vv by (simp add: well_formed_def)
  have w_new: "w \<notin> visited s"
    using new idx [of w] wf by (auto simp: well_formed_def)
  have witness: "\<exists>y \<in> set (v # B). tj_low ?s ! v = idx ?s y \<and> (v, y) \<in> edges\<^sup>*"
  proof (cases "?m < tj_low s ! v")
    case False
    then have "tj_low ?s ! v = idx ?s y0" using y0 lowv idx [of y0] B(2) vv by auto
    then show ?thesis using y0 by blast
  next
    case True
    then have "w \<in> set (tj_stack s')"
      using child new le next_v by (auto simp: connected_def split: if_splits)
    then obtain y where y: "y \<in> set (tj_stack s)" "?m = idx s y" "(w, y) \<in> edges\<^sup>*"
      using child by (auto simp: connected_def)
    have yB: "y \<in> set B" using below_in_stack [OF wf st y(1)] True le y(2) by simp
    have "tj_low ?s ! v = idx ?s y" using True lowv y(2) B(2) [OF yB] by simp
    then show ?thesis using yB y(3) edge by (auto intro: converse_rtrancl_into_rtrancl)
  qed
  have lower: "tj_low ?s ! v \<le> idx ?s y" if "x \<in> set (fresh @ hi)" "y \<in> set B" "(x, y) \<in> edges" for x y
  proof (cases "x \<in> set hi")
    case True
    then show ?thesis using low_hi that lowv B(2) by fastforce
  next
    case False
    then have "x \<in> set (tj_stack s') - set (tj_stack s)" using that(1) fresh stv by auto
    then have "?m \<le> idx s y" using child that st by (simp add: connected_def)
    then show ?thesis using lowv B(2) [OF that(2)] by simp
  qed
  have "tj_stack ?s = (fresh @ hi) @ v # B" using fresh st by simp
  moreover have "insert w P \<subseteq> visited ?s" using P vis wv by auto
  moreover have "tj_low ?s ! v \<le> idx ?s v" using le lowv idx [OF vv] by simp
  moreover have "\<forall>y \<in> insert w P \<inter> set B. tj_low ?s ! v \<le> idx ?s y"
    using lowP lowv B w_new by fastforce
  ultimately show "in_loop G (insert w P) v B ?s"
    unfolding in_loop_def using ok' G v witness lower by (intro conjI exI [of _ "fresh @ hi"]) auto
  show "frame {v} s ?s" by (intro frame_lower_link frame_mono [OF fr]) simp
qed

lemma seen_in_loop:
  assumes loop: "in_loop G P v B s" and edge: "(v, w) \<in> edges" and w: "w \<in> visited s"
  shows "in_loop G (insert w P) v B (if tj_on_stack s ! w then lower_link v (idx s w) s else s)"
proof -
  obtain hi y0 where ok: "search_ok (insert v G) s" and wf: "well_formed s" and G: "G \<subseteq> set B" and v: "v < n"
    and st: "tj_stack s = hi @ v # B" and P: "P \<subseteq> visited s" and le: "tj_low s ! v \<le> idx s v"
    and y0: "y0 \<in> set (v # B)" "tj_low s ! v = idx s y0" "(v, y0) \<in> edges\<^sup>*"
    and lowP: "\<And>y. y \<in> P \<Longrightarrow> y \<in> set B \<Longrightarrow> tj_low s ! v \<le> idx s y"
    and low_hi: "\<And>x y. x \<in> set hi \<Longrightarrow> y \<in> set B \<Longrightarrow> (x, y) \<in> edges \<Longrightarrow> tj_low s ! v \<le> idx s y"
    by (rule in_loopE [OF loop]) blast
  have marked: "tj_on_stack s ! w \<longleftrightarrow> w \<in> set (tj_stack s)"
    using wf w by (simp add: well_formed_def visited_def)
  show ?thesis
  proof (cases "tj_on_stack s ! w")
    case False
    then have "w \<notin> set B" using marked st by simp
    then show ?thesis using False loop w by (auto simp: in_loop_def)
  next
    case True
    let ?s = "lower_link v (idx s w) s"
    have "length (tj_low s) = n" using wf by (simp add: well_formed_def)
    then have lowv: "tj_low ?s ! v = min (tj_low s ! v) (idx s w)" using v by (simp add: tj_low_lower_link)
    have "\<exists>y \<in> set (v # B). tj_low ?s ! v = idx ?s y \<and> (v, y) \<in> edges\<^sup>*"
    proof (cases "idx s w < tj_low s ! v")
      case False
      then show ?thesis using y0 lowv by auto
    next
      case low: True
      then have "w \<in> set B" using below_in_stack [OF wf st, of w] True marked le by simp
      then show ?thesis using low lowv edge by auto
    qed
    moreover have "\<forall>x \<in> set hi. \<forall>y \<in> set B. (x, y) \<in> edges \<longrightarrow> tj_low ?s ! v \<le> idx ?s y"
      using low_hi lowv by fastforce
    moreover have "\<forall>y \<in> insert w P \<inter> set B. tj_low ?s ! v \<le> idx ?s y" using lowP lowv by fastforce
    ultimately have "in_loop G (insert w P) v B ?s"
      unfolding in_loop_def using ok G v st P w le lowv by (intro conjI exI [of _ hi]) auto
    then show ?thesis using True by simp
  qed
qed

lemma closed_reach:
  assumes "(x, y) \<in> edges\<^sup>*" "x \<in> S" "\<And>a b. a \<in> S \<Longrightarrow> (a, b) \<in> edges \<Longrightarrow> b \<in> S"
  shows "y \<in> S"
  using assms by (induction rule: rtrancl_induct) blast+

lemma run_is_component:
  assumes ok: "search_ok (insert v G) s" and st: "tj_stack s = hi @ v # B" and G: "G \<subseteq> set B"
    and targets: "set (adj ! v) \<subseteq> visited s" 
    and inside: "\<forall>x \<in> set hi \<union> {v}. \<forall>y. (x, y) \<in> edges \<longrightarrow> y \<notin> set B"
  shows "set hi \<union> {v} = scc_of v"
    "\<And>x y. x \<in> set hi \<union> {v} \<Longrightarrow> (x, y) \<in> edges \<Longrightarrow> y \<in> set hi \<union> {v} \<union> finished s"
proof -
  have wf: "well_formed s" and comp: "components_ok s" using ok by (simp_all add: search_ok_def)
  have stv: "set (tj_stack s) \<subseteq> visited s" using wf by (simp add: well_formed_def)
  note split = stack_split [OF wf st]
  show step: "y \<in> set hi \<union> {v} \<union> finished s" if "x \<in> set hi \<union> {v}" "(x, y) \<in> edges" for x y
  proof -
    have "y \<in> visited s"
    proof (cases "x = v")
      case True
      then show ?thesis using that(2) targets by (auto simp: edges_def)
    next
      case False
      then have "x \<in> visited s - insert v G" using that(1) split(5) G stv st by auto
      then show ?thesis using ok that(2) unfolding search_ok_def by blast
    qed
    then show ?thesis using inside that st by (auto simp: finished_def)
  qed
  have out: "v \<notin> finished s" using st by (simp add: finished_def)
  have fin: "b \<in> finished s" if "a \<in> finished s" "(a, b) \<in> edges" for a b
    using comp that unfolding components_ok_def by blast
  have sub: "x \<in> scc_of v" if x: "x \<in> set hi \<union> {v}" for x
  proof -
    have le: "idx s v \<le> idx s x" using x split(1) by (auto intro: less_imp_le)
    have "x \<in> set (tj_stack s)" using x st by auto
    then have "(v, x) \<in> edges\<^sup>*" using ok le unfolding search_ok_def by blast
    moreover obtain g where g: "g \<in> insert v G" "(x, g) \<in> edges\<^sup>*"
      using ok \<open>x \<in> set (tj_stack s)\<close> unfolding search_ok_def by blast
    moreover have "(g, v) \<in> edges\<^sup>*"
    proof (cases "g = v")
      case False
      then have "g \<in> set B" using g(1) G by auto
      then have "idx s g \<le> idx s v" using split(2) less_imp_le by blast
      then show ?thesis using ok g(1) st unfolding search_ok_def by auto
    qed simp
    ultimately show ?thesis by (auto simp: scc_of_def intro: rtrancl_trans)
  qed
  have sup: "z \<in> set hi \<union> {v}" if z: "z \<in> scc_of v" for z
  proof (rule ccontr)
    assume not_in: "z \<notin> set hi \<union> {v}"
    have "z \<in> set hi \<union> {v} \<union> finished s"
      using z step fin by (intro closed_reach [of v z]) (auto simp: scc_of_def)
    then have "z \<in> finished s" using not_in by blast
    then have "v \<in> finished s" using z fin by (intro closed_reach [of z v]) (auto simp: scc_of_def)
    then show False using out by blast
  qed
  show "set hi \<union> {v} = scc_of v" using sub sup by blast
qed

lemma frame_new:
  assumes "frame {} s t" "frame {w} t u" "w \<notin> visited s"
  shows "frame {} s u"
proof -
  obtain f g where "tj_stack t = f @ tj_stack s" "set f \<inter> visited s = {}"
    "tj_stack u = g @ tj_stack t" "set g \<inter> visited t = {}"
    using assms by (auto simp: frame_def)
  then have "tj_stack u = (g @ f) @ tj_stack s \<and> set (g @ f) \<inter> visited s = {}"
    using assms(1) by (auto simp: frame_def)
  moreover have "tj_low u ! v = tj_low s ! v" if v: "v \<in> visited s" for v
  proof -
    have "v \<in> visited t - {w}" using v assms(1,3) by (auto simp: frame_def)
    then have "tj_low u ! v = tj_low t ! v" using assms(2) unfolding frame_def by blast
    also have "\<dots> = tj_low s ! v" using v assms(1) unfolding frame_def by blast
    finally show ?thesis .
  qed
  ultimately show ?thesis using assms(1,2) unfolding frame_def by (intro conjI exI [of _ "g @ f"]) auto
qed

text \<open>A node that reaches below itself stays on the stack.\<close>

lemma finish_kept:
  assumes loop: "in_loop G (set (adj ! w)) w (tj_stack s) t" and fr: "frame {} s t" and w: "w \<notin> visited s"
    and wfs: "well_formed s" and new: "int (tj_next s) \<le> idx t w" and low: "tj_low t ! w \<noteq> idx t w"
  shows "connected G w s t"
proof -
  let ?B = "tj_stack s"
  obtain hi y0 where ok: "search_ok (insert w G) t" and wf: "well_formed t" and G: "G \<subseteq> set ?B" and wn: "w < n"
    and st: "tj_stack t = hi @ w # ?B" and P: "set (adj ! w) \<subseteq> visited t" and le: "tj_low t ! w \<le> idx t w"
    and y0: "y0 \<in> set (w # ?B)" "tj_low t ! w = idx t y0" "(w, y0) \<in> edges\<^sup>*"
    and lowP: "\<And>y. y \<in> set (adj ! w) \<Longrightarrow> y \<in> set ?B \<Longrightarrow> tj_low t ! w \<le> idx t y"
    and low_hi: "\<And>x y. x \<in> set hi \<Longrightarrow> y \<in> set ?B \<Longrightarrow> (x, y) \<in> edges \<Longrightarrow> tj_low t ! w \<le> idx t y"
    by (rule in_loopE [OF loop]) blast
  have stv: "set ?B \<subseteq> visited s" using wfs by (simp add: well_formed_def)
  have idx: "idx t u = idx s u" if "u \<in> set ?B" for u using fr that stv by (auto simp: frame_def)
  have y0B: "y0 \<in> set ?B" "idx t y0 < idx t w" using y0 low le by auto
  have "y0 \<in> set (tj_stack t)" using y0B(1) st by simp
  then obtain g0 where g0: "g0 \<in> insert w G" "idx t g0 \<le> idx t y0" "(y0, g0) \<in> edges\<^sup>*"
    using ok unfolding search_ok_def by blast
  then have g0G: "g0 \<in> G" using y0B(2) by auto
  have up: "\<exists>g \<in> G. idx t g \<le> idx t x \<and> (x, g) \<in> edges\<^sup>*" if x: "x \<in> set (tj_stack t)" for x
  proof -
    obtain g where g: "g \<in> insert w G" "idx t g \<le> idx t x" "(x, g) \<in> edges\<^sup>*"
      using ok x unfolding search_ok_def by blast
    show ?thesis
    proof (cases "g = w")
      case True
      then have "(x, g0) \<in> edges\<^sup>*" using g(3) y0(3) g0(3) by (auto intro: rtrancl_trans)
      moreover have "idx t g0 \<le> idx t x" using g(2) g0(2) y0B(2) True by simp
      ultimately show ?thesis using g0G by blast
    next
      case False
      then show ?thesis using g by blast
    qed
  qed
  have black: "y \<in> visited t" if "x \<in> visited t - G" "(x, y) \<in> edges" for x y
  proof (cases "x = w")
    case True
    then show ?thesis using that(2) P by (auto simp: edges_def)
  next
    case False
    then have "x \<in> visited t - insert w G" using that(1) by simp
    then show ?thesis using ok that(2) unfolding search_ok_def by blast
  qed
  have parts: "components_ok t"
    "\<forall>g \<in> G. \<forall>y \<in> set (tj_stack t). idx t g \<le> idx t y \<longrightarrow> (g, y) \<in> edges\<^sup>*"
    using ok unfolding search_ok_def by blast+
  have "G \<subseteq> set (tj_stack t)" using G st by auto
  then have "search_ok G t"
    unfolding search_ok_def using wf parts up black by (intro conjI ballI allI impI) (assumption | blast)+
  moreover have "w \<in> set (tj_stack t)" "w \<in> visited t" using st wf by (auto simp: well_formed_def)
  moreover have "tj_low t ! w \<le> idx s y"
    if "x \<in> set (tj_stack t) - set ?B" "y \<in> set ?B" "(x, y) \<in> edges" for x y
  proof (cases "x = w")
    case True
    then show ?thesis using lowP [OF _ that(2)] that idx by (auto simp: edges_def)
  next
    case False
    then show ?thesis using low_hi [OF _ that(2,3)] that(1,2) st idx by auto
  qed
  moreover have "\<exists>y \<in> set ?B. tj_low t ! w = idx s y \<and> (w, y) \<in> edges\<^sup>*"
    using y0 y0B idx by auto
  ultimately show ?thesis unfolding connected_def using fr new by simp
qed

text \<open>A node that does not is the root of a component, which is popped.\<close>

lemma finish_popped:
  assumes loop: "in_loop G (set (adj ! w)) w (tj_stack s) t" and fr: "frame {} s t" and w: "w \<notin> visited s"
    and wfs: "well_formed s" and new: "int (tj_next s) \<le> idx t w" and low: "tj_low t ! w = idx t w"
  shows "connected G w s (finish_node adj w t)"
proof -
  let ?B = "tj_stack s"
  obtain hi y0 where ok: "search_ok (insert w G) t" and wf: "well_formed t" and G: "G \<subseteq> set ?B" and wn: "w < n"
    and st: "tj_stack t = hi @ w # ?B" and P: "set (adj ! w) \<subseteq> visited t"
    and lowP: "\<And>y. y \<in> set (adj ! w) \<Longrightarrow> y \<in> set ?B \<Longrightarrow> tj_low t ! w \<le> idx t y"
    and low_hi: "\<And>x y. x \<in> set hi \<Longrightarrow> y \<in> set ?B \<Longrightarrow> (x, y) \<in> edges \<Longrightarrow> tj_low t ! w \<le> idx t y"
    by (rule in_loopE [OF loop]) blast
  note split = stack_split [OF wf st]
  have comp: "components_ok t" using ok by (simp add: search_ok_def)
  have "y \<notin> set ?B" if "x \<in> set hi \<union> {w}" "(x, y) \<in> edges" for x y
    using that lowP [of y] low_hi [of x y] split(2) [of y] low by (fastforce simp: edges_def)
  then have inside: "\<forall>x \<in> set hi \<union> {w}. \<forall>y. (x, y) \<in> edges \<longrightarrow> y \<notin> set ?B" by blast
  note run = run_is_component [OF ok st G P inside]
  let ?c = "sort (hi @ [w])"
  define u where "u = finish_node adj w t"
  have u: "tj_stack u = ?B" "tj_index u = tj_index t" "tj_low u = tj_low t" "tj_next u = tj_next t"
    "tj_on_stack u = fold (\<lambda>w m. m[w := False]) (hi @ [w]) (tj_on_stack t)"
    "tj_components u = tj_components t @ [?c]"
    "tj_cyclic u \<longleftrightarrow> tj_cyclic t \<or> length (hi @ [w]) > 1 \<or> w \<in> set (adj ! w)"
    unfolding u_def finish_node_def using low by (simp_all add: st pop_component_split [OF split(3)])
  have vis: "visited u = visited t" by (simp add: visited_def u)
  have dist: "distinct (hi @ w # ?B)" using well_formed_stack(1) [OF wf] st by simp
  have stv: "set hi \<union> {w} \<subseteq> visited t" "set ?B \<subseteq> visited t" using wf st by (auto simp: well_formed_def)
  have fin: "finished u = finished t \<union> (set hi \<union> {w})" "finished t \<inter> (set hi \<union> {w}) = {}"
    using stv dist by (auto simp: finished_def vis u st)
  have "tj_on_stack u ! v \<longleftrightarrow> v \<in> set ?B" if "v < n" for v
  proof -
    have "tj_on_stack u ! v \<longleftrightarrow> v \<notin> set (hi @ [w]) \<and> tj_on_stack t ! v"
      unfolding u(5) using wf that by (subst nth_unmark) (simp_all add: well_formed_def)
    then show ?thesis using wf that dist by (auto simp: well_formed_def st)
  qed
  then have wfu: "well_formed u"
    using wf stv by (auto simp: well_formed_def u vis st sorted_wrt_append)
  have cyc: "tj_cyclic u \<longleftrightarrow> (\<exists>c \<in> set (tj_components u). length c > 1 \<or> (\<exists>v \<in> set c. v \<in> set (adj ! v)))"
    using comp by (cases hi) (auto simp: u components_ok_def)
  have step: "y \<in> set hi \<union> {w} \<union> finished t" if "x \<in> set hi \<union> {w}" "(x, y) \<in> edges" for x y
    by (rule run(2) [OF that])
  have closed: "y \<in> finished u" if "x \<in> finished u" "(x, y) \<in> edges" for x y
    using that step [of x y] comp unfolding fin(1) components_ok_def by blast
  have "components_ok u"
    unfolding components_ok_def
  proof (intro conjI)
    show "distinct (concat (tj_components u))" using comp fin(2) dist by (auto simp: u components_ok_def)
    show "set (concat (tj_components u)) = finished u" using comp by (auto simp: u fin(1) components_ok_def)
    show "\<forall>c \<in> set (tj_components u). sorted c \<and> (\<exists>v < n. set c = scc_of v)"
      using comp run(1) wn by (auto simp: u components_ok_def)
  qed (use cyc closed in blast)+
  moreover have "\<exists>g \<in> G. idx u g \<le> idx u x \<and> (x, g) \<in> edges\<^sup>*" if x: "x \<in> set ?B" for x
  proof -
    have "x \<in> set (tj_stack t)" using x st by simp
    then obtain g where "g \<in> insert w G" "idx t g \<le> idx t x" "(x, g) \<in> edges\<^sup>*"
      using ok unfolding search_ok_def by blast
    then show ?thesis using split(2) [OF x] by (auto simp: u)
  qed
  moreover have "(g, y) \<in> edges\<^sup>*" if "g \<in> G" "y \<in> set ?B" "idx u g \<le> idx u y" for g y
    using ok that st unfolding search_ok_def by (auto simp: u)
  moreover have "y \<in> visited u" if "x \<in> visited u - G" "(x, y) \<in> edges" for x y
  proof (cases "x = w")
    case True
    then show ?thesis using that(2) P by (auto simp: edges_def vis)
  next
    case False
    then have "x \<in> visited t - insert w G" using that(1) by (simp add: vis)
    then show ?thesis using ok that(2) unfolding search_ok_def vis by blast
  qed
  ultimately have "search_ok G u"
    unfolding search_ok_def using wfu G by (auto simp: u(1))
  moreover have "frame {} s u" using fr by (auto simp: frame_def vis u)
  ultimately show ?thesis
    unfolding connected_def u_def [symmetric] using new stv split(4) low by (simp add: u vis)
qed

section \<open>The search\<close>

lemma strong_connect_from_loop:
  assumes ok: "search_ok G s" and new: "unvisited s w" and reach: "\<And>g. g \<in> G \<Longrightarrow> (g, w) \<in> edges\<^sup>*"
    and body: "in_loop G (set (adj ! w)) w (tj_stack s) t" "frame {w} (enter_node w s) t"
  shows "connected G w s (finish_node adj w t)"
proof -
  note enter = enter_in_loop [OF ok new reach]
  have wf: "well_formed s" using ok by (simp add: search_ok_def)
  have w: "w \<notin> visited s" using new by (auto simp: unvisited_def visited_def)
  have fr: "frame {} s t" by (rule frame_new [OF enter(2) body(2) w])
  have "w \<in> visited (enter_node w s)"
    using enter(1) in_loopE [of G "{}" w "tj_stack s"] by (auto simp: well_formed_def)
  then have idx: "int (tj_next s) \<le> idx t w" using body(2) enter(3) by (simp add: frame_def)
  show ?thesis
  proof (cases "tj_low t ! w = idx t w")
    case True
    then show ?thesis by (rule finish_popped [OF body(1) fr w wf idx])
  next
    case False
    then have "finish_node adj w t = t" by (simp add: finish_node_def)
    then show ?thesis using finish_kept [OF body(1) fr w wf idx False] by simp
  qed
qed

lemma loop_reaches_target:
  assumes "in_loop G P v B s" "(v, w) \<in> edges" "g \<in> insert v G"
  shows "(g, w) \<in> edges\<^sup>*"
proof -
  obtain hi where ok: "search_ok (insert v G) s" and wf: "well_formed s" and G: "G \<subseteq> set B"
    and st: "tj_stack s = hi @ v # B"
    by (rule in_loopE [OF assms(1)]) blast
  have "(g, v) \<in> edges\<^sup>*"
  proof (cases "g = v")
    case False
    then have "g \<in> set B" using assms(3) G by auto
    then have "idx s g \<le> idx s v" using stack_split(2) [OF wf st] less_imp_le by blast
    moreover have "v \<in> set (tj_stack s)" using st by simp
    ultimately show ?thesis using ok assms(3) unfolding search_ok_def by blast
  qed simp
  then show ?thesis using assms(2) by (rule rtrancl_into_rtrancl)
qed

lemma visit_in_loop:
  assumes "in_loop G P v B s" "set ws \<subseteq> set (adj ! v)"
  shows "in_loop G (P \<union> set ws) v B (visit adj v ws s) \<and> frame {v} s (visit adj v ws s)"
  using assms
proof (induction v ws s arbitrary: G P B rule: visit_induct [where adj = adj])
  case (Nil v s)
  then show ?case by simp
next
  case (Cons v w ws s)
  let ?t = "visit_target adj v w s"
  have v: "v < n" and edge: "(v, w) \<in> edges" and ok: "search_ok (insert v G) s"
    using Cons.prems by (auto simp: in_loop_def edges_def)
  have w: "w < n" using targets_below [OF v] Cons.prems(2) by simp
  have len: "length (tj_index s) = n" using ok by (simp add: search_ok_def well_formed_def)
  have step: "in_loop G (insert w P) v B ?t \<and> frame {v} s ?t"
  proof (cases "unvisited s w")
    case True
    note reach = loop_reaches_target [OF Cons.prems(1) edge]
    note enter = enter_in_loop [OF ok True reach]
    have "in_loop (insert v G) (set (adj ! w)) w (tj_stack s) (visit adj w (adj ! w) (enter_node w s)) \<and>
        frame {w} (enter_node w s) (visit adj w (adj ! w) (enter_node w s))"
      using Cons.IH(1) [OF True enter(1)] by simp
    then have "connected (insert v G) w s (strong_connect adj w s)"
      unfolding strong_connect_def using strong_connect_from_loop [OF ok True reach] by blast
    from child_in_loop [OF Cons.prems(1) this edge] show ?thesis
      using True by (simp add: visit_target_def Let_def)
  next
    case False
    then have "w \<in> visited s" using w len by (simp add: unvisited_def visited_def)
    from seen_in_loop [OF Cons.prems(1) edge this] show ?thesis
      using False by (auto simp: visit_target_def intro: frame_lower_link)
  qed
  have "in_loop G (insert w P \<union> set ws) v B (visit adj v ws ?t) \<and> frame {v} ?t (visit adj v ws ?t)"
    by (rule Cons.IH(2)) (use step Cons.prems(2) in simp_all)
  then show ?case
    using step frame_trans [of "{v}" s ?t] unfolding visit_Cons by simp
qed

lemma strong_connect_connected:
  assumes "search_ok {} s" "unvisited s w"
  shows "connected {} w s (strong_connect adj w s)"
proof -
  note enter = enter_in_loop [OF assms]
  have "in_loop {} (set (adj ! w)) w (tj_stack s) (visit adj w (adj ! w) (enter_node w s)) \<and>
      frame {w} (enter_node w s) (visit adj w (adj ! w) (enter_node w s))"
    using visit_in_loop [OF enter(1), of "adj ! w"] by simp
  then show ?thesis
    unfolding strong_connect_def using strong_connect_from_loop [OF assms] by blast
qed

lemma search_ok_start: "search_ok {} (tarjan_start n)"
proof -
  have "visited (tarjan_start n) = {}" by (simp add: visited_def tarjan_start_def)
  then show ?thesis
    by (simp add: search_ok_def well_formed_def components_ok_def finished_def tarjan_start_def)
qed

lemma tarjan_steps:
  assumes "m \<le> n"
  shows "search_ok {} (fold (tarjan_step adj) [0..<m] (tarjan_start n)) \<and>
    {..<m} \<subseteq> visited (fold (tarjan_step adj) [0..<m] (tarjan_start n))"
  using assms
proof (induction m)
  case 0
  then show ?case by (simp add: search_ok_start)
next
  case (Suc m)
  let ?s = "fold (tarjan_step adj) [0..<m] (tarjan_start n)"
  have ok: "search_ok {} ?s" and vis: "{..<m} \<subseteq> visited ?s" using Suc by simp_all
  have len: "length (tj_index ?s) = n" using ok by (simp add: search_ok_def well_formed_def)
  have "search_ok {} (tarjan_step adj m ?s) \<and> {..<Suc m} \<subseteq> visited (tarjan_step adj m ?s)"
  proof (cases "unvisited ?s m")
    case True
    have "connected {} m ?s (strong_connect adj m ?s)" by (rule strong_connect_connected [OF ok True])
    then show ?thesis using True vis by (auto simp: connected_def frame_def tarjan_step_def less_Suc_eq)
  next
    case False
    then have "m \<in> visited ?s" using len Suc.prems by (simp add: unvisited_def visited_def)
    then show ?thesis using False ok vis by (auto simp: tarjan_step_def less_Suc_eq)
  qed
  then show ?case by simp
qed

text \<open>When no node is open the stack is empty, so everything visited is in a component.\<close>

lemma tarjan_components:
  defines "result \<equiv> tarjan n adj"
  shows "distinct (concat (tj_components result))" "set (concat (tj_components result)) = {..<n}"
    "\<forall>c \<in> set (tj_components result). sorted c"
    "set ` set (tj_components result) = scc_of ` {..<n}"
    "tj_cyclic result \<longleftrightarrow> (\<exists>c \<in> set (tj_components result). length c > 1 \<or> (\<exists>v \<in> set c. v \<in> set (adj ! v)))"
proof -
  have ok: "search_ok {} result" and vis: "{..<n} \<subseteq> visited result"
    using tarjan_steps [of n] by (simp_all add: result_def tarjan_def)
  have "tj_stack result = []" using ok by (cases "tj_stack result") (auto simp: search_ok_def)
  moreover have "visited result = {..<n}" using vis by (auto simp: visited_def)
  ultimately have fin: "finished result = {..<n}" by (simp add: finished_def)
  have comp: "components_ok result" using ok by (simp add: search_ok_def)
  show "distinct (concat (tj_components result))" "set (concat (tj_components result)) = {..<n}"
    "\<forall>c \<in> set (tj_components result). sorted c"
    "tj_cyclic result \<longleftrightarrow> (\<exists>c \<in> set (tj_components result). length c > 1 \<or> (\<exists>v \<in> set c. v \<in> set (adj ! v)))"
    using comp fin by (auto simp: components_ok_def)
  show "set ` set (tj_components result) = scc_of ` {..<n}"
  proof (intro equalityI subsetI)
    fix S assume "S \<in> set ` set (tj_components result)"
    then show "S \<in> scc_of ` {..<n}" using comp by (auto simp: components_ok_def)
  next
    fix S assume "S \<in> scc_of ` {..<n}"
    then obtain v where v: "v < n" "S = scc_of v" by blast
    then have "v \<in> set (concat (tj_components result))" using comp fin by (simp add: components_ok_def)
    then obtain c where c: "c \<in> set (tj_components result)" "v \<in> set c" by auto
    then obtain w where "set c = scc_of w" using comp by (auto simp: components_ok_def)
    then have "set c = S" using c(2) v(2) by (auto simp: scc_of_def intro: rtrancl_trans)
    then show "S \<in> set ` set (tj_components result)" using c(1) by blast
  qed
qed

lemma component_of:
  assumes "v < n"
  obtains c where "c \<in> set (tj_components (tarjan n adj))" "set c = scc_of v"
proof -
  have "scc_of v \<in> set ` set (tj_components (tarjan n adj))"
    using assms tarjan_components(4) by blast
  then show thesis using that by blast
qed

lemma distinct_component: "c \<in> set (tj_components (tarjan n adj)) \<Longrightarrow> distinct c"
  using tarjan_components(1) by (auto dest: distinct_concat_iff [THEN iffD1])

lemma tarjan_cyclic: "tj_cyclic (tarjan n adj) \<longleftrightarrow> (\<exists>v. (v, v) \<in> edges\<^sup>+)"
  unfolding tarjan_components(5)
proof
  assume "\<exists>c \<in> set (tj_components (tarjan n adj)). length c > 1 \<or> (\<exists>v \<in> set c. v \<in> set (adj ! v))"
  then obtain c where c: "c \<in> set (tj_components (tarjan n adj))"
    and cases: "length c > 1 \<or> (\<exists>v \<in> set c. v \<in> set (adj ! v))" by blast
  have below: "v < n" if "v \<in> set c" for v using that c tarjan_components(2) by auto
  show "\<exists>v. (v, v) \<in> edges\<^sup>+"
  proof (cases "\<exists>v \<in> set c. v \<in> set (adj ! v)")
    case True
    then show ?thesis using below by (auto simp: edges_def)
  next
    case False
    then have "length c > 1" using cases by blast
    then obtain x y where xy: "x \<in> set c" "y \<in> set c" "x \<noteq> y"
      using distinct_component [OF c] by (metis distinct_conv_nth nth_mem One_nat_def less_trans zero_less_one zero_neq_one)
    obtain w where "set c = scc_of w" using c tarjan_components(4) by blast
    then have "(x, y) \<in> edges\<^sup>*" "(y, x) \<in> edges\<^sup>*" using xy by (auto simp: scc_of_def intro: rtrancl_trans)
    then show ?thesis using xy(3) by (metis rtrancl_into_trancl1 rtranclD trancl_rtrancl_trancl)
  qed
next
  assume "\<exists>v. (v, v) \<in> edges\<^sup>+"
  then obtain v w where vw: "(v, w) \<in> edges" "(w, v) \<in> edges\<^sup>*" by (metis tranclD)
  then have v: "v < n" by (auto simp: edges_def)
  obtain c where c: "c \<in> set (tj_components (tarjan n adj))" "set c = scc_of v" by (rule component_of [OF v])
  have vc: "v \<in> set c" "w \<in> set c" using c(2) vw by (auto simp: scc_of_def)
  show "\<exists>c \<in> set (tj_components (tarjan n adj)). length c > 1 \<or> (\<exists>v \<in> set c. v \<in> set (adj ! v))"
  proof (cases "w = v")
    case True
    then show ?thesis using c(1) vc vw(1) by (auto simp: edges_def)
  next
    case False
    then have "card {v, w} \<le> card (set c)" using vc by (intro card_mono) auto
    then have "length c > 1" using False card_length [of c] by simp
    then show ?thesis using c(1) by blast
  qed
qed

end

section \<open>Relations\<close>

abbreviation relation_pair :: "SectionRelation \<Rightarrow> nat \<times> nat" where
  "relation_pair rln \<equiv> (rln_source rln, rln_target rln)"

abbreviation call_pair :: "relation_call \<Rightarrow> nat \<times> nat" where
  "call_pair call \<equiv> (fst call, fst (snd call))"

definition in_range_calls :: "nat \<Rightarrow> relation_call list \<Rightarrow> relation_call list" where
  "in_range_calls n calls = filter (\<lambda>call. fst call < n \<and> fst (snd call) < n) calls"

definition relation_of :: "relation_call list \<Rightarrow> SectionRelation \<Rightarrow> bool" where
  "relation_of calls rln \<longleftrightarrow>
     rln_references rln = of_nat (length (filter (\<lambda>call. call_pair call = relation_pair rln) calls)) \<and>
     (\<forall>call \<in> set calls. call_pair call = relation_pair rln \<longrightarrow> sublist (snd (snd call)) (rln_reason rln))"

definition collected :: "relation_call list \<Rightarrow> SectionRelation list \<times> (nat \<times> nat, nat) omap \<Rightarrow> bool" where
  "collected calls st \<longleftrightarrow> (case st of (rlns, at) \<Rightarrow>
     om_ok at \<and> (\<forall>p k. om_find at p = Some k \<longleftrightarrow> k < length rlns \<and> relation_pair (rlns ! k) = p) \<and>
     map relation_pair rlns = rev (remdups (rev (map call_pair calls))) \<and>
     (\<forall>rln \<in> set rlns. relation_of calls rln))"

lemma count_reference_simps [simp]:
  "rln_source (count_reference reason rln) = rln_source rln"
  "rln_target (count_reference reason rln) = rln_target rln"
  by (simp_all add: count_reference_def)

lemma sublist_longer: "sublist xs ys \<Longrightarrow> sublist xs (ys @ zs)"
  unfolding sublist_def by (metis append.assoc)

lemma sublist_at_end: "sublist xs (ys @ zs @ xs)"
  unfolding sublist_def by (metis append.assoc append_Nil2)

lemma relation_of_count:
  assumes "relation_of calls rln" "call_pair call = relation_pair rln"
  shows "relation_of (calls @ [call]) (count_reference (snd (snd call)) rln)"
  using assms by (auto simp: relation_of_def count_reference_def intro: sublist_longer sublist_at_end [where zs = "[_]", simplified])

lemma relation_of_other:
  assumes "relation_of calls rln" "call_pair call \<noteq> relation_pair rln"
  shows "relation_of (calls @ [call]) rln"
  using assms by (auto simp: relation_of_def)

lemma first_occurrences_snoc:
  "rev (remdups (rev (xs @ [x]))) = rev (remdups (rev xs)) @ (if x \<in> set xs then [] else [x])"
  by simp

lemma collected_add:
  assumes ok: "collected calls (rlns, at)" and range: "fst call < n" "fst (snd call) < n"
  shows "collected (calls @ [call]) (add_relation n call (rlns, at))"
proof -
  obtain u v reason where call: "call = (u, v, reason)" by (metis prod_cases3)
  have at: "om_ok at" "\<And>p k. om_find at p = Some k \<longleftrightarrow> k < length rlns \<and> relation_pair (rlns ! k) = p"
    and pairs: "map relation_pair rlns = rev (remdups (rev (map call_pair calls)))"
    and rels: "\<forall>rln \<in> set rlns. relation_of calls rln"
    using ok by (auto simp: collected_def)
  have known: "(u, v) \<in> set (map call_pair calls) \<longleftrightarrow> (\<exists>k < length rlns. relation_pair (rlns ! k) = (u, v))"
  proof -
    have "set (map call_pair calls) = set (map relation_pair rlns)" using pairs by simp
    then have "(u, v) \<in> set (map call_pair calls) \<longleftrightarrow>
        (\<exists>k < length rlns. map relation_pair rlns ! k = (u, v))" by (simp only: in_set_conv_nth length_map)
    then show ?thesis by (simp cong: conj_cong)
  qed
  have dist: "distinct (map relation_pair rlns)" unfolding pairs by simp
  show ?thesis
  proof (cases "om_find at (u, v)")
    case None
    let ?new = "\<lparr>rln_source = u, rln_target = v, rln_reason = reason, rln_references = 1\<rparr>"
    have add: "add_relation n call (rlns, at) = (rlns @ [?new], om_emplace (u, v) (length rlns) at)"
      using range by (simp add: add_relation_def call None)
    have fresh: "(u, v) \<notin> set (map call_pair calls)" unfolding known
      using None at(2) [of "(u, v)"] by (metis option.distinct(1))
    have "relation_of (calls @ [call]) ?new"
    proof -
      have "filter (\<lambda>call. call_pair call = (u, v)) calls = []" using fresh by (auto simp: filter_empty_conv)
      moreover have "\<forall>call \<in> set calls. call_pair call \<noteq> (u, v)" using fresh by auto
      ultimately show ?thesis by (auto simp: relation_of_def call)
    qed
    moreover have "relation_of (calls @ [call]) rln" if "rln \<in> set rlns" for rln
      using rels that known fresh by (intro relation_of_other) (auto simp: call in_set_conv_nth)
    moreover have "om_find (om_emplace (u, v) (length rlns) at) p = Some k \<longleftrightarrow>
        k < length (rlns @ [?new]) \<and> relation_pair ((rlns @ [?new]) ! k) = p" for p k
    proof (cases "p = (u, v)")
      case True
      have "relation_pair (rlns ! k) \<noteq> (u, v)" if "k < length rlns"
        using None at(2) [of "(u, v)" k] that by simp
      then show ?thesis using True None om.find_emplace [OF at(1), of "(u, v)" "length rlns" p]
        by (auto simp: nth_append less_Suc_eq)
    next
      case False
      then show ?thesis using at(2) [of p k] om.find_emplace [OF at(1), of "(u, v)" "length rlns" p]
        by (auto simp: nth_append less_Suc_eq)
    qed
    moreover have "om_ok (om_emplace (u, v) (length rlns) at)" using at(1) by (rule om.ok_emplace)
    moreover have "map relation_pair (rlns @ [?new]) = rev (remdups (rev (map call_pair (calls @ [call]))))"
      unfolding map_append list.map first_occurrences_snoc using pairs fresh by (simp add: call)
    ultimately show ?thesis unfolding collected_def add by auto
  next
    case (Some k)
    then have k: "k < length rlns" "relation_pair (rlns ! k) = (u, v)" using at(2) by auto
    let ?rlns = "rlns[k := count_reference reason (rlns ! k)]"
    have add: "add_relation n call (rlns, at) = (?rlns, at)"
      using range by (simp add: add_relation_def call Some)
    have same: "map relation_pair ?rlns = map relation_pair rlns"
      using k(1) by (simp add: list_eq_iff_nth_eq nth_list_update)
    have "relation_of (calls @ [call]) (?rlns ! j)" if j: "j < length rlns" for j
    proof (cases "j = k")
      case True
      have "relation_of calls (rlns ! k)" using rels k(1) by simp
      then show ?thesis using relation_of_count [of calls "rlns ! k" call] True k by (simp add: call)
    next
      case False
      have "relation_pair (rlns ! j) \<noteq> relation_pair (rlns ! k)"
        using nth_eq_iff_index_eq [OF dist, of j k] False j k(1) by simp
      then have "call_pair call \<noteq> relation_pair (rlns ! j)" using k(2) by (auto simp: call)
      then show ?thesis using rels j False by (simp add: relation_of_other)
    qed
    moreover have "relation_pair (?rlns ! j) = relation_pair (rlns ! j)" if "j < length rlns" for j
      using k(1) that by (simp add: nth_list_update)
    moreover have "(u, v) \<in> set (map call_pair calls)" using known k by blast
    then have "map relation_pair ?rlns = rev (remdups (rev (map call_pair (calls @ [call]))))"
      unfolding same map_append list.map first_occurrences_snoc using pairs by (simp add: call)
    ultimately show ?thesis
      unfolding collected_def add using at by (auto simp: all_set_conv_all_nth)
  qed
qed

lemma add_relation_out:
  assumes "\<not> (fst call < n \<and> fst (snd call) < n)"
  shows "add_relation n call st = st"
  using assms by (auto simp: add_relation_def not_less split: prod.splits)

lemma collected_fold: "collected (in_range_calls n calls) (fold (add_relation n) calls ([], []))"
proof (induction calls rule: rev_induct)
  case Nil
  then show ?case by (simp add: collected_def in_range_calls_def)
next
  case (snoc call calls)
  obtain rlns at where st: "fold (add_relation n) calls ([], []) = (rlns, at)" by fastforce
  show ?case
  proof (cases "fst call < n \<and> fst (snd call) < n")
    case True
    then show ?thesis
      using collected_add [of "in_range_calls n calls" rlns at call n] snoc st by (simp add: in_range_calls_def)
  next
    case False
    then have "in_range_calls n (calls @ [call]) = in_range_calls n calls" by (auto simp: in_range_calls_def)
    then show ?thesis using snoc add_relation_out [OF False] by simp
  qed
qed

lemma collect_relations_exact:
  "map relation_pair (collect_relations n calls) = rev (remdups (rev (map call_pair (in_range_calls n calls))))"
  "\<forall>rln \<in> set (collect_relations n calls). relation_of (in_range_calls n calls) rln"
  using collected_fold [of n calls] by (auto simp: collected_def collect_relations_def split: prod.splits)

lemma relations_in_range:
  assumes "rln \<in> set (collect_relations n calls)"
  shows "rln_source rln < n" "rln_target rln < n"
proof -
  have "relation_pair rln \<in> set (map relation_pair (collect_relations n calls))" using assms by force
  then have "relation_pair rln \<in> set (map call_pair (in_range_calls n calls))"
    unfolding collect_relations_exact(1) by simp
  then show "rln_source rln < n" "rln_target rln < n" by (auto simp: in_range_calls_def)
qed

lemma neighbours_exact:
  assumes "\<forall>rln \<in> set rlns. rln_source rln < n \<and> rln_target rln < n"
  shows "length (fst (neighbours n rlns)) = n \<and> length (snd (neighbours n rlns)) = n \<and>
    (\<forall>v < n. fst (neighbours n rlns) ! v = map rln_target (filter (\<lambda>rln. rln_source rln = v) rlns) \<and>
       snd (neighbours n rlns) ! v = length (filter (\<lambda>rln. rln_target rln = v) rlns))"
  using assms
proof (induction rlns rule: rev_induct)
  case Nil
  then show ?case by (simp add: neighbours_def)
next
  case (snoc rln rlns)
  then show ?case
    by (auto simp: neighbours_def add_edge_def nth_list_update split: prod.splits)
qed

abbreviation adjacency :: "nat \<Rightarrow> relation_call list \<Rightarrow> nat list list" where
  "adjacency n calls \<equiv> fst (neighbours n (collect_relations n calls))"

abbreviation indegrees :: "nat \<Rightarrow> relation_call list \<Rightarrow> nat list" where
  "indegrees n calls \<equiv> snd (neighbours n (collect_relations n calls))"

lemma adjacency_targets:
  assumes "v < n"
  shows "set (adjacency n calls ! v) = {w. (v, w) \<in> set (map call_pair (in_range_calls n calls))}"
    and "indegrees n calls ! v = 0 \<longleftrightarrow> v \<notin> snd ` set (map call_pair (in_range_calls n calls))"
proof -
  let ?rlns = "collect_relations n calls"
  have pairs: "relation_pair ` set ?rlns = set (map call_pair (in_range_calls n calls))"
    using arg_cong [OF collect_relations_exact(1) [of n calls], of set] by simp
  have nb: "adjacency n calls ! v = map rln_target (filter (\<lambda>rln. rln_source rln = v) ?rlns)"
    "indegrees n calls ! v = length (filter (\<lambda>rln. rln_target rln = v) ?rlns)"
    using neighbours_exact [of ?rlns n] relations_in_range assms by auto
  show "set (adjacency n calls ! v) = {w. (v, w) \<in> set (map call_pair (in_range_calls n calls))}"
    unfolding nb(1) pairs [symmetric] by force
  show "indegrees n calls ! v = 0 \<longleftrightarrow> v \<notin> snd ` set (map call_pair (in_range_calls n calls))"
    unfolding nb(2) pairs [symmetric] by (force simp: filter_empty_conv)
qed

lemma in_range_pair:
  "(v, w) \<in> set (map call_pair (in_range_calls n calls)) \<Longrightarrow> v < n \<and> w < n"
  by (auto simp: in_range_calls_def)

interpretation section_tarjan: section_graph n "adjacency n calls" for n calls
  using adjacency_targets(1) by unfold_locales (auto simp: in_range_calls_def)

text \<open>The edges of the section graph of an image.\<close>

definition section_edges :: "BinaryImage \<Rightarrow> (nat \<times> nat) set" where
  "section_edges img = set (map call_pair (in_range_calls (length (img_sections img)) (relation_calls img)))"

lemma section_tarjan_edges:
  "section_tarjan.edges (length (img_sections img)) (relation_calls img) = section_edges img"
  unfolding section_tarjan.edges_def section_edges_def
  using adjacency_targets(1) in_range_pair by blast

lemma analyzeE:
  assumes "analyze limits img = Inr graph"
  obtains "graph = \<lparr>sg_components = sort_key hd (tj_components
      (tarjan (length (img_sections img)) (adjacency (length (img_sections img)) (relation_calls img)))),
    sg_relations = collect_relations (length (img_sections img)) (relation_calls img),
    sg_roots = filter (\<lambda>v. indegrees (length (img_sections img)) (relation_calls img) ! v = 0)
      [0..<length (img_sections img)],
    sg_orphans = filter (\<lambda>v. adjacency (length (img_sections img)) (relation_calls img) ! v = [] \<and>
      indegrees (length (img_sections img)) (relation_calls img) ! v = 0) [0..<length (img_sections img)],
    sg_cyclic = tj_cyclic
      (tarjan (length (img_sections img)) (adjacency (length (img_sections img)) (relation_calls img)))\<rparr>"
  using assms by (auto simp: analyze_def Let_def split: if_splits prod.splits)

lemma heads_increase:
  assumes d: "distinct (concat cs)" and ne: "\<forall>c \<in> set cs. c \<noteq> []"
  shows "sorted_wrt (\<lambda>c c'. hd c < hd c') (sort_key hd cs)"
proof -
  have "distinct (map hd cs)"
    using assms
  proof (induction cs)
    case (Cons c cs)
    have "hd c \<noteq> hd c'" if "c' \<in> set cs" for c'
    proof -
      have "hd c \<in> set c" "hd c' \<in> set c'" using Cons.prems(2) that by simp_all
      moreover have "set c \<inter> set c' = {}" using Cons.prems(1) that by auto
      ultimately show ?thesis by auto
    qed
    then show ?case using Cons by auto
  qed simp
  then have "distinct (map hd (sort_key hd cs))"
    by (simp add: distinct_map)
  moreover have "sorted (map hd (sort_key hd cs))" by simp
  ultimately have "sorted_wrt (<) (map hd (sort_key hd cs))" by (simp add: strict_sorted_iff)
  then show ?thesis by (simp add: sorted_wrt_map)
qed

text \<open>Three sections: the first links to the second, the other two link to each other.\<close>

definition demo_link :: "u32 \<Rightarrow> u32 \<Rightarrow> Section" where
  "demo_link index link = \<lparr>sec_index = index, sec_name = [], sec_kind = program_bits, sec_file_offset = 0,
     sec_file_size = 0, sec_virtual_address = 0, sec_memory_size = 0, sec_alignment = 1,
     sec_entry_size = 0, sec_link = link, sec_info = 0, sec_permissions = 1\<rparr>"

definition demo_links :: BinaryImage where
  "demo_links = empty_image\<lparr>img_sections := [demo_link 0 1, demo_link 1 2, demo_link 2 1]\<rparr>"

lemma demo_graph: "case analyze demo_limits demo_links of Inl _ \<Rightarrow> False | Inr graph \<Rightarrow>
    sg_components graph = [[0], [1, 2]] \<and> sg_cyclic graph \<and> sg_roots graph = [0] \<and>
    map rln_reason (sg_relations graph) = [''link'', ''link'', ''link'']"
  by code_simp

lemma demo_graphE:
  obtains graph where "analyze demo_limits demo_links = Inr graph" "sg_components graph = [[0], [1, 2]]"
    "sg_cyclic graph" "sg_roots graph = [0]"
  using demo_graph by (auto split: sum.splits)

section \<open>Properties\<close>

text \<open>
  The section graph has one relation for every pair of sections that a link, a relocation section,
  two neighbours in a segment or a relocation with its symbol connect, in the order of their first
  occurrence, with the number of occurrences and a reason that contains each occurrence's reason;
  its roots are the sections no relation leads to, its orphans those without any relation.
\<close>

theorem section_relations_exact:
  assumes "analyze limits img = Inr graph"
  shows "let n = length (img_sections img); calls = in_range_calls n (relation_calls img) in
    map relation_pair (sg_relations graph) = rev (remdups (rev (map call_pair calls))) \<and>
    (\<forall>rln \<in> set (sg_relations graph). relation_of calls rln) \<and>
    sg_roots graph = filter (\<lambda>v. v \<notin> snd ` section_edges img) [0..<n] \<and>
    sg_orphans graph = filter (\<lambda>v. v \<notin> snd ` section_edges img \<and> v \<notin> fst ` section_edges img) [0..<n]"
proof -
  let ?n = "length (img_sections img)" and ?calls = "relation_calls img"
  have out: "adjacency ?n ?calls ! v = [] \<longleftrightarrow> v \<notin> fst ` section_edges img" if "v < ?n" for v
  proof -
    have "adjacency ?n ?calls ! v = [] \<longleftrightarrow> set (adjacency ?n ?calls ! v) = {}" by simp
    then show ?thesis unfolding adjacency_targets(1) [OF that] section_edges_def by force
  qed
  have into: "indegrees ?n ?calls ! v = 0 \<longleftrightarrow> v \<notin> snd ` section_edges img" if "v < ?n" for v
    unfolding adjacency_targets(2) [OF that] section_edges_def ..
  have "filter (\<lambda>v. indegrees ?n ?calls ! v = 0) [0..<?n] = filter (\<lambda>v. v \<notin> snd ` section_edges img) [0..<?n]"
    by (rule filter_cong) (simp_all add: into)
  moreover have "filter (\<lambda>v. adjacency ?n ?calls ! v = [] \<and> indegrees ?n ?calls ! v = 0) [0..<?n] =
      filter (\<lambda>v. v \<notin> snd ` section_edges img \<and> v \<notin> fst ` section_edges img) [0..<?n]"
    by (rule filter_cong) (auto simp: into out)
  ultimately show ?thesis
    using collect_relations_exact [of ?n ?calls] by (rule_tac analyzeE [OF assms]) (simp add: Let_def)
qed

theorem section_relations_exact_witness:
  "\<exists>graph. analyze demo_limits demo_links = Inr graph \<and> 0 \<notin> snd ` section_edges demo_links"
proof -
  obtain graph where g: "analyze demo_limits demo_links = Inr graph" "sg_roots graph = [0]"
    by (rule demo_graphE)
  have "0 \<in> set (sg_roots graph)" using g(2) by simp
  then have "0 \<notin> snd ` section_edges demo_links"
    using section_relations_exact [OF g(1)] by (auto simp: Let_def)
  then show ?thesis using g(1) by blast
qed

text \<open>
  C3. The components of the section graph are its strongly connected components: every component is
  the sorted list of the sections that reach each other and every section is in exactly one, the
  components come in the order of their first sections, and the graph is reported as cyclic exactly
  when some section reaches itself.
\<close>

theorem section_components_exact:
  assumes "analyze limits img = Inr graph"
  shows "set ` set (sg_components graph) =
      (\<lambda>v. {w. (v, w) \<in> (section_edges img)\<^sup>* \<and> (w, v) \<in> (section_edges img)\<^sup>*}) ` {..<length (img_sections img)} \<and>
    distinct (concat (sg_components graph)) \<and> (\<forall>c \<in> set (sg_components graph). sorted c) \<and>
    sorted_wrt (\<lambda>c c'. hd c < hd c') (sg_components graph) \<and>
    (sg_cyclic graph \<longleftrightarrow> (\<exists>v. (v, v) \<in> (section_edges img)\<^sup>+))"
proof -
  let ?n = "length (img_sections img)" and ?calls = "relation_calls img"
  let ?cs = "tj_components (tarjan ?n (adjacency ?n ?calls))"
  note tc = section_tarjan.tarjan_components [of ?n ?calls] section_tarjan.tarjan_cyclic [of ?n ?calls]
  have scc: "section_tarjan.scc_of ?n ?calls v =
      {w. (v, w) \<in> (section_edges img)\<^sup>* \<and> (w, v) \<in> (section_edges img)\<^sup>*}" for v
    by (simp add: section_tarjan.scc_of_def section_tarjan_edges)
  have empty: "[] \<notin> set ?cs"
  proof
    assume "[] \<in> set ?cs"
    then have "{} \<in> section_tarjan.scc_of ?n ?calls ` {..<?n}" using tc(4) by force
    then show False unfolding scc by auto
  qed
  have heads: "sorted_wrt (\<lambda>c c'. hd c < hd c') (sort_key hd ?cs)"
    using heads_increase [OF tc(1)] empty by metis
  have dist: "distinct (concat (sort_key hd ?cs))"
    using tc(1) empty by (simp add: distinct_concat_iff removeAll_id)
  show ?thesis
    using tc(3,4,6) heads dist scc by (rule_tac analyzeE [OF assms]) (simp add: section_tarjan_edges)
qed

theorem section_components_exact_witness:
  "\<exists>graph v. analyze demo_limits demo_links = Inr graph \<and> (v, v) \<in> (section_edges demo_links)\<^sup>+"
proof -
  obtain graph where g: "analyze demo_limits demo_links = Inr graph" "sg_cyclic graph"
    by (rule demo_graphE)
  then show ?thesis using section_components_exact [OF g(1)] by blast
qed

end
