(* ===== verification/Disassembly.thy ===== *)
theory Disassembly
  imports Base
begin

unbundle bit_operations_syntax

text \<open>
  The three decoders behind the \<open>Disassembler\<close> interface: \<open>src/disassembler.cc\<close> (a subset of x86)
  and \<open>src/fixed_disassemblers.cc\<close> (ARM64 and RISC-V). A null data pointer is \<open>None\<close>. The output
  instruction of a refused decode is not used by any caller, so a refusal is only its error. The
  locale \<open>disassembler\<close> is what a client of the interface relies on; each decoder is an
  interpretation.
\<close>

section \<open>Instructions\<close>

record Instruction =
  ins_address :: u64
  ins_size :: u8
  ins_bytes :: bytes
  ins_mnemonic :: string
  ins_operands :: string
  ins_branch :: bool
  ins_call :: bool
  ins_terminal :: bool
  ins_target :: "u64 option"

text \<open>An instruction of the given bytes, which fill the front of the sixteen-byte array.\<close>

definition instruction :: "u64 \<Rightarrow> bytes \<Rightarrow> string \<Rightarrow> string \<Rightarrow> Instruction" where
  "instruction address bs mnemonic operands =
    \<lparr>ins_address = address, ins_size = of_nat (length bs),
     ins_bytes = bs @ replicate (16 - length bs) 0, ins_mnemonic = mnemonic, ins_operands = operands,
     ins_branch = False, ins_call = False, ins_terminal = False, ins_target = None\<rparr>"

text \<open>\<open>snprintf\<close> with \<open>0x%0nx\<close>, for a value of at most \<open>n\<close> digits.\<close>

definition hex_digit :: "nat \<Rightarrow> char" where
  "hex_digit d = (if d < 10 then char_of (48 + d) else char_of (87 + d))"

definition hex_string :: "nat \<Rightarrow> nat \<Rightarrow> string" where
  "hex_string digits v = ''0x'' @ map (\<lambda>k. hex_digit (v div 16 ^ k mod 16)) (rev [0..<digits])"

text \<open>\<open>std::to_string\<close> of a signed number.\<close>

definition to_string_signed :: "i64 \<Rightarrow> string" where
  "to_string_signed v = (if sint v < 0 then ''-'' @ to_string (nat (- sint v)) else to_string (nat (sint v)))"

definition branch_to :: "u64 \<Rightarrow> Instruction \<Rightarrow> Instruction" where
  "branch_to target i = i\<lparr>ins_branch := True, ins_target := Some target\<rparr>"

section \<open>x86\<close>

definition x86_rel8 :: "bytes \<Rightarrow> u64 \<Rightarrow> string \<Rightarrow> Instruction option" where
  "x86_rel8 d address name =
    (if length d < 2 then None
     else Some (branch_to (address + 2 + scast (d ! 1)) (instruction address (take 2 d) name [])))"

definition x86_truncated :: "u64 \<Rightarrow> Error" where
  "x86_truncated address = mk_error truncated address ''x86 instruction operand truncated''"

definition or_x86_truncated :: "u64 \<Rightarrow> Instruction option \<Rightarrow> Error + Instruction" where
  "or_x86_truncated address r = (case r of None \<Rightarrow> Inl (x86_truncated address) | Some i \<Rightarrow> Inr i)"

definition x86_decode :: "bytes option \<Rightarrow> u64 \<Rightarrow> Error + Instruction" where
  "x86_decode data address =
    (case data of
       None \<Rightarrow> Inl (mk_error truncated address ''instruction byte missing'')
     | Some d \<Rightarrow>
     if d = [] then Inl (mk_error truncated address ''instruction byte missing'')
     else let op = d ! 0; plain = instruction address [op] in
       if op = 0x90 then Inr (plain ''nop'' [])
       else if op = 0xc3 then Inr ((plain ''ret'' [])\<lparr>ins_terminal := True\<rparr>)
       else if op = 0xcc then Inr ((plain ''int3'' [])\<lparr>ins_terminal := True\<rparr>)
       else if op = 0xeb then
         or_x86_truncated address (map_option (\<lambda>i. i\<lparr>ins_terminal := True\<rparr>) (x86_rel8 d address ''jmp''))
       else if op = 0x74 then or_x86_truncated address (x86_rel8 d address ''je'')
       else if op = 0x75 then or_x86_truncated address (x86_rel8 d address ''jne'')
       else if op = 0xe8 \<or> op = 0xe9 then
         if length d < 5 then Inl (x86_truncated address)
         else let relative = le_value (take 4 (drop 1 d)) :: i32 in
           Inr ((branch_to (address + 5 + scast relative)
                   (instruction address (take 5 d) (if op = 0xe8 then ''call'' else ''jmp'') []))
                 \<lparr>ins_call := (op = 0xe8), ins_terminal := (op = 0xe9)\<rparr>)
       else if op = 0x55 then Inr (plain ''push'' ''rbp'')
       else if op = 0x5d then Inr (plain ''pop'' ''rbp'')
       else Inr (plain ''db'' (hex_string 2 (unat op))))"

section \<open>ARM64\<close>

definition sign_extend :: "u64 \<Rightarrow> nat \<Rightarrow> i64" where
  "sign_extend value bits = (let sign = push_bit (bits - 1) 1 in (value XOR sign) - sign)"

definition arm_register :: "u32 \<Rightarrow> string" where
  "arm_register value = (if value = 31 then ''sp'' else ''x'' @ to_string (unat value))"

definition arm64_instruction :: "bytes \<Rightarrow> u64 \<Rightarrow> u32 \<Rightarrow> Instruction" where
  "arm64_instruction bs address word =
    (let destination = word AND 31; source = drop_bit 5 word AND 31;
         plain = instruction address bs;
         near = address + push_bit 2 (sign_extend (ucast (drop_bit 5 word AND 0x7ffff)) 19);
         far = address + push_bit 2 (sign_extend (ucast (word AND 0x03ffffff)) 26);
         memory_operands = arm_register destination @ '', ['' @ arm_register source @ '', #'' @
           to_string (unat ((drop_bit 10 word AND 0xfff) * 8)) @ '']'' in
     if word = 0xd503201f then plain ''nop'' []
     else if word = 0xd65f03c0 then (plain ''ret'' [])\<lparr>ins_terminal := True\<rparr>
     else if word AND 0xfffffc1f = 0xd61f0000 then
       (plain ''br'' (arm_register source))\<lparr>ins_branch := True, ins_terminal := True\<rparr>
     else if word AND 0xfffffc1f = 0xd63f0000 then
       (plain ''blr'' (arm_register source))\<lparr>ins_branch := True, ins_call := True\<rparr>
     else if word AND 0x7c000000 = 0x14000000 then
       (let call = word AND 0x80000000 \<noteq> 0 in
        (branch_to far (plain (if call then ''bl'' else ''b'') (''0x'' @ to_string (unat far))))
          \<lparr>ins_call := call, ins_terminal := \<not> call\<rparr>)
     else if word AND 0xff000010 = 0x54000000 then
       branch_to near (plain ''b.cond'' (''0x'' @ to_string (unat near)))
     else if word AND 0x7f000000 = 0x34000000 then
       branch_to near (plain (if word AND 0x01000000 \<noteq> 0 then ''cbnz'' else ''cbz'')
         (arm_register destination @ '', 0x'' @ to_string (unat near)))
     else if word AND 0x7f800000 = 0x52800000 then
       plain ''mov'' (arm_register destination @ '', #'' @ to_string (unat (drop_bit 5 word AND 0xffff)))
     else if word AND 0x7f000000 = 0x11000000 then
       plain (if word AND 0x40000000 \<noteq> 0 then ''sub'' else ''add'')
         (arm_register destination @ '', '' @ arm_register source @ '', #'' @
          to_string (unat (drop_bit 10 word AND 0xfff)))
     else if word AND 0xffc00000 = 0xf9400000 then plain ''ldr'' memory_operands
     else if word AND 0xffc00000 = 0xf9000000 then plain ''str'' memory_operands
     else plain ''.word'' (hex_string 8 (unat word)))"

definition arm64_decode :: "bytes option \<Rightarrow> u64 \<Rightarrow> Error + Instruction" where
  "arm64_decode data address =
    (case data of
       None \<Rightarrow> Inl (mk_error truncated address ''ARM64 instruction is truncated'')
     | Some d \<Rightarrow>
       if length d < 4 then Inl (mk_error truncated address ''ARM64 instruction is truncated'')
       else Inr (arm64_instruction (take 4 d) address (le_value (take 4 d))))"

section \<open>RISC-V\<close>

definition riscv_names :: "string list" where
  "riscv_names = [''zero'', ''ra'', ''sp'', ''gp'', ''tp'', ''t0'', ''t1'', ''t2'', ''s0'', ''s1'', ''a0'',
     ''a1'', ''a2'', ''a3'', ''a4'', ''a5'', ''a6'', ''a7'', ''s2'', ''s3'', ''s4'', ''s5'',
     ''s6'', ''s7'', ''s8'', ''s9'', ''s10'', ''s11'', ''t3'', ''t4'', ''t5'', ''t6'']"

definition riscv_register :: "u32 \<Rightarrow> string" where
  "riscv_register value = riscv_names ! unat (value AND 31)"

definition riscv_branch_names :: "string list" where
  "riscv_branch_names = [''beq'', ''bne'', ''?'', ''?'', ''blt'', ''bge'', ''bltu'', ''bgeu'']"

definition riscv_half :: "bytes \<Rightarrow> u64 \<Rightarrow> u16 \<Rightarrow> Instruction" where
  "riscv_half bs address half =
    (let quadrant = half AND 3; func = drop_bit 13 half; plain = instruction address bs in
     if half = 1 then plain ''c.nop'' []
     else if quadrant = 1 \<and> func = 5 then
       (branch_to (address + push_bit 1 (sign_extend (ucast (drop_bit 2 half AND 0x7ff)) 11))
          (plain ''c.j'' []))\<lparr>ins_terminal := True\<rparr>
     else if quadrant = 2 \<and> func = 4 \<and> drop_bit 12 half AND 1 \<noteq> 0 then
       (let source = ucast (drop_bit 2 half AND 31) :: u32 in
        (plain (if source \<noteq> 0 then ''c.jalr'' else ''c.ebreak'')
           (if source \<noteq> 0 then riscv_register source else []))
          \<lparr>ins_call := source \<noteq> 0, ins_branch := source \<noteq> 0, ins_terminal := source = 0\<rparr>)
     else plain ''.half'' (hex_string 4 (unat half)))"

definition riscv_jal_offset :: "u32 \<Rightarrow> u32" where
  "riscv_jal_offset word = push_bit 20 (drop_bit 31 word) OR push_bit 12 (drop_bit 12 word AND 0xff) OR
     push_bit 11 (drop_bit 20 word AND 1) OR push_bit 1 (drop_bit 21 word AND 0x3ff)"

definition riscv_branch_offset :: "u32 \<Rightarrow> u32" where
  "riscv_branch_offset word = push_bit 12 (drop_bit 31 word) OR push_bit 11 (drop_bit 7 word AND 1) OR
     push_bit 5 (drop_bit 25 word AND 0x3f) OR push_bit 1 (drop_bit 8 word AND 0xf)"

definition riscv_word :: "bytes \<Rightarrow> u64 \<Rightarrow> u32 \<Rightarrow> Instruction" where
  "riscv_word bs address word =
    (let opcode = word AND 0x7f; destination = drop_bit 7 word AND 31;
         function3 = drop_bit 12 word AND 7; source1 = drop_bit 15 word AND 31;
         source2 = drop_bit 20 word AND 31; function7 = drop_bit 25 word;
         immediate = sign_extend (ucast (drop_bit 20 word)) 12;
         plain = instruction address bs; reg = riscv_register in
     if word = 0x00008067 then (plain ''ret'' [])\<lparr>ins_terminal := True\<rparr>
     else if opcode = 0x6f then
       (branch_to (address + sign_extend (ucast (riscv_jal_offset word)) 21) (plain ''jal'' (reg destination)))
         \<lparr>ins_call := destination = 1, ins_terminal := destination \<noteq> 1\<rparr>
     else if opcode = 0x67 then
       (plain ''jalr'' (reg destination @ '', '' @ to_string_signed immediate @ ''('' @ reg source1 @ '')''))
         \<lparr>ins_branch := True, ins_call := destination = 1\<rparr>
     else if opcode = 0x63 then
       branch_to (address + sign_extend (ucast (riscv_branch_offset word)) 13)
         (plain (riscv_branch_names ! unat function3) (reg source1 @ '', '' @ reg source2))
     else if opcode = 0x13 then
       plain (if function3 = 0 then ''addi'' else ''op-imm'')
         (reg destination @ '', '' @ reg source1 @ '', '' @ to_string_signed immediate)
     else if opcode = 0x33 then
       plain (if function3 = 0 then if function7 = 0x20 then ''sub'' else ''add'' else ''op'')
         (reg destination @ '', '' @ reg source1 @ '', '' @ reg source2)
     else if opcode = 0x03 then
       plain (if function3 = 3 then ''ld'' else ''lw'') (reg destination @ '', ('' @ reg source1 @ '')'')
     else if opcode = 0x23 then
       plain (if function3 = 3 then ''sd'' else ''sw'') (reg source2 @ '', ('' @ reg source1 @ '')'')
     else plain ''.word'' (hex_string 8 (unat word)))"

definition riscv_decode :: "bool \<Rightarrow> bytes option \<Rightarrow> u64 \<Rightarrow> Error + Instruction" where
  "riscv_decode compressed data address =
    (case data of
       None \<Rightarrow> Inl (mk_error truncated address ''RISC-V instruction is truncated'')
     | Some d \<Rightarrow>
       if length d < 2 then Inl (mk_error truncated address ''RISC-V instruction is truncated'')
       else let half = le_value (take 2 d) :: u16 in
         if half AND 3 \<noteq> 3 then
           if \<not> compressed
           then Inl (mk_error invalid_header address ''compressed RISC-V instruction is disabled'')
           else Inr (riscv_half (take 2 d) address half)
         else if length d < 4
         then Inl (mk_error truncated address ''RISC-V 32-bit instruction is truncated'')
         else Inr (riscv_word (take 4 d) address (le_value (take 4 d))))"

section \<open>What a client relies on\<close>

text \<open>
  A decoded instruction is at the address asked for, is one to sixteen bytes long, does not reach past
  its input and keeps the bytes it was decoded from; calls and instructions with a target are branches.
\<close>

definition instruction_at :: "bytes \<Rightarrow> u64 \<Rightarrow> Instruction \<Rightarrow> bool" where
  "instruction_at d a i \<longleftrightarrow> ins_address i = a \<and> 0 < unat (ins_size i) \<and> unat (ins_size i) \<le> 16 \<and>
     unat (ins_size i) \<le> length d \<and> take (unat (ins_size i)) (ins_bytes i) = take (unat (ins_size i)) d \<and>
     length (ins_bytes i) = 16 \<and> (ins_target i \<noteq> None \<longrightarrow> ins_branch i) \<and> (ins_call i \<longrightarrow> ins_branch i)"

locale disassembler =
  fixes decode :: "bytes option \<Rightarrow> u64 \<Rightarrow> Error + Instruction"
  assumes decoded: "decode (Some d) a = Inr i \<Longrightarrow> instruction_at d a i"
begin

lemma decoded_size: "decode (Some d) a = Inr i \<Longrightarrow> 0 < unat (ins_size i) \<and> unat (ins_size i) \<le> length d"
  by (drule decoded) (simp add: instruction_at_def)

lemma nothing_from_nothing: "decode (Some []) a \<noteq> Inr i"
  using decoded_size [of "[]" a i] by auto

end

definition from_prefix :: "nat \<Rightarrow> bytes \<Rightarrow> u64 \<Rightarrow> Instruction \<Rightarrow> bool" where
  "from_prefix n d a i \<longleftrightarrow> ins_address i = a \<and> ins_size i = of_nat n \<and>
     ins_bytes i = take n d @ replicate (16 - n) 0 \<and> (ins_target i \<noteq> None \<longrightarrow> ins_branch i) \<and>
     (ins_call i \<longrightarrow> ins_branch i)"

lemma from_prefix_at:
  assumes "from_prefix n d a i" "0 < n" "n \<le> 16" "n \<le> length d"
  shows "instruction_at d a i"
proof -
  have "unat (ins_size i) = n" using assms unat_of_nat_u8 [of n] by (simp add: from_prefix_def)
  then show ?thesis using assms by (simp add: instruction_at_def from_prefix_def)
qed

lemma instruction_simps [simp]:
  "ins_address (instruction a bs m ops) = a" "ins_size (instruction a bs m ops) = of_nat (length bs)"
  "ins_bytes (instruction a bs m ops) = bs @ replicate (16 - length bs) 0"
  "ins_branch (instruction a bs m ops) = False" "ins_call (instruction a bs m ops) = False"
  "ins_target (instruction a bs m ops) = None"
  by (simp_all add: instruction_def)

lemma branch_to_simps [simp]:
  "ins_address (branch_to t i) = ins_address i" "ins_size (branch_to t i) = ins_size i"
  "ins_bytes (branch_to t i) = ins_bytes i" "ins_branch (branch_to t i)" "ins_target (branch_to t i) = Some t"
  by (simp_all add: branch_to_def)

lemma from_prefix_arm64: "length d \<ge> 4 \<Longrightarrow> from_prefix 4 d a (arm64_instruction (take 4 d) a w)"
  by (simp add: arm64_instruction_def from_prefix_def Let_def)

lemma from_prefix_riscv_half: "length d \<ge> 2 \<Longrightarrow> from_prefix 2 d a (riscv_half (take 2 d) a h)"
  by (simp add: riscv_half_def from_prefix_def Let_def)

lemma from_prefix_riscv_word: "length d \<ge> 4 \<Longrightarrow> from_prefix 4 d a (riscv_word (take 4 d) a w)"
  by (simp add: riscv_word_def from_prefix_def Let_def)

lemma from_prefix_terminal [simp]: "from_prefix n d a (i\<lparr>ins_terminal := t\<rparr>) \<longleftrightarrow> from_prefix n d a i"
  by (simp add: from_prefix_def)

lemma from_prefix_op: "d \<noteq> [] \<Longrightarrow> d ! 0 = op \<Longrightarrow> from_prefix (Suc 0) d a (instruction a [op] m ops)"
  by (cases d) (simp_all add: from_prefix_def)

lemma from_prefix_rel8: "x86_rel8 d a name = Some i \<Longrightarrow> from_prefix 2 d a i \<and> 2 \<le> length d"
  by (auto simp: x86_rel8_def from_prefix_def split: if_splits)

lemma from_prefix_near: "5 \<le> length d \<Longrightarrow>
    from_prefix 5 d a ((branch_to t (instruction a (take 5 d) m ops))\<lparr>ins_call := c, ins_terminal := e\<rparr>)"
  by (simp add: from_prefix_def)

lemma or_x86_truncated_Inr [simp]: "or_x86_truncated a r = Inr i \<longleftrightarrow> r = Some i"
  by (simp add: or_x86_truncated_def split: option.splits)

lemma from_prefix_x86:
  assumes "x86_decode (Some d) a = Inr i"
  shows "\<exists>n \<in> {1, 2, 5}. from_prefix n d a i \<and> n \<le> length d"
proof -
  have d: "d \<noteq> []" using assms by (auto simp: x86_decode_def)
  then have len: "Suc 0 \<le> length d" by (cases d) simp_all
  show ?thesis
    using assms d unfolding x86_decode_def Let_def option.case
    by (simp split: if_splits)
      (auto intro: from_prefix_near dest: from_prefix_rel8 simp: from_prefix_op len)
qed

interpretation x86: disassembler x86_decode
proof
  fix d a i assume "x86_decode (Some d) a = Inr i"
  from from_prefix_x86 [OF this] obtain n where "from_prefix n d a i" "n \<le> length d" "n \<in> {1, 2, 5}" by blast
  then show "instruction_at d a i" by (intro from_prefix_at [of n]) auto
qed

interpretation arm64: disassembler arm64_decode
  by unfold_locales
    (auto simp: arm64_decode_def split: if_splits intro!: from_prefix_at [where n = 4] from_prefix_arm64)

interpretation riscv: disassembler "riscv_decode compressed" for compressed
  by unfold_locales
    (auto simp: riscv_decode_def Let_def split: if_splits
      intro: from_prefix_at [OF from_prefix_riscv_half] from_prefix_at [OF from_prefix_riscv_word])

end
