(* ===== verification/Code_Analysis.thy ===== *)
theory Code_Analysis
  imports Disassembly Ordered_Map
begin

unbundle bit_operations_syntax

text \<open>
  \<open>DisassemblyAnalyzer\<close> of \<open>src/disassembly_analyzer.cc\<close>: a linear sweep with any decoder, then the
  basic blocks and the edges between them. A \<open>std::set\<close> of addresses is its ordered list. The decoder
  is a parameter, as the source takes any \<open>Disassembler\<close>; what depends on its contract is proved in
  the context of the locale \<open>disassembler\<close>.
\<close>

section \<open>The sweep\<close>

record ControlFlowEdge =
  edge_source :: u64
  edge_target :: u64
  edge_conditional :: bool
  edge_call :: bool
  edge_fallthrough :: bool

record BasicBlockInfo =
  blk_begin :: u64
  blk_end :: u64
  blk_instruction_count :: u32
  blk_complete :: bool
  blk_outgoing :: "ControlFlowEdge list"

record DisassemblyReport =
  dis_start :: u64
  dis_end :: u64
  dis_bytes_decoded :: u64
  dis_instructions :: "Instruction list"
  dis_blocks :: "BasicBlockInfo list"
  dis_warnings :: "string list"

type_synonym decoder = "bytes option \<Rightarrow> u64 \<Rightarrow> Error + Instruction"

text \<open>One round of the sweep at \<open>offset\<close>: an error, a refusal with its warning, or an instruction.\<close>

datatype sweep_step = sweep_error Error | sweep_stop string | sweep_next Instruction

definition sweep_one :: "decoder \<Rightarrow> bytes \<Rightarrow> u64 \<Rightarrow> nat \<Rightarrow> sweep_step" where
  "sweep_one decode data address offset =
    (case checked_add address (of_nat offset) of
       None \<Rightarrow> sweep_error (mk_error address_overflow address ''instruction address overflows'')
     | Some a \<Rightarrow>
       (case decode (Some (drop offset data)) a of
          Inl e \<Rightarrow> sweep_stop (''decode stopped at '' @ to_string (unat a) @ '': '' @ err_message e)
        | Inr i \<Rightarrow>
          if ins_size i = 0 \<or> unat (ins_size i) > length data - offset \<or> unat (ins_size i) > 16
          then sweep_error (mk_error invalid_offset a ''decoder returned an invalid instruction length'')
          else sweep_next i))"

function sweep ::
    "nat \<Rightarrow> decoder \<Rightarrow> bytes \<Rightarrow> u64 \<Rightarrow> nat \<Rightarrow> Instruction list \<Rightarrow> Error + (nat \<times> Instruction list \<times> string list)" where
  "sweep limit decode data address offset found =
    (if offset < length data \<and> length found < limit then
       (case sweep_one decode data address offset of
          sweep_error e \<Rightarrow> Inl e
        | sweep_stop warning \<Rightarrow> Inr (offset, found, [warning])
        | sweep_next i \<Rightarrow> sweep limit decode data address (offset + unat (ins_size i)) (found @ [i]))
     else Inr (offset, found, []))"
  by pat_completeness auto

lemma sweep_one_next:
  assumes "sweep_one decode data address offset = sweep_next i"
  obtains a where "checked_add address (of_nat offset) = Some a" "decode (Some (drop offset data)) a = Inr i"
    "0 < unat (ins_size i)" "unat (ins_size i) \<le> length data - offset" "unat (ins_size i) \<le> 16"
  using assms by (auto simp: sweep_one_def unat_gt_0 split: option.splits sum.splits if_splits)

termination sweep
proof (relation "measure (\<lambda>(limit, decode, data, address, offset, found). length data - offset)")
  fix limit decode data address offset and found :: "Instruction list" and i
  assume "offset < length data \<and> length found < limit" "sweep_one decode data address offset = sweep_next i"
  then show "((limit, decode, data, address, offset + unat (ins_size i), found @ [i]),
      limit, decode, data, address, offset, found)
      \<in> measure (\<lambda>(limit, decode, data, address, offset, found). length data - offset)"
    by (auto elim: sweep_one_next)
qed simp

declare sweep.simps [simp del]

section \<open>Leaders\<close>

definition put :: "'k::linorder \<Rightarrow> 'v \<Rightarrow> ('k, 'v) omap \<Rightarrow> ('k, 'v) omap" where
  \<comment> \<open>\<open>map[k] = v\<close>\<close>
  "put k v m = om_modify k (\<lambda>_. v) (om_emplace k v m)"

definition index_leader ::
    "nat \<times> Instruction \<Rightarrow> u64 list \<times> (u64, nat) omap \<Rightarrow> u64 list \<times> (u64, nat) omap" where
  "index_leader entry st =
    (case entry of (index, i) \<Rightarrow> case st of (leaders, at) \<Rightarrow>
     let at' = put (ins_address i) index at in
     case checked_add (ins_address i) (ucast (ins_size i)) of
       None \<Rightarrow> (leaders, at')
     | Some fall \<Rightarrow>
       let with_target = (case ins_target i of
             Some t \<Rightarrow> if om_find at' t \<noteq> None then insort_insert t leaders else leaders
           | None \<Rightarrow> leaders) in
       (if ins_branch i \<and> \<not> ins_terminal i then insort_insert fall with_target else with_target, at'))"

definition target_leader :: "u64 \<Rightarrow> u64 \<Rightarrow> Instruction \<Rightarrow> u64 list \<Rightarrow> u64 list" where
  "target_leader start end_address i leaders =
    (case ins_target i of
       Some t \<Rightarrow> if t \<ge> start \<and> t < end_address then insort_insert t leaders else leaders
     | None \<Rightarrow> leaders)"

definition find_leaders :: "u64 \<Rightarrow> u64 \<Rightarrow> Instruction list \<Rightarrow> u64 list \<times> (u64, nat) omap" where
  "find_leaders start end_address instrs =
    (case fold index_leader (enumerate 0 instrs) (insort_insert start [], []) of (leaders, at) \<Rightarrow>
       (fold (target_leader start end_address) instrs leaders, at))"

section \<open>Blocks\<close>

definition new_block :: "u64 \<Rightarrow> BasicBlockInfo" where
  "new_block leader = \<lparr>blk_begin = leader, blk_end = 0, blk_instruction_count = 0, blk_complete = False,
     blk_outgoing = []\<rparr>"

text \<open>The instruction joins the block, with its edges; \<open>block_end\<close> is the address after it.\<close>

definition join_block :: "Instruction \<Rightarrow> u64 \<Rightarrow> BasicBlockInfo \<Rightarrow> BasicBlockInfo" where
  "join_block i block_end block = block\<lparr>
     blk_instruction_count := blk_instruction_count block + 1, blk_end := block_end,
     blk_complete := blk_complete block \<or> ins_branch i \<or> ins_terminal i,
     blk_outgoing := blk_outgoing block @
       (case ins_target i of
          Some t \<Rightarrow> [\<lparr>edge_source = ins_address i, edge_target = t,
             edge_conditional = ins_branch i \<and> \<not> ins_terminal i \<and> \<not> ins_call i,
             edge_call = ins_call i, edge_fallthrough = False\<rparr>]
        | None \<Rightarrow> []) @
       (if (ins_branch i \<or> ins_terminal i) \<and> (\<not> ins_terminal i \<or> ins_call i)
        then [\<lparr>edge_source = ins_address i, edge_target = block_end, edge_conditional = False,
               edge_call = False, edge_fallthrough = True\<rparr>]
        else [])\<rparr>"

fun grow_block :: "u64 \<Rightarrow> Instruction list \<Rightarrow> BasicBlockInfo \<Rightarrow> Error + BasicBlockInfo" where
  "grow_block next_leader [] block = Inr block"
| "grow_block next_leader (i # rest) block =
    (if ins_address i \<ge> next_leader \<and> blk_instruction_count block \<noteq> 0 then Inr block
     else case checked_add (ins_address i) (ucast (ins_size i)) of
       None \<Rightarrow> Inl (mk_error address_overflow (ins_address i) ''basic-block end overflows'')
     | Some block_end \<Rightarrow>
       if ins_branch i \<or> ins_terminal i then Inr (join_block i block_end block)
       else grow_block next_leader rest (join_block i block_end block))"

definition close_block :: "u64 \<Rightarrow> BasicBlockInfo \<Rightarrow> BasicBlockInfo" where
  "close_block next_leader block =
    (if \<not> blk_complete block \<and> blk_end block = next_leader
     then block\<lparr>blk_outgoing := blk_outgoing block @
       [\<lparr>edge_source = blk_end block, edge_target = next_leader, edge_conditional = False,
         edge_call = False, edge_fallthrough = True\<rparr>]\<rparr>
     else block)"

fun build_blocks ::
    "u64 \<Rightarrow> (u64, nat) omap \<Rightarrow> Instruction list \<Rightarrow> u64 list \<Rightarrow> Error + BasicBlockInfo list" where
  "build_blocks end_address at instrs [] = Inr []"
| "build_blocks end_address at instrs (leader # rest) =
    (case om_find at leader of
       None \<Rightarrow> build_blocks end_address at instrs rest
     | Some index \<Rightarrow>
       let next_leader = (case rest of [] \<Rightarrow> end_address | l # _ \<Rightarrow> l) in
       (case grow_block next_leader (drop index instrs) (new_block leader) of
          Inl e \<Rightarrow> Inl e
        | Inr block \<Rightarrow>
          (case build_blocks end_address at instrs rest of
             Inl e \<Rightarrow> Inl e
           | Inr blocks \<Rightarrow> Inr (close_block next_leader block # blocks))))"

text \<open>\<open>None\<close> is a null pointer with a size other than zero; the empty input is \<open>Some []\<close>.\<close>

definition analyze_code :: "Limits \<Rightarrow> decoder \<Rightarrow> bytes option \<Rightarrow> u64 \<Rightarrow> Error + DisassemblyReport" where
  "analyze_code limits decode input address =
    (case input of
       None \<Rightarrow> Inl (mk_error invalid_offset address ''disassembly input pointer is null'')
     | Some data \<Rightarrow>
     let limit = unat (max_disassembly_instructions limits) in
     case sweep limit decode data address 0 [] of
       Inl e \<Rightarrow> Inl e
     | Inr (offset, instrs, warnings) \<Rightarrow>
       (case checked_add address (of_nat offset) of
          None \<Rightarrow> Inl (mk_error address_overflow address ''disassembly end address overflows'')
        | Some end_address \<Rightarrow>
          (case find_leaders address end_address instrs of (leaders, at) \<Rightarrow>
           case build_blocks end_address at instrs leaders of
             Inl e \<Rightarrow> Inl e
           | Inr blocks \<Rightarrow>
             Inr \<lparr>dis_start = address, dis_end = end_address, dis_bytes_decoded = of_nat offset,
                  dis_instructions = instrs, dis_blocks = blocks,
                  dis_warnings = warnings @
                    (if length instrs \<ge> limit \<and> offset < length data then [''instruction limit reached''] else [])\<rparr>)))"

end
