(* ===== verification/Sweep.thy ===== *)
theory Sweep
  imports Code_Analysis
begin

text \<open>
  The linear sweep of \<open>Code_Analysis\<close>: the instructions of a report are those the decoder gives one
  after the other, they lie end to end and together are the bytes decoded, and the sweep stops only at
  the end of the input, at the instruction limit or where the decoder refuses.
\<close>

abbreviation size_of :: "Instruction \<Rightarrow> nat" where
  "size_of i \<equiv> unat (ins_size i)"

definition code_offset :: "Instruction list \<Rightarrow> nat \<Rightarrow> nat" where
  "code_offset is k = sum_list (map size_of (take k is))"

definition code_of :: "Instruction \<Rightarrow> bytes" where
  "code_of i = take (size_of i) (ins_bytes i)"

text \<open>The decoder, asked again after each instruction, gives this list from \<open>n\<close> bytes.\<close>

fun decodes :: "decoder \<Rightarrow> bytes \<Rightarrow> u64 \<Rightarrow> Instruction list \<Rightarrow> nat \<Rightarrow> bool" where
  "decodes decode d a [] n \<longleftrightarrow> n = 0"
| "decodes decode d a (i # is) n \<longleftrightarrow> decode (Some d) a = Inr i \<and> 0 < size_of i \<and> size_of i \<le> n \<and>
     decodes decode (drop (size_of i) d) (a + of_nat (size_of i)) is (n - size_of i)"

lemma of_nat_diff_add_u64: "m \<le> n \<Longrightarrow> of_nat m + of_nat (n - m) = (of_nat n :: u64)"
  by (simp only: of_nat_add [symmetric] le_add_diff_inverse)

lemma decodes_snoc:
  "decodes decode d a is n \<Longrightarrow> decode (Some (drop n d)) (a + of_nat n) = Inr i \<Longrightarrow> 0 < size_of i \<Longrightarrow>
   decodes decode d a (is @ [i]) (n + size_of i)"
proof (induction "is" arbitrary: d a n)
  case (Cons j js)
  let ?s = "size_of j" and ?a = "a + of_nat (size_of j)" and ?d = "drop (size_of j) d"
  from Cons.prems(1) have j: "decode (Some d) a = Inr j" "0 < ?s" "?s \<le> n" "decodes decode ?d ?a js (n - ?s)"
    unfolding decodes.simps by blast+
  have "?a + of_nat (n - ?s) = a + of_nat n" by (simp only: add.assoc of_nat_diff_add_u64 [OF j(3)])
  moreover have "drop (n - ?s) ?d = drop n d" using j(3) by simp
  ultimately have "decode (Some (drop (n - ?s) ?d)) (?a + of_nat (n - ?s)) = Inr i"
    by (simp only: Cons.prems(2))
  from Cons.IH [OF j(4) this Cons.prems(3)] have "decodes decode ?d ?a (js @ [i]) (n + size_of i - ?s)"
    using j(3) by (simp only: Nat.diff_add_assoc2)
  then show ?case unfolding append_Cons decodes.simps using j(1-3) by simp
qed simp

lemma code_offset_simps [simp]:
  "code_offset is 0 = 0" "code_offset (i # is) (Suc k) = size_of i + code_offset is k"
  by (simp_all add: code_offset_def)

lemma code_offset_Suc: "k < length is \<Longrightarrow> code_offset is (Suc k) = code_offset is k + size_of (is ! k)"
  by (simp add: code_offset_def take_Suc_conv_app_nth)

lemma code_offset_mono: "k \<le> m \<Longrightarrow> m \<le> length is \<Longrightarrow> code_offset is k \<le> code_offset is m"
  by (induction rule: dec_induct) (auto simp: code_offset_Suc)

lemma decodes_length: "decodes decode d a is n \<Longrightarrow> code_offset is (length is) = n"
  by (induction "is" arbitrary: d a n) auto

lemma decodes_nth:
  "decodes decode d a is n \<Longrightarrow> k < length is \<Longrightarrow>
   0 < size_of (is ! k) \<and>
   decode (Some (drop (code_offset is k) d)) (a + of_nat (code_offset is k)) = Inr (is ! k)"
proof (induction "is" arbitrary: d a n k)
  case (Cons i "is")
  show ?case
  proof (cases k)
    case (Suc m)
    then show ?thesis using Cons.IH [of "drop (size_of i) d" "a + of_nat (size_of i)" "n - size_of i" m] Cons.prems
      by (simp add: add.assoc)  (simp add: add.commute)
  qed (use Cons.prems in simp)
qed simp

context disassembler
begin

lemma decodes_bytes:
  "decodes decode d a is n \<Longrightarrow> n \<le> length d \<Longrightarrow> concat (map code_of is) = take n d"
proof (induction "is" arbitrary: d a n)
  case (Cons i "is")
  then have i: "decode (Some d) a = Inr i" "size_of i \<le> n" by simp_all
  have "concat (map code_of is) = take (n - size_of i) (drop (size_of i) d)"
    using Cons.prems by (intro Cons.IH) auto
  moreover have "code_of i = take (size_of i) d"
    using decoded [OF i(1)] by (simp add: instruction_at_def code_of_def)
  ultimately show ?case
    using i(2) take_add [of "size_of i" "n - size_of i" d] by simp
qed simp

lemma decodes_at:
  assumes "decodes decode d a is n" "k < length is"
  shows "instruction_at (drop (code_offset is k) d) (a + of_nat (code_offset is k)) (is ! k)"
  using decodes_nth [OF assms] decoded by blast

end

section \<open>The loop\<close>

definition sweep_ends :: "nat \<Rightarrow> decoder \<Rightarrow> bytes \<Rightarrow> u64 \<Rightarrow> nat \<Rightarrow> Instruction list \<Rightarrow> string list \<Rightarrow> bool" where
  "sweep_ends limit decode d a n is warnings \<longleftrightarrow>
     (if n < length d \<and> length is < limit
      then \<exists>e. decode (Some (drop n d)) (a + of_nat n) = Inl e \<and>
           warnings = [''decode stopped at '' @ to_string (unat (a + of_nat n)) @ '': '' @ err_message e]
      else warnings = [])"

lemma sweep_one_stop:
  "sweep_one decode d a n = sweep_stop w \<Longrightarrow>
   \<exists>e. decode (Some (drop n d)) (a + of_nat n) = Inl e \<and>
     w = ''decode stopped at '' @ to_string (unat (a + of_nat n)) @ '': '' @ err_message e"
  by (auto simp: sweep_one_def checked_add_def split: option.splits sum.splits if_splits)

lemma sweep_one_Some:
  "sweep_one decode d a n = sweep_next i \<Longrightarrow>
   decode (Some (drop n d)) (a + of_nat n) = Inr i \<and> 0 < size_of i \<and> size_of i \<le> length d - n"
  by (auto simp: sweep_one_def checked_add_def unat_gt_0 split: option.splits sum.splits if_splits)

lemma sweep_sound:
  assumes "sweep limit decode d a n found = Inr (n', is, warnings)"
    and "decodes decode d a found n" "n \<le> length d" "length found \<le> limit"
  shows "decodes decode d a is n' \<and> n' \<le> length d \<and> length is \<le> limit \<and>
    sweep_ends limit decode d a n' is warnings"
  using assms
proof (induction limit decode d a n found rule: sweep.induct)
  case (1 limit decode d a n found)
  note step = sweep.simps [of limit decode d a n found]
  show ?case
  proof (cases "n < length d \<and> length found < limit")
    case go: True
    show ?thesis
    proof (cases "sweep_one decode d a n")
      case (sweep_error e)
      then show ?thesis using go 1 step by simp
    next
      case (sweep_stop w)
      then have "n' = n" "is = found" "warnings = [w]" using go 1 step by auto
      then show ?thesis using go 1 sweep_one_stop [OF sweep_stop] by (simp add: sweep_ends_def)
    next
      case (sweep_next i)
      note i = sweep_one_Some [OF sweep_next]
      show ?thesis
      proof (rule "1.IH" [OF go sweep_next])
        show "sweep limit decode d a (n + size_of i) (found @ [i]) = Inr (n', is, warnings)"
          using 1 go step sweep_next by simp
        show "decodes decode d a (found @ [i]) (n + size_of i)" using decodes_snoc "1.prems" i by blast
        show "n + size_of i \<le> length d" "length (found @ [i]) \<le> limit" using i go by auto
      qed
    qed
  next
    case False
    then have "n' = n" "is = found" "warnings = []" using "1.prems"(1) step by auto
    then show ?thesis using False 1 by (simp add: sweep_ends_def)
  qed
qed

text \<open>A decoder that keeps its contract never makes the sweep fail while the addresses fit.\<close>

context disassembler
begin

lemma sweep_one_ok:
  assumes "unat a + length d < 2 ^ 64" "n < length d"
  shows "sweep_one decode d a n \<noteq> sweep_error e"
proof -
  have n: "unat (of_nat n :: u64) = n" using assms by (intro unat_of_nat_u64) simp
  then have "checked_add a (of_nat n) = Some (a + of_nat n)"
    using assms by (simp add: add_op.op_exact)
  moreover have "ins_size i \<noteq> 0 \<and> size_of i \<le> length d - n \<and> size_of i \<le> 16"
    if "decode (Some (drop n d)) (a + of_nat n) = Inr i" for i
    using decoded [OF that] by (auto simp: instruction_at_def)
  ultimately show ?thesis by (auto simp: sweep_one_def not_less split: sum.splits)
qed

lemma sweep_returns:
  assumes "unat a + length d < 2 ^ 64"
  shows "\<exists>r. sweep limit decode d a n found = Inr r"
proof (induction "length d - n" arbitrary: n found rule: less_induct)
  case less
  note step = sweep.simps [of limit decode d a n found]
  show ?case
  proof (cases "n < length d \<and> length found < limit")
    case go: True
    show ?thesis
    proof (cases "sweep_one decode d a n")
      case (sweep_error e)
      then show ?thesis using sweep_one_ok [OF assms] go by blast
    next
      case (sweep_stop w)
      then show ?thesis using go step by simp
    next
      case (sweep_next i)
      then have "length d - (n + size_of i) < length d - n" using sweep_one_Some [OF sweep_next] go by auto
      then show ?thesis using less go step sweep_next by simp
    qed
  next
    case False
    then show ?thesis by (simp only: step if_False) blast
  qed
qed

end

end
