(* ===== verification/Basic_Blocks.thy ===== *)
theory Basic_Blocks
  imports Sweep
begin

text \<open>
  The basic blocks of \<open>Code_Analysis\<close>. Each block is a run of consecutive instructions given by its
  first index and the index after its last; the lemmas show which runs the analyzer takes, which edges
  leave them, and that for a decoder that keeps its contract an analysis always ends with a report.
\<close>

section \<open>Instructions laid end to end\<close>

definition laid_out :: "u64 \<Rightarrow> Instruction list \<Rightarrow> bool" where
  "laid_out a is \<longleftrightarrow> unat a + code_offset is (length is) < 2 ^ 64 \<and>
     (\<forall>k < length is. ins_address (is ! k) = a + of_nat (code_offset is k) \<and> 0 < size_of (is ! k))"

definition after :: "Instruction \<Rightarrow> u64" where
  "after i = ins_address i + ucast (ins_size i)"

definition stops :: "Instruction \<Rightarrow> bool" where
  "stops i \<longleftrightarrow> ins_branch i \<or> ins_terminal i"

lemma laid_out_bound: "laid_out a is \<Longrightarrow> unat a + code_offset is (length is) < 2 ^ 64"
  by (simp add: laid_out_def)

lemma laid_out_unat:
  assumes "laid_out a is" "k < length is"
  shows "unat (ins_address (is ! k)) = unat a + code_offset is k"
proof -
  have "unat a + code_offset is k < 2 ^ 64"
    using assms code_offset_mono [of k "length is" "is"] by (simp add: laid_out_def)
  then have "unat (of_nat (unat a + code_offset is k) :: u64) = unat a + code_offset is k"
    by (intro unat_of_nat_u64) simp
  then show ?thesis using assms by (simp add: laid_out_def)
qed

lemma laid_out_after:
  assumes "laid_out a is" "k < length is"
  shows "checked_add (ins_address (is ! k)) (ucast (ins_size (is ! k))) = Some (after (is ! k))"
    and "unat (after (is ! k)) = unat a + code_offset is (Suc k)"
proof -
  have fits: "unat (ins_address (is ! k)) + size_of (is ! k) < 2 ^ 64"
    using laid_out_bound [OF assms(1)] code_offset_mono [of "Suc k" "length is" "is"] assms(2)
    by (simp add: laid_out_unat [OF assms] code_offset_Suc)
  then have "unat (after (is ! k)) = unat (ins_address (is ! k)) + size_of (is ! k)"
    unfolding after_def by (subst unat_plus_bounded) simp_all
  then show "checked_add (ins_address (is ! k)) (ucast (ins_size (is ! k))) = Some (after (is ! k))"
    "unat (after (is ! k)) = unat a + code_offset is (Suc k)"
    using assms by (simp_all add: add_op.Some_iff laid_out_unat code_offset_Suc)
qed

lemma code_offset_less:
  assumes "laid_out a is" "k < m" "m \<le> length is"
  shows "code_offset is k < code_offset is m"
proof -
  have "code_offset is k < code_offset is (Suc k)" using assms by (simp add: code_offset_Suc laid_out_def)
  also have "\<dots> \<le> code_offset is m" using assms by (intro code_offset_mono) simp_all
  finally show ?thesis .
qed

lemma address_less_iff:
  assumes "laid_out a is" "k < length is" "m < length is"
  shows "ins_address (is ! k) < ins_address (is ! m) \<longleftrightarrow> k < m"
  using assms code_offset_less [of a "is" k m] code_offset_less [of a "is" m k]
  by (cases k m rule: linorder_cases) (auto simp: word_less_nat_alt laid_out_unat)

lemma address_eq_iff:
  assumes "laid_out a is" "k < length is" "m < length is"
  shows "ins_address (is ! k) = ins_address (is ! m) \<longleftrightarrow> k = m"
  using address_less_iff [OF assms(1,2,3)] address_less_iff [OF assms(1,3,2)]
  by (metis linorder_neq_iff order_less_irrefl)

lemma laid_out_distinct: "laid_out a is \<Longrightarrow> distinct (map ins_address is)"
  by (auto simp: distinct_conv_nth address_eq_iff)

section \<open>Leaders\<close>

lemma put_ok [simp]: "om_ok m \<Longrightarrow> om_ok (put k v m)"
  by (simp add: put_def om.ok_modify om.ok_emplace)

lemma put_find: "om_ok m \<Longrightarrow> om_find (put k v m) j = (if j = k then Some v else om_find m j)"
  by (auto simp: put_def om.find_modify om.find_emplace om.ok_emplace)

definition falls :: "Instruction list \<Rightarrow> u64 set" where
  "falls is = {f. \<exists>i \<in> set is. ins_branch i \<and> \<not> ins_terminal i \<and>
     checked_add (ins_address i) (ucast (ins_size i)) = Some f}"

definition targets :: "Instruction list \<Rightarrow> u64 set" where
  "targets is = {t. \<exists>i \<in> set is. ins_target i = Some t}"

abbreviation ascending :: "'a::linorder list \<Rightarrow> bool" where
  "ascending \<equiv> sorted_wrt (<)"

lemma ascending_insort [simp]: "ascending xs \<Longrightarrow> ascending (insort_insert x xs)"
  by (simp add: strict_sorted_iff sorted_insort_insert distinct_insort_insert)

definition indexed :: "Instruction list \<Rightarrow> (u64, nat) omap \<Rightarrow> bool" where
  "indexed is at \<longleftrightarrow> om_ok at \<and> (\<forall>x j. om_find at x = Some j \<longleftrightarrow> j < length is \<and> ins_address (is ! j) = x)"

lemma indexed_put:
  assumes "indexed is at" "distinct (map ins_address (is @ [i]))"
  shows "indexed (is @ [i]) (put (ins_address i) (length is) at)"
proof -
  have "ins_address i \<notin> ins_address ` set is" using assms(2) by simp
  then have new: "j < length is \<Longrightarrow> ins_address (is ! j) \<noteq> ins_address i" for j
    by (metis imageI nth_mem)
  then show ?thesis
    using assms(1) unfolding indexed_def
    by (auto simp: put_find nth_append less_Suc_eq)
qed

lemma indexed_found: "indexed is at \<Longrightarrow> (om_find at x \<noteq> None) \<longleftrightarrow> x \<in> ins_address ` set is"
  by (force simp: indexed_def in_set_conv_nth)

lemma index_leader_set:
  assumes "index_leader (k, i) (ls, m) = (ls', m')"
  shows "m' = put (ins_address i) k m" and "ascending ls \<Longrightarrow> ascending ls'"
    and "set ls \<union> falls [i] \<subseteq> set ls'"
    and "set ls' \<subseteq> set ls \<union> falls [i] \<union> (targets [i] \<inter> {t. om_find m' t \<noteq> None})"
  using assms
  by (auto simp: index_leader_def Let_def falls_def targets_def set_insort_insert split: option.splits if_splits)

lemma index_leader_fold:
  assumes "distinct (map ins_address is)"
    and "fold index_leader (enumerate 0 is) ([start], []) = (leaders, at)"
  shows "indexed is at \<and> ascending leaders \<and> insert start (falls is) \<subseteq> set leaders \<and>
    set leaders \<subseteq> insert start (falls is \<union> (targets is \<inter> ins_address ` set is))"
  using assms
proof (induction "is" arbitrary: leaders at rule: rev_induct)
  case Nil
  then have "leaders = [start]" "at = []" by simp_all
  then show ?case by (simp add: indexed_def falls_def)
next
  case (snoc i "is")
  obtain ls m where f: "fold index_leader (enumerate 0 is) ([start], []) = (ls, m)" by fastforce
  have IH: "indexed is m" "ascending ls" "insert start (falls is) \<subseteq> set ls"
    "set ls \<subseteq> insert start (falls is \<union> (targets is \<inter> ins_address ` set is))"
    using snoc.IH [OF _ f] snoc.prems(1) by simp_all
  let ?m = "put (ins_address i) (length is) m"
  have at: "indexed (is @ [i]) ?m" using indexed_put [OF IH(1) snoc.prems(1)] .
  have step: "index_leader (length is, i) (ls, m) = (leaders, at)"
    using snoc.prems(2) f by (simp add: enumerate_append_eq)
  note parts = index_leader_set [OF step]
  have *: "falls (is @ [i]) = falls is \<union> falls [i]" "targets (is @ [i]) = targets is \<union> targets [i]"
    by (auto simp: falls_def targets_def)
  have keys: "{t. om_find at t \<noteq> None} = ins_address ` set (is @ [i])"
    using indexed_found [OF at] unfolding parts(1) by blast
  have "insert start (falls (is @ [i])) \<subseteq> set leaders" using parts(3) IH(3) unfolding * by blast
  moreover have "set leaders \<subseteq> insert start (falls (is @ [i]) \<union> (targets (is @ [i]) \<inter> ins_address ` set (is @ [i])))"
    using parts(4) IH(4) unfolding * keys by auto
  ultimately show ?case using at parts(1,2) IH(2) by blast
qed

lemma target_leader_fold:
  assumes "ascending ls"
  shows "ascending (fold (target_leader start e) is ls) \<and>
    set (fold (target_leader start e) is ls) = set ls \<union> (targets is \<inter> {start..<e})"
  using assms
proof (induction "is" arbitrary: ls)
  case (Cons i "is")
  have "ascending (target_leader start e i ls)" "set (target_leader start e i ls) = set ls \<union> (targets [i] \<inter> {start..<e})"
    using Cons.prems by (auto simp: target_leader_def targets_def set_insort_insert split: option.splits)
  moreover have "targets (i # is) = targets [i] \<union> targets is" by (auto simp: targets_def)
  ultimately show ?case using Cons.IH [of "target_leader start e i ls"] by auto
qed (simp add: targets_def)

definition leader_set :: "u64 \<Rightarrow> u64 \<Rightarrow> Instruction list \<Rightarrow> u64 set" where
  "leader_set start e is = insert start ((targets is \<inter> {start..<e}) \<union>
     {after i | i. i \<in> set is \<and> ins_branch i \<and> \<not> ins_terminal i})"

lemma falls_after:
  assumes "laid_out a is"
  shows "falls is = {after i | i. i \<in> set is \<and> ins_branch i \<and> \<not> ins_terminal i}"
proof -
  have "checked_add (ins_address i) (ucast (ins_size i)) = Some (after i)" if "i \<in> set is" for i
    using laid_out_after(1) [OF assms] that by (auto simp: in_set_conv_nth)
  then show ?thesis unfolding falls_def by force
qed

lemma find_leaders_exact:
  assumes "laid_out a is" "unat e = unat a + code_offset is (length is)"
    and "find_leaders a e is = (leaders, at)"
  shows "indexed is at \<and> ascending leaders \<and> set leaders = leader_set a e is"
proof -
  obtain ls m where f: "fold index_leader (enumerate 0 is) ([a], []) = (ls, m)" by fastforce
  note first = index_leader_fold [OF laid_out_distinct [OF assms(1)] f]
  have "find_leaders a e is = (fold (target_leader a e) is ls, m)"
    using f by (simp add: find_leaders_def insort_insert_key_def)
  then have l: "leaders = fold (target_leader a e) is ls" "at = m" using assms(3) by simp_all
  have "ins_address ` set is \<subseteq> {a..<e}"
    using laid_out_unat [OF assms(1)] code_offset_less [OF assms(1)] assms(2)
    by (fastforce simp: in_set_conv_nth word_le_nat_alt word_less_nat_alt)
  then show ?thesis
    using first target_leader_fold [of ls a e "is"] falls_after [OF assms(1)]
    unfolding l leader_set_def by auto
qed

section \<open>Blocks\<close>

text \<open>The edges an instruction gives its block, and the instructions of a block joined to it.\<close>

definition exits :: "Instruction \<Rightarrow> ControlFlowEdge list" where
  "exits i =
    (case ins_target i of
       Some t \<Rightarrow> [\<lparr>edge_source = ins_address i, edge_target = t,
          edge_conditional = ins_branch i \<and> \<not> ins_terminal i \<and> \<not> ins_call i,
          edge_call = ins_call i, edge_fallthrough = False\<rparr>]
     | None \<Rightarrow> []) @
    (if stops i \<and> (\<not> ins_terminal i \<or> ins_call i)
     then [\<lparr>edge_source = ins_address i, edge_target = after i, edge_conditional = False,
            edge_call = False, edge_fallthrough = True\<rparr>]
     else [])"

lemma join_block_parts:
  "blk_begin (join_block i (after i) b) = blk_begin b"
  "blk_end (join_block i (after i) b) = after i"
  "blk_instruction_count (join_block i (after i) b) = blk_instruction_count b + 1"
  "blk_complete (join_block i (after i) b) \<longleftrightarrow> blk_complete b \<or> stops i"
  "blk_outgoing (join_block i (after i) b) = blk_outgoing b @ exits i"
  by (simp_all add: join_block_def exits_def stops_def)

abbreviation join_all :: "Instruction list \<Rightarrow> BasicBlockInfo \<Rightarrow> BasicBlockInfo" where
  "join_all \<equiv> fold (\<lambda>i. join_block i (after i))"

lemma join_all_parts:
  "blk_begin (join_all is b) = blk_begin b"
  "is \<noteq> [] \<Longrightarrow> blk_end (join_all is b) = after (last is)"
  "blk_instruction_count (join_all is b) = blk_instruction_count b + of_nat (length is)"
  "blk_complete (join_all is b) \<longleftrightarrow> blk_complete b \<or> (\<exists>i \<in> set is. stops i)"
  "blk_outgoing (join_all is b) = blk_outgoing b @ concat (map exits is)"
  by (induction "is" arbitrary: b) (auto simp: join_block_parts)

text \<open>
  The instructions a block takes from \<open>xs\<close>: all up to the first branch or terminal instruction or the
  next leader, but at least one.
\<close>

definition run_of :: "u64 \<Rightarrow> Instruction list \<Rightarrow> Instruction list \<Rightarrow> Instruction list \<Rightarrow> bool" where
  "run_of next_leader xs run rest \<longleftrightarrow> xs = run @ rest \<and> run \<noteq> [] \<and>
     (\<forall>i \<in> set (butlast run). \<not> stops i) \<and> (\<forall>i \<in> set (tl run). ins_address i < next_leader) \<and>
     (rest \<noteq> [] \<longrightarrow> \<not> stops (last run) \<longrightarrow> next_leader \<le> ins_address (hd rest))"

lemma grow_block_going:
  assumes "\<forall>i \<in> set xs. checked_add (ins_address i) (ucast (ins_size i)) = Some (after i)"
    and "blk_instruction_count b \<noteq> 0" "unat (blk_instruction_count b) + length xs < 2 ^ 32"
  shows "\<exists>run rest. xs = run @ rest \<and> grow_block next_leader xs b = Inr (join_all run b) \<and>
    (\<forall>i \<in> set (butlast run). \<not> stops i) \<and> (\<forall>i \<in> set run. ins_address i < next_leader) \<and>
    (rest \<noteq> [] \<longrightarrow> (run = [] \<or> \<not> stops (last run)) \<longrightarrow> next_leader \<le> ins_address (hd rest))"
  using assms
proof (induction xs arbitrary: b)
  case (Cons i xs)
  show ?case
  proof (cases "ins_address i \<ge> next_leader")
    case True
    then show ?thesis using Cons.prems by (intro exI [of _ "[]"] exI [of _ "i # xs"]) simp
  next
    case low: False
    let ?b = "join_block i (after i) b"
    show ?thesis
    proof (cases "stops i")
      case True
      then show ?thesis using Cons.prems low
        by (intro exI [of _ "[i]"] exI [of _ xs]) (simp add: stops_def)
    next
      case False
      have "unat (blk_instruction_count b + 1) = unat (blk_instruction_count b) + 1"
        using Cons.prems by (subst unat_plus_bounded) simp_all
      then have "blk_instruction_count ?b \<noteq> 0" "unat (blk_instruction_count ?b) + length xs < 2 ^ 32"
        using Cons.prems by (auto simp: join_block_parts)
      from Cons.IH [OF _ this] Cons.prems(1) obtain run rest where r: "xs = run @ rest"
          "grow_block next_leader xs ?b = Inr (join_all run ?b)" "\<forall>i \<in> set (butlast run). \<not> stops i"
          "\<forall>i \<in> set run. ins_address i < next_leader"
          "rest \<noteq> [] \<longrightarrow> (run = [] \<or> \<not> stops (last run)) \<longrightarrow> next_leader \<le> ins_address (hd rest)"
        by (auto simp only: list.set simp_thms ball_simps insert_iff)
      then show ?thesis using Cons.prems low False
        by (intro exI [of _ "i # run"] exI [of _ rest]) (auto simp: stops_def)
    qed
  qed
qed simp

lemma grow_block_run:
  assumes "\<forall>i \<in> set xs. checked_add (ins_address i) (ucast (ins_size i)) = Some (after i)"
    and "xs \<noteq> []" "length xs < 2 ^ 32"
  shows "\<exists>run rest. run_of next_leader xs run rest \<and>
    grow_block next_leader xs (new_block leader) = Inr (join_all run (new_block leader))"
proof -
  obtain i ys where xs: "xs = i # ys" using assms(2) by (cases xs) auto
  let ?b = "join_block i (after i) (new_block leader)"
  have b: "blk_instruction_count ?b = 1" by (simp add: join_block_parts new_block_def)
  show ?thesis
  proof (cases "stops i")
    case True
    then show ?thesis using assms xs
      by (intro exI [of _ "[i]"] exI [of _ ys]) (simp add: run_of_def stops_def new_block_def)
  next
    case False
    have "grow_block next_leader xs (new_block leader) = grow_block next_leader ys ?b"
      using assms False xs by (simp add: stops_def new_block_def)
    moreover obtain run rest where r: "ys = run @ rest"
        "grow_block next_leader ys ?b = Inr (join_all run ?b)" "\<forall>i \<in> set (butlast run). \<not> stops i"
        "\<forall>i \<in> set run. ins_address i < next_leader"
        "rest \<noteq> [] \<longrightarrow> (run = [] \<or> \<not> stops (last run)) \<longrightarrow> next_leader \<le> ins_address (hd rest)"
      using grow_block_going [of ys ?b next_leader] assms xs b by auto
    ultimately show ?thesis using False xs
      by (intro exI [of _ "i # run"] exI [of _ rest]) (auto simp: run_of_def)
  qed
qed

text \<open>
  The block of the instructions \<open>k..<m\<close> when the leaders are \<open>ls\<close> and the code ends at \<open>e\<close>: it is
  left in its middle neither by a branch nor across a leader, it goes on as far as that allows, and its
  edges are those of its last instruction, or the one into the next leader it runs up to.
\<close>

definition leader_after :: "u64 list \<Rightarrow> u64 \<Rightarrow> u64 \<Rightarrow> u64" where
  "leader_after ls e l = (case filter ((<) l) ls of [] \<Rightarrow> e | x # _ \<Rightarrow> x)"

definition basic_block ::
    "Instruction list \<Rightarrow> u64 list \<Rightarrow> u64 \<Rightarrow> nat \<Rightarrow> nat \<Rightarrow> BasicBlockInfo \<Rightarrow> bool" where
  "basic_block is ls e k m b \<longleftrightarrow>
     (let next_leader = leader_after ls e (ins_address (is ! k)); final = is ! (m - 1) in
      k < m \<and> m \<le> length is \<and> blk_begin b = ins_address (is ! k) \<and> blk_end b = after final \<and>
      blk_instruction_count b = of_nat (m - k) \<and> blk_complete b = stops final \<and>
      (\<forall>x. k \<le> x \<and> Suc x < m \<longrightarrow> \<not> stops (is ! x) \<and> ins_address (is ! Suc x) < next_leader) \<and>
      (m < length is \<longrightarrow> \<not> stops final \<longrightarrow> next_leader \<le> ins_address (is ! m)) \<and>
      blk_outgoing b = exits final @
        (if \<not> stops final \<and> after final = next_leader
         then [\<lparr>edge_source = after final, edge_target = next_leader, edge_conditional = False,
                edge_call = False, edge_fallthrough = True\<rparr>]
         else []))"

definition targets_branch :: "Instruction list \<Rightarrow> bool" where
  "targets_branch is \<longleftrightarrow> (\<forall>i \<in> set is. ins_target i \<noteq> None \<longrightarrow> ins_branch i)"

lemma exits_none: "\<not> stops i \<Longrightarrow> (ins_target i \<noteq> None \<longrightarrow> ins_branch i) \<Longrightarrow> exits i = []"
  by (auto simp: exits_def stops_def)

lemma exits_of_run:
  assumes "\<forall>i \<in> set (butlast run). \<not> stops i" "run \<noteq> []" "targets_branch run"
  shows "concat (map exits run) = exits (last run)"
proof -
  have "run = butlast run @ [last run]" using assms(2) by simp
  moreover have "\<forall>i \<in> set (butlast run). exits i = []"
    using assms exits_none in_set_butlastD [of _ run] unfolding targets_branch_def by blast
  then have "concat (map exits (butlast run)) = []" by simp
  ultimately show ?thesis by (metis append_Nil concat_append concat.simps map_append list.map append_Nil2)
qed

lemma block_of_run:
  assumes "run_of next_leader (drop k is) run rest" "targets_branch is" "k < length is"
    and "leader_after ls e (ins_address (is ! k)) = next_leader"
  shows "basic_block is ls e k (k + length run)
    (close_block next_leader (join_all run (new_block (ins_address (is ! k)))))"
proof -
  let ?m = "k + length run"
  have d: "drop k is = run @ rest" and ne: "run \<noteq> []" using assms(1) by (simp_all add: run_of_def)
  have m: "?m \<le> length is" using d assms(3) by (metis append_take_drop_id le_add1 length_append length_take
      add.assoc min.absorb2 less_imp_le)
  have nth: "is ! (k + x) = run ! x" if "x < length run" for x
    using nth_drop [of k "is" x] d that assms(3) by (simp add: nth_append)
  have "k + length run - 1 = k + (length run - 1)" using ne by (cases run) simp_all
  then have final: "last run = is ! (?m - 1)"
    using nth [of "length run - 1"] ne by (simp add: last_conv_nth)
  have inside: "\<not> stops (is ! x) \<and> ins_address (is ! Suc x) < next_leader" if "k \<le> x" "Suc x < ?m" for x
  proof -
    let ?j = "x - k"
    have j: "Suc ?j < length run" using that by simp
    then have "run ! ?j \<in> set (butlast run)" by (metis in_set_conv_nth length_butlast less_diff_conv nth_butlast
        Suc_eq_plus1)
    moreover have "run ! Suc ?j \<in> set (tl run)" using j by (metis Suc_lessE diff_Suc_1 length_tl nth_mem nth_tl
        less_diff_conv Suc_eq_plus1)
    ultimately show ?thesis using assms(1) nth [of ?j] nth [of "Suc ?j"] j that by (simp add: run_of_def)
  qed
  have beyond: "next_leader \<le> ins_address (is ! ?m)" if "?m < length is" "\<not> stops (last run)"
  proof -
    have "length is - k = length run + length rest" using arg_cong [OF d, of length] by simp
    then have "rest \<noteq> []" using that(1) by auto
    moreover from this have "hd rest = is ! ?m"
      using d nth_drop [of k "is" "length run"] assms(3) by (simp add: hd_conv_nth nth_append)
    ultimately show ?thesis using assms(1) that(2) by (simp add: run_of_def)
  qed
  have "targets_branch run" using assms(2) d by (metis Un_iff in_set_dropD set_append targets_branch_def)
  then have outs: "concat (map exits run) = exits (last run)"
    using assms(1) ne by (intro exits_of_run) (simp_all add: run_of_def)
  have complete: "(\<exists>i \<in> set run. stops i) \<longleftrightarrow> stops (last run)"
  proof -
    have "set run = insert (last run) (set (butlast run))"
      by (metis append_butlast_last_id list.set ne set_append Un_insert_right Un_empty_right)
    then show ?thesis using assms(1) by (auto simp: run_of_def)
  qed
  have b: "blk_begin (join_all run (new_block (ins_address (is ! k)))) = ins_address (is ! k)"
    "blk_end (join_all run (new_block (ins_address (is ! k)))) = after (last run)"
    "blk_instruction_count (join_all run (new_block (ins_address (is ! k)))) = of_nat (length run)"
    "blk_complete (join_all run (new_block (ins_address (is ! k)))) = stops (last run)"
    "blk_outgoing (join_all run (new_block (ins_address (is ! k)))) = exits (last run)"
    using ne outs complete by (simp_all add: join_all_parts new_block_def)
  show ?thesis
    unfolding basic_block_def Let_def assms(4)
    using ne m inside beyond final b by (auto simp: close_block_def)
qed

section \<open>All blocks\<close>

lemma leader_after_suffix:
  assumes "ascending (pre @ l # ls)"
  shows "leader_after (pre @ l # ls) e l = (case ls of [] \<Rightarrow> e | x # _ \<Rightarrow> x)"
proof -
  have "filter ((<) l) pre = []" using assms by (auto simp: sorted_wrt_append filter_empty_conv)
  moreover have "filter ((<) l) ls = ls" using assms by (simp add: sorted_wrt_append filter_id_conv)
  ultimately show ?thesis by (simp add: leader_after_def)
qed

definition blocks_of ::
    "Instruction list \<Rightarrow> u64 list \<Rightarrow> u64 \<Rightarrow> u64 list \<Rightarrow> (nat \<times> nat) list \<Rightarrow> BasicBlockInfo list \<Rightarrow> bool" where
  "blocks_of is all e ls spans blocks \<longleftrightarrow>
     list_all2 (\<lambda>(k, m). basic_block is all e k m) spans blocks \<and>
     map (\<lambda>(k, m). ins_address (is ! k)) spans = filter (\<lambda>l. l \<in> ins_address ` set is) ls \<and>
     sorted_wrt (\<lambda>(k, m) (k', m'). m \<le> k') spans"

lemma blocks_of_span:
  assumes "blocks_of is all e ls spans blocks" "(k, m) \<in> set spans"
  shows "k < m \<and> m \<le> length is"
proof -
  obtain j where j: "j < length spans" "spans ! j = (k, m)" using assms(2) by (auto simp: in_set_conv_nth)
  have "list_all2 (\<lambda>(k, m). basic_block is all e k m) spans blocks" using assms(1) by (simp add: blocks_of_def)
  from list_all2_nthD [OF this j(1)] show ?thesis by (simp add: j(2) basic_block_def Let_def)
qed

lemma block_before_leader:
  assumes "laid_out a is" "basic_block is all e k m b" "k' < length is"
    and "ins_address (is ! k) < ins_address (is ! k')" "leader_after all e (ins_address (is ! k)) \<le> ins_address (is ! k')"
  shows "m \<le> k'"
proof (rule ccontr)
  assume "\<not> m \<le> k'"
  then have km: "k < k'" "k' < m" "k < length is"
    using assms address_less_iff [OF assms(1), of k k'] by (auto simp: basic_block_def Let_def)
  then obtain x where x: "k' = Suc x" "k \<le> x" by (cases k') auto
  then have "ins_address (is ! k') < leader_after all e (ins_address (is ! k))"
    using assms(2) km by (simp add: basic_block_def Let_def)
  then show False using assms(5) by simp
qed

lemma build_blocks_exact:
  assumes "laid_out a is" "targets_branch is" "indexed is at" "length is < 2 ^ 32"
    and "ascending all" "all = pre @ ls"
  shows "\<exists>spans blocks. build_blocks e at is ls = Inr blocks \<and> blocks_of is all e ls spans blocks"
  using assms(6)
proof (induction ls arbitrary: pre)
  case Nil
  show ?case by (intro exI [of _ "[]"]) (simp add: blocks_of_def)
next
  case (Cons l ls)
  let ?next = "case ls of [] \<Rightarrow> e | x # _ \<Rightarrow> x"
  from Cons.IH [of "pre @ [l]"] Cons.prems obtain spans blocks where
    tail: "build_blocks e at is ls = Inr blocks" "blocks_of is all e ls spans blocks" by auto
  show ?case
  proof (cases "om_find at l")
    case None
    then have "l \<notin> ins_address ` set is" using indexed_found [OF assms(3)] by blast
    then show ?thesis using None tail by (intro exI [of _ spans]) (simp add: blocks_of_def)
  next
    case (Some k)
    then have k: "k < length is" "ins_address (is ! k) = l" using assms(3) by (simp_all add: indexed_def)
    have nl: "leader_after all e (ins_address (is ! k)) = ?next"
      using leader_after_suffix assms(5) unfolding Cons.prems k(2) by blast
    have "\<forall>i \<in> set (drop k is). checked_add (ins_address i) (ucast (ins_size i)) = Some (after i)"
      using laid_out_after(1) [OF assms(1)] by (auto simp: in_set_conv_nth)
    moreover have "drop k is \<noteq> []" "length (drop k is) < 2 ^ 32" using k(1) assms(4) by simp_all
    ultimately obtain run rest where run: "run_of ?next (drop k is) run rest"
        "grow_block ?next (drop k is) (new_block l) = Inr (join_all run (new_block l))"
      using grow_block_run [of "drop k is" ?next l] by blast
    let ?b = "close_block ?next (join_all run (new_block l))" and ?m = "k + length run"
    have b: "basic_block is all e k ?m ?b" using block_of_run [OF run(1) assms(2) k(1) nl] unfolding k(2) .
    have built: "build_blocks e at is (l # ls) = Inr (?b # blocks)"
      using Some run(2) tail(1) by (simp add: Let_def)
    have "?m \<le> fst s" if "s \<in> set spans" for s
    proof (cases s)
      case (Pair k' m')
      have "k' < length is" using blocks_of_span [OF tail(2)] that Pair by fastforce
      moreover have "ins_address (is ! k') \<in> set ls"
      proof -
        have "ins_address (is ! k') \<in> set (map (\<lambda>(k, m). ins_address (is ! k)) spans)"
          using that Pair by force
        moreover have "map (\<lambda>(k, m). ins_address (is ! k)) spans = filter (\<lambda>l. l \<in> ins_address ` set is) ls"
          using tail(2) by (simp add: blocks_of_def)
        ultimately show ?thesis by simp
      qed
      moreover from this have "l < ins_address (is ! k')" "?next \<le> ins_address (is ! k')"
        using assms(5) unfolding Cons.prems
        by (auto simp: sorted_wrt_append less_imp_le split: list.splits)
      ultimately show ?thesis
        using block_before_leader [OF assms(1) b, of k'] k(2) nl Pair by simp
    qed
    then have "blocks_of is all e (l # ls) ((k, ?m) # spans) (?b # blocks)"
      using tail(2) b k by (auto simp: blocks_of_def)
    then show ?thesis using built by blast
  qed
qed

section \<open>The report\<close>

context disassembler
begin

lemma decodes_laid_out:
  assumes "decodes decode d a is n" "n \<le> length d" "unat a + n < 2 ^ 64"
  shows "laid_out a is" and "targets_branch is" and "code_offset is (length is) = n"
proof -
  have at: "instruction_at (drop (code_offset is k) d) (a + of_nat (code_offset is k)) (is ! k)"
    if "k < length is" for k using decodes_at [OF assms(1) that] .
  show n: "code_offset is (length is) = n" using assms(1) by (rule decodes_length)
  show "laid_out a is" using at assms(3) by (auto simp: laid_out_def n instruction_at_def)
  show "targets_branch is" using at by (auto simp: targets_branch_def in_set_conv_nth instruction_at_def)
qed

text \<open>After the sweep nothing fails, and the blocks are those of its instructions.\<close>

lemma analyze_after_sweep:
  assumes "sweep (unat (max_disassembly_instructions limits)) decode data a 0 [] = Inr (n, is, warnings)"
    and "checked_add a (of_nat n) = Some e" "length data < 2 ^ 64"
  shows "\<exists>r spans. analyze_code limits decode (Some data) a = Inr r \<and> dis_start r = a \<and> dis_end r = e \<and>
    dis_bytes_decoded r = of_nat n \<and> dis_instructions r = is \<and>
    dis_warnings r = warnings @ (if length is \<ge> unat (max_disassembly_instructions limits) \<and> n < length data
      then [''instruction limit reached''] else []) \<and>
    blocks_of is (sorted_list_of_set (leader_set a e is)) e (sorted_list_of_set (leader_set a e is)) spans
      (dis_blocks r)"
proof -
  let ?limit = "unat (max_disassembly_instructions limits)"
  have s: "decodes decode data a is n" "n \<le> length data" "length is \<le> ?limit"
    using sweep_sound [OF assms(1)] by simp_all
  have n: "unat (of_nat n :: u64) = n" using s(2) assms(3) by (intro unat_of_nat_u64) simp
  then have e: "unat e = unat a + n" using assms(2) by (simp add: add_op.Some_iff)
  then have "unat a + n < 2 ^ 64" using unat_u64_bound [of e] by simp
  note laid = decodes_laid_out [OF s(1,2) this]
  obtain leaders at where f: "find_leaders a e is = (leaders, at)" by fastforce
  have l: "indexed is at" "ascending leaders" "set leaders = leader_set a e is"
    using find_leaders_exact [OF laid(1) _ f] e laid(3) by simp_all
  have "length is < 2 ^ 32" using s(3) unat_u32_bound [of "max_disassembly_instructions limits"] by simp
  then obtain spans blocks where b: "build_blocks e at is leaders = Inr blocks"
      "blocks_of is leaders e leaders spans blocks"
    using build_blocks_exact [OF laid(1,2) l(1) _ l(2), of "[]" leaders e] by auto
  have "leaders = sorted_list_of_set (leader_set a e is)"
    using l(2,3) by (metis strict_sorted_iff sorted_list_of_set.idem_if_sorted_distinct)
  moreover obtain r where "analyze_code limits decode (Some data) a = Inr r" and
      "r = \<lparr>dis_start = a, dis_end = e, dis_bytes_decoded = of_nat n, dis_instructions = is, dis_blocks = blocks,
        dis_warnings = warnings @ (if length is \<ge> ?limit \<and> n < length data
          then [''instruction limit reached''] else [])\<rparr>"
    using b(1) f assms(1,2) by (simp add: analyze_code_def Let_def)
  ultimately show ?thesis using b(2) by (intro exI [of _ r] exI [of _ spans]) simp
qed

lemma analyze_parts:
  assumes "analyze_code limits decode (Some data) a = Inr r" "length data < 2 ^ 64"
  shows "\<exists>n is warnings e. sweep (unat (max_disassembly_instructions limits)) decode data a 0 [] = Inr (n, is, warnings) \<and>
    checked_add a (of_nat n) = Some e"
  using assms(1) by (auto simp: analyze_code_def Let_def split: sum.splits option.splits prod.splits)

lemma analyze_covers:
  assumes "analyze_code limits decode (Some data) a = Inr r" "length data < 2 ^ 64"
  shows "\<exists>n. unat (dis_bytes_decoded r) = n \<and> dis_start r = a \<and> unat (dis_end r) = unat a + n \<and> n \<le> length data \<and>
    decodes decode data a (dis_instructions r) n \<and> concat (map code_of (dis_instructions r)) = take n data \<and>
    length (dis_instructions r) \<le> unat (max_disassembly_instructions limits) \<and>
    (n < length data \<longrightarrow>
       length (dis_instructions r) = unat (max_disassembly_instructions limits) \<and>
         dis_warnings r = [''instruction limit reached''] \<or>
       (\<exists>e. decode (Some (drop n data)) (dis_end r) = Inl e \<and>
         dis_warnings r = [''decode stopped at '' @ to_string (unat (dis_end r)) @ '': '' @ err_message e]))"
proof -
  obtain n "is" warnings e where s: "sweep (unat (max_disassembly_instructions limits)) decode data a 0 [] = Inr (n, is, warnings)"
      "checked_add a (of_nat n) = Some e"
    using analyze_parts [OF assms] by blast
  note sound = sweep_sound [OF s(1)]
  have d: "decodes decode data a is n" "n \<le> length data" using sound by simp_all
  have n: "unat (of_nat n :: u64) = n" using d(2) assms(2) by (intro unat_of_nat_u64) simp
  then have e: "unat e = unat a + n" using s(2) by (simp add: add_op.Some_iff)
  have e': "e = a + of_nat n" using s(2) by (simp add: checked_add_def split: if_splits)
  show ?thesis
    using analyze_after_sweep [OF s assms(2)] assms(1) sound decodes_bytes [OF d] n e e'
    by (auto simp: sweep_ends_def split: if_splits)
qed

lemma analyze_returns:
  assumes "unat a + length data < 2 ^ 64"
  shows "\<exists>r. analyze_code limits decode (Some data) a = Inr r"
proof -
  obtain n "is" warnings where s: "sweep (unat (max_disassembly_instructions limits)) decode data a 0 [] = Inr (n, is, warnings)"
    using sweep_returns [OF assms] by (metis prod_cases3)
  have n: "n \<le> length data" using sweep_sound [OF s] by simp
  then have "unat (of_nat n :: u64) = n" using assms by (intro unat_of_nat_u64) simp
  then obtain e where "checked_add a (of_nat n) = Some e"
    using n assms add_op.SomeI [of a "of_nat n"] by force
  then show ?thesis using analyze_after_sweep [OF s] assms by auto
qed

lemma analyze_blocks:
  assumes "analyze_code limits decode (Some data) a = Inr r" "length data < 2 ^ 64"
  shows "\<exists>spans. blocks_of (dis_instructions r)
    (sorted_list_of_set (leader_set a (dis_end r) (dis_instructions r))) (dis_end r)
    (sorted_list_of_set (leader_set a (dis_end r) (dis_instructions r))) spans (dis_blocks r)"
proof -
  obtain n "is" warnings e where s: "sweep (unat (max_disassembly_instructions limits)) decode data a 0 [] = Inr (n, is, warnings)"
      "checked_add a (of_nat n) = Some e"
    using analyze_parts [OF assms] by blast
  show ?thesis using analyze_after_sweep [OF s assms(2)] assms(1) by auto
qed

end

section \<open>The decoders of the library\<close>

definition library_decoders :: "decoder set" where
  "library_decoders = {x86_decode, arm64_decode, riscv_decode True, riscv_decode False}"

lemma arm64_decodes_words: "decodes arm64_decode d a is n \<Longrightarrow> n = 4 * length is"
proof (induction "is" arbitrary: d a n)
  case (Cons i "is")
  then have "arm64_decode (Some d) a = Inr i" by simp
  then have "from_prefix 4 d a i" by (auto simp: arm64_decode_def from_prefix_arm64 split: if_splits)
  then have "size_of i = 4" by (simp add: from_prefix_def)
  then show ?case using Cons by fastforce
qed simp

lemma arm64_sweep_all:
  assumes "analyze_code limits arm64_decode (Some data) a = Inr r" "length data < 2 ^ 64" "4 dvd length data"
    and "length data div 4 \<le> unat (max_disassembly_instructions limits)"
  shows "unat (dis_bytes_decoded r) = length data"
proof -
  define n where "n = unat (dis_bytes_decoded r)"
  have c: "n \<le> length data" "decodes arm64_decode data a (dis_instructions r) n"
    "n < length data \<Longrightarrow> length (dis_instructions r) = unat (max_disassembly_instructions limits) \<or>
       (\<exists>e. arm64_decode (Some (drop n data)) (dis_end r) = Inl e)"
    using arm64.analyze_covers [OF assms(1,2)] unfolding n_def by auto
  have n: "n = 4 * length (dis_instructions r)" using arm64_decodes_words [OF c(2)] .
  have "\<not> n < length data"
  proof
    assume less: "n < length data"
    then have "length (dis_instructions r) < length data div 4" using n assms(3) by auto
    then obtain e where "arm64_decode (Some (drop n data)) (dis_end r) = Inl e" using c(3) [OF less] assms(4) by auto
    then have "length data - n < 4" by (auto simp: arm64_decode_def split: if_splits)
    then show False using less n assms(3) by auto
  qed
  then show ?thesis using c(1) unfolding n_def by simp
qed

text \<open>
  The sweep with any decoder of the library covers the code without a gap: the instructions are what
  the decoder gives one after the other from the start, their bytes together are the bytes decoded, the
  end of the report is the address after them, and a report that stops short says so, because the limit
  is reached or because the decoder refuses the bytes at its end.
\<close>

theorem disassembly_covers:
  assumes "decode \<in> library_decoders" "length data < 2 ^ 64"
    and "analyze_code limits decode (Some data) a = Inr r"
  shows "\<exists>n. unat (dis_bytes_decoded r) = n \<and> dis_start r = a \<and> unat (dis_end r) = unat a + n \<and> n \<le> length data \<and>
    decodes decode data a (dis_instructions r) n \<and> concat (map code_of (dis_instructions r)) = take n data \<and>
    length (dis_instructions r) \<le> unat (max_disassembly_instructions limits) \<and>
    (n < length data \<longrightarrow>
       length (dis_instructions r) = unat (max_disassembly_instructions limits) \<and>
         dis_warnings r = [''instruction limit reached''] \<or>
       (\<exists>e. decode (Some (drop n data)) (dis_end r) = Inl e \<and>
         dis_warnings r = [''decode stopped at '' @ to_string (unat (dis_end r)) @ '': '' @ err_message e]))"
proof -
  consider "decode = x86_decode" | "decode = arm64_decode" | c where "decode = riscv_decode c"
    using assms(1) by (auto simp: library_decoders_def)
  then show ?thesis
    using assms(2,3) by cases (simp_all only: x86.analyze_covers arm64.analyze_covers riscv.analyze_covers)
qed

definition demo_code :: bytes where
  \<comment> \<open>\<open>je\<close> over the \<open>ret\<close>, \<open>ret\<close>, \<open>push\<close>, \<open>call\<close> to the start, \<open>pop\<close>, a cut \<open>jmp\<close>\<close>
  "demo_code = [0x74, 0x01, 0xc3, 0x55, 0xe8, 0xf7, 0xff, 0xff, 0xff, 0x5d, 0xe9, 0x00]"

definition demo_report :: "Error + DisassemblyReport" where
  "demo_report = analyze_code demo_limits x86_decode (Some demo_code) 16"

lemma demo_report_facts:
  "case demo_report of Inl _ \<Rightarrow> False | Inr r \<Rightarrow> dis_bytes_decoded r = 10 \<and>
     map blk_begin (dis_blocks r) = [16, 18, 19, 25]"
  by code_simp

lemma demo_report_found:
  "\<exists>r. demo_report = Inr r \<and> dis_bytes_decoded r = 10 \<and> map blk_begin (dis_blocks r) = [16, 18, 19, 25]"
proof (cases demo_report)
  case (Inl e)
  show ?thesis using demo_report_facts unfolding Inl sum.case by blast
next
  case (Inr r)
  show ?thesis using demo_report_facts unfolding Inr sum.case by (intro exI [of _ r]) simp
qed

theorem disassembly_covers_witness:
  "\<exists>r. analyze_code demo_limits x86_decode (Some demo_code) 16 = Inr r \<and>
    concat (map code_of (dis_instructions r)) = take 10 demo_code"
proof -
  obtain r where r: "demo_report = Inr r" "dis_bytes_decoded r = 10" using demo_report_found by blast
  have "x86_decode \<in> library_decoders" "length demo_code < 2 ^ 64"
    by (simp_all add: library_decoders_def demo_code_def)
  from disassembly_covers [OF this r(1) [unfolded demo_report_def]] r show ?thesis
    by (auto simp: demo_report_def)
qed

text \<open>
  C19. The basic blocks of a report are exactly the runs the leaders define. The leaders are the start,
  the branch targets inside the code and the addresses after branches that are not terminal; every one
  that is the address of an instruction begins a block, in order and without overlap, and each block is
  left only by its last instruction, goes on as far as it can, and has the edges of that instruction.
\<close>

theorem disassembly_blocks:
  assumes "decode \<in> library_decoders" "length data < 2 ^ 64"
    and "analyze_code limits decode (Some data) a = Inr r"
  shows "\<exists>spans. blocks_of (dis_instructions r)
    (sorted_list_of_set (leader_set a (dis_end r) (dis_instructions r))) (dis_end r)
    (sorted_list_of_set (leader_set a (dis_end r) (dis_instructions r))) spans (dis_blocks r)"
proof -
  consider "decode = x86_decode" | "decode = arm64_decode" | c where "decode = riscv_decode c"
    using assms(1) by (auto simp: library_decoders_def)
  then show ?thesis
    using assms(2,3) by cases (simp_all only: x86.analyze_blocks arm64.analyze_blocks riscv.analyze_blocks)
qed

theorem disassembly_blocks_witness:
  "\<exists>r spans. analyze_code demo_limits x86_decode (Some demo_code) 16 = Inr r \<and> length (dis_blocks r) = 4 \<and>
    blocks_of (dis_instructions r)
      (sorted_list_of_set (leader_set 16 (dis_end r) (dis_instructions r))) (dis_end r)
      (sorted_list_of_set (leader_set 16 (dis_end r) (dis_instructions r))) spans (dis_blocks r)"
proof -
  obtain r where r: "demo_report = Inr r" "dis_bytes_decoded r = 10" "map blk_begin (dis_blocks r) = [16, 18, 19, 25]"
    using demo_report_found by (elim exE conjE)
  have "x86_decode \<in> library_decoders" "length demo_code < 2 ^ 64"
    by (simp_all add: library_decoders_def demo_code_def)
  from disassembly_blocks [OF this r(1) [unfolded demo_report_def]] obtain spans where
    "blocks_of (dis_instructions r)
      (sorted_list_of_set (leader_set 16 (dis_end r) (dis_instructions r))) (dis_end r)
      (sorted_list_of_set (leader_set 16 (dis_end r) (dis_instructions r))) spans (dis_blocks r)" ..
  moreover have "length (dis_blocks r) = 4" using arg_cong [OF r(3), of length] by simp
  moreover note r(1) [unfolded demo_report_def]
  ultimately show ?thesis by (intro exI conjI)
qed

text \<open>
  C20. An analysis always ends with a report: with any decoder of the library, whenever the addresses of
  the code fit in 64 bits, and whole words of ARM64 code within the instruction limit are all decoded.
\<close>

theorem disassembly_returns:
  assumes "decode \<in> library_decoders" "unat a + length data < 2 ^ 64"
  shows "\<exists>r. analyze_code limits decode (Some data) a = Inr r \<and>
    (decode = arm64_decode \<and> 4 dvd length data \<and>
       length data div 4 \<le> unat (max_disassembly_instructions limits) \<longrightarrow>
     unat (dis_bytes_decoded r) = length data)"
proof -
  consider "decode = x86_decode" | "decode = arm64_decode" | c where "decode = riscv_decode c"
    using assms(1) by (auto simp: library_decoders_def)
  then have "\<exists>r. analyze_code limits decode (Some data) a = Inr r"
    using assms(2) by cases (simp_all only: x86.analyze_returns arm64.analyze_returns riscv.analyze_returns)
  then obtain r where "analyze_code limits decode (Some data) a = Inr r" by blast
  moreover have "length data < 2 ^ 64" using assms(2) by simp
  ultimately show ?thesis using arm64_sweep_all [of limits data a r] by blast
qed

theorem disassembly_returns_witness:
  "\<exists>r. analyze_code demo_limits arm64_decode (Some (replicate 8 0)) 0xfffffffffffffff0 = Inr r \<and>
    unat (dis_bytes_decoded r) = 8"
proof -
  have "arm64_decode \<in> library_decoders" "unat (0xfffffffffffffff0 :: u64) + length (replicate 8 (0 :: u8)) < 2 ^ 64"
    "4 dvd length (replicate 8 (0 :: u8))"
    "length (replicate 8 (0 :: u8)) div 4 \<le> unat (max_disassembly_instructions demo_limits)"
    by (simp_all add: library_decoders_def demo_limits_def)
  then show ?thesis using disassembly_returns [of arm64_decode "0xfffffffffffffff0" "replicate 8 0" demo_limits] by auto
qed

section \<open>A leader inside an instruction\<close>

text \<open>
  A branch into the middle of a four-byte instruction makes that address a leader. The block that runs
  over it ends there without an edge, and the instructions after it belong to no block at all: here the
  code is \<open>addi\<close> (at 0), \<open>addi\<close> (at 4) and a branch at 8 to address 2.
\<close>

lemma code_after_split_instruction_lost:
  "map_sum id (\<lambda>r. (map ins_address (dis_instructions r), map (\<lambda>b. (blk_begin b, blk_end b, blk_outgoing b)) (dis_blocks r)))
     (analyze_code demo_limits (riscv_decode True)
       (Some [0x13, 0, 0, 0, 0x13, 0, 0, 0, 0xe3, 0x0d, 0x00, 0xfe]) 0) =
   Inr ([0, 4, 8], [(0, 4, [])])"
  by code_simp

end
