(* ===== verification/Branch_Targets.thy ===== *)
theory Branch_Targets
  imports Basic_Blocks
begin

unbundle bit_operations_syntax

text \<open>
  Where branches go: \<open>sign_extend\<close> is sign extension, and the decoders recover from an instruction
  the offset that the encodings of the two instruction sets scatter over it. The encoders stand for
  the instruction-set manuals; they are the specification here, not part of the code.
\<close>

section \<open>Sign extension\<close>

lemma sign_extend_signed:
  assumes "0 < b" "b \<le> 64" "\<And>n. b \<le> n \<Longrightarrow> \<not> bit v n"
  shows "sign_extend v b = signed_take_bit (b - 1) v"
proof -
  define s :: u64 where "s = push_bit (b - 1) 1"
  have s: "bit s n \<longleftrightarrow> n = b - 1" for n :: nat using assms(1,2) by (auto simp: s_def bit_simps)
  have eq: "sign_extend v b = (v XOR s) - s" by (simp only: sign_extend_def s_def Let_def)
  have low: "bit v n \<Longrightarrow> n < b" for n using assms(3) not_less by blast
  have extended: "bit (signed_take_bit (b - 1) v) n \<longleftrightarrow> bit v n \<or> b - 1 \<le> n \<and> n < 64 \<and> bit v (b - 1)" for n :: nat
  proof -
    have "n = b - 1" if "b - 1 \<le> n" "n < b" using that by simp
    then show ?thesis using low [of n] bit_imp_le_length [of v n] by (auto simp: bit_simps min_def)
  qed
  show ?thesis
  proof (cases "bit v (b - 1)")
    case False
    have "v AND s = 0" using False by (intro bit_word_eqI) (auto simp: s bit_and_iff)
    then have "sign_extend v b = v" unfolding eq by (simp flip: disjunctive_add_eq_xor)
    moreover have "signed_take_bit (b - 1) v = v" using False by (intro bit_word_eqI) (simp add: extended del: One_nat_def)
    ultimately show ?thesis by simp
  next
    case True
    let ?u = "v XOR s"
    have "?u AND NOT (mask (b - 1)) = 0"
    proof (rule bit_word_eqI)
      fix n assume "n < LENGTH(64)"
      then show "bit (?u AND NOT (mask (b - 1))) n = bit (0 :: u64) n"
        using True low [of n] assms(1) by (auto simp: bit_and_iff bit_xor_iff bit_not_iff bit_mask_iff s)
    qed
    moreover have "- s = NOT (mask (b - 1))"
      by (simp add: s_def push_bit_eq_mult mask_eq_exp_minus_1 not_eq_complement)
    ultimately have "sign_extend v b = ?u OR NOT (mask (b - 1))"
      using disjunctive_add_eq_or [of ?u "NOT (mask (b - 1))"] unfolding eq diff_conv_add_uminus by simp
    also have "\<dots> = signed_take_bit (b - 1) v"
    proof (rule bit_word_eqI)
      fix n assume "n < LENGTH(64)"
      then show "bit (?u OR NOT (mask (b - 1))) n = bit (signed_take_bit (b - 1) v) n"
        using True low [of n] extended [of n]
        by (auto simp: bit_or_iff bit_xor_iff bit_not_iff bit_mask_iff s simp del: One_nat_def)
    qed
    finally show ?thesis .
  qed
qed

text \<open>A field of \<open>b\<close> bits of a 32-bit offset that fits in them signed.\<close>

lemma small_offset_bits:
  assumes "- (2 ^ k) \<le> sint (v :: i32)" "sint v < 2 ^ k"
    and "n < 32"
  shows "bit v n \<longleftrightarrow> bit v (min n k)"
proof -
  have "signed_take_bit k (sint v) = sint v" using assms by (simp add: signed_take_bit_int_eq_self_iff)
  from arg_cong [OF this, of "\<lambda>x. bit x n"] have "bit (sint v) (min k n) = bit (sint v) n"
    unfolding bit_signed_take_bit_iff by simp
  then show ?thesis using assms(3) by (simp add: bit_sint_iff min_def split: if_splits)
qed

lemma sign_extend_field:
  assumes "- (2 ^ (b - 1)) \<le> sint (v :: i32)" "sint v < 2 ^ (b - 1)" "0 < b" "b \<le> 32"
  shows "sign_extend (ucast (take_bit b v)) b = scast v"
proof -
  have "sign_extend (ucast (take_bit b v)) b = signed_take_bit (b - 1) (ucast (take_bit b v))"
    using assms by (intro sign_extend_signed) (auto simp: bit_simps)
  also have "\<dots> = scast v"
  proof (rule bit_word_eqI)
    fix n assume n: "n < LENGTH(64)"
    have "bit (signed_take_bit (b - 1) (ucast (take_bit b v)) :: u64) n = bit v (min n (b - 1))"
      using n assms(3,4) by (auto simp: bit_simps min_def)
    also have "\<dots> = bit v (min n 31)"
      using small_offset_bits [OF assms(1,2), of "min n 31"] assms(3,4) by (simp add: min.assoc min_absorb2)
    also have "\<dots> = bit (scast v :: u64) n" using n by (simp add: bit_simps min_def)
    finally show "bit (signed_take_bit (b - 1) (ucast (take_bit b v)) :: u64) n = bit (scast v :: u64) n" .
  qed
  finally show ?thesis .
qed

section \<open>Encodings\<close>

definition riscv_jal :: "u32 \<Rightarrow> i32 \<Rightarrow> u32" where
  "riscv_jal rd offset = 0x6f OR push_bit 7 (rd AND 31) OR push_bit 12 (drop_bit 12 offset AND 0xff) OR
     push_bit 20 (drop_bit 11 offset AND 1) OR push_bit 21 (drop_bit 1 offset AND 0x3ff) OR
     push_bit 31 (drop_bit 20 offset AND 1)"

definition riscv_conditional :: "u32 \<Rightarrow> u32 \<Rightarrow> u32 \<Rightarrow> i32 \<Rightarrow> u32" where
  "riscv_conditional function3 rs1 rs2 offset = 0x63 OR push_bit 7 (drop_bit 11 offset AND 1) OR
     push_bit 8 (drop_bit 1 offset AND 0xf) OR push_bit 12 (function3 AND 7) OR push_bit 15 (rs1 AND 31) OR
     push_bit 20 (rs2 AND 31) OR push_bit 25 (drop_bit 5 offset AND 0x3f) OR
     push_bit 31 (drop_bit 12 offset AND 1)"

definition arm64_branch :: "bool \<Rightarrow> i32 \<Rightarrow> u32" where
  "arm64_branch link words = (if link then 0x94000000 else 0x14000000) OR (words AND 0x03ffffff)"

lemma num_mask:
  "(1 :: u32) = mask 1" "(3 :: u32) = mask 2" "(7 :: u32) = mask 3" "(0xf :: u32) = mask 4" "(31 :: u32) = mask 5" "(0x3f :: u32) = mask 6"
  "(0x7f :: u32) = mask 7" "(0xff :: u32) = mask 8" "(0x3ff :: u32) = mask 10" "(0x03ffffff :: u32) = mask 26"
  by (simp_all add: mask_eq_exp_minus_1)

lemma bit_fields:
  "bit (push_bit p ((x :: u32) AND mask w)) n \<longleftrightarrow> p \<le> n \<and> n < 32 \<and> n < p + w \<and> bit x (n - p)"
  "bit (push_bit p (drop_bit q (x :: u32))) n \<longleftrightarrow> p \<le> n \<and> n < 32 \<and> bit x (q + (n - p))"
  "bit (drop_bit q (x :: u32)) n \<longleftrightarrow> bit x (q + n)"
  by (auto simp: bit_simps dest: bit_imp_le_length)

lemma opcode_bits: "7 \<le> n \<Longrightarrow> bit (0x6f :: int) n = False" "7 \<le> n \<Longrightarrow> bit (0x63 :: int) n = False"
proof -
  have "(0x6f :: int) = take_bit 7 0x6f" "(0x63 :: int) = take_bit 7 0x63" by simp_all
  then show "7 \<le> n \<Longrightarrow> bit (0x6f :: int) n = False" "7 \<le> n \<Longrightarrow> bit (0x63 :: int) n = False"
    by (metis bit_take_bit_iff not_less)+
qed

lemma bit_beyond: "32 \<le> n \<Longrightarrow> bit (x :: u32) n = False"
  using bit_imp_le_length [of x n] by auto

lemma bit_riscv_jal:
  assumes "7 \<le> n" "n < 32"
  shows "bit (riscv_jal rd offset) n \<longleftrightarrow>
    (if n < 12 then bit rd (n - 7) else if n < 20 then bit offset n else if n = 20 then bit offset 11
     else if n < 31 then bit offset (n - 20) else bit offset 20)"
proof -
  consider "n < 12" | "12 \<le> n" "n < 20" | "n = 20" | "21 \<le> n" "n < 31" | "n = 31" using assms by linarith
  moreover have "21 \<le> n \<Longrightarrow> Suc (n - 21) = n - 20" by simp
  ultimately show ?thesis
    unfolding riscv_jal_def num_mask bit_or_iff bit_fields
    using assms by cases (simp_all add: opcode_bits)
qed

lemma riscv_jal_offset_encoded:
  assumes "even (offset :: i32)"
  shows "riscv_jal_offset (riscv_jal rd offset) = take_bit 21 offset"
proof (rule bit_word_eqI)
  fix n assume n: "n < LENGTH(32)"
  have 0: "\<not> bit offset 0" using assms by (simp add: bit_0)
  consider "n = 0" | "1 \<le> n" "n < 11" | "n = 11" | "12 \<le> n" "n < 20" | "n = 20" | "21 \<le> n" by linarith
  then show "bit (riscv_jal_offset (riscv_jal rd offset)) n = bit (take_bit 21 offset) n"
    unfolding riscv_jal_offset_def num_mask bit_or_iff bit_fields bit_take_bit_iff
    using n 0 by cases (simp_all add: bit_riscv_jal bit_beyond)
qed

lemma bit_riscv_conditional:
  assumes "7 \<le> n" "n < 32"
  shows "bit (riscv_conditional f rs1 rs2 offset) n \<longleftrightarrow>
    (if n = 7 then bit offset 11 else if n < 12 then bit offset (n - 7) else if n < 15 then bit f (n - 12)
     else if n < 20 then bit rs1 (n - 15) else if n < 25 then bit rs2 (n - 20)
     else if n < 31 then bit offset (n - 20) else bit offset 12)"
proof -
  consider "n = 7" | "8 \<le> n" "n < 12" | "12 \<le> n" "n < 15" | "15 \<le> n" "n < 20" | "20 \<le> n" "n < 25" |
    "25 \<le> n" "n < 31" | "n = 31" using assms by linarith
  moreover have "8 \<le> n \<Longrightarrow> Suc (n - 8) = n - 7" "25 \<le> n \<Longrightarrow> 5 + (n - 25) = n - 20" by simp_all
  ultimately show ?thesis
    unfolding riscv_conditional_def num_mask bit_or_iff bit_fields
    using assms by cases (simp_all add: opcode_bits)
qed

lemma riscv_branch_offset_encoded:
  assumes "even (offset :: i32)"
  shows "riscv_branch_offset (riscv_conditional f rs1 rs2 offset) = take_bit 13 offset"
proof (rule bit_word_eqI)
  fix n assume n: "n < LENGTH(32)"
  have 0: "\<not> bit offset 0" using assms by (simp add: bit_0)
  consider "n = 0" | "1 \<le> n" "n < 5" | "5 \<le> n" "n < 11" | "n = 11" | "n = 12" | "13 \<le> n" by linarith
  then show "bit (riscv_branch_offset (riscv_conditional f rs1 rs2 offset)) n = bit (take_bit 13 offset) n"
    unfolding riscv_branch_offset_def num_mask bit_or_iff bit_fields bit_take_bit_iff
    using n 0 by cases (simp_all add: bit_riscv_conditional bit_beyond)
qed

lemma low_bits_eq:
  assumes "\<And>n. n < k \<Longrightarrow> bit (x :: u32) n = bit y n"
  shows "x AND mask k = y AND mask k"
  using assms by (intro bit_word_eqI) (auto simp: bit_and_iff bit_mask_iff)

lemma bit_le_bytes_half: "(le_value (take 2 (le_bytes 4 (w :: u32))) :: u16) AND 3 = ucast (w AND 3)"
proof (rule bit_word_eqI)
  fix n assume "n < LENGTH(16)"
  have "(3 :: u16) = mask 2" "(3 :: u32) = mask 2" by (simp_all add: mask_eq_exp_minus_1)
  then show "bit ((le_value (take 2 (le_bytes 4 w)) :: u16) AND 3) n = bit (ucast (w AND 3) :: u16) n"
    by (auto simp: bit_and_iff bit_mask_iff bit_le_value bit_ucast_iff bit_le_bytes_nth)
qed

lemma riscv_decode_word:
  assumes "w AND 3 = 3"
  shows "riscv_decode c (Some (le_bytes 4 w @ rest)) a = Inr (riscv_word (le_bytes 4 w) a w)"
  using assms by (simp add: riscv_decode_def Let_def bit_le_bytes_half)

lemma riscv_jal_fields:
  "riscv_jal rd offset AND 3 = 3" "riscv_jal rd offset AND 0x7f = 0x6f"
  "drop_bit 7 (riscv_jal rd offset) AND 31 = rd AND 31"
proof -
  have low: "riscv_jal rd offset AND mask 7 = 0x6f AND mask 7"
  proof (rule low_bits_eq)
    fix n :: nat assume "n < 7"
    then show "bit (riscv_jal rd offset) n = bit (0x6f :: u32) n"
      unfolding riscv_jal_def num_mask bit_or_iff bit_fields by simp
  qed
  then show "riscv_jal rd offset AND 0x7f = 0x6f" by (simp add: mask_eq_exp_minus_1)
  then have "(riscv_jal rd offset AND 0x7f) AND 3 = 0x6f AND 3" by simp
  then show "riscv_jal rd offset AND 3 = 3" by (simp add: and.assoc)
  show "drop_bit 7 (riscv_jal rd offset) AND 31 = rd AND 31"
    unfolding num_mask by (rule low_bits_eq) (simp add: bit_fields bit_riscv_jal)
qed

lemma riscv_conditional_fields:
  "riscv_conditional f rs1 rs2 offset AND 3 = 3" "riscv_conditional f rs1 rs2 offset AND 0x7f = 0x63"
proof -
  have low: "riscv_conditional f rs1 rs2 offset AND mask 7 = 0x63 AND mask 7"
  proof (rule low_bits_eq)
    fix n :: nat assume "n < 7"
    then show "bit (riscv_conditional f rs1 rs2 offset) n = bit (0x63 :: u32) n"
      unfolding riscv_conditional_def num_mask bit_or_iff bit_fields by simp
  qed
  then show "riscv_conditional f rs1 rs2 offset AND 0x7f = 0x63" by (simp add: mask_eq_exp_minus_1)
  then have "(riscv_conditional f rs1 rs2 offset AND 0x7f) AND 3 = 0x63 AND 3" by simp
  then show "riscv_conditional f rs1 rs2 offset AND 3 = 3" by (simp add: and.assoc)
qed

lemma arm64_branch_fields:
  shows "arm64_branch link words AND 0x03ffffff = take_bit 26 words"
    and "arm64_branch link words AND 0x7c000000 = 0x14000000"
    and "(arm64_branch link words AND 0x80000000 \<noteq> 0) = link"
proof -
  have parts: "arm64_branch link words AND m = ((if link then 0x94000000 else 0x14000000) AND m) OR
      (words AND (0x03ffffff AND m))" for m
    by (simp add: arm64_branch_def bit.conj_disj_distrib2 and.assoc)
  show "arm64_branch link words AND 0x03ffffff = take_bit 26 words"
    unfolding parts by (simp add: take_bit_eq_mask mask_eq_exp_minus_1)
  show "arm64_branch link words AND 0x7c000000 = 0x14000000" unfolding parts by simp
  show "(arm64_branch link words AND 0x80000000 \<noteq> 0) = link" unfolding parts by simp
qed

lemma not_by_mask: "(w :: u32) AND m = v \<Longrightarrow> x AND m \<noteq> v \<Longrightarrow> w \<noteq> x"
  "(w :: u32) AND m = v \<Longrightarrow> x AND m \<noteq> v \<Longrightarrow> k AND m = m \<Longrightarrow> w AND k \<noteq> x"
  by auto (metis and.assoc)

lemma arm64_branch_decoded:
  fixes words :: i32 and link a
  defines "w \<equiv> arm64_branch link words"
  defines "target \<equiv> a + push_bit 2 (sign_extend (ucast (take_bit 26 words)) 26)"
  shows "arm64_decode (Some (le_bytes 4 w @ rest)) a =
    Inr ((branch_to target (instruction a (le_bytes 4 w) (if link then ''bl'' else ''b'') (''0x'' @ to_string (unat target))))
      \<lparr>ins_call := link, ins_terminal := \<not> link\<rparr>)"
proof -
  note f = arm64_branch_fields [of link words, folded w_def]
  have "w \<noteq> 0xd503201f" "w \<noteq> 0xd65f03c0" "w AND 0xfffffc1f \<noteq> 0xd61f0000" "w AND 0xfffffc1f \<noteq> 0xd63f0000"
    using not_by_mask [OF f(2)] by simp_all
  then show ?thesis using f by (simp add: arm64_decode_def arm64_instruction_def target_def Let_def)
qed

lemma riscv_jal_decoded:
  assumes "even off" "- (2 ^ 20) \<le> sint off" "sint off < 2 ^ 20"
  shows "\<exists>i. riscv_decode c (Some (le_bytes 4 (riscv_jal rd off) @ rest)) a = Inr i \<and>
    ins_target i = Some (a + scast off) \<and> ins_branch i \<and> (ins_call i \<longleftrightarrow> rd AND 31 = 1)"
proof -
  let ?w = "riscv_jal rd off"
  have w: "?w \<noteq> 0x8067" using not_by_mask(1) [OF riscv_jal_fields(2) [of rd off], of "0x8067"] by simp
  have "sign_extend (ucast (riscv_jal_offset ?w)) 21 = scast off"
    using assms sign_extend_field [of 21 off] by (simp add: riscv_jal_offset_encoded)
  then show ?thesis
    using w by (simp add: riscv_decode_word riscv_jal_fields riscv_word_def Let_def)
qed

lemma riscv_conditional_decoded:
  assumes "even off" "- (2 ^ 12) \<le> sint off" "sint off < 2 ^ 12"
  shows "\<exists>i. riscv_decode c (Some (le_bytes 4 (riscv_conditional f rs1 rs2 off) @ rest)) a = Inr i \<and>
    ins_target i = Some (a + scast off) \<and> ins_branch i \<and> \<not> ins_call i \<and> \<not> ins_terminal i"
proof -
  let ?w = "riscv_conditional f rs1 rs2 off"
  have w: "?w \<noteq> 0x8067" using not_by_mask(1) [OF riscv_conditional_fields(2) [of f rs1 rs2 off], of "0x8067"] by simp
  have "sign_extend (ucast (riscv_branch_offset ?w)) 13 = scast off"
    using assms sign_extend_field [of 13 off] by (simp add: riscv_branch_offset_encoded)
  then show ?thesis
    using w by (simp add: riscv_decode_word riscv_conditional_fields riscv_word_def Let_def branch_to_def instruction_def)
qed

section \<open>The targets\<close>

text \<open>
  C21. A RISC-V jump or conditional branch with offset \<open>off\<close>, and an ARM64 \<open>b\<close> or \<open>bl\<close> by \<open>off\<close>
  words, is decoded to a branch whose target is the instruction's address plus the offset, and is a call
  exactly when it links.
\<close>

theorem branch_targets_exact:
  "(even off \<longrightarrow> - (2 ^ 20) \<le> sint off \<longrightarrow> sint off < 2 ^ 20 \<longrightarrow>
      (\<exists>i. riscv_decode c (Some (le_bytes 4 (riscv_jal rd off) @ rest)) a = Inr i \<and>
        ins_target i = Some (a + scast off) \<and> ins_branch i \<and> (ins_call i \<longleftrightarrow> rd AND 31 = 1))) \<and>
   (even off \<longrightarrow> - (2 ^ 12) \<le> sint off \<longrightarrow> sint off < 2 ^ 12 \<longrightarrow>
      (\<exists>i. riscv_decode c (Some (le_bytes 4 (riscv_conditional f rs1 rs2 off) @ rest)) a = Inr i \<and>
        ins_target i = Some (a + scast off) \<and> ins_branch i \<and> \<not> ins_call i \<and> \<not> ins_terminal i)) \<and>
   (- (2 ^ 25) \<le> sint off \<longrightarrow> sint off < 2 ^ 25 \<longrightarrow>
      (\<exists>i. arm64_decode (Some (le_bytes 4 (arm64_branch link off) @ rest)) a = Inr i \<and>
        ins_target i = Some (a + 4 * scast off) \<and> ins_branch i \<and> ins_call i = link \<and> ins_terminal i = (\<not> link)))"
proof (intro conjI impI)
  assume "- (2 ^ 25) \<le> sint off" "sint off < 2 ^ 25"
  then have "sign_extend (ucast (take_bit 26 off)) 26 = scast off" by (intro sign_extend_field) simp_all
  then show "\<exists>i. arm64_decode (Some (le_bytes 4 (arm64_branch link off) @ rest)) a = Inr i \<and>
      ins_target i = Some (a + 4 * scast off) \<and> ins_branch i \<and> ins_call i = link \<and> ins_terminal i = (\<not> link)"
    unfolding arm64_branch_decoded by (simp add: push_bit_eq_mult mult.commute)
qed (blast intro: riscv_jal_decoded riscv_conditional_decoded)+

theorem branch_targets_exact_witness:
  "\<exists>i. riscv_decode True (Some (le_bytes 4 (riscv_jal 1 (- 4)))) 0x1000 = Inr i \<and> ins_target i = Some 0xffc \<and> ins_call i"
proof -
  have "even (- 4 :: i32)" "- (2 ^ 20) \<le> sint (- 4 :: i32)" "sint (- 4 :: i32) < 2 ^ 20"
    "0x1000 + scast (- 4 :: i32) = (0xffc :: u64)" "1 AND 31 = (1 :: u32)" by simp_all
  then show ?thesis
    using branch_targets_exact [of "- 4" True 1 "[]" "0x1000" 0 0 0 True] by auto
qed

section \<open>Where the decoders differ from the manuals\<close>

text \<open>
  The halfword \<open>0xa011\<close> is \<open>c.j\<close> by four bytes; the immediate is read off as eleven consecutive
  bits, so the target is eight bytes on. A direct ARM64 branch to address 16 prints it as \<open>0x16\<close>.
\<close>

lemma compressed_jump_misread:
  "map_sum id ins_target (riscv_decode True (Some [0x11, 0xa0]) 0) = Inr (Some 8)"
  by code_simp

lemma arm64_target_in_decimal:
  "map_sum id (\<lambda>i. (ins_target i, ins_operands i)) (arm64_decode (Some [0x04, 0, 0, 0x14]) 0) = Inr (Some 16, ''0x16'')"
  by code_simp

end
