(* ===== verification/Progress.thy ===== *)
theory Progress
  imports Leb128
begin

text \<open>
  Facts on readers that the parsers of streams share. Every read leaves the reader where it was or
  further on, which is what makes a loop over a reader end: \<open>forward\<close> relates the reader before and
  after, \<open>advances\<close> says so of a parse, and the introduction rules follow the way parses are put
  together. The second part characterises the reads of integers in either byte order.
\<close>

section \<open>Reading only moves forward\<close>

definition forward :: "ByteReader \<Rightarrow> ByteReader \<Rightarrow> bool" where
  "forward r r' \<longleftrightarrow> rd_size r' = rd_size r \<and>
     (rd_position r \<le> rd_size r \<longrightarrow> rd_position r \<le> rd_position r' \<and> rd_position r' \<le> rd_size r)"

definition advances :: "('e, 'a) parse \<Rightarrow> bool" where
  "advances p \<longleftrightarrow> (\<forall>r. forward r (snd (p r)))"

lemma forward_refl [simp]: "forward r r"
  by (simp add: forward_def)

lemma forward_trans: "forward r s \<Longrightarrow> forward s t \<Longrightarrow> forward r t"
  by (auto simp: forward_def)

lemma unat_plus_below: "unat a + unat b \<le> unat (c :: u64) \<Longrightarrow> unat (a + b :: u64) = unat a + unat b"
  using unat_u64_bound [of c] by (intro unat_plus_bounded) simp

lemma forward_by:
  assumes "range_inside (rd_position r) n (rd_size r)"
  shows "forward r (rd_advance (unat n) r)"
  using assms by (auto simp: forward_def rd_advance_def range_inside_iff word_le_nat_alt unat_plus_below)

lemma forward_seek: "rd_position r \<le> p \<Longrightarrow> forward r (snd (rd_seek p r))"
  by (auto simp: forward_def rd_seek_def)

lemma advances_skip: "advances (rd_skip n)"
proof -
  have "rd_position r \<le> p" if "checked_add (rd_position r) n = Some p" for r p
    using add_op.SomeD [OF that] by (simp add: word_le_nat_alt)
  then show ?thesis
    by (auto simp: advances_def rd_skip_def split: option.splits intro: forward_seek)
qed

lemma advances_u8: "advances read_u8"
proof -
  have "forward r (rd_advance 1 r)" if "rd_remaining r \<noteq> 0" for r
  proof -
    have "rd_position r < rd_size r" using that by (auto simp: rd_remaining_def split: if_splits)
    then have "unat (rd_position r) + unat (1 :: u64) \<le> unat (rd_size r)" by (simp add: word_less_nat_alt)
    from unat_plus_below [OF this] this show ?thesis
      by (simp add: forward_def rd_advance_def word_le_nat_alt)
  qed
  then show ?thesis by (auto simp: advances_def read_u8_def split: option.splits)
qed

lemma advances_fixed: "advances read_u16" "advances read_u32" "advances read_u64" "advances (read_bytes n)"
  using forward_by [of _ 2] forward_by [of _ 4] forward_by [of _ 8] forward_by [of _ n]
  by (auto simp: advances_def read_u16_def read_u32_def read_u64_def read_bytes_def rd_pointer_def
      split: option.splits if_splits)

lemma advances_fixed_string: "advances (read_fixed_string n)"
  using forward_by [of _ n]
  by (auto simp: advances_def read_fixed_string_def rd_pointer_def split: option.splits if_splits)

lemma advances_uleb_loop: "forward r (snd (uleb_loop shift v r))"
proof (induction shift v r rule: uleb_loop.induct)
  case (1 shift v r)
  have u8: "forward r (snd (read_u8 r))" using advances_u8 by (simp add: advances_def)
  show ?case
  proof (cases "read_u8 r")
    case (Pair res r')
    show ?thesis
    proof (cases res)
      case (Inr b)
      then show ?thesis using 1 u8 Pair
        by (subst uleb_loop.simps) (auto simp: Let_def intro: forward_trans)
    qed (use u8 Pair in \<open>subst uleb_loop.simps, simp\<close>)
  qed
qed

lemma advances_sleb_loop: "forward r (snd (sleb_loop shift v r))"
proof (induction shift v r rule: sleb_loop.induct)
  case (1 shift v r)
  have u8: "forward r (snd (read_u8 r))" using advances_u8 by (simp add: advances_def)
  show ?case
  proof (cases "read_u8 r")
    case (Pair res r')
    show ?thesis
    proof (cases res)
      case (Inr b)
      then show ?thesis using 1 u8 Pair
        by (subst sleb_loop.simps) (auto simp: Let_def intro: forward_trans)
    qed (use u8 Pair in \<open>subst sleb_loop.simps, simp\<close>)
  qed
qed

lemma advances_leb: "advances read_uleb128" "advances read_sleb128"
  by (simp_all add: advances_def read_uleb128_def read_sleb128_def advances_uleb_loop advances_sleb_loop)

lemma advances_pbind: "advances p \<Longrightarrow> (\<And>x. advances (f x)) \<Longrightarrow> advances (pbind p f)"
  unfolding advances_def pbind_def
  by (auto split: prod.splits sum.splits intro: forward_trans)

lemma advances_simple: "advances (preturn x)" "advances (pfail e)" "advances (pcheck P)" "advances (plift y)"
  by (auto simp: advances_def preturn_def pfail_def pcheck_def plift_def)

lemma advances_on_fail: "advances p \<Longrightarrow> advances (on_fail p e)"
  unfolding advances_def on_fail_def by (auto split: prod.splits sum.splits) (metis snd_conv)+

lemma advances_prepeat: "advances p \<Longrightarrow> advances (prepeat n p)"
  by (induction n) (auto intro: advances_pbind advances_simple)

lemmas advances_intros = advances_pbind advances_simple advances_on_fail advances_prepeat advances_u8
  advances_fixed advances_leb advances_skip

lemma advancesD: "advances p \<Longrightarrow> p r = (x, r') \<Longrightarrow> forward r r'"
  by (metis advances_def snd_conv)

text \<open>A loop that reads a byte in each turn and never moves back ends.\<close>

lemma remaining_less:
  assumes "read_u8 r = (Inr b, r')" "forward r' r''"
  shows "unat (rd_remaining r'') < unat (rd_remaining r)"
proof -
  have p: "rd_position r < rd_size r" "r' = rd_advance 1 r"
    using assms(1) by (auto simp: read_u8_def rd_remaining_def split: if_splits option.splits)
  then have "unat (rd_position r') = unat (rd_position r) + 1" "rd_size r' = rd_size r"
    using unat_u64_bound [of "rd_size r"] by (simp_all add: rd_advance_def word_less_nat_alt unat_plus_bounded)
  then show ?thesis
    using p assms(2) by (auto simp: forward_def rd_remaining_def word_less_nat_alt word_le_nat_alt unat_minus_bounded)
qed

text \<open>\<open>rd_tell\<close> passes on the position of the reader.\<close>

definition rd_tell :: "(u64 \<Rightarrow> ('e, 'a) parse) \<Rightarrow> ('e, 'a) parse" where
  "rd_tell f r = f (rd_position r) r"

lemma advances_tell: "(\<And>p. advances (f p)) \<Longrightarrow> advances (rd_tell f)"
  by (simp add: advances_def rd_tell_def)

lemma remaining_less_by:
  assumes "range_inside (rd_position r) n (rd_size r)" "n \<noteq> 0" "forward (rd_advance (unat n) r) r''"
  shows "unat (rd_remaining r'') < unat (rd_remaining r)"
proof -
  have n: "0 < unat n" using assms(2) by (simp add: unat_gt_0)
  have le: "unat (rd_position r) + unat n \<le> unat (rd_size r)" using assms(1) by (simp add: range_inside_iff)
  then have "unat (rd_position (rd_advance (unat n) r)) = unat (rd_position r) + unat n"
    using unat_plus_below by (simp add: rd_advance_def)
  then show ?thesis
    using le n assms(3) by (auto simp: forward_def rd_remaining_def word_less_nat_alt word_le_nat_alt unat_minus_bounded)
qed

lemma remaining_less_u32:
  assumes "read_u32 r = (Inr v, r')" "forward r' r''"
  shows "unat (rd_remaining r'') < unat (rd_remaining r)"
proof -
  have "range_inside (rd_position r) 4 (rd_size r)" "r' = rd_advance (unat (4 :: u64)) r"
    using assms(1) by (auto simp: read_u32_def rd_pointer_def split: option.splits if_splits)
  then show ?thesis using remaining_less_by [of r 4 r''] assms(2) by simp
qed

section \<open>Integers in either byte order\<close>

definition order_bytes :: "ByteOrder \<Rightarrow> nat \<Rightarrow> 'a::len word \<Rightarrow> bytes" where
  "order_bytes order n v = (case order of little \<Rightarrow> le_bytes n v | big \<Rightarrow> be_bytes n v)"

lemma ordered_order_bytes:
  "LENGTH('a::len) \<le> 8 * n \<Longrightarrow> ordered_value order (order_bytes order n v) = (v :: 'a word)"
  by (cases order) (simp_all add: ordered_value_def order_bytes_def)

lemma length_order_bytes [simp]: "length (order_bytes order n v) = n"
  by (cases order) (simp_all add: order_bytes_def)

lemma order_bytes_read:
  "moves r (order_bytes (rd_order r) 2 v2) r' \<Longrightarrow> read_u16 r = (Inr v2, r')"
  "moves r (order_bytes (rd_order r) 4 v4) r' \<Longrightarrow> read_u32 r = (Inr v4, r')"
  "moves r (order_bytes (rd_order r) 8 v8) r' \<Longrightarrow> read_u64 r = (Inr v8, r')"
proof -
  have *: "n \<le> length (rd_rest r) \<and> take n (rd_rest r) = order_bytes order n v \<and> r' = rd_advance n r \<and> reader_ok r"
    if "moves r (order_bytes order n v) r'" for order n and v :: "'b::len word"
    using that by (auto simp: moves_def)
  show "moves r (order_bytes (rd_order r) 2 v2) r' \<Longrightarrow> read_u16 r = (Inr v2, r')" for v2
    using * [of "rd_order r" 2 v2] by (simp add: read_u16_eq ordered_order_bytes)
  show "moves r (order_bytes (rd_order r) 4 v4) r' \<Longrightarrow> read_u32 r = (Inr v4, r')" for v4
    using * [of "rd_order r" 4 v4] by (simp add: read_u32_eq ordered_order_bytes)
  show "moves r (order_bytes (rd_order r) 8 v8) r' \<Longrightarrow> read_u64 r = (Inr v8, r')" for v8
    using * [of "rd_order r" 8 v8] by (simp add: read_u64_eq ordered_order_bytes)
qed

lemma skip_moves:
  assumes "moves r bs r'"
  shows "rd_skip (of_nat (length bs)) r = (Inr (), r')"
proof -
  have r: "reader_ok r" "length bs \<le> length (rd_rest r)" "r' = rd_advance (length bs) r"
    using assms by (auto simp: moves_def)
  then have n: "unat (of_nat (length bs) :: u64) = length bs"
    using length_rd_rest_bound [OF r(1)] by (intro unat_of_nat_u64) simp
  have p: "unat (rd_position r') = unat (rd_position r) + length bs" using moves_position [OF assms] .
  have s: "\<not> rd_position r' > rd_size r" using moves_okD [OF assms] moves_size [OF assms] by (simp add: reader_ok_def not_less)
  have "checked_add (rd_position r) (of_nat (length bs)) = Some (rd_position r')"
    using p n by (simp add: add_op.Some_iff)
  then show ?thesis using s r(3) by (simp add: rd_skip_def rd_seek_def rd_advance_def)
qed

lemma order_bytes_value:
  "8 * length bs = LENGTH('a) \<Longrightarrow> order_bytes order (length bs) (ordered_value order bs :: 'a::len word) = bs"
proof (cases order)
  case little
  assume "8 * length bs = LENGTH('a)"
  then show ?thesis using le_bytes_le_value [of bs, where 'a = 'a] by (simp add: little order_bytes_def ordered_value_def)
next
  case big
  assume "8 * length bs = LENGTH('a)"
  then have "le_bytes (length bs) (le_value (rev bs) :: 'a word) = rev bs"
    using le_bytes_le_value [of "rev bs", where 'a = 'a] by simp
  then show ?thesis by (simp add: big order_bytes_def ordered_value_def be_bytes_def le_value_def)
qed

lemma read_u32_order:
  assumes "reader_ok r"
  shows "read_u32 r = (Inr v, r') \<longleftrightarrow> moves r (order_bytes (rd_order r) 4 v) r'"
proof
  let ?v = "ordered_value (rd_order r) (take 4 (rd_rest r)) :: u32"
  assume d: "read_u32 r = (Inr v, r')"
  have l: "\<not> length (rd_rest r) < 4"
  proof
    assume "length (rd_rest r) < 4"
    then show False using d unfolding read_u32_eq [OF assms] by simp
  qed
  have "(Inr ?v :: unit + u32, rd_advance 4 r) = (Inr v, r')"
    using d unfolding read_u32_eq [OF assms] if_not_P [OF l] .
  then have v: "v = ?v" and r': "r' = rd_advance 4 r" by (metis Pair_inject sum.inject(2))+
  have t: "length (take 4 (rd_rest r)) = 4" using l by simp
  then have "order_bytes (rd_order r) 4 ?v = take 4 (rd_rest r)"
    using order_bytes_value [of "take 4 (rd_rest r)", where 'a = 32 and order = "rd_order r"] unfolding t by simp
  then have b: "order_bytes (rd_order r) 4 v = take 4 (rd_rest r)" unfolding v .
  have "4 \<le> length (rd_rest r)" using l by simp
  from moves_advance [OF assms this] show "moves r (order_bytes (rd_order r) 4 v) r'" unfolding b r' .
qed (rule order_bytes_read(2))

lemma read_bytes_moves:
  "reader_ok r \<Longrightarrow> read_bytes n r = (Inr bs, r') \<longleftrightarrow> length bs = unat n \<and> moves r bs r'"
  by (rule iffI) (auto dest: read_bytes_encode intro: read_bytes_decode)

lemma rd_skip_moves:
  assumes "reader_ok r"
  shows "rd_skip n r = (Inr (), r') \<longleftrightarrow> (\<exists>bs. length bs = unat n \<and> moves r bs r')"
proof
  assume "rd_skip n r = (Inr (), r')"
  then obtain q where q: "checked_add (rd_position r) n = Some q" "\<not> q > rd_size r" "r' = r\<lparr>rd_position := q\<rparr>"
    by (auto simp: rd_skip_def rd_seek_def split: option.splits if_splits)
  have u: "unat q = unat (rd_position r) + unat n" using add_op.SomeD [OF q(1)] .
  then have n: "unat n \<le> length (rd_rest r)"
    using q(2) by (simp add: length_rd_rest [OF assms] word_less_nat_alt)
  have "unat (rd_position (rd_advance (unat n) r)) = unat q"
    using unat_position_advance [OF assms n] u by simp
  then have "r' = rd_advance (unat n) r" by (simp add: q(3) rd_advance_def word_unat_eq_iff)
  then show "\<exists>bs. length bs = unat n \<and> moves r bs r'"
    using moves_advance [OF assms n] n by (metis length_take min_absorb2)
next
  assume "\<exists>bs. length bs = unat n \<and> moves r bs r'"
  then obtain bs where bs: "length bs = unat n" "moves r bs r'" by blast
  then show "rd_skip n r = (Inr (), r')"
    using skip_moves [OF bs(2)] by simp
qed

end
