(* ===== verification/Debug_Info.thy ===== *)
theory Debug_Info
  imports Progress
begin

unbundle bit_operations_syntax

text \<open>
  \<open>DebugInfoParser\<close> of \<open>src/debug_info.cc\<close>: the line-number program and the tree of debug entries.
  Both add to a unit in place and can fail with the unit half filled, so they return the unit whatever
  their outcome. A failure is \<open>Inl\<close> of the error, or \<open>Inl None\<close> where the source returns false and
  leaves the error as it was.
\<close>

section \<open>The line program header\<close>

type_synonym failure = "Error option"
type_synonym 'a debug_parse = "(failure, 'a) parse"

definition silently :: "'a read \<Rightarrow> 'a debug_parse" where
  "silently p = on_fail p (\<lambda>_. None)"

definition otherwise :: "'a read \<Rightarrow> (ByteReader \<Rightarrow> Error) \<Rightarrow> 'a debug_parse" where
  "otherwise p e = on_fail p (\<lambda>r. Some (e r))"

definition bounded_u32 :: "u32 read" where
  "bounded_u32 = pbind read_u32 (\<lambda>n. pbind (pcheck (\<lambda>r. ucast n \<le> rd_remaining r)) (\<lambda>_. preturn n))"

record LineHeader =
  lh_unit_length :: u32
  lh_version :: u16
  lh_program_start :: u64
  lh_minimum :: u8
  lh_statement :: u8
  lh_line_base :: u8
  lh_line_range :: u8
  lh_opcode_base :: u8

definition line_version :: "u16 read" where
  "line_version = pbind read_u16 (\<lambda>v. pbind (pcheck (\<lambda>_. \<not> (v < 2 \<or> v > 5))) (\<lambda>_. preturn v))"

definition line_parameters :: "(u8 \<times> u8 \<times> u8 \<times> u8 \<times> u8) read" where
  "line_parameters =
    pbind read_u8 (\<lambda>minimum. pbind read_u8 (\<lambda>statement. pbind read_u8 (\<lambda>base. pbind read_u8 (\<lambda>range.
    pbind read_u8 (\<lambda>opcodes. pbind (pcheck (\<lambda>_. minimum \<noteq> 0 \<and> range \<noteq> 0)) (\<lambda>_.
      preturn (minimum, statement, base, range, opcodes)))))))"

definition line_header :: "LineHeader debug_parse" where
  "line_header =
    pbind (otherwise bounded_u32 (\<lambda>_. mk_error truncated 0 ''line unit truncated'')) (\<lambda>unit_length.
    pbind (otherwise line_version (\<lambda>_. mk_error invalid_debug_info 4 ''unsupported line version'')) (\<lambda>version.
    pbind (otherwise bounded_u32 (\<lambda>_. mk_error truncated 6 ''line header truncated'')) (\<lambda>header_length.
    rd_tell (\<lambda>position.
    pbind (otherwise line_parameters (\<lambda>r. mk_error invalid_debug_info (rd_position r) ''invalid line header''))
      (\<lambda>(minimum, statement, base, range, opcodes).
    pbind (if opcodes \<noteq> 0
           then otherwise (rd_skip (ucast opcodes - 1)) (\<lambda>r. mk_error truncated (rd_position r) ''opcode lengths truncated'')
           else preturn ()) (\<lambda>_.
      preturn \<lparr>lh_unit_length = unit_length, lh_version = version,
        lh_program_start = position + ucast header_length, lh_minimum = minimum, lh_statement = statement,
        lh_line_base = base, lh_line_range = range, lh_opcode_base = opcodes\<rparr>))))))"

text \<open>The file table, up to the start of the program; a cut entry ends it silently.\<close>

function read_files :: "Limits \<Rightarrow> u64 \<Rightarrow> string list \<Rightarrow> ByteReader \<Rightarrow> (failure + unit) \<times> string list \<times> ByteReader" where
  "read_files limits program_start files r =
    (if rd_position r < program_start then
       (case read_c_string r (rd_position r) (program_start - rd_position r) of
          None \<Rightarrow> (Inr (), files, r)
        | Some name \<Rightarrow>
          let r' = snd (rd_skip (of_nat (length name + 1)) r) in
          if name = [] then (Inr (), files, r')
          else if length (files @ [name]) > unat (max_string_bytes limits)
          then (Inl (Some (mk_error resource_limit (rd_position r') ''file table limit'')), files @ [name], r')
          else read_files limits program_start (files @ [name]) r')
     else (Inr (), files, r))"
  by pat_completeness auto

lemma takeWhile_shorter: "\<exists>x \<in> set xs. \<not> P x \<Longrightarrow> length (takeWhile P xs) < length xs"
  by (induction xs) auto

lemma c_string_skip:
  assumes "rd_position r < stop" "read_c_string r (rd_position r) (stop - rd_position r) = Some name"
  shows "unat (rd_position (snd (rd_skip (of_nat (length name + 1)) r))) = unat (rd_position r) + length name + 1"
    and "unat (rd_position r) + length name + 1 \<le> unat stop"
proof -
  let ?n = "unat stop - unat (rd_position r)"
  have n: "unat (stop - rd_position r) = ?n" using assms(1) by (simp add: unat_minus_bounded)
  obtain d where data: "rd_data r = Some d"
    using assms(2) by (auto simp: read_c_string_def split: if_splits option.splits)
  have d: "rd_position r \<le> rd_size r" "stop - rd_position r \<le> rd_size r - rd_position r"
      "0 \<in> set (take ?n (drop (unat (rd_position r)) d))"
      "length name = length (takeWhile (\<lambda>b. b \<noteq> 0) (take ?n (drop (unat (rd_position r)) d)))"
    using assms(2) n data by (auto simp: read_c_string_def Let_def not_less split: if_splits)
  have "length name < length (take ?n (drop (unat (rd_position r)) d))"
    unfolding d(4) using d(3) by (intro takeWhile_shorter) auto
  then have l: "length name + 1 \<le> ?n" by simp
  then show stop: "unat (rd_position r) + length name + 1 \<le> unat stop" using assms(1) by (simp add: word_less_nat_alt)
  have "unat stop \<le> unat (rd_size r)"
    using d(1,2) assms(1) by (simp add: word_le_nat_alt word_less_nat_alt unat_minus_bounded)
  moreover have u: "unat (of_nat (length name + 1) :: u64) = length name + 1"
    using stop unat_u64_bound [of stop] by (intro unat_of_nat_u64) simp
  ultimately have s: "unat (rd_position r) + unat (of_nat (length name + 1) :: u64) \<le> unat (rd_size r)" using stop by simp
  then have "unat (rd_position r) + unat (of_nat (length name + 1) :: u64) < 2 ^ 64"
    using unat_u64_bound [of "rd_size r"] by simp
  then obtain p where p: "checked_add (rd_position r) (of_nat (length name + 1)) = Some p"
      "unat p = unat (rd_position r) + unat (of_nat (length name + 1) :: u64)" by (rule add_op.SomeI)
  then have "\<not> p > rd_size r" using s by (simp add: word_less_nat_alt)
  then show "unat (rd_position (snd (rd_skip (of_nat (length name + 1)) r))) = unat (rd_position r) + length name + 1"
    using p u by (simp add: rd_skip_def rd_seek_def)
qed

termination read_files
proof (relation "measure (\<lambda>(limits, program_start, files, r). unat program_start - unat (rd_position r))")
  fix limits program_start and files :: "string list" and r name r'
  assume a: "rd_position r < program_start"
    "read_c_string r (rd_position r) (program_start - rd_position r) = Some name"
    "r' = snd (rd_skip (of_nat (length name + 1)) r)"
  show "((limits, program_start, files @ [name], r'), limits, program_start, files, r)
      \<in> measure (\<lambda>(limits, program_start, files, r). unat program_start - unat (rd_position r))"
    using c_string_skip [OF a(1,2)] by (simp add: a(3))
qed simp

declare read_files.simps [simp del]

section \<open>The line machine\<close>

text \<open>Its registers and the rows it has added; a row is written with the registers as they stand.\<close>

record LineState =
  ls_address :: u64
  ls_line :: i64
  ls_file :: u32
  ls_statement :: bool
  ls_rows :: "DebugLineRow list"

definition emit_row :: "bool \<Rightarrow> LineState \<Rightarrow> LineState" where
  "emit_row end_sequence s = s\<lparr>ls_rows := ls_rows s @
     [\<lparr>row_address = ls_address s, row_file = ls_file s, row_line = ucast (ls_line s), row_column = 0,
       row_statement = ls_statement s, row_end_sequence = end_sequence\<rparr>]\<rparr>"

definition line_start :: "LineHeader \<Rightarrow> DebugLineRow list \<Rightarrow> LineState" where
  "line_start h rows = \<lparr>ls_address = 0, ls_line = 1, ls_file = 1, ls_statement = lh_statement h \<noteq> 0, ls_rows = rows\<rparr>"

definition skip_anyway :: "u64 \<Rightarrow> 'a \<Rightarrow> ('e, 'a) parse" where
  "skip_anyway n x r = (Inr x, snd (rd_skip n r))"

definition extended_length :: "u64 read" where
  "extended_length =
    pbind read_uleb128 (\<lambda>n. pbind (pcheck (\<lambda>r. \<not> (n = 0 \<or> n > rd_remaining r))) (\<lambda>_. preturn n))"

definition extended_opcode :: "u8 \<Rightarrow> LineHeader \<Rightarrow> LineState \<Rightarrow> LineState debug_parse" where
  "extended_opcode address_size h s =
    pbind (otherwise extended_length (\<lambda>r. mk_error truncated (rd_position r) ''extended line opcode truncated'')) (\<lambda>n.
    pbind (silently read_u8) (\<lambda>extended.
      if extended = 1 then skip_anyway (n - 1) (line_start h (ls_rows (emit_row True s)))
      else if extended = 2 then
        if n - 1 \<noteq> ucast address_size
        then rd_tell (\<lambda>position. pfail (Some (mk_error invalid_debug_info position ''invalid set-address width'')))
        else pbind (if address_size = 4 then pbind (silently read_u32) (\<lambda>v. preturn (ucast v)) else silently read_u64)
          (\<lambda>value. preturn (s\<lparr>ls_address := value\<rparr>))
      else skip_anyway (n - 1) s))"

definition standard_opcode :: "LineHeader \<Rightarrow> LineState \<Rightarrow> u8 \<Rightarrow> LineState debug_parse" where
  "standard_opcode h s op =
    (if op = 1 then preturn (emit_row False s)
     else if op = 2 then
       otherwise (pbind read_uleb128 (\<lambda>advance.
           plift (case checked_add (ls_address s) (advance * ucast (lh_minimum h)) of
                    None \<Rightarrow> Inl () | Some a \<Rightarrow> Inr (s\<lparr>ls_address := a\<rparr>))))
         (\<lambda>r. mk_error address_overflow (rd_position r) ''line address overflow'')
     else if op = 3 then
       pbind (silently read_sleb128) (\<lambda>advance. rd_tell (\<lambda>position.
         if sint (ls_line s + advance) < 0
         then pfail (Some (mk_error invalid_debug_info position ''negative source line''))
         else preturn (s\<lparr>ls_line := ls_line s + advance\<rparr>)))
     else if op = 4 then
       silently (pbind read_uleb128 (\<lambda>f. pbind (pcheck (\<lambda>_. f \<le> 0xffffffff)) (\<lambda>_. preturn (s\<lparr>ls_file := ucast f\<rparr>))))
     else if op = 6 then preturn (s\<lparr>ls_statement := \<not> ls_statement s\<rparr>)
     else preturn s)"

definition special_opcode :: "LineHeader \<Rightarrow> LineState \<Rightarrow> u8 \<Rightarrow> LineState debug_parse" where
  "special_opcode h s op =
    (let adjusted = op - lh_opcode_base h;
         address_delta = ucast (adjusted div lh_line_range h) * ucast (lh_minimum h);
         line_delta = scast (lh_line_base h) + ucast (adjusted mod lh_line_range h) in
     rd_tell (\<lambda>position.
       case checked_add (ls_address s) address_delta of
         None \<Rightarrow> pfail (Some (mk_error address_overflow position ''special opcode overflow''))
       | Some a \<Rightarrow>
         let line = ls_line s + line_delta in
         if sint line < 0 then pfail None
         else preturn (emit_row False (s\<lparr>ls_address := a, ls_line := line\<rparr>))))"

definition line_opcode :: "u8 \<Rightarrow> LineHeader \<Rightarrow> LineState \<Rightarrow> u8 \<Rightarrow> LineState debug_parse" where
  "line_opcode address_size h s op =
    (if op = 0 then extended_opcode address_size h s
     else if op < lh_opcode_base h then standard_opcode h s op
     else special_opcode h s op)"

text \<open>The loop returns the registers and rows as they are when it ends or fails.\<close>

function run_lines :: "Limits \<Rightarrow> u8 \<Rightarrow> LineHeader \<Rightarrow> LineState \<Rightarrow> ByteReader \<Rightarrow> (failure + unit) \<times> LineState \<times> ByteReader" where
  "run_lines limits address_size h s r =
    (if rd_remaining r \<noteq> 0 \<and> length (ls_rows s) < unat (max_line_rows limits) then
       (case read_u8 r of
          (Inl _, r') \<Rightarrow> (Inr (), s, r')
        | (Inr op, r') \<Rightarrow>
          (case line_opcode address_size h s op r' of
             (Inl e, r'') \<Rightarrow> (Inl e, s, r'')
           | (Inr s', r'') \<Rightarrow> run_lines limits address_size h s' r''))
     else (Inr (), s, r))"
  by pat_completeness auto

lemma advances_skip_anyway: "advances (skip_anyway n x)"
  using advances_skip [of n] by (simp add: advances_def skip_anyway_def)

lemmas advances_more = advances_tell advances_skip_anyway

lemma advances_line_opcode: "advances (line_opcode address_size h s op)"
  unfolding line_opcode_def extended_opcode_def extended_length_def standard_opcode_def special_opcode_def silently_def otherwise_def Let_def
  by (auto intro!: advances_intros advances_more split: option.splits)

lemma line_opcode_shrinks:
  assumes "(Inr op, r') = read_u8 r" "(Inr s', r'') = line_opcode address_size h s op r'"
  shows "unat (rd_remaining r'') < unat (rd_remaining r)"
  by (rule remaining_less [OF assms(1) [symmetric] advancesD [OF advances_line_opcode assms(2) [symmetric]]])

termination run_lines
  by (relation "measure (\<lambda>(limits, address_size, h, s, r). unat (rd_remaining r))")
    (auto intro: line_opcode_shrinks)

declare run_lines.simps [simp del]

definition parse_line_program ::
    "Limits \<Rightarrow> bytes option \<Rightarrow> ByteOrder \<Rightarrow> u8 \<Rightarrow> DebugUnit \<Rightarrow> (failure + unit) \<times> DebugUnit" where
  "parse_line_program limits data order address_size unit =
    (case (case data of None \<Rightarrow> None
           | Some d \<Rightarrow> if length d < 10 \<or> length d > unat (max_debug_bytes limits) \<or> (address_size \<noteq> 4 \<and> address_size \<noteq> 8)
                     then None else Some d) of
       None \<Rightarrow> (Inl (Some (mk_error invalid_debug_info 0 ''invalid line program input'')), unit)
     | Some d \<Rightarrow>
     case line_header (reader_of d order) of
       (Inl e, _) \<Rightarrow> (Inl e, unit)
     | (Inr h, r) \<Rightarrow>
     case read_files limits (lh_program_start h) (unit_files unit) r of
       (Inl e, files, _) \<Rightarrow> (Inl e, unit\<lparr>unit_files := files\<rparr>)
     | (Inr _, files, r) \<Rightarrow>
     case rd_seek (lh_program_start h) r of
       (Inl _, _) \<Rightarrow> (Inl None, unit\<lparr>unit_files := files\<rparr>)
     | (Inr _, r) \<Rightarrow>
     case run_lines limits address_size h (line_start h (unit_lines unit)) r of
       (Inl e, s, _) \<Rightarrow> (Inl e, unit\<lparr>unit_files := files, unit_lines := ls_rows s\<rparr>)
     | (Inr _, s, r) \<Rightarrow>
       if length (ls_rows s) \<ge> unat (max_line_rows limits)
       then (Inl (Some (mk_error resource_limit (rd_position r) ''line row limit'')),
             unit\<lparr>unit_files := files, unit_lines := ls_rows s\<rparr>)
       else (Inr (), unit\<lparr>unit_files := files, unit_lines := ls_rows s, unit_version := lh_version h,
               unit_length := ucast (lh_unit_length h), unit_address_size := address_size\<rparr>))"

section \<open>Debug entries\<close>

text \<open>
  \<open>levels\<close> of the source is a stack of pointers to vectors of entries, each but the first to the
  children of the last entry of the one below. It is given by its depth: \<open>push_entry d\<close> adds an
  entry to the vector \<open>d\<close> levels down along the last entries.
\<close>

fun push_entry :: "nat \<Rightarrow> DebugEntry \<Rightarrow> DebugEntry list \<Rightarrow> DebugEntry list" where
  "push_entry 0 e entries = entries @ [e]"
| "push_entry (Suc d) e entries =
    (case last entries of DebugEntry off tag has attrs children \<Rightarrow>
       butlast entries @ [DebugEntry off tag has attrs (push_entry d e children)])"

definition attribute_value :: "Limits \<Rightarrow> u64 \<Rightarrow> DebugValue debug_parse" where
  "attribute_value limits form =
    (if form = 1 then pbind (silently read_uleb128) (\<lambda>v. preturn (value_u64 v))
     else if form = 2 then pbind (silently read_sleb128) (\<lambda>v. preturn (value_i64 v))
     else if form = 3 then
       silently (pbind read_uleb128 (\<lambda>n.
         pbind (pcheck (\<lambda>r. \<not> (n > rd_remaining r \<or> n > max_string_bytes limits))) (\<lambda>_.
         pbind (read_bytes n) (\<lambda>bs. preturn (value_string (string_of_bytes bs))))))
     else rd_tell (\<lambda>position. pfail (Some (mk_error invalid_debug_info position ''unknown debug attribute form''))))"

definition read_attribute :: "Limits \<Rightarrow> DebugAttribute debug_parse" where
  "read_attribute limits =
    pbind (otherwise (pbind read_uleb128 (\<lambda>name. pbind read_uleb128 (\<lambda>form. preturn (name, form))))
      (\<lambda>r. mk_error truncated (rd_position r) ''debug attribute truncated'')) (\<lambda>(name, form).
    pbind (attribute_value limits form) (\<lambda>v.
      preturn \<lparr>attr_name = ucast name, attr_form = ucast form, attr_value = v\<rparr>))"

definition read_entry :: "Limits \<Rightarrow> u64 \<Rightarrow> DebugEntry debug_parse" where
  "read_entry limits tag =
    pbind (otherwise (pbind read_u8 (\<lambda>children. pbind read_u8 (\<lambda>attributes. preturn (children, attributes))))
      (\<lambda>r. mk_error truncated (rd_position r) ''debug entry header truncated'')) (\<lambda>(children, attributes).
    rd_tell (\<lambda>position.
    pbind (prepeat (unat attributes) (read_attribute limits)) (\<lambda>attrs.
      preturn (DebugEntry position (ucast tag) (children \<noteq> 0) attrs []))))"

function read_entries :: "Limits \<Rightarrow> DebugEntry list \<Rightarrow> nat \<Rightarrow> ByteReader \<Rightarrow> (failure + unit) \<times> DebugEntry list" where
  "read_entries limits entries depth r =
    (if rd_remaining r = 0 then (Inr (), entries)
     else case read_uleb128 r of
       (Inl _, r') \<Rightarrow> (Inl (Some (mk_error truncated (rd_position r') ''debug tag truncated'')), entries)
     | (Inr tag, r') \<Rightarrow>
       if tag = 0 then if depth = 0 then (Inr (), entries) else read_entries limits entries (depth - 1) r'
       else if Suc depth > unat (max_debug_depth limits)
       then (Inl (Some (mk_error resource_limit (rd_position r') ''debug nesting limit'')), entries)
       else case read_entry limits tag r' of
         (Inl e, _) \<Rightarrow> (Inl e, entries)
       | (Inr e, r'') \<Rightarrow>
         read_entries limits (push_entry depth e entries) (if ent_has_children e then Suc depth else depth) r'')"
  by pat_completeness auto

lemma advances_read_entry: "advances (read_entry limits tag)"
  unfolding read_entry_def read_attribute_def attribute_value_def silently_def otherwise_def
  by (auto intro!: advances_intros advances_more split: prod.splits)

lemma uleb_first:
  assumes "read_uleb128 r = (Inr v, r')"
  shows "\<exists>b r1. read_u8 r = (Inr b, r1) \<and> forward r1 r'"
proof -
  have step: "uleb_loop 0 0 r = (Inr v, r')" using assms by (simp add: read_uleb128_def)
  then obtain b r1 where u8: "read_u8 r = (Inr b, r1)"
    by (subst (asm) uleb_loop.simps) (auto split: prod.splits sum.splits)
  have "forward r1 r'"
    using step advances_uleb_loop [of r1 7 "ucast (b AND 0x7f)"]
    by (subst (asm) uleb_loop.simps) (auto simp: u8 Let_def split: if_splits)
  then show ?thesis using u8 by blast
qed

lemma uleb_shrinks:
  assumes "(Inr v, r') = read_uleb128 r" "forward r' r''"
  shows "unat (rd_remaining r'') < unat (rd_remaining r)"
  using uleb_first [OF assms(1) [symmetric]] remaining_less forward_trans [OF _ assms(2)] by blast

lemma entry_shrinks:
  assumes "(Inr tag, r') = read_uleb128 r" "(Inr e, r'') = read_entry limits tag r'"
  shows "unat (rd_remaining r'') < unat (rd_remaining r)"
  by (rule uleb_shrinks [OF assms(1) advancesD [OF advances_read_entry assms(2) [symmetric]]])

termination read_entries
  by (relation "measure (\<lambda>(limits, entries, depth, r). unat (rd_remaining r))")
    (auto intro: entry_shrinks uleb_shrinks)

declare read_entries.simps [simp del]

definition parse_entries :: "Limits \<Rightarrow> bytes option \<Rightarrow> ByteOrder \<Rightarrow> DebugUnit \<Rightarrow> (failure + unit) \<times> DebugUnit" where
  "parse_entries limits data order unit =
    (case (case data of None \<Rightarrow> None | Some d \<Rightarrow> if length d > unat (max_debug_bytes limits) then None else Some d) of
       None \<Rightarrow> (Inl (Some (mk_error resource_limit 0 ''debug entry input limit'')), unit)
     | Some d \<Rightarrow>
       (case read_entries limits (unit_entries unit) 0 (reader_of d order) of
          (result, entries) \<Rightarrow> (result, unit\<lparr>unit_entries := entries\<rparr>)))"

end
