(* ===== verification/Debug_Entries.thy ===== *)
theory Debug_Entries
  imports Debug_Info
begin

text \<open>
  The entry tree of \<open>Debug_Info\<close>: an inductive grammar of its encoding, with every admissible LEB128
  form of each number, the proof that the parser reads every sentence of the grammar back as the tree
  it stands for, and the bound on the depth of whatever it builds.
\<close>

section \<open>The grammar\<close>

definition uleb_of :: "nat \<Rightarrow> bytes \<Rightarrow> bool" where
  "uleb_of n bs \<longleftrightarrow> leb_framed bs \<and> length bs \<le> 10 \<and> uleb_value bs = n \<and> n < 2 ^ 64"

fun value_encoded :: "Limits \<Rightarrow> u32 \<Rightarrow> DebugValue \<Rightarrow> bytes \<Rightarrow> bool" where
  "value_encoded limits form (value_u64 v) bs \<longleftrightarrow> form = 1 \<and> uleb_of (unat v) bs"
| "value_encoded limits form (value_i64 v) bs \<longleftrightarrow>
     form = 2 \<and> leb_framed bs \<and> length bs \<le> 10 \<and> v = of_int (sleb_value bs)"
| "value_encoded limits form (value_string s) bs \<longleftrightarrow>
     form = 3 \<and> length s \<le> unat (max_string_bytes limits) \<and>
     (\<exists>ls. uleb_of (length s) ls \<and> bs = ls @ bytes_of_string s)"
| "value_encoded limits form (value_bytes b) bs \<longleftrightarrow> False"

definition attribute_encoded :: "Limits \<Rightarrow> DebugAttribute \<Rightarrow> bytes \<Rightarrow> bool" where
  "attribute_encoded limits a bs \<longleftrightarrow> (\<exists>ns fs vs. bs = ns @ fs @ vs \<and> uleb_of (unat (attr_name a)) ns \<and>
     uleb_of (unat (attr_form a)) fs \<and> value_encoded limits (attr_form a) (attr_value a) vs)"

text \<open>
  \<open>entries_encoded limits d p es bs\<close>: \<open>bs\<close> at position \<open>p\<close> encodes the siblings \<open>es\<close> at depth \<open>d\<close>.
\<close>

inductive entries_encoded :: "Limits \<Rightarrow> nat \<Rightarrow> nat \<Rightarrow> DebugEntry list \<Rightarrow> bytes \<Rightarrow> bool" for limits where
  no_entries: "entries_encoded limits d p [] []"
| leaf_entry: "entries_encoded limits d p (DebugEntry off tag False attrs [] # es)
      (ts @ [0, of_nat (length attrs)] @ concat parts @ bs)"
  if "uleb_of (unat tag) ts" "tag \<noteq> 0" "d < unat (max_debug_depth limits)" "length attrs < 256"
    "list_all2 (attribute_encoded limits) attrs parts" "unat off = p + length ts + 2"
    "entries_encoded limits d (p + length ts + 2 + length (concat parts)) es bs"
| inner_entry: "entries_encoded limits d p (DebugEntry off tag True attrs children # es)
      (ts @ [flag, of_nat (length attrs)] @ concat parts @ cs @ zs @ bs)"
  if "uleb_of (unat tag) ts" "tag \<noteq> 0" "d < unat (max_debug_depth limits)" "length attrs < 256"
    "list_all2 (attribute_encoded limits) attrs parts" "unat off = p + length ts + 2" "flag \<noteq> 0"
    "entries_encoded limits (Suc d) (p + length ts + 2 + length (concat parts)) children cs"
    "uleb_of 0 zs"
    "entries_encoded limits d (p + length ts + 2 + length (concat parts) + length cs + length zs) es bs"

section \<open>Reading what the grammar wrote\<close>

lemma read_uleb_of: "uleb_of n bs \<Longrightarrow> moves r bs r' \<Longrightarrow> read_uleb128 r = (Inr (of_nat n), r')"
  unfolding uleb_of_def by (metis read_uleb128_complete)

lemma read_uleb_word: "uleb_of (unat (v :: u64)) bs \<Longrightarrow> moves r bs r' \<Longrightarrow> read_uleb128 r = (Inr v, r')"
  using read_uleb_of by fastforce

lemma read_uleb_u32:
  "uleb_of (unat (v :: u32)) bs \<Longrightarrow> moves r bs r' \<Longrightarrow> read_uleb128 r = (Inr (ucast v), r')"
  using read_uleb_of by fastforce

lemma uleb_of_nonempty: "uleb_of n bs \<Longrightarrow> bs \<noteq> []"
  by (auto simp: uleb_of_def)

lemma on_fail_step [simp]: "p r = (Inr x, r') \<Longrightarrow> on_fail p e r = (Inr x, r')"
  by (simp add: on_fail_def)

lemma ucast_ucast_u32 [simp]: "(ucast (ucast (v :: u32) :: u64) :: u32) = v"
  by (rule word_unat_eq_iff [THEN iffD2]) (simp add: unsigned_ucast_eq unsigned_take_bit_eq take_bit_nat_eq_self
      less_le_trans [OF unsigned_less])

lemma attribute_value_read:
  assumes "value_encoded limits form v bs" "moves r bs r'"
  shows "attribute_value limits (ucast form) r = (Inr v, r')"
proof (cases v)
  case (value_u64 x)
  then have f: "form = 1" "read_uleb128 r = (Inr x, r')" using assms read_uleb_word [of x bs r r'] by simp_all
  show ?thesis unfolding attribute_value_def silently_def using f value_u64 by (simp add: preturn_def)
next
  case (value_i64 x)
  then have f: "form = 2" "read_sleb128 r = (Inr x, r')" using assms read_sleb128_complete by simp_all
  show ?thesis unfolding attribute_value_def silently_def using f value_i64 by (simp add: preturn_def)
next
  case (value_string s)
  then obtain ls where f: "form = 3" "length s \<le> unat (max_string_bytes limits)" "uleb_of (length s) ls"
    "bs = ls @ bytes_of_string s" using assms by auto
  then obtain r1 where m: "moves r ls r1" "moves r1 (bytes_of_string s) r'" using assms(2) by (auto simp: moves_append)
  have n: "unat (of_nat (length s) :: u64) = length s" using f(3) by (intro unat_of_nat_u64) (simp add: uleb_of_def)
  have "length s \<le> length (rd_rest r1)" using moves_rest [OF m(2)] by simp
  then have "\<not> (of_nat (length s) > rd_remaining r1 \<or> of_nat (length s) > max_string_bytes limits)"
    using f(2) n moves_okD [OF m(2)] by (simp add: word_less_nat_alt unat_rd_remaining del: unsigned_of_nat)
  moreover have "read_bytes (of_nat (length s)) r1 = (Inr (bytes_of_string s), r')"
    using read_bytes_decode [OF m(2)] n by simp
  ultimately show ?thesis
    unfolding attribute_value_def silently_def
    using f(1) read_uleb_of [OF f(3) m(1)] value_string
    by (simp add: pcheck_def preturn_def pbind_def on_fail_def)
qed (use assms in simp)

lemma read_attribute_read:
  assumes "attribute_encoded limits a bs" "moves r bs r'"
  shows "read_attribute limits r = (Inr a, r')"
proof -
  obtain ns fs vs where a: "bs = ns @ fs @ vs" "uleb_of (unat (attr_name a)) ns" "uleb_of (unat (attr_form a)) fs"
    "value_encoded limits (attr_form a) (attr_value a) vs" using assms(1) by (auto simp: attribute_encoded_def)
  obtain r1 r2 where m: "moves r ns r1" "moves r1 fs r2" "moves r2 vs r'"
    using assms(2) by (auto simp: a(1) moves_append)
  show ?thesis
    unfolding read_attribute_def otherwise_def
    using read_uleb_u32 [OF a(2) m(1)] read_uleb_u32 [OF a(3) m(2)] attribute_value_read [OF a(4) m(3)]
    by (simp add: preturn_def pbind_def on_fail_def)
qed

lemma read_attributes_read:
  "list_all2 (attribute_encoded limits) attrs parts \<Longrightarrow> moves r (concat parts) r' \<Longrightarrow>
   prepeat (length attrs) (read_attribute limits) r = (Inr attrs, r')"
proof (induction attrs parts arbitrary: r rule: list_all2_induct)
  case (Cons a attrs b parts)
  obtain r1 where m: "moves r b r1" "moves r1 (concat parts) r'" using Cons.prems by (auto simp: moves_append)
  show ?case
    using read_attribute_read [OF Cons.hyps(1) m(1)] Cons.IH [OF m(2)] by (simp add: preturn_def)
qed (simp add: preturn_def)

lemma read_entry_read:
  assumes "list_all2 (attribute_encoded limits) attrs parts" "length attrs < 256"
    and "moves r [flag, of_nat (length attrs)] r1" "moves r1 (concat parts) r2"
  shows "read_entry limits (ucast tag) r = (Inr (DebugEntry (rd_position r1) tag (flag \<noteq> 0) attrs []), r2)"
proof -
  obtain r0 where m: "moves r [flag] r0" "moves r0 [of_nat (length attrs)] r1"
    using assms(3) moves_append [of r "[flag]" "[of_nat (length attrs)]" r1] by auto
  show ?thesis
    unfolding read_entry_def otherwise_def rd_tell_def
    using moves_u8 [OF m(1)] moves_u8 [OF m(2)] read_attributes_read [OF assms(1,4)] unat_of_nat_u8 [OF assms(2)]
    by (simp add: preturn_def pbind_def on_fail_def del: unsigned_of_nat)
qed

abbreviation push_all :: "nat \<Rightarrow> DebugEntry list \<Rightarrow> DebugEntry list \<Rightarrow> DebugEntry list" where
  "push_all d \<equiv> fold (push_entry d)"

lemma push_below:
  "push_entry (Suc d) c (push_entry d (DebugEntry off tag has attrs cs) es) =
   push_entry d (DebugEntry off tag has attrs (cs @ [c])) es"
  by (induction d arbitrary: es) (simp_all split: DebugEntry.split)

lemma push_all_below:
  "push_all (Suc d) cs (push_entry d (DebugEntry off tag has attrs bs) es) =
   push_entry d (DebugEntry off tag has attrs (bs @ cs)) es"
  by (induction cs arbitrary: bs) (simp_all only: fold_simps push_below append_assoc append_Cons append_Nil, simp_all)

lemma push_all_0: "push_all 0 cs es = es @ cs"
  by (induction cs arbitrary: es) auto

lemma moves_more: "moves r bs r' \<Longrightarrow> bs \<noteq> [] \<Longrightarrow> rd_remaining r \<noteq> 0"
  using moves_rest [of r bs r'] by (simp add: moves_okD rd_remaining_0_iff)

lemma read_entries_header:
  assumes "uleb_of (unat tag) ts" "tag \<noteq> 0" "d < unat (max_debug_depth limits)" "length attrs < 256"
    "list_all2 (attribute_encoded limits) attrs parts" "unat off = unat (rd_position r) + length ts + 2"
    and "moves r (ts @ [flag, of_nat (length attrs)] @ concat parts) r'"
  shows "read_entries limits entries d r =
    read_entries limits (push_entry d (DebugEntry off tag (flag \<noteq> 0) attrs []) entries)
      (if flag \<noteq> 0 then Suc d else d) r'"
proof -
  obtain r1 r2 where m: "moves r ts r1" "moves r1 [flag, of_nat (length attrs)] r2" "moves r2 (concat parts) r'"
    using assms(7) unfolding moves_append by blast
  have "unat (rd_position r2) = unat off" using moves_position [OF m(1)] moves_position [OF m(2)] assms(6) by simp
  then have off: "rd_position r2 = off" by (simp add: word_unat_eq_iff)
  have tag: "(ucast tag :: u64) \<noteq> 0" using assms(2) by (simp add: word_unat_eq_iff)
  show ?thesis
    using read_uleb_u32 [OF assms(1) m(1)] read_entry_read [OF assms(5,4) m(2,3), of tag] tag assms(3) off
      moves_more [OF m(1) uleb_of_nonempty [OF assms(1)]]
    by (subst read_entries.simps) simp
qed

lemma entries_encoded_read:
  "entries_encoded limits d p es bs \<Longrightarrow> moves r bs r' \<Longrightarrow> unat (rd_position r) = p \<Longrightarrow>
   read_entries limits entries d r = read_entries limits (push_all d es entries) d r'"
proof (induction arbitrary: r entries r' rule: entries_encoded.induct)
  case (no_entries d p)
  then show ?case by simp
next
  case (leaf_entry tag ts d attrs parts off p es bs)
  obtain r1 where m: "moves r (ts @ [0, of_nat (length attrs)] @ concat parts) r1" "moves r1 bs r'"
    using leaf_entry.prems(1) unfolding moves_append by blast
  have "read_entries limits entries d r =
      read_entries limits (push_entry d (DebugEntry off tag False attrs []) entries) d r1"
    using read_entries_header [OF leaf_entry.hyps(1-5) _ m(1)] leaf_entry.hyps(6) leaf_entry.prems(2) by simp
  moreover have "unat (rd_position r1) = p + length ts + 2 + length (concat parts)"
    using moves_position [OF m(1)] leaf_entry.prems(2) by simp
  ultimately show ?case using leaf_entry.IH [OF m(2)] by simp
next
  case (inner_entry tag ts d attrs parts off p flag children cs zs es bs)
  obtain r1 r2 r3 where m: "moves r (ts @ [flag, of_nat (length attrs)] @ concat parts) r1" "moves r1 cs r2"
      "moves r2 zs r3" "moves r3 bs r'"
    using inner_entry.prems(1) unfolding moves_append by blast
  let ?e = "DebugEntry off tag True attrs"
  have "read_entries limits entries d r = read_entries limits (push_entry d (?e []) entries) (Suc d) r1"
    using read_entries_header [OF inner_entry.hyps(1-5) _ m(1)] inner_entry.hyps(6,7) inner_entry.prems(2) by simp
  also have "\<dots> = read_entries limits (push_entry d (?e children) entries) (Suc d) r2"
  proof -
    have "unat (rd_position r1) = p + length ts + 2 + length (concat parts)"
      using moves_position [OF m(1)] inner_entry.prems(2) by simp
    from inner_entry.IH(1) [OF m(2) this, of "push_entry d (?e []) entries"] show ?thesis
      unfolding push_all_below append_Nil .
  qed
  also have "\<dots> = read_entries limits (push_entry d (?e children) entries) d r3"
    using read_uleb_of [OF inner_entry.hyps(9) m(3)] moves_more [OF m(3) uleb_of_nonempty [OF inner_entry.hyps(9)]]
    by (subst read_entries.simps) simp
  finally show ?case
    using inner_entry.IH(2) [OF m(4), of "push_entry d (?e children) entries"]
      moves_position [OF m(1)] moves_position [OF m(2)] moves_position [OF m(3)] inner_entry.prems(2)
    by simp
qed

section \<open>The depth of the tree\<close>

fun height_of :: "DebugEntry list \<Rightarrow> nat" where
  "height_of [] = 0"
| "height_of (DebugEntry off tag has attrs children # es) = max (Suc (height_of children)) (height_of es)"

fun spine :: "nat \<Rightarrow> DebugEntry list \<Rightarrow> bool" where
  "spine 0 es \<longleftrightarrow> True"
| "spine (Suc d) es \<longleftrightarrow> es \<noteq> [] \<and> spine d (ent_children (last es))"

lemma height_of_append: "height_of (xs @ ys) = max (height_of xs) (height_of ys)"
  by (induction xs rule: height_of.induct) auto

lemma height_of_last: "es \<noteq> [] \<Longrightarrow> last es = DebugEntry off tag has attrs cs \<Longrightarrow> Suc (height_of cs) \<le> height_of es"
  by (induction es rule: height_of.induct) (auto split: if_splits)

lemma height_of_butlast: "height_of (butlast es) \<le> height_of es"
proof (cases "es = []")
  case False
  then show ?thesis using height_of_append [of "butlast es" "[last es]"] by simp
qed simp

lemma height_of_push:
  "spine d es \<Longrightarrow> height_of (push_entry d e es) \<le> max (height_of es) (d + height_of [e])"
proof (induction d arbitrary: es)
  case 0
  then show ?case by (simp add: height_of_append)
next
  case (Suc d)
  obtain off tag has attrs cs where l: "last es = DebugEntry off tag has attrs cs" by (cases "last es")
  then have "height_of (push_entry d e cs) \<le> max (height_of cs) (d + height_of [e])"
    using Suc by (intro Suc.IH) simp
  moreover have "Suc (height_of cs) \<le> height_of es" using Suc.prems l by (intro height_of_last) auto
  ultimately show ?case using height_of_butlast [of es] l by (auto simp: height_of_append le_max_iff_disj)
qed

lemma spine_less: "spine (Suc d) es \<Longrightarrow> spine d es"
  by (induction d arbitrary: es) auto

lemma spine_push: "spine (Suc d) (push_entry d e es)"
  by (induction d arbitrary: es) (auto split: DebugEntry.split)

lemma push_after: "spine d es \<Longrightarrow> push_entry d e (xs @ es) = xs @ push_entry d e es"
  by (cases d) (auto simp: butlast_append split: DebugEntry.split)

lemma read_entries_bounded:
  "spine d new \<Longrightarrow> height_of new \<le> unat (max_debug_depth limits) \<Longrightarrow>
   \<exists>new'. snd (read_entries limits (old @ new) d r) = old @ new' \<and> height_of new' \<le> unat (max_debug_depth limits)"
proof (induction "unat (rd_remaining r)" arbitrary: new d r rule: less_induct)
  case less
  note stop = exI [of "\<lambda>new'. old @ new = old @ new' \<and> height_of new' \<le> unat (max_debug_depth limits)" new]
  show ?case
  proof (cases "rd_remaining r = 0")
    case True
    then show ?thesis using less.prems by (subst read_entries.simps) auto
  next
    case False
    obtain res r' where tag: "read_uleb128 r = (res, r')" by fastforce
    show ?thesis
    proof (cases res)
      case (Inl u)
      then show ?thesis using less.prems tag False by (subst read_entries.simps) auto
    next
      case (Inr t)
      then have less1: "unat (rd_remaining r') < unat (rd_remaining r)" using uleb_shrinks [of t r' r r'] tag by simp
      consider "t = 0" "d = 0" | d' where "t = 0" "d = Suc d'" | "t \<noteq> 0" "Suc d > unat (max_debug_depth limits)"
        | "t \<noteq> 0" "Suc d \<le> unat (max_debug_depth limits)" by (cases d) fastforce+
      then show ?thesis
      proof cases
        case 1
        then show ?thesis using less.prems tag Inr False by (subst read_entries.simps) auto
      next
        case 2
        then show ?thesis using less.hyps [OF less1, of d' new] less.prems tag Inr False spine_less
          by (subst read_entries.simps) simp
      next
        case 3
        then show ?thesis using less.prems tag Inr False by (subst read_entries.simps) auto
      next
        case 4
        obtain er r'' where entry: "read_entry limits t r' = (er, r'')" by fastforce
        show ?thesis
        proof (cases er)
          case (Inl e)
          then show ?thesis using less.prems tag Inr False 4 entry by (subst read_entries.simps) auto
        next
          case e: (Inr e)
          then obtain off tag' has attrs where shape: "e = DebugEntry off tag' has attrs []"
            using entry by (auto simp: read_entry_def rd_tell_def pbind_Inr split: prod.splits)
          have less2: "unat (rd_remaining r'') < unat (rd_remaining r)"
            using entry_shrinks [of t r' r e r'' limits] tag Inr entry e by simp
          have "height_of (push_entry d e new) \<le> unat (max_debug_depth limits)"
            using height_of_push [OF less.prems(1), of e] less.prems(2) 4 by (simp add: shape)
          then show ?thesis
            using less.hyps [OF less2, of "if has then Suc d else d" "push_entry d e new"] spine_push [of d e new]
              spine_less [OF spine_push [of d e new]] push_after [OF less.prems(1), of e old] tag Inr False 4 entry e
            by (subst read_entries.simps) (cases has, simp_all add: shape)
        qed
      qed
    qed
  qed
qed

section \<open>The properties\<close>

text \<open>
  C23. Debug entries are read as they are written: bytes that encode a forest of entries within the depth
  limit, in any admissible encoding of its numbers, and end there or go on with a null entry, are parsed
  without error, and exactly the forest is added to the unit.
\<close>

theorem debug_entries_roundtrip:
  assumes "entries_encoded limits 0 0 es bs" "tail = [] \<or> (\<exists>zs junk. tail = zs @ junk \<and> uleb_of 0 zs)"
    and "length (bs @ tail) \<le> unat (max_debug_bytes limits)"
  shows "parse_entries limits (Some (bs @ tail)) order unit = (Inr (), unit\<lparr>unit_entries := unit_entries unit @ es\<rparr>)"
proof -
  let ?r = "reader_of (bs @ tail) order"
  have ok: "reader_ok ?r"
    using assms(3) unat_u64_bound [of "max_debug_bytes limits"] by (intro reader_ok_reader_of) simp
  then have m: "moves ?r bs (rd_advance (length bs) ?r)" by (intro movesI [of _ _ tail]) simp_all
  let ?r' = "rd_advance (length bs) ?r" and ?all = "unit_entries unit @ es"
  have rest: "rd_rest ?r' = tail" using moves_rest [OF m] by simp
  have ok': "reader_ok ?r'" using moves_okD [OF m] by blast
  have "read_entries limits (unit_entries unit) 0 ?r = read_entries limits ?all 0 ?r'"
    using entries_encoded_read [OF assms(1) m] by (simp add: push_all_0)
  also have "\<dots> = (Inr (), ?all)"
  proof (cases "tail = []")
    case True
    then show ?thesis using rest ok' by (subst read_entries.simps) (simp add: rd_remaining_0_iff)
  next
    case False
    then obtain zs junk where z: "tail = zs @ junk" "uleb_of 0 zs" using assms(2) by blast
    then have mz: "moves ?r' zs (rd_advance (length zs) ?r')" using rest ok' by (intro movesI) simp_all
    show ?thesis
      using read_uleb_of [OF z(2) mz] moves_more [OF mz uleb_of_nonempty [OF z(2)]]
      by (subst read_entries.simps) simp
  qed
  finally show ?thesis using assms(3) by (simp add: parse_entries_def)
qed

definition demo_tree :: "DebugEntry list" where
  "demo_tree = [DebugEntry 3 0x11 True [\<lparr>attr_name = 3, attr_form = 3, attr_value = value_string ''a''\<rparr>]
     [DebugEntry 10 0x2e False [] []]]"

definition demo_unit :: DebugUnit where
  "demo_unit = \<lparr>unit_offset = 0, unit_length = 0, unit_version = 0, unit_address_size = 0, unit_files = [],
     unit_lines = [], unit_entries = []\<rparr>"

definition demo_tree_bytes :: bytes where
  "demo_tree_bytes = [0x11, 1, 1, 3, 3, 1, 97, 0x2e, 0, 0, 0]"

lemma demo_tree_encoded: "entries_encoded demo_limits 0 0 demo_tree demo_tree_bytes"
proof -
  have u: "uleb_of 0 [0]" "uleb_of 0x2e [0x2e]" "uleb_of 0x11 [0x11]" "uleb_of 3 [3]" "uleb_of 1 [1]"
    by (simp_all add: uleb_of_def)
  have "entries_encoded demo_limits 1 7 [DebugEntry 10 0x2e False [] []]
      ([0x2e] @ [0, of_nat (length ([] :: DebugAttribute list))] @ concat [] @ [])"
    using u by (intro leaf_entry no_entries) (simp_all add: demo_limits_def)
  then have inner: "entries_encoded demo_limits (Suc 0) 7 [DebugEntry 10 0x2e False [] []] [0x2e, 0, 0]" by simp
  have "value_encoded demo_limits 3 (value_string ''a'') ([1] @ bytes_of_string ''a'')"
    using u by (auto simp: demo_limits_def default_limits_def)
  then have "value_encoded demo_limits 3 (value_string ''a'') [1, 97]" by (simp add: byte_of_char_def)
  then have "attribute_encoded demo_limits \<lparr>attr_name = 3, attr_form = 3, attr_value = value_string ''a''\<rparr>
      ([3] @ [3] @ [1, 97])"
    unfolding attribute_encoded_def using u by (intro exI conjI) (rule refl, simp_all)
  then have attr: "attribute_encoded demo_limits \<lparr>attr_name = 3, attr_form = 3, attr_value = value_string ''a''\<rparr> [3, 3, 1, 97]"
    by simp
  have "entries_encoded demo_limits 0 0 demo_tree
      ([0x11] @ [1, of_nat (length [\<lparr>attr_name = 3, attr_form = 3, attr_value = value_string ''a''\<rparr>])] @
       concat [[3, 3, 1, 97]] @ [0x2e, 0, 0] @ [0] @ [])"
    unfolding demo_tree_def
  proof (rule inner_entry)
    have "0 + length [0x11 :: u8] + 2 + length (concat [[3, 3, 1, 97 :: u8]]) = 7" by simp
    then show "entries_encoded demo_limits (Suc 0) (0 + length [0x11 :: u8] + 2 + length (concat [[3, 3, 1, 97 :: u8]]))
        [DebugEntry 10 0x2e False [] []] [0x2e, 0, 0]" using inner by (simp only:)
    show "0 < unat (max_debug_depth demo_limits)" by (simp add: demo_limits_def)
  qed (use u attr in \<open>simp_all add: no_entries\<close>)
  then show ?thesis by (simp add: demo_tree_bytes_def)
qed

theorem debug_entries_roundtrip_witness:
  "parse_entries demo_limits (Some (demo_tree_bytes @ [])) little demo_unit =
    (Inr (), demo_unit\<lparr>unit_entries := demo_tree\<rparr>)"
proof -
  have "length (demo_tree_bytes @ []) \<le> unat (max_debug_bytes demo_limits)"
    by (simp add: demo_tree_bytes_def demo_limits_def)
  from debug_entries_roundtrip [OF demo_tree_encoded _ this] show ?thesis by (simp add: demo_unit_def)
qed

text \<open>
  Whatever the input and the outcome, parsing entries only adds to the entries of the unit, changes
  nothing else of it, and what it adds is nested at most as deep as the limit.
\<close>

theorem debug_entries_bounded:
  "\<exists>new. snd (parse_entries limits data order unit) = unit\<lparr>unit_entries := unit_entries unit @ new\<rparr> \<and>
    height_of new \<le> unat (max_debug_depth limits)"
proof -
  have "\<exists>new. snd (read_entries limits (unit_entries unit) 0 r) = unit_entries unit @ new \<and>
      height_of new \<le> unat (max_debug_depth limits)" for r
    using read_entries_bounded [of 0 "[]" limits "unit_entries unit" r] by simp
  then have read: "\<exists>new. unit\<lparr>unit_entries := snd (read_entries limits (unit_entries unit) 0 r)\<rparr> =
      unit\<lparr>unit_entries := unit_entries unit @ new\<rparr> \<and> height_of new \<le> unat (max_debug_depth limits)" for r
    by metis
  have same: "\<exists>new. unit = unit\<lparr>unit_entries := unit_entries unit @ new\<rparr> \<and> height_of new \<le> unat (max_debug_depth limits)"
    by (rule exI [of _ "[]"]) simp
  show ?thesis
    using read same unfolding parse_entries_def by (auto simp: case_prod_beta split: option.splits)
qed

end
