(* ===== verification/Debug_Lines.thy ===== *)
theory Debug_Lines
  imports Debug_Entries
begin

unbundle bit_operations_syntax

text \<open>
  The line program of \<open>Debug_Info\<close> against the state machine of the DWARF line number programs: the
  instructions as data, their encodings (every LEB128 form), what they do to the registers, and the
  layout of a unit. The parser runs an encoded program as the machine runs its instructions.
\<close>

section \<open>The machine\<close>

datatype LineOp =
    op_copy | op_advance_pc u64 | op_advance_line i64 | op_set_file u32 | op_negate | op_no_effect u8
  | op_special u8 | op_end_sequence | op_set_address u64 | op_unknown_extended u8

definition advance_address :: "nat \<Rightarrow> LineState \<Rightarrow> LineState option" where
  "advance_address n s = (if unat (ls_address s) + n < 2 ^ 64
     then Some (s\<lparr>ls_address := of_nat (unat (ls_address s) + n)\<rparr>) else None)"

definition advance_line :: "int \<Rightarrow> LineState \<Rightarrow> LineState option" where
  "advance_line k s = (if 0 \<le> sint (ls_line s) + k \<and> sint (ls_line s) + k < 2 ^ 63
     then Some (s\<lparr>ls_line := of_int (sint (ls_line s) + k)\<rparr>) else None)"

fun line_exec :: "LineHeader \<Rightarrow> LineOp \<Rightarrow> LineState \<Rightarrow> LineState option" where
  "line_exec h op_copy s = Some (emit_row False s)"
| "line_exec h (op_advance_pc n) s = advance_address (unat n * unat (lh_minimum h)) s"
| "line_exec h (op_advance_line k) s = advance_line (sint k) s"
| "line_exec h (op_set_file f) s = Some (s\<lparr>ls_file := f\<rparr>)"
| "line_exec h op_negate s = Some (s\<lparr>ls_statement := \<not> ls_statement s\<rparr>)"
| "line_exec h (op_no_effect b) s = Some s"
| "line_exec h (op_special b) s =
     (let adjusted = unat b - unat (lh_opcode_base h); range = unat (lh_line_range h) in
      case advance_address (adjusted div range * unat (lh_minimum h)) s of
        None \<Rightarrow> None
      | Some s' \<Rightarrow> map_option (emit_row False) (advance_line (sint (lh_line_base h) + int (adjusted mod range)) s'))"
| "line_exec h op_end_sequence s = Some (line_start h (ls_rows (emit_row True s)))"
| "line_exec h (op_set_address a) s = Some (s\<lparr>ls_address := a\<rparr>)"
| "line_exec h (op_unknown_extended b) s = Some s"

fun run_ops :: "LineHeader \<Rightarrow> LineOp list \<Rightarrow> LineState \<Rightarrow> LineState option" where
  "run_ops h [] s = Some s"
| "run_ops h (i # is) s = (case line_exec h i s of None \<Rightarrow> None | Some s' \<Rightarrow> run_ops h is s')"

section \<open>Encodings\<close>

fun op_encoded :: "ByteOrder \<Rightarrow> u8 \<Rightarrow> LineHeader \<Rightarrow> LineOp \<Rightarrow> bytes \<Rightarrow> bool" where
  "op_encoded order asz h op_copy bs \<longleftrightarrow> bs = [1] \<and> 1 < lh_opcode_base h"
| "op_encoded order asz h (op_advance_pc n) bs \<longleftrightarrow>
     2 < lh_opcode_base h \<and> (\<exists>us. bs = 2 # us \<and> uleb_of (unat n) us)"
| "op_encoded order asz h (op_advance_line k) bs \<longleftrightarrow>
     3 < lh_opcode_base h \<and> (\<exists>us. bs = 3 # us \<and> leb_framed us \<and> length us \<le> 10 \<and> k = of_int (sleb_value us))"
| "op_encoded order asz h (op_set_file f) bs \<longleftrightarrow>
     4 < lh_opcode_base h \<and> (\<exists>us. bs = 4 # us \<and> uleb_of (unat f) us)"
| "op_encoded order asz h op_negate bs \<longleftrightarrow> bs = [6] \<and> 6 < lh_opcode_base h"
| "op_encoded order asz h (op_no_effect b) bs \<longleftrightarrow> bs = [b] \<and> b \<in> {7, 10, 11} \<and> b < lh_opcode_base h"
| "op_encoded order asz h (op_special b) bs \<longleftrightarrow> bs = [b] \<and> b \<noteq> 0 \<and> lh_opcode_base h \<le> b"
| "op_encoded order asz h op_end_sequence bs \<longleftrightarrow>
     (\<exists>us body. bs = 0 # us @ 1 # body \<and> uleb_of (Suc (length body)) us)"
| "op_encoded order asz h (op_set_address a) bs \<longleftrightarrow>
     (\<exists>us. uleb_of (Suc (unat asz)) us \<and>
       (if asz = 4 then unat a < 2 ^ 32 \<and> bs = 0 # us @ 2 # order_bytes order 4 (ucast a :: u32)
        else bs = 0 # us @ 2 # order_bytes order 8 a))"
| "op_encoded order asz h (op_unknown_extended b) bs \<longleftrightarrow>
     b \<noteq> 1 \<and> b \<noteq> 2 \<and> (\<exists>us body. bs = 0 # us @ b # body \<and> uleb_of (Suc (length body)) us)"

section \<open>One instruction\<close>

lemma extended_header:
  assumes "moves r us r1" "uleb_of (Suc n) us" "n < length (rd_rest r1)"
  shows "extended_length r =
    (Inr (of_nat (Suc n)), r1)" and "(of_nat (Suc n) :: u64) - 1 = of_nat n" and "unat (of_nat n :: u64) = n"
    and "unat (of_nat (Suc n) :: u64) = Suc n"
proof -
  have ok: "reader_ok r1" using assms(1) moves_okD by blast
  have "Suc n < 18446744073709551616" using assms(3) length_rd_rest_bound [OF ok] by simp
  then show u: "unat (of_nat (Suc n) :: u64) = Suc n" and "unat (of_nat n :: u64) = n"
    by (intro unat_of_nat_u64; simp)+
  show "(of_nat (Suc n) :: u64) - 1 = of_nat n" by simp
  have "(of_nat (Suc n) :: u64) \<noteq> 0" using u by (metis unat_0 nat.distinct(1))
  moreover have "\<not> of_nat (Suc n) > rd_remaining r1"
    using u assms(3) ok by (simp add: word_less_nat_alt unat_rd_remaining del: of_nat_Suc)
  ultimately show "extended_length r =
      (Inr (of_nat (Suc n)), r1)"
    using read_uleb_of [OF assms(2,1)] by (simp add: extended_length_def pcheck_def preturn_def pbind_def del: of_nat_Suc)
qed

lemma advance_address_checked:
  assumes "advance_address (unat (d :: u64)) s = Some s'"
  shows "\<exists>a. checked_add (ls_address s) d = Some a \<and> s' = s\<lparr>ls_address := a\<rparr>"
  using assms by (auto simp: advance_address_def add_op.op_exact split: if_splits)

lemma sint_of_int_small: "- (2 ^ 63) \<le> k \<Longrightarrow> k < 2 ^ 63 \<Longrightarrow> sint (of_int k :: i64) = k"
  by (simp add: sint_sbintrunc' signed_take_bit_int_eq_self)

lemma unat_mult_small:
  assumes "unat (a :: u64) * unat (b :: u64) < 2 ^ 64"
  shows "unat (a * b :: u64) = unat a * unat b"
  using unat_of_nat_u64 [of "unat a * unat b"] assms by simp

lemma advance_line_word:
  assumes "advance_line (sint (k :: i64)) s = Some s'"
  shows "\<not> sint (ls_line s + k) < 0 \<and> s' = s\<lparr>ls_line := ls_line s + k\<rparr>"
proof -
  have r: "0 \<le> sint (ls_line s) + sint k" "sint (ls_line s) + sint k < 2 ^ 63"
    and s': "s' = s\<lparr>ls_line := of_int (sint (ls_line s) + sint k)\<rparr>"
    using assms by (auto simp: advance_line_def split: if_splits)
  have e: "(of_int (sint (ls_line s) + sint k) :: i64) = ls_line s + k" by simp
  have "sint (of_int (sint (ls_line s) + sint k) :: i64) = sint (ls_line s) + sint k"
    using r by (intro sint_of_int_small) simp_all
  then show ?thesis using r(1) s' unfolding e by simp
qed

lemma line_opcode_standard:
  assumes "op_encoded order asz h i (b # bs)" "line_exec h i s = Some s'" "moves r bs r'"
    and "b \<noteq> 0" "b < lh_opcode_base h"
  shows "standard_opcode h s b r = (Inr s', r')"
proof (cases i)
  case (op_advance_pc n)
  then have b: "b = 2" "read_uleb128 r = (Inr n, r')" using assms(1,3) read_uleb_word [of n bs r r'] by auto
  have "unat (n * ucast (lh_minimum h)) = unat n * unat (lh_minimum h)"
  proof -
    have "unat n * unat (lh_minimum h) < 2 ^ 64"
      using assms(2) op_advance_pc by (auto simp: advance_address_def split: if_splits)
    then have "unat (of_nat (unat n * unat (lh_minimum h)) :: u64) = unat n * unat (lh_minimum h)"
      by (intro unat_of_nat_u64) simp
    then show ?thesis by simp
  qed
  then obtain a where "checked_add (ls_address s) (n * ucast (lh_minimum h)) = Some a" "s' = s\<lparr>ls_address := a\<rparr>"
    using advance_address_checked [of "n * ucast (lh_minimum h)" s s'] assms(2) op_advance_pc by auto
  then show ?thesis using b by (simp add: standard_opcode_def otherwise_def plift_def pbind_def on_fail_def)
next
  case (op_advance_line k)
  then have b: "b = 3" "read_sleb128 r = (Inr k, r')" using assms(1,3) read_sleb128_complete [of r bs r'] by auto
  moreover have "\<not> sint (ls_line s + k) < 0 \<and> s' = s\<lparr>ls_line := ls_line s + k\<rparr>"
    using assms(2) op_advance_line by (intro advance_line_word) simp
  ultimately show ?thesis
    by (simp add: standard_opcode_def silently_def pbind_def on_fail_def rd_tell_def preturn_def)
next
  case (op_set_file f)
  then have b: "b = 4" "read_uleb128 r = (Inr (ucast f), r')" using assms(1,3) read_uleb_u32 [of f bs r r'] by auto
  have "(ucast f :: u64) \<le> 0xffffffff" using unat_u32_bound [of f] by (simp add: word_le_nat_alt)
  then show ?thesis using b assms(2) op_set_file
    by (simp add: standard_opcode_def silently_def pbind_def on_fail_def pcheck_def preturn_def)
next
  case op_copy
  then have "b = 1" "bs = []" "s' = emit_row False s" using assms(1,2) by simp_all
  then show ?thesis using assms(3) by (simp add: standard_opcode_def preturn_def)
next
  case op_negate
  then have "b = 6" "bs = []" "s' = s\<lparr>ls_statement := \<not> ls_statement s\<rparr>" using assms(1,2) by simp_all
  then show ?thesis using assms(3) by (simp add: standard_opcode_def preturn_def)
next
  case (op_no_effect c)
  then have "b = c" "bs = []" "c \<in> {7, 10, 11}" "s' = s" using assms(1,2) by simp_all
  then show ?thesis using assms(3) by (auto simp add: standard_opcode_def preturn_def)
next
  case (op_special c)
  then have "b = c" "lh_opcode_base h \<le> c" using assms(1) by simp_all
  then show ?thesis using assms(5) by simp
next
  case op_end_sequence
  then show ?thesis using assms(1,4) by simp
next
  case (op_set_address c)
  then show ?thesis using assms(1,4) by (simp split: if_splits)
next
  case (op_unknown_extended c)
  then show ?thesis using assms(1,4) by simp
qed

lemma line_opcode_special:
  assumes "line_exec h (op_special b) s = Some s'" "lh_opcode_base h \<le> b"
  shows "special_opcode h s b r = (Inr s', r)"
proof -
  let ?adj = "b - lh_opcode_base h" and ?range = "lh_line_range h"
  let ?da = "ucast (?adj div ?range) * ucast (lh_minimum h) :: u64"
  let ?dl = "scast (lh_line_base h) + ucast (?adj mod ?range) :: i64"
  have adj: "unat ?adj = unat b - unat (lh_opcode_base h)" using assms(2) by (simp add: unat_minus_bounded)
  have u8: "unat (x :: u8) * unat (y :: u8) < 18446744073709551616" for x y
    using mult_strict_mono [OF unat_u8_bound [of x] unat_u8_bound [of y]] by simp
  have "unat ?da = unat (?adj div ?range) * unat (lh_minimum h)"
    using u8 [of "?adj div ?range" "lh_minimum h"] by (subst unat_mult_small) simp_all
  then have da: "unat ?da = unat ?adj div unat ?range * unat (lh_minimum h)" by (simp only: unat_div)
  let ?k = "sint (lh_line_base h) + int (unat ?adj mod unat ?range)"
  have "scast (lh_line_base h) = (of_int (sint (lh_line_base h)) :: i64)" by simp
  moreover have "ucast (?adj mod ?range) = (of_int (int (unat ?adj mod unat ?range)) :: i64)"
    by (simp only: of_int_of_nat_eq unat_mod [symmetric]) simp
  ultimately have dl_int: "?dl = of_int ?k" by (simp only: of_int_add)
  have m256: "int (unat ?adj mod unat ?range) < 256"
    using unat_u8_bound [of ?adj] mod_less_eq_dividend [of "unat ?adj" "unat ?range"] by linarith
  then have "- (2 ^ 63) \<le> ?k" "?k < 2 ^ 63"
    using sint_greater_eq [of "lh_line_base h"] sint_less [of "lh_line_base h"] m256 by simp_all
  then have dl: "sint ?dl = ?k" unfolding dl_int by (rule sint_of_int_small)
  obtain s1 s2 where s: "advance_address (unat ?da) s = Some s1" "advance_line (sint ?dl) s1 = Some s2" "s' = emit_row False s2"
    using assms(1) unfolding da dl adj by (auto simp: Let_def split: option.splits)
  then obtain a where a: "checked_add (ls_address s) ?da = Some a" "s1 = s\<lparr>ls_address := a\<rparr>"
    using advance_address_checked by blast
  have "\<not> sint (ls_line s1 + ?dl) < 0 \<and> s2 = s1\<lparr>ls_line := ls_line s1 + ?dl\<rparr>"
    using s(2) by (rule advance_line_word)
  then show ?thesis using a s(3)
    by (simp add: special_opcode_def rd_tell_def Let_def preturn_def)
qed

lemma line_opcode_extended:
  assumes "op_encoded order asz h i (0 # bs)" "line_exec h i s = Some s'" "moves r bs r'" "rd_order r = order"
    and "asz = 4 \<or> asz = 8"
  shows "extended_opcode asz h s r = (Inr s', r')"
proof -
  have step: "extended_opcode asz h s r = (Inr s', r')"
    if bs: "bs = us @ e # body" "uleb_of (Suc (length body)) us"
      and rest: "\<And>r2. moves r2 body r' \<Longrightarrow> rd_order r2 = order \<Longrightarrow>
        (if e = 1 then skip_anyway (of_nat (length body)) (line_start h (ls_rows (emit_row True s)))
         else if e = 2 then
           if of_nat (length body) \<noteq> (ucast asz :: u64)
           then rd_tell (\<lambda>position. pfail (Some (mk_error invalid_debug_info position ''invalid set-address width'')))
           else pbind (if asz = 4 then pbind (silently read_u32) (\<lambda>v. preturn (ucast v)) else silently read_u64)
             (\<lambda>value. preturn (s\<lparr>ls_address := value\<rparr>))
         else skip_anyway (of_nat (length body)) s) r2 = (Inr s', r')"
    for us e body
  proof -
    obtain r1 r2 where m: "moves r us r1" "moves r1 [e] r2" "moves r2 body r'"
      using assms(3) moves_append [of _ "[e]" body] unfolding bs(1) moves_append [of r us "e # body"] by auto
    have "length body < length (rd_rest r1)" using moves_rest [OF m(2)] moves_rest [OF m(3)] by simp
    note head = extended_header [OF m(1) bs(2) this]
    have "rd_order r2 = order" using m assms(4) by simp
    note tail = rest [OF m(3) this]
    have u8: "silently read_u8 r1 = (Inr e, r2)" by (simp add: silently_def moves_u8 [OF m(2)])
    have "otherwise extended_length (\<lambda>r. mk_error truncated (rd_position r) ''extended line opcode truncated'') r =
        (Inr (of_nat (Suc (length body))), r1)"
      by (simp add: otherwise_def head(1) del: of_nat_Suc)
    then show ?thesis
      unfolding extended_opcode_def by (simp only: pbind_step u8 head(2) tail)
  qed
  have skip: "skip_anyway (of_nat (length body)) x r2 = (Inr x, r')" if "moves r2 body r'" for body x r2
    using skip_moves [OF that] by (simp add: skip_anyway_def)
  show ?thesis
  proof (cases i)
    case op_end_sequence
    then obtain us body where b: "bs = us @ 1 # body" "uleb_of (Suc (length body)) us" using assms(1) by auto
    show ?thesis by (rule step [OF b]) (use assms(2) op_end_sequence skip in simp)
  next
    case (op_unknown_extended b)
    then obtain us body where us: "bs = us @ b # body" "uleb_of (Suc (length body)) us" and b: "b \<noteq> 1" "b \<noteq> 2"
      using assms(1) by auto
    show ?thesis by (rule step [OF us]) (use assms(2) op_unknown_extended b skip in simp)
  next
    case (op_set_address a)
    then obtain us body where us: "bs = us @ 2 # body" "uleb_of (Suc (unat asz)) us"
        "body = (if asz = 4 then order_bytes order 4 (ucast a :: u32) else order_bytes order 8 a)"
        "asz = 4 \<longrightarrow> unat a < 2 ^ 32"
      using assms(1) by (auto split: if_splits)
    have len: "length body = unat asz" using us(3) assms(5) by auto
    have s': "s' = s\<lparr>ls_address := a\<rparr>" using assms(2) op_set_address by simp
    have narrow: "(ucast (ucast a :: u32) :: u64) = a" if "asz = 4"
      using us(4) that by (simp add: word_unat_eq_iff unsigned_ucast_eq unsigned_take_bit_eq take_bit_nat_eq_self)
    show ?thesis
    proof (rule step [OF us(1)])
      show "uleb_of (Suc (length body)) us" using us(2) len by simp
      fix r2 assume m: "moves r2 body r'" "rd_order r2 = order"
      show "(if (2 :: u8) = 1 then skip_anyway (of_nat (length body)) (line_start h (ls_rows (emit_row True s)))
         else if (2 :: u8) = 2 then
           if of_nat (length body) \<noteq> (ucast asz :: u64)
           then rd_tell (\<lambda>position. pfail (Some (mk_error invalid_debug_info position ''invalid set-address width'')))
           else pbind (if asz = 4 then pbind (silently read_u32) (\<lambda>v. preturn (ucast v)) else silently read_u64)
             (\<lambda>value. preturn (s\<lparr>ls_address := value\<rparr>))
         else skip_anyway (of_nat (length body)) s) r2 = (Inr s', r')"
        using order_bytes_read(2) [of r2 "ucast a" r'] order_bytes_read(3) [of r2 a r'] m us(3) assms(5) narrow s' len
        by (auto simp: silently_def pbind_def on_fail_def preturn_def)
    qed
  qed (use assms(1) in \<open>auto simp: not_le\<close>)
qed

section \<open>Programs\<close>

lemma op_encoded_first: "op_encoded order asz h i bs \<Longrightarrow> \<exists>b t. bs = b # t"
  by (cases i) (auto split: if_splits)

lemma op_first_zero: "op_encoded order asz h i (0 # bs) \<Longrightarrow> line_exec h i s = Some s' \<Longrightarrow> moves r bs r' \<Longrightarrow>
    rd_order r = order \<Longrightarrow> asz = 4 \<or> asz = 8 \<Longrightarrow> line_opcode asz h s 0 r = (Inr s', r')"
  by (simp add: line_opcode_def line_opcode_extended)

lemma op_first_special:
  assumes "op_encoded order asz h i (b # bs)" "b \<noteq> 0" "lh_opcode_base h \<le> b"
  shows "i = op_special b \<and> bs = []"
  using assms by (cases i) (auto split: if_splits)

lemma line_opcode_read:
  assumes "op_encoded order asz h i (b # bs)" "line_exec h i s = Some s'" "moves r bs r'" "rd_order r = order"
    and "asz = 4 \<or> asz = 8"
  shows "line_opcode asz h s b r = (Inr s', r')"
proof -
  consider "b = 0" | "b \<noteq> 0" "b < lh_opcode_base h" | "b \<noteq> 0" "lh_opcode_base h \<le> b" by fastforce
  then show ?thesis
  proof cases
    case 1
    then show ?thesis using assms op_first_zero by simp
  next
    case 2
    then show ?thesis using line_opcode_standard [OF assms(1-3)] by (simp add: line_opcode_def)
  next
    case 3
    then have i: "i = op_special b" "bs = []" using op_first_special [OF assms(1)] by simp_all
    then show ?thesis
      using line_opcode_special [of h b s s' r] assms(2,3) 3 by (simp add: line_opcode_def leD)
  qed
qed

lemma line_exec_rows: "line_exec h i s = Some s' \<Longrightarrow> length (ls_rows s) \<le> length (ls_rows s')"
  by (cases i) (auto simp: Let_def advance_address_def advance_line_def line_start_def emit_row_def split: if_splits option.splits)

lemma run_ops_rows: "run_ops h is s = Some s' \<Longrightarrow> length (ls_rows s) \<le> length (ls_rows s')"
  by (induction "is" arbitrary: s) (auto split: option.splits dest: line_exec_rows intro: le_trans)

lemma run_ops_read:
  assumes "list_all2 (op_encoded order asz h) is parts" "asz = 4 \<or> asz = 8"
  shows "moves r (concat parts) r' \<Longrightarrow> rd_order r = order \<Longrightarrow> run_ops h is s = Some s' \<Longrightarrow>
    length (ls_rows s') < unat (max_line_rows limits) \<Longrightarrow>
    run_lines limits asz h s r = run_lines limits asz h s' r'"
  using assms(1)
proof (induction "is" parts arbitrary: r s rule: list_all2_induct)
  case (Cons i "is" b bs)
  obtain r1 where m: "moves r b r1" "moves r1 (concat bs) r'" using Cons.prems(1) by (auto simp: moves_append)
  obtain s1 where s1: "line_exec h i s = Some s1" "run_ops h is s1 = Some s'"
    using Cons.prems(3) by (auto split: option.splits)
  obtain c t where b: "b = c # t" using op_encoded_first [OF Cons.hyps(1)] by blast
  obtain r0 where m0: "moves r [c] r0" "moves r0 t r1" using m(1) moves_append [of r "[c]" t r1] b by auto
  have "line_opcode asz h s c r0 = (Inr s1, r1)"
    using Cons.hyps(1) s1(1) m0 Cons.prems(2) assms(2) unfolding b by (intro line_opcode_read) simp_all
  moreover have "length (ls_rows s) < unat (max_line_rows limits)"
    using run_ops_rows [of h "i # is" s s'] Cons.prems(3,4) by simp
  ultimately have "run_lines limits asz h s r = run_lines limits asz h s1 r1"
    using moves_u8 [OF m0(1)] moves_more [OF m0(1)] by (subst run_lines.simps) simp
  then show ?case using Cons.IH [OF m(2) _ s1(2) Cons.prems(4)] m(1) Cons.prems(2) by simp
qed simp

section \<open>The file table\<close>

definition file_table :: "string list \<Rightarrow> bytes" where
  "file_table files = concat (map (\<lambda>f. bytes_of_string f @ [0]) files) @ [0]"

lemma takeWhile_to_zero: "0 \<notin> set xs \<Longrightarrow> takeWhile (\<lambda>b. b \<noteq> 0) (xs @ 0 # t) = (xs :: bytes)"
  by (induction xs) auto

lemma c_string_read:
  assumes "moves r (bytes_of_string f @ [0]) r'" "0 \<notin> set (bytes_of_string f)"
    and "unat (rd_position r') \<le> unat stop" "stop \<le> rd_size r"
  shows "rd_position r < stop" "read_c_string r (rd_position r) (stop - rd_position r) = Some f"
proof -
  have p: "unat (rd_position r') = unat (rd_position r) + length f + 1" using moves_position [OF assms(1)] by simp
  then show less: "rd_position r < stop" using assms(3) by (simp add: word_less_nat_alt)
  have ok: "reader_ok r" using moves_okD [OF assms(1)] by blast
  then obtain d where d: "rd_data r = Some d" by (auto simp: reader_ok_def split: option.splits)
  let ?n = "unat stop - unat (rd_position r)"
  have n: "unat (stop - rd_position r) = ?n" using less by (simp add: unat_minus_bounded)
  have "drop (unat (rd_position r)) d = bytes_of_string f @ [0] @ rd_rest r'"
    using moves_rest [OF assms(1)] d by (simp add: rd_rest_def)
  moreover have "length f + 1 \<le> ?n" using p assms(3) by simp
  ultimately have t: "take ?n (drop (unat (rd_position r)) d) =
      bytes_of_string f @ 0 # take (?n - (length f + 1)) (rd_rest r')"
    by (simp add: take_Cons')
  have "takeWhile (\<lambda>b. b \<noteq> 0) (take ?n (drop (unat (rd_position r)) d)) = bytes_of_string f"
    "0 \<in> set (take ?n (drop (unat (rd_position r)) d))"
    unfolding t using assms(2) takeWhile_to_zero by simp_all
  moreover have "\<not> (rd_position r > rd_size r \<or> stop - rd_position r > rd_size r - rd_position r)"
  proof -
    have "rd_position r \<le> rd_size r" using ok by (simp add: reader_ok_def)
    then show ?thesis using assms(4) n less
      by (simp add: word_less_nat_alt word_le_nat_alt unat_minus_bounded not_less)
  qed
  ultimately show "read_c_string r (rd_position r) (stop - rd_position r) = Some f"
    using d n by (simp add: read_c_string_def)
qed

lemma read_files_read:
  assumes "moves r (file_table files) r'" "unat (rd_position r') \<le> unat stop" "stop \<le> rd_size r"
    and "\<forall>f \<in> set files. f \<noteq> [] \<and> 0 \<notin> set (bytes_of_string f)"
    and "length acc + length files \<le> unat (max_string_bytes limits)"
  shows "read_files limits stop acc r = (Inr (), acc @ files, r')"
  using assms
proof (induction files arbitrary: r acc)
  case Nil
  then have m: "moves r (bytes_of_string [] @ [0]) r'" by (simp add: file_table_def)
  note c = c_string_read [OF m _ Nil.prems(2,3)]
  have "snd (rd_skip 1 r) = r'" using skip_moves [OF m] by simp
  then show ?case using c by (subst read_files.simps) simp
next
  case (Cons f files)
  obtain r1 where m: "moves r (bytes_of_string f @ [0]) r1" "moves r1 (file_table files) r'"
    using Cons.prems(1) moves_append [of r "bytes_of_string f @ [0]" "file_table files" r'] by (auto simp: file_table_def)
  have f: "f \<noteq> []" "0 \<notin> set (bytes_of_string f)" using Cons.prems(4) by simp_all
  have "unat (rd_position r1) \<le> unat stop" using moves_position [OF m(2)] Cons.prems(2) by simp
  note c = c_string_read [OF m(1) f(2) this Cons.prems(3)]
  have skip: "snd (rd_skip (of_nat (length f + 1)) r) = r1" using skip_moves [OF m(1)] by simp
  have "read_files limits stop acc r = read_files limits stop (acc @ [f]) r1"
    using c skip f(1) Cons.prems(5) by (subst read_files.simps) (simp del: of_nat_add of_nat_Suc)
  also have "\<dots> = (Inr (), (acc @ [f]) @ files, r')"
    using Cons.prems(4,5) by (intro Cons.IH m(2) Cons.prems(2)) (simp_all add: Cons.prems(3) moves_size [OF m(1)])
  finally show ?case by simp
qed

section \<open>Units\<close>

definition header_rest :: "bytes \<Rightarrow> string list \<Rightarrow> bytes \<Rightarrow> nat" where
  \<comment> \<open>what \<open>header_length\<close> counts: the parameters, the opcode lengths, the file table and the padding\<close>
  "header_rest lengths files pad = 5 + length lengths + length (file_table files) + length pad"

definition line_unit :: "ByteOrder \<Rightarrow> LineHeader \<Rightarrow> bytes \<Rightarrow> string list \<Rightarrow> bytes \<Rightarrow> bytes \<Rightarrow> bytes" where
  "line_unit order h lengths files pad program =
    order_bytes order 4 (lh_unit_length h) @ order_bytes order 2 (lh_version h) @
    order_bytes order 4 (of_nat (header_rest lengths files pad) :: u32) @
    [lh_minimum h, lh_statement h, lh_line_base h, lh_line_range h, lh_opcode_base h] @ lengths @
    file_table files @ pad @ program"

definition line_unit_ok :: "LineHeader \<Rightarrow> bytes \<Rightarrow> string list \<Rightarrow> bytes \<Rightarrow> bytes \<Rightarrow> bool" where
  "line_unit_ok h lengths files pad program \<longleftrightarrow>
     unat (lh_unit_length h) \<le> 6 + header_rest lengths files pad + length program \<and>
     2 \<le> lh_version h \<and> lh_version h \<le> 5 \<and> header_rest lengths files pad < 2 ^ 32 \<and>
     lh_minimum h \<noteq> 0 \<and> lh_line_range h \<noteq> 0 \<and> lh_opcode_base h \<noteq> 0 \<and>
     length lengths = unat (lh_opcode_base h) - 1 \<and>
     lh_program_start h = of_nat (10 + header_rest lengths files pad) \<and>
     (\<forall>f \<in> set files. f \<noteq> [] \<and> 0 \<notin> set (bytes_of_string f))"

lemma bounded_u32_read:
  assumes "moves r (order_bytes (rd_order r) 4 v) r'" "unat v \<le> length (rd_rest r')"
  shows "bounded_u32 r = (Inr v, r')"
proof -
  have "ucast v \<le> rd_remaining r'"
    using assms(2) moves_okD [OF assms(1)] by (simp add: word_le_nat_alt unat_rd_remaining)
  then show ?thesis
    using order_bytes_read(2) [OF assms(1)] by (simp add: bounded_u32_def pcheck_def preturn_def pbind_def)
qed

lemma line_version_read:
  assumes "moves r (order_bytes (rd_order r) 2 v) r'" "2 \<le> v" "v \<le> 5"
  shows "line_version r = (Inr v, r')"
  using order_bytes_read(1) [OF assms(1)] assms(2,3)
  by (simp add: line_version_def pcheck_def preturn_def pbind_def not_less)

lemma line_parameters_read:
  assumes "moves r [a, b, c, d, e] r'" "a \<noteq> 0" "d \<noteq> 0"
  shows "line_parameters r = (Inr (a, b, c, d, e), r')"
proof -
  obtain r1 r2 r3 r4 where m: "moves r [a] r1" "moves r1 [b] r2" "moves r2 [c] r3" "moves r3 [d] r4" "moves r4 [e] r'"
    using assms(1) moves_append [of r "[a]" "[b, c, d, e]" r'] moves_append [of _ "[b]" "[c, d, e]" r']
      moves_append [of _ "[c]" "[d, e]" r'] moves_append [of _ "[d]" "[e]" r'] by auto
  note u8 = moves_u8 [OF m(1)] moves_u8 [OF m(2)] moves_u8 [OF m(3)] moves_u8 [OF m(4)] moves_u8 [OF m(5)]
  show ?thesis
    using assms(2,3) by (simp add: line_parameters_def pbind_def u8 pcheck_def preturn_def)
qed

lemma line_header_read:
  assumes ok: "line_unit_ok h lengths files pad program"
    and m: "moves r (order_bytes (rd_order r) 4 (lh_unit_length h)) r1"
      "moves r1 (order_bytes (rd_order r) 2 (lh_version h)) r2"
      "moves r2 (order_bytes (rd_order r) 4 (of_nat (header_rest lengths files pad) :: u32)) r3"
      "moves r3 [lh_minimum h, lh_statement h, lh_line_base h, lh_line_range h, lh_opcode_base h] r4"
      "moves r4 lengths r5"
    and start: "rd_position r = 0" and rest: "rd_rest r5 = file_table files @ pad @ program"
  shows "line_header r = (Inr h, r5)"
proof -
  let ?hl = "header_rest lengths files pad"
  have hl: "unat (of_nat ?hl :: u32) = ?hl" using ok by (intro unat_of_nat_u32) (simp add: line_unit_ok_def)
  have r3: "length (rd_rest r3) = ?hl + length program"
    using moves_rest [OF m(4)] moves_rest [OF m(5)] rest by (simp add: header_rest_def)
  have r1: "length (rd_rest r1) = 6 + ?hl + length program"
    using moves_rest [OF m(2)] moves_rest [OF m(3)] r3 by simp
  have o1: "rd_order r1 = rd_order r" "rd_order r2 = rd_order r" using m by simp_all
  have 1: "bounded_u32 r = (Inr (lh_unit_length h), r1)"
    using m(1) r1 ok by (intro bounded_u32_read) (simp_all add: line_unit_ok_def)
  have 2: "line_version r1 = (Inr (lh_version h), r2)"
    using m(2) ok o1 by (intro line_version_read) (simp_all add: line_unit_ok_def)
  have 3: "bounded_u32 r2 = (Inr (of_nat ?hl), r3)"
  proof (rule bounded_u32_read)
    show "moves r2 (order_bytes (rd_order r2) 4 (of_nat ?hl :: u32)) r3" using m(3) by (simp only: o1)
    show "unat (of_nat ?hl :: u32) \<le> length (rd_rest r3)" unfolding hl r3 by simp
  qed
  have 4: "line_parameters r3 =
      (Inr (lh_minimum h, lh_statement h, lh_line_base h, lh_line_range h, lh_opcode_base h), r4)"
    using m(4) ok by (intro line_parameters_read) (simp_all add: line_unit_ok_def)
  have "(ucast (lh_opcode_base h) - 1 :: u64) = of_nat (length lengths)"
  proof -
    have "1 \<le> unat (lh_opcode_base h)" using ok by (simp add: line_unit_ok_def Suc_le_eq unat_gt_0)
    then have "(of_nat (unat (lh_opcode_base h) - 1) :: u64) = of_nat (unat (lh_opcode_base h)) - 1"
      by (simp only: of_nat_diff of_nat_1)
    moreover have "length lengths = unat (lh_opcode_base h) - 1" using ok by (simp add: line_unit_ok_def)
    ultimately show ?thesis by simp
  qed
  then have 5: "rd_skip (ucast (lh_opcode_base h) - 1) r4 = (Inr (), r5)" using skip_moves [OF m(5)] by simp
  have pos: "rd_position r3 + ucast (of_nat ?hl :: u32) = lh_program_start h"
  proof -
    have "unat (rd_position r3) = 10"
      using moves_position [OF m(1)] moves_position [OF m(2)] moves_position [OF m(3)] start by simp
    then have "rd_position r3 = 10" by (simp add: word_unat_eq_iff)
    moreover have "(ucast (of_nat ?hl :: u32) :: u64) = of_nat ?hl"
      using ok by (intro ucast_of_nat_u32_u64) (simp add: line_unit_ok_def)
    ultimately show ?thesis using ok by (simp add: line_unit_ok_def)
  qed
  have base: "lh_opcode_base h \<noteq> 0" using ok by (simp add: line_unit_ok_def)
  show ?thesis
    unfolding line_header_def otherwise_def rd_tell_def
    by (simp add: pbind_def on_fail_def 1 2 3 4 5 base preturn_def pos)
qed

section \<open>The properties\<close>

text \<open>
  C22. A line program of the covered instructions runs. When a unit is laid out with a header, one table of
  strings and the encodings of a sequence of line instructions, and the machine runs these without overflow
  or negative line in fewer rows than the limit, the parser adds exactly the strings and the machine's rows
  to the unit and sets its version, length and address size. Covered are the special opcodes, the extended
  opcodes, of which end of sequence and set address have an effect, and the standard opcodes 1, 2, 3, 4, 6,
  7, 10 and 11. The standard opcodes 5, 8, 9 and 12 are left out, for the code passes over them as single
  bytes: 8 does not advance the address, and the operands of 5, 9 and 12 run as opcodes. The table of
  strings is the first one after the opcode lengths, which the code takes for the file names where the
  format has the include directories.
\<close>

theorem line_program_runs:
  assumes "line_unit_ok h lengths files pad (concat parts)" "asz = 4 \<or> asz = 8"
    and "list_all2 (op_encoded order asz h) ops parts"
    and "run_ops h ops (line_start h (unit_lines unit)) = Some s"
    and "length (ls_rows s) < unat (max_line_rows limits)"
    and "length (unit_files unit) + length files \<le> unat (max_string_bytes limits)"
    and "length (line_unit order h lengths files pad (concat parts)) \<le> unat (max_debug_bytes limits)"
  shows "parse_line_program limits (Some (line_unit order h lengths files pad (concat parts))) order asz unit =
    (Inr (), unit\<lparr>unit_files := unit_files unit @ files, unit_lines := ls_rows s, unit_version := lh_version h,
       unit_length := ucast (lh_unit_length h), unit_address_size := asz\<rparr>)"
proof -
  let ?d = "line_unit order h lengths files pad (concat parts)"
  let ?r = "reader_of ?d order" and ?hl = "header_rest lengths files pad"
  have ok: "reader_ok ?r"
    using assms(7) unat_u64_bound [of "max_debug_bytes limits"] by (intro reader_ok_reader_of) simp
  have "moves ?r ?d (rd_advance (length ?d) ?r)" using movesI [OF ok, of ?d "[]"] by simp
  then obtain r1 r2 r3 r4 r5 r6 r7 r8 where m: "moves ?r (order_bytes order 4 (lh_unit_length h)) r1"
      "moves r1 (order_bytes order 2 (lh_version h)) r2" "moves r2 (order_bytes order 4 (of_nat ?hl :: u32)) r3"
      "moves r3 [lh_minimum h, lh_statement h, lh_line_base h, lh_line_range h, lh_opcode_base h] r4"
      "moves r4 lengths r5" "moves r5 (file_table files) r6" "moves r6 pad r7" "moves r7 (concat parts) r8"
      "r8 = rd_advance (length ?d) ?r"
    unfolding line_unit_def moves_append by blast
  have rest: "rd_rest r8 = []" using m(9) rd_rest_advance [OF ok] by simp
  have r5: "rd_rest r5 = file_table files @ pad @ concat parts"
    using moves_rest [OF m(6)] moves_rest [OF m(7)] moves_rest [OF m(8)] rest by simp
  have header: "line_header ?r = (Inr h, r5)"
    using line_header_read [OF assms(1), of ?r] m(1-5) r5 by simp
  have p7: "unat (rd_position r7) = 10 + ?hl"
    using moves_position [OF m(1)] moves_position [OF m(2)] moves_position [OF m(3)] moves_position [OF m(4)]
      moves_position [OF m(5)] moves_position [OF m(6)] moves_position [OF m(7)] by (simp add: header_rest_def)
  have start: "lh_program_start h = rd_position r7"
  proof -
    have "of_nat (unat (rd_position r7)) = lh_program_start h"
      unfolding p7 using assms(1) by (simp only: line_unit_ok_def)
    then show ?thesis by simp
  qed
  have size: "rd_size r7 = rd_size r5" "rd_position r7 \<le> rd_size r7"
    using moves_size [OF m(6)] moves_size [OF m(7)] moves_okD [OF m(7)] by (simp_all add: reader_ok_def)
  have files: "read_files limits (lh_program_start h) (unit_files unit) r5 = (Inr (), unit_files unit @ files, r6)"
  proof (rule read_files_read [OF m(6)])
    show "unat (rd_position r6) \<le> unat (lh_program_start h)" using moves_position [OF m(7)] start by simp
    show "lh_program_start h \<le> rd_size r5" using size start by simp
    show "\<forall>f \<in> set files. f \<noteq> [] \<and> 0 \<notin> set (bytes_of_string f)" using assms(1) by (simp add: line_unit_ok_def)
  qed (rule assms(6))
  have seek: "rd_seek (lh_program_start h) r6 = (Inr (), r7)"
  proof -
    have "\<not> rd_position r7 > rd_size r6" "r7 = r6\<lparr>rd_position := rd_position r7\<rparr>"
      using size moves_size [OF m(7)] m(7) by (auto simp: moves_def rd_advance_def not_less)
    then show ?thesis by (simp add: rd_seek_def start)
  qed
  have order: "rd_order r7 = order" using m by simp
  have "run_lines limits asz h (line_start h (unit_lines unit)) r7 = run_lines limits asz h s r8"
    by (rule run_ops_read [OF assms(3,2) m(8) order assms(4,5)])
  moreover have "rd_remaining r8 = 0" using rest moves_okD [OF m(8)] by (simp add: rd_remaining_0_iff)
  ultimately have run: "run_lines limits asz h (line_start h (unit_lines unit)) r7 = (Inr (), s, r8)"
    by (subst (asm) (2) run_lines.simps) simp
  have long: "10 \<le> length ?d" by (simp add: line_unit_def header_rest_def)
  show ?thesis
    using header files seek run long assms(2,5,7) by (simp add: parse_line_program_def not_less)
qed

definition demo_line_header :: LineHeader where
  "demo_line_header = \<lparr>lh_unit_length = 10, lh_version = 2, lh_program_start = 21, lh_minimum = 1, lh_statement = 1,
     lh_line_base = 0xfb, lh_line_range = 14, lh_opcode_base = 4\<rparr>"

definition demo_ops :: "LineOp list" where
  "demo_ops = [op_set_address 16, op_copy, op_advance_line 2, op_special 24, op_end_sequence]"

definition demo_parts :: "bytes list" where
  "demo_parts = [[0, 5, 2, 16, 0, 0, 0], [1], [3, 2], [24], [0, 1, 1]]"

definition demo_rows :: "DebugLineRow list" where
  "demo_rows =
    [\<lparr>row_address = 16, row_file = 1, row_line = 1, row_column = 0, row_statement = True, row_end_sequence = False\<rparr>,
     \<lparr>row_address = 17, row_file = 1, row_line = 4, row_column = 0, row_statement = True, row_end_sequence = False\<rparr>,
     \<lparr>row_address = 17, row_file = 1, row_line = 4, row_column = 0, row_statement = True, row_end_sequence = True\<rparr>]"

lemma demo_ops_run: "run_ops demo_line_header demo_ops (line_start demo_line_header []) =
    Some (line_start demo_line_header demo_rows)"
  by (simp add: demo_ops_def demo_line_header_def demo_rows_def line_start_def emit_row_def advance_address_def
      advance_line_def Let_def)

lemma demo_ops_encoded: "list_all2 (op_encoded little 4 demo_line_header) demo_ops demo_parts"
proof -
  have u: "uleb_of (Suc 4) [5]" "uleb_of (Suc 0) [1]" by (simp_all add: uleb_of_def)
  have "op_encoded little 4 demo_line_header (op_set_address 16) [0, 5, 2, 16, 0, 0, 0]"
    using u(1) by (auto simp: order_bytes_def le_bytes_def upt_rec intro!: exI [of _ "[5]"])
  moreover have "op_encoded little 4 demo_line_header op_end_sequence [0, 1, 1]"
    unfolding op_encoded.simps using u(2) by (intro exI [of _ "[1]"] exI [of _ "[]"]) simp
  ultimately show ?thesis
    by (simp add: demo_ops_def demo_parts_def demo_line_header_def)
qed

theorem line_program_runs_witness:
  "parse_line_program demo_limits
     (Some (line_unit little demo_line_header [0, 1, 1] [''a''] [] (concat demo_parts))) little 4 demo_unit =
   (Inr (), demo_unit\<lparr>unit_files := [''a''], unit_lines := demo_rows, unit_version := 2, unit_length := 10,
      unit_address_size := 4\<rparr>)"
proof -
  have ok: "line_unit_ok demo_line_header [0, 1, 1] [''a''] [] (concat demo_parts)"
    by (simp add: line_unit_ok_def demo_line_header_def header_rest_def file_table_def byte_of_char_def)
  have run: "run_ops demo_line_header demo_ops (line_start demo_line_header (unit_lines demo_unit)) =
      Some (line_start demo_line_header demo_rows)"
    using demo_ops_run by (simp add: demo_unit_def)
  have small: "length (ls_rows (line_start demo_line_header demo_rows)) < unat (max_line_rows demo_limits)"
    "length (unit_files demo_unit) + length [''a''] \<le> unat (max_string_bytes demo_limits)"
    "length (line_unit little demo_line_header [0, 1, 1] [''a''] [] (concat demo_parts)) \<le> unat (max_debug_bytes demo_limits)"
    by (simp_all add: line_start_def demo_rows_def demo_limits_def default_limits_def demo_unit_def line_unit_def
        demo_parts_def file_table_def)
  show ?thesis
    using line_program_runs [OF ok _ demo_ops_encoded run small]
    by (simp add: demo_unit_def line_start_def demo_line_header_def)
qed

text \<open>One turn of the loop over the program, as a step of the machine with its reader.\<close>

inductive line_turn :: "Limits \<Rightarrow> u8 \<Rightarrow> LineHeader \<Rightarrow> LineState \<times> ByteReader \<Rightarrow> LineState \<times> ByteReader \<Rightarrow> bool"
  for limits address_size h where
  turn: "line_turn limits address_size h (s, r) (s', r'')"
  if "rd_remaining r \<noteq> 0" "length (ls_rows s) < unat (max_line_rows limits)" "read_u8 r = (Inr op, r')"
    "line_opcode address_size h s op r' = (Inr s', r'')"

inductive_simps line_turn_iff: "line_turn limits address_size h (s, r) c"

lemma run_lines_turns:
  "\<exists>n s' r'. n + unat (rd_remaining r') \<le> unat (rd_remaining r) \<and> (line_turn limits asz h ^^ n) (s, r) (s', r') \<and>
    (\<nexists>c. line_turn limits asz h (s', r') c) \<and> fst (snd (run_lines limits asz h s r)) = s'"
proof (induction "unat (rd_remaining r)" arbitrary: s r rule: less_induct)
  case less
  show ?case
  proof (cases "\<exists>c. line_turn limits asz h (s, r) c")
    case True
    then obtain op r1 s2 r2 where t: "rd_remaining r \<noteq> 0" "length (ls_rows s) < unat (max_line_rows limits)"
        "read_u8 r = (Inr op, r1)" "line_opcode asz h s op r1 = (Inr s2, r2)"
      by (auto simp: line_turn_iff)
    have shrink: "unat (rd_remaining r2) < unat (rd_remaining r)"
      by (rule line_opcode_shrinks [OF t(3) [symmetric] t(4) [symmetric]])
    from less [OF this, of s2] obtain n s' r' where n: "n + unat (rd_remaining r') \<le> unat (rd_remaining r2)"
        "(line_turn limits asz h ^^ n) (s2, r2) (s', r')" "\<nexists>c. line_turn limits asz h (s', r') c"
        "fst (snd (run_lines limits asz h s2 r2)) = s'" by blast
    have "(line_turn limits asz h ^^ Suc n) (s, r) (s', r')"
      by (rule relpowp_Suc_I2 [OF turn [OF t] n(2)])
    moreover have "fst (snd (run_lines limits asz h s r)) = s'" using t n(4) by (subst run_lines.simps) simp
    ultimately show ?thesis using n(1,3) shrink by (intro exI [of _ "Suc n"] exI [of _ s'] exI [of _ r']) simp
  next
    case False
    then have "fst (snd (run_lines limits asz h s r)) = s"
      by (subst run_lines.simps) (auto simp: line_turn_iff split: prod.splits sum.splits)
    then show ?thesis using False by (intro exI [of _ 0] exI [of _ s] exI [of _ r]) simp
  qed
qed

text \<open>
  C24. The loop over a line program ends on every input: it makes a finite number of turns, at most one
  for each byte of the program, stops where no turn is possible, and returns the registers and rows of
  that state.
\<close>

theorem line_program_terminates:
  "\<exists>n s' r'. n \<le> unat (rd_remaining r) \<and> (line_turn limits asz h ^^ n) (s, r) (s', r') \<and>
    (\<nexists>c. line_turn limits asz h (s', r') c) \<and> fst (snd (run_lines limits asz h s r)) = s'"
proof -
  obtain n s' r' where "n + unat (rd_remaining r') \<le> unat (rd_remaining r)"
      "(line_turn limits asz h ^^ n) (s, r) (s', r')" "\<nexists>c. line_turn limits asz h (s', r') c"
      "fst (snd (run_lines limits asz h s r)) = s'"
    using run_lines_turns by blast
  then show ?thesis by (intro exI [of _ n] exI [of _ s'] exI [of _ r']) simp
qed

text \<open>
  The standard opcodes that set the column (5), advance by a constant (8), by a fixed amount (9) or set
  the instruction set (12) do nothing, and their operands are left to be run as opcodes.
\<close>

lemma operands_left_behind:
  assumes "op \<in> {5, 8, 9, 12}" "op < lh_opcode_base h"
  shows "line_opcode asz h s op r = (Inr s, r)"
  using assms by (auto simp: line_opcode_def standard_opcode_def preturn_def)

end
