(* ===== verification/Notes.thy ===== *)
theory Notes
  imports Progress
begin

unbundle bit_operations_syntax

text \<open>
  \<open>NoteParser\<close> of \<open>src/notes.cc\<close>: ELF note sections and the note commands of Mach-O. The notes are
  appended to a list that a failure leaves as far as it has come.
\<close>

section \<open>Notes\<close>

datatype NoteValueKind = kind_bytes | kind_text | kind_integer
datatype NoteValue = note_bytes bytes | note_string string | note_integer u64

record BinaryNote =
  note_owner :: string
  note_type :: u32
  note_value_kind :: NoteValueKind
  note_value :: NoteValue
  note_file_offset :: u64

text \<open>\<open>isprint\<close> and \<open>isspace\<close> of the C locale.\<close>

definition is_print :: "u8 \<Rightarrow> bool" where
  "is_print b \<longleftrightarrow> 0x20 \<le> b \<and> b \<le> 0x7e"

definition is_space :: "u8 \<Rightarrow> bool" where
  "is_space b \<longleftrightarrow> b = 0x20 \<or> 9 \<le> b \<and> b \<le> 13"

definition note_text :: "bytes \<Rightarrow> bool" where
  "note_text bs \<longleftrightarrow> bs \<noteq> [] \<and> list_all (\<lambda>b. b = 0 \<or> is_print b \<or> is_space b) bs"

text \<open>The loops that pop zero bytes off the end.\<close>

definition strip_zeros :: "bytes \<Rightarrow> bytes" where
  "strip_zeros bs = rev (dropWhile (\<lambda>b. b = 0) (rev bs))"

definition aligned_advance :: "u64 \<Rightarrow> u64 \<Rightarrow> unit read" where
  "aligned_advance consumed alignment =
    (case checked_align_up consumed alignment of
       None \<Rightarrow> pfail () | Some aligned \<Rightarrow> rd_skip (aligned - consumed))"

section \<open>ELF notes\<close>

definition note_value_of :: "ByteOrder \<Rightarrow> string \<Rightarrow> bytes \<Rightarrow> NoteValueKind \<times> NoteValue" where
  "note_value_of order owner descriptor =
    (if length descriptor \<le> 8 \<and> (owner = ''GNU'' \<or> owner = ''CORE'')
     then (kind_integer, note_integer (ordered_value order descriptor))
     else if note_text descriptor then (kind_text, note_string (string_of_bytes (strip_zeros descriptor)))
     else (kind_bytes, note_bytes descriptor))"

definition elf_note_of :: "ByteOrder \<Rightarrow> u64 \<Rightarrow> u32 \<Rightarrow> bytes \<Rightarrow> bytes \<Rightarrow> BinaryNote" where
  "elf_note_of order offset type name descriptor =
    (let owner = string_of_bytes (strip_zeros name) in
     \<lparr>note_owner = owner, note_type = type, note_value_kind = fst (note_value_of order owner descriptor),
      note_value = snd (note_value_of order owner descriptor), note_file_offset = offset\<rparr>)"

definition note_header :: "(u32 \<times> u32 \<times> u32) read" where
  "note_header = pbind read_u32 (\<lambda>name_size. pbind read_u32 (\<lambda>descriptor_size. pbind read_u32 (\<lambda>type.
     preturn (name_size, descriptor_size, type))))"

definition padded_bytes :: "u32 \<Rightarrow> bytes read" where
  "padded_bytes n = pbind (read_bytes (ucast n)) (\<lambda>bs. pbind (aligned_advance (ucast n) 4) (\<lambda>_. preturn bs))"

text \<open>What follows the header of a note; \<open>count\<close> notes have been found before.\<close>

definition read_note_body :: "Limits \<Rightarrow> ByteOrder \<Rightarrow> nat \<Rightarrow> u64 \<Rightarrow> u32 \<times> u32 \<times> u32 \<Rightarrow> (Error, BinaryNote) parse" where
  "read_note_body limits order count note_offset = (\<lambda>(name_size, descriptor_size, type).
    pbind (pguard (\<lambda>r. \<not> (ucast name_size > max_string_bytes limits \<or> ucast descriptor_size > max_debug_bytes limits \<or>
        ucast name_size > rd_remaining r))
      (\<lambda>_. mk_error resource_limit note_offset ''ELF note sizes are invalid'')) (\<lambda>_.
    pbind (on_fail (padded_bytes name_size) (\<lambda>_. mk_error truncated note_offset ''ELF note owner is truncated'')) (\<lambda>name.
    pbind (pguard (\<lambda>_. note_text (strip_zeros name))
      (\<lambda>_. mk_error invalid_string note_offset ''ELF note owner is not printable'')) (\<lambda>_.
    pbind (pguard (\<lambda>r. \<not> ucast descriptor_size > rd_remaining r)
      (\<lambda>r. mk_error truncated (rd_position r) ''ELF note descriptor is truncated'')) (\<lambda>_.
    pbind (on_fail (padded_bytes descriptor_size)
      (\<lambda>r. mk_error truncated (rd_position r) ''ELF note descriptor padding is truncated'')) (\<lambda>descriptor.
    pbind (pguard (\<lambda>_. \<not> count \<ge> unat (max_debug_units limits))
      (\<lambda>_. mk_error resource_limit note_offset ''ELF note record limit exceeded'')) (\<lambda>_.
    preturn (elf_note_of order note_offset type name descriptor))))))))"

definition read_elf_note :: "Limits \<Rightarrow> ByteOrder \<Rightarrow> nat \<Rightarrow> (Error, BinaryNote) parse" where
  "read_elf_note limits order count = rd_tell (\<lambda>note_offset.
    pbind (on_fail note_header (\<lambda>_. mk_error truncated note_offset ''ELF note header is truncated''))
      (read_note_body limits order count note_offset))"

lemma advances_guard: "advances (pguard P e)"
  by (auto simp: advances_def pguard_def)

lemma advances_aligned: "advances (aligned_advance c a)"
  by (auto simp: aligned_advance_def intro: advances_skip advances_simple split: option.split)

lemma advances_padded: "advances (padded_bytes n)"
  unfolding padded_bytes_def by (auto intro!: advances_intros advances_aligned)

lemma advances_note_body: "advances (read_note_body limits order count off h)"
  unfolding read_note_body_def by (auto intro!: advances_intros advances_guard advances_padded split: prod.split)

lemma note_header_forward:
  assumes "note_header r = (Inr h, r')"
  shows "\<exists>v r1. read_u32 r = (Inr v, r1) \<and> forward r1 r'"
proof -
  obtain v r1 d r2 t where v: "read_u32 r = (Inr v, r1)" and d: "read_u32 r1 = (Inr d, r2)" "read_u32 r2 = (Inr t, r')"
    using assms by (auto simp: note_header_def pbind_Inr)
  have "forward r1 r'"
    by (rule forward_trans [OF advancesD [OF advances_fixed(2) d(1)] advancesD [OF advances_fixed(2) d(2)]])
  then show ?thesis using v by blast
qed

lemma read_elf_note_shrinks:
  assumes "(Inr n, r') = read_elf_note limits order count r"
  shows "unat (rd_remaining r') < unat (rd_remaining r)"
proof -
  obtain h r1 where h: "note_header r = (Inr h, r1)"
    and b: "read_note_body limits order count (rd_position r) h r1 = (Inr n, r')"
    using assms [symmetric] by (auto simp: read_elf_note_def rd_tell_def pbind_Inr)
  obtain v r0 where v: "read_u32 r = (Inr v, r0)" "forward r0 r1" using note_header_forward [OF h] by blast
  show ?thesis
    by (rule remaining_less_u32 [OF v(1)]) (rule forward_trans [OF v(2) advancesD [OF advances_note_body b]])
qed

function read_elf_notes ::
    "Limits \<Rightarrow> ByteOrder \<Rightarrow> BinaryNote list \<Rightarrow> ByteReader \<Rightarrow> (Error + unit) \<times> BinaryNote list" where
  "read_elf_notes limits order notes r =
    (if rd_remaining r \<noteq> 0 then
       (case read_elf_note limits order (length notes) r of
          (Inl e, _) \<Rightarrow> (Inl e, notes)
        | (Inr n, r') \<Rightarrow> read_elf_notes limits order (notes @ [n]) r')
     else (Inr (), notes))"
  by pat_completeness auto
termination
  by (relation "measure (\<lambda>(limits, order, notes, r). unat (rd_remaining r))") (auto intro: read_elf_note_shrinks)

declare read_elf_notes.simps [simp del]

definition parse_elf_notes ::
    "Limits \<Rightarrow> bytes option \<Rightarrow> u64 \<Rightarrow> ByteOrder \<Rightarrow> BinaryNote list \<Rightarrow> (Error + unit) \<times> BinaryNote list" where
  "parse_elf_notes limits data len order notes =
    (if len > max_debug_bytes limits then (Inl (mk_error resource_limit 0 ''ELF note data exceeds limit''), notes)
     else read_elf_notes limits order notes (make_reader data len order))"

section \<open>Mach-O note commands\<close>

text \<open>
  One load command: its size and the note it holds, if it is a note command. The size of the data is that
  of the reader.
\<close>

definition macho_note :: "Limits \<Rightarrow> bytes \<Rightarrow> u64 \<Rightarrow> u32 \<Rightarrow> (Error, BinaryNote) parse" where
  "macho_note limits data command_offset command =
    pbind (on_fail (read_fixed_string 16) (\<lambda>_. no_error)) (\<lambda>owner.
    pbind (on_fail (pbind read_u64 (\<lambda>file_offset. pbind read_u64 (\<lambda>note_size.
        pbind (pcheck (\<lambda>r. range_inside file_offset note_size (rd_size r) \<and> \<not> note_size > max_debug_bytes limits)) (\<lambda>_.
        preturn (file_offset, note_size)))))
      (\<lambda>_. mk_error invalid_offset command_offset ''Mach-O note payload range is invalid'')) (\<lambda>(file_offset, note_size).
    preturn \<lparr>note_owner = owner, note_type = command, note_value_kind = kind_bytes,
      note_value = note_bytes (take (unat note_size) (drop (unat file_offset) data)),
      note_file_offset = command_offset\<rparr>))"

definition read_note_command :: "Limits \<Rightarrow> bytes \<Rightarrow> u64 \<Rightarrow> u32 \<times> u32 \<Rightarrow> (Error, BinaryNote list) parse" where
  "read_note_command limits data command_offset = (\<lambda>(command, command_size).
    if command = 0x31 then
      pbind (pguard (\<lambda>_. \<not> command_size < 40)
        (\<lambda>_. mk_error truncated command_offset ''Mach-O note command is truncated'')) (\<lambda>_.
      pbind (macho_note limits data command_offset command) (\<lambda>n. preturn [n]))
    else preturn [])"

definition command_header :: "(Error, u32 \<times> u32) parse" where
  "command_header = rd_tell (\<lambda>command_offset.
    on_fail (pbind read_u32 (\<lambda>command. pbind read_u32 (\<lambda>command_size.
      pbind (pcheck (\<lambda>r. \<not> (command_size < 8 \<or> ucast command_size > rd_size r - command_offset))) (\<lambda>_.
      preturn (command, command_size)))))
    (\<lambda>_. mk_error invalid_header command_offset ''Mach-O load command is invalid''))"

text \<open>A command with its notes, then the seek to the next one; the notes survive a failing seek.\<close>

definition macho_step ::
    "Limits \<Rightarrow> bytes \<Rightarrow> BinaryNote list \<Rightarrow> ByteReader \<Rightarrow> (Error + ByteReader) \<times> BinaryNote list" where
  "macho_step limits data notes r =
    (case command_header r of
       (Inl e, _) \<Rightarrow> (Inl e, notes)
     | (Inr (command, command_size), r1) \<Rightarrow>
       (case read_note_command limits data (rd_position r) (command, command_size) r1 of
          (Inl e, _) \<Rightarrow> (Inl e, notes)
        | (Inr ns, r2) \<Rightarrow>
          (case rd_seek (rd_position r + ucast command_size) r2 of
             (Inl _, _) \<Rightarrow> (Inl no_error, notes @ ns)
           | (Inr _, r3) \<Rightarrow> (Inr r3, notes @ ns))))"

lemma advances_note_command: "advances (read_note_command limits data off h)"
  unfolding read_note_command_def macho_note_def
  by (auto intro!: advances_intros advances_guard advances_fixed_string split: prod.split)

lemma advances_command_header: "advances command_header"
  unfolding command_header_def by (auto intro!: advances_intros advances_tell)

lemma macho_step_shrinks:
  assumes "(Inr r', notes') = macho_step limits data notes r" "rd_remaining r \<noteq> 0"
  shows "unat (rd_remaining r') < unat (rd_remaining r)"
proof -
  obtain command command_size r1 ns r2 where
    h: "command_header r = (Inr (command, command_size), r1)"
    and c: "read_note_command limits data (rd_position r) (command, command_size) r1 = (Inr ns, r2)"
    and s: "rd_seek (rd_position r + ucast command_size) r2 = (Inr (), r')"
    using assms(1) by (auto simp: macho_step_def split: prod.splits sum.splits)
  have f: "forward r r2"
    using advancesD [OF advances_command_header h] advancesD [OF advances_note_command c] by (rule forward_trans)
  obtain r0 ra where "read_u32 r = (Inr command, r0)" "read_u32 r0 = (Inr command_size, ra)" "ra = r1"
    and g: "\<not> command_size < 8" "\<not> ucast command_size > rd_size r1 - rd_position r"
    using h by (auto simp: command_header_def rd_tell_def pbind_Inr)
  have size: "rd_size r1 = rd_size r" using advancesD [OF advances_command_header h] by (simp add: forward_def)
  have p: "rd_position r < rd_size r" using assms(2) by (auto simp: rd_remaining_def split: if_splits)
  have "unat command_size \<le> unat (rd_size r) - unat (rd_position r)"
    using g(2) p unfolding size by (simp add: word_less_nat_alt not_less unat_minus_bounded)
  then have le: "unat (rd_position r) + unat (ucast command_size :: u64) \<le> unat (rd_size r)"
    using p by (simp add: word_less_nat_alt)
  from unat_plus_below [OF this] this
  have n: "unat (rd_position r + ucast command_size) = unat (rd_position r) + unat command_size" by simp
  have "8 \<le> unat command_size" using g(1) by (simp add: word_less_nat_alt)
  moreover have "r' = r2\<lparr>rd_position := rd_position r + ucast command_size\<rparr>"
    using s by (auto simp: rd_seek_def split: if_splits)
  ultimately show ?thesis
    using f p n le
    by (auto simp: forward_def rd_remaining_def word_less_nat_alt unat_minus_bounded word_le_nat_alt)
qed

function read_macho_notes ::
    "Limits \<Rightarrow> bytes \<Rightarrow> BinaryNote list \<Rightarrow> ByteReader \<Rightarrow> (Error + unit) \<times> BinaryNote list" where
  "read_macho_notes limits data notes r =
    (if rd_remaining r \<noteq> 0 then
       (case macho_step limits data notes r of
          (Inl e, notes') \<Rightarrow> (Inl e, notes')
        | (Inr r', notes') \<Rightarrow> read_macho_notes limits data notes' r')
     else (Inr (), notes))"
  by pat_completeness auto
termination
  by (relation "measure (\<lambda>(limits, data, notes, r). unat (rd_remaining r))") (auto intro: macho_step_shrinks)

declare read_macho_notes.simps [simp del]

definition parse_macho_notes ::
    "Limits \<Rightarrow> bytes option \<Rightarrow> u64 \<Rightarrow> ByteOrder \<Rightarrow> BinaryNote list \<Rightarrow> (Error + unit) \<times> BinaryNote list" where
  "parse_macho_notes limits data len order notes =
    (if len > max_debug_bytes limits then (Inl (mk_error resource_limit 0 ''Mach-O note commands exceed limit''), notes)
     else read_macho_notes limits (case data of None \<Rightarrow> [] | Some bs \<Rightarrow> bs) notes (make_reader data len order))"

end
