(* ===== verification/Note_Records.thy ===== *)
theory Note_Records
  imports Notes
begin

unbundle bit_operations_syntax

text \<open>
  The format of an ELF note section as an inductive grammar, in either byte order, and the proof that
  the parser of \<open>Notes\<close> accepts exactly its sentences and yields the notes they stand for.
\<close>

section \<open>Padding\<close>

definition pad4 :: "nat \<Rightarrow> nat" where
  "pad4 n = (n + 3) div 4 * 4 - n"

lemma aligned_advance_moves:
  assumes "reader_ok r"
  shows "aligned_advance (ucast (n :: u32)) 4 r = (Inr (), r') \<longleftrightarrow>
    (\<exists>pad. length pad = pad4 (unat n) \<and> moves r pad r')"
proof -
  have p4: "power_of_two (4 :: u64)" by (simp add: power_of_two_def)
  have n: "unat n + 3 < 2 ^ 64" using unat_u32_bound [of n] by simp
  define a :: u64 where "a = of_nat ((unat n + 3) div 4 * 4)"
  have "(unat n + 3) div 4 * 4 \<le> unat n + 3" by simp
  then have "(unat n + 3) div 4 * 4 < 18446744073709551616" using n by simp
  then have ua: "unat a = (unat n + 3) div 4 * 4" unfolding a_def by (rule unat_of_nat_u64)
  have a: "checked_align_up (ucast n) 4 = Some a"
    unfolding checked_align_up_Some_iff using p4 n ua by simp
  have "unat (a - ucast n) = pad4 (unat n)"
  proof -
    have le: "unat n \<le> (unat n + 3) div 4 * 4" by linarith
    then have "ucast n \<le> a" by (simp add: word_le_nat_alt ua)
    then show ?thesis by (simp add: unat_sub ua pad4_def)
  qed
  then show ?thesis
    using rd_skip_moves [OF assms, of "a - ucast n" r'] by (simp add: aligned_advance_def a)
qed

section \<open>The grammar\<close>

text \<open>
  \<open>note_encoded limits order p n bs\<close>: at position \<open>p\<close> the bytes \<open>bs\<close> are the note \<open>n\<close>. Owner and
  descriptor are padded to four bytes with anything; the owner has a character besides zeros at its end.
\<close>

definition note_encoded :: "Limits \<Rightarrow> ByteOrder \<Rightarrow> nat \<Rightarrow> BinaryNote \<Rightarrow> bytes \<Rightarrow> bool" where
  "note_encoded limits order p n bs \<longleftrightarrow>
     (\<exists>(name_size :: u32) (descriptor_size :: u32) (type :: u32) name pad1 descriptor pad2.
       bs = order_bytes order 4 name_size @ order_bytes order 4 descriptor_size @ order_bytes order 4 type @
         name @ pad1 @ descriptor @ pad2 \<and>
       length name = unat name_size \<and> length pad1 = pad4 (unat name_size) \<and>
       length descriptor = unat descriptor_size \<and> length pad2 = pad4 (unat descriptor_size) \<and>
       unat name_size \<le> unat (max_string_bytes limits) \<and> unat descriptor_size \<le> unat (max_debug_bytes limits) \<and>
       note_text (strip_zeros name) \<and> n = elf_note_of order (of_nat p) type name descriptor)"

inductive notes_encoded :: "Limits \<Rightarrow> ByteOrder \<Rightarrow> nat \<Rightarrow> BinaryNote list \<Rightarrow> bytes \<Rightarrow> bool" for limits order where
  no_notes: "notes_encoded limits order p [] []"
| more_notes: "note_encoded limits order p n bs \<Longrightarrow> notes_encoded limits order (p + length bs) ns rest \<Longrightarrow>
    notes_encoded limits order p (n # ns) (bs @ rest)"

inductive_cases notes_encoded_NilE: "notes_encoded limits order p [] bs"
inductive_cases notes_encoded_ConsE: "notes_encoded limits order p (n # ns) bs"

lemma note_encoded_nonempty: "note_encoded limits order p n bs \<Longrightarrow> bs \<noteq> []"
proof -
  assume "note_encoded limits order p n bs"
  then obtain name_size rest where "bs = order_bytes order 4 (name_size :: u32) @ rest"
    unfolding note_encoded_def by blast
  then have "4 \<le> length bs" by simp
  then show "bs \<noteq> []" by auto
qed

lemma notes_encoded_Nil: "notes_encoded limits order p ns [] \<longleftrightarrow> ns = []"
  by (auto intro: no_notes elim: notes_encoded.cases dest: note_encoded_nonempty)

section \<open>One note\<close>

lemma note_header_moves:
  assumes "reader_ok r" "rd_order r = order"
  shows "note_header r = (Inr (a, b, c), r') \<longleftrightarrow>
    moves r (order_bytes order 4 a @ order_bytes order 4 b @ order_bytes order 4 c) r'"
proof
  assume "note_header r = (Inr (a, b, c), r')"
  then obtain r1 r2 where d: "read_u32 r = (Inr a, r1)" "read_u32 r1 = (Inr b, r2)" "read_u32 r2 = (Inr c, r')"
    by (auto simp: note_header_def pbind_Inr)
  have 1: "moves r (order_bytes order 4 a) r1" using d(1) read_u32_order [OF assms(1)] assms(2) by simp
  have 2: "moves r1 (order_bytes order 4 b) r2"
    using d(2) read_u32_order [of r1] moves_okD [OF 1] moves_order [OF 1] assms(2) by simp
  have 3: "moves r2 (order_bytes order 4 c) r'"
    using d(3) read_u32_order [of r2] moves_okD [OF 2] moves_order [OF 2] moves_order [OF 1] assms(2) by simp
  show "moves r (order_bytes order 4 a @ order_bytes order 4 b @ order_bytes order 4 c) r'"
    using 1 2 3 unfolding moves_append by blast
next
  assume "moves r (order_bytes order 4 a @ order_bytes order 4 b @ order_bytes order 4 c) r'"
  then obtain r1 r2 where m: "moves r (order_bytes order 4 a) r1" "moves r1 (order_bytes order 4 b) r2"
    "moves r2 (order_bytes order 4 c) r'" unfolding moves_append by blast
  have o: "rd_order r1 = order" "rd_order r2 = order" using m assms(2) by simp_all
  have "read_u32 r = (Inr a, r1)" "read_u32 r1 = (Inr b, r2)" "read_u32 r2 = (Inr c, r')"
    using m order_bytes_read(2) assms(2) o by metis+
  then show "note_header r = (Inr (a, b, c), r')" by (simp add: note_header_def preturn_def)
qed

lemma padded_bytes_moves:
  assumes "reader_ok r"
  shows "padded_bytes n r = (Inr bs, r') \<longleftrightarrow>
    length bs = unat n \<and> (\<exists>pad. length pad = pad4 (unat n) \<and> moves r (bs @ pad) r')"
proof
  assume "padded_bytes n r = (Inr bs, r')"
  then obtain r1 where d: "read_bytes (ucast n) r = (Inr bs, r1)" "aligned_advance (ucast n) 4 r1 = (Inr (), r')"
    by (auto simp: padded_bytes_def pbind_Inr)
  have 1: "length bs = unat n" "moves r bs r1" using d(1) by (simp_all add: read_bytes_moves [OF assms])
  have "reader_ok r1" using moves_okD [OF 1(2)] by simp
  from d(2) [unfolded aligned_advance_moves [OF this]] 1
  show "length bs = unat n \<and> (\<exists>pad. length pad = pad4 (unat n) \<and> moves r (bs @ pad) r')"
    unfolding moves_append by blast
next
  assume "length bs = unat n \<and> (\<exists>pad. length pad = pad4 (unat n) \<and> moves r (bs @ pad) r')"
  then obtain pad r1 where l: "length bs = unat n" "length pad = pad4 (unat n)" and m: "moves r bs r1" "moves r1 pad r'"
    unfolding moves_append by blast
  have ok: "reader_ok r1" using moves_okD [OF m(1)] by simp
  have "read_bytes (ucast n) r = (Inr bs, r1)" using l m by (simp add: read_bytes_moves [OF assms])
  moreover have "aligned_advance (ucast n) 4 r1 = (Inr (), r')"
    unfolding aligned_advance_moves [OF ok] using l m by blast
  ultimately show "padded_bytes n r = (Inr bs, r')" by (simp add: padded_bytes_def preturn_def)
qed

lemma room_enough:
  assumes "moves r bs r'" "length xs \<le> length bs" "length xs = unat (n :: u32)"
  shows "\<not> ucast n > rd_remaining r"
  using assms moves_okD [OF assms(1)] moves_rest [OF assms(1)]
  by (simp add: word_less_nat_alt unat_rd_remaining)

lemma read_elf_note_moves:
  assumes "reader_ok r" "rd_order r = order"
  shows "read_elf_note limits order count r = (Inr n, r') \<longleftrightarrow>
    count < unat (max_debug_units limits) \<and> (\<exists>bs. note_encoded limits order (unat (rd_position r)) n bs \<and> moves r bs r')"
proof
  assume "read_elf_note limits order count r = (Inr n, r')"
  then obtain a b t r1 name r2 descriptor where h: "note_header r = (Inr (a, b, t), r1)"
    and g: "\<not> (ucast a > max_string_bytes limits \<or> ucast b > max_debug_bytes limits \<or> ucast a > rd_remaining r1)"
    and name: "padded_bytes a r1 = (Inr name, r2)" "note_text (strip_zeros name)"
    and descriptor: "padded_bytes b r2 = (Inr descriptor, r')"
    and c: "\<not> count \<ge> unat (max_debug_units limits)"
    and n: "n = elf_note_of order (rd_position r) t name descriptor"
    by (auto simp: read_elf_note_def read_note_body_def rd_tell_def pbind_Inr)
  have m1: "moves r (order_bytes order 4 a @ order_bytes order 4 b @ order_bytes order 4 t) r1"
    using h by (simp only: note_header_moves [OF assms])
  have "reader_ok r1" using moves_okD [OF m1] by simp
  from name(1) [unfolded padded_bytes_moves [OF this]] obtain p1 where
    m2: "length name = unat a" "length p1 = pad4 (unat a)" "moves r1 (name @ p1) r2" by blast
  have "reader_ok r2" using moves_okD [OF m2(3)] by simp
  from descriptor [unfolded padded_bytes_moves [OF this]] obtain p2 where
    m3: "length descriptor = unat b" "length p2 = pad4 (unat b)" "moves r2 (descriptor @ p2) r'" by blast
  have "moves r (order_bytes order 4 a @ order_bytes order 4 b @ order_bytes order 4 t @ name @ p1 @ descriptor @ p2) r'"
    using m1 m2(3) m3(3) unfolding moves_append by blast
  moreover have "note_encoded limits order (unat (rd_position r)) n
      (order_bytes order 4 a @ order_bytes order 4 b @ order_bytes order 4 t @ name @ p1 @ descriptor @ p2)"
    unfolding note_encoded_def
    by (rule exI [of _ a], rule exI [of _ b], rule exI [of _ t], rule exI [of _ name], rule exI [of _ p1],
        rule exI [of _ descriptor], rule exI [of _ p2])
      (use g m2 m3 name(2) n in \<open>simp add: word_less_nat_alt not_less\<close>)
  ultimately show "count < unat (max_debug_units limits) \<and>
      (\<exists>bs. note_encoded limits order (unat (rd_position r)) n bs \<and> moves r bs r')"
    using c by auto
next
  assume "count < unat (max_debug_units limits) \<and>
      (\<exists>bs. note_encoded limits order (unat (rd_position r)) n bs \<and> moves r bs r')"
  then obtain a b t name p1 descriptor p2 where c: "count < unat (max_debug_units limits)"
    and m: "moves r (order_bytes order 4 a @ order_bytes order 4 b @ order_bytes order 4 t @ name @ p1 @ descriptor @ p2) r'"
    and l: "length name = unat (a :: u32)" "length p1 = pad4 (unat a)" "length descriptor = unat (b :: u32)"
      "length p2 = pad4 (unat b)"
    and g: "unat a \<le> unat (max_string_bytes limits)" "unat b \<le> unat (max_debug_bytes limits)"
    and t: "note_text (strip_zeros name)" "n = elf_note_of order (of_nat (unat (rd_position r))) (t :: u32) name descriptor"
    unfolding note_encoded_def by blast
  obtain r1 r2 where m1: "moves r (order_bytes order 4 a @ order_bytes order 4 b @ order_bytes order 4 t) r1"
    and m2: "moves r1 (name @ p1) r2" and m3: "moves r2 (descriptor @ p2) r'"
    using m unfolding moves_append by blast
  have ok: "reader_ok r1" "reader_ok r2" using moves_okD [OF m2] by simp_all
  have "note_header r = (Inr (a, b, t), r1)" using m1 by (simp only: note_header_moves [OF assms])
  moreover have "padded_bytes a r1 = (Inr name, r2)"
    unfolding padded_bytes_moves [OF ok(1)] using l m2 by blast
  moreover have "padded_bytes b r2 = (Inr descriptor, r')"
    unfolding padded_bytes_moves [OF ok(2)] using l m3 by blast
  moreover have "\<not> ucast a > rd_remaining r1" "\<not> ucast b > rd_remaining r2"
    using room_enough [OF m2 _ l(1)] room_enough [OF m3 _ l(3)] by simp_all
  ultimately show "read_elf_note limits order count r = (Inr n, r')"
    using c g t
    by (simp add: read_elf_note_def read_note_body_def rd_tell_def pguard_def pbind_def on_fail_def preturn_def
        word_less_nat_alt)
qed

section \<open>The section\<close>

lemma read_elf_notes_exact:
  "reader_ok r \<Longrightarrow> rd_order r = order \<Longrightarrow>
   read_elf_notes limits order notes r = (Inr (), out) \<longleftrightarrow>
   (\<exists>new. out = notes @ new \<and> notes_encoded limits order (unat (rd_position r)) new (rd_rest r) \<and>
      (new = [] \<or> length out \<le> unat (max_debug_units limits)))"
proof (induction limits order "notes" r arbitrary: out rule: read_elf_notes.induct)
  case (1 limits order "notes" r)
  show ?case
  proof (cases "rd_remaining r = 0")
    case True
    then have "rd_rest r = []" using rd_remaining_0_iff [OF 1 (2)] by simp
    then show ?thesis
      by (subst read_elf_notes.simps) (auto simp: True notes_encoded_Nil)
  next
    case False
    then have rest: "rd_rest r \<noteq> []" using rd_remaining_0_iff [OF 1 (2)] by simp
    show ?thesis
    proof
      assume "read_elf_notes limits order notes r = (Inr (), out)"
      then obtain n r' where n: "read_elf_note limits order (length notes) r = (Inr n, r')"
        and more: "read_elf_notes limits order (notes @ [n]) r' = (Inr (), out)"
        using False by (subst (asm) read_elf_notes.simps) (auto split: prod.splits sum.splits)
      obtain bs where bs: "note_encoded limits order (unat (rd_position r)) n bs" "moves r bs r'"
        and c: "length notes < unat (max_debug_units limits)"
        using n unfolding read_elf_note_moves [OF 1 (2,3)] by blast
      have ok: "reader_ok r'" "rd_order r' = order" using moves_okD [OF bs(2)] moves_order [OF bs(2)] 1 (3) by simp_all
      obtain new where new: "out = (notes @ [n]) @ new" "notes_encoded limits order (unat (rd_position r')) new (rd_rest r')"
        "new = [] \<or> length out \<le> unat (max_debug_units limits)"
        using 1 (1) [OF False n [symmetric] refl ok] more by blast
      have "notes_encoded limits order (unat (rd_position r)) (n # new) (rd_rest r)"
        unfolding moves_rest [OF bs(2)] by (rule more_notes [OF bs(1)]) (use new(2) moves_position [OF bs(2)] in simp)
      then show "\<exists>new. out = notes @ new \<and> notes_encoded limits order (unat (rd_position r)) new (rd_rest r) \<and>
          (new = [] \<or> length out \<le> unat (max_debug_units limits))"
        using new c by (intro exI [of _ "n # new"]) auto
    next
      assume "\<exists>new. out = notes @ new \<and> notes_encoded limits order (unat (rd_position r)) new (rd_rest r) \<and>
          (new = [] \<or> length out \<le> unat (max_debug_units limits))"
      then obtain n new bs tail where new: "out = notes @ n # new" "length out \<le> unat (max_debug_units limits)"
        and e: "note_encoded limits order (unat (rd_position r)) n bs"
          "notes_encoded limits order (unat (rd_position r) + length bs) new tail" "rd_rest r = bs @ tail"
        using rest by (auto elim: notes_encoded.cases)
      define r' where "r' = rd_advance (length bs) r"
      have m: "moves r bs r'" unfolding r'_def by (rule movesI [OF 1 (2) e(3)])
      have n: "read_elf_note limits order (length notes) r = (Inr n, r')"
        unfolding read_elf_note_moves [OF 1 (2,3)] using e(1) m new by auto
      have ok: "reader_ok r'" "rd_order r' = order" using moves_okD [OF m] moves_order [OF m] 1 (3) by simp_all
      have "rd_rest r' = tail" using moves_rest [OF m] e(3) by simp
      then have "read_elf_notes limits order (notes @ [n]) r' = (Inr (), out)"
        using 1 (1) [OF False n [symmetric] refl ok] new e(2) moves_position [OF m] by auto
      then show "read_elf_notes limits order notes r = (Inr (), out)"
        using False n by (subst read_elf_notes.simps) simp
    qed
  qed
qed

text \<open>A build identifier; and a note without an owner, which the format allows and the parser refuses.\<close>

definition demo_note :: bytes where
  "demo_note = [4, 0, 0, 0, 3, 0, 0, 0, 3, 0, 0, 0, 0x47, 0x4e, 0x55, 0, 1, 2, 3, 0xff]"

lemma demo_note_parses: "parse_elf_notes demo_limits (Some demo_note) 20 little [] =
    (Inr (), [\<lparr>note_owner = ''GNU'', note_type = 3, note_value_kind = kind_integer, note_value = note_integer 0x30201,
      note_file_offset = 0\<rparr>])"
  by code_simp

lemma empty_owner_refused:
  "parse_elf_notes demo_limits (Some [0, 0, 0, 0, 1, 0, 0, 0, 3, 0, 0, 0, 1, 0, 0, 0]) 16 little [] =
    (Inl (mk_error invalid_string 0 ''ELF note owner is not printable''), [])"
  by code_simp

section \<open>Properties\<close>

text \<open>
  C27. The ELF note parser accepts exactly the sequences of well-formed notes within the limits, in either
  byte order, and appends the notes they encode: owner and text without their trailing zeros, the
  descriptors of GNU and CORE notes of up to eight bytes as integers, each with its offset.
\<close>

theorem elf_notes_exact:
  assumes "length bs < 2 ^ 64"
  shows "parse_elf_notes limits (Some bs) (of_nat (length bs)) order old = (Inr (), out) \<longleftrightarrow>
    length bs \<le> unat (max_debug_bytes limits) \<and>
    (\<exists>new. out = old @ new \<and> notes_encoded limits order 0 new bs \<and>
      (new = [] \<or> length out \<le> unat (max_debug_units limits)))"
proof -
  have n: "unat (of_nat (length bs) :: u64) = length bs" using assms by (simp add: unat_of_nat_u64 del: unsigned_of_nat)
  have r: "make_reader (Some bs) (of_nat (length bs)) order = reader_of bs order" by (simp add: reader_of_def)
  have "reader_ok (reader_of bs order)" by (rule reader_ok_reader_of [OF assms])
  from read_elf_notes_exact [OF this, of order limits old out] show ?thesis
    unfolding parse_elf_notes_def r by (auto simp: word_less_nat_alt n not_less simp del: unsigned_of_nat)
qed

theorem elf_notes_exact_witness:
  "\<exists>n. notes_encoded demo_limits little 0 [n] demo_note \<and> note_value n = note_integer 0x30201"
proof -
  let ?n = "\<lparr>note_owner = ''GNU'', note_type = 3, note_value_kind = kind_integer, note_value = note_integer 0x30201,
      note_file_offset = 0\<rparr>"
  have l: "length demo_note = 20" by (simp add: demo_note_def)
  then have "length demo_note < 2 ^ 64" by simp
  from elf_notes_exact [OF this, of demo_limits little "[]" "[?n]"] have "notes_encoded demo_limits little 0 [?n] demo_note"
    using demo_note_parses by (simp add: l)
  then show ?thesis by (intro exI [of _ ?n]) simp
qed

end
