(* ===== verification/Elf_Dynamic.thy ===== *)
theory Elf_Dynamic
  imports Elf_Image Symbol_Index
begin

unbundle bit_operations_syntax

text \<open>
  \<open>ElfDynamicParser\<close> of \<open>src/elf_dynamic.cc\<close>: the dynamic table up to its null entry and the strings
  it names. \<open>Dynamic_Report\<close> states a report by the entries of the table.
\<close>

section \<open>Reports\<close>

record DynamicEntry =
  dyn_tag :: i64
  dyn_value :: u64

record DynamicReport =
  dr_entries :: "DynamicEntry list"
  dr_needed_libraries :: "string list"
  dr_soname :: "string option"
  dr_run_path :: "string option"
  dr_string_table_address :: u64
  dr_string_table_size :: u64
  dr_symbol_table_address :: u64
  dr_relocation_address :: u64
  dr_relocation_size :: u64
  dr_bind_now :: bool
  dr_symbolic :: bool

definition empty_dynamic :: DynamicReport where
  "empty_dynamic = \<lparr>dr_entries = [], dr_needed_libraries = [], dr_soname = None, dr_run_path = None,
     dr_string_table_address = 0, dr_string_table_size = 0, dr_symbol_table_address = 0,
     dr_relocation_address = 0, dr_relocation_size = 0, dr_bind_now = False, dr_symbolic = False\<rparr>"

text \<open>The report with the local variables of the loop.\<close>

record DynamicState =
  ds_report :: DynamicReport
  ds_needed :: "u64 list"
  ds_soname :: "u64 option"
  ds_run_path :: "u64 option"
  ds_rpath :: "u64 option"

definition dynamic_string :: "BinaryImage \<Rightarrow> u64 \<Rightarrow> u64 \<Rightarrow> u64 \<Rightarrow> u64 \<Rightarrow> string option" where
  "dynamic_string img table_address table_size string_offset maximum =
    (if string_offset \<ge> table_size then None
     else case (virtual_to_file img (table_address + string_offset) 1, img_file_data img) of
       (Some at, Some data) \<Rightarrow>
         let remaining = min (min (table_size - string_offset) maximum) (fa_available at) in
         read_c_string (reader_of data (hdr_byte_order (img_header img))) (fa_offset at) remaining
     | _ \<Rightarrow> None)"

section \<open>The table\<close>

definition read_dynamic_entry :: "bool \<Rightarrow> u64 \<Rightarrow> (Error, DynamicEntry) parse" where
  "read_dynamic_entry is_wide position =
    (if is_wide then
       on_fail (pbind read_i64 (\<lambda>tag. pbind read_u64 (\<lambda>v. preturn \<lparr>dyn_tag = tag, dyn_value = v\<rparr>)))
         (\<lambda>_. mk_error truncated position ''ELF64 dynamic entry is truncated'')
     else
       on_fail (pbind read_i32 (\<lambda>tag. pbind read_u32 (\<lambda>v. preturn \<lparr>dyn_tag = scast tag, dyn_value = ucast v\<rparr>)))
         (\<lambda>_. mk_error truncated position ''ELF32 dynamic entry is truncated''))"

definition dynamic_step :: "DynamicEntry \<Rightarrow> DynamicState \<Rightarrow> DynamicState" where
  "dynamic_step e s =
    (let rep = (ds_report s)\<lparr>dr_entries := dr_entries (ds_report s) @ [e]\<rparr>; s' = s\<lparr>ds_report := rep\<rparr>;
         tag = dyn_tag e; v = dyn_value e in
     if tag = 1 then s'\<lparr>ds_needed := ds_needed s @ [v]\<rparr>
     else if tag = 5 then s'\<lparr>ds_report := rep\<lparr>dr_string_table_address := v\<rparr>\<rparr>
     else if tag = 10 then s'\<lparr>ds_report := rep\<lparr>dr_string_table_size := v\<rparr>\<rparr>
     else if tag = 6 then s'\<lparr>ds_report := rep\<lparr>dr_symbol_table_address := v\<rparr>\<rparr>
     else if tag = 7 \<or> tag = 17 then s'\<lparr>ds_report := rep\<lparr>dr_relocation_address := v\<rparr>\<rparr>
     else if tag = 8 \<or> tag = 18 then s'\<lparr>ds_report := rep\<lparr>dr_relocation_size := v\<rparr>\<rparr>
     else if tag = 14 then s'\<lparr>ds_soname := Some v\<rparr>
     else if tag = 29 then s'\<lparr>ds_run_path := Some v\<rparr>
     else if tag = 15 then s'\<lparr>ds_rpath := Some v\<rparr>
     else if tag = 24 then s'\<lparr>ds_report := rep\<lparr>dr_bind_now := True\<rparr>\<rparr>
     else if tag = 16 then s'\<lparr>ds_report := rep\<lparr>dr_symbolic := True\<rparr>\<rparr>
     else if tag = 30 then s'\<lparr>ds_report := rep\<lparr>dr_bind_now := dr_bind_now rep \<or> v AND 8 \<noteq> 0,
       dr_symbolic := dr_symbolic rep \<or> v AND 2 \<noteq> 0\<rparr>\<rparr>
     else s')"

text \<open>The loop from entry \<open>i\<close> on, with \<open>n\<close> entries left; a null entry ends it.\<close>

fun read_dynamic_table :: "bool \<Rightarrow> u64 \<Rightarrow> u64 \<Rightarrow> nat \<Rightarrow> nat \<Rightarrow> DynamicState \<Rightarrow> (Error, DynamicState) parse" where
  "read_dynamic_table is_wide offset entry_size i 0 s = preturn s"
| "read_dynamic_table is_wide offset entry_size i (Suc n) s =
    (let position = offset + of_nat i * entry_size in
     pbind (on_fail (rd_seek position) (\<lambda>_. no_error)) (\<lambda>_.
     pbind (read_dynamic_entry is_wide position) (\<lambda>e.
     if dyn_tag e = 0 then preturn (dynamic_step e s)
     else read_dynamic_table is_wide offset entry_size (Suc i) n (dynamic_step e s))))"

section \<open>The strings\<close>

definition string_for :: "Limits \<Rightarrow> BinaryImage \<Rightarrow> DynamicReport \<Rightarrow> string \<Rightarrow> u64 \<Rightarrow> Error + string" where
  "string_for limits img rep message offset =
    (case dynamic_string img (dr_string_table_address rep) (dr_string_table_size rep) offset (max_string_bytes limits) of
       None \<Rightarrow> Inl (mk_error invalid_string offset message) | Some s \<Rightarrow> Inr s)"

fun strings_for :: "Limits \<Rightarrow> BinaryImage \<Rightarrow> DynamicReport \<Rightarrow> u64 list \<Rightarrow> Error + string list" where
  "strings_for limits img rep [] = Inr []"
| "strings_for limits img rep (offset # rest) =
    (case string_for limits img rep ''needed-library string is invalid'' offset of
       Inl e \<Rightarrow> Inl e
     | Inr library \<Rightarrow>
       (case strings_for limits img rep rest of Inl e \<Rightarrow> Inl e | Inr libraries \<Rightarrow> Inr (library # libraries)))"

definition optional_string :: "Limits \<Rightarrow> BinaryImage \<Rightarrow> DynamicReport \<Rightarrow> string \<Rightarrow> u64 option \<Rightarrow> Error + string option" where
  "optional_string limits img rep message offset =
    (case offset of None \<Rightarrow> Inr None
     | Some at \<Rightarrow> (case string_for limits img rep message at of Inl e \<Rightarrow> Inl e | Inr s \<Rightarrow> Inr (Some s)))"

definition dynamic_strings :: "Limits \<Rightarrow> BinaryImage \<Rightarrow> Section \<Rightarrow> DynamicState \<Rightarrow> Error + DynamicReport" where
  "dynamic_strings limits img section s =
    (let rep = ds_report s in
     if (ds_needed s \<noteq> [] \<or> ds_soname s \<noteq> None \<or> ds_run_path s \<noteq> None \<or> ds_rpath s \<noteq> None) \<and>
        (dr_string_table_address rep = 0 \<or> dr_string_table_size rep = 0)
     then Inl (mk_error invalid_string (sec_file_offset section) ''dynamic strings referenced without a string table'')
     else if dr_string_table_size rep > max_string_bytes limits
     then Inl (mk_error resource_limit (dr_string_table_address rep) ''dynamic string table exceeds limit'')
     else case strings_for limits img rep (ds_needed s) of
       Inl e \<Rightarrow> Inl e
     | Inr needed \<Rightarrow>
       (case optional_string limits img rep ''shared-object name is invalid'' (ds_soname s) of
          Inl e \<Rightarrow> Inl e
        | Inr soname \<Rightarrow>
          (case optional_string limits img rep ''dynamic search path is invalid''
              (if ds_run_path s \<noteq> None then ds_run_path s else ds_rpath s) of
             Inl e \<Rightarrow> Inl e
           | Inr run_path \<Rightarrow> Inr (rep\<lparr>dr_needed_libraries := needed, dr_soname := soname, dr_run_path := run_path\<rparr>))))"

section \<open>The parser\<close>

definition dynamic_entry_size :: "bool \<Rightarrow> Section \<Rightarrow> u64" where
  "dynamic_entry_size is_wide section =
    (if sec_entry_size section \<noteq> 0 then sec_entry_size section else if is_wide then 16 else 8)"

definition dynamic_start :: DynamicState where
  "dynamic_start = \<lparr>ds_report = empty_dynamic, ds_needed = [], ds_soname = None, ds_run_path = None, ds_rpath = None\<rparr>"

definition parse_dynamic :: "Limits \<Rightarrow> BinaryImage \<Rightarrow> Section \<Rightarrow> Error + DynamicReport" where
  "parse_dynamic limits img section =
    (case (if hdr_format (img_header img) = elf_like then img_file_data img else None) of
       None \<Rightarrow> Inl (mk_error invalid_header (sec_file_offset section) ''dynamic parser requires an ELF image'')
     | Some data \<Rightarrow>
       if \<not> range_inside (sec_file_offset section) (sec_file_size section) (of_nat (length data))
       then Inl (mk_error invalid_section (sec_file_offset section) ''dynamic section is outside the file'')
       else let is_wide = (hdr_word_size (img_header img) = bits64);
                entry_size = dynamic_entry_size is_wide section in
         if entry_size < (if is_wide then 16 else 8) \<or> sec_file_size section mod entry_size \<noteq> 0
         then Inl (mk_error invalid_section (sec_file_offset section) ''dynamic section entry size is invalid'')
         else let count = sec_file_size section div entry_size in
           if count > ucast (max_symbols limits)
           then Inl (mk_error resource_limit (sec_file_offset section) ''dynamic entry limit exceeded'')
           else case fst (read_dynamic_table is_wide (sec_file_offset section) entry_size 0 (unat count) dynamic_start
               (reader_of data (hdr_byte_order (img_header img)))) of
             Inl e \<Rightarrow> Inl e | Inr s \<Rightarrow> dynamic_strings limits img section s)"

end
