(* ===== verification/Dynamic_Report.thy ===== *)
theory Dynamic_Report
  imports Elf_Dynamic
begin

unbundle bit_operations_syntax

text \<open>
  What the parser of \<open>Elf_Dynamic\<close> reports, in terms of the table: its entries up to the first null one,
  the last value of a tag, every value of a tag, and the strings at those offsets.
\<close>

section \<open>Tables\<close>

definition dynamic_fields :: "bool \<Rightarrow> ByteOrder \<Rightarrow> bytes \<Rightarrow> DynamicEntry" where
  "dynamic_fields is_wide order bs =
    (if is_wide then \<lparr>dyn_tag = field order 0 8 bs, dyn_value = field order 8 8 bs\<rparr>
     else \<lparr>dyn_tag = scast (field order 0 4 bs :: i32), dyn_value = ucast (field order 4 4 bs :: u32)\<rparr>)"

fun up_to_null :: "DynamicEntry list \<Rightarrow> DynamicEntry list" where
  "up_to_null [] = []"
| "up_to_null (e # es) = (if dyn_tag e = 0 then [e] else e # up_to_null es)"

definition tag_values :: "i64 list \<Rightarrow> DynamicEntry list \<Rightarrow> u64 list" where
  "tag_values tags es = map dyn_value (filter (\<lambda>e. dyn_tag e \<in> set tags) es)"

definition last_value :: "i64 list \<Rightarrow> DynamicEntry list \<Rightarrow> u64 option" where
  "last_value tags es = (if tag_values tags es = [] then None else Some (last (tag_values tags es)))"

definition value_or_0 :: "u64 option \<Rightarrow> u64" where
  "value_or_0 v = (case v of None \<Rightarrow> 0 | Some x \<Rightarrow> x)"

definition flagged :: "i64 \<Rightarrow> u64 \<Rightarrow> DynamicEntry list \<Rightarrow> bool" where
  "flagged tag flag es \<longleftrightarrow> list_ex (\<lambda>e. dyn_tag e = tag \<or> dyn_tag e = 30 \<and> dyn_value e AND flag \<noteq> 0) es"

lemma tag_values_snoc:
  "tag_values tags (es @ [e]) = tag_values tags es @ (if dyn_tag e \<in> set tags then [dyn_value e] else [])"
  by (simp add: tag_values_def)

lemma last_value_snoc:
  "last_value tags (es @ [e]) = (if dyn_tag e \<in> set tags then Some (dyn_value e) else last_value tags es)"
  by (simp add: last_value_def tag_values_snoc)

lemma flagged_snoc:
  "flagged tag flag (es @ [e]) \<longleftrightarrow> flagged tag flag es \<or> dyn_tag e = tag \<or> dyn_tag e = 30 \<and> dyn_value e AND flag \<noteq> 0"
  by (auto simp: flagged_def)

text \<open>The state of the loop after the entries \<open>es\<close>.\<close>

definition state_after :: "DynamicEntry list \<Rightarrow> DynamicState" where
  "state_after es =
    \<lparr>ds_report = \<lparr>dr_entries = es, dr_needed_libraries = [], dr_soname = None, dr_run_path = None,
       dr_string_table_address = value_or_0 (last_value [5] es), dr_string_table_size = value_or_0 (last_value [10] es),
       dr_symbol_table_address = value_or_0 (last_value [6] es),
       dr_relocation_address = value_or_0 (last_value [7, 17] es),
       dr_relocation_size = value_or_0 (last_value [8, 18] es),
       dr_bind_now = flagged 24 8 es, dr_symbolic = flagged 16 2 es\<rparr>,
     ds_needed = tag_values [1] es, ds_soname = last_value [14] es, ds_run_path = last_value [29] es,
     ds_rpath = last_value [15] es\<rparr>"

lemma state_after_Nil: "state_after [] = dynamic_start"
  by (simp add: state_after_def dynamic_start_def empty_dynamic_def last_value_def tag_values_def flagged_def value_or_0_def)

lemma dynamic_step_state: "dynamic_step e (state_after es) = state_after (es @ [e])"
  unfolding state_after_def dynamic_step_def Let_def last_value_snoc tag_values_snoc flagged_snoc
  by (simp add: value_or_0_def)

lemma fold_dynamic_step: "fold dynamic_step es (state_after done') = state_after (done' @ es)"
  by (induction es arbitrary: done') (simp_all add: dynamic_step_state)

section \<open>Reading the table\<close>

lemma read_field:
  assumes "reader_ok r"
  shows "n + 4 \<le> length (rd_rest r) \<Longrightarrow> read_u32 (rd_advance n r) =
      (Inr (field (rd_order r) n 4 (rd_rest r)), rd_advance (n + 4) r)"
    "n + 8 \<le> length (rd_rest r) \<Longrightarrow> read_u64 (rd_advance n r) =
      (Inr (field (rd_order r) n 8 (rd_rest r)), rd_advance (n + 8) r)"
proof -
  have ok: "reader_ok (rd_advance n r)" "rd_rest (rd_advance n r) = drop n (rd_rest r)"
    if "n + k \<le> length (rd_rest r)" for k
    using assms that by (simp_all add: reader_ok_advance rd_rest_advance)
  show "read_u32 (rd_advance n r) = (Inr (field (rd_order r) n 4 (rd_rest r)), rd_advance (n + 4) r)"
    if l: "n + 4 \<le> length (rd_rest r)"
  proof -
    have "\<not> length (drop n (rd_rest r)) < 4" using l by simp
    from read_u32_eq [OF ok(1) [OF l], unfolded ok(2) [OF l] if_not_P [OF this]] show ?thesis
      by (simp only: field_def rd_advance_simps rd_advance_advance)
  qed
  show "read_u64 (rd_advance n r) = (Inr (field (rd_order r) n 8 (rd_rest r)), rd_advance (n + 8) r)"
    if l: "n + 8 \<le> length (rd_rest r)"
  proof -
    have "\<not> length (drop n (rd_rest r)) < 8" using l by simp
    from read_u64_eq [OF ok(1) [OF l], unfolded ok(2) [OF l] if_not_P [OF this]] show ?thesis
      by (simp only: field_def rd_advance_simps rd_advance_advance)
  qed
qed

lemma read_dynamic_entry_at:
  assumes "reader_ok r" "(if is_wide then 16 else 8) \<le> length (rd_rest r)"
  shows "read_dynamic_entry is_wide at r =
    (Inr (dynamic_fields is_wide (rd_order r) (rd_rest r)), rd_advance (if is_wide then 16 else 8) r)"
proof (cases is_wide)
  case True
  then have "0 + 8 \<le> length (rd_rest r)" "8 + 8 \<le> length (rd_rest r)" using assms(2) by simp_all
  then have "read_i64 r = (Inr (field (rd_order r) 0 8 (rd_rest r)), rd_advance 8 r)"
    "read_u64 (rd_advance 8 r) = (Inr (field (rd_order r) 8 8 (rd_rest r)), rd_advance 16 r)"
    using read_field(2) [OF assms(1), of 0] read_field(2) [OF assms(1), of 8] by (simp_all add: read_i64_def)
  then show ?thesis
    by (simp add: read_dynamic_entry_def dynamic_fields_def True pbind_def on_fail_def preturn_def)
next
  case False
  then have "0 + 4 \<le> length (rd_rest r)" "4 + 4 \<le> length (rd_rest r)" using assms(2) by simp_all
  then have "read_i32 r = (Inr (field (rd_order r) 0 4 (rd_rest r)), rd_advance 4 r)"
    "read_u32 (rd_advance 4 r) = (Inr (field (rd_order r) 4 4 (rd_rest r)), rd_advance 8 r)"
    using read_field(1) [OF assms(1), of 0] read_field(1) [OF assms(1), of 4] by (simp_all add: read_i32_def)
  then show ?thesis
    by (simp add: read_dynamic_entry_def dynamic_fields_def False pbind_def on_fail_def preturn_def)
qed

lemma read_dynamic_table_at:
  assumes es: "(if is_wide then 16 else 8) \<le> unat entry_size" and len: "length data < 2 ^ 64"
  shows "table_reader data order r \<Longrightarrow> unat offset + (i + n) * unat entry_size \<le> length data \<Longrightarrow>
    \<exists>r'. read_dynamic_table is_wide offset entry_size i n s r =
      (Inr (fold dynamic_step (up_to_null (map (\<lambda>k. dynamic_fields is_wide order
        (drop (unat offset + k * unat entry_size) data)) [i..<i + n])) s), r')"
proof (induction n arbitrary: i s r)
  case (Suc n)
  let ?at = "offset + of_nat i * entry_size"
  have at: "unat ?at = unat offset + i * unat entry_size"
    using index_at [of offset "i + Suc n" entry_size "length data" i] Suc.prems(2) len by simp
  have room: "unat ?at + unat entry_size \<le> length data"
    using Suc.prems(2) unfolding at by (simp add: algebra_simps)
  let ?r1 = "r\<lparr>rd_position := ?at\<rparr>"
  have tr: "rd_seek ?at r = (Inr (), ?r1)" "table_reader data order ?r1" "rd_rest ?r1 = drop (unat ?at) data"
    using table_reader_seek [OF Suc.prems(1), of ?at] room by simp_all
  have ok: "reader_ok ?r1" "rd_order ?r1 = order" using table_reader_reader [OF tr(2)] by simp_all
  have l: "(if is_wide then 16 else 8) \<le> length (rd_rest ?r1)" using es room tr(3) by simp
  let ?e = "dynamic_fields is_wide order (drop (unat offset + i * unat entry_size) data)"
    and ?r2 = "rd_advance (if is_wide then 16 else 8) ?r1"
  have e: "read_dynamic_entry is_wide ?at ?r1 = (Inr ?e, ?r2)"
    using read_dynamic_entry_at [OF ok(1) l, of ?at] unfolding ok(2) tr(3) at .
  have sk: "on_fail (rd_seek ?at) (\<lambda>_. no_error) r = (Inr (), ?r1)" by (simp add: on_fail_def tr(1))
  have step: "read_dynamic_table is_wide offset entry_size i (Suc n) s r =
      (if dyn_tag ?e = 0 then preturn (dynamic_step ?e s)
       else read_dynamic_table is_wide offset entry_size (Suc i) n (dynamic_step ?e s)) ?r2"
    unfolding read_dynamic_table.simps Let_def pbind_step [where p = "on_fail (rd_seek ?at) (\<lambda>_. no_error)", OF sk]
      pbind_step [where p = "read_dynamic_entry is_wide ?at", OF e] by (rule refl)
  have up: "[i..<i + Suc n] = i # [Suc i..<Suc i + n]" by (simp add: upt_conv_Cons del: upt_Suc)
  show ?case
  proof (cases "dyn_tag ?e = 0")
    case True
    then show ?thesis unfolding step up by (simp add: preturn_def)
  next
    case False
    have "table_reader data order ?r2" by (rule table_reader_advance [OF tr(2) l])
    from Suc.IH [OF this, of "Suc i" "dynamic_step ?e s"] Suc.prems(2) False show ?thesis
      unfolding step up by simp
  qed
qed (simp add: preturn_def)

section \<open>The strings\<close>

text \<open>The entries of a dynamic section and the string at an offset of its string table.\<close>

definition section_entries :: "BinaryImage \<Rightarrow> Section \<Rightarrow> bytes \<Rightarrow> DynamicEntry list" where
  "section_entries img section data =
    (let is_wide = (hdr_word_size (img_header img) = bits64); entry_size = unat (dynamic_entry_size is_wide section) in
     up_to_null (map (\<lambda>k. dynamic_fields is_wide (hdr_byte_order (img_header img))
       (drop (unat (sec_file_offset section) + k * entry_size) data)) [0..<unat (sec_file_size section) div entry_size]))"

definition dynamic_text :: "Limits \<Rightarrow> BinaryImage \<Rightarrow> DynamicReport \<Rightarrow> u64 \<Rightarrow> string option" where
  "dynamic_text limits img rep offset =
    dynamic_string img (dr_string_table_address rep) (dr_string_table_size rep) offset (max_string_bytes limits)"

definition named_by :: "(u64 \<Rightarrow> string option) \<Rightarrow> u64 option \<Rightarrow> string option \<Rightarrow> bool" where
  "named_by text offset name \<longleftrightarrow>
    (case offset of None \<Rightarrow> name = None | Some at \<Rightarrow> name \<noteq> None \<and> name = text at)"

definition search_path :: "DynamicEntry list \<Rightarrow> u64 option" where
  "search_path es = (if last_value [29] es \<noteq> None then last_value [29] es else last_value [15] es)"

definition dynamic_report_of :: "Limits \<Rightarrow> BinaryImage \<Rightarrow> DynamicEntry list \<Rightarrow> DynamicReport \<Rightarrow> bool" where
  "dynamic_report_of limits img es rep \<longleftrightarrow>
     dr_entries rep = es \<and>
     dr_string_table_address rep = value_or_0 (last_value [5] es) \<and>
     dr_string_table_size rep = value_or_0 (last_value [10] es) \<and>
     dr_symbol_table_address rep = value_or_0 (last_value [6] es) \<and>
     dr_relocation_address rep = value_or_0 (last_value [7, 17] es) \<and>
     dr_relocation_size rep = value_or_0 (last_value [8, 18] es) \<and>
     (dr_bind_now rep \<longleftrightarrow> flagged 24 8 es) \<and> (dr_symbolic rep \<longleftrightarrow> flagged 16 2 es) \<and>
     dr_string_table_size rep \<le> max_string_bytes limits \<and>
     (list_ex (\<lambda>e. dyn_tag e \<in> {1, 14, 15, 29}) es \<longrightarrow>
        dr_string_table_address rep \<noteq> 0 \<and> dr_string_table_size rep \<noteq> 0) \<and>
     map Some (dr_needed_libraries rep) = map (dynamic_text limits img rep) (tag_values [1] es) \<and>
     named_by (dynamic_text limits img rep) (last_value [14] es) (dr_soname rep) \<and>
     named_by (dynamic_text limits img rep) (search_path es) (dr_run_path rep)"

lemma strings_for_Inr:
  "strings_for limits img rep offsets = Inr names \<longleftrightarrow>
   map Some names = map (\<lambda>off. dynamic_string img (dr_string_table_address rep) (dr_string_table_size rep) off
     (max_string_bytes limits)) offsets"
proof (induction offsets arbitrary: names)
  case (Cons off offsets)
  show ?case
    by (cases names)
      (auto simp: string_for_def Cons.IH [symmetric] split: option.splits sum.splits)
qed auto

lemma optional_string_Inr:
  "optional_string limits img rep message offset = Inr name \<longleftrightarrow>
   named_by (\<lambda>off. dynamic_string img (dr_string_table_address rep) (dr_string_table_size rep) off
     (max_string_bytes limits)) offset name"
  by (auto simp: optional_string_def named_by_def string_for_def split: option.splits)

lemma last_value_None: "last_value [t] es = None \<longleftrightarrow> \<not> list_ex (\<lambda>e. dyn_tag e = t) es"
  by (auto simp: last_value_def tag_values_def filter_empty_conv list_ex_iff)

lemma tag_values_Nil: "tag_values [t] es = [] \<longleftrightarrow> \<not> list_ex (\<lambda>e. dyn_tag e = t) es"
  by (auto simp: tag_values_def filter_empty_conv list_ex_iff)

lemma dynamic_strings_exact:
  "dynamic_strings limits img section (state_after es) = Inr rep \<longleftrightarrow> dynamic_report_of limits img es rep"
proof -
  let ?rep = "ds_report (state_after es)"
  have used: "(tag_values [1] es \<noteq> [] \<or> last_value [14] es \<noteq> None \<or> last_value [29] es \<noteq> None \<or> last_value [15] es \<noteq> None) \<longleftrightarrow>
      list_ex (\<lambda>e. dyn_tag e \<in> {1, 14, 15, 29}) es"
    by (auto simp: last_value_None tag_values_Nil list_ex_iff)
  have "dynamic_strings limits img section (state_after es) = Inr rep \<longleftrightarrow>
      (list_ex (\<lambda>e. dyn_tag e \<in> {1, 14, 15, 29}) es \<longrightarrow>
        dr_string_table_address ?rep \<noteq> 0 \<and> dr_string_table_size ?rep \<noteq> 0) \<and>
      dr_string_table_size ?rep \<le> max_string_bytes limits \<and>
      (\<exists>needed soname run_path. strings_for limits img ?rep (tag_values [1] es) = Inr needed \<and>
        optional_string limits img ?rep ''shared-object name is invalid'' (last_value [14] es) = Inr soname \<and>
        optional_string limits img ?rep ''dynamic search path is invalid'' (search_path es) = Inr run_path \<and>
        rep = ?rep\<lparr>dr_needed_libraries := needed, dr_soname := soname, dr_run_path := run_path\<rparr>)"
    unfolding used [symmetric] dynamic_strings_def search_path_def Let_def
    by (auto simp: state_after_def not_less split: sum.splits if_splits)
  also have "\<dots> \<longleftrightarrow> dynamic_report_of limits img es rep"
    unfolding strings_for_Inr optional_string_Inr dynamic_report_of_def dynamic_text_def
    by (cases rep) (auto simp: state_after_def)
  finally show ?thesis .
qed

definition dynamic_readable :: "Limits \<Rightarrow> BinaryImage \<Rightarrow> Section \<Rightarrow> bytes \<Rightarrow> bool" where
  "dynamic_readable limits img section data \<longleftrightarrow>
     (let is_wide = (hdr_word_size (img_header img) = bits64); entry_size = unat (dynamic_entry_size is_wide section);
          len = unat (sec_file_size section) in
      hdr_format (img_header img) = elf_like \<and> unat (sec_file_offset section) + len \<le> length data \<and>
      (if is_wide then 16 else 8) \<le> entry_size \<and> len mod entry_size = 0 \<and>
      len div entry_size \<le> unat (max_symbols limits))"

lemma parse_dynamic_unfold:
  assumes "img_file_data img = Some data" "length data < 2 ^ 64"
  shows "parse_dynamic limits img section = Inr rep \<longleftrightarrow> dynamic_readable limits img section data \<and>
    dynamic_strings limits img section (state_after (section_entries img section data)) = Inr rep"
proof -
  let ?w = "hdr_word_size (img_header img) = bits64" and ?o = "hdr_byte_order (img_header img)"
  let ?es = "dynamic_entry_size ?w section" and ?off = "sec_file_offset section" and ?len = "sec_file_size section"
  have size: "unat (of_nat (length data) :: u64) = length data"
    using assms(2) by (simp add: unat_of_nat_u64 del: unsigned_of_nat)
  have g1: "range_inside ?off ?len (of_nat (length data)) \<longleftrightarrow> unat ?off + unat ?len \<le> length data"
    by (simp add: range_inside_iff size)
  have g2: "?es < (if ?w then 16 else 8) \<longleftrightarrow> \<not> (if ?w then 16 else 8) \<le> unat ?es"
    by (auto simp: word_less_nat_alt)
  have g3: "?len mod ?es \<noteq> 0 \<longleftrightarrow> unat ?len mod unat ?es \<noteq> 0"
    by (simp add: unat_mod flip: unat_eq_zero)
  have g4: "?len div ?es > ucast (max_symbols limits) \<longleftrightarrow> \<not> unat ?len div unat ?es \<le> unat (max_symbols limits)"
    by (auto simp: word_less_nat_alt unat_div)
  have n: "unat (?len div ?es) = unat ?len div unat ?es" by (rule unat_div)
  have red: "(case (if hdr_format (img_header img) = elf_like then img_file_data img else None) of
      None \<Rightarrow> a | Some d \<Rightarrow> f d) = (if hdr_format (img_header img) = elf_like then f data else a)"
    for a :: "Error + DynamicReport" and f by (simp add: assms(1))
  show ?thesis
  proof (cases "dynamic_readable limits img section data")
    case True
    then have c: "hdr_format (img_header img) = elf_like" "unat ?off + unat ?len \<le> length data"
      "(if ?w then 16 else 8) \<le> unat ?es" "unat ?len mod unat ?es = 0" "unat ?len div unat ?es \<le> unat (max_symbols limits)"
      by (simp_all only: dynamic_readable_def Let_def)
    have "unat ?len div unat ?es * unat ?es \<le> unat ?len" by (rule div_times_less_eq_dividend)
    then have "unat ?off + (0 + unat ?len div unat ?es) * unat ?es \<le> length data" unfolding add_0 using c(2) by linarith
    from read_dynamic_table_at [OF c(3) assms(2) table_reader_of [OF assms(2), of ?o] this, of dynamic_start]
    have "fst (read_dynamic_table ?w ?off ?es 0 (unat ?len div unat ?es) dynamic_start (reader_of data ?o)) =
        Inr (state_after (section_entries img section data))"
      unfolding state_after_Nil [symmetric] fold_dynamic_step section_entries_def Let_def by auto
    then show ?thesis
      using True c unfolding parse_dynamic_def Let_def red g1 g2 g3 g4 n by simp
  next
    case False
    then have "\<not> (hdr_format (img_header img) = elf_like \<and> unat ?off + unat ?len \<le> length data \<and>
      (if ?w then 16 else 8) \<le> unat ?es \<and> unat ?len mod unat ?es = 0 \<and> unat ?len div unat ?es \<le> unat (max_symbols limits))"
      by (simp only: dynamic_readable_def Let_def simp_thms)
    then have "parse_dynamic limits img section \<noteq> Inr rep"
      unfolding parse_dynamic_def Let_def red g1 g2 g3 g4 by auto
    then show ?thesis using False by blast
  qed
qed

text \<open>A 32-bit image whose file is a table of four entries and the string table they point to.\<close>

definition demo_dynamic :: bytes where
  "demo_dynamic = [1, 0, 0, 0, 1, 0, 0, 0, 5, 0, 0, 0, 32, 0, 0, 0, 10, 0, 0, 0, 4, 0, 0, 0, 0, 0, 0, 0, 0, 0, 0, 0] @
     [0, 0x6d, 0, 0]"

definition demo_section :: "u64 \<Rightarrow> u64 \<Rightarrow> Section" where
  "demo_section off len = \<lparr>sec_index = 0, sec_name = [], sec_kind = program_bits, sec_file_offset = off,
     sec_file_size = len, sec_virtual_address = off, sec_memory_size = len, sec_alignment = 1, sec_entry_size = 0,
     sec_link = 0, sec_info = 0, sec_permissions = 1\<rparr>"

definition demo_dynamic_image :: BinaryImage where
  "demo_dynamic_image = empty_image\<lparr>img_header := (img_header empty_image)\<lparr>hdr_format := elf_like, hdr_word_size := bits32\<rparr>,
     img_sections := [demo_section 32 4], img_file_data := Some demo_dynamic\<rparr>"

lemma demo_dynamic_parses:
  "map_sum id dr_needed_libraries (parse_dynamic demo_limits demo_dynamic_image (demo_section 0 32)) = Inr [''m'']"
  by code_simp

section \<open>Properties\<close>

text \<open>
  C28. The dynamic parser succeeds exactly on ELF images whose section lies in the file, holds whole entries
  within the limit, and names only readable strings. Its report has the entries up to the first null one,
  the last value of every tag it keeps, the needed libraries in the order of their entries, and as search
  path the run path or, without one, the older rpath.
\<close>

theorem dynamic_parse_exact:
  assumes "img_file_data img = Some data" "length data < 2 ^ 64"
  shows "parse_dynamic limits img section = Inr rep \<longleftrightarrow>
    dynamic_readable limits img section data \<and> dynamic_report_of limits img (section_entries img section data) rep"
  unfolding parse_dynamic_unfold [OF assms] dynamic_strings_exact ..

theorem dynamic_parse_exact_witness:
  "\<exists>rep. dynamic_report_of demo_limits demo_dynamic_image (section_entries demo_dynamic_image (demo_section 0 32) demo_dynamic) rep \<and>
    dr_needed_libraries rep = [''m'']"
proof -
  obtain rep where p: "parse_dynamic demo_limits demo_dynamic_image (demo_section 0 32) = Inr rep"
    and n: "dr_needed_libraries rep = [''m'']"
    using demo_dynamic_parses by (cases "parse_dynamic demo_limits demo_dynamic_image (demo_section 0 32)") auto
  have d: "img_file_data demo_dynamic_image = Some demo_dynamic" by (simp add: demo_dynamic_image_def)
  have l: "length demo_dynamic < 2 ^ 64" by (simp add: demo_dynamic_def)
  show ?thesis using p n unfolding dynamic_parse_exact [OF d l] by blast
qed

end
