(* ===== verification/Decimal.thy ===== *)
theory Decimal
  imports Prelude
begin

text \<open>
  Decimal numbers as \<open>std::to_string\<close> and the streams of the library write them: the value can be read
  back, also when the number stands in front of other text.
\<close>

definition digit :: "char \<Rightarrow> bool" where
  "digit c \<longleftrightarrow> 48 \<le> (of_char c :: nat) \<and> (of_char c :: nat) < 58"

fun digits_value :: "string \<Rightarrow> nat" where
  "digits_value s = foldl (\<lambda>n c. 10 * n + (of_char c - 48)) 0 s"

lemma of_char_digit [simp]: "n < 10 \<Longrightarrow> (of_char (char_of (48 + n) :: char) :: nat) = 48 + n"
  by (simp add: of_char_of)

lemma to_string_digits: "\<forall>c \<in> set (to_string n). digit c"
proof (induction n rule: to_string.induct)
  case (1 n)
  then show ?case by (cases "n < 10") (simp_all add: to_string.simps [of n] digit_def)
qed

lemma digits_value_to_string: "digits_value (to_string n) = n"
proof (induction n rule: to_string.induct)
  case (1 n)
  then show ?case by (cases "n < 10") (simp_all add: to_string.simps [of n])
qed

lemma to_string_inject [simp]: "to_string m = to_string n \<longleftrightarrow> m = n"
  by (metis digits_value_to_string)

lemma takeWhile_digits: "\<not> digit c \<Longrightarrow> takeWhile digit (to_string n @ c # xs) = to_string n"
  using to_string_digits [of n] by (simp add: takeWhile_append2)

lemma to_string_split:
  assumes "\<not> digit c"
  shows "to_string m @ c # xs = to_string n @ c # ys \<longleftrightarrow> m = n \<and> xs = ys"
proof
  assume e: "to_string m @ c # xs = to_string n @ c # ys"
  then have "to_string m = to_string n" using takeWhile_digits [OF assms] by metis
  then show "m = n \<and> xs = ys" using e by simp
qed simp

end
