(* ===== verification/Image_Diff.thy ===== *)
theory Image_Diff
  imports Manifest Ordered_Map Decimal
begin

text \<open>
  \<open>ImageDiffer\<close> of \<open>src/image_diff.cc\<close>: two images compared by their headers, by the sections,
  segments, symbols, imports and exports of the same key, and by their relocations in order. An image is
  indexed by \<open>std::map::emplace\<close>, so of several elements of one key only the first is compared. The
  lemmas show that the printed descriptions lose nothing of the fields they print and state an empty
  report by the first element of each key.
\<close>

section \<open>Reports\<close>

datatype DifferenceKind =
    header_changed | section_added | section_removed | section_changed | segment_added
  | segment_removed | segment_changed | symbol_added | symbol_removed | symbol_changed
  | import_added | import_removed | export_added | export_removed | relocation_changed

record ImageDifference =
  df_kind :: DifferenceKind
  df_identity :: string
  df_before :: string
  df_after :: string
  df_address :: u64

record ImageDiffReport =
  dfr_equivalent :: bool
  dfr_additions :: u32
  dfr_removals :: u32
  dfr_modifications :: u32
  dfr_differences :: "ImageDifference list"

definition empty_diff :: ImageDiffReport where
  "empty_diff = \<lparr>dfr_equivalent = False, dfr_additions = 0, dfr_removals = 0, dfr_modifications = 0,
     dfr_differences = []\<rparr>"

definition add_difference :: "ImageDifference \<Rightarrow> bool \<Rightarrow> bool \<Rightarrow> ImageDiffReport \<Rightarrow> ImageDiffReport" where
  "add_difference d addition removal rep =
    (let rep' = (if addition then rep\<lparr>dfr_additions := dfr_additions rep + 1\<rparr>
                 else if removal then rep\<lparr>dfr_removals := dfr_removals rep + 1\<rparr>
                 else rep\<lparr>dfr_modifications := dfr_modifications rep + 1\<rparr>)
     in rep'\<lparr>dfr_differences := dfr_differences rep' @ [d]\<rparr>)"

definition mk_difference :: "DifferenceKind \<Rightarrow> string \<Rightarrow> string \<Rightarrow> string \<Rightarrow> u64 \<Rightarrow> ImageDifference" where
  "mk_difference kind identity left right address =
    \<lparr>df_kind = kind, df_identity = identity, df_before = left, df_after = right, df_address = address\<rparr>"

section \<open>Descriptions and keys\<close>

text \<open>An unsigned value inserted into a \<open>std::ostringstream\<close> is its decimal digits.\<close>

definition section_description :: "Section \<Rightarrow> string" where
  "section_description s =
    ''file='' @ to_string (unat (sec_file_offset s)) @ ''+'' @ to_string (unat (sec_file_size s)) @
    '' virtual='' @ to_string (unat (sec_virtual_address s)) @ ''+'' @ to_string (unat (sec_memory_size s)) @
    '' permissions='' @ to_string (unat (sec_permissions s)) @
    '' kind='' @ to_string (unat (section_kind_byte (sec_kind s)))"

definition segment_description :: "Segment \<Rightarrow> string" where
  "segment_description s =
    ''file='' @ to_string (unat (seg_file_offset s)) @ ''+'' @ to_string (unat (seg_file_size s)) @
    '' virtual='' @ to_string (unat (seg_virtual_address s)) @ ''+'' @ to_string (unat (seg_memory_size s)) @
    '' permissions='' @ to_string (unat (seg_permissions s))"

definition symbol_description :: "Symbol \<Rightarrow> string" where
  "symbol_description s =
    ''value='' @ to_string (unat (sym_value s)) @ '' size='' @ to_string (unat (sym_size s)) @
    '' section='' @ to_string (unat (sym_section_index s)) @
    '' binding='' @ to_string (unat (binding_byte (sym_binding s))) @
    '' kind='' @ to_string (unat (symbol_kind_byte (sym_kind s)))"

definition section_key :: "Section \<Rightarrow> string" where
  "section_key s = (if sec_name s = '''' then ''#'' @ to_string (unat (sec_index s)) else sec_name s)"

definition segment_key :: "Segment \<Rightarrow> u64" where
  "segment_key s = seg_virtual_address s"

definition symbol_key :: "Symbol \<Rightarrow> string" where
  "symbol_key s = sym_library s @ ''!'' @ sym_name s @ ''@'' @ to_string (unat (sym_value s))"

definition import_key :: "Import \<Rightarrow> string" where
  "import_key i = imp_library i @ ''!'' @
    (if imp_name i = '''' then ''#'' @ to_string (unat (imp_ordinal i)) else imp_name i)"

definition export_key :: "Export \<Rightarrow> string" where
  "export_key e = (if exp_name e = '''' then ''#'' @ to_string (unat (exp_ordinal e)) else exp_name e)"

definition index_values :: "('v \<Rightarrow> 'k::linorder) \<Rightarrow> 'v list \<Rightarrow> ('k, 'v) omap" where
  "index_values key vs = fold (\<lambda>v. om_emplace (key v) v) vs []"

section \<open>The comparison\<close>

text \<open>The two loops over indexed elements that carry a description: what is gone or described
  otherwise, then what is new.\<close>

definition diff_removed :: "DifferenceKind \<Rightarrow> DifferenceKind \<Rightarrow> ('k \<Rightarrow> string) \<Rightarrow> ('v \<Rightarrow> string) \<Rightarrow> ('v \<Rightarrow> u64) \<Rightarrow>
    ('k, 'v) omap \<Rightarrow> ('k, 'v) omap \<Rightarrow> ImageDiffReport \<Rightarrow> ImageDiffReport" where
  "diff_removed removed changed identity describe address left right =
    fold (\<lambda>(k, v) rep. case om_find right k of
        None \<Rightarrow> add_difference (mk_difference removed (identity k) (describe v) '''' (address v)) False True rep
      | Some w \<Rightarrow> if describe v \<noteq> describe w
          then add_difference (mk_difference changed (identity k) (describe v) (describe w) (address w)) False False rep
          else rep) left"

definition diff_added :: "DifferenceKind \<Rightarrow> ('k \<Rightarrow> string) \<Rightarrow> ('v \<Rightarrow> string) \<Rightarrow> ('v \<Rightarrow> u64) \<Rightarrow>
    ('k, 'v) omap \<Rightarrow> ('k, 'v) omap \<Rightarrow> ImageDiffReport \<Rightarrow> ImageDiffReport" where
  "diff_added added identity describe address left right =
    fold (\<lambda>(k, v) rep. if om_find left k = None
        then add_difference (mk_difference added (identity k) '''' (describe v) (address v)) True False rep
        else rep) right"

text \<open>Imports and exports are only present or absent.\<close>

definition diff_gone :: "DifferenceKind \<Rightarrow> ('v \<Rightarrow> u64) \<Rightarrow> (string, 'v) omap \<Rightarrow> (string, 'v) omap \<Rightarrow>
    ImageDiffReport \<Rightarrow> ImageDiffReport" where
  "diff_gone removed address left right =
    fold (\<lambda>(k, v) rep. if om_find right k = None
        then add_difference (mk_difference removed k ''present'' '''' (address v)) False True rep
        else rep) left"

definition diff_header :: "FileHeader \<Rightarrow> FileHeader \<Rightarrow> ImageDiffReport \<Rightarrow> ImageDiffReport" where
  "diff_header a b rep =
    (if hdr_format a \<noteq> hdr_format b \<or> hdr_word_size a \<noteq> hdr_word_size b \<or>
        hdr_byte_order a \<noteq> hdr_byte_order b \<or> hdr_kind a \<noteq> hdr_kind b \<or>
        hdr_architecture a \<noteq> hdr_architecture b \<or> hdr_entry_point a \<noteq> hdr_entry_point b \<or>
        hdr_image_base a \<noteq> hdr_image_base b \<or> hdr_flags a \<noteq> hdr_flags b
     then add_difference (mk_difference header_changed ''header'' ''before'' ''after'' (hdr_entry_point b)) False False rep
     else rep)"

definition diff_sections :: "Section list \<Rightarrow> Section list \<Rightarrow> ImageDiffReport \<Rightarrow> ImageDiffReport" where
  "diff_sections xs ys rep =
    (let left = index_values section_key xs; right = index_values section_key ys in
     diff_added section_added (\<lambda>k. k) section_description sec_virtual_address left right
       (diff_removed section_removed section_changed (\<lambda>k. k) section_description sec_virtual_address left right rep))"

definition diff_segments :: "Segment list \<Rightarrow> Segment list \<Rightarrow> ImageDiffReport \<Rightarrow> ImageDiffReport" where
  \<comment> \<open>the address printed is the key, which is the virtual address of the segment of that key\<close>
  "diff_segments xs ys rep =
    (let left = index_values segment_key xs; right = index_values segment_key ys;
         identity = (\<lambda>k. to_string (unat k)) in
     diff_added segment_added identity segment_description segment_key left right
       (diff_removed segment_removed segment_changed identity segment_description segment_key left right rep))"

definition diff_symbols :: "Symbol list \<Rightarrow> Symbol list \<Rightarrow> ImageDiffReport \<Rightarrow> ImageDiffReport" where
  "diff_symbols xs ys rep =
    (let left = index_values symbol_key xs; right = index_values symbol_key ys in
     diff_added symbol_added (\<lambda>k. k) symbol_description sym_value left right
       (diff_removed symbol_removed symbol_changed (\<lambda>k. k) symbol_description sym_value left right rep))"

definition diff_imports :: "Import list \<Rightarrow> Import list \<Rightarrow> ImageDiffReport \<Rightarrow> ImageDiffReport" where
  "diff_imports xs ys rep =
    (let left = index_values import_key xs; right = index_values import_key ys in
     diff_added import_added (\<lambda>k. k) (\<lambda>_. ''present'') imp_slot_address left right
       (diff_gone import_removed imp_slot_address left right rep))"

definition diff_exports :: "Export list \<Rightarrow> Export list \<Rightarrow> ImageDiffReport \<Rightarrow> ImageDiffReport" where
  "diff_exports xs ys rep =
    (let left = index_values export_key xs; right = index_values export_key ys in
     diff_added export_added (\<lambda>k. k) (\<lambda>_. ''present'') exp_address left right
       (diff_gone export_removed exp_address left right rep))"

definition diff_relocation :: "Relocation list \<Rightarrow> Relocation list \<Rightarrow> nat \<Rightarrow> ImageDiffReport \<Rightarrow> ImageDiffReport" where
  "diff_relocation xs ys i rep =
    (if i \<ge> length xs \<or> i \<ge> length ys \<or> rel_kind (xs ! i) \<noteq> rel_kind (ys ! i) \<or>
        rel_offset (xs ! i) \<noteq> rel_offset (ys ! i) \<or> rel_symbol_index (xs ! i) \<noteq> rel_symbol_index (ys ! i) \<or>
        rel_addend (xs ! i) \<noteq> rel_addend (ys ! i)
     then add_difference (mk_difference relocation_changed (to_string i)
            (if i < length xs then ''present'' else '''') (if i < length ys then ''present'' else '''')
            (if i < length ys then rel_offset (ys ! i) else rel_offset (xs ! i)))
          (i \<ge> length xs) (i \<ge> length ys) rep
     else rep)"

definition diff_relocations :: "Relocation list \<Rightarrow> Relocation list \<Rightarrow> ImageDiffReport \<Rightarrow> ImageDiffReport" where
  "diff_relocations xs ys = fold (diff_relocation xs ys) [0..<max (length xs) (length ys)]"

definition item_count :: "BinaryImage \<Rightarrow> nat" where
  "item_count img = length (img_sections img) + length (img_segments img) + length (img_symbols img) +
     length (img_imports img) + length (img_exports img) + length (img_relocations img)"

definition compare_reports :: "BinaryImage \<Rightarrow> BinaryImage \<Rightarrow> ImageDiffReport" where
  "compare_reports a b =
    diff_relocations (img_relocations a) (img_relocations b)
    (diff_exports (img_exports a) (img_exports b)
    (diff_imports (img_imports a) (img_imports b)
    (diff_symbols (img_symbols a) (img_symbols b)
    (diff_segments (img_segments a) (img_segments b)
    (diff_sections (img_sections a) (img_sections b)
    (diff_header (img_header a) (img_header b) empty_diff))))))"

definition compare_images :: "Limits \<Rightarrow> BinaryImage \<Rightarrow> BinaryImage \<Rightarrow> ImageDiffReport \<times> Error" where
  \<comment> \<open>the sum of the lengths of live vectors fits in 64 bits\<close>
  "compare_images limits a b =
    (if of_nat (item_count a + item_count b) >
        (ucast (max_sections limits) * 4 + ucast (max_symbols limits) * 4 + ucast (max_relocations limits) * 2 :: u64)
     then (empty_diff, mk_error resource_limit 0 ''image comparison exceeds item limit'')
     else let rep = compare_reports a b
       in (rep\<lparr>dfr_equivalent := (dfr_differences rep = [])\<rparr>, no_error))"

section \<open>What the descriptions print\<close>

lemma separators: "\<not> digit (CHR ''+'')" "\<not> digit (CHR '' '')"
  by (simp_all add: digit_def)

lemma unat_inject: "unat a = unat b \<longleftrightarrow> a = (b :: 'a::len word)"
  by (simp add: word_unat_eq_iff)

definition section_fields :: "Section \<Rightarrow> u64 \<times> u64 \<times> u64 \<times> u64 \<times> u8 \<times> u8" where
  "section_fields s = (sec_file_offset s, sec_file_size s, sec_virtual_address s, sec_memory_size s,
     sec_permissions s, section_kind_byte (sec_kind s))"

definition segment_fields :: "Segment \<Rightarrow> u64 \<times> u64 \<times> u64 \<times> u64 \<times> u8" where
  "segment_fields s = (seg_file_offset s, seg_file_size s, seg_virtual_address s, seg_memory_size s,
     seg_permissions s)"

definition symbol_fields :: "Symbol \<Rightarrow> u64 \<times> u64 \<times> u32 \<times> u8 \<times> u8" where
  "symbol_fields s = (sym_value s, sym_size s, sym_section_index s, binding_byte (sym_binding s),
     symbol_kind_byte (sym_kind s))"

lemma section_description_inject:
  "section_description s = section_description t \<longleftrightarrow> section_fields s = section_fields t"
  by (simp add: section_description_def section_fields_def to_string_split separators unat_inject)

lemma segment_description_inject:
  "segment_description s = segment_description t \<longleftrightarrow> segment_fields s = segment_fields t"
  by (simp add: segment_description_def segment_fields_def to_string_split separators unat_inject)

lemma symbol_description_inject:
  "symbol_description s = symbol_description t \<longleftrightarrow> symbol_fields s = symbol_fields t"
  by (simp add: symbol_description_def symbol_fields_def to_string_split separators unat_inject)

section \<open>Indexes\<close>

text \<open>The first element of a key.\<close>

definition first_of :: "('v \<Rightarrow> 'k) \<Rightarrow> 'v list \<Rightarrow> 'k \<Rightarrow> 'v option" where
  "first_of key vs k = find (\<lambda>v. key v = k) vs"

lemma map_of_first: "map_of (map (\<lambda>v. (key v, v)) vs) k = first_of key vs k"
  by (induction vs) (auto simp: first_of_def)

lemma index_values_ok: "om_ok (index_values key vs)"
  and index_values_find: "om_find (index_values key vs) k = first_of key vs k"
proof -
  have f: "index_values key vs = fold (\<lambda>(k, v). om_emplace k v) (map (\<lambda>v. (key v, v)) vs) []"
    by (simp add: index_values_def fold_map comp_def)
  show "om_ok (index_values key vs)"
    unfolding f using om.fill_ok_find [OF om_ok_Nil] by blast
  show "om_find (index_values key vs) k = first_of key vs k"
    unfolding f using om.fill_ok_find [OF om_ok_Nil, of "map (\<lambda>v. (key v, v)) vs" k]
    by (simp add: map_of_first)
qed

lemma index_values_mem: "(k, v) \<in> set (index_values key vs) \<longleftrightarrow> first_of key vs k = Some v"
  using om_find_Some_iff [OF index_values_ok] index_values_find by metis

lemma index_values_all:
  "(\<forall>x \<in> set (index_values key vs). \<not> (case x of (k, v) \<Rightarrow> R k v)) \<longleftrightarrow>
    (\<forall>k v. first_of key vs k = Some v \<longrightarrow> \<not> R k v)"
  using index_values_mem [of _ _ key vs] by fastforce

section \<open>Reports without differences\<close>

text \<open>A step that adds differences under a condition: an empty report is left empty exactly when the
  condition never holds.\<close>

lemma add_difference_adds [simp]: "dfr_differences (add_difference d x y rep) = dfr_differences rep @ [d]"
  by (simp add: add_difference_def Let_def)

lemma fold_adds:
  assumes "\<And>x rep. \<exists>ds. dfr_differences (f x rep) = dfr_differences rep @ ds \<and> (ds = [] \<longleftrightarrow> \<not> P x)"
  shows "\<exists>ds. dfr_differences (fold f xs rep) = dfr_differences rep @ ds \<and>
    (ds = [] \<longleftrightarrow> (\<forall>x \<in> set xs. \<not> P x))"
proof (induction xs arbitrary: rep)
  case (Cons x xs)
  obtain ds where d: "dfr_differences (f x rep) = dfr_differences rep @ ds" "ds = [] \<longleftrightarrow> \<not> P x"
    using assms by blast
  obtain es where e: "dfr_differences (fold f xs (f x rep)) = dfr_differences (f x rep) @ es"
    "es = [] \<longleftrightarrow> (\<forall>x \<in> set xs. \<not> P x)" using Cons.IH by blast
  show ?case by (rule exI [of _ "ds @ es"]) (use d e in auto)
qed simp

definition adds_unless :: "bool \<Rightarrow> (ImageDiffReport \<Rightarrow> ImageDiffReport) \<Rightarrow> bool" where
  "adds_unless same f \<longleftrightarrow> (\<forall>rep. dfr_differences (f rep) = [] \<longleftrightarrow> dfr_differences rep = [] \<and> same)"

lemma adds_unless_fold:
  assumes "\<And>x rep. \<exists>ds. dfr_differences (f x rep) = dfr_differences rep @ ds \<and> (ds = [] \<longleftrightarrow> \<not> P x)"
    and "(\<forall>x \<in> set xs. \<not> P x) \<longleftrightarrow> same"
  shows "adds_unless same (fold f xs)"
  unfolding adds_unless_def using fold_adds [of f P xs, OF assms(1)] assms(2)
  by (metis append_is_Nil_conv)

lemma adds_unless_comp:
  "adds_unless p f \<Longrightarrow> adds_unless q g \<Longrightarrow> adds_unless (p \<and> q) (\<lambda>rep. g (f rep))"
  by (auto simp: adds_unless_def)

text \<open>Two lists of elements are described alike: the first elements of each key agree.\<close>

definition same_described :: "('v \<Rightarrow> 'k) \<Rightarrow> ('v \<Rightarrow> 'd) \<Rightarrow> 'v list \<Rightarrow> 'v list \<Rightarrow> bool" where
  "same_described key describe xs ys \<longleftrightarrow>
    (\<forall>k. map_option describe (first_of key xs k) = map_option describe (first_of key ys k))"

lemma adds_removed:
  "adds_unless (\<forall>k v. first_of key xs k = Some v \<longrightarrow> map_option describe (first_of key ys k) = Some (describe v))
    (diff_removed removed changed identity describe address (index_values key xs) (index_values key ys))"
  unfolding diff_removed_def
  apply (rule adds_unless_fold [where P = "\<lambda>(k, v). map_option describe (first_of key ys k) \<noteq> Some (describe v)"])
  subgoal by (auto simp: index_values_find split: option.splits prod.splits)
  subgoal unfolding index_values_all by auto
  done

lemma adds_added:
  "adds_unless (\<forall>k v. first_of key ys k = Some v \<longrightarrow> first_of key xs k \<noteq> None)
    (diff_added added identity describe address (index_values key xs) (index_values key ys))"
  unfolding diff_added_def
  apply (rule adds_unless_fold [where P = "\<lambda>(k, v). first_of key xs k = None"])
  subgoal by (auto simp: index_values_find split: option.splits prod.splits)
  subgoal unfolding index_values_all by auto
  done

lemma adds_gone:
  "adds_unless (\<forall>k v. first_of key xs k = Some v \<longrightarrow> first_of key ys k \<noteq> None)
    (diff_gone removed address (index_values key xs) (index_values key ys))"
  unfolding diff_gone_def
  apply (rule adds_unless_fold [where P = "\<lambda>(k, v). first_of key ys k = None"])
  subgoal by (auto simp: index_values_find split: option.splits prod.splits)
  subgoal unfolding index_values_all by auto
  done

lemma same_described_iff:
  "same_described key describe xs ys \<longleftrightarrow>
    (\<forall>k v. first_of key xs k = Some v \<longrightarrow> map_option describe (first_of key ys k) = Some (describe v)) \<and>
    (\<forall>k v. first_of key ys k = Some v \<longrightarrow> first_of key xs k \<noteq> None)"
proof -
  have eq: "map_option describe a = map_option describe b \<longleftrightarrow>
      (\<forall>v. a = Some v \<longrightarrow> map_option describe b = Some (describe v)) \<and> (\<forall>v. b = Some v \<longrightarrow> a \<noteq> None)"
    for a b by (cases a; cases b) auto
  show ?thesis unfolding same_described_def eq all_conj_distrib ..
qed

lemma same_keys_iff:
  "key ` set xs = key ` set ys \<longleftrightarrow>
    (\<forall>k v. first_of key xs k = Some v \<longrightarrow> first_of key ys k \<noteq> None) \<and>
    (\<forall>k v. first_of key ys k = Some v \<longrightarrow> first_of key xs k \<noteq> None)"
proof -
  have "k \<in> key ` set zs \<longleftrightarrow> first_of key zs k \<noteq> None" for k zs
    by (induction zs) (auto simp: first_of_def)
  then show ?thesis by (auto simp: set_eq_iff)
qed

lemma same_described_fields:
  assumes "\<And>s t. describe s = describe t \<longleftrightarrow> project s = project t"
  shows "same_described key describe xs ys \<longleftrightarrow> same_described key project xs ys"
proof -
  have "map_option describe a = map_option describe b \<longleftrightarrow> map_option project a = map_option project b" for a b
    using assms by (cases a; cases b) auto
  then show ?thesis by (simp add: same_described_def)
qed

lemma adds_keyed:
  assumes "\<And>s t. describe s = describe t \<longleftrightarrow> project s = project t"
  shows "adds_unless (same_described key project xs ys)
    (\<lambda>rep. diff_added added identity describe address (index_values key xs) (index_values key ys)
      (diff_removed removed changed identity describe address (index_values key xs) (index_values key ys) rep))"
  using adds_unless_comp [OF adds_removed adds_added]
  unfolding same_described_fields [OF assms, symmetric] same_described_iff [of key describe] .

lemma adds_header:
  "adds_unless (hdr_format a = hdr_format b \<and> hdr_word_size a = hdr_word_size b \<and>
      hdr_byte_order a = hdr_byte_order b \<and> hdr_kind a = hdr_kind b \<and>
      hdr_architecture a = hdr_architecture b \<and> hdr_entry_point a = hdr_entry_point b \<and>
      hdr_image_base a = hdr_image_base b \<and> hdr_flags a = hdr_flags b) (diff_header a b)"
  by (auto simp: adds_unless_def diff_header_def)

lemma adds_sections: "adds_unless (same_described section_key section_fields xs ys) (diff_sections xs ys)"
  unfolding diff_sections_def Let_def by (rule adds_keyed [OF section_description_inject])

lemma adds_segments: "adds_unless (same_described segment_key segment_fields xs ys) (diff_segments xs ys)"
  unfolding diff_segments_def Let_def by (rule adds_keyed [OF segment_description_inject])

lemma adds_symbols: "adds_unless (same_described symbol_key symbol_fields xs ys) (diff_symbols xs ys)"
  unfolding diff_symbols_def Let_def by (rule adds_keyed [OF symbol_description_inject])

lemma adds_imports: "adds_unless (import_key ` set xs = import_key ` set ys) (diff_imports xs ys)"
  unfolding diff_imports_def Let_def same_keys_iff by (rule adds_unless_comp [OF adds_gone adds_added])

lemma adds_exports: "adds_unless (export_key ` set xs = export_key ` set ys) (diff_exports xs ys)"
  unfolding diff_exports_def Let_def same_keys_iff by (rule adds_unless_comp [OF adds_gone adds_added])

definition relocation_fields :: "Relocation \<Rightarrow> RelocationKind \<times> u64 \<times> u32 \<times> i64" where
  "relocation_fields r = (rel_kind r, rel_offset r, rel_symbol_index r, rel_addend r)"

lemma diff_relocation_adds:
  "\<exists>ds. dfr_differences (diff_relocation xs ys i rep) = dfr_differences rep @ ds \<and>
    (ds = [] \<longleftrightarrow> \<not> (i \<ge> length xs \<or> i \<ge> length ys \<or> relocation_fields (xs ! i) \<noteq> relocation_fields (ys ! i)))"
proof (cases "i \<ge> length xs \<or> i \<ge> length ys \<or> relocation_fields (xs ! i) \<noteq> relocation_fields (ys ! i)")
  case True
  then have "dfr_differences (diff_relocation xs ys i rep) \<noteq> dfr_differences rep"
    unfolding diff_relocation_def by (auto simp: relocation_fields_def)
  moreover have "\<exists>ds. dfr_differences (diff_relocation xs ys i rep) = dfr_differences rep @ ds"
    by (simp add: diff_relocation_def)
  ultimately show ?thesis using True by auto
next
  case False
  then have "diff_relocation xs ys i rep = rep"
    unfolding diff_relocation_def relocation_fields_def prod.inject by (intro if_not_P) blast
  then show ?thesis using False by simp
qed

lemma indexwise_equal:
  "(\<forall>i \<in> set [0..<max (length xs) (length ys)]. \<not> (i \<ge> length xs \<or> i \<ge> length ys \<or> f (xs ! i) \<noteq> f (ys ! i)))
    \<longleftrightarrow> map f xs = map f ys" (is "?all \<longleftrightarrow> ?maps")
proof
  assume ?all
  have all: "i < length xs \<and> i < length ys \<and> f (xs ! i) = f (ys ! i)" if "i < length xs \<or> i < length ys" for i
  proof -
    have "i \<in> set [0..<max (length xs) (length ys)]" using that by auto
    then show ?thesis using bspec [OF \<open>?all\<close>] unfolding not_le [symmetric] by blast
  qed
  have "length xs = length ys"
    using all [of "length xs"] all [of "length ys"] by (meson less_irrefl nat_neq_iff)
  moreover have "\<forall>i < length xs. f (xs ! i) = f (ys ! i)" using all by blast
  ultimately show ?maps by (simp add: list_eq_iff_nth_eq)
next
  assume m: ?maps
  then have l: "length xs = length ys" by (metis length_map)
  have "f (xs ! i) = f (ys ! i)" if "i < length xs" for i
    using m l that by (metis nth_map)
  then show ?all using l by auto
qed

lemma adds_relocations: "adds_unless (map relocation_fields xs = map relocation_fields ys) (diff_relocations xs ys)"
  unfolding diff_relocations_def by (rule adds_unless_fold [OF diff_relocation_adds indexwise_equal])

section \<open>Equivalent images\<close>

text \<open>
  C29. A comparison within its item limit reports the images equivalent exactly when their headers agree
  in the eight compared fields, the first section of each name (of each index for a nameless one), the first segment of each
  address and the first symbol of each library, name and value agree in the fields their descriptions
  print, the same imports and the same exports are present, and the relocations agree one by one in
  kind, offset, symbol and addend. Comparing decimal texts therefore loses nothing, and only a second
  element of the same key can differ unnoticed.
\<close>

theorem equivalent_iff:
  assumes "compare_images limits a b = (rep, no_error)"
  shows "dfr_equivalent rep \<longleftrightarrow>
    hdr_format (img_header a) = hdr_format (img_header b) \<and>
    hdr_word_size (img_header a) = hdr_word_size (img_header b) \<and>
    hdr_byte_order (img_header a) = hdr_byte_order (img_header b) \<and>
    hdr_kind (img_header a) = hdr_kind (img_header b) \<and>
    hdr_architecture (img_header a) = hdr_architecture (img_header b) \<and>
    hdr_entry_point (img_header a) = hdr_entry_point (img_header b) \<and>
    hdr_image_base (img_header a) = hdr_image_base (img_header b) \<and>
    hdr_flags (img_header a) = hdr_flags (img_header b) \<and>
    same_described section_key section_fields (img_sections a) (img_sections b) \<and>
    same_described segment_key segment_fields (img_segments a) (img_segments b) \<and>
    same_described symbol_key symbol_fields (img_symbols a) (img_symbols b) \<and>
    import_key ` set (img_imports a) = import_key ` set (img_imports b) \<and>
    export_key ` set (img_exports a) = export_key ` set (img_exports b) \<and>
    map relocation_fields (img_relocations a) = map relocation_fields (img_relocations b)"
proof -
  have "rep = (let r = compare_reports a b in r\<lparr>dfr_equivalent := (dfr_differences r = [])\<rparr>)"
    using assms by (auto simp: compare_images_def Let_def no_error_def split: if_splits)
  then have "dfr_equivalent rep \<longleftrightarrow> dfr_differences (compare_reports a b) = []"
    by (simp add: Let_def)
  then show ?thesis
    using adds_header adds_sections adds_segments adds_symbols adds_imports adds_exports adds_relocations
    by (simp add: compare_reports_def adds_unless_def empty_diff_def)
qed

text \<open>Two images whose second sections of the name \<open>.data\<close> lie at different addresses: a difference
  the comparison does not see.\<close>

definition demo_data_section :: "u64 \<Rightarrow> Section" where
  "demo_data_section address = \<lparr>sec_index = 0, sec_name = ''.data'', sec_kind = program_bits, sec_file_offset = 64,
     sec_file_size = 16, sec_virtual_address = address, sec_memory_size = 16, sec_alignment = 1,
     sec_entry_size = 0, sec_link = 0, sec_info = 0, sec_permissions = 3\<rparr>"

definition demo_diff_image :: "u64 \<Rightarrow> BinaryImage" where
  "demo_diff_image address = empty_image\<lparr>img_sections := [demo_data_section 4096, demo_data_section address]\<rparr>"

theorem equivalent_iff_witness:
  "\<exists>rep. compare_images demo_limits (demo_diff_image 8192) (demo_diff_image 12288) = (rep, no_error) \<and>
     dfr_equivalent rep \<and> demo_diff_image 8192 \<noteq> demo_diff_image 12288"
proof -
  let ?a = "demo_diff_image 8192" and ?b = "demo_diff_image 12288"
  have "snd (compare_images demo_limits ?a ?b) = no_error"
    by (simp add: compare_images_def Let_def item_count_def demo_diff_image_def demo_limits_def
        default_limits_def empty_image_def)
  then have run: "compare_images demo_limits ?a ?b = (fst (compare_images demo_limits ?a ?b), no_error)"
    by (metis prod.collapse)
  have "dfr_equivalent (fst (compare_images demo_limits ?a ?b))"
    unfolding equivalent_iff [OF run]
    by (simp add: demo_diff_image_def empty_image_def same_described_def
        first_of_def section_key_def demo_data_section_def)
  moreover have "?a \<noteq> ?b" by (simp add: demo_diff_image_def demo_data_section_def empty_image_def)
  ultimately show ?thesis using run by blast
qed

end
