(* ===== verification/Unwind.thy ===== *)
theory Unwind
  imports Progress
begin

unbundle bit_operations_syntax

text \<open>
  \<open>UnwindParser\<close> of \<open>src/unwind.cc\<close>: the call-frame instructions and records of an \<open>.eh_frame\<close> section,
  and the runtime-function table of a PE image. The loops are recursions on the bytes that remain. The lemmas
  bound what a report holds and account for the bytes it says are covered.
\<close>

section \<open>Reports\<close>

datatype UnwindOperation =
  unwind_none | push_register | allocate_stack | save_register | set_frame_pointer | restore_state | finish

record UnwindInstruction =
  uw_operation :: UnwindOperation
  uw_register :: u32
  uw_offset :: u64
  uw_value :: i64

record UnwindRecord =
  ur_start_address :: u64
  ur_end_address :: u64
  ur_personality :: u64
  ur_landing_pad :: u64
  ur_signal_frame :: bool
  ur_instructions :: "UnwindInstruction list"

record UnwindReport =
  uwr_records :: "UnwindRecord list"
  uwr_covered_bytes :: u64
  uwr_warnings :: "string list"

definition unwind_instruction :: "UnwindOperation \<Rightarrow> u32 \<Rightarrow> u64 \<Rightarrow> i64 \<Rightarrow> UnwindInstruction" where
  "unwind_instruction operation reg offset v =
    \<lparr>uw_operation = operation, uw_register = reg, uw_offset = offset, uw_value = v\<rparr>"

definition empty_unwind :: UnwindReport where
  "empty_unwind = \<lparr>uwr_records = [], uwr_covered_bytes = 0, uwr_warnings = []\<rparr>"

section \<open>Call-frame instructions\<close>

definition read_address :: "WordSize \<Rightarrow> u64 read" where
  "read_address w = (if w = bits64 then read_u64 else pbind read_u32 (\<lambda>small. preturn (ucast small)))"

text \<open>A register and a displacement, both LEB128; the register must fit 32 bits.\<close>

definition register_and_offset :: "UnwindOperation \<Rightarrow> UnwindInstruction read" where
  "register_and_offset operation =
    pbind read_uleb128 (\<lambda>reg. pbind read_uleb128 (\<lambda>displacement.
    pbind (pcheck (\<lambda>_. \<not> reg > 0xffffffff)) (\<lambda>_.
    preturn (unwind_instruction operation (ucast reg) displacement 0))))"

text \<open>What follows an opcode. A failed read leaves the error unset.\<close>

definition read_cfi_operands :: "u64 \<Rightarrow> u8 \<Rightarrow> (Error, UnwindInstruction) parse" where
  "read_cfi_operands offset opcode =
    (let primary = opcode AND 0xc0; low = opcode AND 0x3f; silent = (\<lambda>p. on_fail p (\<lambda>_. no_error)) in
     if primary = 0x40 then preturn (unwind_instruction unwind_none 0 0 (ucast low))
     else if primary = 0x80 then silent (pbind read_uleb128 (\<lambda>displacement.
       preturn (unwind_instruction save_register (ucast low) displacement 0)))
     else if primary = 0xc0 then preturn (unwind_instruction restore_state (ucast low) 0 0)
     else if opcode = 0 then preturn (unwind_instruction unwind_none 0 0 0)
     else if opcode = 1 then silent (pbind read_u64 (\<lambda>location.
       preturn (unwind_instruction set_frame_pointer 0 location 0)))
     else if opcode = 2 then silent (pbind read_u8 (\<lambda>delta. preturn (unwind_instruction unwind_none 0 0 (ucast delta))))
     else if opcode = 3 then silent (pbind read_u16 (\<lambda>delta. preturn (unwind_instruction unwind_none 0 0 (ucast delta))))
     else if opcode = 4 then silent (pbind read_u32 (\<lambda>delta. preturn (unwind_instruction unwind_none 0 0 (ucast delta))))
     else if opcode = 5 then silent (register_and_offset save_register)
     else if opcode = 10 then preturn (unwind_instruction restore_state 0 0 0)
     else if opcode = 12 then silent (register_and_offset set_frame_pointer)
     else if opcode = 14 then silent (pbind read_uleb128 (\<lambda>displacement.
       preturn (unwind_instruction allocate_stack 0 displacement 0)))
     else pfail (mk_error invalid_debug_info offset ''unsupported call-frame opcode''))"

text \<open>One turn of the loop, after \<open>count\<close> instructions.\<close>

definition read_cfi_instruction :: "Limits \<Rightarrow> nat \<Rightarrow> (Error, UnwindInstruction) parse" where
  "read_cfi_instruction limits count = rd_tell (\<lambda>offset.
    pbind (on_fail read_u8 (\<lambda>_. no_error)) (\<lambda>opcode.
    pbind (read_cfi_operands offset opcode) (\<lambda>instruction.
    pbind (pguard (\<lambda>_. \<not> count \<ge> unat (max_disassembly_instructions limits))
      (\<lambda>_. mk_error resource_limit offset ''unwind instruction limit exceeded'')) (\<lambda>_.
    preturn instruction))))"

lemmas cfi_advances = advances_pbind advances_simple advances_on_fail advances_u8 advances_fixed advances_leb

lemma advances_pguard: "advances (pguard P e)"
  by (auto simp: advances_def pguard_def)

lemma advances_register: "advances (register_and_offset operation)"
  unfolding register_and_offset_def by (intro cfi_advances)

lemma advances_operands: "advances (read_cfi_operands offset opcode)"
  unfolding read_cfi_operands_def Let_def by (auto intro!: cfi_advances advances_register)

lemma advances_address: "advances (read_address w)"
  unfolding read_address_def by (auto intro!: cfi_advances)

lemma cfi_instruction_forward:
  assumes "read_cfi_instruction limits count r = (Inr i, r')"
  shows "\<exists>opcode r1. read_u8 r = (Inr opcode, r1) \<and> forward r1 r'"
proof -
  obtain opcode r1 where u: "read_u8 r = (Inr opcode, r1)"
    and i: "pbind (read_cfi_operands (rd_position r) opcode) (\<lambda>instruction.
      pbind (pguard (\<lambda>_. \<not> count \<ge> unat (max_disassembly_instructions limits))
        (\<lambda>_. mk_error resource_limit (rd_position r) ''unwind instruction limit exceeded'')) (\<lambda>_.
      preturn instruction)) r1 = (Inr i, r')"
    using assms by (auto simp: read_cfi_instruction_def rd_tell_def pbind_Inr [where p = "on_fail _ _"])
  have "forward r1 r'"
    by (rule advancesD [where p = "pbind _ _", OF _ i]) (intro cfi_advances advances_operands advances_pguard)
  then show ?thesis using u by blast
qed

lemma read_cfi_shrinks:
  assumes "(Inr i, r') = read_cfi_instruction limits count r"
  shows "unat (rd_remaining r') < unat (rd_remaining r)"
  using cfi_instruction_forward [OF assms [symmetric]] remaining_less by blast

text \<open>The loop up to \<open>end\<close>, which an instruction must not straddle.\<close>

function parse_cfi_instructions ::
    "Limits \<Rightarrow> u64 \<Rightarrow> UnwindInstruction list \<Rightarrow> (Error, UnwindInstruction list) parse" where
  "parse_cfi_instructions limits record_end done_so_far r =
    (if rd_position r < record_end then
       (case read_cfi_instruction limits (length done_so_far) r of
          (Inl e, r') \<Rightarrow> (Inl e, r')
        | (Inr i, r') \<Rightarrow> parse_cfi_instructions limits record_end (done_so_far @ [i]) r')
     else if rd_position r = record_end then (Inr done_so_far, r)
     else (Inl no_error, r))"
  by pat_completeness auto
termination
  by (relation "measure (\<lambda>(limits, e, is, r). unat (rd_remaining r))") (auto intro: read_cfi_shrinks)

declare parse_cfi_instructions.simps [simp del]

section \<open>Call-frame records\<close>

text \<open>A frame record after its identifier; \<open>content_start\<close> is the position of the identifier.\<close>

definition frame_range :: "u64 \<Rightarrow> u64 \<Rightarrow> WordSize \<Rightarrow> (Error, u64 \<times> u64) parse" where
  "frame_range record_offset section_address w =
    pbind (on_fail (read_address w) (\<lambda>r. mk_error truncated (rd_position r) ''frame start address is truncated'')) (\<lambda>start.
    pbind (on_fail (pbind (read_address w) (\<lambda>range. plift (case checked_add start range of
        None \<Rightarrow> Inl () | Some bound \<Rightarrow> Inr bound)))
      (\<lambda>r. mk_error address_overflow (rd_position r) ''frame address range is invalid'')) (\<lambda>bound.
    plift (case (checked_add start section_address, checked_add bound section_address) of
      (Some start', Some bound') \<Rightarrow> Inr (start', bound')
    | _ \<Rightarrow> Inl (mk_error address_overflow record_offset ''relocated frame range overflows''))))"

definition frame_record :: "u64 \<Rightarrow> u64 \<Rightarrow> UnwindInstruction list \<Rightarrow> UnwindRecord" where
  "frame_record start bound is = \<lparr>ur_start_address = start, ur_end_address = bound, ur_personality = 0,
     ur_landing_pad = 0, ur_signal_frame = False, ur_instructions = is\<rparr>"

definition add_frame :: "Limits \<Rightarrow> u64 \<Rightarrow> UnwindRecord \<Rightarrow> UnwindReport \<Rightarrow> Error + UnwindReport" where
  "add_frame limits record_offset rec rep =
    (case checked_add (uwr_covered_bytes rep) (ur_end_address rec - ur_start_address rec) of
       None \<Rightarrow> Inl (mk_error address_overflow (ur_start_address rec) ''unwind coverage total overflows'')
     | Some covered \<Rightarrow>
       if length (uwr_records rep) + 1 > unat (max_debug_units limits)
       then Inl (mk_error resource_limit record_offset ''unwind record limit exceeded'')
       else Inr (rep\<lparr>uwr_covered_bytes := covered, uwr_records := uwr_records rep @ [rec]\<rparr>))"

definition read_frame :: "Limits \<Rightarrow> u64 \<Rightarrow> WordSize \<Rightarrow> u64 \<Rightarrow> u64 \<Rightarrow> UnwindReport \<Rightarrow> (Error, UnwindReport) parse" where
  "read_frame limits section_address w record_offset record_end rep =
    pbind (frame_range record_offset section_address w) (\<lambda>(start, bound).
    pbind (parse_cfi_instructions limits record_end []) (\<lambda>is.
    plift (add_frame limits record_offset (frame_record start bound is) rep)))"

text \<open>The length of a record, which is \<open>None\<close> for the terminator. An escape announces a 64-bit length.\<close>

definition read_record_length :: "(Error, u64 option) parse" where
  "read_record_length = rd_tell (\<lambda>record_offset.
    pbind (on_fail read_u32 (\<lambda>_. mk_error truncated record_offset ''call-frame record length is truncated'')) (\<lambda>small.
    if small = 0 then preturn None
    else if small = 0xffffffff
    then pbind (on_fail read_u64 (\<lambda>_. mk_error truncated record_offset ''extended call-frame length is truncated''))
      (\<lambda>long. preturn (Some long))
    else preturn (Some (ucast small))))"

text \<open>The state of the loop: the offsets of the common records seen, the keys of \<open>cie_offsets\<close>, whose values
  nothing reads, and the report.\<close>

type_synonym frame_state = "u64 list \<times> UnwindReport"

definition cie_warning :: "u64 list \<Rightarrow> u64 \<Rightarrow> UnwindReport \<Rightarrow> UnwindReport" where
  "cie_warning cies cie_address rep =
    (if cie_address \<in> set cies then rep
     else rep\<lparr>uwr_warnings := uwr_warnings rep @ [''frame record references unknown CIE'']\<rparr>)"

definition read_record_body ::
    "Limits \<Rightarrow> u64 \<Rightarrow> WordSize \<Rightarrow> u64 \<Rightarrow> u64 \<Rightarrow> frame_state \<Rightarrow> (Error, frame_state) parse" where
  "read_record_body limits section_address w record_offset len st = rd_tell (\<lambda>content_start.
    pbind (pguard (\<lambda>r. \<not> len > rd_remaining r)
      (\<lambda>_. mk_error truncated record_offset ''call-frame record exceeds section'')) (\<lambda>_.
    let record_end = content_start + len in
    pbind (on_fail read_u32 (\<lambda>_. no_error)) (\<lambda>identifier.
    if identifier = 0
    then pbind (on_fail (rd_seek record_end) (\<lambda>_. no_error)) (\<lambda>_. preturn (record_offset # fst st, snd st))
    else
      pbind (read_frame limits section_address w record_offset record_end
          (cie_warning (fst st) (content_start - ucast identifier) (snd st))) (\<lambda>rep.
      preturn (fst st, rep)))))"

text \<open>A turn of the loop ends it with \<open>None\<close> at the terminator.\<close>

definition read_record :: "Limits \<Rightarrow> u64 \<Rightarrow> WordSize \<Rightarrow> frame_state \<Rightarrow> (Error, frame_state option) parse" where
  "read_record limits section_address w st = rd_tell (\<lambda>record_offset.
    pbind read_record_length (\<lambda>len. case len of
      None \<Rightarrow> preturn None
    | Some n \<Rightarrow> pbind (read_record_body limits section_address w record_offset n st) (\<lambda>st'. preturn (Some st'))))"

lemma advances_cfi_instruction: "advances (read_cfi_instruction limits count)"
  unfolding read_cfi_instruction_def
  by (intro advances_tell cfi_advances advances_operands advances_pguard)

lemma advances_cfi: "forward r (snd (parse_cfi_instructions limits e is r))"
proof (induction limits e "is" r rule: parse_cfi_instructions.induct)
  case (1 limits e "is" r)
  have "forward r r'" if "read_cfi_instruction limits (length is) r = (x, r')" for x r'
    using advancesD [OF advances_cfi_instruction that] .
  then show ?case
    using 1 by (subst parse_cfi_instructions.simps)
      (auto split: prod.splits sum.splits intro: forward_trans)
qed

lemma advances_frame_range: "advances (frame_range off section_address w)"
  unfolding frame_range_def by (intro advances_pbind advances_on_fail advances_address advances_simple)

lemma advances_read_frame: "advances (read_frame limits section_address w off e rep)"
proof -
  have c: "advances (parse_cfi_instructions limits e [])" by (simp add: advances_def advances_cfi)
  show ?thesis unfolding read_frame_def
    by (auto intro!: advances_pbind advances_frame_range c advances_simple split: prod.split)
qed

lemma record_body_forward:
  assumes "read_record_body limits section_address w off len st r = (Inr st', r')"
  shows "forward r r'"
proof -
  obtain i r1 where g: "\<not> len > rd_remaining r" and i: "read_u32 r = (Inr i, r1)"
    and rest: "(if i = 0
      then pbind (on_fail (rd_seek (rd_position r + len)) (\<lambda>_. no_error)) (\<lambda>_. preturn (off # fst st, snd st))
      else pbind (read_frame limits section_address w off (rd_position r + len)
          (cie_warning (fst st) (rd_position r - ucast i) (snd st)))
        (\<lambda>rep. preturn (fst st, rep))) r1 = (Inr st', r')"
    using assms
    by (auto simp: read_record_body_def rd_tell_def Let_def pbind_Inr [where p = "on_fail read_u32 _"]
        pbind_Inr [where p = "pguard _ _"])
  have f: "forward r r1" by (rule advancesD [OF advances_fixed(2) i])
  show ?thesis
  proof (cases "i = 0")
    case True
    have inside: "unat (rd_position r) + unat len \<le> unat (rd_size r)" if "rd_position r \<le> rd_size r"
      using g that by (auto simp: rd_remaining_def not_less word_le_nat_alt unat_minus_bounded)
    have r': "r' = r1\<lparr>rd_position := rd_position r + len\<rparr>"
      using rest True by (auto simp: rd_seek_def pbind_Inr split: if_splits)
    show ?thesis
      using inside unat_plus_below f by (auto simp: forward_def r' word_le_nat_alt)
  next
    case False
    then show ?thesis
      using rest forward_trans [OF f]
      by (auto simp: pbind_Inr dest: advancesD [OF advances_read_frame])
  qed
qed

lemma record_length_forward:
  assumes "read_record_length r = (Inr len, r')"
  shows "\<exists>v r1. read_u32 r = (Inr v, r1) \<and> forward r1 r'"
proof -
  obtain v r1 where v: "read_u32 r = (Inr v, r1)"
    and rest: "(if v = 0 then preturn None
      else if v = 0xffffffff
      then pbind (on_fail read_u64 (\<lambda>_. mk_error truncated (rd_position r) ''extended call-frame length is truncated''))
        (\<lambda>long. preturn (Some long))
      else preturn (Some (ucast v))) r1 = (Inr len, r')"
    using assms by (auto simp: read_record_length_def rd_tell_def pbind_Inr [where p = "on_fail read_u32 _"])
  have "forward r1 r'"
    by (rule advancesD [where p = "if _ then _ else _", OF _ rest]) (auto intro!: cfi_advances)
  then show ?thesis using v by blast
qed

lemma read_record_shrinks:
  assumes "(Inr (Some st'), r') = read_record limits section_address w st r"
  shows "unat (rd_remaining r') < unat (rd_remaining r)"
proof -
  obtain len r1 where l: "read_record_length r = (Inr len, r1)"
    and rest: "(case len of None \<Rightarrow> preturn None
      | Some n \<Rightarrow> pbind (read_record_body limits section_address w (rd_position r) n st) (\<lambda>st'. preturn (Some st'))) r1
      = (Inr (Some st'), r')"
    using assms [symmetric] by (auto simp: read_record_def rd_tell_def pbind_Inr [where p = read_record_length])
  obtain v r0 where v: "read_u32 r = (Inr v, r0)" "forward r0 r1" using record_length_forward [OF l] by blast
  have "forward r1 r'"
    using rest by (auto simp: pbind_Inr split: option.splits dest: record_body_forward)
  then show ?thesis using remaining_less_u32 [OF v(1)] forward_trans [OF v(2)] by blast
qed

function read_records :: "Limits \<Rightarrow> u64 \<Rightarrow> WordSize \<Rightarrow> frame_state \<Rightarrow> (Error, frame_state) parse" where
  "read_records limits section_address w st r =
    (if rd_remaining r \<noteq> 0 then
       (case read_record limits section_address w st r of
          (Inl e, r') \<Rightarrow> (Inl e, r')
        | (Inr None, r') \<Rightarrow> (Inr st, r')
        | (Inr (Some st'), r') \<Rightarrow> read_records limits section_address w st' r')
     else (Inr st, r))"
  by pat_completeness auto
termination
  by (relation "measure (\<lambda>(limits, a, w, st, r). unat (rd_remaining r))") (auto intro: read_record_shrinks)

declare read_records.simps [simp del]

definition parse_eh_frame ::
    "Limits \<Rightarrow> bytes option \<Rightarrow> u64 \<Rightarrow> u64 \<Rightarrow> WordSize \<Rightarrow> ByteOrder \<Rightarrow> Error + UnwindReport" where
  "parse_eh_frame limits data len section_address w order =
    (if len > max_debug_bytes limits
     then Inl (mk_error resource_limit 0 ''call-frame section exceeds limit'')
     else map_sum id snd (fst (read_records limits section_address w ([], empty_unwind) (make_reader data len order))))"

section \<open>Runtime functions\<close>

definition runtime_record :: "u32 \<Rightarrow> u64 \<Rightarrow> u64 \<Rightarrow> u64 \<Rightarrow> UnwindRecord" where
  "runtime_record unwind_rva start finish_address personality =
    \<lparr>ur_start_address = start, ur_end_address = finish_address, ur_personality = personality,
     ur_landing_pad = 0, ur_signal_frame = False,
     ur_instructions = [unwind_instruction finish 0 (ucast unwind_rva) 0]\<rparr>"

definition read_runtime_function :: "u64 \<Rightarrow> nat \<Rightarrow> UnwindReport \<Rightarrow> (Error, UnwindReport) parse" where
  "read_runtime_function image_base index rep =
    pbind (on_fail (pbind read_u32 (\<lambda>begin_rva. pbind read_u32 (\<lambda>end_rva. pbind read_u32 (\<lambda>unwind_rva.
        preturn (begin_rva, end_rva, unwind_rva)))))
      (\<lambda>r. mk_error truncated (rd_position r) ''PE runtime-function entry is truncated'')) (\<lambda>(begin_rva, end_rva, unwind_rva).
    plift (if end_rva < begin_rva
      then Inl (mk_error invalid_debug_info (of_nat index * 12) ''PE runtime-function range is reversed'')
      else case (checked_add image_base (ucast begin_rva), checked_add image_base (ucast end_rva),
          checked_add image_base (ucast unwind_rva)) of
        (Some start, Some finish_address, Some personality) \<Rightarrow>
          Inr (rep\<lparr>uwr_covered_bytes := uwr_covered_bytes rep + ucast (end_rva - begin_rva),
            uwr_records := uwr_records rep @ [runtime_record unwind_rva start finish_address personality]\<rparr>)
      | _ \<Rightarrow> Inl (mk_error address_overflow (of_nat index * 12) ''PE runtime-function address overflows'')))"

fun read_runtime_functions :: "u64 \<Rightarrow> nat \<Rightarrow> nat \<Rightarrow> UnwindReport \<Rightarrow> (Error, UnwindReport) parse" where
  "read_runtime_functions image_base index 0 rep = preturn rep"
| "read_runtime_functions image_base index (Suc n) rep =
    pbind (read_runtime_function image_base index rep) (read_runtime_functions image_base (Suc index) n)"

definition parse_pe_functions :: "Limits \<Rightarrow> bytes option \<Rightarrow> u64 \<Rightarrow> u64 \<Rightarrow> Error + UnwindReport" where
  "parse_pe_functions limits data len image_base =
    (if len mod 12 \<noteq> 0 \<or> len div 12 > ucast (max_debug_units limits)
     then Inl (mk_error invalid_debug_info 0 ''PE runtime-function table size is invalid'')
     else fst (read_runtime_functions image_base 0 (unat (len div 12)) empty_unwind (make_reader data len little)))"

end
