(* ===== verification/Unwind_Tables.thy ===== *)
theory Unwind_Tables
  imports Unwind Container
begin

text \<open>
  What the reports of \<open>UnwindParser\<close> (\<open>src/unwind.cc\<close>) hold: the frames of an \<open>.eh_frame\<close> section keep the
  limits and account for the covered bytes, and a runtime-function table is its triples of addresses.
\<close>

section \<open>Frames\<close>

definition frame_ok :: "Limits \<Rightarrow> u64 \<Rightarrow> UnwindRecord \<Rightarrow> bool" where
  "frame_ok limits section_address f \<longleftrightarrow>
    section_address \<le> ur_start_address f \<and> ur_start_address f \<le> ur_end_address f \<and>
    length (ur_instructions f) \<le> unat (max_disassembly_instructions limits)"

definition covered :: "UnwindRecord list \<Rightarrow> nat" where
  "covered fs = (\<Sum>f \<leftarrow> fs. unat (ur_end_address f) - unat (ur_start_address f))"

definition coverage_ok :: "Limits \<Rightarrow> u64 \<Rightarrow> UnwindReport \<Rightarrow> bool" where
  "coverage_ok limits section_address rep \<longleftrightarrow>
    (\<forall>f \<in> set (uwr_records rep). frame_ok limits section_address f) \<and>
    length (uwr_records rep) \<le> unat (max_debug_units limits) \<and>
    unat (uwr_covered_bytes rep) = covered (uwr_records rep)"

lemma covered_simps [simp]: "covered [] = 0"
  "covered (fs @ [f]) = covered fs + (unat (ur_end_address f) - unat (ur_start_address f))"
  by (simp_all add: covered_def)

lemma cfi_instruction_count:
  "read_cfi_instruction limits count r = (Inr i, r') \<Longrightarrow> count < unat (max_disassembly_instructions limits)"
  by (auto simp: read_cfi_instruction_def rd_tell_def pbind_Inr)

lemma cfi_count:
  "parse_cfi_instructions limits e is r = (Inr is', r') \<Longrightarrow>
    length is \<le> unat (max_disassembly_instructions limits) \<Longrightarrow>
    length is' \<le> unat (max_disassembly_instructions limits)"
proof (induction limits e "is" r rule: parse_cfi_instructions.induct)
  case (1 limits e "is" r)
  from 1(2) show ?case
    unfolding parse_cfi_instructions.simps [of limits e "is" r]
    using 1(1,3) cfi_instruction_count [of limits "length is" r]
    by (force split: if_splits prod.splits sum.splits)
qed

lemma option_sums:
  "(case x of None \<Rightarrow> Inl e | Some a \<Rightarrow> Inr a) = Inr c \<longleftrightarrow> x = Some c"
  "(case x of None \<Rightarrow> Inl e' | Some a \<Rightarrow> (case y of None \<Rightarrow> Inl e'' | Some b \<Rightarrow> Inr (a, b))) = Inr (c', d) \<longleftrightarrow> x = Some c' \<and> y = Some d"
  by (auto split: option.splits)

lemma option_sums3:
  "(case x of None \<Rightarrow> Inl e | Some a \<Rightarrow> (case y of None \<Rightarrow> Inl e' | Some b \<Rightarrow>
      (case z of None \<Rightarrow> Inl e'' | Some c \<Rightarrow> Inr (f a b c)))) = Inr d \<longleftrightarrow>
    (\<exists>a b c. x = Some a \<and> y = Some b \<and> z = Some c \<and> d = f a b c)"
  by (auto split: option.splits)

lemma frame_range_sound:
  assumes "frame_range off section_address w r = (Inr (s, b), r')"
  shows "section_address \<le> s \<and> s \<le> b"
proof -
  obtain start range bound where b: "checked_add start range = Some bound"
    and r: "checked_add start section_address = Some s" "checked_add bound section_address = Some b"
    using assms by (auto simp: frame_range_def pbind_Inr option_sums)
  show ?thesis
    using add_op.SomeD [OF b] add_op.SomeD [OF r(1)] add_op.SomeD [OF r(2)] by (simp add: word_le_nat_alt)
qed

lemma add_frame_coverage:
  assumes "add_frame limits off f rep = Inr rep'" "coverage_ok limits section_address rep"
    "frame_ok limits section_address f"
  shows "coverage_ok limits section_address rep'"
proof -
  obtain c where c: "checked_add (uwr_covered_bytes rep) (ur_end_address f - ur_start_address f) = Some c"
    and n: "length (uwr_records rep) + 1 \<le> unat (max_debug_units limits)"
    and rep': "rep' = rep\<lparr>uwr_covered_bytes := c, uwr_records := uwr_records rep @ [f]\<rparr>"
    using assms(1) by (auto simp: add_frame_def split: option.splits if_splits)
  have "unat (ur_end_address f - ur_start_address f) = unat (ur_end_address f) - unat (ur_start_address f)"
    using assms(3) by (simp add: frame_ok_def unat_minus_bounded)
  then show ?thesis
    using add_op.SomeD [OF c] n assms(2,3) by (auto simp: coverage_ok_def rep')
qed

lemma read_frame_coverage:
  assumes "read_frame limits section_address w off e rep r = (Inr rep', r')" "coverage_ok limits section_address rep"
  shows "coverage_ok limits section_address rep'"
proof -
  obtain s b r1 "is" r2 where f: "frame_range off section_address w r = (Inr (s, b), r1)"
    and i: "parse_cfi_instructions limits e [] r1 = (Inr is, r2)"
    and a: "add_frame limits off (frame_record s b is) rep = Inr rep'"
    using assms(1) by (auto simp: read_frame_def pbind_Inr)
  have "frame_ok limits section_address (frame_record s b is)"
    using frame_range_sound [OF f] cfi_count [OF i] by (simp add: frame_ok_def frame_record_def)
  then show ?thesis by (rule add_frame_coverage [OF a assms(2)])
qed

lemma cie_warning_coverage: "coverage_ok limits a (cie_warning cies at rep) = coverage_ok limits a rep"
  by (simp add: cie_warning_def coverage_ok_def)

lemma read_record_coverage:
  assumes "read_record limits section_address w st r = (Inr (Some st'), r')"
    "coverage_ok limits section_address (snd st)"
  shows "coverage_ok limits section_address (snd st')"
proof -
  obtain off len r1 where b: "read_record_body limits section_address w off len st r1 = (Inr st', r')"
    using assms(1) by (auto simp: read_record_def rd_tell_def pbind_Inr split: option.splits)
  then show ?thesis
    using assms(2)
    by (auto simp: read_record_body_def rd_tell_def Let_def pbind_Inr cie_warning_coverage
        dest!: read_frame_coverage split: if_splits)
qed

lemma read_records_coverage:
  "read_records limits section_address w st r = (Inr st', r') \<Longrightarrow> coverage_ok limits section_address (snd st) \<Longrightarrow>
    coverage_ok limits section_address (snd st')"
proof (induction limits section_address w st r rule: read_records.induct)
  case (1 limits section_address w st r)
  from 1(2) show ?case
    unfolding read_records.simps [of limits section_address w st r]
    using 1(1,3) read_record_coverage [of limits section_address w st r]
    by (auto split: if_splits prod.splits sum.splits option.splits)
qed

lemma map_sum_Inr: "map_sum id f x = Inr y \<longleftrightarrow> (\<exists>z. x = Inr z \<and> y = f z)"
  by (cases x) auto

text \<open>
  C30. Every frame of an accepted \<open>.eh_frame\<close> section has a range that starts at or above the address of
  the section and does not end before it starts, frames and instructions per frame keep their limits, and the covered bytes are the
  exact sum of the sizes of the ranges: none of the three additions per frame has wrapped around.
\<close>

theorem eh_frame_covers:
  assumes "parse_eh_frame limits data len section_address w order = Inr rep"
  shows "(\<forall>f \<in> set (uwr_records rep).
        section_address \<le> ur_start_address f \<and> ur_start_address f \<le> ur_end_address f \<and>
        length (ur_instructions f) \<le> unat (max_disassembly_instructions limits)) \<and>
    length (uwr_records rep) \<le> unat (max_debug_units limits) \<and>
    unat (uwr_covered_bytes rep) =
      (\<Sum>f \<leftarrow> uwr_records rep. unat (ur_end_address f) - unat (ur_start_address f))"
proof -
  obtain st r' where r: "read_records limits section_address w ([], empty_unwind) (make_reader data len order) = (Inr st, r')"
    and rep: "rep = snd st"
    using assms
    by (cases "read_records limits section_address w ([], empty_unwind) (make_reader data len order)")
      (auto simp: parse_eh_frame_def split: if_splits simp: map_sum_Inr)
  have "coverage_ok limits section_address (snd ([], empty_unwind))"
    by (simp add: coverage_ok_def empty_unwind_def)
  from read_records_coverage [OF r this] show ?thesis
    by (simp add: coverage_ok_def frame_ok_def covered_def rep)
qed

text \<open>A common record, a frame of four instructions and the terminator.\<close>

definition demo_eh_frame :: bytes where
  "demo_eh_frame = [4, 0, 0, 0, 0, 0, 0, 0,
     18, 0, 0, 0, 12, 0, 0, 0, 0x10, 0, 0, 0, 0x20, 0, 0, 0, 0x41, 14, 16, 0x86, 2, 0xc6,
     0, 0, 0, 0]"

text \<open>Its instructions: advance by one, offset 16, register 6 saved at 2, register 6 restored.\<close>

theorem eh_frame_covers_witness:
  "\<exists>rep. parse_eh_frame demo_limits (Some demo_eh_frame) 34 0x1000 bits32 little = Inr rep \<and>
    length (uwr_records rep) = 1 \<and> unat (uwr_covered_bytes rep) = 32 \<and>
    (\<forall>f \<in> set (uwr_records rep). 0x1000 \<le> ur_start_address f \<and> ur_start_address f \<le> ur_end_address f)"
proof -
  let ?is = "[unwind_instruction unwind_none 0 0 1, unwind_instruction allocate_stack 0 16 0,
    unwind_instruction save_register 6 2 0, unwind_instruction restore_state 6 0 0]"
  let ?rep = "\<lparr>uwr_records = [frame_record 0x1010 0x1030 ?is], uwr_covered_bytes = 32, uwr_warnings = []\<rparr>"
  have run: "parse_eh_frame demo_limits (Some demo_eh_frame) 34 0x1000 bits32 little = Inr ?rep"
    by code_simp
  from eh_frame_covers [OF run] run show ?thesis by (intro exI [of _ ?rep]) simp
qed

section \<open>Runtime functions\<close>

text \<open>A table as the triples it holds.\<close>

type_synonym runtime_function = "u32 \<times> u32 \<times> u32"

definition function_bytes :: "runtime_function \<Rightarrow> bytes" where
  "function_bytes = (\<lambda>(b, e, u). le_bytes 4 b @ le_bytes 4 e @ le_bytes 4 u)"

definition function_fits :: "u64 \<Rightarrow> runtime_function \<Rightarrow> bool" where
  "function_fits image_base = (\<lambda>(b, e, u). b \<le> e \<and> unat image_base + unat e < 2 ^ 64 \<and> unat image_base + unat u < 2 ^ 64)"

definition function_record :: "u64 \<Rightarrow> runtime_function \<Rightarrow> UnwindRecord" where
  "function_record image_base = (\<lambda>(b, e, u).
    runtime_record u (image_base + ucast b) (image_base + ucast e) (image_base + ucast u))"

definition add_function :: "u64 \<Rightarrow> runtime_function \<Rightarrow> UnwindReport \<Rightarrow> UnwindReport" where
  "add_function image_base f rep = (case f of (b, e, u) \<Rightarrow>
    rep\<lparr>uwr_covered_bytes := uwr_covered_bytes rep + ucast (e - b),
      uwr_records := uwr_records rep @ [function_record image_base f]\<rparr>)"

lemma length_function_bytes [simp]: "length (function_bytes f) = 12"
  by (cases f) (simp add: function_bytes_def)

lemma checked_base:
  "checked_add image_base (ucast (v :: u32)) = Some a \<longleftrightarrow>
    unat image_base + unat v < 2 ^ 64 \<and> a = image_base + ucast v"
proof
  assume c: "checked_add image_base (ucast v) = Some a"
  have "unat a = unat image_base + unat v" using add_op.SomeD [OF c] by simp
  moreover from this have "unat image_base + unat v < 2 ^ 64" using unat_u64_bound [of a] by simp
  ultimately show "unat image_base + unat v < 2 ^ 64 \<and> a = image_base + ucast v"
    by (simp add: word_unat_eq_iff unat_plus_bounded)
next
  assume "unat image_base + unat v < 2 ^ 64 \<and> a = image_base + ucast v"
  then show "checked_add image_base (ucast v) = Some a"
    by (simp add: add_op.Some_iff unat_plus_bounded)
qed

lemma read_triple:
  assumes "lit r" "moves r (function_bytes (b, e, u)) r'"
  shows "pbind read_u32 (\<lambda>b. pbind read_u32 (\<lambda>e. pbind read_u32 (\<lambda>u. preturn (b, e, u)))) r = (Inr (b, e, u), r')"
proof -
  obtain r1 r2 where m: "moves r (le_bytes 4 b) r1" "moves r1 (le_bytes 4 e) r2" "moves r2 (le_bytes 4 u) r'"
    using assms(2) by (auto simp: function_bytes_def moves_append)
  have o: "rd_order r = little" "rd_order r1 = little" "rd_order r2 = little"
    using assms(1) m by (simp_all add: lit_def)
  note s = read_u32_moves [OF m(1) o(1)] read_u32_moves [OF m(2) o(2)] read_u32_moves [OF m(3) o(3)]
  show ?thesis
    unfolding pbind_step [where p = read_u32, OF s(1)] pbind_step [where p = read_u32, OF s(2)]
      pbind_step [where p = read_u32, OF s(3)] by simp
qed

lemma read_function:
  assumes "lit r" "moves r (function_bytes f) r'"
  shows "read_runtime_function image_base i rep r = (Inr rep', r'') \<longleftrightarrow>
    function_fits image_base f \<and> rep' = add_function image_base f rep \<and> r'' = r'"
proof -
  obtain b e u where f: "f = (b, e, u)" by (cases f)
  note t = read_triple [OF assms(1) assms(2) [unfolded f]]
  then have t': "on_fail (pbind read_u32 (\<lambda>b. pbind read_u32 (\<lambda>e. pbind read_u32 (\<lambda>u. preturn (b, e, u))))) err r
      = (Inr (b, e, u), r')" for err :: "ByteReader \<Rightarrow> Error"
    by simp
  show ?thesis
  proof (cases "e < b")
    case True
    then show ?thesis
      unfolding read_runtime_function_def pbind_step [where p = "on_fail _ _", OF t'] prod.case
      by (simp add: plift_def f function_fits_def not_le)
  next
    case False
    then have "unat image_base + unat b < 2 ^ 64" if "unat image_base + unat e < 2 ^ 64"
      using that by (simp add: not_less word_le_nat_alt)
    then show ?thesis
      using False
      unfolding read_runtime_function_def pbind_step [where p = "on_fail _ _", OF t'] prod.case if_not_P [OF False]
        plift_Inr option_sums3 checked_base
      by (auto simp: f function_fits_def add_function_def function_record_def not_less)
  qed
qed

lemma read_functions:
  assumes "lit r" "moves r (concat (map function_bytes fs)) r'"
  shows "read_runtime_functions image_base i (length fs) rep r = (Inr rep', r'') \<longleftrightarrow>
    (\<forall>f \<in> set fs. function_fits image_base f) \<and> rep' = fold (add_function image_base) fs rep \<and> r'' = r'"
  using assms
proof (induction fs arbitrary: i rep r)
  case Nil
  then show ?case by (auto simp: lit_def)
next
  case (Cons f fs)
  obtain r1 where m: "moves r (function_bytes f) r1" "moves r1 (concat (map function_bytes fs)) r'"
    using Cons.prems(2) by (auto simp: moves_append)
  note step = read_function [OF Cons.prems(1) m(1)] and ih = Cons.IH [OF lit_moves [OF Cons.prems(1) m(1)] m(2)]
  show ?case by (auto simp: pbind_Inr step ih)
qed

definition functions_report :: "u64 \<Rightarrow> runtime_function list \<Rightarrow> UnwindReport" where
  "functions_report image_base fs = \<lparr>uwr_records = map (function_record image_base) fs,
    uwr_covered_bytes = (\<Sum>(b, e, u) \<leftarrow> fs. ucast (e - b)), uwr_warnings = []\<rparr>"

lemma fold_add_function:
  "fold (add_function image_base) fs rep = rep\<lparr>
    uwr_covered_bytes := uwr_covered_bytes rep + (\<Sum>(b, e, u) \<leftarrow> fs. ucast (e - b)),
    uwr_records := uwr_records rep @ map (function_record image_base) fs\<rparr>"
proof (induction fs arbitrary: rep)
  case (Cons f fs)
  obtain b e u where f: "f = (b, e, u)" by (cases f)
  have "fold (add_function image_base) (f # fs) rep = fold (add_function image_base) fs (add_function image_base f rep)"
    by simp
  then show ?case unfolding Cons.IH by (simp add: f add_function_def [of _ "(b, e, u)"] add.assoc)
qed simp

text \<open>At most \<open>2 ^ 32\<close> ranges of less than \<open>2 ^ 32\<close> bytes: the unchecked sum does not wrap around.\<close>

lemma covered_functions:
  "length (fs :: runtime_function list) \<le> 2 ^ 32 \<Longrightarrow> \<forall>(b, e, u) \<in> set fs. b \<le> e \<Longrightarrow>
    unat ((\<Sum>(b, e, u) \<leftarrow> fs. ucast (e - b)) :: u64) = (\<Sum>(b, e, u) \<leftarrow> fs. unat e - unat b) \<and>
    (\<Sum>(b, e, u) \<leftarrow> fs. unat e - unat b) \<le> length fs * (2 ^ 32 - 1)"
proof (induction fs)
  case (Cons f fs)
  obtain b e u where f: "f = (b, e, u)" by (cases f)
  let ?s = "(\<Sum>(b, e, u) \<leftarrow> fs. ucast (e - b)) :: u64"
  have ih: "unat ?s = (\<Sum>(b, e, u) \<leftarrow> fs. unat e - unat b)" "unat ?s \<le> length fs * (2 ^ 32 - 1)"
    using Cons by auto
  have d: "unat (ucast (e - b) :: u64) = unat e - unat b"
  proof -
    have "b \<le> e" using Cons.prems(2) by (simp add: f)
    then show ?thesis by (simp add: unat_minus_bounded)
  qed
  have e: "unat e - unat b \<le> 2 ^ 32 - 1" using unat_u32_bound [of e] by simp
  have "length fs * (2 ^ 32 - 1) \<le> (2 ^ 32 - 1) * (2 ^ 32 - 1)"
    using Cons.prems(1) by (intro mult_le_mono1) simp
  then have "unat (ucast (e - b) :: u64) + unat ?s < 18446744073709551616" using d e ih(2) by simp
  then have "unat (ucast (e - b) + ?s) = unat (ucast (e - b) :: u64) + unat ?s"
    by (intro unat_plus_bounded) simp
  then show ?case using d e ih by (simp add: f)
qed simp

text \<open>
  A runtime-function table is accepted exactly when it has whole triples, at most as many as the limit, none ends before it
  begins and no address leaves 64 bits with the image base added. Its report has one record per triple, in
  order, with the addresses rebased and the unwind address kept as an instruction, and the covered bytes, which are summed
  unchecked, are the exact sum of the sizes.
\<close>

theorem pe_functions_exact:
  assumes "12 * length fs < 2 ^ 64"
  shows "parse_pe_functions limits (Some (concat (map function_bytes fs))) (of_nat (12 * length fs)) image_base = Inr rep
    \<longleftrightarrow> length fs \<le> unat (max_debug_units limits) \<and>
      (\<forall>(b, e, u) \<in> set fs. b \<le> e \<and> unat image_base + unat e < 2 ^ 64 \<and> unat image_base + unat u < 2 ^ 64) \<and>
      uwr_records rep = map (\<lambda>(b, e, u). runtime_record u (image_base + ucast b) (image_base + ucast e)
        (image_base + ucast u)) fs \<and>
      unat (uwr_covered_bytes rep) = (\<Sum>(b, e, u) \<leftarrow> fs. unat e - unat b) \<and> uwr_warnings rep = []"
proof -
  let ?len = "of_nat (12 * length fs) :: u64" and ?bs = "concat (map function_bytes fs)"
  let ?r = "make_reader (Some ?bs) ?len little"
  have len: "unat ?len = 12 * length fs" using assms by (intro unat_of_nat_u64) simp
  have bs: "length ?bs = 12 * length fs" by (simp add: length_concat comp_def sum_list_triv)
  have lit: "lit ?r" by (simp add: lit_def reader_ok_def make_reader_def bs len del: of_nat_mult)
  have rest: "rd_rest ?r = ?bs @ []" by (simp add: rd_rest_def make_reader_def)
  obtain r' where m: "moves ?r ?bs r'" using movesI [OF _ rest] lit by (auto simp: lit_def)
  have whole: "?len mod 12 = 0" "unat (?len div 12) = length fs"
    using len by (simp_all add: word_unat_eq_iff unat_mod unat_div del: of_nat_mult)
  have few: "?len div 12 > ucast (max_debug_units limits) \<longleftrightarrow> \<not> length fs \<le> unat (max_debug_units limits)"
    by (simp add: word_less_nat_alt whole(2) not_le del: of_nat_mult)
  have run: "parse_pe_functions limits (Some ?bs) ?len image_base = Inr rep \<longleftrightarrow>
      length fs \<le> unat (max_debug_units limits) \<and> (\<forall>f \<in> set fs. function_fits image_base f) \<and>
      rep = fold (add_function image_base) fs empty_unwind"
    unfolding parse_pe_functions_def whole few
    using read_functions [OF lit m, of image_base 0 empty_unwind rep]
    by (auto simp: prod_eq_iff)
  have sum: "length fs \<le> unat (max_debug_units limits) \<Longrightarrow> \<forall>f \<in> set fs. function_fits image_base f \<Longrightarrow>
      unat ((\<Sum>(b, e, u) \<leftarrow> fs. ucast (e - b)) :: u64) = (\<Sum>(b, e, u) \<leftarrow> fs. unat e - unat b)"
    using covered_functions [of fs] unat_u32_bound [of "max_debug_units limits"]
    by (fastforce simp: function_fits_def)
  have same: "uwr_covered_bytes rep = (\<Sum>(b, e, u) \<leftarrow> fs. ucast (e - b)) \<longleftrightarrow>
      unat (uwr_covered_bytes rep) = (\<Sum>(b, e, u) \<leftarrow> fs. unat e - unat b)"
    if "length fs \<le> unat (max_debug_units limits)" "\<forall>f \<in> set fs. function_fits image_base f"
    unfolding sum [OF that, symmetric] by (rule word_unat_eq_iff)
  have records: "function_record image_base = (\<lambda>(b, e, u). runtime_record u (image_base + ucast b)
      (image_base + ucast e) (image_base + ucast u))"
    by (simp add: function_record_def)
  have rep: "rep = fold (add_function image_base) fs empty_unwind \<longleftrightarrow>
      uwr_records rep = map (function_record image_base) fs \<and>
      uwr_covered_bytes rep = (\<Sum>(b, e, u) \<leftarrow> fs. ucast (e - b)) \<and> uwr_warnings rep = []"
    by (cases rep) (auto simp: fold_add_function empty_unwind_def)
  have fits: "(\<forall>f \<in> set fs. function_fits image_base f) \<longleftrightarrow>
      (\<forall>(b, e, u) \<in> set fs. b \<le> e \<and> unat image_base + unat e < 2 ^ 64 \<and> unat image_base + unat u < 2 ^ 64)"
    by (simp add: function_fits_def)
  show ?thesis
    unfolding run rep records [symmetric] fits [symmetric] using same by blast
qed

theorem pe_functions_exact_witness:
  "\<exists>rep. parse_pe_functions demo_limits
      (Some (concat (map function_bytes [(0x10, 0x30, 0x80), (0x30, 0x31, 0x90)]))) 24 0x400000 = Inr rep \<and>
    unat (uwr_covered_bytes rep) = 33"
proof -
  let ?fs = "[(0x10, 0x30, 0x80), (0x30, 0x31, 0x90)] :: runtime_function list"
  let ?rep = "\<lparr>uwr_records = [runtime_record 0x80 0x400010 0x400030 0x400080, runtime_record 0x90 0x400030 0x400031 0x400090],
    uwr_covered_bytes = 33, uwr_warnings = []\<rparr>"
  have "parse_pe_functions demo_limits (Some (concat (map function_bytes ?fs))) (of_nat (12 * length ?fs)) 0x400000
      = Inr ?rep"
    by (rule iffD2 [OF pe_functions_exact]) (simp_all add: demo_limits_def default_limits_def)
  then show ?thesis by (intro exI [of _ ?rep]) simp
qed

end
