(* ===== verification/Pe_Imports.thy ===== *)
theory Pe_Imports
  imports Elf_Parser Symbol_Index Progress
begin

unbundle bit_operations_syntax

text \<open>
  \<open>PeImportExportParser\<close> of \<open>src/pe_imports.cc\<close>: the import descriptors with their lookup tables. The
  parser appends to a list of the caller, and a failure leaves the list as far as it has come. Every group of reads starts with a seek, so a group starts from a fresh reader here.
\<close>

section \<open>Names\<close>

definition read_rva_string :: "BinaryImage \<Rightarrow> bytes \<Rightarrow> u64 \<Rightarrow> u64 \<Rightarrow> string option" where
  "read_rva_string img data rva maximum =
    (case rva_to_file img rva 1 of
       None \<Rightarrow> None
     | Some location \<Rightarrow>
       read_c_string (reader_of data little) (fa_offset location) (min (fa_available location) maximum))"

text \<open>\<open>std::tolower\<close> of the C locale.\<close>

definition lower_char :: "char \<Rightarrow> char" where
  "lower_char c = (if 65 \<le> (of_char c :: nat) \<and> (of_char c :: nat) \<le> 90 then char_of ((of_char c :: nat) + 32) else c)"

definition normalize_library :: "string \<Rightarrow> string option" where
  "normalize_library library =
    (if library = [] \<or> list_ex (\<lambda>c. (of_char c :: nat) < 0x20 \<or> (of_char c :: nat) = 0x7f) library then None
     else Some (map lower_char library))"

section \<open>Imports\<close>

record ImportTableOptions =
  ito_directory_rva :: u64
  ito_directory_size :: u64
  ito_image_base :: u64
  ito_word_size :: WordSize

definition pointer_width :: "ImportTableOptions \<Rightarrow> u64" where
  "pointer_width opts = ucast (word_size_bytes (ito_word_size opts))"

definition ordinal_flag :: "ImportTableOptions \<Rightarrow> u64" where
  "ordinal_flag opts = (if pointer_width opts = 8 then push_bit 63 1 else push_bit 31 1)"

definition read_pointer :: "u64 \<Rightarrow> u64 read" where
  "read_pointer width = (if width = 8 then read_u64 else pbind read_u32 (\<lambda>small. preturn (ucast small)))"

text \<open>Where entry \<open>i\<close> of a lookup table is, and its value.\<close>

definition lookup_entry_rva :: "u64 \<Rightarrow> u64 \<Rightarrow> nat \<Rightarrow> (u64 \<times> u64) option" where
  "lookup_entry_rva width table_rva i =
    (case checked_multiply (of_nat i) width of
       None \<Rightarrow> None
     | Some delta \<Rightarrow> (case checked_add table_rva delta of None \<Rightarrow> None | Some rva \<Rightarrow> Some (delta, rva)))"

definition read_lookup_entry :: "BinaryImage \<Rightarrow> bytes \<Rightarrow> u64 \<Rightarrow> u64 \<Rightarrow> nat \<Rightarrow> Error + u64 \<times> u64 \<times> u64" where
  "read_lookup_entry img data width table_rva i =
    (case lookup_entry_rva width table_rva i of
       None \<Rightarrow> Inl (mk_error address_overflow table_rva ''PE import lookup address overflows'')
     | Some (delta, rva) \<Rightarrow>
       (case rva_to_file img rva width of
          None \<Rightarrow> Inl (mk_error invalid_offset rva ''PE import lookup entry is not file-backed'')
        | Some location \<Rightarrow>
          (case fst (pbind (rd_seek (fa_offset location)) (\<lambda>_. read_pointer width) (reader_of data little)) of
             Inl _ \<Rightarrow> Inl no_error
           | Inr v \<Rightarrow> Inr (delta, rva, v))))"

definition string_here :: "u64 \<Rightarrow> string read" where
  "string_here limit r =
    (case read_c_string r (rd_position r) limit of None \<Rightarrow> (Inl (), r) | Some s \<Rightarrow> (Inr s, r))"

definition read_hint_name :: "Limits \<Rightarrow> BinaryImage \<Rightarrow> bytes \<Rightarrow> u64 \<Rightarrow> Error + u16 \<times> string" where
  "read_hint_name limits img data v =
    (case rva_to_file img v 3 of
       None \<Rightarrow> Inl (mk_error invalid_offset v ''PE import-by-name record is invalid'')
     | Some location \<Rightarrow>
       fst (pbind (on_fail (rd_seek (fa_offset location))
           (\<lambda>_. mk_error invalid_offset v ''PE import-by-name record is invalid'')) (\<lambda>_.
         on_fail (pbind read_u16 (\<lambda>hint.
             pbind (string_here (min (fa_available location - 2) (max_string_bytes limits))) (\<lambda>name.
             preturn (hint, name))))
           (\<lambda>_. mk_error invalid_string v ''PE imported symbol name is invalid'')) (reader_of data little)))"

definition import_slot :: "ImportTableOptions \<Rightarrow> u64 \<Rightarrow> u64 \<Rightarrow> u64 option" where
  "import_slot opts address_rva delta =
    (case checked_add address_rva delta of None \<Rightarrow> None | Some rva \<Rightarrow> checked_add (ito_image_base opts) rva)"

definition make_import ::
    "Limits \<Rightarrow> BinaryImage \<Rightarrow> bytes \<Rightarrow> ImportTableOptions \<Rightarrow> string \<Rightarrow> u64 \<Rightarrow> u64 \<Rightarrow> u64 \<Rightarrow> Error + Import" where
  "make_import limits img data opts library address_rva delta v =
    (case import_slot opts address_rva delta of
       None \<Rightarrow> Inl (mk_error address_overflow address_rva ''PE import slot address overflows'')
     | Some slot \<Rightarrow>
       if v AND ordinal_flag opts \<noteq> 0
       then Inr \<lparr>imp_library = library, imp_name = [], imp_ordinal = v AND 0xffff, imp_slot_address = slot, imp_weak = False\<rparr>
       else (case read_hint_name limits img data v of
           Inl e \<Rightarrow> Inl e
         | Inr (hint, name) \<Rightarrow> Inr \<lparr>imp_library = library, imp_name = name, imp_ordinal = ucast hint,
             imp_slot_address = slot, imp_weak = False\<rparr>))"

text \<open>The lookup table from entry \<open>i\<close> on, at most \<open>n\<close> entries; a zero entry ends it.\<close>

fun read_lookup_table :: "Limits \<Rightarrow> BinaryImage \<Rightarrow> bytes \<Rightarrow> ImportTableOptions \<Rightarrow> string \<Rightarrow> u64 \<Rightarrow> u64 \<Rightarrow>
    nat \<Rightarrow> nat \<Rightarrow> Import list \<Rightarrow> (Error + unit) \<times> Import list" where
  "read_lookup_table limits img data opts library table_rva address_rva i 0 imports = (Inr (), imports)"
| "read_lookup_table limits img data opts library table_rva address_rva i (Suc n) imports =
    (case read_lookup_entry img data (pointer_width opts) table_rva i of
       Inl e \<Rightarrow> (Inl e, imports)
     | Inr (delta, rva, v) \<Rightarrow>
       if v = 0 then (Inr (), imports)
       else if length imports \<ge> unat (max_imports limits)
       then (Inl (mk_error resource_limit rva ''PE imported symbol limit exceeded''), imports)
       else case make_import limits img data opts library address_rva delta v of
         Inl e \<Rightarrow> (Inl e, imports)
       | Inr imported \<Rightarrow>
         read_lookup_table limits img data opts library table_rva address_rva (Suc i) n (imports @ [imported]))"

record ImportDescriptor =
  id_lookup_rva :: u32
  id_timestamp :: u32
  id_forwarder :: u32
  id_name_rva :: u32
  id_address_rva :: u32

definition read_descriptor :: "u64 \<Rightarrow> (Error, ImportDescriptor) parse" where
  "read_descriptor cursor =
    pbind (on_fail (rd_seek cursor) (\<lambda>_. no_error)) (\<lambda>_.
    on_fail (pbind read_u32 (\<lambda>lookup. pbind read_u32 (\<lambda>timestamp. pbind read_u32 (\<lambda>forwarder.
        pbind read_u32 (\<lambda>name. pbind read_u32 (\<lambda>address.
        preturn \<lparr>id_lookup_rva = lookup, id_timestamp = timestamp, id_forwarder = forwarder, id_name_rva = name,
          id_address_rva = address\<rparr>))))))
      (\<lambda>_. mk_error truncated cursor ''PE import descriptor fields are truncated''))"

definition null_descriptor :: "ImportDescriptor \<Rightarrow> bool" where
  "null_descriptor d \<longleftrightarrow> id_lookup_rva d = 0 \<and> id_timestamp d = 0 \<and> id_forwarder d = 0 \<and> id_name_rva d = 0 \<and>
     id_address_rva d = 0"

definition library_name :: "Limits \<Rightarrow> BinaryImage \<Rightarrow> bytes \<Rightarrow> u32 \<Rightarrow> string option" where
  "library_name limits img data name_rva =
    (case read_rva_string img data (ucast name_rva) (max_string_bytes limits) of
       None \<Rightarrow> None | Some library \<Rightarrow> normalize_library library)"

text \<open>What the loop does with a descriptor that is not null; \<open>cursor\<close> is already behind it.\<close>

definition read_library :: "Limits \<Rightarrow> BinaryImage \<Rightarrow> bytes \<Rightarrow> ImportTableOptions \<Rightarrow> u64 \<Rightarrow> ImportDescriptor \<Rightarrow>
    Import list \<Rightarrow> (Error + unit) \<times> Import list" where
  "read_library limits img data opts cursor d imports =
    (if length imports \<ge> unat (max_imports limits)
     then (Inl (mk_error resource_limit cursor ''PE import descriptor limit exceeded''), imports)
     else case library_name limits img data (id_name_rva d) of
       None \<Rightarrow> (Inl (mk_error invalid_string (ucast (id_name_rva d)) ''PE import library name is invalid''), imports)
     | Some library \<Rightarrow>
       read_lookup_table limits img data opts library
         (ucast (if id_lookup_rva d \<noteq> 0 then id_lookup_rva d else id_address_rva d)) (ucast (id_address_rva d))
         0 (unat (max_imports limits)) imports)"

function read_descriptors :: "Limits \<Rightarrow> BinaryImage \<Rightarrow> bytes \<Rightarrow> ImportTableOptions \<Rightarrow> u64 \<Rightarrow> u64 \<Rightarrow>
    Import list \<Rightarrow> (Error + unit) \<times> Import list" where
  "read_descriptors limits img data opts directory_end cursor imports =
    (if cursor < directory_end then
       if \<not> range_inside cursor 20 directory_end
       then (Inl (mk_error truncated cursor ''PE import descriptor is truncated''), imports)
       else case fst (read_descriptor cursor (reader_of data little)) of
         Inl e \<Rightarrow> (Inl e, imports)
       | Inr d \<Rightarrow>
         if null_descriptor d then (Inr (), imports)
         else case read_library limits img data opts (cursor + 20) d imports of
           (Inl e, imports') \<Rightarrow> (Inl e, imports')
         | (Inr _, imports') \<Rightarrow> read_descriptors limits img data opts directory_end (cursor + 20) imports'
     else (Inr (), imports))"
  by pat_completeness auto
termination
proof (relation "measure (\<lambda>(limits, img, data, opts, directory_end, cursor, imports). unat directory_end - unat cursor)", simp)
  fix limits img data opts directory_end cursor found d x found' u
  assume c: "cursor < directory_end" "\<not> \<not> range_inside cursor 20 directory_end"
  then have "unat (cursor + 20) = unat cursor + 20"
    using unat_u64_bound [of directory_end] by (intro trans [OF unat_plus_bounded]) (simp_all add: range_inside_iff)
  then show "((limits, img, data, opts, directory_end, cursor + 20, found'), limits, img, data, opts, directory_end, cursor, found)
      \<in> measure (\<lambda>(limits, img, data, opts, directory_end, cursor, imports). unat directory_end - unat cursor)"
    using c(1) by (simp add: word_less_nat_alt)
qed

declare read_descriptors.simps [simp del]

definition pe_data :: "BinaryImage \<Rightarrow> bytes option" where
  "pe_data img = (if hdr_format (img_header img) = pe_like then img_file_data img else None)"

definition parse_imports ::
    "Limits \<Rightarrow> BinaryImage \<Rightarrow> ImportTableOptions \<Rightarrow> Import list \<Rightarrow> (Error + unit) \<times> Import list" where
  "parse_imports limits img opts imports =
    (let rva = ito_directory_rva opts; len = ito_directory_size opts in
     case pe_data img of
       None \<Rightarrow> (Inl (mk_error invalid_header rva ''PE import parser requires a PE image''), imports)
     | Some data \<Rightarrow>
       if len = 0 then (Inr (), imports)
       else case rva_to_file img rva len of
         None \<Rightarrow> (Inl (mk_error invalid_offset rva ''PE import directory is outside file-backed sections''), imports)
       | Some directory \<Rightarrow>
         if \<not> range_inside (fa_offset directory) len (of_nat (length data))
         then (Inl (mk_error invalid_offset rva ''PE import directory is outside file-backed sections''), imports)
         else read_descriptors limits img data opts (fa_offset directory + len) (fa_offset directory) imports)"

end
