(* ===== verification/Pe_Exports.thy ===== *)
theory Pe_Exports
  imports Pe_Imports
begin

unbundle bit_operations_syntax

text \<open>
  \<open>PeImportExportParser::parse_exports\<close> of \<open>src/pe_imports.cc\<close>: the export directory with its arrays of
  functions, names and ordinals. The list of the caller is resized and rewritten in place; a failure leaves it
  as far as it has come. One reader goes through the arrays, and its seeks are not checked.
\<close>

record ExportDirectory =
  ed_ordinal_base :: u32
  ed_function_count :: u32
  ed_name_count :: u32
  ed_functions_rva :: u32
  ed_names_rva :: u32
  ed_ordinals_rva :: u32

definition read_export_directory :: "u64 \<Rightarrow> (Error, ExportDirectory) parse" where
  "read_export_directory at =
    pbind (on_fail (rd_seek at) (\<lambda>_. no_error)) (\<lambda>_.
    on_fail (pbind read_u32 (\<lambda>characteristics. pbind read_u32 (\<lambda>timestamp. pbind read_u16 (\<lambda>major. pbind read_u16 (\<lambda>minor.
        pbind read_u32 (\<lambda>name_rva. pbind read_u32 (\<lambda>ordinal_base. pbind read_u32 (\<lambda>function_count.
        pbind read_u32 (\<lambda>name_count. pbind read_u32 (\<lambda>functions_rva. pbind read_u32 (\<lambda>names_rva.
        pbind read_u32 (\<lambda>ordinals_rva.
        preturn \<lparr>ed_ordinal_base = ordinal_base, ed_function_count = function_count, ed_name_count = name_count,
          ed_functions_rva = functions_rva, ed_names_rva = names_rva, ed_ordinals_rva = ordinals_rva\<rparr>))))))))))))
      (\<lambda>_. mk_error truncated at ''PE export directory is truncated''))"

definition empty_export :: Export where
  "empty_export = \<lparr>exp_name = [], exp_address = 0, exp_ordinal = 0, exp_forwarded = False, exp_forward_target = []\<rparr>"

text \<open>\<open>std::vector::resize\<close>\<close>

definition resize_exports :: "nat \<Rightarrow> Export list \<Rightarrow> Export list" where
  "resize_exports n exports = take n exports @ replicate (n - length exports) empty_export"

text \<open>What a function entry makes of the export at its index, also when it fails half way.\<close>

definition set_function :: "Limits \<Rightarrow> BinaryImage \<Rightarrow> bytes \<Rightarrow> u64 \<Rightarrow> u64 \<Rightarrow> u64 \<Rightarrow> u32 \<Rightarrow> Export \<Rightarrow> (Error + unit) \<times> Export" where
  "set_function limits img data directory_rva directory_size ordinal function_rva symbol =
    (let symbol = symbol\<lparr>exp_ordinal := ordinal\<rparr>; rva = ucast function_rva in
     case checked_add (hdr_image_base (img_header img)) rva of
       None \<Rightarrow> (Inl (mk_error address_overflow rva ''PE exported function address overflows''), symbol)
     | Some address \<Rightarrow>
       let symbol = symbol\<lparr>exp_address := address\<rparr> in
       if rva \<ge> directory_rva \<and> rva < directory_rva + directory_size then
         let symbol = symbol\<lparr>exp_forwarded := True\<rparr> in
         (case read_rva_string img data rva (max_string_bytes limits) of
            None \<Rightarrow> (Inl (mk_error invalid_string rva ''PE forwarder string is invalid''), symbol)
          | Some target \<Rightarrow> (Inr (), symbol\<lparr>exp_forward_target := target\<rparr>))
       else (Inr (), symbol))"

text \<open>The functions from index \<open>i\<close> on, \<open>n\<close> of them.\<close>

fun read_functions :: "Limits \<Rightarrow> BinaryImage \<Rightarrow> bytes \<Rightarrow> u64 \<Rightarrow> u64 \<Rightarrow> u32 \<Rightarrow> nat \<Rightarrow> nat \<Rightarrow> ByteReader \<Rightarrow> Export list \<Rightarrow>
    ((Error + unit) \<times> ByteReader) \<times> Export list" where
  "read_functions limits img data directory_rva directory_size ordinal_base i 0 r exports = ((Inr (), r), exports)"
| "read_functions limits img data directory_rva directory_size ordinal_base i (Suc n) r exports =
    (case read_u32 r of
       (Inl _, r') \<Rightarrow> ((Inl no_error, r'), exports)
     | (Inr function_rva, r') \<Rightarrow>
       (case set_function limits img data directory_rva directory_size (ucast ordinal_base + of_nat i) function_rva (exports ! i) of
          (Inl e, symbol) \<Rightarrow> ((Inl e, r'), exports[i := symbol])
        | (Inr _, symbol) \<Rightarrow>
          read_functions limits img data directory_rva directory_size ordinal_base (Suc i) n r' (exports[i := symbol])))"

definition read_export_name :: "Limits \<Rightarrow> BinaryImage \<Rightarrow> bytes \<Rightarrow> u64 \<Rightarrow> u64 \<Rightarrow> u32 \<Rightarrow> nat \<Rightarrow> nat \<Rightarrow> (Error, u16 \<times> string) parse" where
  "read_export_name limits img data names ordinals ordinals_rva count i =
    pbind (rd_try_seek (names + of_nat i * 4)) (\<lambda>_.
    pbind (on_fail read_u32 (\<lambda>_. no_error)) (\<lambda>name_rva.
    pbind (rd_try_seek (ordinals + of_nat i * 2)) (\<lambda>_.
    pbind (on_fail (pbind read_u16 (\<lambda>k. pbind (pcheck (\<lambda>_. \<not> unat k \<ge> count)) (\<lambda>_. preturn k)))
      (\<lambda>_. mk_error invalid_symbol (ucast (ordinals_rva + of_nat i * 2)) ''PE export ordinal index is invalid'')) (\<lambda>k.
    plift (case read_rva_string img data (ucast name_rva) (max_string_bytes limits) of
        None \<Rightarrow> Inl (mk_error invalid_string (ucast name_rva) ''PE export name is invalid'')
      | Some name \<Rightarrow> Inr (k, name))))))"

definition set_name :: "u16 \<times> string \<Rightarrow> Export list \<Rightarrow> Export list" where
  "set_name n exports = exports[unat (fst n) := (exports ! unat (fst n))\<lparr>exp_name := snd n\<rparr>]"

fun read_names :: "Limits \<Rightarrow> BinaryImage \<Rightarrow> bytes \<Rightarrow> u64 \<Rightarrow> u64 \<Rightarrow> u32 \<Rightarrow> nat \<Rightarrow> nat \<Rightarrow> ByteReader \<Rightarrow> Export list \<Rightarrow>
    (Error + unit) \<times> Export list" where
  "read_names limits img data names ordinals ordinals_rva i 0 r exports = (Inr (), exports)"
| "read_names limits img data names ordinals ordinals_rva i (Suc n) r exports =
    (case read_export_name limits img data names ordinals ordinals_rva (length exports) i r of
       (Inl e, r') \<Rightarrow> (Inl e, exports)
     | (Inr found, r') \<Rightarrow> read_names limits img data names ordinals ordinals_rva (Suc i) n r' (set_name found exports))"

text \<open>The arrays; without names their offsets are not looked at.\<close>

definition read_exports :: "Limits \<Rightarrow> BinaryImage \<Rightarrow> bytes \<Rightarrow> u64 \<Rightarrow> u64 \<Rightarrow> ExportDirectory \<Rightarrow> ByteReader \<Rightarrow> Export list \<Rightarrow>
    (Error + unit) \<times> Export list" where
  "read_exports limits img data directory_rva directory_size d r exports =
    (if ed_function_count d > max_exports limits \<or> ed_name_count d > ed_function_count d
     then (Inl (mk_error resource_limit directory_rva ''PE export table count is invalid''), exports)
     else
       let functions = rva_to_file img (ucast (ed_functions_rva d)) (ucast (ed_function_count d) * 4);
           names = rva_to_file img (ucast (ed_names_rva d)) (ucast (ed_name_count d) * 4);
           ordinals = rva_to_file img (ucast (ed_ordinals_rva d)) (ucast (ed_name_count d) * 2);
           outside = mk_error invalid_offset directory_rva ''PE export arrays are not file-backed'' in
       case functions of
         None \<Rightarrow> (Inl outside, exports)
       | Some at \<Rightarrow>
         if ed_name_count d \<noteq> 0 \<and> (names = None \<or> ordinals = None) then (Inl outside, exports)
         else
           let exports = resize_exports (unat (ed_function_count d)) exports;
               r = snd (rd_seek (fa_offset at) r) in
           (case read_functions limits img data directory_rva directory_size (ed_ordinal_base d) 0
               (unat (ed_function_count d)) r exports of
              ((Inl e, _), exports) \<Rightarrow> (Inl e, exports)
            | ((Inr _, r), exports) \<Rightarrow>
              (case (names, ordinals) of
                 (Some n, Some k) \<Rightarrow> read_names limits img data (fa_offset n) (fa_offset k) (ed_ordinals_rva d) 0
                   (unat (ed_name_count d)) r exports
               | _ \<Rightarrow> (Inr (), exports))))"

definition parse_exports ::
    "Limits \<Rightarrow> BinaryImage \<Rightarrow> u64 \<Rightarrow> u64 \<Rightarrow> Export list \<Rightarrow> (Error + unit) \<times> Export list" where
  "parse_exports limits img directory_rva directory_size exports =
    (case pe_data img of
       None \<Rightarrow> (Inl (mk_error invalid_header directory_rva ''PE export parser requires a PE image''), exports)
     | Some data \<Rightarrow>
       if directory_size = 0 then (Inr (), exports)
       else case rva_to_file img directory_rva 40 of
         None \<Rightarrow> (Inl (mk_error invalid_offset directory_rva ''PE export directory is not file-backed''), exports)
       | Some directory \<Rightarrow>
         (case read_export_directory (fa_offset directory) (reader_of data little) of
            (Inl e, _) \<Rightarrow> (Inl e, exports)
          | (Inr d, r) \<Rightarrow> read_exports limits img data directory_rva directory_size d r exports))"

end
