(* ===== verification/Import_Tables.thy ===== *)
theory Import_Tables
  imports Pe_Imports Elf_Image
begin

unbundle bit_operations_syntax

text \<open>
  The imports of \<open>PeImportExportParser::parse_imports\<close> (\<open>src/pe_imports.cc\<close>) by the tables they come from:
  descriptor \<open>k\<close> of the directory gives a run of imports, entry \<open>i\<close> of its lookup table the import \<open>i\<close> of the
  run.
\<close>

section \<open>What is read at an offset\<close>

definition descriptor_at :: "bytes \<Rightarrow> nat \<Rightarrow> ImportDescriptor" where
  "descriptor_at data at = (let bs = drop at data in
    \<lparr>id_lookup_rva = field little 0 4 bs, id_timestamp = field little 4 4 bs, id_forwarder = field little 8 4 bs,
     id_name_rva = field little 12 4 bs, id_address_rva = field little 16 4 bs\<rparr>)"

definition pointer_at :: "bytes \<Rightarrow> u64 \<Rightarrow> u64 \<Rightarrow> u64" where
  "pointer_at data width at =
    (if width = 8 then field little 0 8 (drop (unat at) data) else ucast (field little 0 4 (drop (unat at) data) :: u32))"

lemma seek_Inr:
  assumes "rd_seek at r = (Inr u, r')" "table_reader data order r"
  shows "table_reader data order r'" "rd_rest r' = drop (unat at) data" "rd_position r' = at" "unat at \<le> length data"
proof -
  have at: "unat at \<le> length data"
    using assms by (auto simp: rd_seek_def table_reader_def word_less_nat_alt split: if_splits)
  show "table_reader data order r'" "rd_rest r' = drop (unat at) data" "rd_position r' = at" "unat at \<le> length data"
    using table_reader_seek [OF assms(2) at] assms(1) at by auto
qed

lemma fst_Inr: "fst p = Inr x \<longleftrightarrow> (\<exists>r. p = (Inr x, r))"
  by (cases p) auto

lemma string_here_at:
  assumes "string_here limit r = (Inr s, r')" "table_reader data order r"
  shows "read_c_string (reader_of data order') (rd_position r) limit = Some s"
proof -
  have "rd_size r = of_nat (length data)" "rd_data r = Some data"
    using assms(2) by (auto simp: table_reader_def word_unat_eq_iff) (metis of_nat_unat ucast_id unat_of_nat)
  then have "read_c_string (reader_of data order') (rd_position r) limit = read_c_string r (rd_position r) limit"
    by (simp add: read_c_string_def reader_of_def make_reader_def)
  then show ?thesis using assms(1) by (simp add: string_here_def split: option.splits)
qed

lemma table_reader_of_data: "length data < 2 ^ 64 \<Longrightarrow> table_reader data order (reader_of data order)"
  by (rule table_reader_of)

lemma read_descriptor_at:
  assumes "read_descriptor cursor r = (Inr d, r')" "table_reader data little r"
  shows "d = descriptor_at data (unat cursor)"
proof -
  obtain r1 where sk: "rd_seek cursor r = (Inr (), r1)"
    and p: "pbind read_u32 (\<lambda>lookup. pbind read_u32 (\<lambda>timestamp. pbind read_u32 (\<lambda>forwarder.
        pbind read_u32 (\<lambda>name. pbind read_u32 (\<lambda>address.
        preturn \<lparr>id_lookup_rva = lookup, id_timestamp = timestamp, id_forwarder = forwarder, id_name_rva = name,
          id_address_rva = address\<rparr>))))) r1 = (Inr d, r')"
    using assms(1) by (auto simp: read_descriptor_def pbind_Inr [where p = "on_fail (rd_seek _) _"])
  note r1 = seek_Inr [OF sk assms(2)]
  show ?thesis
    using p past_0 [OF conjunct1 [OF table_reader_reader [OF r1(1)]]]
    apply -
    apply (erule (1) past_reads)+
    apply (use table_reader_reader [OF r1(1)] r1(2) in \<open>simp add: descriptor_at_def Let_def\<close>)
    done
qed

lemma read_pointer_at:
  assumes "read_pointer width r = (Inr v, r')" "table_reader data little r" "rd_rest r = drop (unat at) data"
  shows "v = pointer_at data width at"
proof -
  note ok = table_reader_reader [OF assms(2)]
  show ?thesis
  proof (cases "width = 8")
    case True
    then have "pbind read_u64 preturn r = (Inr v, r')" using assms(1) by (simp add: read_pointer_def pbind_Inr)
    then show ?thesis
      using past_0 [OF conjunct1 [OF ok]]
      apply -
      apply (erule (1) past_reads)+
      apply (simp add: pointer_at_def True ok assms(3))
      done
  next
    case False
    then have "pbind read_u32 (\<lambda>small. preturn (ucast small)) r = (Inr v, r')" using assms(1) by (simp add: read_pointer_def)
    then show ?thesis
      using past_0 [OF conjunct1 [OF ok]]
      apply -
      apply (erule (1) past_reads)+
      apply (simp add: pointer_at_def False ok assms(3))
      done
  qed
qed

section \<open>One entry\<close>

definition table_rva :: "ImportDescriptor \<Rightarrow> u32" where
  "table_rva d = (if id_lookup_rva d \<noteq> 0 then id_lookup_rva d else id_address_rva d)"

text \<open>\<open>imp\<close> is what entry \<open>i\<close> of the lookup table of \<open>d\<close> says.\<close>

definition entry_import ::
    "Limits \<Rightarrow> BinaryImage \<Rightarrow> bytes \<Rightarrow> ImportTableOptions \<Rightarrow> ImportDescriptor \<Rightarrow> nat \<Rightarrow> Import \<Rightarrow> bool" where
  "entry_import limits img data opts d i imp \<longleftrightarrow>
    (\<exists>location v. rva_to_file img (ucast (table_rva d) + of_nat i * pointer_width opts) (pointer_width opts) = Some location \<and>
       v = pointer_at data (pointer_width opts) (fa_offset location) \<and> v \<noteq> 0 \<and>
       (if v AND ordinal_flag opts \<noteq> 0 then imp_name imp = [] \<and> imp_ordinal imp = v AND 0xffff
        else \<exists>at. rva_to_file img v 3 = Some at \<and>
          imp_ordinal imp = ucast (field little 0 2 (drop (unat (fa_offset at)) data) :: u16) \<and>
          read_c_string (reader_of data little) (fa_offset at + 2)
            (min (fa_available at - 2) (max_string_bytes limits)) = Some (imp_name imp))) \<and>
    library_name limits img data (id_name_rva d) = Some (imp_library imp) \<and>
    unat (imp_slot_address imp) =
      unat (ito_image_base opts) + unat (id_address_rva d) + i * unat (pointer_width opts) \<and> \<not> imp_weak imp"

lemma lookup_entry_rva_Some:
  assumes "lookup_entry_rva width table i = Some (delta, rva)" "i < 2 ^ 32"
  shows "unat delta = i * unat width \<and> rva = table + of_nat i * width"
proof -
  have m: "checked_multiply (of_nat i) width = Some delta" and a: "checked_add table delta = Some rva"
    using assms(1) by (auto simp: lookup_entry_rva_def split: option.splits)
  have i: "unat (of_nat i :: u64) = i" using assms(2) by (intro unat_of_nat_u64) simp
  have "delta = of_nat i * width"
    using m by (auto simp: checked_multiply_def split: if_splits)
  moreover have "rva = table + delta" using a by (auto simp: checked_add_def split: if_splits)
  ultimately show ?thesis using mul_op.SomeD [OF m] unfolding i by simp
qed

lemma read_lookup_entry_Inr:
  assumes "read_lookup_entry img data width table i = Inr (delta, rva, v)" "i < 2 ^ 32" "length data < 2 ^ 64"
  shows "unat delta = i * unat width \<and> rva = table + of_nat i * width \<and>
    (\<exists>location. rva_to_file img rva width = Some location \<and> v = pointer_at data width (fa_offset location))"
proof -
  obtain location where e: "lookup_entry_rva width table i = Some (delta, rva)"
    and l: "rva_to_file img rva width = Some location"
    and p: "fst (pbind (rd_seek (fa_offset location)) (\<lambda>_. read_pointer width) (reader_of data little)) = Inr v"
    using assms(1) by (auto simp: read_lookup_entry_def split: option.splits sum.splits)
  obtain r' where "pbind (rd_seek (fa_offset location)) (\<lambda>_. read_pointer width) (reader_of data little) = (Inr v, r')"
    using p by (metis prod.collapse)
  then obtain r1 where sk: "rd_seek (fa_offset location) (reader_of data little) = (Inr (), r1)"
    and rd: "read_pointer width r1 = (Inr v, r')" by (auto simp: pbind_Inr)
  note r1 = seek_Inr [OF sk table_reader_of_data [OF assms(3)]]
  show ?thesis
    using lookup_entry_rva_Some [OF e assms(2)] l read_pointer_at [OF rd r1(1,2)] by blast
qed

lemma read_hint_name_Inr:
  assumes "read_hint_name limits img data v = Inr (hint, name)" "length data < 2 ^ 64"
  shows "\<exists>at. rva_to_file img v 3 = Some at \<and> hint = field little 0 2 (drop (unat (fa_offset at)) data) \<and>
    read_c_string (reader_of data little) (fa_offset at + 2)
      (min (fa_available at - 2) (max_string_bytes limits)) = Some name"
proof -
  let ?rest = "\<lambda>at. pbind read_u16 (\<lambda>hint. pbind (string_here (min (fa_available at - 2) (max_string_bytes limits)))
    (\<lambda>name. preturn (hint, name)))"
  obtain at r' where at: "rva_to_file img v 3 = Some at"
    and p: "pbind (on_fail (rd_seek (fa_offset at))
           (\<lambda>_. mk_error invalid_offset v ''PE import-by-name record is invalid'')) (\<lambda>_.
         on_fail (?rest at) (\<lambda>_. mk_error invalid_string v ''PE imported symbol name is invalid''))
      (reader_of data little) = (Inr (hint, name), r')"
    using assms(1) by (auto simp: read_hint_name_def fst_Inr split: option.splits)
  obtain r1 where sk: "rd_seek (fa_offset at) (reader_of data little) = (Inr (), r1)"
    and rest: "?rest at r1 = (Inr (hint, name), r')"
    using p by (auto simp: pbind_Inr [where p = "on_fail _ _"])
  note r1 = seek_Inr [OF sk table_reader_of_data [OF assms(2)]]
  obtain r2 where h: "read_u16 r1 = (Inr hint, r2)"
    and s: "string_here (min (fa_available at - 2) (max_string_bytes limits)) r2 = (Inr name, r')"
    using rest by (auto simp: pbind_Inr)
  have u: "hint = field little 0 2 (rd_rest r1) \<and> r2 = rd_advance 2 r1 \<and> 2 \<le> length (rd_rest r1)"
    using h table_reader_reader [OF r1(1)] by (auto simp: read_u16_eq field_def split: if_splits)
  have r2: "table_reader data little r2" using u r1(1) by (auto intro: table_reader_advance)
  have pos: "rd_position r2 = fa_offset at + 2" using u r1(3) by (simp add: rd_advance_def)
  show ?thesis
    using at u r1(2) string_here_at [OF s r2] unfolding pos by auto
qed

lemma make_import_entry:
  assumes "read_lookup_entry img data (pointer_width opts) (ucast (table_rva d)) i = Inr (delta, rva, v)" "v \<noteq> 0"
    "make_import limits img data opts library (ucast (id_address_rva d)) delta v = Inr imp"
    "library_name limits img data (id_name_rva d) = Some library" "i < 2 ^ 32" "length data < 2 ^ 64"
  shows "entry_import limits img data opts d i imp"
proof -
  note e = read_lookup_entry_Inr [OF assms(1,5,6)]
  obtain slot where slot: "import_slot opts (ucast (id_address_rva d)) delta = Some slot"
    using assms(3) by (auto simp: make_import_def split: option.splits)
  then obtain sr where "checked_add (ucast (id_address_rva d)) delta = Some sr"
    "checked_add (ito_image_base opts) sr = Some slot"
    by (auto simp: import_slot_def split: option.splits)
  then have u: "unat slot = unat (ito_image_base opts) + unat (id_address_rva d) + i * unat (pointer_width opts)"
    using e add_op.SomeD by fastforce
  show ?thesis
  proof (cases "v AND ordinal_flag opts \<noteq> 0")
    case True
    then have "imp = \<lparr>imp_library = library, imp_name = [], imp_ordinal = v AND 0xffff, imp_slot_address = slot, imp_weak = False\<rparr>"
      using assms(3) slot by (simp add: make_import_def)
    then show ?thesis using True e u assms(2,4) by (auto simp: entry_import_def)
  next
    case False
    then obtain hint name where h: "read_hint_name limits img data v = Inr (hint, name)"
      and imp: "imp = \<lparr>imp_library = library, imp_name = name, imp_ordinal = ucast hint, imp_slot_address = slot, imp_weak = False\<rparr>"
      using assms(3) slot by (auto simp: make_import_def split: sum.splits)
    show ?thesis using False e u assms(2,4) read_hint_name_Inr [OF h assms(6)]
      by (auto simp: entry_import_def imp)
  qed
qed

section \<open>Runs\<close>

definition import_run ::
    "Limits \<Rightarrow> BinaryImage \<Rightarrow> bytes \<Rightarrow> ImportTableOptions \<Rightarrow> ImportDescriptor \<Rightarrow> Import list \<Rightarrow> bool" where
  "import_run limits img data opts d run \<longleftrightarrow>
    (\<forall>i < length run. entry_import limits img data opts d i (run ! i))"

lemma read_lookup_table_run:
  assumes "library_name limits img data (id_name_rva d) = Some library" "length data < 2 ^ 64" "i + n \<le> 2 ^ 32"
    "read_lookup_table limits img data opts library (ucast (table_rva d)) (ucast (id_address_rva d)) i n found = (res, found')"
  shows "\<exists>run. found' = found @ run \<and> (\<forall>j < length run. entry_import limits img data opts d (i + j) (run ! j)) \<and>
    length found' \<le> max (length found) (unat (max_imports limits))"
  using assms(3,4)
proof (induction n arbitrary: i found)
  case (Suc n)
  show ?case
  proof (cases "found' = found")
    case False
    then obtain delta rva v imp where e: "read_lookup_entry img data (pointer_width opts) (ucast (table_rva d)) i = Inr (delta, rva, v)"
      and v: "v \<noteq> 0" and few: "\<not> length found \<ge> unat (max_imports limits)"
      and imp: "make_import limits img data opts library (ucast (id_address_rva d)) delta v = Inr imp"
      and rest: "read_lookup_table limits img data opts library (ucast (table_rva d)) (ucast (id_address_rva d))
        (Suc i) n (found @ [imp]) = (res, found')"
      using Suc.prems(2) by (auto split: sum.splits if_splits prod.splits)
    have "i < 2 ^ 32" using Suc.prems(1) by simp
    from make_import_entry [OF e v imp assms(1) this assms(2)]
    have first: "entry_import limits img data opts d i imp" .
    have "Suc i + n \<le> 2 ^ 32" using Suc.prems(1) by simp
    from Suc.IH [OF this rest] obtain run where run: "found' = (found @ [imp]) @ run"
      "\<forall>j < length run. entry_import limits img data opts d (Suc i + j) (run ! j)"
      "length found' \<le> max (length (found @ [imp])) (unat (max_imports limits))" by blast
    have "\<forall>j < length (imp # run). entry_import limits img data opts d (i + j) ((imp # run) ! j)"
      using first run(2) by (auto simp: less_Suc_eq_0_disj)
    then show ?thesis
      using run(1,3) few by (intro exI [of _ "imp # run"]) auto
  qed simp
qed simp

lemma read_library_run:
  assumes "read_library limits img data opts cursor d found = (res, found')" "length data < 2 ^ 64"
  shows "\<exists>run. found' = found @ run \<and> import_run limits img data opts d run \<and>
    length found' \<le> max (length found) (unat (max_imports limits))"
proof (cases "found' = found")
  case True
  then show ?thesis by (simp add: import_run_def)
next
  case False
  then obtain library where l: "library_name limits img data (id_name_rva d) = Some library"
    and t: "read_lookup_table limits img data opts library (ucast (table_rva d)) (ucast (id_address_rva d))
      0 (unat (max_imports limits)) found = (res, found')"
    using assms(1) by (auto simp: read_library_def table_rva_def split: if_splits option.splits)
  have "0 + unat (max_imports limits) \<le> 2 ^ 32" using unat_u32_bound [of "max_imports limits"] by simp
  from read_lookup_table_run [OF l assms(2) this t] show ?thesis by (simp add: import_run_def)
qed

lemma read_descriptors_runs:
  "read_descriptors limits img data opts directory_end cursor found = (res, found') \<Longrightarrow> length data < 2 ^ 64 \<Longrightarrow>
    \<exists>runs. found' = found @ concat runs \<and>
      (\<forall>k < length runs. import_run limits img data opts (descriptor_at data (unat cursor + 20 * k)) (runs ! k)) \<and>
      length found' \<le> max (length found) (unat (max_imports limits))"
proof (induction limits img data opts directory_end cursor found rule: read_descriptors.induct)
  case (1 limits img data opts directory_end cursor found)
  show ?case
  proof (cases "\<exists>d. cursor < directory_end \<and> range_inside cursor 20 directory_end \<and>
      fst (read_descriptor cursor (reader_of data little)) = Inr d \<and> \<not> null_descriptor d")
    case False
    then have "found' = found"
      using 1(2) by (subst (asm) read_descriptors.simps) (auto split: if_splits sum.splits)
    then show ?thesis by (intro exI [of _ "[]"]) simp
  next
    case True
    then obtain d where c: "cursor < directory_end" "range_inside cursor 20 directory_end"
      and d: "fst (read_descriptor cursor (reader_of data little)) = Inr d" and nn: "\<not> null_descriptor d" by blast
    have at: "d = descriptor_at data (unat cursor)"
      using d read_descriptor_at table_reader_of_data [OF 1(3)] by (auto simp: fst_Inr)
    have next_cursor: "unat (cursor + 20) = unat cursor + 20"
      using c(2) unat_u64_bound [of directory_end]
      by (intro trans [OF unat_plus_bounded]) (simp_all add: range_inside_iff)
    obtain x found1 where l: "read_library limits img data opts (cursor + 20) d found = (x, found1)"
      by (cases "read_library limits img data opts (cursor + 20) d found")
    obtain run where run: "found1 = found @ run" "import_run limits img data opts d run"
      "length found1 \<le> max (length found) (unat (max_imports limits))"
      using read_library_run [OF l 1(3)] by blast
    have step: "read_descriptors limits img data opts directory_end cursor found =
      (case x of Inl e \<Rightarrow> (Inl e, found1)
       | Inr _ \<Rightarrow> read_descriptors limits img data opts directory_end (cursor + 20) found1)"
      using c d nn l by (subst read_descriptors.simps) simp
    show ?thesis
    proof (cases x)
      case (Inl e)
      then have "found' = found1" using 1(2) step by simp
      then show ?thesis using run at by (intro exI [of _ "[run]"]) simp
    next
      case (Inr u)
      then have rest: "read_descriptors limits img data opts directory_end (cursor + 20) found1 = (res, found')"
        using 1(2) step by simp
      obtain runs where runs: "found' = found1 @ concat runs"
        "\<forall>k < length runs. import_run limits img data opts (descriptor_at data (unat (cursor + 20) + 20 * k)) (runs ! k)"
        "length found' \<le> max (length found1) (unat (max_imports limits))"
        using 1(1) [OF c(1) _ d nn l [symmetric] Inr rest 1(3)] c(2) by auto
      have "\<forall>k < length (run # runs).
          import_run limits img data opts (descriptor_at data (unat cursor + 20 * k)) ((run # runs) ! k)"
        using run(2) runs(2) at by (auto simp: less_Suc_eq_0_disj next_cursor add.assoc)
      then show ?thesis
        using run(1,3) runs(1,3) by (intro exI [of _ "run # runs"]) auto
    qed
  qed
qed

text \<open>
  C31. Whatever the outcome, the parser leaves the imports it was given in front and appends the runs of a prefix of the
  descriptors, in order: import \<open>i\<close> of run \<open>k\<close> is what the nonzero entry \<open>i\<close> of the lookup table of descriptor \<open>k\<close>
  says, by ordinal or by hint and name, with the normalized library name of the descriptor, and its slot is \<open>i\<close>
  pointers behind the address table with the image base added, computed without wrapping around. The limit on imports is never
  exceeded by what is appended.
\<close>

theorem imports_by_table:
  assumes "parse_imports limits img opts before = (res, after)" "img_file_data img = Some data" "length data < 2 ^ 64"
  shows "\<exists>directory runs. after = before @ concat runs \<and>
    (runs \<noteq> [] \<longrightarrow> rva_to_file img (ito_directory_rva opts) (ito_directory_size opts) = Some directory) \<and>
    (\<forall>k < length runs. \<forall>i < length (runs ! k).
      entry_import limits img data opts (descriptor_at data (unat (fa_offset directory) + 20 * k)) i (runs ! k ! i)) \<and>
    length after \<le> max (length before) (unat (max_imports limits))"
proof (cases "after = before")
  case True
  then show ?thesis by (intro exI [of _ undefined] exI [of _ "[]"]) simp
next
  case False
  then obtain directory where d: "rva_to_file img (ito_directory_rva opts) (ito_directory_size opts) = Some directory"
    and r: "read_descriptors limits img data opts (fa_offset directory + ito_directory_size opts)
      (fa_offset directory) before = (res, after)"
    using assms(1,2) by (auto simp: parse_imports_def Let_def pe_data_def split: if_splits option.splits)
  from read_descriptors_runs [OF r assms(3)] obtain runs where runs: "after = before @ concat runs"
    "\<forall>k < length runs. import_run limits img data opts (descriptor_at data (unat (fa_offset directory) + 20 * k)) (runs ! k)"
    "length after \<le> max (length before) (unat (max_imports limits))" by blast
  show ?thesis
    by (intro exI [of _ directory] exI [of _ runs]) (use d runs in \<open>simp add: import_run_def\<close>)
qed

text \<open>A directory of one library that imports ordinal 7 and the name \<open>F\<close>, in a section at address 16.\<close>

definition demo_import_data :: bytes where
  "demo_import_data = [56, 0, 0, 0, 0, 0, 0, 0, 0, 0, 0, 0, 80, 0, 0, 0, 0, 1, 0, 0,
     0, 0, 0, 0, 0, 0, 0, 0, 0, 0, 0, 0, 0, 0, 0, 0, 0, 0, 0, 0,
     7, 0, 0, 0x80, 84, 0, 0, 0, 0, 0, 0, 0,
     0, 0, 0, 0, 0, 0, 0, 0, 0, 0, 0, 0, 65, 46, 100, 0, 5, 0, 70, 0]"

definition demo_import_image :: BinaryImage where
  "demo_import_image = empty_image\<lparr>img_header := empty_header\<lparr>hdr_format := pe_like\<rparr>,
     img_sections := [\<lparr>sec_index = 0, sec_name = ''.idata'', sec_kind = import_section, sec_file_offset = 0,
       sec_file_size = 72, sec_virtual_address = 16, sec_memory_size = 72, sec_alignment = 1,
       sec_entry_size = 0, sec_link = 0, sec_info = 0, sec_permissions = 1\<rparr>],
     img_file_data := Some demo_import_data\<rparr>"

definition demo_import_options :: ImportTableOptions where
  "demo_import_options = \<lparr>ito_directory_rva = 16, ito_directory_size = 40, ito_image_base = 0x400000, ito_word_size = bits32\<rparr>"

definition demo_imports :: "Import list" where
  "demo_imports = [\<lparr>imp_library = ''a.d'', imp_name = [], imp_ordinal = 7, imp_slot_address = 0x400100, imp_weak = False\<rparr>,
     \<lparr>imp_library = ''a.d'', imp_name = ''F'', imp_ordinal = 5, imp_slot_address = 0x400104, imp_weak = False\<rparr>]"

lemma demo_imports_run:
  "parse_imports (demo_limits\<lparr>max_imports := 4\<rparr>) demo_import_image demo_import_options [] = (Inr (), demo_imports)"
  by code_simp

theorem imports_by_table_witness:
  "\<exists>(directory :: FileAddress) runs. demo_imports = concat runs \<and> length demo_imports = 2 \<and>
    (\<forall>k < length runs. \<forall>i < length (runs ! k). entry_import (demo_limits\<lparr>max_imports := 4\<rparr>) demo_import_image
      demo_import_data demo_import_options (descriptor_at demo_import_data (unat (fa_offset directory) + 20 * k)) i (runs ! k ! i))"
proof -
  have d: "img_file_data demo_import_image = Some demo_import_data" by (simp add: demo_import_image_def)
  have n: "length demo_import_data < 2 ^ 64" by (simp add: demo_import_data_def)
  have two: "length demo_imports = 2" by (simp add: demo_imports_def)
  obtain directory :: FileAddress and runs where "demo_imports = [] @ concat runs"
    "\<forall>k < length runs. \<forall>i < length (runs ! k). entry_import (demo_limits\<lparr>max_imports := 4\<rparr>) demo_import_image
      demo_import_data demo_import_options (descriptor_at demo_import_data (unat (fa_offset directory) + 20 * k)) i (runs ! k ! i)"
    using imports_by_table [OF demo_imports_run d n] by blast
  then show ?thesis using two unfolding append_Nil by (intro exI [of _ directory] exI [of _ runs] conjI)
qed

end
