(* ===== verification/Export_Tables.thy ===== *)
theory Export_Tables
  imports Pe_Exports Import_Tables
begin

unbundle bit_operations_syntax

text \<open>
  The exports of \<open>PeImportExportParser::parse_exports\<close> (\<open>src/pe_imports.cc\<close>) by the three arrays of the
  directory: functions give addresses, ordinals and forwarders, names are laid over them in order.
\<close>

section \<open>What is read at an offset\<close>

definition export_directory_at :: "bytes \<Rightarrow> nat \<Rightarrow> ExportDirectory" where
  "export_directory_at data at = (let bs = drop at data in
    \<lparr>ed_ordinal_base = field little 16 4 bs, ed_function_count = field little 20 4 bs,
     ed_name_count = field little 24 4 bs, ed_functions_rva = field little 28 4 bs,
     ed_names_rva = field little 32 4 bs, ed_ordinals_rva = field little 36 4 bs\<rparr>)"

definition word_at :: "bytes \<Rightarrow> u64 \<Rightarrow> nat \<Rightarrow> nat \<Rightarrow> 'a::len word" where
  \<comment> \<open>element \<open>i\<close> of an array of \<open>k\<close>-byte words\<close>
  "word_at data at k i = field little 0 k (drop (unat at + k * i) data)"

lemma read_export_directory_at:
  assumes "read_export_directory at r = (Inr d, r')" "table_reader data little r"
  shows "d = export_directory_at data (unat at) \<and> table_reader data little r'"
proof -
  obtain r1 where sk: "rd_seek at r = (Inr (), r1)"
    and p: "pbind read_u32 (\<lambda>characteristics. pbind read_u32 (\<lambda>timestamp. pbind read_u16 (\<lambda>major. pbind read_u16 (\<lambda>minor.
        pbind read_u32 (\<lambda>name_rva. pbind read_u32 (\<lambda>ordinal_base. pbind read_u32 (\<lambda>function_count.
        pbind read_u32 (\<lambda>name_count. pbind read_u32 (\<lambda>functions_rva. pbind read_u32 (\<lambda>names_rva.
        pbind read_u32 (\<lambda>ordinals_rva.
        preturn \<lparr>ed_ordinal_base = ordinal_base, ed_function_count = function_count, ed_name_count = name_count,
          ed_functions_rva = functions_rva, ed_names_rva = names_rva, ed_ordinals_rva = ordinals_rva\<rparr>)))))))))))
      r1 = (Inr d, r')"
    using assms(1) by (auto simp: read_export_directory_def pbind_Inr [where p = "on_fail (rd_seek _) _"])
  note r1 = seek_Inr [OF sk assms(2)]
  show ?thesis
    using p past_0 [OF conjunct1 [OF table_reader_reader [OF r1(1)]]]
    apply -
    apply (erule (1) past_reads)+
    apply (use table_reader_reader [OF r1(1)] table_reader_past [OF r1(1)] r1(2) in
      \<open>simp add: export_directory_at_def Let_def\<close>)
    done
qed

section \<open>Functions\<close>

definition forwarder :: "u64 \<Rightarrow> u64 \<Rightarrow> u32 \<Rightarrow> bool" where
  "forwarder directory_rva directory_size rva \<longleftrightarrow>
    ucast rva \<ge> directory_rva \<and> ucast rva < directory_rva + directory_size"

text \<open>\<open>e\<close> is \<open>old\<close> with what the function entry \<open>rva\<close> says.\<close>

definition function_export ::
    "Limits \<Rightarrow> BinaryImage \<Rightarrow> bytes \<Rightarrow> u64 \<Rightarrow> u64 \<Rightarrow> u64 \<Rightarrow> u32 \<Rightarrow> Export \<Rightarrow> Export \<Rightarrow> bool" where
  "function_export limits img data directory_rva directory_size ordinal rva old e \<longleftrightarrow>
    exp_name e = exp_name old \<and> exp_ordinal e = ordinal \<and>
    unat (exp_address e) = unat (hdr_image_base (img_header img)) + unat rva \<and>
    (if forwarder directory_rva directory_size rva
     then exp_forwarded e \<and> read_rva_string img data (ucast rva) (max_string_bytes limits) = Some (exp_forward_target e)
     else exp_forwarded e = exp_forwarded old \<and> exp_forward_target e = exp_forward_target old)"

lemma set_function_Inr:
  assumes "set_function limits img data directory_rva directory_size ordinal rva old = (Inr u, e)"
  shows "function_export limits img data directory_rva directory_size ordinal rva old e"
proof -
  obtain a where a: "checked_add (hdr_image_base (img_header img)) (ucast rva) = Some a"
    using assms by (auto simp: set_function_def Let_def split: option.splits)
  then show ?thesis
    using assms add_op.SomeD [OF a]
    by (auto simp: set_function_def Let_def function_export_def forwarder_def split: option.splits if_splits)
qed

lemma read_functions_Inr:
  assumes "read_functions limits img data directory_rva directory_size ordinal_base i n r exports = ((Inr u, r'), exports')"
    "table_reader data little r" "rd_rest r = drop (unat at + 4 * i) data" "i + n \<le> length exports"
  shows "table_reader data little r' \<and> length exports' = length exports \<and>
    (\<forall>j < length exports. if i \<le> j \<and> j < i + n
      then function_export limits img data directory_rva directory_size (ucast ordinal_base + of_nat j)
        (word_at data at 4 j) (exports ! j) (exports' ! j)
      else exports' ! j = exports ! j)"
  using assms
proof (induction n arbitrary: i r exports)
  case (Suc n)
  obtain rva r1 where v: "read_u32 r = (Inr rva, r1)"
    using Suc.prems(1) by (auto split: prod.splits sum.splits)
  obtain u1 e where s: "set_function limits img data directory_rva directory_size (ucast ordinal_base + of_nat i)
      rva (exports ! i) = (Inr u1, e)"
    and rest: "read_functions limits img data directory_rva directory_size ordinal_base (Suc i) n r1 (exports[i := e])
      = ((Inr u, r'), exports')"
    using Suc.prems(1) v by (auto split: prod.splits sum.splits)
  have u: "rva = word_at data at 4 i \<and> r1 = rd_advance 4 r \<and> 4 \<le> length (rd_rest r)"
    using v table_reader_reader [OF Suc.prems(2)] Suc.prems(3)
    by (auto simp: read_u32_eq field_def word_at_def split: if_splits)
  have r1: "table_reader data little r1" using u Suc.prems(2) by (auto intro: table_reader_advance)
  have "rd_rest r1 = drop (unat at + 4 * Suc i) data"
    using u rd_rest_advance [of r 4] table_reader_reader [OF Suc.prems(2)] Suc.prems(3) by (simp add: ac_simps)
  note ih = Suc.IH [OF rest r1 this]
  have first: "function_export limits img data directory_rva directory_size (ucast ordinal_base + of_nat i)
      (word_at data at 4 i) (exports ! i) e"
    using set_function_Inr [OF s] u by simp
  have ih': "table_reader data little r'" "length exports' = length exports"
    and each: "j < length exports \<Longrightarrow> if Suc i \<le> j \<and> j < Suc i + n
      then function_export limits img data directory_rva directory_size (ucast ordinal_base + of_nat j)
        (word_at data at 4 j) (exports[i := e] ! j) (exports' ! j)
      else exports' ! j = exports[i := e] ! j" for j
    using ih Suc.prems(4) by auto
  have "if i \<le> j \<and> j < i + Suc n
      then function_export limits img data directory_rva directory_size (ucast ordinal_base + of_nat j)
        (word_at data at 4 j) (exports ! j) (exports' ! j)
      else exports' ! j = exports ! j" if "j < length exports" for j
    using each [OF that] first that by (cases "j = i") (auto split: if_splits)
  then show ?case using ih' by blast
qed auto

section \<open>Names\<close>

definition name_entry ::
    "Limits \<Rightarrow> BinaryImage \<Rightarrow> bytes \<Rightarrow> u64 \<Rightarrow> u64 \<Rightarrow> nat \<Rightarrow> nat \<Rightarrow> u16 \<times> string \<Rightarrow> bool" where
  "name_entry limits img data names ordinals count i e \<longleftrightarrow>
    fst e = word_at data ordinals 2 i \<and> unat (fst e) < count \<and>
    read_rva_string img data (ucast (word_at data names 4 i :: u32)) (max_string_bytes limits) = Some (snd e)"

lemma array_offset:
  assumes "unat at + k * n \<le> length data" "length data < 2 ^ 64" "i < n" "k < 2 ^ 32"
  shows "unat (at + of_nat i * of_nat k :: u64) = unat at + k * i"
proof -
  have "k * i \<le> k * n" using assms(3) by (intro mult_le_mono2) simp
  then have le: "unat at + k * i \<le> length data" using assms(1) by linarith
  have prod: "(of_nat i * of_nat k :: u64) = of_nat (k * i)" by (simp add: mult.commute)
  have part: "unat (of_nat (k * i) :: u64) = k * i" using le assms(2) by (intro unat_of_nat_u64) simp
  have "unat (at + of_nat (k * i) :: u64) = unat at + unat (of_nat (k * i) :: u64)"
    by (rule unat_plus_bounded) (use le assms(2) part in simp)
  then show ?thesis unfolding prod part .
qed

lemma read_export_name_Inr:
  assumes "read_export_name limits img data names ordinals ordinals_rva count i r = (Inr e, r')"
    "table_reader data little r" "length data < 2 ^ 64" "i < n"
    "unat names + 4 * n \<le> length data" "unat ordinals + 2 * n \<le> length data"
  shows "name_entry limits img data names ordinals count i e \<and> table_reader data little r'"
proof -
  have off: "unat (names + of_nat i * 4) = unat names + 4 * i" "unat (ordinals + of_nat i * 2) = unat ordinals + 2 * i"
    using array_offset [OF assms(5,3,4)] array_offset [OF assms(6,3,4)] by simp_all
  have le: "unat (names + of_nat i * 4) \<le> length data" "unat (ordinals + of_nat i * 2) \<le> length data"
    unfolding off using assms(4-6) by simp_all
  obtain r1 where r1: "table_reader data little r1" "rd_rest r1 = drop (unat (names + of_nat i * 4)) data"
    and p: "pbind (on_fail read_u32 (\<lambda>_. no_error)) (\<lambda>name_rva.
    pbind (rd_try_seek (ordinals + of_nat i * 2)) (\<lambda>_.
    pbind (on_fail (pbind read_u16 (\<lambda>k. pbind (pcheck (\<lambda>_. \<not> unat k \<ge> count)) (\<lambda>_. preturn k)))
      (\<lambda>_. mk_error invalid_symbol (ucast (ordinals_rva + of_nat i * 2)) ''PE export ordinal index is invalid'')) (\<lambda>k.
    plift (case read_rva_string img data (ucast name_rva) (max_string_bytes limits) of
        None \<Rightarrow> Inl (mk_error invalid_string (ucast name_rva) ''PE export name is invalid'')
      | Some name \<Rightarrow> Inr (k, name))))) r1 = (Inr e, r')"
    using assms(1) unfolding read_export_name_def by (rule try_seek_then [OF _ assms(2) le(1)])
  obtain name_rva r2 where v: "read_u32 r1 = (Inr name_rva, r2)"
    and q: "pbind (rd_try_seek (ordinals + of_nat i * 2)) (\<lambda>_.
    pbind (on_fail (pbind read_u16 (\<lambda>k. pbind (pcheck (\<lambda>_. \<not> unat k \<ge> count)) (\<lambda>_. preturn k)))
      (\<lambda>_. mk_error invalid_symbol (ucast (ordinals_rva + of_nat i * 2)) ''PE export ordinal index is invalid'')) (\<lambda>k.
    plift (case read_rva_string img data (ucast name_rva) (max_string_bytes limits) of
        None \<Rightarrow> Inl (mk_error invalid_string (ucast name_rva) ''PE export name is invalid'')
      | Some name \<Rightarrow> Inr (k, name)))) r2 = (Inr e, r')"
    using p by (auto simp: pbind_Inr [where p = "on_fail read_u32 _"])
  have n: "name_rva = word_at data names 4 i" "r2 = rd_advance 4 r1" "4 \<le> length (rd_rest r1)"
    using v table_reader_reader [OF r1(1)] r1(2)
    by (auto simp: read_u32_eq field_def word_at_def off split: if_splits)
  have r2: "table_reader data little r2" using n(2,3) r1(1) by (auto intro: table_reader_advance)
  obtain r3 where r3: "table_reader data little r3" "rd_rest r3 = drop (unat (ordinals + of_nat i * 2)) data"
    and t: "pbind (on_fail (pbind read_u16 (\<lambda>k. pbind (pcheck (\<lambda>_. \<not> unat k \<ge> count)) (\<lambda>_. preturn k)))
      (\<lambda>_. mk_error invalid_symbol (ucast (ordinals_rva + of_nat i * 2)) ''PE export ordinal index is invalid'')) (\<lambda>k.
    plift (case read_rva_string img data (ucast name_rva) (max_string_bytes limits) of
        None \<Rightarrow> Inl (mk_error invalid_string (ucast name_rva) ''PE export name is invalid'')
      | Some name \<Rightarrow> Inr (k, name))) r3 = (Inr e, r')"
    using q by (rule try_seek_then [OF _ r2 le(2)])
  obtain k name where k: "read_u16 r3 = (Inr k, r')" "\<not> unat k \<ge> count"
    and s: "read_rva_string img data (ucast name_rva) (max_string_bytes limits) = Some name" and e: "e = (k, name)"
    using t by (auto simp: pbind_Inr split: option.splits)
  have w: "k = word_at data ordinals 2 i" "r' = rd_advance 2 r3" "2 \<le> length (rd_rest r3)"
    using k(1) table_reader_reader [OF r3(1)] r3(2)
    by (auto simp: read_u16_eq field_def word_at_def off split: if_splits)
  have "table_reader data little r'" using w(2,3) r3(1) by (auto intro: table_reader_advance)
  then show ?thesis using k(2) s n(1) w(1) by (simp add: name_entry_def e)
qed

lemma length_set_name [simp]: "length (set_name e exports) = length exports"
  by (simp add: set_name_def)

lemma read_names_Inr:
  assumes "read_names limits img data names ordinals ordinals_rva i n r exports = (Inr u, exports')"
    "table_reader data little r" "length data < 2 ^ 64"
    "unat names + 4 * (i + n) \<le> length data" "unat ordinals + 2 * (i + n) \<le> length data"
  shows "\<exists>named. length named = n \<and>
    (\<forall>j < n. name_entry limits img data names ordinals (length exports) (i + j) (named ! j)) \<and>
    exports' = fold set_name named exports"
  using assms
proof (induction n arbitrary: i r exports)
  case (Suc n)
  obtain e r1 where e: "read_export_name limits img data names ordinals ordinals_rva (length exports) i r = (Inr e, r1)"
    and rest: "read_names limits img data names ordinals ordinals_rva (Suc i) n r1 (set_name e exports) = (Inr u, exports')"
    using Suc.prems(1) by (auto split: prod.splits sum.splits)
  have "i < i + Suc n" by simp
  note first = read_export_name_Inr [OF e Suc.prems(2,3) this Suc.prems(4,5)]
  have "unat names + 4 * (Suc i + n) \<le> length data" "unat ordinals + 2 * (Suc i + n) \<le> length data"
    using Suc.prems(4,5) by simp_all
  from Suc.IH [OF rest conjunct2 [OF first] Suc.prems(3) this] obtain named where named: "length named = n"
    "\<forall>j < n. name_entry limits img data names ordinals (length exports) (Suc i + j) (named ! j)"
    "exports' = fold set_name named (set_name e exports)" by auto
  have "\<forall>j < Suc n. name_entry limits img data names ordinals (length exports) (i + j) ((e # named) ! j)"
    using first named(2) by (auto simp: less_Suc_eq_0_disj)
  then show ?case using named(1,3) by (intro exI [of _ "e # named"]) simp
qed simp

section \<open>The directory\<close>

text \<open>
  C32. When the ranges the address translator gives lie in the file, a successful parse gives one export per function: export
  \<open>i\<close> has the ordinal \<open>base + i\<close>, the function address with the image base added, without wrapping around, and is a
  forwarder with its target string exactly when the function lies in the export directory; the names are laid over
  these exports in table order at the indices of the ordinal table, all of which are in range. What the list of the caller held
  before survives only as far as names and forwarders are not set.
\<close>

theorem exports_by_tables:
  assumes "parse_exports limits img directory_rva directory_size before = (Inr (), after)"
    "img_file_data img = Some data" "length data < 2 ^ 64" "directory_size \<noteq> 0"
    "\<forall>rva n at. rva_to_file img rva n = Some at \<longrightarrow> unat (fa_offset at) + unat n \<le> length data"
  shows "\<exists>directory d funs exports.
    rva_to_file img directory_rva 40 = Some directory \<and> d = export_directory_at data (unat (fa_offset directory)) \<and>
    unat (ed_name_count d) \<le> unat (ed_function_count d) \<and> ed_function_count d \<le> max_exports limits \<and>
    rva_to_file img (ucast (ed_functions_rva d)) (ucast (ed_function_count d) * 4) = Some funs \<and>
    length exports = unat (ed_function_count d) \<and>
    (\<forall>i < length exports. function_export limits img data directory_rva directory_size
      (ucast (ed_ordinal_base d) + of_nat i) (word_at data (fa_offset funs) 4 i)
      (resize_exports (length exports) before ! i) (exports ! i)) \<and>
    (if ed_name_count d = 0 then after = exports
     else \<exists>names ordinals named.
       rva_to_file img (ucast (ed_names_rva d)) (ucast (ed_name_count d) * 4) = Some names \<and>
       rva_to_file img (ucast (ed_ordinals_rva d)) (ucast (ed_name_count d) * 2) = Some ordinals \<and>
       length named = unat (ed_name_count d) \<and>
       (\<forall>i < length named. name_entry limits img data (fa_offset names) (fa_offset ordinals) (length exports) i (named ! i)) \<and>
       after = fold set_name named exports)"
proof -
  obtain directory d r where dir: "rva_to_file img directory_rva 40 = Some directory"
    and rd: "read_export_directory (fa_offset directory) (reader_of data little) = (Inr d, r)"
    and run: "read_exports limits img data directory_rva directory_size d r before = (Inr (), after)"
    using assms(1,2,4) by (auto simp: parse_exports_def pe_data_def split: if_splits option.splits prod.splits sum.splits)
  note d = read_export_directory_at [OF rd table_reader_of_data [OF assms(3)]]
  have counts: "\<not> (ed_function_count d > max_exports limits \<or> ed_name_count d > ed_function_count d)"
    using run by (auto simp: read_exports_def split: if_splits)
  obtain funs where f: "rva_to_file img (ucast (ed_functions_rva d)) (ucast (ed_function_count d) * 4) = Some funs"
    using run counts by (auto simp: read_exports_def Let_def split: option.splits)
  let ?n = "unat (ed_function_count d)" and ?r = "snd (rd_seek (fa_offset funs) r)"
  let ?names = "rva_to_file img (ucast (ed_names_rva d)) (ucast (ed_name_count d) * 4)"
  let ?ordinals = "rva_to_file img (ucast (ed_ordinals_rva d)) (ucast (ed_name_count d) * 2)"
  have present: "ed_name_count d = 0 \<or> ?names \<noteq> None \<and> ?ordinals \<noteq> None"
    using run counts f by (auto simp: read_exports_def Let_def split: if_splits)
  obtain u r' exports where fs: "read_functions limits img data directory_rva directory_size (ed_ordinal_base d) 0 ?n ?r
      (resize_exports ?n before) = ((Inr u, r'), exports)"
    and rest: "(case (?names, ?ordinals) of
        (Some n, Some k) \<Rightarrow> read_names limits img data (fa_offset n) (fa_offset k) (ed_ordinals_rva d) 0
          (unat (ed_name_count d)) r' exports
      | _ \<Rightarrow> (Inr (), exports)) = (Inr (), after)"
    using run counts f present
    by (auto simp: read_exports_def Let_def split: if_splits prod.splits sum.splits)
  have at: "unat (fa_offset funs) \<le> length data" using assms(5) f by fastforce
  have r: "table_reader data little ?r" "rd_rest ?r = drop (unat (fa_offset funs) + 4 * 0) data"
    using table_reader_seek [OF conjunct2 [OF d] at] by simp_all
  have len: "length (resize_exports ?n before) = ?n" by (simp add: resize_exports_def)
  from read_functions_Inr [OF fs r] len
  have fns: "table_reader data little r'" "length exports = ?n"
    "\<forall>j < ?n. function_export limits img data directory_rva directory_size (ucast (ed_ordinal_base d) + of_nat j)
      (word_at data (fa_offset funs) 4 j) (resize_exports ?n before ! j) (exports ! j)" by auto
  have few: "unat (ed_name_count d) \<le> ?n" "ed_function_count d \<le> max_exports limits"
    using counts by (auto simp: not_less word_le_nat_alt)
  have size4: "unat (ucast (ed_name_count d) * 4 :: u64) = 4 * unat (ed_name_count d)"
    and size2: "unat (ucast (ed_name_count d) * 2 :: u64) = 2 * unat (ed_name_count d)"
    using unat_u32_bound [of "ed_name_count d"] by (simp_all add: unat_word_ariths)
  have "if ed_name_count d = 0 then after = exports
     else \<exists>names ordinals named. ?names = Some names \<and> ?ordinals = Some ordinals \<and>
       length named = unat (ed_name_count d) \<and>
       (\<forall>i < length named. name_entry limits img data (fa_offset names) (fa_offset ordinals) (length exports) i (named ! i)) \<and>
       after = fold set_name named exports"
  proof (cases "ed_name_count d = 0")
    case True
    then show ?thesis using rest by (auto split: option.splits)
  next
    case False
    then obtain names ordinals where no: "?names = Some names" "?ordinals = Some ordinals" using present by auto
    have n: "read_names limits img data (fa_offset names) (fa_offset ordinals) (ed_ordinals_rva d) 0
        (unat (ed_name_count d)) r' exports = (Inr (), after)" using rest no by simp
    have "unat (fa_offset names) + 4 * (0 + unat (ed_name_count d)) \<le> length data"
      "unat (fa_offset ordinals) + 2 * (0 + unat (ed_name_count d)) \<le> length data"
      using assms(5) no size4 size2 by fastforce+
    from read_names_Inr [OF n fns(1) assms(3) this] False no show ?thesis by fastforce
  qed
  then show ?thesis using dir d f few fns(2,3) by (intro exI conjI) auto
qed

text \<open>A directory of two functions with ordinals from 5 on: \<open>g\<close>, and a forwarder to \<open>d.f\<close>.\<close>

definition demo_export_data :: bytes where
  "demo_export_data = [0, 0, 0, 0, 0, 0, 0, 0, 0, 0, 0, 0, 0, 0, 0, 0, 5, 0, 0, 0, 2, 0, 0, 0, 1, 0, 0, 0,
     56, 0, 0, 0, 64, 0, 0, 0, 68, 0, 0, 0,
     0, 32, 0, 0, 70, 0, 0, 0, 74, 0, 0, 0, 0, 0, 100, 46, 102, 0, 103, 0]"

definition demo_export_image :: BinaryImage where
  "demo_export_image = empty_image\<lparr>img_header := empty_header\<lparr>hdr_format := pe_like\<rparr>,
     img_sections := [\<lparr>sec_index = 0, sec_name = ''.edata'', sec_kind = export_section, sec_file_offset = 0,
       sec_file_size = 60, sec_virtual_address = 16, sec_memory_size = 60, sec_alignment = 1,
       sec_entry_size = 0, sec_link = 0, sec_info = 0, sec_permissions = 1\<rparr>],
     img_file_data := Some demo_export_data\<rparr>"

definition demo_exports :: "Export list" where
  "demo_exports = [\<lparr>exp_name = ''g'', exp_address = 0x2000, exp_ordinal = 5, exp_forwarded = False, exp_forward_target = []\<rparr>,
     \<lparr>exp_name = [], exp_address = 70, exp_ordinal = 6, exp_forwarded = True, exp_forward_target = ''d.f''\<rparr>]"

lemma demo_exports_run: "parse_exports demo_limits demo_export_image 16 60 [] = (Inr (), demo_exports)"
  by code_simp

lemma demo_export_ranges:
  "\<forall>rva n at. rva_to_file demo_export_image rva n = Some at \<longrightarrow> unat (fa_offset at) + unat n \<le> length demo_export_data"
  by (auto simp: rva_to_file_def demo_export_image_def empty_image_def empty_header_def section_rva_def Let_def
      checked_add_def range_inside_iff demo_export_data_def split: if_splits)

theorem exports_by_tables_witness:
  "\<exists>(directory :: FileAddress) (exports :: Export list). rva_to_file demo_export_image 16 40 = Some directory \<and>
    length exports = unat (ed_function_count (export_directory_at demo_export_data (unat (fa_offset directory)))) \<and>
    length demo_exports = 2"
proof -
  have d: "img_file_data demo_export_image = Some demo_export_data" by (simp add: demo_export_image_def)
  have n: "length demo_export_data < 2 ^ 64" by (simp add: demo_export_data_def)
  have two: "length demo_exports = 2" by (simp add: demo_exports_def)
  show ?thesis
    using exports_by_tables [OF demo_exports_run d n _ demo_export_ranges] two by auto
qed

end
