(* ===== verification/Pe_Resources.thy ===== *)
theory Pe_Resources
  imports Pe_Imports
begin

unbundle bit_operations_syntax

text \<open>
  \<open>PeResourceParser\<close> of \<open>src/pe_resources.cc\<close>: the walk over the tree of resource directories, with the
  names of its entries and the data they lead to. A failed walk gives no report, so only the report of a
  successful one is kept; every group of reads starts with a seek, so a group starts from a fresh reader.
\<close>

section \<open>Reports\<close>

datatype ResourceKind = resource_unknown | cursor | bitmap | icon | menu | dialog | resource_string_table
  | font | accelerator | raw_data | message_table | version | manifest

record ResourceIdentifier =
  rid_integer :: "u32 option"
  rid_name :: string

record ResourceEntry =
  ren_type :: ResourceIdentifier
  ren_name :: ResourceIdentifier
  ren_language :: ResourceIdentifier
  ren_kind :: ResourceKind
  ren_file_offset :: u64
  ren_size :: u64
  ren_code_page :: u32
  ren_checksum :: u32

record ResourceReport =
  rrp_entries :: "ResourceEntry list"
  rrp_total_bytes :: u64
  rrp_maximum_depth :: u32
  rrp_warnings :: "string list"

definition empty_resources :: ResourceReport where
  "empty_resources = \<lparr>rrp_entries = [], rrp_total_bytes = 0, rrp_maximum_depth = 0, rrp_warnings = []\<rparr>"

definition no_identifier :: ResourceIdentifier where
  "no_identifier = \<lparr>rid_integer = None, rid_name = []\<rparr>"

text \<open>The order of identifiers: those with a name first, the numbered ones by number.\<close>

definition identifier_less :: "ResourceIdentifier \<Rightarrow> ResourceIdentifier \<Rightarrow> bool" where
  "identifier_less a b =
    (if rid_integer a \<noteq> rid_integer b
     then (case (rid_integer a, rid_integer b) of
         (_, None) \<Rightarrow> False | (None, Some _) \<Rightarrow> True | (Some x, Some y) \<Rightarrow> x < y)
     else rid_name a < rid_name b)"

definition resource_kind :: "ResourceIdentifier \<Rightarrow> ResourceKind" where
  "resource_kind i =
    (case rid_integer i of None \<Rightarrow> resource_unknown | Some n \<Rightarrow>
       if n = 1 then cursor else if n = 2 then bitmap else if n = 3 then icon else if n = 4 then menu
       else if n = 5 then dialog else if n = 6 then resource_string_table else if n = 8 then font
       else if n = 9 then accelerator else if n = 10 then raw_data else if n = 11 then message_table
       else if n = 16 then version else if n = 24 then manifest else resource_unknown)"

section \<open>Names\<close>

text \<open>A UTF-16 code unit as UTF-8; a surrogate has none.\<close>

definition utf8_unit :: "u16 \<Rightarrow> bytes option" where
  "utf8_unit c =
    (if c < 0x80 then Some [ucast c]
     else if c < 0x800 then Some [ucast (0xc0 OR drop_bit 6 c), ucast (0x80 OR (c AND 0x3f))]
     else if c < 0xd800 \<or> c > 0xdfff then
       Some [ucast (0xe0 OR drop_bit 12 c), ucast (0x80 OR (drop_bit 6 c AND 0x3f)), ucast (0x80 OR (c AND 0x3f))]
     else None)"

fun read_name_units :: "u64 \<Rightarrow> nat \<Rightarrow> nat \<Rightarrow> (Error, bytes) parse" where
  "read_name_units relative i 0 = preturn []"
| "read_name_units relative i (Suc n) =
    pbind (on_fail read_u16 (\<lambda>_. no_error)) (\<lambda>c.
    pbind (plift (case utf8_unit c of
        None \<Rightarrow> Inl (mk_error invalid_string (relative + 2 + of_nat i * 2) ''resource name contains an unpaired surrogate'')
      | Some bs \<Rightarrow> Inr bs)) (\<lambda>bs.
    pbind (read_name_units relative (Suc i) n) (\<lambda>rest. preturn (bs @ rest))))"

definition resource_name ::
    "bytes \<Rightarrow> u64 \<Rightarrow> u64 \<Rightarrow> u32 \<Rightarrow> u64 \<Rightarrow> Error + ResourceIdentifier" where
  "resource_name data base_file directory_size encoded maximum =
    (if encoded AND 0x80000000 = 0 then Inr \<lparr>rid_integer = Some encoded, rid_name = []\<rparr>
     else
       let relative = ucast (encoded AND 0x7fffffff) in
       if \<not> range_inside relative 2 directory_size
       then Inl (mk_error invalid_string relative ''resource name length is outside directory'')
       else fst (pbind (on_fail (rd_seek (base_file + relative)) (\<lambda>_. no_error)) (\<lambda>_.
         pbind (on_fail read_u16 (\<lambda>_. no_error)) (\<lambda>characters.
         let size = ucast characters * 2 in
         pbind (pguard (\<lambda>_. \<not> (size > maximum \<or> \<not> range_inside (relative + 2) size directory_size))
           (\<lambda>_. mk_error resource_limit relative ''resource UTF-16 name exceeds limit'')) (\<lambda>_.
         pbind (read_name_units relative 0 (unat characters)) (\<lambda>bs.
         preturn \<lparr>rid_integer = None, rid_name = string_of_bytes bs\<rparr>)))) (reader_of data little)))"

section \<open>The walk\<close>

definition read_directory_counts :: "u64 \<Rightarrow> u64 \<Rightarrow> (Error, u16 \<times> u16) parse" where
  "read_directory_counts base_file relative =
    pbind (on_fail (rd_seek (base_file + relative)) (\<lambda>_. mk_error truncated relative ''resource directory header is truncated'')) (\<lambda>_.
    on_fail (pbind read_u32 (\<lambda>characteristics. pbind read_u32 (\<lambda>timestamp. pbind read_u16 (\<lambda>major. pbind read_u16 (\<lambda>minor.
        pbind read_u16 (\<lambda>named. pbind read_u16 (\<lambda>integer. preturn (named, integer))))))))
      (\<lambda>_. mk_error truncated relative ''resource directory fields are truncated''))"

definition read_directory_entry :: "u64 \<Rightarrow> u64 \<Rightarrow> (Error, u32 \<times> u32) parse" where
  "read_directory_entry base_file entry_relative =
    pbind (on_fail (rd_seek (base_file + entry_relative)) (\<lambda>_. no_error)) (\<lambda>_.
    on_fail (pbind read_u32 (\<lambda>encoded_name. pbind read_u32 (\<lambda>encoded_target. preturn (encoded_name, encoded_target))))
      (\<lambda>_. mk_error truncated entry_relative ''resource directory entry is truncated''))"

definition read_data_descriptor :: "u64 \<Rightarrow> u64 \<Rightarrow> (Error, u32 \<times> u32 \<times> u32) parse" where
  "read_data_descriptor base_file target =
    pbind (on_fail (rd_seek (base_file + target)) (\<lambda>_. mk_error invalid_offset target ''resource data entry is outside directory'')) (\<lambda>_.
    on_fail (pbind read_u32 (\<lambda>data_rva. pbind read_u32 (\<lambda>data_size. pbind read_u32 (\<lambda>code_page. pbind read_u32 (\<lambda>reserved.
        preturn (data_rva, data_size, code_page))))))
      (\<lambda>_. mk_error truncated target ''resource data descriptor is truncated''))"

definition path_at :: "nat \<Rightarrow> ResourceIdentifier list \<Rightarrow> ResourceIdentifier" where
  "path_at i path = (if i < length path then path ! i else no_identifier)"

text \<open>The checksum is taken over the bytes of the file at the payload; the source does not check that
  they are in the buffer.\<close>

definition resource_entry :: "bytes \<Rightarrow> ResourceIdentifier list \<Rightarrow> u64 \<Rightarrow> u32 \<Rightarrow> u32 \<Rightarrow> ResourceEntry" where
  "resource_entry data path offset data_size code_page =
    \<lparr>ren_type = path_at 0 path, ren_name = path_at 1 path, ren_language = path_at 2 path,
     ren_kind = resource_kind (path_at 0 path), ren_file_offset = offset, ren_size = ucast data_size,
     ren_code_page = code_page, ren_checksum = crc32 (take (unat data_size) (drop (unat offset) data))\<rparr>"

definition add_resource :: "Limits \<Rightarrow> BinaryImage \<Rightarrow> bytes \<Rightarrow> u64 \<Rightarrow> u64 \<Rightarrow> ResourceIdentifier list \<Rightarrow> u64 \<Rightarrow>
    ResourceReport \<Rightarrow> Error + ResourceReport" where
  "add_resource limits img data base_file directory_size path target rep =
    (if \<not> range_inside target 16 directory_size
     then Inl (mk_error invalid_offset target ''resource data entry is outside directory'')
     else case fst (read_data_descriptor base_file target (reader_of data little)) of
       Inl e \<Rightarrow> Inl e
     | Inr (data_rva, data_size, code_page) \<Rightarrow>
       (case rva_to_file img (ucast data_rva) (ucast data_size) of
          None \<Rightarrow> Inl (mk_error invalid_offset (ucast data_rva) ''resource payload is not file-backed'')
        | Some at \<Rightarrow>
          if length (rrp_entries rep) \<ge> unat (max_sections limits)
          then Inl (mk_error resource_limit target ''resource entry limit exceeded'')
          else let entry = resource_entry data path (fa_offset at) data_size code_page in
            (case checked_add (rrp_total_bytes rep) (ren_size entry) of
               None \<Rightarrow> Inl (mk_error address_overflow (ren_file_offset entry) ''resource byte total overflows'')
             | Some total_bytes \<Rightarrow>
               Inr (rep\<lparr>rrp_total_bytes := total_bytes, rrp_entries := rrp_entries rep @ [entry]\<rparr>))))"

text \<open>The entries from index \<open>i\<close> on, \<open>n\<close> of them; \<open>walk\<close> enters a subdirectory.\<close>

fun walk_entries :: "(u64 \<Rightarrow> ResourceIdentifier list \<Rightarrow> ResourceReport \<Rightarrow> Error + ResourceReport) \<Rightarrow>
    Limits \<Rightarrow> BinaryImage \<Rightarrow> bytes \<Rightarrow> u64 \<Rightarrow> u64 \<Rightarrow> u64 \<Rightarrow> ResourceIdentifier list \<Rightarrow> nat \<Rightarrow> nat \<Rightarrow>
    ResourceReport \<Rightarrow> Error + ResourceReport" where
  "walk_entries walk limits img data base_file directory_size relative path i 0 rep = Inr rep"
| "walk_entries walk limits img data base_file directory_size relative path i (Suc n) rep =
    (case fst (read_directory_entry base_file (relative + 16 + of_nat i * 8) (reader_of data little)) of
       Inl e \<Rightarrow> Inl e
     | Inr (encoded_name, encoded_target) \<Rightarrow>
       (case resource_name data base_file directory_size encoded_name (max_string_bytes limits) of
          Inl e \<Rightarrow> Inl e
        | Inr identifier \<Rightarrow>
          let child_path = path @ [identifier]; target = ucast (encoded_target AND 0x7fffffff) in
          (case (if encoded_target AND 0x80000000 \<noteq> 0 then walk target child_path rep
                 else add_resource limits img data base_file directory_size child_path target rep) of
             Inl e \<Rightarrow> Inl e
           | Inr rep' \<Rightarrow> walk_entries walk limits img data base_file directory_size relative path (Suc i) n rep')))"

text \<open>
  The walk of a directory at \<open>depth\<close>, which may still go down \<open>levels\<close> levels, this one included: at
  \<open>levels = 0\<close> the depth exceeds the limit. \<open>active\<close> are the directories being walked, which on success is
  left as it was.
\<close>

fun walk_directory :: "Limits \<Rightarrow> BinaryImage \<Rightarrow> bytes \<Rightarrow> u64 \<Rightarrow> u64 \<Rightarrow> nat \<Rightarrow> u32 \<Rightarrow> u64 list \<Rightarrow> u64 \<Rightarrow>
    ResourceIdentifier list \<Rightarrow> ResourceReport \<Rightarrow> Error + ResourceReport" where
  "walk_directory limits img data base_file directory_size 0 depth active relative path rep =
    Inl (mk_error resource_limit relative ''resource directory depth limit exceeded'')"
| "walk_directory limits img data base_file directory_size (Suc levels) depth active relative path rep =
    (if relative \<in> set active then Inl (mk_error invalid_section relative ''resource directory contains a cycle'')
     else if \<not> range_inside relative 16 directory_size
     then Inl (mk_error truncated relative ''resource directory header is truncated'')
     else case fst (read_directory_counts base_file relative (reader_of data little)) of
       Inl e \<Rightarrow> Inl e
     | Inr (named, integer) \<Rightarrow>
       let count = ucast named + ucast integer :: u32 in
       if count > max_sections limits \<or> \<not> range_inside (relative + 16) (ucast count * 8) directory_size
       then Inl (mk_error resource_limit relative ''resource directory entry count is invalid'')
       else walk_entries (walk_directory limits img data base_file directory_size levels (depth + 1) (relative # active))
         limits img data base_file directory_size relative path 0 (unat count)
         (rep\<lparr>rrp_maximum_depth := max (rrp_maximum_depth rep) depth\<rparr>))"

definition parse_resources :: "Limits \<Rightarrow> BinaryImage \<Rightarrow> u64 \<Rightarrow> u64 \<Rightarrow> Error + ResourceReport" where
  "parse_resources limits img directory_rva directory_size =
    (case pe_data img of
       None \<Rightarrow> Inl (mk_error invalid_header directory_rva ''resource parser requires a PE image'')
     | Some data \<Rightarrow>
       if directory_size = 0 then Inr empty_resources
       else if directory_size > max_section_bytes limits
       then Inl (mk_error resource_limit directory_rva ''resource directory exceeds byte limit'')
       else case rva_to_file img directory_rva directory_size of
         None \<Rightarrow> Inl (mk_error invalid_offset directory_rva ''resource directory is outside file-backed data'')
       | Some root \<Rightarrow>
         if \<not> range_inside (fa_offset root) directory_size (of_nat (length data))
         then Inl (mk_error invalid_offset directory_rva ''resource directory is outside file-backed data'')
         else walk_directory limits img data (fa_offset root) directory_size (unat (max_debug_depth limits) + 1) 0 [] 0 []
           empty_resources)"

end
