(* ===== verification/Resource_Tree.thy ===== *)
theory Resource_Tree
  imports Pe_Resources Import_Tables
begin

unbundle bit_operations_syntax

text \<open>
  The reports of \<open>PeResourceParser\<close> (\<open>src/pe_resources.cc\<close>) by the tree the directory spells: a tree is
  what can be read in finitely many steps, and the walk succeeds exactly on the trees within the limits.
\<close>

section \<open>Reads that succeed\<close>

lemma chain_reads:
  assumes "reader_ok r"
  shows "n + 2 \<le> length (rd_rest r) \<Longrightarrow> pbind read_u16 f2 (rd_advance n r) =
      f2 (field (rd_order r) n 2 (rd_rest r)) (rd_advance (n + 2) r)"
    and "n + 4 \<le> length (rd_rest r) \<Longrightarrow> pbind read_u32 f4 (rd_advance n r) =
      f4 (field (rd_order r) n 4 (rd_rest r)) (rd_advance (n + 4) r)"
proof -
  have ok: "reader_ok (rd_advance n r)" "rd_rest (rd_advance n r) = drop n (rd_rest r)"
    if "n \<le> length (rd_rest r)"
    using assms that by (simp_all add: reader_ok_advance rd_rest_advance)
  show "pbind read_u16 f2 (rd_advance n r) = f2 (field (rd_order r) n 2 (rd_rest r)) (rd_advance (n + 2) r)"
    if l: "n + 2 \<le> length (rd_rest r)"
  proof -
    have n: "n \<le> length (rd_rest r)" "\<not> length (drop n (rd_rest r)) < 2" using l by simp_all
    show ?thesis
      unfolding pbind_def read_u16_eq [OF ok(1) [OF n(1)], unfolded ok(2) [OF n(1)] if_not_P [OF n(2)]]
      by (simp only: prod.case sum.case field_def rd_advance_simps rd_advance_advance)
  qed
  show "pbind read_u32 f4 (rd_advance n r) = f4 (field (rd_order r) n 4 (rd_rest r)) (rd_advance (n + 4) r)"
    if l: "n + 4 \<le> length (rd_rest r)"
  proof -
    have n: "n \<le> length (rd_rest r)" "\<not> length (drop n (rd_rest r)) < 4" using l by simp_all
    show ?thesis
      unfolding pbind_def read_u32_eq [OF ok(1) [OF n(1)], unfolded ok(2) [OF n(1)] if_not_P [OF n(2)]]
      by (simp only: prod.case sum.case field_def rd_advance_simps rd_advance_advance)
  qed
qed

text \<open>The bytes at an offset of the directory.\<close>

definition bytes_at :: "bytes \<Rightarrow> u64 \<Rightarrow> u64 \<Rightarrow> bytes" where
  "bytes_at data base_file relative = drop (unat base_file + unat relative) data"

lemma range_offset:
  assumes "range_inside base_file directory_size (of_nat (length data))" "length data < 2 ^ 64"
    "range_inside relative n directory_size"
  shows "unat (base_file + relative) = unat base_file + unat relative"
    "unat base_file + unat relative + unat n \<le> length data"
proof -
  have len: "unat (of_nat (length data) :: u64) = length data" using assms(2) by (intro unat_of_nat_u64) simp
  have b: "unat base_file + unat directory_size \<le> length data"
    using assms(1) len by (simp add: range_inside_iff del: unsigned_of_nat)
  have r: "unat relative + unat n \<le> unat directory_size" using assms(3) by (simp add: range_inside_iff)
  show "unat base_file + unat relative + unat n \<le> length data" using b r by simp
  then show "unat (base_file + relative) = unat base_file + unat relative"
    using assms(2) by (intro unat_plus_bounded) simp
qed

lemma seek_at:
  assumes "range_inside base_file directory_size (of_nat (length data))" "length data < 2 ^ 64"
    "range_inside relative n directory_size"
  obtains r where "rd_seek (base_file + relative) (reader_of data little) = (Inr (), r)" "reader_ok r"
    "rd_order r = little" "rd_rest r = bytes_at data base_file relative" "unat n \<le> length (rd_rest r)"
proof -
  note off = range_offset [OF assms]
  have at: "unat (base_file + relative) \<le> length data" using off by simp
  note tr = table_reader_seek [OF table_reader_of_data [OF assms(2), of little] at]
  show ?thesis
    by (rule that [of "(reader_of data little)\<lparr>rd_position := base_file + relative\<rparr>"])
      (use tr off table_reader_reader in \<open>auto simp: bytes_at_def\<close>)
qed

lemma seek_step:
  "rd_seek at r = (Inr (), r') \<Longrightarrow> pbind (on_fail (rd_seek at) e) f r = f () r'"
  by (simp add: pbind_def on_fail_def)

lemma fst_on_fail: "p r = (Inr x, r') \<Longrightarrow> fst (on_fail p e r) = Inr x"
  by (simp add: on_fail_def)

lemma read_counts_at:
  assumes "range_inside base_file directory_size (of_nat (length data))" "length data < 2 ^ 64"
    "range_inside relative 16 directory_size"
  shows "fst (read_directory_counts base_file relative (reader_of data little)) =
    Inr (field little 12 2 (bytes_at data base_file relative), field little 14 2 (bytes_at data base_file relative))"
proof -
  obtain r where r: "rd_seek (base_file + relative) (reader_of data little) = (Inr (), r)" "reader_ok r"
    "rd_order r = little" "rd_rest r = bytes_at data base_file relative" "unat (16 :: u64) \<le> length (rd_rest r)"
    by (rule seek_at [OF assms])
  have "pbind read_u32 (\<lambda>a. pbind read_u32 (\<lambda>b. pbind read_u16 (\<lambda>c. pbind read_u16 (\<lambda>d.
      pbind read_u16 (\<lambda>named. pbind read_u16 (\<lambda>integer. preturn (named, integer))))))) (rd_advance 0 r) =
    (Inr (field little 12 2 (rd_rest r), field little 14 2 (rd_rest r)), rd_advance 16 r)"
    using r(3,5) by (simp add: chain_reads [OF r(2)] preturn_def del: rd_advance_0)
  from fst_on_fail [where p = "pbind _ _", OF this [unfolded rd_advance_0]] show ?thesis
    unfolding read_directory_counts_def seek_step [OF r(1)] r(4) .
qed

lemma read_entry_at:
  assumes "range_inside base_file directory_size (of_nat (length data))" "length data < 2 ^ 64"
    "range_inside relative 8 directory_size"
  shows "fst (read_directory_entry base_file relative (reader_of data little)) =
    Inr (field little 0 4 (bytes_at data base_file relative), field little 4 4 (bytes_at data base_file relative))"
proof -
  obtain r where r: "rd_seek (base_file + relative) (reader_of data little) = (Inr (), r)" "reader_ok r"
    "rd_order r = little" "rd_rest r = bytes_at data base_file relative" "unat (8 :: u64) \<le> length (rd_rest r)"
    by (rule seek_at [OF assms])
  have "pbind read_u32 (\<lambda>a. pbind read_u32 (\<lambda>b. preturn (a, b))) (rd_advance 0 r) =
    (Inr (field little 0 4 (rd_rest r), field little 4 4 (rd_rest r)), rd_advance 8 r)"
    using r(3,5) by (simp add: chain_reads [OF r(2)] preturn_def del: rd_advance_0)
  from fst_on_fail [where p = "pbind _ _", OF this [unfolded rd_advance_0]] show ?thesis
    unfolding read_directory_entry_def seek_step [OF r(1)] r(4) .
qed

lemma read_data_at:
  assumes "range_inside base_file directory_size (of_nat (length data))" "length data < 2 ^ 64"
    "range_inside target 16 directory_size"
  shows "fst (read_data_descriptor base_file target (reader_of data little)) =
    Inr (field little 0 4 (bytes_at data base_file target), field little 4 4 (bytes_at data base_file target),
      field little 8 4 (bytes_at data base_file target))"
proof -
  obtain r where r: "rd_seek (base_file + target) (reader_of data little) = (Inr (), r)" "reader_ok r"
    "rd_order r = little" "rd_rest r = bytes_at data base_file target" "unat (16 :: u64) \<le> length (rd_rest r)"
    by (rule seek_at [OF assms])
  have "pbind read_u32 (\<lambda>a. pbind read_u32 (\<lambda>b. pbind read_u32 (\<lambda>c. pbind read_u32 (\<lambda>d. preturn (a, b, c)))))
      (rd_advance 0 r) =
    (Inr (field little 0 4 (rd_rest r), field little 4 4 (rd_rest r), field little 8 4 (rd_rest r)), rd_advance 16 r)"
    using r(3,5) by (simp add: chain_reads [OF r(2)] preturn_def del: rd_advance_0)
  from fst_on_fail [where p = "pbind _ _", OF this [unfolded rd_advance_0]] show ?thesis
    unfolding read_data_descriptor_def seek_step [OF r(1)] r(4) .
qed

section \<open>Trees\<close>

datatype ResourceNode =
    ResourceData u64 u32 u32 \<comment> \<open>offset of the payload in the file, size, code page\<close>
  | ResourceDirectory "(ResourceIdentifier \<times> ResourceNode) list"

text \<open>Directories on the longest way down.\<close>

fun height :: "ResourceNode \<Rightarrow> nat" where
  "height (ResourceData at len page) = 0"
| "height (ResourceDirectory es) = Suc (foldr (\<lambda>e. max (height (snd e))) es 0)"

fun leaves :: "bytes \<Rightarrow> ResourceIdentifier list \<Rightarrow> ResourceNode \<Rightarrow> ResourceEntry list" where
  "leaves data path (ResourceData at len page) = [resource_entry data path at len page]"
| "leaves data path (ResourceDirectory es) = concat (map (\<lambda>e. leaves data (path @ [fst e]) (snd e)) es)"

text \<open>What the walk does to a report.\<close>

fun collect :: "bytes \<Rightarrow> ResourceIdentifier list \<Rightarrow> u32 \<Rightarrow> ResourceNode \<Rightarrow> ResourceReport \<Rightarrow> ResourceReport" where
  "collect data path depth (ResourceData at len page) rep =
    rep\<lparr>rrp_total_bytes := rrp_total_bytes rep + ucast len,
      rrp_entries := rrp_entries rep @ [resource_entry data path at len page]\<rparr>"
| "collect data path depth (ResourceDirectory es) rep =
    fold (\<lambda>e. collect data (path @ [fst e]) (depth + 1) (snd e)) es
      (rep\<lparr>rrp_maximum_depth := max (rrp_maximum_depth rep) depth\<rparr>)"

text \<open>\<open>spells t n\<close>: the target \<open>t\<close> of an entry spells the node \<open>n\<close>; \<open>spells_directory relative es\<close>: so does the
  directory at \<open>relative\<close> its entries \<open>es\<close>.\<close>

inductive spells :: "Limits \<Rightarrow> BinaryImage \<Rightarrow> bytes \<Rightarrow> u64 \<Rightarrow> u64 \<Rightarrow> u32 \<Rightarrow> ResourceNode \<Rightarrow> bool"
  and spells_directory :: "Limits \<Rightarrow> BinaryImage \<Rightarrow> bytes \<Rightarrow> u64 \<Rightarrow> u64 \<Rightarrow> u64 \<Rightarrow> (ResourceIdentifier \<times> ResourceNode) list \<Rightarrow> bool"
  for limits img data base_file directory_size where
  data: "t AND 0x80000000 = 0 \<Longrightarrow> target = ucast (t AND 0x7fffffff) \<Longrightarrow> range_inside target 16 directory_size \<Longrightarrow>
    bs = bytes_at data base_file target \<Longrightarrow>
    rva_to_file img (ucast (field little 0 4 bs :: u32)) (ucast (field little 4 4 bs :: u32)) = Some at \<Longrightarrow>
    spells limits img data base_file directory_size t (ResourceData (fa_offset at) (field little 4 4 bs) (field little 8 4 bs))"
| directory: "t AND 0x80000000 \<noteq> 0 \<Longrightarrow>
    spells_directory limits img data base_file directory_size (ucast (t AND 0x7fffffff)) es \<Longrightarrow>
    spells limits img data base_file directory_size t (ResourceDirectory es)"
| entries: "range_inside relative 16 directory_size \<Longrightarrow> bs = bytes_at data base_file relative \<Longrightarrow>
    length es = unat (field little 12 2 bs :: u16) + unat (field little 14 2 bs :: u16) \<Longrightarrow>
    length es \<le> unat (max_sections limits) \<Longrightarrow> unat relative + 16 + 8 * length es \<le> unat directory_size \<Longrightarrow>
    (\<And>i. i < length es \<Longrightarrow>
      resource_name data base_file directory_size (field little (16 + 8 * i) 4 bs) (max_string_bytes limits) = Inr (fst (es ! i))) \<Longrightarrow>
    (\<And>i. i < length es \<Longrightarrow>
      spells limits img data base_file directory_size (field little (20 + 8 * i) 4 bs) (snd (es ! i))) \<Longrightarrow>
    spells_directory limits img data base_file directory_size relative es"

inductive_cases spells_dataE: "spells limits img data base_file directory_size t (ResourceData at len page)"
inductive_cases spells_directoryE: "spells limits img data base_file directory_size t (ResourceDirectory es)"
inductive_cases spells_entriesE: "spells_directory limits img data base_file directory_size relative es"

lemma height_entry: "e \<in> set es \<Longrightarrow> height (snd e) < height (ResourceDirectory es)"
proof -
  assume "e \<in> set es"
  then have "height (snd e) \<le> foldr (\<lambda>e. max (height (snd e))) es 0" by (induction es) auto
  then show ?thesis by simp
qed

lemma height_le: "height (ResourceDirectory es) \<le> Suc n \<longleftrightarrow> (\<forall>e \<in> set es. height (snd e) \<le> n)"
proof -
  have "foldr (\<lambda>e. max (height (snd e))) es 0 \<le> n \<longleftrightarrow> (\<forall>e \<in> set es. height (snd e) \<le> n)"
    by (induction es) auto
  then show ?thesis by simp
qed

text \<open>A directory spells one tree only, so a directory inside itself spells none.\<close>

lemma spells_unique:
  "spells limits img data base_file directory_size t n \<Longrightarrow>
    (\<forall>n'. spells limits img data base_file directory_size t n' \<longrightarrow> n' = n)"
  "spells_directory limits img data base_file directory_size relative es \<Longrightarrow>
    (\<forall>es'. spells_directory limits img data base_file directory_size relative es' \<longrightarrow> es' = es)"
proof (induction rule: spells_spells_directory.inducts)
  case (data t target bs at)
  show ?case
  proof (intro allI impI)
    fix n' assume "spells limits img data base_file directory_size t n'"
    then show "n' = ResourceData (fa_offset at) (field little 4 4 bs) (field little 8 4 bs)"
      by (cases rule: spells.cases) (use data in simp_all)
  qed
next
  case (directory t es)
  show ?case
  proof (intro allI impI)
    fix n' assume "spells limits img data base_file directory_size t n'"
    then obtain es' where n': "n' = ResourceDirectory es'"
      and es': "spells_directory limits img data base_file directory_size (ucast (t AND 0x7fffffff)) es'"
      by (cases rule: spells.cases) (use directory(1) in simp_all)
    have "es' = es" using directory(3) es' by blast
    then show "n' = ResourceDirectory es" by (simp only: n')
  qed
next
  case (entries relative bs es)
  show ?case
  proof (intro allI impI)
    fix es'
    assume other: "spells_directory limits img data base_file directory_size relative es'"
    let ?bs = "bytes_at data base_file relative"
    have o: "length es' = unat (field little 12 2 ?bs :: u16) + unat (field little 14 2 ?bs :: u16)"
      "i < length es' \<Longrightarrow> resource_name data base_file directory_size (field little (16 + 8 * i) 4 ?bs)
        (max_string_bytes limits) = Inr (fst (es' ! i))"
      "i < length es' \<Longrightarrow> spells limits img data base_file directory_size (field little (20 + 8 * i) 4 ?bs) (snd (es' ! i))"
for i using other by (cases rule: spells_directory.cases; simp)+
    have l: "length es' = length es" using o(1) entries(2,8) by simp
    have "es' ! i = es ! i" if i: "i < length es" for i
    proof (rule prod_eqI)
      have "Inr (fst (es' ! i)) = (Inr (fst (es ! i)) :: Error + ResourceIdentifier)"
        using o(2) [of i] entries(5) [OF i] i l unfolding entries(2) by simp
      then show "fst (es' ! i) = fst (es ! i)" by simp
      show "snd (es' ! i) = snd (es ! i)"
        using o(3) [of i] entries(7) [OF i] i unfolding entries(2) l by blast
    qed
    with l show "es' = es" by (intro nth_equalityI) simp_all
  qed
qed

section \<open>Reports of trees\<close>

definition bytes_of :: "ResourceEntry list \<Rightarrow> nat" where
  "bytes_of es = (\<Sum>e \<leftarrow> es. unat (ren_size e))"

text \<open>The report has room for the entries within the limit and the 64 bits of the total.\<close>

definition room :: "Limits \<Rightarrow> ResourceReport \<Rightarrow> ResourceEntry list \<Rightarrow> bool" where
  "room limits rep es \<longleftrightarrow> length (rrp_entries rep) + length es \<le> unat (max_sections limits) \<and>
     unat (rrp_total_bytes rep) + bytes_of es < 2 ^ 64"

lemma bytes_of_simps [simp]: "bytes_of [] = 0" "bytes_of (e # es) = unat (ren_size e) + bytes_of es"
  "bytes_of (es @ fs) = bytes_of es + bytes_of fs"
  by (simp_all add: bytes_of_def)

lemma collect_entries: "rrp_entries (collect data path depth n rep) = rrp_entries rep @ leaves data path n"
proof (induction data path depth n rep rule: collect.induct)
  case (2 data path depth es rep)
  have "rrp_entries (fold (\<lambda>e. collect data (path @ [fst e]) (depth + 1) (snd e)) fs rep') =
      rrp_entries rep' @ concat (map (\<lambda>e. leaves data (path @ [fst e]) (snd e)) fs)" if "set fs \<subseteq> set es" for fs rep'
    using that
  proof (induction fs arbitrary: rep')
    case (Cons e fs)
    then show ?case using 2 by simp
  qed simp
  from this [of es] show ?case by simp
qed simp

lemma collect_warnings: "rrp_warnings (collect data path depth n rep) = rrp_warnings rep"
proof (induction data path depth n rep rule: collect.induct)
  case (2 data path depth es rep)
  have "rrp_warnings (fold (\<lambda>e. collect data (path @ [fst e]) (depth + 1) (snd e)) fs rep') = rrp_warnings rep'"
    if "set fs \<subseteq> set es" for fs rep'
    using that
  proof (induction fs arbitrary: rep')
    case (Cons e fs)
    then show ?case using 2 by simp
  qed simp
  from this [of es] show ?case by simp
qed simp

lemma collect_bytes: "rrp_total_bytes (collect data path depth n rep) = rrp_total_bytes rep + of_nat (bytes_of (leaves data path n))"
proof (induction data path depth n rep rule: collect.induct)
  case (1 data path depth at len page rep)
  show ?case by (simp add: resource_entry_def)
next
  case (2 data path depth es rep)
  have "rrp_total_bytes (fold (\<lambda>e. collect data (path @ [fst e]) (depth + 1) (snd e)) fs rep') =
      rrp_total_bytes rep' + of_nat (bytes_of (concat (map (\<lambda>e. leaves data (path @ [fst e]) (snd e)) fs)))"
    if "set fs \<subseteq> set es" for fs rep'
    using that
  proof (induction fs arbitrary: rep')
    case (Cons e fs)
    then show ?case using 2 by (simp add: add.assoc)
  qed simp
  from this [of es] show ?case by simp
qed

lemma room_total: "room limits rep es \<Longrightarrow> unat (rrp_total_bytes rep + of_nat (bytes_of es)) = unat (rrp_total_bytes rep) + bytes_of es"
proof -
  assume r: "room limits rep es"
  then have "unat (of_nat (bytes_of es) :: u64) = bytes_of es" by (intro unat_of_nat_u64) (simp add: room_def)
  then show ?thesis using r by (intro trans [OF unat_plus_bounded]) (simp_all add: room_def)
qed

lemma room_append:
  "room limits rep (leaves data path n @ fs) \<longleftrightarrow>
    room limits rep (leaves data path n) \<and> room limits (collect data path depth n rep) fs"
proof (cases "room limits rep (leaves data path n)")
  case True
  then show ?thesis
    using room_total [OF True] by (auto simp: room_def collect_entries collect_bytes)
qed (auto simp: room_def)

lemma room_Nil: "room limits rep [] \<longleftrightarrow> length (rrp_entries rep) \<le> unat (max_sections limits)"
  using unat_u64_bound [of "rrp_total_bytes rep"] by (simp add: room_def)

section \<open>The walk\<close>

definition in_file :: "bytes \<Rightarrow> u64 \<Rightarrow> u64 \<Rightarrow> bool" where
  "in_file data base_file directory_size \<longleftrightarrow>
    range_inside base_file directory_size (of_nat (length data)) \<and> length data < 2 ^ 64"

lemma checked_add_if: "checked_add a b = (if unat a + unat b < 2 ^ 64 then Some (a + b) else None)"
proof (cases "checked_add a b")
  case None
  then show ?thesis using add_op.None_iff [of a b] by simp
next
  case (Some c)
  then have "unat a + unat b = unat c" using add_op.SomeD [OF Some] by simp
  then have "unat a + unat b < 2 ^ 64" using unat_u64_bound [of c] by simp
  moreover have "c = a + b" using Some by (auto simp: checked_add_def split: if_splits)
  ultimately show ?thesis using Some by simp
qed

lemma add_resource_Inr:
  assumes "in_file data base_file directory_size" "t AND 0x80000000 = 0" "room limits rep []"
  shows "add_resource limits img data base_file directory_size path (ucast (t AND 0x7fffffff)) rep = Inr rep' \<longleftrightarrow>
    (\<exists>n. spells limits img data base_file directory_size t n \<and> height n = 0 \<and> room limits rep (leaves data path n) \<and>
      rep' = collect data path depth n rep)"
proof -
  let ?target = "ucast (t AND 0x7fffffff) :: u64"
  let ?bs = "bytes_at data base_file ?target"
  have h: "range_inside base_file directory_size (of_nat (length data))" "length data < 2 ^ 64"
    using assms(1) by (simp_all add: in_file_def)
  have sp: "spells limits img data base_file directory_size t n \<longleftrightarrow>
      range_inside ?target 16 directory_size \<and>
      (\<exists>at. rva_to_file img (ucast (field little 0 4 ?bs :: u32)) (ucast (field little 4 4 ?bs :: u32)) = Some at \<and>
        n = ResourceData (fa_offset at) (field little 4 4 ?bs) (field little 8 4 ?bs))" for n
    using assms(2) by (auto elim: spells.cases intro: spells_spells_directory.data)
  show ?thesis
  proof (cases "range_inside ?target 16 directory_size")
    case True
    note rd = read_data_at [OF h True]
    show ?thesis
      using True assms(3) rd
      by (auto simp: add_resource_def sp room_def Let_def resource_entry_def checked_add_if split: option.splits if_splits)
  next
    case False
    then show ?thesis by (auto simp: add_resource_def sp)
  qed
qed

lemma no_room_before: "room limits rep es \<Longrightarrow> room limits rep []"
  using unat_u64_bound [of "rrp_total_bytes rep"] by (simp add: room_def)

lemma field_bytes_at:
  assumes "unat (relative + of_nat k :: u64) = unat relative + k"
  shows "field little n m (bytes_at data base_file (relative + of_nat k)) = field little (k + n) m (bytes_at data base_file relative)"
  by (simp add: field_def bytes_at_def assms ac_simps)

text \<open>One entry of a directory: its name and its target.\<close>

definition entry_spelled ::
    "Limits \<Rightarrow> BinaryImage \<Rightarrow> bytes \<Rightarrow> u64 \<Rightarrow> u64 \<Rightarrow> bytes \<Rightarrow> nat \<Rightarrow> ResourceIdentifier \<times> ResourceNode \<Rightarrow> bool" where
  "entry_spelled limits img data base_file directory_size bs i e \<longleftrightarrow>
    resource_name data base_file directory_size (field little (16 + 8 * i) 4 bs) (max_string_bytes limits) = Inr (fst e) \<and>
    spells limits img data base_file directory_size (field little (20 + 8 * i) 4 bs) (snd e)"

lemma entry_read:
  assumes "in_file data base_file directory_size" "unat relative + 16 + 8 * (i + 1) \<le> unat directory_size"
  shows "fst (read_directory_entry base_file (relative + 16 + of_nat i * 8) (reader_of data little)) =
    Inr (field little (16 + 8 * i) 4 (bytes_at data base_file relative), field little (20 + 8 * i) 4 (bytes_at data base_file relative))"
proof -
  let ?k = "16 + 8 * i"
  have k: "relative + 16 + of_nat i * 8 = relative + of_nat ?k" by (simp add: mult.commute)
  have part: "unat (of_nat ?k :: u64) = ?k"
    using assms(2) unat_u64_bound [of directory_size] by (intro unat_of_nat_u64) simp
  have "unat (relative + of_nat ?k) = unat relative + unat (of_nat ?k :: u64)"
    using assms(2) unat_u64_bound [of directory_size] by (intro unat_plus_bounded) (simp add: part del: of_nat_add of_nat_mult)
  then have at: "unat (relative + of_nat ?k) = unat relative + ?k" unfolding part .
  have inside: "range_inside (relative + of_nat ?k) 8 directory_size"
    unfolding range_inside_iff at using assms(2) by simp
  have h: "range_inside base_file directory_size (of_nat (length data))" "length data < 2 ^ 64"
    using assms(1) by (simp_all add: in_file_def)
  show ?thesis
    unfolding k read_entry_at [OF h inside] field_bytes_at [OF at] by (simp add: add.commute)
qed

definition step_into ::
    "(u64 \<Rightarrow> ResourceIdentifier list \<Rightarrow> ResourceReport \<Rightarrow> Error + ResourceReport) \<Rightarrow>
      Limits \<Rightarrow> BinaryImage \<Rightarrow> bytes \<Rightarrow> u64 \<Rightarrow> u64 \<Rightarrow> u32 \<Rightarrow> ResourceIdentifier list \<Rightarrow> ResourceReport \<Rightarrow> Error + ResourceReport" where
  "step_into walk limits img data base_file directory_size t path rep =
    (if t AND 0x80000000 \<noteq> 0 then walk (ucast (t AND 0x7fffffff)) path rep
     else add_resource limits img data base_file directory_size path (ucast (t AND 0x7fffffff)) rep)"

lemma walk_entries_Suc:
  assumes "in_file data base_file directory_size" "unat relative + 16 + 8 * (i + 1) \<le> unat directory_size"
  shows "walk_entries walk limits img data base_file directory_size relative path i (Suc n) rep = Inr rep' \<longleftrightarrow>
    (\<exists>ident rep1.
      resource_name data base_file directory_size (field little (16 + 8 * i) 4 (bytes_at data base_file relative))
        (max_string_bytes limits) = Inr ident \<and>
      step_into walk limits img data base_file directory_size (field little (20 + 8 * i) 4 (bytes_at data base_file relative))
        (path @ [ident]) rep = Inr rep1 \<and>
      walk_entries walk limits img data base_file directory_size relative path (Suc i) n rep1 = Inr rep')"
  using entry_read [OF assms] by (simp add: step_into_def Let_def split: sum.split)

lemma walk_entries_sound:
  assumes "in_file data base_file directory_size"
    and step: "\<And>t path rep rep'. step_into walk limits img data base_file directory_size t path rep = Inr rep' \<Longrightarrow>
      room limits rep [] \<Longrightarrow> \<exists>n. spells limits img data base_file directory_size t n \<and> height n \<le> levels \<and>
        room limits rep (leaves data path n) \<and> rep' = collect data path depth n rep"
  shows "walk_entries walk limits img data base_file directory_size relative path i k rep = Inr rep' \<Longrightarrow>
    unat relative + 16 + 8 * (i + k) \<le> unat directory_size \<Longrightarrow> room limits rep [] \<Longrightarrow>
    \<exists>es. length es = k \<and>
      (\<forall>j < k. entry_spelled limits img data base_file directory_size (bytes_at data base_file relative) (i + j) (es ! j)) \<and>
      (\<forall>e \<in> set es. height (snd e) \<le> levels) \<and>
      room limits rep (concat (map (\<lambda>e. leaves data (path @ [fst e]) (snd e)) es)) \<and>
      rep' = fold (\<lambda>e. collect data (path @ [fst e]) depth (snd e)) es rep"
proof (induction k arbitrary: i rep)
  case (Suc k)
  have r: "unat relative + 16 + 8 * (i + 1) \<le> unat directory_size" using Suc.prems(2) by simp
  obtain ident rep1 where
    name: "resource_name data base_file directory_size (field little (16 + 8 * i) 4 (bytes_at data base_file relative))
        (max_string_bytes limits) = Inr ident"
    and into: "step_into walk limits img data base_file directory_size
        (field little (20 + 8 * i) 4 (bytes_at data base_file relative)) (path @ [ident]) rep = Inr rep1"
    and rest: "walk_entries walk limits img data base_file directory_size relative path (Suc i) k rep1 = Inr rep'"
    using Suc.prems(1) unfolding walk_entries_Suc [OF assms(1) r] by blast
  obtain n where n: "spells limits img data base_file directory_size
      (field little (20 + 8 * i) 4 (bytes_at data base_file relative)) n" "height n \<le> levels"
    "room limits rep (leaves data (path @ [ident]) n)" "rep1 = collect data (path @ [ident]) depth n rep"
    using step [OF into Suc.prems(3)] by blast
  have room1: "room limits rep1 []"
    using n(3) room_append [of limits rep data "path @ [ident]" n "[]" depth] by (simp add: n(4))
  have r': "unat relative + 16 + 8 * (Suc i + k) \<le> unat directory_size" using Suc.prems(2) by simp
  obtain es where es: "length es = k"
    "\<forall>j < k. entry_spelled limits img data base_file directory_size (bytes_at data base_file relative) (Suc i + j) (es ! j)"
    "\<forall>e \<in> set es. height (snd e) \<le> levels"
    "room limits rep1 (concat (map (\<lambda>e. leaves data (path @ [fst e]) (snd e)) es))"
    "rep' = fold (\<lambda>e. collect data (path @ [fst e]) depth (snd e)) es rep1"
    using Suc.IH [OF rest r' room1] by blast
  have "room limits rep (leaves data (path @ [ident]) n @ concat (map (\<lambda>e. leaves data (path @ [fst e]) (snd e)) es))"
    using n(3) es(4) room_append [of limits rep data "path @ [ident]" n _ depth] by (simp add: n(4))
  then show ?case
    using es name n by (intro exI [of _ "(ident, n) # es"]) (auto simp: less_Suc_eq_0_disj entry_spelled_def)
qed auto

lemma walk_entries_complete:
  assumes "in_file data base_file directory_size"
  shows "(\<And>j path rep. j < length es \<Longrightarrow> room limits rep (leaves data path (snd (es ! j))) \<Longrightarrow>
      step_into walk limits img data base_file directory_size
        (field little (20 + 8 * (i + j)) 4 (bytes_at data base_file relative)) path rep =
      Inr (collect data path depth (snd (es ! j)) rep)) \<Longrightarrow>
    (\<And>j. j < length es \<Longrightarrow> entry_spelled limits img data base_file directory_size (bytes_at data base_file relative) (i + j) (es ! j)) \<Longrightarrow>
    unat relative + 16 + 8 * (i + length es) \<le> unat directory_size \<Longrightarrow>
    room limits rep (concat (map (\<lambda>e. leaves data (path @ [fst e]) (snd e)) es)) \<Longrightarrow>
    walk_entries walk limits img data base_file directory_size relative path i (length es) rep =
      Inr (fold (\<lambda>e. collect data (path @ [fst e]) depth (snd e)) es rep)"
proof (induction es arbitrary: i rep)
  case (Cons e es)
  have r: "unat relative + 16 + 8 * (i + 1) \<le> unat directory_size" using Cons.prems(3) by simp
  let ?path = "path @ [fst e]"
  have rm: "room limits rep (leaves data ?path (snd e))"
    "room limits (collect data ?path depth (snd e) rep) (concat (map (\<lambda>e. leaves data (path @ [fst e]) (snd e)) es))"
    using Cons.prems(4) room_append [of limits rep data ?path "snd e" _ depth] by simp_all
  have name: "resource_name data base_file directory_size (field little (16 + 8 * i) 4 (bytes_at data base_file relative))
      (max_string_bytes limits) = Inr (fst e)"
    using Cons.prems(2) [of 0] by (simp add: entry_spelled_def)
  have into: "step_into walk limits img data base_file directory_size
      (field little (20 + 8 * i) 4 (bytes_at data base_file relative)) ?path rep = Inr (collect data ?path depth (snd e) rep)"
    using Cons.prems(1) [of 0 rep ?path] rm(1) by simp
  have "walk_entries walk limits img data base_file directory_size relative path (Suc i) (length es)
      (collect data ?path depth (snd e) rep) =
    Inr (fold (\<lambda>e. collect data (path @ [fst e]) depth (snd e)) es (collect data ?path depth (snd e) rep))"
  proof (rule Cons.IH [OF _ _ _ rm(2)])
    show "step_into walk limits img data base_file directory_size
        (field little (20 + 8 * (Suc i + j)) 4 (bytes_at data base_file relative)) path' rep' =
      Inr (collect data path' depth (snd (es ! j)) rep')"
      if "j < length es" "room limits rep' (leaves data path' (snd (es ! j)))" for j path' rep'
      using Cons.prems(1) [of "Suc j" rep' path'] that by simp
    show "entry_spelled limits img data base_file directory_size (bytes_at data base_file relative) (Suc i + j) (es ! j)"
      if "j < length es" for j using Cons.prems(2) [of "Suc j"] that by simp
    show "unat relative + 16 + 8 * (Suc i + length es) \<le> unat directory_size" using Cons.prems(3) by simp
  qed
  then have "walk_entries walk limits img data base_file directory_size relative path i (Suc (length es)) rep =
      Inr (fold (\<lambda>e. collect data (path @ [fst e]) depth (snd e)) es (collect data ?path depth (snd e) rep))"
    unfolding walk_entries_Suc [OF assms r] using name into by blast
  then show ?case by simp
qed simp

lemma directory_counts:
  fixes relative directory_size :: u64 and named integer :: u16
  assumes "range_inside relative 16 directory_size"
  shows "unat (ucast named + ucast integer :: u32) = unat named + unat integer"
    "range_inside (relative + 16) (ucast (ucast named + ucast integer :: u32) * 8) directory_size \<longleftrightarrow>
      unat relative + 16 + 8 * (unat named + unat integer) \<le> unat directory_size"
proof -
  have b: "unat named < 65536" "unat integer < 65536"
    using unsigned_less [of named] unsigned_less [of integer] by simp_all
  have p: "unat (ucast named :: u32) = unat named" "unat (ucast integer :: u32) = unat integer"
    by (simp_all add: unsigned_ucast_eq take_bit_nat_eq_self)
  show c: "unat (ucast named + ucast integer :: u32) = unat named + unat integer"
    using b p by (intro trans [OF unat_plus_bounded]) simp_all
  have at: "unat (relative + 16) = unat relative + 16"
    using assms unat_u64_bound [of directory_size] by (intro trans [OF unat_plus_bounded]) (simp_all add: range_inside_iff)
  have e: "unat (ucast (ucast named + ucast integer :: u32) * 8 :: u64) = 8 * (unat named + unat integer)"
    using b c by (simp add: unat_word_ariths)
  show "range_inside (relative + 16) (ucast (ucast named + ucast integer :: u32) * 8) directory_size \<longleftrightarrow>
      unat relative + 16 + 8 * (unat named + unat integer) \<le> unat directory_size"
    unfolding range_inside_iff at e by simp
qed

lemma walk_directory_Suc:
  assumes "in_file data base_file directory_size"
  shows "walk_directory limits img data base_file directory_size (Suc levels) depth active relative path rep = Inr rep' \<longleftrightarrow>
    (let bs = bytes_at data base_file relative; k = unat (field little 12 2 bs :: u16) + unat (field little 14 2 bs :: u16) in
     relative \<notin> set active \<and> range_inside relative 16 directory_size \<and> k \<le> unat (max_sections limits) \<and>
     unat relative + 16 + 8 * k \<le> unat directory_size \<and>
     walk_entries (walk_directory limits img data base_file directory_size levels (depth + 1) (relative # active))
       limits img data base_file directory_size relative path 0 k
       (rep\<lparr>rrp_maximum_depth := max (rrp_maximum_depth rep) depth\<rparr>) = Inr rep')"
proof (cases "relative \<notin> set active \<and> range_inside relative 16 directory_size")
  case True
  then have r: "range_inside relative 16 directory_size" and a: "relative \<notin> set active" by simp_all
  have h: "range_inside base_file directory_size (of_nat (length data))" "length data < 2 ^ 64"
    using assms by (simp_all add: in_file_def)
  note counts = directory_counts [OF r]
  have few: "ucast (named :: u16) + ucast (integer :: u16) > max_sections limits \<longleftrightarrow>
      \<not> unat named + unat integer \<le> unat (max_sections limits)" for named integer
    using counts(1) [of named integer] by (simp add: word_less_nat_alt not_le)
  show ?thesis
    unfolding walk_directory.simps read_counts_at [OF h r] sum.case prod.case Let_def few counts
    using a r by auto
next
  case False
  then show ?thesis by (auto simp: Let_def)
qed

lemma walk_directory_sound:
  assumes "in_file data base_file directory_size"
  shows "walk_directory limits img data base_file directory_size levels depth active relative path rep = Inr rep' \<Longrightarrow>
    room limits rep [] \<Longrightarrow>
    \<exists>es. spells_directory limits img data base_file directory_size relative es \<and> height (ResourceDirectory es) \<le> levels \<and>
      room limits rep (leaves data path (ResourceDirectory es)) \<and> rep' = collect data path depth (ResourceDirectory es) rep"
proof (induction levels arbitrary: depth active relative path rep rep')
  case (Suc levels)
  let ?bs = "bytes_at data base_file relative"
  let ?k = "unat (field little 12 2 ?bs :: u16) + unat (field little 14 2 ?bs :: u16)"
  let ?walk = "walk_directory limits img data base_file directory_size levels (depth + 1) (relative # active)"
  let ?rep = "rep\<lparr>rrp_maximum_depth := max (rrp_maximum_depth rep) depth\<rparr>"
  have h: "range_inside relative 16 directory_size" "?k \<le> unat (max_sections limits)"
    "unat relative + 16 + 8 * (0 + ?k) \<le> unat directory_size"
    and run: "walk_entries ?walk limits img data base_file directory_size relative path 0 ?k ?rep = Inr rep'"
    using Suc.prems(1) unfolding walk_directory_Suc [OF assms] by (simp_all add: Let_def)
  have room_same: "room limits ?rep fs = room limits rep fs" for fs by (simp add: room_def)
  have step: "\<exists>n. spells limits img data base_file directory_size t n \<and> height n \<le> levels \<and>
      room limits r (leaves data p n) \<and> r' = collect data p (depth + 1) n r"
    if into: "step_into ?walk limits img data base_file directory_size t p r = Inr r'" and room: "room limits r []" for t p r r'
  proof (cases "t AND 0x80000000 = 0")
    case True
    then have "add_resource limits img data base_file directory_size p (ucast (t AND 0x7fffffff)) r = Inr r'"
      using into by (simp add: step_into_def)
    then show ?thesis unfolding add_resource_Inr [OF assms True room, where depth = "depth + 1"] by auto
  next
    case False
    then have "?walk (ucast (t AND 0x7fffffff)) p r = Inr r'" using into by (simp add: step_into_def)
    from Suc.IH [OF this room] spells_spells_directory.directory [OF False] show ?thesis by blast
  qed
  obtain es where es: "length es = ?k"
    "\<forall>j < ?k. entry_spelled limits img data base_file directory_size ?bs (0 + j) (es ! j)"
    "\<forall>e \<in> set es. height (snd e) \<le> levels"
    "room limits ?rep (concat (map (\<lambda>e. leaves data (path @ [fst e]) (snd e)) es))"
    "rep' = fold (\<lambda>e. collect data (path @ [fst e]) (depth + 1) (snd e)) es ?rep"
    using walk_entries_sound [OF assms step run h(3)] Suc.prems(2) by (auto simp: room_same)
  have "spells_directory limits img data base_file directory_size relative es"
    by (rule entries [OF h(1) refl]) (use es h in \<open>auto simp: entry_spelled_def\<close>)
  then show ?case
    using es(3-5) by (intro exI [of _ es]) (simp add: height_le room_same del: height.simps)
qed simp

lemma walk_directory_complete:
  assumes "in_file data base_file directory_size"
  shows "spells_directory limits img data base_file directory_size relative es \<Longrightarrow> height (ResourceDirectory es) \<le> levels \<Longrightarrow>
    (\<And>a. a \<in> set active \<Longrightarrow> \<exists>fs. spells_directory limits img data base_file directory_size a fs \<and>
      height (ResourceDirectory es) < height (ResourceDirectory fs)) \<Longrightarrow>
    room limits rep (leaves data path (ResourceDirectory es)) \<Longrightarrow>
    walk_directory limits img data base_file directory_size levels depth active relative path rep =
      Inr (collect data path depth (ResourceDirectory es) rep)"
proof (induction levels arbitrary: depth active relative es path rep)
  case (Suc levels)
  let ?bs = "bytes_at data base_file relative"
  let ?k = "unat (field little 12 2 ?bs :: u16) + unat (field little 14 2 ?bs :: u16)"
  let ?walk = "walk_directory limits img data base_file directory_size levels (depth + 1) (relative # active)"
  let ?rep = "rep\<lparr>rrp_maximum_depth := max (rrp_maximum_depth rep) depth\<rparr>"
  have d: "range_inside relative 16 directory_size" "length es = ?k" "length es \<le> unat (max_sections limits)"
    "unat relative + 16 + 8 * length es \<le> unat directory_size"
    and e: "j < length es \<Longrightarrow> entry_spelled limits img data base_file directory_size ?bs j (es ! j)" for j
    using Suc.prems(1) by (cases rule: spells_directory.cases; simp add: entry_spelled_def)+
  have fresh: "relative \<notin> set active"
  proof
    assume "relative \<in> set active"
    then obtain fs where "spells_directory limits img data base_file directory_size relative fs"
      "height (ResourceDirectory es) < height (ResourceDirectory fs)" using Suc.prems(3) by blast
    then show False using spells_unique(2) [OF Suc.prems(1)] by auto
  qed
  have "walk_entries ?walk limits img data base_file directory_size relative path 0 (length es) ?rep =
      Inr (fold (\<lambda>e. collect data (path @ [fst e]) (depth + 1) (snd e)) es ?rep)"
  proof (rule walk_entries_complete [OF assms])
    fix j p r
    assume j: "j < length es" and room: "room limits r (leaves data p (snd (es ! j)))"
    let ?t = "field little (20 + 8 * (0 + j)) 4 ?bs :: u32"
    have sp: "spells limits img data base_file directory_size ?t (snd (es ! j))"
      using e [OF j] by (simp add: entry_spelled_def)
    have mem: "es ! j \<in> set es" using j by simp
    show "step_into ?walk limits img data base_file directory_size ?t p r = Inr (collect data p (depth + 1) (snd (es ! j)) r)"
    proof (cases "?t AND 0x80000000 = 0")
      case True
      have h0: "height (snd (es ! j)) = 0" using sp True by (cases rule: spells.cases) simp_all
      have "add_resource limits img data base_file directory_size p (ucast (?t AND 0x7fffffff)) r =
          Inr (collect data p (depth + 1) (snd (es ! j)) r)"
        unfolding add_resource_Inr [OF assms True no_room_before [OF room], where depth = "depth + 1"]
        using sp h0 room by blast
      then show ?thesis using True by (simp add: step_into_def)
    next
      case False
      obtain fs where fs: "snd (es ! j) = ResourceDirectory fs"
        and sd: "spells_directory limits img data base_file directory_size (ucast (?t AND 0x7fffffff)) fs"
        using sp False by (cases rule: spells.cases) auto
      have less: "height (ResourceDirectory fs) < height (ResourceDirectory es)"
        using height_entry [OF mem] by (simp only: fs)
      have "?walk (ucast (?t AND 0x7fffffff)) p r = Inr (collect data p (depth + 1) (ResourceDirectory fs) r)"
      proof (rule Suc.IH [OF sd])
        show "height (ResourceDirectory fs) \<le> levels" using less Suc.prems(2) by simp
        show "room limits r (leaves data p (ResourceDirectory fs))" using room by (simp only: fs)
        show "\<exists>gs. spells_directory limits img data base_file directory_size a gs \<and>
            height (ResourceDirectory fs) < height (ResourceDirectory gs)" if "a \<in> set (relative # active)" for a
          using that Suc.prems(1,3) less by (auto intro: less_trans)
      qed
      then show ?thesis using False by (simp add: step_into_def fs)
    qed
  next
    show "room limits ?rep (concat (map (\<lambda>e. leaves data (path @ [fst e]) (snd e)) es))"
      using Suc.prems(4) by (simp add: room_def)
  qed (use d e in simp_all)
  then show ?case
    unfolding walk_directory_Suc [OF assms] using d fresh by (simp add: Let_def)
qed simp

section \<open>The deepest directory\<close>

lemma collect_depth:
  "unat depth + height n \<le> 2 ^ 32 - 1 \<Longrightarrow> unat (rrp_maximum_depth (collect data path depth n rep)) =
    (if height n = 0 then unat (rrp_maximum_depth rep)
     else max (unat (rrp_maximum_depth rep)) (unat depth + height n - 1))"
proof (induction data path depth n rep rule: collect.induct)
  case (2 data path depth es rep)
  let ?H = "\<lambda>fs. foldr (\<lambda>e. max (height (snd e))) fs 0"
  have d: "unat depth + 1 + ?H es \<le> 2 ^ 32 - 1" using 2(2) by simp
  have step: "unat (depth + 1) = unat depth + 1"
    using d by (intro trans [OF unat_plus_bounded]) simp_all
  have each: "height (snd e) \<le> ?H es" if "e \<in> set es" for e using that by (induction es) auto
  have "unat (rrp_maximum_depth (fold (\<lambda>e. collect data (path @ [fst e]) (depth + 1) (snd e)) fs rep')) =
      max (unat (rrp_maximum_depth rep')) (unat depth + ?H fs)"
    if "set fs \<subseteq> set es" "unat depth \<le> unat (rrp_maximum_depth rep')" for fs rep'
    using that
  proof (induction fs arbitrary: rep')
    case (Cons e fs)
    let ?rep1 = "collect data (path @ [fst e]) (depth + 1) (snd e) rep'"
    have mem: "e \<in> set es" using Cons.prems(1) by simp
    have "unat (depth + 1) + height (snd e) \<le> 2 ^ 32 - 1" using each [OF mem] d step by simp
    from 2(1) [OF mem this] Cons.prems(2) have r1: "unat (rrp_maximum_depth ?rep1) =
        max (unat (rrp_maximum_depth rep')) (unat depth + height (snd e))"
      by (auto simp: step max_def)
    have "unat depth \<le> unat (rrp_maximum_depth ?rep1)" using r1 Cons.prems(2) by simp
    from Cons.IH [OF _ this] Cons.prems(1) show ?case by (simp add: r1 max.assoc)
  qed simp
  from this [of es "rep\<lparr>rrp_maximum_depth := max (rrp_maximum_depth rep) depth\<rparr>"] show ?case
    by (auto simp: max_def word_le_nat_alt)
qed simp

lemma leaves_small: "e \<in> set (leaves data path n) \<Longrightarrow> unat (ren_size e) < 2 ^ 32"
proof (induction data path n rule: leaves.induct)
  case (1 data path at len page)
  then show ?case using unat_u32_bound [of len] by (simp add: resource_entry_def)
qed auto

lemma bytes_of_small: "(\<And>e. e \<in> set es \<Longrightarrow> unat (ren_size e) < 2 ^ 32) \<Longrightarrow> length es < 2 ^ 32 \<Longrightarrow> bytes_of es < 2 ^ 64"
proof -
  assume small: "\<And>e. e \<in> set es \<Longrightarrow> unat (ren_size e) < 2 ^ 32" and n: "length es < 2 ^ 32"
  have "bytes_of es \<le> length es * (2 ^ 32 - 1)"
    using small
  proof (induction es)
    case (Cons e es)
    then have "unat (ren_size e) \<le> 2 ^ 32 - 1" "bytes_of es \<le> length es * (2 ^ 32 - 1)" by fastforce+
    then show ?case by simp
  qed simp
  also have "\<dots> \<le> (2 ^ 32 - 1) * (2 ^ 32 - 1)" using n by (intro mult_le_mono1) simp
  finally show ?thesis by simp
qed

section \<open>Resource directories\<close>

definition tree_report :: "bytes \<Rightarrow> ResourceNode \<Rightarrow> ResourceReport" where
  "tree_report data n = \<lparr>rrp_entries = leaves data [] n, rrp_total_bytes = of_nat (bytes_of (leaves data [] n)),
     rrp_maximum_depth = of_nat (height n - 1), rrp_warnings = []\<rparr>"

lemma collect_report:
  assumes "0 < height n" "height n \<le> 2 ^ 32 - 1"
  shows "collect data [] 0 n empty_resources = tree_report data n"
proof -
  let ?rep = "collect data [] 0 n empty_resources"
  have "unat (rrp_maximum_depth ?rep) = height n - 1"
    using collect_depth [of 0 n data "[]" empty_resources] assms by (simp add: empty_resources_def)
  then have "rrp_maximum_depth ?rep = of_nat (height n - 1)" 
    using assms by (simp add: word_unat_eq_iff unat_of_nat_u32 del: unsigned_of_nat of_nat_diff)
  then show ?thesis
    using collect_entries [of data "[]" 0 n empty_resources] collect_warnings [of data "[]" 0 n empty_resources]
      collect_bytes [of data "[]" 0 n empty_resources]
    by (cases ?rep) (simp add: tree_report_def empty_resources_def)
qed

text \<open>
  C33. The resource parser succeeds exactly when the directory lies in the file and spells a tree, which is then the only one,
  whose directories nest no deeper than the limit and whose leaves are no more than the limit; its report is the leaves
  in order, each with the first three names of its path, the exact sum of their sizes and the depth of the
  tree. So the cycle check refuses nothing that has a finite tree, and the overflow check on the total never fires.
\<close>

theorem resources_exact:
  assumes "pe_data img = Some data" "length data < 2 ^ 64" "directory_size \<noteq> 0"
    "unat (max_debug_depth limits) + 1 < 2 ^ 32"
  shows "parse_resources limits img directory_rva directory_size = Inr rep \<longleftrightarrow>
    directory_size \<le> max_section_bytes limits \<and>
    (\<exists>root es. rva_to_file img directory_rva directory_size = Some root \<and>
      unat (fa_offset root) + unat directory_size \<le> length data \<and>
      spells_directory limits img data (fa_offset root) directory_size 0 es \<and>
      height (ResourceDirectory es) \<le> unat (max_debug_depth limits) + 1 \<and>
      length (leaves data [] (ResourceDirectory es)) \<le> unat (max_sections limits) \<and>
      rep = tree_report data (ResourceDirectory es))"
proof (cases "directory_size \<le> max_section_bytes limits \<and>
    (\<exists>root. rva_to_file img directory_rva directory_size = Some root \<and> unat (fa_offset root) + unat directory_size \<le> length data)")
  case False
  have len: "unat (of_nat (length data) :: u64) = length data" using assms(2) by (intro unat_of_nat_u64) simp
  show ?thesis
    using False assms(1,3) by (auto simp: parse_resources_def range_inside_iff len split: option.splits)
next
  case True
  then obtain root where root: "rva_to_file img directory_rva directory_size = Some root"
    and fits: "unat (fa_offset root) + unat directory_size \<le> length data" by blast
  have len: "unat (of_nat (length data) :: u64) = length data" using assms(2) by (intro unat_of_nat_u64) simp
  have inside: "range_inside (fa_offset root) directory_size (of_nat (length data))"
    unfolding range_inside_iff len using fits .
  then have inf: "in_file data (fa_offset root) directory_size" using assms(2) by (simp add: in_file_def)
  let ?levels = "unat (max_debug_depth limits) + 1"
  have np: "\<not> max_section_bytes limits < directory_size" using True by (simp add: leD)
  have run: "parse_resources limits img directory_rva directory_size =
      walk_directory limits img data (fa_offset root) directory_size ?levels 0 [] 0 [] empty_resources"
    using np root inside assms(1,3) by (simp add: parse_resources_def del: walk_directory.simps)
  have small: "bytes_of (leaves data [] n) < 2 ^ 64" if "length (leaves data [] n) \<le> unat (max_sections limits)" for n
    using that unat_u32_bound [of "max_sections limits"] leaves_small by (intro bytes_of_small) auto
  have room: "room limits empty_resources (leaves data [] n) \<longleftrightarrow> length (leaves data [] n) \<le> unat (max_sections limits)" for n
    using small [of n] by (auto simp: room_def empty_resources_def simp del: leaves.simps)
  have start: "room limits empty_resources []" by (simp add: room_def empty_resources_def)
  have eq: "collect data [] 0 (ResourceDirectory es) empty_resources = tree_report data (ResourceDirectory es)"
    if "height (ResourceDirectory es) \<le> ?levels" for es
    using that assms(4) by (intro collect_report) simp_all
  show ?thesis
  proof
    assume "parse_resources limits img directory_rva directory_size = Inr rep"
    then obtain es where "spells_directory limits img data (fa_offset root) directory_size 0 es"
      "height (ResourceDirectory es) \<le> ?levels" "room limits empty_resources (leaves data [] (ResourceDirectory es))"
      "rep = collect data [] 0 (ResourceDirectory es) empty_resources"
      unfolding run using walk_directory_sound [OF inf _ start] by blast
    then show "directory_size \<le> max_section_bytes limits \<and> (\<exists>root es. rva_to_file img directory_rva directory_size = Some root \<and>
      unat (fa_offset root) + unat directory_size \<le> length data \<and>
      spells_directory limits img data (fa_offset root) directory_size 0 es \<and>
      height (ResourceDirectory es) \<le> unat (max_debug_depth limits) + 1 \<and>
      length (leaves data [] (ResourceDirectory es)) \<le> unat (max_sections limits) \<and>
      rep = tree_report data (ResourceDirectory es))"
      using True root fits eq unfolding room by blast
  next
    assume "directory_size \<le> max_section_bytes limits \<and> (\<exists>root es. rva_to_file img directory_rva directory_size = Some root \<and>
      unat (fa_offset root) + unat directory_size \<le> length data \<and>
      spells_directory limits img data (fa_offset root) directory_size 0 es \<and>
      height (ResourceDirectory es) \<le> unat (max_debug_depth limits) + 1 \<and>
      length (leaves data [] (ResourceDirectory es)) \<le> unat (max_sections limits) \<and>
      rep = tree_report data (ResourceDirectory es))"
    then obtain es where es: "spells_directory limits img data (fa_offset root) directory_size 0 es"
      "height (ResourceDirectory es) \<le> ?levels" "room limits empty_resources (leaves data [] (ResourceDirectory es))"
      "rep = tree_report data (ResourceDirectory es)"
      unfolding room using root by (auto simp del: leaves.simps height.simps)
    show "parse_resources limits img directory_rva directory_size = Inr rep"
      unfolding run using walk_directory_complete [OF inf es(1,2) _ es(3), of "[]" 0] eq [OF es(2)] es(4) by simp
  qed
qed

text \<open>A version resource under the number 1: two directories and an empty payload.\<close>

definition demo_resource_data :: bytes where
  "demo_resource_data =
    [0, 0, 0, 0, 0, 0, 0, 0, 0, 0, 0, 0, 0, 0, 1, 0, 16, 0, 0, 0, 24, 0, 0, 0x80,
     0, 0, 0, 0, 0, 0, 0, 0, 0, 0, 0, 0, 0, 0, 1, 0, 1, 0, 0, 0, 48, 0, 0, 0,
     80, 0, 0, 0, 0, 0, 0, 0, 0, 0, 0, 0, 0, 0, 0, 0, 1, 2, 3, 4]"

definition demo_resource_image :: BinaryImage where
  "demo_resource_image = empty_image\<lparr>img_header := empty_header\<lparr>hdr_format := pe_like\<rparr>,
     img_sections := [\<lparr>sec_index = 0, sec_name = ''.rsrc'', sec_kind = resources, sec_file_offset = 0,
       sec_file_size = 68, sec_virtual_address = 16, sec_memory_size = 68, sec_alignment = 1,
       sec_entry_size = 0, sec_link = 0, sec_info = 0, sec_permissions = 1\<rparr>],
     img_file_data := Some demo_resource_data\<rparr>"

definition demo_resource_entry :: ResourceEntry where
  "demo_resource_entry = \<lparr>ren_type = \<lparr>rid_integer = Some 16, rid_name = []\<rparr>,
     ren_name = \<lparr>rid_integer = Some 1, rid_name = []\<rparr>, ren_language = no_identifier, ren_kind = version,
     ren_file_offset = 64, ren_size = 0, ren_code_page = 0, ren_checksum = 0\<rparr>"

lemma demo_resources_run: "parse_resources demo_limits demo_resource_image 16 68 =
    Inr \<lparr>rrp_entries = [demo_resource_entry], rrp_total_bytes = 0, rrp_maximum_depth = 1, rrp_warnings = []\<rparr>"
  by code_simp

theorem resources_exact_witness:
  "\<exists>root es. rva_to_file demo_resource_image 16 68 = Some root \<and>
    spells_directory demo_limits demo_resource_image demo_resource_data (fa_offset root) 68 0 es \<and>
    leaves demo_resource_data [] (ResourceDirectory es) = [demo_resource_entry]"
proof -
  have d: "pe_data demo_resource_image = Some demo_resource_data"
    by (simp add: demo_resource_image_def pe_data_def)
  have n: "length demo_resource_data < 2 ^ 64" by (simp add: demo_resource_data_def)
  have l: "unat (max_debug_depth demo_limits) + 1 < 2 ^ 32" by (simp add: demo_limits_def)
  have z: "(68 :: u64) \<noteq> 0" by simp
  from demo_resources_run [unfolded resources_exact [OF d n z l]] show ?thesis
    by (auto simp: tree_report_def simp del: leaves.simps height.simps)
qed

end
