(* ===== verification/Elf_Format.thy ===== *)
theory Elf_Format
  imports Elf_Image
begin

unbundle bit_operations_syntax

text \<open>
  The ELF format, written down from the bytes alone: tables of the numeric codes, fields at their
  offsets, permissions as single bits, names as zero-terminated texts inside their string table, and
  relocation entries at the stride of their table. None of the parser's or the decoder's functions
  occurs here; the theorem at the end says that a successful parse returns just this.
\<close>

section \<open>Codes, bits and texts\<close>

fun code_in :: "(nat \<times> 'a) list \<Rightarrow> 'a \<Rightarrow> nat \<Rightarrow> 'a" where
  "code_in [] other n = other"
| "code_in ((k, x) # codes) other n = (if n = k then x else code_in codes other n)"

text \<open>Read is 1, write 2 and execute 4.\<close>

definition access_bits :: "bool \<Rightarrow> bool \<Rightarrow> bool \<Rightarrow> u8" where
  "access_bits r w x = (if r then 1 else 0) + (if w then 2 else 0) + (if x then 4 else 0)"

text \<open>The text at \<open>start\<close>, if a zero byte ends it among the \<open>room\<close> bytes there, all in the file.\<close>

definition text_at :: "bytes \<Rightarrow> nat \<Rightarrow> nat \<Rightarrow> string" where
  "text_at data start room =
    (if start + room \<le> length data \<and> 0 \<in> set (take room (drop start data))
     then string_of_bytes (takeWhile (\<lambda>b. b \<noteq> 0) (take room (drop start data))) else [])"

section \<open>Header, sections, segments and symbols\<close>

definition elf_header_at :: "bool \<Rightarrow> ByteOrder \<Rightarrow> bytes \<Rightarrow> FileHeader" where
  "elf_header_at is_wide order data =
    \<lparr>hdr_format = elf_like, hdr_word_size = (if is_wide then bits64 else bits32), hdr_byte_order = order,
     hdr_kind = code_in [(1, relocatable), (2, executable), (3, shared_library), (4, core)] kind_unknown
       (unat (field order 16 2 data :: u16)),
     hdr_architecture = code_in [(3, x86), (62, x86_64), (40, arm), (183, arm64), (243, riscv64)] arch_unknown
       (unat (field order 18 2 data :: u16)),
     hdr_entry_point = address_field is_wide order 24 24 data, hdr_image_base = 0,
     hdr_section_table_offset = address_field is_wide order 32 40 data,
     hdr_segment_table_offset = address_field is_wide order 28 32 data,
     hdr_section_count = ucast (field order (if is_wide then 60 else 48) 2 data :: u16),
     hdr_segment_count = ucast (field order (if is_wide then 56 else 44) 2 data :: u16),
     hdr_flags = field order (if is_wide then 48 else 36) 4 data\<rparr>"

definition table_text :: "Limits \<Rightarrow> bytes \<Rightarrow> RawSection \<Rightarrow> u32 \<Rightarrow> string" where
  "table_text limits data strings name =
    (if unat name < unat (raw_size strings) \<and> raw_size strings \<le> max_string_bytes limits
     then text_at data (unat (raw_offset strings + ucast name)) (unat (raw_size strings) - unat name) else [])"

definition section_codes :: "(nat \<times> SectionKind) list" where
  "section_codes = [(1, program_bits), (2, symbol_table), (3, string_table), (4, relocation_addends),
     (7, note_section), (8, no_bits), (9, relocations), (11, dynamic_symbols)]"

text \<open>Program data and sections of an unlisted type whose name starts with \<open>.debug\<close> hold debug data.\<close>

definition section_kind_at :: "nat \<Rightarrow> string \<Rightarrow> SectionKind" where
  "section_kind_at type name =
    (if take 6 name = ''.debug'' \<and> type \<notin> {2, 3, 4, 7, 8, 9, 11} then debug
     else code_in section_codes section_unknown type)"

definition section_entry :: "Limits \<Rightarrow> bytes \<Rightarrow> nat \<Rightarrow> RawSection list \<Rightarrow> nat \<Rightarrow> Section" where
  "section_entry limits data names raws i =
    (let s = raws ! i;
         name = (if names < length raws then table_text limits data (raws ! names) (raw_name s) else []) in
     \<lparr>sec_index = of_nat i, sec_name = name, sec_kind = section_kind_at (unat (raw_type s)) name,
      sec_file_offset = raw_offset s, sec_file_size = raw_size s, sec_virtual_address = raw_address s,
      sec_memory_size = raw_size s, sec_alignment = max 1 (raw_alignment s),
      sec_entry_size = raw_entry_size s, sec_link = raw_link s, sec_info = raw_info s,
      sec_permissions = access_bits True (bit (raw_flags s) 0) (bit (raw_flags s) 2)\<rparr>)"

definition segment_entry :: "bool \<Rightarrow> ByteOrder \<Rightarrow> bytes \<Rightarrow> nat \<Rightarrow> Segment" where
  "segment_entry is_wide order bs i =
    (let flags = field order (if is_wide then 4 else 24) 4 bs :: u32 in
     \<lparr>seg_index = of_nat i, seg_file_offset = address_field is_wide order 4 8 bs,
      seg_file_size = address_field is_wide order 16 32 bs,
      seg_virtual_address = address_field is_wide order 8 16 bs,
      seg_memory_size = address_field is_wide order 20 40 bs,
      seg_alignment = address_field is_wide order 28 48 bs,
      seg_permissions = access_bits (bit flags 2) (bit flags 1) (bit flags 0), seg_sections = []\<rparr>)"

text \<open>The load entries of the program table, type 1, each under the index of its entry.\<close>

definition load_segments :: "bool \<Rightarrow> ByteOrder \<Rightarrow> bytes \<Rightarrow> Segment list" where
  "load_segments is_wide order data =
    (let h = header_fields is_wide order data;
         entry = \<lambda>i. drop (unat (eh_program_offset h) + i * unat (eh_program_entry_size h)) data in
     map (\<lambda>i. segment_entry is_wide order (entry i) i)
       (filter (\<lambda>i. field order 0 4 (entry i) = (1 :: u32)) [0..<unat (eh_program_count h)]))"

definition symbol_entry :: "Limits \<Rightarrow> bytes \<Rightarrow> bool \<Rightarrow> ByteOrder \<Rightarrow> RawSection \<Rightarrow> bytes \<Rightarrow> nat \<Rightarrow> Symbol" where
  "symbol_entry limits data is_wide order strings bs index =
    (let info = unat (bs ! (if is_wide then 4 else 12)); other = unat (bs ! (if is_wide then 5 else 13));
         shndx = unat (field order (if is_wide then 6 else 14) 2 bs :: u16) in
     \<lparr>sym_index = of_nat index, sym_name = table_text limits data strings (field order 0 4 bs),
      sym_binding = (if shndx = 0 then import_symbol
        else code_in [(1, global), (2, weak)] local_binding (info div 16)),
      sym_kind = code_in [(1, object), (2, function_symbol), (3, section_symbol), (4, file_symbol),
        (5, common), (6, tls_object)] symbol_unknown (info mod 16),
      sym_section_index = of_nat shndx, sym_value = address_field is_wide order 4 8 bs,
      sym_size = address_field is_wide order 8 16 bs, sym_visibility = of_nat (other mod 4), sym_library = []\<rparr>)"

text \<open>The symbols of a table of type 2 or 11 whose link names a section, still to be numbered.\<close>

definition symbols_of :: "Limits \<Rightarrow> bytes \<Rightarrow> bool \<Rightarrow> ByteOrder \<Rightarrow> RawSection list \<Rightarrow> RawSection \<Rightarrow> (nat \<Rightarrow> Symbol) list" where
  "symbols_of limits data is_wide order raws s =
    (if unat (raw_type s) \<in> {2, 11} \<and> raw_entry_size s \<noteq> 0 \<and> unat (raw_link s) < length raws then
       map (\<lambda>j. symbol_entry limits data is_wide order (raws ! unat (raw_link s))
            (drop (unat (raw_offset s) + j * unat (raw_entry_size s)) data))
         [0..<unat (raw_size s) div unat (raw_entry_size s)]
     else [])"

section \<open>Relocations\<close>

fun relocation_codes :: "Architecture \<Rightarrow> (nat \<times> RelocationKind) list" where
  "relocation_codes x86 = [(1, absolute32), (2, pc_relative32), (8, relative32)]"
| "relocation_codes x86_64 = [(1, absolute64), (2, pc_relative32), (8, relative64), (9, got_relative)]"
| "relocation_codes arm = [(2, absolute32), (3, pc_relative32), (23, relative32)]"
| "relocation_codes arm64 = [(257, absolute64), (260, pc_relative32), (1027, relative64)]"
| "relocation_codes riscv32 = [(1, absolute32), (2, absolute64), (3, relative64)]"
| "relocation_codes riscv64 = [(1, absolute32), (2, absolute64), (3, relative64)]"
| "relocation_codes arch_unknown = []"
| "relocation_codes (arch_other a) = []"

text \<open>The tables of type 4 have an addend in every entry, those of type 9 have none.\<close>

definition relocation_stride :: "bool \<Rightarrow> RawSection \<Rightarrow> nat" where
  "relocation_stride is_wide s =
    (if raw_entry_size s \<noteq> 0 then unat (raw_entry_size s)
     else if unat (raw_type s) = 4 then (if is_wide then 24 else 12) else (if is_wide then 16 else 8))"

text \<open>In a relocatable file the offsets of a table count from the section that the table is for.\<close>

definition relocation_base :: "bool \<Rightarrow> ByteOrder \<Rightarrow> bytes \<Rightarrow> RawSection list \<Rightarrow> RawSection \<Rightarrow> u64" where
  "relocation_base is_wide order data raws s =
    (if field order 16 2 data = (1 :: u16) \<and> unat (raw_info s) < length raws
     then raw_address (raws ! unat (raw_info s)) else 0)"

definition relocation_entry ::
    "bool \<Rightarrow> ByteOrder \<Rightarrow> Architecture \<Rightarrow> u64 \<Rightarrow> RawSection \<Rightarrow> bytes \<Rightarrow> nat \<Rightarrow> Relocation" where
  "relocation_entry is_wide order machine base s bs index =
    (let info = address_field is_wide order 4 8 bs; low = (if is_wide then 32 else 8);
         kind = code_in (relocation_codes machine) reloc_none (unat (take_bit low info)) in
     \<lparr>rel_index = of_nat index, rel_kind = kind, rel_target_section = raw_info s,
      rel_symbol_index = ucast (drop_bit low info),
      rel_offset = base + address_field is_wide order 0 0 bs,
      rel_addend = (if unat (raw_type s) \<noteq> 4 then 0
        else if is_wide then field order 16 8 bs else scast (field order 8 4 bs :: u32)),
      rel_width = (if kind \<in> {absolute64, relative64} then 8 else 4)\<rparr>)"

definition relocations_of :: "bool \<Rightarrow> ByteOrder \<Rightarrow> bytes \<Rightarrow> RawSection list \<Rightarrow> RawSection \<Rightarrow> (nat \<Rightarrow> Relocation) list" where
  "relocations_of is_wide order data raws s =
    (if unat (raw_type s) \<in> {4, 9} then
       map (\<lambda>j. relocation_entry is_wide order (hdr_architecture (elf_header_at is_wide order data))
            (relocation_base is_wide order data raws s) s
            (drop (unat (raw_offset s) + j * relocation_stride is_wide s) data))
         [0..<unat (raw_size s) div relocation_stride is_wide s]
     else [])"

text \<open>No entry of the table leaves the address space.\<close>

definition relocations_in_range :: "bool \<Rightarrow> ByteOrder \<Rightarrow> bytes \<Rightarrow> RawSection list \<Rightarrow> RawSection \<Rightarrow> bool" where
  "relocations_in_range is_wide order data raws s \<longleftrightarrow> (unat (raw_type s) \<in> {4, 9} \<longrightarrow>
    (\<forall>j < unat (raw_size s) div relocation_stride is_wide s.
       unat (relocation_base is_wide order data raws s) + unat (address_field is_wide order 0 0
         (drop (unat (raw_offset s) + j * relocation_stride is_wide s) data)) < 2 ^ 64))"

section \<open>The vocabulary of the parser\<close>

lemma unat_is: "w = numeral k \<longleftrightarrow> unat w = unat (numeral k :: 'a::len word)" "w = 1 \<longleftrightarrow> unat w = unat (1 :: 'a word)"
  for w :: "'a::len word"
  by (simp_all only: word_unat_eq_iff)

lemma mask_mod:
  fixes a :: "'a::len word"
  assumes "m = 2 ^ k - 1"
  shows "unat (a AND m) = unat a mod 2 ^ k"
proof -
  have "a AND m = take_bit k a" using assms by (simp add: take_bit_eq_mask mask_eq_exp_minus_1)
  then have "unat (a AND m) = take_bit k (unat a)" by (simp only: unsigned_take_bit_eq)
  then show ?thesis by (simp only: take_bit_eq_mod)
qed

lemma and_1_bit: "(a AND 1 \<noteq> 0) = bit a 0" and and_2_bit: "(a AND 2 \<noteq> 0) = bit a 1"
  and and_4_bit: "(a AND 4 \<noteq> 0) = bit a 2" for a :: "'a::len word"
  using and_exp_eq_0_iff_not_bit [of a 0] and_exp_eq_0_iff_not_bit [of a 1] and_exp_eq_0_iff_not_bit [of a 2]
  by simp_all

lemma or_is_sum: "(if r then permission_read else 0) OR (if w then permission_write else 0)
    OR (if x then permission_execute else 0) = access_bits r w x"
  by (simp add: permission_read_def permission_write_def permission_execute_def access_bits_def)

lemma segment_permissions_bits: "segment_permissions f = access_bits (bit f 2) (bit f 1) (bit f 0)"
  unfolding segment_permissions_def and_1_bit and_2_bit and_4_bit by (rule or_is_sum)

lemma elf_arch_code: "elf_arch m =
    code_in [(3, x86), (62, x86_64), (40, arm), (183, arm64), (243, riscv64)] arch_unknown (unat m)"
  by (simp add: elf_arch_def unat_is)

lemma elf_binary_kind_code: "elf_binary_kind t =
    code_in [(1, relocatable), (2, executable), (3, shared_library), (4, core)] kind_unknown (unat t)"
  by (simp add: elf_binary_kind_def unat_is)

lemma elf_section_kind_code: "elf_section_kind t name = section_kind_at (unat t) name"
  by (simp add: elf_section_kind_def section_kind_at_def section_codes_def debug_name_def unat_is)

lemma elf_symbol_kind_code: "elf_symbol_kind i = code_in [(1, object), (2, function_symbol), (3, section_symbol),
    (4, file_symbol), (5, common), (6, tls_object)] symbol_unknown (unat i mod 16)"
  using mask_mod [of "15 :: u8" 4 i] by (simp add: elf_symbol_kind_def Let_def unat_is)

lemma elf_binding_code: "elf_binding i shndx = (if unat shndx = 0 then import_symbol
    else code_in [(1, global), (2, weak)] local_binding (unat i div 16))"
  by (simp add: elf_binding_def unat_is unat_drop_bit_eq drop_bit_nat_def unat_eq_0)

lemma elf_kind_code: "elf_kind a t = code_in (relocation_codes a) reloc_none (unat t)"
  by (cases a) (simp_all add: elf_kind_def unat_is)

lemma name_in_text:
  assumes "length data < 2 ^ 64"
  shows "name_in data t name (max_string_bytes limits) = table_text limits data t name"
proof (cases "ucast name \<ge> raw_size t \<or> raw_size t > max_string_bytes limits")
  case True
  then show ?thesis
    by (auto simp: name_in_def table_string_def table_text_def word_le_nat_alt word_less_nat_alt)
next
  case False
  let ?at = "raw_offset t + ucast name" and ?room = "raw_size t - ucast name"
  have room: "unat ?room = unat (raw_size t) - unat name"
    using False by (simp add: unat_minus_bounded word_le_nat_alt)
  have size: "unat (of_nat (length data) :: u64) = length data"
    using assms by (simp add: unat_of_nat_u64 del: unsigned_of_nat)
  have inside: "(?at > of_nat (length data) \<or> ?room > of_nat (length data) - ?at) \<longleftrightarrow>
      \<not> unat ?at + unat ?room \<le> length data"
    by (cases "?at \<le> of_nat (length data)")
      (auto simp: word_less_nat_alt word_le_nat_alt not_le not_less unat_minus_bounded size)
  have "read_c_string (reader_of data little) ?at ?room =
      (if \<not> unat ?at + unat ?room \<le> length data then None
       else if 0 \<in> set (take (unat ?room) (drop (unat ?at) data))
       then Some (string_of_bytes (takeWhile (\<lambda>b. b \<noteq> 0) (take (unat ?room) (drop (unat ?at) data)))) else None)"
    unfolding inside [symmetric] by (simp add: read_c_string_def reader_of_def make_reader_def Let_def)
  moreover have "unat name < unat (raw_size t) \<and> raw_size t \<le> max_string_bytes limits"
    using False by (simp add: word_le_nat_alt word_less_nat_alt not_le not_less)
  ultimately show ?thesis
    using False by (simp add: name_in_def table_string_def table_text_def text_at_def room)
qed

section \<open>The tables of the parser\<close>

lemma elf_header_code: "elf_header_of is_wide order (header_fields is_wide order data) = elf_header_at is_wide order data"
  by (simp add: elf_header_of_def elf_header_at_def header_fields_def Let_def elf_arch_code elf_binary_kind_code
      del: code_in.simps)

lemma max_1: "(if a \<noteq> 0 then a else 1) = max 1 a" for a :: u64
  by (cases "a = 0") (simp_all add: max_def word_le_nat_alt Suc_le_eq unat_gt_0)

lemma elf_section_entry:
  assumes "length data < 2 ^ 64"
  shows "elf_section limits data names raws i = section_entry limits data (unat names) raws i"
proof -
  have "permission_read OR (if w then permission_write else 0) OR (if x then permission_execute else 0) =
      access_bits True w x" for w x
    using or_is_sum [of True w x] by simp
  then show ?thesis
    unfolding elf_section_def section_entry_def name_in_text [OF assms] elf_section_kind_code and_1_bit and_4_bit max_1
    by simp
qed

lemma segment_fields_entry: "segment_fields is_wide order bs i =
    (if field order 0 4 bs = (1 :: u32) then [segment_entry is_wide order bs i] else [])"
  by (simp add: segment_fields_def segment_entry_def segment_permissions_bits Let_def)

lemma program_segments_entries: "program_segments is_wide order data = load_segments is_wide order data"
proof -
  have "concat (map (\<lambda>i. segment_fields is_wide order (e i) i) xs) =
      map (\<lambda>i. segment_entry is_wide order (e i) i) (filter (\<lambda>i. field order 0 4 (e i) = (1 :: u32)) xs)" for e xs
    by (induction xs) (simp_all add: segment_fields_entry)
  then show ?thesis by (simp add: program_segments_def load_segments_def Let_def)
qed

lemma symbol_fields_entry:
  assumes "length data < 2 ^ 64"
  shows "symbol_fields limits data is_wide order strings bs index = symbol_entry limits data is_wide order strings bs index"
proof -
  have "other AND 3 = of_nat (unat other mod 4)" for other :: u8
    using mask_mod [of "3 :: u8" 2 other] by (simp add: word_unat_eq_iff unat_of_nat_u8 del: unsigned_of_nat)
  then show ?thesis
    unfolding symbol_fields_def symbol_entry_def name_in_text [OF assms] elf_binding_code elf_symbol_kind_code Let_def
    by simp
qed

lemma table_symbols_entries:
  assumes "length data < 2 ^ 64"
  shows "table_symbols limits data is_wide order raws s = symbols_of limits data is_wide order raws s"
  unfolding table_symbols_def symbols_of_def symbol_fields_entry [OF assms]
  by (auto simp: unat_is)

section \<open>The relocation tables\<close>

lemma field_take: "a + k \<le> m \<Longrightarrow> field order a k (take m bs) = field order a k bs"
  by (simp add: field_def drop_take min_absorb1)

lemma decode_elf_appends:
  assumes d: "decode_elf limits (Some bs) len opts out = (Inr (), out')" and bs: "length bs = unat len"
  shows "unat (minimum_entry opts) \<le> unat (elf_entry_size opts) \<and>
    append_all limits (map (\<lambda>i. elf_entry opts (drop (i * unat (elf_entry_size opts)) bs))
      [0..<unat len div unat (elf_entry_size opts)]) out = Some out'"
proof -
  let ?es = "elf_entry_size opts"
  have c: "\<not> ?es < minimum_entry opts" "\<not> ?es > len"
    and run: "decode_elf_entries limits opts 0 (unat (len div ?es)) (make_reader (Some bs) len (dec_byte_order opts)) out = (Inr (), out')"
    using d by (auto simp: decode_elf_def Let_def split: if_splits)
  have es: "unat (minimum_entry opts) \<le> unat ?es" using c(1) by (simp add: word_less_nat_alt)
  have "0 < unat (minimum_entry opts)" by (simp add: minimum_entry_def)
  then have "?es \<noteq> 0" using es by auto
  moreover have "?es \<le> len" using c(2) by simp
  ultimately have "unat (len div ?es) = unat len div unat ?es" "unat (len div ?es) * unat ?es \<le> unat len"
    by (rule count_bounds)+
  then show ?thesis
    using run es decode_elf_entries_Inr [OF es table_reader_make [OF bs], of 0 "unat (len div ?es)" limits out out'] bs
    by simp
qed

text \<open>One entry of a table that lies in the file.\<close>

lemma elf_entry_at:
  fixes s :: RawSection
  assumes e: "elf_entry opts (take m bs) index = Some r"
    and m: "unat (minimum_entry opts) \<le> m"
    and opts: "opts = \<lparr>dec_architecture = machine, dec_word_size = (if is_wide then bits64 else bits32),
      dec_byte_order = order, dec_target_section = raw_info s, dec_base_address = base,
      dec_entry_size = raw_entry_size s, dec_explicit_addends = (raw_type s = 4)\<rparr>"
  shows "r = relocation_entry is_wide order machine base s bs index \<and>
    unat base + unat (address_field is_wide order 0 0 bs) < 2 ^ 64"
proof -
  have w: "wide opts = is_wide" "dec_architecture opts = machine" "dec_byte_order opts = order"
    "dec_target_section opts = raw_info s" "dec_base_address opts = base" "dec_explicit_addends opts = (unat (raw_type s) = 4)"
    by (simp_all add: opts wide_def unat_is)
  have f: "elf_fields opts (take m bs) = (address_field is_wide order 0 0 bs, address_field is_wide order 4 8 bs,
      if unat (raw_type s) \<noteq> 4 then 0 else if is_wide then field order 16 8 bs else scast (field order 8 4 bs :: u32))"
  proof -
    have t: "take k (take m bs) = take k (drop 0 bs)" "take k (drop a (take m bs)) = take k (drop a bs)"
      if "a + k \<le> m" for a k using that by (simp_all add: drop_take min_absorb1)
    show ?thesis
      using m t [of 0 8] t [of 8 8] t [of 16 8] t [of 0 4] t [of 4 4] t [of 8 4]
      by (cases is_wide; cases "unat (raw_type s) = 4")
        (simp_all add: elf_fields_def w address_field_def field_def Let_def minimum_entry_def)
  qed
  let ?off = "address_field is_wide order 0 0 bs" and ?info = "address_field is_wide order 4 8 bs"
  obtain target where t: "checked_add base ?off = Some target"
    and r: "r = elf_relocation opts index (elf_symbol opts ?info) target ?info
      (if unat (raw_type s) \<noteq> 4 then 0 else if is_wide then field order 16 8 bs else scast (field order 8 4 bs :: u32))"
    using e by (auto simp: elf_entry_def f w)
  have target: "target = base + ?off" using t by (simp add: checked_add_def split: if_splits)
  have "unat target = unat base + unat ?off" using t by (simp add: add_op.Some_iff)
  then have room: "unat base + unat ?off < 2 ^ 64" using unat_u64_bound [of target] by simp
  have type: "unat (if is_wide then ucast ?info else ucast (ucast ?info :: u8) :: u32) =
      unat (take_bit (if is_wide then 32 else 8) ?info)"
    by (simp add: unsigned_ucast_eq unsigned_take_bit_eq)
  have sym: "elf_symbol opts ?info = drop_bit (if is_wide then 32 else 8) ?info"
    by (simp add: elf_symbol_def w)
  show ?thesis
    using room unfolding r target elf_relocation_def Let_def w elf_kind_code type sym
    by (simp add: relocation_entry_def Let_def)
qed

lemma append_all_each:
  assumes "append_all limits (map f [0..<n]) out = Some out'"
    and "\<And>i r. i < n \<Longrightarrow> f i (length out + i) = Some r \<Longrightarrow> r = g i (length out + i) \<and> Q i"
  shows "out' = out @ numbered (length out) (map g [0..<n]) \<and> (\<forall>i < n. Q i)"
proof -
  obtain rels where out': "out' = out @ rels"
    and m: "map Some rels = map (\<lambda>i. (map f [0..<n] ! i) (length out + i)) [0..<length (map f [0..<n])]"
    using assms(1) unfolding append_all_iff by blast
  have len: "length rels = n" using arg_cong [OF m, of length] by simp
  have each: "rels ! i = g i (length out + i) \<and> Q i" if "i < n" for i
  proof -
    have "Some (rels ! i) = f i (length out + i)"
      using arg_cong [OF m, of "\<lambda>xs. xs ! i"] that len by simp
    from assms(2) [OF that this [symmetric]] show ?thesis .
  qed
  then have "rels = numbered (length out) (map g [0..<n])"
    using len by (intro nth_equalityI) (simp_all add: numbered_map)
  then show ?thesis using out' each by simp
qed

lemma read_relocation_tables_entries:
  assumes h: "h = elf_header_at is_wide order data" and sections: "sections = map (section_entry limits data names raws) [0..<length raws]"
  shows "read_relocation_tables limits data h sections todo relocs = Inr out \<Longrightarrow> list_all (raw_in_file data) todo \<Longrightarrow>
    out = relocs @ numbered (length relocs) (concat (map (relocations_of is_wide order data raws) todo)) \<and>
    (\<forall>s \<in> set todo. relocations_in_range is_wide order data raws s)"
proof (induction todo arbitrary: relocs)
  case Nil
  then show ?case by (simp add: numbered_def)
next
  case (Cons s todo)
  show ?case
  proof (cases "unat (raw_type s) \<in> {4, 9} \<and> raw_size s \<noteq> 0")
    case False
    then have "read_relocation_tables limits data h sections todo relocs = Inr out"
      using Cons.prems(1) by (auto simp: unat_is split: if_splits)
    moreover have "relocations_of is_wide order data raws s = []" "relocations_in_range is_wide order data raws s"
      using False by (auto simp: relocations_of_def relocations_in_range_def)
    ultimately show ?thesis using Cons by simp
  next
    case True
    let ?bs = "take (unat (raw_size s)) (drop (unat (raw_offset s)) data)"
    let ?base = "relocation_base is_wide order data raws s"
    let ?opts = "relocation_options h sections s" and ?stride = "relocation_stride is_wide s"
    let ?n = "unat (raw_size s) div ?stride"
    let ?machine = "hdr_architecture (elf_header_at is_wide order data)"
    let ?entry = "\<lambda>j. drop (unat (raw_offset s) + j * ?stride) data"
    have opts: "?opts = \<lparr>dec_architecture = ?machine, dec_word_size = (if is_wide then bits64 else bits32),
      dec_byte_order = order, dec_target_section = raw_info s, dec_base_address = ?base,
      dec_entry_size = raw_entry_size s, dec_explicit_addends = (raw_type s = 4)\<rparr>"
    proof -
      have "hdr_kind h = relocatable \<longleftrightarrow> field order 16 2 data = (1 :: u16)" by (simp add: h elf_header_at_def unat_is)
      then show ?thesis
        by (simp add: relocation_options_def relocation_base_def h sections elf_header_at_def section_entry_def Let_def del: code_in.simps)
    qed
    have stride: "unat (elf_entry_size ?opts) = ?stride"
      by (simp add: opts elf_entry_size_def minimum_entry_def relocation_stride_def wide_def unat_is)
    obtain relocs' where d: "decode_elf limits (Some ?bs) (raw_size s) ?opts relocs = (Inr (), relocs')"
      and rest: "read_relocation_tables limits data h sections todo relocs' = Inr out"
      using Cons.prems(1) True by (auto simp: unat_is split: if_splits prod.splits sum.splits)
    have inside: "unat (raw_offset s) + unat (raw_size s) \<le> length data"
      using Cons.prems(2) True by (auto simp: raw_in_file_def unat_is)
    then have len: "length ?bs = unat (raw_size s)" by simp
    note a = decode_elf_appends [OF d len, unfolded stride]
    have "relocs' = relocs @ numbered (length relocs)
          (map (\<lambda>j. relocation_entry is_wide order ?machine ?base s (?entry j)) [0..<?n]) \<and>
        (\<forall>j < ?n. unat ?base + unat (address_field is_wide order 0 0 (?entry j)) < 2 ^ 64)"
    proof (rule append_all_each [OF conjunct2 [OF a]])
      fix i r
      assume i: "i < ?n" and e: "elf_entry ?opts (drop (i * ?stride) ?bs) (length relocs + i) = Some r"
      have "Suc i * ?stride \<le> ?n * ?stride" using i by (intro mult_le_mono1) simp
      also have "?n * ?stride \<le> unat (raw_size s)" by simp
      finally have "i * ?stride + ?stride \<le> unat (raw_size s)" by (simp add: add.commute)
      then have "unat (minimum_entry ?opts) \<le> unat (raw_size s) - i * ?stride"
        using conjunct1 [OF a] by linarith
      moreover have "drop (i * ?stride) ?bs = take (unat (raw_size s) - i * ?stride) (?entry i)"
        by (simp add: drop_take add.commute)
      ultimately show "r = relocation_entry is_wide order ?machine ?base s (?entry i) (length relocs + i) \<and>
          unat ?base + unat (address_field is_wide order 0 0 (?entry i)) < 2 ^ 64"
        using elf_entry_at [OF e [unfolded \<open>drop (i * ?stride) ?bs = _\<close>] _ opts] by blast
    qed
    then have "relocs' = relocs @ numbered (length relocs) (relocations_of is_wide order data raws s)"
      "relocations_in_range is_wide order data raws s"
      using True by (simp_all add: relocations_of_def relocations_in_range_def)
    moreover from this have "length relocs' = length relocs + length (relocations_of is_wide order data raws s)"
      by (simp add: numbered_def)
    ultimately show ?thesis
      using Cons.IH [OF rest] Cons.prems(2) by (simp add: numbered_append)
  qed
qed

section \<open>Properties\<close>

text \<open>A 64-bit big-endian relocatable file: a text section and a table with one relocation for it.\<close>

definition demo_object :: bytes where
  "demo_object = [0x7f, 0x45, 0x4c, 0x46, 2, 2, 1, 0, 0, 0, 0, 0, 0, 0, 0, 0,
     0, 1, 0, 183, 0, 0, 0, 1] @ replicate 16 0 @ replicate 7 0 @ [88] @ [0, 0, 0, 0, 0, 64, 0, 0, 0, 0, 0, 64, 0, 2, 0, 0] @
     [0, 0, 0, 0, 0, 0, 0, 8, 0, 0, 0, 7, 0, 0, 1, 1, 255, 255, 255, 255, 255, 255, 255, 252] @
     [0, 0, 0, 0, 0, 0, 0, 1, 0, 0, 0, 0, 0, 0, 0, 6, 0, 0, 0, 0, 0, 0, 16, 0, 0, 0, 0, 0, 0, 0, 0, 64,
      0, 0, 0, 0, 0, 0, 0, 16] @ replicate 15 0 @ [16] @ replicate 8 0 @
     [0, 0, 0, 0, 0, 0, 0, 4] @ replicate 16 0 @ [0, 0, 0, 0, 0, 0, 0, 64, 0, 0, 0, 0, 0, 0, 0, 24] @
     [0, 0, 0, 0, 0, 0, 0, 0] @ replicate 8 0 @ [0, 0, 0, 0, 0, 0, 0, 24]"

lemma demo_object_parses: "\<not> isl (elf_parse demo_limits (Some demo_object))"
  by code_simp

lemma demo_object_read:
  "elf_word demo_object = True" "elf_order demo_object = big" "length demo_object = 216"
  by code_simp+

lemma demo_object_entries:
  "map sec_permissions (map (section_entry demo_limits demo_object 0 (raw_sections True big demo_object)) [0, 1]) = [5, 1]"
  "numbered 0 (concat (map (relocations_of True big demo_object (raw_sections True big demo_object))
     (raw_sections True big demo_object))) =
   [\<lparr>rel_index = 0, rel_kind = absolute64, rel_target_section = 0, rel_symbol_index = 7, rel_offset = 0x1008,
     rel_addend = - 4, rel_width = 8\<rparr>]"
  by code_simp+

text \<open>
  C2. A successful ELF parse returns exactly what the bytes say, for both word sizes and byte orders, by
  a reading of the format in which none of the parser's or the decoder's functions occurs: the header,
  one section per entry of the section table (name in the string table, kind, alignment, and read, write
  and execute permission from the flag bits), one segment per load entry of the program table, the
  symbols of every symbol table in order, and the relocations of every relocation table in order, each
  with its symbol, kind, addend and width and its target from the base of its section, which does not
  wrap around. Nothing else is in the image, and both table counts are within the limits.
\<close>

theorem elf_parse_exact:
  assumes "elf_parse limits (Some data) = Inr img" "length data < 2 ^ 64"
  shows "let w = elf_word data; order = elf_order data; h = header_fields w order data;
      raws = raw_sections w order data in
    img = empty_image\<lparr>img_header := elf_header_at w order data,
      img_sections := map (section_entry limits data (unat (eh_names_index h)) raws) [0..<length raws],
      img_segments := load_segments w order data,
      img_symbols := numbered 0 (concat (map (symbols_of limits data w order raws) raws)),
      img_relocations := numbered 0 (concat (map (relocations_of w order data raws) raws)),
      img_file_data := Some data\<rparr> \<and>
    (\<forall>s \<in> set raws. relocations_in_range w order data raws s) \<and>
    unat (eh_section_count h) \<le> unat (max_sections limits) \<and>
    unat (eh_program_count h) \<le> unat (max_segments limits)"
proof -
  let ?w = "elf_word data" and ?order = "elf_order data"
  let ?h = "header_fields ?w ?order data" and ?raws = "raw_sections ?w ?order data"
  let ?sections = "map (section_entry limits data (unat (eh_names_index ?h)) ?raws) [0..<length ?raws]"
  obtain r' where "elf_body limits data ?w ?order (reader_of data ?order) = (Inr img, r')"
    using elf_parse_body [OF assms(1)] by blast
  note f = elf_body_fields [OF this assms(2), unfolded Let_def]
  have h: "img_header img = elf_header_at ?w ?order data" using f elf_header_code by simp
  have s: "img_sections img = ?sections"
    using f by (simp add: elf_sections_def Let_def elf_section_entry [OF assms(2)])
  have "read_relocation_tables limits data (img_header img) (img_sections img) ?raws [] = Inr (img_relocations img)"
    "list_all (raw_in_file data) ?raws"
    using f by blast+
  note r = read_relocation_tables_entries [OF h s this]
  have t: "table_symbols limits data ?w ?order ?raws = symbols_of limits data ?w ?order ?raws"
    by (rule ext) (rule table_symbols_entries [OF assms(2)])
  have "img = empty_image\<lparr>img_header := elf_header_at ?w ?order data, img_sections := ?sections,
      img_segments := load_segments ?w ?order data,
      img_symbols := numbered 0 (concat (map (symbols_of limits data ?w ?order ?raws) ?raws)),
      img_relocations := numbered 0 (concat (map (relocations_of ?w ?order data ?raws) ?raws)),
      img_file_data := Some data\<rparr>"
    using f r unfolding t
    by (intro BinaryImage.equality) (simp_all add: h s program_segments_entries empty_image_def)
  then show ?thesis using f r unfolding Let_def by blast
qed

theorem elf_parse_exact_witness:
  "\<exists>img. elf_parse demo_limits (Some demo_object) = Inr img \<and> map sec_permissions (img_sections img) = [5, 1] \<and>
    img_relocations img = [\<lparr>rel_index = 0, rel_kind = absolute64, rel_target_section = 0, rel_symbol_index = 7,
      rel_offset = 0x1008, rel_addend = - 4, rel_width = 8\<rparr>]"
proof -
  obtain img where p: "elf_parse demo_limits (Some demo_object) = Inr img"
    using demo_object_parses by (metis sum.collapse(2))
  have "length demo_object < 2 ^ 64" unfolding demo_object_read by simp
  note e = elf_parse_exact [OF p this, unfolded demo_object_read Let_def]
  have n: "unat (eh_names_index (header_fields True big demo_object)) = 0"
    "[0..<length (raw_sections True big demo_object)] = [0, 1]"
    by code_simp+
  have "img_sections img = map (section_entry demo_limits demo_object 0 (raw_sections True big demo_object)) [0, 1]"
    "img_relocations img = numbered 0 (concat (map (relocations_of True big demo_object (raw_sections True big demo_object))
      (raw_sections True big demo_object)))"
    using e unfolding n by simp_all
  then show ?thesis using p demo_object_entries by simp
qed

end
