(* ===== verification/Pe_Format.thy ===== *)
theory Pe_Format
  imports Pe_Image Elf_Format
begin

unbundle bit_operations_syntax

text \<open>
  The PE format as \<open>PeParser::parse\<close> takes it, written down from the bytes alone: the headers by the
  offsets of their fields, tables of the numeric codes, flags as single bits, base relocation blocks as
  their bytes, and the place of the relocation directory by the ranges of the sections. None of the
  parser's, decoder's or address translator's functions occurs here; the theorem at the end says that a
  successful parse returns just this. One thing is not the format's: the flags of a section are the
  four bytes after its 40-byte header, where the format has them at offset 36 of the header. The offset
  is an argument of the reading, and the theorem holds at 40.
\<close>

section \<open>Headers\<close>

text \<open>The optional header is 24 bytes on from the PE signature, in 32-bit arithmetic.\<close>

definition optional_at :: "bytes \<Rightarrow> nat" where
  "optional_at data = unat (pe_base data + 24)"

definition optional_is_wide :: "bytes \<Rightarrow> bool" where
  "optional_is_wide data \<longleftrightarrow> field little (optional_at data) 2 data = (0x20b :: u16)"

definition image_base_at :: "bytes \<Rightarrow> u64" where
  "image_base_at data =
    (if optional_is_wide data then field little (optional_at data + 24) 8 data
     else ucast (field little (optional_at data + 28) 4 data :: u32))"

definition section_table_at :: "bytes \<Rightarrow> nat" where
  "section_table_at data = optional_at data + unat (ph_optional_size (pe_header_fields data))"

definition machine_codes :: "(nat \<times> Architecture) list" where
  "machine_codes = [(0x14c, x86), (0x8664, x86_64), (0x1c0, arm), (0x1c4, arm), (0xaa64, arm64),
     (0x5032, riscv32), (0x5064, riscv64)]"

definition pe_header_at :: "bytes \<Rightarrow> FileHeader" where
  "pe_header_at data = (let h = pe_header_fields data in
    \<lparr>hdr_format = pe_like, hdr_word_size = (if optional_is_wide data then bits64 else bits32),
     hdr_byte_order = little, hdr_kind = (if bit (ph_characteristics h) 13 then shared_library else executable),
     hdr_architecture = code_in machine_codes arch_unknown (unat (ph_machine h)),
     hdr_entry_point = image_base_at data + ucast (field little (optional_at data + 16) 4 data :: u32),
     hdr_image_base = image_base_at data, hdr_section_table_offset = of_nat (section_table_at data),
     hdr_segment_table_offset = 0, hdr_section_count = ucast (ph_sections h), hdr_segment_count = 0,
     hdr_flags = ucast (ph_characteristics h)\<rparr>)"

section \<open>Sections and segments\<close>

definition named_section_kind :: "string \<Rightarrow> u32 \<Rightarrow> SectionKind" where
  "named_section_kind name flags =
    (if take 6 name = ''.debug'' then debug
     else case map_of [(''.idata'', import_section), (''.edata'', export_section), (''.reloc'', relocations),
         (''.rsrc'', resources)] name of
       Some kind \<Rightarrow> kind
     | None \<Rightarrow> if bit flags 7 then no_bits else program_bits)"

text \<open>The section header at the given place, whose flags are \<open>flags_at\<close> bytes on from there.\<close>

definition pe_section_entry :: "nat \<Rightarrow> bytes \<Rightarrow> nat \<Rightarrow> Section" where
  "pe_section_entry flags_at data i =
    (let bs = drop (section_table_at data + i * 40) data;
         name = string_of_bytes (takeWhile (\<lambda>b. b \<noteq> 0) (take 8 bs));
         in_memory = ucast (field little 8 4 bs :: u32); in_file = ucast (field little 16 4 bs :: u32);
         flags = field little flags_at 4 bs :: u32 in
     \<lparr>sec_index = of_nat i, sec_name = name, sec_kind = named_section_kind name flags,
      sec_file_offset = ucast (field little 20 4 bs :: u32), sec_file_size = in_file,
      sec_virtual_address = ucast (field little 12 4 bs :: u32), sec_memory_size = max in_memory in_file,
      sec_alignment = ucast (field little (optional_at data + 32) 4 data :: u32), sec_entry_size = 0,
      sec_link = 0, sec_info = 0, sec_permissions = access_bits (bit flags 30) (bit flags 31) (bit flags 29)\<rparr>)"

definition pe_section_entries :: "nat \<Rightarrow> bytes \<Rightarrow> Section list" where
  "pe_section_entries flags_at data =
    map (pe_section_entry flags_at data) [0..<unat (ph_sections (pe_header_fields data))]"

definition segment_like :: "Section \<Rightarrow> Segment" where
  "segment_like s =
    \<lparr>seg_index = sec_index s, seg_file_offset = sec_file_offset s, seg_file_size = sec_file_size s,
     seg_virtual_address = sec_virtual_address s, seg_memory_size = sec_memory_size s,
     seg_alignment = sec_alignment s, seg_permissions = sec_permissions s, seg_sections = [sec_index s]\<rparr>"

section \<open>Symbols\<close>

text \<open>
  A record of 18 bytes: its name in place, or in the string table, which follows the records, when the
  first four bytes are zero.
\<close>

definition coff_symbol :: "bytes \<Rightarrow> nat \<Rightarrow> nat \<Rightarrow> bytes \<Rightarrow> nat \<Rightarrow> Symbol" where
  "coff_symbol data strings strings_size bs index =
    (let name_at = unat (field little 4 4 bs :: u32) in
     \<lparr>sym_index = of_nat index,
      sym_name = (if field little 0 4 bs = (0 :: u32) \<and> name_at < strings_size
        then text_at data (unat (of_nat (strings + name_at) :: u64)) (strings_size - name_at)
        else string_of_bytes (takeWhile (\<lambda>b. b \<noteq> 0) (take 8 bs))),
      sym_binding = (if bs ! 16 = 2 then global else local_binding),
      sym_kind = (if bit (field little 14 2 bs :: u16) 5 then function_symbol else symbol_unknown),
      sym_section_index = ucast (field little 12 2 bs :: u16), sym_value = ucast (field little 8 4 bs :: u32),
      sym_size = 0, sym_visibility = 0, sym_library = []\<rparr>)"

text \<open>The table is taken when it lies in the file and its count is within the limit; else there are no symbols.\<close>

definition coff_symbols :: "Limits \<Rightarrow> bytes \<Rightarrow> Symbol list" where
  "coff_symbols limits data =
    (let h = pe_header_fields data; count = unat (ph_symbol_count h); at = unat (ph_symbol_offset h);
         strings = at + count * 18;
         strings_size = (if strings + 4 \<le> length data then unat (field little strings 4 data :: u32) else 0) in
     if ph_symbol_count h \<le> max_symbols limits \<and> strings \<le> length data then
       map (\<lambda>(k, i). coff_symbol data strings strings_size (drop (at + i * 18) data) k)
         (enumerate 0 (symbol_slots (\<lambda>i. unat (data ! (at + i * 18 + 17))) count 0))
     else [])"

section \<open>Base relocations\<close>

text \<open>Entry 5 of the directory table, when the optional header has one and it is not empty.\<close>

definition relocation_directory_at :: "bytes \<Rightarrow> (nat \<times> nat) option" where
  "relocation_directory_at data =
    (let count_at = optional_at data + (if optional_is_wide data then 108 else 92);
         table = count_at + 4; n = min 16 (unat (field little count_at 4 data :: u32));
         len = unat (field little (table + 44) 4 data :: u32) in
     if table \<le> length data \<and> 5 < n \<and> table + n * 8 \<le> section_table_at data \<and> len \<noteq> 0
     then Some (unat (field little (table + 40) 4 data :: u32), len) else None)"

definition within :: "nat \<Rightarrow> nat \<Rightarrow> u64 \<Rightarrow> u64 \<Rightarrow> bool" where
  "within x len start room \<longleftrightarrow> unat start \<le> x \<and> x + len \<le> unat start + unat room"

text \<open>
  Where the bytes of a relative address are: in the first section whose file data has them; but a
  section that has the absolute address in its memory and its file data comes first.
\<close>

definition place_in_sections :: "Section list \<Rightarrow> nat \<Rightarrow> nat \<Rightarrow> nat \<Rightarrow> nat option" where
  "place_in_sections sections image_base rva len =
    (let at = \<lambda>x s. unat (sec_file_offset s) + (x - unat (sec_virtual_address s));
         in_file = \<lambda>x s. within x len (sec_virtual_address s) (sec_file_size s);
         relative = map_option (at rva) (find (in_file rva) sections); x = image_base + rva in
     if image_base = 0 then relative
     else if x \<ge> 2 ^ 64 then None
     else case find (\<lambda>s. within x len (sec_virtual_address s) (sec_memory_size s)) sections of
       Some s \<Rightarrow> if in_file x s then Some (at x s) else relative
     | None \<Rightarrow> relative)"

text \<open>A record of a block: its type in the upper four bits, the place in the page in the lower twelve.\<close>

definition block_record :: "u64 \<Rightarrow> u32 \<Rightarrow> u16 \<Rightarrow> nat \<Rightarrow> Relocation" where
  "block_record image_base page record index =
    (let kind = code_in [(1, (high16, 2)), (2, (low16, 2)), (3, (relative32, 4)), (10, (relative64, 8))]
       (reloc_none, 0) (unat (drop_bit 12 record)) in
     \<lparr>rel_index = of_nat index, rel_kind = fst kind, rel_target_section = 0, rel_symbol_index = 0,
      rel_offset = image_base + ucast page + ucast (take_bit 12 record), rel_addend = 0, rel_width = snd kind\<rparr>)"

text \<open>Records of type 0 pad a block.\<close>

definition block_records :: "u64 \<Rightarrow> pe_block \<Rightarrow> (nat \<Rightarrow> Relocation) list" where
  "block_records image_base b =
    map (block_record image_base (fst b)) (filter (\<lambda>e. drop_bit 12 e \<noteq> 0) (snd b))"

definition block_in_range :: "u64 \<Rightarrow> pe_block \<Rightarrow> bool" where
  "block_in_range image_base b \<longleftrightarrow> (\<forall>e \<in> set (snd b). drop_bit 12 e \<noteq> 0 \<longrightarrow>
    unat image_base + unat (fst b) + unat (take_bit 12 e) < 2 ^ 64)"

section \<open>The vocabulary of the parser\<close>

lemma and_bit: "(a AND m \<noteq> 0) = bit a n" if "m = 2 ^ n" for a m :: "'a::len word"
  using and_exp_eq_0_iff_not_bit [of a n] that by simp

lemma pe_arch_code: "pe_arch m = code_in machine_codes arch_unknown (unat m)"
  by (simp add: pe_arch_def machine_codes_def unat_is)

lemma pe_permissions_bits: "pe_permissions f = access_bits (bit f 30) (bit f 31) (bit f 29)"
  using and_bit [of "0x40000000" 30 f] and_bit [of "0x80000000" 31 f] and_bit [of "0x20000000" 29 f]
  unfolding pe_permissions_def by (simp add: or_is_sum)

lemma pe_section_kind_named: "pe_section_kind name flags = named_section_kind name flags"
  using and_bit [of "0x80" 7 flags]
  by (simp add: pe_section_kind_def named_section_kind_def debug_name_def)

lemma optional_offset_at: "unat (optional_offset (pe_base data)) = optional_at data"
  by (simp add: optional_offset_def optional_at_def)

lemma optional_at_bound: "optional_at data < 2 ^ 32"
  using unat_u32_bound [of "pe_base data + 24"] by (simp add: optional_at_def)

lemma pe_table_offset_at: "unat (pe_table_offset data) = section_table_at data"
proof -
  have "unat (ph_optional_size (pe_header_fields data)) < 2 ^ 16"
    by (rule less_le_trans [OF unsigned_less]) simp
  then show ?thesis
    using optional_at_bound [of data] unfolding pe_table_offset_def section_table_at_def
    by (subst unat_plus_bounded) (simp_all add: optional_offset_at)
qed

lemma wide_optional: "po_wide (pe_optional_fields data) = optional_is_wide data"
  by (simp add: pe_optional_fields_def optional_is_wide_def optional_offset_at field_shift Let_def)

lemma optional_base: "po_image_base (pe_optional_fields data) = image_base_at data"
  by (simp add: pe_optional_fields_def image_base_at_def optional_is_wide_def optional_offset_at field_shift Let_def)

lemma optional_fields_at:
  "po_entry (pe_optional_fields data) = field little (optional_at data + 16) 4 data"
  "po_section_alignment (pe_optional_fields data) = field little (optional_at data + 32) 4 data"
  by (simp_all add: pe_optional_fields_def optional_offset_at field_shift Let_def)

lemma pe_header_code:
  "pe_header_of (pe_header_fields data) (pe_optional_fields data) (pe_table_offset data) = pe_header_at data"
proof -
  have "pe_table_offset data = of_nat (section_table_at data)" by (simp flip: pe_table_offset_at)
  moreover have "(c AND 0x2000 \<noteq> 0) = bit c 13" for c :: u16 by (rule and_bit) simp
  ultimately show ?thesis
    unfolding pe_header_of_def pe_header_at_def Let_def wide_optional optional_base optional_fields_at pe_arch_code
    by simp
qed

lemma pe_section_at_entry: "pe_section_at data i = pe_section_entry 40 data i"
  unfolding pe_section_at_def pe_section_entry_def pe_table_offset_at optional_fields_at pe_permissions_bits
    pe_section_kind_named Let_def
  by simp

lemma pe_sections_entries: "pe_sections data = pe_section_entries 40 data"
  by (simp add: pe_sections_def pe_section_entries_def pe_section_at_entry)

lemma section_segment_like: "section_segment s = segment_like s"
  by (simp add: section_segment_def segment_like_def)

section \<open>The symbol table\<close>

lemma c_string_text:
  assumes "length data < 2 ^ 64"
  shows "(case read_c_string (reader_of data little) at room of None \<Rightarrow> [] | Some name \<Rightarrow> name) =
    text_at data (unat at) (unat room)"
proof -
  have size: "unat (of_nat (length data) :: u64) = length data"
    using assms by (simp add: unat_of_nat_u64 del: unsigned_of_nat)
  have "(at > of_nat (length data) \<or> room > of_nat (length data) - at) \<longleftrightarrow> \<not> unat at + unat room \<le> length data"
    by (cases "at \<le> of_nat (length data)")
      (auto simp: word_less_nat_alt word_le_nat_alt not_le not_less unat_minus_bounded size)
  then show ?thesis
    by (simp add: read_c_string_def reader_of_def make_reader_def Let_def text_at_def)
qed

lemma pe_symbol_at_coff:
  assumes "length data < 2 ^ 64"
  shows "pe_symbol_at data base room bs index = coff_symbol data (unat base) (unat room) bs index"
proof -
  let ?n = "field little 4 4 bs :: u32"
  have strings: "(case read_c_string (reader_of data little) (base + ucast ?n) (ucast (room - ?n)) of
        None \<Rightarrow> [] | Some name \<Rightarrow> name) =
      text_at data (unat (of_nat (unat base + unat ?n) :: u64)) (unat room - unat ?n)" if "?n < room"
  proof -
    have "unat (room - ?n) = unat room - unat ?n" using that by (simp add: unat_minus_bounded)
    moreover have "base + ucast ?n = of_nat (unat base + unat ?n)" by simp
    ultimately show ?thesis using c_string_text [OF assms, of "base + ucast ?n" "ucast (room - ?n)"] by simp
  qed
  have kind: "(field little 14 2 bs AND 0x20 \<noteq> (0 :: u16)) = bit (field little 14 2 bs :: u16) 5" by (rule and_bit) simp
  have lt: "?n < room \<longleftrightarrow> unat ?n < unat room" by (simp add: word_less_nat_alt)
  show ?thesis
    using strings unfolding pe_symbol_at_def coff_symbol_def pe_symbol_text_def Let_def kind lt by simp
qed

lemma pe_symbol_table_coff:
  assumes "length data < 2 ^ 64"
  shows "pe_symbol_table limits data = coff_symbols limits data"
proof -
  let ?h = "pe_header_fields data"
  let ?count = "ph_symbol_count ?h" and ?offset = "ucast (ph_symbol_offset ?h) :: u64"
  let ?table = "ucast ?count * 18 :: u64"
  have size: "unat (of_nat (length data) :: u64) = length data"
    using assms by (simp add: unat_of_nat_u64 del: unsigned_of_nat)
  have t: "unat ?table = unat ?count * 18"
    using unat_u32_bound [of ?count] by (subst unat_mult_lem [THEN iffD1]) simp_all
  have b: "unat (?offset + ?table) = unat (ph_symbol_offset ?h) + unat ?count * 18"
    using unat_u32_bound [of ?count] unat_u32_bound [of "ph_symbol_offset ?h"]
    by (subst unat_plus_bounded) (simp_all add: t)
  have some: "?count \<noteq> 0 \<longleftrightarrow> unat ?count \<noteq> 0" by (simp add: unat_eq_0)
  have room: "unat (if q then field little n 4 data else 0 :: u32) = (if q then unat (field little n 4 data :: u32) else 0)"
    for q n by simp
  have empty: "symbol_slots aux 0 0 = []" for aux by (simp add: symbol_slots.simps)
  show ?thesis
    unfolding pe_symbol_table_def coff_symbols_def pe_symbol_list_def Let_def pe_symbol_at_coff [OF assms]
      range_inside_iff size t b some room
    by (cases "unat ?count = 0") (simp_all add: empty)
qed

section \<open>The relocation directory and its blocks\<close>

lemma pe_directory_at:
  assumes "length data < 2 ^ 64"
  shows "(case pe_directory data of (rva, len) \<Rightarrow> if len = 0 then None else Some (unat rva, unat len)) =
    relocation_directory_at data"
proof -
  let ?o = "optional_offset (pe_base data)" and ?k = "if optional_is_wide data then 108 else 92 :: nat"
  have size: "unat (of_nat (length data) :: u64) = length data"
    using assms by (simp add: unat_of_nat_u64 del: unsigned_of_nat)
  have at: "unat (?o + of_nat n) = optional_at data + n" if "n < 1000" for n
    using that optional_at_bound [of data] by (subst unat_plus_bounded) (simp_all add: optional_offset_at unat_of_nat_u64 del: unsigned_of_nat)
  have c: "unat (?o + (if optional_is_wide data then 108 else 92)) = optional_at data + ?k"
    using at [of 108] at [of 92] by simp
  have tab: "unat (?o + (if optional_is_wide data then 112 else 96)) = optional_at data + ?k + 4"
    "unat (?o + (if optional_is_wide data then 112 else 96) + 40) = optional_at data + ?k + 4 + 40"
    using at [of 112] at [of 96] at [of 152] at [of 136] by (simp_all add: add.assoc)
  have n: "unat (ucast (min m 16) * 8 :: u64) = min 16 (unat m) * 8" "5 < min m 16 \<longleftrightarrow> 5 < min 16 (unat m)" for m :: u32
  proof -
    have k: "unat (min m 16) = min 16 (unat m)" by (simp add: min_def word_le_nat_alt)
    then show "5 < min m 16 \<longleftrightarrow> 5 < min 16 (unat m)" by (simp only: word_less_nat_alt) simp
    show "unat (ucast (min m 16) * 8 :: u64) = min 16 (unat m) * 8"
      using k by (subst unat_mult_lem [THEN iffD1]) simp_all
  qed
  show ?thesis
    unfolding pe_directory_def directory_fields_def directory_has_def Let_def wide_optional range_inside_iff size c tab n
      pe_table_offset_at relocation_directory_at_def
    by (simp add: unat_eq_0)
qed

definition filled_section :: "nat \<Rightarrow> Section \<Rightarrow> bool" where
  "filled_section len s \<longleftrightarrow> section_in_file len s \<and> unat (sec_file_size s) \<le> unat (sec_memory_size s)"

lemma displacement_within:
  "\<not> x < start \<Longrightarrow> range_inside (x - start) len room \<longleftrightarrow> within (unat x) (unat len) start room"
  by (auto simp: range_inside_iff within_def unat_minus_bounded not_less word_le_nat_alt)

lemma within_start: "x < start \<Longrightarrow> \<not> within (unat x) n start room"
  by (simp add: within_def word_less_nat_alt)

lemma place_offset:
  assumes "section_in_file n s" "n < 2 ^ 64" "within (unat x) (unat len) (sec_virtual_address s) (sec_file_size s)" "len \<noteq> 0"
  shows "checked_add (sec_file_offset s) (x - sec_virtual_address s) = Some (sec_file_offset s + (x - sec_virtual_address s))"
    "unat (sec_file_offset s + (x - sec_virtual_address s)) = unat (sec_file_offset s) + (unat x - unat (sec_virtual_address s))"
proof -
  have le: "unat (sec_virtual_address s) \<le> unat x" "0 < unat len"
    "unat x + unat len \<le> unat (sec_virtual_address s) + unat (sec_file_size s)"
    using assms(3,4) by (simp_all add: within_def unat_gt_0)
  then have d: "unat (x - sec_virtual_address s) = unat x - unat (sec_virtual_address s)"
    by (simp add: unat_minus_bounded word_le_nat_alt)
  have "sec_file_size s \<noteq> 0" using le by auto
  then have "unat (sec_file_offset s) + unat (sec_file_size s) \<le> n" using assms(1) by (simp add: section_in_file_def)
  then have room: "unat (sec_file_offset s) + unat (x - sec_virtual_address s) < 2 ^ 64" using le d assms(2) by linarith
  then show "unat (sec_file_offset s + (x - sec_virtual_address s)) = unat (sec_file_offset s) + (unat x - unat (sec_virtual_address s))"
    by (subst unat_plus_bounded) (simp_all add: d)
  show "checked_add (sec_file_offset s) (x - sec_virtual_address s) = Some (sec_file_offset s + (x - sec_virtual_address s))"
    using room by (simp add: add_op.Some_iff) (subst unat_plus_bounded; simp)
qed

lemma scan_section_rva:
  assumes "list_all (filled_section n) sections" "n < 2 ^ 64" "len \<noteq> 0"
  shows "map_option (\<lambda>at. unat (fa_offset at)) (case scan_first (section_rva x len) sections of stop r \<Rightarrow> r | skip \<Rightarrow> None) =
    map_option (\<lambda>s. unat (sec_file_offset s) + (unat x - unat (sec_virtual_address s)))
      (find (\<lambda>s. within (unat x) (unat len) (sec_virtual_address s) (sec_file_size s)) sections)"
  using assms(1)
proof (induction sections)
  case (Cons s sections)
  show ?case
  proof (cases "within (unat x) (unat len) (sec_virtual_address s) (sec_file_size s)")
    case True
    then have "\<not> x < sec_virtual_address s" using within_start by blast
    moreover have "section_in_file n s" using Cons.prems by (simp add: filled_section_def)
    note p = place_offset [OF this assms(2) True assms(3)]
    ultimately show ?thesis using True by (simp add: section_rva_def Let_def displacement_within p)
  next
    case False
    then have "section_rva x len s = skip"
      by (auto simp: section_rva_def Let_def displacement_within)
    then show ?thesis using False Cons by simp
  qed
qed simp

lemma virtual_to_file_sections:
  assumes "list_all (filled_section n) (img_sections img)" "n < 2 ^ 64" "len \<noteq> 0"
    and segs: "img_segments img = map segment_like (img_sections img)"
  shows "map_option (\<lambda>at. unat (fa_offset at)) (virtual_to_file img x len) =
    (case find (\<lambda>s. within (unat x) (unat len) (sec_virtual_address s) (sec_memory_size s)) (img_sections img) of
       None \<Rightarrow> None
     | Some s \<Rightarrow> if within (unat x) (unat len) (sec_virtual_address s) (sec_file_size s)
         then Some (unat (sec_file_offset s) + (unat x - unat (sec_virtual_address s))) else None)"
proof -
  let ?mem = "\<lambda>s. within (unat x) (unat len) (sec_virtual_address s) (sec_memory_size s)"
  have no_segment: "scan_first (segment_to_file x len) (map segment_like sections) = skip"
    if "list_all (filled_section n) sections" "find ?mem sections = None" for sections
    using that
  proof (induction sections)
    case (Cons s sections)
    then have "\<not> within (unat x) (unat len) (sec_virtual_address s) (sec_file_size s)"
      by (auto simp: within_def filled_section_def split: if_splits)
    then have "segment_to_file x len (segment_like s) = skip"
      by (auto simp: segment_to_file_def segment_like_def Let_def displacement_within)
    then show ?case using Cons by (auto split: if_splits)
  qed simp
  have scan: "scan_first (section_to_file x len) sections = (case find ?mem sections of
       None \<Rightarrow> skip
     | Some s \<Rightarrow> section_to_file x len s)" if "list_all (filled_section n) sections" for sections
    using that
  proof (induction sections)
    case (Cons s sections)
    show ?case
    proof (cases "?mem s")
      case True
      then have "section_to_file x len s \<noteq> skip"
        using within_start by (auto simp: section_to_file_def Let_def displacement_within split: option.split)
      then show ?thesis using True by (simp split: scan.split)
    next
      case False
      then have "section_to_file x len s = skip"
        by (auto simp: section_to_file_def Let_def displacement_within)
      then show ?thesis using False Cons by simp
    qed
  qed simp
  show ?thesis
  proof (cases "find ?mem (img_sections img)")
    case None
    then show ?thesis
      unfolding virtual_to_file_def scan_sections_then_segments_def scan [OF assms(1)] segs
      using no_segment [OF assms(1) None] by simp
  next
    case (Some s)
    then have s: "?mem s" "s \<in> set (img_sections img)" by (auto simp: find_Some_iff)
    then have low: "\<not> x < sec_virtual_address s" using within_start by blast
    have f: "section_in_file n s" using s(2) assms(1) by (auto simp: list_all_iff filled_section_def)
    show ?thesis
    proof (cases "within (unat x) (unat len) (sec_virtual_address s) (sec_file_size s)")
      case True
      note p = place_offset [OF f assms(2) True assms(3)]
      show ?thesis
        unfolding virtual_to_file_def scan_sections_then_segments_def scan [OF assms(1)]
        using Some s(1) low True by (simp add: section_to_file_def Let_def displacement_within p)
    next
      case False
      then show ?thesis
        unfolding virtual_to_file_def scan_sections_then_segments_def scan [OF assms(1)]
        using Some s(1) low by (simp add: section_to_file_def Let_def displacement_within)
    qed
  qed
qed

lemma rva_to_file_place:
  assumes "list_all (filled_section n) (img_sections img)" "n < 2 ^ 64" "len \<noteq> 0"
    and "img_segments img = map segment_like (img_sections img)"
  shows "map_option (\<lambda>at. unat (fa_offset at)) (rva_to_file img rva len) =
    place_in_sections (img_sections img) (unat (hdr_image_base (img_header img))) (unat rva) (unat len)"
proof -
  let ?base = "hdr_image_base (img_header img)"
  note rel = scan_section_rva [OF assms(1-3), of rva]
  note virt = virtual_to_file_sections [OF assms]
  show ?thesis
  proof (cases "?base = 0")
    case True
    then show ?thesis using rel by (simp add: rva_to_file_def place_in_sections_def Let_def)
  next
    case False
    then have b: "unat ?base \<noteq> 0" by (simp add: unat_eq_0)
    show ?thesis
    proof (cases "checked_add ?base rva")
      case None
      then have "unat ?base + unat rva \<ge> 2 ^ 64" by (simp add: add_op.None_iff)
      then show ?thesis using False b None by (simp add: rva_to_file_def place_in_sections_def Let_def)
    next
      case (Some x)
      then have x: "unat x = unat ?base + unat rva" by (simp add: add_op.Some_iff)
      then have "\<not> unat ?base + unat rva \<ge> 2 ^ 64" using unat_u64_bound [of x] by simp
      then show ?thesis
        using False b Some rel virt [of x]
        by (auto simp: rva_to_file_def place_in_sections_def Let_def x split: option.splits if_splits)
    qed
  qed
qed

lemma append_all_pairs:
  "list_all2 (\<lambda>f g. \<forall>i r. f i = Some r \<longrightarrow> r = g i) fs gs \<Longrightarrow> append_all limits fs out = Some out' \<Longrightarrow>
   out' = out @ numbered (length out) gs \<and> (\<forall>f \<in> set fs. \<exists>i. f i \<noteq> None)"
proof (induction arbitrary: out rule: list_all2_induct)
  case (Cons f fs g gs)
  then obtain r where r: "f (length out) = Some r" "append_all limits fs (out @ [r]) = Some out'"
    by (auto split: option.splits if_splits)
  then have "r = g (length out)" using Cons.hyps by blast
  then show ?case using Cons.IH [OF r(2)] r(1) by (auto simp: numbered_def)
qed (simp add: numbered_def)

lemma record_type: "unat (ucast (drop_bit 12 e) :: u8) = unat (drop_bit 12 e)" for e :: u16
proof -
  have "unat e < 2 ^ 16" by (rule less_le_trans [OF unsigned_less]) simp
  then have "unat (drop_bit 12 e) < 256" by (simp add: unat_drop_bit_eq drop_bit_nat_def)
  then show ?thesis
    by (simp add: unsigned_ucast_eq unsigned_take_bit_eq take_bit_nat_eq_self del: unsigned_drop_bit_eq ucast_drop_bit_eq)
qed

lemma record_padding: "ucast (drop_bit 12 e) \<noteq> (0 :: u8) \<longleftrightarrow> drop_bit 12 e \<noteq> 0" for e :: u16
  using record_type [of e] by (metis unat_eq_zero)

lemma pe_kind_code: "pe_relocation i target (ucast (drop_bit 12 (e :: u16))) =
   (let kind = code_in [(1, (high16, 2)), (2, (low16, 2)), (3, (relative32, 4)), (10, (relative64, 8))] (reloc_none, 0)
       (unat (drop_bit 12 e)) in
    \<lparr>rel_index = of_nat i, rel_kind = fst kind, rel_target_section = 0, rel_symbol_index = 0,
     rel_offset = target, rel_addend = 0, rel_width = snd kind\<rparr>)"
  by (simp add: pe_relocation_def Let_def unat_is record_type del: unsigned_drop_bit_eq ucast_drop_bit_eq)

lemma pe_entry_record:
  assumes "pe_entry image_base page e i = Some r"
  shows "r = block_record image_base page e i \<and> unat image_base + unat page + unat (take_bit 12 e) < 2 ^ 64"
proof -
  have m: "e AND 0xfff = take_bit 12 e" by (simp add: take_bit_eq_mask mask_eq_exp_minus_1)
  obtain target where t: "pe_target image_base page (take_bit 12 e) = Some target"
    and r: "r = pe_relocation i target (ucast (drop_bit 12 e))"
    using assms unfolding pe_entry_def m by auto
  obtain a where a: "checked_add image_base (ucast page) = Some a" "checked_add a (ucast (take_bit 12 e)) = Some target"
    using t by (auto simp: pe_target_def split: option.splits)
  have sum: "unat target = unat image_base + unat page + unat (take_bit 12 e)"
    using a by (simp add: add_op.Some_iff del: unsigned_take_bit_eq)
  have "target = image_base + ucast page + ucast (take_bit 12 e)"
    using a by (simp add: checked_add_def split: if_splits)
  then show ?thesis
    using sum unat_u64_bound [of target] unfolding r pe_kind_code block_record_def Let_def by simp
qed

lemma block_entries:
  "list_all2 (\<lambda>f g. \<forall>i r. f i = Some r \<longrightarrow> r = g i)
     (concat (map (pe_entries image_base) blocks)) (concat (map (block_records image_base) blocks))"
proof (induction blocks)
  case (Cons b blocks)
  have "pe_entries image_base b = map (pe_entry image_base (fst b)) (filter (\<lambda>e. drop_bit 12 e \<noteq> 0) (snd b))"
    by (simp only: pe_entries_def record_padding)
  then have "list_all2 (\<lambda>f g. \<forall>i r. f i = Some r \<longrightarrow> r = g i) (pe_entries image_base b) (block_records image_base b)"
    by (auto simp: block_records_def list_all2_map1 list_all2_map2 list_all2_same dest: pe_entry_record)
  then show ?case using Cons by (simp add: list_all2_appendI)
qed simp

lemma pe_relocations_blocks:
  assumes p: "pe_relocations limits data img rva len = Inr relocs" and len: "len \<noteq> 0" and data: "length data < 2 ^ 64"
    and img: "list_all (filled_section (length data)) (img_sections img)" "img_segments img = map segment_like (img_sections img)"
  shows "\<exists>at blocks. place_in_sections (img_sections img) (unat (hdr_image_base (img_header img))) (unat rva) (unat len) = Some at \<and>
    at + unat len \<le> length data \<and> take (unat len) (drop at data) = concat (map pe_block_bytes blocks) \<and>
    (\<forall>b \<in> set blocks. pe_block_size b < 2 ^ 32 \<and> block_in_range (hdr_image_base (img_header img)) b) \<and>
    relocs = numbered 0 (concat (map (block_records (hdr_image_base (img_header img))) blocks))"
proof -
  let ?base = "hdr_image_base (img_header img)"
  obtain at where at: "rva_to_file img (ucast rva) (ucast len) = Some at"
    and inside: "range_inside (fa_offset at) (ucast len) (of_nat (length data))"
    and d: "decode_pe_base limits (Some (take (unat len) (drop (unat (fa_offset at)) data))) (ucast len) ?base [] = (Inr (), relocs)"
    using p len by (auto simp: pe_relocations_def split: option.splits if_splits prod.splits sum.splits)
  let ?bs = "take (unat len) (drop (unat (fa_offset at)) data)"
  have in_data: "unat (fa_offset at) + unat len \<le> length data"
    using inside data by (simp add: range_inside_iff unat_of_nat_u64 del: unsigned_of_nat)
  have "(ucast len :: u64) \<noteq> 0" using len by (simp add: word_unat_eq_iff)
  then have place: "place_in_sections (img_sections img) (unat ?base) (unat rva) (unat len) = Some (unat (fa_offset at))"
    using rva_to_file_place [OF img(1) data _ img(2), of "ucast len" "ucast rva"] at by simp
  have "table_reader ?bs little (make_reader (Some ?bs) (ucast len) little)"
    using in_data by (intro table_reader_make) simp
  then have l: "lit (make_reader (Some ?bs) (ucast len) little)" by (simp add: lit_def table_reader_def)
  have rest: "rd_rest (make_reader (Some ?bs) (ucast len) little) = ?bs"
    by (simp add: rd_rest_def make_reader_def)
  obtain blocks where b: "?bs = concat (map pe_block_bytes blocks)" "\<forall>b \<in> set blocks. pe_block_size b < 2 ^ 32"
      "append_all limits (concat (map (pe_entries ?base) blocks)) [] = Some relocs"
    using decode_pe_blocks_sound [OF l, of limits ?base "[]" relocs] d unfolding decode_pe_base_def rest by auto
  note a = append_all_pairs [OF block_entries b(3)]
  have "block_in_range ?base bl" if bl: "bl \<in> set blocks" for bl
    unfolding block_in_range_def
  proof (intro ballI impI)
    fix e assume e: "e \<in> set (snd bl)" "drop_bit 12 e \<noteq> 0"
    then have "pe_entry ?base (fst bl) e \<in> set (concat (map (pe_entries ?base) blocks))"
      using bl unfolding pe_entries_def record_padding by auto
    then obtain i r where "pe_entry ?base (fst bl) e i = Some r" using a by blast
    then show "unat ?base + unat (fst bl) + unat (take_bit 12 e) < 2 ^ 64" by (rule pe_entry_record [THEN conjunct2])
  qed
  then show ?thesis using place in_data b a by (intro exI [of _ "unat (fa_offset at)"] exI [of _ blocks]) auto
qed

section \<open>Properties\<close>

text \<open>
  A file with one section of 16 bytes, which holds one relocation block: one record of type 3 and
  padding. The four bytes after the section header, which become its flags, come before its data.
\<close>

definition demo_pe_relocated :: bytes where
  "demo_pe_relocated = [0x4d, 0x5a] @ replicate 58 0 @ [64, 0, 0, 0] @
     [0x50, 0x45, 0, 0, 0x4c, 1, 1, 0, 0, 0, 0, 0, 0, 0, 0, 0, 0, 0, 0, 0, 144, 0, 0, 0] @
     [0x0b, 1, 0, 0] @ replicate 12 0 @ [0, 16, 0, 0] @ replicate 8 0 @ [0, 0, 64, 0, 0, 16, 0, 0, 0, 2, 0, 0] @
     replicate 52 0 @ [6, 0, 0, 0] @ replicate 40 0 @ [0, 16, 0, 0, 12, 0, 0, 0] @
     [0x2e, 0x74, 0x65, 0x78, 0x74, 0, 0, 0] @ [16, 0, 0, 0, 0, 16, 0, 0, 16, 0, 0, 0, 20, 1, 0, 0] @
     replicate 12 0 @ [0, 0, 0, 0] @ [0, 0, 0, 0x60] @ [0, 32, 0, 0, 12, 0, 0, 0, 4, 0x30, 0, 0, 0, 0, 0, 0]"

lemma demo_pe_relocated_parses: "\<not> isl (pe_parse demo_limits (Some demo_pe_relocated))"
  by code_simp

lemma demo_pe_relocated_read:
  "length demo_pe_relocated = 292" "relocation_directory_at demo_pe_relocated = Some (0x1000, 12)"
  "image_base_at demo_pe_relocated = 0x400000"
  "map sec_permissions (pe_section_entries 40 demo_pe_relocated) = [5]"
  "map sec_permissions (pe_section_entries 36 demo_pe_relocated) = [0]"
  by code_simp+

lemma demo_pe_relocated_place:
  "place_in_sections (pe_section_entries 40 demo_pe_relocated) (unat (0x400000 :: u64)) 0x1000 12 = Some 276"
proof -
  have "pe_section_entries 40 demo_pe_relocated = [\<lparr>sec_index = 0, sec_name = ''.text'', sec_kind = program_bits,
      sec_file_offset = 276, sec_file_size = 16, sec_virtual_address = 0x1000, sec_memory_size = 16,
      sec_alignment = 0x1000, sec_entry_size = 0, sec_link = 0, sec_info = 0, sec_permissions = 5\<rparr>]"
    by code_simp
  then show ?thesis by (simp add: place_in_sections_def within_def)
qed

text \<open>
  C26. A successful PE parse returns exactly what the bytes say, by a reading of the format in which none
  of the parser's, decoder's or translator's functions occurs: the header, one section and one segment
  per entry of the section table, the symbols of the symbol table without its auxiliary records, and the
  relocations of the base relocation directory. The bytes of the directory, which lie in the file at the
  place its address has in the sections, are whole blocks with nothing between or after them, and the
  relocations are their records in order, padding left out, none of them past the address space. The
  flags of each section, and so its kind and permissions, are the four bytes after its 40-byte header
  (offset 40, where the format has 36). Every section with file data lies in the file and in its own
  memory, and the count of the sections is within the limit.
\<close>

theorem pe_parse_exact:
  assumes "pe_parse limits (Some data) = Inr img" "length data < 2 ^ 64"
  shows "\<exists>blocks. img = empty_image\<lparr>img_header := pe_header_at data, img_sections := pe_section_entries 40 data,
      img_segments := map segment_like (pe_section_entries 40 data), img_symbols := coff_symbols limits data,
      img_relocations := numbered 0 (concat (map (block_records (image_base_at data)) blocks)),
      img_file_data := Some data\<rparr> \<and>
    (case relocation_directory_at data of
       None \<Rightarrow> blocks = []
     | Some (rva, len) \<Rightarrow>
         \<exists>at. place_in_sections (pe_section_entries 40 data) (unat (image_base_at data)) rva len = Some at \<and>
           at + len \<le> length data \<and> take len (drop at data) = concat (map pe_block_bytes blocks)) \<and>
    (\<forall>b \<in> set blocks. pe_block_size b < 2 ^ 32 \<and> block_in_range (image_base_at data) b) \<and>
    length (pe_section_entries 40 data) \<le> unat (max_sections limits) \<and>
    (\<forall>s \<in> set (pe_section_entries 40 data). section_in_file (length data) s \<and>
       unat (sec_file_size s) \<le> unat (sec_memory_size s))"
proof -
  let ?img = "pe_image_but_relocations limits data"
  have shape: "?img = empty_image\<lparr>img_header := pe_header_at data, img_sections := pe_section_entries 40 data,
      img_segments := map segment_like (pe_section_entries 40 data), img_symbols := coff_symbols limits data,
      img_file_data := Some data\<rparr>"
  proof -
    have "map section_segment xs = map segment_like xs" for xs by (simp add: section_segment_like)
    then show ?thesis
      unfolding pe_image_but_relocations_def pe_header_code pe_sections_entries pe_symbol_table_coff [OF assms(2)] by simp
  qed
  obtain relocs where img: "img = ?img\<lparr>img_relocations := relocs\<rparr>"
    and rel: "pe_relocations limits data ?img (fst (pe_directory data)) (snd (pe_directory data)) = Inr relocs"
    and n: "unat (ph_sections (pe_header_fields data)) \<le> unat (max_sections limits)"
    and secs: "\<forall>s \<in> set (pe_section_entries 40 data). section_in_file (length data) s \<and> unat (sec_file_size s) \<le> unat (sec_memory_size s)"
    using pe_parse_body [OF assms(1)] pe_body_fields [OF _ assms(2)] unfolding pe_sections_entries by blast
  obtain rva len where dir: "pe_directory data = (rva, len)" by fastforce
  note at = pe_directory_at [OF assms(2), unfolded dir prod.case]
  have base: "hdr_image_base (pe_header_at data) = image_base_at data" by (simp add: pe_header_at_def Let_def)
  obtain blocks where blocks: "relocs = numbered 0 (concat (map (block_records (image_base_at data)) blocks)) \<and>
    (case relocation_directory_at data of None \<Rightarrow> blocks = [] | Some (rva, len) \<Rightarrow>
       \<exists>at. place_in_sections (pe_section_entries 40 data) (unat (image_base_at data)) rva len = Some at \<and>
         at + len \<le> length data \<and> take len (drop at data) = concat (map pe_block_bytes blocks)) \<and>
    (\<forall>b \<in> set blocks. pe_block_size b < 2 ^ 32 \<and> block_in_range (image_base_at data) b)"
  proof (cases "len = 0")
    case True
    then show thesis using rel dir at by (intro that [of "[]"]) (auto simp: pe_relocations_def numbered_def)
  next
    case False
    have "list_all (filled_section (length data)) (img_sections ?img)"
      "img_segments ?img = map segment_like (img_sections ?img)"
      using secs by (simp_all add: shape list_all_iff filled_section_def)
    from pe_relocations_blocks [OF rel [unfolded dir fst_conv snd_conv] False assms(2) this]
    obtain at' bs where "place_in_sections (pe_section_entries 40 data) (unat (image_base_at data)) (unat rva) (unat len) = Some at'"
      "at' + unat len \<le> length data" "take (unat len) (drop at' data) = concat (map pe_block_bytes bs)"
      "\<forall>b \<in> set bs. pe_block_size b < 2 ^ 32 \<and> block_in_range (image_base_at data) b"
      "relocs = numbered 0 (concat (map (block_records (image_base_at data)) bs))"
      by (auto simp: shape base)
    then show thesis using False at [symmetric] by (intro that [of bs]) simp
  qed
  have "img = empty_image\<lparr>img_header := pe_header_at data, img_sections := pe_section_entries 40 data,
      img_segments := map segment_like (pe_section_entries 40 data), img_symbols := coff_symbols limits data,
      img_relocations := numbered 0 (concat (map (block_records (image_base_at data)) blocks)),
      img_file_data := Some data\<rparr>"
    using blocks unfolding img shape by simp
  moreover have "length (pe_section_entries 40 data) \<le> unat (max_sections limits)"
    using n by (simp add: pe_section_entries_def)
  ultimately show ?thesis using secs blocks by blast
qed

theorem pe_parse_exact_witness:
  "\<exists>img blocks. pe_parse demo_limits (Some demo_pe_relocated) = Inr img \<and> map sec_permissions (img_sections img) = [5] \<and>
    concat (map pe_block_bytes blocks) = [0, 32, 0, 0, 12, 0, 0, 0, 4, 0x30, 0, 0] \<and>
    img_relocations img = numbered 0 (concat (map (block_records 0x400000) blocks))"
proof -
  obtain img where p: "pe_parse demo_limits (Some demo_pe_relocated) = Inr img"
    using demo_pe_relocated_parses by (metis sum.collapse(2))
  have len: "length demo_pe_relocated < 2 ^ 64" unfolding demo_pe_relocated_read by simp
  have bs: "take 12 (drop 276 demo_pe_relocated) = [0, 32, 0, 0, 12, 0, 0, 0, 4, 0x30, 0, 0]" by code_simp
  obtain blocks where e: "img_sections img = pe_section_entries 40 demo_pe_relocated"
    "img_relocations img = numbered 0 (concat (map (block_records 0x400000) blocks))"
    and b: "\<exists>at. place_in_sections (pe_section_entries 40 demo_pe_relocated) (unat (0x400000 :: u64)) 0x1000 12 = Some at \<and>
      take 12 (drop at demo_pe_relocated) = concat (map pe_block_bytes blocks)"
    using pe_parse_exact [OF p len] unfolding demo_pe_relocated_read by auto
  from b bs demo_pe_relocated_place have "concat (map pe_block_bytes blocks) = [0, 32, 0, 0, 12, 0, 0, 0, 4, 0x30, 0, 0]"
    by simp
  then show ?thesis using p e demo_pe_relocated_read by auto
qed

end
