(* ===== verification/Scanners.thy ===== *)
theory Scanners
  imports Base
begin

unbundle bit_operations_syntax

text \<open>
  \<open>StringScanner\<close> and \<open>SignatureScanner\<close> of \<open>src/scanners.cc\<close>. Positions in a buffer are natural numbers:
  a buffer is far shorter than the \<open>2 ^ 64\<close> bytes at which its indices would wrap around. The text of a string is kept as
  its bytes until it is found.
\<close>

section \<open>Encodings\<close>

definition ascii_character :: "u8 \<Rightarrow> bool" where
  "ascii_character b \<longleftrightarrow> b = 9 \<or> b = 10 \<or> b = 13 \<or> (b \<ge> 0x20 \<and> b \<le> 0x7e)"

text \<open>The length of a sequence and the bits its first byte carries.\<close>

definition utf8_lead :: "u8 \<Rightarrow> (nat \<times> u32) option" where
  "utf8_lead b =
    (if b AND 0xe0 = 0xc0 then (if ucast (b AND 0x1f) < (2 :: u32) then None else Some (2, ucast (b AND 0x1f)))
     else if b AND 0xf0 = 0xe0 then Some (3, ucast (b AND 0x0f))
     else if b AND 0xf8 = 0xf0 then Some (4, ucast (b AND 0x07))
     else None)"

fun utf8_tail :: "bytes \<Rightarrow> u32 \<Rightarrow> u32 option" where
  "utf8_tail [] code_point = Some code_point"
| "utf8_tail (b # bs) code_point =
    (if b AND 0xc0 \<noteq> 0x80 then None else utf8_tail bs (push_bit 6 code_point OR ucast (b AND 0x3f)))"

definition utf8_sequence :: "bytes \<Rightarrow> (nat \<times> u32) option" where
  "utf8_sequence data =
    (let b = hd data in
     if b < 0x80 then (if ascii_character b then Some (1, ucast b) else None)
     else case utf8_lead b of
       None \<Rightarrow> None
     | Some (len, code_point) \<Rightarrow>
       if len > length data then None
       else case utf8_tail (take (len - 1) (tl data)) code_point of
         None \<Rightarrow> None
       | Some c \<Rightarrow>
         if len = 3 \<and> c < 0x800 \<or> len = 4 \<and> c < 0x10000 \<or> c > 0x10ffff \<or> c \<ge> 0xd800 \<and> c \<le> 0xdfff
         then None else Some (len, c))"

definition append_utf8 :: "u32 \<Rightarrow> bytes" where
  "append_utf8 c =
    (if c < 0x80 then [ucast c]
     else if c < 0x800 then [ucast (0xc0 OR drop_bit 6 c), ucast (0x80 OR (c AND 0x3f))]
     else if c < 0x10000 then
       [ucast (0xe0 OR drop_bit 12 c), ucast (0x80 OR (drop_bit 6 c AND 0x3f)), ucast (0x80 OR (c AND 0x3f))]
     else [ucast (0xf0 OR drop_bit 18 c), ucast (0x80 OR (drop_bit 12 c AND 0x3f)),
       ucast (0x80 OR (drop_bit 6 c AND 0x3f)), ucast (0x80 OR (c AND 0x3f))])"

section \<open>Strings\<close>

datatype StringEncoding = enc_ascii | enc_utf8 | enc_utf16_little | enc_utf16_big

record ExtractedString =
  xs_file_offset :: u64
  xs_virtual_address :: u64
  xs_encoding :: StringEncoding
  xs_value :: string
  xs_byte_length :: u32
  xs_section_index :: u32

record StringScanOptions =
  sso_minimum_characters :: u32
  sso_maximum_characters :: u32
  sso_maximum_results :: u32
  sso_ascii :: bool
  sso_utf8 :: bool
  sso_utf16_little :: bool
  sso_utf16_big :: bool
  sso_require_terminator :: bool

text \<open>The address and the index of the first section that holds the offset; an address that overflows stays \<open>0\<close>.\<close>

definition populate_location :: "BinaryImage \<Rightarrow> u64 \<Rightarrow> u64 \<times> u32" where
  "populate_location img offset =
    (case find (\<lambda>s. sec_file_offset s \<le> offset \<and> offset - sec_file_offset s < sec_file_size s) (img_sections img) of
       None \<Rightarrow> (0, 0xffffffff)
     | Some s \<Rightarrow>
       ((case checked_add (sec_virtual_address s) (offset - sec_file_offset s) of None \<Rightarrow> 0 | Some address \<Rightarrow> address),
        sec_index s))"

definition extracted :: "BinaryImage \<Rightarrow> StringEncoding \<Rightarrow> nat \<Rightarrow> bytes \<Rightarrow> nat \<Rightarrow> ExtractedString" where
  "extracted img encoding begin_at text byte_count =
    \<lparr>xs_file_offset = of_nat begin_at, xs_virtual_address = fst (populate_location img (of_nat begin_at)),
     xs_encoding = encoding, xs_value = string_of_bytes text, xs_byte_length = of_nat byte_count,
     xs_section_index = snd (populate_location img (of_nat begin_at))\<rparr>"

definition more_results :: "StringScanOptions \<Rightarrow> ExtractedString list \<Rightarrow> bool" where
  "more_results opts found \<longleftrightarrow> length found < unat (sso_maximum_results opts)"

definition accepted :: "StringScanOptions \<Rightarrow> nat \<Rightarrow> bool \<Rightarrow> bool" where
  "accepted opts characters terminated \<longleftrightarrow>
    characters \<ge> unat (sso_minimum_characters opts) \<and> (\<not> sso_require_terminator opts \<or> terminated)"

definition zero_at :: "bytes \<Rightarrow> nat \<Rightarrow> bool" where
  "zero_at data i \<longleftrightarrow> i < length data \<and> data ! i = 0"

subsection \<open>ASCII\<close>

definition ascii_run :: "nat \<Rightarrow> bytes \<Rightarrow> nat" where
  "ascii_run maximum data = length (takeWhile ascii_character (take maximum data))"

function scan_ascii :: "BinaryImage \<Rightarrow> StringScanOptions \<Rightarrow> bytes \<Rightarrow> nat \<Rightarrow> ExtractedString list \<Rightarrow> ExtractedString list" where
  "scan_ascii img opts data begin_at found =
    (if begin_at < length data \<and> more_results opts found then
       if \<not> ascii_character (data ! begin_at) then scan_ascii img opts data (begin_at + 1) found
       else
         let n = ascii_run (unat (sso_maximum_characters opts)) (drop begin_at data);
             end_at = begin_at + n; terminated = zero_at data end_at in
         scan_ascii img opts data
           (if end_at = begin_at then begin_at + 1 else end_at + (if terminated then 1 else 0))
           (if accepted opts n terminated
            then found @ [extracted img enc_ascii begin_at (take n (drop begin_at data)) n] else found)
     else found)"
  by pat_completeness auto
termination
  by (relation "measure (\<lambda>(img, opts, data, begin_at, found). length data - begin_at)") auto

declare scan_ascii.simps [simp del]

subsection \<open>UTF-8\<close>

text \<open>At most \<open>n\<close> characters: their number, the bytes they take, and the text.\<close>

fun utf8_run :: "nat \<Rightarrow> bytes \<Rightarrow> nat \<times> nat \<times> bytes" where
  "utf8_run 0 data = (0, 0, [])"
| "utf8_run (Suc n) data =
    (if data = [] then (0, 0, [])
     else case utf8_sequence data of
       None \<Rightarrow> (0, 0, [])
     | Some (len, c) \<Rightarrow>
       (case utf8_run n (drop len data) of (k, m, text) \<Rightarrow> (k + 1, len + m, append_utf8 c @ text)))"

function scan_utf8 :: "BinaryImage \<Rightarrow> StringScanOptions \<Rightarrow> bytes \<Rightarrow> nat \<Rightarrow> ExtractedString list \<Rightarrow> ExtractedString list" where
  "scan_utf8 img opts data begin_at found =
    (if begin_at < length data \<and> more_results opts found then
       scan_utf8 img opts data (begin_at + 1)
         (if data ! begin_at < 0x80 then found
          else case utf8_run (unat (sso_maximum_characters opts)) (drop begin_at data) of
            (characters, m, text) \<Rightarrow>
              if accepted opts characters (zero_at data (begin_at + m))
              then found @ [extracted img enc_utf8 begin_at text m] else found)
     else found)"
  by pat_completeness auto
termination
  by (relation "measure (\<lambda>(img, opts, data, begin_at, found). length data - begin_at)") auto

declare scan_utf8.simps [simp del]

subsection \<open>UTF-16\<close>

definition utf16_unit :: "bool \<Rightarrow> u8 \<Rightarrow> u8 \<Rightarrow> u16" where
  "utf16_unit is_little a b =
    (if is_little then ucast a OR push_bit 8 (ucast b) else push_bit 8 (ucast a) OR ucast b)"

definition utf16_text :: "u16 \<Rightarrow> bool" where
  "utf16_text unit \<longleftrightarrow> \<not> (unit = 0 \<or> unit < 0x20 \<or> unit \<ge> 0xd800 \<and> unit \<le> 0xdfff)"

fun utf16_run :: "bool \<Rightarrow> nat \<Rightarrow> bytes \<Rightarrow> nat \<times> bytes" where
  "utf16_run is_little (Suc n) (a # b # data) =
    (if \<not> utf16_text (utf16_unit is_little a b) then (0, [])
     else case utf16_run is_little n data of
       (k, text) \<Rightarrow> (k + 1, append_utf8 (ucast (utf16_unit is_little a b)) @ text))"
| "utf16_run is_little n data = (0, [])"

function scan_utf16 :: "bool \<Rightarrow> BinaryImage \<Rightarrow> StringScanOptions \<Rightarrow> bytes \<Rightarrow> nat \<Rightarrow> ExtractedString list \<Rightarrow>
    ExtractedString list" where
  "scan_utf16 is_little img opts data begin_at found =
    (if begin_at + 1 < length data \<and> more_results opts found then
       (case utf16_run is_little (unat (sso_maximum_characters opts)) (drop begin_at data) of
          (characters, text) \<Rightarrow>
            let end_at = begin_at + 2 * characters; terminated = (zero_at data end_at \<and> zero_at data (end_at + 1)) in
            if accepted opts characters terminated
            then scan_utf16 is_little img opts data (end_at + (if terminated then 1 else 0) + 1)
              (found @ [extracted img (if is_little then enc_utf16_little else enc_utf16_big) begin_at text (2 * characters)])
            else scan_utf16 is_little img opts data (begin_at + 1) found)
     else found)"
  by pat_completeness auto
termination
  by (relation "measure (\<lambda>(is_little, img, opts, data, begin_at, found). length data - begin_at)") auto

declare scan_utf16.simps [simp del]

subsection \<open>All encodings\<close>

definition options_valid :: "Limits \<Rightarrow> StringScanOptions \<Rightarrow> bool" where
  "options_valid limits opts \<longleftrightarrow>
    \<not> (sso_minimum_characters opts = 0 \<or> sso_minimum_characters opts > sso_maximum_characters opts \<or>
       ucast (sso_maximum_characters opts) > max_string_bytes limits \<or> sso_maximum_results opts > max_symbols limits)"

definition scan_strings :: "Limits \<Rightarrow> BinaryImage \<Rightarrow> StringScanOptions \<Rightarrow> Error + ExtractedString list" where
  "scan_strings limits img opts =
    (case img_file_data img of
       None \<Rightarrow> Inl (mk_error invalid_header 0 ''string scanning requires backing file data'')
     | Some data \<Rightarrow>
       if \<not> options_valid limits opts then Inl (mk_error resource_limit 0 ''string scan options are invalid'')
       else let
         found = (if sso_ascii opts then scan_ascii img opts data 0 [] else []);
         found = (if sso_utf8 opts \<and> more_results opts found then scan_utf8 img opts data 0 found else found);
         found = (if sso_utf16_little opts then scan_utf16 True img opts data 0 found else found)
       in Inr (if sso_utf16_big opts \<and> more_results opts found then scan_utf16 False img opts data 0 found else found))"

section \<open>Signatures\<close>

record BytePattern =
  bp_name :: string
  bp_bytes :: bytes
  bp_mask :: bytes
  bp_alignment :: u64

record PatternMatch =
  pm_pattern :: string
  pm_file_offset :: u64
  pm_virtual_address :: u64
  pm_section_index :: u32

record SignatureScanner =
  sgs_limits :: Limits
  sgs_patterns :: "BytePattern list"

definition new_scanner :: "Limits \<Rightarrow> SignatureScanner" where
  "new_scanner limits = \<lparr>sgs_limits = limits, sgs_patterns = []\<rparr>"

definition pattern_invalid :: "Limits \<Rightarrow> BytePattern \<Rightarrow> bool" where
  "pattern_invalid limits p \<longleftrightarrow>
    bp_name p = [] \<or> length (bp_name p) > unat (max_string_bytes limits) \<or> bp_bytes p = [] \<or>
    length (bp_bytes p) > unat (max_section_bytes limits) \<or>
    (bp_mask p \<noteq> [] \<and> length (bp_mask p) \<noteq> length (bp_bytes p)) \<or> bp_alignment p = 0 \<or>
    bp_alignment p AND (bp_alignment p - 1) \<noteq> 0"

definition add_pattern :: "BytePattern \<Rightarrow> SignatureScanner \<Rightarrow> (Error + unit) \<times> SignatureScanner" where
  "add_pattern p s =
    (if pattern_invalid (sgs_limits s) p then (Inl (mk_error invalid_header 0 ''byte pattern is invalid''), s)
     else if length (sgs_patterns s) \<ge> unat (max_sections (sgs_limits s))
     then (Inl (mk_error resource_limit 0 ''signature pattern limit exceeded''), s)
     else let p = (if bp_mask p = [] then p\<lparr>bp_mask := replicate (length (bp_bytes p)) 0xff\<rparr> else p) in
       (Inr (), s\<lparr>sgs_patterns := sgs_patterns s @ [p]\<rparr>))"

definition clear_patterns :: "SignatureScanner \<Rightarrow> SignatureScanner" where
  "clear_patterns s = s\<lparr>sgs_patterns := []\<rparr>"

text \<open>The loop that compares byte by byte under the mask.\<close>

fun masked_equal :: "bytes \<Rightarrow> bytes \<Rightarrow> bytes \<Rightarrow> bool" where
  "masked_equal (d # data) (b # bs) (m # ms) \<longleftrightarrow> d AND m = b AND m \<and> masked_equal data bs ms"
| "masked_equal data bs ms \<longleftrightarrow> bs = []"

definition pattern_match :: "BinaryImage \<Rightarrow> BytePattern \<Rightarrow> nat \<Rightarrow> PatternMatch" where
  "pattern_match img p offset =
    \<lparr>pm_pattern = bp_name p, pm_file_offset = of_nat offset,
     pm_virtual_address = fst (populate_location img (of_nat offset)),
     pm_section_index = snd (populate_location img (of_nat offset))\<rparr>"

text \<open>The offsets of one pattern; the result says whether the limit on matches has been reached.\<close>

lemma align_progress: "0 < a \<Longrightarrow> i < n \<Longrightarrow> n - (i + a - i mod a) < n - (i :: nat)"
  using mod_less_divisor [of a i] by linarith

function scan_pattern :: "Limits \<Rightarrow> BinaryImage \<Rightarrow> bytes \<Rightarrow> BytePattern \<Rightarrow> nat \<Rightarrow> PatternMatch list \<Rightarrow> bool \<times> PatternMatch list" where
  \<comment> \<open>an alignment is never \<open>0\<close>: \<open>add\<close> refuses it\<close>
  "scan_pattern limits img data p offset matches =
    (let alignment = unat (bp_alignment p) in
     if offset + length (bp_bytes p) \<le> length data then
       if alignment \<noteq> 0 \<and> offset mod alignment \<noteq> 0
       then scan_pattern limits img data p (offset + (alignment - offset mod alignment)) matches
       else if masked_equal (drop offset data) (bp_bytes p) (bp_mask p) then
         let matches' = matches @ [pattern_match img p offset] in
         if length matches' \<ge> unat (max_symbols limits) then (True, matches')
         else scan_pattern limits img data p (offset + max 1 alignment) matches'
       else scan_pattern limits img data p (offset + max 1 alignment) matches
     else (False, matches))"
  by pat_completeness auto
termination
  by (relation "measure (\<lambda>(limits, img, data, p, offset, matches). length data + 1 - offset)")
    (auto intro!: align_progress)

declare scan_pattern.simps [simp del]

fun scan_patterns :: "Limits \<Rightarrow> BinaryImage \<Rightarrow> bytes \<Rightarrow> BytePattern list \<Rightarrow> PatternMatch list \<Rightarrow> PatternMatch list" where
  "scan_patterns limits img data [] matches = matches"
| "scan_patterns limits img data (p # ps) matches =
    (if length (bp_bytes p) > length data then scan_patterns limits img data ps matches
     else case scan_pattern limits img data p 0 matches of
       (True, matches') \<Rightarrow> matches' | (False, matches') \<Rightarrow> scan_patterns limits img data ps matches')"

definition scan_signatures :: "SignatureScanner \<Rightarrow> BinaryImage \<Rightarrow> Error + PatternMatch list" where
  "scan_signatures s img =
    (case img_file_data img of
       None \<Rightarrow> Inl (mk_error invalid_header 0 ''signature scanning requires backing file data'')
     | Some data \<Rightarrow> Inr (scan_patterns (sgs_limits s) img data (sgs_patterns s) []))"

end
