(* ===== verification/Utf8.thy ===== *)
theory Utf8
  imports Scanners
begin

unbundle bit_operations_syntax

text \<open>
  The UTF-8 functions of \<open>src/scanners.cc\<close> are inverse to each other: a sequence that \<open>utf8_sequence\<close>
  accepts is the encoding \<open>append_utf8\<close> gives its code point, so the text of a string is its bytes.
\<close>

section \<open>Bits\<close>

lemma less_by_bits: "(w :: 'a::len word) < 2 ^ k \<longleftrightarrow> (\<forall>n \<ge> k. \<not> bit w n)" if "k < LENGTH('a)"
proof -
  have "w < 2 ^ k \<longleftrightarrow> take_bit k w = w"
    using that unat_power2 [OF that] by (simp add: word_less_nat_alt word_unat_eq_iff unsigned_take_bit_eq take_bit_nat_eq_self_iff)
  also have "\<dots> \<longleftrightarrow> (\<forall>n \<ge> k. \<not> bit w n)"
  proof
    assume "take_bit k w = w"
    then have "bit w n \<longleftrightarrow> n < k \<and> bit w n" for n by (metis bit_take_bit_iff)
    then show "\<forall>n \<ge> k. \<not> bit w n" by (meson not_less)
  next
    assume "\<forall>n \<ge> k. \<not> bit w n"
    then have "n < k" if "bit w n" for n using that by (meson not_less)
    then show "take_bit k w = w" by (auto intro!: bit_word_eqI simp: bit_take_bit_iff)
  qed
  finally show ?thesis .
qed

lemma not_less_mono: "\<not> (w :: 'a::len word) < b \<Longrightarrow> a \<le> b \<Longrightarrow> \<not> w < a"
  by auto

lemma u8_bits: "(\<And>n. n < 8 \<Longrightarrow> bit (v :: u8) n = bit w n) \<Longrightarrow> v = w"
  by (rule bit_word_eqI) simp

lemma eight: "n < 8 \<Longrightarrow> n = 0 \<or> n = 1 \<or> n = 2 \<or> n = 3 \<or> n = 4 \<or> n = 5 \<or> n = 6 \<or> n = (7 :: nat)"
  by auto

lemma tail_bits:
  assumes "(d :: u8) AND 0xc0 = 0x80"
  shows "bit d 7" "\<not> bit d 6"
  using arg_cong [where f = "\<lambda>w. bit w 7", OF assms] arg_cong [where f = "\<lambda>w. bit w 6", OF assms]
  by (simp_all add: bit_simps)

lemma lead2_bits:
  assumes "(b :: u8) AND 0xe0 = 0xc0"
  shows "bit b 7" "bit b 6" "\<not> bit b 5"
  using arg_cong [where f = "\<lambda>w. bit w 7", OF assms] arg_cong [where f = "\<lambda>w. bit w 6", OF assms]
    arg_cong [where f = "\<lambda>w. bit w 5", OF assms]
  by (simp_all add: bit_simps)

lemma lead3_bits:
  assumes "(b :: u8) AND 0xf0 = 0xe0"
  shows "bit b 7" "bit b 6" "bit b 5" "\<not> bit b 4"
  using arg_cong [where f = "\<lambda>w. bit w 7", OF assms] arg_cong [where f = "\<lambda>w. bit w 6", OF assms]
    arg_cong [where f = "\<lambda>w. bit w 5", OF assms] arg_cong [where f = "\<lambda>w. bit w 4", OF assms]
  by (simp_all add: bit_simps)

lemma lead4_bits:
  assumes "(b :: u8) AND 0xf8 = 0xf0"
  shows "bit b 7" "bit b 6" "bit b 5" "bit b 4" "\<not> bit b 3"
  using arg_cong [where f = "\<lambda>w. bit w 7", OF assms] arg_cong [where f = "\<lambda>w. bit w 6", OF assms]
    arg_cong [where f = "\<lambda>w. bit w 5", OF assms] arg_cong [where f = "\<lambda>w. bit w 4", OF assms]
    arg_cong [where f = "\<lambda>w. bit w 3", OF assms]
  by (simp_all add: bit_simps)

section \<open>Code points\<close>

text \<open>The six bits of a continuation byte behind the bits collected so far.\<close>

definition join6 :: "u32 \<Rightarrow> u8 \<Rightarrow> u32" where
  "join6 c d = push_bit 6 c OR ucast (d AND 0x3f)"

lemma bit_join6: "bit (join6 c d) n \<longleftrightarrow> n < 32 \<and> (if n < 6 then bit d n else bit c (n - 6))"
proof -
  have "bit (0x3f :: u8) n \<longleftrightarrow> n < 6" if "n < 8" for n using eight [OF that] by (auto simp: bit_simps)
  then show ?thesis by (auto simp: join6_def bit_simps)
qed

lemma last_byte:
  assumes "(d :: u8) AND 0xc0 = 0x80" "\<And>n. n < 6 \<Longrightarrow> bit (c :: u32) n = bit d n"
  shows "ucast (0x80 OR (c AND 0x3f)) = d"
  by (rule u8_bits) (use tail_bits [OF assms(1)] assms(2) in \<open>auto simp: bit_simps dest!: eight\<close>)

lemma join_high:
  "drop_bit 6 (join6 c d) = take_bit 26 c"
  by (rule bit_word_eqI) (auto simp: bit_join6 bit_simps)

text \<open>A continuation byte is found again in the code point, wherever it has moved.\<close>

lemma tail_byte:
  assumes "(d :: u8) AND 0xc0 = 0x80"
  shows "ucast (0x80 OR (join6 c d AND 0x3f)) = d"
    "ucast (0x80 OR (drop_bit 6 (join6 (join6 c d) d') AND 0x3f)) = d"
    "ucast (0x80 OR (drop_bit 12 (join6 (join6 (join6 c d) d') d'') AND 0x3f)) = d"
  by (rule last_byte [OF assms], simp add: bit_join6 bit_simps)+

lemma lead_byte:
  "(b :: u8) AND 0xe0 = 0xc0 \<Longrightarrow> ucast (0xc0 OR drop_bit 6 (join6 (ucast (b AND 0x1f)) d)) = b"
  "(b :: u8) AND 0xf0 = 0xe0 \<Longrightarrow> ucast (0xe0 OR drop_bit 12 (join6 (join6 (ucast (b AND 0x0f)) d) d')) = b"
  "(b :: u8) AND 0xf8 = 0xf0 \<Longrightarrow> ucast (0xf0 OR drop_bit 18 (join6 (join6 (join6 (ucast (b AND 0x07)) d) d') d'')) = b"
proof -
  show "ucast (0xc0 OR drop_bit 6 (join6 (ucast (b AND 0x1f)) d)) = b" if "b AND 0xe0 = 0xc0"
    by (rule u8_bits) (use lead2_bits [OF that] in \<open>auto simp: bit_simps bit_join6 dest!: eight\<close>)
  show "ucast (0xe0 OR drop_bit 12 (join6 (join6 (ucast (b AND 0x0f)) d) d')) = b" if "b AND 0xf0 = 0xe0"
    by (rule u8_bits) (use lead3_bits [OF that] in \<open>auto simp: bit_simps bit_join6 dest!: eight\<close>)
  show "ucast (0xf0 OR drop_bit 18 (join6 (join6 (join6 (ucast (b AND 0x07)) d) d') d'')) = b" if "b AND 0xf8 = 0xf0"
    by (rule u8_bits) (use lead4_bits [OF that] in \<open>auto simp: bit_simps bit_join6 dest!: eight\<close>)
qed

text \<open>How large a code point can be, and that two bytes are never used for less than they need.\<close>

lemma code_point_bounds:
  "join6 (ucast ((b :: u8) AND 0x1f)) d < 0x800" "join6 (join6 (ucast (b AND 0x0f)) d) d' < 0x10000"
  "\<not> ucast (b AND 0x1f) < (2 :: u32) \<Longrightarrow> \<not> join6 (ucast (b AND 0x1f)) d < 0x80"
proof -
  have m1: "n < 5" if "bit (0x1f :: u8) n" for n
    using eight [of n] bit_imp_le_length [OF that] that by (auto simp: bit_simps)
  have m2: "n < 4" if "bit (0x0f :: u8) n" for n
    using eight [of n] bit_imp_le_length [OF that] that by (auto simp: bit_simps)
  have "join6 (ucast (b AND 0x1f)) d < 2 ^ 11"
    using m1 by (subst less_by_bits) (fastforce simp: bit_join6 bit_and_iff bit_unsigned_iff)+
  then show "join6 (ucast (b AND 0x1f)) d < 0x800" by simp
  have "join6 (join6 (ucast (b AND 0x0f)) d) d' < 2 ^ 16"
  proof (subst less_by_bits, simp, intro allI impI notI)
    fix n :: nat
    assume "n \<ge> 16" "bit (join6 (join6 (ucast (b AND 0x0f)) d) d') n"
    moreover from this have "\<not> n < 6" "\<not> n - 6 < 6" by simp_all
    ultimately have "bit (0x0f :: u8) (n - 6 - 6)" by (auto simp: bit_join6 bit_and_iff bit_unsigned_iff)
    with m2 show False using \<open>n \<ge> 16\<close> by fastforce
  qed
  then show "join6 (join6 (ucast (b AND 0x0f)) d) d' < 0x10000" by simp
  show "\<not> join6 (ucast (b AND 0x1f)) d < 0x80" if "\<not> ucast (b AND 0x1f) < (2 :: u32)"
  proof
    assume "join6 (ucast (b AND 0x1f)) d < 0x80"
    then have "join6 (ucast (b AND 0x1f)) d < 2 ^ 7" by simp
    then have "\<forall>n \<ge> 7. \<not> bit (join6 (ucast (b AND 0x1f)) d) n" by (subst (asm) less_by_bits) simp_all
    then have "\<not> bit (ucast (b AND 0x1f) :: u32) n" if "1 \<le> n" "n < 26" for n
      using that by (auto simp: bit_join6 dest: spec [of _ "n + 6"])
    then have "(ucast (b AND 0x1f) :: u32) < 2 ^ 1" by (subst less_by_bits) (auto simp: bit_simps)
    then show False using that by simp
  qed
qed

section \<open>Sequences\<close>

lemma utf8_sequence_bytes:
  assumes "utf8_sequence data = Some (len, c)" "data \<noteq> []"
  shows "append_utf8 c = take len data \<and> 0 < len \<and> len \<le> length data"
proof -
  obtain b rest where data: "data = b # rest" using assms(2) by (cases data) auto
  show ?thesis
  proof (cases "b < 0x80")
    case True
    then have "len = 1" "c = ucast b" using assms(1) by (auto simp: utf8_sequence_def data Let_def split: if_splits)
    moreover have "(ucast b :: u32) < 0x80" using True by (simp add: word_less_nat_alt unsigned_ucast_eq take_bit_nat_eq_self)
    moreover have "ucast (ucast b :: u32) = b" by (rule bit_word_eqI) (simp add: bit_simps)
    ultimately show ?thesis by (simp add: append_utf8_def data)
  next
    case False
    then obtain c0 where lead: "utf8_lead b = Some (len, c0)" and len: "len \<le> length data"
      and tail: "utf8_tail (take (len - 1) rest) c0 = Some c"
      and check: "\<not> (len = 3 \<and> c < 0x800 \<or> len = 4 \<and> c < 0x10000)"
      using assms(1) by (auto simp: utf8_sequence_def data Let_def split: option.splits if_splits)
    consider (two) "len = 2" "b AND 0xe0 = 0xc0" "c0 = ucast (b AND 0x1f)" "\<not> ucast (b AND 0x1f) < (2 :: u32)"
      | (three) "len = 3" "b AND 0xf0 = 0xe0" "c0 = ucast (b AND 0x0f)"
      | (four) "len = 4" "b AND 0xf8 = 0xf0" "c0 = ucast (b AND 0x07)"
      using lead by (auto simp: utf8_lead_def split: if_splits)
    then show ?thesis
    proof cases
      case two
      then obtain d r where rest: "rest = d # r" using len by (cases rest) (auto simp: data)
      then have d: "d AND 0xc0 = 0x80" "c = join6 c0 d"
        using tail two(1) by (auto simp: join6_def split: if_splits)
      show ?thesis
        using two code_point_bounds(1,3) [of b d] lead_byte(1) [OF two(2)] tail_byte(1) [OF d(1)]
        by (simp add: append_utf8_def d(2) data rest)
    next
      case three
      then obtain d e r where rest: "rest = d # e # r" using len by (cases rest; cases "tl rest") (auto simp: data)
      then have d: "d AND 0xc0 = 0x80" "e AND 0xc0 = 0x80" "c = join6 (join6 c0 d) e"
        using tail three(1) by (auto simp: join6_def split: if_splits)
      have c: "\<not> c < 0x800" "c < 0x10000"
        using check three code_point_bounds(2) [of b d e] by (auto simp: d(3))
      have "\<not> c < 0x80" using c(1) by (rule not_less_mono) simp
      show ?thesis
        using three c \<open>\<not> c < 0x80\<close> lead_byte(2) [OF three(2)] tail_byte(1) [OF d(2)] tail_byte(2) [OF d(1)]
        by (simp add: append_utf8_def data rest) (simp add: d(3))
    next
      case four
      then obtain d e f r where rest: "rest = d # e # f # r"
        using len by (cases rest; cases "tl rest"; cases "tl (tl rest)") (auto simp: data)
      then have d: "d AND 0xc0 = 0x80" "e AND 0xc0 = 0x80" "f AND 0xc0 = 0x80" "c = join6 (join6 (join6 c0 d) e) f"
        using tail four(1) by (auto simp: join6_def eval_nat_numeral split: if_splits)
      have c: "\<not> c < 0x10000" using check four by auto
      have "\<not> c < 0x80" "\<not> c < 0x800" using c by (rule not_less_mono, simp)+
      show ?thesis
        using four c \<open>\<not> c < 0x80\<close> \<open>\<not> c < 0x800\<close> lead_byte(3) [OF four(2)] tail_byte(1) [OF d(3)] tail_byte(2) [OF d(2)] tail_byte(3) [OF d(1)]
        by (simp add: append_utf8_def data rest) (simp add: d(4))
    qed
  qed
qed

end
