(* ===== verification/Signatures.thy ===== *)
theory Signatures
  imports Scanners
begin

unbundle bit_operations_syntax

text \<open>
  The matches of \<open>SignatureScanner\<close> (\<open>src/scanners.cc\<close>): every aligned offset at which the bytes agree under the
  mask, pattern by pattern, up to the limit.
\<close>

section \<open>Scanners\<close>

definition pattern_ok :: "BytePattern \<Rightarrow> bool" where
  "pattern_ok p \<longleftrightarrow> bp_bytes p \<noteq> [] \<and> length (bp_mask p) = length (bp_bytes p) \<and> bp_alignment p \<noteq> 0"

inductive reachable_scanner :: "SignatureScanner \<Rightarrow> bool" where
  new: "reachable_scanner (new_scanner limits)"
| add: "reachable_scanner s \<Longrightarrow> reachable_scanner (snd (add_pattern p s))"
| clear: "reachable_scanner s \<Longrightarrow> reachable_scanner (clear_patterns s)"

lemma reachable_patterns: "reachable_scanner s \<Longrightarrow> p \<in> set (sgs_patterns s) \<Longrightarrow> pattern_ok p"
proof (induction arbitrary: p rule: reachable_scanner.induct)
  case (add s q)
  then show ?case
    by (auto simp: add_pattern_def pattern_invalid_def pattern_ok_def Let_def split: if_splits)
qed (simp_all add: new_scanner_def clear_patterns_def)

section \<open>Matches\<close>

definition matches_at :: "bytes \<Rightarrow> BytePattern \<Rightarrow> nat \<Rightarrow> bool" where
  "matches_at data p offset \<longleftrightarrow>
    (\<forall>i < length (bp_bytes p). data ! (offset + i) AND bp_mask p ! i = bp_bytes p ! i AND bp_mask p ! i)"

definition match_offsets :: "bytes \<Rightarrow> BytePattern \<Rightarrow> nat list" where
  "match_offsets data p =
    filter (\<lambda>offset. offset mod unat (bp_alignment p) = 0 \<and> matches_at data p offset) [0..<length data + 1 - length (bp_bytes p)]"

lemma masked_equal_iff:
  "length bs \<le> length data \<Longrightarrow> length ms = length bs \<Longrightarrow>
    masked_equal data bs ms \<longleftrightarrow> (\<forall>i < length bs. data ! i AND ms ! i = bs ! i AND ms ! i)"
proof (induction data bs ms rule: masked_equal.induct)
  case (1 d data b bs m ms)
  then show ?case by (simp add: All_less_Suc2)
qed simp_all

lemma matches_at_drop:
  "pattern_ok p \<Longrightarrow> offset + length (bp_bytes p) \<le> length data \<Longrightarrow>
    masked_equal (drop offset data) (bp_bytes p) (bp_mask p) \<longleftrightarrow> matches_at data p offset"
  by (subst masked_equal_iff) (simp_all add: pattern_ok_def matches_at_def)

lemma filter_upt_skip:
  assumes "a \<le> b" "\<And>x. a \<le> x \<Longrightarrow> x < b \<Longrightarrow> \<not> P x"
  shows "filter P [a..<n] = filter P [b..<n]"
proof (cases "b \<le> n")
  case True
  then have "[a..<n] = [a..<b] @ [b..<n]" using upt_add_eq_append [OF assms(1), of "n - b"] by simp
  moreover have "filter P [a..<b] = []" using assms(2) by (auto simp: filter_empty_conv)
  ultimately show ?thesis by simp
next
  case False
  then show ?thesis using assms(2) by (auto simp: filter_empty_conv)
qed

lemma next_multiple:
  assumes "x mod k = 0" "n < x" "0 < (k :: nat)"
  shows "n + (k - n mod k) \<le> x"
proof -
  obtain q where q: "x = k * q" using assms(1) by (metis mod_0_imp_dvd dvd_def)
  have "n div k < q" using assms(2,3) by (simp add: q div_less_iff_less_mult mult.commute)
  then have "k * (n div k + 1) \<le> x" unfolding q by (intro mult_le_mono2) simp
  moreover have "n + (k - n mod k) = k + (n - n mod k)"
    using mod_less_divisor [OF assms(3), of n] mod_less_eq_dividend [of n k] by linarith
  then have "n + (k - n mod k) = k * (n div k + 1)" by (simp add: minus_mod_eq_mult_div)
  ultimately show ?thesis by simp
qed

definition match_limit :: "Limits \<Rightarrow> nat" where
  \<comment> \<open>the limit is looked at after a match has been added\<close>
  "match_limit limits = max 1 (unat (max_symbols limits))"

text \<open>The offsets of one pattern from an offset on.\<close>

definition offsets_from :: "bytes \<Rightarrow> BytePattern \<Rightarrow> nat \<Rightarrow> nat list" where
  "offsets_from data p offset =
    filter (\<lambda>x. x mod unat (bp_alignment p) = 0 \<and> matches_at data p x) [offset..<length data + 1 - length (bp_bytes p)]"

lemma offsets_from_skip:
  assumes "pattern_ok p" "offset mod unat (bp_alignment p) \<noteq> 0"
  shows "offsets_from data p offset =
    offsets_from data p (offset + (unat (bp_alignment p) - offset mod unat (bp_alignment p)))"
  unfolding offsets_from_def
proof (rule filter_upt_skip)
  have a: "0 < unat (bp_alignment p)" using assms(1) by (simp add: pattern_ok_def unat_gt_0)
  show "\<not> (x mod unat (bp_alignment p) = 0 \<and> matches_at data p x)"
    if "offset \<le> x" "x < offset + (unat (bp_alignment p) - offset mod unat (bp_alignment p))" for x
    using next_multiple [of x "unat (bp_alignment p)" offset] a that assms(2) by (cases "x = offset") auto
qed simp

lemma offsets_from_step:
  assumes "pattern_ok p" "offset mod unat (bp_alignment p) = 0" "offset + length (bp_bytes p) \<le> length data"
  shows "offsets_from data p offset =
    (if matches_at data p offset then [offset] else []) @ offsets_from data p (offset + max 1 (unat (bp_alignment p)))"
proof -
  let ?P = "\<lambda>x. x mod unat (bp_alignment p) = 0 \<and> matches_at data p x"
  have a: "0 < unat (bp_alignment p)" using assms(1) by (simp add: pattern_ok_def unat_gt_0)
  have "[offset..<length data + 1 - length (bp_bytes p)] = offset # [Suc offset..<length data + 1 - length (bp_bytes p)]"
    using assms(3) by (intro upt_conv_Cons) simp
  moreover have "filter ?P [Suc offset..<length data + 1 - length (bp_bytes p)] =
      filter ?P [offset + max 1 (unat (bp_alignment p))..<length data + 1 - length (bp_bytes p)]"
  proof (rule filter_upt_skip)
    show "\<not> ?P x" if "Suc offset \<le> x" "x < offset + max 1 (unat (bp_alignment p))" for x
      using next_multiple [of x "unat (bp_alignment p)" offset] a that assms(2) by auto
  qed simp
  ultimately show ?thesis using assms(2) by (simp add: offsets_from_def)
qed

lemma scan_pattern_offsets:
  "pattern_ok p \<Longrightarrow> length matches < match_limit limits \<Longrightarrow>
    scan_pattern limits img data p offset matches =
      (let found = matches @ map (pattern_match img p) (offsets_from data p offset) in
       (length found \<ge> match_limit limits, take (match_limit limits) found))"
proof (induction limits img data p offset matches rule: scan_pattern.induct)
  case (1 limits img data p offset matches)
  note ok = 1(4) and few = 1(5)
  let ?a = "unat (bp_alignment p)"
  have a: "?a \<noteq> 0" using ok by (simp add: pattern_ok_def unat_eq_0)
  show ?case
  proof (cases "offset + length (bp_bytes p) \<le> length data")
    case False
    then have "offsets_from data p offset = []" by (simp add: offsets_from_def)
    then show ?thesis using False few by (subst scan_pattern.simps) (simp add: Let_def not_le)
  next
    case inside: True
    show ?thesis
    proof (cases "offset mod ?a = 0")
      case False
      have "scan_pattern limits img data p offset matches =
          scan_pattern limits img data p (offset + (?a - offset mod ?a)) matches"
        using inside False a by (subst scan_pattern.simps) (simp add: Let_def)
      then show ?thesis
        using 1(1) [OF refl inside _ ok few] False a offsets_from_skip [OF ok False, of data] by simp
    next
      case True
      note step = offsets_from_step [OF ok True inside] and eq = matches_at_drop [OF ok inside]
      show ?thesis
      proof (cases "matches_at data p offset")
        case match: True
        let ?m = "matches @ [pattern_match img p offset]"
        show ?thesis
        proof (cases "length ?m \<ge> unat (max_symbols limits)")
          case full: True
          then have "match_limit limits = Suc (length matches)"
            using few by (simp add: match_limit_def)
          moreover have "scan_pattern limits img data p offset matches = (True, ?m)"
            using inside True match eq full by (subst scan_pattern.simps) (simp add: Let_def)
          ultimately show ?thesis using match by (simp add: step Let_def)
        next
          case room: False
          then have few': "length ?m < match_limit limits" by (simp add: match_limit_def)
          have "scan_pattern limits img data p offset matches =
              scan_pattern limits img data p (offset + max 1 ?a) ?m"
            using inside True match eq room by (subst scan_pattern.simps) (simp add: Let_def)
          moreover have me: "masked_equal (drop offset data) (bp_bytes p) (bp_mask p)" using match eq by simp
          ultimately show ?thesis
            using 1(2) [OF refl inside _ me refl _ ok few'] True room match step by (simp add: Let_def)
        qed
      next
        case no: False
        have "scan_pattern limits img data p offset matches =
            scan_pattern limits img data p (offset + max 1 ?a) matches"
          using inside True no eq by (subst scan_pattern.simps) (simp add: Let_def)
        moreover have me: "\<not> masked_equal (drop offset data) (bp_bytes p) (bp_mask p)" using no eq by simp
        ultimately show ?thesis
          using 1(3) [OF refl inside _ me ok few] True no step by (simp add: Let_def)
      qed
    qed
  qed
qed

lemma scan_patterns_offsets:
  "(\<And>p. p \<in> set ps \<Longrightarrow> pattern_ok p) \<Longrightarrow> length matches < match_limit limits \<Longrightarrow>
    scan_patterns limits img data ps matches = take (match_limit limits)
      (matches @ concat (map (\<lambda>p. map (pattern_match img p) (match_offsets data p)) ps))"
proof (induction ps arbitrary: matches)
  case (Cons p ps)
  have ok: "pattern_ok p" using Cons.prems(1) by simp
  have from_start: "offsets_from data p 0 = match_offsets data p" by (simp add: offsets_from_def match_offsets_def)
  show ?case
  proof (cases "length (bp_bytes p) > length data")
    case True
    then have "match_offsets data p = []" by (simp add: match_offsets_def)
    then show ?thesis using True Cons by simp
  next
    case False
    let ?found = "matches @ map (pattern_match img p) (match_offsets data p)"
    have run: "scan_pattern limits img data p 0 matches =
        (length ?found \<ge> match_limit limits, take (match_limit limits) ?found)"
      using scan_pattern_offsets [OF ok Cons.prems(2), of img data 0] unfolding from_start by (simp add: Let_def)
    show ?thesis
    proof (cases "length ?found \<ge> match_limit limits")
      case True
      then show ?thesis using False run by simp
    next
      case few: False
      then have "scan_patterns limits img data (p # ps) matches = scan_patterns limits img data ps ?found"
        using False run by simp
      also have "\<dots> = take (match_limit limits)
          (?found @ concat (map (\<lambda>p. map (pattern_match img p) (match_offsets data p)) ps))"
        by (rule Cons.IH) (use Cons.prems few in auto)
      finally show ?thesis by simp
    qed
  qed
qed simp

text \<open>
  With a scanner filled by \<open>add\<close>, the matches are exactly the offsets that are multiples of the
  alignment of a pattern and at which every byte of the pattern agrees with the file under its mask, pattern by pattern in the order they were
  added and by ascending offset, cut off at the limit on matches (which lets one match through when it is
  zero), each with the section that holds it.
\<close>

theorem signatures_exact:
  assumes "reachable_scanner s" "img_file_data img = Some data"
  shows "scan_signatures s img = Inr (take (max 1 (unat (max_symbols (sgs_limits s))))
    (concat (map (\<lambda>p. map (pattern_match img p)
      (filter (\<lambda>offset. offset mod unat (bp_alignment p) = 0 \<and>
          (\<forall>i < length (bp_bytes p). data ! (offset + i) AND bp_mask p ! i = bp_bytes p ! i AND bp_mask p ! i))
        [0..<length data + 1 - length (bp_bytes p)])) (sgs_patterns s))))"
  unfolding scan_signatures_def assms(2) option.case
  using scan_patterns_offsets [of "sgs_patterns s" "[]" "sgs_limits s" img data] reachable_patterns [OF assms(1)]
  by (simp add: match_limit_def match_offsets_def matches_at_def)

definition demo_scanner :: SignatureScanner where
  "demo_scanner = snd (add_pattern \<lparr>bp_name = ''nop'', bp_bytes = [0x90, 0], bp_mask = [0xff, 0x0f], bp_alignment = 2\<rparr>
     (new_scanner demo_limits))"

theorem signatures_exact_witness:
  "map_sum id (map pm_file_offset)
    (scan_signatures demo_scanner (empty_image\<lparr>img_file_data := Some [0x90, 0xf0, 0x90, 0x91, 0x90, 0x10, 0x90]\<rparr>))
   = Inr [0, 4]"
proof -
  have r: "reachable_scanner demo_scanner"
    unfolding demo_scanner_def by (intro reachable_scanner.intros)
  have p: "sgs_patterns demo_scanner = [\<lparr>bp_name = ''nop'', bp_bytes = [0x90, 0], bp_mask = [0xff, 0x0f], bp_alignment = 2\<rparr>]"
    "sgs_limits demo_scanner = demo_limits"
    by (simp_all add: demo_scanner_def add_pattern_def pattern_invalid_def new_scanner_def demo_limits_def
        default_limits_def Let_def)
  have d: "img_file_data (empty_image\<lparr>img_file_data := Some [0x90, 0xf0, 0x90, 0x91, 0x90, 0x10, 0x90]\<rparr>) =
      Some [0x90, 0xf0, 0x90, 0x91, 0x90, 0x10, 0x90]" by simp
  show ?thesis
    unfolding signatures_exact [OF r d] p
    by code_simp
qed

end
