(* ===== verification/String_Scan.thy ===== *)
theory String_Scan
  imports Utf8 Signatures
begin

unbundle bit_operations_syntax

text \<open>
  Every string \<open>StringScanner::scan\<close> reports lies in the file: its value is the bytes at its offset for ASCII and UTF-8, and
  the UTF-8 text of the 16-bit units there for UTF-16, with a number of characters the options allow and a
  terminator when they ask for one.
\<close>

section \<open>What a reported string says\<close>

fun utf16_units :: "bool \<Rightarrow> bytes \<Rightarrow> u16 list" where
  "utf16_units is_little (a # b # bs) = utf16_unit is_little a b # utf16_units is_little bs"
| "utf16_units is_little bs = []"

definition units_of :: "StringEncoding \<Rightarrow> bytes \<Rightarrow> u16 list" where
  "units_of encoding bs = utf16_units (encoding = enc_utf16_little) bs"

text \<open>The text of a stretch of the file, its characters, and the zero that ends it.\<close>

definition text_of :: "StringEncoding \<Rightarrow> bytes \<Rightarrow> bytes" where
  "text_of encoding bs =
    (if encoding \<in> {enc_ascii, enc_utf8} then bs else concat (map (append_utf8 \<circ> ucast) (units_of encoding bs)))"

definition lead_byte_p :: "u8 \<Rightarrow> bool" where
  "lead_byte_p b \<longleftrightarrow> b AND 0xc0 \<noteq> 0x80"

definition characters_of :: "StringEncoding \<Rightarrow> bytes \<Rightarrow> nat" where
  "characters_of encoding bs =
    (case encoding of enc_ascii \<Rightarrow> length bs | enc_utf8 \<Rightarrow> length (filter lead_byte_p bs) | _ \<Rightarrow> length bs div 2)"

definition text_valid :: "StringEncoding \<Rightarrow> bytes \<Rightarrow> bool" where
  "text_valid encoding bs =
    (case encoding of enc_ascii \<Rightarrow> list_all ascii_character bs | enc_utf8 \<Rightarrow> bs = [] \<or> hd bs \<ge> 0x80
     | _ \<Rightarrow> even (length bs) \<and> list_all utf16_text (units_of encoding bs))"

definition terminated_at :: "StringEncoding \<Rightarrow> bytes \<Rightarrow> nat \<Rightarrow> bool" where
  "terminated_at encoding data i \<longleftrightarrow>
    zero_at data i \<and> (encoding \<in> {enc_utf16_little, enc_utf16_big} \<longrightarrow> zero_at data (i + 1))"

definition string_at :: "BinaryImage \<Rightarrow> StringScanOptions \<Rightarrow> bytes \<Rightarrow> ExtractedString \<Rightarrow> bool" where
  "string_at img opts data x \<longleftrightarrow>
    (\<exists>begin_at n. begin_at + n \<le> length data \<and>
      (let bs = take n (drop begin_at data); encoding = xs_encoding x in
        x = extracted img encoding begin_at (text_of encoding bs) n \<and> text_valid encoding bs \<and>
        unat (sso_minimum_characters opts) \<le> characters_of encoding bs \<and>
        characters_of encoding bs \<le> unat (sso_maximum_characters opts) \<and>
        (sso_require_terminator opts \<longrightarrow> terminated_at encoding data (begin_at + n))))"

definition strings_ok :: "BinaryImage \<Rightarrow> StringScanOptions \<Rightarrow> bytes \<Rightarrow> ExtractedString list \<Rightarrow> bool" where
  "strings_ok img opts data found \<longleftrightarrow>
    length found \<le> unat (sso_maximum_results opts) \<and> list_all (string_at img opts data) found"

lemma strings_ok_snoc:
  assumes "strings_ok img opts data found" "more_results opts found" "begin_at + n \<le> length data"
    "bs = take n (drop begin_at data)" "text = text_of encoding bs" "text_valid encoding bs"
    "characters = characters_of encoding bs" "characters \<le> unat (sso_maximum_characters opts)"
    "accepted opts characters (terminated_at encoding data (begin_at + n))"
  shows "strings_ok img opts data (found @ [extracted img encoding begin_at text n])"
proof -
  have "string_at img opts data (extracted img encoding begin_at text n)"
    unfolding string_at_def by (intro exI [of _ begin_at] exI [of _ n]) (use assms in \<open>simp add: extracted_def accepted_def\<close>)
  then show ?thesis using assms(1,2) by (simp add: strings_ok_def more_results_def)
qed

section \<open>ASCII\<close>

lemma ascii_run_bounds:
  "ascii_run maximum data \<le> maximum" "ascii_run maximum data \<le> length data"
  "list_all ascii_character (take (ascii_run maximum data) data)"
proof -
  have "length (takeWhile ascii_character (take maximum data)) \<le> length (take maximum data)"
    by (rule length_takeWhile_le)
  then show b: "ascii_run maximum data \<le> maximum" "ascii_run maximum data \<le> length data"
    by (simp_all add: ascii_run_def)
  have "take (ascii_run maximum data) data = takeWhile ascii_character (take maximum data)"
    using b(1) by (metis ascii_run_def min.absorb1 take_take takeWhile_eq_take)
  then show "list_all ascii_character (take (ascii_run maximum data) data)"
    by (simp add: list_all_iff) (metis set_takeWhileD)
qed

lemma ascii_strings: "strings_ok img opts data found \<Longrightarrow> strings_ok img opts data (scan_ascii img opts data begin_at found)"
proof (induction img opts data begin_at found rule: scan_ascii.induct)
  case (1 img opts data begin_at found)
  let ?n = "ascii_run (unat (sso_maximum_characters opts)) (drop begin_at data)"
  have step: "strings_ok img opts data (found @ [extracted img enc_ascii begin_at (take ?n (drop begin_at data)) ?n])"
    if "begin_at < length data" "more_results opts found" "accepted opts ?n (zero_at data (begin_at + ?n))"
    by (rule strings_ok_snoc [OF "1.prems" that(2) _ refl])
      (use that ascii_run_bounds [of "unat (sso_maximum_characters opts)" "drop begin_at data"] in
        \<open>simp_all add: text_of_def text_valid_def characters_of_def terminated_at_def min_def\<close>)
  show ?case
    using 1 step by (subst scan_ascii.simps) (auto simp: Let_def)
qed

section \<open>UTF-8\<close>

lemma utf8_lead_length: "utf8_lead b = Some (len, c) \<Longrightarrow> 2 \<le> len \<and> lead_byte_p b"
proof -
  assume "utf8_lead b = Some (len, c)"
  then consider "len = 2" "b AND 0xe0 = 0xc0" | "len = 3" "b AND 0xf0 = 0xe0" | "len = 4" "b AND 0xf8 = 0xf0"
    by (auto simp: utf8_lead_def split: if_splits)
  then have "2 \<le> len \<and> bit b 6"
    by cases (use lead2_bits(2) lead3_bits(2) lead4_bits(2) in simp_all)
  then show ?thesis using tail_bits(2) by (auto simp: lead_byte_p_def)
qed

lemma utf8_tail_leads: "utf8_tail bs c = Some c' \<Longrightarrow> filter lead_byte_p bs = []"
  by (induction bs arbitrary: c) (auto simp: lead_byte_p_def split: if_splits)

lemma utf8_sequence_lead:
  assumes "utf8_sequence data = Some (len, c)" "data \<noteq> []"
  shows "length (filter lead_byte_p (take len data)) = 1"
proof -
  obtain b rest where data: "data = b # rest" using assms(2) by (cases data) auto
  show ?thesis
  proof (cases "b < 0x80")
    case True
    then have "\<not> bit b 7" using less_by_bits [of 7 b] by simp
    then have "lead_byte_p b" using tail_bits(1) by (auto simp: lead_byte_p_def)
    moreover have "len = 1" using True assms(1) by (auto simp: utf8_sequence_def data Let_def split: if_splits)
    ultimately show ?thesis by (simp add: data)
  next
    case False
    then obtain c0 where lead: "utf8_lead b = Some (len, c0)" and tail: "utf8_tail (take (len - 1) rest) c0 = Some c"
      using assms(1) by (auto simp: utf8_sequence_def data Let_def split: option.splits if_splits)
    then show ?thesis using utf8_lead_length [OF lead] utf8_tail_leads [OF tail]
      by (simp add: data take_Cons')
  qed
qed

lemma utf8_run_text:
  "utf8_run n data = (k, m, chars) \<Longrightarrow>
    k \<le> n \<and> m \<le> length data \<and> chars = take m data \<and> length (filter lead_byte_p (take m data)) = k"
proof (induction n arbitrary: data k m chars)
  case (Suc n)
  show ?case
  proof (cases "data = [] \<or> utf8_sequence data = None")
    case True
    then show ?thesis using Suc.prems by (auto split: if_splits)
  next
    case False
    then obtain len c where seq: "utf8_sequence data = Some (len, c)" by auto
    obtain k' m' chars' where run: "utf8_run n (drop len data) = (k', m', chars')" by (metis prod_cases3)
    have eq: "k = k' + 1" "m = len + m'" "chars = append_utf8 c @ chars'"
      using Suc.prems False seq run by auto
    have "take (len + m') data = take len data @ take m' (drop len data)" by (simp add: take_add)
    then show ?thesis
      using Suc.IH [OF run] utf8_sequence_bytes [OF seq] utf8_sequence_lead [OF seq] False eq by auto
  qed
qed simp

lemma utf8_strings: "strings_ok img opts data found \<Longrightarrow> strings_ok img opts data (scan_utf8 img opts data begin_at found)"
proof (induction img opts data begin_at found rule: scan_utf8.induct)
  case (1 img opts data begin_at found)
  obtain k m chars where run: "utf8_run (unat (sso_maximum_characters opts)) (drop begin_at data) = (k, m, chars)"
    by (metis prod_cases3)
  have first: "take m (drop begin_at data) = [] \<or> hd (take m (drop begin_at data)) = data ! begin_at"
    if "begin_at < length data"
    using that by (cases "m = 0") (auto simp: hd_drop_conv_nth)
  have step: "strings_ok img opts data (found @ [extracted img enc_utf8 begin_at chars m])"
    if "begin_at < length data" "more_results opts found" "\<not> data ! begin_at < 0x80"
      "accepted opts k (zero_at data (begin_at + m))"
    by (rule strings_ok_snoc [OF "1.prems" that(2) _ refl])
      (use that utf8_run_text [OF run] first in
        \<open>auto simp: text_of_def text_valid_def characters_of_def terminated_at_def\<close>)
  show ?case
    using 1 step run by (subst scan_utf8.simps) (auto simp: Let_def)
qed

section \<open>UTF-16\<close>

lemma utf16_run_text:
  "utf16_run is_little n data = (k, chars) \<Longrightarrow>
    k \<le> n \<and> 2 * k \<le> length data \<and> list_all utf16_text (utf16_units is_little (take (2 * k) data)) \<and>
    chars = concat (map (append_utf8 \<circ> ucast) (utf16_units is_little (take (2 * k) data)))"
  by (induction is_little n data arbitrary: k chars rule: utf16_run.induct)
    (auto split: if_splits prod.splits)

lemma utf16_strings: "strings_ok img opts data found \<Longrightarrow>
  strings_ok img opts data (scan_utf16 is_little img opts data begin_at found)"
proof (induction is_little img opts data begin_at found rule: scan_utf16.induct)
  case (1 is_little img opts data begin_at found)
  let ?e = "if is_little then enc_utf16_little else enc_utf16_big"
  obtain k chars where run: "utf16_run is_little (unat (sso_maximum_characters opts)) (drop begin_at data) = (k, chars)"
    by (metis surj_pair)
  define bs where "bs = take (2 * k) (drop begin_at data)"
  have bs: "k \<le> unat (sso_maximum_characters opts)" "2 * k \<le> length data - begin_at" "length bs = 2 * k"
    "list_all utf16_text (utf16_units is_little bs)"
    "chars = concat (map (append_utf8 \<circ> ucast) (utf16_units is_little bs))"
    using utf16_run_text [OF run] by (simp_all add: bs_def)
  have step: "strings_ok img opts data (found @ [extracted img ?e begin_at chars (2 * k)])"
    if "begin_at + 1 < length data" "more_results opts found"
      "accepted opts k (zero_at data (begin_at + 2 * k) \<and> zero_at data (begin_at + 2 * k + 1))"
    by (rule strings_ok_snoc [OF "1.prems" that(2) _ bs_def])
      (use that bs in \<open>auto simp: text_of_def text_valid_def characters_of_def terminated_at_def units_of_def\<close>)
  show ?case
    using 1 step run by (subst scan_utf16.simps) (auto simp: Let_def)
qed

section \<open>The scan\<close>

text \<open>
  C37. A string scan that succeeds reports at most the number of results asked for, and every string
  it reports is in the file at the offset it names: its value is those very bytes for ASCII and UTF-8, and the UTF-8
  encoding of the 16-bit units for UTF-16, with no control, surrogate or zero unit; the number of
  characters is within the limits of the options, a zero follows when they require a terminator, and
  the section and address are those of its offset.
\<close>

theorem strings_found:
  assumes "img_file_data img = Some data" "scan_strings limits img opts = Inr found"
  shows "length found \<le> unat (sso_maximum_results opts) \<and>
    (\<forall>x \<in> set found. \<exists>begin_at n. begin_at + n \<le> length data \<and>
      (let bs = take n (drop begin_at data); encoding = xs_encoding x in
        x = extracted img encoding begin_at (text_of encoding bs) n \<and> text_valid encoding bs \<and>
        unat (sso_minimum_characters opts) \<le> characters_of encoding bs \<and>
        characters_of encoding bs \<le> unat (sso_maximum_characters opts) \<and>
        (sso_require_terminator opts \<longrightarrow> terminated_at encoding data (begin_at + n))))"
proof -
  have "strings_ok img opts data []" by (simp add: strings_ok_def)
  moreover note ascii_strings utf8_strings utf16_strings
  ultimately have "strings_ok img opts data found"
    using assms by (auto simp: scan_strings_def Let_def split: if_splits)
  then show ?thesis unfolding strings_ok_def list_all_iff string_at_def .
qed

definition demo_options :: StringScanOptions where
  "demo_options = \<lparr>sso_minimum_characters = 2, sso_maximum_characters = 8, sso_maximum_results = 4, sso_ascii = True,
     sso_utf8 = True, sso_utf16_little = True, sso_utf16_big = True, sso_require_terminator = True\<rparr>"

definition demo_text :: bytes where
  "demo_text = [0x41, 0x42, 0, 0xc3, 0xa9, 0x41, 0, 0, 0]"

definition demo_scan :: "Error + ExtractedString list" where
  "demo_scan = scan_strings demo_limits (empty_image\<lparr>img_file_data := Some demo_text\<rparr>) demo_options"

theorem strings_found_witness:
  "map_sum id (map (\<lambda>x. (xs_encoding x, xs_file_offset x, xs_byte_length x))) demo_scan =
      Inr [(enc_ascii, 0, 2), (enc_utf8, 3, 3), (enc_utf16_little, 0, 6), (enc_utf16_big, 0, 6)] \<and>
    length (projr demo_scan) \<le> 4"
proof -
  have run: "map_sum id (map (\<lambda>x. (xs_encoding x, xs_file_offset x, xs_byte_length x))) demo_scan =
      Inr [(enc_ascii, 0, 2), (enc_utf8, 3, 3), (enc_utf16_little, 0, 6), (enc_utf16_big, 0, 6)]"
    by code_simp
  then obtain found where found: "demo_scan = Inr found" by (fastforce simp: map_sum_def split: sum.splits)
  have "img_file_data (empty_image\<lparr>img_file_data := Some demo_text\<rparr>) = Some demo_text" by simp
  then have "length found \<le> unat (sso_maximum_results demo_options)"
    using strings_found [of _ demo_text demo_limits demo_options found] found unfolding demo_scan_def by blast
  then show ?thesis unfolding found using run [unfolded found] by (simp add: demo_options_def)
qed

end
