(* ===== verification/Query.thy ===== *)
theory Query
  imports Manifest Ordered_Map "HOL-Library.Multiset"
begin

unbundle bit_operations_syntax

text \<open>
  \<open>ImageQueryEngine\<close> of \<open>src/query.cc\<close>: the predicates of a query on the sections, segments, symbols,
  imports or exports of an image, the rows of the elements they select, and their order. The main theorem states
  the result of a query by the values its fields have in an element.
\<close>

section \<open>Queries\<close>

datatype QueryEntity = section_entity | segment_entity | symbol_entity | import_entity | export_entity
datatype QueryField =
  field_name | field_library | field_address | field_size | field_permissions | field_kind | field_binding | field_ordinal
datatype QueryOperator =
    equal | not_equal | less | less_equal | greater | greater_equal | contains | starts_with | bitwise_contains

text \<open>\<open>std::variant<uint64_t, std::string>\<close>\<close>

datatype QueryValue = number u64 | words string

record QueryPredicate =
  qp_field :: QueryField
  qp_operation :: QueryOperator
  qp_value :: QueryValue

record ImageQuery =
  iq_entity :: QueryEntity
  iq_predicates :: "QueryPredicate list"
  iq_limit :: u32
  iq_require_all :: bool
  iq_ascending :: bool

record QueryRow =
  qr_index :: u32
  qr_identity :: string
  qr_address :: u64
  qr_size :: u64
  qr_attributes :: "(string, string) omap"

record QueryResult =
  qs_examined :: u64
  qs_truncated :: bool
  qs_rows :: "QueryRow list"

definition empty_result :: QueryResult where
  "empty_result = \<lparr>qs_examined = 0, qs_truncated = False, qs_rows = []\<rparr>"

section \<open>Predicates\<close>

definition numeric_compare :: "u64 \<Rightarrow> QueryPredicate \<Rightarrow> bool" where
  "numeric_compare actual p =
    (case qp_value p of
       words _ \<Rightarrow> False
     | number expected \<Rightarrow>
       (case qp_operation p of
          equal \<Rightarrow> actual = expected
        | not_equal \<Rightarrow> actual \<noteq> expected
        | less \<Rightarrow> actual < expected
        | less_equal \<Rightarrow> actual \<le> expected
        | greater \<Rightarrow> actual > expected
        | greater_equal \<Rightarrow> actual \<ge> expected
        | bitwise_contains \<Rightarrow> actual AND expected = expected
        | contains \<Rightarrow> False
        | starts_with \<Rightarrow> False))"

text \<open>\<open>find(needle) != npos\<close>: the needle stands at one of the positions of the text.\<close>

definition text_contains :: "string \<Rightarrow> string \<Rightarrow> bool" where
  "text_contains actual needle \<longleftrightarrow>
    list_ex (\<lambda>i. take (length needle) (drop i actual) = needle) [0..<length actual + 1]"

definition text_compare :: "string \<Rightarrow> QueryPredicate \<Rightarrow> bool" where
  "text_compare actual p =
    (case qp_value p of
       number _ \<Rightarrow> False
     | words expected \<Rightarrow>
       (case qp_operation p of
          equal \<Rightarrow> actual = expected
        | not_equal \<Rightarrow> actual \<noteq> expected
        | contains \<Rightarrow> text_contains actual expected
        | starts_with \<Rightarrow> length actual \<ge> length expected \<and> take (length expected) actual = expected
        | less \<Rightarrow> actual < expected
        | less_equal \<Rightarrow> actual \<le> expected
        | greater \<Rightarrow> actual > expected
        | greater_equal \<Rightarrow> actual \<ge> expected
        | bitwise_contains \<Rightarrow> False))"

definition combine :: "bool list \<Rightarrow> bool \<Rightarrow> bool" where
  "combine matches require_all =
    (if matches = [] then True else if require_all then list_all id matches else list_ex id matches)"

definition permission_string :: "u8 \<Rightarrow> string" where
  "permission_string permissions =
    [(if permissions AND permission_read \<noteq> 0 then CHR ''r'' else CHR ''-''),
     (if permissions AND permission_write \<noteq> 0 then CHR ''w'' else CHR ''-''),
     (if permissions AND permission_execute \<noteq> 0 then CHR ''x'' else CHR ''-'')]"

section \<open>Rows\<close>

text \<open>\<open>row.attributes[key] = value\<close> for keys that are not there yet.\<close>

definition row_of :: "u32 \<Rightarrow> string \<Rightarrow> u64 \<Rightarrow> u64 \<Rightarrow> (string \<times> string) list \<Rightarrow> QueryRow" where
  "row_of index identity address bytes attributes =
    \<lparr>qr_index = index, qr_identity = identity, qr_address = address, qr_size = bytes,
     qr_attributes = fold (\<lambda>(k, v). om_emplace k v) attributes []\<rparr>"

definition section_row :: "Section \<Rightarrow> QueryRow" where
  "section_row s = row_of (sec_index s) (sec_name s) (sec_virtual_address s) (sec_memory_size s)
    [(''permissions'', permission_string (sec_permissions s)),
     (''file_offset'', to_string (unat (sec_file_offset s))),
     (''kind'', to_string (unat (section_kind_byte (sec_kind s))))]"

definition section_matches :: "Section \<Rightarrow> QueryPredicate \<Rightarrow> bool" where
  "section_matches s p =
    (case qp_field p of
       field_name \<Rightarrow> text_compare (sec_name s) p
     | field_address \<Rightarrow> numeric_compare (sec_virtual_address s) p
     | field_size \<Rightarrow> numeric_compare (sec_memory_size s) p
     | field_permissions \<Rightarrow> numeric_compare (ucast (sec_permissions s)) p
     | field_kind \<Rightarrow> numeric_compare (ucast (section_kind_byte (sec_kind s))) p
     | _ \<Rightarrow> False)"

definition segment_row :: "Segment \<Rightarrow> QueryRow" where
  "segment_row s = row_of (seg_index s) (''segment.'' @ to_string (unat (seg_index s)))
    (seg_virtual_address s) (seg_memory_size s)
    [(''permissions'', permission_string (seg_permissions s)),
     (''file_offset'', to_string (unat (seg_file_offset s)))]"

definition segment_matches :: "Segment \<Rightarrow> QueryPredicate \<Rightarrow> bool" where
  "segment_matches s p =
    (case qp_field p of
       field_name \<Rightarrow> text_compare (qr_identity (segment_row s)) p
     | field_address \<Rightarrow> numeric_compare (seg_virtual_address s) p
     | field_size \<Rightarrow> numeric_compare (seg_memory_size s) p
     | field_permissions \<Rightarrow> numeric_compare (ucast (seg_permissions s)) p
     | _ \<Rightarrow> False)"

definition symbol_row :: "Symbol \<Rightarrow> QueryRow" where
  "symbol_row s = row_of (sym_index s) (sym_name s) (sym_value s) (sym_size s)
    [(''library'', sym_library s), (''binding'', to_string (unat (binding_byte (sym_binding s)))),
     (''kind'', to_string (unat (symbol_kind_byte (sym_kind s))))]"

definition symbol_matches :: "Symbol \<Rightarrow> QueryPredicate \<Rightarrow> bool" where
  "symbol_matches s p =
    (case qp_field p of
       field_name \<Rightarrow> text_compare (sym_name s) p
     | field_library \<Rightarrow> text_compare (sym_library s) p
     | field_address \<Rightarrow> numeric_compare (sym_value s) p
     | field_size \<Rightarrow> numeric_compare (sym_size s) p
     | field_binding \<Rightarrow> numeric_compare (ucast (binding_byte (sym_binding s))) p
     | field_kind \<Rightarrow> numeric_compare (ucast (symbol_kind_byte (sym_kind s))) p
     | _ \<Rightarrow> False)"

text \<open>An import or an export is numbered by its place.\<close>

definition import_row :: "nat \<times> Import \<Rightarrow> QueryRow" where
  "import_row = (\<lambda>(i, x). row_of (of_nat i) (imp_name x) (imp_slot_address x) 0
    [(''library'', imp_library x), (''ordinal'', to_string (unat (imp_ordinal x)))])"

definition import_matches :: "nat \<times> Import \<Rightarrow> QueryPredicate \<Rightarrow> bool" where
  "import_matches = (\<lambda>(i, x) p.
    (case qp_field p of
       field_name \<Rightarrow> text_compare (imp_name x) p
     | field_library \<Rightarrow> text_compare (imp_library x) p
     | field_address \<Rightarrow> numeric_compare (imp_slot_address x) p
     | field_ordinal \<Rightarrow> numeric_compare (imp_ordinal x) p
     | _ \<Rightarrow> False))"

definition export_row :: "nat \<times> Export \<Rightarrow> QueryRow" where
  "export_row = (\<lambda>(i, x). row_of (of_nat i) (exp_name x) (exp_address x) 0
    [(''ordinal'', to_string (unat (exp_ordinal x))), (''forward'', exp_forward_target x)])"

definition export_matches :: "nat \<times> Export \<Rightarrow> QueryPredicate \<Rightarrow> bool" where
  "export_matches = (\<lambda>(i, x) p.
    (case qp_field p of
       field_name \<Rightarrow> text_compare (exp_name x) p
     | field_address \<Rightarrow> numeric_compare (exp_address x) p
     | field_ordinal \<Rightarrow> numeric_compare (exp_ordinal x) p
     | _ \<Rightarrow> False))"

section \<open>The engine\<close>

definition accept_row :: "ImageQuery \<Rightarrow> QueryRow \<Rightarrow> bool list \<Rightarrow> QueryResult \<Rightarrow> QueryResult" where
  "accept_row q row matches res =
    (let res = res\<lparr>qs_examined := qs_examined res + 1\<rparr> in
     if \<not> combine matches (iq_require_all q) then res
     else if length (qs_rows res) \<ge> unat (iq_limit q) then res\<lparr>qs_truncated := True\<rparr>
     else res\<lparr>qs_rows := qs_rows res @ [row]\<rparr>)"

text \<open>The loop over the elements of one kind.\<close>

definition examine :: "ImageQuery \<Rightarrow> ('e \<Rightarrow> QueryRow) \<Rightarrow> ('e \<Rightarrow> QueryPredicate \<Rightarrow> bool) \<Rightarrow> 'e list \<Rightarrow> QueryResult" where
  "examine q row matches elements =
    fold (\<lambda>e. accept_row q (row e) (map (matches e) (iq_predicates q))) elements empty_result"

definition row_before :: "bool \<Rightarrow> QueryRow \<Rightarrow> QueryRow \<Rightarrow> bool" where
  "row_before ascending left right =
    (if qr_address left \<noteq> qr_address right
     then (if ascending then qr_address left < qr_address right else qr_address left > qr_address right)
     else (if ascending then qr_identity left < qr_identity right else qr_identity left > qr_identity right))"

text \<open>
  \<open>std::sort\<close> with this comparison, as an insertion sort: rows of the same address and identity
  keep the order they came in, one of the orders the standard allows for them. Nothing that is shown below depends on it.
\<close>

fun insert_row :: "bool \<Rightarrow> QueryRow \<Rightarrow> QueryRow list \<Rightarrow> QueryRow list" where
  "insert_row ascending row [] = [row]"
| "insert_row ascending row (r # rows) =
    (if row_before ascending r row then r # insert_row ascending row rows else row # r # rows)"

definition sort_rows :: "bool \<Rightarrow> QueryRow list \<Rightarrow> QueryRow list" where
  "sort_rows ascending rows = foldr (insert_row ascending) rows []"

definition predicate_typed :: "QueryPredicate \<Rightarrow> bool" where
  "predicate_typed p \<longleftrightarrow>
    (qp_field p \<noteq> field_name \<and> qp_field p \<noteq> field_library) = (case qp_value p of number _ \<Rightarrow> True | words _ \<Rightarrow> False)"

definition query_entities :: "BinaryImage \<Rightarrow> ImageQuery \<Rightarrow> QueryResult" where
  "query_entities img q =
    (case iq_entity q of
       section_entity \<Rightarrow> examine q section_row section_matches (img_sections img)
     | segment_entity \<Rightarrow> examine q segment_row segment_matches (img_segments img)
     | symbol_entity \<Rightarrow> examine q symbol_row symbol_matches (img_symbols img)
     | import_entity \<Rightarrow> examine q import_row import_matches (enumerate 0 (img_imports img))
     | export_entity \<Rightarrow> examine q export_row export_matches (enumerate 0 (img_exports img)))"

definition execute :: "Limits \<Rightarrow> BinaryImage \<Rightarrow> ImageQuery \<Rightarrow> Error + QueryResult" where
  "execute limits img q =
    (if iq_limit q = 0 \<or> iq_limit q > max_symbols limits \<or> length (iq_predicates q) > unat (max_sections limits)
     then Inl (mk_error resource_limit 0 ''query limits are invalid'')
     else if \<not> list_all predicate_typed (iq_predicates q)
     then Inl (mk_error invalid_header 0 ''query predicate type does not match field'')
     else let res = query_entities img q in Inr (res\<lparr>qs_rows := sort_rows (iq_ascending q) (qs_rows res)\<rparr>))"

section \<open>The order of the rows\<close>

definition in_order :: "bool \<Rightarrow> QueryRow \<Rightarrow> QueryRow \<Rightarrow> bool" where
  "in_order ascending a b \<longleftrightarrow> \<not> row_before ascending b a"

lemma row_before_order:
  "row_before asc a b \<Longrightarrow> in_order asc a b"
  "in_order asc a b \<Longrightarrow> in_order asc b c \<Longrightarrow> in_order asc a c"
  by (auto simp: in_order_def row_before_def split: if_splits)

lemma mset_insert_row [simp]: "mset (insert_row asc r rows) = add_mset r (mset rows)"
  by (induction rows) auto

lemma mset_sort_rows [simp]: "mset (sort_rows asc rows) = mset rows"
  by (induction rows) (simp_all add: sort_rows_def)

lemma sorted_insert_row:
  "sorted_wrt (in_order asc) rows \<Longrightarrow> sorted_wrt (in_order asc) (insert_row asc r rows)"
proof (induction rows)
  case (Cons a rows)
  have set: "set (insert_row asc r rows) = insert r (set rows)"
    by (metis mset_insert_row set_mset_add_mset_insert set_mset_mset)
  show ?case
  proof (cases "row_before asc a r")
    case True
    then show ?thesis using Cons by (auto simp: set row_before_order(1))
  next
    case False
    then have "in_order asc r a" by (simp add: in_order_def)
    then show ?thesis using False Cons.prems row_before_order(2) [of asc r a] by auto
  qed
qed simp

lemma sorted_sort_rows: "sorted_wrt (in_order asc) (sort_rows asc rows)"
  by (induction rows) (simp_all add: sort_rows_def sorted_insert_row)

section \<open>What a query selects\<close>

text \<open>The elements of an image by their place, and the value a field has in one, where the kind of element has that field.\<close>

fun element_count :: "BinaryImage \<Rightarrow> QueryEntity \<Rightarrow> nat" where
  "element_count img section_entity = length (img_sections img)"
| "element_count img segment_entity = length (img_segments img)"
| "element_count img symbol_entity = length (img_symbols img)"
| "element_count img import_entity = length (img_imports img)"
| "element_count img export_entity = length (img_exports img)"

fun element_row :: "BinaryImage \<Rightarrow> QueryEntity \<Rightarrow> nat \<Rightarrow> QueryRow" where
  "element_row img section_entity i = section_row (img_sections img ! i)"
| "element_row img segment_entity i = segment_row (img_segments img ! i)"
| "element_row img symbol_entity i = symbol_row (img_symbols img ! i)"
| "element_row img import_entity i = import_row (i, img_imports img ! i)"
| "element_row img export_entity i = export_row (i, img_exports img ! i)"

fun element_value :: "BinaryImage \<Rightarrow> QueryEntity \<Rightarrow> nat \<Rightarrow> QueryField \<Rightarrow> QueryValue option" where
  "element_value img section_entity i field_permissions = Some (number (ucast (sec_permissions (img_sections img ! i))))"
| "element_value img section_entity i field_kind =
    Some (number (ucast (section_kind_byte (sec_kind (img_sections img ! i)))))"
| "element_value img segment_entity i field_permissions = Some (number (ucast (seg_permissions (img_segments img ! i))))"
| "element_value img symbol_entity i field_binding =
    Some (number (ucast (binding_byte (sym_binding (img_symbols img ! i)))))"
| "element_value img symbol_entity i field_kind =
    Some (number (ucast (symbol_kind_byte (sym_kind (img_symbols img ! i)))))"
| "element_value img symbol_entity i field_library = Some (words (sym_library (img_symbols img ! i)))"
| "element_value img import_entity i field_library = Some (words (imp_library (img_imports img ! i)))"
| "element_value img import_entity i field_ordinal = Some (number (imp_ordinal (img_imports img ! i)))"
| "element_value img export_entity i field_ordinal = Some (number (exp_ordinal (img_exports img ! i)))"
| "element_value img import_entity i field_size = None"
| "element_value img export_entity i field_size = None"
| "element_value img kind i field_name = Some (words (qr_identity (element_row img kind i)))"
| "element_value img kind i field_address = Some (number (qr_address (element_row img kind i)))"
| "element_value img kind i field_size = Some (number (qr_size (element_row img kind i)))"
| "element_value img kind i _ = None"

text \<open>The operators on a value and the value they are compared with.\<close>

fun meets :: "QueryOperator \<Rightarrow> QueryValue \<Rightarrow> QueryValue \<Rightarrow> bool" where
  "meets equal v w \<longleftrightarrow> v = w"
| "meets not_equal v w \<longleftrightarrow> v \<noteq> w"
| "meets less (number a) (number b) \<longleftrightarrow> a < b"
| "meets less_equal (number a) (number b) \<longleftrightarrow> a \<le> b"
| "meets greater (number a) (number b) \<longleftrightarrow> b < a"
| "meets greater_equal (number a) (number b) \<longleftrightarrow> b \<le> a"
| "meets bitwise_contains (number a) (number b) \<longleftrightarrow> (\<forall>n. bit b n \<longrightarrow> bit a n)"
| "meets less (words a) (words b) \<longleftrightarrow> a < b"
| "meets less_equal (words a) (words b) \<longleftrightarrow> a \<le> b"
| "meets greater (words a) (words b) \<longleftrightarrow> b < a"
| "meets greater_equal (words a) (words b) \<longleftrightarrow> b \<le> a"
| "meets contains (words a) (words b) \<longleftrightarrow> (\<exists>before after. a = before @ b @ after)"
| "meets starts_with (words a) (words b) \<longleftrightarrow> (\<exists>after. a = b @ after)"
| "meets _ _ _ \<longleftrightarrow> False"

definition holds :: "(QueryField \<Rightarrow> QueryValue option) \<Rightarrow> QueryPredicate \<Rightarrow> bool" where
  "holds values p \<longleftrightarrow> (\<exists>v. values (qp_field p) = Some v \<and> meets (qp_operation p) v (qp_value p))"

definition selects :: "ImageQuery \<Rightarrow> (QueryField \<Rightarrow> QueryValue option) \<Rightarrow> bool" where
  "selects q values \<longleftrightarrow> iq_predicates q = [] \<or>
    (if iq_require_all q then list_all (holds values) (iq_predicates q) else list_ex (holds values) (iq_predicates q))"

lemma text_contains_iff: "text_contains a b \<longleftrightarrow> (\<exists>before after. a = before @ b @ after)"
proof
  assume "text_contains a b"
  then obtain i where "take (length b) (drop i a) = b" by (auto simp: text_contains_def list_ex_iff)
  then have "a = take i a @ b @ drop (length b) (drop i a)" by (metis append_take_drop_id)
  then show "\<exists>before after. a = before @ b @ after" by blast
next
  assume "\<exists>before after. a = before @ b @ after"
  then obtain before after where "a = before @ b @ after" by blast
  then show "text_contains a b" unfolding text_contains_def list_ex_iff by (intro bexI [of _ "length before"]) auto
qed

lemma and_contains: "(a :: 'a::len word) AND b = b \<longleftrightarrow> (\<forall>n. bit b n \<longrightarrow> bit a n)"
  by (auto simp: bit_eq_iff bit_and_iff dest: bit_imp_le_length)

lemma starts_iff: "length b \<le> length a \<and> take (length b) a = b \<longleftrightarrow> (\<exists>after. a = b @ after)"
  by (metis append_eq_conv_conj le_add1 length_append append_take_drop_id)

lemma numeric_compare_meets:
  "numeric_compare a p \<longleftrightarrow> (case qp_value p of number e \<Rightarrow> meets (qp_operation p) (number a) (number e) | words _ \<Rightarrow> False)"
  by (auto simp: numeric_compare_def and_contains split: QueryValue.split QueryOperator.split)

lemma text_compare_meets:
  "text_compare a p \<longleftrightarrow> (case qp_value p of words e \<Rightarrow> meets (qp_operation p) (words a) (words e) | number _ \<Rightarrow> False)"
  by (auto simp: text_compare_def text_contains_iff starts_iff split: QueryValue.split QueryOperator.split)

lemma typed_cases:
  assumes "predicate_typed p"
  obtains (word) w where "qp_field p = field_name \<or> qp_field p = field_library" "qp_value p = words w"
    | (numeric) n where "qp_field p \<noteq> field_name" "qp_field p \<noteq> field_library" "qp_value p = number n"
  using assms by (cases "qp_value p") (auto simp: predicate_typed_def)

lemmas matches_defs = section_matches_def segment_matches_def symbol_matches_def import_matches_def export_matches_def
  numeric_compare_meets text_compare_meets holds_def

lemmas row_defs = section_row_def segment_row_def symbol_row_def import_row_def export_row_def row_of_def

text \<open>Every matching function of the source computes \<open>holds\<close>.\<close>

lemma matches_holds:
  assumes "predicate_typed p"
  shows "section_matches (img_sections img ! i) p \<longleftrightarrow> holds (element_value img section_entity i) p"
    "segment_matches (img_segments img ! i) p \<longleftrightarrow> holds (element_value img segment_entity i) p"
    "symbol_matches (img_symbols img ! i) p \<longleftrightarrow> holds (element_value img symbol_entity i) p"
    "import_matches (i, img_imports img ! i) p \<longleftrightarrow> holds (element_value img import_entity i) p"
    "export_matches (i, img_exports img ! i) p \<longleftrightarrow> holds (element_value img export_entity i) p"
  using assms by (cases p rule: typed_cases; cases "qp_field p"; simp add: matches_defs row_defs)+

lemma combine_selects:
  "(\<And>p. p \<in> set (iq_predicates q) \<Longrightarrow> matches p \<longleftrightarrow> holds values p) \<Longrightarrow>
    combine (map matches (iq_predicates q)) (iq_require_all q) \<longleftrightarrow> selects q values"
  by (auto simp: combine_def selects_def list_all_iff list_ex_iff)

text \<open>The loop keeps the first rows that are selected, and counts all elements.\<close>

lemma examine_fold:
  fixes sel :: "'e \<Rightarrow> bool"
  assumes "\<And>e. sel e = combine (map (matches e) (iq_predicates q)) (iq_require_all q)"
    "rows0 = take (unat (iq_limit q)) (map row (filter sel es0))"
    "t0 \<longleftrightarrow> unat (iq_limit q) < length (filter sel es0)"
  shows "fold (\<lambda>e. accept_row q (row e) (map (matches e) (iq_predicates q))) es
      \<lparr>qs_examined = of_nat (length es0), qs_truncated = t0, qs_rows = rows0\<rparr> =
    \<lparr>qs_examined = of_nat (length (es0 @ es)), qs_truncated = (unat (iq_limit q) < length (filter sel (es0 @ es))),
     qs_rows = take (unat (iq_limit q)) (map row (filter sel (es0 @ es)))\<rparr>"
  using assms(2,3)
proof (induction es arbitrary: es0 rows0 t0)
  case (Cons e es)
  let ?n = "unat (iq_limit q)"
  have step: "accept_row q (row e) (map (matches e) (iq_predicates q))
        \<lparr>qs_examined = of_nat (length es0), qs_truncated = t0, qs_rows = rows0\<rparr> =
      \<lparr>qs_examined = of_nat (length (es0 @ [e])), qs_truncated = (?n < length (filter sel (es0 @ [e]))),
       qs_rows = take ?n (map row (filter sel (es0 @ [e])))\<rparr>"
    using Cons.prems by (auto simp: accept_row_def Let_def assms(1) [symmetric] min_def)
  show ?case using Cons.IH [OF refl refl, of "es0 @ [e]"] step by simp
qed simp

text \<open>The elements of a list by their place.\<close>

lemma filter_by_place:
  assumes "\<And>i. i < length es \<Longrightarrow> row (es ! i) = row' i" "\<And>i. i < length es \<Longrightarrow> sel (es ! i) = sel' i"
  shows "map row (filter sel es) = map row' (filter sel' [0..<length es])"
proof -
  have es: "es = map ((!) es) [0..<length es]" by (simp add: map_nth)
  have "map row (filter sel es) = map row (filter sel (map ((!) es) [0..<length es]))" using es by simp
  also have "\<dots> = map (row \<circ> (!) es) (filter (sel \<circ> (!) es) [0..<length es])" by (simp add: filter_map)
  also have "filter (sel \<circ> (!) es) [0..<length es] = filter sel' [0..<length es]"
    by (rule filter_cong) (simp_all add: assms(2))
  also have "map (row \<circ> (!) es) (filter sel' [0..<length es]) = map row' (filter sel' [0..<length es])"
    by (simp add: assms(1))
  finally show ?thesis .
qed

definition result_of :: "BinaryImage \<Rightarrow> ImageQuery \<Rightarrow> nat list \<Rightarrow> QueryResult" where
  "result_of img q found =
    \<lparr>qs_examined = of_nat (element_count img (iq_entity q)), qs_truncated = (unat (iq_limit q) < length found),
     qs_rows = take (unat (iq_limit q)) (map (element_row img (iq_entity q)) found)\<rparr>"

lemma examine_by_place:
  assumes "iq_entity q = kind" "\<And>i. i < length es \<Longrightarrow> row (es ! i) = element_row img kind i"
    "\<And>i p. i < length es \<Longrightarrow> p \<in> set (iq_predicates q) \<Longrightarrow>
      matches (es ! i) p \<longleftrightarrow> holds (element_value img kind i) p"
    "length es = element_count img kind"
  shows "examine q row matches es = result_of img q
    (filter (\<lambda>i. selects q (element_value img kind i)) [0..<element_count img kind])"
proof -
  define sel where "sel e = combine (map (matches e) (iq_predicates q)) (iq_require_all q)" for e
  have "map row (filter sel es) = map (element_row img kind)
      (filter (\<lambda>i. selects q (element_value img kind i)) [0..<length es])" (is "?l = ?r")
    by (rule filter_by_place) (simp_all add: assms(2,3) sel_def combine_selects)
  moreover from this have "length (filter sel es) = length ?r" by (metis length_map)
  ultimately show ?thesis
    using examine_fold [of sel matches q "[]" row "[]" False es] sel_def
    by (simp add: examine_def empty_result_def result_of_def assms(1,4))
qed

lemma query_entities_exact:
  assumes "list_all predicate_typed (iq_predicates q)"
  shows "query_entities img q = result_of img q
    (filter (\<lambda>i. selects q (element_value img (iq_entity q) i)) [0..<element_count img (iq_entity q)])"
proof -
  have typed: "predicate_typed p" if "p \<in> set (iq_predicates q)" for p using assms that by (simp add: list_all_iff)
  show ?thesis
    unfolding query_entities_def
    by (cases "iq_entity q"; simp only: QueryEntity.case; rule examine_by_place)
      (simp_all add: matches_holds typed nth_enumerate_eq del: element_value.simps)
qed

text \<open>
  C34. A query is refused exactly when its limits are out of bounds or a predicate compares a field
  with a value of the other type. Otherwise the result counts every element of the kind asked for; its rows are the first of
  the elements that meet all (or any, or no) predicates, up to the limit, ordered by address and then
  identity in the direction asked for; and it is marked truncated exactly when more elements were
  selected. A predicate on a field the kind of element does not have is never met.
\<close>

theorem query_exact:
  "case execute limits img q of
     Inl e \<Rightarrow> iq_limit q = 0 \<or> iq_limit q > max_symbols limits \<or>
       length (iq_predicates q) > unat (max_sections limits) \<or> list_ex (Not \<circ> predicate_typed) (iq_predicates q)
   | Inr res \<Rightarrow> iq_limit q \<noteq> 0 \<and> iq_limit q \<le> max_symbols limits \<and>
       length (iq_predicates q) \<le> unat (max_sections limits) \<and> list_all predicate_typed (iq_predicates q) \<and>
       (let count = element_count img (iq_entity q);
            found = filter (\<lambda>i. selects q (element_value img (iq_entity q) i)) [0..<count] in
         qs_examined res = of_nat count \<and> qs_truncated res = (unat (iq_limit q) < length found) \<and>
         mset (qs_rows res) = mset (map (element_row img (iq_entity q)) (take (unat (iq_limit q)) found)) \<and>
         sorted_wrt (in_order (iq_ascending q)) (qs_rows res))"
proof -
  have bad: "list_ex (Not \<circ> predicate_typed) (iq_predicates q) \<longleftrightarrow> \<not> list_all predicate_typed (iq_predicates q)"
    by (auto simp: list_all_iff list_ex_iff)
  show ?thesis
    unfolding execute_def bad
    by (auto simp: query_entities_exact result_of_def Let_def take_map sorted_sort_rows not_less)
qed

definition demo_query :: ImageQuery where
  "demo_query = \<lparr>iq_entity = import_entity, iq_predicates =
       [\<lparr>qp_field = field_name, qp_operation = contains, qp_value = words ''pri''\<rparr>,
        \<lparr>qp_field = field_address, qp_operation = bitwise_contains, qp_value = number 4\<rparr>],
     iq_limit = 1, iq_require_all = True, iq_ascending = False\<rparr>"

definition demo_query_image :: BinaryImage where
  "demo_query_image = empty_image\<lparr>img_imports :=
     map (\<lambda>(n, a). \<lparr>imp_library = ''m'', imp_name = n, imp_ordinal = 0, imp_slot_address = a, imp_weak = False\<rparr>)
       [(''puts'', 4), (''printf'', 6), (''sprintf'', 12), (''fprintf'', 8)]\<rparr>"

lemma demo_query_runs:
  "map_sum id (\<lambda>r. (qs_examined r, qs_truncated r, map qr_identity (qs_rows r)))
    (execute demo_limits demo_query_image demo_query) = Inr (4, True, [''printf''])"
  by code_simp

end
