(* ===== verification/Image_Metrics.thy ===== *)
theory Image_Metrics
  imports Validator "HOL-Library.Multiset"
begin

unbundle bit_operations_syntax

text \<open>
  \<open>ImageAnalyzer\<close> of \<open>src/image_analyzer.cc\<close>: the byte statistics of a section, and the totals, ranges and
  anomalies of an image. The entropy is a \<open>double\<close>: its arithmetic, and the comparison with \<open>7.2\<close>, are a
  parameter, applied as the code applies them. The main theorem says when an analysis succeeds and what it counts.
\<close>

section \<open>Ranges\<close>

record AddressRange =
  ar_begin :: u64
  ar_end :: u64
  ar_permissions :: u8
  ar_owner :: string

definition range_contains :: "AddressRange \<Rightarrow> u64 \<Rightarrow> bool" where
  "range_contains r address \<longleftrightarrow> address \<ge> ar_begin r \<and> address < ar_end r"

definition range_overlaps :: "AddressRange \<Rightarrow> AddressRange \<Rightarrow> bool" where
  "range_overlaps r other \<longleftrightarrow> ar_begin r < ar_end other \<and> ar_begin other < ar_end r"

section \<open>Metrics\<close>

text \<open>Operations on \<open>double\<close>; \<open>fl_high\<close> is the comparison \<open>> 7.2\<close>.\<close>

record 'd doubles =
  fl_zero :: 'd
  fl_of :: "u64 \<Rightarrow> 'd"
  fl_divide :: "'d \<Rightarrow> 'd \<Rightarrow> 'd"
  fl_times :: "'d \<Rightarrow> 'd \<Rightarrow> 'd"
  fl_minus :: "'d \<Rightarrow> 'd \<Rightarrow> 'd"
  fl_log2 :: "'d \<Rightarrow> 'd"
  fl_high :: "'d \<Rightarrow> bool"

record 'd SectionMetrics =
  sm_section_index :: u32
  sm_zero_bytes :: u64
  sm_printable_bytes :: u64
  sm_unique_byte_values :: u64
  sm_entropy :: 'd
  sm_checksum :: u32
  sm_likely_code :: bool
  sm_likely_compressed :: bool

record 'd ImageMetrics =
  im_file_size :: u64
  im_declared_file_bytes :: u64
  im_declared_memory_bytes :: u64
  im_executable_bytes :: u64
  im_writable_bytes :: u64
  im_zero_fill_bytes :: u64
  im_named_sections :: u32
  im_imported_symbols :: u32
  im_exported_symbols :: u32
  im_sections :: "'d SectionMetrics list"
  im_address_ranges :: "AddressRange list"
  im_anomalies :: "string list"

definition empty_section_metrics :: "'d doubles \<Rightarrow> u32 \<Rightarrow> 'd SectionMetrics" where
  "empty_section_metrics fl index =
    \<lparr>sm_section_index = index, sm_zero_bytes = 0, sm_printable_bytes = 0, sm_unique_byte_values = 0,
     sm_entropy = fl_zero fl, sm_checksum = 0, sm_likely_code = False, sm_likely_compressed = False\<rparr>"

definition empty_metrics :: "u64 \<Rightarrow> 'd ImageMetrics" where
  "empty_metrics file_size =
    \<lparr>im_file_size = file_size, im_declared_file_bytes = 0, im_declared_memory_bytes = 0, im_executable_bytes = 0,
     im_writable_bytes = 0, im_zero_fill_bytes = 0, im_named_sections = 0, im_imported_symbols = 0,
     im_exported_symbols = 0, im_sections = [], im_address_ranges = [], im_anomalies = []\<rparr>"

section \<open>The bytes of a section\<close>

definition printable_byte :: "u8 \<Rightarrow> bool" where
  "printable_byte v \<longleftrightarrow> v \<ge> 0x20 \<and> v \<le> 0x7e \<or> v = 10 \<or> v = 13 \<or> v = 9"

definition count_byte :: "u8 \<Rightarrow> u64 list \<times> u64 \<times> u64 \<Rightarrow> u64 list \<times> u64 \<times> u64" where
  "count_byte v = (\<lambda>(frequencies, zeros, printable).
    (frequencies[unat v := frequencies ! unat v + 1], if v = 0 then zeros + 1 else zeros,
     if printable_byte v then printable + 1 else printable))"

definition add_frequency :: "'d doubles \<Rightarrow> u64 \<Rightarrow> u64 \<Rightarrow> u64 \<times> 'd \<Rightarrow> u64 \<times> 'd" where
  "add_frequency fl file_size frequency = (\<lambda>(unique, entropy).
    if frequency = 0 then (unique, entropy)
    else let probability = fl_divide fl (fl_of fl frequency) (fl_of fl file_size) in
      (unique + 1, fl_minus fl entropy (fl_times fl probability (fl_log2 fl probability))))"

definition byte_metrics :: "'d doubles \<Rightarrow> Section \<Rightarrow> bytes \<Rightarrow> 'd SectionMetrics" where
  "byte_metrics fl s bs =
    (case fold count_byte bs (replicate 256 0, 0, 0) of (frequencies, zeros, printable) \<Rightarrow>
     case fold (add_frequency fl (sec_file_size s)) frequencies (0, fl_zero fl) of (unique, entropy) \<Rightarrow>
       \<lparr>sm_section_index = sec_index s, sm_zero_bytes = zeros, sm_printable_bytes = printable,
        sm_unique_byte_values = unique, sm_entropy = entropy, sm_checksum = crc32 bs,
        sm_likely_code = (sec_permissions s AND permission_execute \<noteq> 0 \<and> zeros * 4 < sec_file_size s * 3),
        sm_likely_compressed = (fl_high fl entropy \<and> unique > 192 \<and> printable * 4 < sec_file_size s)\<rparr>)"

text \<open>The metrics come back with or without an error.\<close>

definition analyze_section :: "'d doubles \<Rightarrow> Limits \<Rightarrow> BinaryImage \<Rightarrow> Section \<Rightarrow> Error option \<times> 'd SectionMetrics" where
  "analyze_section fl limits img s =
    (let metrics = empty_section_metrics fl (sec_index s) in
     case img_file_data img of
       None \<Rightarrow> (Some (mk_error invalid_header (sec_file_offset s) ''section analysis requires backing bytes''), metrics)
     | Some data \<Rightarrow>
       if sec_kind s = no_bits \<or> sec_file_size s = 0
       then (None, metrics\<lparr>sm_zero_bytes := sec_memory_size s\<rparr>)
       else if sec_file_size s > max_section_bytes limits \<or>
         \<not> range_inside (sec_file_offset s) (sec_file_size s) (of_nat (length data))
       then (Some (mk_error invalid_section (sec_file_offset s) ''section analysis range is invalid''), metrics)
       else (None, byte_metrics fl s (take (unat (sec_file_size s)) (drop (unat (sec_file_offset s)) data))))"

section \<open>The image\<close>

definition add_total :: "bool \<Rightarrow> u64 \<Rightarrow> u64 \<Rightarrow> u64 \<Rightarrow> string \<Rightarrow> Error + u64" where
  "add_total applies counter amount location message =
    (if applies then case checked_add counter amount of
         None \<Rightarrow> Inl (mk_error address_overflow location message)
       | Some amount' \<Rightarrow> Inr amount'
     else Inr counter)"

definition count_section :: "'d doubles \<Rightarrow> Limits \<Rightarrow> BinaryImage \<Rightarrow> Section \<Rightarrow> 'd ImageMetrics \<Rightarrow> Error + 'd ImageMetrics" where
  "count_section fl limits img s m =
    (case add_total True (im_declared_file_bytes m) (sec_file_size s) (sec_file_offset s)
        ''declared file-byte total overflow'' of Inl e \<Rightarrow> Inl e | Inr file_bytes \<Rightarrow>
     case add_total True (im_declared_memory_bytes m) (sec_memory_size s) (sec_virtual_address s)
        ''declared memory-byte total overflow'' of Inl e \<Rightarrow> Inl e | Inr memory_bytes \<Rightarrow>
     case add_total (sec_permissions s AND permission_execute \<noteq> 0) (im_executable_bytes m) (sec_memory_size s)
        (sec_virtual_address s) ''executable-byte total overflow'' of Inl e \<Rightarrow> Inl e | Inr executable_bytes \<Rightarrow>
     case add_total (sec_permissions s AND permission_write \<noteq> 0) (im_writable_bytes m) (sec_memory_size s)
        (sec_virtual_address s) ''writable-byte total overflow'' of Inl e \<Rightarrow> Inl e | Inr writable_bytes \<Rightarrow>
     case add_total (sec_memory_size s > sec_file_size s) (im_zero_fill_bytes m) (sec_memory_size s - sec_file_size s)
        (sec_virtual_address s) ''zero-fill total overflow'' of Inl e \<Rightarrow> Inl e | Inr zero_fill \<Rightarrow>
     case analyze_section fl limits img s of (Some e, _) \<Rightarrow> Inl e | (None, metrics) \<Rightarrow>
       Inr (m\<lparr>im_declared_file_bytes := file_bytes, im_declared_memory_bytes := memory_bytes,
         im_executable_bytes := executable_bytes, im_writable_bytes := writable_bytes, im_zero_fill_bytes := zero_fill,
         im_named_sections := (if sec_name s \<noteq> [] then im_named_sections m + 1 else im_named_sections m),
         im_sections := im_sections m @ [metrics]\<rparr>))"

fun count_sections :: "'d doubles \<Rightarrow> Limits \<Rightarrow> BinaryImage \<Rightarrow> Section list \<Rightarrow> 'd ImageMetrics \<Rightarrow> Error + 'd ImageMetrics" where
  "count_sections fl limits img [] m = Inr m"
| "count_sections fl limits img (s # ss) m =
    (case count_section fl limits img s m of Inl e \<Rightarrow> Inl e | Inr m' \<Rightarrow> count_sections fl limits img ss m')"

definition segment_range :: "Segment \<Rightarrow> Error + AddressRange" where
  "segment_range s =
    (case checked_add (seg_virtual_address s) (seg_memory_size s) of
       None \<Rightarrow> Inl (mk_error address_overflow (seg_virtual_address s) ''segment range overflows'')
     | Some end_address \<Rightarrow>
       Inr \<lparr>ar_begin = seg_virtual_address s, ar_end = end_address, ar_permissions = seg_permissions s,
         ar_owner = ''segment.'' @ to_string (unat (seg_index s))\<rparr>)"

fun segment_ranges :: "Segment list \<Rightarrow> Error + AddressRange list" where
  "segment_ranges [] = Inr []"
| "segment_ranges (s # ss) =
    (case segment_range s of Inl e \<Rightarrow> Inl e
     | Inr r \<Rightarrow> (case segment_ranges ss of Inl e \<Rightarrow> Inl e | Inr rs \<Rightarrow> Inr (r # rs)))"

text \<open>
  \<open>std::sort\<close> by begin, then end; equal ranges keep their order here, one of the orders the standard
  allows for them.
\<close>

definition sort_ranges :: "AddressRange list \<Rightarrow> AddressRange list" where
  "sort_ranges = sort_key (\<lambda>r. (ar_begin r, ar_end r))"

fun overlap_anomalies :: "AddressRange list \<Rightarrow> string list" where
  "overlap_anomalies (previous # current # rest) =
    (if range_overlaps previous current then [ar_owner previous @ '' overlaps '' @ ar_owner current] else []) @
    overlap_anomalies (current # rest)"
| "overlap_anomalies ranges = []"

definition entropy_anomalies :: "BinaryImage \<Rightarrow> 'd SectionMetrics list \<Rightarrow> string list" where
  "entropy_anomalies img ms =
    map (\<lambda>m. ''high-entropy section: '' @ (case image_section img (sm_section_index m) of
        Some original \<Rightarrow> sec_name original | None \<Rightarrow> to_string (unat (sm_section_index m))))
      (filter sm_likely_compressed ms)"

definition writable_executable_anomalies :: "BinaryImage \<Rightarrow> 'd ImageMetrics \<Rightarrow> string list" where
  "writable_executable_anomalies img m =
    (if im_executable_bytes m \<noteq> 0 \<and> im_writable_bytes m \<noteq> 0
     then map (\<lambda>s. ''writable-executable section: '' @ sec_name s)
       (filter (\<lambda>s. sec_permissions s AND permission_execute \<noteq> 0 \<and> sec_permissions s AND permission_write \<noteq> 0)
         (img_sections img))
     else [])"

definition count_if :: "('a \<Rightarrow> bool) \<Rightarrow> 'a list \<Rightarrow> u32" where
  "count_if P xs = fold (\<lambda>x n. if P x then n + 1 else n) xs 0"

definition analyze_image :: "'d doubles \<Rightarrow> Limits \<Rightarrow> BinaryImage \<Rightarrow> Error + 'd ImageMetrics" where
  "analyze_image fl limits img =
    (let validation = validate limits img in
     if \<not> rep_valid validation then Inl (hd (rep_errors validation))
     else let data = the (img_file_data img) in
     case count_sections fl limits img (img_sections img) (empty_metrics (of_nat (length data))) of
       Inl e \<Rightarrow> Inl e
     | Inr m \<Rightarrow>
     case segment_ranges (img_segments img) of
       Inl e \<Rightarrow> Inl e
     | Inr ranges \<Rightarrow>
       let ranges = sort_ranges ranges in
       Inr (m\<lparr>im_address_ranges := ranges,
         im_imported_symbols := count_if (\<lambda>s. sym_binding s = import_symbol) (img_symbols img),
         im_exported_symbols := count_if (\<lambda>s. sym_binding s = export_symbol \<or> sym_binding s = global) (img_symbols img),
         im_anomalies := overlap_anomalies ranges @ entropy_anomalies img (im_sections m) @
           writable_executable_anomalies img m\<rparr>))"

section \<open>Statistics of bytes\<close>

declare upt_rec_numeral [simp del]

lemma count_bytes:
  "length frequencies = 256 \<Longrightarrow> fold count_byte bs (frequencies, zeros, printable) =
    (map (\<lambda>i. frequencies ! i + of_nat (count_list bs (of_nat i))) [0..<256], zeros + of_nat (count_list bs 0),
     printable + of_nat (length (filter printable_byte bs)))"
proof (induction bs arbitrary: frequencies zeros printable)
  case Nil
  have "map ((!) frequencies) [0..<length frequencies] = frequencies" by (rule map_nth)
  then show ?case using Nil by simp
next
  case (Cons b bs)
  have "frequencies[unat b := frequencies ! unat b + 1] ! i + of_nat (count_list bs (of_nat i)) =
      frequencies ! i + of_nat (count_list (b # bs) (of_nat i))" if "i < 256" for i
  proof (cases "i = unat b")
    case True
    then show ?thesis using that Cons.prems by simp
  next
    case False
    then have "b \<noteq> of_nat i" using that by (auto simp: unat_of_nat_u8 simp del: unsigned_of_nat)
    then show ?thesis using False by simp
  qed
  then show ?case using Cons by (simp add: count_byte_def)
qed

lemma add_frequencies:
  "fst (fold (add_frequency fl file_size) fs (unique, entropy)) = unique + of_nat (length (filter (\<lambda>f. f \<noteq> 0) fs))"
  by (induction fs arbitrary: unique entropy) (simp_all add: add_frequency_def Let_def)

definition byte_counts :: "bytes \<Rightarrow> u64 list" where
  "byte_counts bs = map (\<lambda>i. of_nat (count_list bs (of_nat i))) [0..<256]"

lemma distinct_values:
  assumes "length bs < 2 ^ 64"
  shows "length (filter (\<lambda>f. f \<noteq> 0) (byte_counts bs)) = card (set bs)"
proof -
  have nz: "(of_nat (count_list bs b) :: u64) \<noteq> 0 \<longleftrightarrow> b \<in> set bs" for b
  proof -
    have "count_list bs b < 2 ^ 64" using count_le_length [of bs b] assms by (rule le_less_trans)
    then have "unat (of_nat (count_list bs b) :: u64) = count_list bs b" by (intro unat_of_nat_u64) simp
    then have "(of_nat (count_list bs b) :: u64) = 0 \<longleftrightarrow> count_list bs b = 0" using unat_eq_zero by metis
    then show ?thesis using count_list_0_iff [of bs b] by simp
  qed
  have "length (filter (\<lambda>f. f \<noteq> 0) (byte_counts bs)) = length (filter (\<lambda>i. of_nat i \<in> set bs) [0..<256])"
    by (simp add: byte_counts_def filter_map comp_def nz)
  also have "\<dots> = card {i. i < 256 \<and> (of_nat i :: u8) \<in> set bs}"
    by (simp add: distinct_length_filter Int_def conj_commute)
  also have "\<dots> = card (unat ` set bs)"
  proof (rule arg_cong [where f = card], rule set_eqI, rule iffI)
    fix i assume "i \<in> unat ` set bs"
    then show "i \<in> {i. i < 256 \<and> (of_nat i :: u8) \<in> set bs}" using unat_u8_bound by auto
  next
    fix i assume "i \<in> {i. i < 256 \<and> (of_nat i :: u8) \<in> set bs}"
    then show "i \<in> unat ` set bs" by (auto simp: image_iff unat_of_nat_u8 simp del: unsigned_of_nat intro!: bexI [of _ "of_nat i"])
  qed
  also have "\<dots> = card (set bs)" by (rule card_image) (simp add: inj_on_def word_unat_eq_iff)
  finally show ?thesis .
qed

text \<open>The metrics of a section, as counts of its bytes.\<close>

definition backed :: "Section \<Rightarrow> bool" where
  "backed s \<longleftrightarrow> sec_kind s \<noteq> no_bits \<and> sec_file_size s \<noteq> 0"

definition section_bytes :: "bytes \<Rightarrow> Section \<Rightarrow> bytes" where
  "section_bytes data s = take (unat (sec_file_size s)) (drop (unat (sec_file_offset s)) data)"

definition statistics :: "'d doubles \<Rightarrow> bytes \<Rightarrow> Section \<Rightarrow> 'd SectionMetrics" where
  "statistics fl data s =
    (if \<not> backed s then (empty_section_metrics fl (sec_index s))\<lparr>sm_zero_bytes := sec_memory_size s\<rparr>
     else let bs = section_bytes data s; zeros = of_nat (count_list bs 0);
         printable = of_nat (length (filter printable_byte bs)); unique = of_nat (card (set bs));
         entropy = snd (fold (add_frequency fl (sec_file_size s)) (byte_counts bs) (0, fl_zero fl)) in
       \<lparr>sm_section_index = sec_index s, sm_zero_bytes = zeros, sm_printable_bytes = printable,
        sm_unique_byte_values = unique, sm_entropy = entropy, sm_checksum = crc32 bs,
        sm_likely_code = (sec_permissions s AND permission_execute \<noteq> 0 \<and> zeros * 4 < sec_file_size s * 3),
        sm_likely_compressed = (fl_high fl entropy \<and> unique > 192 \<and> printable * 4 < sec_file_size s)\<rparr>)"

lemma byte_metrics_statistics:
  assumes "length data < 2 ^ 64" "backed s"
  shows "byte_metrics fl s (section_bytes data s) = statistics fl data s"
proof -
  let ?bs = "section_bytes data s"
  have len: "length ?bs < 2 ^ 64" using assms(1) by (simp add: section_bytes_def)
  have counts: "fold count_byte ?bs (replicate 256 0, 0, 0) =
      (byte_counts ?bs, of_nat (count_list ?bs 0), of_nat (length (filter printable_byte ?bs)))"
    by (subst count_bytes) (simp_all add: byte_counts_def cong: map_cong)
  obtain u e where fold: "fold (add_frequency fl (sec_file_size s)) (byte_counts ?bs) (0, fl_zero fl) = (u, e)" by force
  then have "u = of_nat (card (set ?bs))"
    using add_frequencies [of fl "sec_file_size s" "byte_counts ?bs" 0 "fl_zero fl"] distinct_values [OF len] by simp
  then show ?thesis using assms(2) by (simp add: byte_metrics_def counts fold statistics_def Let_def)
qed

definition section_fits :: "Limits \<Rightarrow> bytes \<Rightarrow> Section \<Rightarrow> bool" where
  "section_fits limits data s \<longleftrightarrow> \<not> backed s \<or> sec_file_size s \<le> max_section_bytes limits \<and>
    range_inside (sec_file_offset s) (sec_file_size s) (of_nat (length data))"

lemma analyze_section_exact:
  assumes "img_file_data img = Some data" "length data < 2 ^ 64"
  shows "fst (analyze_section fl limits img s) = None \<longleftrightarrow> section_fits limits data s"
    "fst (analyze_section fl limits img s) = None \<Longrightarrow> snd (analyze_section fl limits img s) = statistics fl data s"
  using byte_metrics_statistics [OF assms(2), of s fl]
  by (auto simp: analyze_section_def assms(1) Let_def section_fits_def statistics_def section_bytes_def backed_def)

section \<open>Totals\<close>

text \<open>The bytes the sections with a property declare, as a number without bound.\<close>

definition declared :: "(Section \<Rightarrow> bool) \<Rightarrow> (Section \<Rightarrow> nat) \<Rightarrow> Section list \<Rightarrow> nat" where
  "declared P f ss = sum_list (map f (filter P ss))"

abbreviation runs :: "Section \<Rightarrow> bool" where "runs s \<equiv> sec_permissions s AND permission_execute \<noteq> 0"
abbreviation writes :: "Section \<Rightarrow> bool" where "writes s \<equiv> sec_permissions s AND permission_write \<noteq> 0"
abbreviation file_bytes :: "Section \<Rightarrow> nat" where "file_bytes s \<equiv> unat (sec_file_size s)"
abbreviation memory_bytes :: "Section \<Rightarrow> nat" where "memory_bytes s \<equiv> unat (sec_memory_size s)"

lemma declared_simps [simp]:
  "declared P f [] = 0" "declared P f (ss @ [s]) = declared P f ss + (if P s then f s else 0)"
  by (simp_all add: declared_def)

lemma declared_le: "(\<And>s. g s \<le> f s) \<Longrightarrow> declared P g ss \<le> declared (\<lambda>_. True) f ss"
proof (induction ss)
  case (Cons s ss)
  then show ?case using Cons.prems [of s] by (auto simp: declared_def intro: add_mono le_trans [OF _ le_add2])
qed simp

definition totals_hold :: "'d doubles \<Rightarrow> bytes \<Rightarrow> Section list \<Rightarrow> 'd ImageMetrics \<Rightarrow> bool" where
  "totals_hold fl data ss m \<longleftrightarrow>
    unat (im_declared_file_bytes m) = declared (\<lambda>_. True) file_bytes ss \<and>
    unat (im_declared_memory_bytes m) = declared (\<lambda>_. True) memory_bytes ss \<and>
    unat (im_executable_bytes m) = declared runs memory_bytes ss \<and>
    unat (im_writable_bytes m) = declared writes memory_bytes ss \<and>
    unat (im_zero_fill_bytes m) = declared (\<lambda>_. True) (\<lambda>s. memory_bytes s - file_bytes s) ss \<and>
    im_named_sections m = of_nat (length (filter (\<lambda>s. sec_name s \<noteq> []) ss)) \<and>
    im_sections m = map (statistics fl data) ss"

definition totals_fit :: "Section list \<Rightarrow> bool" where
  "totals_fit ss \<longleftrightarrow> declared (\<lambda>_. True) file_bytes ss < 2 ^ 64 \<and> declared (\<lambda>_. True) memory_bytes ss < 2 ^ 64"

lemma add_total_exact:
  "add_total applies counter amount location message =
    (let v = unat counter + (if applies then unat amount else 0) in
     if v < 2 ^ 64 then Inr (of_nat v) else Inl (mk_error address_overflow location message))"
  using unat_u64_bound [of counter] by (simp add: add_total_def add_op.op_exact)

text \<open>
  One section: the totals of the executable, writable and zero-filled bytes cannot overflow before
  that of the memory bytes.
\<close>

lemma count_section_exact:
  assumes data: "img_file_data img = Some data" "length data < 2 ^ 64"
    and m: "totals_hold fl data ss m"
  shows "(\<exists>m'. count_section fl limits img s m = Inr m') \<longleftrightarrow> totals_fit (ss @ [s]) \<and> section_fits limits data s"
    "count_section fl limits img s m = Inr m' \<Longrightarrow> totals_hold fl data (ss @ [s]) m' \<and>
      im_file_size m' = im_file_size m"
proof -
  let ?ss = "ss @ [s]"
  have le: "declared runs memory_bytes ?ss \<le> declared (\<lambda>_. True) memory_bytes ?ss"
    "declared writes memory_bytes ?ss \<le> declared (\<lambda>_. True) memory_bytes ?ss"
    "declared (\<lambda>_. True) (\<lambda>s. memory_bytes s - file_bytes s) ?ss \<le> declared (\<lambda>_. True) memory_bytes ?ss"
    by (rule declared_le, simp)+
  have fill: "(if sec_memory_size s > sec_file_size s then unat (sec_memory_size s - sec_file_size s) else 0) =
      memory_bytes s - file_bytes s"
    by (auto simp: word_less_nat_alt word_le_nat_alt intro: unat_minus_bounded)
  have eq: "add_total True (im_declared_file_bytes m) (sec_file_size s) l t =
      (let v = declared (\<lambda>_. True) file_bytes ?ss in if v < 18446744073709551616 then Inr (of_nat v) else Inl (mk_error address_overflow l t))"
    "add_total True (im_declared_memory_bytes m) (sec_memory_size s) l t =
      (let v = declared (\<lambda>_. True) memory_bytes ?ss in if v < 18446744073709551616 then Inr (of_nat v) else Inl (mk_error address_overflow l t))"
    "add_total (runs s) (im_executable_bytes m) (sec_memory_size s) l t =
      (let v = declared runs memory_bytes ?ss in if v < 18446744073709551616 then Inr (of_nat v) else Inl (mk_error address_overflow l t))"
    "add_total (writes s) (im_writable_bytes m) (sec_memory_size s) l t =
      (let v = declared writes memory_bytes ?ss in if v < 18446744073709551616 then Inr (of_nat v) else Inl (mk_error address_overflow l t))"
    "add_total (sec_memory_size s > sec_file_size s) (im_zero_fill_bytes m) (sec_memory_size s - sec_file_size s) l t =
      (let v = declared (\<lambda>_. True) (\<lambda>s. memory_bytes s - file_bytes s) ?ss in
        if v < 18446744073709551616 then Inr (of_nat v) else Inl (mk_error address_overflow l t))" for l t
    using m by (simp_all add: add_total_exact fill totals_hold_def)
  show iff: "(\<exists>m'. count_section fl limits img s m = Inr m') \<longleftrightarrow> totals_fit ?ss \<and> section_fits limits data s"
  proof (cases "totals_fit ?ss")
    case True
    then have fit: "declared (\<lambda>_. True) file_bytes ?ss < 18446744073709551616" "declared (\<lambda>_. True) memory_bytes ?ss < 18446744073709551616"
      by (simp_all add: totals_fit_def del: declared_simps)
    note [simp] = fit le_less_trans [OF le(1) fit(2)] le_less_trans [OF le(2) fit(2)] le_less_trans [OF le(3) fit(2)]
    show ?thesis
      using True analyze_section_exact(1) [OF data, of fl limits s]
      by (cases "analyze_section fl limits img s")
        (auto simp: count_section_def eq Let_def simp del: declared_simps split: option.splits)
  next
    case False
    then show ?thesis
      by (auto simp: count_section_def eq Let_def totals_fit_def simp del: declared_simps split: if_splits sum.splits)
  qed
  show "totals_hold fl data ?ss m' \<and> im_file_size m' = im_file_size m"
    if run: "count_section fl limits img s m = Inr m'"
  proof -
    have fit: "declared (\<lambda>_. True) file_bytes ?ss < 18446744073709551616" "declared (\<lambda>_. True) memory_bytes ?ss < 18446744073709551616"
      using iff run by (simp_all add: totals_fit_def del: declared_simps)
    have fit': "declared runs memory_bytes ?ss < 18446744073709551616" "declared writes memory_bytes ?ss < 18446744073709551616"
      "declared (\<lambda>_. True) (\<lambda>s. memory_bytes s - file_bytes s) ?ss < 18446744073709551616"
      using le fit(2) by (blast intro: le_less_trans)+
    have stats: "analyze_section fl limits img s = (None, statistics fl data s)"
      using iff run analyze_section_exact [OF data, of fl limits s] by (metis prod.collapse)
    have m': "m' = m\<lparr>im_declared_file_bytes := of_nat (declared (\<lambda>_. True) file_bytes ?ss),
        im_declared_memory_bytes := of_nat (declared (\<lambda>_. True) memory_bytes ?ss),
        im_executable_bytes := of_nat (declared runs memory_bytes ?ss),
        im_writable_bytes := of_nat (declared writes memory_bytes ?ss),
        im_zero_fill_bytes := of_nat (declared (\<lambda>_. True) (\<lambda>s. memory_bytes s - file_bytes s) ?ss),
        im_named_sections := (if sec_name s \<noteq> [] then im_named_sections m + 1 else im_named_sections m),
        im_sections := im_sections m @ [statistics fl data s]\<rparr>"
      using run by (simp add: count_section_def eq fit fit' stats Let_def del: declared_simps)
    show ?thesis
      using m unfolding m' totals_hold_def
      by (simp add: unat_of_nat_u64 fit fit' del: declared_simps unsigned_of_nat)
  qed
qed

lemma count_sections_exact:
  assumes data: "img_file_data img = Some data" "length data < 2 ^ 64"
  shows "totals_hold fl data ss0 m \<Longrightarrow>
    case count_sections fl limits img ss m of
      Inl e \<Rightarrow> \<not> (totals_fit (ss0 @ ss) \<and> list_all (section_fits limits data) ss)
    | Inr m' \<Rightarrow> totals_hold fl data (ss0 @ ss) m' \<and> im_file_size m' = im_file_size m \<and>
        list_all (section_fits limits data) ss \<and> (ss \<noteq> [] \<longrightarrow> totals_fit (ss0 @ ss))"
proof (induction ss arbitrary: ss0 m)
  case (Cons s ss)
  note step = count_section_exact [OF data Cons.prems, of limits s]
  have mono: "totals_fit (ss0 @ s # ss) \<Longrightarrow> totals_fit (ss0 @ [s])"
    by (auto simp: totals_fit_def declared_def)
  show ?case
  proof (cases "count_section fl limits img s m")
    case (Inl e)
    then show ?thesis using step(1) mono by auto
  next
    case (Inr m1)
    then have "totals_fit (ss0 @ [s])" "section_fits limits data s" using step(1) by blast+
    then show ?thesis
      using Cons.IH [of "ss0 @ [s]" m1] step(2) [OF Inr] Inr by (auto split: sum.splits)
  qed
qed simp

section \<open>Ranges that overlap\<close>

definition overlapping :: "Segment \<Rightarrow> Segment \<Rightarrow> bool" where
  "overlapping a b \<longleftrightarrow>
    unat (seg_virtual_address a) < unat (seg_virtual_address b) + unat (seg_memory_size b) \<and>
    unat (seg_virtual_address b) < unat (seg_virtual_address a) + unat (seg_memory_size a)"

definition disjoint_ranges :: "AddressRange list \<Rightarrow> bool" where
  "disjoint_ranges rs \<longleftrightarrow> sorted_wrt (\<lambda>a b. \<not> range_overlaps a b) rs"

lemma overlap_chain:
  assumes "sorted (map (\<lambda>r. (ar_begin r, ar_end r)) rs)" "\<forall>r \<in> set rs. ar_begin r \<le> ar_end r"
  shows "overlap_anomalies rs = [] \<longleftrightarrow> disjoint_ranges rs"
  using assms
proof (induction rs rule: overlap_anomalies.induct)
  case (1 a b rest)
  have "disjoint_ranges (b # rest) \<Longrightarrow> \<not> range_overlaps a b \<Longrightarrow> \<forall>c \<in> set rest. \<not> range_overlaps a c"
    using 1 by (force simp: range_overlaps_def)
  then show ?case using 1 by (auto simp: disjoint_ranges_def)
qed (simp_all add: disjoint_ranges_def)

lemma sorted_wrt_insort:
  assumes "\<And>a b. R a b \<longleftrightarrow> R b a"
  shows "sorted_wrt R (insort_key f x xs) \<longleftrightarrow> (\<forall>y \<in> set xs. R x y) \<and> sorted_wrt R xs"
  using assms by (induction xs) (auto simp: set_insort_key)

lemma sorted_wrt_sort:
  assumes "\<And>a b. R a b \<longleftrightarrow> R b a"
  shows "sorted_wrt R (sort_key f xs) \<longleftrightarrow> sorted_wrt R xs"
  by (induction xs) (simp_all add: sorted_wrt_insort [of R, OF assms])

definition range_of :: "Segment \<Rightarrow> AddressRange" where
  "range_of s = \<lparr>ar_begin = seg_virtual_address s, ar_end = seg_virtual_address s + seg_memory_size s,
     ar_permissions = seg_permissions s, ar_owner = ''segment.'' @ to_string (unat (seg_index s))\<rparr>"

abbreviation in_space :: "Segment \<Rightarrow> bool" where
  "in_space s \<equiv> unat (seg_virtual_address s) + unat (seg_memory_size s) < 2 ^ 64"

lemma segment_ranges_valid: "list_all in_space ss \<Longrightarrow> segment_ranges ss = Inr (map range_of ss)"
  by (induction ss) (simp_all add: segment_range_def add_op.op_exact range_of_def)

lemma overlap_segments:
  assumes "list_all in_space ss"
  shows "overlap_anomalies (sort_ranges (map range_of ss)) = [] \<longleftrightarrow> sorted_wrt (\<lambda>a b. \<not> overlapping a b) ss"
proof -
  have end_of: "unat (ar_end (range_of s)) = unat (seg_virtual_address s) + unat (seg_memory_size s)" if "s \<in> set ss" for s
    using assms that by (simp add: range_of_def list_all_iff unat_plus_bounded)
  have "overlap_anomalies (sort_ranges (map range_of ss)) = [] \<longleftrightarrow> disjoint_ranges (sort_ranges (map range_of ss))"
    by (rule overlap_chain) (auto simp: sort_ranges_def word_le_nat_alt end_of, simp add: range_of_def)
  also have "\<dots> \<longleftrightarrow> sorted_wrt (\<lambda>a b. \<not> range_overlaps (range_of a) (range_of b)) ss"
    unfolding disjoint_ranges_def sort_ranges_def
    by (subst sorted_wrt_sort) (auto simp: range_overlaps_def sorted_wrt_map)
  also have "\<dots> \<longleftrightarrow> sorted_wrt (\<lambda>a b. \<not> overlapping a b) ss"
  proof -
    have "range_overlaps (range_of a) (range_of b) \<longleftrightarrow> overlapping a b" if "a \<in> set ss" "b \<in> set ss" for a b
      using that by (simp add: range_overlaps_def overlapping_def word_less_nat_alt end_of) (simp add: range_of_def)
    then show ?thesis by (auto elim!: sorted_wrt_mono_rel [rotated])
  qed
  finally show ?thesis .
qed

lemma count_if_length: "count_if P xs = of_nat (length (filter P xs))"
proof -
  have "fold (\<lambda>x n. if P x then n + 1 else n) xs n = (n :: u32) + of_nat (length (filter P xs))" for n
    by (induction xs arbitrary: n) simp_all
  then show ?thesis by (simp add: count_if_def)
qed

section \<open>The analysis\<close>

lemma analyze_image_exact:
  assumes "img_file_data img = Some data" "length data < 2 ^ 64"
  shows "case analyze_image fl limits img of
      Inl e \<Rightarrow> \<not> (image_valid limits data img \<and> totals_fit (img_sections img) \<and>
        list_all (section_fits limits data) (img_sections img))
    | Inr m \<Rightarrow> image_valid limits data img \<and> totals_fit (img_sections img) \<and>
        list_all (section_fits limits data) (img_sections img) \<and>
        unat (im_file_size m) = length data \<and> totals_hold fl data (img_sections img) m \<and>
        im_imported_symbols m = of_nat (length (filter (\<lambda>s. sym_binding s = import_symbol) (img_symbols img))) \<and>
        im_exported_symbols m =
          of_nat (length (filter (\<lambda>s. sym_binding s \<in> {export_symbol, global}) (img_symbols img))) \<and>
        mset (im_address_ranges m) = mset (map range_of (img_segments img)) \<and>
        im_anomalies m = overlap_anomalies (im_address_ranges m) @
          entropy_anomalies img (map (statistics fl data) (img_sections img)) @ writable_executable_anomalies img m \<and>
        (overlap_anomalies (im_address_ranges m) = [] \<longleftrightarrow> sorted_wrt (\<lambda>a b. \<not> overlapping a b) (img_segments img))"
proof -
  have valid: "rep_valid (validate limits img) \<longleftrightarrow> image_valid limits data img"
    using validate_iff [of img limits] assms by auto
  have space: "list_all in_space (img_segments img)" if "image_valid limits data img"
    using that by (simp add: image_valid_def segment_valid_def list_all_iff)
  let ?m = "empty_metrics (of_nat (length data))"
  have "totals_hold fl data [] ?m" by (simp add: totals_hold_def empty_metrics_def)
  note count = count_sections_exact [OF assms this, where limits = limits and ss = "img_sections img"]
  have fit0: "totals_fit []" by (simp add: totals_fit_def)
  show ?thesis
  proof (cases "rep_valid (validate limits img)")
    case True
    then have iv: "image_valid limits data img" by (simp add: valid)
    show ?thesis
    proof (cases "count_sections fl limits img (img_sections img) ?m")
      case (Inl e)
      then show ?thesis using count True by (auto simp: analyze_image_def assms(1) Let_def)
    next
      case (Inr m)
      then have m: "totals_hold fl data (img_sections img) m" "im_file_size m = of_nat (length data)"
        "list_all (section_fits limits data) (img_sections img)" "totals_fit (img_sections img)"
        using count fit0 unfolding Inr sum.case append_Nil by (auto simp: empty_metrics_def)
      have len: "unat (of_nat (length data) :: u64) = length data" using assms(2) by (intro unat_of_nat_u64) simp
      have run: "analyze_image fl limits img = Inr (m\<lparr>im_address_ranges := sort_ranges (map range_of (img_segments img)),
         im_imported_symbols := count_if (\<lambda>s. sym_binding s = import_symbol) (img_symbols img),
         im_exported_symbols := count_if (\<lambda>s. sym_binding s = export_symbol \<or> sym_binding s = global) (img_symbols img),
         im_anomalies := overlap_anomalies (sort_ranges (map range_of (img_segments img))) @
           entropy_anomalies img (im_sections m) @ writable_executable_anomalies img m\<rparr>)"
        using True Inr 
        unfolding analyze_image_def Let_def assms(1) option.sel by (simp add: segment_ranges_valid [OF space [OF iv]])
      show ?thesis
        using m iv overlap_segments [OF space [OF iv]]
        unfolding run
        by (simp add: totals_hold_def len count_if_length sort_ranges_def writable_executable_anomalies_def mset_sort
            del: unsigned_of_nat)
    qed
  next
    case False
    then show ?thesis by (simp add: analyze_image_def valid)
  qed
qed

text \<open>
  C38. The analysis of an image succeeds exactly when the image is valid, the sections declare
  less than \<open>2 ^ 64\<close> file bytes and memory bytes, and no section kept in the file is larger than the limit or
  reaches past the file. Its totals are then the exact sums over the sections, none of them wrapped around; its section metrics
  count the bytes of each section, with their checksum; and it names an overlap exactly when some two
  segments overlap, although only neighbours are compared.
\<close>

theorem metrics_exact:
  assumes "img_file_data img = Some data" "length data < 2 ^ 64"
  shows "case analyze_image fl limits img of
      Inl e \<Rightarrow> \<not> (image_valid limits data img \<and> totals_fit (img_sections img) \<and>
        list_all (section_fits limits data) (img_sections img))
    | Inr m \<Rightarrow> image_valid limits data img \<and> totals_fit (img_sections img) \<and>
        list_all (section_fits limits data) (img_sections img) \<and>
        unat (im_file_size m) = length data \<and> totals_hold fl data (img_sections img) m \<and>
        im_imported_symbols m = of_nat (length (filter (\<lambda>s. sym_binding s = import_symbol) (img_symbols img))) \<and>
        im_exported_symbols m =
          of_nat (length (filter (\<lambda>s. sym_binding s \<in> {export_symbol, global}) (img_symbols img))) \<and>
        mset (im_address_ranges m) = mset (map range_of (img_segments img)) \<and>
        im_anomalies m = overlap_anomalies (im_address_ranges m) @
          entropy_anomalies img (map (statistics fl data) (img_sections img)) @ writable_executable_anomalies img m \<and>
        (overlap_anomalies (im_address_ranges m) = [] \<longleftrightarrow> sorted_wrt (\<lambda>a b. \<not> overlapping a b) (img_segments img))"
  by (rule analyze_image_exact [OF assms])

definition demo_doubles :: "int doubles" where
  "demo_doubles = \<lparr>fl_zero = 0, fl_of = uint, fl_divide = (div), fl_times = (*), fl_minus = (-), fl_log2 = id,
     fl_high = (\<lambda>d. 8 \<le> d)\<rparr>"

definition demo_metrics_image :: BinaryImage where
  "demo_metrics_image = empty_image\<lparr>img_file_data := Some [1, 2, 3, 4],
     img_sections := [\<lparr>sec_index = 0, sec_name = ''.text'', sec_kind = program_bits, sec_file_offset = 1,
       sec_file_size = 2, sec_virtual_address = 16, sec_memory_size = 5, sec_alignment = 4, sec_entry_size = 0,
       sec_link = 0, sec_info = 0, sec_permissions = 4\<rparr>],
     img_segments := map (\<lambda>(i, a, n). \<lparr>seg_index = i, seg_file_offset = 0, seg_file_size = 0,
       seg_virtual_address = a, seg_memory_size = n, seg_alignment = 1, seg_permissions = 5, seg_sections = []\<rparr>)
       [(0, 32, 8), (1, 0, 16), (2, 8, 4)]\<rparr>"

theorem metrics_exact_witness:
  "case analyze_image demo_doubles demo_limits demo_metrics_image of Inl e \<Rightarrow> False
   | Inr m \<Rightarrow> unat (im_zero_fill_bytes m) = 3 \<and> unat (im_executable_bytes m) = 5 \<and>
      overlap_anomalies (im_address_ranges m) \<noteq> []"
proof -
  have d: "img_file_data demo_metrics_image = Some [1, 2, 3, 4]" "length [1, 2, 3, 4 :: u8] < 2 ^ 64"
    by (simp_all add: demo_metrics_image_def)
  have valid: "image_valid demo_limits [1, 2, 3, 4] demo_metrics_image"
    by (simp add: image_valid_def demo_metrics_image_def empty_image_def demo_limits_def default_limits_def
        section_valid_def segment_valid_def power_of_two_def)
  have fits: "totals_fit (img_sections demo_metrics_image)"
    "list_all (section_fits demo_limits [1, 2, 3, 4]) (img_sections demo_metrics_image)"
    by (simp_all add: demo_metrics_image_def totals_fit_def declared_def section_fits_def range_inside_def
        demo_limits_def default_limits_def)
  have overlap: "\<not> sorted_wrt (\<lambda>a b. \<not> overlapping a b) (img_segments demo_metrics_image)"
    by (simp add: demo_metrics_image_def overlapping_def)
  have sums: "declared runs memory_bytes (img_sections demo_metrics_image) = 5"
    "declared (\<lambda>_. True) (\<lambda>s. memory_bytes s - file_bytes s) (img_sections demo_metrics_image) = 3"
    by (simp_all add: demo_metrics_image_def declared_def permission_execute_def)
  show ?thesis
    using metrics_exact [OF d, where fl = demo_doubles and limits = demo_limits] valid fits overlap sums
    by (auto simp: totals_hold_def split: sum.splits)
qed

end
