(* ===== verification/Dependencies.thy ===== *)
theory Dependencies
  imports Symbol_Resolver
begin

text \<open>
  \<open>DependencyAnalyzer\<close> of \<open>src/image_analyzer.cc\<close>: the libraries an image refers to, with the imports, exports and
  unresolved imports of each, from its import and export tables and its symbols. A \<open>std::set\<close> of strings is
  the sorted list of its elements. The main theorem states every node of the report by the tables.
\<close>

section \<open>Reports\<close>

record DependencyNode =
  dn_library :: string
  dn_imports :: "string list"
  dn_exports :: "string list"
  dn_unresolved :: "string list"

record DependencyReport =
  dp_libraries :: "(string, DependencyNode) omap"
  dp_duplicate_exports :: "string list"
  dp_resolved :: u32
  dp_unresolved :: u32

definition empty_node :: DependencyNode where
  "empty_node = \<lparr>dn_library = [], dn_imports = [], dn_exports = [], dn_unresolved = []\<rparr>"

definition empty_dependencies :: DependencyReport where
  "empty_dependencies = \<lparr>dp_libraries = [], dp_duplicate_exports = [], dp_resolved = 0, dp_unresolved = 0\<rparr>"

text \<open>\<open>report.libraries[library]\<close> makes the node when it is not there, names it and changes it.\<close>

definition with_node :: "string \<Rightarrow> (DependencyNode \<Rightarrow> DependencyNode) \<Rightarrow> DependencyReport \<Rightarrow> DependencyReport" where
  "with_node library f rep = rep\<lparr>dp_libraries :=
    om_modify library (\<lambda>n. f (n\<lparr>dn_library := library\<rparr>)) (om_emplace library empty_node (dp_libraries rep))\<rparr>"

definition symbol_identity :: "string \<Rightarrow> u64 \<Rightarrow> string" where
  "symbol_identity name ordinal = (if name = [] then ''#'' @ to_string (unat ordinal) else name)"

definition import_resolved :: "SymbolResolver option \<Rightarrow> Import \<Rightarrow> bool" where
  "import_resolved resolver i =
    (case resolver of None \<Rightarrow> False | Some r \<Rightarrow> resolve r (imp_library i) (imp_name i) (imp_ordinal i) \<noteq> None)"

definition depend_import :: "SymbolResolver option \<Rightarrow> Import \<Rightarrow> DependencyReport \<Rightarrow> DependencyReport" where
  "depend_import resolver i rep =
    (let identity = symbol_identity (imp_name i) (imp_ordinal i);
         rep = with_node (imp_library i) (\<lambda>n. n\<lparr>dn_imports := insort_insert identity (dn_imports n)\<rparr>) rep in
     if import_resolved resolver i then rep\<lparr>dp_resolved := dp_resolved rep + 1\<rparr>
     else with_node (imp_library i) (\<lambda>n. n\<lparr>dn_unresolved := insort_insert identity (dn_unresolved n)\<rparr>)
       (rep\<lparr>dp_unresolved := dp_unresolved rep + 1\<rparr>))"

definition own_library :: "BinaryImage \<Rightarrow> string" where
  "own_library img = (if hdr_format (img_header img) = pe_like then ''self.dll'' else ''self'')"

definition depend_export :: "string \<Rightarrow> Export \<Rightarrow> (string \<times> string) list \<times> DependencyReport \<Rightarrow>
    (string \<times> string) list \<times> DependencyReport" where
  "depend_export library e = (\<lambda>(seen, rep).
    let identity = symbol_identity (exp_name e) (exp_ordinal e);
        rep' = (if (library, identity) \<in> set seen
          then rep\<lparr>dp_duplicate_exports := dp_duplicate_exports rep @ [library @ ''!'' @ identity]\<rparr> else rep) in
    (insort_insert (library, identity) seen,
     with_node library (\<lambda>n. n\<lparr>dn_exports := insort_insert identity (dn_exports n)\<rparr>) rep'))"

definition depend_symbol :: "Symbol \<Rightarrow> DependencyReport \<Rightarrow> DependencyReport" where
  "depend_symbol s rep =
    (if sym_binding s = import_symbol
     then with_node (sym_library s) (\<lambda>n. n\<lparr>dn_imports := insort_insert (sym_name s) (dn_imports n)\<rparr>) rep
     else if sym_binding s = export_symbol
     then with_node ''self'' (\<lambda>n. n\<lparr>dn_exports := insort_insert (sym_name s) (dn_exports n)\<rparr>) rep
     else rep)"

definition analyze_dependencies :: "Limits \<Rightarrow> BinaryImage \<Rightarrow> SymbolResolver option \<Rightarrow> DependencyReport" where
  "analyze_dependencies limits img resolver =
    (let rep = fold (depend_import resolver) (take (unat (max_imports limits)) (img_imports img)) empty_dependencies;
         (seen, rep) = fold (depend_export (own_library img)) (take (unat (max_exports limits)) (img_exports img)) ([], rep)
     in fold depend_symbol (img_symbols img) rep)"

section \<open>Mentions\<close>

text \<open>What the tables of an image say of a library: a name it is to give, or gives, or does not give.\<close>

datatype Role = imported | exported | missing

type_synonym mention = "string \<times> Role \<times> string"

definition import_mentions :: "SymbolResolver option \<Rightarrow> Import \<Rightarrow> mention list" where
  "import_mentions resolver i = (let identity = symbol_identity (imp_name i) (imp_ordinal i) in
    (imp_library i, imported, identity) #
    (if import_resolved resolver i then [] else [(imp_library i, missing, identity)]))"

definition symbol_mentions :: "Symbol \<Rightarrow> mention list" where
  "symbol_mentions s = (if sym_binding s = import_symbol then [(sym_library s, imported, sym_name s)]
    else if sym_binding s = export_symbol then [(''self'', exported, sym_name s)] else [])"

definition mentions :: "Limits \<Rightarrow> BinaryImage \<Rightarrow> SymbolResolver option \<Rightarrow> mention list" where
  "mentions limits img resolver =
    concat (map (import_mentions resolver) (take (unat (max_imports limits)) (img_imports img))) @
    map (\<lambda>e. (own_library img, exported, symbol_identity (exp_name e) (exp_ordinal e)))
      (take (unat (max_exports limits)) (img_exports img)) @
    concat (map symbol_mentions (img_symbols img))"

definition names_in :: "mention list \<Rightarrow> string \<Rightarrow> Role \<Rightarrow> string set" where
  "names_in ms library role = {name. (library, role, name) \<in> set ms}"

definition node_of :: "mention list \<Rightarrow> string \<Rightarrow> DependencyNode option" where
  "node_of ms library =
    (if library \<in> fst ` set ms
     then Some \<lparr>dn_library = library, dn_imports = sorted_list_of_set (names_in ms library imported),
       dn_exports = sorted_list_of_set (names_in ms library exported),
       dn_unresolved = sorted_list_of_set (names_in ms library missing)\<rparr>
     else None)"

definition reflects :: "mention list \<Rightarrow> DependencyReport \<Rightarrow> bool" where
  "reflects ms rep \<longleftrightarrow> om_ok (dp_libraries rep) \<and> (\<forall>library. om_find (dp_libraries rep) library = node_of ms library)"

lemma finite_names [simp]: "finite (names_in ms library role)"
proof -
  have "names_in ms library role \<subseteq> (\<lambda>m. snd (snd m)) ` set ms" by (force simp: names_in_def)
  then show ?thesis by (rule finite_subset) simp
qed

lemma insort_set [simp]:
  "finite A \<Longrightarrow> insort_insert x (sorted_list_of_set A) = sorted_list_of_set (insert x (A :: 'a::linorder set))"
  by (rule sorted_distinct_set_unique) (simp_all only: sorted_insort_insert distinct_insort_insert
      set_insort_insert sorted_list_of_set.sorted_sorted_key_list_of_set sorted_list_of_set.distinct_sorted_key_list_of_set
      set_sorted_list_of_set finite_insert)

lemma names_snoc:
  "names_in (ms @ [(l, r, n)]) library role =
    (if l = library \<and> r = role then insert n (names_in ms library role) else names_in ms library role)"
  by (auto simp: names_in_def)

lemma no_names: "library \<notin> fst ` set ms \<Longrightarrow> names_in ms library role = {}"
  by (force simp: names_in_def)

fun add_name :: "Role \<Rightarrow> string \<Rightarrow> DependencyNode \<Rightarrow> DependencyNode" where
  "add_name imported name n = n\<lparr>dn_imports := insort_insert name (dn_imports n)\<rparr>"
| "add_name exported name n = n\<lparr>dn_exports := insort_insert name (dn_exports n)\<rparr>"
| "add_name missing name n = n\<lparr>dn_unresolved := insort_insert name (dn_unresolved n)\<rparr>"

lemma insort_insert_Nil [simp]: "insort_insert x [] = [x]"
  by (simp add: insort_insert_key_def)

lemma add_name_eta [simp]:
  "(\<lambda>n. n\<lparr>dn_imports := insort_insert name (dn_imports n)\<rparr>) = add_name imported name"
  "(\<lambda>n. n\<lparr>dn_exports := insort_insert name (dn_exports n)\<rparr>) = add_name exported name"
  "(\<lambda>n. n\<lparr>dn_unresolved := insort_insert name (dn_unresolved n)\<rparr>) = add_name missing name"
  by (rule ext, simp)+

lemma reflects_with_node:
  assumes "reflects ms rep"
  shows "reflects (ms @ [(library, role, name)]) (with_node library (add_name role name) rep)"
proof -
  let ?f = "\<lambda>n. add_name role name (n\<lparr>dn_library := library\<rparr>)"
  have node: "node_of (ms @ [(library, role, name)]) l =
      (if l = library then Some (?f (case node_of ms library of Some n \<Rightarrow> n | None \<Rightarrow> empty_node)) else node_of ms l)" for l
    by (cases role) (auto simp: node_of_def names_snoc no_names empty_node_def)
  have ok: "om_ok (dp_libraries rep)" and f: "om_find (dp_libraries rep) l = node_of ms l" for l
    using assms by (simp_all add: reflects_def)
  have "om_find (om_modify library ?f (om_emplace library empty_node (dp_libraries rep))) l =
      node_of (ms @ [(library, role, name)]) l" for l
    unfolding node om.find_modify [OF om.ok_emplace [OF ok]] om.find_emplace [OF ok] f
    by (auto split: option.split)
  then show ?thesis
    by (simp add: reflects_def with_node_def om.ok_modify om.ok_emplace ok)
qed

lemma reflects_fold:
  assumes "\<And>x ms rep. reflects ms rep \<Longrightarrow> reflects (ms @ f x) (g x rep)"
  shows "reflects ms rep \<Longrightarrow> reflects (ms @ concat (map f xs)) (fold g xs rep)"
proof (induction xs arbitrary: ms rep)
  case (Cons x xs)
  show ?case using Cons.IH [OF assms [OF Cons.prems]] by simp
qed simp

lemma reflects_counts [simp]:
  "reflects ms (rep\<lparr>dp_resolved := a\<rparr>) \<longleftrightarrow> reflects ms rep"
  "reflects ms (rep\<lparr>dp_unresolved := a\<rparr>) \<longleftrightarrow> reflects ms rep"
  "reflects ms (rep\<lparr>dp_duplicate_exports := ds\<rparr>) \<longleftrightarrow> reflects ms rep"
  by (simp_all add: reflects_def)

lemma reflects_import:
  "reflects ms rep \<Longrightarrow> reflects (ms @ import_mentions resolver i) (depend_import resolver i rep)"
proof -
  assume "reflects ms rep"
  from reflects_with_node [OF this, of "imp_library i" imported "symbol_identity (imp_name i) (imp_ordinal i)"]
  have one: "reflects (ms @ [(imp_library i, imported, symbol_identity (imp_name i) (imp_ordinal i))])
     (with_node (imp_library i) (add_name imported (symbol_identity (imp_name i) (imp_ordinal i))) rep)" .
  show ?thesis
  proof (cases "import_resolved resolver i")
    case True
    then show ?thesis using one by (simp add: depend_import_def import_mentions_def Let_def)
  next
    case False
    then show ?thesis
      using reflects_with_node [of _ "_\<lparr>dp_unresolved := _\<rparr>" "imp_library i" missing, unfolded reflects_counts, OF one]
      by (simp add: depend_import_def import_mentions_def Let_def)
  qed
qed

lemma reflects_symbol: "reflects ms rep \<Longrightarrow> reflects (ms @ symbol_mentions s) (depend_symbol s rep)"
  using reflects_with_node [of ms rep _ imported] reflects_with_node [of ms rep _ exported]
  by (auto simp: depend_symbol_def symbol_mentions_def)

lemma depend_exports:
  fixes rep :: DependencyReport
  assumes "reflects ms rep" "set seen = Pair library ` set before"
  shows "reflects (ms @ map (\<lambda>e. (library, exported, symbol_identity (exp_name e) (exp_ordinal e))) es)
      (snd (fold (depend_export library) es (seen, rep)))"
  using assms
proof (induction es arbitrary: ms rep seen before)
  case (Cons e es)
  let ?id = "symbol_identity (exp_name e) (exp_ordinal e)"
  have "reflects (ms @ [(library, exported, ?id)]) (snd (depend_export library e (seen, rep)))"
    using reflects_with_node [OF Cons.prems(1), of library exported ?id]
      reflects_with_node [of ms "rep\<lparr>dp_duplicate_exports := _\<rparr>" library exported ?id] Cons.prems(1)
    by (auto simp: depend_export_def Let_def)
  moreover have "set (fst (depend_export library e (seen, rep))) = Pair library ` set (before @ [?id])"
    using Cons.prems(2) by (auto simp: depend_export_def Let_def set_insort_insert)
  ultimately show ?case
    using Cons.IH [of "ms @ [(library, exported, ?id)]" "snd (depend_export library e (seen, rep))"
        "fst (depend_export library e (seen, rep))" "before @ [?id]"] by simp
qed simp

section \<open>Counts and duplicates\<close>

lemma with_node_counts [simp]:
  "dp_resolved (with_node l f rep) = dp_resolved rep" "dp_unresolved (with_node l f rep) = dp_unresolved rep"
  "dp_duplicate_exports (with_node l f rep) = dp_duplicate_exports rep"
  by (simp_all add: with_node_def)

lemma depend_imports_counts:
  "dp_resolved (fold (depend_import resolver) is rep) =
      dp_resolved rep + of_nat (length (filter (import_resolved resolver) is)) \<and>
    dp_unresolved (fold (depend_import resolver) is rep) =
      dp_unresolved rep + of_nat (length (filter (\<lambda>i. \<not> import_resolved resolver i) is)) \<and>
    dp_duplicate_exports (fold (depend_import resolver) is rep) = dp_duplicate_exports rep"
  by (induction "is" arbitrary: rep) (simp_all add: depend_import_def Let_def)

lemma depend_symbols_counts:
  "dp_resolved (fold depend_symbol ss rep) = dp_resolved rep \<and>
    dp_unresolved (fold depend_symbol ss rep) = dp_unresolved rep \<and>
    dp_duplicate_exports (fold depend_symbol ss rep) = dp_duplicate_exports rep"
  by (induction ss arbitrary: rep) (simp_all add: depend_symbol_def)

text \<open>The names that occur earlier in the list, at each place where they occur again.\<close>

fun repeated :: "'a list \<Rightarrow> 'a list \<Rightarrow> 'a list" where
  "repeated before [] = []"
| "repeated before (x # xs) = (if x \<in> set before then [x] else []) @ repeated (before @ [x]) xs"

lemma repeated_places:
  "repeated before xs = map ((!) (before @ xs))
    (filter (\<lambda>k. (before @ xs) ! k \<in> set (take k (before @ xs))) [length before..<length (before @ xs)])"
proof (induction xs arbitrary: before)
  case (Cons x xs)
  have upt: "[length before..<length (before @ x # xs)] = length before # [length (before @ [x])..<length (before @ x # xs)]"
    by (subst upt_conv_Cons) simp_all
  show ?case unfolding upt using Cons.IH [of "before @ [x]"] by simp
qed simp

lemma depend_exports_counts:
  assumes "set seen = Pair library ` set before"
  shows "dp_resolved (snd (fold (depend_export library) es (seen, rep))) = dp_resolved rep \<and>
    dp_unresolved (snd (fold (depend_export library) es (seen, rep))) = dp_unresolved rep \<and>
    dp_duplicate_exports (snd (fold (depend_export library) es (seen, rep))) = dp_duplicate_exports rep @
      map (\<lambda>id. library @ ''!'' @ id) (repeated before (map (\<lambda>e. symbol_identity (exp_name e) (exp_ordinal e)) es))"
  using assms
proof (induction es arbitrary: seen before rep)
  case (Cons e es)
  let ?id = "symbol_identity (exp_name e) (exp_ordinal e)"
  have "set (fst (depend_export library e (seen, rep))) = Pair library ` set (before @ [?id])"
    using Cons.prems by (auto simp: depend_export_def Let_def set_insort_insert)
  from Cons.IH [OF this, of "snd (depend_export library e (seen, rep))"] Cons.prems
  show ?case by (auto simp: depend_export_def Let_def)
qed simp

section \<open>The report\<close>

text \<open>
  C36. The dependency report has a node for exactly the libraries that the import table, the export table
  and the imported and exported symbols mention, and each node lists exactly the names they mention of it: what it is to give, what it
  gives, and what the resolver does not find. The two counters count the imports considered that
  are found and not found, and an export is listed as duplicate at every place where an earlier one
  has its name, all within the limits on imports and exports.
\<close>

theorem dependencies_exact:
  "let rep = analyze_dependencies limits img resolver;
       considered = take (unat (max_imports limits)) (img_imports img);
       names = map (\<lambda>e. symbol_identity (exp_name e) (exp_ordinal e))
         (take (unat (max_exports limits)) (img_exports img)) in
    om_ok (dp_libraries rep) \<and>
    om_find (dp_libraries rep) library = node_of (mentions limits img resolver) library \<and>
    dp_resolved rep = of_nat (length (filter (import_resolved resolver) considered)) \<and>
    dp_unresolved rep = of_nat (length (filter (\<lambda>i. \<not> import_resolved resolver i) considered)) \<and>
    dp_duplicate_exports rep = map (\<lambda>k. own_library img @ ''!'' @ names ! k)
      (filter (\<lambda>k. names ! k \<in> set (take k names)) [0..<length names])"
proof -
  let ?imports = "take (unat (max_imports limits)) (img_imports img)"
  let ?exports = "take (unat (max_exports limits)) (img_exports img)"
  let ?names = "map (\<lambda>e. symbol_identity (exp_name e) (exp_ordinal e)) ?exports"
  define rep1 where "rep1 = fold (depend_import resolver) ?imports empty_dependencies"
  define rep2 where "rep2 = snd (fold (depend_export (own_library img)) ?exports ([], rep1))"
  have rep: "analyze_dependencies limits img resolver = fold depend_symbol (img_symbols img) rep2"
    by (simp add: analyze_dependencies_def rep1_def rep2_def case_prod_beta Let_def)
  have "reflects [] empty_dependencies" by (simp add: reflects_def empty_dependencies_def node_of_def)
  from reflects_fold [OF reflects_import this]
  have "reflects (concat (map (import_mentions resolver) ?imports)) rep1" by (simp add: rep1_def)
  from depend_exports [OF this, of "[]" "own_library img" "[]" ?exports]
  have "reflects (concat (map (import_mentions resolver) ?imports) @
      map (\<lambda>e. (own_library img, exported, symbol_identity (exp_name e) (exp_ordinal e))) ?exports) rep2"
    by (simp add: rep2_def)
  from reflects_fold [OF reflects_symbol this]
  have r: "reflects (mentions limits img resolver) (fold depend_symbol (img_symbols img) rep2)"
    by (simp add: mentions_def)
  have dup: "map (\<lambda>id. own_library img @ ''!'' @ id) (repeated [] ?names) =
      map (\<lambda>k. own_library img @ ''!'' @ ?names ! k) (filter (\<lambda>k. ?names ! k \<in> set (take k ?names)) [0..<length ?names])"
    unfolding repeated_places [of "[]"] by simp
  show ?thesis
    using r dup depend_imports_counts [of resolver ?imports empty_dependencies]
      depend_exports_counts [of "[]" "own_library img" "[]" ?exports rep1] depend_symbols_counts [of "img_symbols img" rep2]
    unfolding Let_def rep by (simp add: reflects_def rep1_def rep2_def empty_dependencies_def)
qed

end
