(* ===== verification/Hardening.thy ===== *)
theory Hardening
  imports Image_Metrics Query Pe_Imports
begin

unbundle bit_operations_syntax

text \<open>
  \<open>HardeningAnalyzer\<close> of \<open>src/hardening.cc\<close>: the findings on an image, the score they leave, and the
  protections it seems to have. The main theorem states findings, score and flags by the image.
\<close>

section \<open>Findings\<close>

datatype FindingSeverity = information | low | medium | high | critical
datatype FindingCategory =
    malformed_structure | writable_executable | missing_hardening | suspicious_layout | suspicious_import_finding
  | suspicious_export | high_entropy | entry_point | debug_information | relocation_policy

record HardeningFinding =
  hf_severity :: FindingSeverity
  hf_category :: FindingCategory
  hf_title :: string
  hf_detail :: string
  hf_address :: u64
  hf_section_index :: "u32 option"

record HardeningReport =
  hr_score :: u32
  hr_position_independent :: bool
  hr_non_executable_data :: bool
  hr_writable_executable :: bool
  hr_immediate_binding :: bool
  hr_stack_protection :: bool
  hr_control_flow_protection :: bool
  hr_stripped :: bool
  hr_findings :: "HardeningFinding list"

definition empty_hardening :: HardeningReport where
  "empty_hardening = \<lparr>hr_score = 100, hr_position_independent = False, hr_non_executable_data = True,
     hr_writable_executable = False, hr_immediate_binding = False, hr_stack_protection = False,
     hr_control_flow_protection = False, hr_stripped = False, hr_findings = []\<rparr>"

definition finding :: "FindingSeverity \<Rightarrow> FindingCategory \<Rightarrow> string \<Rightarrow> string \<Rightarrow> u64 \<Rightarrow> u32 option \<Rightarrow> HardeningFinding" where
  "finding severity category title detail address section_index =
    \<lparr>hf_severity = severity, hf_category = category, hf_title = title, hf_detail = detail,
     hf_address = address, hf_section_index = section_index\<rparr>"

fun penalty :: "FindingSeverity \<Rightarrow> u32" where
  "penalty information = 0"
| "penalty low = 3"
| "penalty medium = 8"
| "penalty high = 15"
| "penalty critical = 25"

definition add_finding :: "HardeningFinding \<Rightarrow> HardeningReport \<Rightarrow> HardeningReport" where
  "add_finding f rep =
    (let rep = rep\<lparr>hr_findings := hr_findings rep @ [f]\<rparr>; p = penalty (hf_severity f) in
     rep\<lparr>hr_score := (if p > hr_score rep then 0 else hr_score rep - p)\<rparr>)"

definition add_finding_if :: "bool \<Rightarrow> HardeningFinding \<Rightarrow> HardeningReport \<Rightarrow> HardeningReport" where
  "add_finding_if condition f rep = (if condition then add_finding f rep else rep)"

section \<open>Names\<close>

definition symbol_named_like :: "BinaryImage \<Rightarrow> string \<Rightarrow> bool" where
  "symbol_named_like img fragment \<longleftrightarrow>
    list_ex (\<lambda>s. text_contains (sym_name s) fragment) (img_symbols img) \<or>
    list_ex (\<lambda>i. text_contains (imp_name i) fragment) (img_imports img)"

definition sensitive_names :: "string list" where
  "sensitive_names = [''virtualprotect'', ''writeprocessmemory'', ''createremotethread'', ''ptrace'', ''mprotect'',
     ''process_vm_writev'', ''dlopen'', ''loadlibrary'', ''getprocaddress'', ''winexec'', ''system'', ''popen'']"

definition suspicious_import :: "string \<Rightarrow> bool" where
  "suspicious_import name = list_ex (text_contains (map lower_char name)) sensitive_names"

section \<open>The passes\<close>

definition initial_report :: "BinaryImage \<Rightarrow> HardeningReport" where
  "initial_report img = empty_hardening
    \<lparr>hr_position_independent := hdr_kind (img_header img) = shared_library \<or>
       hdr_format (img_header img) = pe_like \<and> hdr_flags (img_header img) AND 0x40 \<noteq> 0,
     hr_stripped := img_symbols img = [] \<or> \<not> list_ex (\<lambda>s. sec_kind s = symbol_table) (img_sections img),
     hr_stack_protection := symbol_named_like img ''stack_chk'' \<or> symbol_named_like img ''security_cookie'',
     hr_control_flow_protection := symbol_named_like img ''guard_check'' \<or> symbol_named_like img ''__cfi'' \<or>
       list_ex (\<lambda>s. sec_name s = ''.note.gnu.property'') (img_sections img)\<rparr>"

abbreviation is_writable :: "Section \<Rightarrow> bool" where "is_writable s \<equiv> sec_permissions s AND permission_write \<noteq> 0"
abbreviation is_executable :: "Section \<Rightarrow> bool" where "is_executable s \<equiv> sec_permissions s AND permission_execute \<noteq> 0"

definition section_finding :: "FindingSeverity \<Rightarrow> FindingCategory \<Rightarrow> string \<Rightarrow> string \<Rightarrow> Section \<Rightarrow> HardeningFinding" where
  "section_finding severity category title detail s =
    finding severity category title (sec_name s @ detail) (sec_virtual_address s) (Some (sec_index s))"

definition writable_code :: "Section \<Rightarrow> HardeningFinding" where
  "writable_code = section_finding critical writable_executable ''Writable and executable section''
    '' permits both writes and execution''"

definition unbacked_code :: "Section \<Rightarrow> HardeningFinding" where
  "unbacked_code = section_finding high suspicious_layout ''Executable zero-fill section''
    '' has no file-backed executable bytes''"

definition large_alignment :: "Section \<Rightarrow> HardeningFinding" where
  "large_alignment s = section_finding medium suspicious_layout ''Unusually large section alignment''
    ('' requests alignment '' @ to_string (unat (sec_alignment s))) s"

definition large_expansion :: "Section \<Rightarrow> HardeningFinding" where
  "large_expansion = section_finding medium suspicious_layout ''Large zero-fill expansion''
    '' expands significantly when mapped''"

definition alignment_unusual :: "Limits \<Rightarrow> Section \<Rightarrow> bool" where
  "alignment_unusual limits s \<longleftrightarrow> sec_alignment s > ucast (page_size limits) * 1024"

definition expansion_unusual :: "Section \<Rightarrow> bool" where
  "expansion_unusual s \<longleftrightarrow> sec_file_size s \<noteq> 0 \<and> sec_memory_size s > sec_file_size s * 1024"

definition harden_section :: "Limits \<Rightarrow> Section \<Rightarrow> HardeningReport \<Rightarrow> HardeningReport" where
  "harden_section limits s rep =
    (let rep = (if is_writable s \<and> is_executable s
           then add_finding (writable_code s) (rep\<lparr>hr_writable_executable := True, hr_non_executable_data := False\<rparr>)
           else add_finding_if (is_executable s \<and> sec_kind s = no_bits) (unbacked_code s) rep);
         rep = add_finding_if (alignment_unusual limits s) (large_alignment s) rep
     in add_finding_if (expansion_unusual s) (large_expansion s) rep)"

definition entropy_finding :: "BinaryImage \<Rightarrow> 'd SectionMetrics \<Rightarrow> HardeningFinding" where
  "entropy_finding img m =
    (case image_section img (sm_section_index m) of
       Some s \<Rightarrow> finding (if is_executable s then high else low) high_entropy ''High-entropy section''
         (sec_name s) (sec_virtual_address s) (Some (sm_section_index m))
     | None \<Rightarrow> finding low high_entropy ''High-entropy section'' ''unnamed section'' 0 (Some (sm_section_index m)))"

definition harden_entropy :: "BinaryImage \<Rightarrow> 'd SectionMetrics \<Rightarrow> HardeningReport \<Rightarrow> HardeningReport" where
  "harden_entropy img m = add_finding_if (sm_likely_compressed m) (entropy_finding img m)"

definition import_finding :: "Import \<Rightarrow> HardeningFinding" where
  "import_finding i = finding medium suspicious_import_finding ''Sensitive imported API''
    (imp_library i @ ''!'' @ imp_name i) (imp_slot_address i) None"

definition harden_import :: "Import \<Rightarrow> HardeningReport \<Rightarrow> HardeningReport" where
  "harden_import i = add_finding_if (suspicious_import (imp_name i)) (import_finding i)"

definition export_finding :: "Export \<Rightarrow> HardeningFinding" where
  "export_finding e = finding medium suspicious_export ''Invalid forwarded export''
    (exp_name e @ '' lacks a forward target'') (exp_address e) None"

definition forward_missing :: "Export \<Rightarrow> bool" where
  "forward_missing e \<longleftrightarrow> exp_forwarded e \<and> exp_forward_target e = []"

definition harden_export :: "Export \<Rightarrow> HardeningReport \<Rightarrow> HardeningReport" where
  "harden_export e = add_finding_if (forward_missing e) (export_finding e)"

text \<open>The first segment whose range can be computed and holds the entry point decides.\<close>

definition holds_entry :: "u64 \<Rightarrow> Segment \<Rightarrow> bool" where
  "holds_entry entry s =
    (case checked_add (seg_virtual_address s) (seg_memory_size s) of
       None \<Rightarrow> False
     | Some end_address \<Rightarrow> entry \<ge> seg_virtual_address s \<and> entry < end_address)"

definition entry_finding :: "string \<Rightarrow> string \<Rightarrow> u64 \<Rightarrow> HardeningFinding" where
  "entry_finding title detail entry = finding high entry_point title detail entry None"

definition entry_not_executable :: "u64 \<Rightarrow> HardeningFinding" where
  "entry_not_executable = entry_finding ''Entry point is not executable''
    ''The declared entry lies in a non-executable segment''"

definition entry_unmapped :: "u64 \<Rightarrow> HardeningFinding" where
  "entry_unmapped = entry_finding ''Entry point is unmapped'' ''The declared entry does not lie in a load segment''"

fun harden_entry :: "u64 \<Rightarrow> Segment list \<Rightarrow> HardeningReport \<Rightarrow> bool \<times> HardeningReport" where
  "harden_entry entry [] rep = (False, rep)"
| "harden_entry entry (s # ss) rep =
    (if \<not> holds_entry entry s then harden_entry entry ss rep
     else (True, add_finding_if (seg_permissions s AND permission_execute = 0) (entry_not_executable entry) rep))"

definition policy_finding :: "FindingSeverity \<Rightarrow> FindingCategory \<Rightarrow> string \<Rightarrow> string \<Rightarrow> HardeningFinding" where
  "policy_finding severity category title detail = finding severity category title detail 0 None"

definition fixed_position :: HardeningFinding where
  "fixed_position = policy_finding medium missing_hardening ''Position independence not detected''
    ''The image may require a fixed load address''"

definition no_stack_guard :: HardeningFinding where
  "no_stack_guard = policy_finding low missing_hardening ''Stack protection not detected''
    ''No known stack guard symbols were found''"

definition no_flow_guard :: HardeningFinding where
  "no_flow_guard = policy_finding low missing_hardening ''Control-flow protection not detected''
    ''No known control-flow guard metadata was found''"

definition debug_present :: "nat \<Rightarrow> HardeningFinding" where
  "debug_present units = policy_finding information debug_information ''Debug information present''
    (to_string units @ '' debug units are retained'')"

definition no_relocations :: HardeningFinding where
  "no_relocations = policy_finding low relocation_policy ''Position-independent image has no relocations''
    ''Relocation metadata may have been stripped''"

definition harden_policy :: "BinaryImage \<Rightarrow> HardeningReport \<Rightarrow> HardeningReport" where
  "harden_policy img rep =
    (let rep = add_finding_if (\<not> hr_position_independent rep \<and> hdr_kind (img_header img) \<noteq> relocatable) fixed_position rep;
         rep = add_finding_if (\<not> hr_stack_protection rep) no_stack_guard rep;
         rep = add_finding_if (\<not> hr_control_flow_protection rep) no_flow_guard rep;
         rep = add_finding_if (img_debug_units img \<noteq> []) (debug_present (length (img_debug_units img))) rep
     in add_finding_if (img_relocations img = [] \<and> hr_position_independent rep) no_relocations rep)"

fun severity_rank :: "FindingSeverity \<Rightarrow> nat" where
  "severity_rank information = 0"
| "severity_rank low = 1"
| "severity_rank medium = 2"
| "severity_rank high = 3"
| "severity_rank critical = 4"

text \<open>\<open>std::stable_sort\<close>, the most severe first.\<close>

definition sort_findings :: "HardeningFinding list \<Rightarrow> HardeningFinding list" where
  "sort_findings = sort_key (\<lambda>f. 4 - severity_rank (hf_severity f))"

definition harden :: "'d doubles \<Rightarrow> Limits \<Rightarrow> BinaryImage \<Rightarrow> Error + HardeningReport" where
  "harden fl limits img =
    (let validation = validate limits img in
     if \<not> rep_valid validation then Inl (hd (rep_errors validation))
     else let rep = fold (harden_section limits) (img_sections img) (initial_report img) in
     case analyze_image fl limits img of
       Inl e \<Rightarrow> Inl e
     | Inr metrics \<Rightarrow>
       let rep = fold (harden_entropy img) (im_sections metrics) rep;
           rep = fold harden_import (img_imports img) rep;
           rep = fold harden_export (img_exports img) rep;
           entry = hdr_entry_point (img_header img);
           (entry_mapped, rep) = harden_entry entry (img_segments img) rep;
           rep = add_finding_if (entry \<noteq> 0 \<and> \<not> entry_mapped) (entry_unmapped entry) rep;
           rep = harden_policy img rep
       in Inr (rep\<lparr>hr_findings := sort_findings (hr_findings rep)\<rparr>))"

section \<open>All findings\<close>

definition at_when :: "bool \<Rightarrow> 'a \<Rightarrow> 'a list" where
  "at_when condition x = (if condition then [x] else [])"

definition section_findings :: "Limits \<Rightarrow> Section \<Rightarrow> HardeningFinding list" where
  "section_findings limits s =
    at_when (is_writable s \<and> is_executable s) (writable_code s) @
    at_when (\<not> is_writable s \<and> is_executable s \<and> sec_kind s = no_bits) (unbacked_code s) @
    at_when (alignment_unusual limits s) (large_alignment s) @
    at_when (expansion_unusual s) (large_expansion s)"

definition entry_findings :: "u64 \<Rightarrow> Segment list \<Rightarrow> HardeningFinding list" where
  "entry_findings entry segments =
    (case find (holds_entry entry) segments of
       Some s \<Rightarrow> at_when (seg_permissions s AND permission_execute = 0) (entry_not_executable entry)
     | None \<Rightarrow> at_when (entry \<noteq> 0) (entry_unmapped entry))"

definition policy_findings :: "BinaryImage \<Rightarrow> HardeningFinding list" where
  "policy_findings img = (let rep = initial_report img in
    at_when (\<not> hr_position_independent rep \<and> hdr_kind (img_header img) \<noteq> relocatable) fixed_position @
    at_when (\<not> hr_stack_protection rep) no_stack_guard @
    at_when (\<not> hr_control_flow_protection rep) no_flow_guard @
    at_when (img_debug_units img \<noteq> []) (debug_present (length (img_debug_units img))) @
    at_when (img_relocations img = [] \<and> hr_position_independent rep) no_relocations)"

definition all_findings :: "'d doubles \<Rightarrow> Limits \<Rightarrow> bytes \<Rightarrow> BinaryImage \<Rightarrow> HardeningFinding list" where
  "all_findings fl limits data img =
    concat (map (section_findings limits) (img_sections img)) @
    map (entropy_finding img) (filter sm_likely_compressed (map (statistics fl data) (img_sections img))) @
    map import_finding (filter (suspicious_import \<circ> imp_name) (img_imports img)) @
    map export_finding (filter forward_missing (img_exports img)) @
    entry_findings (hdr_entry_point (img_header img)) (img_segments img) @
    policy_findings img"

definition total_penalty :: "HardeningFinding list \<Rightarrow> nat" where
  "total_penalty fs = sum_list (map (\<lambda>f. unat (penalty (hf_severity f))) fs)"

text \<open>A report that has grown by some findings: the flags of the first report but for the two the sections decide.\<close>

definition grown :: "HardeningReport \<Rightarrow> HardeningFinding list \<Rightarrow> bool \<Rightarrow> HardeningReport \<Rightarrow> bool" where
  "grown start fs wx rep \<longleftrightarrow>
    rep = start\<lparr>hr_findings := hr_findings start @ fs, hr_score := of_nat (unat (hr_score start) - total_penalty fs),
      hr_writable_executable := hr_writable_executable start \<or> wx,
      hr_non_executable_data := hr_non_executable_data start \<and> \<not> wx\<rparr>"

lemma total_penalty_simps [simp]:
  "total_penalty [] = 0" "total_penalty (fs @ gs) = total_penalty fs + total_penalty gs"
  "total_penalty (f # fs) = unat (penalty (hf_severity f)) + total_penalty fs"
  by (simp_all add: total_penalty_def)

lemma grown_refl [simp]: "grown rep [] False rep"
  by (simp add: grown_def)

lemma grown_score: "unat (of_nat (unat (w :: u32) - n) :: u32) = unat w - n"
  using unat_u32_bound [of w] by (intro unat_of_nat_u32) simp

lemma grown_add:
  assumes "grown start fs wx rep"
  shows "grown start (fs @ [f]) wx (add_finding f rep)"
  using assms unat_u32_bound [of "hr_score start"]
  by (auto simp: grown_def add_finding_def Let_def word_less_nat_alt word_unat_eq_iff unat_minus_bounded word_le_nat_alt
      grown_score simp del: unsigned_of_nat)

lemma grown_add_if: "grown start fs wx rep \<Longrightarrow> grown start (fs @ at_when c f) wx (add_finding_if c f rep)"
  by (auto simp: add_finding_if_def at_when_def grown_add)

lemma grown_flags:
  "grown start fs wx rep \<Longrightarrow> grown start fs True (rep\<lparr>hr_writable_executable := True, hr_non_executable_data := False\<rparr>)"
  by (simp add: grown_def)

abbreviation both :: "Section \<Rightarrow> bool" where "both s \<equiv> is_writable s \<and> is_executable s"

lemma grown_section:
  assumes "grown start fs wx rep"
  shows "grown start (fs @ section_findings limits s) (wx \<or> both s) (harden_section limits s rep)"
proof -
  let ?first = "at_when (both s) (writable_code s) @ at_when (\<not> is_writable s \<and> is_executable s \<and> sec_kind s = no_bits) (unbacked_code s)"
  let ?rep = "if both s then add_finding (writable_code s) (rep\<lparr>hr_writable_executable := True, hr_non_executable_data := False\<rparr>)
    else add_finding_if (is_executable s \<and> sec_kind s = no_bits) (unbacked_code s) rep"
  have "grown start (fs @ ?first) (wx \<or> both s) ?rep"
  proof (cases "both s")
    case True
    then show ?thesis using grown_add [OF grown_flags [OF assms], of "writable_code s"] by (simp add: at_when_def)
  next
    case False
    then show ?thesis
      using grown_add_if [OF assms, of "is_executable s \<and> sec_kind s = no_bits" "unbacked_code s"]
      by (cases "is_writable s") (auto simp: at_when_def)
  qed
  from grown_add_if [OF grown_add_if [OF this, of "alignment_unusual limits s" "large_alignment s"],
      of "expansion_unusual s" "large_expansion s"]
  show ?thesis by (simp add: section_findings_def harden_section_def Let_def)
qed

lemma grown_sections:
  "grown start fs wx rep \<Longrightarrow> grown start (fs @ concat (map (section_findings limits) ss)) (wx \<or> list_ex both ss)
    (fold (harden_section limits) ss rep)"
proof (induction ss arbitrary: fs wx rep)
  case (Cons s ss)
  show ?case using Cons.IH [OF grown_section [OF Cons.prems, of limits s]] by (simp add: disj_assoc)
qed simp

lemma grown_filter:
  assumes "\<And>x rep. g x rep = add_finding_if (P x) (f x) rep"
  shows "grown start fs wx rep \<Longrightarrow> grown start (fs @ map f (filter P xs)) wx (fold g xs rep)"
proof (induction xs arbitrary: fs rep)
  case (Cons x xs)
  show ?case using Cons.IH [OF grown_add_if [OF Cons.prems, of "P x" "f x"]] by (auto simp: assms at_when_def)
qed simp

lemma grown_entry:
  assumes "grown start fs wx rep"
  shows "grown start (fs @ entry_findings entry ss) wx
    (case harden_entry entry ss rep of (mapped, rep') \<Rightarrow> add_finding_if (entry \<noteq> 0 \<and> \<not> mapped) (entry_unmapped entry) rep')"
proof (cases "find (holds_entry entry) ss")
  case None
  then have "harden_entry entry ss rep = (False, rep)" by (induction ss) (auto split: if_splits)
  then show ?thesis using grown_add_if [OF assms] None by (simp add: entry_findings_def)
next
  case (Some s)
  then have "harden_entry entry ss rep =
      (True, add_finding_if (seg_permissions s AND permission_execute = 0) (entry_not_executable entry) rep)"
    by (induction ss) (auto split: if_splits)
  then show ?thesis
    using grown_add_if [OF assms, of "seg_permissions s AND permission_execute = 0" "entry_not_executable entry"] Some
    by (simp add: entry_findings_def add_finding_if_def)
qed

lemma add_finding_flags [simp]:
  "hr_position_independent (add_finding_if c f rep) = hr_position_independent rep"
  "hr_stack_protection (add_finding_if c f rep) = hr_stack_protection rep"
  "hr_control_flow_protection (add_finding_if c f rep) = hr_control_flow_protection rep"
  by (simp_all add: add_finding_if_def add_finding_def Let_def)

lemma grown_policy:
  assumes "grown (initial_report img) fs wx rep"
  shows "grown (initial_report img) (fs @ policy_findings img) wx (harden_policy img rep)"
proof -
  have flags: "hr_position_independent rep = hr_position_independent (initial_report img)"
    "hr_stack_protection rep = hr_stack_protection (initial_report img)"
    "hr_control_flow_protection rep = hr_control_flow_protection (initial_report img)"
    using assms by (simp_all add: grown_def)
  note grow = grown_add_if [where start = "initial_report img" and wx = wx]
  show ?thesis
    unfolding harden_policy_def policy_findings_def Let_def append_assoc [symmetric] add_finding_flags flags
    by (intro grow assms)
qed

section \<open>The order of the findings\<close>

lemma rank_le [simp]: "severity_rank v \<le> 4"
  by (cases v) simp_all

lemma rank_inj: "4 - severity_rank v = 4 - severity_rank w \<longleftrightarrow> v = w"
  by (cases v; cases w) simp_all

lemma findings_sorted:
  "sorted_wrt (\<lambda>f g. severity_rank (hf_severity f) \<ge> severity_rank (hf_severity g)) (sort_findings fs)"
proof -
  have "sorted (map (\<lambda>f. 4 - severity_rank (hf_severity f)) (sort_findings fs))"
    by (simp add: sort_findings_def)
  then have "sorted_wrt (\<lambda>f g. 4 - severity_rank (hf_severity f) \<le> 4 - severity_rank (hf_severity g)) (sort_findings fs)"
    by (simp add: sorted_map)
  then show ?thesis
  proof (rule sorted_wrt_mono_rel [rotated])
    fix f g assume "4 - severity_rank (hf_severity f) \<le> 4 - severity_rank (hf_severity g)"
    then show "severity_rank (hf_severity f) \<ge> severity_rank (hf_severity g)"
      using rank_le [of "hf_severity f"] rank_le [of "hf_severity g"] by linarith
  qed
qed

lemma findings_stable:
  "filter (\<lambda>f. hf_severity f = severity) (sort_findings fs) = filter (\<lambda>f. hf_severity f = severity) fs"
  using sort_key_stable [of "\<lambda>f. 4 - severity_rank (hf_severity f)" "4 - severity_rank severity" fs]
  by (simp add: rank_inj sort_findings_def)

section \<open>The analysis\<close>

text \<open>
  C39. The hardening analysis succeeds exactly when the analysis of the image does. Its findings are
  then those of every section, of every section that looks compressed, of every sensitive import and
  unforwarded export, of the first segment that holds the entry point, and of the missing protections, ordered by
  severity with the most severe first and otherwise in the order they were made. The score is a
  hundred less the penalties of all findings, and never less than zero, and the image is
  reported writable and executable exactly when one of its sections is.
\<close>

theorem hardening_exact:
  assumes "img_file_data img = Some data" "length data < 2 ^ 64"
  shows "case harden fl limits img of
      Inl e \<Rightarrow> \<not> (image_valid limits data img \<and> totals_fit (img_sections img) \<and>
        list_all (section_fits limits data) (img_sections img))
    | Inr rep \<Rightarrow> image_valid limits data img \<and> totals_fit (img_sections img) \<and>
        list_all (section_fits limits data) (img_sections img) \<and>
        mset (hr_findings rep) = mset (all_findings fl limits data img) \<and>
        sorted_wrt (\<lambda>f g. severity_rank (hf_severity f) \<ge> severity_rank (hf_severity g)) (hr_findings rep) \<and>
        (\<forall>severity. filter (\<lambda>f. hf_severity f = severity) (hr_findings rep) =
          filter (\<lambda>f. hf_severity f = severity) (all_findings fl limits data img)) \<and>
        unat (hr_score rep) = 100 - total_penalty (all_findings fl limits data img) \<and>
        hr_writable_executable rep = list_ex both (img_sections img) \<and>
        hr_non_executable_data rep = (\<not> list_ex both (img_sections img))"
proof -
  have valid: "rep_valid (validate limits img) \<longleftrightarrow> image_valid limits data img"
    using validate_iff [of img limits] assms by auto
  note metrics = analyze_image_exact [OF assms, where fl = fl and limits = limits]
  show ?thesis
  proof (cases "image_valid limits data img")
    case False
    then show ?thesis by (simp add: harden_def valid)
  next
    case True
    show ?thesis
    proof (cases "analyze_image fl limits img")
      case (Inl e)
      then show ?thesis using metrics by (simp add: harden_def valid True Let_def)
    next
      case (Inr m)
      then have m: "im_sections m = map (statistics fl data) (img_sections img)"
        "totals_fit (img_sections img)" "list_all (section_fits limits data) (img_sections img)"
        using metrics by (auto simp: totals_hold_def)
      let ?start = "initial_report img" and ?wx = "list_ex both (img_sections img)"
      let ?entry = "hdr_entry_point (img_header img)"
      define rep where "rep = fold harden_export (img_exports img) (fold harden_import (img_imports img)
        (fold (harden_entropy img) (im_sections m) (fold (harden_section limits) (img_sections img) ?start)))"
      define fin where "fin = harden_policy img (case harden_entry ?entry (img_segments img) rep of (mapped, rep') \<Rightarrow>
        add_finding_if (?entry \<noteq> 0 \<and> \<not> mapped) (entry_unmapped ?entry) rep')"
      have run: "harden fl limits img = Inr (fin\<lparr>hr_findings := sort_findings (hr_findings fin)\<rparr>)"
        by (simp add: harden_def valid True Inr Let_def fin_def rep_def case_prod_beta)
      have s: "grown ?start ([] @ concat (map (section_findings limits) (img_sections img))) (False \<or> ?wx)
          (fold (harden_section limits) (img_sections img) ?start)"
        by (rule grown_sections [OF grown_refl])
      note e = grown_filter [where g = "harden_entropy img", OF _ s, of sm_likely_compressed "entropy_finding img" "im_sections m"]
      note i = grown_filter [where g = harden_import, OF _ e, of "suspicious_import \<circ> imp_name" import_finding "img_imports img"]
      note x = grown_filter [where g = harden_export, OF _ i, of forward_missing export_finding "img_exports img"]
      have "grown ?start (all_findings fl limits data img) ?wx fin"
        using grown_policy [OF grown_entry [OF x]]
        by (simp add: fin_def rep_def m(1) all_findings_def harden_entropy_def harden_import_def harden_export_def)
      then have fin: "hr_findings fin = all_findings fl limits data img"
        "unat (hr_score fin) = 100 - total_penalty (all_findings fl limits data img)"
        "hr_writable_executable fin = ?wx" "hr_non_executable_data fin = (\<not> ?wx)"
        using grown_score [of 100] by (simp_all add: grown_def initial_report_def empty_hardening_def)
      have sorted: "sorted_wrt (\<lambda>f g. severity_rank (hf_severity f) \<ge> severity_rank (hf_severity g)) (sort_findings fs)" for fs
        by (rule findings_sorted)
      have stable: "filter (\<lambda>f. hf_severity f = severity) (sort_findings fs) = filter (\<lambda>f. hf_severity f = severity) fs"
        for severity fs
        by (rule findings_stable)
      show ?thesis
        unfolding run by (simp add: True m fin sorted stable) (simp add: sort_findings_def mset_sort)
    qed
  qed
qed

lemma demo_hardening:
  "image_valid demo_limits [1, 2, 3, 4] demo_metrics_image" "totals_fit (img_sections demo_metrics_image)"
  "list_all (section_fits demo_limits [1, 2, 3, 4]) (img_sections demo_metrics_image)"
  by (simp_all add: image_valid_def demo_metrics_image_def empty_image_def demo_limits_def default_limits_def
      section_valid_def segment_valid_def power_of_two_def totals_fit_def declared_def section_fits_def range_inside_def)

lemma demo_findings:
  "all_findings demo_doubles demo_limits [1, 2, 3, 4] demo_metrics_image = [fixed_position, no_stack_guard, no_flow_guard]"
proof -
  have compressed: "filter sm_likely_compressed (map (statistics demo_doubles [1, 2, 3, 4]) (img_sections demo_metrics_image)) = []"
    by (simp add: demo_metrics_image_def statistics_def backed_def section_bytes_def Let_def)
  show ?thesis
    unfolding all_findings_def compressed
    by (simp add: demo_metrics_image_def empty_image_def empty_header_def section_findings_def at_when_def permission_defs
        alignment_unusual_def expansion_unusual_def demo_limits_def default_limits_def entry_findings_def holds_entry_def
        checked_add_def policy_findings_def initial_report_def empty_hardening_def symbol_named_like_def Let_def)
qed

theorem hardening_exact_witness:
  "case harden demo_doubles demo_limits demo_metrics_image of Inl e \<Rightarrow> False
   | Inr rep \<Rightarrow> unat (hr_score rep) = 86 \<and> filter (\<lambda>f. hf_severity f = medium) (hr_findings rep) = [fixed_position] \<and>
       \<not> hr_writable_executable rep"
proof -
  have d: "img_file_data demo_metrics_image = Some [1, 2, 3, 4]" "length [1, 2, 3, 4 :: u8] < 2 ^ 64"
    by (simp_all add: demo_metrics_image_def)
  have severity: "hf_severity fixed_position = medium" "hf_severity no_stack_guard = low" "hf_severity no_flow_guard = low"
    by (simp_all add: fixed_position_def no_stack_guard_def no_flow_guard_def policy_finding_def finding_def)
  have wx: "\<not> list_ex both (img_sections demo_metrics_image)"
    by (simp add: demo_metrics_image_def permission_defs)
  show ?thesis
    using hardening_exact [OF d, where fl = demo_doubles and limits = demo_limits] demo_hardening wx
    unfolding demo_findings by (cases "harden demo_doubles demo_limits demo_metrics_image") (simp_all add: severity)
qed

end
