(* ===== verification/Report_Writer.thy ===== *)
theory Report_Writer
  imports Hardening Decimal Disassembly
begin

unbundle bit_operations_syntax

text \<open>
  \<open>BinaryReportWriter\<close> of \<open>src/report_writer.cc\<close>: the report on an image as text, as one JSON document or as one
  JSON document per line. What is written is returned as a string.
\<close>

section \<open>Options\<close>

datatype ReportFormat = format_text | format_json | format_json_lines

record ReportOptions =
  ro_format :: ReportFormat
  ro_include_sections :: bool
  ro_include_segments :: bool
  ro_include_symbols :: bool
  ro_include_imports :: bool
  ro_include_exports :: bool
  ro_include_relocations :: bool
  ro_include_metrics :: bool
  ro_include_hardening :: bool
  ro_maximum_items :: u32

section \<open>Words and numbers\<close>

abbreviation quote_char :: char where "quote_char \<equiv> CHR 0x22"
abbreviation backslash :: char where "backslash \<equiv> CHR 0x5C"
abbreviation newline :: char where "newline \<equiv> CHR 0x0A"

definition escape_char :: "char \<Rightarrow> string" where
  "escape_char c =
    (if c = quote_char then [backslash, quote_char]
     else if c = backslash then [backslash, backslash]
     else if c = CHR 0x08 then [backslash, CHR ''b'']
     else if c = CHR 0x0C then [backslash, CHR ''f'']
     else if c = newline then [backslash, CHR ''n'']
     else if c = CHR 0x0D then [backslash, CHR ''r'']
     else if c = CHR 0x09 then [backslash, CHR ''t'']
     else if (of_char c :: nat) < 0x20
     then [backslash, CHR ''u'', CHR ''0'', CHR ''0'', hex_digit (of_char c div 16), hex_digit (of_char c mod 16)]
     else [c])"

definition json_escape :: "string \<Rightarrow> string" where
  "json_escape text = concat (map escape_char text)"

fun format_name :: "BinaryFormat \<Rightarrow> string" where
  "format_name elf_like = ''elf''"
| "format_name pe_like = ''pe''"
| "format_name macho_like = ''macho''"
| "format_name format_unknown = ''unknown''"

fun architecture_name :: "Architecture \<Rightarrow> string" where
  "architecture_name x86 = ''x86''"
| "architecture_name x86_64 = ''x86_64''"
| "architecture_name arm = ''arm''"
| "architecture_name arm64 = ''arm64''"
| "architecture_name riscv32 = ''riscv32''"
| "architecture_name riscv64 = ''riscv64''"
| "architecture_name _ = ''unknown''"

definition permissions_text :: "u8 \<Rightarrow> string" where
  "permissions_text v =
    [(if v AND permission_read \<noteq> 0 then CHR ''r'' else CHR ''-''),
     (if v AND permission_write \<noteq> 0 then CHR ''w'' else CHR ''-''),
     (if v AND permission_execute \<noteq> 0 then CHR ''x'' else CHR ''-'')]"

fun severity_name :: "FindingSeverity \<Rightarrow> string" where
  "severity_name information = ''information''"
| "severity_name low = ''low''"
| "severity_name medium = ''medium''"
| "severity_name high = ''high''"
| "severity_name critical = ''critical''"

text \<open>An unsigned value in a stream, under \<open>std::dec\<close> and under \<open>std::hex\<close>.\<close>

definition decimal :: "'a::len word \<Rightarrow> string" where
  "decimal v = to_string (unat v)"

fun hexadecimal_digits :: "nat \<Rightarrow> string" where
  "hexadecimal_digits n = (if n < 16 then [hex_digit n] else hexadecimal_digits (n div 16) @ [hex_digit (n mod 16)])"

declare hexadecimal_digits.simps [simp del]

definition hexadecimal :: "'a::len word \<Rightarrow> string" where
  "hexadecimal v = hexadecimal_digits (unat v)"

section \<open>Text\<close>

text \<open>The number of items emitted so far and the output.\<close>

type_synonym emission = "u32 \<times> string"

fun emit_items :: "u32 \<Rightarrow> ('a \<Rightarrow> string) \<Rightarrow> 'a list \<Rightarrow> emission \<Rightarrow> emission" where
  "emit_items maximum item [] st = st"
| "emit_items maximum item (x # xs) (emitted, out) =
    (if \<not> emitted < maximum then (emitted, out) else emit_items maximum item xs (emitted + 1, out @ item x))"

definition emit_table :: "u32 \<Rightarrow> bool \<Rightarrow> string \<Rightarrow> ('a \<Rightarrow> string) \<Rightarrow> 'a list \<Rightarrow> emission \<Rightarrow> emission" where
  "emit_table maximum wanted title item xs = (\<lambda>(emitted, out).
    if \<not> wanted then (emitted, out)
    else emit_items maximum item xs (emitted, out @ [newline] @ ''['' @ title @ '']'' @ [newline]))"

definition section_line :: "Section \<Rightarrow> string" where
  "section_line s = decimal (sec_index s) @ '' '' @ sec_name s @ '' file=0x'' @ hexadecimal (sec_file_offset s) @ ''+0x'' @
    hexadecimal (sec_file_size s) @ '' virtual=0x'' @ hexadecimal (sec_virtual_address s) @ ''+0x'' @
    hexadecimal (sec_memory_size s) @ '' '' @ permissions_text (sec_permissions s) @ [newline]"

definition segment_line :: "Segment \<Rightarrow> string" where
  "segment_line s = decimal (seg_index s) @ '' file=0x'' @ hexadecimal (seg_file_offset s) @ ''+0x'' @
    hexadecimal (seg_file_size s) @ '' virtual=0x'' @ hexadecimal (seg_virtual_address s) @ ''+0x'' @
    hexadecimal (seg_memory_size s) @ '' '' @ permissions_text (seg_permissions s) @ [newline]"

definition symbol_line :: "Symbol \<Rightarrow> string" where
  "symbol_line s = decimal (sym_index s) @ '' 0x'' @ hexadecimal (sym_value s) @ '' '' @ sym_name s @ '' size='' @
    decimal (sym_size s) @ [newline]"

definition import_line :: "Import \<Rightarrow> string" where
  "import_line i = imp_library i @ ''!'' @ (if imp_name i = [] then ''#'' @ decimal (imp_ordinal i) else imp_name i) @
    '' slot=0x'' @ hexadecimal (imp_slot_address i) @ [newline]"

definition export_line :: "Export \<Rightarrow> string" where
  "export_line e = exp_name e @ '' ordinal='' @ decimal (exp_ordinal e) @ '' address=0x'' @ hexadecimal (exp_address e) @
    (if exp_forwarded e then '' forward='' @ exp_forward_target e else []) @ [newline]"

definition relocation_line :: "Relocation \<Rightarrow> string" where
  "relocation_line rel = decimal (rel_index rel) @ '' address=0x'' @ hexadecimal (rel_offset rel) @ '' kind='' @
    decimal (relocation_kind_byte (rel_kind rel)) @ '' symbol='' @ decimal (rel_symbol_index rel) @ '' addend='' @
    to_string_signed (rel_addend rel) @ [newline]"

text \<open>The dash of the source is three bytes of UTF-8.\<close>

definition finding_line :: "HardeningFinding \<Rightarrow> string" where
  "finding_line f = severity_name (hf_severity f) @ '': '' @ hf_title f @ '' '' @ [CHR 0xE2, CHR 0x80, CHR 0x94] @ '' '' @
    hf_detail f @ [newline]"

definition heading :: "string \<Rightarrow> string \<Rightarrow> string" where
  "heading name content = name @ '': '' @ content @ [newline]"

definition text_header :: "BinaryImage \<Rightarrow> 'd ImageMetrics option \<Rightarrow> HardeningReport option \<Rightarrow> string" where
  "text_header img metrics hardening =
    ''BinForge binary report'' @ [newline] @
    heading ''format'' (format_name (hdr_format (img_header img))) @
    heading ''architecture'' (architecture_name (hdr_architecture (img_header img))) @
    heading ''word-size'' (to_string (unat (word_size_bytes (hdr_word_size (img_header img))) * 8)) @
    heading ''entry-point'' (''0x'' @ hexadecimal (hdr_entry_point (img_header img))) @
    heading ''image-base'' (''0x'' @ hexadecimal (hdr_image_base (img_header img))) @
    heading ''sections'' (to_string (length (img_sections img))) @
    heading ''segments'' (to_string (length (img_segments img))) @
    heading ''symbols'' (to_string (length (img_symbols img))) @
    heading ''relocations'' (to_string (length (img_relocations img))) @
    heading ''imports'' (to_string (length (img_imports img))) @
    heading ''exports'' (to_string (length (img_exports img))) @
    (case metrics of None \<Rightarrow> [] | Some m \<Rightarrow>
      heading ''file-bytes'' (decimal (im_file_size m)) @ heading ''mapped-bytes'' (decimal (im_declared_memory_bytes m)) @
      heading ''executable-bytes'' (decimal (im_executable_bytes m))) @
    (case hardening of None \<Rightarrow> [] | Some h \<Rightarrow> heading ''hardening-score'' (decimal (hr_score h)))"

definition write_text :: "ReportOptions \<Rightarrow> BinaryImage \<Rightarrow> 'd ImageMetrics option \<Rightarrow> HardeningReport option \<Rightarrow> string" where
  "write_text opts img metrics hardening =
    (let maximum = ro_maximum_items opts;
         st = (0, text_header img metrics hardening);
         st = emit_table maximum (ro_include_sections opts) ''sections'' section_line (img_sections img) st;
         st = emit_table maximum (ro_include_segments opts) ''segments'' segment_line (img_segments img) st;
         st = emit_table maximum (ro_include_symbols opts) ''symbols'' symbol_line (img_symbols img) st;
         st = emit_table maximum (ro_include_imports opts) ''imports'' import_line (img_imports img) st;
         st = emit_table maximum (ro_include_exports opts) ''exports'' export_line (img_exports img) st;
         st = emit_table maximum (ro_include_relocations opts) ''relocations'' relocation_line (img_relocations img) st;
         (emitted, out) = (case hardening of None \<Rightarrow> st
           | Some h \<Rightarrow> emit_table maximum True ''hardening'' finding_line (hr_findings h) st)
     in if emitted < maximum then out else out @ [newline] @ ''[report truncated at item limit]'' @ [newline])"

section \<open>JSON\<close>

definition quoted :: "string \<Rightarrow> string" where
  "quoted text = [quote_char] @ text @ [quote_char]"

definition json_key :: "string \<Rightarrow> string" where
  "json_key name = quoted name @ '':''"

record JsonItem =
  ji_type :: string
  ji_index :: u32
  ji_name :: string
  ji_address :: u64
  ji_size :: u64

definition json_item :: "JsonItem \<Rightarrow> string" where
  "json_item i = ''{'' @ json_key ''type'' @ quoted (json_escape (ji_type i)) @ '','' @
    json_key ''index'' @ decimal (ji_index i) @ '','' @
    json_key ''name'' @ quoted (json_escape (ji_name i)) @ '','' @
    json_key ''address'' @ decimal (ji_address i) @ '','' @
    json_key ''size'' @ decimal (ji_size i) @ ''}''"

text \<open>\<open>emit_json\<close>, with the flag that says whether an item came before.\<close>

definition emit_json :: "bool \<Rightarrow> u32 \<Rightarrow> JsonItem \<Rightarrow> bool \<times> emission \<Rightarrow> bool \<times> emission" where
  "emit_json by_line maximum item = (\<lambda>(first, emitted, out).
    if \<not> emitted < maximum then (first, emitted, out)
    else if by_line then (first, emitted + 1, out @ json_item item @ [newline])
    else (False, emitted + 1, out @ (if first then [] else '','') @ json_item item))"

definition item_of :: "string \<Rightarrow> u32 \<Rightarrow> string \<Rightarrow> u64 \<Rightarrow> u64 \<Rightarrow> JsonItem" where
  "item_of type index name address bytes =
    \<lparr>ji_type = type, ji_index = index, ji_name = name, ji_address = address, ji_size = bytes\<rparr>"

definition section_item :: "Section \<Rightarrow> JsonItem" where
  "section_item s = item_of ''section'' (sec_index s) (sec_name s) (sec_virtual_address s) (sec_memory_size s)"

definition segment_item :: "Segment \<Rightarrow> JsonItem" where
  "segment_item s = item_of ''segment'' (seg_index s) (''segment.'' @ decimal (seg_index s))
    (seg_virtual_address s) (seg_memory_size s)"

definition symbol_item :: "Symbol \<Rightarrow> JsonItem" where
  "symbol_item s = item_of ''symbol'' (sym_index s) (sym_name s) (sym_value s) (sym_size s)"

definition import_item :: "nat \<times> Import \<Rightarrow> JsonItem" where
  "import_item = (\<lambda>(n, i). item_of ''import'' (of_nat n) (imp_library i @ ''!'' @ imp_name i) (imp_slot_address i) 0)"

definition export_item :: "nat \<times> Export \<Rightarrow> JsonItem" where
  "export_item = (\<lambda>(n, e). item_of ''export'' (of_nat n) (exp_name e) (exp_address e) 0)"

definition emit_wanted :: "bool \<Rightarrow> u32 \<Rightarrow> bool \<Rightarrow> ('a \<Rightarrow> JsonItem) \<Rightarrow> 'a list \<Rightarrow> bool \<times> emission \<Rightarrow> bool \<times> emission" where
  "emit_wanted by_line maximum wanted item xs st = (if wanted then fold (emit_json by_line maximum \<circ> item) xs st else st)"

definition json_header :: "BinaryImage \<Rightarrow> 'd ImageMetrics option \<Rightarrow> HardeningReport option \<Rightarrow> string" where
  "json_header img metrics hardening =
    ''{'' @ json_key ''header'' @ ''{'' @ json_key ''format'' @ quoted (json_escape (format_name (hdr_format (img_header img)))) @
    '','' @ json_key ''architecture'' @ quoted (json_escape (architecture_name (hdr_architecture (img_header img)))) @
    '','' @ json_key ''entry_point'' @ decimal (hdr_entry_point (img_header img)) @
    '','' @ json_key ''image_base'' @ decimal (hdr_image_base (img_header img)) @ ''}'' @
    (case metrics of None \<Rightarrow> [] | Some m \<Rightarrow>
      '','' @ json_key ''metrics'' @ ''{'' @ json_key ''file_bytes'' @ decimal (im_file_size m) @
      '','' @ json_key ''memory_bytes'' @ decimal (im_declared_memory_bytes m) @
      '','' @ json_key ''executable_bytes'' @ decimal (im_executable_bytes m) @ ''}'') @
    (case hardening of None \<Rightarrow> [] | Some h \<Rightarrow> '','' @ json_key ''hardening_score'' @ decimal (hr_score h)) @
    '','' @ json_key ''items'' @ ''[''"

definition write_json :: "ReportOptions \<Rightarrow> BinaryImage \<Rightarrow> 'd ImageMetrics option \<Rightarrow> HardeningReport option \<Rightarrow> string" where
  "write_json opts img metrics hardening =
    (let by_line = (ro_format opts = format_json_lines); maximum = ro_maximum_items opts;
         st = (True, 0, if by_line then [] else json_header img metrics hardening);
         st = emit_wanted by_line maximum (ro_include_sections opts) section_item (img_sections img) st;
         st = emit_wanted by_line maximum (ro_include_segments opts) segment_item (img_segments img) st;
         st = emit_wanted by_line maximum (ro_include_symbols opts) symbol_item (img_symbols img) st;
         st = emit_wanted by_line maximum (ro_include_imports opts) import_item (enumerate 0 (img_imports img)) st;
         (first, emitted, out) =
           emit_wanted by_line maximum (ro_include_exports opts) export_item (enumerate 0 (img_exports img)) st
     in if by_line then out
        else out @ ''],'' @ json_key ''truncated'' @ (if emitted < maximum then ''false'' else ''true'') @ ''}'')"

section \<open>The writer\<close>

definition write_report :: "'d doubles \<Rightarrow> Limits \<Rightarrow> ReportOptions \<Rightarrow> BinaryImage \<Rightarrow> Error + string" where
  "write_report fl limits opts img =
    (if ro_maximum_items opts = 0 \<or> ro_maximum_items opts > max_symbols limits
     then Inl (mk_error resource_limit 0 ''report item limit is invalid'')
     else let validation = validate limits img in
     if \<not> rep_valid validation then Inl (hd (rep_errors validation))
     else case (if ro_include_metrics opts then map_sum id Some (analyze_image fl limits img) else Inr None) of
       Inl e \<Rightarrow> Inl e
     | Inr metrics \<Rightarrow>
     case (if ro_include_hardening opts then map_sum id Some (harden fl limits img) else Inr None) of
       Inl e \<Rightarrow> Inl e
     | Inr hardening \<Rightarrow>
       Inr (if ro_format opts = format_text then write_text opts img metrics hardening
            else write_json opts img metrics hardening))"

end
