(* ===== verification/Json_Report.thy ===== *)
theory Json_Report
  imports Report_Writer
begin

text \<open>
  A reader for the JSON the report writer produces, and the proof that it finds in a report exactly the items that were
  written: names with quotes, backslashes and control characters included.
\<close>

section \<open>The reader\<close>

fun expect :: "string \<Rightarrow> string \<Rightarrow> string option" where
  "expect [] s = Some s"
| "expect (c # cs) [] = None"
| "expect (c # cs) (x # s) = (if c = x then expect cs s else None)"

lemma expect_append [simp]: "expect p (p @ s) = Some s"
  by (induction p) simp_all

definition hex_value :: "char \<Rightarrow> nat" where
  "hex_value c = (if of_char c < (58 :: nat) then of_char c - 48 else of_char c - 87)"

fun read_code :: "string \<Rightarrow> (char \<times> string) option" where
  "read_code (a # b # x # y # s) = Some (char_of (16 * hex_value x + hex_value y), s)"
| "read_code s = None"

fun read_escape :: "string \<Rightarrow> (char \<times> string) option" where
  "read_escape (e # s) =
    (if e = quote_char \<or> e = backslash then Some (e, s)
     else if e = CHR ''b'' then Some (CHR 0x08, s)
     else if e = CHR ''f'' then Some (CHR 0x0C, s)
     else if e = CHR ''n'' then Some (newline, s)
     else if e = CHR ''r'' then Some (CHR 0x0D, s)
     else if e = CHR ''t'' then Some (CHR 0x09, s)
     else if e = CHR ''u'' then read_code s
     else None)"
| "read_escape [] = None"

text \<open>The characters up to the closing quote; every character takes at least one step.\<close>

fun read_text :: "nat \<Rightarrow> string \<Rightarrow> (string \<times> string) option" where
  "read_text (Suc n) (c # s) =
    (if c = quote_char then Some ([], s)
     else case (if c = backslash then read_escape s else Some (c, s)) of
       None \<Rightarrow> None
     | Some (x, s') \<Rightarrow> map_option (map_prod ((#) x) id) (read_text n s'))"
| "read_text n s = None"

definition read_string :: "string \<Rightarrow> (string \<times> string) option" where
  "read_string s = Option.bind (expect [quote_char] s) (\<lambda>s. read_text (length s) s)"

definition read_number :: "string \<Rightarrow> (nat \<times> string) option" where
  "read_number s =
    (if takeWhile digit s = [] then None else Some (digits_value (takeWhile digit s), dropWhile digit s))"

definition read_key :: "string \<Rightarrow> string \<Rightarrow> (string \<Rightarrow> ('a \<times> string) option) \<Rightarrow> string \<Rightarrow> ('a \<times> string) option" where
  "read_key opening name content s = Option.bind (expect (opening @ [quote_char] @ name @ [quote_char, CHR '':'']) s) content"

definition read_item :: "string \<Rightarrow> (JsonItem \<times> string) option" where
  "read_item s =
    Option.bind (read_key ''{'' ''type'' read_string s) (\<lambda>(kind, s).
    Option.bind (read_key '','' ''index'' read_number s) (\<lambda>(index, s).
    Option.bind (read_key '','' ''name'' read_string s) (\<lambda>(name, s).
    Option.bind (read_key '','' ''address'' read_number s) (\<lambda>(address, s).
    Option.bind (read_key '','' ''size'' read_number s) (\<lambda>(bytes, s).
    map_option (Pair \<lparr>ji_type = kind, ji_index = of_nat index, ji_name = name, ji_address = of_nat address,
      ji_size = of_nat bytes\<rparr>) (expect ''}'' s))))))"

fun read_lines :: "nat \<Rightarrow> string \<Rightarrow> JsonItem list option" where
  "read_lines n [] = Some []"
| "read_lines (Suc n) s = Option.bind (read_item s) (\<lambda>(item, s).
    Option.bind (expect [newline] s) (\<lambda>s. map_option ((#) item) (read_lines n s)))"
| "read_lines 0 s = None"

text \<open>The rest of an array: a bracket, or an item with a comma before it unless it is the first.\<close>

fun read_array :: "nat \<Rightarrow> bool \<Rightarrow> string \<Rightarrow> (JsonItem list \<times> string) option" where
  "read_array (Suc n) first s =
    (case expect '']'' s of
       Some s' \<Rightarrow> Some ([], s')
     | None \<Rightarrow> Option.bind (expect (if first then [] else '','') s) (\<lambda>s.
         Option.bind (read_item s) (\<lambda>(item, s). map_option (map_prod ((#) item) id) (read_array n False s))))"
| "read_array 0 first s = None"

section \<open>Strings and numbers\<close>

lemma hex_value_digit [simp]: "d < 16 \<Longrightarrow> hex_value (hex_digit d) = d"
  by (simp add: hex_value_def hex_digit_def of_char_of)

lemma read_code_digits:
  "read_code (a # b # hex_digit (of_char c div 16) # hex_digit (of_char c mod 16) # s) = Some (c, s)"
proof -
  have "(of_char c :: nat) div 16 < 16" by (rule less_mult_imp_div_less) simp
  then show ?thesis by simp
qed

text \<open>The reader takes one step for a character, whatever its escaped form.\<close>

lemma read_escaped_char:
  "\<exists>x xs. escape_char c @ s = x # xs \<and> x \<noteq> quote_char \<and> (if x = backslash then read_escape xs else Some (x, xs)) = Some (c, s)"
  unfolding escape_char_def by (simp add: read_code_digits)

lemma read_text_escape:
  "length content < n \<Longrightarrow> read_text n (json_escape content @ quote_char # rest) = Some (content, rest)"
proof (induction content arbitrary: n)
  case Nil
  then show ?case by (cases n) (simp_all add: json_escape_def)
next
  case (Cons c content)
  obtain m where n: "n = Suc m" using Cons.prems by (cases n) auto
  obtain x xs where x: "escape_char c @ json_escape content @ quote_char # rest = x # xs" "x \<noteq> quote_char"
    "(if x = backslash then read_escape xs else Some (x, xs)) = Some (c, json_escape content @ quote_char # rest)"
    using read_escaped_char by blast
  have "json_escape (c # content) @ quote_char # rest = x # xs" using x(1) by (simp add: json_escape_def)
  then show ?case using Cons.IH [of m] Cons.prems x(2,3) by (simp add: n)
qed

lemma escape_length: "length content \<le> length (json_escape content)"
proof (induction content)
  case (Cons c content)
  have "1 \<le> length (escape_char c)" by (simp add: escape_char_def)
  then have "length content + 1 \<le> length (json_escape content) + length (escape_char c)" using Cons by (rule add_mono [rotated])
  then show ?case by (simp add: json_escape_def)
qed (simp add: json_escape_def)

lemma read_string_quoted [simp]: "read_string (quoted (json_escape content) @ rest) = Some (content, rest)"
  using escape_length [of content] by (simp add: read_string_def quoted_def read_text_escape)

lemma read_number_decimal [simp]: "\<not> digit c \<Longrightarrow> read_number (decimal w @ c # rest) = Some (unat w, c # rest)"
proof -
  assume c: "\<not> digit c"
  have "to_string (unat w) \<noteq> []" by (subst to_string.simps) simp
  moreover have "dropWhile digit (to_string (unat w) @ c # rest) = c # rest"
    using to_string_digits c by (simp add: dropWhile_append2)
  ultimately show ?thesis
    by (simp add: read_number_def decimal_def takeWhile_digits [OF c] digits_value_to_string del: digits_value.simps)
qed

section \<open>Items\<close>

lemma read_key_append [simp]:
  "read_key opening name content (opening @ json_key name @ s) = content s"
  "read_key [c] name content (c # json_key name @ s) = content s"
proof -
  have key: "[quote_char] @ name @ [quote_char, CHR '':''] = json_key name" by (simp add: json_key_def quoted_def)
  show "read_key opening name content (opening @ json_key name @ s) = content s"
    "read_key [c] name content (c # json_key name @ s) = content s"
    unfolding read_key_def key using expect_append [of "opening @ json_key name" s] expect_append [of "[c] @ json_key name" s]
    by simp_all
qed

lemma item_ends [simp]: "\<not> digit (CHR '','')" "\<not> digit (CHR ''}'')"
  by (simp_all add: digit_def)

lemma word_of_unat [simp]: "of_nat (unat w) = (w :: 'a::len word)"
  by simp

lemma read_item_written [simp]: "read_item (json_item i @ rest) = Some (i, rest)"
  by (simp add: read_item_def json_item_def)

lemma json_item_nonempty: "\<exists>s. json_item i @ rest = CHR ''{'' # s"
  by (simp add: json_item_def)

section \<open>What is emitted\<close>

fun joined :: "bool \<Rightarrow> JsonItem list \<Rightarrow> string" where
  "joined first [] = []"
| "joined first (i # is) = (if first then [] else '','') @ json_item i @ joined False is"

definition by_lines :: "JsonItem list \<Rightarrow> string" where
  "by_lines is = concat (map (\<lambda>i. json_item i @ [newline]) is)"

lemma emit_json_fold:
  "fold (emit_json by_line maximum) items (first, n, out) =
    (let taken = take (unat maximum - unat n) items in
      (if by_line then first else first \<and> taken = [], n + of_nat (length taken),
       out @ (if by_line then by_lines taken else joined first taken)))"
proof (induction items arbitrary: first n out)
  case (Cons i items)
  show ?case
  proof (cases "n < maximum")
    case True
    then have "unat n + unat (1 :: u32) < 2 ^ LENGTH(32)"
      using unat_u32_bound [of maximum] by (simp add: word_less_nat_alt)
    then have "unat (n + 1) = unat n + 1" by (simp add: unat_plus_bounded)
    then obtain k where k: "unat maximum - unat n = Suc k" "unat maximum - unat (n + 1) = k"
      using True by (cases "unat maximum - unat n") (simp_all add: word_less_nat_alt)
    have step: "emit_json by_line maximum i (first, n, out) =
        (by_line \<and> first, n + 1, out @ (if by_line then json_item i @ [newline] else (if first then [] else '','') @ json_item i))"
      using True by (simp add: emit_json_def)
    show ?thesis by (simp add: step Cons.IH k Let_def by_lines_def add.assoc)
  next
    case False
    then have "unat maximum - unat n = 0" by (simp add: word_less_nat_alt)
    then show ?thesis using False Cons.IH by (simp add: emit_json_def Let_def)
  qed
qed (simp add: by_lines_def)

definition report_items :: "ReportOptions \<Rightarrow> BinaryImage \<Rightarrow> JsonItem list" where
  "report_items opts img =
    (if ro_include_sections opts then map (\<lambda>s. \<lparr>ji_type = ''section'', ji_index = sec_index s, ji_name = sec_name s,
       ji_address = sec_virtual_address s, ji_size = sec_memory_size s\<rparr>) (img_sections img) else []) @
    (if ro_include_segments opts then map (\<lambda>s. \<lparr>ji_type = ''segment'', ji_index = seg_index s,
       ji_name = ''segment.'' @ to_string (unat (seg_index s)), ji_address = seg_virtual_address s,
       ji_size = seg_memory_size s\<rparr>) (img_segments img) else []) @
    (if ro_include_symbols opts then map (\<lambda>s. \<lparr>ji_type = ''symbol'', ji_index = sym_index s, ji_name = sym_name s,
       ji_address = sym_value s, ji_size = sym_size s\<rparr>) (img_symbols img) else []) @
    (if ro_include_imports opts then map (\<lambda>n. let i = img_imports img ! n in \<lparr>ji_type = ''import'', ji_index = of_nat n,
       ji_name = imp_library i @ ''!'' @ imp_name i, ji_address = imp_slot_address i, ji_size = 0\<rparr>)
       [0..<length (img_imports img)] else []) @
    (if ro_include_exports opts then map (\<lambda>n. let e = img_exports img ! n in \<lparr>ji_type = ''export'', ji_index = of_nat n,
       ji_name = exp_name e, ji_address = exp_address e, ji_size = 0\<rparr>) [0..<length (img_exports img)] else [])"

lemma map_enumerate: "map f (enumerate 0 xs) = map (\<lambda>n. f (n, xs ! n)) [0..<length xs]"
  by (rule nth_equalityI) (simp_all add: nth_enumerate_eq)

lemma report_items_written: "report_items opts img =
    (if ro_include_sections opts then map section_item (img_sections img) else []) @
    (if ro_include_segments opts then map segment_item (img_segments img) else []) @
    (if ro_include_symbols opts then map symbol_item (img_symbols img) else []) @
    (if ro_include_imports opts then map import_item (enumerate 0 (img_imports img)) else []) @
    (if ro_include_exports opts then map export_item (enumerate 0 (img_exports img)) else [])"
  unfolding map_enumerate
  by (simp add: report_items_def section_item_def segment_item_def symbol_item_def import_item_def export_item_def
      item_of_def decimal_def Let_def cong: if_cong)

lemma emit_wanted_fold:
  "emit_wanted by_line maximum wanted item xs st =
    fold (emit_json by_line maximum) (if wanted then map item xs else []) st"
  by (simp add: emit_wanted_def fold_map)

lemma write_json_items:
  "write_json opts img metrics hardening =
    (let written = take (unat (ro_maximum_items opts)) (report_items opts img) in
     if ro_format opts = format_json_lines then by_lines written
     else json_header img metrics hardening @ joined True written @ ''],'' @ json_key ''truncated'' @
       (if length (report_items opts img) < unat (ro_maximum_items opts) then ''false'' else ''true'') @ ''}'')"
proof -
  let ?by = "ro_format opts = format_json_lines" and ?max = "ro_maximum_items opts"
  let ?written = "take (unat ?max) (report_items opts img)"
  have "length ?written < 4294967296" using unat_u32_bound [of ?max] by simp
  then have "unat (of_nat (length ?written) :: u32) = length ?written" by (rule unat_of_nat_u32)
  then have less: "(of_nat (length ?written) :: u32) < ?max \<longleftrightarrow> length (report_items opts img) < unat ?max"
    by (auto simp: word_less_nat_alt)
  define st where "st = fold (emit_json ?by ?max) (report_items opts img)
    (True, 0, if ?by then [] else json_header img metrics hardening)"
  have st: "st = (if ?by then True else ?written = [], of_nat (length ?written),
      (if ?by then [] else json_header img metrics hardening) @ (if ?by then by_lines ?written else joined True ?written))"
    unfolding st_def emit_json_fold by (simp add: Let_def)
  have "write_json opts img metrics hardening =
      (case st of (first, emitted, out) \<Rightarrow> if ?by then out
        else out @ ''],'' @ json_key ''truncated'' @ (if emitted < ?max then ''false'' else ''true'') @ ''}'')"
    unfolding st_def write_json_def Let_def emit_wanted_fold report_items_written fold_append comp_def ..
  then show ?thesis unfolding st using less by (simp add: Let_def)
qed

section \<open>Reading a report back\<close>

lemma read_lines_written: "length items \<le> n \<Longrightarrow> read_lines n (by_lines items) = Some items"
proof (induction items arbitrary: n)
  case (Cons i items)
  obtain m where n: "n = Suc m" using Cons.prems by (cases n) auto
  obtain c cs where s: "by_lines (i # items) = c # cs"
    using json_item_nonempty [of i "newline # by_lines items"] by (auto simp: by_lines_def)
  have "read_item (c # cs) = Some (i, newline # by_lines items)"
    unfolding s [symmetric] by (simp add: by_lines_def)
  then show ?case using Cons by (simp add: s n)
qed (simp add: by_lines_def)

lemma read_array_written:
  "length items < n \<Longrightarrow> read_array n first (joined first items @ '']'' @ rest) = Some (items, rest)"
proof (induction items arbitrary: n first)
  case Nil
  then show ?case by (cases n) simp_all
next
  case (Cons i items)
  obtain m where n: "n = Suc m" using Cons.prems by (cases n) auto
  obtain cs where i: "json_item i = CHR ''{'' # cs" using json_item_nonempty [of i "[]"] by auto
  have "expect '']'' (joined first (i # items) @ '']'' @ rest) = None" by (cases first) (simp_all add: i)
  moreover have "expect (if first then [] else '','') (joined first (i # items) @ '']'' @ rest) =
      Some (json_item i @ joined False items @ '']'' @ rest)"
    by simp
  ultimately show ?case using Cons.IH [of m False] Cons.prems unfolding n by simp
qed

lemma items_shorter: "length items \<le> length (by_lines items)" "length items \<le> length (joined first items)"
proof -
  have i: "1 \<le> length (json_item i)" for i using json_item_nonempty [of i "[]"] by auto
  show "length items \<le> length (by_lines items)" by (induction items) (simp_all add: by_lines_def)
  show "length items \<le> length (joined first items)"
  proof (induction items arbitrary: first)
    case (Cons a items)
    have "1 + length items \<le> length (json_item a) + length (joined False items)" using i Cons by (rule add_mono)
    then show ?case by simp
  qed simp
qed

text \<open>
  C35. A JSON report reads back, character by character, as its items. A report by lines is exactly the
  sections, segments, symbols, imports and exports that the options ask for, in this order and up to
  the limit, whatever characters their names hold; relocations are never among them, asked for or not.
  A single document is a header, with the metrics and the score of the analyses when they were asked for,
  an array that reads as those items, and a flag that says truncated exactly when the number of items
  reaches the limit, even if none was left out. The reading is of characters, not of UTF-8: a name that is
  not UTF-8 reads back all the same, in a document that other readers of JSON may refuse.
\<close>

theorem json_roundtrip:
  fixes fl :: "'d doubles"
  assumes "write_report fl limits opts img = Inr out"
  shows "(ro_format opts = format_json_lines \<longrightarrow>
      read_lines (length out) out = Some (take (unat (ro_maximum_items opts)) (report_items opts img))) \<and>
    (ro_format opts = format_json \<longrightarrow> (\<exists>(metrics :: 'd ImageMetrics option) hardening body.
      out = json_header img metrics hardening @ body \<and>
      (if ro_include_metrics opts then map_sum id Some (analyze_image fl limits img) = Inr metrics else metrics = None) \<and>
      (if ro_include_hardening opts then map_sum id Some (harden fl limits img) = Inr hardening else hardening = None) \<and>
      read_array (length body) True body = Some (take (unat (ro_maximum_items opts)) (report_items opts img),
        '','' @ json_key ''truncated'' @
        (if length (report_items opts img) < unat (ro_maximum_items opts) then ''false'' else ''true'') @ ''}'')))"
proof -
  let ?items = "take (unat (ro_maximum_items opts)) (report_items opts img)"
  have "\<exists>(metrics :: 'd ImageMetrics option) hardening.
      (if ro_include_metrics opts then map_sum id Some (analyze_image fl limits img) = Inr metrics else metrics = None) \<and>
      (if ro_include_hardening opts then map_sum id Some (harden fl limits img) = Inr hardening else hardening = None) \<and>
      out = (if ro_format opts = format_text
      then write_text opts img metrics hardening else write_json opts img metrics hardening)"
    using assms by (auto simp: write_report_def Let_def split: if_splits sum.splits)
  then obtain metrics :: "'d ImageMetrics option" and hardening where
    analyses: "if ro_include_metrics opts then map_sum id Some (analyze_image fl limits img) = Inr metrics else metrics = None"
      "if ro_include_hardening opts then map_sum id Some (harden fl limits img) = Inr hardening else hardening = None"
    and out: "ro_format opts \<noteq> format_text \<Longrightarrow> out = write_json opts img metrics hardening" by auto
  have lines: "read_lines (length out) out = Some ?items" if "ro_format opts = format_json_lines"
    using out that items_shorter(1) [of ?items] by (simp add: write_json_items Let_def read_lines_written)
  let ?tail = "'','' @ json_key ''truncated'' @
    (if length (report_items opts img) < unat (ro_maximum_items opts) then ''false'' else ''true'') @ ''}''"
  let ?body = "joined True ?items @ '']'' @ ?tail"
  have "length ?items < length ?body" using items_shorter(2) [of ?items True] by simp
  then have body: "read_array (length ?body) True ?body = Some (?items, ?tail)" by (rule read_array_written)
  have "out = json_header img metrics hardening @ ?body" if "ro_format opts = format_json"
    using out that by (simp add: write_json_items Let_def)
  then show ?thesis using lines body analyses by blast
qed

definition demo_report_image :: BinaryImage where
  "demo_report_image = empty_image\<lparr>img_file_data := Some [1],
     img_sections := map (\<lambda>(i, n). \<lparr>sec_index = i, sec_name = n, sec_kind = no_bits, sec_file_offset = 0,
       sec_file_size = 0, sec_virtual_address = 16, sec_memory_size = 5, sec_alignment = 4, sec_entry_size = 0,
       sec_link = 0, sec_info = 0, sec_permissions = 6\<rparr>) [(0, [quote_char, CHR ''a'', newline]), (1, [backslash]), (2, ''b'')]\<rparr>"

definition demo_report_options :: ReportOptions where
  "demo_report_options = \<lparr>ro_format = format_json_lines, ro_include_sections = True, ro_include_segments = True,
     ro_include_symbols = True, ro_include_imports = True, ro_include_exports = True, ro_include_relocations = True,
     ro_include_metrics = False, ro_include_hardening = False, ro_maximum_items = 2\<rparr>"

theorem json_roundtrip_witness:
  "case write_report demo_doubles demo_limits demo_report_options demo_report_image of Inl e \<Rightarrow> False
   | Inr out \<Rightarrow> map_option (map ji_name) (read_lines (length out) out) =
       Some [[quote_char, CHR ''a'', newline], [backslash]]"
proof -
  have valid: "rep_valid (validate demo_limits demo_report_image)"
    using validate_iff [of demo_report_image demo_limits]
    by (simp add: demo_report_image_def empty_image_def image_valid_def section_valid_def power_of_two_def
        demo_limits_def default_limits_def numeral_3_eq_3 All_less_Suc)
  obtain out where out: "write_report demo_doubles demo_limits demo_report_options demo_report_image = Inr out"
    using valid by (simp add: write_report_def demo_report_options_def demo_limits_def default_limits_def Let_def)
  show ?thesis
    using json_roundtrip [OF out] unfolding out
    by (simp add: demo_report_options_def demo_report_image_def report_items_def empty_image_def)
qed

end
