(* ===== verification/Command_Tool.thy ===== *)
theory Command_Tool
  imports Json_Report Loader Binary_Parser Scanners Manifest
begin

unbundle bit_operations_syntax

text \<open>
  The command line tool of \<open>tools/binforge.cc\<close>: one run as a function of the arguments and the file system. It reads a file,
  parses it and hands the image to the report writer, the loader, the string scanner, the hardening analyzer
  or the manifest encoder, all with the default limits.
\<close>

section \<open>Runs\<close>


text \<open>
  The exit status, the two output streams, and the file with the bytes that were handed to a stream that took
  them, if any.
\<close>

record Outcome =
  run_status :: nat
  run_stdout :: string
  run_stderr :: string
  run_file :: "(string \<times> bytes) option"

definition succeeds :: "string \<Rightarrow> Outcome" where
  "succeeds out = \<lparr>run_status = 0, run_stdout = out, run_stderr = [], run_file = None\<rparr>"

definition fails :: "nat \<Rightarrow> string \<Rightarrow> Outcome" where
  "fails status message = \<lparr>run_status = status, run_stdout = [], run_stderr = message, run_file = None\<rparr>"

definition print_error :: "Error \<Rightarrow> Outcome" where
  "print_error e = fails 1 (error_code_name (err_code e) @ '' at '' @ decimal (err_offset e) @ '': '' @ err_message e @ [newline])"


section \<open>Numbers on the command line\<close>





section \<open>Commands\<close>















section \<open>What a run answers\<close>

text \<open>
  The commands as rules, one for each command and way to end, over what the library returns for the image:
  the exit status, the standard output, the error stream and the file.
\<close>

type_synonym answer = "nat \<times> string \<times> string \<times> (string \<times> bytes) option"

definition says :: "string \<Rightarrow> answer" where
  "says out = (0, out, [], None)"

definition refuses :: "Error \<Rightarrow> answer" where
  "refuses e = (1, [], concat [error_code_name (err_code e), '' at '', decimal (err_offset e), '': '', err_message e, [newline]], None)"

definition complains :: "string \<Rightarrow> answer" where
  "complains message = (2, [], message, None)"










definition answer_of :: "Outcome \<Rightarrow> answer" where
  "answer_of r = (run_status r, run_stdout r, run_stderr r, run_file r)"

lemma answer_simps [simp]:
  "answer_of (succeeds out) = says out" "answer_of (print_error e) = refuses e"
  "answer_of (fails 2 message) = complains message"
  "answer_of (succeeds out\<lparr>run_file := f\<rparr>) = (0, out, [], f)"
  by (simp_all add: answer_of_def succeeds_def says_def print_error_def fails_def refuses_def complains_def)















section \<open>Properties\<close>





end
