(* ===== verification/Spec2Isabelle.thy ===== *)
theory Spec2Isabelle
  imports Leb128 Loader Patch_Container Snapshot Layout Symbol_Index Manifest Binary_Parser
    Builder Section_Components Branch_Targets Debug_Lines Note_Records Dynamic_Report Image_Diff Unwind_Tables Export_Tables Resource_Tree
    Pe_Format String_Scan Query Image_Metrics Dependencies Hardening Json_Report Command_Tool
begin

text \<open>
  BinForge (\<open>src/\<close>) reads executable files into a normalized image, validates the image, loads it into a
  simulated address space, patches and snapshots that memory, decodes and analyzes what the file holds,
  and stores images, patch plans and snapshots in containers of its own. This development models the
  library and its command line tool, and proves what they promise.

  The parts and how they interact. \<open>BinaryParser\<close> tells the format of a file and runs \<open>ElfParser\<close>,
  \<open>PeParser\<close> or \<open>MachOParser\<close>, which return a \<open>BinaryImage\<close>: header, sections, segments, symbols,
  relocations, imports, exports and debug units. \<open>BinaryValidator\<close> checks an image against its file and the
  limits; the loader, the planner, the manifest decoder and several analyses call it. \<open>BinaryLoader\<close>
  maps the segments into an \<open>AddressSpace\<close>, applies the relocations and fills the import slots from a
  \<open>SymbolResolver\<close>. \<open>PatchEngine\<close> edits an address space as a transaction and \<open>MemorySnapshotCodec\<close> copies
  one out and back. Further parsers read the tables a section or directory holds: debug information,
  unwind tables, notes, the ELF dynamic table, PE imports, exports and resources. The disassemblers, the
  scanners, the queries, the differ and the analyzers answer questions about an image; the report writer
  and the tool print the answers. All reading of tables goes through \<open>ByteReader\<close>.

  Ground.
    \<^item> \<open>Prelude\<close>: machine types (\<open>u8\<close> to \<open>u64\<close> are words of their width), byte strings and their integers in
      both byte orders, the facts on words and lists that the rest uses. \<open>Decimal\<close>: decimal numbers.
    \<^item> \<open>Base\<close>: \<open>src/base.cc\<close> and the vocabulary of \<open>include/binforge/binforge.h\<close>. Structures are records,
      enumerations datatypes; \<open>Error\<close> is a value. Locale \<open>checked_op\<close>: checked arithmetic agrees with
      arithmetic on naturals or fails.
    \<^item> \<open>Byte_Reader\<close>, \<open>Leb128\<close>, \<open>Progress\<close>: \<open>src/reader.cc\<close>. A reader is a record of data, position and byte
      order that each operation returns. \<open>moves\<close>, \<open>field\<close> and \<open>past\<close> say which bytes an operation consumed;
      the locales \<open>decoder\<close>, \<open>lossy_codec\<close> and \<open>codec\<close> state what a reading and a writing routine owe each
      other. \<open>Leb128\<close> relates the two LEB128 loops to numbers, \<open>Progress\<close> shows that readers go forward.
    \<^item> \<open>Ordered_Map\<close>: \<open>std::map\<close> with its iterators as far as the library uses them, under the locales
      \<open>key_map\<close> and \<open>ordered_key_map\<close>.

  Memory.
    \<^item> \<open>Address_Space\<close>, \<open>Symbol_Resolver\<close>: \<open>src/address_space.cc\<close>. The state is the ordered map of regions with
      the running byte count; \<open>as_byte\<close> abstracts it to a partial function from addresses to bytes, \<open>as_step\<close>
      is the step relation of the public operations.
    \<^item> \<open>Validator\<close>: \<open>src/validator.cc\<close>. \<open>Loader\<close>: \<open>src/loader.cc\<close>, relocation processor included. \<open>Layout\<close>:
      \<open>src/layout.cc\<close>. \<open>Symbol_Index\<close>: \<open>src/symbol_index.cc\<close>. \<open>Builder\<close>: \<open>src/builder.cc\<close>.
    \<^item> \<open>Container\<close>: the checksum trailer of the three containers under the locale \<open>sealed\<close>. \<open>Patch_Engine\<close>
      and \<open>Patch_Container\<close>: \<open>src/patch_engine.cc\<close>. \<open>Snapshot\<close>: \<open>src/snapshot.cc\<close>. \<open>Manifest\<close>:
      \<open>src/manifest.cc\<close>, with the locale \<open>table_codec\<close> for its tables.

  Files.
    \<^item> \<open>Relocation_Decoder\<close>: \<open>src/relocation_decoder.cc\<close>.
    \<^item> \<open>Elf_Parser\<close>: \<open>src/elf_parser.cc\<close>. \<open>Elf_Image\<close> turns each of its reads into fields at their offsets;
      \<open>Elf_Format\<close> writes the format down without the code and shows that the parser returns what it says.
    \<^item> \<open>Pe_Parser\<close>: \<open>src/pe_parser.cc\<close>, with \<open>Pe_Image\<close> and \<open>Pe_Format\<close> in the same roles.
    \<^item> \<open>Macho_Parser\<close>: \<open>src/macho_parser.cc\<close>. \<open>Binary_Parser\<close>: \<open>src/parser.cc\<close>.
    \<^item> \<open>Notes\<close> and \<open>Note_Records\<close>: \<open>src/notes.cc\<close>. \<open>Elf_Dynamic\<close> and \<open>Dynamic_Report\<close>: \<open>src/elf_dynamic.cc\<close>.
      \<open>Pe_Imports\<close> and \<open>Import_Tables\<close>, \<open>Pe_Exports\<close> and \<open>Export_Tables\<close>: \<open>src/pe_imports.cc\<close>. \<open>Pe_Resources\<close>
      and \<open>Resource_Tree\<close>: \<open>src/pe_resources.cc\<close>. \<open>Unwind\<close> and \<open>Unwind_Tables\<close>: \<open>src/unwind.cc\<close>. The first
      theory of each pair holds the code, the second the format and the theorem.
    \<^item> \<open>Debug_Info\<close>: \<open>src/debug_info.cc\<close>. \<open>Debug_Lines\<close> is the line machine, \<open>Debug_Entries\<close> the grammar of the
      entry tree.

  Analyses.
    \<^item> \<open>Disassembly\<close>: \<open>src/disassembler.cc\<close> and \<open>src/fixed_disassemblers.cc\<close>, three decoders under the locale
      \<open>disassembler\<close>. \<open>Branch_Targets\<close>: encoders for the branches. \<open>Code_Analysis\<close>:
      \<open>src/disassembly_analyzer.cc\<close>, with \<open>Sweep\<close> and \<open>Basic_Blocks\<close> on its two halves.
    \<^item> \<open>Section_Graph\<close> and \<open>Section_Components\<close>: \<open>src/section_graph.cc\<close>; the second theory proves Tarjan's
      algorithm in the locale \<open>section_graph\<close>, interpreted on the adjacency lists of an image.
    \<^item> \<open>Scanners\<close>: \<open>src/scanners.cc\<close>, with \<open>Utf8\<close>, \<open>String_Scan\<close> and \<open>Signatures\<close>. \<open>Query\<close>: \<open>src/query.cc\<close>.
      \<open>Image_Diff\<close>: \<open>src/image_diff.cc\<close>. \<open>Image_Metrics\<close> and \<open>Dependencies\<close>: \<open>src/image_analyzer.cc\<close>. \<open>Hardening\<close>:
      \<open>src/hardening.cc\<close>.
    \<^item> \<open>Report_Writer\<close>: \<open>src/report_writer.cc\<close>; \<open>Json_Report\<close> reads its JSON back. \<open>Command_Tool\<close>:
      \<open>tools/binforge.cc\<close>, as a function of the arguments and a file system.

  Conventions. An operation that fails returns \<open>Inl\<close> of the error, with the object the source leaves
  behind where it is observable: the memory after a failed load, the list a decoder has appended to, the
  unit a debug parser has half filled. Where the source fails without an error the model does too
  (\<open>Inl None\<close>). Sizes are words, so every overflow of the source is in the model. A \<open>std::vector\<close> is a
  list; lists are shorter than \<open>2 ^ 64\<close> where a theorem needs it, which is an assumption of the theorem. \<open>std::map\<close>
  keeps its order, \<open>std::sort\<close> is a stable sort. The arithmetic on \<open>double\<close> is a parameter (\<open>doubles\<close>),
  applied as the code applies it.

  What the lemmas show. Address space: the region invariant over all reachable states and reads after
  writes. Loader: what memory holds after a load, what a load cannot
  change, the value every relocation stores. Validator: acceptance is consistency of the tables. Patches:
  a failed patch changes nothing. Snapshots: a restore replaces the whole memory or nothing. Containers:
  decode inverts encode, and no changed byte goes unnoticed. Parsers and decoders of tables: acceptance and
  result by the bytes of the format. Disassembly: every sweep ends, blocks by their leaders, branch
  targets by the encodings. Section graph: the strongly connected components. Layout, symbol index, query,
  differ, metrics, dependencies, hardening: the answer by a declarative description of the image. Scanners:
  every string and match is in the file. Reports read back. The tool answers as its rules say.

  Loops and bounds. Loops over a vector are recursion on the list. The other loops are functions with a
  measure: the shift below 64 (LEB128), the bytes that remain of the reader or the buffer (debug
  information, notes, unwind records, relocation blocks, scans, the sweep), the entries that remain of a
  table (COFF symbols, import descriptors), the sections not yet visited (Tarjan's recursion, whose calls
  are nested in their own arguments). The walk of the PE resource tree is a recursion on the levels it may
  still go down, \<open>max_debug_depth + 1\<close> at the root, as the source bounds it; a directory that contains
  itself is refused before. All return on every input.

  Not modelled: the fuzz harnesses, the tests and the generator of their corpus, which only drive the
  library; the buffering of output streams, so that a write that fails when its file is closed is not seen;
  the depth of the C++ call stack, allocation failure and concurrency (the library has no threads). A read
  of the source past the end of a buffer is modelled by the bytes that are there.
\<close>

end
